(* ===== verification/Prelude.thy ===== *)
theory Prelude
  imports Main "HOL-Library.Monad_Syntax"
begin

text \<open>
  Shared vocabulary of the development.

  Two result types stand for Rust's ways of not returning a value. Where the reason matters
  (assertions with a message, as in \<^verbatim>\<open>linked_list.rs\<close>) a computation has type
  \<open>panic + 'a\<close>, composed with \<open>rbind\<close>. Where it does not (an \<open>unwrap\<close>, an \<open>expect\<close>, an
  index out of range, or a recursion that need not end) it has type \<open>'a option\<close>, composed
  with the \<open>do\<close> syntax of the library, and returning is a theorem.

  The rest is generic: lemmas on lists that several components use, and the collections
  \<open>res_simps\<close> (evaluation of results) and \<open>list_facts\<close>.
\<close>

named_theorems res_simps \<open>evaluation of the result monads\<close>
named_theorems list_facts \<open>facts on lists shared by the components\<close>

section \<open>Panics as values\<close>

datatype panic = Panic string

type_synonym 'a outcome = "panic + 'a"

definition rbind :: "'e + 'a \<Rightarrow> ('a \<Rightarrow> 'e + 'b) \<Rightarrow> 'e + 'b" where
  "rbind x f = (case x of Inl e \<Rightarrow> Inl e | Inr a \<Rightarrow> f a)"

definition ensure :: "bool \<Rightarrow> string \<Rightarrow> unit outcome" where
  "ensure b msg = (if b then Inr () else Inl (Panic msg))"

definition unwrap_or_panic :: "'a option \<Rightarrow> string \<Rightarrow> 'a outcome" where
  "unwrap_or_panic x msg = (case x of None \<Rightarrow> Inl (Panic msg) | Some a \<Rightarrow> Inr a)"

lemma rbind_Inl [simp, res_simps]: "rbind (Inl e) f = Inl e"
  by (simp add: rbind_def)

lemma rbind_Inr [simp, res_simps]: "rbind (Inr a) f = f a"
  by (simp add: rbind_def)

lemma rbind_eq_Inr [res_simps]: "rbind x f = Inr b \<longleftrightarrow> (\<exists>a. x = Inr a \<and> f a = Inr b)"
  by (cases x) simp_all

lemma ensure_True [simp, res_simps]: "ensure True msg = Inr ()"
  by (simp add: ensure_def)

lemma ensure_False [simp, res_simps]: "ensure False msg = Inl (Panic msg)"
  by (simp add: ensure_def)

lemma ensure_eq_Inr [simp, res_simps]: "ensure b msg = Inr u \<longleftrightarrow> b"
  by (simp add: ensure_def)

lemma unwrap_Some [simp, res_simps]: "unwrap_or_panic (Some a) msg = Inr a"
  by (simp add: unwrap_or_panic_def)

lemma unwrap_None [simp, res_simps]: "unwrap_or_panic None msg = Inl (Panic msg)"
  by (simp add: unwrap_or_panic_def)

lemma unwrap_eq_Inr [simp, res_simps]: "unwrap_or_panic x msg = Inr a \<longleftrightarrow> x = Some a"
  by (cases x) simp_all

section \<open>Optional results\<close>

text \<open>\<open>ocheck b\<close> goes on when \<open>b\<close> holds and fails otherwise, as an assertion does.\<close>

definition ocheck :: "bool \<Rightarrow> unit option" where
  "ocheck b = (if b then Some () else None)"

lemma ocheck_eq [simp, res_simps]: "ocheck True = Some ()" "ocheck False = None"
  by (simp_all add: ocheck_def)

lemma ocheck_Some [simp, res_simps]: "ocheck b = Some u \<longleftrightarrow> b"
  by (simp add: ocheck_def)

text \<open>Bounds-checked indexing and update, as \<open>v[i]\<close> on a vector: out of range fails.\<close>

definition oget :: "'a list \<Rightarrow> nat \<Rightarrow> 'a option" where
  "oget xs i = (if i < length xs then Some (xs ! i) else None)"

lemma oget_Some [simp, res_simps]: "oget xs i = Some x \<longleftrightarrow> i < length xs \<and> xs ! i = x"
  by (simp add: oget_def)

lemma oget_in [simp]: "i < length xs \<Longrightarrow> oget xs i = Some (xs ! i)"
  by (simp add: oget_def)

text \<open>\<open>all\<close>, \<open>any\<close> and \<open>map\<close> over functions that may fail; \<open>oall\<close> and \<open>oany\<close> stop early, as iterators do.\<close>

fun oall :: "('a \<Rightarrow> bool option) \<Rightarrow> 'a list \<Rightarrow> bool option" where
  "oall P [] = Some True"
| "oall P (x # xs) = Option.bind (P x) (\<lambda>b. if b then oall P xs else Some False)"

fun oany :: "('a \<Rightarrow> bool option) \<Rightarrow> 'a list \<Rightarrow> bool option" where
  "oany P [] = Some False"
| "oany P (x # xs) = Option.bind (P x) (\<lambda>b. if b then Some True else oany P xs)"

fun omap :: "('a \<Rightarrow> 'b option) \<Rightarrow> 'a list \<Rightarrow> 'b list option" where
  "omap f [] = Some []"
| "omap f (x # xs) = Option.bind (f x) (\<lambda>y. Option.bind (omap f xs) (\<lambda>ys. Some (y # ys)))"

lemma oall_Some: "(\<And>x. x \<in> set xs \<Longrightarrow> P x = Some (Q x)) \<Longrightarrow> oall P xs = Some (\<forall>x \<in> set xs. Q x)"
  by (induction xs) auto

lemma oany_Some: "(\<And>x. x \<in> set xs \<Longrightarrow> P x = Some (Q x)) \<Longrightarrow> oany P xs = Some (\<exists>x \<in> set xs. Q x)"
  by (induction xs) auto

lemma omap_Some: "(\<And>x. x \<in> set xs \<Longrightarrow> f x = Some (h x)) \<Longrightarrow> omap f xs = Some (map h xs)"
  by (induction xs) auto

lemma omap_map [simp, res_simps]: "omap f (map h xs) = omap (\<lambda>x. f (h x)) xs"
  by (induction xs) auto

section \<open>Lists\<close>

lemma distinct_concat_rev [simp, list_facts]: "distinct (concat (rev xss)) \<longleftrightarrow> distinct (concat xss)"
  by (induction xss) auto

lemma distinct_concat_map [list_facts]:
  assumes "distinct xs" and "\<forall>x \<in> set xs. distinct (f x)"
    and "\<forall>x \<in> set xs. \<forall>y \<in> set xs. x \<noteq> y \<longrightarrow> set (f x) \<inter> set (f y) = {}"
  shows "distinct (concat (map f xs))"
  using assms
proof (induction xs)
  case (Cons x xs)
  have "set (f x) \<inter> set (f y) = {}" if "y \<in> set xs" for y using Cons.prems(1,3) that by auto
  then show ?case using Cons by auto
qed simp

end
