(* ===== verification/UnionFind.thy ===== *)
theory UnionFind
  imports Prelude
begin

text \<open>
  Model of \<^verbatim>\<open>src/src/utils/union_find.rs\<close>: a disjoint-set structure with path compression and
  union by size, whose parent links and member lists are hash maps (here partial functions).

  \<open>find\<close> recurses along parent links, which ends only when the links are acyclic, so the model
  is a \<^theory_text>\<open>partial_function (option)\<close>: \<open>None\<close> is a recursion that never returns, or one
  of the panics of \<open>union\<close> and \<open>set_members\<close> (an absent member list). The invariant
  \<open>uf_ok\<close> relates a state to its abstract partition \<open>rep\<close> (each known element's representative)
  and to a height that decreases along parent links; under it every operation returns and
  acts on \<open>rep\<close> as the documentation says. The main results state this for any sequence
  of unions, with no hypothesis.
\<close>

section \<open>State and operations\<close>

record 't union_find =
  parent :: "'t \<rightharpoonup> 't"
  members :: "'t \<rightharpoonup> 't list"

definition uf_default :: "'t union_find" where
  "uf_default = \<lparr>parent = Map.empty, members = Map.empty\<rparr>"

partial_function (option) find :: "'t union_find \<Rightarrow> 't \<Rightarrow> ('t \<times> 't union_find) option" where
  "find s v =
     (case parent s v of
        None \<Rightarrow> Some (v, s\<lparr>parent := (parent s)(v \<mapsto> v), members := (members s)(v \<mapsto> [v])\<rparr>)
      | Some p \<Rightarrow>
          if p = v then Some (v, s)
          else do {
            (root, s) \<leftarrow> find s p;
            Some (root, s\<lparr>parent := (parent s)(v \<mapsto> root)\<rparr>)
          })"

declare find.simps [code]

definition union :: "'t union_find \<Rightarrow> 't \<Rightarrow> 't \<Rightarrow> 't union_find option" where
  "union s a b = do {
     (ra, s) \<leftarrow> find s a;
     (rb, s) \<leftarrow> find s b;
     if ra = rb then Some s
     else do {
       ma \<leftarrow> members s ra;
       mb \<leftarrow> members s rb;
       (let (big, small) = (if length mb \<le> length ma then (ra, rb) else (rb, ra));
            s = s\<lparr>parent := (parent s)(small \<mapsto> big)\<rparr>
        in do {
          small_members \<leftarrow> members s small;
          (let s = s\<lparr>members := (members s)(small := None)\<rparr>
           in do {
             big_members \<leftarrow> members s big;
             Some (s\<lparr>members := (members s)(big \<mapsto> big_members @ small_members)\<rparr>)
           })
        })
     }
   }"

definition in_same_set :: "'t union_find \<Rightarrow> 't \<Rightarrow> 't \<Rightarrow> (bool \<times> 't union_find) option" where
  "in_same_set s a b = do {
     (ra, s) \<leftarrow> find s a;
     (rb, s) \<leftarrow> find s b;
     Some (ra = rb, s)
   }"

definition set_members :: "'t union_find \<Rightarrow> 't \<Rightarrow> ('t list \<times> 't union_find) option" where
  "set_members s v = do {
     (root, s) \<leftarrow> find s v;
     ms \<leftarrow> members s root;
     Some (ms, s)
   }"

text \<open>A client that starts from \<open>default\<close> and performs a list of unions.\<close>

fun uf_unions :: "'t union_find \<Rightarrow> ('t \<times> 't) list \<Rightarrow> 't union_find option" where
  "uf_unions s [] = Some s"
| "uf_unions s ((a, b) # es) = do { s \<leftarrow> union s a b; uf_unions s es }"

section \<open>The invariant and its abstraction\<close>

definition uf_links :: "'t union_find \<Rightarrow> ('t \<rightharpoonup> 't) \<Rightarrow> ('t \<Rightarrow> nat) \<Rightarrow> bool" where
  "uf_links s rep h \<longleftrightarrow>
     dom rep = dom (parent s) \<and>
     (\<forall>v p. parent s v = Some p \<longrightarrow> rep p = rep v \<and> p \<in> dom rep \<and> (p = v \<longrightarrow> rep v = Some v)
        \<and> (p \<noteq> v \<longrightarrow> h p < h v)) \<and>
     (\<forall>v r. rep v = Some r \<longrightarrow> parent s r = Some r)"

definition uf_lists :: "'t union_find \<Rightarrow> ('t \<rightharpoonup> 't) \<Rightarrow> bool" where
  "uf_lists s rep \<longleftrightarrow>
     (\<forall>r ms. members s r = Some ms \<longrightarrow> rep r = Some r \<and> distinct ms \<and> set ms = {v. rep v = Some r}) \<and>
     (\<forall>r. rep r = Some r \<longrightarrow> members s r \<noteq> None)"

definition uf_ok :: "'t union_find \<Rightarrow> ('t \<rightharpoonup> 't) \<Rightarrow> ('t \<Rightarrow> nat) \<Rightarrow> bool" where
  "uf_ok s rep h \<longleftrightarrow> uf_links s rep h \<and> uf_lists s rep"

text \<open>What registering an element, and what a union, do to the partition.\<close>

definition rep_add :: "('t \<rightharpoonup> 't) \<Rightarrow> 't \<Rightarrow> ('t \<rightharpoonup> 't)" where
  "rep_add rep v = (if rep v = None then rep(v \<mapsto> v) else rep)"

definition rep_link :: "('t \<rightharpoonup> 't) \<Rightarrow> 't \<Rightarrow> 't \<Rightarrow> ('t \<rightharpoonup> 't)" where
  "rep_link rep small big = (\<lambda>v. if rep v = Some small then Some big else rep v)"

lemma uf_linksD:
  assumes "uf_links s rep h"
  shows "dom rep = dom (parent s)"
    and "parent s v = Some p \<Longrightarrow> rep p = rep v"
    and "parent s v = Some v \<Longrightarrow> rep v = Some v"
    and "parent s v = Some p \<Longrightarrow> p \<noteq> v \<Longrightarrow> h p < h v"
    and "rep v = Some r \<Longrightarrow> parent s r = Some r"
    and "rep v = Some r \<Longrightarrow> rep r = Some r"
    and "rep v = None \<longleftrightarrow> parent s v = None"
  using assms unfolding uf_links_def by (blast, blast, blast, blast, blast, metis, blast)

lemma uf_linksI:
  assumes "dom rep = dom (parent s)"
    and "\<And>v p. parent s v = Some p \<Longrightarrow> rep p = rep v"
    and "\<And>v. parent s v = Some v \<Longrightarrow> rep v = Some v"
    and "\<And>v p. parent s v = Some p \<Longrightarrow> p \<noteq> v \<Longrightarrow> h p < h v"
    and "\<And>v r. rep v = Some r \<Longrightarrow> parent s r = Some r"
  shows "uf_links s rep h"
proof -
  have "p \<in> dom rep" if "parent s v = Some p" for v p
  proof -
    have "rep v \<noteq> None" using that assms(1) by (metis domI domIff)
    then show ?thesis using assms(2)[OF that] by (simp add: domIff)
  qed
  then show ?thesis using assms unfolding uf_links_def by blast
qed

lemma uf_listsD:
  assumes "uf_lists s rep"
  shows "members s r = Some ms \<Longrightarrow> set ms = {v. rep v = Some r}"
    and "members s r = Some ms \<Longrightarrow> distinct ms"
    and "rep r = Some r \<Longrightarrow> \<exists>ms. members s r = Some ms"
  using assms unfolding uf_lists_def by (blast, blast, blast)

text \<open>The representative is at the bottom of the chain of links, so strictly lower.\<close>

lemma rep_lower:
  assumes "uf_links s rep h" and "rep v = Some r" and "r \<noteq> v"
  shows "h r < h v"
  using assms(2,3)
proof (induction "h v" arbitrary: v rule: less_induct)
  case less
  obtain p where p: "parent s v = Some p"
    using uf_linksD(7)[OF assms(1), of v] less.prems by fastforce
  have pv: "p \<noteq> v"
  proof
    assume "p = v"
    then have "rep v = Some v" using p uf_linksD(3)[OF assms(1)] by simp
    with less.prems show False by simp
  qed
  have hp: "h p < h v" using uf_linksD(4)[OF assms(1) p pv] .
  show ?case
  proof (cases "p = r")
    case False
    have "rep p = Some r" using uf_linksD(2)[OF assms(1) p] less.prems by simp
    then have "h r < h p" using less.hyps[OF hp] False by simp
    then show ?thesis using hp by simp
  qed (use hp in simp)
qed

lemma uf_ok_default: "uf_ok uf_default Map.empty (\<lambda>_. 0)"
  by (simp add: uf_ok_def uf_links_def uf_lists_def uf_default_def)

section \<open>Correctness of the operations\<close>

text \<open>Two writes keep the invariant: registering a fresh element, and compressing a path.\<close>

lemma uf_links_register:
  assumes "uf_links s rep h" and "parent s v = None"
  shows "uf_links (s\<lparr>parent := (parent s)(v \<mapsto> v), members := ms\<rparr>) (rep(v \<mapsto> v)) h"
proof -
  note D = uf_linksD[OF assms(1)]
  have v: "rep v = None" using D(7) assms(2) by blast
  have np: "parent s x = Some p \<Longrightarrow> p \<noteq> v" for x p
    using assms(1) v unfolding uf_links_def by (metis domIff)
  have nr: "rep x = Some r \<Longrightarrow> r \<noteq> v" for x r
    using D(6) v by fastforce
  show ?thesis
  proof (rule uf_linksI)
    fix x p assume "parent (s\<lparr>parent := (parent s)(v \<mapsto> v), members := ms\<rparr>) x = Some p"
    then show "(rep(v \<mapsto> v)) p = (rep(v \<mapsto> v)) x"
      using D(2)[of x p] np[of x p] by (auto split: if_splits)
  next
    fix x assume "parent (s\<lparr>parent := (parent s)(v \<mapsto> v), members := ms\<rparr>) x = Some x"
    then show "(rep(v \<mapsto> v)) x = Some x" using D(3)[of x] by (cases "x = v") simp_all
  next
    fix x r assume "(rep(v \<mapsto> v)) x = Some r"
    then show "parent (s\<lparr>parent := (parent s)(v \<mapsto> v), members := ms\<rparr>) r = Some r"
      using D(5)[of x r] nr[of x r] by (auto split: if_splits)
  next
    show "dom (rep(v \<mapsto> v)) = dom (parent (s\<lparr>parent := (parent s)(v \<mapsto> v), members := ms\<rparr>))"
      using D(1) by simp
  next
    fix x p assume "parent (s\<lparr>parent := (parent s)(v \<mapsto> v), members := ms\<rparr>) x = Some p" "p \<noteq> x"
    then show "h p < h x" using D(4)[of x p] by (auto split: if_splits)
  qed
qed

lemma uf_links_compress:
  assumes "uf_links s rep h" and "rep v = Some r"
  shows "uf_links (s\<lparr>parent := (parent s)(v \<mapsto> r)\<rparr>) rep h"
proof -
  note D = uf_linksD[OF assms(1)]
  have rr: "rep r = Some r" using D(6)[OF assms(2)] .
  have vp: "v \<in> dom (parent s)" using assms(2) D(1) by blast
  show ?thesis
  proof (rule uf_linksI)
    show "dom rep = dom (parent (s\<lparr>parent := (parent s)(v \<mapsto> r)\<rparr>))" using D(1) vp by auto
  next
    fix x p assume "parent (s\<lparr>parent := (parent s)(v \<mapsto> r)\<rparr>) x = Some p"
    then show "rep p = rep x" using D(2)[of x p] rr assms(2) by (auto split: if_splits)
  next
    fix x assume "parent (s\<lparr>parent := (parent s)(v \<mapsto> r)\<rparr>) x = Some x"
    then show "rep x = Some x" using D(3)[of x] assms(2) by (auto split: if_splits)
  next
    fix x p assume "parent (s\<lparr>parent := (parent s)(v \<mapsto> r)\<rparr>) x = Some p" "p \<noteq> x"
    then show "h p < h x" using D(4)[of x p] rep_lower[OF assms] by (auto split: if_splits)
  next
    fix x q assume "rep x = Some q"
    then show "parent (s\<lparr>parent := (parent s)(v \<mapsto> r)\<rparr>) q = Some q"
      using D(5)[of x q] D(6)[of x q] assms(2) by auto
  qed
qed

lemma uf_ok_register:
  assumes "uf_ok s rep h" and "parent s v = None"
  shows "uf_ok (s\<lparr>parent := (parent s)(v \<mapsto> v), members := (members s)(v \<mapsto> [v])\<rparr>) (rep(v \<mapsto> v)) h"
proof -
  have L: "uf_links s rep h" and M: "uf_lists s rep" using assms(1) by (auto simp: uf_ok_def)
  have v: "rep v = None" using uf_linksD(7)[OF L] assms(2) by blast
  have fresh: "rep x \<noteq> Some v" for x using uf_linksD(6)[OF L] v by fastforce
  have "uf_lists (s\<lparr>parent := (parent s)(v \<mapsto> v), members := (members s)(v \<mapsto> [v])\<rparr>) (rep(v \<mapsto> v))"
    using M fresh v by (auto simp: uf_lists_def split: if_splits)
  then show ?thesis using uf_links_register[OF L assms(2)] by (simp add: uf_ok_def)
qed

lemma uf_ok_compress:
  assumes "uf_ok s rep h" and "rep v = Some r"
  shows "uf_ok (s\<lparr>parent := (parent s)(v \<mapsto> r)\<rparr>) rep h"
  using assms uf_links_compress by (auto simp: uf_ok_def uf_lists_def)

text \<open>\<open>find\<close> returns the representative and changes the partition only by adding its argument.\<close>

lemma find_refines:
  assumes "uf_ok s rep h"
  shows "\<exists>r s'. find s v = Some (r, s') \<and> uf_ok s' (rep_add rep v) h \<and> rep_add rep v v = Some r"
  using assms
proof (induction "h v" arbitrary: v rule: less_induct)
  case less
  have L: "uf_links s rep h" using less.prems by (simp add: uf_ok_def)
  show ?case
  proof (cases "parent s v")
    case None
    then have "rep v = None" using uf_linksD(7)[OF L] by blast
    then show ?thesis using uf_ok_register[OF less.prems None] None
      by (simp add: find.simps rep_add_def)
  next
    case (Some p)
    have known: "rep_add rep v = rep" using uf_linksD(7)[OF L, of v] Some by (auto simp: rep_add_def)
    show ?thesis
    proof (cases "p = v")
      case True
      then show ?thesis using Some known uf_linksD(3)[OF L, of v] less.prems
        by (simp add: find.simps)
    next
      case False
      have hp: "h p < h v" by (rule uf_linksD(4)[OF L Some False])
      have p: "rep p = rep v" by (rule uf_linksD(2)[OF L Some])
      have "rep p \<noteq> None" using p uf_linksD(7)[OF L, of v] Some by auto
      then have "rep_add rep p = rep" by (auto simp: rep_add_def)
      then obtain r s' where r: "find s p = Some (r, s')" "uf_ok s' rep h" "rep p = Some r"
        using less.hyps[OF hp less.prems] by auto
      then show ?thesis using Some False known p uf_ok_compress[OF r(2), of v r]
        by (simp add: find.simps[of s v])
    qed
  qed
qed

text \<open>Linking a root under another keeps the invariant, with the heights of its tree raised.\<close>

lemma uf_links_link:
  assumes "uf_links s rep h" and "rep big = Some big" and "rep small = Some small" and "big \<noteq> small"
  shows "uf_links (s\<lparr>parent := (parent s)(small \<mapsto> big), members := ms\<rparr>) (rep_link rep small big)
    (\<lambda>v. if rep v = Some small then Suc (h v + h big) else h v)"
proof -
  note D = uf_linksD[OF assms(1)]
  let ?s = "s\<lparr>parent := (parent s)(small \<mapsto> big), members := ms\<rparr>"
  show ?thesis
  proof (rule uf_linksI)
    show "dom (rep_link rep small big) = dom (parent ?s)"
      using D(1) assms(2,3) by (auto simp: rep_link_def dom_def split: if_splits)
  next
    fix x p assume "parent ?s x = Some p"
    then show "rep_link rep small big p = rep_link rep small big x"
      using D(2)[of x p] assms(2-4) by (auto simp: rep_link_def split: if_splits)
  next
    fix x assume "parent ?s x = Some x"
    then show "rep_link rep small big x = Some x"
      using D(3)[of x] assms(2-4) by (auto simp: rep_link_def split: if_splits)
  next
    fix x p assume "parent ?s x = Some p" "p \<noteq> x"
    then show "(if rep p = Some small then Suc (h p + h big) else h p)
      < (if rep x = Some small then Suc (h x + h big) else h x)"
      using D(2)[of x p] D(4)[of x p] assms(2-4) by (auto split: if_splits)
  next
    fix x r assume "rep_link rep small big x = Some r"
    then show "parent ?s r = Some r"
      using D(5)[of x r] D(5)[OF assms(2)] assms(4) by (auto simp: rep_link_def split: if_splits)
  qed
qed

lemma uf_lists_link:
  assumes "uf_lists s rep" and "rep big = Some big" and "rep small = Some small" and "big \<noteq> small"
    and "members s big = Some mb" and "members s small = Some ms"
  shows "uf_lists (s\<lparr>parent := pm, members := (members s)(small := None, big \<mapsto> mb @ ms)\<rparr>)
    (rep_link rep small big)"
  using assms unfolding uf_lists_def rep_link_def by (auto split: if_splits)

lemma rep_link_same [simp]: "rep_link rep r r = rep"
  by (auto simp: rep_link_def fun_eq_iff)

lemma rep_add_mono: "rep x = Some r \<Longrightarrow> rep_add rep v x = Some r"
  by (auto simp: rep_add_def)

theorem union_refines:
  assumes "uf_ok s rep h"
  shows "\<exists>s' small big h'. union s a b = Some s'
    \<and> uf_ok s' (rep_link (rep_add (rep_add rep a) b) small big) h'
    \<and> {Some small, Some big} = {rep_add (rep_add rep a) b a, rep_add (rep_add rep a) b b}"
proof -
  let ?rep = "rep_add (rep_add rep a) b"
  obtain ra s1 where a: "find s a = Some (ra, s1)" "uf_ok s1 (rep_add rep a) h" "rep_add rep a a = Some ra"
    using find_refines[OF assms] by blast
  obtain rb s2 where b: "find s1 b = Some (rb, s2)" "uf_ok s2 ?rep h" "?rep b = Some rb"
    using find_refines[OF a(2)] by blast
  have ra: "?rep a = Some ra" using a(3) by (rule rep_add_mono)
  have L: "uf_links s2 ?rep h" and M: "uf_lists s2 ?rep" using b(2) by (auto simp: uf_ok_def)
  show ?thesis
  proof (cases "ra = rb")
    case True
    then have "union s a b = Some s2" using a(1) b(1) by (simp add: union_def)
    then show ?thesis using b(2,3) ra True
      by (intro exI[of _ s2] exI[of _ ra] exI[of _ h]) simp
  next
    case False
    have roots: "?rep ra = Some ra" "?rep rb = Some rb"
      using uf_linksD(6)[OF L ra] uf_linksD(6)[OF L b(3)] .
    obtain ma mb where m: "members s2 ra = Some ma" "members s2 rb = Some mb"
      using uf_listsD(3)[OF M roots(1)] uf_listsD(3)[OF M roots(2)] by blast
    obtain big small mbig msmall where d:
      "(big, small, mbig, msmall) = (if length mb \<le> length ma then (ra, rb, ma, mb) else (rb, ra, mb, ma))"
      by (metis prod.exhaust)
    have un: "union s a b = Some (s2\<lparr>parent := (parent s2)(small \<mapsto> big),
        members := (members s2)(small := None, big \<mapsto> mbig @ msmall)\<rparr>)"
      using a(1) b(1) m False d by (auto simp: union_def split: if_splits)
    have side: "?rep big = Some big" "?rep small = Some small" "big \<noteq> small"
      "members s2 big = Some mbig" "members s2 small = Some msmall" "{small, big} = {ra, rb}"
      using d roots m False by (auto split: if_splits)
    show ?thesis
      using un uf_links_link[OF L side(1-3)] uf_lists_link[OF M side(1-5)] side(6) ra b(3)
      unfolding uf_ok_def by (intro exI conjI) (assumption | auto)+
  qed
qed

section \<open>The partition a list of unions builds\<close>

text \<open>
  Reference: the least equivalence containing the pairs that were united. An element never
  seen before is alone in its class, which is how \<open>find\<close> treats it.
\<close>

definition eqv :: "('t \<times> 't) set \<Rightarrow> ('t \<times> 't) set" where
  "eqv E = (E \<union> E\<inverse>)\<^sup>*"

definition same_class :: "('t \<rightharpoonup> 't) \<Rightarrow> ('t \<times> 't) set" where
  "same_class rep = {(x, y). x = y \<or> (rep x \<noteq> None \<and> rep x = rep y)}"

lemma same_class_add:
  assumes "\<And>x. rep x \<noteq> Some v" and "rep v = None"
  shows "same_class (rep(v \<mapsto> v)) = same_class rep"
proof -
  have "(x, y) \<in> same_class (rep(v \<mapsto> v)) \<longleftrightarrow> (x, y) \<in> same_class rep" for x y
    using assms(1)[of x] assms(1)[of y] assms(2)
    by (cases "x = v"; cases "y = v") (auto simp: same_class_def)
  then show ?thesis by auto
qed

lemma same_class_rep_add:
  assumes "uf_ok s rep h"
  shows "same_class (rep_add rep v) = same_class rep"
proof (cases "rep v")
  case None
  have "rep x \<noteq> Some v" for x
    using assms None uf_linksD(6)[of s rep h x v] by (auto simp: uf_ok_def)
  then show ?thesis using same_class_add[of rep v] None by (simp add: rep_add_def)
qed (simp add: rep_add_def)

lemma eqv_refl [simp]: "(x, x) \<in> eqv E"
  by (simp add: eqv_def)

lemma eqv_sym: "(x, y) \<in> eqv E \<Longrightarrow> (y, x) \<in> eqv E"
  unfolding eqv_def by (metis converse_Un converse_converse rtrancl_converseD sup_commute converse_iff rtrancl_converseI)

lemma eqv_trans: "(x, y) \<in> eqv E \<Longrightarrow> (y, z) \<in> eqv E \<Longrightarrow> (x, z) \<in> eqv E"
  unfolding eqv_def by (rule rtrancl_trans)

lemma eqv_mono: "E \<subseteq> F \<Longrightarrow> eqv E \<subseteq> eqv F"
  unfolding eqv_def by (rule rtrancl_mono) blast

lemma eqv_base: "(x, y) \<in> E \<Longrightarrow> (x, y) \<in> eqv E"
  unfolding eqv_def by blast

lemma eqv_insert:
  "(x, y) \<in> eqv (insert (a, b) E) \<longleftrightarrow>
     (x, y) \<in> eqv E \<or> (x, a) \<in> eqv E \<and> (b, y) \<in> eqv E \<or> (x, b) \<in> eqv E \<and> (a, y) \<in> eqv E"
  (is "?L \<longleftrightarrow> ?R y")
proof
  assume ?L
  then show "?R y" unfolding eqv_def[of "insert (a, b) E"]
  proof (induction rule: rtrancl_induct)
    case (step y z)
    consider (old) "(y, z) \<in> eqv E" | (ab) "y = a" "z = b" | (ba) "y = b" "z = a"
      using step.hyps(2) eqv_base[of y z E] eqv_sym[OF eqv_base[of z y E]] by blast
    then show ?case
    proof cases
      case old
      then show ?thesis using step.IH eqv_trans[OF _ old] by blast
    next
      case ab
      then show ?thesis using step.IH eqv_trans[of x b E a] eqv_sym[of b a E] by auto
    next
      case ba
      then show ?thesis using step.IH eqv_trans[of x a E b] eqv_sym[of a b E] by auto
    qed
  qed simp
next
  assume R: "?R y"
  let ?F = "eqv (insert (a, b) E)"
  have sub: "(u, w) \<in> eqv E \<Longrightarrow> (u, w) \<in> ?F" for u w using eqv_mono[of E "insert (a, b) E"] by blast
  have ab: "(a, b) \<in> ?F" using eqv_base[of a b "insert (a, b) E"] by blast
  show ?L using R
  proof (elim disjE conjE)
    assume "(x, a) \<in> eqv E" "(b, y) \<in> eqv E"
    then show ?L using eqv_trans[OF eqv_trans[OF sub ab] sub] by blast
  next
    assume "(x, b) \<in> eqv E" "(a, y) \<in> eqv E"
    then show ?L using eqv_trans[OF eqv_trans[OF sub eqv_sym[OF ab]] sub] by blast
  qed (rule sub)
qed

lemma same_class_link:
  assumes "rep a = Some ra" and "rep b = Some rb" and "{Some small, Some big} = {rep a, rep b}"
  shows "(x, y) \<in> same_class (rep_link rep small big) \<longleftrightarrow>
     (x, y) \<in> same_class rep \<or> (x, a) \<in> same_class rep \<and> (b, y) \<in> same_class rep
       \<or> (x, b) \<in> same_class rep \<and> (a, y) \<in> same_class rep"
proof -
  from assms consider "small = ra" "big = rb" | "small = rb" "big = ra"
    by (auto simp: doubleton_eq_iff)
  then show ?thesis
    by cases (use assms(1,2) in \<open>auto simp: same_class_def rep_link_def split: if_splits\<close>)
qed

definition uf_represents :: "'t union_find \<Rightarrow> ('t \<times> 't) set \<Rightarrow> bool" where
  "uf_represents s E \<longleftrightarrow> (\<exists>rep h. uf_ok s rep h \<and> same_class rep = eqv E)"

lemma union_represents:
  assumes "uf_represents s E"
  shows "\<exists>s'. union s a b = Some s' \<and> uf_represents s' (insert (a, b) E)"
proof -
  obtain rep h where ok: "uf_ok s rep h" and E: "same_class rep = eqv E"
    using assms by (auto simp: uf_represents_def)
  let ?rep = "rep_add (rep_add rep a) b"
  obtain s' small big h' where u: "union s a b = Some s'"
      "uf_ok s' (rep_link ?rep small big) h'" "{Some small, Some big} = {?rep a, ?rep b}"
    using union_refines[OF ok] by blast
  obtain r1 s1 where f1: "uf_ok s1 (rep_add rep a) h" using find_refines[OF ok] by blast
  have same: "same_class ?rep = eqv E"
    using same_class_rep_add[OF f1] same_class_rep_add[OF ok] E by simp
  obtain ra rb where "?rep a = Some ra" "?rep b = Some rb"
    using u(3) by (metis doubleton_eq_iff)
  then have "same_class (rep_link ?rep small big) = eqv (insert (a, b) E)"
    using same_class_link[OF _ _ u(3)] by (auto simp: same eqv_insert)
  then show ?thesis using u(1,2) by (auto simp: uf_represents_def)
qed

lemma unions_represent:
  "uf_represents s E \<Longrightarrow> \<exists>s'. uf_unions s es = Some s' \<and> uf_represents s' (E \<union> set es)"
proof (induction es arbitrary: s E)
  case (Cons e es)
  obtain a b where e: "e = (a, b)" by fastforce
  from union_represents[OF Cons.prems, of a b] obtain s1
    where "union s a b = Some s1" "uf_represents s1 (insert (a, b) E)" by blast
  with Cons.IH[of s1 "insert (a, b) E"] show ?case by (auto simp: e)
qed simp

lemma default_represents: "uf_represents uf_default {}"
proof -
  have "eqv {} = same_class (Map.empty :: 'a \<rightharpoonup> 'a)" by (auto simp: eqv_def same_class_def)
  then show ?thesis unfolding uf_represents_def using uf_ok_default by metis
qed

lemma find_represents:
  assumes "uf_represents s E"
  shows "\<exists>r s' rep h. find s v = Some (r, s') \<and> uf_ok s' rep h \<and> same_class rep = eqv E \<and> rep v = Some r"
proof -
  obtain rep h where ok: "uf_ok s rep h" "same_class rep = eqv E"
    using assms by (auto simp: uf_represents_def)
  then show ?thesis using find_refines[OF ok(1), of v] same_class_rep_add[OF ok(1), of v] by metis
qed

text \<open>
  C15. \<open>in_same_set\<close> decides the equivalence generated by the unions: after any sequence of
  \<open>union\<close> calls on a fresh structure (none of which panics or diverges), it answers true for
  exactly the pairs connected by the united pairs, and so for elements never seen before too.
\<close>

theorem in_same_set_correct:
  "\<exists>s s' same. uf_unions uf_default es = Some s \<and> in_same_set s a b = Some (same, s')
     \<and> (same \<longleftrightarrow> (a, b) \<in> (set es \<union> (set es)\<inverse>)\<^sup>*)"
proof -
  obtain s where s: "uf_unions uf_default es = Some s" "uf_represents s (set es)"
    using unions_represent[OF default_represents, of es] by auto
  obtain ra s1 rep h where a: "find s a = Some (ra, s1)" "uf_ok s1 rep h"
      "same_class rep = eqv (set es)" "rep a = Some ra"
    using find_represents[OF s(2)] by blast
  obtain rb s2 where b: "find s1 b = Some (rb, s2)" "rep_add rep b b = Some rb"
    using find_refines[OF a(2)] by blast
  have "ra = rb \<longleftrightarrow> (a, b) \<in> same_class (rep_add rep b)"
    using a(4) b(2) rep_add_mono[of rep a ra b] by (auto simp: same_class_def)
  then show ?thesis using s(1) a(1,3) b(1) same_class_rep_add[OF a(2), of b]
    by (simp add: in_same_set_def eqv_def)
qed

text \<open>
  \<open>set_members\<close> enumerates exactly the elements connected to its argument, each once,
  after any sequence of unions.
\<close>

theorem set_members_correct:
  "\<exists>s s' ms. uf_unions uf_default es = Some s \<and> set_members s v = Some (ms, s')
     \<and> distinct ms \<and> set ms = {x. (v, x) \<in> (set es \<union> (set es)\<inverse>)\<^sup>*}"
proof -
  obtain s where s: "uf_unions uf_default es = Some s" "uf_represents s (set es)"
    using unions_represent[OF default_represents, of es] by auto
  obtain r s1 rep h where f: "find s v = Some (r, s1)" "uf_ok s1 rep h"
      "same_class rep = eqv (set es)" "rep v = Some r"
    using find_represents[OF s(2)] by blast
  have L: "uf_links s1 rep h" and M: "uf_lists s1 rep" using f(2) by (auto simp: uf_ok_def)
  obtain ms where ms: "members s1 r = Some ms"
    using uf_listsD(3)[OF M uf_linksD(6)[OF L f(4)]] by (elim exE)
  have "rep x = Some r \<longleftrightarrow> (v, x) \<in> same_class rep" for x
    using f(4) by (cases "rep x") (auto simp: same_class_def)
  then have "set ms = {x. (v, x) \<in> same_class rep}" using uf_listsD(1)[OF M ms] by simp
  then show ?thesis using s(1) f(1,3) ms uf_listsD(2)[OF M ms]
    by (simp add: set_members_def eqv_def)
qed

end
