(* ===== verification/VecExtns.thy ===== *)
theory VecExtns
  imports Prelude
begin

text \<open>
  Model of \<^verbatim>\<open>src/src/utils/vec_exns.rs\<close> (the \<open>Vec\<close> implementation of the trait; the
  \<open>SmallVec\<close> one has the same bodies). A vector is a list; an operation that mutates it returns the
  new vector after its result. An \<open>FnMut\<close> argument is a function with its captured state made
  explicit: it takes the state and the index and returns the element and the new state.
\<close>

definition push_back :: "'a list \<Rightarrow> 'a \<Rightarrow> nat \<times> 'a list" where
  "push_back v t = (let v = v @ [t] in (length v - 1, v))"

definition push_back_with :: "'a list \<Rightarrow> 's \<Rightarrow> ('s \<Rightarrow> nat \<Rightarrow> 'a \<times> 's) \<Rightarrow> nat \<times> 'a list \<times> 's" where
  "push_back_with v st ctor = (let idx = length v; (t, st) = ctor st idx in (idx, v @ [t], st))"

fun position :: "('a \<Rightarrow> bool) \<Rightarrow> 'a list \<Rightarrow> nat option" where
  "position P [] = None"
| "position P (x # xs) = (if P x then Some 0 else map_option Suc (position P xs))"

definition push_unique :: "'a list \<Rightarrow> 'a \<Rightarrow> nat \<times> 'a list" where
  "push_unique v t = (case position (\<lambda>e. e = t) v of Some i \<Rightarrow> (i, v) | None \<Rightarrow> push_back v t)"

text \<open>The loop \<open>for i in lo..hi { v.push(initf(i)) }\<close> of \<open>new_init\<close> and \<open>grow_to\<close>.\<close>

fun push_range :: "('s \<Rightarrow> nat \<Rightarrow> 'a \<times> 's) \<Rightarrow> nat list \<Rightarrow> 'a list \<Rightarrow> 's \<Rightarrow> 'a list \<times> 's" where
  "push_range initf [] v st = (v, st)"
| "push_range initf (i # is) v st = (let (t, st) = initf st i in push_range initf is (v @ [t]) st)"

definition new_init :: "nat \<Rightarrow> 's \<Rightarrow> ('s \<Rightarrow> nat \<Rightarrow> 'a \<times> 's) \<Rightarrow> 'a list \<times> 's" where
  "new_init sz st initf = push_range initf [0..<sz] [] st"

definition grow_to :: "'a list \<Rightarrow> nat \<Rightarrow> 's \<Rightarrow> ('s \<Rightarrow> nat \<Rightarrow> 'a \<times> 's) \<Rightarrow> 'a list \<times> 's" where
  "grow_to v new_size st initf =
     (let current_size = length v
      in if new_size > current_size then push_range initf [current_size..<new_size] v st else (v, st))"

fun collect_unique_into :: "'a list \<Rightarrow> 'a list \<Rightarrow> 'a list" where
  "collect_unique_into collected [] = collected"
| "collect_unique_into collected (item # items) =
     collect_unique_into (snd (push_unique collected item)) items"

definition collect_unique :: "'a list \<Rightarrow> 'a list" where
  "collect_unique items = collect_unique_into [] items"

section \<open>Facts\<close>

lemma position_None [list_facts]: "position P xs = None \<longleftrightarrow> (\<forall>x\<in>set xs. \<not> P x)"
  by (induction xs) auto

lemma position_Some [list_facts]:
  "position P xs = Some i \<longleftrightarrow> i < length xs \<and> P (xs ! i) \<and> (\<forall>j<i. \<not> P (xs ! j))"
proof (induction xs arbitrary: i)
  case (Cons x xs)
  then show ?case by (cases i) (auto simp: All_less_Suc2)
qed simp

lemma position_bound: "position P xs = Some i \<Longrightarrow> i < length xs"
  by (simp add: position_Some)

lemma push_back_eq [simp]: "push_back v t = (length v, v @ [t])"
  by (simp add: push_back_def)

lemma snd_push_unique: "snd (push_unique v t) = (if t \<in> set v then v else v @ [t])"
  by (auto simp: push_unique_def position_Some position_None split: option.split)

text \<open>\<open>push_unique\<close> returns the index of an element equal to its argument and adds no duplicate.\<close>

lemma push_unique_correct:
  assumes "push_unique v t = (i, v')"
  shows "i < length v'" and "v' ! i = t" and "distinct v \<Longrightarrow> distinct v'"
    and "set v' = insert t (set v)" and "t \<in> set v \<Longrightarrow> v' = v"
  using assms by (auto simp: push_unique_def position_Some position_None split: option.splits)

lemma push_range_extends: "\<exists>ys. fst (push_range initf is v st) = v @ ys \<and> length ys = length is"
proof (induction "is" arbitrary: v st)
  case (Cons i "is")
  obtain t st' where t: "initf st i = (t, st')" by fastforce
  show ?case using Cons.IH[of "v @ [t]" st'] t by auto
qed simp

lemma collect_unique_into_eq:
  "collect_unique_into acc items = acc @ rev (filter (\<lambda>x. x \<notin> set acc) (remdups (rev items)))"
proof (induction items arbitrary: acc)
  case (Cons x xs)
  have "filter (\<lambda>y. y \<notin> set acc \<and> y \<noteq> x) (remdups (rev xs))
      = filter (\<lambda>y. y \<notin> set acc) (filter (\<lambda>y. y \<noteq> x) (remdups (rev xs)))"
    by (simp add: conj_commute)
  moreover have "remdups (zs @ [x]) = filter (\<lambda>y. y \<noteq> x) (remdups zs) @ [x]" for zs
    by (induction zs) auto
  ultimately show ?case by (auto simp: Cons.IH snd_push_unique intro!: filter_cong)
qed simp

text \<open>
  \<open>grow_to\<close> never shrinks a vector or changes its elements: the result has the larger of the
  two lengths, starts with the old vector, and is the old vector when that is already long enough.
\<close>

theorem grow_to_extends:
  "length (fst (grow_to v n st initf)) = max n (length v)
     \<and> take (length v) (fst (grow_to v n st initf)) = v
     \<and> (n \<le> length v \<longleftrightarrow> fst (grow_to v n st initf) = v)"
proof -
  obtain ys where ys: "fst (push_range initf [length v..<n] v st) = v @ ys"
      "length ys = length [length v..<n]"
    using push_range_extends[of initf "[length v..<n]" v st] by blast
  show ?thesis
  proof (cases "length v < n")
    case True
    then have "fst (grow_to v n st initf) = v @ ys" using ys by (simp add: grow_to_def)
    then show ?thesis using ys True by auto
  next
    case False
    then show ?thesis by (simp add: grow_to_def)
  qed
qed

text \<open>
  \<open>collect_unique\<close> keeps the first occurrence of each item, in the order of first occurrence:
  it is duplicate removal from the right, with no item lost.
\<close>

theorem collect_unique_first_occurrences:
  "collect_unique items = rev (remdups (rev items)) \<and> distinct (collect_unique items)
     \<and> set (collect_unique items) = set items"
  by (simp add: collect_unique_def collect_unique_into_eq)

end
