(* ===== verification/LinkedList.thy ===== *)
theory LinkedList
  imports Prelude
begin

text \<open>
  Model of \<^verbatim>\<open>src/src/linked_list.rs\<close>: the intrusive doubly linked lists that hold a block's
  operations and a region's blocks. The context's arenas are an explicit store: a partial map from
  node pointers to node fields and one from container pointers to head and tail. Dereferencing
  a dangling pointer, a failed assertion and borrowing an object mutably while it is borrowed are
  panics, values of \<open>panic + store\<close>.

  The abstraction \<open>ll_list\<close> says that a container holds a given list of nodes; the
  invariant \<open>ll_inv\<close> says that every container of the store holds the list an abstract map
  gives it and that every other node is unlinked. Each operation refines one operation on
  those lists.
\<close>

section \<open>The store\<close>

record ('n, 'c) ll_node =
  get_next :: "'n option"
  get_prev :: "'n option"
  get_container :: "'c option"

record 'n ll_root =
  get_head :: "'n option"
  get_tail :: "'n option"

record ('n, 'c) ll_store =
  nodes :: "'n \<rightharpoonup> ('n, 'c) ll_node"
  roots :: "'c \<rightharpoonup> 'n ll_root"

definition deref :: "('n, 'c) ll_store \<Rightarrow> 'n \<Rightarrow> ('n, 'c) ll_node outcome" where
  "deref s n = unwrap_or_panic (nodes s n) ''Dangling Ptr deref''"

definition deref_root :: "('n, 'c) ll_store \<Rightarrow> 'c \<Rightarrow> 'n ll_root outcome" where
  "deref_root s c = unwrap_or_panic (roots s c) ''Dangling Ptr deref''"

definition set_next :: "('n, 'c) ll_store \<Rightarrow> 'n \<Rightarrow> 'n option \<Rightarrow> ('n, 'c) ll_store outcome" where
  "set_next s n x = rbind (deref s n) (\<lambda>nd. Inr (s\<lparr>nodes := (nodes s)(n \<mapsto> nd\<lparr>get_next := x\<rparr>)\<rparr>))"

definition set_prev :: "('n, 'c) ll_store \<Rightarrow> 'n \<Rightarrow> 'n option \<Rightarrow> ('n, 'c) ll_store outcome" where
  "set_prev s n x = rbind (deref s n) (\<lambda>nd. Inr (s\<lparr>nodes := (nodes s)(n \<mapsto> nd\<lparr>get_prev := x\<rparr>)\<rparr>))"

definition set_container :: "('n, 'c) ll_store \<Rightarrow> 'n \<Rightarrow> 'c option \<Rightarrow> ('n, 'c) ll_store outcome" where
  "set_container s n x =
     rbind (deref s n) (\<lambda>nd. Inr (s\<lparr>nodes := (nodes s)(n \<mapsto> nd\<lparr>get_container := x\<rparr>)\<rparr>))"

definition set_head :: "('n, 'c) ll_store \<Rightarrow> 'c \<Rightarrow> 'n option \<Rightarrow> ('n, 'c) ll_store outcome" where
  "set_head s c x = rbind (deref_root s c) (\<lambda>r. Inr (s\<lparr>roots := (roots s)(c \<mapsto> r\<lparr>get_head := x\<rparr>)\<rparr>))"

definition set_tail :: "('n, 'c) ll_store \<Rightarrow> 'c \<Rightarrow> 'n option \<Rightarrow> ('n, 'c) ll_store outcome" where
  "set_tail s c x = rbind (deref_root s c) (\<lambda>r. Inr (s\<lparr>roots := (roots s)(c \<mapsto> r\<lparr>get_tail := x\<rparr>)\<rparr>))"

definition ll_unlinked :: "('n, 'c) ll_node \<Rightarrow> bool" where
  "ll_unlinked nd \<longleftrightarrow> get_prev nd = None \<and> get_next nd = None \<and> get_container nd = None"

section \<open>Operations\<close>

text \<open>
  A write to a node that is mutably borrowed panics. In \<open>insert_after\<close> and \<open>insert_before\<close> the
  mark stays borrowed while its neighbour is read, in \<open>insert_at_front\<close> and \<open>insert_at_back\<close> the
  node itself does: hence the checks against borrowing twice.
\<close>

definition insert_after :: "('n, 'c) ll_store \<Rightarrow> 'n \<Rightarrow> 'n \<Rightarrow> ('n, 'c) ll_store outcome" where
  "insert_after s n mark =
     rbind (deref s n) (\<lambda>node.
     rbind (ensure (ll_unlinked node) ''LinkedList node must be unlinked before relinking'') (\<lambda>_.
     rbind (deref s mark) (\<lambda>mk.
     rbind (ensure (get_container mk \<noteq> None) ''insert_after: Mark node itself is unlinked'') (\<lambda>_.
     rbind (unwrap_or_panic (get_container mk) ''unwrap'') (\<lambda>c.
     rbind (case get_next mk of
              Some nx \<Rightarrow>
                rbind (ensure (nx \<noteq> mark) ''already mutably borrowed'') (\<lambda>_.
                rbind (deref s nx) (\<lambda>nxn.
                rbind (ensure (get_prev nxn = Some mark) ''assertion failed'') (\<lambda>_.
                set_prev s nx (Some n))))
            | None \<Rightarrow>
                rbind (deref_root s c) (\<lambda>r.
                rbind (ensure (get_tail r = Some mark) ''assertion failed'') (\<lambda>_.
                set_tail s c (Some n)))) (\<lambda>s.
     rbind (set_next s mark (Some n)) (\<lambda>s.
     rbind (set_next s n (get_next mk)) (\<lambda>s.
     rbind (set_prev s n (Some mark)) (\<lambda>s.
     set_container s n (Some c))))))))))"

definition insert_before :: "('n, 'c) ll_store \<Rightarrow> 'n \<Rightarrow> 'n \<Rightarrow> ('n, 'c) ll_store outcome" where
  "insert_before s n mark =
     rbind (deref s n) (\<lambda>node.
     rbind (ensure (ll_unlinked node) ''LinkedList node must be unlinked before relinking'') (\<lambda>_.
     rbind (deref s mark) (\<lambda>mk.
     rbind (ensure (get_container mk \<noteq> None) ''insert_before: Mark node itself is unlinked'') (\<lambda>_.
     rbind (unwrap_or_panic (get_container mk) ''unwrap'') (\<lambda>c.
     rbind (case get_prev mk of
              Some pv \<Rightarrow>
                rbind (ensure (pv \<noteq> mark) ''already mutably borrowed'') (\<lambda>_.
                rbind (deref s pv) (\<lambda>pvn.
                rbind (ensure (get_next pvn = Some mark) ''assertion failed'') (\<lambda>_.
                set_next s pv (Some n))))
            | None \<Rightarrow>
                rbind (deref_root s c) (\<lambda>r.
                rbind (ensure (get_head r = Some mark) ''assertion failed'') (\<lambda>_.
                set_head s c (Some n)))) (\<lambda>s.
     rbind (set_prev s mark (Some n)) (\<lambda>s.
     rbind (set_prev s n (get_prev mk)) (\<lambda>s.
     rbind (set_next s n (Some mark)) (\<lambda>s.
     set_container s n (Some c))))))))))"

definition insert_at_front :: "('n, 'c) ll_store \<Rightarrow> 'n \<Rightarrow> 'c \<Rightarrow> ('n, 'c) ll_store outcome" where
  "insert_at_front s n c =
     rbind (deref s n) (\<lambda>node.
     rbind (ensure (ll_unlinked node) ''LinkedList node must be unlinked before relinking'') (\<lambda>_.
     rbind (deref_root s c) (\<lambda>r.
     rbind (case get_head r of
              Some hp \<Rightarrow>
                rbind (ensure (hp \<noteq> n) ''already mutably borrowed'') (\<lambda>_.
                rbind (deref s hp) (\<lambda>hn.
                rbind (ensure (get_prev hn = None) ''assertion failed'') (\<lambda>_.
                set_prev s hp (Some n))))
            | None \<Rightarrow> set_tail s c (Some n)) (\<lambda>s.
     rbind (set_next s n (get_head r)) (\<lambda>s.
     rbind (set_head s c (Some n)) (\<lambda>s.
     set_container s n (Some c)))))))"

definition insert_at_back :: "('n, 'c) ll_store \<Rightarrow> 'n \<Rightarrow> 'c \<Rightarrow> ('n, 'c) ll_store outcome" where
  "insert_at_back s n c =
     rbind (deref s n) (\<lambda>node.
     rbind (ensure (ll_unlinked node) ''LinkedList node must be unlinked before relinking'') (\<lambda>_.
     rbind (deref_root s c) (\<lambda>r.
     rbind (case get_tail r of
              Some tp \<Rightarrow>
                rbind (ensure (tp \<noteq> n) ''already mutably borrowed'') (\<lambda>_.
                rbind (deref s tp) (\<lambda>tn.
                rbind (ensure (get_next tn = None) ''assertion failed'') (\<lambda>_.
                set_next s tp (Some n))))
            | None \<Rightarrow> set_head s c (Some n)) (\<lambda>s.
     rbind (set_prev s n (get_tail r)) (\<lambda>s.
     rbind (set_tail s c (Some n)) (\<lambda>s.
     set_container s n (Some c)))))))"

definition is_linked :: "('n, 'c) ll_store \<Rightarrow> 'n \<Rightarrow> bool outcome" where
  "is_linked s n =
     rbind (deref s n) (\<lambda>node.
     rbind (ensure (get_container node \<noteq> None \<or> (get_next node = None \<and> get_prev node = None))
       ''LinkedList node has no container, but has next/get_prev node'') (\<lambda>_.
     Inr (get_container node \<noteq> None)))"

definition unlink :: "('n, 'c) ll_store \<Rightarrow> 'n \<Rightarrow> ('n, 'c) ll_store outcome" where
  "unlink s n =
     rbind (deref s n) (\<lambda>node.
     rbind (unwrap_or_panic (get_container node) ''LinkedList: Attempt to remove unlinked node'') (\<lambda>c.
     rbind (case get_next node of
              Some nx \<Rightarrow> set_prev s nx (get_prev node)
            | None \<Rightarrow> set_tail s c (get_prev node)) (\<lambda>s.
     rbind (case get_prev node of
              Some pv \<Rightarrow> set_next s pv (get_next node)
            | None \<Rightarrow> set_head s c (get_next node)) (\<lambda>s.
     rbind (set_next s n None) (\<lambda>s.
     rbind (set_prev s n None) (\<lambda>s.
     set_container s n None))))))"

text \<open>
  The loop of \<open>append_linked_list\<close> follows the donor's links, so its model takes fuel; the
  theorem below gives the fuel that is always enough.
\<close>

fun append_loop :: "nat \<Rightarrow> ('n, 'c) ll_store \<Rightarrow> 'c \<Rightarrow> 'n option \<Rightarrow> ('n, 'c) ll_store outcome option" where
  "append_loop _ s donee None = Some (Inr s)"
| "append_loop 0 s donee (Some node) = None"
| "append_loop (Suc fuel) s donee (Some node) =
     (case deref s node of
        Inl e \<Rightarrow> Some (Inl e)
      | Inr nd \<Rightarrow>
          (case rbind (unlink s node) (\<lambda>s. insert_at_back s node donee) of
             Inl e \<Rightarrow> Some (Inl e)
           | Inr s \<Rightarrow> append_loop fuel s donee (get_next nd)))"

definition append_linked_list ::
    "nat \<Rightarrow> ('n, 'c) ll_store \<Rightarrow> 'c \<Rightarrow> 'c \<Rightarrow> ('n, 'c) ll_store outcome option" where
  "append_linked_list fuel s donee donor =
     (case deref_root s donor of
        Inl e \<Rightarrow> Some (Inl e)
      | Inr r \<Rightarrow> append_loop fuel s donee (get_head r))"

text \<open>The double-ended iterator: its two cursors, and one step from each end.\<close>

record 'n ll_iter =
  it_next :: "'n option"
  it_next_back :: "'n option"

definition iter :: "('n, 'c) ll_store \<Rightarrow> 'c \<Rightarrow> 'n ll_iter outcome" where
  "iter s c = rbind (deref_root s c) (\<lambda>r. Inr \<lparr>it_next = get_head r, it_next_back = get_tail r\<rparr>)"

definition iter_next ::
    "('n, 'c) ll_store \<Rightarrow> 'n ll_iter \<Rightarrow> ('n option \<times> 'n ll_iter) outcome" where
  "iter_next s it =
     (case it_next it of
        None \<Rightarrow> Inr (None, it)
      | Some cu \<Rightarrow>
          rbind (unwrap_or_panic (it_next_back it) ''Some(next) => Some(next_back) violated'') (\<lambda>nb.
          if cu = nb then Inr (Some cu, \<lparr>it_next = None, it_next_back = None\<rparr>)
          else rbind (deref s cu) (\<lambda>nd. Inr (Some cu, it\<lparr>it_next := get_next nd\<rparr>))))"

definition iter_next_back ::
    "('n, 'c) ll_store \<Rightarrow> 'n ll_iter \<Rightarrow> ('n option \<times> 'n ll_iter) outcome" where
  "iter_next_back s it =
     (case it_next_back it of
        None \<Rightarrow> Inr (None, it)
      | Some cu \<Rightarrow>
          rbind (unwrap_or_panic (it_next it) ''Some(next_back) => Some(next) violated'') (\<lambda>nx.
          if cu = nx then Inr (Some cu, \<lparr>it_next = None, it_next_back = None\<rparr>)
          else rbind (deref s cu) (\<lambda>nd. Inr (Some cu, it\<lparr>it_next_back := get_prev nd\<rparr>))))"

section \<open>Lists in the store\<close>

text \<open>
  \<open>seg s c p xs q\<close>: the nodes \<open>xs\<close> of container \<open>c\<close> are linked in this order, with \<open>p\<close> before the
  first and \<open>q\<close> after the last.
\<close>

definition first_or :: "'n list \<Rightarrow> 'n option \<Rightarrow> 'n option" where
  "first_or xs q = (case xs of [] \<Rightarrow> q | x # _ \<Rightarrow> Some x)"

definition last_or :: "'n option \<Rightarrow> 'n list \<Rightarrow> 'n option" where
  "last_or p xs = (if xs = [] then p else Some (last xs))"

fun seg :: "('n, 'c) ll_store \<Rightarrow> 'c \<Rightarrow> 'n option \<Rightarrow> 'n list \<Rightarrow> 'n option \<Rightarrow> bool" where
  "seg s c p [] q = True"
| "seg s c p (x # xs) q \<longleftrightarrow>
     nodes s x = Some \<lparr>get_next = first_or xs q, get_prev = p, get_container = Some c\<rparr>
     \<and> seg s c (Some x) xs q"

definition ll_list :: "('n, 'c) ll_store \<Rightarrow> 'c \<Rightarrow> 'n list \<Rightarrow> bool" where
  "ll_list s c xs \<longleftrightarrow>
     roots s c = Some \<lparr>get_head = first_or xs None, get_tail = last_or None xs\<rparr>
     \<and> seg s c None xs None \<and> distinct xs"

definition ll_inv :: "('n, 'c) ll_store \<Rightarrow> ('c \<rightharpoonup> 'n list) \<Rightarrow> bool" where
  "ll_inv s L \<longleftrightarrow>
     dom (roots s) = dom L
     \<and> (\<forall>c xs. L c = Some xs \<longrightarrow> ll_list s c xs)
     \<and> (\<forall>n nd. nodes s n = Some nd \<longrightarrow> ll_unlinked nd \<or> (\<exists>c xs. L c = Some xs \<and> n \<in> set xs))"

definition ll_free :: "('n, 'c) ll_store \<Rightarrow> 'n \<Rightarrow> bool" where
  "ll_free s n \<longleftrightarrow> nodes s n = Some \<lparr>get_next = None, get_prev = None, get_container = None\<rparr>"

lemma first_or_simps [simp]: "first_or [] q = q" "first_or (x # xs) q = Some x"
  by (simp_all add: first_or_def)

lemma first_or_append [simp]: "first_or (xs @ ys) q = first_or xs (first_or ys q)"
  by (cases xs) simp_all

lemma last_or_simps [simp]:
  "last_or p [] = p" "last_or p (x # xs) = last_or (Some x) xs"
  "last_or p (xs @ ys) = last_or (last_or p xs) ys"
  by (auto simp: last_or_def)

lemma seg_append [simp]:
  "seg s c p (xs @ ys) q \<longleftrightarrow> seg s c p xs (first_or ys q) \<and> seg s c (last_or p xs) ys q"
  by (induction xs arbitrary: p) auto

lemma seg_cong:
  "(\<And>x. x \<in> set xs \<Longrightarrow> nodes s x = nodes s' x) \<Longrightarrow> seg s c p xs q = seg s' c p xs q"
  by (induction xs arbitrary: p) auto

lemma seg_upd [simp]:
  "n \<notin> set xs \<Longrightarrow> seg (s\<lparr>nodes := N(n \<mapsto> v)\<rparr>) c p xs q = seg (s\<lparr>nodes := N\<rparr>) c p xs q"
  "seg (s\<lparr>nodes := nodes s\<rparr>) c p xs q = seg s c p xs q"
  by (rule seg_cong; auto)+

lemma seg_roots [simp]: "seg (s\<lparr>roots := R\<rparr>) c p xs q = seg s c p xs q"
  by (rule seg_cong) auto

lemma seg_nodes:
  "seg s c p xs q \<Longrightarrow> x \<in> set xs \<Longrightarrow> \<exists>nd. nodes s x = Some nd \<and> get_container nd = Some c"
  by (induction xs arbitrary: p) auto

lemma seg_last:
  "seg s c p (xs @ [x]) q \<Longrightarrow>
     nodes s x = Some \<lparr>get_next = q, get_prev = last_or p xs, get_container = Some c\<rparr>"
  by simp

lemma ll_invD:
  assumes "ll_inv s L"
  shows "L c = Some xs \<Longrightarrow> ll_list s c xs"
    and "nodes s n = Some nd \<Longrightarrow> ll_unlinked nd \<or> (\<exists>c xs. L c = Some xs \<and> n \<in> set xs)"
    and "dom (roots s) = dom L"
  using assms unfolding ll_inv_def by blast+

lemma ll_inv_container:
  assumes "ll_inv s L" and "L c = Some xs" and "x \<in> set xs"
  shows "\<exists>nd. nodes s x = Some nd \<and> get_container nd = Some c"
  using ll_invD(1)[OF assms(1,2)] assms(3) seg_nodes[of s c None xs None x] by (simp add: ll_list_def)

lemma ll_inv_free_notin:
  assumes "ll_inv s L" and "ll_free s n" and "L c = Some xs"
  shows "n \<notin> set xs"
  using ll_inv_container[OF assms(1,3), of n] assms(2) by (auto simp: ll_free_def)

lemma ll_inv_disjoint:
  assumes "ll_inv s L" and "L c = Some xs" and "L d = Some ys" and "x \<in> set xs" and "x \<in> set ys"
  shows "c = d"
  using ll_inv_container[OF assms(1,2,4)] ll_inv_container[OF assms(1,3,5)] by auto

text \<open>
  The shape of every refinement proof: an operation changes one container's list and touches
  only nodes of the old and the new list.
\<close>

lemma ll_inv_update:
  assumes inv: "ll_inv s L" and c: "L c = Some xs"
    and list: "ll_list s' c ys"
    and frame: "\<And>x. x \<notin> set xs \<Longrightarrow> x \<notin> set ys \<Longrightarrow> nodes s' x = nodes s x"
    and root: "\<And>d. d \<noteq> c \<Longrightarrow> roots s' d = roots s d"
    and new: "\<And>x. x \<in> set ys \<Longrightarrow> x \<notin> set xs \<Longrightarrow> ll_free s x"
    and gone: "\<And>x. x \<in> set xs \<Longrightarrow> x \<notin> set ys \<Longrightarrow> ll_free s' x"
  shows "ll_inv s' (L(c \<mapsto> ys))"
proof -
  have notin: "x \<notin> set xs \<and> x \<notin> set ys" if "L d = Some zs" "d \<noteq> c" "x \<in> set zs" for d zs x
    using ll_inv_disjoint[OF inv c that(1), of x] ll_inv_free_notin[OF inv new that(1)] that by blast
  have "ll_list s' d zs" if d: "L d = Some zs" "d \<noteq> c" for d zs
  proof -
    have "nodes s' x = nodes s x" if "x \<in> set zs" for x
      using notin[OF d that] frame by blast
    then show ?thesis using ll_invD(1)[OF inv d(1)] root[OF d(2)] seg_cong[of zs s' s]
      by (simp add: ll_list_def)
  qed
  moreover have "ll_unlinked nd \<or> (\<exists>d zs. (L(c \<mapsto> ys)) d = Some zs \<and> n \<in> set zs)"
    if n: "nodes s' n = Some nd" for n nd
  proof (cases "n \<in> set xs \<or> n \<in> set ys")
    case True
    then show ?thesis using gone[of n] n by (cases "n \<in> set ys") (auto simp: ll_free_def ll_unlinked_def)
  next
    case False
    then have "nodes s n = Some nd" using frame n by simp
    then consider "ll_unlinked nd" | d zs where "L d = Some zs" "n \<in> set zs"
      using ll_invD(2)[OF inv] by blast
    then show ?thesis
    proof cases
      case 2
      then have "d \<noteq> c" using c False by auto
      then show ?thesis using 2 by auto
    qed simp
  qed
  moreover have "dom (roots s') = dom (L(c \<mapsto> ys))"
  proof -
    have "(roots s' d \<noteq> None) = ((L(c \<mapsto> ys)) d \<noteq> None)" for d
      using root[of d] ll_invD(3)[OF inv] list by (cases "d = c") (auto simp: ll_list_def dom_def set_eq_iff)
    then show ?thesis by (auto simp: dom_def)
  qed
  ultimately show ?thesis using list by (auto simp: ll_inv_def)
qed

section \<open>Refinement of the operations\<close>

lemmas ll_op_defs = deref_def deref_root_def set_next_def set_prev_def set_container_def
  set_head_def set_tail_def ll_unlinked_def

lemma ll_freeD: "ll_free s n \<Longrightarrow> nodes s n = Some \<lparr>get_next = None, get_prev = None, get_container = None\<rparr>"
  by (simp add: ll_free_def)

lemma insert_at_back_refines:
  assumes inv: "ll_inv s L" and c: "L c = Some xs" and free: "ll_free s n"
  shows "\<exists>s'. insert_at_back s n c = Inr s' \<and> ll_inv s' (L(c \<mapsto> xs @ [n]))"
proof -
  have l: "ll_list s c xs" using ll_invD(1)[OF inv c] .
  have n: "n \<notin> set xs" using ll_inv_free_notin[OF inv free c] .
  show ?thesis
  proof (cases xs rule: rev_cases)
    case Nil
    have op: "insert_at_back s n c = Inr
      (s\<lparr>nodes := (nodes s)(n \<mapsto> \<lparr>get_next = None, get_prev = None, get_container = Some c\<rparr>),
         roots := (roots s)(c \<mapsto> \<lparr>get_head = Some n, get_tail = Some n\<rparr>)\<rparr>)" (is "_ = Inr ?s")
      using l Nil ll_freeD[OF free] by (simp add: insert_at_back_def ll_op_defs ll_list_def)
    have "ll_inv ?s (L(c \<mapsto> xs @ [n]))"
      by (rule ll_inv_update[OF inv c]) (use Nil free in \<open>auto simp: ll_list_def\<close>)
    then show ?thesis using op by blast
  next
    case (snoc ys t)
    have t: "nodes s t = Some \<lparr>get_next = None, get_prev = last_or None ys, get_container = Some c\<rparr>"
      using l snoc by (simp add: ll_list_def)
    have "t \<noteq> n" using n snoc by auto
    then have op: "insert_at_back s n c = Inr
      (s\<lparr>nodes := (nodes s)(t \<mapsto> \<lparr>get_next = Some n, get_prev = last_or None ys, get_container = Some c\<rparr>,
           n \<mapsto> \<lparr>get_next = None, get_prev = Some t, get_container = Some c\<rparr>),
         roots := (roots s)(c \<mapsto> \<lparr>get_head = first_or xs None, get_tail = Some n\<rparr>)\<rparr>)" (is "_ = Inr ?s")
      using l snoc t ll_freeD[OF free] by (simp add: insert_at_back_def ll_op_defs ll_list_def fun_upd_twist)
    have "ll_inv ?s (L(c \<mapsto> xs @ [n]))"
      by (rule ll_inv_update[OF inv c]) (use l snoc free n in \<open>auto simp: ll_list_def\<close>)
    then show ?thesis using op by blast
  qed
qed

lemma insert_at_front_refines:
  assumes inv: "ll_inv s L" and c: "L c = Some xs" and free: "ll_free s n"
  shows "\<exists>s'. insert_at_front s n c = Inr s' \<and> ll_inv s' (L(c \<mapsto> n # xs))"
proof -
  have l: "ll_list s c xs" using ll_invD(1)[OF inv c] .
  have n: "n \<notin> set xs" using ll_inv_free_notin[OF inv free c] .
  show ?thesis
  proof (cases xs)
    case Nil
    have op: "insert_at_front s n c = Inr
      (s\<lparr>nodes := (nodes s)(n \<mapsto> \<lparr>get_next = None, get_prev = None, get_container = Some c\<rparr>),
         roots := (roots s)(c \<mapsto> \<lparr>get_head = Some n, get_tail = Some n\<rparr>)\<rparr>)" (is "_ = Inr ?s")
      using l Nil ll_freeD[OF free] by (simp add: insert_at_front_def ll_op_defs ll_list_def)
    have "ll_inv ?s (L(c \<mapsto> n # xs))"
      by (rule ll_inv_update[OF inv c]) (use Nil free in \<open>auto simp: ll_list_def\<close>)
    then show ?thesis using op by blast
  next
    case (Cons h ys)
    have h: "nodes s h = Some \<lparr>get_next = first_or ys None, get_prev = None, get_container = Some c\<rparr>"
      using l Cons by (simp add: ll_list_def)
    have "h \<noteq> n" using n Cons by auto
    then have op: "insert_at_front s n c = Inr
      (s\<lparr>nodes := (nodes s)(h \<mapsto> \<lparr>get_next = first_or ys None, get_prev = Some n, get_container = Some c\<rparr>,
           n \<mapsto> \<lparr>get_next = Some h, get_prev = None, get_container = Some c\<rparr>),
         roots := (roots s)(c \<mapsto> \<lparr>get_head = Some n, get_tail = last_or None xs\<rparr>)\<rparr>)" (is "_ = Inr ?s")
      using l Cons h ll_freeD[OF free] by (simp add: insert_at_front_def ll_op_defs ll_list_def fun_upd_twist)
    have "ll_inv ?s (L(c \<mapsto> n # xs))"
      by (rule ll_inv_update[OF inv c]) (use l Cons free n in \<open>auto simp: ll_list_def\<close>)
    then show ?thesis using op by blast
  qed
qed

lemma insert_after_refines:
  assumes inv: "ll_inv s L" and c: "L c = Some (ys @ m # zs)" and free: "ll_free s n"
  shows "\<exists>s'. insert_after s n m = Inr s' \<and> ll_inv s' (L(c \<mapsto> ys @ m # n # zs))"
proof -
  have l: "ll_list s c (ys @ m # zs)" using ll_invD(1)[OF inv c] .
  have n: "n \<notin> set (ys @ m # zs)" using ll_inv_free_notin[OF inv free c] .
  have m: "nodes s m = Some \<lparr>get_next = first_or zs None, get_prev = last_or None ys, get_container = Some c\<rparr>"
    using l by (simp add: ll_list_def)
  show ?thesis
  proof (cases zs)
    case Nil
    have op: "insert_after s n m = Inr
      (s\<lparr>nodes := (nodes s)(m \<mapsto> \<lparr>get_next = Some n, get_prev = last_or None ys, get_container = Some c\<rparr>,
           n \<mapsto> \<lparr>get_next = None, get_prev = Some m, get_container = Some c\<rparr>),
         roots := (roots s)(c \<mapsto> \<lparr>get_head = first_or (ys @ [m]) None, get_tail = Some n\<rparr>)\<rparr>)" (is "_ = Inr ?s")
      using l Nil m n ll_freeD[OF free]
      by (simp add: insert_after_def ll_op_defs ll_list_def fun_upd_twist)
    have "ll_inv ?s (L(c \<mapsto> ys @ m # n # zs))"
      by (rule ll_inv_update[OF inv c]) (use l Nil free n in \<open>auto simp: ll_list_def\<close>)
    then show ?thesis using op by blast
  next
    case (Cons z ws)
    have z: "nodes s z = Some \<lparr>get_next = first_or ws None, get_prev = Some m, get_container = Some c\<rparr>"
      using l Cons by (simp add: ll_list_def)
    have "z \<noteq> m" using l Cons by (auto simp: ll_list_def)
    then have op: "insert_after s n m = Inr
      (s\<lparr>nodes := (nodes s)(z \<mapsto> \<lparr>get_next = first_or ws None, get_prev = Some n, get_container = Some c\<rparr>,
           m \<mapsto> \<lparr>get_next = Some n, get_prev = last_or None ys, get_container = Some c\<rparr>,
           n \<mapsto> \<lparr>get_next = Some z, get_prev = Some m, get_container = Some c\<rparr>)\<rparr>)" (is "_ = Inr ?s")
      using l Cons m z n ll_freeD[OF free]
      by (simp add: insert_after_def ll_op_defs ll_list_def)
    have "ll_inv ?s (L(c \<mapsto> ys @ m # n # zs))"
      by (rule ll_inv_update[OF inv c]) (use l Cons free n in \<open>auto simp: ll_list_def\<close>)
    then show ?thesis using op by blast
  qed
qed

lemma insert_before_refines:
  assumes inv: "ll_inv s L" and c: "L c = Some (ys @ m # zs)" and free: "ll_free s n"
  shows "\<exists>s'. insert_before s n m = Inr s' \<and> ll_inv s' (L(c \<mapsto> ys @ n # m # zs))"
proof -
  have l: "ll_list s c (ys @ m # zs)" using ll_invD(1)[OF inv c] .
  have n: "n \<notin> set (ys @ m # zs)" using ll_inv_free_notin[OF inv free c] .
  have m: "nodes s m = Some \<lparr>get_next = first_or zs None, get_prev = last_or None ys, get_container = Some c\<rparr>"
    using l by (simp add: ll_list_def)
  show ?thesis
  proof (cases ys rule: rev_cases)
    case Nil
    have op: "insert_before s n m = Inr
      (s\<lparr>nodes := (nodes s)(m \<mapsto> \<lparr>get_next = first_or zs None, get_prev = Some n, get_container = Some c\<rparr>,
           n \<mapsto> \<lparr>get_next = Some m, get_prev = None, get_container = Some c\<rparr>),
         roots := (roots s)(c \<mapsto> \<lparr>get_head = Some n, get_tail = last_or None (m # zs)\<rparr>)\<rparr>)" (is "_ = Inr ?s")
      using l Nil m n ll_freeD[OF free]
      by (simp add: insert_before_def ll_op_defs ll_list_def fun_upd_twist)
    have "ll_inv ?s (L(c \<mapsto> ys @ n # m # zs))"
      by (rule ll_inv_update[OF inv c]) (use l Nil free n in \<open>auto simp: ll_list_def\<close>)
    then show ?thesis using op by blast
  next
    case (snoc ws z)
    have z: "nodes s z = Some \<lparr>get_next = Some m, get_prev = last_or None ws, get_container = Some c\<rparr>"
      using l snoc by (simp add: ll_list_def)
    have "z \<noteq> m" using l snoc by (auto simp: ll_list_def)
    then have op: "insert_before s n m = Inr
      (s\<lparr>nodes := (nodes s)(z \<mapsto> \<lparr>get_next = Some n, get_prev = last_or None ws, get_container = Some c\<rparr>,
           m \<mapsto> \<lparr>get_next = first_or zs None, get_prev = Some n, get_container = Some c\<rparr>,
           n \<mapsto> \<lparr>get_next = Some m, get_prev = Some z, get_container = Some c\<rparr>)\<rparr>)" (is "_ = Inr ?s")
      using l snoc m z n ll_freeD[OF free]
      by (simp add: insert_before_def ll_op_defs ll_list_def)
    have "ll_inv ?s (L(c \<mapsto> ys @ n # m # zs))"
      by (rule ll_inv_update[OF inv c]) (use l snoc free n in \<open>auto simp: ll_list_def\<close>)
    then show ?thesis using op by blast
  qed
qed

text \<open>\<open>unlink\<close>: the two neighbours, or the container's ends, are joined around the node.\<close>

definition join_next :: "('n, 'c) ll_store \<Rightarrow> 'c \<Rightarrow> 'n list \<Rightarrow> 'n list \<Rightarrow> ('n, 'c) ll_store" where
  "join_next s c ys zs =
     (case zs of [] \<Rightarrow> s\<lparr>roots := (roots s)(c \<mapsto> (the (roots s c))\<lparr>get_tail := last_or None ys\<rparr>)\<rparr>
      | z # _ \<Rightarrow> s\<lparr>nodes := (nodes s)(z \<mapsto> (the (nodes s z))\<lparr>get_prev := last_or None ys\<rparr>)\<rparr>)"

definition join_prev :: "('n, 'c) ll_store \<Rightarrow> 'c \<Rightarrow> 'n list \<Rightarrow> 'n list \<Rightarrow> ('n, 'c) ll_store" where
  "join_prev s c ys zs =
     (case last_or None ys of
        None \<Rightarrow> s\<lparr>roots := (roots s)(c \<mapsto> (the (roots s c))\<lparr>get_head := first_or zs None\<rparr>)\<rparr>
      | Some y \<Rightarrow> s\<lparr>nodes := (nodes s)(y \<mapsto> (the (nodes s y))\<lparr>get_next := first_or zs None\<rparr>)\<rparr>)"

lemma unlink_refines:
  assumes inv: "ll_inv s L" and c: "L c = Some (ys @ n # zs)"
  shows "\<exists>s'. unlink s n = Inr s' \<and> ll_inv s' (L(c \<mapsto> ys @ zs)) \<and> ll_free s' n"
proof -
  have l: "ll_list s c (ys @ n # zs)" using ll_invD(1)[OF inv c] .
  have n: "nodes s n = Some \<lparr>get_next = first_or zs None, get_prev = last_or None ys, get_container = Some c\<rparr>"
    using l by (simp add: ll_list_def)
  let ?j = "join_prev (join_next s c ys zs) c ys zs"
  let ?s = "?j\<lparr>nodes := (nodes ?j)(n \<mapsto> \<lparr>get_next = None, get_prev = None, get_container = None\<rparr>)\<rparr>"
  have op: "unlink s n = Inr ?s"
    using l n by (cases zs; cases ys rule: rev_cases)
      (auto simp: unlink_def join_prev_def join_next_def ll_op_defs ll_list_def)
  have "ll_inv ?s (L(c \<mapsto> ys @ zs))"
    by (rule ll_inv_update[OF inv c]; cases zs; cases ys rule: rev_cases)
      (use l n in \<open>auto simp: ll_list_def ll_free_def join_prev_def join_next_def\<close>)
  then show ?thesis using op by (auto simp: ll_free_def)
qed

section \<open>Any sequence of operations\<close>

datatype ('n, 'c) ll_op =
    InsertAfter 'n 'n
  | InsertBefore 'n 'n
  | InsertAtFront 'n 'c
  | InsertAtBack 'n 'c
  | Unlink 'n

fun ll_exec :: "('n, 'c) ll_store \<Rightarrow> ('n, 'c) ll_op \<Rightarrow> ('n, 'c) ll_store outcome" where
  "ll_exec s (InsertAfter n m) = insert_after s n m"
| "ll_exec s (InsertBefore n m) = insert_before s n m"
| "ll_exec s (InsertAtFront n c) = insert_at_front s n c"
| "ll_exec s (InsertAtBack n c) = insert_at_back s n c"
| "ll_exec s (Unlink n) = unlink s n"

fun ll_run :: "('n, 'c) ll_store \<Rightarrow> ('n, 'c) ll_op list \<Rightarrow> ('n, 'c) ll_store outcome" where
  "ll_run s [] = Inr s"
| "ll_run s (x # xs) = rbind (ll_exec s x) (\<lambda>s. ll_run s xs)"

lemma ll_unlinked_iff: "ll_unlinked nd \<longleftrightarrow> nd = \<lparr>get_next = None, get_prev = None, get_container = None\<rparr>"
  by (cases nd) (auto simp: ll_unlinked_def)

lemma linked_position:
  assumes "ll_inv s L" and "nodes s n = Some nd" and "\<not> ll_unlinked nd"
  shows "\<exists>c ys zs. L c = Some (ys @ n # zs)"
  using ll_invD(2)[OF assms(1,2)] assms(3) split_list by metis

lemma insert_needs_free:
  "insert_after s n m = Inr s' \<Longrightarrow> ll_free s n" "insert_before s n m = Inr s' \<Longrightarrow> ll_free s n"
  "insert_at_front s n c = Inr s' \<Longrightarrow> ll_free s n" "insert_at_back s n c = Inr s' \<Longrightarrow> ll_free s n"
  by (auto simp: insert_after_def insert_before_def insert_at_front_def insert_at_back_def
      deref_def rbind_eq_Inr ll_unlinked_iff ll_free_def)

lemma insert_needs_mark:
  "insert_after s n m = Inr s' \<Longrightarrow> \<exists>mk. nodes s m = Some mk \<and> \<not> ll_unlinked mk"
  "insert_before s n m = Inr s' \<Longrightarrow> \<exists>mk. nodes s m = Some mk \<and> \<not> ll_unlinked mk"
  by (auto simp: insert_after_def insert_before_def deref_def rbind_eq_Inr ll_unlinked_def)

lemma insert_needs_root:
  "insert_at_front s n c = Inr s' \<Longrightarrow> c \<in> dom (roots s)"
  "insert_at_back s n c = Inr s' \<Longrightarrow> c \<in> dom (roots s)"
  by (auto simp: insert_at_front_def insert_at_back_def deref_root_def rbind_eq_Inr)

lemma unlink_needs_linked:
  "unlink s n = Inr s' \<Longrightarrow> \<exists>nd. nodes s n = Some nd \<and> \<not> ll_unlinked nd"
  by (auto simp: unlink_def deref_def rbind_eq_Inr ll_unlinked_def)

lemma ll_exec_inv:
  assumes inv: "ll_inv s L" and op: "ll_exec s x = Inr s'"
  shows "\<exists>L'. ll_inv s' L'"
proof (cases x)
  case (InsertAfter n m)
  then have op: "insert_after s n m = Inr s'" using op by simp
  obtain c ys zs where "L c = Some (ys @ m # zs)"
    using insert_needs_mark(1)[OF op] linked_position[OF inv] by blast
  then show ?thesis using insert_after_refines[OF inv _ insert_needs_free(1)[OF op]] op by fastforce
next
  case (InsertBefore n m)
  then have op: "insert_before s n m = Inr s'" using op by simp
  obtain c ys zs where "L c = Some (ys @ m # zs)"
    using insert_needs_mark(2)[OF op] linked_position[OF inv] by blast
  then show ?thesis using insert_before_refines[OF inv _ insert_needs_free(2)[OF op]] op by fastforce
next
  case (InsertAtFront n c)
  then have op: "insert_at_front s n c = Inr s'" using op by simp
  obtain xs where "L c = Some xs" using insert_needs_root(1)[OF op] ll_invD(3)[OF inv] by auto
  then show ?thesis using insert_at_front_refines[OF inv _ insert_needs_free(3)[OF op]] op by fastforce
next
  case (InsertAtBack n c)
  then have op: "insert_at_back s n c = Inr s'" using op by simp
  obtain xs where "L c = Some xs" using insert_needs_root(2)[OF op] ll_invD(3)[OF inv] by auto
  then show ?thesis using insert_at_back_refines[OF inv _ insert_needs_free(4)[OF op]] op by fastforce
next
  case (Unlink n)
  then have op: "unlink s n = Inr s'" using op by simp
  obtain c ys zs where "L c = Some (ys @ n # zs)"
    using unlink_needs_linked[OF op] linked_position[OF inv] by blast
  then show ?thesis using unlink_refines[OF inv] op by fastforce
qed

lemma ll_run_inv: "ll_inv s L \<Longrightarrow> ll_run s xs = Inr s' \<Longrightarrow> \<exists>L'. ll_inv s' L'"
proof (induction xs arbitrary: s L)
  case (Cons x xs)
  then obtain t where t: "ll_exec s x = Inr t" "ll_run t xs = Inr s'" by (auto simp: rbind_eq_Inr)
  then show ?case using ll_exec_inv[OF Cons.prems(1) t(1)] Cons.IH by blast
qed auto

section \<open>Appending one list to another\<close>

lemma append_loop_refines:
  assumes "ll_inv s L" and "L donee = Some xs" and "L donor = Some ys" and "donee \<noteq> donor"
    and "length ys \<le> fuel"
  shows "\<exists>s'. append_loop fuel s donee (first_or ys None) = Some (Inr s')
    \<and> ll_inv s' (L(donee \<mapsto> xs @ ys, donor \<mapsto> []))"
  using assms
proof (induction ys arbitrary: s L xs fuel)
  case Nil
  have "L(donee \<mapsto> xs @ [], donor \<mapsto> []) = L" using Nil.prems by (auto simp: fun_upd_idem_iff)
  then have "ll_inv s (L(donee \<mapsto> xs @ [], donor \<mapsto> []))" using Nil.prems(1) by (simp only:)
  then show ?case by (intro exI[of _ s] conjI) (simp, assumption)
next
  case (Cons y ys)
  obtain f where f: "fuel = Suc f" "length ys \<le> f" using Cons.prems(5) by (cases fuel) auto
  have y: "nodes s y = Some \<lparr>get_next = first_or ys None, get_prev = None, get_container = Some donor\<rparr>"
    using ll_invD(1)[OF Cons.prems(1,3)] by (simp add: ll_list_def)
  obtain s1 where u: "unlink s y = Inr s1" "ll_inv s1 (L(donor \<mapsto> ys))" "ll_free s1 y"
    using unlink_refines[OF Cons.prems(1), of donor "[]" y ys] Cons.prems(3) by auto
  obtain s2 where b: "insert_at_back s1 y donee = Inr s2" "ll_inv s2 (L(donor \<mapsto> ys, donee \<mapsto> xs @ [y]))"
    using insert_at_back_refines[OF u(2) _ u(3), of donee xs] Cons.prems(2,4) by auto
  have p: "(L(donor \<mapsto> ys, donee \<mapsto> xs @ [y])) donee = Some (xs @ [y])"
      "(L(donor \<mapsto> ys, donee \<mapsto> xs @ [y])) donor = Some ys"
    using Cons.prems(4) by simp_all
  obtain s3 where "append_loop f s2 donee (first_or ys None) = Some (Inr s3)"
      "ll_inv s3 (L(donor \<mapsto> ys, donee \<mapsto> xs @ [y], donee \<mapsto> (xs @ [y]) @ ys, donor \<mapsto> []))"
    using Cons.IH[OF b(2) p Cons.prems(4) f(2)] by blast
  moreover from calculation(1) have "append_loop fuel s donee (first_or (y # ys) None) = Some (Inr s3)"
    using y u(1) b(1) f(1) by (simp add: deref_def)
  moreover have "L(donor \<mapsto> ys, donee \<mapsto> xs @ [y], donee \<mapsto> (xs @ [y]) @ ys, donor \<mapsto> [])
      = L(donee \<mapsto> xs @ y # ys, donor \<mapsto> [])"
    using Cons.prems(4) by (auto simp: fun_eq_iff)
  ultimately show ?case by metis
qed

section \<open>Iteration from both ends\<close>

text \<open>Taking elements from the two ends of a list: \<open>True\<close> is \<open>next\<close>, \<open>False\<close> is \<open>next_back\<close>.\<close>

fun iter_run :: "('n, 'c) ll_store \<Rightarrow> 'n ll_iter \<Rightarrow> bool list \<Rightarrow> 'n option list outcome" where
  "iter_run s it [] = Inr []"
| "iter_run s it (d # ds) =
     rbind (if d then iter_next s it else iter_next_back s it) (\<lambda>(x, it).
     rbind (iter_run s it ds) (\<lambda>xs. Inr (x # xs)))"

fun deque_run :: "'n list \<Rightarrow> bool list \<Rightarrow> 'n option list" where
  "deque_run xs [] = []"
| "deque_run [] (d # ds) = None # deque_run [] ds"
| "deque_run (x # xs) (d # ds) =
     (if d then Some x # deque_run xs ds else Some (last (x # xs)) # deque_run (butlast (x # xs)) ds)"

definition it_covers :: "'n ll_iter \<Rightarrow> 'n list \<Rightarrow> bool" where
  "it_covers it xs \<longleftrightarrow> it = \<lparr>it_next = first_or xs None, it_next_back = last_or None xs\<rparr>"

lemma iter_next_step:
  assumes "seg s c p xs q" and "distinct xs" and "it_covers it xs"
  shows "xs = [] \<Longrightarrow> iter_next s it = Inr (None, it)"
    and "xs = x # ys \<Longrightarrow> \<exists>it'. iter_next s it = Inr (Some x, it') \<and> it_covers it' ys"
proof -
  show "xs = x # ys \<Longrightarrow> \<exists>it'. iter_next s it = Inr (Some x, it') \<and> it_covers it' ys"
    using assms by (cases ys rule: rev_cases)
      (auto simp: iter_next_def it_covers_def deref_def first_or_def split: list.splits)
qed (use assms in \<open>simp add: iter_next_def it_covers_def\<close>)

lemma iter_next_back_step:
  assumes "seg s c p xs q" and "distinct xs" and "it_covers it xs"
  shows "xs = [] \<Longrightarrow> iter_next_back s it = Inr (None, it)"
    and "xs = ys @ [x] \<Longrightarrow> \<exists>it'. iter_next_back s it = Inr (Some x, it') \<and> it_covers it' ys"
proof -
  show "xs = ys @ [x] \<Longrightarrow> \<exists>it'. iter_next_back s it = Inr (Some x, it') \<and> it_covers it' ys"
    using assms by (cases ys; cases ys rule: rev_cases)
      (auto simp: iter_next_back_def it_covers_def deref_def)
qed (use assms in \<open>simp add: iter_next_back_def it_covers_def\<close>)

lemma iter_run_deque:
  "seg s c p xs q \<Longrightarrow> distinct xs \<Longrightarrow> it_covers it xs \<Longrightarrow> iter_run s it ds = Inr (deque_run xs ds)"
proof (induction ds arbitrary: p xs q it)
  case (Cons d ds)
  show ?case
  proof (cases xs)
    case Nil
    then show ?thesis
      using iter_next_step(1)[OF Cons.prems] iter_next_back_step(1)[OF Cons.prems] Cons.IH[of p xs q it] Cons.prems
      by (cases d) simp_all
  next
    case (Cons x ys)
    note prems = Cons.prems
    show ?thesis
    proof (cases d)
      case True
      obtain it' where "iter_next s it = Inr (Some x, it')" "it_covers it' ys"
        using iter_next_step(2)[OF prems] Cons by blast
      then show ?thesis using True Cons prems Cons.IH[of "Some x" ys q it'] by simp
    next
      case False
      define zs z where "zs = butlast xs" and "z = last xs"
      have xs: "xs = zs @ [z]" using Cons zs_def z_def by (simp del: butlast.simps last.simps)
      obtain it' where "iter_next_back s it = Inr (Some z, it')" "it_covers it' zs"
        using iter_next_back_step(2)[OF prems xs] by blast
      moreover have "iter_run s it' ds = Inr (deque_run zs ds)"
        using Cons.IH[of p zs "Some z" it'] prems xs calculation(2) by simp
      ultimately show ?thesis using False Cons zs_def z_def by simp
    qed
  qed
qed simp

section \<open>Properties\<close>

text \<open>A small store for the witnesses: two containers, and one node in neither.\<close>

definition ll_demo :: "(nat, nat) ll_store" where
  "ll_demo = \<lparr>
     nodes = [10 \<mapsto> \<lparr>get_next = Some 11, get_prev = None, get_container = Some 0\<rparr>,
              11 \<mapsto> \<lparr>get_next = None, get_prev = Some 10, get_container = Some 0\<rparr>,
              12 \<mapsto> \<lparr>get_next = None, get_prev = None, get_container = Some 7\<rparr>,
              13 \<mapsto> \<lparr>get_next = None, get_prev = None, get_container = None\<rparr>],
     roots = [0 \<mapsto> \<lparr>get_head = Some 10, get_tail = Some 11\<rparr>,
              7 \<mapsto> \<lparr>get_head = Some 12, get_tail = Some 12\<rparr>]\<rparr>"

definition ll_demo_lists :: "nat \<rightharpoonup> nat list" where
  "ll_demo_lists = [0 \<mapsto> [10, 11], 7 \<mapsto> [12]]"

lemma ll_demo_inv: "ll_inv ll_demo ll_demo_lists"
  unfolding ll_inv_def
proof (intro conjI allI impI)
  show "dom (roots ll_demo) = dom ll_demo_lists" by (simp add: ll_demo_def ll_demo_lists_def)
next
  fix c xs assume "ll_demo_lists c = Some xs"
  then consider "c = 0" "xs = [10, 11]" | "c = 7" "xs = [12]"
    by (auto simp: ll_demo_lists_def split: if_splits)
  then show "ll_list ll_demo c xs" by cases (simp_all add: ll_demo_def ll_list_def)
next
  fix n nd assume n: "nodes ll_demo n = Some nd"
  then have "n \<in> {10, 11, 12, 13}" by (simp add: ll_demo_def split: if_splits)
  moreover have "ll_demo_lists 0 = Some [10, 11]" "ll_demo_lists 7 = Some [12]"
    by (simp_all add: ll_demo_lists_def)
  moreover have "n = 13 \<Longrightarrow> ll_unlinked nd" using n by (auto simp: ll_demo_def ll_unlinked_def)
  ultimately show "ll_unlinked nd \<or> (\<exists>c xs. ll_demo_lists c = Some xs \<and> n \<in> set xs)"
    by fastforce
qed

lemma ll_demo_free: "ll_free ll_demo 13"
  by (simp add: ll_free_def ll_demo_def)

text \<open>
  C3. The four insertions refine insertion into a list. When the node is unlinked (and the mark,
  if any, is in a container's list) none of the assertions fails, the node lands at the front, at the
  back, right after or right before the mark, and every other list of the store is unchanged.
\<close>

theorem insert_refines:
  assumes "ll_inv s L" and "ll_free s n"
  shows "(\<forall>c xs. L c = Some xs \<longrightarrow>
           (\<exists>s'. insert_at_front s n c = Inr s' \<and> ll_inv s' (L(c \<mapsto> n # xs))) \<and>
           (\<exists>s'. insert_at_back s n c = Inr s' \<and> ll_inv s' (L(c \<mapsto> xs @ [n])))) \<and>
         (\<forall>c ys m zs. L c = Some (ys @ m # zs) \<longrightarrow>
           (\<exists>s'. insert_after s n m = Inr s' \<and> ll_inv s' (L(c \<mapsto> ys @ m # n # zs))) \<and>
           (\<exists>s'. insert_before s n m = Inr s' \<and> ll_inv s' (L(c \<mapsto> ys @ n # m # zs))))"
  using insert_at_front_refines[OF assms(1) _ assms(2)] insert_at_back_refines[OF assms(1) _ assms(2)]
    insert_after_refines[OF assms(1) _ assms(2)] insert_before_refines[OF assms(1) _ assms(2)]
  by blast

theorem insert_refines_witness:
  "\<exists>s'. insert_after ll_demo 13 10 = Inr s' \<and> ll_inv s' (ll_demo_lists(0 \<mapsto> [10, 13, 11]))"
  using insert_refines[OF ll_demo_inv ll_demo_free, THEN conjunct2, rule_format, of 0 "[]" 10 "[11]"]
  by (simp add: ll_demo_lists_def)

text \<open>
  \<open>unlink\<close> refines removal: it takes exactly its node out of the list that holds it, keeps the
  order of the others, and leaves the node unlinked, so that it can be inserted again.
\<close>

theorem unlink_removes:
  assumes "ll_inv s L" and "L c = Some (ys @ n # zs)"
  shows "\<exists>s'. unlink s n = Inr s' \<and> ll_inv s' (L(c \<mapsto> ys @ zs)) \<and> ll_free s' n"
  by (rule unlink_refines[OF assms])

theorem unlink_removes_witness:
  "\<exists>s'. unlink ll_demo 10 = Inr s' \<and> ll_inv s' (ll_demo_lists(0 \<mapsto> [11])) \<and> ll_free s' 10"
  using unlink_removes[OF ll_demo_inv, of 0 "[]" 10 "[11]"] by (simp add: ll_demo_lists_def)

text \<open>
  The assertions catch every misuse: inserting a node that is linked, inserting next to a mark
  that is not, and unlinking an unlinked node each panic with the documented message.
\<close>

theorem misuse_panics:
  assumes "nodes s n = Some nd" and "nodes s m = Some mk"
  shows "(\<not> ll_unlinked nd \<longrightarrow>
      insert_after s n m = Inl (Panic ''LinkedList node must be unlinked before relinking'')
      \<and> insert_before s n m = Inl (Panic ''LinkedList node must be unlinked before relinking'')
      \<and> insert_at_front s n c = Inl (Panic ''LinkedList node must be unlinked before relinking'')
      \<and> insert_at_back s n c = Inl (Panic ''LinkedList node must be unlinked before relinking'')) \<and>
    (ll_unlinked nd \<and> ll_unlinked mk \<longrightarrow>
      insert_after s n m = Inl (Panic ''insert_after: Mark node itself is unlinked'')
      \<and> insert_before s n m = Inl (Panic ''insert_before: Mark node itself is unlinked'')
      \<and> unlink s n = Inl (Panic ''LinkedList: Attempt to remove unlinked node''))"
proof (intro conjI impI)
  assume "ll_unlinked nd \<and> ll_unlinked mk"
  then show "insert_after s n m = Inl (Panic ''insert_after: Mark node itself is unlinked'')"
      "insert_before s n m = Inl (Panic ''insert_before: Mark node itself is unlinked'')"
      "unlink s n = Inl (Panic ''LinkedList: Attempt to remove unlinked node'')"
    using assms by (simp_all add: insert_after_def insert_before_def unlink_def deref_def ll_unlinked_def)
qed (use assms in \<open>simp_all add: insert_after_def insert_before_def insert_at_front_def
  insert_at_back_def deref_def\<close>)

theorem misuse_panics_witness:
  "insert_at_back ll_demo 10 7 = Inl (Panic ''LinkedList node must be unlinked before relinking'')
   \<and> unlink ll_demo 13 = Inl (Panic ''LinkedList: Attempt to remove unlinked node'')"
proof -
  have "nodes ll_demo 10 = Some \<lparr>get_next = Some 11, get_prev = None, get_container = Some 0\<rparr>"
    "nodes ll_demo 13 = Some \<lparr>get_next = None, get_prev = None, get_container = None\<rparr>"
    by (simp_all add: ll_demo_def)
  then show ?thesis using misuse_panics[of ll_demo 10 _ 10 _ 7] misuse_panics[of ll_demo 13 _ 13]
    by (simp add: ll_unlinked_def)
qed

text \<open>
  Whatever operations are applied to a well-formed store, in whatever order and with whatever
  arguments (dangling pointers and misuse included), if none panics the store is well formed again:
  each container holds a duplicate-free doubly linked list and no node is in two lists.
\<close>

theorem any_run_keeps_lists:
  assumes "ll_inv s L" and "ll_run s ops = Inr s'"
  shows "\<exists>L'. ll_inv s' L'"
  using assms by (rule ll_run_inv)

theorem any_run_keeps_lists_witness: "\<exists>s' L'. ll_run ll_demo [Unlink 10, InsertAtBack 10 7] = Inr s' \<and> ll_inv s' L'"
proof -
  have r: "\<exists>s'. ll_run ll_demo [Unlink 10, InsertAtBack 10 7] = Inr s'"
    by (simp add: ll_demo_def unlink_def insert_at_back_def ll_op_defs)
  then show ?thesis using any_run_keeps_lists[OF ll_demo_inv] by blast
qed

text \<open>
  \<open>append_linked_list\<close> moves all nodes of the donor, in order, behind those of another container
  and leaves the donor empty; as many rounds as the donor has nodes are enough.
\<close>

theorem append_linked_list_refines:
  assumes "ll_inv s L" and "L donee = Some xs" and "L donor = Some ys" and "donee \<noteq> donor"
    and "length ys \<le> fuel"
  shows "\<exists>s'. append_linked_list fuel s donee donor = Some (Inr s')
    \<and> ll_inv s' (L(donee \<mapsto> xs @ ys, donor \<mapsto> []))"
proof -
  have "roots s donor = Some \<lparr>get_head = first_or ys None, get_tail = last_or None ys\<rparr>"
    using ll_invD(1)[OF assms(1,3)] by (simp add: ll_list_def)
  then show ?thesis using append_loop_refines[OF assms]
    by (simp add: append_linked_list_def deref_root_def)
qed

theorem append_linked_list_refines_witness:
  "\<exists>s'. append_linked_list 2 ll_demo 7 0 = Some (Inr s') \<and> ll_inv s' [0 \<mapsto> [], 7 \<mapsto> [12, 10, 11]]"
proof -
  have "ll_demo_lists(7 \<mapsto> [12, 10, 11], 0 \<mapsto> []) = [0 \<mapsto> [], 7 \<mapsto> [12, 10, 11]]"
    by (auto simp: ll_demo_lists_def fun_eq_iff)
  moreover have "ll_demo_lists 7 = Some [12]" "ll_demo_lists 0 = Some [10, 11]"
    by (simp_all add: ll_demo_lists_def)
  ultimately show ?thesis
    using append_linked_list_refines[OF ll_demo_inv, of 7 "[12]" 0 "[10, 11]" 2]
    by (simp del: fun_upd_apply)
qed

text \<open>
  The iterator is a double-ended queue over the list: for every sequence of \<open>next\<close> and
  \<open>next_back\<close> calls it yields what taking from the two ends of the list yields, never fails, and
  yields nothing more once the two cursors have met.
\<close>

theorem iter_is_deque:
  assumes "ll_inv s L" and "L c = Some xs"
  shows "\<exists>it. iter s c = Inr it \<and> iter_run s it ds = Inr (deque_run xs ds)"
proof -
  have l: "ll_list s c xs" using ll_invD(1)[OF assms] .
  let ?it = "\<lparr>it_next = first_or xs None, it_next_back = last_or None xs\<rparr>"
  have "iter s c = Inr ?it" using l by (simp add: iter_def deref_root_def ll_list_def)
  moreover have "iter_run s ?it ds = Inr (deque_run xs ds)"
    using l iter_run_deque[of s c None xs None ?it ds] by (simp add: ll_list_def it_covers_def)
  ultimately show ?thesis by blast
qed

theorem iter_is_deque_witness:
  "\<exists>it. iter ll_demo 0 = Inr it \<and> iter_run ll_demo it [False, True, True] = Inr [Some 11, Some 10, None]"
  using iter_is_deque[OF ll_demo_inv, of 0 "[10, 11]" "[False, True, True]"] by (simp add: ll_demo_lists_def)

end
