(* ===== verification/Cfg.thy ===== *)
theory Cfg
  imports Prelude "HOL-Library.AList"
begin

text \<open>
  Model of the trait \<^verbatim>\<open>ControlFlowGraph\<close> of \<^verbatim>\<open>src/src/graph/mod.rs\<close>: a graph is the record of
  its methods. The default bodies of \<open>successors\<close> and \<open>predecessors\<close> enumerate by index.

  \<open>wf_cfg\<close> is the contract the algorithms of the graph modules rely on: nodes are
  listed once, with the entry first; edges stay within the nodes; and the predecessors are the
  reverse of the successors.

  The insertion-ordered tables \<open>IMap\<close> and \<open>ISet\<close> of \<^verbatim>\<open>src/src/utils/table.rs\<close> are
  association lists (with \<open>AList.update\<close>, which appends a new key at the end) and lists without
  duplicates; \<open>HMap\<close> and \<open>HSet\<close>, which have no order, are partial functions and sets.
\<close>

section \<open>Insertion-ordered sets\<close>

definition iset_insert :: "'a \<Rightarrow> 'a list \<Rightarrow> 'a list" where
  "iset_insert x xs = (if x \<in> set xs then xs else xs @ [x])"

definition iset_extend :: "'a list \<Rightarrow> 'a list \<Rightarrow> 'a list" where
  "iset_extend xs ys = fold iset_insert ys xs"

definition iset_collect :: "'a list \<Rightarrow> 'a list" where
  "iset_collect xs = iset_extend [] xs"

lemma set_iset_insert [simp]: "set (iset_insert x xs) = insert x (set xs)"
  by (auto simp: iset_insert_def)

lemma distinct_iset_insert [simp]: "distinct (iset_insert x xs) \<longleftrightarrow> distinct xs"
  by (auto simp: iset_insert_def)

lemma set_iset_extend [simp]: "set (iset_extend xs ys) = set xs \<union> set ys"
  unfolding iset_extend_def by (induction ys arbitrary: xs) auto

lemma distinct_iset_extend [simp]: "distinct (iset_extend xs ys) \<longleftrightarrow> distinct xs"
  unfolding iset_extend_def by (induction ys arbitrary: xs) auto

lemma set_iset_collect [simp]: "set (iset_collect xs) = set xs"
  by (simp add: iset_collect_def)

lemma distinct_iset_collect [simp]: "distinct (iset_collect xs)"
  by (simp add: iset_collect_def)

lemma iset_extend_id: "distinct (xs @ ys) \<Longrightarrow> iset_extend xs ys = xs @ ys"
  unfolding iset_extend_def by (induction ys arbitrary: xs) (auto simp: iset_insert_def)

lemma iset_collect_id [simp]: "distinct xs \<Longrightarrow> iset_collect xs = xs"
  using iset_extend_id[of "[]" xs] by (simp add: iset_collect_def)

text \<open>Collecting pairs into an \<open>IMap\<close>: a repeated key keeps its first place and its last value.\<close>

definition imap_collect :: "('k \<times> 'v) list \<Rightarrow> ('k \<times> 'v) list" where
  "imap_collect kvs = fold (\<lambda>(k, v). AList.update k v) kvs []"

lemma imap_collect_id: "distinct (map fst kvs) \<Longrightarrow> imap_collect kvs = kvs"
proof -
  have "distinct (map fst (xs @ kvs)) \<Longrightarrow> fold (\<lambda>(k, v). AList.update k v) kvs xs = xs @ kvs" for xs
  proof (induction kvs arbitrary: xs)
    case (Cons kv kvs)
    have "AList.update k v xs = xs @ [(k, v)]" if "k \<notin> fst ` set xs" for k v
      using that by (induction xs) auto
    then have "AList.update (fst kv) (snd kv) xs = xs @ [kv]" using Cons.prems by simp
    then show ?case using Cons.IH[of "xs @ [kv]"] Cons.prems by (cases kv) simp
  qed simp
  from this[of "[]"] show "distinct (map fst kvs) \<Longrightarrow> imap_collect kvs = kvs" by (simp add: imap_collect_def)
qed

section \<open>Control-flow graphs\<close>

record 'n cfg =
  num_successors :: "'n \<Rightarrow> nat"
  get_successor :: "'n \<Rightarrow> nat \<Rightarrow> 'n"
  num_predecessors :: "'n \<Rightarrow> nat"
  get_predecessor :: "'n \<Rightarrow> nat \<Rightarrow> 'n"
  entry_node :: "'n option"
  graph_nodes :: "'n list"

definition successors :: "'n cfg \<Rightarrow> 'n \<Rightarrow> 'n list" where
  "successors g n = map (get_successor g n) [0..<num_successors g n]"

definition predecessors :: "'n cfg \<Rightarrow> 'n \<Rightarrow> 'n list" where
  "predecessors g n = map (get_predecessor g n) [0..<num_predecessors g n]"

definition wf_cfg :: "'n cfg \<Rightarrow> bool" where
  "wf_cfg g \<longleftrightarrow>
     distinct (graph_nodes g)
     \<and> entry_node g = (case graph_nodes g of [] \<Rightarrow> None | n # _ \<Rightarrow> Some n)
     \<and> (\<forall>n \<in> set (graph_nodes g). set (successors g n) \<subseteq> set (graph_nodes g))
     \<and> (\<forall>n \<in> set (graph_nodes g). \<forall>p.
          p \<in> set (predecessors g n) \<longleftrightarrow> p \<in> set (graph_nodes g) \<and> n \<in> set (successors g p))"

text \<open>A graph given by its node list (entry first) and successor lists, for examples.\<close>

definition cfg_of :: "('n \<times> 'n list) list \<Rightarrow> 'n cfg" where
  "cfg_of es =
     (let succs = (\<lambda>n. case map_of es n of Some ss \<Rightarrow> ss | None \<Rightarrow> []);
          preds = (\<lambda>n. map fst (filter (\<lambda>(p, ss). n \<in> set ss) es))
      in \<lparr>num_successors = (\<lambda>n. length (succs n)), get_successor = (\<lambda>n i. succs n ! i),
          num_predecessors = (\<lambda>n. length (preds n)), get_predecessor = (\<lambda>n i. preds n ! i),
          entry_node = (case es of [] \<Rightarrow> None | (n, _) # _ \<Rightarrow> Some n),
          graph_nodes = map fst es\<rparr>)"

section \<open>Edges, paths and reachability\<close>

definition edge :: "'n cfg \<Rightarrow> 'n \<Rightarrow> 'n \<Rightarrow> bool" where
  "edge g u v \<longleftrightarrow> v \<in> set (successors g u)"

definition reaches :: "'n cfg \<Rightarrow> 'n \<Rightarrow> 'n \<Rightarrow> bool" where
  "reaches g = (edge g)\<^sup>*\<^sup>*"

fun is_path :: "'n cfg \<Rightarrow> 'n \<Rightarrow> 'n list \<Rightarrow> 'n \<Rightarrow> bool" where
  "is_path g u [] v \<longleftrightarrow> False"
| "is_path g u [x] v \<longleftrightarrow> u = x \<and> v = x"
| "is_path g u (x # y # ps) v \<longleftrightarrow> u = x \<and> edge g x y \<and> is_path g y (y # ps) v"

lemma wf_cfgD:
  assumes "wf_cfg g"
  shows "distinct (graph_nodes g)"
    and "n \<in> set (graph_nodes g) \<Longrightarrow> edge g n m \<Longrightarrow> m \<in> set (graph_nodes g)"
    and "n \<in> set (graph_nodes g) \<Longrightarrow>
      p \<in> set (predecessors g n) \<longleftrightarrow> p \<in> set (graph_nodes g) \<and> edge g p n"
    and "entry_node g = Some e \<Longrightarrow> \<exists>ns. graph_nodes g = e # ns"
    and "entry_node g = None \<longleftrightarrow> graph_nodes g = []"
  using assms by (auto simp: wf_cfg_def edge_def split: list.splits)

lemma edge_nth: "edge g u v \<longleftrightarrow> (\<exists>i < num_successors g u. get_successor g u i = v)"
  by (auto simp: edge_def successors_def)

lemma length_successors [simp]: "length (successors g n) = num_successors g n"
  by (simp add: successors_def)

lemma nth_successors [simp]: "i < num_successors g n \<Longrightarrow> successors g n ! i = get_successor g n i"
  by (simp add: successors_def)

lemma edge_get_successor: "i < num_successors g u \<Longrightarrow> edge g u (get_successor g u i)"
  by (auto simp: edge_nth)

lemma reaches_refl [simp]: "reaches g u u"
  by (simp add: reaches_def)

lemma reaches_edge: "edge g u v \<Longrightarrow> reaches g u v"
  by (simp add: reaches_def)

lemma reaches_trans: "reaches g u v \<Longrightarrow> reaches g v w \<Longrightarrow> reaches g u w"
  unfolding reaches_def by (rule rtranclp_trans)

lemma reaches_step: "reaches g u v \<Longrightarrow> edge g v w \<Longrightarrow> reaches g u w"
  unfolding reaches_def by (rule rtranclp.rtrancl_into_rtrancl)

lemma reaches_induct [consumes 1, case_names base step]:
  assumes "reaches g u v" and "P u" and "\<And>v w. reaches g u v \<Longrightarrow> edge g v w \<Longrightarrow> P v \<Longrightarrow> P w"
  shows "P v"
  using assms(1) unfolding reaches_def
  by (induction rule: rtranclp_induct) (auto intro: assms simp: reaches_def)

lemma reaches_nodes: "wf_cfg g \<Longrightarrow> reaches g u v \<Longrightarrow> u \<in> set (graph_nodes g) \<Longrightarrow> v \<in> set (graph_nodes g)"
  by (erule reaches_induct) (auto dest: wf_cfgD(2))

lemma is_path_Cons: "is_path g u (x # ps) v \<longleftrightarrow>
    u = x \<and> (ps = [] \<and> v = x \<or> (\<exists>y. edge g x y \<and> is_path g y ps v))"
proof (cases ps)
  case (Cons y qs)
  then show ?thesis by (cases qs) auto
qed auto

lemma is_path_ends: "is_path g u p v \<Longrightarrow> p \<noteq> [] \<and> hd p = u \<and> last p = v"
  by (induction g u p v rule: is_path.induct) auto

lemma is_path_snoc: "p \<noteq> [] \<Longrightarrow> is_path g u (p @ [w]) v \<longleftrightarrow> (\<exists>x. is_path g u p x \<and> edge g x w \<and> v = w)"
proof (induction p arbitrary: u)
  case (Cons y ps)
  show ?case
  proof (cases "ps = []")
    case False
    then show ?thesis using Cons.IH by (auto simp: is_path_Cons)
  qed (auto simp: is_path_Cons)
qed simp

lemma is_path_reaches: "is_path g u p v \<Longrightarrow> x \<in> set p \<Longrightarrow> reaches g u x \<and> reaches g x v"
proof (induction p arbitrary: u x)
  case (Cons y ps)
  then consider "ps = []" "u = y" "v = y" | z where "u = y" "edge g y z" "is_path g z ps v"
    by (auto simp: is_path_Cons)
  then show ?case
  proof cases
    case 2
    have "z \<in> set ps" using is_path_ends[OF 2(3)] by (metis hd_in_set)
    then have "reaches g z v" using Cons.IH[OF 2(3)] by blast
    then have "reaches g y v" using reaches_trans[OF reaches_edge[OF 2(2)]] by blast
    then show ?thesis using Cons.IH[OF 2(3)] Cons.prems(2) 2 reaches_trans[OF reaches_edge[OF 2(2)]]
      by auto
  qed (use Cons.prems in auto)
qed simp

lemma is_path_prefix: "is_path g u (p @ x # q) v \<Longrightarrow> is_path g u (p @ [x]) x"
proof (induction p arbitrary: u)
  case (Cons y p)
  then obtain z where "u = y" "edge g y z" "is_path g z (p @ x # q) v" by (auto simp: is_path_Cons)
  then show ?case using Cons.IH by (auto simp: is_path_Cons)
qed (auto simp: is_path_Cons)

lemma reaches_path: "reaches g u v \<Longrightarrow> \<exists>p. is_path g u p v"
proof (induction rule: reaches_induct)
  case base
  show ?case by (intro exI[of _ "[u]"]) simp
next
  case (step v w)
  then obtain p where p: "is_path g u p v" by blast
  then have "is_path g u (p @ [w]) w" using step(2) is_path_ends[OF p] by (auto simp: is_path_snoc)
  then show ?case ..
qed

section \<open>Graphs given by successor lists are well formed\<close>

definition cfg_of_ok :: "('n \<times> 'n list) list \<Rightarrow> bool" where
  "cfg_of_ok es \<longleftrightarrow> distinct (map fst es) \<and> list_all (\<lambda>(n, ss). list_all (\<lambda>s. s \<in> set (map fst es)) ss) es"

lemma map_nth_upt: "map ((!) xs) [0..<length xs] = xs"
  by (rule map_nth)

lemma cfg_of_successors: "successors (cfg_of es) n = (case map_of es n of Some ss \<Rightarrow> ss | None \<Rightarrow> [])"
  by (simp add: successors_def cfg_of_def map_nth_upt Let_def)

lemma cfg_of_predecessors:
  "predecessors (cfg_of es) n = map fst (filter (\<lambda>(p, ss). n \<in> set ss) es)"
  using map_nth_upt[of "map fst (filter (\<lambda>(p, ss). n \<in> set ss) es)"]
  by (simp add: predecessors_def cfg_of_def Let_def)

lemma wf_cfg_of:
  assumes "cfg_of_ok es"
  shows "wf_cfg (cfg_of es)"
proof -
  have d: "distinct (map fst es)" and c: "\<And>n ss s. (n, ss) \<in> set es \<Longrightarrow> s \<in> set ss \<Longrightarrow> s \<in> fst ` set es"
    using assms by (auto simp: cfg_of_ok_def list_all_iff)
  have nodes: "graph_nodes (cfg_of es) = map fst es" by (simp add: cfg_of_def Let_def)
  have entry: "entry_node (cfg_of es) = (case graph_nodes (cfg_of es) of [] \<Rightarrow> None | n # _ \<Rightarrow> Some n)"
    by (cases es) (auto simp: cfg_of_def Let_def)
  have e: "s \<in> set (successors (cfg_of es) n) \<longleftrightarrow> (\<exists>ss. (n, ss) \<in> set es \<and> s \<in> set ss)" for n s
  proof (cases "map_of es n")
    case None
    then have "(n, ss) \<notin> set es" for ss by (force simp: map_of_eq_None_iff)
    then show ?thesis using None by (simp add: cfg_of_successors)
  next
    case (Some ss)
    then have "(n, ts) \<in> set es \<longleftrightarrow> ts = ss" for ts
      using d by (metis map_of_is_SomeI map_of_SomeD option.inject)
    then show ?thesis using Some by (simp add: cfg_of_successors)
  qed
  moreover have p: "p \<in> set (predecessors (cfg_of es) n) \<longleftrightarrow> (\<exists>ss. (p, ss) \<in> set es \<and> n \<in> set ss)" for p n
    by (force simp: cfg_of_predecessors)
  ultimately show ?thesis unfolding wf_cfg_def
    using d c entry by (auto simp: nodes e p) force+
qed

end
