(* ===== verification/Traversals.thy ===== *)
theory Traversals
  imports Cfg
begin

text \<open>
  Model of \<^verbatim>\<open>src/src/graph/traversals.rs\<close>. The depth-first loops keep an explicit stack of nodes,
  each with the index of the successor to visit next; here the head of the list is the top of
  the stack. They are \<^theory_text>\<open>partial_function (option)\<close>s: that they return on every
  well-formed graph is proved with a measure (unvisited nodes first, then work left on the stack).
\<close>

section \<open>Post-order\<close>

partial_function (option) po_loop ::
    "'n cfg \<Rightarrow> ('n \<times> nat) list \<Rightarrow> 'n set \<Rightarrow> 'n list \<Rightarrow> ('n set \<times> 'n list) option" where
  "po_loop g stack seen po =
     (case stack of
        [] \<Rightarrow> Some (seen, po)
      | (node, succ_idx) # stack \<Rightarrow>
          if succ_idx < num_successors g node then
            (let stack = (node, succ_idx + 1) # stack;
                 succ = get_successor g node succ_idx
             in if succ \<in> seen then po_loop g stack seen po
                else po_loop g ((succ, 0) # stack) (insert succ seen) po)
          else po_loop g stack seen (po @ [node]))"

declare po_loop.simps [code]

definition post_order_walk_component ::
    "'n cfg \<Rightarrow> 'n \<Rightarrow> 'n set \<Rightarrow> 'n list \<Rightarrow> ('n set \<times> 'n list) option" where
  "post_order_walk_component g node seen po =
     (if node \<in> seen then Some (seen, po)
      else po_loop g [(node, 0)] (insert node seen) po)"

text \<open>The loop over all nodes; \<open>finish\<close> is what is pushed for each component.\<close>

fun walk_components ::
    "'n cfg \<Rightarrow> ('n list \<Rightarrow> 'n list) \<Rightarrow> 'n list \<Rightarrow> 'n set \<Rightarrow> 'n list list \<Rightarrow> 'n list list option" where
  "walk_components g finish [] seen comps = Some comps"
| "walk_components g finish (node # ns) seen comps = do {
     (seen, po) \<leftarrow> post_order_walk_component g node seen [];
     walk_components g finish ns seen (if po = [] then comps else comps @ [finish po])
   }"

definition post_order_by_component :: "'n cfg \<Rightarrow> 'n list list option" where
  "post_order_by_component g = walk_components g (\<lambda>po. po) (graph_nodes g) {} []"

definition post_order :: "'n cfg \<Rightarrow> 'n list option" where
  "post_order g = map_option concat (post_order_by_component g)"

definition topological_order_by_component :: "'n cfg \<Rightarrow> 'n list list option" where
  "topological_order_by_component g = walk_components g rev (graph_nodes g) {} []"

definition topological_order :: "'n cfg \<Rightarrow> 'n list option" where
  "topological_order g = map_option concat (topological_order_by_component g)"

section \<open>Numbered depth-first traversal\<close>

record dfs_number =
  pre_order_number :: nat
  post_order_number :: nat
  reverse_post_order_number :: nat

datatype dfs_edge_kind = Forward | Back | Cross

type_synonym 'n dfs_tree = "('n \<times> dfs_number) list"

text \<open>\<open>visit\<close> inserts a newly discovered node with its pre-order number; a second visit panics.\<close>

definition dfs_visit :: "'n \<Rightarrow> nat \<Rightarrow> 'n dfs_tree \<Rightarrow> 'n dfs_tree option" where
  "dfs_visit node pre result =
     (case map_of result node of
        None \<Rightarrow> Some (AList.update node
          \<lparr>pre_order_number = pre, post_order_number = 0, reverse_post_order_number = 0\<rparr> result)
      | Some _ \<Rightarrow> None)"

partial_function (option) dfs_loop ::
    "'n cfg \<Rightarrow> ('n \<times> nat) list \<Rightarrow> nat \<Rightarrow> nat \<Rightarrow> 'n dfs_tree \<Rightarrow> (nat \<times> nat \<times> 'n dfs_tree) option" where
  "dfs_loop g stack pre post result =
     (case stack of
        [] \<Rightarrow> Some (pre, post, result)
      | (node, succ_idx) # stack \<Rightarrow>
          if succ_idx < num_successors g node then
            (let stack = (node, succ_idx + 1) # stack;
                 succ = get_successor g node succ_idx
             in if succ \<in> fst ` set result then dfs_loop g stack pre post result
                else do {
                  result \<leftarrow> dfs_visit succ pre result;
                  dfs_loop g ((succ, 0) # stack) (pre + 1) post result
                })
          else do {
            d \<leftarrow> map_of result node;
            dfs_loop g stack pre (post + 1) (AList.update node (d\<lparr>post_order_number := post\<rparr>) result)
          })"

declare dfs_loop.simps [code]

definition dfs_walk ::
    "'n cfg \<Rightarrow> 'n \<Rightarrow> nat \<Rightarrow> nat \<Rightarrow> 'n dfs_tree \<Rightarrow> (nat \<times> nat \<times> 'n dfs_tree) option" where
  "dfs_walk g node pre post result = do {
     result \<leftarrow> dfs_visit node pre result;
     dfs_loop g [(node, 0)] (pre + 1) post result
   }"

text \<open>\<open>num_nodes - 1 - post\<close> is a subtraction of machine integers: it panics below zero.\<close>

definition fill_rpo :: "nat \<Rightarrow> dfs_number \<Rightarrow> dfs_number option" where
  "fill_rpo n d = (if post_order_number d + 1 \<le> n
     then Some (d\<lparr>reverse_post_order_number := n - 1 - post_order_number d\<rparr>) else None)"

fun fill_rpos :: "nat \<Rightarrow> 'n dfs_tree \<Rightarrow> 'n dfs_tree option" where
  "fill_rpos n [] = Some []"
| "fill_rpos n ((k, d) # ds) = do { d \<leftarrow> fill_rpo n d; ds \<leftarrow> fill_rpos n ds; Some ((k, d) # ds) }"

definition dfs_traversal :: "'n cfg \<Rightarrow> 'n dfs_tree option" where
  "dfs_traversal g = do {
     result \<leftarrow> (case entry_node g of
        None \<Rightarrow> Some []
      | Some entry \<Rightarrow> do { (pre, post, result) \<leftarrow> dfs_walk g entry 0 0 []; Some result });
     fill_rpos (length result) result
   }"

definition pre_number_of :: "'n dfs_tree \<Rightarrow> 'n \<Rightarrow> nat option" where
  "pre_number_of t node = map_option pre_order_number (map_of t node)"

definition post_number_of :: "'n dfs_tree \<Rightarrow> 'n \<Rightarrow> nat option" where
  "post_number_of t node = map_option post_order_number (map_of t node)"

definition rpo_number_of :: "'n dfs_tree \<Rightarrow> 'n \<Rightarrow> nat option" where
  "rpo_number_of t node = map_option reverse_post_order_number (map_of t node)"

definition edge_kind :: "'n dfs_tree \<Rightarrow> 'n \<Rightarrow> 'n \<Rightarrow> dfs_edge_kind option" where
  "edge_kind t from to = do {
     from_pre \<leftarrow> pre_number_of t from;
     from_post \<leftarrow> post_number_of t from;
     to_pre \<leftarrow> pre_number_of t to;
     to_post \<leftarrow> post_number_of t to;
     ocheck ((from_pre = to_pre) = (from_post = to_post));
     if from_pre = to_pre then Some Back
     else if from_pre < to_pre then do { ocheck (to_post < from_post); Some Forward }
     else if from_post < to_post then Some Back
     else Some Cross
   }"

text \<open>
  The three orders: a vector of \<open>None\<close>s filled by number (out of range panics), then read
  in order (a missing node panics).
\<close>

fun place_by :: "(dfs_number \<Rightarrow> nat) \<Rightarrow> 'n dfs_tree \<Rightarrow> 'n option list \<Rightarrow> 'n option list option" where
  "place_by num [] slots = Some slots"
| "place_by num ((k, d) # t) slots = do {
     ocheck (num d < length slots);
     place_by num t (slots[num d := Some k])
   }"

fun unwrap_all :: "'a option list \<Rightarrow> 'a list option" where
  "unwrap_all [] = Some []"
| "unwrap_all (x # xs) = do { x \<leftarrow> x; xs \<leftarrow> unwrap_all xs; Some (x # xs) }"

definition dfs_ordered :: "(dfs_number \<Rightarrow> nat) \<Rightarrow> 'n dfs_tree \<Rightarrow> 'n list option" where
  "dfs_ordered num t = do {
     slots \<leftarrow> place_by num t (replicate (length t) None);
     unwrap_all slots
   }"

definition dfs_post_order :: "'n dfs_tree \<Rightarrow> 'n list option" where
  "dfs_post_order t = dfs_ordered post_order_number t"

definition dfs_reverse_post_order :: "'n dfs_tree \<Rightarrow> 'n list option" where
  "dfs_reverse_post_order t = dfs_ordered reverse_post_order_number t"

definition dfs_pre_order :: "'n dfs_tree \<Rightarrow> 'n list option" where
  "dfs_pre_order t = dfs_ordered pre_order_number t"

section \<open>Strongly connected components\<close>

record 'n scc =
  scc_nodes :: "'n list"
  is_cyclic :: bool

record 'n tarjan =
  index_of :: "'n \<rightharpoonup> nat"
  lowlink :: "'n \<rightharpoonup> nat"
  next_index :: nat
  scc_stack :: "'n list"
  on_scc_stack :: "'n set"
  sccs :: "'n scc list"

text \<open>First visit of a node: number it and push it on the component stack.\<close>

definition tarjan_visit :: "'n \<Rightarrow> 'n tarjan \<Rightarrow> 'n tarjan" where
  "tarjan_visit n st = st\<lparr>
     index_of := (index_of st)(n \<mapsto> next_index st),
     lowlink := (lowlink st)(n \<mapsto> next_index st),
     next_index := next_index st + 1,
     scc_stack := n # scc_stack st,
     on_scc_stack := insert n (on_scc_stack st)\<rparr>"

text \<open>Popping a component: down to and including its root, which must be on the stack.\<close>

fun pop_component :: "'n \<Rightarrow> 'n list \<Rightarrow> 'n set \<Rightarrow> ('n list \<times> 'n list \<times> 'n set) option" where
  "pop_component root [] on = None"
| "pop_component root (member # stack) on =
     (if member = root then Some ([member], stack, on - {member})
      else do {
        (ms, stack, on) \<leftarrow> pop_component root stack (on - {member});
        Some (member # ms, stack, on)
      })"

definition emit_component :: "'n cfg \<Rightarrow> 'n \<Rightarrow> 'n tarjan \<Rightarrow> 'n tarjan option" where
  "emit_component g node st = do {
     (ms, stack, on) \<leftarrow> pop_component node (scc_stack st) (on_scc_stack st);
     m0 \<leftarrow> oget ms 0;
     Some (st\<lparr>scc_stack := stack, on_scc_stack := on,
       sccs := sccs st @ [\<lparr>scc_nodes = ms,
         is_cyclic = (length ms > 1 \<or> m0 \<in> set (successors g m0))\<rparr>]\<rparr>)
   }"

partial_function (option) tarjan_loop ::
    "'n cfg \<Rightarrow> ('n \<times> nat) list \<Rightarrow> 'n tarjan \<Rightarrow> 'n tarjan option" where
  "tarjan_loop g call_stack st =
     (case call_stack of
        [] \<Rightarrow> Some st
      | (node, succ_idx) # call_stack \<Rightarrow>
          if succ_idx < num_successors g node then
            (let call_stack = (node, succ_idx + 1) # call_stack;
                 succ = get_successor g node succ_idx
             in case index_of st succ of
                  Some succ_index \<Rightarrow>
                    if succ \<in> on_scc_stack st then do {
                      low \<leftarrow> lowlink st node;
                      tarjan_loop g call_stack
                        (st\<lparr>lowlink := (lowlink st)(node \<mapsto> min low succ_index)\<rparr>)
                    }
                    else tarjan_loop g call_stack st
                | None \<Rightarrow> tarjan_loop g ((succ, 0) # call_stack) (tarjan_visit succ st))
          else do {
            node_low \<leftarrow> lowlink st node;
            node_index \<leftarrow> index_of st node;
            st \<leftarrow> (if node_low = node_index then emit_component g node st else Some st);
            (case call_stack of
               [] \<Rightarrow> tarjan_loop g call_stack st
             | (parent, _) # _ \<Rightarrow> do {
                 parent_low \<leftarrow> lowlink st parent;
                 tarjan_loop g call_stack
                   (st\<lparr>lowlink := (lowlink st)(parent \<mapsto> min parent_low node_low)\<rparr>)
               })
          })"

declare tarjan_loop.simps [code]

fun tarjan_roots :: "'n cfg \<Rightarrow> 'n list \<Rightarrow> 'n tarjan \<Rightarrow> 'n tarjan option" where
  "tarjan_roots g [] st = Some st"
| "tarjan_roots g (root # roots) st =
     (if index_of st root \<noteq> None then tarjan_roots g roots st
      else do {
        st \<leftarrow> tarjan_loop g [(root, 0)] (tarjan_visit root st);
        tarjan_roots g roots st
      })"

definition sccs_in_topological_order :: "'n cfg \<Rightarrow> 'n scc list option" where
  "sccs_in_topological_order g = do {
     st \<leftarrow> tarjan_roots g (case entry_node g of None \<Rightarrow> graph_nodes g | Some e \<Rightarrow> e # graph_nodes g)
       \<lparr>index_of = Map.empty, lowlink = Map.empty, next_index = 0, scc_stack = [],
        on_scc_stack = {}, sccs = []\<rparr>;
     Some (rev (sccs st))
   }"

section \<open>The invariant of the depth-first loop\<close>

text \<open>
  \<open>stack_path g root ns\<close>: consecutive stack entries are joined by edges, from the root at the
  bottom up. \<open>po_inv\<close> is what every round keeps: \<open>S0\<close> are the nodes visited before this
  walk, \<open>po\<close> the finished nodes of this walk, and the stack its open ones.
\<close>

fun stack_path :: "'n cfg \<Rightarrow> 'n \<Rightarrow> 'n list \<Rightarrow> bool" where
  "stack_path g root [] \<longleftrightarrow> True"
| "stack_path g root [x] \<longleftrightarrow> x = root"
| "stack_path g root (x # y # ns) \<longleftrightarrow> edge g y x \<and> stack_path g root (y # ns)"

definition po_ordered :: "'n cfg \<Rightarrow> 'n \<Rightarrow> 'n set \<Rightarrow> 'n list \<Rightarrow> 'n list \<Rightarrow> bool" where
  "po_ordered g root S0 ns po \<longleftrightarrow>
     (\<forall>as v bs. po = as @ v # bs \<longrightarrow>
        (\<forall>w. edge g v w \<longrightarrow> w \<in> S0 \<union> set as \<or> reaches g w v)
        \<and> (v = root \<or> (\<exists>u \<in> set bs \<union> set ns. edge g u v)))"

definition stack_ok :: "'n cfg \<Rightarrow> 'n set \<Rightarrow> ('n \<times> nat) list \<Rightarrow> bool" where
  "stack_ok g seen stack \<longleftrightarrow>
     (\<forall>(n, i) \<in> set stack. i \<le> num_successors g n \<and> (\<forall>j < i. get_successor g n j \<in> seen))"

definition po_inv :: "'n cfg \<Rightarrow> 'n \<Rightarrow> 'n set \<Rightarrow> ('n \<times> nat) list \<Rightarrow> 'n set \<Rightarrow> 'n list \<Rightarrow> bool" where
  "po_inv g root S0 stack seen po \<longleftrightarrow>
     seen = S0 \<union> set po \<union> fst ` set stack
     \<and> distinct (po @ map fst stack) \<and> (set po \<union> fst ` set stack) \<inter> S0 = {}
     \<and> set po \<union> fst ` set stack \<subseteq> set (graph_nodes g)
     \<and> stack_ok g seen stack
     \<and> (\<forall>v \<in> set po. \<forall>w. edge g v w \<longrightarrow> w \<in> seen)
     \<and> stack_path g root (map fst stack)
     \<and> po_ordered g root S0 (map fst stack) po
     \<and> (if stack = [] then po \<noteq> [] \<and> last po = root else root \<notin> set po)"

lemma po_invD:
  assumes "po_inv g root S0 stack seen po"
  shows "seen = S0 \<union> set po \<union> fst ` set stack"
    and "distinct (po @ map fst stack)"
    and "(set po \<union> fst ` set stack) \<inter> S0 = {}"
    and "set po \<union> fst ` set stack \<subseteq> set (graph_nodes g)"
    and "stack_ok g seen stack"
    and "\<forall>v \<in> set po. \<forall>w. edge g v w \<longrightarrow> w \<in> seen"
    and "stack_path g root (map fst stack)"
    and "po_ordered g root S0 (map fst stack) po"
    and "if stack = [] then po \<noteq> [] \<and> last po = root else root \<notin> set po"
proof -
  note A = assms[unfolded po_inv_def]
  show "seen = S0 \<union> set po \<union> fst ` set stack" using A by (elim conjE)
  show "distinct (po @ map fst stack)" using A by (elim conjE)
  show "(set po \<union> fst ` set stack) \<inter> S0 = {}" using A by (elim conjE)
  show "set po \<union> fst ` set stack \<subseteq> set (graph_nodes g)" using A by (elim conjE)
  show "stack_ok g seen stack" using A by (elim conjE)
  show "\<forall>v \<in> set po. \<forall>w. edge g v w \<longrightarrow> w \<in> seen" using A by (elim conjE)
  show "stack_path g root (map fst stack)" using A by (elim conjE)
  show "po_ordered g root S0 (map fst stack) po" using A by (elim conjE)
  show "if stack = [] then po \<noteq> [] \<and> last po = root else root \<notin> set po" using A by (elim conjE)
qed

lemma stack_path_reaches:
  "stack_path g root ns \<Longrightarrow> ns = x # ys \<Longrightarrow> y \<in> set ns \<Longrightarrow> reaches g y x"
proof (induction g root ns arbitrary: x ys rule: stack_path.induct)
  case (3 g root u v ns)
  then show ?case
    using reaches_step[of g y v u] reaches_refl[of g u] by (cases "y = u") auto
qed auto

lemma stack_path_root: "stack_path g root ns \<Longrightarrow> ns \<noteq> [] \<Longrightarrow> last ns = root"
  by (induction g root ns rule: stack_path.induct) auto

lemma po_ordered_weaken: "po_ordered g root S0 ns po \<Longrightarrow> set ns \<subseteq> set ns' \<Longrightarrow> po_ordered g root S0 ns' po"
  unfolding po_ordered_def by blast

lemma po_inv_start:
  assumes "root \<in> set (graph_nodes g)" and "root \<notin> S0"
  shows "po_inv g root S0 [(root, 0)] (insert root S0) []"
  using assms by (auto simp: po_inv_def po_ordered_def stack_ok_def)

lemma po_inv_push:
  assumes wf: "wf_cfg g" and inv: "po_inv g root S0 ((n, i) # stack) seen po"
    and i: "i < num_successors g n" and new: "get_successor g n i \<notin> seen"
  shows "po_inv g root S0 ((get_successor g n i, 0) # (n, Suc i) # stack)
    (insert (get_successor g n i) seen) po"
proof -
  note D = po_invD[OF inv]
  have e: "edge g n (get_successor g n i)" by (rule edge_get_successor[OF i])
  have node: "get_successor g n i \<in> set (graph_nodes g)" using wf_cfgD(2)[OF wf _ e] D(4) by auto
  have ord: "po_ordered g root S0 (get_successor g n i # n # map fst stack) po"
    by (rule po_ordered_weaken[OF D(8)]) auto
  have stk: "stack_ok g (insert (get_successor g n i) seen) ((get_successor g n i, 0) # (n, Suc i) # stack)"
    using D(5) i by (auto simp: stack_ok_def less_Suc_eq)
  show ?thesis unfolding po_inv_def
  proof (intro conjI)
    show "\<forall>v \<in> set po. \<forall>w. edge g v w \<longrightarrow> w \<in> insert (get_successor g n i) seen" using D(6) by blast
    show "stack_ok g (insert (get_successor g n i) seen) ((get_successor g n i, 0) # (n, Suc i) # stack)"
      by (rule stk)
  qed (use D(1-4) D(7,9) e node ord new in auto)
qed

lemma po_inv_skip:
  assumes inv: "po_inv g root S0 ((n, i) # stack) seen po"
    and i: "i < num_successors g n" and old: "get_successor g n i \<in> seen"
  shows "po_inv g root S0 ((n, Suc i) # stack) seen po"
proof -
  note D = po_invD[OF inv]
  have stk: "stack_ok g seen ((n, Suc i) # stack)"
    using D(5) i old by (auto simp: stack_ok_def less_Suc_eq)
  show ?thesis unfolding po_inv_def
  proof (intro conjI)
    show "stack_ok g seen ((n, Suc i) # stack)" by (rule stk)
    show "\<forall>v \<in> set po. \<forall>w. edge g v w \<longrightarrow> w \<in> seen" by (rule D(6))
  qed (use D(1-4) D(7-9) in auto)
qed

lemma po_inv_pop:
  assumes inv: "po_inv g root S0 ((n, i) # stack) seen po" and i: "\<not> i < num_successors g n"
  shows "po_inv g root S0 stack seen (po @ [n])"
proof -
  note D = po_invD[OF inv]
  have succs: "edge g n w \<Longrightarrow> w \<in> seen" for w
    using D(5) i by (auto simp: edge_nth stack_ok_def)
  have closed: "edge g n w \<Longrightarrow> w \<in> S0 \<union> set po \<or> reaches g w n" for w
    using succs[of w] D(1) stack_path_reaches[OF D(7)] by auto
  have pred: "n = root \<or> (\<exists>u \<in> fst ` set stack. edge g u n)"
    using D(7) by (cases stack) auto
  have ord: "po_ordered g root S0 (map fst stack) (po @ [n])"
    unfolding po_ordered_def
  proof (intro allI impI)
    fix as v bs assume split: "po @ [n] = as @ v # bs"
    show "(\<forall>w. edge g v w \<longrightarrow> w \<in> S0 \<union> set as \<or> reaches g w v)
        \<and> (v = root \<or> (\<exists>u \<in> set bs \<union> set (map fst stack). edge g u v))"
    proof (cases bs rule: rev_cases)
      case Nil
      then show ?thesis using split closed pred by auto
    next
      case (snoc cs z)
      then have "po = as @ v # cs" "z = n" using split by auto
      then show ?thesis using D(8) snoc unfolding po_ordered_def by fastforce
    qed
  qed
  have root: "if stack = [] then po @ [n] \<noteq> [] \<and> last (po @ [n]) = root else root \<notin> set (po @ [n])"
    using D(2,7,9) stack_path_root[OF D(7)] last_in_set[of "map fst stack"] by (auto split: if_splits)
  have stk: "stack_ok g seen stack" using D(5) by (auto simp: stack_ok_def)
  have sp: "stack_path g root (map fst stack)" using D(7) by (cases stack) auto
  show ?thesis unfolding po_inv_def
  proof (intro conjI)
    show "\<forall>v \<in> set (po @ [n]). \<forall>w. edge g v w \<longrightarrow> w \<in> seen" using D(6) succs by auto
    show "if stack = [] then po @ [n] \<noteq> [] \<and> last (po @ [n]) = root else root \<notin> set (po @ [n])"
      by (rule root)
    show "po_ordered g root S0 (map fst stack) (po @ [n])" by (rule ord)
    show "stack_ok g seen stack" by (rule stk)
    show "stack_path g root (map fst stack)" by (rule sp)
  qed (use D(1-4) in auto)
qed

section \<open>Termination\<close>

definition po_measure :: "'n cfg \<Rightarrow> ('n \<times> nat) list \<Rightarrow> 'n set \<Rightarrow> nat \<times> nat" where
  "po_measure g stack seen =
     (card (set (graph_nodes g) - seen), \<Sum>(n, i) \<leftarrow> stack. Suc (num_successors g n) - i)"

abbreviation lex2 :: "((nat \<times> nat) \<times> (nat \<times> nat)) set" where
  "lex2 \<equiv> less_than <*lex*> less_than"

lemma measure_push:
  assumes "s \<in> set (graph_nodes g)" and "s \<notin> seen"
  shows "(po_measure g stack' (insert s seen), po_measure g stack seen) \<in> lex2"
proof -
  have "set (graph_nodes g) - insert s seen \<subset> set (graph_nodes g) - seen" using assms by blast
  then show ?thesis by (simp add: po_measure_def psubset_card_mono)
qed

lemma measure_skip:
  "i < num_successors g n \<Longrightarrow>
     (po_measure g ((n, Suc i) # stack) seen, po_measure g ((n, i) # stack) seen) \<in> lex2"
  by (simp add: po_measure_def)

lemma measure_pop:
  "i \<le> num_successors g n \<Longrightarrow> (po_measure g stack seen, po_measure g ((n, i) # stack) seen) \<in> lex2"
  by (simp add: po_measure_def)

text \<open>Induction over a depth-first walk: the three kinds of rounds and the end.\<close>

lemma dfs_walk_induct [consumes 2, case_names fin push skip pop]:
  assumes wf: "wf_cfg g" and inv: "po_inv g root S0 stack seen po"
    and fin: "\<And>seen po. po_inv g root S0 [] seen po \<Longrightarrow> P [] seen po"
    and push: "\<And>n i stack seen po. po_inv g root S0 ((n, i) # stack) seen po \<Longrightarrow>
      i < num_successors g n \<Longrightarrow> get_successor g n i \<notin> seen \<Longrightarrow>
      P ((get_successor g n i, 0) # (n, Suc i) # stack) (insert (get_successor g n i) seen) po \<Longrightarrow>
      P ((n, i) # stack) seen po"
    and skip: "\<And>n i stack seen po. po_inv g root S0 ((n, i) # stack) seen po \<Longrightarrow>
      i < num_successors g n \<Longrightarrow> get_successor g n i \<in> seen \<Longrightarrow>
      P ((n, Suc i) # stack) seen po \<Longrightarrow> P ((n, i) # stack) seen po"
    and pop: "\<And>n i stack seen po. po_inv g root S0 ((n, i) # stack) seen po \<Longrightarrow>
      \<not> i < num_successors g n \<Longrightarrow> P stack seen (po @ [n]) \<Longrightarrow> P ((n, i) # stack) seen po"
  shows "P stack seen po"
proof -
  have "\<forall>stack seen po. m = po_measure g stack seen \<longrightarrow> po_inv g root S0 stack seen po \<longrightarrow> P stack seen po" for m
  proof (induction m rule: wf_induct_rule[OF wf_lex_prod[OF wf_less_than wf_less_than]])
    case (1 m)
    show ?case
    proof (intro allI impI)
      fix stack seen po
      assume m: "m = po_measure g stack seen" and inv: "po_inv g root S0 stack seen po"
      have IH: "P stack' seen' po'"
        if "(po_measure g stack' seen', po_measure g stack seen) \<in> lex2" "po_inv g root S0 stack' seen' po'"
        for stack' seen' po' using "1.IH" that m by blast
      show "P stack seen po"
      proof (cases stack)
        case Nil
        then show ?thesis using fin inv by simp
      next
        case (Cons x rest)
        obtain n i where x: "x = (n, i)" by fastforce
        note inv' = inv[unfolded Cons x] and IH' = IH[unfolded Cons x]
        have le: "i \<le> num_successors g n" using po_invD(5)[OF inv'] by (simp add: stack_ok_def)
        show ?thesis
        proof (cases "i < num_successors g n")
          case True
          have node: "get_successor g n i \<in> set (graph_nodes g)"
            using wf_cfgD(2)[OF wf _ edge_get_successor[OF True]] po_invD(4)[OF inv'] by auto
          show ?thesis unfolding Cons x
          proof (cases "get_successor g n i \<in> seen")
            case old: True
            show "P ((n, i) # rest) seen po"
              by (rule skip[OF inv' True old IH'[OF measure_skip[OF True] po_inv_skip[OF inv' True old]]])
          next
            case new: False
            show "P ((n, i) # rest) seen po"
              by (rule push[OF inv' True new IH'[OF measure_push[OF node new] po_inv_push[OF wf inv' True new]]])
          qed
        next
          case False
          show ?thesis unfolding Cons x
            by (rule pop[OF inv' False IH'[OF measure_pop[OF le] po_inv_pop[OF inv' False]]])
        qed
      qed
    qed
  qed
  then show ?thesis using inv by blast
qed

lemma po_loop_returns:
  assumes "wf_cfg g" and "po_inv g root S0 stack seen po"
  shows "\<exists>seen' po'. po_loop g stack seen po = Some (seen', po') \<and> po_inv g root S0 [] seen' po'"
  using assms
proof (induction rule: dfs_walk_induct)
  case (fin seen po)
  then show ?case by (simp add: po_loop.simps)
next
  case (push n i stack seen po)
  then show ?case by (simp add: po_loop.simps[of g "(n, i) # stack"] Let_def)
next
  case (skip n i stack seen po)
  then show ?case by (simp add: po_loop.simps[of g "(n, i) # stack"] Let_def)
next
  case (pop n i stack seen po)
  then show ?case by (simp add: po_loop.simps[of g "(n, i) # stack"] Let_def)
qed

section \<open>What a finished walk computed\<close>

definition component_of :: "'n cfg \<Rightarrow> 'n set \<Rightarrow> 'n list \<Rightarrow> bool" where
  "component_of g S0 po \<longleftrightarrow> po_inv g (last po) S0 [] (S0 \<union> set po) po"

fun components_from :: "'n cfg \<Rightarrow> 'n set \<Rightarrow> 'n list list \<Rightarrow> bool" where
  "components_from g S0 [] \<longleftrightarrow> True"
| "components_from g S0 (po # pos) \<longleftrightarrow> component_of g S0 po \<and> components_from g (S0 \<union> set po) pos"

lemma component_ofD:
  assumes "component_of g S0 po"
  shows "po \<noteq> []" and "distinct po" and "set po \<inter> S0 = {}" and "set po \<subseteq> set (graph_nodes g)"
    and "po = as @ v # bs \<Longrightarrow> edge g v w \<Longrightarrow> w \<in> S0 \<union> set as \<or> reaches g w v"
    and "po = as @ v # bs \<Longrightarrow> v = last po \<or> (\<exists>u \<in> set bs. edge g u v)"
    and "v \<in> set po \<Longrightarrow> edge g v w \<Longrightarrow> w \<in> S0 \<union> set po"
  using po_invD[OF assms[unfolded component_of_def]] by (auto simp: po_ordered_def)

lemma walk_component:
  assumes "wf_cfg g" and "n \<in> set (graph_nodes g)" and "n \<notin> S0"
  shows "\<exists>po. post_order_walk_component g n S0 [] = Some (S0 \<union> set po, po) \<and> component_of g S0 po
    \<and> last po = n"
proof -
  obtain seen po where "po_loop g [(n, 0)] (insert n S0) [] = Some (seen, po)" "po_inv g n S0 [] seen po"
    using po_loop_returns[OF assms(1) po_inv_start[OF assms(2,3)]] by blast
  moreover from this(2) have "last po = n" "seen = S0 \<union> set po"
    using po_invD(9)[of g n S0 "[]"] po_invD(1)[of g n S0 "[]"] by auto
  ultimately show ?thesis using assms(3)
    by (auto simp: post_order_walk_component_def component_of_def)
qed

lemma walk_components_returns:
  assumes "wf_cfg g" and "set ns \<subseteq> set (graph_nodes g)"
  shows "\<exists>pos. walk_components g finish ns S0 comps = Some (comps @ map finish pos)
    \<and> components_from g S0 pos \<and> set ns \<subseteq> S0 \<union> set (concat pos)
    \<and> (\<forall>n ns'. ns = n # ns' \<longrightarrow> n \<notin> S0 \<longrightarrow> (\<exists>po pos'. pos = po # pos' \<and> last po = n))"
  using assms(2)
proof (induction ns arbitrary: S0 comps)
  case Nil
  show ?case by (intro exI[of _ "[]"]) simp
next
  case (Cons n ns)
  show ?case
  proof (cases "n \<in> S0")
    case True
    obtain pos where "walk_components g finish ns S0 comps = Some (comps @ map finish pos)"
        "components_from g S0 pos" "set ns \<subseteq> S0 \<union> set (concat pos)"
      using Cons.IH[of S0 comps] Cons.prems by auto
    then show ?thesis using True by (intro exI[of _ pos]) (auto simp: post_order_walk_component_def)
  next
    case False
    obtain po where po: "post_order_walk_component g n S0 [] = Some (S0 \<union> set po, po)"
        "component_of g S0 po" "last po = n"
      using walk_component[OF assms(1) _ False] Cons.prems by auto
    obtain pos where "walk_components g finish ns (S0 \<union> set po) (comps @ [finish po])
          = Some ((comps @ [finish po]) @ map finish pos)"
        "components_from g (S0 \<union> set po) pos" "set ns \<subseteq> S0 \<union> set po \<union> set (concat pos)"
      using Cons.IH[of "S0 \<union> set po" "comps @ [finish po]"] Cons.prems by auto
    then show ?thesis using po component_ofD(1)[OF po(2)] last_in_set[of po]
      by (intro exI[of _ "po # pos"]) auto
  qed
qed

lemma components_from_distinct:
  "components_from g S0 pos \<Longrightarrow> distinct (concat pos) \<and> set (concat pos) \<inter> S0 = {}
     \<and> set (concat pos) \<subseteq> set (graph_nodes g)"
proof (induction pos arbitrary: S0)
  case (Cons po pos)
  then show ?case using component_ofD(2-4)[of g S0 po] Cons.IH[of "S0 \<union> set po"] by auto
qed simp

lemma last_component_reaches:
  assumes "component_of g S0 po" and "v \<in> set po"
  shows "reaches g (last po) v"
proof -
  have "\<forall>as v bs. length bs = n \<longrightarrow> po = as @ v # bs \<longrightarrow> reaches g (last po) v" for n
  proof (induction n rule: less_induct)
    case (less n)
    show ?case
    proof (intro allI impI)
      fix as v bs assume l: "length bs = n" and po: "po = as @ v # bs"
      consider "v = last po" | u where "u \<in> set bs" "edge g u v"
        using component_ofD(6)[OF assms(1) po] by blast
      then show "reaches g (last po) v"
      proof cases
        case 2
        then obtain cs ds where "bs = cs @ u # ds" using split_list by fast
        then have "reaches g (last po) u" using less.IH[of "length ds"] l po by auto
        then show ?thesis using reaches_step 2(2) by fast
      qed simp
    qed
  qed
  then show ?thesis using split_list[OF assms(2)] by blast
qed

lemma first_component_set:
  assumes "component_of g {} po"
  shows "set po = {v. reaches g (last po) v}"
proof -
  have "v \<in> set po" if "reaches g (last po) v" for v
    using that by (induction rule: reaches_induct)
      (use component_ofD(1,7)[OF assms] last_in_set[of po] in auto)
  then show ?thesis using last_component_reaches[OF assms] by auto
qed

text \<open>The facts on a reverse post-order that the dominance computation needs.\<close>

definition rpo_of :: "'n cfg \<Rightarrow> 'n \<Rightarrow> 'n list \<Rightarrow> bool" where
  "rpo_of g e rpo \<longleftrightarrow>
     distinct rpo \<and> set rpo = {v. reaches g e v} \<and> 0 < length rpo \<and> rpo ! 0 = e
     \<and> (\<forall>i. 0 < i \<and> i < length rpo \<longrightarrow> (\<exists>j < i. edge g (rpo ! j) (rpo ! i)))"

lemma first_component_rpo:
  assumes "component_of g {} po"
  shows "rpo_of g (last po) (rev po)"
proof -
  note C = component_ofD[OF assms]
  have "\<exists>j < i. edge g (rev po ! j) (rev po ! i)" if i: "0 < i" "i < length po" for i
  proof -
    define k where "k = length po - Suc i"
    have k: "k < length po" "rev po ! i = po ! k" "Suc k < length po" using i by (auto simp: k_def rev_nth)
    have split: "po = take k po @ po ! k # drop (Suc k) po" using k(1) by (simp add: id_take_nth_drop)
    have "po ! k \<noteq> last po"
      using C(1,2) k by (auto simp: last_conv_nth nth_eq_iff_index_eq)
    then obtain u where u: "u \<in> set (drop (Suc k) po)" "edge g u (po ! k)" using C(6)[OF split] by blast
    then obtain m where m: "m < length po - Suc k" "u = po ! (Suc k + m)" by (auto simp: in_set_conv_nth)
    define j where "j = i - Suc m"
    have "m < i" using m(1) i k_def by linarith
    then have "j < i" "length po - Suc j = Suc k + m" "j < length po" using i by (auto simp: j_def k_def)
    then have "j < i" "rev po ! j = u" using m(2) by (simp_all add: rev_nth)
    then show ?thesis using u(2) k(2) by metis
  qed
  then show ?thesis using C(1,2) first_component_set[OF assms]
    by (auto simp: rpo_of_def rev_nth last_conv_nth)
qed

lemma topological_by_component_first:
  assumes "wf_cfg g" and "entry_node g = Some e"
  shows "\<exists>rpo rest. topological_order_by_component g = Some (rpo # rest) \<and> rpo_of g e rpo
    \<and> (\<forall>as v bs w. rpo = as @ v # bs \<longrightarrow> edge g v w \<longrightarrow> w \<in> set bs \<or> reaches g w v)"
proof -
  obtain ns where ns: "graph_nodes g = e # ns" using wf_cfgD(4)[OF assms] by blast
  obtain po pos where r: "topological_order_by_component g = Some (map rev (po # pos))"
      "components_from g {} (po # pos)" "last po = e"
    using walk_components_returns[OF assms(1) subset_refl, of rev "{}" "[]"] ns
    by (auto simp: topological_order_by_component_def)
  then have c: "component_of g {} po" by simp
  have "w \<in> set bs \<or> reaches g w v" if "rev po = as @ v # bs" "edge g v w" for as v bs w
  proof -
    have "po = rev bs @ v # rev as" using that(1) by (simp add: rev_swap)
    then show ?thesis using component_ofD(5)[OF c _ that(2)] by fastforce
  qed
  then show ?thesis using r c first_component_rpo[OF c] by auto
qed

section \<open>Numbers of the traversal\<close>

text \<open>
  The numbered walk makes the same rounds as \<open>po_loop\<close>: \<open>dfs_rel\<close> relates its table to
  the other walk's state. The finished nodes carry their position in post-order.
\<close>

definition dfs_rel :: "'n dfs_tree \<Rightarrow> nat \<Rightarrow> nat \<Rightarrow> 'n set \<Rightarrow> 'n list \<Rightarrow> bool" where
  "dfs_rel t pre post seen po \<longleftrightarrow>
     distinct (map fst t) \<and> fst ` set t = seen \<and> pre = length t \<and> post = length po
     \<and> map (\<lambda>(k, d). pre_order_number d) t = [0..<length t]
     \<and> (\<forall>i < length po. \<exists>d. map_of t (po ! i) = Some d \<and> post_order_number d = i)"

lemma dfs_visit_rel:
  assumes "dfs_rel t pre post seen po" and "n \<notin> seen" and "set po \<subseteq> seen"
  shows "\<exists>t'. dfs_visit n pre t = Some t' \<and> dfs_rel t' (pre + 1) post (insert n seen) po"
proof -
  let ?d = "\<lparr>pre_order_number = pre, post_order_number = 0, reverse_post_order_number = 0\<rparr>"
  have n: "n \<notin> fst ` set t" using assms by (simp add: dfs_rel_def)
  then have app: "AList.update n ?d t = t @ [(n, ?d)]" by (induction t) auto
  have none: "map_of t n = None" using n by (simp add: map_of_eq_None_iff)
  have "map_of (t @ [(n, ?d)]) (po ! i) = map_of t (po ! i)" if "i < length po" for i
  proof -
    have "po ! i \<noteq> n" using assms(2,3) that nth_mem by blast
    then show ?thesis by (simp add: map_add_def split: option.split)
  qed
  then have "dfs_rel (t @ [(n, ?d)]) (pre + 1) post (insert n seen) po"
    using assms(1) n by (auto simp: dfs_rel_def)
  then show ?thesis using none app by (simp add: dfs_visit_def)
qed

lemma dfs_finish_rel:
  assumes rel: "dfs_rel t pre post seen po" and n: "n \<in> seen" "n \<notin> set po"
  shows "\<exists>d. map_of t n = Some d
    \<and> dfs_rel (AList.update n (d\<lparr>post_order_number := post\<rparr>) t) pre (post + 1) seen (po @ [n])"
proof -
  obtain d where d: "map_of t n = Some d"
    using rel n(1) map_of_eq_None_iff[of t n] by (cases "map_of t n") (auto simp: dfs_rel_def)
  have keys: "map fst (AList.update n v t) = map fst t" for v
    using d by (simp add: update_keys weak_map_of_SomeI domIff map_of_SomeD)
      (metis (no_types) d fst_conv imageI map_of_SomeD set_map)
  have pres: "map (\<lambda>(k, d). pre_order_number d) (AList.update n (d\<lparr>post_order_number := post\<rparr>) t)
      = map (\<lambda>(k, d). pre_order_number d) t"
    using d by (induction t) (auto split: if_splits)
  have "fst ` set (AList.update n v t) = fst ` set t" for v using keys[of v] by (metis set_map)
  moreover have "length (AList.update n v t) = length t" for v using keys[of v] by (metis length_map)
  moreover have "post = length po" "\<And>i. i < length po \<Longrightarrow> po ! i \<noteq> n"
    using rel n(2) by (auto simp: dfs_rel_def)
  ultimately have "dfs_rel (AList.update n (d\<lparr>post_order_number := post\<rparr>) t) pre (post + 1) seen (po @ [n])"
    using rel keys pres unfolding dfs_rel_def
    by (auto simp: update_conv' nth_append less_Suc_eq)
  then show ?thesis using d by blast
qed

lemma dfs_loop_returns:
  assumes "wf_cfg g" and "po_inv g root S0 stack seen po" and "dfs_rel t pre post seen po"
  shows "\<exists>pre' post' t' seen' po'. dfs_loop g stack pre post t = Some (pre', post', t')
    \<and> po_loop g stack seen po = Some (seen', po') \<and> dfs_rel t' pre' post' seen' po'"
  using assms
proof (induction arbitrary: t pre post rule: dfs_walk_induct)
  case (fin seen po)
  then show ?case by (simp add: dfs_loop.simps po_loop.simps)
next
  case (push n i stack seen po)
  have "set po \<subseteq> seen" using po_invD(1)[OF push(1)] by auto
  then obtain t' where t': "dfs_visit (get_successor g n i) pre t = Some t'"
      "dfs_rel t' (pre + 1) post (insert (get_successor g n i) seen) po"
    using dfs_visit_rel[OF push.prems] push(3) by blast
  moreover have "fst ` set t = seen" using push.prems by (simp add: dfs_rel_def)
  ultimately show ?case using push.IH[OF t'(2)] push(2,3)
    by (simp add: dfs_loop.simps[of g "(n, i) # stack"] po_loop.simps[of g "(n, i) # stack"] Let_def)
next
  case (skip n i stack seen po)
  moreover have "fst ` set t = seen" using skip.prems by (simp add: dfs_rel_def)
  ultimately show ?case
    by (simp add: dfs_loop.simps[of g "(n, i) # stack"] po_loop.simps[of g "(n, i) # stack"] Let_def)
next
  case (pop n i stack seen po)
  have n: "n \<in> seen" "n \<notin> set po" using po_invD(1,2)[OF pop(1)] by auto
  obtain d where d: "map_of t n = Some d"
      "dfs_rel (AList.update n (d\<lparr>post_order_number := post\<rparr>) t) pre (post + 1) seen (po @ [n])"
    using dfs_finish_rel[OF pop.prems n] by blast
  show ?case using pop.IH[OF d(2)] d(1) pop(2)
    by (simp add: dfs_loop.simps[of g "(n, i) # stack"] po_loop.simps[of g "(n, i) # stack"] Let_def)
qed

section \<open>The orders of a traversal\<close>

lemma place_by_slots:
  assumes "\<And>k d. (k, d) \<in> set t \<Longrightarrow> num d < length slots"
  shows "\<exists>slots'. place_by num t slots = Some slots' \<and> length slots' = length slots
    \<and> (\<forall>i < length slots. (\<forall>(k, d) \<in> set t. num d \<noteq> i) \<longrightarrow> slots' ! i = slots ! i)
    \<and> (\<forall>i < length slots. (\<exists>(k, d) \<in> set t. num d = i) \<longrightarrow> (\<exists>(k, d) \<in> set t. num d = i \<and> slots' ! i = Some k))"
  using assms
proof (induction t arbitrary: slots)
  case (Cons x t)
  obtain k d where x: "x = (k, d)" by fastforce
  have b: "num d < length slots" using Cons.prems x by auto
  obtain slots' where s: "place_by num t (slots[num d := Some k]) = Some slots'" "length slots' = length slots"
      "\<And>i. i < length slots \<Longrightarrow> \<forall>(k, d) \<in> set t. num d \<noteq> i \<Longrightarrow> slots' ! i = slots[num d := Some k] ! i"
      "\<And>i. i < length slots \<Longrightarrow> \<exists>(k, d) \<in> set t. num d = i \<Longrightarrow> \<exists>(k, d) \<in> set t. num d = i \<and> slots' ! i = Some k"
    using Cons.IH[of "slots[num d := Some k]"] Cons.prems x by auto
  have "\<exists>(k', d') \<in> set (x # t). num d' = i \<and> slots' ! i = Some k'"
    if i: "i < length slots" "\<exists>(k', d') \<in> set (x # t). num d' = i" for i
  proof (cases "\<exists>(k', d') \<in> set t. num d' = i")
    case True
    then show ?thesis using s(4)[OF i(1)] by auto
  next
    case False
    then have "num d = i" "slots' ! i = Some k" using i x s(3)[OF i(1)] by auto
    then show ?thesis using x by auto
  qed
  then show ?case using s(1,2) s(3) b x
    by (intro exI[of _ slots']) (auto simp: nth_list_update split: prod.splits)
qed simp

lemma unwrap_all_Some [simp]: "unwrap_all (map Some xs) = Some xs"
  by (induction xs) simp_all

lemma dfs_ordered_eq:
  assumes d: "distinct (map fst t)" and len: "length xs = length t"
    and nums: "\<And>k d. (k, d) \<in> set t \<Longrightarrow> num d < length xs \<and> xs ! num d = k"
  shows "dfs_ordered num t = Some xs"
proof -
  obtain slots where s: "place_by num t (replicate (length t) None) = Some slots" "length slots = length t"
      "\<And>i. i < length t \<Longrightarrow> \<exists>(k, d) \<in> set t. num d = i \<Longrightarrow> \<exists>(k, d) \<in> set t. num d = i \<and> slots ! i = Some k"
    using place_by_slots[of t num "replicate (length t) None"] nums len by auto
  let ?f = "\<lambda>(k, d). num d"
  have "inj_on ?f (set t)"
  proof (rule inj_onI)
    fix x y assume a: "x \<in> set t" "y \<in> set t" "?f x = ?f y"
    obtain k c k' c' where xy: "x = (k, c)" "y = (k', c')" by fastforce
    have "k = xs ! num c" "k' = xs ! num c'" using nums[of k c] nums[of k' c'] a(1,2) xy by simp_all
    then have "k = k'" using a(3) xy by simp
    then show "x = y" using eq_key_imp_eq_value[OF d] a(1,2) xy by blast
  qed
  then have "card (?f ` set t) = length t"
    using d by (simp add: card_image distinct_card distinct_map)
  moreover have "?f ` set t \<subseteq> {..<length t}" using nums len by auto
  ultimately have "?f ` set t = {..<length t}" by (metis card_lessThan card_subset_eq finite_lessThan)
  then have "slots ! i = Some (xs ! i)" if "i < length t" for i
  proof -
    have "i < length t" by fact
    have "i \<in> ?f ` set t" using \<open>?f ` set t = {..<length t}\<close> that by simp
    then have "\<exists>(k, d) \<in> set t. num d = i" by fastforce
    then obtain k c where "(k, c) \<in> set t" "num c = i" "slots ! i = Some k" using s(3)[OF \<open>i < length t\<close>] by blast
    then show ?thesis using nums[of k c] by simp
  qed
  then have "slots = map Some xs" using s(2) len by (intro nth_equalityI) auto
  then show ?thesis using s(1) by (simp add: dfs_ordered_def)
qed

lemma fill_rpos_returns:
  assumes "\<And>k d. (k, d) \<in> set t \<Longrightarrow> post_order_number d < n"
  shows "fill_rpos n t = Some (map (\<lambda>(k, d). (k, d\<lparr>reverse_post_order_number := n - 1 - post_order_number d\<rparr>)) t)"
  using assms
proof (induction t)
  case (Cons x t)
  obtain k d where x: "x = (k, d)" by fastforce
  have "post_order_number d < n" using Cons.prems x by auto
  moreover have "fill_rpos n t = Some (map (\<lambda>(k, d). (k, d\<lparr>reverse_post_order_number := n - 1 - post_order_number d\<rparr>)) t)"
    by (rule Cons.IH) (use Cons.prems in auto)
  ultimately show ?case using x by (simp add: fill_rpo_def)
qed simp

lemma dfs_traversal_returns:
  assumes wf: "wf_cfg g" and e: "entry_node g = Some e"
  shows "\<exists>t po. dfs_traversal g = Some t \<and> component_of g {} po \<and> last po = e
    \<and> post_order_walk_component g e {} [] = Some (set po, po)
    \<and> distinct (map fst t) \<and> fst ` set t = set po
    \<and> dfs_post_order t = Some po \<and> dfs_reverse_post_order t = Some (rev po)
    \<and> dfs_pre_order t = Some (map fst t)"
proof -
  have en: "e \<in> set (graph_nodes g)" using wf_cfgD(4)[OF assms] by auto
  obtain po where po: "post_order_walk_component g e {} [] = Some (set po, po)" "component_of g {} po" "last po = e"
    using walk_component[OF wf en, of "{}"] by auto
  obtain t0 where t0: "dfs_visit e 0 [] = Some t0" "dfs_rel t0 1 0 {e} []"
    using dfs_visit_rel[of "[]" 0 0 "{}" "[]" e] by (auto simp: dfs_rel_def)
  obtain pre post t1 where t1: "dfs_loop g [(e, 0)] 1 0 t0 = Some (pre, post, t1)" "dfs_rel t1 pre post (set po) po"
    using dfs_loop_returns[OF wf po_inv_start[OF en, of "{}"] t0(2)] po(1)
    by (auto simp: post_order_walk_component_def)
  note R = t1(2)[unfolded dfs_rel_def]
  have c: "distinct po" using component_ofD(2)[OF po(2)] .
  have len: "length t1 = length po" using R c by (metis distinct_card length_map set_map)
  have post: "post_order_number d < length po \<and> po ! post_order_number d = k" if "(k, d) \<in> set t1" for k d
  proof -
    have "k \<in> set po" using R that by force
    then obtain i where i: "i < length po" "po ! i = k" by (auto simp: in_set_conv_nth)
    moreover have "map_of t1 k = Some d" using R that by simp
    ultimately show ?thesis using R by auto
  qed
  let ?t = "map (\<lambda>(k, d). (k, d\<lparr>reverse_post_order_number := length po - 1 - post_order_number d\<rparr>)) t1"
  have tr: "dfs_traversal g = Some ?t"
    using e t0(1) t1(1) fill_rpos_returns[of t1 "length po"] post len
    by (simp add: dfs_traversal_def dfs_walk_def)
  have keys: "map fst ?t = map fst t1" by (induction t1) auto
  have dk: "distinct (map fst ?t)" unfolding keys using R by blast
  have "dfs_ordered post_order_number ?t = Some po"
    by (rule dfs_ordered_eq[OF dk]) (use len post in auto)
  moreover have "dfs_ordered reverse_post_order_number ?t = Some (rev po)"
  proof (rule dfs_ordered_eq[OF dk])
    fix k d assume "(k, d) \<in> set ?t"
    then obtain d' where "(k, d') \<in> set t1" "reverse_post_order_number d = length po - 1 - post_order_number d'"
      by auto
    then show "reverse_post_order_number d < length (rev po) \<and> rev po ! reverse_post_order_number d = k"
      using post[of k d'] by (auto simp: rev_nth)
  qed (use len in simp)
  moreover have "dfs_ordered pre_order_number ?t = Some (map fst ?t)"
  proof (rule dfs_ordered_eq[OF dk])
    fix k d assume "(k, d) \<in> set ?t"
    then obtain i where i: "i < length t1" "?t ! i = (k, d)" by (auto simp only: in_set_conv_nth length_map)
    obtain k1 d1 where t: "t1 ! i = (k1, d1)" by fastforce
    then have kd: "k = k1" "pre_order_number d = pre_order_number d1" using i by auto
    have "map (\<lambda>(k, d). pre_order_number d) t1 = [0..<length t1]" using R by blast
    then have "map (\<lambda>(k, d). pre_order_number d) t1 ! i = i" using i(1) by simp
    then have pre: "pre_order_number d1 = i" using t i(1) by simp
    have "map fst ?t ! i = k" unfolding keys using t kd(1) i(1) by simp
    then show "pre_order_number d < length (map fst ?t) \<and> map fst ?t ! pre_order_number d = k"
      using kd(2) pre i(1) by (simp only: length_map)
  qed simp
  moreover have "fst ` set ?t = set po"
  proof -
    have "fst ` set t1 = set po" using R by blast
    then show ?thesis using arg_cong[OF keys, of set] by (simp only: set_map)
  qed
  ultimately show ?thesis using tr po dk
    unfolding dfs_post_order_def dfs_reverse_post_order_def dfs_pre_order_def by blast
qed

section \<open>Properties\<close>

text \<open>A loop with a diamond in its body, and an unreachable block, for the witnesses.\<close>

definition demo_cfg :: "nat cfg" where
  "demo_cfg = cfg_of [(10, [11, 12]), (11, [13]), (12, [13]), (13, [11, 14]), (14, []), (15, [13])]"

lemma demo_cfg_wf: "wf_cfg demo_cfg"
  unfolding demo_cfg_def by (rule wf_cfg_of) (simp add: cfg_of_ok_def)

lemma demo_cfg_entry: "entry_node demo_cfg = Some 10"
  by (simp add: demo_cfg_def cfg_of_def Let_def)

text \<open>
  On every well-formed graph, unreachable nodes included, \<open>post_order\<close> and
  \<open>topological_order\<close> return and list every node exactly once.
\<close>

theorem orders_cover_all_nodes:
  assumes "wf_cfg g"
  shows "\<exists>po rpo. post_order g = Some po \<and> topological_order g = Some rpo
    \<and> distinct po \<and> set po = set (graph_nodes g) \<and> distinct rpo \<and> set rpo = set (graph_nodes g)"
proof -
  obtain pos where p: "walk_components g (\<lambda>po. po) (graph_nodes g) {} [] = Some (map (\<lambda>po. po) pos)"
      "components_from g {} pos" "set (graph_nodes g) \<subseteq> set (concat pos)"
    using walk_components_returns[OF assms subset_refl, of "\<lambda>po. po" "{}" "[]"] by auto
  obtain qos where q: "walk_components g rev (graph_nodes g) {} [] = Some (map rev qos)"
      "components_from g {} qos" "set (graph_nodes g) \<subseteq> set (concat qos)"
    using walk_components_returns[OF assms subset_refl, of rev "{}" "[]"] by auto
  have r: "concat (map rev qos) = rev (concat (rev qos))" by (simp add: rev_concat)
  show ?thesis
    using p q components_from_distinct[OF p(2)] components_from_distinct[OF q(2)]
    by (auto simp: post_order_def post_order_by_component_def topological_order_def
        topological_order_by_component_def r)
qed

theorem orders_cover_all_nodes_witness:
  "\<exists>po rpo. post_order demo_cfg = Some po \<and> topological_order demo_cfg = Some rpo
    \<and> distinct po \<and> set po = {10, 11, 12, 13, 14, 15} \<and> distinct rpo \<and> set rpo = {10, 11, 12, 13, 14, 15}"
  using orders_cover_all_nodes[OF demo_cfg_wf] by (auto simp: demo_cfg_def cfg_of_def Let_def)

text \<open>
  The first component of \<open>topological_order_by_component\<close> is a reverse post-order of what the
  entry reaches: it starts with the entry and holds exactly the reachable nodes, once each; an
  edge goes forward in it unless its target reaches its source back (a cycle), and every
  node but the entry comes after one of its predecessors.
\<close>

theorem topological_order_correct:
  assumes "wf_cfg g" and "entry_node g = Some e"
  shows "\<exists>rpo rest. topological_order_by_component g = Some (rpo # rest)
    \<and> distinct rpo \<and> set rpo = {v. reaches g e v} \<and> rpo ! 0 = e
    \<and> (\<forall>as v bs w. rpo = as @ v # bs \<longrightarrow> edge g v w \<longrightarrow> w \<in> set bs \<or> reaches g w v)
    \<and> (\<forall>i. 0 < i \<and> i < length rpo \<longrightarrow> (\<exists>j < i. edge g (rpo ! j) (rpo ! i)))"
  using topological_by_component_first[OF assms] by (auto simp: rpo_of_def)

theorem topological_order_correct_witness:
  "\<exists>rpo rest. topological_order_by_component demo_cfg = Some (rpo # rest) \<and> rpo ! 0 = 10
     \<and> set rpo = {v. reaches demo_cfg 10 v}"
  using topological_order_correct[OF demo_cfg_wf demo_cfg_entry] by blast

text \<open>
  The numbered traversal of a non-empty graph returns, numbers exactly the nodes the entry
  reaches, and its three orders never panic: post-order is the list the plain walk
  computes, reverse post-order is its reversal (a topological order with the entry first), and
  pre-order is the order of discovery.
\<close>

theorem dfs_traversal_correct:
  assumes "wf_cfg g" and "entry_node g = Some e"
  shows "\<exists>t po. dfs_traversal g = Some t \<and> distinct (map fst t) \<and> fst ` set t = {v. reaches g e v}
    \<and> post_order_walk_component g e {} [] = Some (set po, po)
    \<and> dfs_post_order t = Some po \<and> dfs_reverse_post_order t = Some (rev po)
    \<and> dfs_pre_order t = Some (map fst t) \<and> rpo_of g e (rev po)"
proof -
  obtain t po where t: "dfs_traversal g = Some t" "component_of g {} po" "last po = e"
      "post_order_walk_component g e {} [] = Some (set po, po)"
      "distinct (map fst t)" "fst ` set t = set po" "dfs_post_order t = Some po"
      "dfs_reverse_post_order t = Some (rev po)" "dfs_pre_order t = Some (map fst t)"
    using dfs_traversal_returns[OF assms] by blast
  then show ?thesis using first_component_set[OF t(2)] first_component_rpo[OF t(2)] by blast
qed

theorem dfs_traversal_correct_witness:
  "\<exists>t po. dfs_traversal demo_cfg = Some t \<and> dfs_post_order t = Some po \<and> rpo_of demo_cfg 10 (rev po)"
  using dfs_traversal_correct[OF demo_cfg_wf demo_cfg_entry] by blast

end
