(* ===== verification/Scc.thy ===== *)
theory Scc
  imports Traversals
begin

text \<open>
  Correctness of \<open>sccs_in_topological_order\<close> of \<^verbatim>\<open>src/src/graph/traversals.rs\<close>, Tarjan's algorithm
  with an explicit call stack (its model is in \<open>Traversals\<close>). The invariant speaks of the
  call stack (open nodes), the component stack and the components emitted so far:

  \<^item> \<open>tj_shape\<close>: numbering, stack order, and the split of the visited nodes;
  \<^item> \<open>tj_reach\<close>: every stacked node reaches an open node numbered no higher, and every
    open node reaches the stacked nodes numbered no lower;
  \<^item> \<open>tj_low\<close>: a low link is attained, and bounds the explored edges of its segment of the stack;
  \<^item> \<open>scc_chain\<close>: each emitted component is strongly connected and its edges stay in it or go
    to components emitted before.
\<close>

section \<open>What is proved of a list of components\<close>

definition members :: "'n scc list \<Rightarrow> 'n set" where
  "members cs = (\<Union>c \<in> set cs. set (scc_nodes c))"

fun scc_chain :: "'n cfg \<Rightarrow> 'n scc list \<Rightarrow> bool" where
  "scc_chain g [] \<longleftrightarrow> True"
| "scc_chain g (c # cs) \<longleftrightarrow>
     scc_nodes c \<noteq> [] \<and> distinct (scc_nodes c) \<and> set (scc_nodes c) \<inter> members cs = {}
     \<and> (\<forall>u \<in> set (scc_nodes c). \<forall>v \<in> set (scc_nodes c). reaches g u v)
     \<and> (\<forall>u \<in> set (scc_nodes c). \<forall>v. edge g u v \<longrightarrow> v \<in> set (scc_nodes c) \<or> v \<in> members cs)
     \<and> is_cyclic c = (1 < length (scc_nodes c) \<or> (\<exists>u \<in> set (scc_nodes c). edge g u u))
     \<and> scc_chain g cs"

lemma members_simps [simp]: "members [] = {}" "members (c # cs) = set (scc_nodes c) \<union> members cs"
  by (auto simp: members_def)

section \<open>The invariant\<close>

abbreviation ix :: "'n tarjan \<Rightarrow> 'n \<Rightarrow> nat" where
  "ix st v \<equiv> the (index_of st v)"

abbreviation lw :: "'n tarjan \<Rightarrow> 'n \<Rightarrow> nat" where
  "lw st v \<equiv> the (lowlink st v)"

definition explored :: "'n cfg \<Rightarrow> ('n \<times> nat) list \<Rightarrow> 'n \<Rightarrow> 'n \<Rightarrow> bool" where
  "explored g cs x w \<longleftrightarrow>
     (\<exists>j < num_successors g x. w = get_successor g x j \<and> (\<forall>i. (x, i) \<in> set cs \<longrightarrow> j < i))"

definition tj_shape :: "'n cfg \<Rightarrow> ('n \<times> nat) list \<Rightarrow> 'n tarjan \<Rightarrow> bool" where
  "tj_shape g cs st \<longleftrightarrow>
     dom (lowlink st) = dom (index_of st)
     \<and> (\<forall>u \<in> dom (index_of st). \<forall>v \<in> dom (index_of st). ix st u = ix st v \<longrightarrow> u = v)
     \<and> (\<forall>v \<in> dom (index_of st). ix st v < next_index st)
     \<and> dom (index_of st) \<subseteq> set (graph_nodes g)
     \<and> dom (index_of st) = members (rev (sccs st)) \<union> set (scc_stack st)
     \<and> members (rev (sccs st)) \<inter> set (scc_stack st) = {}
     \<and> on_scc_stack st = set (scc_stack st)
     \<and> sorted_wrt (\<lambda>a b. ix st b < ix st a) (scc_stack st)
     \<and> sorted_wrt (\<lambda>a b. ix st b < ix st a) (map fst cs)
     \<and> fst ` set cs \<subseteq> set (scc_stack st)
     \<and> (\<forall>(n, i) \<in> set cs. i \<le> num_successors g n)"

definition tj_reach :: "'n cfg \<Rightarrow> ('n \<times> nat) list \<Rightarrow> 'n tarjan \<Rightarrow> bool" where
  "tj_reach g cs st \<longleftrightarrow>
     (\<forall>x \<in> set (scc_stack st). \<exists>y \<in> fst ` set cs. ix st y \<le> ix st x \<and> reaches g x y)
     \<and> (\<forall>x \<in> fst ` set cs. \<forall>y \<in> set (scc_stack st). ix st x \<le> ix st y \<longrightarrow> reaches g x y)"

definition segment :: "('n \<times> nat) list \<Rightarrow> 'n tarjan \<Rightarrow> 'n \<Rightarrow> 'n set" where
  "segment cs st v = {x \<in> set (scc_stack st). ix st v \<le> ix st x
     \<and> (\<forall>v' \<in> fst ` set cs. ix st v < ix st v' \<longrightarrow> ix st x < ix st v')}"

definition tj_low :: "'n cfg \<Rightarrow> ('n \<times> nat) list \<Rightarrow> 'n tarjan \<Rightarrow> bool" where
  "tj_low g cs st \<longleftrightarrow>
     (\<forall>x \<in> set (scc_stack st). \<forall>w. explored g cs x w \<longrightarrow> w \<in> dom (index_of st))
     \<and> (\<forall>v \<in> fst ` set cs. lw st v \<le> ix st v \<and> (\<exists>u \<in> set (scc_stack st). ix st u = lw st v \<and> reaches g v u))
     \<and> (\<forall>v \<in> fst ` set cs. \<forall>x \<in> segment cs st v. \<forall>w \<in> set (scc_stack st).
          explored g cs x w \<longrightarrow> lw st v \<le> ix st w)"

definition tj_inv :: "'n cfg \<Rightarrow> ('n \<times> nat) list \<Rightarrow> 'n tarjan \<Rightarrow> bool" where
  "tj_inv g cs st \<longleftrightarrow> tj_shape g cs st \<and> tj_reach g cs st \<and> tj_low g cs st \<and> scc_chain g (rev (sccs st))"

lemma tj_shapeD:
  assumes "tj_shape g cs st"
  shows "dom (lowlink st) = dom (index_of st)"
    and "u \<in> dom (index_of st) \<Longrightarrow> v \<in> dom (index_of st) \<Longrightarrow> ix st u = ix st v \<Longrightarrow> u = v"
    and "v \<in> dom (index_of st) \<Longrightarrow> ix st v < next_index st"
    and "dom (index_of st) \<subseteq> set (graph_nodes g)"
    and "dom (index_of st) = members (rev (sccs st)) \<union> set (scc_stack st)"
    and "members (rev (sccs st)) \<inter> set (scc_stack st) = {}"
    and "on_scc_stack st = set (scc_stack st)"
    and "sorted_wrt (\<lambda>a b. ix st b < ix st a) (scc_stack st)"
    and "sorted_wrt (\<lambda>a b. ix st b < ix st a) (map fst cs)"
    and "fst ` set cs \<subseteq> set (scc_stack st)"
    and "(n, i) \<in> set cs \<Longrightarrow> i \<le> num_successors g n"
proof -
  note a = assms[unfolded tj_shape_def]
  show "dom (lowlink st) = dom (index_of st)" "dom (index_of st) \<subseteq> set (graph_nodes g)"
    "dom (index_of st) = members (rev (sccs st)) \<union> set (scc_stack st)"
    "members (rev (sccs st)) \<inter> set (scc_stack st) = {}" "on_scc_stack st = set (scc_stack st)"
    "sorted_wrt (\<lambda>a b. ix st b < ix st a) (scc_stack st)"
    "sorted_wrt (\<lambda>a b. ix st b < ix st a) (map fst cs)" "fst ` set cs \<subseteq> set (scc_stack st)"
    by (insert a, (elim conjE, assumption)+)
  show "u \<in> dom (index_of st) \<Longrightarrow> v \<in> dom (index_of st) \<Longrightarrow> ix st u = ix st v \<Longrightarrow> u = v"
    using a[THEN conjunct2, THEN conjunct1] by blast
  show "v \<in> dom (index_of st) \<Longrightarrow> ix st v < next_index st"
    using a[THEN conjunct2, THEN conjunct2, THEN conjunct1] by blast
  have "\<forall>(n, i) \<in> set cs. i \<le> num_successors g n" using a by (elim conjE)
  then show "(n, i) \<in> set cs \<Longrightarrow> i \<le> num_successors g n" by blast
qed

lemma tj_reachD:
  assumes "tj_reach g cs st"
  shows "x \<in> set (scc_stack st) \<Longrightarrow> \<exists>y \<in> fst ` set cs. ix st y \<le> ix st x \<and> reaches g x y"
    and "x \<in> fst ` set cs \<Longrightarrow> y \<in> set (scc_stack st) \<Longrightarrow> ix st x \<le> ix st y \<Longrightarrow> reaches g x y"
  using assms[unfolded tj_reach_def, THEN conjunct1] assms[unfolded tj_reach_def, THEN conjunct2] by blast+

lemma tj_lowD:
  assumes "tj_low g cs st"
  shows "x \<in> set (scc_stack st) \<Longrightarrow> explored g cs x w \<Longrightarrow> w \<in> dom (index_of st)"
    and "v \<in> fst ` set cs \<Longrightarrow> lw st v \<le> ix st v"
    and "v \<in> fst ` set cs \<Longrightarrow> \<exists>u \<in> set (scc_stack st). ix st u = lw st v \<and> reaches g v u"
    and "v \<in> fst ` set cs \<Longrightarrow> x \<in> segment cs st v \<Longrightarrow> w \<in> set (scc_stack st) \<Longrightarrow>
      explored g cs x w \<Longrightarrow> lw st v \<le> ix st w"
proof -
  note a = assms[unfolded tj_low_def]
  note b = a[THEN conjunct1] and c = a[THEN conjunct2, THEN conjunct1] and d = a[THEN conjunct2, THEN conjunct2]
  show "x \<in> set (scc_stack st) \<Longrightarrow> explored g cs x w \<Longrightarrow> w \<in> dom (index_of st)" using b by blast
  show "v \<in> fst ` set cs \<Longrightarrow> lw st v \<le> ix st v" using c by blast
  show "v \<in> fst ` set cs \<Longrightarrow> \<exists>u \<in> set (scc_stack st). ix st u = lw st v \<and> reaches g v u" using c by blast
  show "v \<in> fst ` set cs \<Longrightarrow> x \<in> segment cs st v \<Longrightarrow> w \<in> set (scc_stack st) \<Longrightarrow>
      explored g cs x w \<Longrightarrow> lw st v \<le> ix st w" using d by blast
qed

section \<open>Descending to a new node\<close>

lemma visit_simps [simp]:
  "index_of (tarjan_visit w st) = (index_of st)(w \<mapsto> next_index st)"
  "lowlink (tarjan_visit w st) = (lowlink st)(w \<mapsto> next_index st)"
  "next_index (tarjan_visit w st) = next_index st + 1"
  "scc_stack (tarjan_visit w st) = w # scc_stack st"
  "on_scc_stack (tarjan_visit w st) = insert w (on_scc_stack st)"
  "sccs (tarjan_visit w st) = sccs st"
  by (simp_all add: tarjan_visit_def)

lemma sorted_wrt_cong:
  "sorted_wrt P xs \<Longrightarrow> (\<And>a b. a \<in> set xs \<Longrightarrow> b \<in> set xs \<Longrightarrow> P a b \<Longrightarrow> Q a b) \<Longrightarrow> sorted_wrt Q xs"
  by (rule sorted_wrt_mono_rel) auto

lemma visit_shape:
  assumes s: "tj_shape g cs st" and w: "w \<notin> dom (index_of st)" "w \<in> set (graph_nodes g)"
  shows "tj_shape g ((w, 0) # cs) (tarjan_visit w st)"
  unfolding tj_shape_def
proof (intro conjI)
  let ?st = "tarjan_visit w st"
  note d = tj_shapeD[OF s]
  have old: "v \<noteq> w" if "v \<in> set (scc_stack st)" for v using that d(5) w(1) by blast
  have cold: "v \<in> set (scc_stack st)" if "v \<in> fst ` set cs" for v using that d(10) by blast
  have lt: "ix st v < next_index st" if "v \<in> set (scc_stack st)" for v using that d(3,5) by blast
  show "dom (lowlink ?st) = dom (index_of ?st)" using d(1) by simp
  show "\<forall>u \<in> dom (index_of ?st). \<forall>v \<in> dom (index_of ?st). ix ?st u = ix ?st v \<longrightarrow> u = v"
  proof (intro ballI impI)
    fix u v
    assume uv: "u \<in> dom (index_of ?st)" "v \<in> dom (index_of ?st)" "ix ?st u = ix ?st v"
    have dom: "x = w \<or> x \<in> dom (index_of st) \<and> x \<noteq> w" if "x \<in> dom (index_of ?st)" for x
      using that w(1) by auto
    have ne: "ix st x \<noteq> next_index st" if "x \<in> dom (index_of st)" for x using d(3)[OF that] by simp
    show "u = v" using dom[OF uv(1)] dom[OF uv(2)]
    proof (elim disjE)
      assume "u \<in> dom (index_of st) \<and> u \<noteq> w" "v \<in> dom (index_of st) \<and> v \<noteq> w"
      then show ?thesis using uv(3) d(2)[of u v] by simp
    qed (use uv(3) ne in auto)
  qed
  show "\<forall>v \<in> dom (index_of ?st). ix ?st v < next_index ?st" using d(3) by (auto simp: less_Suc_eq)
  show "dom (index_of ?st) \<subseteq> set (graph_nodes g)" using d(4) w(2) by simp
  show "dom (index_of ?st) = members (rev (sccs ?st)) \<union> set (scc_stack ?st)" using d(5) by auto
  show "members (rev (sccs ?st)) \<inter> set (scc_stack ?st) = {}" using d(5,6) w(1) by auto
  show "on_scc_stack ?st = set (scc_stack ?st)" using d(7) by simp
  have "sorted_wrt (\<lambda>a b. ix ?st b < ix ?st a) (scc_stack st)"
    by (rule sorted_wrt_cong[OF d(8)]) (use old in auto)
  then show "sorted_wrt (\<lambda>a b. ix ?st b < ix ?st a) (scc_stack ?st)" using old lt by auto
  have "sorted_wrt (\<lambda>a b. ix ?st b < ix ?st a) (map fst cs)"
    by (rule sorted_wrt_cong[OF d(9)]) (use old cold in auto)
  then show "sorted_wrt (\<lambda>a b. ix ?st b < ix ?st a) (map fst ((w, 0) # cs))" using old cold lt by force
  show "fst ` set ((w, 0) # cs) \<subseteq> set (scc_stack ?st)" using cold by auto
  show "\<forall>(n, i) \<in> set ((w, 0) # cs). i \<le> num_successors g n" using d(11) by auto
qed

text \<open>Moving to the next successor of the top node changes only what is explored.\<close>

lemma shape_advance:
  assumes "tj_shape g ((n, i) # cs) st" and "i < num_successors g n"
  shows "tj_shape g ((n, Suc i) # cs) st"
proof -
  have "\<forall>(m, j) \<in> set ((n, Suc i) # cs). j \<le> num_successors g m"
    using tj_shapeD(11)[OF assms(1)] assms(2) by auto
  then show ?thesis using assms(1) unfolding tj_shape_def list.map fst_conv list.set image_insert
    by (elim conjE) (intro conjI; assumption)
qed

lemma reach_advance: "tj_reach g ((n, i) # cs) st \<Longrightarrow> tj_reach g ((n, Suc i) # cs) st"
  by (simp add: tj_reach_def)

lemma segment_advance: "segment ((n, i) # cs) st v = segment ((n, j) # cs) st v"
  by (simp add: segment_def)

lemma top_not_below:
  assumes "tj_shape g ((n, i) # cs) st"
  shows "v \<in> fst ` set cs \<Longrightarrow> ix st v < ix st n" and "n \<notin> fst ` set cs"
  using tj_shapeD(9)[OF assms] by force+

lemma explored_advance:
  assumes s: "tj_shape g ((n, i) # cs) st" and i: "i < num_successors g n"
  shows "explored g ((n, Suc i) # cs) x w \<longleftrightarrow>
    explored g ((n, i) # cs) x w \<or> (x = n \<and> w = get_successor g n i)"
proof (cases "x = n")
  case True
  have "(n, k) \<notin> set cs" for k using top_not_below(2)[OF s] by force
  then show ?thesis using True i by (auto simp: explored_def less_Suc_eq)
qed (auto simp: explored_def)

lemma explored_other:
  "x \<noteq> n \<Longrightarrow> explored g ((n, i) # cs) x w \<longleftrightarrow> explored g cs x w"
  by (auto simp: explored_def)

lemma explored_edge: "explored g cs x w \<Longrightarrow> edge g x w"
  by (auto simp: explored_def edge_nth)

lemma visit_keeps:
  assumes inv: "tj_inv g ((n, i) # cs) st" and i: "i < num_successors g n"
    and w: "w = get_successor g n i" "w \<notin> dom (index_of st)" "w \<in> set (graph_nodes g)"
  shows "tj_inv g ((w, 0) # (n, Suc i) # cs) (tarjan_visit w st)"
proof -
  let ?c = "(n, i) # cs" and ?c' = "(w, 0) # (n, Suc i) # cs" and ?st = "tarjan_visit w st"
  have s: "tj_shape g ?c st" and r: "tj_reach g ?c st" and l: "tj_low g ?c st" and e: "scc_chain g (rev (sccs st))"
    using inv by (auto simp: tj_inv_def)
  note d = tj_shapeD[OF s]
  have s': "tj_shape g ?c' ?st" using visit_shape[OF shape_advance[OF s i] w(2,3)] .
  have old: "v \<noteq> w" if "v \<in> set (scc_stack st)" for v using that d(5) w(2) by blast
  have cold: "v \<in> set (scc_stack st)" if "v \<in> fst ` set ?c" for v using that d(10) by blast
  have ixs: "ix ?st v = ix st v" "lw ?st v = lw st v" if "v \<in> set (scc_stack st)" for v using old[OF that] by auto
  have ixw: "ix ?st w = next_index st" "lw ?st w = next_index st" by simp_all
  have lt: "ix st v < next_index st" if "v \<in> set (scc_stack st)" for v using that d(3,5) by blast
  have nS: "n \<in> set (scc_stack st)" using cold by simp
  have gray: "v \<in> fst ` set ?c' \<longleftrightarrow> v = w \<or> v \<in> fst ` set ?c" for v by auto
  have stk: "v \<in> set (scc_stack ?st) \<longleftrightarrow> v = w \<or> v \<in> set (scc_stack st)" for v by simp
  have nw: "edge g n w" using edge_get_successor[OF i] w(1) by simp
  have top: "ix st v \<le> ix st n" if "v \<in> fst ` set ?c" for v
    using that top_not_below(1)[OF s, of v] by fastforce
  have rw: "reaches g x w" if x: "x \<in> fst ` set ?c" for x
    using tj_reachD(2)[OF r x nS top[OF x]] reaches_step nw by fast
  have r': "tj_reach g ?c' ?st" unfolding tj_reach_def
  proof (intro conjI ballI impI)
    fix x
    assume "x \<in> set (scc_stack ?st)"
    then consider "x = w" | "x \<in> set (scc_stack st)" by auto
    then show "\<exists>y \<in> fst ` set ?c'. ix ?st y \<le> ix ?st x \<and> reaches g x y"
    proof cases
      case 2
      then obtain y where "y \<in> fst ` set ?c" "ix st y \<le> ix st x" "reaches g x y" using tj_reachD(1)[OF r] by blast
      then show ?thesis using ixs(1)[OF 2] ixs(1)[OF cold] gray by (metis)
    qed auto
  next
    fix x y
    assume x: "x \<in> fst ` set ?c'" and y: "y \<in> set (scc_stack ?st)" and le: "ix ?st x \<le> ix ?st y"
    show "reaches g x y"
    proof (cases "x = w")
      case True
      then have "y = w" using y le lt ixs ixw stk by (metis not_le)
      then show ?thesis using True by simp
    next
      case False
      then have x': "x \<in> fst ` set ?c" using x gray by blast
      show ?thesis
      proof (cases "y = w")
        case True
        then show ?thesis using rw[OF x'] by simp
      next
        case False
        then have "y \<in> set (scc_stack st)" using y stk by blast
        then show ?thesis using tj_reachD(2)[OF r x'] le ixs cold[OF x'] by simp
      qed
    qed
  qed
  have ex: "explored g ?c' x v \<longleftrightarrow> x \<noteq> w \<and> (explored g ?c x v \<or> x = n \<and> v = w)" for x v
  proof (cases "x = w")
    case True
    have "\<not> explored g ?c' w v" unfolding explored_def by (metis list.set_intros(1) not_less_zero)
    then show ?thesis using True by simp
  next
    case False
    then show ?thesis using explored_other[OF False] explored_advance[OF s i, of x v] w(1) by simp
  qed
  have l': "tj_low g ?c' ?st" unfolding tj_low_def
  proof (intro conjI ballI allI impI)
    fix x v
    assume "x \<in> set (scc_stack ?st)" "explored g ?c' x v"
    then show "v \<in> dom (index_of ?st)" using tj_lowD(1)[OF l, of x v] ex stk by auto
  next
    fix v
    assume "v \<in> fst ` set ?c'"
    then consider "v = w" | "v \<in> fst ` set ?c" using gray by blast
    then show "lw ?st v \<le> ix ?st v"
      by cases (use ixw ixs cold tj_lowD(2)[OF l] in auto)
  next
    fix v
    assume "v \<in> fst ` set ?c'"
    then consider "v = w" | "v \<in> fst ` set ?c" using gray by blast
    then show "\<exists>u \<in> set (scc_stack ?st). ix ?st u = lw ?st v \<and> reaches g v u"
    proof cases
      case 2
      obtain u where "u \<in> set (scc_stack st)" "ix st u = lw st v" "reaches g v u" using tj_lowD(3)[OF l 2] by blast
      then show ?thesis using ixs cold[OF 2] stk by metis
    qed auto
  next
    fix v x u
    assume v: "v \<in> fst ` set ?c'" and x: "x \<in> segment ?c' ?st v" and u: "u \<in> set (scc_stack ?st)"
      and xu: "explored g ?c' x u"
    have xw: "x \<noteq> w" and xS: "x \<in> set (scc_stack st)" using xu ex x stk by (auto simp: segment_def)
    have "ix ?st v \<le> ix ?st x" using x unfolding segment_def by blast
    then have "v \<noteq> w" using lt[OF xS] xw by auto
    then have v': "v \<in> fst ` set ?c" using v gray by blast
    have seg: "x \<in> segment ?c st v"
      using x xS xw cold[OF v'] cold ixs old gray unfolding segment_def by fastforce
    show "lw ?st v \<le> ix ?st u"
    proof (cases "u = w")
      case True
      have "lw st v \<le> ix st v" using tj_lowD(2)[OF l v'] .
      then show ?thesis using True ixw ixs(2)[OF cold[OF v']] lt[OF cold[OF v']] by simp
    next
      case False
      then have "u \<in> set (scc_stack st)" "explored g ?c x u" using u stk xu ex by auto
      then show ?thesis using tj_lowD(4)[OF l v' seg] ixs cold[OF v'] by simp
    qed
  qed
  show ?thesis using s' r' l' e by (simp add: tj_inv_def)
qed

section \<open>An edge to a visited node\<close>

abbreviation set_low :: "'n \<Rightarrow> nat \<Rightarrow> 'n tarjan \<Rightarrow> 'n tarjan" where
  "set_low n l st \<equiv> st\<lparr>lowlink := (lowlink st)(n \<mapsto> l)\<rparr>"

lemma set_low_shape: "tj_shape g cs st \<Longrightarrow> n \<in> dom (index_of st) \<Longrightarrow> tj_shape g cs (set_low n l st)"
proof -
  assume s: "tj_shape g cs st" and n: "n \<in> dom (index_of st)"
  have "dom (lowlink (set_low n l st)) = dom (index_of (set_low n l st))"
    using tj_shapeD(1)[OF s] n by auto
  then show ?thesis using s unfolding tj_shape_def
    by (elim conjE) (intro conjI; simp)
qed

lemma set_low_reach: "tj_reach g cs (set_low n l st) \<longleftrightarrow> tj_reach g cs st"
  by (simp add: tj_reach_def)

lemma set_low_segment [simp]: "segment cs (set_low n l st) v = segment cs st v"
  by (simp add: segment_def)

lemma skip_keeps:
  assumes inv: "tj_inv g ((n, i) # cs) st" and i: "i < num_successors g n"
    and w: "w = get_successor g n i" "w \<in> dom (index_of st)"
    and l: "l = (if w \<in> set (scc_stack st) then min (lw st n) (ix st w) else lw st n)"
  shows "tj_inv g ((n, Suc i) # cs) (set_low n l st)"
proof -
  let ?c = "(n, i) # cs" and ?c' = "(n, Suc i) # cs" and ?st = "set_low n l st"
  have s: "tj_shape g ?c st" and r: "tj_reach g ?c st" and lo: "tj_low g ?c st" and e: "scc_chain g (rev (sccs st))"
    using inv by (auto simp: tj_inv_def)
  note d = tj_shapeD[OF s]
  have nS: "n \<in> set (scc_stack st)" using d(10) by auto
  then have nd: "n \<in> dom (index_of st)" using d(5) by blast
  have ln: "lw st n \<le> ix st n" using tj_lowD(2)[OF lo, of n] by simp
  have lel: "l \<le> lw st n" using l by auto
  have lw': "lw ?st v \<le> lw st v" for v using lel by simp
  have "tj_low g ?c' ?st" unfolding tj_low_def
  proof (intro conjI ballI allI impI)
    fix x v
    assume "x \<in> set (scc_stack ?st)" "explored g ?c' x v"
    then show "v \<in> dom (index_of ?st)"
      using tj_lowD(1)[OF lo, of x v] explored_advance[OF s i, of x v] w by auto
  next
    fix v
    assume "v \<in> fst ` set ?c'"
    then show "lw ?st v \<le> ix ?st v" using tj_lowD(2)[OF lo, of v] lw'[of v] le_trans by simp
  next
    fix v
    assume "v \<in> fst ` set ?c'"
    then have v: "v \<in> fst ` set ?c" by simp
    obtain u where u: "u \<in> set (scc_stack st)" "ix st u = lw st v" "reaches g v u"
      using tj_lowD(3)[OF lo v] by blast
    show "\<exists>u \<in> set (scc_stack ?st). ix ?st u = lw ?st v \<and> reaches g v u"
    proof (cases "v = n \<and> l \<noteq> lw st n")
      case True
      then have "w \<in> set (scc_stack st)" "l = ix st w" using l by (auto split: if_splits)
      then show ?thesis using True reaches_edge[OF edge_get_successor[OF i]] w(1) by auto
    next
      case False
      then show ?thesis using u by auto
    qed
  next
    fix v x u
    assume v: "v \<in> fst ` set ?c'" and x: "x \<in> segment ?c' ?st v" and u: "u \<in> set (scc_stack ?st)"
      and xu: "explored g ?c' x u"
    have v': "v \<in> fst ` set ?c" using v by simp
    have x': "x \<in> segment ?c st v" using x segment_advance[of n i cs st v "Suc i"] by simp
    show "lw ?st v \<le> ix ?st u"
    proof (cases "explored g ?c x u")
      case True
      then have "lw st v \<le> ix st u" using tj_lowD(4)[OF lo v' x' _ True] u by simp
      then show ?thesis using lw'[of v] by simp
    next
      case False
      then have xn: "x = n" "u = w" using xu explored_advance[OF s i] w(1) by auto
      have "v = n"
      proof (rule ccontr)
        assume "v \<noteq> n"
        then have "v \<in> fst ` set cs" using v by auto
        then have "ix st v < ix st n" using top_not_below(1)[OF s] by blast
        then have "ix st n < ix st n" using x' xn(1) by (auto simp: segment_def)
        then show False by simp
      qed
      then show ?thesis using u xn l by simp
    qed
  qed
  then show ?thesis
    using set_low_shape[OF shape_advance[OF s i] nd] reach_advance[OF r] e
    by (simp add: tj_inv_def set_low_reach)
qed

section \<open>Finishing a node\<close>

lemma pop_component_split:
  "n \<notin> set xs \<Longrightarrow> pop_component n (xs @ n # ys) on = Some (xs @ [n], ys, on - insert n (set xs))"
proof (induction xs arbitrary: on)
  case (Cons x xs)
  have "on - {x} - insert n (set xs) = on - insert n (set (x # xs))" by auto
  then show ?case using Cons by auto
qed simp

text \<open>When the top node is finished, every explored edge of the stack is every edge.\<close>

lemma finished_explored:
  assumes s: "tj_shape g ((n, i) # cs) st" and i: "\<not> i < num_successors g n"
  shows "explored g cs x w \<longleftrightarrow> explored g ((n, i) # cs) x w"
proof -
  have "i = num_successors g n" using tj_shapeD(11)[OF s, of n i] i by simp
  then show ?thesis by (auto simp: explored_def)
qed

lemma black_explored: "x \<notin> fst ` set cs \<Longrightarrow> explored g cs x w \<longleftrightarrow> edge g x w"
  by (force simp: explored_def edge_nth)

text \<open>The component popped for \<open>n\<close>: the stacked nodes numbered from \<open>n\<close> up.\<close>

lemma stack_split:
  assumes s: "tj_shape g ((n, i) # cs) st"
  obtains xs ys where "scc_stack st = xs @ n # ys" and "n \<notin> set xs"
    and "set (xs @ [n]) = {x \<in> set (scc_stack st). ix st n \<le> ix st x}"
    and "set ys = {x \<in> set (scc_stack st). ix st x < ix st n}"
proof -
  have "n \<in> set (scc_stack st)" using tj_shapeD(10)[OF s] by auto
  then obtain xs ys where split: "scc_stack st = xs @ n # ys" by (meson split_list)
  have so: "sorted_wrt (\<lambda>a b. ix st b < ix st a) (xs @ n # ys)" using tj_shapeD(8)[OF s] split by simp
  have xs: "ix st n < ix st x" if "x \<in> set xs" for x using so that by (auto simp: sorted_wrt_append)
  have ys: "ix st y < ix st n" if "y \<in> set ys" for y using so that by (auto simp: sorted_wrt_append)
  show ?thesis
  proof (rule that[OF split])
    show "n \<notin> set xs" using xs by blast
    show "set (xs @ [n]) = {x \<in> set (scc_stack st). ix st n \<le> ix st x}"
      using xs ys split by (force dest: less_imp_le)
    show "set ys = {x \<in> set (scc_stack st). ix st x < ix st n}"
      using xs ys split by (auto dest: less_asym)
  qed
qed

lemma sorted_ix_distinct: "sorted_wrt (\<lambda>a b. (f b :: nat) < f a) xs \<Longrightarrow> distinct xs"
  by (induction xs) auto

lemma emit_keeps:
  assumes inv: "tj_inv g ((n, i) # cs) st" and i: "\<not> i < num_successors g n" and low: "lw st n = ix st n"
  shows "\<exists>st'. emit_component g n st = Some st' \<and> tj_inv g cs st' \<and> lowlink st' = lowlink st
    \<and> index_of st' = index_of st"
proof -
  let ?c = "(n, i) # cs"
  have s: "tj_shape g ?c st" and r: "tj_reach g ?c st" and lo: "tj_low g ?c st" and e: "scc_chain g (rev (sccs st))"
    using inv by (auto simp: tj_inv_def)
  note d = tj_shapeD[OF s]
  obtain xs ys where split: "scc_stack st = xs @ n # ys" "n \<notin> set xs"
      and C: "set (xs @ [n]) = {x \<in> set (scc_stack st). ix st n \<le> ix st x}"
      and Y: "set ys = {x \<in> set (scc_stack st). ix st x < ix st n}"
    using stack_split[OF s] .
  let ?m0 = "(xs @ [n]) ! 0"
  let ?scc = "\<lparr>scc_nodes = xs @ [n], is_cyclic = (length (xs @ [n]) > 1 \<or> ?m0 \<in> set (successors g ?m0))\<rparr>"
  let ?st = "st\<lparr>scc_stack := ys, on_scc_stack := on_scc_stack st - insert n (set xs), sccs := sccs st @ [?scc]\<rparr>"
  have emit: "emit_component g n st = Some ?st"
    using pop_component_split[OF split(2), of ys "on_scc_stack st"] split(1)
    by (simp add: emit_component_def oget_def)
  have nS: "n \<in> set (scc_stack st)" using split(1) by simp
  have below: "ix st v < ix st n" if "v \<in> fst ` set cs" for v using top_not_below(1)[OF s that] .
  have gray: "v \<in> set ys" if "v \<in> fst ` set cs" for v
    using that below[OF that] d(10) Y by auto
  have sub: "set ys \<subseteq> set (scc_stack st)" "n \<notin> set ys" using Y by auto
  have black: "x = n \<or> x \<notin> fst ` set ?c" if "x \<in> set (xs @ [n])" for x
    using that below[of x] C by fastforce
  have so: "sorted_wrt (\<lambda>a b. ix st b < ix st a) ys" using d(8) split(1) by (simp add: sorted_wrt_append)
  have sc: "sorted_wrt (\<lambda>a b. ix st b < ix st a) (map fst cs)" using d(9) by simp
  have dist: "distinct (scc_stack st)" using sorted_ix_distinct[OF d(8)] .
  have to_n: "reaches g x n" if x: "x \<in> set (xs @ [n])" for x
  proof -
    have "x \<in> set (scc_stack st)" using x C by blast
    then obtain y where y: "y \<in> fst ` set ?c" "ix st y \<le> ix st x" "reaches g x y" using tj_reachD(1)[OF r] by blast
    have "ix st y \<le> ix st n" using y(1) below by (auto dest: less_imp_le)
    then have "reaches g y n" using tj_reachD(2)[OF r y(1) nS] by blast
    then show ?thesis using y(3) reaches_trans by fast
  qed
  have from_n: "reaches g n x" if "x \<in> set (xs @ [n])" for x
    using tj_reachD(2)[OF r, of n x] that C by auto
  have seg: "x \<in> segment ?c st n" if "x \<in> set (xs @ [n])" for x
    using that C below by (fastforce simp: segment_def)
  have stay: "w \<in> set (xs @ [n]) \<or> w \<in> members (rev (sccs st))" if x: "x \<in> set (xs @ [n])" "edge g x w" for x w
  proof -
    have "explored g cs x w"
    proof (cases "x = n")
      case True
      then show ?thesis using black_explored[of n cs] top_not_below(2)[OF s] x(2) by simp
    next
      case False
      then show ?thesis using black_explored[of x cs] black[OF x(1)] x(2) by simp
    qed
    then have ex: "explored g ?c x w" using finished_explored[OF s i] by simp
    have "x \<in> set (scc_stack st)" using x(1) C by blast
    then have "w \<in> dom (index_of st)" using tj_lowD(1)[OF lo _ ex] by blast
    moreover have "w \<in> set (xs @ [n])" if w: "w \<in> set (scc_stack st)"
      using tj_lowD(4)[OF lo _ seg[OF x(1)] w ex] low C w by simp
    ultimately show ?thesis using d(5) by blast
  qed
  have cyc: "is_cyclic ?scc \<longleftrightarrow> 1 < length (xs @ [n]) \<or> (\<exists>u \<in> set (xs @ [n]). edge g u u)"
    by (cases xs) (auto simp: edge_def)
  have chain: "scc_chain g (rev (sccs ?st))"
  proof -
    have "set (xs @ [n]) \<inter> members (rev (sccs st)) = {}" using C d(6) by blast
    moreover have "distinct (xs @ [n])" using dist split(1) by auto
    moreover have "reaches g u v" if "u \<in> set (xs @ [n])" "v \<in> set (xs @ [n])" for u v
      using to_n[OF that(1)] from_n[OF that(2)] reaches_trans by fast
    ultimately have "scc_chain g (?scc # rev (sccs st))"
      using stay cyc e unfolding scc_chain.simps scc.select_convs by blast
    then show ?thesis by simp
  qed
  have shape: "tj_shape g cs ?st" unfolding tj_shape_def
  proof (intro conjI)
    have stk: "set (scc_stack st) = insert n (set xs) \<union> set ys" using split(1) by auto
    show "dom (index_of ?st) = members (rev (sccs ?st)) \<union> set (scc_stack ?st)"
      using d(5) stk by auto
    have disj: "set (xs @ [n]) \<inter> set ys = {}" unfolding C Y by auto
    then show "members (rev (sccs ?st)) \<inter> set (scc_stack ?st) = {}" using d(6) sub(1) by auto
    show "on_scc_stack ?st = set (scc_stack ?st)" using d(7) stk disj by auto
    show "sorted_wrt (\<lambda>a b. ix ?st b < ix ?st a) (scc_stack ?st)" using so by simp
    show "sorted_wrt (\<lambda>a b. ix ?st b < ix ?st a) (map fst cs)" using sc by simp
    show "fst ` set cs \<subseteq> set (scc_stack ?st)" using gray by auto
    show "\<forall>(n, i) \<in> set cs. i \<le> num_successors g n" using d(11) by auto
    show "dom (lowlink ?st) = dom (index_of ?st)" "dom (index_of ?st) \<subseteq> set (graph_nodes g)"
      using d(1,4) by simp_all
    show "\<forall>u \<in> dom (index_of ?st). \<forall>v \<in> dom (index_of ?st). ix ?st u = ix ?st v \<longrightarrow> u = v"
      using d(2) by simp
    show "\<forall>v \<in> dom (index_of ?st). ix ?st v < next_index ?st" using d(3) by simp
  qed
  have reach: "tj_reach g cs ?st" unfolding tj_reach_def
  proof (intro conjI ballI impI)
    fix x
    assume "x \<in> set (scc_stack ?st)"
    then have x: "x \<in> set (scc_stack st)" "ix st x < ix st n" using Y by auto
    obtain y where y: "y \<in> fst ` set ?c" "ix st y \<le> ix st x" "reaches g x y" using tj_reachD(1)[OF r x(1)] by blast
    then have "y \<noteq> n" using x(2) by auto
    then show "\<exists>y \<in> fst ` set cs. ix ?st y \<le> ix ?st x \<and> reaches g x y" using y by auto
  next
    fix x y
    assume "x \<in> fst ` set cs" "y \<in> set (scc_stack ?st)" "ix ?st x \<le> ix ?st y"
    then show "reaches g x y" using tj_reachD(2)[OF r, of x y] sub(1) by auto
  qed
  have lows: "tj_low g cs ?st" unfolding tj_low_def
  proof (intro conjI ballI allI impI)
    fix x w
    assume "x \<in> set (scc_stack ?st)" "explored g cs x w"
    then show "w \<in> dom (index_of ?st)" using tj_lowD(1)[OF lo, of x w] finished_explored[OF s i] sub(1) by auto
  next
    fix v
    assume "v \<in> fst ` set cs"
    then show "lw ?st v \<le> ix ?st v" using tj_lowD(2)[OF lo, of v] by simp
  next
    fix v
    assume v: "v \<in> fst ` set cs"
    obtain u where u: "u \<in> set (scc_stack st)" "ix st u = lw st v" "reaches g v u"
      using tj_lowD(3)[OF lo, of v] v by auto
    have "lw st v \<le> ix st v" using tj_lowD(2)[OF lo, of v] v by simp
    then have "u \<in> set ys" using u below[OF v] Y by auto
    then show "\<exists>u \<in> set (scc_stack ?st). ix ?st u = lw ?st v \<and> reaches g v u" using u by auto
  next
    fix v x w
    assume v: "v \<in> fst ` set cs" and x: "x \<in> segment cs ?st v" and w: "w \<in> set (scc_stack ?st)"
      and xw: "explored g cs x w"
    have "x \<in> set ys" using x by (simp add: segment_def)
    then have "x \<in> segment ?c st v" using x Y by (auto simp: segment_def)
    then show "lw ?st v \<le> ix ?st w"
      using tj_lowD(4)[OF lo, of v x w] v w sub(1) xw finished_explored[OF s i] by auto
  qed
  have "tj_inv g cs ?st" using shape reach lows chain by (simp add: tj_inv_def)
  then show ?thesis using emit by simp
qed

text \<open>A node whose low link is smaller leaves its stacked nodes to its parent.\<close>

lemma leave_reach:
  assumes inv: "tj_inv g ((n, i) # cs) st" and low: "lw st n \<noteq> ix st n"
  shows "tj_reach g cs st" and "cs \<noteq> []"
proof -
  let ?c = "(n, i) # cs"
  have s: "tj_shape g ?c st" and r: "tj_reach g ?c st" and lo: "tj_low g ?c st"
    using inv by (auto simp: tj_inv_def)
  have nS: "n \<in> set (scc_stack st)" using tj_shapeD(10)[OF s] by auto
  obtain u where u: "u \<in> set (scc_stack st)" "ix st u = lw st n" "reaches g n u"
    using tj_lowD(3)[OF lo, of n] by auto
  have un: "ix st u < ix st n" using u(2) low tj_lowD(2)[OF lo, of n] by simp
  obtain z where z: "z \<in> fst ` set ?c" "ix st z \<le> ix st u" "reaches g u z" using tj_reachD(1)[OF r u(1)] by blast
  have zc: "z \<in> fst ` set cs" using z(1,2) un by auto
  have nz: "reaches g n z" using u(3) z(3) reaches_trans by fast
  show "cs \<noteq> []" using zc by auto
  show "tj_reach g cs st" unfolding tj_reach_def
  proof (intro conjI ballI impI)
    fix x
    assume x: "x \<in> set (scc_stack st)"
    obtain y where y: "y \<in> fst ` set ?c" "ix st y \<le> ix st x" "reaches g x y" using tj_reachD(1)[OF r x] by blast
    show "\<exists>y \<in> fst ` set cs. ix st y \<le> ix st x \<and> reaches g x y"
    proof (cases "y = n")
      case True
      then show ?thesis using zc z(2) un y nz reaches_trans[of g x n z] by (intro bexI[of _ z]) auto
    next
      case False
      then show ?thesis using y by auto
    qed
  next
    fix x y
    assume "x \<in> fst ` set cs" "y \<in> set (scc_stack st)" "ix st x \<le> ix st y"
    then show "reaches g x y" using tj_reachD(2)[OF r, of x y] by auto
  qed
qed

lemma leave_keeps:
  assumes inv: "tj_inv g ((n, i) # (p, j) # cs) st" and i: "\<not> i < num_successors g n" and low: "lw st n \<noteq> ix st n"
  shows "tj_inv g ((p, j) # cs) (set_low p (min (lw st p) (lw st n)) st)"
proof -
  let ?c = "(n, i) # (p, j) # cs" and ?c' = "(p, j) # cs" and ?l = "min (lw st p) (lw st n)"
  let ?st = "set_low p ?l st"
  have s: "tj_shape g ?c st" and r: "tj_reach g ?c st" and lo: "tj_low g ?c st" and e: "scc_chain g (rev (sccs st))"
    using inv by (auto simp: tj_inv_def)
  note d = tj_shapeD[OF s]
  have nS: "n \<in> set (scc_stack st)" "p \<in> set (scc_stack st)" using d(10) by auto
  have pd: "p \<in> dom (index_of st)" using d(5) nS by blast
  have pn: "ix st p < ix st n" using top_not_below(1)[OF s, of p] by simp
  have rpn: "reaches g p n" using tj_reachD(2)[OF r, of p n] nS pn by simp
  have s': "tj_shape g ?c' st" using s unfolding tj_shape_def by (elim conjE) (intro conjI; simp)
  have ple: "lw st p \<le> ix st p" using tj_lowD(2)[OF lo, of p] by simp
  have "tj_low g ?c' ?st" unfolding tj_low_def
  proof (intro conjI ballI allI impI)
    fix x w
    assume "x \<in> set (scc_stack ?st)" "explored g ?c' x w"
    then show "w \<in> dom (index_of ?st)" using tj_lowD(1)[OF lo, of x w] finished_explored[OF s i] by simp
  next
    fix v
    assume "v \<in> fst ` set ?c'"
    then show "lw ?st v \<le> ix ?st v" using tj_lowD(2)[OF lo, of v] ple by auto
  next
    fix v
    assume v: "v \<in> fst ` set ?c'"
    obtain u where u: "u \<in> set (scc_stack st)" "ix st u = lw st v" "reaches g v u"
      using tj_lowD(3)[OF lo, of v] v by auto
    obtain t where t: "t \<in> set (scc_stack st)" "ix st t = lw st n" "reaches g n t"
      using tj_lowD(3)[OF lo, of n] by auto
    have "reaches g p t" using rpn t(3) reaches_trans by fast
    then show "\<exists>u \<in> set (scc_stack ?st). ix ?st u = lw ?st v \<and> reaches g v u"
      using u t by (cases "v = p") (auto simp: min_def)
  next
    fix v x w
    assume v: "v \<in> fst ` set ?c'" and x: "x \<in> segment ?c' ?st v" and w: "w \<in> set (scc_stack ?st)"
      and xw: "explored g ?c' x w"
    have xS: "x \<in> set (scc_stack st)" "ix st v \<le> ix st x" using x by (auto simp: segment_def)
    have ex: "explored g ?c x w" using xw finished_explored[OF s i] by simp
    have below: "ix st v' < ix st n" if "v' \<in> fst ` set ?c'" for v' using top_not_below(1)[OF s that] .
    show "lw ?st v \<le> ix ?st w"
    proof (cases "ix st x < ix st n")
      case True
      then have "x \<in> segment ?c st v" using x by (auto simp: segment_def)
      then have "lw st v \<le> ix st w" using tj_lowD(4)[OF lo, of v x w] v w ex by auto
      then show ?thesis by (auto simp: min_def)
    next
      case False
      have "\<not> ix st n < ix st v'" if "v' \<in> fst ` set ?c" for v' using that below[of v'] by (cases "v' = n") auto
      then have "x \<in> segment ?c st n" using xS(1) False unfolding segment_def by auto
      then have "lw st n \<le> ix st w" using tj_lowD(4)[OF lo, of n x w] w ex by auto
      moreover have "v = p"
      proof (rule ccontr)
        assume ne: "v \<noteq> p"
        then have "v \<in> fst ` set cs" using v by auto
        then have "ix st v < ix st p" using top_not_below(1)[OF s', of v] by simp
        then have "ix st x < ix st p" using x by (auto simp: segment_def)
        then show False using False pn by simp
      qed
      ultimately show ?thesis by simp
    qed
  qed
  then show ?thesis
    using set_low_shape[OF s' pd] leave_reach(1)[OF inv low] e
    by (simp add: tj_inv_def set_low_reach)
qed

section \<open>The loop and its roots\<close>

lemma tarjan_loop_returns:
  assumes wf: "wf_cfg g"
  shows "tj_inv g cs st \<Longrightarrow> \<exists>st'. tarjan_loop g cs st = Some st' \<and> tj_inv g [] st'
    \<and> dom (index_of st) \<subseteq> dom (index_of st')"
proof (induction "po_measure g cs (dom (index_of st))" arbitrary: cs st
    rule: wf_induct_rule[OF wf_lex_prod[OF wf_less_than wf_less_than]])
  case (1 cs st)
  have IH: "\<exists>st2. tarjan_loop g cs' st' = Some st2 \<and> tj_inv g [] st2 \<and> dom (index_of st) \<subseteq> dom (index_of st2)"
    if "(po_measure g cs' (dom (index_of st')), po_measure g cs (dom (index_of st))) \<in> lex2" "tj_inv g cs' st'"
      "dom (index_of st) \<subseteq> dom (index_of st')" for cs' st'
    using "1.hyps"[OF that(1,2)] that(3) by blast
  show ?case
  proof (cases cs)
    case Nil
    then show ?thesis using 1(2) by (simp add: tarjan_loop.simps)
  next
    case (Cons c rest)
    obtain n i where c: "c = (n, i)" by fastforce
    note inv = 1(2)[unfolded Cons c] and IH' = IH[unfolded Cons c]
    note unf = tarjan_loop.simps[of g "(n, i) # rest" st]
    have s: "tj_shape g ((n, i) # rest) st" using inv by (simp add: tj_inv_def)
    note d = tj_shapeD[OF s]
    have nd: "n \<in> dom (index_of st)" using d(5,10) by auto
    have "n \<in> dom (lowlink st)" using nd d(1) by simp
    then obtain l0 k0 where ln: "lowlink st n = Some l0" "index_of st n = Some k0" using nd by auto
    have le: "i \<le> num_successors g n" using d(11) by simp
    show ?thesis
    proof (cases "i < num_successors g n")
      case True
      let ?w = "get_successor g n i"
      have wn: "?w \<in> set (graph_nodes g)"
        using wf_cfgD(2)[OF wf _ edge_get_successor[OF True]] d(4) nd by blast
      show ?thesis
      proof (cases "index_of st ?w")
        case None
        then have new: "?w \<notin> dom (index_of st)" by auto
        have "tarjan_loop g ((n, i) # rest) st = tarjan_loop g ((?w, 0) # (n, Suc i) # rest) (tarjan_visit ?w st)"
          using unf True None by (simp add: Let_def)
        moreover have "dom (index_of (tarjan_visit ?w st)) = insert ?w (dom (index_of st))" by simp
        ultimately show ?thesis
          using IH'[OF _ visit_keeps[OF inv True refl new wn]] measure_push[OF wn new] Cons c by auto
      next
        case (Some k)
        let ?l = "if ?w \<in> set (scc_stack st) then min (lw st n) (ix st ?w) else lw st n"
        have wd: "?w \<in> dom (index_of st)" using Some by auto
        have triv: "set_low n (lw st n) st = st" using ln(1) by (simp add: fun_upd_idem)
        have "tarjan_loop g ((n, i) # rest) st = tarjan_loop g ((n, Suc i) # rest) (set_low n ?l st)"
          using unf True Some ln(1) d(7) triv by (simp add: Let_def)
        then show ?thesis
          using IH'[OF _ skip_keeps[OF inv True refl wd refl]] measure_skip[OF True] Cons c by auto
      qed
    next
      case False
      note less = measure_pop[OF le]
      show ?thesis
      proof (cases "lw st n = ix st n")
        case True
        obtain st1 where e: "emit_component g n st = Some st1" "tj_inv g rest st1"
            "lowlink st1 = lowlink st" "index_of st1 = index_of st"
          using emit_keeps[OF inv False True] by blast
        have "tarjan_loop g ((n, i) # rest) st = tarjan_loop g rest st1"
        proof (cases rest)
          case Nil
          then show ?thesis using unf False True ln e(1) by simp
        next
          case (Cons pj rest')
          obtain p j where p: "pj = (p, j)" by fastforce
          have s1: "tj_shape g rest st1" and l1: "tj_low g rest st1" using e(2) by (auto simp: tj_inv_def)
          have "p \<in> dom (index_of st1)" using tj_shapeD(5,10)[OF s1] Cons p by auto
          then have "p \<in> dom (lowlink st1)" using tj_shapeD(1)[OF s1] by simp
          then obtain l1 where lp: "lowlink st1 p = Some l1" by auto
          have "ix st p < ix st n" using top_not_below(1)[OF s, of p] Cons p by simp
          then have "lw st1 p \<le> lw st n" using tj_lowD(2)[OF l1, of p] Cons p True e(4) by simp
          then have "set_low p (min (lw st1 p) (lw st n)) st1 = st1" using lp by (simp add: fun_upd_idem min_def)
          then show ?thesis using unf False True ln e(1) Cons p lp by simp
        qed
        then show ?thesis using IH'[OF _ e(2)] less e(4) Cons c by auto
      next
        case low: False
        have "rest \<noteq> []" using leave_reach(2)[OF inv low] .
        then obtain p j rest' where rest: "rest = (p, j) # rest'" by (metis neq_Nil_conv surj_pair)
        have "p \<in> dom (index_of st)" using d(5,10) rest by auto
        then have "p \<in> dom (lowlink st)" using d(1) by simp
        then obtain l1 where lp: "lowlink st p = Some l1" by auto
        have "tarjan_loop g ((n, i) # rest) st = tarjan_loop g rest (set_low p (min (lw st p) (lw st n)) st)"
          using unf False low ln rest lp by simp
        then show ?thesis
          using IH'[OF _ leave_keeps[OF inv[unfolded rest] False low]] less rest Cons c by auto
      qed
    qed
  qed
qed

lemma root_keeps:
  assumes inv: "tj_inv g [] st" and w: "w \<notin> dom (index_of st)" "w \<in> set (graph_nodes g)"
  shows "tj_inv g [(w, 0)] (tarjan_visit w st)"
proof -
  have s: "tj_shape g [] st" and r: "tj_reach g [] st" using inv by (auto simp: tj_inv_def)
  have "scc_stack st = []" using tj_reachD(1)[OF r] by (cases "scc_stack st") auto
  then have "tj_reach g [(w, 0)] (tarjan_visit w st)" "tj_low g [(w, 0)] (tarjan_visit w st)"
    by (auto simp: tj_reach_def tj_low_def explored_def)
  then show ?thesis using visit_shape[OF s w] inv by (simp add: tj_inv_def)
qed

lemma tarjan_roots_returns:
  assumes wf: "wf_cfg g"
  shows "tj_inv g [] st \<Longrightarrow> set rs \<subseteq> set (graph_nodes g) \<Longrightarrow> \<exists>st'. tarjan_roots g rs st = Some st'
    \<and> tj_inv g [] st' \<and> set rs \<union> dom (index_of st) \<subseteq> dom (index_of st')"
proof (induction rs arbitrary: st)
  case (Cons r rs)
  show ?case
  proof (cases "index_of st r = None")
    case True
    then have new: "r \<notin> dom (index_of st)" by auto
    obtain st1 where st1: "tarjan_loop g [(r, 0)] (tarjan_visit r st) = Some st1" "tj_inv g [] st1"
        "dom (index_of (tarjan_visit r st)) \<subseteq> dom (index_of st1)"
      using tarjan_loop_returns[OF wf root_keeps[OF Cons.prems(1) new]] Cons.prems(2) by auto
    have "insert r (dom (index_of st)) \<subseteq> dom (index_of st1)" using st1(3) by simp
    moreover obtain st2 where "tarjan_roots g rs st1 = Some st2" "tj_inv g [] st2"
        "set rs \<union> dom (index_of st1) \<subseteq> dom (index_of st2)"
      using Cons.IH[OF st1(2)] Cons.prems(2) by auto
    ultimately have "tarjan_roots g (r # rs) st = Some st2 \<and> tj_inv g [] st2
        \<and> set (r # rs) \<union> dom (index_of st) \<subseteq> dom (index_of st2)"
      using True st1(1) by (simp add: subset_iff)
    then show ?thesis by blast
  next
    case False
    then have "r \<in> dom (index_of st)" by auto
    then show ?thesis using Cons.IH[OF Cons.prems(1)] Cons.prems(2) False by (simp add: subset_iff) blast
  qed
qed simp

section \<open>Reading off the theorem\<close>

lemma chain_edge: "scc_chain g cs \<Longrightarrow> edge g u v \<Longrightarrow> u \<in> members cs \<Longrightarrow> v \<in> members cs"
  by (induction cs) auto

lemma chain_closed: "scc_chain g cs \<Longrightarrow> reaches g u v \<Longrightarrow> u \<in> members cs \<Longrightarrow> v \<in> members cs"
proof -
  assume cs: "scc_chain g cs" and u: "u \<in> members cs" and "reaches g u v"
  from this(3) show ?thesis by (induction rule: reaches_induct) (use u chain_edge[OF cs] in auto)
qed

lemma chain_class:
  "scc_chain g cs \<Longrightarrow> c \<in> set cs \<Longrightarrow> u \<in> set (scc_nodes c) \<Longrightarrow>
    v \<in> set (scc_nodes c) \<longleftrightarrow> reaches g u v \<and> reaches g v u"
proof (induction cs)
  case (Cons d cs)
  have d: "scc_chain g cs" "set (scc_nodes d) \<inter> members cs = {}" using Cons.prems(1) by simp_all
  show ?case
  proof (cases "c \<in> set cs")
    case True
    then show ?thesis using Cons.IH[OF d(1) True Cons.prems(3)] by simp
  next
    case False
    then have c: "c = d" using Cons.prems(2) by simp
    show ?thesis
    proof
      assume "v \<in> set (scc_nodes c)"
      then show "reaches g u v \<and> reaches g v u" using Cons.prems(1,3) c by simp
    next
      assume r: "reaches g u v \<and> reaches g v u"
      have "u \<in> members (d # cs)" using Cons.prems(3) c by simp
      then have "v \<in> members (d # cs)" using chain_closed[OF Cons.prems(1)] r by blast
      moreover have "v \<notin> members cs"
        using chain_closed[OF d(1), of v u] r d(2) Cons.prems(3) c by blast
      ultimately show "v \<in> set (scc_nodes c)" using c by simp
    qed
  qed
qed simp

lemma chain_topological:
  "scc_chain g cs \<Longrightarrow> i < length cs \<Longrightarrow> j < length cs \<Longrightarrow> u \<in> set (scc_nodes (cs ! i)) \<Longrightarrow>
    v \<in> set (scc_nodes (cs ! j)) \<Longrightarrow> edge g u v \<Longrightarrow> i \<le> j"
proof (induction cs arbitrary: i j)
  case (Cons c cs)
  show ?case
  proof (cases i)
    case (Suc i')
    then have u: "u \<in> members cs" using Cons.prems(2,4) by (auto simp: members_def)
    then have v: "v \<in> members cs" using chain_closed[OF _ reaches_edge[OF Cons.prems(6)]] Cons.prems(1) by simp
    show ?thesis
    proof (cases j)
      case 0
      then show ?thesis using v Cons.prems(1,5) by auto
    next
      case (Suc j')
      then show ?thesis using Cons.IH[of i' j'] Cons.prems \<open>i = Suc i'\<close> by simp
    qed
  qed simp
qed simp

lemma chain_distinct: "scc_chain g cs \<Longrightarrow> distinct (concat (map scc_nodes cs))"
  by (induction cs) (auto simp: members_def)

lemma chain_each: "scc_chain g cs \<Longrightarrow> c \<in> set cs \<Longrightarrow> scc_nodes c \<noteq> []
    \<and> is_cyclic c = (1 < length (scc_nodes c) \<or> (\<exists>u \<in> set (scc_nodes c). edge g u u))"
  by (induction cs) auto

lemma sccs_chain:
  assumes wf: "wf_cfg g"
  shows "\<exists>cs. sccs_in_topological_order g = Some cs \<and> scc_chain g cs \<and> members cs = set (graph_nodes g)"
proof -
  let ?rs = "case entry_node g of None \<Rightarrow> graph_nodes g | Some e \<Rightarrow> e # graph_nodes g"
  let ?st = "\<lparr>index_of = Map.empty, lowlink = Map.empty, next_index = 0, scc_stack = [],
        on_scc_stack = {}, sccs = []\<rparr> :: 'a tarjan"
  have rs: "set ?rs = set (graph_nodes g)" using wf_cfgD(4)[OF wf] by (auto split: option.splits)
  have "tj_inv g [] ?st" by (simp add: tj_inv_def tj_shape_def tj_reach_def tj_low_def)
  then obtain st where st: "tarjan_roots g ?rs ?st = Some st" "tj_inv g [] st" "set ?rs \<subseteq> dom (index_of st)"
    using tarjan_roots_returns[OF wf, of ?st ?rs] rs by auto
  have s: "tj_shape g [] st" and r: "tj_reach g [] st" and e: "scc_chain g (rev (sccs st))"
    using st(2) by (auto simp: tj_inv_def)
  have "scc_stack st = []" using tj_reachD(1)[OF r] by (cases "scc_stack st") auto
  then have "members (rev (sccs st)) = set (graph_nodes g)"
    using tj_shapeD(4,5)[OF s] st(3) rs by auto
  moreover have "sccs_in_topological_order g = Some (rev (sccs st))"
    using st(1) by (simp add: sccs_in_topological_order_def)
  ultimately show ?thesis using e by blast
qed

text \<open>
  C10. Tarjan's algorithm returns for every well-formed graph, and its components partition the nodes,
  unreachable ones included, into the classes of mutually reachable nodes; they come in
  topological order of the condensation; and a component is cyclic when it has a second
  node or a self-edge.
\<close>

theorem sccs_correct:
  assumes "wf_cfg g"
  shows "\<exists>cs. sccs_in_topological_order g = Some cs
    \<and> distinct (concat (map scc_nodes cs)) \<and> set (concat (map scc_nodes cs)) = set (graph_nodes g)
    \<and> (\<forall>c \<in> set cs. scc_nodes c \<noteq> []
        \<and> (\<forall>u \<in> set (scc_nodes c). \<forall>v. v \<in> set (scc_nodes c) \<longleftrightarrow> reaches g u v \<and> reaches g v u)
        \<and> is_cyclic c = (1 < length (scc_nodes c) \<or> (\<exists>u \<in> set (scc_nodes c). edge g u u)))
    \<and> (\<forall>i j u v. i < length cs \<longrightarrow> j < length cs \<longrightarrow> u \<in> set (scc_nodes (cs ! i)) \<longrightarrow>
        v \<in> set (scc_nodes (cs ! j)) \<longrightarrow> edge g u v \<longrightarrow> i \<le> j)"
proof -
  obtain cs where cs: "sccs_in_topological_order g = Some cs" "scc_chain g cs" "members cs = set (graph_nodes g)"
    using sccs_chain[OF assms] by blast
  have "set (concat (map scc_nodes cs)) = set (graph_nodes g)" using cs(3) by (simp add: members_def)
  then show ?thesis
    using cs(1) chain_distinct[OF cs(2)] chain_each[OF cs(2)] chain_class[OF cs(2)]
      chain_topological[OF cs(2)] by (intro exI[of _ cs]) blast
qed

theorem sccs_correct_witness:
  "\<exists>cs. sccs_in_topological_order demo_cfg = Some cs
    \<and> set (concat (map scc_nodes cs)) = {10, 11, 12, 13, 14, 15}"
proof -
  have "set (graph_nodes demo_cfg) = {10, 11, 12, 13, 14, 15}"
    by (simp add: demo_cfg_def cfg_of_def Let_def)
  then show ?thesis using sccs_correct[OF demo_cfg_wf] by metis
qed

end
