(* ===== verification/Dominance.thy ===== *)
theory Dominance
  imports Traversals
begin

text \<open>
  Model of \<open>compute_dominator_tree\<close> of \<^verbatim>\<open>src/src/graph/dominance.rs\<close>, the algorithm of Cooper,
  Harvey and Kennedy: immediate dominators as an array over reverse post-order numbers,
  refined pass by pass until nothing changes. \<open>None\<close> is a panic (a failed \<open>unwrap\<close> or assertion,
  an index out of range) or a loop that does not end.

  The correctness proof works on reverse post-order numbers (section ``Chains''): while
  the passes run, a node's chain of tentative immediate dominators always contains its
  true dominators and only shrinks, so the passes end; when a pass changes nothing, every chain member
  dominates.
\<close>

section \<open>The algorithm\<close>

record 'n dom_node =
  dn_parent :: "'n option"
  dn_children :: "'n list"

record 'n dom_tree =
  dt_root :: "'n option"
  dominators_map :: "('n \<times> 'n dom_node) list"

type_synonym dom_array = "nat option list"

partial_function (option) climb :: "nat \<Rightarrow> nat \<Rightarrow> dom_array \<Rightarrow> nat option" where
  "climb finger other da =
     (if finger > other then do {
        d \<leftarrow> oget da finger;
        p \<leftarrow> d;
        climb p other da
      } else Some finger)"

declare climb.simps [code]

partial_function (option) intersect :: "nat \<Rightarrow> nat \<Rightarrow> dom_array \<Rightarrow> nat option" where
  "intersect finger1 finger2 da =
     (if finger1 \<noteq> finger2 then do {
        finger1 \<leftarrow> climb finger1 finger2 da;
        finger2 \<leftarrow> climb finger2 finger1 da;
        intersect finger1 finger2 da
      } else Some finger1)"

declare intersect.simps [code]

text \<open>The first processed predecessor, and the intersection with the other processed ones.\<close>

fun find_processed :: "('n \<rightharpoonup> nat) \<Rightarrow> dom_array \<Rightarrow> 'n list \<Rightarrow> 'n option" where
  "find_processed rpo_index da [] = None"
| "find_processed rpo_index da (p # ps) = do {
     i \<leftarrow> rpo_index p;
     d \<leftarrow> oget da i;
     if d \<noteq> None then Some p else find_processed rpo_index da ps
   }"

fun intersect_preds :: "('n \<rightharpoonup> nat) \<Rightarrow> dom_array \<Rightarrow> 'n list \<Rightarrow> nat \<Rightarrow> nat option" where
  "intersect_preds rpo_index da [] new_idom = Some new_idom"
| "intersect_preds rpo_index da (p # ps) new_idom = do {
     pred_idx \<leftarrow> rpo_index p;
     d \<leftarrow> oget da pred_idx;
     (case d of
        None \<Rightarrow> intersect_preds rpo_index da ps new_idom
      | Some _ \<Rightarrow> do {
          new_idom \<leftarrow> intersect pred_idx new_idom da;
          intersect_preds rpo_index da ps new_idom
        })
   }"

definition new_idom_of :: "'n cfg \<Rightarrow> ('n \<rightharpoonup> nat) \<Rightarrow> dom_array \<Rightarrow> 'n \<Rightarrow> nat option" where
  "new_idom_of g rpo_index da node =
     (let reachable_preds = filter (\<lambda>p. rpo_index p \<noteq> None) (predecessors g node)
      in do {
        picked \<leftarrow> find_processed rpo_index da reachable_preds;
        new_idom \<leftarrow> rpo_index picked;
        intersect_preds rpo_index da (filter (\<lambda>p. p \<noteq> picked) reachable_preds) new_idom
      })"

fun dom_pass ::
    "'n cfg \<Rightarrow> ('n \<rightharpoonup> nat) \<Rightarrow> (nat \<times> 'n) list \<Rightarrow> dom_array \<Rightarrow> bool \<Rightarrow> (dom_array \<times> bool) option" where
  "dom_pass g rpo_index [] da changed = Some (da, changed)"
| "dom_pass g rpo_index ((i, node) # rest) da changed = do {
     new_idom \<leftarrow> new_idom_of g rpo_index da node;
     d \<leftarrow> oget da i;
     if d \<noteq> Some new_idom then dom_pass g rpo_index rest (da[i := Some new_idom]) True
     else dom_pass g rpo_index rest da changed
   }"

partial_function (option) dom_iterate ::
    "'n cfg \<Rightarrow> ('n \<rightharpoonup> nat) \<Rightarrow> (nat \<times> 'n) list \<Rightarrow> dom_array \<Rightarrow> dom_array option" where
  "dom_iterate g rpo_index nodes da = do {
     (da, changed) \<leftarrow> dom_pass g rpo_index nodes da False;
     if changed then dom_iterate g rpo_index nodes da else Some da
   }"

declare dom_iterate.simps [code]

text \<open>Building the tree: each node in reverse post-order is hung under its parent.\<close>

definition dom_attach ::
    "'n \<Rightarrow> 'n \<Rightarrow> ('n \<times> 'n dom_node) list \<Rightarrow> ('n \<times> 'n dom_node) list option" where
  "dom_attach child par m =
     (let m = AList.update child \<lparr>dn_parent = Some par, dn_children = []\<rparr> m
      in do {
        pn \<leftarrow> map_of m par;
        Some (AList.update par (pn\<lparr>dn_children := dn_children pn @ [child]\<rparr>) m)
      })"

fun dom_build ::
    "'n list \<Rightarrow> (nat \<times> nat option) list \<Rightarrow> ('n \<times> 'n dom_node) list \<Rightarrow> ('n \<times> 'n dom_node) list option" where
  "dom_build rpo [] m = Some m"
| "dom_build rpo ((i, par) # rest) m = do {
     child \<leftarrow> oget rpo i;
     pi \<leftarrow> par;
     par \<leftarrow> oget rpo pi;
     m \<leftarrow> dom_attach child par m;
     dom_build rpo rest m
   }"

definition compute_dominator_tree :: "'n cfg \<Rightarrow> 'n dom_tree option" where
  "compute_dominator_tree g =
     (case entry_node g of
        None \<Rightarrow> Some \<lparr>dt_root = None, dominators_map = []\<rparr>
      | Some entry \<Rightarrow> do {
          comps \<leftarrow> topological_order_by_component g;
          rpo \<leftarrow> oget comps 0;
          (let rpo_index = Map.empty(rpo [\<mapsto>] [0..<length rpo])
           in do {
             ei \<leftarrow> rpo_index entry;
             ocheck (ei = 0);
             da \<leftarrow> dom_iterate g rpo_index (tl (enumerate 0 rpo)) ((replicate (length rpo) None)[0 := Some 0]);
             first \<leftarrow> oget rpo 0;
             m \<leftarrow> dom_build rpo (tl (enumerate 0 da))
               (AList.update first \<lparr>dn_parent = None, dn_children = []\<rparr> []);
             Some \<lparr>dt_root = Some entry, dominators_map = m\<rparr>
           })
        })"

section \<open>Chains\<close>

text \<open>
  \<open>P i\<close> are the (reachable) predecessors of node number \<open>i\<close>; \<open>rpo_preds\<close> is what
  reverse post-order gives: every number but 0 has a smaller predecessor.
\<close>

definition rpo_preds :: "nat \<Rightarrow> (nat \<Rightarrow> nat set) \<Rightarrow> bool" where
  "rpo_preds n P \<longleftrightarrow> 0 < n \<and> (\<forall>i < n. P i \<subseteq> {..<n}) \<and> (\<forall>i. 0 < i \<and> i < n \<longrightarrow> (\<exists>j < i. j \<in> P i))"

definition dom_valid :: "nat \<Rightarrow> dom_array \<Rightarrow> bool" where
  "dom_valid n da \<longleftrightarrow>
     length da = n \<and> 0 < n \<and> da ! 0 = Some 0
     \<and> (\<forall>i k. 0 < i \<and> i < n \<and> da ! i = Some k \<longrightarrow> k < i \<and> da ! k \<noteq> None)"

text \<open>The chain of tentative dominators of a node: the node, its parent in the array, and so on.\<close>

inductive_set chain :: "dom_array \<Rightarrow> nat \<Rightarrow> nat set" for da i where
  chain_self: "i \<in> chain da i"
| chain_up: "j \<in> chain da i \<Longrightarrow> 0 < j \<Longrightarrow> da ! j = Some k \<Longrightarrow> k \<in> chain da i"

definition processed :: "dom_array \<Rightarrow> nat \<Rightarrow> bool" where
  "processed da i \<longleftrightarrow> i < length da \<and> da ! i \<noteq> None"

lemma dom_validD:
  assumes "dom_valid n da"
  shows "length da = n" and "0 < n" and "da ! 0 = Some 0"
    and "0 < i \<Longrightarrow> i < n \<Longrightarrow> da ! i = Some k \<Longrightarrow> k < i"
    and "0 < i \<Longrightarrow> i < n \<Longrightarrow> da ! i = Some k \<Longrightarrow> processed da k"
proof -
  note a = assms[unfolded dom_valid_def]
  show "length da = n" using a by simp
  show "0 < n" using a by simp
  show "da ! 0 = Some 0" using a by simp
  note b = a[THEN conjunct2, THEN conjunct2, THEN conjunct2, rule_format, of i k]
  show "0 < i \<Longrightarrow> i < n \<Longrightarrow> da ! i = Some k \<Longrightarrow> k < i" using b by blast
  show "0 < i \<Longrightarrow> i < n \<Longrightarrow> da ! i = Some k \<Longrightarrow> processed da k"
    using b less_trans[of k i n] a by (simp add: processed_def)
qed

lemma chain_0 [simp]: "chain da 0 = {0}"
proof -
  have "j = 0" if "j \<in> chain da 0" for j using that by induction auto
  then show ?thesis using chain_self by blast
qed

lemma chain_trans: "k \<in> chain da j \<Longrightarrow> j \<in> chain da i \<Longrightarrow> k \<in> chain da i"
  by (induction rule: chain.induct) (auto intro: chain_up)

lemma chain_unfold:
  assumes "0 < i" and "da ! i = Some k"
  shows "chain da i = insert i (chain da k)"
proof
  have "j = i \<or> j \<in> chain da k" if "j \<in> chain da i" for j
    using that by induction (use assms in \<open>auto intro: chain_up chain_self\<close>)
  then show "chain da i \<subseteq> insert i (chain da k)" by blast
  have "k \<in> chain da i" using assms by (auto intro: chain_up chain_self)
  then show "insert i (chain da k) \<subseteq> chain da i" using chain_trans chain_self by blast
qed

lemma chain_None: "da ! i = None \<Longrightarrow> chain da i = {i}"
proof -
  assume n: "da ! i = None"
  have "j = i" if "j \<in> chain da i" for j using that by induction (use n in auto)
  then show ?thesis using chain_self by blast
qed

lemma chain_bound:
  assumes "dom_valid n da" and "i < n" and "j \<in> chain da i"
  shows "j \<le> i"
  using assms(3)
proof induction
  case (chain_up j k)
  then show ?case using dom_validD(4)[OF assms(1), of j k] assms(2) by simp
qed simp

lemma chain_processed:
  assumes "dom_valid n da" and "processed da i" and "j \<in> chain da i"
  shows "processed da j"
  using assms(3)
proof induction
  case (chain_up j k)
  then show ?case using dom_validD(5)[OF assms(1), of j k] dom_validD(1)[OF assms(1)]
    by (simp add: processed_def)
qed (rule assms(2))

text \<open>Top down: a chain that meets \<open>i\<close> starts there or comes through a child of \<open>i\<close>.\<close>

lemma chain_from_child:
  assumes "dom_valid n da" and "j < n"
  shows "i \<in> chain da j \<longleftrightarrow> j = i \<or> (\<exists>c. 0 < c \<and> c < n \<and> da ! c = Some i \<and> c \<in> chain da j)"
proof
  assume "i \<in> chain da j"
  then show "j = i \<or> (\<exists>c. 0 < c \<and> c < n \<and> da ! c = Some i \<and> c \<in> chain da j)"
  proof cases
    case (chain_up c)
    then have "c < n" using chain_bound[OF assms chain_up(1)] assms(2) by simp
    then show ?thesis using chain_up by blast
  qed simp
next
  assume "j = i \<or> (\<exists>c. 0 < c \<and> c < n \<and> da ! c = Some i \<and> c \<in> chain da j)"
  then show "i \<in> chain da j" using chain.intros by blast
qed

text \<open>Chains do not branch: of two members the smaller is in the chain of the larger.\<close>

lemma chain_linear:
  assumes v: "dom_valid n da" and "i < n"
  shows "x \<in> chain da i \<Longrightarrow> y \<in> chain da i \<Longrightarrow> x \<le> y \<Longrightarrow> x \<in> chain da y"
  using assms(2)
proof (induction i rule: less_induct)
  case (less i)
  show ?case
  proof (cases "y = i")
    case False
    then obtain k where k: "0 < i" "da ! i = Some k"
      using less.prems(2) chain_None[of da i] by (cases "i = 0"; cases "da ! i") auto
    have ki: "k < i" using dom_validD(4)[OF v k(1) less.prems(4) k(2)] .
    have y: "y \<in> chain da k" using less.prems(2) False chain_unfold[OF k] by auto
    then have "y \<le> k" using chain_bound[OF v _ y] ki less.prems(4) by simp
    then have "x \<in> chain da k" using less.prems(1,3) chain_unfold[OF k] ki by auto
    then show ?thesis using less.IH[OF ki _ y less.prems(3)] ki less.prems(4) by simp
  qed (use less.prems in simp)
qed

lemma chain_zero:
  assumes v: "dom_valid n da"
  shows "processed da i \<Longrightarrow> 0 \<in> chain da i"
proof (induction i rule: less_induct)
  case (less i)
  show ?case
  proof (cases "i = 0")
    case False
    then obtain k where k: "0 < i" "i < n" "da ! i = Some k"
      using less.prems dom_validD(1)[OF v] by (auto simp: processed_def)
    then show ?thesis using less.IH[of k] dom_validD(4,5)[OF v k] chain_unfold[OF k(1,3)] by simp
  qed simp
qed

section \<open>Intersection\<close>

lemma climb_correct:
  assumes v: "dom_valid n da"
  shows "processed da f \<Longrightarrow> \<exists>c. climb f other da = Some c \<and> c \<in> chain da f \<and> c \<le> other
    \<and> (\<forall>x \<in> chain da f. x \<le> other \<longrightarrow> x \<in> chain da c)"
proof (induction f rule: less_induct)
  case (less f)
  show ?case
  proof (cases "other < f")
    case True
    then obtain k where k: "0 < f" "f < n" "da ! f = Some k"
      using less.prems dom_validD(1)[OF v] by (auto simp: processed_def)
    obtain c where c: "climb k other da = Some c" "c \<in> chain da k" "c \<le> other"
        "\<forall>x \<in> chain da k. x \<le> other \<longrightarrow> x \<in> chain da c"
      using less.IH[OF dom_validD(4,5)[OF v k]] by blast
    have "climb f other da = Some c"
      using True k c(1) dom_validD(1)[OF v] by (simp add: climb.simps[of f])
    then show ?thesis using c chain_unfold[OF k(1,3)] True by auto
  next
    case False
    then show ?thesis by (auto simp: climb.simps[of f] intro: chain_self)
  qed
qed

lemma intersect_correct:
  assumes v: "dom_valid n da"
  shows "processed da f1 \<Longrightarrow> processed da f2 \<Longrightarrow>
    \<exists>c. intersect f1 f2 da = Some c \<and> processed da c \<and> chain da c = chain da f1 \<inter> chain da f2"
proof (induction "f1 + f2" arbitrary: f1 f2 rule: less_induct)
  case less
  have lt: "f1 < n" "f2 < n" using less.prems dom_validD(1)[OF v] by (auto simp: processed_def)
  show ?case
  proof (cases "f1 = f2")
    case True
    then show ?thesis using less.prems by (simp add: intersect.simps[of f2 f2])
  next
    case False
    obtain c1 where c1: "climb f1 f2 da = Some c1" "c1 \<in> chain da f1" "c1 \<le> f2"
        "\<forall>x \<in> chain da f1. x \<le> f2 \<longrightarrow> x \<in> chain da c1"
      using climb_correct[OF v less.prems(1)] by blast
    obtain c2 where c2: "climb f2 c1 da = Some c2" "c2 \<in> chain da f2" "c2 \<le> c1"
        "\<forall>x \<in> chain da f2. x \<le> c1 \<longrightarrow> x \<in> chain da c2"
      using climb_correct[OF v less.prems(2)] by blast
    have p: "processed da c1" "processed da c2"
      using chain_processed[OF v] less.prems c1(2) c2(2) by blast+
    have le: "c1 \<le> f1" using chain_bound[OF v lt(1) c1(2)] .
    have "c1 + c2 < f1 + f2" using le c1(3) c2(3) False by linarith
    then obtain c where c: "intersect c1 c2 da = Some c" "processed da c"
        "chain da c = chain da c1 \<inter> chain da c2"
      using less.hyps[OF _ p] by blast
    have 1: "x \<in> chain da c1" if "x \<in> chain da f1" "x \<in> chain da f2" for x
      using c1(4) that chain_bound[OF v lt(2) that(2)] by blast
    have 2: "x \<in> chain da c2" if "x \<in> chain da c1" "x \<in> chain da f2" for x
      using c2(4) that chain_bound[OF v _ that(1)] lt le by auto
    have "chain da c1 \<inter> chain da c2 = chain da f1 \<inter> chain da f2"
      using 1 2 chain_trans[OF _ c1(2)] chain_trans[OF _ c2(2)] by blast
    then show ?thesis using c c1(1) c2(1) False by (simp add: intersect.simps[of f1 f2])
  qed
qed

section \<open>The invariant of the passes\<close>

text \<open>
  Node \<open>i\<close> can be reached without passing node \<open>d\<close>; \<open>d\<close> dominates \<open>i\<close> when it cannot.
\<close>

inductive avoid :: "nat \<Rightarrow> (nat \<Rightarrow> nat set) \<Rightarrow> nat \<Rightarrow> nat \<Rightarrow> bool" for n P d where
  avoid_entry: "d \<noteq> 0 \<Longrightarrow> avoid n P d 0"
| avoid_step: "avoid n P d j \<Longrightarrow> j \<in> P i \<Longrightarrow> i < n \<Longrightarrow> i \<noteq> d \<Longrightarrow> avoid n P d i"

text \<open>A spanning tree of smaller predecessors, as an array of its own.\<close>

definition tree_pred :: "(nat \<Rightarrow> nat set) \<Rightarrow> nat \<Rightarrow> nat" where
  "tree_pred P i = (LEAST j. j \<in> P i)"

definition tree_array :: "nat \<Rightarrow> (nat \<Rightarrow> nat set) \<Rightarrow> dom_array" where
  "tree_array n P = map (\<lambda>i. Some (if i = 0 then 0 else tree_pred P i)) [0..<n]"

lemma tree_pred:
  assumes "rpo_preds n P" and "0 < i" and "i < n"
  shows "tree_pred P i \<in> P i" and "tree_pred P i < i"
proof -
  obtain j where j: "j < i" "j \<in> P i" using assms by (auto simp: rpo_preds_def)
  show "tree_pred P i \<in> P i" unfolding tree_pred_def using j(2) by (rule LeastI)
  have "tree_pred P i \<le> j" unfolding tree_pred_def using j(2) by (rule Least_le)
  then show "tree_pred P i < i" using j(1) by simp
qed

lemma tree_array_nth: "i < n \<Longrightarrow> tree_array n P ! i = Some (if i = 0 then 0 else tree_pred P i)"
  by (simp add: tree_array_def)

lemma tree_array_valid: "rpo_preds n P \<Longrightarrow> dom_valid n (tree_array n P)"
  unfolding dom_valid_def
proof (intro conjI allI impI)
  assume r: "rpo_preds n P"
  show "length (tree_array n P) = n" by (simp add: tree_array_def)
  show n: "0 < n" using r by (simp add: rpo_preds_def)
  then show "tree_array n P ! 0 = Some 0" by (simp add: tree_array_nth)
  fix i k
  assume i: "0 < i \<and> i < n \<and> tree_array n P ! i = Some k"
  then show k: "k < i" using tree_pred(2)[OF r, of i] by (auto simp: tree_array_nth)
  show "tree_array n P ! k \<noteq> None" using i k by (simp add: tree_array_nth)
qed

lemma tree_chain_unfold:
  assumes "0 < i" and "i < n"
  shows "chain (tree_array n P) i = insert i (chain (tree_array n P) (tree_pred P i))"
  by (rule chain_unfold) (use assms in \<open>simp_all add: tree_array_nth\<close>)

lemma avoid_down_tree:
  assumes r: "rpo_preds n P" and c: "avoid n P d c" "d < c"
  shows "i < n \<Longrightarrow> c \<in> chain (tree_array n P) i \<Longrightarrow> avoid n P d i"
proof (induction i rule: less_induct)
  case (less i)
  show ?case
  proof (cases "i = c")
    case False
    have i: "0 < i" using less.prems False by (cases "i = 0") auto
    have ct: "c \<in> chain (tree_array n P) (tree_pred P i)"
      using less.prems False tree_chain_unfold[OF i less.prems(1)] by auto
    have lt: "tree_pred P i < i" "tree_pred P i \<in> P i" using tree_pred[OF r i less.prems(1)] by auto
    have "c \<le> i" using chain_bound[OF tree_array_valid[OF r] less.prems] .
    then have "i \<noteq> d" using c(2) by simp
    then show ?thesis using less.IH[OF lt(1) _ ct] lt less.prems(1) avoid_step by simp
  qed (use c in simp)
qed

definition dom_inv :: "nat \<Rightarrow> (nat \<Rightarrow> nat set) \<Rightarrow> dom_array \<Rightarrow> nat \<Rightarrow> bool" where
  "dom_inv n P da c \<longleftrightarrow>
     dom_valid n da
     \<and> (\<forall>i k. 0 < i \<and> i < n \<and> da ! i = Some k \<longrightarrow> k \<in> chain (tree_array n P) (tree_pred P i))
     \<and> (\<forall>y < c. y < n \<longrightarrow> processed da y)
     \<and> (\<forall>y k. 0 < y \<and> y < c \<and> y < n \<and> da ! y = Some k \<longrightarrow> k \<in> chain da (tree_pred P y))
     \<and> (\<forall>j k x. 0 < j \<and> j < n \<and> da ! j = Some k
          \<and> (\<forall>p \<in> P j. processed da p \<longrightarrow> x \<in> chain da p) \<longrightarrow> x \<le> k)
     \<and> (\<forall>i d. processed da i \<and> \<not> avoid n P d i \<longrightarrow> d \<in> chain da i)"

lemma dom_invD:
  assumes "dom_inv n P da c"
  shows dom_inv_valid: "dom_valid n da"
    and dom_inv_tree: "0 < i \<Longrightarrow> i < n \<Longrightarrow> da ! i = Some k \<Longrightarrow> k \<in> chain (tree_array n P) (tree_pred P i)"
    and dom_inv_done: "y < c \<Longrightarrow> y < n \<Longrightarrow> processed da y"
    and dom_inv_up: "0 < y \<Longrightarrow> y < c \<Longrightarrow> y < n \<Longrightarrow> da ! y = Some k \<Longrightarrow> k \<in> chain da (tree_pred P y)"
    and dom_inv_meet: "0 < j \<Longrightarrow> j < n \<Longrightarrow> da ! j = Some k \<Longrightarrow>
          (\<And>p. p \<in> P j \<Longrightarrow> processed da p \<Longrightarrow> x \<in> chain da p) \<Longrightarrow> x \<le> k"
    and dom_inv_sound: "processed da i \<Longrightarrow> \<not> avoid n P d i \<Longrightarrow> d \<in> chain da i"
proof -
  note a = assms[unfolded dom_inv_def]
  note b = a[THEN conjunct2] note c = b[THEN conjunct2] note d = c[THEN conjunct2]
  note e = d[THEN conjunct2]
  show "dom_valid n da" using a by (rule conjunct1)
  show "0 < i \<Longrightarrow> i < n \<Longrightarrow> da ! i = Some k \<Longrightarrow> k \<in> chain (tree_array n P) (tree_pred P i)"
    using b[THEN conjunct1, rule_format, of i k] by blast
  show "y < c \<Longrightarrow> y < n \<Longrightarrow> processed da y" using c[THEN conjunct1] by blast
  show "0 < y \<Longrightarrow> y < c \<Longrightarrow> y < n \<Longrightarrow> da ! y = Some k \<Longrightarrow> k \<in> chain da (tree_pred P y)"
    using d[THEN conjunct1, rule_format, of y k] by blast
  show "x \<le> k" if "0 < j" "j < n" "da ! j = Some k"
      "\<And>p. p \<in> P j \<Longrightarrow> processed da p \<Longrightarrow> x \<in> chain da p"
    using e[THEN conjunct1, rule_format, of j k x] that by blast
  show "processed da i \<Longrightarrow> \<not> avoid n P d i \<Longrightarrow> d \<in> chain da i"
    using e[THEN conjunct2, rule_format, of i d] by blast
qed

lemma chain_sub_tree:
  assumes r: "rpo_preds n P" and inv: "dom_inv n P da c"
  shows "processed da i \<Longrightarrow> chain da i \<subseteq> chain (tree_array n P) i"
proof (induction i rule: less_induct)
  case (less i)
  note v = dom_inv_valid[OF inv]
  show ?case
  proof (cases "i = 0")
    case False
    then obtain k where k: "0 < i" "i < n" "da ! i = Some k"
      using less.prems dom_validD(1)[OF v] by (auto simp: processed_def)
    have "chain da k \<subseteq> chain (tree_array n P) k" using less.IH[OF dom_validD(4,5)[OF v k]] .
    moreover have "k \<in> chain (tree_array n P) i"
      using dom_inv_tree[OF inv k] tree_chain_unfold[OF k(1,2)] by simp
    then have "chain (tree_array n P) k \<subseteq> chain (tree_array n P) i" using chain_trans by fast
    ultimately have "chain da k \<subseteq> chain (tree_array n P) i" by simp
    moreover have "i \<in> chain (tree_array n P) i" by (rule chain_self)
    ultimately show ?thesis unfolding chain_unfold[OF k(1,3)] by simp
  qed simp
qed

lemma tree_skip:
  assumes r: "rpo_preds n P" and inv: "dom_inv n P da c"
  shows "y < c \<Longrightarrow> y < n \<Longrightarrow> i \<in> chain (tree_array n P) y \<Longrightarrow> x \<in> chain da y \<Longrightarrow> x \<le> i
    \<Longrightarrow> x \<in> chain da i"
proof (induction y rule: less_induct)
  case (less y)
  note v = dom_inv_valid[OF inv]
  show ?case
  proof (cases "i = y")
    case False
    have y: "0 < y" using less.prems(3) False by (cases "y = 0") auto
    have it: "i \<in> chain (tree_array n P) (tree_pred P y)"
      using less.prems(3) False tree_chain_unfold[OF y less.prems(2)] by auto
    have lt: "tree_pred P y < y" using tree_pred[OF r y less.prems(2)] by simp
    have "i \<le> tree_pred P y" using chain_bound[OF tree_array_valid[OF r] _ it] lt less.prems(2) by simp
    then have xy: "x \<noteq> y" using lt less.prems(5) by simp
    obtain k where k: "da ! y = Some k"
      using dom_inv_done[OF inv less.prems(1,2)] by (auto simp: processed_def)
    have "x \<in> chain da k" using less.prems(4) xy chain_unfold[OF y k] by auto
    then have "x \<in> chain da (tree_pred P y)"
      using dom_inv_up[OF inv y less.prems(1,2) k] chain_trans by blast
    then show ?thesis using less.IH[OF lt _ _ it] less.prems lt by simp
  qed (use less.prems in simp)
qed

section \<open>One update\<close>

text \<open>What an update computes: a processed number whose chain is the meet of the processed predecessors' chains.\<close>

definition meet_of :: "(nat \<Rightarrow> nat set) \<Rightarrow> dom_array \<Rightarrow> nat \<Rightarrow> nat \<Rightarrow> bool" where
  "meet_of P da c f \<longleftrightarrow> processed da f
     \<and> (\<forall>x. x \<in> chain da f \<longleftrightarrow> (\<forall>p \<in> P c. processed da p \<longrightarrow> x \<in> chain da p))"

lemma update_facts:
  assumes r: "rpo_preds n P" and inv: "dom_inv n P da c" and c: "0 < c" "c < n" and m: "meet_of P da c f"
  shows update_tree_pred: "processed da (tree_pred P c)"
    and update_in_tree_pred: "f \<in> chain da (tree_pred P c)"
    and update_less: "f < c"
    and update_chain_tree: "f \<in> chain (tree_array n P) (tree_pred P c)"
    and update_in_old: "da ! c = Some k \<Longrightarrow> f \<in> chain da k"
proof -
  note v = dom_inv_valid[OF inv] and t = tree_pred[OF r c]
  show p: "processed da (tree_pred P c)" using dom_inv_done[OF inv t(2)] t(2) c(2) by simp
  show f: "f \<in> chain da (tree_pred P c)"
    using m p t(1) chain_self[of f da] by (auto simp: meet_of_def)
  show "f < c" using chain_bound[OF v _ f] t(2) c(2) by simp
  show "f \<in> chain (tree_array n P) (tree_pred P c)" using chain_sub_tree[OF r inv p] f by blast
  show "f \<in> chain da k" if k: "da ! c = Some k"
  proof (rule tree_skip[OF r inv t(2) _ _ f])
    show "k \<in> chain (tree_array n P) (tree_pred P c)" using dom_inv_tree[OF inv c k] .
    show "tree_pred P c < n" using t(2) c(2) by simp
    show "f \<le> k" using dom_inv_meet[OF inv c k, of f] m chain_self[of f da] by (simp add: meet_of_def)
  qed
qed

lemma update_valid:
  assumes "dom_valid n da" and "0 < c" and "c < n" and "f < c" and "processed da f"
  shows "dom_valid n (da[c := Some f])"
  unfolding dom_valid_def
proof (intro conjI allI impI)
  note v = assms(1)
  show "length (da[c := Some f]) = n" using dom_validD(1)[OF v] by simp
  show "0 < n" using dom_validD(2)[OF v] .
  show "da[c := Some f] ! 0 = Some 0" using dom_validD(3)[OF v] assms(2) by simp
  fix i k
  assume i: "0 < i \<and> i < n \<and> da[c := Some f] ! i = Some k"
  show "k < i" using i assms(4) dom_validD(4)[OF v, of i k] dom_validD(1)[OF v]
    by (cases "i = c") auto
  show "da[c := Some f] ! k \<noteq> None"
    using i assms dom_validD(5)[OF v, of i k] dom_validD(1)[OF v]
    by (cases "i = c"; cases "k = c") (auto simp: processed_def)
qed

lemma chain_update_below:
  assumes v: "dom_valid n da" and "c < n"
  shows "x < c \<Longrightarrow> chain (da[c := v']) x = chain da x"
proof (induction x rule: less_induct)
  case (less x)
  have same: "da[c := v'] ! x = da ! x" using less.prems by simp
  show ?case
  proof (cases "x = 0 \<or> da ! x = None")
    case True
    then show ?thesis using same chain_None[of da x] chain_None[of "da[c := v']" x] by auto
  next
    case False
    then obtain k where k: "0 < x" "da ! x = Some k" by auto
    then have "k < x" using dom_validD(4)[OF v k(1) _ k(2)] less.prems assms(2) by simp
    then show ?thesis
      using less.IH[of k] less.prems chain_unfold[OF k] chain_unfold[of x "da[c := v']" k] k same by simp
  qed
qed

lemma chain_update:
  assumes v: "dom_valid n da" and c: "0 < c" "c < n"
  shows "x < n \<Longrightarrow> chain (da[c := Some f]) x =
    (if c \<in> chain da x then {y \<in> chain da x. c < y} \<union> chain (da[c := Some f]) c else chain da x)"
proof (induction x rule: less_induct)
  case (less x)
  let ?d = "da[c := Some f]"
  consider "x = c" | "x \<noteq> c" "x = 0 \<or> da ! x = None" | k where "x \<noteq> c" "0 < x" "da ! x = Some k"
    by auto
  then show ?case
  proof cases
    case 1
    have "{y \<in> chain da c. c < y} = {}" using chain_bound[OF v c(2)] by (auto simp: not_less)
    then show ?thesis using 1 chain_self[of c da] by auto
  next
    case 2
    then have "chain da x = {x}" "chain ?d x = {x}"
      using chain_None[of da x] chain_None[of ?d x] by auto
    then show ?thesis using 2 by simp
  next
    case 3
    note k = dom_validD(4)[OF v 3(2) less.prems 3(3)]
    have u: "chain da x = insert x (chain da k)" "chain ?d x = insert x (chain ?d k)"
      using chain_unfold[OF 3(2,3)] chain_unfold[of x ?d k] 3 by simp_all
    have ck: "c < x" if "c \<in> chain da k" using chain_bound[OF v _ that] k less.prems by simp
    have ih: "chain ?d k = (if c \<in> chain da k then {y \<in> chain da k. c < y} \<union> chain ?d c else chain da k)"
      using less.IH[OF k] k less.prems by simp
    show ?thesis
    proof (cases "c \<in> chain da k")
      case True
      then show ?thesis using u ih ck[OF True] by auto
    next
      case False
      then show ?thesis using u ih 3(1) by auto
    qed
  qed
qed

lemma update_processed:
  "processed (da[c := Some f]) i \<longleftrightarrow> processed da i \<or> (i = c \<and> c < length da)"
  by (cases "i = c") (auto simp: processed_def)

lemma update_chain_shrinks:
  assumes r: "rpo_preds n P" and inv: "dom_inv n P da c" and c: "0 < c" "c < n" and m: "meet_of P da c f"
    and x: "processed da x"
  shows "chain (da[c := Some f]) x \<subseteq> chain da x"
proof (cases "c \<in> chain da x")
  case True
  note v = dom_inv_valid[OF inv]
  have xn: "x < n" using x dom_validD(1)[OF v] by (simp add: processed_def)
  obtain k where k: "da ! c = Some k"
    using chain_processed[OF v x True] by (auto simp: processed_def)
  have "chain da f \<subseteq> chain da k" using update_in_old[OF r inv c m k] chain_trans by fast
  then have "chain (da[c := Some f]) c \<subseteq> chain da c"
    using chain_unfold[OF c(1) k] chain_unfold[of c "da[c := Some f]" f] c
      chain_update_below[OF v c(2) update_less[OF r inv c m]] dom_validD(1)[OF v] by auto
  moreover have "chain da c \<subseteq> chain da x" using True chain_trans by fast
  ultimately show ?thesis using chain_update[OF v c xn, of f] True by auto
next
  case False
  note v = dom_inv_valid[OF inv]
  have "x < n" using x dom_validD(1)[OF v] by (simp add: processed_def)
  then show ?thesis using chain_update[OF v c, of x f] False by simp
qed

lemma update_sound:
  assumes r: "rpo_preds n P" and inv: "dom_inv n P da c" and c: "0 < c" "c < n" and m: "meet_of P da c f"
    and i: "processed (da[c := Some f]) i" and d: "\<not> avoid n P d i"
  shows "d \<in> chain (da[c := Some f]) i"
proof -
  note v = dom_inv_valid[OF inv]
  have at_c: "d \<in> chain (da[c := Some f]) c" if dc: "\<not> avoid n P d c"
  proof (cases "d = c")
    case False
    have "d \<in> chain da p" if "p \<in> P c" "processed da p" for p
      using dom_inv_sound[OF inv that(2), of d] dc False that(1) avoid_step[of n P d p c] c(2) by blast
    then have "d \<in> chain da f" using m by (simp add: meet_of_def)
    then show ?thesis
      using chain_unfold[of c "da[c := Some f]" f] c dom_validD(1)[OF v]
        chain_update_below[OF v c(2) update_less[OF r inv c m]] by simp
  qed (simp add: chain_self)
  show ?thesis
  proof (cases "i = c")
    case True
    then show ?thesis using at_c d by simp
  next
    case False
    then have p: "processed da i" using i update_processed[of da c f i] by simp
    then have n: "i < n" using dom_validD(1)[OF v] by (simp add: processed_def)
    have di: "d \<in> chain da i" using dom_inv_sound[OF inv p d] .
    show ?thesis
    proof (cases "c \<in> chain da i \<and> \<not> c < d")
      case True
      then have ct: "c \<in> chain (tree_array n P) i" using chain_sub_tree[OF r inv p] by blast
      have "\<not> avoid n P d c"
      proof (cases "d = c")
        case False
        then show ?thesis using avoid_down_tree[OF r _ _ n ct] d True by auto
      next
        case True
        have "\<not> avoid n P c c"
        proof
          assume "avoid n P c c"
          then show False by (cases rule: avoid.cases) (use c in auto)
        qed
        then show ?thesis using True by simp
      qed
      then show ?thesis using chain_update[OF v c n, of f] at_c True by simp
    next
      case False
      then show ?thesis using chain_update[OF v c n, of f] di by auto
    qed
  qed
qed

lemma update_keeps_inv:
  assumes r: "rpo_preds n P" and inv: "dom_inv n P da c" and c: "0 < c" "c < n" and m: "meet_of P da c f"
  shows "dom_inv n P (da[c := Some f]) (Suc c)"
  unfolding dom_inv_def
proof (intro conjI allI impI)
  let ?d = "da[c := Some f]"
  note v = dom_inv_valid[OF inv] and lt = update_less[OF r inv c m]
  have len: "length da = n" using dom_validD(1)[OF v] .
  have pf: "processed da f" using m by (simp add: meet_of_def)
  show "dom_valid n ?d" using update_valid[OF v c lt pf] .
  show "k \<in> chain (tree_array n P) (tree_pred P i)" if "0 < i \<and> i < n \<and> ?d ! i = Some k" for i k
    using that dom_inv_tree[OF inv, of i k] update_chain_tree[OF r inv c m] len
    by (cases "i = c") auto
  show "processed ?d y" if "y < Suc c" "y < n" for y
    using that dom_inv_done[OF inv, of y] update_processed[of da c f y] len by (cases "y = c") auto
  show "k \<in> chain ?d (tree_pred P y)" if y: "0 < y \<and> y < Suc c \<and> y < n \<and> ?d ! y = Some k" for y k
  proof -
    have "tree_pred P y < c" using tree_pred(2)[OF r, of y] y by simp
    then have "chain ?d (tree_pred P y) = chain da (tree_pred P y)"
      using chain_update_below[OF v c(2)] by simp
    moreover have "k \<in> chain da (tree_pred P y)"
    proof (cases "y = c")
      case True
      then have "k = f" using y len c by simp
      then show ?thesis using update_in_tree_pred[OF r inv c m] True by simp
    next
      case False
      then show ?thesis using dom_inv_up[OF inv, of y k] y by simp
    qed
    ultimately show ?thesis by simp
  qed
  show "d \<in> chain ?d i" if "processed ?d i \<and> \<not> avoid n P d i" for i d
    using update_sound[OF r inv c m] that by simp
  show "x \<le> k" if j: "0 < j \<and> j < n \<and> ?d ! j = Some k
      \<and> (\<forall>p\<in>P j. processed ?d p \<longrightarrow> x \<in> chain ?d p)" for j k x
  proof -
    have old: "x \<in> chain da p" if "p \<in> P j" "processed da p" for p
      using j that update_chain_shrinks[OF r inv c m that(2)] update_processed[of da c f p] by blast
    show ?thesis
    proof (cases "j = c")
      case True
      then have "k = f" using j len c by simp
      moreover have "x \<in> chain da f" using old m True by (simp add: meet_of_def)
      then have "x \<le> f" using chain_bound[OF v] lt c(2) by simp
      ultimately show ?thesis by simp
    next
      case False
      then show ?thesis using dom_inv_meet[OF inv, of j k x] j old by simp
    qed
  qed
qed

lemma keep_inv:
  assumes r: "rpo_preds n P" and inv: "dom_inv n P da c" and c: "0 < c" "c < n" and m: "meet_of P da c f"
    and same: "da ! c = Some f"
  shows "dom_inv n P da (Suc c)"
proof -
  have "da[c := Some f] = da" using same by (metis list_update_id)
  then show ?thesis using update_keeps_inv[OF r inv c m] by simp
qed

lemma inv_restart: "dom_inv n P da c \<Longrightarrow> dom_inv n P da (Suc 0)"
proof -
  assume inv: "dom_inv n P da c"
  have "processed da 0"
    using dom_validD(1-3)[OF dom_inv_valid[OF inv]] by (simp add: processed_def)
  then show ?thesis using inv unfolding dom_inv_def by simp
qed

section \<open>A pass computes meets\<close>

abbreviation index_of :: "'n list \<Rightarrow> 'n \<rightharpoonup> nat" where
  "index_of rpo \<equiv> Map.empty(rpo [\<mapsto>] [0..<length rpo])"

lemma index_of_Some [simp]:
  assumes "distinct rpo"
  shows "index_of rpo x = Some i \<longleftrightarrow> i < length rpo \<and> rpo ! i = x"
proof -
  have "index_of rpo = map_of (rev (zip rpo [0..<length rpo]))"
    by (simp add: map_upds_def)
  moreover have "distinct (map fst (rev (zip rpo [0..<length rpo])))"
    using assms by (simp add: rev_map[symmetric])
  ultimately show ?thesis by (auto simp: map_of_eq_Some_iff set_zip)
qed

definition index_preds :: "'n cfg \<Rightarrow> 'n list \<Rightarrow> nat \<Rightarrow> nat set" where
  "index_preds g rpo i = {j. j < length rpo \<and> rpo ! j \<in> set (predecessors g (rpo ! i))}"

lemma intersect_preds_correct:
  assumes v: "dom_valid n da"
  shows "\<forall>p \<in> set ps. \<exists>i < n. ri p = Some i \<Longrightarrow> processed da a \<Longrightarrow>
    \<exists>f. intersect_preds ri da ps a = Some f \<and> processed da f \<and>
      (\<forall>x. x \<in> chain da f \<longleftrightarrow> x \<in> chain da a
        \<and> (\<forall>p \<in> set ps. \<forall>i. ri p = Some i \<longrightarrow> processed da i \<longrightarrow> x \<in> chain da i))"
proof (induction ps arbitrary: a)
  case (Cons p ps)
  obtain i where i: "ri p = Some i" "i < n" using Cons.prems(1) by auto
  have len: "length da = n" using dom_validD(1)[OF v] .
  show ?case
  proof (cases "da ! i")
    case None
    have "\<not> processed da i" using None by (simp add: processed_def)
    moreover obtain f where "intersect_preds ri da ps a = Some f" "processed da f"
        "\<forall>x. x \<in> chain da f \<longleftrightarrow> x \<in> chain da a
          \<and> (\<forall>p \<in> set ps. \<forall>i. ri p = Some i \<longrightarrow> processed da i \<longrightarrow> x \<in> chain da i)"
      using Cons.IH[OF _ Cons.prems(2)] Cons.prems(1) by auto
    ultimately show ?thesis using i None len by (intro exI[of _ f]) simp
  next
    case (Some k)
    have pi: "processed da i" using Some i len by (simp add: processed_def)
    obtain b where b: "intersect i a da = Some b" "processed da b" "chain da b = chain da i \<inter> chain da a"
      using intersect_correct[OF v pi Cons.prems(2)] by blast
    obtain f where "intersect_preds ri da ps b = Some f" "processed da f"
        "\<forall>x. x \<in> chain da f \<longleftrightarrow> x \<in> chain da b
          \<and> (\<forall>p \<in> set ps. \<forall>i. ri p = Some i \<longrightarrow> processed da i \<longrightarrow> x \<in> chain da i)"
      using Cons.IH[OF _ b(2)] Cons.prems(1) by auto
    then show ?thesis using i Some len b pi by (intro exI[of _ f]) auto
  qed
qed simp

lemma find_processed_correct:
  assumes "length da = n" and "\<forall>p \<in> set ps. \<exists>i < n. ri p = Some i"
    and "\<exists>p \<in> set ps. \<exists>i. ri p = Some i \<and> processed da i"
  shows "\<exists>p i. find_processed ri da ps = Some p \<and> p \<in> set ps \<and> ri p = Some i \<and> processed da i"
  using assms(2,3)
proof (induction ps)
  case (Cons q ps)
  obtain i where i: "ri q = Some i" "i < n" using Cons.prems(1) by auto
  show ?case
  proof (cases "da ! i = None")
    case True
    then have "\<not> processed da i" by (simp add: processed_def)
    then have "\<exists>p \<in> set ps. \<exists>i. ri p = Some i \<and> processed da i" using Cons.prems(2) i by auto
    then show ?thesis using Cons.IH Cons.prems(1) i assms(1) True by auto
  next
    case False
    then show ?thesis using i assms(1) by (intro exI[of _ q] exI[of _ i]) (simp add: processed_def)
  qed
qed simp

lemma new_idom_correct:
  assumes r: "rpo_preds (length rpo) (index_preds g rpo)" and d: "distinct rpo"
    and inv: "dom_inv (length rpo) (index_preds g rpo) da c" and c: "0 < c" "c < length rpo"
  shows "\<exists>f. new_idom_of g (index_of rpo) da (rpo ! c) = Some f \<and> meet_of (index_preds g rpo) da c f"
proof -
  let ?n = "length rpo" and ?P = "index_preds g rpo" and ?ri = "index_of rpo"
  let ?ps = "filter (\<lambda>p. ?ri p \<noteq> None) (predecessors g (rpo ! c))"
  note v = dom_inv_valid[OF inv]
  have ps: "\<forall>p \<in> set ?ps. \<exists>i < ?n. ?ri p = Some i" using d by auto
  have P: "?P c = {i. \<exists>p \<in> set ?ps. ?ri p = Some i}" using d by (auto simp: index_preds_def)
  have t: "tree_pred ?P c \<in> ?P c" "tree_pred ?P c < c" using tree_pred[OF r c] .
  have "processed da (tree_pred ?P c)" using dom_inv_done[OF inv t(2)] t(2) c(2) by simp
  then have "\<exists>p \<in> set ?ps. \<exists>i. ?ri p = Some i \<and> processed da i" using t(1) unfolding P by blast
  then obtain q a where q: "find_processed ?ri da ?ps = Some q" "q \<in> set ?ps" "?ri q = Some a" "processed da a"
    using find_processed_correct[OF dom_validD(1)[OF v] ps] by blast
  let ?qs = "filter (\<lambda>p. p \<noteq> q) ?ps"
  have "\<forall>p \<in> set ?qs. \<exists>i < ?n. ?ri p = Some i" using ps by simp
  from intersect_preds_correct[OF v this q(4)] obtain f where f: "intersect_preds ?ri da ?qs a = Some f"
      "processed da f" "\<forall>x. x \<in> chain da f \<longleftrightarrow> x \<in> chain da a
        \<and> (\<forall>p \<in> set ?qs. \<forall>i. ?ri p = Some i \<longrightarrow> processed da i \<longrightarrow> x \<in> chain da i)"
    by blast
  have new: "new_idom_of g ?ri da (rpo ! c) = Some f"
    unfolding new_idom_of_def Let_def using q(1,3) f(1) by simp
  have "x \<in> chain da f \<longleftrightarrow> (\<forall>i \<in> ?P c. processed da i \<longrightarrow> x \<in> chain da i)" for x
  proof
    assume x: "x \<in> chain da f"
    show "\<forall>i \<in> ?P c. processed da i \<longrightarrow> x \<in> chain da i"
    proof (intro ballI impI)
      fix i
      assume i: "i \<in> ?P c" "processed da i"
      then obtain p where p: "p \<in> set ?ps" "?ri p = Some i" unfolding P by blast
      show "x \<in> chain da i"
      proof (cases "p = q")
        case True
        then show ?thesis using x f(3) p(2) q(3) by auto
      next
        case False
        then have "p \<in> set ?qs" using p(1) by simp
        then show ?thesis using x f(3) p(2) i(2) by blast
      qed
    qed
  next
    assume a: "\<forall>i \<in> ?P c. processed da i \<longrightarrow> x \<in> chain da i"
    have "x \<in> chain da i" if "p \<in> set ?ps" "?ri p = Some i" "processed da i" for p i
      using a that unfolding P by blast
    then show "x \<in> chain da f" using f(3) q(2-4) by (meson filter_is_subset subsetD)
  qed
  then show ?thesis using new f(2) by (auto simp: meet_of_def)
qed

section \<open>The passes end\<close>

definition dom_weight :: "nat \<Rightarrow> dom_array \<Rightarrow> nat" where
  "dom_weight n da = (\<Sum>i < n. case da ! i of None \<Rightarrow> n | Some k \<Rightarrow> k)"

lemma update_weight:
  assumes r: "rpo_preds n P" and inv: "dom_inv n P da c" and c: "0 < c" "c < n" and m: "meet_of P da c f"
    and diff: "da ! c \<noteq> Some f"
  shows "dom_weight n (da[c := Some f]) < dom_weight n da"
  unfolding dom_weight_def
proof (rule sum_strict_mono_ex1)
  note v = dom_inv_valid[OF inv]
  have len: "length da = n" using dom_validD(1)[OF v] .
  have less: "f < (case da ! c of None \<Rightarrow> n | Some k \<Rightarrow> k)"
  proof (cases "da ! c")
    case None
    then show ?thesis using update_less[OF r inv c m] c by simp
  next
    case (Some k)
    then have "k < n" using dom_validD(4)[OF v c Some] c(2) by simp
    then have "f \<le> k" using chain_bound[OF v _ update_in_old[OF r inv c m Some]] by simp
    then show ?thesis using diff Some by simp
  qed
  show "finite {..<n}" by simp
  show "\<forall>i \<in> {..<n}. (case da[c := Some f] ! i of None \<Rightarrow> n | Some k \<Rightarrow> k)
      \<le> (case da ! i of None \<Rightarrow> n | Some k \<Rightarrow> k)"
  proof
    fix i
    show "(case da[c := Some f] ! i of None \<Rightarrow> n | Some k \<Rightarrow> k)
        \<le> (case da ! i of None \<Rightarrow> n | Some k \<Rightarrow> k)"
      using less len c(2) by (cases "i = c") auto
  qed
  show "\<exists>i \<in> {..<n}. (case da[c := Some f] ! i of None \<Rightarrow> n | Some k \<Rightarrow> k)
      < (case da ! i of None \<Rightarrow> n | Some k \<Rightarrow> k)"
    using less len c(2) by (intro bexI[of _ c]) auto
qed

definition at_fixpoint :: "nat \<Rightarrow> (nat \<Rightarrow> nat set) \<Rightarrow> dom_array \<Rightarrow> nat \<Rightarrow> bool" where
  "at_fixpoint n P da c \<longleftrightarrow> (\<forall>i. c \<le> i \<and> i < n \<longrightarrow> (\<exists>f. da ! i = Some f \<and> meet_of P da i f))"

lemma drop_enumerate:
  "c < length xs \<Longrightarrow> drop c (enumerate 0 xs) = (c, xs ! c) # drop (Suc c) (enumerate 0 xs)"
  using Cons_nth_drop_Suc[of c "enumerate 0 xs"] by (simp add: nth_enumerate_eq)

lemma dom_pass_changed:
  "dom_pass g ri nodes da True = Some (da', ch') \<Longrightarrow> ch'"
proof (induction nodes arbitrary: da)
  case (Cons x nodes)
  then show ?case by (cases x) (auto split: Option.bind_splits if_splits)
qed simp

lemma dom_pass_correct:
  assumes r: "rpo_preds (length rpo) (index_preds g rpo)" and d: "distinct rpo"
  shows "0 < c \<Longrightarrow> c \<le> length rpo \<Longrightarrow> dom_inv (length rpo) (index_preds g rpo) da c \<Longrightarrow>
    \<exists>da' ch'. dom_pass g (index_of rpo) (drop c (enumerate 0 rpo)) da ch = Some (da', ch')
      \<and> dom_inv (length rpo) (index_preds g rpo) da' (length rpo)
      \<and> dom_weight (length rpo) da' \<le> dom_weight (length rpo) da
      \<and> (ch' \<and> \<not> ch \<longrightarrow> dom_weight (length rpo) da' < dom_weight (length rpo) da)
      \<and> (\<not> ch' \<longrightarrow> da' = da \<and> at_fixpoint (length rpo) (index_preds g rpo) da c)"
proof (induction "length rpo - c" arbitrary: c da ch)
  case 0
  then have "c = length rpo" by simp
  then show ?case using 0 by (auto simp: at_fixpoint_def)
next
  case (Suc k)
  let ?n = "length rpo" and ?P = "index_preds g rpo" and ?ri = "index_of rpo"
  have c: "0 < c" "c < ?n" using Suc by auto
  have k: "k = ?n - Suc c" "Suc c \<le> ?n" using Suc(2) c by auto
  note inv = Suc.prems(3)
  have len: "length da = ?n" using dom_validD(1)[OF dom_inv_valid[OF inv]] .
  obtain f where f: "new_idom_of g ?ri da (rpo ! c) = Some f" "meet_of ?P da c f"
    using new_idom_correct[OF r d inv c] by blast
  show ?case
  proof (cases "da ! c = Some f")
    case True
    have inv': "dom_inv ?n ?P da (Suc c)" using keep_inv[OF r inv c f(2) True] .
    obtain da' ch' where s: "dom_pass g ?ri (drop (Suc c) (enumerate 0 rpo)) da ch = Some (da', ch')"
      "dom_inv ?n ?P da' ?n" "dom_weight ?n da' \<le> dom_weight ?n da"
      "ch' \<and> \<not> ch \<longrightarrow> dom_weight ?n da' < dom_weight ?n da"
      "\<not> ch' \<longrightarrow> da' = da \<and> at_fixpoint ?n ?P da (Suc c)"
      using Suc.hyps(1)[OF k(1) _ k(2) inv', of ch] by blast
    have "dom_pass g ?ri (drop c (enumerate 0 rpo)) da ch = Some (da', ch')"
      using s(1) f(1) True len c by (simp add: drop_enumerate)
    moreover have "at_fixpoint ?n ?P da c" if "at_fixpoint ?n ?P da (Suc c)"
      using that True f(2) unfolding at_fixpoint_def by (metis Suc_leI le_neq_implies_less)
    ultimately show ?thesis using s(2-5) by blast
  next
    case False
    let ?d = "da[c := Some f]"
    have inv': "dom_inv ?n ?P ?d (Suc c)" using update_keeps_inv[OF r inv c f(2)] .
    have w: "dom_weight ?n ?d < dom_weight ?n da" using update_weight[OF r inv c f(2) False] .
    obtain da' ch' where s: "dom_pass g ?ri (drop (Suc c) (enumerate 0 rpo)) ?d True = Some (da', ch')"
      "dom_inv ?n ?P da' ?n" "dom_weight ?n da' \<le> dom_weight ?n ?d"
      using Suc.hyps(1)[OF k(1) _ k(2) inv', of True] by blast
    have ch: ch' using s(1) dom_pass_changed by blast
    have "dom_pass g ?ri (drop c (enumerate 0 rpo)) da ch = Some (da', ch')"
      using s(1) f(1) False len c by (simp add: drop_enumerate)
    then show ?thesis using s(2,3) w ch by (intro exI[of _ da'] exI[of _ ch']) simp
  qed
qed

lemma dom_iterate_correct:
  assumes r: "rpo_preds (length rpo) (index_preds g rpo)" and d: "distinct rpo"
  shows "dom_inv (length rpo) (index_preds g rpo) da (Suc 0) \<Longrightarrow>
    \<exists>da'. dom_iterate g (index_of rpo) (tl (enumerate 0 rpo)) da = Some da'
      \<and> dom_inv (length rpo) (index_preds g rpo) da' (length rpo)
      \<and> at_fixpoint (length rpo) (index_preds g rpo) da' (Suc 0)"
proof (induction "dom_weight (length rpo) da" arbitrary: da rule: less_induct)
  case less
  let ?n = "length rpo" and ?P = "index_preds g rpo" and ?ri = "index_of rpo"
  have n: "Suc 0 \<le> ?n" using r by (auto simp: rpo_preds_def Suc_le_eq)
  obtain da' ch' where s: "dom_pass g ?ri (tl (enumerate 0 rpo)) da False = Some (da', ch')"
      "dom_inv ?n ?P da' ?n" "ch' \<longrightarrow> dom_weight ?n da' < dom_weight ?n da"
      "\<not> ch' \<longrightarrow> da' = da \<and> at_fixpoint ?n ?P da (Suc 0)"
    using dom_pass_correct[OF r d _ n less.prems, of False] by (auto simp: drop_Suc)
  note u = dom_iterate.simps[of g ?ri "tl (enumerate 0 rpo)" da]
  show ?case
  proof (cases ch')
    case True
    then obtain e where "dom_iterate g ?ri (tl (enumerate 0 rpo)) da' = Some e"
        "dom_inv ?n ?P e ?n" "at_fixpoint ?n ?P e (Suc 0)"
      using less.hyps[of da'] s(3) inv_restart[OF s(2)] by blast
    then show ?thesis using True s(1) u by simp
  next
    case False
    then show ?thesis using s u by simp
  qed
qed

lemma initial_inv:
  assumes r: "rpo_preds n P"
  shows "dom_inv n P ((replicate n None)[0 := Some 0]) (Suc 0)"
proof -
  let ?d = "(replicate n None)[0 := Some 0] :: dom_array"
  have n: "0 < n" using r by (simp add: rpo_preds_def)
  have i: "?d ! i = None" if "0 < i" "i < n" for i using that by simp
  have "\<not> processed ?d i" if "0 < i" for i using that by (auto simp: processed_def)
  then have p: "i = 0" if "processed ?d i" for i using that by blast
  have "avoid n P d 0" if "d \<noteq> 0" for d using that by (rule avoid_entry)
  then have s: "d \<in> chain ?d i" if "processed ?d i" "\<not> avoid n P d i" for i d
    using p[OF that(1)] that(2) by (cases "d = 0") auto
  show ?thesis unfolding dom_inv_def dom_valid_def
    using n i s by (auto simp: processed_def)
qed

lemma fixpoint_exact:
  assumes r: "rpo_preds n P" and inv: "dom_inv n P da n" and fp: "at_fixpoint n P da (Suc 0)" and i: "i < n"
  shows "d \<in> chain da i \<longleftrightarrow> \<not> avoid n P d i"
proof
  note v = dom_inv_valid[OF inv]
  have "d \<notin> chain da i" if "avoid n P d i" using that
  proof (induction rule: avoid.induct)
    case (avoid_step j i)
    show ?case
    proof (cases "i = 0")
      case False
      then obtain f where f: "da ! i = Some f" "meet_of P da i f"
        using fp avoid_step(3) by (auto simp: at_fixpoint_def Suc_le_eq)
      have "j < n" using r avoid_step(2,3) by (auto simp: rpo_preds_def)
      then have "processed da j" using dom_inv_done[OF inv] by simp
      then have "d \<notin> chain da f" using f(2) avoid_step(2,5) by (auto simp: meet_of_def)
      then show ?thesis using chain_unfold[OF _ f(1)] False avoid_step(4) by simp
    qed (use avoid_step(4) in simp)
  qed simp
  then show "d \<in> chain da i \<Longrightarrow> \<not> avoid n P d i" by blast
  show "\<not> avoid n P d i \<Longrightarrow> d \<in> chain da i"
    using dom_inv_sound[OF inv] dom_inv_done[OF inv i i] by blast
qed

section \<open>From numbers to nodes\<close>

text \<open>\<open>d\<close> dominates \<open>v\<close>: \<open>v\<close> is reachable from the entry, and every path to \<open>v\<close> passes through \<open>d\<close>.\<close>

definition doms :: "'n cfg \<Rightarrow> 'n \<Rightarrow> 'n \<Rightarrow> 'n \<Rightarrow> bool" where
  "doms g e d v \<longleftrightarrow> reaches g e v \<and> (\<forall>p. is_path g e p v \<longrightarrow> d \<in> set p)"

lemma doms_reachable: "doms g e d v \<Longrightarrow> reaches g e v \<and> reaches g e d"
  using reaches_path[of g e v] is_path_reaches[of g e _ v d] unfolding doms_def by blast

lemma doms_refl: "reaches g e v \<Longrightarrow> doms g e v v"
  unfolding doms_def using is_path_ends by (metis last_in_set)

lemma rpo_ofD:
  assumes "rpo_of g e rpo"
  shows "distinct rpo" and "set rpo = {v. reaches g e v}" and "0 < length rpo" and "rpo ! 0 = e"
    and "0 < i \<Longrightarrow> i < length rpo \<Longrightarrow> \<exists>j < i. edge g (rpo ! j) (rpo ! i)"
  using assms by (auto simp: rpo_of_def)

lemma index_preds_edge:
  assumes "wf_cfg g" and "entry_node g = Some e" and rp: "rpo_of g e rpo" and i: "i < length rpo"
  shows "j \<in> index_preds g rpo i \<longleftrightarrow> j < length rpo \<and> edge g (rpo ! j) (rpo ! i)"
proof -
  have e: "e \<in> set (graph_nodes g)" using wf_cfgD(4)[OF assms(1,2)] by auto
  have n: "rpo ! k \<in> set (graph_nodes g)" if "k < length rpo" for k
    using rpo_ofD(2)[OF rp] nth_mem[OF that] reaches_nodes[OF assms(1) _ e] by auto
  show ?thesis using wf_cfgD(3)[OF assms(1) n[OF i]] n by (auto simp: index_preds_def)
qed

lemma rpo_of_preds:
  assumes "wf_cfg g" and "entry_node g = Some e" and rp: "rpo_of g e rpo"
  shows "rpo_preds (length rpo) (index_preds g rpo)"
  unfolding rpo_preds_def
proof (intro conjI allI impI)
  show "0 < length rpo" using rpo_ofD(3)[OF rp] .
  show "index_preds g rpo i \<subseteq> {..<length rpo}" for i by (auto simp: index_preds_def)
  fix i
  assume i: "0 < i \<and> i < length rpo"
  then obtain j where j: "j < i" "edge g (rpo ! j) (rpo ! i)" using rpo_ofD(5)[OF rp] by blast
  then show "\<exists>j < i. j \<in> index_preds g rpo i"
    using index_preds_edge[OF assms, of i j] i by auto
qed

lemma avoid_path:
  assumes "wf_cfg g" and "entry_node g = Some e" and rp: "rpo_of g e rpo"
    and i: "i < length rpo" and d: "d < length rpo"
  shows "avoid (length rpo) (index_preds g rpo) d i \<longleftrightarrow> (\<exists>p. is_path g e p (rpo ! i) \<and> rpo ! d \<notin> set p)"
proof
  note eq = nth_eq_iff_index_eq[OF rpo_ofD(1)[OF rp]]
  have "\<exists>p. is_path g e p (rpo ! i) \<and> rpo ! d \<notin> set p"
    if "avoid (length rpo) (index_preds g rpo) d i" for i using that
  proof induction
    case avoid_entry
    then show ?case using eq[OF d rpo_ofD(3)[OF rp]] rpo_ofD(4)[OF rp]
      by (intro exI[of _ "[e]"]) auto
  next
    case (avoid_step j i)
    then obtain p where p: "is_path g e p (rpo ! j)" "rpo ! d \<notin> set p" by blast
    have "edge g (rpo ! j) (rpo ! i)" using index_preds_edge[OF assms(1-3) avoid_step(3)] avoid_step(2) by simp
    then have "is_path g e (p @ [rpo ! i]) (rpo ! i)"
      using p(1) is_path_ends[OF p(1)] by (auto simp: is_path_snoc)
    then show ?case using p(2) eq[OF d avoid_step(3)] avoid_step(4)
      by (intro exI[of _ "p @ [rpo ! i]"]) simp
  qed
  then show "avoid (length rpo) (index_preds g rpo) d i \<Longrightarrow> \<exists>p. is_path g e p (rpo ! i) \<and> rpo ! d \<notin> set p" .
  have "avoid (length rpo) (index_preds g rpo) d i"
    if "is_path g e p (rpo ! i)" "rpo ! d \<notin> set p" "i < length rpo" for p i using that
  proof (induction p arbitrary: i rule: rev_induct)
    case (snoc w p)
    have w: "w = rpo ! i" using is_path_ends[OF snoc.prems(1)] by simp
    then have di: "i \<noteq> d" using snoc.prems(2) by auto
    show ?case
    proof (cases "p = []")
      case True
      then have "rpo ! i = rpo ! 0" using snoc.prems(1) rpo_ofD(4)[OF rp] by simp
      then have "i = 0" using eq[OF snoc.prems(3) rpo_ofD(3)[OF rp]] by simp
      then show ?thesis using di by (simp add: avoid_entry)
    next
      case False
      then obtain x where x: "is_path g e p x" "edge g x (rpo ! i)"
        using snoc.prems(1) w by (auto simp: is_path_snoc)
      have "x \<in> set p" using is_path_ends[OF x(1)] last_in_set by blast
      then have "reaches g e x" using is_path_reaches[OF x(1)] by blast
      then obtain j where j: "j < length rpo" "rpo ! j = x"
        using rpo_ofD(2)[OF rp] by (metis in_set_conv_nth mem_Collect_eq)
      have "avoid (length rpo) (index_preds g rpo) d j" using snoc.IH[of j] x j snoc.prems(2) by simp
      moreover have "j \<in> index_preds g rpo i"
        using index_preds_edge[OF assms(1-3) snoc.prems(3)] j x(2) by simp
      ultimately show ?thesis using avoid_step[of "length rpo" "index_preds g rpo" d j i] snoc.prems(3) di by blast
    qed
  qed simp
  then show "\<exists>p. is_path g e p (rpo ! i) \<and> rpo ! d \<notin> set p \<Longrightarrow> avoid (length rpo) (index_preds g rpo) d i"
    using i by blast
qed

section \<open>The tree\<close>

definition node_at :: "'n list \<Rightarrow> dom_array \<Rightarrow> nat \<Rightarrow> nat \<Rightarrow> 'n dom_node" where
  "node_at rpo da j i =
     \<lparr>dn_parent = (if i = 0 then None else map_option ((!) rpo) (da ! i)),
      dn_children = map ((!) rpo) (filter (\<lambda>c. da ! c = Some i) [1..<j])\<rparr>"

lemma update_present:
  "distinct (map fst xs) \<Longrightarrow> k \<in> fst ` set xs \<Longrightarrow>
    AList.update k v xs = map (\<lambda>(k', v'). (k', if k' = k then v else v')) xs"
proof (induction xs)
  case (Cons x xs)
  obtain k' v' where x: "x = (k', v')" by (cases x)
  show ?case
  proof (cases "k' = k")
    case True
    have "(\<lambda>(k', v'). (k', if k' = k then v else v')) y = y" if "y \<in> set xs" for y
      using Cons.prems(1) True x that by (cases y) force
    then have "map (\<lambda>(k', v'). (k', if k' = k then v else v')) xs = xs" by (rule map_idI)
    then show ?thesis using True x by simp
  next
    case False
    then show ?thesis using Cons x by simp
  qed
qed simp

lemma update_absent: "k \<notin> fst ` set xs \<Longrightarrow> AList.update k v xs = xs @ [(k, v)]"
  by (induction xs) auto

lemma node_at_snoc:
  assumes "da ! j = Some k" and "0 < j"
  shows "node_at rpo da (Suc j) i =
    (if i = k then (node_at rpo da j i)\<lparr>dn_children := dn_children (node_at rpo da j i) @ [rpo ! j]\<rparr>
     else node_at rpo da j i)"
  using assms by (auto simp: node_at_def Suc_le_eq)

lemma node_at_new:
  assumes v: "dom_valid n da" and "0 < j" and "j < n" and "da ! j = Some k"
  shows "node_at rpo da j j = \<lparr>dn_parent = Some (rpo ! k), dn_children = []\<rparr>"
proof -
  have "da ! c \<noteq> Some j" if "c \<in> set [1..<j]" for c
    using dom_validD(4)[OF v, of c j] that assms(3) by auto
  then have "filter (\<lambda>c. da ! c = Some j) [1..<j] = []" by (simp add: filter_empty_conv)
  then show ?thesis using assms by (simp add: node_at_def)
qed

lemma dom_build_correct:
  assumes v: "dom_valid n da" and d: "distinct rpo" "length rpo = n"
    and p: "\<forall>i < n. processed da i"
  shows "0 < j \<Longrightarrow> j \<le> n \<Longrightarrow>
    dom_build rpo (drop j (enumerate 0 da)) (map (\<lambda>i. (rpo ! i, node_at rpo da j i)) [0..<j])
      = Some (map (\<lambda>i. (rpo ! i, node_at rpo da n i)) [0..<n])"
proof (induction "n - j" arbitrary: j)
  case 0
  then show ?case using dom_validD(1)[OF v] by simp
next
  case (Suc l)
  have j: "0 < j" "j < n" "l = n - Suc j" "Suc j \<le> n" using Suc by auto
  have len: "length da = n" using dom_validD(1)[OF v] .
  obtain k where k: "da ! j = Some k" using p j(2) by (auto simp: processed_def)
  have kj: "k < j" using dom_validD(4)[OF v j(1,2) k] .
  let ?m = "map (\<lambda>i. (rpo ! i, node_at rpo da j i)) [0..<j]"
  let ?m' = "map (\<lambda>i. (rpo ! i, node_at rpo da j i)) [0..<Suc j]"
  have eq: "rpo ! a = rpo ! b \<longleftrightarrow> a = b" if "a < n" "b < n" for a b
    using nth_eq_iff_index_eq[OF d(1)] that d(2) by simp
  have keys: "map fst (map (\<lambda>i. (rpo ! i, f i)) [0..<b]) = take b rpo" if "b \<le> n" for b and f :: "nat \<Rightarrow> 'a dom_node"
    using that d(2) by (intro nth_equalityI) auto
  have "rpo ! j \<notin> fst ` set ?m" using eq j(2) by (auto simp: image_iff)
  then have up: "AList.update (rpo ! j) \<lparr>dn_parent = Some (rpo ! k), dn_children = []\<rparr> ?m = ?m'"
    using node_at_new[OF v j(1,2) k, of rpo] by (simp add: update_absent)
  have mk: "map_of ?m' (rpo ! k) = Some (node_at rpo da j k)"
  proof (rule map_of_is_SomeI)
    show "distinct (map fst ?m')" unfolding keys[OF j(4)] using d(1) by simp
    show "(rpo ! k, node_at rpo da j k) \<in> set ?m'" using kj by auto
  qed
  let ?v = "(node_at rpo da j k)\<lparr>dn_children := dn_children (node_at rpo da j k) @ [rpo ! j]\<rparr>"
  have "AList.update (rpo ! k) ?v ?m' = map (\<lambda>(k', v'). (k', if k' = rpo ! k then ?v else v')) ?m'"
  proof (rule update_present)
    show "distinct (map fst ?m')" unfolding keys[OF j(4)] using d(1) by simp
    show "rpo ! k \<in> fst ` set ?m'" using kj by force
  qed
  also have "\<dots> = map (\<lambda>i. (rpo ! i, node_at rpo da (Suc j) i)) [0..<Suc j]"
    unfolding list.map_comp
  proof (rule map_cong[OF refl])
    fix i
    assume "i \<in> set [0..<Suc j]"
    then have "rpo ! i = rpo ! k \<longleftrightarrow> i = k" using eq[of i k] j(2) kj by auto
    then show "((\<lambda>(k', v'). (k', if k' = rpo ! k then ?v else v')) \<circ> (\<lambda>i. (rpo ! i, node_at rpo da j i))) i
        = (rpo ! i, node_at rpo da (Suc j) i)"
      using node_at_snoc[OF k j(1), of rpo i] by simp
  qed
  finally have at: "dom_attach (rpo ! j) (rpo ! k) ?m = Some (map (\<lambda>i. (rpo ! i, node_at rpo da (Suc j) i)) [0..<Suc j])"
    unfolding dom_attach_def Let_def up using mk by simp
  have "drop j (enumerate 0 da) = (j, Some k) # drop (Suc j) (enumerate 0 da)"
    using drop_enumerate[of j da] len j(2) k by simp
  then show ?case using at Suc.hyps(1)[OF j(3) _ j(4)] j kj d(2) by simp
qed

text \<open>What \<open>compute_dominator_tree\<close> returns, in closed form.\<close>

definition tree_of :: "'n cfg \<Rightarrow> 'n \<Rightarrow> 'n dom_tree \<Rightarrow> 'n list \<Rightarrow> dom_array \<Rightarrow> bool" where
  "tree_of g e t rpo da \<longleftrightarrow>
     rpo_of g e rpo \<and> dom_valid (length rpo) da \<and> (\<forall>i < length rpo. processed da i)
     \<and> (\<forall>d i. d < length rpo \<longrightarrow> i < length rpo \<longrightarrow>
          (d \<in> chain da i \<longleftrightarrow> doms g e (rpo ! d) (rpo ! i)))
     \<and> dt_root t = Some e
     \<and> dominators_map t = map (\<lambda>i. (rpo ! i, node_at rpo da (length rpo) i)) [0..<length rpo]"

lemma compute_dominator_tree_of:
  assumes wf: "wf_cfg g" and e: "entry_node g = Some e"
  shows "\<exists>t rpo da. compute_dominator_tree g = Some t \<and> tree_of g e t rpo da"
proof -
  obtain rpo rest where rp: "topological_order_by_component g = Some (rpo # rest)" "rpo_of g e rpo"
    using topological_by_component_first[OF assms] by blast
  let ?n = "length rpo" and ?P = "index_preds g rpo" and ?ri = "index_of rpo"
  note d = rpo_ofD[OF rp(2)] and r = rpo_of_preds[OF assms rp(2)]
  have ei: "?ri e = Some 0" using d(1,3,4) by simp
  obtain da where da: "dom_iterate g ?ri (tl (enumerate 0 rpo)) ((replicate ?n None)[0 := Some 0]) = Some da"
      "dom_inv ?n ?P da ?n" "at_fixpoint ?n ?P da (Suc 0)"
    using dom_iterate_correct[OF r d(1) initial_inv[OF r]] by blast
  note v = dom_inv_valid[OF da(2)]
  have p: "\<forall>i < ?n. processed da i" using dom_inv_done[OF da(2)] by simp
  have "[(rpo ! 0, node_at rpo da (Suc 0) 0)] = AList.update (rpo ! 0) \<lparr>dn_parent = None, dn_children = []\<rparr> []"
    by (simp add: node_at_def)
  then have build: "dom_build rpo (tl (enumerate 0 da)) (AList.update (rpo ! 0) \<lparr>dn_parent = None, dn_children = []\<rparr> [])
      = Some (map (\<lambda>i. (rpo ! i, node_at rpo da ?n i)) [0..<?n])"
    using dom_build_correct[OF v d(1) refl p, of "Suc 0"] d(3) by (simp add: drop_Suc)
  let ?t = "\<lparr>dt_root = Some e, dominators_map = map (\<lambda>i. (rpo ! i, node_at rpo da ?n i)) [0..<?n]\<rparr>"
  have c: "compute_dominator_tree g = Some ?t"
    using e rp(1) ei da(1) build d(3) by (simp add: compute_dominator_tree_def Let_def)
  have "(x \<in> chain da i) = doms g e (rpo ! x) (rpo ! i)" if "x < ?n" "i < ?n" for x i
  proof -
    have "reaches g e (rpo ! i)" using d(2) nth_mem[OF that(2)] by auto
    then show ?thesis
      using fixpoint_exact[OF r da(2,3) that(2), of x] avoid_path[OF assms rp(2) that(2,1)]
      by (auto simp: doms_def)
  qed
  then have "tree_of g e ?t rpo da" unfolding tree_of_def using rp(2) v p by simp
  then show ?thesis using c by blast
qed

end
