(* ===== verification/DomTree.thy ===== *)
theory DomTree
  imports Dominance
begin

text \<open>
  The queries of \<open>DomTree\<close> and \<open>PDomTree\<close> (\<^verbatim>\<open>src/src/graph/dominance.rs\<close>), the depth-first walk
  \<open>walk_dominance_tree\<close> with the walk results of \<^verbatim>\<open>src/src/graph/walkers.rs\<close>, and
  \<open>DomFrontierMap\<close>.

  The locale \<open>dominance_forest\<close> is the contract between the trees and their queries: each
  node's dominators are itself and its parent's dominators. The queries are proved correct
  once under it; it is interpreted on \<open>compute_dominator_tree\<close> here, and on
  \<open>compute_post_dominator_tree\<close> in the theory of the reverse graph.
\<close>

section \<open>The queries\<close>

abbreviation dt_lookup :: "'n dom_tree \<Rightarrow> 'n \<rightharpoonup> 'n dom_node" where
  "dt_lookup t \<equiv> map_of (dominators_map t)"

text \<open>
  The loop of \<open>dominates\<close>: a missing node ends the walk. The iterator of \<open>dominators\<close> is
  different: it indexes the map when it yields a node, so a missing node is a panic.
\<close>

partial_function (option) dominates_from :: "('n \<rightharpoonup> 'n dom_node) \<Rightarrow> 'n \<Rightarrow> 'n option \<Rightarrow> bool option" where
  "dominates_from m dominator node_opt =
     (case node_opt of
        None \<Rightarrow> Some False
      | Some node \<Rightarrow>
          if node = dominator then Some True
          else dominates_from m dominator (Option.bind (m node) dn_parent))"

declare dominates_from.simps [code]

definition dominates :: "'n dom_tree \<Rightarrow> 'n \<Rightarrow> 'n \<Rightarrow> bool option" where
  "dominates t dominator dominatee = dominates_from (dt_lookup t) dominator (Some dominatee)"

partial_function (option) ancestors :: "('n \<rightharpoonup> 'n dom_node) \<Rightarrow> 'n \<Rightarrow> 'n list option" where
  "ancestors m node = do {
     dn \<leftarrow> m node;
     (case dn_parent dn of
        None \<Rightarrow> Some [node]
      | Some p \<Rightarrow> do { rest \<leftarrow> ancestors m p; Some (node # rest) })
   }"

declare ancestors.simps [code]

partial_function (option) ancestors_find ::
    "('n \<rightharpoonup> 'n dom_node) \<Rightarrow> ('n \<Rightarrow> bool option) \<Rightarrow> 'n \<Rightarrow> 'n option option" where
  "ancestors_find m P node = do {
     dn \<leftarrow> m node;
     b \<leftarrow> P node;
     if b then Some (Some node)
     else (case dn_parent dn of None \<Rightarrow> Some None | Some p \<Rightarrow> ancestors_find m P p)
   }"

declare ancestors_find.simps [code]

partial_function (option) ancestors_take_while ::
    "('n \<rightharpoonup> 'n dom_node) \<Rightarrow> ('n \<Rightarrow> bool) \<Rightarrow> 'n \<Rightarrow> 'n list option" where
  "ancestors_take_while m P node = do {
     dn \<leftarrow> m node;
     if P node then
       (case dn_parent dn of
          None \<Rightarrow> Some [node]
        | Some p \<Rightarrow> do { rest \<leftarrow> ancestors_take_while m P p; Some (node # rest) })
     else Some []
   }"

declare ancestors_take_while.simps [code]

definition dominators :: "'n dom_tree \<Rightarrow> 'n \<Rightarrow> 'n list option" where
  "dominators t node = ancestors (dt_lookup t) node"

definition nearest_common_dominator :: "'n dom_tree \<Rightarrow> 'n \<Rightarrow> 'n \<Rightarrow> 'n option" where
  "nearest_common_dominator t node1 node2 =
     Option.bind (ancestors_find (dt_lookup t) (\<lambda>node1_dom. dominates t node1_dom node2) node1) id"

definition dt_contains :: "'n dom_tree \<Rightarrow> 'n \<Rightarrow> bool" where
  "dt_contains t node \<longleftrightarrow> dt_lookup t node \<noteq> None"

definition idom :: "'n dom_tree \<Rightarrow> 'n \<Rightarrow> 'n option option" where
  "idom t node = map_option dn_parent (dt_lookup t node)"

definition dt_children :: "'n dom_tree \<Rightarrow> 'n \<Rightarrow> 'n list option" where
  "dt_children t node = map_option dn_children (dt_lookup t node)"

definition dt_num_nodes :: "'n dom_tree \<Rightarrow> nat" where
  "dt_num_nodes t = length (dominators_map t)"

definition dt_nodes :: "'n dom_tree \<Rightarrow> 'n list" where
  "dt_nodes t = map fst (dominators_map t)"

section \<open>The contract of a dominance forest\<close>

locale dominance_forest =
  fixes ok :: "'g \<Rightarrow> bool"
    and lookup :: "'g \<Rightarrow> 'n \<rightharpoonup> 'n dom_node"
    and domrel :: "'g \<Rightarrow> 'n \<Rightarrow> 'n \<Rightarrow> bool"
    and rank :: "'g \<Rightarrow> 'n \<Rightarrow> nat"
  assumes root_law: "ok g \<Longrightarrow> lookup g v = Some dn \<Longrightarrow> dn_parent dn = None \<Longrightarrow> domrel g d v \<longleftrightarrow> d = v"
    and parent_law: "ok g \<Longrightarrow> lookup g v = Some dn \<Longrightarrow> dn_parent dn = Some p \<Longrightarrow>
      lookup g p \<noteq> None \<and> rank g p < rank g v \<and> (\<forall>d. domrel g d v \<longleftrightarrow> d = v \<or> domrel g d p)"
begin

lemma tree_induct [consumes 2, case_names root child]:
  assumes "ok g" and "lookup g v \<noteq> None"
    and "\<And>v dn. lookup g v = Some dn \<Longrightarrow> dn_parent dn = None \<Longrightarrow> Q v"
    and "\<And>v dn p. lookup g v = Some dn \<Longrightarrow> dn_parent dn = Some p \<Longrightarrow> lookup g p \<noteq> None \<Longrightarrow>
      Q p \<Longrightarrow> Q v"
  shows "Q v"
  using assms(2)
proof (induction "rank g v" arbitrary: v rule: less_induct)
  case less
  then obtain dn where dn: "lookup g v = Some dn" by blast
  show ?case
  proof (cases "dn_parent dn")
    case None
    then show ?thesis using assms(3)[OF dn] by blast
  next
    case (Some p)
    note l = parent_law[OF assms(1) dn Some]
    show ?thesis using assms(4)[OF dn Some] l less.hyps[of p] by blast
  qed
qed

lemma member_rank:
  assumes "ok g" and "lookup g v \<noteq> None"
  shows "domrel g d v \<Longrightarrow> lookup g d \<noteq> None \<and> (d = v \<or> rank g d < rank g v)"
  using assms
proof (induction v rule: tree_induct)
  case (root v dn)
  then show ?case using root_law[OF assms(1) root(1,2)] by simp
next
  case (child v dn p)
  then show ?case using parent_law[OF assms(1) child(1,2)] by fastforce
qed

lemma self_member: "ok g \<Longrightarrow> lookup g v \<noteq> None \<Longrightarrow> domrel g v v"
  using root_law parent_law by (cases "lookup g v"; cases "dn_parent (the (lookup g v))") auto

lemma immediate:
  assumes "ok g" and "lookup g v = Some dn"
  shows "dn_parent dn = None \<and> (\<forall>d. domrel g d v \<longleftrightarrow> d = v)
    \<or> (\<exists>p. dn_parent dn = Some p \<and> p \<noteq> v \<and> domrel g p v \<and> (\<forall>d. domrel g d v \<and> d \<noteq> v \<longrightarrow> domrel g d p))"
proof (cases "dn_parent dn")
  case None
  then show ?thesis using root_law[OF assms None] by simp
next
  case (Some p)
  note l = parent_law[OF assms Some]
  have "p \<noteq> v" using l by auto
  moreover have "domrel g p v" using l self_member[OF assms(1), of p] by simp
  ultimately show ?thesis using Some l by blast
qed

lemma dominates_from_correct:
  assumes "ok g" and "lookup g v \<noteq> None"
  shows "dominates_from (lookup g) d (Some v) = Some (domrel g d v)"
  using assms
proof (induction v rule: tree_induct)
  case (root v dn)
  then show ?case using root_law[OF assms(1) root(1,2), of d]
    by (simp add: dominates_from.simps[of "lookup g" d "Some v"] dominates_from.simps[of "lookup g" d None])
next
  case (child v dn p)
  then show ?case using parent_law[OF assms(1) child(1,2)]
    by (simp add: dominates_from.simps[of "lookup g" d "Some v"])
qed

lemma ancestors_correct:
  assumes "ok g" and "lookup g v \<noteq> None"
  shows "\<exists>ds. ancestors (lookup g) v = Some ds \<and> set ds = {d. domrel g d v} \<and> distinct ds
    \<and> ds \<noteq> [] \<and> hd ds = v \<and> (\<forall>as d bs. ds = as @ d # bs \<longrightarrow> set (d # bs) = {d'. domrel g d' d})"
  using assms
proof (induction v rule: tree_induct)
  case (root v dn)
  have "set [v] = {d. domrel g d v}" using root_law[OF assms(1) root(1,2)] by auto
  then show ?case using root by (intro exI[of _ "[v]"]) (auto simp: ancestors.simps[of _ v] Cons_eq_append_conv)
next
  case (child v dn p)
  note l = parent_law[OF assms(1) child(1,2)]
  obtain ds where ds: "ancestors (lookup g) p = Some ds" "set ds = {d. domrel g d p}" "distinct ds"
      "ds \<noteq> []" "hd ds = p" "\<forall>as d bs. ds = as @ d # bs \<longrightarrow> set (d # bs) = {d'. domrel g d' d}"
    using child(4) by blast
  have "v \<notin> set ds" using ds(2) l member_rank[OF assms(1) child(3), of v] by auto
  moreover have eq: "set (v # ds) = {d. domrel g d v}" using ds(2) l by auto
  moreover have "set (d # bs) = {d'. domrel g d' d}" if "v # ds = as @ d # bs" for as d bs
    using that ds(6) eq by (cases as) auto
  ultimately show ?case using ds(1,3) child(1,2)
    by (intro exI[of _ "v # ds"]) (simp add: ancestors.simps[of _ v])
qed

lemma ancestors_find_correct:
  assumes "ok g" and "lookup g v \<noteq> None" and P: "\<And>x. domrel g x v \<Longrightarrow> P x = Some (Q x)"
  shows "\<exists>r. ancestors_find (lookup g) P v = Some r
    \<and> (case r of None \<Rightarrow> \<forall>d. domrel g d v \<longrightarrow> \<not> Q d
       | Some c \<Rightarrow> domrel g c v \<and> Q c \<and> (\<forall>d. domrel g d v \<longrightarrow> Q d \<longrightarrow> domrel g d c))"
  using assms
proof (induction v rule: tree_induct)
  case (root v dn)
  note l = root_law[OF assms(1) root(1,2)]
  then have "P v = Some (Q v)" using root(3) by blast
  then show ?case using root(1,2) l
    by (cases "Q v") (auto simp: ancestors_find.simps[of _ _ v])
next
  case (child v dn p)
  note l = parent_law[OF assms(1) child(1,2), THEN conjunct2, THEN conjunct2, rule_format]
  have pv: "P v = Some (Q v)" using child(5) l by blast
  show ?case
  proof (cases "Q v")
    case True
    then show ?thesis using pv child(1,2) l by (auto simp: ancestors_find.simps[of _ _ v])
  next
    case False
    have "\<And>x. domrel g x p \<Longrightarrow> P x = Some (Q x)" using child(5) l by blast
    from child(4)[OF this] obtain r where r: "ancestors_find (lookup g) P p = Some r"
      "case r of None \<Rightarrow> \<forall>d. domrel g d p \<longrightarrow> \<not> Q d
         | Some c \<Rightarrow> domrel g c p \<and> Q c \<and> (\<forall>d. domrel g d p \<longrightarrow> Q d \<longrightarrow> domrel g d c)" by blast
    have "ancestors_find (lookup g) P v = Some r"
      using pv False child(1,2) r(1) by (simp add: ancestors_find.simps[of _ _ v])
    then show ?thesis using r(2) l False by (cases r) auto
  qed
qed

lemma ancestors_take_while_correct:
  assumes "ok g" and "lookup g v \<noteq> None"
  shows "ancestors_take_while (lookup g) P v = map_option (takeWhile P) (ancestors (lookup g) v)"
  using assms
proof (induction v rule: tree_induct)
  case (root v dn)
  then show ?case by (simp add: ancestors_take_while.simps[of _ _ v] ancestors.simps[of _ v])
next
  case (child v dn p)
  then show ?case using ancestors_correct[OF assms(1) child(3)]
    by (cases "ancestors (lookup g) p")
      (simp_all add: ancestors_take_while.simps[of _ _ v] ancestors.simps[of _ v])
qed

end

section \<open>The dominator tree keeps the contract\<close>

lemma tree_ofD:
  assumes "tree_of g e t rpo da"
  shows "rpo_of g e rpo" and "dom_valid (length rpo) da" and "i < length rpo \<Longrightarrow> processed da i"
    and "x < length rpo \<Longrightarrow> i < length rpo \<Longrightarrow> x \<in> chain da i \<longleftrightarrow> doms g e (rpo ! x) (rpo ! i)"
    and "dt_root t = Some e"
    and "dominators_map t = map (\<lambda>i. (rpo ! i, node_at rpo da (length rpo) i)) [0..<length rpo]"
  using assms by (auto simp: tree_of_def)

lemma tree_keys: "tree_of g e t rpo da \<Longrightarrow> map fst (dominators_map t) = rpo"
  by (simp add: tree_ofD(6) comp_def map_nth)

lemma tree_lookup:
  assumes t: "tree_of g e t rpo da"
  shows "dt_lookup t v = Some dn \<longleftrightarrow> (\<exists>i < length rpo. rpo ! i = v \<and> dn = node_at rpo da (length rpo) i)"
proof -
  have "distinct (map fst (dominators_map t))" using tree_keys[OF t] rpo_ofD(1)[OF tree_ofD(1)[OF t]] by simp
  then have "dt_lookup t v = Some dn \<longleftrightarrow> (v, dn) \<in> set (dominators_map t)" by simp
  then show ?thesis by (auto simp: tree_ofD(6)[OF t])
qed

lemma tree_contains:
  assumes t: "tree_of g e t rpo da"
  shows "dt_lookup t v \<noteq> None \<longleftrightarrow> reaches g e v"
proof -
  have "dt_lookup t v \<noteq> None \<longleftrightarrow> v \<in> set (map fst (dominators_map t))"
    by (simp add: map_of_eq_None_iff)
  then show ?thesis using tree_keys[OF t] rpo_ofD(2)[OF tree_ofD(1)[OF t]] by simp
qed

definition tree_rank :: "'n dom_tree \<Rightarrow> 'n \<Rightarrow> nat" where
  "tree_rank t v = (LEAST i. i < dt_num_nodes t \<and> dt_nodes t ! i = v)"

lemma tree_rank_nth:
  assumes t: "tree_of g e t rpo da" and i: "i < length rpo"
  shows "tree_rank t (rpo ! i) = i"
  unfolding tree_rank_def
proof (rule Least_equality)
  have n: "dt_num_nodes t = length rpo" "dt_nodes t = rpo"
    using tree_keys[OF t] by (auto simp: dt_num_nodes_def dt_nodes_def dest: arg_cong[where f = length])
  show "i < dt_num_nodes t \<and> dt_nodes t ! i = rpo ! i" using n i by simp
  fix j
  assume "j < dt_num_nodes t \<and> dt_nodes t ! j = rpo ! i"
  then show "i \<le> j" using nth_eq_iff_index_eq[OF rpo_ofD(1)[OF tree_ofD(1)[OF t]]] n i by auto
qed

lemma tree_root_law:
  assumes t: "tree_of g e t rpo da" and "dt_lookup t v = Some dn" and "dn_parent dn = None"
  shows "doms g e d v \<longleftrightarrow> d = v"
proof -
  obtain i where i: "i < length rpo" "rpo ! i = v" "dn = node_at rpo da (length rpo) i"
    using assms(2) tree_lookup[OF t] by blast
  have "i = 0" using assms(3) i(1,3) tree_ofD(3)[OF t i(1)] by (auto simp: node_at_def processed_def split: if_splits)
  then have v: "v = e" using rpo_ofD(4)[OF tree_ofD(1)[OF t]] i(2) by simp
  have "d \<in> set [e]" if "doms g e d e"
    using that is_path.simps(2)[of g e e e] unfolding doms_def by blast
  then show ?thesis unfolding v using doms_refl[OF reaches_refl, of g e] by auto
qed

lemma tree_parent_law:
  assumes t: "tree_of g e t rpo da" and "dt_lookup t v = Some dn" and "dn_parent dn = Some p"
  shows "dt_lookup t p \<noteq> None \<and> tree_rank t p < tree_rank t v
    \<and> (\<forall>d. doms g e d v \<longleftrightarrow> d = v \<or> doms g e d p)"
proof -
  note v = tree_ofD(2)[OF t] and rp = rpo_ofD[OF tree_ofD(1)[OF t]]
  obtain i where i: "i < length rpo" "rpo ! i = v" "dn = node_at rpo da (length rpo) i"
    using assms(2) tree_lookup[OF t] by blast
  obtain k where k: "0 < i" "da ! i = Some k" "p = rpo ! k"
    using assms(3) i(3) by (auto simp: node_at_def split: if_splits)
  have kl: "k < i" "k < length rpo" using dom_validD(4)[OF v k(1) i(1) k(2)] i(1) by auto
  have "p \<in> set rpo" using k(3) kl by simp
  then have "reaches g e p" using rp(2) by simp
  moreover have "doms g e d v \<longleftrightarrow> d = v \<or> doms g e d p" for d
  proof (cases "reaches g e d")
    case True
    then obtain x where x: "x < length rpo" "rpo ! x = d" using rp(2) by (metis in_set_conv_nth mem_Collect_eq)
    have "x = i \<longleftrightarrow> d = v" using nth_eq_iff_index_eq[OF rp(1) x(1) i(1)] x(2) i(2) by simp
    then show ?thesis
      using tree_ofD(4)[OF t x(1) i(1)] tree_ofD(4)[OF t x(1) kl(2)] chain_unfold[OF k(1,2)] x(2) i(2) k(3)
      by auto
  next
    case False
    then show ?thesis using doms_reachable rp(2) nth_mem[OF i(1)] i(2) by fastforce
  qed
  ultimately show ?thesis
    using tree_contains[OF t] tree_rank_nth[OF t] i(1,2) k(3) kl by auto
qed

definition has_entry :: "'n cfg \<Rightarrow> bool" where
  "has_entry g \<longleftrightarrow> wf_cfg g \<and> entry_node g \<noteq> None"

definition the_dom_tree :: "'n cfg \<Rightarrow> 'n dom_tree" where
  "the_dom_tree g = the (compute_dominator_tree g)"

lemma the_dom_tree:
  assumes "has_entry g"
  shows "\<exists>rpo da. compute_dominator_tree g = Some (the_dom_tree g)
    \<and> tree_of g (the (entry_node g)) (the_dom_tree g) rpo da"
proof -
  obtain e where "wf_cfg g" "entry_node g = Some e" using assms by (auto simp: has_entry_def)
  then obtain t rpo da where "compute_dominator_tree g = Some t" "tree_of g e t rpo da" "entry_node g = Some e"
    using compute_dominator_tree_of[of g e] by blast
  then show ?thesis by (intro exI[of _ rpo] exI[of _ da]) (simp add: the_dom_tree_def)
qed

interpretation dom: dominance_forest has_entry "\<lambda>g. dt_lookup (the_dom_tree g)"
  "\<lambda>g. doms g (the (entry_node g))" "\<lambda>g. tree_rank (the_dom_tree g)"
proof unfold_locales
  fix g :: "'a cfg" and v dn d
  assume a: "has_entry g" "dt_lookup (the_dom_tree g) v = Some dn" "dn_parent dn = None"
  obtain rpo da where "tree_of g (the (entry_node g)) (the_dom_tree g) rpo da" using the_dom_tree[OF a(1)] by blast
  from tree_root_law[OF this a(2,3)] show "doms g (the (entry_node g)) d v \<longleftrightarrow> d = v" .
next
  fix g :: "'a cfg" and v dn p
  assume a: "has_entry g" "dt_lookup (the_dom_tree g) v = Some dn" "dn_parent dn = Some p"
  obtain rpo da where "tree_of g (the (entry_node g)) (the_dom_tree g) rpo da" using the_dom_tree[OF a(1)] by blast
  from tree_parent_law[OF this a(2,3)] show "dt_lookup (the_dom_tree g) p \<noteq> None \<and> tree_rank (the_dom_tree g) p < tree_rank (the_dom_tree g) v
    \<and> (\<forall>d. doms g (the (entry_node g)) d v \<longleftrightarrow> d = v \<or> doms g (the (entry_node g)) d p)" .
qed

lemma dom_tree_obtain:
  assumes "wf_cfg g" and "entry_node g = Some e"
  obtains t rpo da where "compute_dominator_tree g = Some t" and "tree_of g e t rpo da"
    and "has_entry g" and "the_dom_tree g = t" and "the (entry_node g) = e"
  using compute_dominator_tree_of[OF assms] assms by (auto simp: has_entry_def the_dom_tree_def)

lemma dominates_total:
  assumes "wf_cfg g" and "entry_node g = Some e"
  shows "\<exists>t. compute_dominator_tree g = Some t \<and> (\<forall>d v. dominates t d v =
    Some (if reaches g e v then \<forall>p. is_path g e p v \<longrightarrow> d \<in> set p else d = v))"
proof -
  obtain t rpo da where t: "compute_dominator_tree g = Some t" "tree_of g e t rpo da" "has_entry g"
      "the_dom_tree g = t" "the (entry_node g) = e" using dom_tree_obtain[OF assms] .
  have "dominates t d v = Some (if reaches g e v then \<forall>p. is_path g e p v \<longrightarrow> d \<in> set p else d = v)" for d v
  proof (cases "reaches g e v")
    case True
    then have "dt_lookup (the_dom_tree g) v \<noteq> None" using tree_contains[OF t(2)] t(4) by simp
    from dom.dominates_from_correct[OF t(3) this] show ?thesis
      using True t(4,5) by (simp add: dominates_def doms_def)
  next
    case False
    then have n: "dt_lookup t v = None" using tree_contains[OF t(2), of v] by blast
    then show ?thesis using False
      by (simp add: dominates_def dominates_from.simps[of _ d "Some v"] dominates_from.simps[of _ d None])
  qed
  then show ?thesis using t(1) by blast
qed

text \<open>
  C1. For every well-formed graph \<open>compute_dominator_tree\<close> returns, and the tree's \<open>dominates\<close>
  query is dominance: for a node the entry reaches it answers whether every path from the entry
  passes through the dominator; for any other node it is true of that node only.
\<close>

theorem dominates_correct:
  assumes "wf_cfg g" and "entry_node g = Some e"
  shows "\<exists>t. compute_dominator_tree g = Some t \<and> (\<forall>d v. dominates t d v =
    Some (if reaches g e v then \<forall>p. is_path g e p v \<longrightarrow> d \<in> set p else d = v))"
  by (rule dominates_total[OF assms])

lemma demo_reaches: "reaches demo_cfg 10 11" "reaches demo_cfg 10 13" "reaches demo_cfg 10 14"
proof -
  have e: "edge demo_cfg 10 11" "edge demo_cfg 11 13" "edge demo_cfg 13 14"
    by (simp_all add: edge_def demo_cfg_def cfg_of_successors)
  show "reaches demo_cfg 10 11" using reaches_edge[OF e(1)] .
  then show "reaches demo_cfg 10 13" using reaches_step e(2) by fast
  then show "reaches demo_cfg 10 14" using reaches_step e(3) by fast
qed

theorem dominates_correct_witness:
  "\<exists>t. compute_dominator_tree demo_cfg = Some t \<and> dominates t 10 13 = Some True"
proof -
  have "10 \<in> set p" if "is_path demo_cfg 10 p 13" for p using is_path_ends[OF that] hd_in_set by metis
  then show ?thesis
    using dominates_correct[OF demo_cfg_wf demo_cfg_entry] demo_reaches by auto
qed

lemma tree_idom:
  assumes t: "tree_of g e t rpo da" and v: "reaches g e v"
  shows "v = e \<and> idom t v = Some None
    \<or> v \<noteq> e \<and> (\<exists>d. idom t v = Some (Some d) \<and> d \<noteq> v \<and> doms g e d v
        \<and> (\<forall>d'. doms g e d' v \<longrightarrow> d' \<noteq> v \<longrightarrow> doms g e d' d))"
proof -
  note rp = rpo_ofD[OF tree_ofD(1)[OF t]]
  obtain i where i: "i < length rpo" "rpo ! i = v" using rp(2) v by (metis in_set_conv_nth mem_Collect_eq)
  let ?dn = "node_at rpo da (length rpo) i"
  have l: "dt_lookup t v = Some ?dn" using tree_lookup[OF t] i by blast
  have eq: "v = e \<longleftrightarrow> i = 0" using nth_eq_iff_index_eq[OF rp(1) i(1) rp(3)] rp(4) i(2) by simp
  show ?thesis
  proof (cases "i = 0")
    case True
    then show ?thesis using l eq by (simp add: idom_def node_at_def)
  next
    case False
    then obtain k where k: "da ! i = Some k" using tree_ofD(3)[OF t i(1)] by (auto simp: processed_def)
    have p: "dn_parent ?dn = Some (rpo ! k)" using False k by (simp add: node_at_def)
    note law = tree_parent_law[OF t l p]
    have "rpo ! k \<noteq> v" using law by auto
    moreover have "reaches g e (rpo ! k)" using law tree_contains[OF t, of "rpo ! k"] by simp
    then have "doms g e (rpo ! k) v" using law doms_refl[of g e "rpo ! k"] by simp
    moreover have "idom t v = Some (Some (rpo ! k))" using l p by (simp add: idom_def)
    moreover have "\<forall>d'. doms g e d' v \<longrightarrow> d' \<noteq> v \<longrightarrow> doms g e d' (rpo ! k)" using law by simp
    moreover have "v \<noteq> e" using eq False by simp
    ultimately show ?thesis by blast
  qed
qed

lemma tree_children:
  assumes t: "tree_of g e t rpo da" and v: "reaches g e v"
  shows "\<exists>cs. dt_children t v = Some cs \<and> distinct cs \<and> set cs = {c. idom t c = Some (Some v)}"
proof -
  note rp = rpo_ofD[OF tree_ofD(1)[OF t]]
  let ?n = "length rpo"
  obtain i where i: "i < ?n" "rpo ! i = v" using rp(2) v by (metis in_set_conv_nth mem_Collect_eq)
  let ?cs = "map ((!) rpo) (filter (\<lambda>c. da ! c = Some i) [1..<?n])"
  have "dt_lookup t v = Some (node_at rpo da ?n i)" using tree_lookup[OF t, of v] i by blast
  then have l: "dt_children t v = Some ?cs" by (simp add: dt_children_def node_at_def)
  have "distinct ?cs" using rp(1) by (auto simp: distinct_map inj_on_def nth_eq_iff_index_eq)
  moreover have "c \<in> set ?cs \<longleftrightarrow> idom t c = Some (Some v)" for c
  proof
    assume "c \<in> set ?cs"
    then obtain j where j: "0 < j" "j < ?n" "da ! j = Some i" "c = rpo ! j" by (auto simp: Suc_le_eq)
    then have "dt_lookup t c = Some (node_at rpo da ?n j)" using tree_lookup[OF t] by blast
    then show "idom t c = Some (Some v)" using j i by (simp add: idom_def node_at_def)
  next
    assume "idom t c = Some (Some v)"
    then obtain dn where dn: "dt_lookup t c = Some dn" "dn_parent dn = Some v" by (auto simp: idom_def)
    obtain j where j: "j < ?n" "rpo ! j = c" "dn = node_at rpo da ?n j"
      using dn(1) tree_lookup[OF t] by blast
    obtain k where k: "0 < j" "da ! j = Some k" "v = rpo ! k"
      using dn(2) j(3) by (auto simp: node_at_def split: if_splits)
    have "k < ?n" using dom_validD(4)[OF tree_ofD(2)[OF t] k(1) j(1) k(2)] j(1) by simp
    then have "k = i" using nth_eq_iff_index_eq[OF rp(1) _ i(1), of k] k(3) i(2) by simp
    then show "c \<in> set ?cs" using j(1,2) k by force
  qed
  ultimately show ?thesis using l by blast
qed

text \<open>
  C12. The tree's shape: its nodes are exactly the reachable ones, listed once; the entry is the root
  and has no immediate dominator; any other node's \<open>idom\<close> is its strict dominator that all its
  strict dominators dominate; \<open>children\<close> inverts \<open>idom\<close>; and \<open>dominators\<close> lists all
  dominators once, the node first.
\<close>

theorem dominator_tree_shape:
  assumes "wf_cfg g" and "entry_node g = Some e"
  shows "\<exists>t. compute_dominator_tree g = Some t \<and> dt_root t = Some e \<and> distinct (dt_nodes t)
    \<and> set (dt_nodes t) = {v. reaches g e v} \<and> idom t e = Some None
    \<and> (\<forall>v. reaches g e v \<longrightarrow>
        (v \<noteq> e \<longrightarrow> (\<exists>d. idom t v = Some (Some d) \<and> d \<noteq> v \<and> doms g e d v
          \<and> (\<forall>d'. doms g e d' v \<longrightarrow> d' \<noteq> v \<longrightarrow> doms g e d' d)))
        \<and> (\<exists>cs. dt_children t v = Some cs \<and> distinct cs \<and> set cs = {c. idom t c = Some (Some v)})
        \<and> (\<exists>ds. dominators t v = Some ds \<and> distinct ds \<and> hd ds = v \<and> set ds = {d. doms g e d v}))"
proof -
  obtain t rpo da where t: "compute_dominator_tree g = Some t" "tree_of g e t rpo da" "has_entry g"
      "the_dom_tree g = t" "the (entry_node g) = e" using dom_tree_obtain[OF assms] .
  have nodes: "dt_nodes t = rpo" using tree_keys[OF t(2)] by (simp add: dt_nodes_def)
  have ds: "\<exists>ds. dominators t v = Some ds \<and> distinct ds \<and> hd ds = v \<and> set ds = {d. doms g e d v}"
    if "reaches g e v" for v
    using dom.ancestors_correct[OF t(3), of v] tree_contains[OF t(2), of v] that t(4,5)
    by (auto simp: dominators_def)
  have ie: "idom t e = Some None" using tree_idom[OF t(2), of e] by simp
  have "(v \<noteq> e \<longrightarrow> (\<exists>d. idom t v = Some (Some d) \<and> d \<noteq> v \<and> doms g e d v
          \<and> (\<forall>d'. doms g e d' v \<longrightarrow> d' \<noteq> v \<longrightarrow> doms g e d' d)))
        \<and> (\<exists>cs. dt_children t v = Some cs \<and> distinct cs \<and> set cs = {c. idom t c = Some (Some v)})
        \<and> (\<exists>ds. dominators t v = Some ds \<and> distinct ds \<and> hd ds = v \<and> set ds = {d. doms g e d v})"
    if "reaches g e v" for v
  proof (intro conjI impI)
    show "\<exists>d. idom t v = Some (Some d) \<and> d \<noteq> v \<and> doms g e d v
        \<and> (\<forall>d'. doms g e d' v \<longrightarrow> d' \<noteq> v \<longrightarrow> doms g e d' d)" if "v \<noteq> e"
      using tree_idom[OF t(2) \<open>reaches g e v\<close>] that by blast
  qed (use tree_children[OF t(2) that] ds[OF that] in blast)+
  then show ?thesis using t(1) tree_ofD(5)[OF t(2)] nodes ie rpo_ofD(1,2)[OF tree_ofD(1)[OF t(2)]] by auto
qed

theorem dominator_tree_shape_witness:
  "\<exists>t. compute_dominator_tree demo_cfg = Some t \<and> dt_root t = Some 10
     \<and> (\<exists>cs. dt_children t 13 = Some cs \<and> set cs = {c. idom t c = Some (Some 13)})"
  using dominator_tree_shape[OF demo_cfg_wf demo_cfg_entry] demo_reaches(2) by fast

text \<open>
  For two reachable nodes \<open>nearest_common_dominator\<close> does not panic, and its answer dominates
  both nodes and is dominated by every node that does.
\<close>

theorem nearest_common_dominator_correct:
  assumes "wf_cfg g" and "entry_node g = Some e" and "reaches g e n1" and "reaches g e n2"
  shows "\<exists>t c. compute_dominator_tree g = Some t \<and> nearest_common_dominator t n1 n2 = Some c
    \<and> doms g e c n1 \<and> doms g e c n2 \<and> (\<forall>d. doms g e d n1 \<and> doms g e d n2 \<longrightarrow> doms g e d c)"
proof -
  obtain t rpo da where t: "compute_dominator_tree g = Some t" "tree_of g e t rpo da" "has_entry g"
      "the_dom_tree g = t" "the (entry_node g) = e" using dom_tree_obtain[OF assms(1,2)] .
  have n: "dt_lookup t n1 \<noteq> None" "dt_lookup t n2 \<noteq> None" using tree_contains[OF t(2)] assms(3,4) by simp_all
  have P: "dominates t x n2 = Some (doms g e x n2)" for x
    using dom.dominates_from_correct[OF t(3), of n2 x] n(2) t(4,5) by (simp add: dominates_def)
  obtain r where r: "ancestors_find (dt_lookup t) (\<lambda>x. dominates t x n2) n1 = Some r"
      "case r of None \<Rightarrow> \<forall>d. doms g e d n1 \<longrightarrow> \<not> doms g e d n2
       | Some c \<Rightarrow> doms g e c n1 \<and> doms g e c n2 \<and> (\<forall>d. doms g e d n1 \<longrightarrow> doms g e d n2 \<longrightarrow> doms g e d c)"
    using dom.ancestors_find_correct[OF t(3), of n1 "\<lambda>x. dominates t x n2" "\<lambda>x. doms g e x n2"]
      n(1) P t(4,5) by auto
  have "e \<in> set p" if "is_path g e p v" for p v using is_path_ends[OF that] by (metis hd_in_set)
  then have "doms g e e n1" "doms g e e n2" using assms(3,4) by (auto simp: doms_def)
  then obtain c where "r = Some c" using r(2) by (cases r) auto
  then show ?thesis using r t(1) by (auto simp: nearest_common_dominator_def)
qed

theorem nearest_common_dominator_correct_witness:
  "\<exists>t c. compute_dominator_tree demo_cfg = Some t \<and> nearest_common_dominator t 11 14 = Some c
    \<and> doms demo_cfg 10 c 11 \<and> doms demo_cfg 10 c 14"
  using nearest_common_dominator_correct[OF demo_cfg_wf demo_cfg_entry demo_reaches(1,3)] by blast

section \<open>Interruptible depth-first walk\<close>

datatype walk_continue = Advance | Skip

datatype 'b walk_result = Break 'b | Continue walk_continue

datatype direction = Forward | Reverse

datatype 'n visit = Pre 'n | Post 'n

text \<open>The stack's top, the end of the source's vector, is the head of the list.\<close>

fun push_siblings :: "'n visit list \<Rightarrow> 'n list \<Rightarrow> direction \<Rightarrow> 'n visit list" where
  "push_siblings stack siblings Forward = fold (\<lambda>n st. Pre n # st) (rev siblings) stack"
| "push_siblings stack siblings Reverse = fold (\<lambda>n st. Pre n # st) siblings stack"

partial_function (option) walk_loop ::
    "('n \<rightharpoonup> 'n dom_node) \<Rightarrow> direction \<Rightarrow> ('s \<Rightarrow> 'n \<Rightarrow> ('s \<times> 'b walk_result) option) \<Rightarrow>
     ('s \<Rightarrow> 'n \<Rightarrow> ('s \<times> 'b walk_result) option) \<Rightarrow> 's \<Rightarrow> 'n visit list \<Rightarrow> ('s \<times> 'b walk_result) option" where
  "walk_loop m dir pre post s stack =
     (case stack of
        [] \<Rightarrow> Some (s, Continue Advance)
      | Pre node # rest \<Rightarrow> do {
          (s, r) \<leftarrow> pre s node;
          (case r of
             Break b \<Rightarrow> Some (s, Break b)
           | Continue Skip \<Rightarrow> walk_loop m dir pre post s rest
           | Continue Advance \<Rightarrow> do {
               dn \<leftarrow> m node;
               walk_loop m dir pre post s (push_siblings (Post node # rest) (dn_children dn) dir)
             })
        }
      | Post node # rest \<Rightarrow> do {
          (s, r) \<leftarrow> post s node;
          (case r of
             Break b \<Rightarrow> Some (s, Break b)
           | Continue _ \<Rightarrow> walk_loop m dir pre post s rest)
        })"

declare walk_loop.simps [code]

definition walk_dominance_tree ::
    "('n \<rightharpoonup> 'n dom_node) \<Rightarrow> 'n list \<Rightarrow> direction \<Rightarrow> ('s \<Rightarrow> 'n \<Rightarrow> ('s \<times> 'b walk_result) option) \<Rightarrow>
     ('s \<Rightarrow> 'n \<Rightarrow> ('s \<times> 'b walk_result) option) \<Rightarrow> 's \<Rightarrow> ('s \<times> 'b walk_result) option" where
  "walk_dominance_tree m roots dir pre post s = walk_loop m dir pre post s (push_siblings [] roots dir)"

definition dt_walk ::
    "'n dom_tree \<Rightarrow> direction \<Rightarrow> ('s \<Rightarrow> 'n \<Rightarrow> ('s \<times> 'b walk_result) option) \<Rightarrow>
     ('s \<Rightarrow> 'n \<Rightarrow> ('s \<times> 'b walk_result) option) \<Rightarrow> 's \<Rightarrow> ('s \<times> 'b walk_result) option" where
  "dt_walk t dir pre post s =
     walk_dominance_tree (dt_lookup t) (case dt_root t of None \<Rightarrow> [] | Some r \<Rightarrow> [r]) dir pre post s"

text \<open>
  The specification: recursion over rose trees. \<open>Skip\<close> before the children skips them and the
  second callback; \<open>Break\<close> ends everything with the state reached.
\<close>

datatype 'n rtree = RNode (rt_root: 'n) (rt_children: "'n rtree list")

definition sibling_order :: "direction \<Rightarrow> 'a list \<Rightarrow> 'a list" where
  "sibling_order dir xs = (case dir of Forward \<Rightarrow> xs | Reverse \<Rightarrow> rev xs)"

lemma sibling_order_size [simp]: "size_list f (sibling_order dir xs) = size_list f xs"
  by (cases dir) (simp_all add: sibling_order_def size_list_conv_sum_list rev_map[symmetric])

function walk_forest ::
    "direction \<Rightarrow> ('s \<Rightarrow> 'n \<Rightarrow> ('s \<times> 'b walk_result) option) \<Rightarrow>
     ('s \<Rightarrow> 'n \<Rightarrow> ('s \<times> 'b walk_result) option) \<Rightarrow> 's \<Rightarrow> 'n rtree list \<Rightarrow> ('s \<times> 'b walk_result) option" where
  "walk_forest dir pre post s [] = Some (s, Continue Advance)"
| "walk_forest dir pre post s (RNode node ts # rest) = do {
     (s, r) \<leftarrow> pre s node;
     (case r of
        Break b \<Rightarrow> Some (s, Break b)
      | Continue Skip \<Rightarrow> walk_forest dir pre post s rest
      | Continue Advance \<Rightarrow> do {
          (s, r) \<leftarrow> walk_forest dir pre post s (sibling_order dir ts);
          (case r of
             Break b \<Rightarrow> Some (s, Break b)
           | Continue _ \<Rightarrow> do {
               (s, r) \<leftarrow> post s node;
               (case r of
                  Break b \<Rightarrow> Some (s, Break b)
                | Continue _ \<Rightarrow> walk_forest dir pre post s rest)
             })
        })
   }"
  by pat_completeness auto
termination
  by (relation "measure (\<lambda>(dir, pre, post, s, f). size_list size f)") auto

fun tree_in :: "('n \<rightharpoonup> 'n dom_node) \<Rightarrow> 'n rtree \<Rightarrow> bool" where
  "tree_in m (RNode n ts) \<longleftrightarrow>
     (\<exists>dn. m n = Some dn \<and> dn_children dn = map rt_root ts) \<and> (\<forall>t \<in> set ts. tree_in m t)"

fun rt_nodes :: "'n rtree \<Rightarrow> 'n list" where
  "rt_nodes (RNode n ts) = n # concat (map rt_nodes ts)"

lemma push_siblings_order: "push_siblings stack xs dir = map Pre (sibling_order dir xs) @ stack"
proof -
  have "fold (\<lambda>n st. Pre n # st) ys stack = map Pre (rev ys) @ stack" for ys :: "'a list"
    by (induction ys arbitrary: stack) auto
  then show ?thesis by (cases dir) (simp_all add: sibling_order_def)
qed

lemma sibling_order_map: "sibling_order dir (map f xs) = map f (sibling_order dir xs)"
  by (cases dir) (simp_all add: sibling_order_def rev_map)

lemma set_sibling_order [simp]: "set (sibling_order dir xs) = set xs"
  by (cases dir) (simp_all add: sibling_order_def)

definition after_walk ::
    "('s \<times> 'b walk_result) option \<Rightarrow> ('s \<Rightarrow> ('s \<times> 'b walk_result) option) \<Rightarrow> ('s \<times> 'b walk_result) option" where
  "after_walk w k = Option.bind w (\<lambda>(s, r). case r of Break b \<Rightarrow> Some (s, Break b) | Continue _ \<Rightarrow> k s)"

lemma after_walk_simps [simp]:
  "after_walk None k = None"
  "after_walk (Some (s, Break b)) k = Some (s, Break b)"
  "after_walk (Some (s, Continue c)) k = k s"
  by (simp_all add: after_walk_def)

lemma after_walk_assoc: "after_walk (after_walk w k) k' = after_walk w (\<lambda>s. after_walk (k s) k')"
  by (auto simp: after_walk_def split: Option.bind_splits walk_result.splits)

lemma walk_forest_Cons:
  "walk_forest dir pre post s (RNode node ts # rest) = Option.bind (pre s node) (\<lambda>(s, r). case r of
     Break b \<Rightarrow> Some (s, Break b)
   | Continue Skip \<Rightarrow> walk_forest dir pre post s rest
   | Continue Advance \<Rightarrow> after_walk (walk_forest dir pre post s (sibling_order dir ts))
       (\<lambda>s. after_walk (post s node) (\<lambda>s. walk_forest dir pre post s rest)))"
  unfolding after_walk_def by simp

lemma walk_loop_Post:
  "walk_loop m dir pre post s (Post node # stack) =
    after_walk (post s node) (\<lambda>s. walk_loop m dir pre post s stack)"
  by (simp add: after_walk_def walk_loop.simps[of m dir pre post s "Post node # stack"])

lemma walk_loop_forest:
  "\<forall>t \<in> set f. tree_in m t \<Longrightarrow>
    walk_loop m dir pre post s (map Pre (map rt_root f) @ stack) =
      after_walk (walk_forest dir pre post s f) (\<lambda>s. walk_loop m dir pre post s stack)"
proof (induction "size_list size f" arbitrary: f s stack rule: less_induct)
  case less
  show ?case
  proof (cases f)
    case (Cons t rest)
    obtain node ts where t: "t = RNode node ts" by (cases t)
    obtain dn where dn: "m node = Some dn" "dn_children dn = map rt_root ts" and sub: "\<forall>t \<in> set ts. tree_in m t"
      using less.prems Cons t by auto
    let ?st = "map Pre (map rt_root rest) @ stack"
    have rest: "walk_loop m dir pre post s' ?st =
        after_walk (walk_forest dir pre post s' rest) (\<lambda>s. walk_loop m dir pre post s stack)" for s'
      using less.hyps[of rest] less.prems Cons t by simp
    have kids: "walk_loop m dir pre post s' (map Pre (map rt_root (sibling_order dir ts)) @ Post node # ?st) =
        after_walk (walk_forest dir pre post s' (sibling_order dir ts))
          (\<lambda>s. walk_loop m dir pre post s (Post node # ?st))" for s'
      by (rule less.hyps) (use sub Cons t in simp_all)
    have "walk_loop m dir pre post s (Pre node # ?st) = Option.bind (pre s node) (\<lambda>(s, r). case r of
       Break b \<Rightarrow> Some (s, Break b)
     | Continue Skip \<Rightarrow> walk_loop m dir pre post s ?st
     | Continue Advance \<Rightarrow> walk_loop m dir pre post s (map Pre (map rt_root (sibling_order dir ts)) @ Post node # ?st))"
      by (simp add: walk_loop.simps[of m dir pre post s "Pre node # _"] dn push_siblings_order
          sibling_order_map cong: option.case_cong walk_result.case_cong walk_continue.case_cong)
    also have "\<dots> = after_walk (walk_forest dir pre post s f) (\<lambda>s. walk_loop m dir pre post s stack)"
      unfolding Cons t walk_forest_Cons kids rest walk_loop_Post
      by (cases "pre s node") (auto simp: after_walk_assoc split: walk_result.split walk_continue.split)
    finally show ?thesis using Cons t by simp
  qed (simp add: after_walk_def)
qed

lemma map_rt_root_choice:
  "\<forall>x \<in> set xs. rt_root (f x) = h x \<Longrightarrow> map rt_root (map f xs) = map h xs"
  by simp

text \<open>The subtree under number \<open>i\<close> holds the nodes whose chain contains \<open>i\<close>.\<close>

lemma tree_of_rtree:
  assumes t: "tree_of g e t rpo da"
  shows "i < length rpo \<Longrightarrow> \<exists>T. rt_root T = rpo ! i \<and> tree_in (dt_lookup t) T \<and> distinct (rt_nodes T)
    \<and> set (rt_nodes T) = (!) rpo ` {j. j < length rpo \<and> i \<in> chain da j}"
proof (induction "length rpo - i" arbitrary: i rule: less_induct)
  case less
  let ?n = "length rpo"
  note v = tree_ofD(2)[OF t] and d = rpo_ofD(1)[OF tree_ofD(1)[OF t]]
  define cs where "cs = filter (\<lambda>c. da ! c = Some i) [1..<?n]"
  have cs: "c \<in> set cs \<longleftrightarrow> 0 < c \<and> c < ?n \<and> da ! c = Some i" for c by (auto simp: cs_def)
  have "\<forall>c \<in> set cs. \<exists>T. rt_root T = rpo ! c \<and> tree_in (dt_lookup t) T \<and> distinct (rt_nodes T)
      \<and> set (rt_nodes T) = (!) rpo ` {j. j < ?n \<and> c \<in> chain da j}"
  proof
    fix c
    assume "c \<in> set cs"
    then have c: "0 < c" "c < ?n" "da ! c = Some i" using cs by auto
    then have "i < c" using dom_validD(4)[OF v] by blast
    then have "?n - c < ?n - i" using c(2) by simp
    then show "\<exists>T. rt_root T = rpo ! c \<and> tree_in (dt_lookup t) T \<and> distinct (rt_nodes T)
      \<and> set (rt_nodes T) = (!) rpo ` {j. j < ?n \<and> c \<in> chain da j}"
      using less.hyps c(2) by blast
  qed
  from bchoice[OF this] obtain F where F: "\<forall>c \<in> set cs. rt_root (F c) = rpo ! c \<and> tree_in (dt_lookup t) (F c)
      \<and> distinct (rt_nodes (F c)) \<and> set (rt_nodes (F c)) = (!) rpo ` {j. j < ?n \<and> c \<in> chain da j}"
    by blast
  have Fs: "w \<in> set (rt_nodes (F c)) \<Longrightarrow> \<exists>j < ?n. c \<in> chain da j \<and> w = rpo ! j" if "c \<in> set cs" for c w
    using F that by blast
  let ?T = "RNode (rpo ! i) (map F cs)"
  have dn: "dt_lookup t (rpo ! i) = Some (node_at rpo da ?n i)" using tree_lookup[OF t] less.prems by blast
  have kids: "dn_children (node_at rpo da ?n i) = map rt_root (map F cs)"
    using F by (simp add: node_at_def cs_def)
  have inj: "rpo ! a = rpo ! b \<longleftrightarrow> a = b" if "a < ?n" "b < ?n" for a b
    using nth_eq_iff_index_eq[OF d] that by simp
  have disj: "c = c'" if "c \<in> set cs" "c' \<in> set cs" "j < ?n" "c \<in> chain da j" "c' \<in> chain da j" for c c' j
  proof -
    have le: "a = b" if ab: "a \<in> set cs" "b \<in> set cs" "a \<in> chain da j" "b \<in> chain da j" "a \<le> b" for a b
    proof (rule ccontr)
      assume "a \<noteq> b"
      moreover have "a \<in> chain da b" using chain_linear[OF v \<open>j < ?n\<close> ab(3,4,5)] .
      ultimately have "a \<in> chain da i" using chain_unfold[of b da i] ab(2) cs by auto
      then have "a \<le> i" using chain_bound[OF v less.prems] by blast
      then show False using dom_validD(4)[OF v, of a i] ab(1) cs by auto
    qed
    show ?thesis
    proof (cases "c \<le> c'")
      case True
      then show ?thesis by (rule le[OF that(1,2,4,5)])
    next
      case False
      then have "c' \<le> c" by simp
      then show ?thesis by (rule le[OF that(2,1,5,4), symmetric])
    qed
  qed
  have up: "i \<in> chain da j \<longleftrightarrow> j = i \<or> (\<exists>c \<in> set cs. c \<in> chain da j)" if "j < ?n" for j
    using chain_from_child[OF v that, of i] cs by blast
  have nodes: "set (rt_nodes ?T) = (!) rpo ` {j. j < ?n \<and> i \<in> chain da j}"
  proof -
    have "set (rt_nodes ?T) = insert (rpo ! i) (\<Union>c \<in> set cs. (!) rpo ` {j. j < ?n \<and> c \<in> chain da j})"
      using F by auto
    also have "\<dots> = (!) rpo ` {j. j < ?n \<and> i \<in> chain da j}" using up less.prems by auto
    finally show ?thesis .
  qed
  have "distinct (concat (map rt_nodes (map F cs)))"
  proof -
    have "set (rt_nodes (F c)) \<inter> set (rt_nodes (F c')) = {}"
      if cc: "c \<in> set cs" "c' \<in> set cs" "c \<noteq> c'" for c c'
    proof (rule equals0I)
      fix w
      assume w: "w \<in> set (rt_nodes (F c)) \<inter> set (rt_nodes (F c'))"
      obtain j where j: "j < ?n" "c \<in> chain da j" "w = rpo ! j" using Fs[OF cc(1)] w by blast
      obtain j' where j': "j' < ?n" "c' \<in> chain da j'" "w = rpo ! j'" using Fs[OF cc(2)] w by blast
      have "j = j'" using inj[OF j(1) j'(1)] j(3) j'(3) by simp
      then show False using disj[OF cc(1,2) j(1,2)] j'(2) cc(3) by simp
    qed
    then have "distinct (concat (map (\<lambda>c. rt_nodes (F c)) cs))"
      using F by (intro distinct_concat_map) (simp_all add: cs_def)
    then show ?thesis by (simp add: comp_def)
  qed
  moreover have "rpo ! i \<notin> set (rt_nodes (F c))" if cc: "c \<in> set cs" for c
  proof
    assume "rpo ! i \<in> set (rt_nodes (F c))"
    then obtain j where j: "j < ?n" "c \<in> chain da j" "rpo ! i = rpo ! j" using Fs[OF cc] by blast
    then have "c \<in> chain da i" using inj[OF less.prems j(1)] by simp
    then have "c \<le> i" using chain_bound[OF v less.prems] by blast
    then show False using dom_validD(4)[OF v, of c i] cc cs by auto
  qed
  ultimately have "distinct (rt_nodes ?T)" by auto
  moreover have "tree_in (dt_lookup t) ?T" using dn kids F by auto
  ultimately show ?case using nodes by (intro exI[of _ ?T]) simp
qed

lemma dt_walk_rtree:
  assumes t: "tree_of g e t rpo da"
  shows "\<exists>T. rt_root T = e \<and> tree_in (dt_lookup t) T \<and> distinct (rt_nodes T) \<and> set (rt_nodes T) = {v. reaches g e v}
    \<and> (\<forall>dir pre post (s :: 's). (dt_walk t dir pre post s :: ('s \<times> 'b walk_result) option)
         = after_walk (walk_forest dir pre post s [T]) (\<lambda>s. Some (s, Continue Advance)))"
proof -
  note rp = rpo_ofD[OF tree_ofD(1)[OF t]]
  obtain T where T: "rt_root T = e" "tree_in (dt_lookup t) T" "distinct (rt_nodes T)"
      "set (rt_nodes T) = (!) rpo ` {j. j < length rpo \<and> 0 \<in> chain da j}"
    using tree_of_rtree[OF t rp(3)] rp(4) by auto
  have "0 \<in> chain da j" if "j < length rpo" for j
    using chain_zero[OF tree_ofD(2)[OF t] tree_ofD(3)[OF t that]] .
  then have "set (rt_nodes T) = set rpo" using T(4) by (auto simp: set_conv_nth)
  then have nodes: "set (rt_nodes T) = {v. reaches g e v}" using rp(2) by simp
  have "(dt_walk t dir pre post s :: ('s \<times> 'b walk_result) option)
      = after_walk (walk_forest dir pre post s [T]) (\<lambda>s. Some (s, Continue Advance))" for dir pre post and s :: 's
  proof -
    have "dt_walk t dir pre post s = walk_loop (dt_lookup t) dir pre post s (map Pre (map rt_root [T]) @ [])"
      using tree_ofD(5)[OF t] T(1)
      by (cases dir) (simp_all add: dt_walk_def walk_dominance_tree_def)
    then show ?thesis
      using walk_loop_forest[of "[T]" "dt_lookup t" dir pre post s "[]"] T(2)
      by (simp add: walk_loop.simps[of _ _ _ _ _ "[]"])
  qed
  then show ?thesis using T(1-3) nodes by blast
qed

text \<open>
  The stack-based walk of the dominator tree is recursion over a rose tree rooted at the entry
  that holds each reachable node once, with the children the tree records, in the asked order, for
  every pair of callbacks: what they do to the state, skip and break included.
\<close>

theorem walk_refines_recursion:
  assumes "wf_cfg g" and "entry_node g = Some e"
  shows "\<exists>t T. compute_dominator_tree g = Some t \<and> rt_root T = e \<and> tree_in (dt_lookup t) T
    \<and> distinct (rt_nodes T) \<and> set (rt_nodes T) = {v. reaches g e v}
    \<and> (\<forall>dir pre post (s :: 's). (dt_walk t dir pre post s :: ('s \<times> 'b walk_result) option)
         = after_walk (walk_forest dir pre post s [T]) (\<lambda>s. Some (s, Continue Advance)))"
proof -
  obtain t rpo da where t: "compute_dominator_tree g = Some t" "tree_of g e t rpo da"
    using dom_tree_obtain[OF assms] .
  show ?thesis using dt_walk_rtree[OF t(2)] t(1) by (elim exE conjE) (intro exI conjI; assumption)
qed

theorem walk_refines_recursion_witness:
  "\<exists>t T. compute_dominator_tree demo_cfg = Some t \<and> rt_root T = 10
    \<and> (\<forall>dir pre post (s :: nat). (dt_walk t dir pre post s :: (nat \<times> nat walk_result) option)
         = after_walk (walk_forest dir pre post s [T]) (\<lambda>s. Some (s, Continue Advance)))"
  using walk_refines_recursion[OF demo_cfg_wf demo_cfg_entry]
  by (elim exE conjE) (intro exI conjI; assumption)

section \<open>Dominance frontiers\<close>

type_synonym 'n frontier_map = "'n \<rightharpoonup> 'n list"

fun frontier_insert :: "'n \<Rightarrow> 'n list \<Rightarrow> 'n frontier_map \<Rightarrow> 'n frontier_map option" where
  "frontier_insert b [] res = Some res"
| "frontier_insert b (runner # runners) res = do {
     s \<leftarrow> res runner;
     frontier_insert b runners (res(runner \<mapsto> iset_insert b s))
   }"

fun frontier_preds :: "'n dom_tree \<Rightarrow> 'n \<Rightarrow> 'n \<Rightarrow> 'n list \<Rightarrow> 'n frontier_map \<Rightarrow> 'n frontier_map option" where
  "frontier_preds t b b_idom [] res = Some res"
| "frontier_preds t b b_idom (p # ps) res = do {
     runners \<leftarrow> ancestors_take_while (dt_lookup t) (\<lambda>n. n \<noteq> b_idom) p;
     res \<leftarrow> frontier_insert b runners res;
     frontier_preds t b b_idom ps res
   }"

fun frontier_blocks :: "'n cfg \<Rightarrow> 'n dom_tree \<Rightarrow> 'n list \<Rightarrow> 'n frontier_map \<Rightarrow> 'n frontier_map option" where
  "frontier_blocks g t [] res = Some res"
| "frontier_blocks g t (b # bs) res =
     (if \<not> dt_contains t b \<or> num_predecessors g b < 2 then frontier_blocks g t bs res
      else do {
        par \<leftarrow> idom t b;
        b_idom \<leftarrow> par;
        res \<leftarrow> frontier_preds t b b_idom (filter (dt_contains t) (predecessors g b)) res;
        frontier_blocks g t bs res
      })"

definition dom_frontier_new :: "'n cfg \<Rightarrow> 'n dom_tree \<Rightarrow> 'n frontier_map option" where
  "dom_frontier_new g t =
     frontier_blocks g t (graph_nodes g) (\<lambda>n. if n \<in> set (graph_nodes g) then Some [] else None)"

definition frontier :: "'n frontier_map \<Rightarrow> 'n \<Rightarrow> 'n list option" where
  "frontier f n = f n"

definition frontier_is :: "'n set \<Rightarrow> 'n frontier_map \<Rightarrow> ('n \<Rightarrow> 'n set) \<Rightarrow> bool" where
  "frontier_is N res S \<longleftrightarrow> (\<forall>n \<in> N. \<exists>fs. res n = Some fs \<and> distinct fs \<and> set fs = S n)"

lemma frontier_insert_correct:
  "frontier_is N res S \<Longrightarrow> set rs \<subseteq> N \<Longrightarrow> \<exists>res'. frontier_insert b rs res = Some res'
    \<and> frontier_is N res' (\<lambda>n. if n \<in> set rs then insert b (S n) else S n)"
proof (induction rs arbitrary: res S)
  case (Cons r rs)
  obtain fs where fs: "res r = Some fs" "distinct fs" "set fs = S r"
    using Cons.prems by (auto simp: frontier_is_def)
  have "frontier_is N (res(r \<mapsto> iset_insert b fs)) (\<lambda>n. if n = r then insert b (S n) else S n)"
    using Cons.prems(1) fs by (auto simp: frontier_is_def)
  moreover have "set rs \<subseteq> N" using Cons.prems(2) by simp
  ultimately obtain res' where "frontier_insert b rs (res(r \<mapsto> iset_insert b fs)) = Some res'"
      "frontier_is N res' (\<lambda>n. if n \<in> set rs then insert b (if n = r then insert b (S n) else S n)
         else if n = r then insert b (S n) else S n)" using Cons.IH by blast
  moreover have "(\<lambda>n. if n \<in> set rs then insert b (if n = r then insert b (S n) else S n)
         else if n = r then insert b (S n) else S n) = (\<lambda>n. if n \<in> set (r # rs) then insert b (S n) else S n)"
    by (rule ext) auto
  ultimately show ?case using fs(1) by simp
qed simp

lemma doms_trans: "doms g e a b \<Longrightarrow> doms g e b c \<Longrightarrow> doms g e a c"
  unfolding doms_def
proof (intro conjI allI impI; elim conjE)
  fix p
  assume a: "\<forall>p. is_path g e p b \<longrightarrow> a \<in> set p" and b: "\<forall>p. is_path g e p c \<longrightarrow> b \<in> set p"
    and p: "is_path g e p c"
  have pre: "is_path g u p c \<Longrightarrow> b \<in> set p \<Longrightarrow> \<exists>q. is_path g u q b \<and> set q \<subseteq> set p" for u p
  proof (induction p arbitrary: u)
    case (Cons x p)
    show ?case
    proof (cases "x = b")
      case True
      then show ?thesis using Cons.prems by (intro exI[of _ "[b]"]) (auto simp: is_path_Cons)
    next
      case False
      then obtain y where y: "u = x" "edge g x y" "is_path g y p c" "b \<in> set p"
        using Cons.prems by (auto simp: is_path_Cons)
      then obtain q where "is_path g y q b" "set q \<subseteq> set p" using Cons.IH by blast
      then show ?thesis using y by (intro exI[of _ "x # q"]) (auto simp: is_path_Cons)
    qed
  qed simp
  then show "a \<in> set p" using a b p by blast
qed

lemma strict_dom_pred:
  assumes "doms g e d b" and "d \<noteq> b" and "edge g p b" and "reaches g e p"
  shows "doms g e d p"
proof -
  have "d \<in> set q" if q: "is_path g e q p" for q
  proof -
    have "is_path g e (q @ [b]) b" using q assms(3) is_path_ends[OF q] by (auto simp: is_path_snoc)
    then have "d \<in> set (q @ [b])" using assms(1) unfolding doms_def by blast
    then show ?thesis using assms(2) by simp
  qed
  then show ?thesis using assms(4) by (simp add: doms_def)
qed

lemma takeWhile_ne: "x \<notin> set as \<Longrightarrow> takeWhile (\<lambda>n. n \<noteq> x) (as @ x # bs) = as"
  by (induction as) auto

text \<open>The runners from a predecessor \<open>p\<close> of \<open>b\<close> are \<open>p\<close>'s dominators that do not strictly dominate \<open>b\<close>.\<close>

lemma runners_correct:
  assumes t: "tree_of g e t rpo da" "has_entry g" "the_dom_tree g = t" "the (entry_node g) = e"
    and b: "idom t b = Some (Some d)" and p: "edge g p b" "reaches g e p"
  shows "\<exists>rs. ancestors_take_while (dt_lookup t) (\<lambda>n. n \<noteq> d) p = Some rs
    \<and> set rs = {x. doms g e x p \<and> \<not> (doms g e x b \<and> x \<noteq> b)}"
proof -
  obtain dn where dn: "dt_lookup t b = Some dn" "dn_parent dn = Some d" using b by (auto simp: idom_def)
  note law = tree_parent_law[OF t(1) dn]
  have "doms g e d d" using law tree_contains[OF t(1), of d] doms_refl[of g e d] by simp
  then have db: "doms g e d b" "d \<noteq> b" using law by auto
  have dp: "doms g e d p" using strict_dom_pred[OF db p] .
  have pl: "dt_lookup t p \<noteq> None" using tree_contains[OF t(1)] p(2) by simp
  obtain ds where ds: "ancestors (dt_lookup t) p = Some ds" "set ds = {x. doms g e x p}" "distinct ds"
      "\<forall>as x bs. ds = as @ x # bs \<longrightarrow> set (x # bs) = {x'. doms g e x' x}"
    using dom.ancestors_correct[OF t(2), of p] pl t(3,4) by auto
  obtain as bs where split: "ds = as @ d # bs" using dp ds(2) by (metis mem_Collect_eq split_list)
  have rs: "ancestors_take_while (dt_lookup t) (\<lambda>n. n \<noteq> d) p = Some as"
    using dom.ancestors_take_while_correct[OF t(2), of p] pl t(3) ds(1,3) split takeWhile_ne[of d as bs] by auto
  have "set (d # bs) = {x. doms g e x d}" using ds(4) split by blast
  then have "set as = {x. doms g e x p \<and> \<not> doms g e x d}"
    using ds(2,3) split by auto
  moreover have "doms g e x d \<longleftrightarrow> doms g e x b \<and> x \<noteq> b" for x
  proof -
    have "\<not> doms g e b d"
      using dom.member_rank[OF t(2), of d b] t(3,4) law db(2) by auto
    then show ?thesis using law by auto
  qed
  ultimately show ?thesis using rs by auto
qed

lemma frontier_preds_correct:
  assumes wf: "wf_cfg g" "entry_node g = Some e"
    and t: "tree_of g e t rpo da" "has_entry g" "the_dom_tree g = t" "the (entry_node g) = e"
    and b: "idom t b = Some (Some d)"
  shows "frontier_is (set (graph_nodes g)) res S \<Longrightarrow> \<forall>p \<in> set ps. edge g p b \<and> reaches g e p \<Longrightarrow>
    \<exists>res'. frontier_preds t b d ps res = Some res' \<and> frontier_is (set (graph_nodes g)) res'
      (\<lambda>n. if (\<exists>p \<in> set ps. doms g e n p) \<and> \<not> (doms g e n b \<and> n \<noteq> b) then insert b (S n) else S n)"
proof (induction ps arbitrary: res S)
  case (Cons p ps)
  have e: "e \<in> set (graph_nodes g)" using wf_cfgD(4)[OF wf] by auto
  have pb: "edge g p b" "reaches g e p" using Cons.prems(2) by simp_all
  obtain rs where rs: "ancestors_take_while (dt_lookup t) (\<lambda>n. n \<noteq> d) p = Some rs"
      "set rs = {x. doms g e x p \<and> \<not> (doms g e x b \<and> x \<noteq> b)}"
    using runners_correct[OF t b pb] by blast
  have "x \<in> set (graph_nodes g)" if "doms g e x p" for x
    using doms_reachable[OF that] reaches_nodes[OF wf(1) _ e] by blast
  then have "set rs \<subseteq> set (graph_nodes g)" using rs(2) by auto
  from frontier_insert_correct[OF Cons.prems(1) this, of b] obtain res1 where r1: "frontier_insert b rs res = Some res1"
      "frontier_is (set (graph_nodes g)) res1 (\<lambda>n. if n \<in> set rs then insert b (S n) else S n)"
    by blast
  have ps: "\<forall>p \<in> set ps. edge g p b \<and> reaches g e p" using Cons.prems(2) by simp
  obtain res2 where r2: "frontier_preds t b d ps res1 = Some res2" "frontier_is (set (graph_nodes g)) res2
      (\<lambda>n. if (\<exists>p \<in> set ps. doms g e n p) \<and> \<not> (doms g e n b \<and> n \<noteq> b)
        then insert b (if n \<in> set rs then insert b (S n) else S n) else if n \<in> set rs then insert b (S n) else S n)"
    using Cons.IH[OF r1(2) ps] by blast
  have "(\<lambda>n. if (\<exists>p \<in> set ps. doms g e n p) \<and> \<not> (doms g e n b \<and> n \<noteq> b)
        then insert b (if n \<in> set rs then insert b (S n) else S n) else if n \<in> set rs then insert b (S n) else S n)
      = (\<lambda>n. if (\<exists>p \<in> set (p # ps). doms g e n p) \<and> \<not> (doms g e n b \<and> n \<noteq> b) then insert b (S n) else S n)"
    unfolding rs(2) by (rule ext) auto
  then show ?case using rs(1) r1(1) r2 by simp
qed simp

definition in_frontier :: "'n cfg \<Rightarrow> 'n \<Rightarrow> 'n \<Rightarrow> 'n \<Rightarrow> bool" where
  "in_frontier g e n b \<longleftrightarrow> (\<exists>p. edge g p b \<and> doms g e n p) \<and> \<not> (doms g e n b \<and> n \<noteq> b)"

text \<open>A node with a single predecessor is in no frontier.\<close>

lemma last_pred:
  assumes "wf_cfg g" and "entry_node g = Some e" and "reaches g e b" and "b \<noteq> e" and q: "is_path g e q b"
  shows "\<exists>p q'. q = q' @ [b] \<and> is_path g e q' p \<and> p \<in> set (predecessors g b) \<and> edge g p b"
proof -
  have en: "e \<in> set (graph_nodes g)" using wf_cfgD(4)[OF assms(1,2)] by auto
  have "q \<noteq> []" "last q = b" "hd q = e" using is_path_ends[OF q] by auto
  then obtain q' where q': "q = q' @ [b]" by (metis append_butlast_last_id)
  then have "q' \<noteq> []" using \<open>hd q = e\<close> assms(4) by auto
  then obtain p where p: "is_path g e q' p" "edge g p b" using q q' by (auto simp: is_path_snoc)
  have "p \<in> set q'" using is_path_ends[OF p(1)] last_in_set by blast
  then have "reaches g e p" using is_path_reaches[OF p(1)] by blast
  then have "p \<in> set (predecessors g b)"
    using wf_cfgD(3)[OF assms(1) reaches_nodes[OF assms(1,3) en]] reaches_nodes[OF assms(1) _ en] p(2) by blast
  then show ?thesis using q' p by blast
qed

lemma one_pred_no_frontier:
  assumes wf: "wf_cfg g" "entry_node g = Some e" and b: "reaches g e b" "b \<noteq> e" and one: "num_predecessors g b < 2"
  shows "\<not> in_frontier g e n b"
proof
  assume "in_frontier g e n b"
  then obtain p where p: "edge g p b" "doms g e n p" "\<not> (doms g e n b \<and> n \<noteq> b)" by (auto simp: in_frontier_def)
  have en: "e \<in> set (graph_nodes g)" using wf_cfgD(4)[OF wf] by auto
  have pn: "p \<in> set (predecessors g b)"
    using wf_cfgD(3)[OF wf(1) reaches_nodes[OF wf(1) b(1) en]] p(1)
      reaches_nodes[OF wf(1) _ en] doms_reachable[OF p(2)] by blast
  have "length (predecessors g b) < 2" using one by (simp add: predecessors_def)
  then have only: "predecessors g b = [p]" using pn by (cases "predecessors g b") auto
  have last: "\<exists>q'. q = q' @ [b] \<and> is_path g e q' p" if "is_path g e q b" for q
    using last_pred[OF wf b that] only by auto
  have "doms g e n b" unfolding doms_def
    using b(1) last p(2) by (auto simp: doms_def dest!: last)
  moreover have "n \<noteq> b"
  proof
    assume "n = b"
    then have all: "b \<in> set q" if "is_path g e q p" for q using p(2) that by (simp add: doms_def)
    have "\<not> is_path g e q b" for q
    proof (induction "length q" arbitrary: q rule: less_induct)
      case less
      show ?case
      proof
        assume "is_path g e q b"
        then obtain q' where q': "q = q' @ [b]" "is_path g e q' p" using last by blast
        have "b \<in> set q'" using all[OF q'(2)] .
        then obtain r s where r: "q' = r @ b # s" by (meson split_list)
        have "is_path g e (r @ [b]) b" using is_path_prefix[of g e r b s p] q'(2) r by simp
        then show False using less[of "r @ [b]"] q'(1) r by simp
      qed
    qed
    then show False using reaches_path[OF b(1)] by blast
  qed
  ultimately show False using p(3) by blast
qed

lemma frontier_blocks_correct:
  assumes wf: "wf_cfg g" "entry_node g = Some e" and en: "num_predecessors g e = 0"
    and t: "tree_of g e t rpo da" "has_entry g" "the_dom_tree g = t" "the (entry_node g) = e"
  shows "frontier_is (set (graph_nodes g)) res S \<Longrightarrow> set bs \<subseteq> set (graph_nodes g) \<Longrightarrow>
    \<exists>res'. frontier_blocks g t bs res = Some res'
      \<and> frontier_is (set (graph_nodes g)) res' (\<lambda>n. S n \<union> {b \<in> set bs. in_frontier g e n b})"
proof (induction bs arbitrary: res S)
  case (Cons b bs)
  let ?N = "set (graph_nodes g)"
  have bs: "set bs \<subseteq> ?N" and bN: "b \<in> ?N" using Cons.prems(2) by auto
  have pe: "p \<in> set (predecessors g b) \<longleftrightarrow> p \<in> ?N \<and> edge g p b" for p
    using wf_cfgD(3)[OF wf(1) bN] .
  have nop: "\<not> edge g p e" if "reaches g e p" for p
  proof -
    have "e \<in> ?N" using wf_cfgD(4)[OF wf] by auto
    then have "edge g p e \<Longrightarrow> p \<in> set (predecessors g e)"
      using wf_cfgD(3)[OF wf(1)] reaches_nodes[OF wf(1) that] by blast
    then show ?thesis using en by (auto simp: predecessors_def)
  qed
  show ?case
  proof (cases "\<not> dt_contains t b \<or> num_predecessors g b < 2")
    case True
    have none: "\<not> in_frontier g e n b" for n
    proof (cases "reaches g e b")
      case r: True
      then have "dt_contains t b" using tree_contains[OF t(1)] by (simp add: dt_contains_def)
      then have one: "num_predecessors g b < 2" using True by simp
      show ?thesis
      proof (cases "b = e")
        case True
        have "\<not> edge g p e" if "doms g e n p" for p using nop doms_reachable[OF that] by blast
        then show ?thesis using True by (auto simp: in_frontier_def)
      qed (use one_pred_no_frontier[OF wf r _ one] in blast)
    next
      case False
      have "reaches g e b" if "edge g p b" "doms g e n p" for p
        using reaches_step that doms_reachable by fast
      then show ?thesis using False by (auto simp: in_frontier_def)
    qed
    have "(\<lambda>n. S n \<union> {b' \<in> set (b # bs). in_frontier g e n b'}) = (\<lambda>n. S n \<union> {b' \<in> set bs. in_frontier g e n b'})"
      using none by (rule_tac ext) auto
    then show ?thesis using True Cons.IH[OF Cons.prems(1) bs] by simp
  next
    case False
    then have r: "reaches g e b" using tree_contains[OF t(1)] by (simp add: dt_contains_def)
    have "b \<noteq> e" using False en by auto
    then obtain d where d: "idom t b = Some (Some d)" using tree_idom[OF t(1) r] by blast
    let ?ps = "filter (dt_contains t) (predecessors g b)"
    have ps: "p \<in> set ?ps \<longleftrightarrow> edge g p b \<and> reaches g e p" for p
    proof -
      have "e \<in> ?N" using wf_cfgD(4)[OF wf] by auto
      then have "reaches g e p \<Longrightarrow> p \<in> ?N" by (rule reaches_nodes[OF wf(1), rotated])
      moreover have "dt_contains t p \<longleftrightarrow> reaches g e p"
        unfolding dt_contains_def by (rule tree_contains[OF t(1)])
      ultimately show ?thesis using pe[of p] by auto
    qed
    have eq: "(\<lambda>n. if (\<exists>p \<in> set ?ps. doms g e n p) \<and> \<not> (doms g e n b \<and> n \<noteq> b) then insert b (S n) else S n)
        = (\<lambda>n. S n \<union> {b' \<in> {b}. in_frontier g e n b'})"
    proof (rule ext)
      fix n
      have "(\<exists>p \<in> set ?ps. doms g e n p) \<longleftrightarrow> (\<exists>p. edge g p b \<and> doms g e n p)"
        using ps doms_reachable[of g e n] by blast
      then show "(if (\<exists>p \<in> set ?ps. doms g e n p) \<and> \<not> (doms g e n b \<and> n \<noteq> b) then insert b (S n) else S n)
        = S n \<union> {b' \<in> {b}. in_frontier g e n b'}" by (auto simp: in_frontier_def)
    qed
    have "\<forall>p \<in> set ?ps. edge g p b \<and> reaches g e p" using ps by blast
    from frontier_preds_correct[OF wf t d Cons.prems(1) this, unfolded eq] obtain res1
      where r1: "frontier_preds t b d ?ps res = Some res1"
        "frontier_is ?N res1 (\<lambda>n. S n \<union> {b' \<in> {b}. in_frontier g e n b'})" by blast
    have "(\<lambda>n. S n \<union> {b' \<in> set (b # bs). in_frontier g e n b'})
        = (\<lambda>n. S n \<union> {b' \<in> {b}. in_frontier g e n b'} \<union> {b' \<in> set bs. in_frontier g e n b'})"
      by (rule ext) auto
    then show ?thesis using Cons.IH[OF r1(2) bs] False d r1(1) by simp
  qed
qed simp

text \<open>
  C14. For a well-formed graph whose entry has no predecessor \<open>DomFrontierMap::new\<close> does not panic,
  and a node's frontier is the dominance frontier: the nodes with a predecessor the node dominates
  that it does not strictly dominate, each listed once.
\<close>

theorem dom_frontier_correct:
  assumes "wf_cfg g" and "entry_node g = Some e" and "num_predecessors g e = 0"
  shows "\<exists>t f. compute_dominator_tree g = Some t \<and> dom_frontier_new g t = Some f
    \<and> (\<forall>n \<in> set (graph_nodes g). \<exists>fs. frontier f n = Some fs \<and> distinct fs
        \<and> set fs = {b. (\<exists>p. edge g p b \<and> doms g e n p) \<and> \<not> (doms g e n b \<and> n \<noteq> b)})"
proof -
  obtain t rpo da where t: "compute_dominator_tree g = Some t" "tree_of g e t rpo da" "has_entry g"
      "the_dom_tree g = t" "the (entry_node g) = e" using dom_tree_obtain[OF assms(1,2)] .
  let ?N = "set (graph_nodes g)"
  have en: "e \<in> ?N" using wf_cfgD(4)[OF assms(1,2)] by auto
  have init: "frontier_is ?N (\<lambda>n. if n \<in> ?N then Some [] else None) (\<lambda>_. {})" by (simp add: frontier_is_def)
  have fr: "{b \<in> ?N. in_frontier g e n b} = {b. in_frontier g e n b}" for n
  proof -
    have "b \<in> ?N" if b: "in_frontier g e n b" for b
    proof -
      obtain p where p: "edge g p b" "doms g e n p" using b by (auto simp: in_frontier_def)
      then have "reaches g e b" using reaches_step doms_reachable by fast
      then show ?thesis using reaches_nodes[OF assms(1) _ en] by blast
    qed
    then show ?thesis by blast
  qed
  obtain f where f: "dom_frontier_new g t = Some f" "frontier_is ?N f (\<lambda>n. {b. in_frontier g e n b})"
    using frontier_blocks_correct[OF assms(1-3) t(2-5) init subset_refl] fr
    by (auto simp: dom_frontier_new_def)
  then show ?thesis using t(1) by (auto simp: frontier_is_def frontier_def in_frontier_def)
qed

theorem dom_frontier_correct_witness:
  "\<exists>t f. compute_dominator_tree demo_cfg = Some t \<and> dom_frontier_new demo_cfg t = Some f
    \<and> (\<exists>fs. frontier f 13 = Some fs \<and> distinct fs)"
proof -
  have "num_predecessors demo_cfg 10 = 0" "13 \<in> set (graph_nodes demo_cfg)"
    by (simp_all add: demo_cfg_def cfg_of_def Let_def)
  then show ?thesis using dom_frontier_correct[OF demo_cfg_wf demo_cfg_entry] by fast
qed

text \<open>
  When the entry has two or more predecessors (back edges to the first block)
  \<open>DomFrontierMap::new\<close> panics: it unwraps the entry's immediate dominator, which does not exist.
\<close>

theorem dom_frontier_entry_panics:
  assumes "wf_cfg g" and "entry_node g = Some e" and "2 \<le> num_predecessors g e"
  shows "\<exists>t. compute_dominator_tree g = Some t \<and> dom_frontier_new g t = None"
proof -
  obtain t rpo da where t: "compute_dominator_tree g = Some t" "tree_of g e t rpo da" "has_entry g"
      "the_dom_tree g = t" "the (entry_node g) = e" using dom_tree_obtain[OF assms(1,2)] .
  obtain ns where ns: "graph_nodes g = e # ns" using wf_cfgD(4)[OF assms(1,2)] by blast
  have "dt_contains t e" using tree_contains[OF t(2), of e] by (simp add: dt_contains_def)
  moreover have "idom t e = Some None" using tree_idom[OF t(2), of e] by simp
  ultimately show ?thesis using t(1) ns assms(3) by (simp add: dom_frontier_new_def)
qed

definition looping_cfg :: "nat cfg" where
  "looping_cfg = cfg_of [(10, [11, 12]), (11, [10]), (12, [10])]"

theorem dom_frontier_entry_panics_witness:
  "\<exists>t. compute_dominator_tree looping_cfg = Some t \<and> dom_frontier_new looping_cfg t = None"
proof (rule dom_frontier_entry_panics)
  show "wf_cfg looping_cfg" unfolding looping_cfg_def by (rule wf_cfg_of) (simp add: cfg_of_ok_def)
  show "entry_node looping_cfg = Some 10" by (simp add: looping_cfg_def cfg_of_def Let_def)
  show "2 \<le> num_predecessors looping_cfg 10" by (simp add: looping_cfg_def cfg_of_def Let_def)
qed

end
