(* ===== verification/Reverse.thy ===== *)
theory Reverse
  imports Scc DomTree
begin

text \<open>
  Model of \<^verbatim>\<open>src/src/graph/reverse.rs\<close> (pre-sentinels and the reverse graph) and of
  \<open>compute_post_dominator_tree\<close> and \<open>PDomTree\<close> of \<^verbatim>\<open>src/src/graph/dominance.rs\<close>.

  The reverse graph is a graph of its own, with the sentinel as entry; its theorem \<open>reverse_wf\<close>
  lets the theorems on dominator trees apply to it, so that post-dominance is
  dominance there.
\<close>

section \<open>Pre-sentinels\<close>

text \<open>The map from nodes to component indices; indexing it with a missing node panics.\<close>

definition scc_index :: "'n scc list \<Rightarrow> 'n \<rightharpoonup> nat" where
  "scc_index cs =
     map_of (rev (concat (map (\<lambda>(i, c). map (\<lambda>n. (n, i)) (scc_nodes c)) (enumerate 0 cs))))"

definition is_sink_scc :: "'n cfg \<Rightarrow> ('n \<rightharpoonup> nat) \<Rightarrow> nat \<times> 'n scc \<Rightarrow> bool option" where
  "is_sink_scc g scc_of ic =
     (case ic of (i, c) \<Rightarrow>
       oall (\<lambda>node. oall (\<lambda>succ. map_option (\<lambda>j. j = i) (scc_of succ)) (successors g node)) (scc_nodes c))"

fun select_sinks ::
    "('n \<rightharpoonup> nat) \<Rightarrow> bool list \<Rightarrow> 'n list \<Rightarrow> 'n option list \<Rightarrow> 'n option list option" where
  "select_sinks scc_of sinks [] selected = Some selected"
| "select_sinks scc_of sinks (node # nodes) selected = do {
     i \<leftarrow> scc_of node;
     b \<leftarrow> oget sinks i;
     if b then do {
       ocheck (i < length selected);
       select_sinks scc_of sinks nodes (selected[i := Some node])
     } else select_sinks scc_of sinks nodes selected
   }"

definition find_pre_sentinels :: "'n cfg \<Rightarrow> 'n list option" where
  "find_pre_sentinels g = do {
     cs \<leftarrow> sccs_in_topological_order g;
     (let scc_of = scc_index cs in do {
        sinks \<leftarrow> omap (is_sink_scc g scc_of) (enumerate 0 cs);
        selected \<leftarrow> select_sinks scc_of sinks (graph_nodes g) (replicate (length cs) None);
        Some (List.map_filter id selected)
      })
   }"

section \<open>The reverse graph\<close>

datatype 'n reverse_node = Sentinel | Real 'n

definition is_sentinel :: "'n reverse_node \<Rightarrow> bool" where
  "is_sentinel n = (case n of Sentinel \<Rightarrow> True | Real _ \<Rightarrow> False)"

definition into_real :: "'n reverse_node \<Rightarrow> 'n option" where
  "into_real n = (case n of Sentinel \<Rightarrow> None | Real m \<Rightarrow> Some m)"

record 'n reverse_graph =
  original :: "'n cfg"
  rg_pre_sentinels :: "'n list"
  rg_predecessors :: "'n \<rightharpoonup> 'n list"

definition reverse_graph_new :: "'n cfg \<Rightarrow> 'n reverse_graph option" where
  "reverse_graph_new g = do {
     ps \<leftarrow> find_pre_sentinels g;
     Some \<lparr>original = g, rg_pre_sentinels = iset_collect ps,
       rg_predecessors = (\<lambda>n. if n \<in> set (graph_nodes g) then Some (predecessors g n) else None)\<rparr>
   }"

text \<open>The methods of the trait, with their panics.\<close>

definition rg_num_successors :: "'n reverse_graph \<Rightarrow> 'n reverse_node \<Rightarrow> nat option" where
  "rg_num_successors r node =
     (case node of
        Sentinel \<Rightarrow> Some (length (rg_pre_sentinels r))
      | Real n \<Rightarrow> map_option length (rg_predecessors r n))"

definition rg_get_successor :: "'n reverse_graph \<Rightarrow> 'n reverse_node \<Rightarrow> nat \<Rightarrow> 'n reverse_node option" where
  "rg_get_successor r node i =
     (case node of
        Sentinel \<Rightarrow> map_option Real (oget (rg_pre_sentinels r) i)
      | Real n \<Rightarrow> do { ps \<leftarrow> rg_predecessors r n; map_option Real (oget ps i) })"

definition rg_num_predecessors :: "'n reverse_graph \<Rightarrow> 'n reverse_node \<Rightarrow> nat option" where
  "rg_num_predecessors r node =
     (case node of
        Sentinel \<Rightarrow> Some 0
      | Real n \<Rightarrow> Some (num_successors (original r) n + (if n \<in> set (rg_pre_sentinels r) then 1 else 0)))"

definition rg_get_predecessor :: "'n reverse_graph \<Rightarrow> 'n reverse_node \<Rightarrow> nat \<Rightarrow> 'n reverse_node option" where
  "rg_get_predecessor r node i =
     (case node of
        Sentinel \<Rightarrow> None
      | Real n \<Rightarrow>
          if i < num_successors (original r) n then Some (Real (get_successor (original r) n i))
          else do {
            ocheck (n \<in> set (rg_pre_sentinels r) \<and> i = num_successors (original r) n);
            Some Sentinel
          })"

definition rg_nodes :: "'n reverse_graph \<Rightarrow> 'n reverse_node list" where
  "rg_nodes r = Sentinel # map Real (graph_nodes (original r))"

text \<open>As a graph for the algorithms, which call the methods on nodes and in range only.\<close>

definition reverse_cfg :: "'n reverse_graph \<Rightarrow> 'n reverse_node cfg" where
  "reverse_cfg r =
     \<lparr>num_successors = (\<lambda>n. the (rg_num_successors r n)),
      get_successor = (\<lambda>n i. the (rg_get_successor r n i)),
      num_predecessors = (\<lambda>n. the (rg_num_predecessors r n)),
      get_predecessor = (\<lambda>n i. the (rg_get_predecessor r n i)),
      entry_node = Some Sentinel,
      graph_nodes = rg_nodes r\<rparr>"

section \<open>The post-dominator tree\<close>

record 'n pdom_tree =
  pt_pre_sentinels :: "'n list"
  sentinel_children :: "'n list"
  post_dominators_map :: "('n \<times> 'n dom_node) list"

text \<open>One node of the reverse dominator tree without the sentinel; the sentinel itself is dropped.\<close>

definition strip_sentinel ::
    "'n reverse_node \<times> 'n reverse_node dom_node \<Rightarrow> ('n \<times> 'n dom_node) option option" where
  "strip_sentinel nd =
     (case nd of (node, dn) \<Rightarrow>
        (case into_real node of
           None \<Rightarrow> Some None
         | Some n \<Rightarrow> do {
             children \<leftarrow> omap into_real (dn_children dn);
             Some (Some (n, \<lparr>dn_parent = Option.bind (dn_parent dn) into_real, dn_children = children\<rparr>))
           }))"

definition compute_post_dominator_tree :: "'n cfg \<Rightarrow> 'n pdom_tree option" where
  "compute_post_dominator_tree g = do {
     r \<leftarrow> reverse_graph_new g;
     if rg_pre_sentinels r = [] then
       Some \<lparr>pt_pre_sentinels = [], sentinel_children = [], post_dominators_map = []\<rparr>
     else do {
       t \<leftarrow> compute_dominator_tree (reverse_cfg r);
       ocheck (dt_num_nodes t = length (graph_nodes g) + 1);
       sc \<leftarrow> dt_children t Sentinel;
       sc \<leftarrow> omap into_real sc;
       m \<leftarrow> omap strip_sentinel (dominators_map t);
       Some \<lparr>pt_pre_sentinels = rg_pre_sentinels r, sentinel_children = sc,
         post_dominators_map = imap_collect (List.map_filter id m)\<rparr>
     }
   }"

abbreviation pt_lookup :: "'n pdom_tree \<Rightarrow> 'n \<rightharpoonup> 'n dom_node" where
  "pt_lookup t \<equiv> map_of (post_dominators_map t)"

definition post_dominators :: "'n pdom_tree \<Rightarrow> 'n \<Rightarrow> 'n list option" where
  "post_dominators t node = ancestors (pt_lookup t) node"

text \<open>\<open>any\<close> on the iterator stops at the first hit.\<close>

definition post_dominates :: "'n pdom_tree \<Rightarrow> 'n \<Rightarrow> 'n \<Rightarrow> bool option" where
  "post_dominates t post_dominator post_dominatee =
     map_option (\<lambda>r. r \<noteq> None) (ancestors_find (pt_lookup t) (\<lambda>n. Some (n = post_dominator)) post_dominatee)"

definition nearest_common_post_dominator :: "'n pdom_tree \<Rightarrow> 'n \<Rightarrow> 'n \<Rightarrow> 'n option option" where
  "nearest_common_post_dominator t node1 node2 =
     ancestors_find (pt_lookup t) (\<lambda>n. post_dominates t n node2) node1"

definition pt_contains :: "'n pdom_tree \<Rightarrow> 'n \<Rightarrow> bool" where
  "pt_contains t node \<longleftrightarrow> pt_lookup t node \<noteq> None"

definition ipdom :: "'n pdom_tree \<Rightarrow> 'n \<Rightarrow> 'n option option" where
  "ipdom t node = map_option dn_parent (pt_lookup t node)"

definition pt_children :: "'n pdom_tree \<Rightarrow> 'n \<Rightarrow> 'n list option" where
  "pt_children t node = map_option dn_children (pt_lookup t node)"

definition pt_num_nodes :: "'n pdom_tree \<Rightarrow> nat" where
  "pt_num_nodes t = length (post_dominators_map t)"

definition pt_nodes :: "'n pdom_tree \<Rightarrow> 'n list" where
  "pt_nodes t = map fst (post_dominators_map t)"

definition pt_walk ::
    "'n pdom_tree \<Rightarrow> direction \<Rightarrow> ('s \<Rightarrow> 'n \<Rightarrow> ('s \<times> 'b walk_result) option) \<Rightarrow>
     ('s \<Rightarrow> 'n \<Rightarrow> ('s \<times> 'b walk_result) option) \<Rightarrow> 's \<Rightarrow> ('s \<times> 'b walk_result) option" where
  "pt_walk t dir pre post s = walk_dominance_tree (pt_lookup t) (sentinel_children t) dir pre post s"

section \<open>Pre-sentinels are one node of each sink component\<close>

lemma scc_index_correct:
  assumes "scc_chain g cs"
  shows "scc_index cs n = Some i \<longleftrightarrow> i < length cs \<and> n \<in> set (scc_nodes (cs ! i))"
proof -
  let ?L = "concat (map (\<lambda>(i, c). map (\<lambda>n. (n, i)) (scc_nodes c)) (enumerate 0 cs))"
  have "map fst (concat (map (\<lambda>(i, c). map (\<lambda>n. (n, i)) (scc_nodes c)) (enumerate k cs)))
      = concat (map scc_nodes cs)" for k
    by (induction cs arbitrary: k) (auto simp: comp_def)
  then have "distinct (map fst (rev ?L))" using chain_distinct[OF assms] by (simp add: rev_map[symmetric])
  then have "scc_index cs n = Some i \<longleftrightarrow> (n, i) \<in> set ?L" by (simp add: scc_index_def)
  also have "\<dots> \<longleftrightarrow> (\<exists>c. (i, c) \<in> set (enumerate 0 cs) \<and> n \<in> set (scc_nodes c))"
    by force
  also have "\<dots> \<longleftrightarrow> i < length cs \<and> n \<in> set (scc_nodes (cs ! i))"
    by (auto simp: in_set_enumerate_eq)
  finally show ?thesis .
qed

lemma members_nth: "v \<in> members cs \<longleftrightarrow> (\<exists>j < length cs. v \<in> set (scc_nodes (cs ! j)))"
proof
  assume "v \<in> members cs"
  then obtain c where c: "c \<in> set cs" "v \<in> set (scc_nodes c)" by (auto simp: members_def)
  then obtain j where "j < length cs" "cs ! j = c" using in_set_conv_nth[of c cs] by blast
  then show "\<exists>j < length cs. v \<in> set (scc_nodes (cs ! j))" using c(2) by blast
next
  assume "\<exists>j < length cs. v \<in> set (scc_nodes (cs ! j))"
  then show "v \<in> members cs" using nth_mem[of _ cs] by (auto simp: members_def)
qed

lemma chain_nth_edge:
  assumes "scc_chain g cs" and "i < length cs" and "u \<in> set (scc_nodes (cs ! i))" and "edge g u v"
  shows "\<exists>j < length cs. v \<in> set (scc_nodes (cs ! j))"
proof -
  have "u \<in> members cs" using assms(2,3) members_nth[of u cs] by blast
  then have "v \<in> members cs" by (rule chain_edge[OF assms(1,4)])
  then show ?thesis by (simp add: members_nth)
qed

definition sink_at :: "'n cfg \<Rightarrow> 'n scc list \<Rightarrow> nat \<Rightarrow> bool" where
  "sink_at g cs i \<longleftrightarrow> (\<forall>u \<in> set (scc_nodes (cs ! i)). \<forall>v. edge g u v \<longrightarrow> v \<in> set (scc_nodes (cs ! i)))"

lemma is_sink_correct:
  assumes cs: "scc_chain g cs" and i: "i < length cs"
  shows "is_sink_scc g (scc_index cs) (i, cs ! i) = Some (sink_at g cs i)"
proof -
  have "map_option (\<lambda>j. j = i) (scc_index cs v) = Some (v \<in> set (scc_nodes (cs ! i)))"
    if uv: "u \<in> set (scc_nodes (cs ! i))" "v \<in> set (successors g u)" for u v
  proof -
    obtain j where "j < length cs" "v \<in> set (scc_nodes (cs ! j))"
      using chain_nth_edge[OF cs i uv(1), of v] uv(2) by (auto simp: edge_def)
    then have j: "scc_index cs v = Some j" using scc_index_correct[OF cs] by simp
    have "j = i \<longleftrightarrow> v \<in> set (scc_nodes (cs ! i))"
      using j i scc_index_correct[OF cs, of v i] scc_index_correct[OF cs, of v j] by auto
    then show ?thesis using j by simp
  qed
  then have "oall (\<lambda>succ. map_option (\<lambda>j. j = i) (scc_index cs succ)) (successors g u)
      = Some (\<forall>v \<in> set (successors g u). v \<in> set (scc_nodes (cs ! i)))"
    if "u \<in> set (scc_nodes (cs ! i))" for u using that by (intro oall_Some) blast
  then show ?thesis unfolding is_sink_scc_def prod.case sink_at_def edge_def
    by (rule oall_Some[THEN trans]) auto
qed

lemma select_sinks_correct:
  "(\<forall>n \<in> set ns. \<exists>i < length sinks. scc n = Some i) \<Longrightarrow> length sel = length sinks \<Longrightarrow>
    \<exists>sel'. select_sinks scc sinks ns sel = Some sel' \<and> length sel' = length sinks
      \<and> (\<forall>i < length sinks. sel' ! i =
          (if sinks ! i \<and> filter (\<lambda>n. scc n = Some i) ns \<noteq> [] then Some (last (filter (\<lambda>n. scc n = Some i) ns))
           else sel ! i))"
proof (induction ns arbitrary: sel)
  case (Cons n ns)
  obtain k where k: "k < length sinks" "scc n = Some k" using Cons.prems(1) by auto
  let ?sel = "if sinks ! k then sel[k := Some n] else sel"
  have "\<forall>n \<in> set ns. \<exists>i < length sinks. scc n = Some i" "length ?sel = length sinks" using Cons.prems by auto
  from Cons.IH[OF this] obtain sel' where s: "select_sinks scc sinks ns ?sel = Some sel'" "length sel' = length sinks"
      "\<forall>i < length sinks. sel' ! i =
          (if sinks ! i \<and> filter (\<lambda>n. scc n = Some i) ns \<noteq> [] then Some (last (filter (\<lambda>n. scc n = Some i) ns))
           else ?sel ! i)" by blast
  have "select_sinks scc sinks (n # ns) sel = Some sel'" using s(1) k Cons.prems(2) by auto
  moreover have "sel' ! i = (if sinks ! i \<and> filter (\<lambda>n. scc n = Some i) (n # ns) \<noteq> []
      then Some (last (filter (\<lambda>n. scc n = Some i) (n # ns))) else sel ! i)" if "i < length sinks" for i
    using s(3) that k Cons.prems(2) by (cases "i = k") auto
  ultimately show ?case using s(2) by blast
qed simp

definition last_of :: "'n cfg \<Rightarrow> 'n scc list \<Rightarrow> nat \<Rightarrow> 'n" where
  "last_of g cs i = last (filter (\<lambda>n. n \<in> set (scc_nodes (cs ! i))) (graph_nodes g))"

lemma find_pre_sentinels_returns:
  assumes wf: "wf_cfg g" and s: "sccs_in_topological_order g = Some cs" and cs: "scc_chain g cs"
    and m: "members cs = set (graph_nodes g)"
  shows "find_pre_sentinels g = Some (map (last_of g cs) (filter (sink_at g cs) [0..<length cs]))"
proof -
  let ?scc = "scc_index cs" and ?ns = "graph_nodes g"
  have sinks: "omap (is_sink_scc g ?scc) (enumerate 0 cs) = Some (map (sink_at g cs) [0..<length cs])"
  proof -
    have "enumerate 0 cs = map (\<lambda>i. (i, cs ! i)) [0..<length cs]"
      by (intro nth_equalityI) (auto simp: nth_enumerate_eq)
    moreover have "omap (\<lambda>i. is_sink_scc g ?scc (i, cs ! i)) [0..<length cs] = Some (map (sink_at g cs) [0..<length cs])"
      by (intro omap_Some) (use is_sink_correct[OF cs] in simp)
    ultimately show ?thesis by simp
  qed
  have tot: "\<forall>n \<in> set ?ns. \<exists>i < length (map (sink_at g cs) [0..<length cs]). ?scc n = Some i"
    using m scc_index_correct[OF cs] members_nth[of _ cs] by auto
  obtain sel where sel: "select_sinks ?scc (map (sink_at g cs) [0..<length cs]) ?ns (replicate (length cs) None) = Some sel"
      "length sel = length cs"
      "\<forall>i < length cs. sel ! i = (if sink_at g cs i \<and> filter (\<lambda>n. ?scc n = Some i) ?ns \<noteq> []
        then Some (last (filter (\<lambda>n. ?scc n = Some i) ?ns)) else None)"
    using select_sinks_correct[OF tot, of "replicate (length cs) None"] by auto
  have "sel ! i = (if sink_at g cs i then Some (last_of g cs i) else None)" if i: "i < length cs" for i
  proof -
    have f: "filter (\<lambda>n. ?scc n = Some i) ?ns = filter (\<lambda>n. n \<in> set (scc_nodes (cs ! i))) ?ns"
      by (rule filter_cong) (use scc_index_correct[OF cs] i in auto)
    have "cs ! i \<in> set cs" using i by simp
    then have "scc_nodes (cs ! i) \<noteq> []" "set (scc_nodes (cs ! i)) \<subseteq> set ?ns"
      using chain_each[OF cs] m by (auto simp: members_def)
    then have "\<exists>n. n \<in> set (scc_nodes (cs ! i)) \<and> n \<in> set ?ns" by (cases "scc_nodes (cs ! i)") auto
    then have "filter (\<lambda>n. n \<in> set (scc_nodes (cs ! i))) ?ns \<noteq> []" by (auto simp: filter_empty_conv)
    then show ?thesis using sel(3) i f by (simp add: last_of_def)
  qed
  then have "sel = map (\<lambda>i. if sink_at g cs i then Some (last_of g cs i) else None) [0..<length cs]"
    using sel(2) by (intro nth_equalityI) auto
  moreover have "List.map_filter id (map (\<lambda>i. if Q i then Some (h i) else None) xs) = map h (filter Q xs)"
    for Q and h :: "nat \<Rightarrow> 'a" and xs by (induction xs) (auto simp: List.map_filter_def)
  ultimately show ?thesis using s sinks sel(1) by (simp add: find_pre_sentinels_def Let_def)
qed

lemma last_of_in:
  assumes "scc_chain g cs" and "members cs = set (graph_nodes g)" and "i < length cs"
  shows "last_of g cs i \<in> set (scc_nodes (cs ! i))"
proof -
  have "cs ! i \<in> set cs" using assms(3) by simp
  then have "scc_nodes (cs ! i) \<noteq> []" "set (scc_nodes (cs ! i)) \<subseteq> set (graph_nodes g)"
    using chain_each[OF assms(1)] assms(2) by (auto simp: members_def)
  then have "filter (\<lambda>n. n \<in> set (scc_nodes (cs ! i))) (graph_nodes g) \<noteq> []"
    by (cases "scc_nodes (cs ! i)") (auto simp: filter_empty_conv)
  from last_in_set[OF this] show ?thesis by (simp add: last_of_def)
qed

text \<open>Every node reaches a sink component: the chain ends in one.\<close>

lemma reaches_sink:
  assumes cs: "scc_chain g cs"
  shows "i < length cs \<Longrightarrow> u \<in> set (scc_nodes (cs ! i)) \<Longrightarrow>
    \<exists>j v. j < length cs \<and> sink_at g cs j \<and> v \<in> set (scc_nodes (cs ! j)) \<and> reaches g u v"
proof (induction "length cs - i" arbitrary: i u rule: less_induct)
  case less
  show ?case
  proof (cases "sink_at g cs i")
    case True
    then show ?thesis using less.prems by (intro exI[of _ i] exI[of _ u]) simp
  next
    case False
    then obtain a b where ab: "a \<in> set (scc_nodes (cs ! i))" "edge g a b" "b \<notin> set (scc_nodes (cs ! i))"
      by (auto simp: sink_at_def)
    obtain j where j: "j < length cs" "b \<in> set (scc_nodes (cs ! j))"
      using chain_nth_edge[OF cs less.prems(1) ab(1,2)] by blast
    have "i \<le> j" using chain_topological[OF cs less.prems(1) j(1) ab(1) j(2) ab(2)] .
    moreover have "i \<noteq> j" using ab(3) j(2) by auto
    ultimately have "length cs - j < length cs - i" using less.prems(1) by simp
    then obtain k v where k: "k < length cs" "sink_at g cs k" "v \<in> set (scc_nodes (cs ! k))" "reaches g b v"
      using less.hyps[of j b] j by blast
    have "cs ! i \<in> set cs" using less.prems(1) by simp
    then have "reaches g u a" using chain_class[OF cs _ less.prems(2)] ab(1) by blast
    then have "reaches g u v" using reaches_step[OF _ ab(2)] reaches_trans k(4) by fast
    then show ?thesis using k by blast
  qed
qed

lemma pre_sentinels_facts:
  assumes "wf_cfg g"
  shows "\<exists>ps. find_pre_sentinels g = Some ps \<and> distinct ps \<and> set ps \<subseteq> set (graph_nodes g)
    \<and> (\<forall>v \<in> set (graph_nodes g). successors g v = [] \<longrightarrow> v \<in> set ps)
    \<and> (\<forall>s \<in> set ps. \<forall>w. reaches g s w \<longrightarrow> reaches g w s)
    \<and> (\<forall>s \<in> set ps. \<forall>t \<in> set ps. reaches g s t \<longrightarrow> s = t)
    \<and> (\<forall>v \<in> set (graph_nodes g). \<exists>s \<in> set ps. reaches g v s)"
proof -
  obtain cs where cs: "sccs_in_topological_order g = Some cs" "scc_chain g cs" "members cs = set (graph_nodes g)"
    using sccs_chain[OF assms] by blast
  let ?n = "length cs" and ?h = "last_of g cs"
  let ?ps = "map ?h (filter (sink_at g cs) [0..<?n])"
  note found = find_pre_sentinels_returns[OF assms cs]
  have in_cs: "?h i \<in> set (scc_nodes (cs ! i))" if "i < ?n" for i using last_of_in[OF cs(2,3) that] .
  have uniq: "i = j" if "u \<in> set (scc_nodes (cs ! i))" "u \<in> set (scc_nodes (cs ! j))" "i < ?n" "j < ?n" for i j u
    using scc_index_correct[OF cs(2), of u i] scc_index_correct[OF cs(2), of u j] that by simp
  have cls: "v \<in> set (scc_nodes (cs ! i)) \<longleftrightarrow> reaches g u v \<and> reaches g v u"
    if "i < ?n" "u \<in> set (scc_nodes (cs ! i))" for i u v
    using chain_class[OF cs(2) nth_mem[OF that(1)] that(2)] .
  have stay: "w \<in> set (scc_nodes (cs ! i))" if "reaches g u w" "u \<in> set (scc_nodes (cs ! i))" "sink_at g cs i" for i u w
    using that by (induction rule: reaches_induct) (auto simp: sink_at_def)
  have ps: "s \<in> set ?ps \<longleftrightarrow> (\<exists>i < ?n. sink_at g cs i \<and> s = ?h i)" for s by auto
  have leaf: "v \<in> set ?ps" if v: "v \<in> set (graph_nodes g)" "successors g v = []" for v
  proof -
    obtain i where i: "i < ?n" "v \<in> set (scc_nodes (cs ! i))" using v(1) cs(3) members_nth[of v cs] by auto
    have "w = v" if "reaches g v w" for w
      using that by (induction rule: reaches_induct) (use v(2) in \<open>auto simp: edge_def\<close>)
    then have only: "set (scc_nodes (cs ! i)) = {v}" using cls[OF i] i(2) by auto
    then have "sink_at g cs i" using v(2) by (simp add: sink_at_def edge_def)
    moreover have "?h i = v" using in_cs[OF i(1)] only by simp
    ultimately show ?thesis using ps i(1) by blast
  qed
  have backw: "reaches g w s" if sw: "s \<in> set ?ps" "reaches g s w" for s w
  proof -
    obtain i where i: "i < ?n" "sink_at g cs i" "s = ?h i" using sw(1) ps by blast
    have s: "s \<in> set (scc_nodes (cs ! i))" using in_cs[OF i(1)] i(3) by simp
    show ?thesis using cls[OF i(1) s, of w] stay[OF sw(2) s i(2)] by blast
  qed
  have one: "s = t" if st: "s \<in> set ?ps" "t \<in> set ?ps" "reaches g s t" for s t
  proof -
    obtain i where i: "i < ?n" "sink_at g cs i" "s = ?h i" using st(1) ps by blast
    obtain j where j: "j < ?n" "t = ?h j" using st(2) ps by blast
    have s: "s \<in> set (scc_nodes (cs ! i))" using in_cs[OF i(1)] i(3) by simp
    have "t \<in> set (scc_nodes (cs ! i))" using stay[OF st(3) s i(2)] .
    then have "i = j" using uniq[of t i j] in_cs[OF j(1)] j i(1) by simp
    then show ?thesis using i(3) j(2) by simp
  qed
  have all: "\<exists>s \<in> set ?ps. reaches g v s" if v: "v \<in> set (graph_nodes g)" for v
  proof -
    obtain i where i: "i < ?n" "v \<in> set (scc_nodes (cs ! i))" using v cs(3) members_nth[of v cs] by auto
    obtain j u where j: "j < ?n" "sink_at g cs j" "u \<in> set (scc_nodes (cs ! j))" "reaches g v u"
      using reaches_sink[OF cs(2) i] by blast
    have "reaches g u (?h j)" using cls[OF j(1,3), of "?h j"] in_cs[OF j(1)] by blast
    then have "reaches g v (?h j)" using reaches_trans[OF j(4)] by blast
    then show ?thesis using ps j(1,2) by blast
  qed
  have "distinct ?ps"
  proof -
    have inj: "i = j" if "i < ?n" "j < ?n" "?h i = ?h j" for i j
      using uniq[of "?h i" i j] in_cs[of i] in_cs[of j] that by simp
    then show ?thesis by (auto simp: distinct_map inj_on_def)
  qed
  moreover have "set ?ps \<subseteq> set (graph_nodes g)"
  proof
    fix s
    assume "s \<in> set ?ps"
    then obtain i where "i < ?n" "s = ?h i" using ps by blast
    then have "s \<in> members cs" using in_cs members_nth[of s cs] by blast
    then show "s \<in> set (graph_nodes g)" using cs(3) by simp
  qed
  ultimately show ?thesis using found leaf backw one all by (intro exI[of _ ?ps]) blast
qed

lemma pre_sentinels_obtain:
  assumes "wf_cfg g"
  obtains ps where "find_pre_sentinels g = Some ps" and "distinct ps" and "set ps \<subseteq> set (graph_nodes g)"
    and "\<forall>v \<in> set (graph_nodes g). \<exists>s \<in> set ps. reaches g v s"
  using pre_sentinels_facts[OF assms] by blast

text \<open>
  For every well-formed graph \<open>find_pre_sentinels\<close> returns distinct nodes: every exit node is one of
  them; any other one lies on an infinite loop that nothing leaves (all it reaches reaches it
  back); no pre-sentinel reaches another; and every node reaches one of them.
\<close>

theorem pre_sentinels_correct:
  assumes "wf_cfg g"
  shows "\<exists>ps. find_pre_sentinels g = Some ps \<and> distinct ps \<and> set ps \<subseteq> set (graph_nodes g)
    \<and> (\<forall>v \<in> set (graph_nodes g). successors g v = [] \<longrightarrow> v \<in> set ps)
    \<and> (\<forall>s \<in> set ps. \<forall>w. reaches g s w \<longrightarrow> reaches g w s)
    \<and> (\<forall>s \<in> set ps. \<forall>t \<in> set ps. reaches g s t \<longrightarrow> s = t)
    \<and> (\<forall>v \<in> set (graph_nodes g). \<exists>s \<in> set ps. reaches g v s)"
  by (rule pre_sentinels_facts[OF assms])

theorem pre_sentinels_correct_witness:
  "\<exists>ps. find_pre_sentinels demo_cfg = Some ps \<and> distinct ps \<and> 14 \<in> set ps"
proof -
  have "14 \<in> set (graph_nodes demo_cfg)" "successors demo_cfg 14 = []"
    by (simp_all add: demo_cfg_def cfg_of_successors) (simp add: cfg_of_def Let_def)
  then show ?thesis using pre_sentinels_correct[OF demo_cfg_wf] by fast
qed

section \<open>The reverse graph is a graph\<close>

lemma reverse_new:
  assumes "wf_cfg g" and "find_pre_sentinels g = Some ps" and "distinct ps"
  shows "reverse_graph_new g = Some \<lparr>original = g, rg_pre_sentinels = ps,
    rg_predecessors = (\<lambda>n. if n \<in> set (graph_nodes g) then Some (predecessors g n) else None)\<rparr>"
  using assms by (simp add: reverse_graph_new_def)

definition is_reverse :: "'n cfg \<Rightarrow> 'n list \<Rightarrow> 'n reverse_graph \<Rightarrow> bool" where
  "is_reverse g ps r \<longleftrightarrow> wf_cfg g \<and> set ps \<subseteq> set (graph_nodes g)
     \<and> r = \<lparr>original = g, rg_pre_sentinels = ps,
          rg_predecessors = (\<lambda>n. if n \<in> set (graph_nodes g) then Some (predecessors g n) else None)\<rparr>"

lemma map_get_nth: "map (\<lambda>i. the (map_option f (oget xs i))) [0..<length xs] = map f xs"
  by (intro nth_equalityI) auto

lemma reverse_successors:
  assumes r: "is_reverse g ps r"
  shows "successors (reverse_cfg r) Sentinel = map Real ps"
    and "n \<in> set (graph_nodes g) \<Longrightarrow> successors (reverse_cfg r) (Real n) = map Real (predecessors g n)"
  using r map_get_nth[of Real ps] map_get_nth[of Real "predecessors g n"]
  by (auto simp: is_reverse_def successors_def reverse_cfg_def rg_num_successors_def rg_get_successor_def)

lemma reverse_predecessors:
  assumes r: "is_reverse g ps r"
  shows "predecessors (reverse_cfg r) Sentinel = []"
    and "predecessors (reverse_cfg r) (Real n) =
      map Real (successors g n) @ (if n \<in> set ps then [Sentinel] else [])"
  using r by (auto simp: is_reverse_def predecessors_def successors_def reverse_cfg_def
      rg_num_predecessors_def rg_get_predecessor_def)

lemma reverse_nodes:
  assumes "is_reverse g ps r"
  shows "graph_nodes (reverse_cfg r) = Sentinel # map Real (graph_nodes g)"
    and "entry_node (reverse_cfg r) = Some Sentinel"
  using assms by (simp_all add: is_reverse_def reverse_cfg_def rg_nodes_def)

text \<open>On nodes and in range the methods of the reverse graph do not panic.\<close>

lemma reverse_no_panic:
  assumes r: "is_reverse g ps r" and n: "n \<in> set (rg_nodes r)"
  shows "\<exists>k. rg_num_successors r n = Some k \<and> (\<forall>i < k. rg_get_successor r n i \<noteq> None)"
    and "\<exists>k. rg_num_predecessors r n = Some k \<and> (\<forall>i < k. rg_get_predecessor r n i \<noteq> None)"
  using assms
  by (auto simp: is_reverse_def rg_nodes_def rg_num_successors_def rg_get_successor_def
      rg_num_predecessors_def rg_get_predecessor_def split: if_splits)

lemma reverse_edge:
  assumes r: "is_reverse g ps r"
  shows "edge (reverse_cfg r) Sentinel x \<longleftrightarrow> (\<exists>s \<in> set ps. x = Real s)"
    and "n \<in> set (graph_nodes g) \<Longrightarrow> edge (reverse_cfg r) (Real n) x \<longleftrightarrow>
      (\<exists>m \<in> set (graph_nodes g). x = Real m \<and> edge g m n)"
proof -
  show "edge (reverse_cfg r) Sentinel x \<longleftrightarrow> (\<exists>s \<in> set ps. x = Real s)"
    by (auto simp: edge_def reverse_successors(1)[OF r])
  have wf: "wf_cfg g" using r by (simp add: is_reverse_def)
  show "n \<in> set (graph_nodes g) \<Longrightarrow> edge (reverse_cfg r) (Real n) x \<longleftrightarrow>
      (\<exists>m \<in> set (graph_nodes g). x = Real m \<and> edge g m n)"
    using wf_cfgD(3)[OF wf, of n] by (auto simp: edge_def[of "reverse_cfg r"] reverse_successors(2)[OF r])
qed

lemma reverse_wf:
  assumes r: "is_reverse g ps r"
  shows "wf_cfg (reverse_cfg r)"
proof -
  have wf: "wf_cfg g" and ps: "set ps \<subseteq> set (graph_nodes g)" using r by (auto simp: is_reverse_def)
  let ?N = "graph_nodes g"
  show ?thesis unfolding wf_cfg_def reverse_nodes[OF r]
  proof (intro conjI ballI allI)
    show "distinct (Sentinel # map Real ?N)" using wf_cfgD(1)[OF wf] by (auto simp: distinct_map inj_on_def)
    fix n
    assume n: "n \<in> set (Sentinel # map Real ?N)"
    show "set (successors (reverse_cfg r) n) \<subseteq> set (Sentinel # map Real ?N)"
    proof (cases n)
      case Sentinel
      then show ?thesis using ps by (auto simp: reverse_successors(1)[OF r])
    next
      case (Real m)
      then have "m \<in> set ?N" using n by auto
      then show ?thesis using Real wf_cfgD(3)[OF wf] by (auto simp: reverse_successors(2)[OF r])
    qed
    fix p
    show "p \<in> set (predecessors (reverse_cfg r) n) \<longleftrightarrow>
        p \<in> set (Sentinel # map Real ?N) \<and> n \<in> set (successors (reverse_cfg r) p)"
    proof (cases n)
      case Sentinel
      have "Sentinel \<notin> set (successors (reverse_cfg r) p)" if "p \<in> set (Sentinel # map Real ?N)"
        using that by (cases p) (auto simp: reverse_successors[OF r])
      then show ?thesis using Sentinel by (auto simp: reverse_predecessors(1)[OF r])
    next
      case (Real m)
      then have m: "m \<in> set ?N" using n by auto
      show ?thesis
      proof (cases p)
        case Sentinel
        then show ?thesis using Real by (auto simp: reverse_predecessors(2)[OF r] reverse_successors(1)[OF r])
      next
        case p: (Real q)
        have "edge g m q \<Longrightarrow> q \<in> set ?N" using wf_cfgD(2)[OF wf m] .
        moreover have "q \<in> set ?N \<Longrightarrow> m \<in> set (predecessors g q) \<longleftrightarrow> edge g m q"
          using wf_cfgD(3)[OF wf, of q] m by simp
        ultimately show ?thesis using Real p
          by (auto simp: reverse_predecessors(2)[OF r] reverse_successors(2)[OF r] edge_def)
      qed
    qed
  qed simp
qed

section \<open>Paths of the reverse graph\<close>

lemma reverse_reachable_node:
  assumes r: "is_reverse g ps r" and "reaches (reverse_cfg r) Sentinel x"
  shows "x = Sentinel \<or> (\<exists>m \<in> set (graph_nodes g). x = Real m)"
  using reaches_nodes[OF reverse_wf[OF r] assms(2)] reverse_nodes(1)[OF r] by auto

lemma no_edge_to_sentinel:
  assumes r: "is_reverse g ps r" and "reaches (reverse_cfg r) Sentinel x"
  shows "\<not> edge (reverse_cfg r) x Sentinel"
  using reverse_reachable_node[OF assms] reverse_edge[OF r] by auto

lemma sentinel_path:
  assumes r: "is_reverse g ps r" and p: "is_path (reverse_cfg r) Sentinel p Sentinel"
  shows "p = [Sentinel]"
proof -
  have ends: "p \<noteq> []" "last p = Sentinel" using is_path_ends[OF p] by auto
  then obtain p' where p': "p = p' @ [Sentinel]" by (metis append_butlast_last_id)
  show ?thesis
  proof (cases "p' = []")
    case False
    then obtain x where x: "is_path (reverse_cfg r) Sentinel p' x" "edge (reverse_cfg r) x Sentinel"
      using p p' by (auto simp: is_path_snoc)
    have "x \<in> set p'" using is_path_ends[OF x(1)] last_in_set by blast
    then have "reaches (reverse_cfg r) Sentinel x" using is_path_reaches[OF x(1)] by blast
    then show ?thesis using no_edge_to_sentinel[OF r] x(2) by blast
  qed (use p' in simp)
qed

lemma reverse_path_to:
  assumes r: "is_reverse g ps r"
  shows "v \<in> set (graph_nodes g) \<Longrightarrow> is_path (reverse_cfg r) Sentinel p (Real v) \<Longrightarrow>
    \<exists>q. \<exists>s \<in> set ps. is_path g v q s \<and> p = Sentinel # map Real (rev q)"
proof (induction p arbitrary: v rule: rev_induct)
  case (snoc w p)
  have w: "w = Real v" using is_path_ends[OF snoc.prems(2)] by simp
  have "p \<noteq> []" using snoc.prems(2) w by auto
  then obtain x where x: "is_path (reverse_cfg r) Sentinel p x" "edge (reverse_cfg r) x (Real v)"
    using snoc.prems(2) w by (auto simp: is_path_snoc)
  have "x \<in> set p" using is_path_ends[OF x(1)] last_in_set by blast
  then have rx: "reaches (reverse_cfg r) Sentinel x" using is_path_reaches[OF x(1)] by blast
  consider "x = Sentinel" | m where "m \<in> set (graph_nodes g)" "x = Real m"
    using reverse_reachable_node[OF r rx] by blast
  then show ?case
  proof cases
    case 1
    then have "v \<in> set ps" using x(2) reverse_edge(1)[OF r] by auto
    moreover have "p = [Sentinel]" using sentinel_path[OF r] x(1) 1 by simp
    ultimately show ?thesis using w by (intro exI[of _ "[v]"] bexI[of _ v]) auto
  next
    case 2
    obtain q s where q: "s \<in> set ps" "is_path g m q s" "p = Sentinel # map Real (rev q)"
      using snoc.IH[OF 2(1)] x(1) 2(2) by blast
    have "edge g v m" using reverse_edge(2)[OF r 2(1)] x(2) 2(2) by auto
    then have "is_path g v (v # q) s" using q(2) by (auto simp: is_path_Cons)
    then show ?thesis using q(1,3) w by (intro exI[of _ "v # q"] bexI[of _ s]) auto
  qed
qed simp

lemma reverse_path_from:
  assumes r: "is_reverse g ps r" and s: "s \<in> set ps"
  shows "v \<in> set (graph_nodes g) \<Longrightarrow> is_path g v q s \<Longrightarrow>
    is_path (reverse_cfg r) Sentinel (Sentinel # map Real (rev q)) (Real v)"
proof (induction q arbitrary: v)
  case (Cons x q)
  consider "q = []" "x = v" "s = v" | y where "x = v" "edge g v y" "is_path g y q s"
    using Cons.prems(2) by (auto simp: is_path_Cons)
  then show ?case
  proof cases
    case 1
    then show ?thesis using s reverse_edge(1)[OF r] by auto
  next
    case 2
    have wf: "wf_cfg g" using r by (simp add: is_reverse_def)
    have y: "y \<in> set (graph_nodes g)" using wf_cfgD(2)[OF wf Cons.prems(1) 2(2)] .
    have "edge (reverse_cfg r) (Real y) (Real v)" using reverse_edge(2)[OF r y] 2(2) Cons.prems(1) by auto
    then have "is_path (reverse_cfg r) Sentinel ((Sentinel # map Real (rev q)) @ [Real v]) (Real v)"
      using Cons.IH[OF y 2(3)] unfolding is_path_snoc[OF list.distinct(2)] by blast
    then show ?thesis using 2(1) by simp
  qed
qed simp

text \<open>\<open>d\<close> post-dominates \<open>v\<close>: every path from \<open>v\<close> to a pre-sentinel passes through \<open>d\<close>.\<close>

definition pdoms :: "'n cfg \<Rightarrow> 'n list \<Rightarrow> 'n \<Rightarrow> 'n \<Rightarrow> bool" where
  "pdoms g ps d v \<longleftrightarrow> v \<in> set (graph_nodes g) \<and> (\<forall>s \<in> set ps. \<forall>q. is_path g v q s \<longrightarrow> d \<in> set q)"

lemma pdoms_reverse:
  assumes r: "is_reverse g ps r" and v: "v \<in> set (graph_nodes g)" and s: "\<exists>s \<in> set ps. reaches g v s"
  shows "doms (reverse_cfg r) Sentinel (Real d) (Real v) \<longleftrightarrow> pdoms g ps d v"
    and "reaches (reverse_cfg r) Sentinel (Real v)"
proof -
  obtain s' q where q: "s' \<in> set ps" "is_path g v q s'" using s reaches_path by fast
  note p = reverse_path_from[OF r q(1) v q(2)]
  have "Real v \<in> set (Sentinel # map Real (rev q))" using is_path_ends[OF p] by (metis last_in_set)
  then show re: "reaches (reverse_cfg r) Sentinel (Real v)" using is_path_reaches[OF p] by blast
  show "doms (reverse_cfg r) Sentinel (Real d) (Real v) \<longleftrightarrow> pdoms g ps d v"
  proof
    assume d: "doms (reverse_cfg r) Sentinel (Real d) (Real v)"
    have "d \<in> set q" if "s \<in> set ps" "is_path g v q s" for s q
    proof -
      have "Real d \<in> set (Sentinel # map Real (rev q))"
        using d reverse_path_from[OF r that(1) v that(2)] unfolding doms_def by blast
      then show ?thesis by auto
    qed
    then show "pdoms g ps d v" using v by (simp add: pdoms_def)
  next
    assume d: "pdoms g ps d v"
    have "Real d \<in> set p" if p: "is_path (reverse_cfg r) Sentinel p (Real v)" for p
    proof -
      obtain q s where "s \<in> set ps" "is_path g v q s" "p = Sentinel # map Real (rev q)"
        using reverse_path_to[OF r v p] by blast
      then show ?thesis using d by (auto simp: pdoms_def)
    qed
    then show "doms (reverse_cfg r) Sentinel (Real d) (Real v)" using re by (simp add: doms_def)
  qed
qed

section \<open>The post-dominator tree keeps the contract\<close>

definition strip_node :: "'n reverse_node dom_node \<Rightarrow> 'n dom_node" where
  "strip_node dn = \<lparr>dn_parent = Option.bind (dn_parent dn) into_real,
     dn_children = map (\<lambda>c. the (into_real c)) (dn_children dn)\<rparr>"

lemma into_real_simps [simp]: "into_real Sentinel = None" "into_real (Real n) = Some n"
  by (simp_all add: into_real_def)

lemma into_real_Some [simp]: "into_real x = Some n \<longleftrightarrow> x = Real n"
  by (cases x) auto

definition pdom_of :: "'n cfg \<Rightarrow> 'n list \<Rightarrow> 'n pdom_tree \<Rightarrow> 'n reverse_graph \<Rightarrow> 'n reverse_node dom_tree \<Rightarrow> bool" where
  "pdom_of g ps pt r t \<longleftrightarrow>
     is_reverse g ps r \<and> has_entry (reverse_cfg r) \<and> the_dom_tree (reverse_cfg r) = t
     \<and> pt_pre_sentinels pt = ps \<and> pt_nodes pt = List.map_filter into_real (dt_nodes t)
     \<and> distinct (pt_nodes pt) \<and> set (pt_nodes pt) = set (graph_nodes g)
     \<and> dt_children t Sentinel = Some (map Real (sentinel_children pt))
     \<and> (\<forall>v. pt_lookup pt v = map_option strip_node (dt_lookup t (Real v)))"

lemma map_filter_fst:
  "map fst (List.map_filter (\<lambda>(x, y). map_option (\<lambda>n. (n, h y)) (into_real x)) xs) = List.map_filter into_real (map fst xs)"
  by (induction xs) (auto simp: List.map_filter_def split: prod.splits)

lemma distinct_map_filter_real: "distinct xs \<Longrightarrow> distinct (List.map_filter into_real xs)"
proof (induction xs)
  case (Cons x xs)
  then show ?case by (cases x) (auto simp: List.map_filter_def)
qed (simp add: List.map_filter_def)

lemma set_map_filter_real: "n \<in> set (List.map_filter into_real xs) \<longleftrightarrow> Real n \<in> set xs"
  by (force simp: List.map_filter_def)

lemma stripped_lookup:
  assumes d: "distinct (map fst xs)"
  shows "map_of (List.map_filter (\<lambda>(x, y). map_option (\<lambda>n. (n, h y)) (into_real x)) xs) v
    = map_option h (map_of xs (Real v))"
  using d
proof (induction xs)
  case (Cons xy xs)
  obtain x y where xy: "xy = (x, y)" by (cases xy)
  show ?case using Cons xy by (cases x) (auto simp: List.map_filter_def)
qed (simp add: List.map_filter_def)

lemma compute_post_dominator_tree_of:
  assumes wf: "wf_cfg g" and ne: "graph_nodes g \<noteq> []"
  shows "\<exists>ps pt r t. find_pre_sentinels g = Some ps \<and> compute_post_dominator_tree g = Some pt
    \<and> pdom_of g ps pt r t \<and> (\<forall>v \<in> set (graph_nodes g). \<exists>s \<in> set ps. reaches g v s)"
proof -
  let ?N = "graph_nodes g"
  obtain ps where ps: "find_pre_sentinels g = Some ps" "distinct ps" "set ps \<subseteq> set ?N"
      "\<forall>v \<in> set ?N. \<exists>s \<in> set ps. reaches g v s"
    using pre_sentinels_obtain[OF wf] .
  obtain r where new: "reverse_graph_new g = Some r" and r: "is_reverse g ps r"
    using reverse_new[OF wf ps(1,2)] wf ps(3) by (simp add: is_reverse_def)
  let ?R = "reverse_cfg r"
  have rp: "rg_pre_sentinels r = ps" using r by (simp add: is_reverse_def)
  have psne: "ps \<noteq> []" using ps(4) ne by (cases ?N) auto
  obtain t rpo da where t: "compute_dominator_tree ?R = Some t" "tree_of ?R Sentinel t rpo da" "has_entry ?R"
      "the_dom_tree ?R = t" "the (entry_node ?R) = Sentinel"
    using dom_tree_obtain[OF reverse_wf[OF r] reverse_nodes(2)[OF r]] .
  have keys: "map fst (dominators_map t) = rpo" using tree_keys[OF t(2)] .
  note rd = rpo_ofD[OF tree_ofD(1)[OF t(2)]]
  have mem: "x \<in> set rpo \<longleftrightarrow> x = Sentinel \<or> (\<exists>m \<in> set ?N. x = Real m)" for x
    using rd(2) reverse_reachable_node[OF r, of x] pdoms_reverse(2)[OF r] ps(4) by auto
  have num: "dt_num_nodes t = length ?N + 1"
  proof -
    have "set rpo = set (Sentinel # map Real ?N)" using mem by auto
    moreover have "distinct (Sentinel # map Real ?N)"
      using wf_cfgD(1)[OF wf] by (auto simp: distinct_map inj_on_def)
    ultimately have "length rpo = length (Sentinel # map Real ?N)" using rd(1) by (metis distinct_card)
    then show ?thesis using keys by (simp add: dt_num_nodes_def) (metis length_map)
  qed
  have kid: "\<exists>n. c = Real n" if "x \<in> set rpo" "dt_children t x = Some cs" "c \<in> set cs" for x c cs
  proof -
    have "reaches ?R Sentinel x" using that(1) rd(2) by simp
    then have "idom t c = Some (Some x)" using tree_children[OF t(2)] that(2,3) by fastforce
    then show ?thesis using tree_idom[OF t(2) reaches_refl] by (cases c) auto
  qed
  have omap_real: "omap into_real cs = Some (map (\<lambda>c. the (into_real c)) cs)"
    if "\<forall>c \<in> set cs. \<exists>n. c = Real n" for cs :: "'a reverse_node list"
    by (rule omap_Some) (use that in auto)
  obtain sc where sc: "dt_children t Sentinel = Some sc"
    using tree_children[OF t(2) reaches_refl] by blast
  have scr: "\<forall>c \<in> set sc. \<exists>n. c = Real n" using kid[OF _ sc] mem by blast
  let ?sc = "map (\<lambda>c. the (into_real c)) sc"
  have sc_back: "map Real ?sc = sc" using scr by (induction sc) auto
  let ?f = "\<lambda>(x, dn). map_option (\<lambda>n. (n, strip_node dn)) (into_real x)"
  have strip: "strip_sentinel xd = Some (?f xd)" if "xd \<in> set (dominators_map t)" for xd
  proof -
    obtain x dn where xd: "xd = (x, dn)" by (cases xd)
    have x: "x \<in> set rpo" using that xd keys by force
    have "dt_lookup t x = Some dn" using that xd keys rd(1) by (simp add: map_of_is_SomeI)
    then have "dt_children t x = Some (dn_children dn)" by (simp add: dt_children_def)
    then have "omap into_real (dn_children dn) = Some (map (\<lambda>c. the (into_real c)) (dn_children dn))"
      using omap_real kid[OF x] by blast
    then show ?thesis using xd by (cases x) (simp_all add: strip_sentinel_def strip_node_def)
  qed
  let ?m = "List.map_filter id (map ?f (dominators_map t))"
  have m: "omap strip_sentinel (dominators_map t) = Some (map ?f (dominators_map t))"
    using strip by (rule omap_Some)
  have mf: "?m = List.map_filter ?f (dominators_map t)" by (simp add: List.map_filter_def filter_map comp_def)
  have km: "map fst ?m = List.map_filter into_real rpo" unfolding mf map_filter_fst keys ..
  have dm: "distinct (map fst ?m)" unfolding km using distinct_map_filter_real rd(1) by blast
  let ?pt = "\<lparr>pt_pre_sentinels = ps, sentinel_children = ?sc, post_dominators_map = ?m\<rparr>"
  have c: "compute_post_dominator_tree g = Some ?pt"
    using new rp psne t(1) num sc omap_real[OF scr] m imap_collect_id[OF dm]
    by (simp add: compute_post_dominator_tree_def)
  have n1: "pt_nodes ?pt = List.map_filter into_real (dt_nodes t)" using km keys by (simp add: pt_nodes_def dt_nodes_def)
  have n2: "distinct (pt_nodes ?pt)" using dm by (simp add: pt_nodes_def)
  have n3: "set (pt_nodes ?pt) = set ?N"
    unfolding n1 using keys mem set_map_filter_real[of _ rpo] by (auto simp: dt_nodes_def)
  have l: "\<forall>v. pt_lookup ?pt v = map_option strip_node (dt_lookup t (Real v))"
    using stripped_lookup[of "dominators_map t" strip_node] keys rd(1) mf by simp
  have ch: "dt_children t Sentinel = Some (map Real (sentinel_children ?pt))" using sc sc_back by simp
  have "pdom_of g ps ?pt r t" unfolding pdom_of_def
    by (intro conjI r t(3,4) n1 n2 n3 l ch) simp
  then show ?thesis using c ps(1,4) by blast
qed

definition the_pdom_tree :: "'n cfg \<Rightarrow> 'n pdom_tree" where
  "the_pdom_tree g = the (compute_post_dominator_tree g)"

definition the_pre_sentinels :: "'n cfg \<Rightarrow> 'n list" where
  "the_pre_sentinels g = the (find_pre_sentinels g)"

definition pdom_rank :: "'n cfg \<Rightarrow> 'n \<Rightarrow> nat" where
  "pdom_rank g v = tree_rank (the_dom_tree (reverse_cfg (the (reverse_graph_new g)))) (Real v)"

lemma pdom_obtain:
  assumes "wf_cfg g" and "graph_nodes g \<noteq> []"
  obtains r t where "compute_post_dominator_tree g = Some (the_pdom_tree g)"
    and "pdom_of g (the_pre_sentinels g) (the_pdom_tree g) r t" and "reverse_graph_new g = Some r"
    and "\<forall>v \<in> set (graph_nodes g). \<exists>s \<in> set (the_pre_sentinels g). reaches g v s"
    and "find_pre_sentinels g = Some (the_pre_sentinels g)"
proof -
  obtain ps pt r t where p: "find_pre_sentinels g = Some ps" "compute_post_dominator_tree g = Some pt"
      "pdom_of g ps pt r t" "\<forall>v \<in> set (graph_nodes g). \<exists>s \<in> set ps. reaches g v s"
    using compute_post_dominator_tree_of[OF assms] by blast
  obtain ps' where "find_pre_sentinels g = Some ps'" "distinct ps'" using pre_sentinels_obtain[OF assms(1)] .
  then have "distinct ps" using p(1) by simp
  then have "reverse_graph_new g = Some r"
    using reverse_new[OF assms(1) p(1)] p(3) by (simp add: pdom_of_def is_reverse_def)
  then show ?thesis
    using that[of r t] p by (simp add: the_pdom_tree_def the_pre_sentinels_def)
qed

lemma empty_pdom_tree:
  assumes "wf_cfg g" and "graph_nodes g = []"
  shows "find_pre_sentinels g = Some []"
    and "compute_post_dominator_tree g = Some \<lparr>pt_pre_sentinels = [], sentinel_children = [], post_dominators_map = []\<rparr>"
proof -
  obtain ps where "find_pre_sentinels g = Some ps" "set ps \<subseteq> set (graph_nodes g)"
    using pre_sentinels_obtain[OF assms(1)] .
  then show f: "find_pre_sentinels g = Some []" using assms(2) by simp
  show "compute_post_dominator_tree g = Some \<lparr>pt_pre_sentinels = [], sentinel_children = [], post_dominators_map = []\<rparr>"
    using f by (simp add: compute_post_dominator_tree_def reverse_graph_new_def iset_collect_def iset_extend_def)
qed

lemma pdom_ofD:
  assumes "pdom_of g ps pt r t"
  shows "is_reverse g ps r" and "has_entry (reverse_cfg r)" and "the_dom_tree (reverse_cfg r) = t"
    and "pt_pre_sentinels pt = ps" and "distinct (pt_nodes pt)" and "set (pt_nodes pt) = set (graph_nodes g)"
    and "pt_lookup pt v = map_option strip_node (dt_lookup t (Real v))"
    and "the (entry_node (reverse_cfg r)) = Sentinel"
proof -
  note a = assms[unfolded pdom_of_def]
  show r: "is_reverse g ps r" using a by (rule conjunct1)
  show "the (entry_node (reverse_cfg r)) = Sentinel" using reverse_nodes(2)[OF r] by simp
  show "distinct (pt_nodes pt)" "set (pt_nodes pt) = set (graph_nodes g)"
    by (insert a, (elim conjE, assumption)+)
qed (use assms in \<open>simp_all add: pdom_of_def\<close>)

lemma pt_lookup_node: "pt_lookup pt v \<noteq> None \<longleftrightarrow> v \<in> set (pt_nodes pt)"
  by (simp add: pt_nodes_def map_of_eq_None_iff)

lemma doms_sentinel:
  assumes "is_reverse g ps r"
  shows "\<not> doms (reverse_cfg r) Sentinel (Real d) Sentinel"
proof
  assume "doms (reverse_cfg r) Sentinel (Real d) Sentinel"
  moreover have "is_path (reverse_cfg r) Sentinel [Sentinel] Sentinel" by simp
  ultimately show False unfolding doms_def by fastforce
qed

lemma pdom_laws:
  assumes wf: "wf_cfg g" and l: "pt_lookup (the_pdom_tree g) v = Some dn"
  shows "dn_parent dn = None \<Longrightarrow> pdoms g (the_pre_sentinels g) d v \<longleftrightarrow> d = v"
    and "dn_parent dn = Some p \<Longrightarrow> pt_lookup (the_pdom_tree g) p \<noteq> None \<and> pdom_rank g p < pdom_rank g v
      \<and> (\<forall>d. pdoms g (the_pre_sentinels g) d v \<longleftrightarrow> d = v \<or> pdoms g (the_pre_sentinels g) d p)"
proof -
  let ?pt = "the_pdom_tree g" and ?ps = "the_pre_sentinels g"
  have ne: "graph_nodes g \<noteq> []" using l empty_pdom_tree(2)[OF wf] by (auto simp: the_pdom_tree_def)
  obtain r t where p: "compute_post_dominator_tree g = Some ?pt" "pdom_of g ?ps ?pt r t"
      "reverse_graph_new g = Some r" "\<forall>v \<in> set (graph_nodes g). \<exists>s \<in> set ?ps. reaches g v s"
    using pdom_obtain[OF wf ne] .
  note d = pdom_ofD[OF p(2)]
  let ?R = "reverse_cfg r"
  obtain dn' where dn': "dt_lookup t (Real v) = Some dn'" "dn = strip_node dn'" using l d(7)[of v] by auto
  have par: "dn_parent dn = Option.bind (dn_parent dn') into_real" using dn'(2) by (simp add: strip_node_def)
  have look: "dt_lookup (the_dom_tree ?R) = dt_lookup t" using d(3) by simp
  have rank: "pdom_rank g u = tree_rank t (Real u)" for u using p(3) d(3) by (simp add: pdom_rank_def)
  have nd: "u \<in> set (graph_nodes g)" if "pt_lookup ?pt u \<noteq> None" for u using that pt_lookup_node d(6) by metis
  have eqv: "doms ?R Sentinel (Real x) (Real u) \<longleftrightarrow> pdoms g ?ps x u" if "pt_lookup ?pt u \<noteq> None" for x u
    using pdoms_reverse(1)[OF d(1) nd[OF that]] p(4) nd[OF that] by blast
  have v: "pt_lookup ?pt v \<noteq> None" using l by simp
  show "pdoms g ?ps d v \<longleftrightarrow> d = v" if "dn_parent dn = None" for d
  proof (cases "dn_parent dn'")
    case None
    then show ?thesis using dom.root_law[OF d(2), of "Real v" dn' "Real d"] look dn'(1) eqv[OF v] d(8) by simp
  next
    case (Some x)
    then have x: "x = Sentinel" using that par by (cases x) auto
    then show ?thesis
      using dom.parent_law[OF d(2), of "Real v" dn' x] look dn'(1) Some eqv[OF v] d(8) doms_sentinel[OF d(1)]
      by auto
  qed
  show "pt_lookup ?pt p \<noteq> None \<and> pdom_rank g p < pdom_rank g v
      \<and> (\<forall>d. pdoms g ?ps d v \<longleftrightarrow> d = v \<or> pdoms g ?ps d p)" if "dn_parent dn = Some p" for p
  proof -
    have x: "dn_parent dn' = Some (Real p)" using that par by (cases "dn_parent dn'") auto
    note law = dom.parent_law[OF d(2), of "Real v" dn' "Real p", unfolded look d(3,8), OF dn'(1) x]
    have p: "pt_lookup ?pt p \<noteq> None" using law d(7)[of p] by auto
    show ?thesis using law p rank eqv[OF v] eqv[OF p] by auto
  qed
qed

interpretation pdom: dominance_forest wf_cfg "\<lambda>g. pt_lookup (the_pdom_tree g)"
  "\<lambda>g. pdoms g (the_pre_sentinels g)" pdom_rank
  by unfold_locales (rule pdom_laws; assumption)+

lemma pdom_trees:
  assumes "wf_cfg g"
  shows "compute_post_dominator_tree g = Some (the_pdom_tree g)"
    and "find_pre_sentinels g = Some (the_pre_sentinels g)"
    and "pt_pre_sentinels (the_pdom_tree g) = the_pre_sentinels g"
    and "distinct (pt_nodes (the_pdom_tree g))" and "set (pt_nodes (the_pdom_tree g)) = set (graph_nodes g)"
proof -
  have "compute_post_dominator_tree g = Some (the_pdom_tree g) \<and> find_pre_sentinels g = Some (the_pre_sentinels g)
    \<and> pt_pre_sentinels (the_pdom_tree g) = the_pre_sentinels g
    \<and> distinct (pt_nodes (the_pdom_tree g)) \<and> set (pt_nodes (the_pdom_tree g)) = set (graph_nodes g)"
  proof (cases "graph_nodes g = []")
    case True
    then show ?thesis using empty_pdom_tree[OF assms True]
      by (simp add: the_pdom_tree_def the_pre_sentinels_def pt_nodes_def)
  next
    case False
    obtain r t where p: "compute_post_dominator_tree g = Some (the_pdom_tree g)"
        "pdom_of g (the_pre_sentinels g) (the_pdom_tree g) r t" "find_pre_sentinels g = Some (the_pre_sentinels g)"
      using pdom_obtain[OF assms False] .
    then show ?thesis using pdom_ofD(4-6)[OF p(2)] by simp
  qed
  then show "compute_post_dominator_tree g = Some (the_pdom_tree g)"
    "find_pre_sentinels g = Some (the_pre_sentinels g)"
    "pt_pre_sentinels (the_pdom_tree g) = the_pre_sentinels g"
    "distinct (pt_nodes (the_pdom_tree g))" "set (pt_nodes (the_pdom_tree g)) = set (graph_nodes g)"
    by simp_all
qed

lemma post_dominates_at:
  assumes "wf_cfg g" and "v \<in> set (graph_nodes g)"
  shows "post_dominates (the_pdom_tree g) d v = Some (pdoms g (the_pre_sentinels g) d v)"
proof -
  let ?t = "the_pdom_tree g" and ?ps = "the_pre_sentinels g"
  have l: "pt_lookup ?t v \<noteq> None" using pt_lookup_node[of ?t v] pdom_trees(5)[OF assms(1)] assms(2) by simp
  obtain r where r: "ancestors_find (pt_lookup ?t) (\<lambda>n. Some (n = d)) v = Some r"
      "case r of None \<Rightarrow> \<forall>d'. pdoms g ?ps d' v \<longrightarrow> d' \<noteq> d
       | Some c \<Rightarrow> pdoms g ?ps c v \<and> c = d \<and> (\<forall>d'. pdoms g ?ps d' v \<longrightarrow> d' = d \<longrightarrow> pdoms g ?ps d' c)"
    using pdom.ancestors_find_correct[OF assms(1) l, of "\<lambda>n. Some (n = d)" "\<lambda>n. n = d"] by auto
  then show ?thesis by (cases r) (auto simp: post_dominates_def)
qed

text \<open>
  C7. For every well-formed graph \<open>compute_post_dominator_tree\<close> returns without tripping its assertions;
  the tree holds every node once, infinite loops included; \<open>post_dominates\<close> answers whether
  every path to a pre-sentinel passes through the post-dominator; and \<open>post_dominators\<close>
  lists all of them once, the node first.
\<close>

theorem post_dominates_correct:
  assumes "wf_cfg g"
  shows "\<exists>ps t. find_pre_sentinels g = Some ps \<and> compute_post_dominator_tree g = Some t
    \<and> pt_pre_sentinels t = ps \<and> distinct (pt_nodes t) \<and> set (pt_nodes t) = set (graph_nodes g)
    \<and> (\<forall>v \<in> set (graph_nodes g).
        (\<forall>d. post_dominates t d v = Some (\<forall>s \<in> set ps. \<forall>q. is_path g v q s \<longrightarrow> d \<in> set q))
        \<and> (\<exists>ds. post_dominators t v = Some ds \<and> distinct ds \<and> hd ds = v
            \<and> set ds = {d. \<forall>s \<in> set ps. \<forall>q. is_path g v q s \<longrightarrow> d \<in> set q}))"
proof -
  let ?t = "the_pdom_tree g" and ?ps = "the_pre_sentinels g"
  note trees = pdom_trees[OF assms]
  have main: "(\<forall>d. post_dominates ?t d v = Some (\<forall>s \<in> set ?ps. \<forall>q. is_path g v q s \<longrightarrow> d \<in> set q))
        \<and> (\<exists>ds. post_dominators ?t v = Some ds \<and> distinct ds \<and> hd ds = v
            \<and> set ds = {d. \<forall>s \<in> set ?ps. \<forall>q. is_path g v q s \<longrightarrow> d \<in> set q})"
    if v: "v \<in> set (graph_nodes g)" for v
  proof -
    have l: "pt_lookup ?t v \<noteq> None" using pt_lookup_node[of ?t v] trees(5) v by simp
    have p: "pdoms g ?ps d v \<longleftrightarrow> (\<forall>s \<in> set ?ps. \<forall>q. is_path g v q s \<longrightarrow> d \<in> set q)" for d
      using v by (simp add: pdoms_def)
    have "post_dominates ?t d v = Some (pdoms g ?ps d v)" for d
      using post_dominates_at[OF assms v] .
    moreover obtain ds where "ancestors (pt_lookup ?t) v = Some ds" "set ds = {d. pdoms g ?ps d v}"
        "distinct ds" "hd ds = v" using pdom.ancestors_correct[OF assms l] by blast
    ultimately show ?thesis using p by (auto simp: post_dominators_def)
  qed
  then show ?thesis using trees by (intro exI[of _ ?ps] exI[of _ ?t]) simp
qed

theorem post_dominates_correct_witness:
  "\<exists>t. compute_post_dominator_tree demo_cfg = Some t \<and> post_dominates t 13 13 = Some True"
proof -
  have "13 \<in> set (graph_nodes demo_cfg)" by (simp add: demo_cfg_def cfg_of_def Let_def)
  moreover have "13 \<in> set q" if "is_path demo_cfg 13 q s" for q s
    using is_path_ends[OF that] by (metis hd_in_set)
  ultimately show ?thesis using post_dominates_correct[OF demo_cfg_wf] by fastforce
qed

text \<open>
  \<open>ipdom\<close> of a node is its strict post-dominator that all its strict post-dominators
  post-dominate, and is missing exactly when the node has none (only the sentinel is above it);
  \<open>nearest_common_post_dominator\<close> is the common post-dominator that every common one
  post-dominates, and missing exactly when there is none.
\<close>

theorem ipdom_correct:
  assumes "wf_cfg g"
  shows "\<exists>ps t. find_pre_sentinels g = Some ps \<and> compute_post_dominator_tree g = Some t
    \<and> (\<forall>v \<in> set (graph_nodes g).
        ipdom t v = Some None \<and> (\<forall>d. pdoms g ps d v \<longleftrightarrow> d = v)
        \<or> (\<exists>p. ipdom t v = Some (Some p) \<and> p \<noteq> v \<and> pdoms g ps p v
            \<and> (\<forall>d. pdoms g ps d v \<and> d \<noteq> v \<longrightarrow> pdoms g ps d p)))
    \<and> (\<forall>v \<in> set (graph_nodes g). \<forall>w \<in> set (graph_nodes g).
        nearest_common_post_dominator t v w = Some None \<and> (\<forall>d. \<not> (pdoms g ps d v \<and> pdoms g ps d w))
        \<or> (\<exists>c. nearest_common_post_dominator t v w = Some (Some c) \<and> pdoms g ps c v \<and> pdoms g ps c w
            \<and> (\<forall>d. pdoms g ps d v \<and> pdoms g ps d w \<longrightarrow> pdoms g ps d c)))"
proof -
  let ?t = "the_pdom_tree g" and ?ps = "the_pre_sentinels g"
  note trees = pdom_trees[OF assms]
  have l: "pt_lookup ?t v \<noteq> None" if "v \<in> set (graph_nodes g)" for v
    using pt_lookup_node[of ?t v] trees(5) that by simp
  have up: "ipdom ?t v = Some None \<and> (\<forall>d. pdoms g ?ps d v \<longleftrightarrow> d = v)
        \<or> (\<exists>p. ipdom ?t v = Some (Some p) \<and> p \<noteq> v \<and> pdoms g ?ps p v
            \<and> (\<forall>d. pdoms g ?ps d v \<and> d \<noteq> v \<longrightarrow> pdoms g ?ps d p))"
    if v: "v \<in> set (graph_nodes g)" for v
  proof -
    obtain dn where dn: "pt_lookup ?t v = Some dn" using l[OF v] by blast
    then show ?thesis using pdom.immediate[OF assms dn] by (simp add: ipdom_def)
  qed
  have near: "nearest_common_post_dominator ?t v w = Some None \<and> (\<forall>d. \<not> (pdoms g ?ps d v \<and> pdoms g ?ps d w))
        \<or> (\<exists>c. nearest_common_post_dominator ?t v w = Some (Some c) \<and> pdoms g ?ps c v \<and> pdoms g ?ps c w
            \<and> (\<forall>d. pdoms g ?ps d v \<and> pdoms g ?ps d w \<longrightarrow> pdoms g ?ps d c))"
    if vw: "v \<in> set (graph_nodes g)" "w \<in> set (graph_nodes g)" for v w
  proof -
    have pw: "post_dominates ?t x w = Some (pdoms g ?ps x w)" for x
      using post_dominates_at[OF assms vw(2)] .
    obtain r where r: "nearest_common_post_dominator ?t v w = Some r"
      "case r of None \<Rightarrow> \<forall>d. pdoms g ?ps d v \<longrightarrow> \<not> pdoms g ?ps d w
       | Some c \<Rightarrow> pdoms g ?ps c v \<and> pdoms g ?ps c w
          \<and> (\<forall>d. pdoms g ?ps d v \<longrightarrow> pdoms g ?ps d w \<longrightarrow> pdoms g ?ps d c)"
      using pdom.ancestors_find_correct[OF assms l[OF vw(1)], of "\<lambda>n. post_dominates ?t n w" "\<lambda>n. pdoms g ?ps n w"] pw
      by (auto simp: nearest_common_post_dominator_def)
    then show ?thesis by (cases r) auto
  qed
  show ?thesis using trees(1,2) up near by (intro exI[of _ ?ps] exI[of _ ?t]) simp
qed

theorem ipdom_correct_witness:
  "\<exists>ps t. find_pre_sentinels demo_cfg = Some ps \<and> compute_post_dominator_tree demo_cfg = Some t
    \<and> ipdom t 13 \<noteq> None"
proof -
  have "13 \<in> set (graph_nodes demo_cfg)" by (simp add: demo_cfg_def cfg_of_def Let_def)
  then show ?thesis using ipdom_correct[OF demo_cfg_wf] by fastforce
qed

end
