(* ===== verification/ControlDep.thy ===== *)
theory ControlDep
  imports Reverse
begin

text \<open>
  Model of \<^verbatim>\<open>src/src/graph/control_dependence.rs\<close>: direct control dependence by walks of the
  post-dominator tree, its queries, and the transitive searches. The theorem is Morgan's
  definition: \<open>X\<close> depends on edge \<open>(B, S)\<close> when it post-dominates \<open>S\<close> and does not strictly
  post-dominate \<open>B\<close>.
\<close>

section \<open>The model\<close>

record 'n cfg_edge =
  source :: 'n
  successor_index :: nat

record 'n control_dependence =
  edge_dependents :: "('n \<times> 'n list list) list"
  controlling_edges :: "'n \<rightharpoonup> 'n cfg_edge list"

fun cd_init :: "'n pdom_tree \<Rightarrow> 'n list \<Rightarrow> 'n control_dependence \<Rightarrow> 'n control_dependence option" where
  "cd_init t [] cd = Some cd"
| "cd_init t (node # nodes) cd = do {
     ocheck (pt_contains t node);
     cd_init t nodes (cd\<lparr>controlling_edges := (controlling_edges cd)(node \<mapsto> []),
       edge_dependents := AList.update node [] (edge_dependents cd)\<rparr>)
   }"

text \<open>The walk up the tree from an edge's target; \<open>None\<close> as runner is the sentinel.\<close>

partial_function (option) cd_walk ::
    "'n pdom_tree \<Rightarrow> 'n cfg_edge \<Rightarrow> 'n option \<Rightarrow> 'n option \<Rightarrow> ('n \<rightharpoonup> 'n cfg_edge list) \<Rightarrow> 'n list \<Rightarrow>
     (('n \<rightharpoonup> 'n cfg_edge list) \<times> 'n list) option" where
  "cd_walk t e stop runner ctrl dependents =
     (if runner \<noteq> stop then do {
        node \<leftarrow> runner;
        es \<leftarrow> ctrl node;
        runner \<leftarrow> ipdom t node;
        cd_walk t e stop runner (ctrl(node \<mapsto> es @ [e])) (dependents @ [node])
      } else Some (ctrl, dependents))"

declare cd_walk.simps [code]

fun cd_successors ::
    "'n cfg \<Rightarrow> 'n pdom_tree \<Rightarrow> 'n \<Rightarrow> 'n option \<Rightarrow> nat list \<Rightarrow> 'n control_dependence \<Rightarrow> 'n control_dependence option" where
  "cd_successors g t src stop [] cd = Some cd"
| "cd_successors g t src stop (i # is) cd = do {
     (ctrl, dependents) \<leftarrow> cd_walk t \<lparr>source = src, successor_index = i\<rparr> stop
       (Some (get_successor g src i)) (controlling_edges cd) [];
     ls \<leftarrow> map_of (edge_dependents cd) src;
     cd_successors g t src stop is (cd\<lparr>controlling_edges := ctrl,
       edge_dependents := AList.update src (ls @ [dependents]) (edge_dependents cd)\<rparr>)
   }"

fun cd_sources ::
    "'n cfg \<Rightarrow> 'n pdom_tree \<Rightarrow> 'n list \<Rightarrow> 'n control_dependence \<Rightarrow> 'n control_dependence option" where
  "cd_sources g t [] cd = Some cd"
| "cd_sources g t (src # srcs) cd = do {
     stop \<leftarrow> ipdom t src;
     cd \<leftarrow> cd_successors g t src stop [0..<num_successors g src] cd;
     cd_sources g t srcs cd
   }"

definition compute_control_dependence :: "'n cfg \<Rightarrow> 'n pdom_tree \<Rightarrow> 'n control_dependence option" where
  "compute_control_dependence g t = do {
     cd \<leftarrow> cd_init t (graph_nodes g) \<lparr>edge_dependents = [], controlling_edges = Map.empty\<rparr>;
     ocheck (pt_num_nodes t = length (edge_dependents cd));
     cd_sources g t (graph_nodes g) cd
   }"

section \<open>Queries\<close>

definition cd_contains :: "'n control_dependence \<Rightarrow> 'n \<Rightarrow> bool" where
  "cd_contains cd block \<longleftrightarrow> map_of (edge_dependents cd) block \<noteq> None"

definition cd_num_nodes :: "'n control_dependence \<Rightarrow> nat" where
  "cd_num_nodes cd = length (edge_dependents cd)"

definition cd_nodes :: "'n control_dependence \<Rightarrow> 'n list" where
  "cd_nodes cd = map fst (edge_dependents cd)"

definition dependents_of_edge :: "'n control_dependence \<Rightarrow> 'n \<Rightarrow> nat \<Rightarrow> 'n list option" where
  "dependents_of_edge cd src i = do { ls \<leftarrow> map_of (edge_dependents cd) src; oget ls i }"

definition direct_controlling_edges :: "'n control_dependence \<Rightarrow> 'n \<Rightarrow> 'n cfg_edge list option" where
  "direct_controlling_edges cd block = controlling_edges cd block"

definition direct_controllers :: "'n control_dependence \<Rightarrow> 'n \<Rightarrow> 'n list option" where
  "direct_controllers cd block = do {
     es \<leftarrow> direct_controlling_edges cd block;
     Some (iset_collect (map source es))
   }"

definition direct_dependents :: "'n control_dependence \<Rightarrow> 'n \<Rightarrow> 'n list option" where
  "direct_dependents cd controller = do {
     ls \<leftarrow> map_of (edge_dependents cd) controller;
     Some (iset_collect (concat ls))
   }"

datatype cd_direction = Controllers | Dependents

definition direct_neighbours :: "'n control_dependence \<Rightarrow> cd_direction \<Rightarrow> 'n \<Rightarrow> 'n list option" where
  "direct_neighbours cd dir n =
     (case dir of Controllers \<Rightarrow> direct_controllers cd n | Dependents \<Rightarrow> direct_dependents cd n)"

text \<open>The set is also a queue: node number \<open>index\<close> is processed next.\<close>

partial_function (option) transitive_loop ::
    "'n control_dependence \<Rightarrow> cd_direction \<Rightarrow> 'n list \<Rightarrow> nat \<Rightarrow> 'n list option" where
  "transitive_loop cd dir reached index =
     (if index < length reached then do {
        ns \<leftarrow> direct_neighbours cd dir (reached ! index);
        transitive_loop cd dir (iset_extend reached ns) (index + 1)
      } else Some reached)"

declare transitive_loop.simps [code]

definition transitive_nodes :: "'n control_dependence \<Rightarrow> 'n \<Rightarrow> cd_direction \<Rightarrow> 'n list option" where
  "transitive_nodes cd start dir = do {
     reached \<leftarrow> direct_neighbours cd dir start;
     transitive_loop cd dir reached 0
   }"

definition transitive_controllers :: "'n control_dependence \<Rightarrow> 'n \<Rightarrow> 'n list option" where
  "transitive_controllers cd block = transitive_nodes cd block Controllers"

definition transitive_dependents :: "'n control_dependence \<Rightarrow> 'n \<Rightarrow> 'n list option" where
  "transitive_dependents cd controller = transitive_nodes cd controller Dependents"

definition is_directly_control_dependent :: "'n control_dependence \<Rightarrow> 'n \<Rightarrow> 'n \<Rightarrow> bool option" where
  "is_directly_control_dependent cd dependent controller = do {
     ocheck (cd_contains cd controller);
     es \<leftarrow> direct_controlling_edges cd dependent;
     Some (\<exists>e \<in> set es. source e = controller)
   }"

text \<open>One block's edges in the transitive search: stop at the controller, else visit new sources.\<close>

fun search_edges ::
    "'n \<Rightarrow> 'n cfg_edge list \<Rightarrow> 'n set \<Rightarrow> 'n list \<Rightarrow> bool \<times> 'n set \<times> 'n list" where
  "search_edges controller [] visited pending = (False, visited, pending)"
| "search_edges controller (e # es) visited pending =
     (if source e = controller then (True, visited, pending)
      else if source e \<in> visited then search_edges controller es visited pending
      else search_edges controller es (insert (source e) visited) (source e # pending))"

partial_function (option) search_loop ::
    "'n control_dependence \<Rightarrow> 'n \<Rightarrow> 'n set \<Rightarrow> 'n list \<Rightarrow> bool option" where
  "search_loop cd controller visited pending =
     (case pending of
        [] \<Rightarrow> Some False
      | block # pending \<Rightarrow> do {
          es \<leftarrow> controlling_edges cd block;
          (case search_edges controller es visited pending of
             (found, visited, pending) \<Rightarrow>
               if found then Some True else search_loop cd controller visited pending)
        })"

declare search_loop.simps [code]

definition is_transitively_control_dependent :: "'n control_dependence \<Rightarrow> 'n \<Rightarrow> 'n \<Rightarrow> bool option" where
  "is_transitively_control_dependent cd dependent controller = do {
     ocheck (cd_contains cd controller);
     search_loop cd controller {dependent} [dependent]
   }"

section \<open>One walk\<close>

definition push_edges :: "'n cfg_edge \<Rightarrow> 'n list \<Rightarrow> ('n \<rightharpoonup> 'n cfg_edge list) \<Rightarrow> ('n \<rightharpoonup> 'n cfg_edge list)" where
  "push_edges e xs ctrl = (\<lambda>x. if x \<in> set xs then map_option (\<lambda>l. l @ [e]) (ctrl x) else ctrl x)"

lemma push_edges_Nil [simp]: "push_edges e [] ctrl = ctrl"
  by (simp add: push_edges_def)

lemma push_edges_Cons:
  "ctrl x = Some es \<Longrightarrow> x \<notin> set xs \<Longrightarrow> push_edges e xs (ctrl(x \<mapsto> es @ [e])) = push_edges e (x # xs) ctrl"
  by (rule ext) (simp add: push_edges_def)

lemma cd_walk_correct:
  "ancestors (pt_lookup t) v = Some ds \<Longrightarrow> distinct ds \<Longrightarrow> \<forall>x \<in> set ds. ctrl x \<noteq> None \<Longrightarrow>
    stop = None \<or> (\<exists>p \<in> set ds. stop = Some p) \<Longrightarrow>
    cd_walk t e stop (Some v) ctrl deps =
      Some (push_edges e (takeWhile (\<lambda>x. Some x \<noteq> stop) ds) ctrl, deps @ takeWhile (\<lambda>x. Some x \<noteq> stop) ds)"
proof (induction ds arbitrary: v ctrl deps)
  case Nil
  then show ?case
    by (cases "pt_lookup t v") (auto simp: ancestors.simps[of _ v] split: option.splits Option.bind_splits)
next
  case (Cons d ds)
  obtain dn where dn: "pt_lookup t v = Some dn"
    using Cons.prems(1) by (cases "pt_lookup t v") (auto simp: ancestors.simps[of _ v])
  have v: "d = v" and rest: "case dn_parent dn of None \<Rightarrow> ds = [] | Some p \<Rightarrow> ancestors (pt_lookup t) p = Some ds"
    using Cons.prems(1) dn by (auto simp: ancestors.simps[of _ v] split: option.splits Option.bind_splits)
  have ip: "ipdom t v = Some (dn_parent dn)" using dn by (simp add: ipdom_def)
  obtain es where es: "ctrl v = Some es" using Cons.prems(3) v by auto
  show ?case
  proof (cases "Some v = stop")
    case True
    then show ?thesis using v by (auto simp: cd_walk.simps[of t e "Some v" "Some v"])
  next
    case False
    have step: "cd_walk t e stop (Some v) ctrl deps =
        cd_walk t e stop (dn_parent dn) (ctrl(v \<mapsto> es @ [e])) (deps @ [v])"
      using False es ip by (simp add: cd_walk.simps[of t e stop "Some v"])
    show ?thesis
    proof (cases "dn_parent dn")
      case None
      then have "ds = []" using rest by simp
      then have "stop = None" using Cons.prems(4) False v by auto
      then show ?thesis using step None \<open>ds = []\<close> v es push_edges_Cons[of ctrl v es "[]" e]
        by (simp add: cd_walk.simps[of t e None None])
    next
      case (Some p)
      then have a: "ancestors (pt_lookup t) p = Some ds" using rest by simp
      have stop: "stop = None \<or> (\<exists>p \<in> set ds. stop = Some p)" using Cons.prems(4) False v by auto
      have c: "\<forall>x \<in> set ds. (ctrl(v \<mapsto> es @ [e])) x \<noteq> None" using Cons.prems(3) by simp
      have "v \<notin> set (takeWhile (\<lambda>x. Some x \<noteq> stop) ds)"
        using Cons.prems(2) v by (auto dest: set_takeWhileD)
      then show ?thesis
        using step Some Cons.IH[OF a _ c stop, of "deps @ [v]"] Cons.prems(2) False v
          push_edges_Cons[of ctrl v es "takeWhile (\<lambda>x. Some x \<noteq> stop) ds" e] es
        by (simp del: fun_upd_apply)
    qed
  qed
qed

section \<open>The whole computation\<close>

text \<open>The dependents of edge number \<open>i\<close> of \<open>b\<close>, as the walk computes them.\<close>

definition edge_walk :: "'n cfg \<Rightarrow> 'n \<Rightarrow> nat \<Rightarrow> 'n list" where
  "edge_walk g b i = takeWhile (\<lambda>x. Some x \<noteq> the (ipdom (the_pdom_tree g) b))
     (the (ancestors (pt_lookup (the_pdom_tree g)) (get_successor g b i)))"

lemma pdom_lookup: "wf_cfg g \<Longrightarrow> v \<in> set (graph_nodes g) \<Longrightarrow> pt_lookup (the_pdom_tree g) v \<noteq> None"
  using pt_lookup_node[of "the_pdom_tree g" v] pdom_trees(5) by blast

lemma pdom_chain:
  assumes "wf_cfg g" and "v \<in> set (graph_nodes g)"
  shows "\<exists>ds. ancestors (pt_lookup (the_pdom_tree g)) v = Some ds \<and> distinct ds
    \<and> set ds = {d. pdoms g (the_pre_sentinels g) d v}
    \<and> (\<forall>as d bs. ds = as @ d # bs \<longrightarrow> set (d # bs) = {d'. pdoms g (the_pre_sentinels g) d' d})"
  using pdom.ancestors_correct[OF assms(1) pdom_lookup[OF assms]] by blast

lemma pdoms_node:
  assumes "wf_cfg g" and "pdoms g (the_pre_sentinels g) d v"
  shows "d \<in> set (graph_nodes g)"
proof -
  have v: "v \<in> set (graph_nodes g)" using assms(2) by (simp add: pdoms_def)
  then show ?thesis
    using pdom.member_rank[OF assms(1) pdom_lookup[OF assms(1) v] assms(2)]
      pt_lookup_node[of "the_pdom_tree g" d] pdom_trees(5)[OF assms(1)] by simp
qed

text \<open>The immediate post-dominator of an edge's source is above its target.\<close>

lemma ipdom_of_source:
  assumes wf: "wf_cfg g" and b: "b \<in> set (graph_nodes g)" and e: "edge g b s"
    and p: "pdoms g (the_pre_sentinels g) p b" "p \<noteq> b"
  shows "pdoms g (the_pre_sentinels g) p s"
proof -
  have s: "s \<in> set (graph_nodes g)" using wf_cfgD(2)[OF wf b e] .
  have "p \<in> set q" if x: "x \<in> set (the_pre_sentinels g)" "is_path g s q x" for x q
  proof -
    have "is_path g b (b # q) x" using x(2) e by (auto simp: is_path_Cons)
    then have "p \<in> set (b # q)" using p(1) x(1) unfolding pdoms_def by blast
    then show ?thesis using p(2) by simp
  qed
  then show ?thesis using s by (simp add: pdoms_def)
qed

lemma edge_walk_correct:
  assumes wf: "wf_cfg g" and b: "b \<in> set (graph_nodes g)" and i: "i < num_successors g b"
  shows "\<exists>ds stop. ancestors (pt_lookup (the_pdom_tree g)) (get_successor g b i) = Some ds \<and> distinct ds
      \<and> ipdom (the_pdom_tree g) b = Some stop \<and> (stop = None \<or> (\<exists>p \<in> set ds. stop = Some p))
      \<and> set ds \<subseteq> set (graph_nodes g) \<and> edge_walk g b i = takeWhile (\<lambda>x. Some x \<noteq> stop) ds"
    and "distinct (edge_walk g b i)"
    and "set (edge_walk g b i) = {x. pdoms g (the_pre_sentinels g) x (get_successor g b i)
      \<and> (x = b \<or> \<not> pdoms g (the_pre_sentinels g) x b)}"
proof -
  let ?t = "the_pdom_tree g" and ?P = "pdoms g (the_pre_sentinels g)" and ?s = "get_successor g b i"
  have e: "edge g b ?s" using edge_get_successor[OF i] .
  have s: "?s \<in> set (graph_nodes g)" using wf_cfgD(2)[OF wf b e] .
  obtain ds where ds: "ancestors (pt_lookup ?t) ?s = Some ds" "distinct ds" "set ds = {d. ?P d ?s}"
      "\<forall>as d bs. ds = as @ d # bs \<longrightarrow> set (d # bs) = {d'. ?P d' d}"
    using pdom_chain[OF wf s] by blast
  obtain dn where dn: "pt_lookup ?t b = Some dn" using pdom_lookup[OF wf b] by blast
  have ip: "ipdom ?t b = Some (dn_parent dn)" using dn by (simp add: ipdom_def)
  have ew: "edge_walk g b i = takeWhile (\<lambda>x. Some x \<noteq> dn_parent dn) ds"
    using ip ds(1) by (simp add: edge_walk_def)
  have cases: "dn_parent dn = None \<and> (\<forall>d. ?P d b \<longleftrightarrow> d = b)
    \<or> (\<exists>p. dn_parent dn = Some p \<and> p \<noteq> b \<and> ?P p b \<and> (\<forall>d. ?P d b \<and> d \<noteq> b \<longrightarrow> ?P d p))"
    using pdom.immediate[OF wf dn] .
  have stop: "dn_parent dn = None \<or> (\<exists>p \<in> set ds. dn_parent dn = Some p)"
    using cases ipdom_of_source[OF wf b e] ds(3) by blast
  show "\<exists>ds stop. ancestors (pt_lookup ?t) ?s = Some ds \<and> distinct ds
      \<and> ipdom ?t b = Some stop \<and> (stop = None \<or> (\<exists>p \<in> set ds. stop = Some p))
      \<and> set ds \<subseteq> set (graph_nodes g) \<and> edge_walk g b i = takeWhile (\<lambda>x. Some x \<noteq> stop) ds"
    using ds(1-3) ip stop ew pdoms_node[OF wf] by (intro exI[of _ ds] exI[of _ "dn_parent dn"]) auto
  show "distinct (edge_walk g b i)" using ew ds(2) by (simp add: distinct_takeWhile)
  show "set (edge_walk g b i) = {x. ?P x ?s \<and> (x = b \<or> \<not> ?P x b)}"
  proof (cases "dn_parent dn")
    case None
    then have "\<forall>d. ?P d b \<longleftrightarrow> d = b" using cases by simp
    moreover have "edge_walk g b i = ds" using ew None by (simp add: takeWhile_eq_all_conv)
    ultimately show ?thesis using ds(3) by auto
  next
    case (Some p)
    then have p: "p \<noteq> b" "?P p b" "\<forall>d. ?P d b \<and> d \<noteq> b \<longrightarrow> ?P d p" using cases by auto
    have law: "?P d b \<longleftrightarrow> d = b \<or> ?P d p" for d
      using pdom.parent_law[OF wf dn Some] by blast
    obtain as bs where split: "ds = as @ p # bs"
      using ipdom_of_source[OF wf b e p(2,1)] ds(3) by (metis mem_Collect_eq split_list)
    have "p \<notin> set as" using ds(2) split by auto
    then have w: "edge_walk g b i = as" using ew Some split takeWhile_ne[of p as bs] by simp
    have above: "set (p # bs) = {d. ?P d p}" using ds(4) split by blast
    have "\<not> ?P b p"
    proof
      assume bp: "?P b p"
      have "pt_lookup ?t p \<noteq> None" "pdom_rank g p < pdom_rank g b" using pdom.parent_law[OF wf dn Some] by auto
      then show False using pdom.member_rank[OF wf _ bp] p(1) by auto
    qed
    then have "?P x p \<longleftrightarrow> ?P x b \<and> x \<noteq> b" for x using law by auto
    moreover have "set as = {x. ?P x ?s \<and> \<not> ?P x p}" using ds(2,3) split above by auto
    ultimately show ?thesis using w by auto
  qed
qed

definition all_edges :: "'n cfg \<Rightarrow> 'n list \<Rightarrow> ('n \<times> nat) list" where
  "all_edges g bs = concat (map (\<lambda>b. map (Pair b) [0..<num_successors g b]) bs)"

abbreviation mk_edge :: "'n \<times> nat \<Rightarrow> 'n cfg_edge" where
  "mk_edge e \<equiv> \<lparr>source = fst e, successor_index = snd e\<rparr>"

definition cd_state :: "'n cfg \<Rightarrow> ('n \<times> nat) list \<Rightarrow> 'n control_dependence \<Rightarrow> bool" where
  "cd_state g es cd \<longleftrightarrow>
     map fst (edge_dependents cd) = graph_nodes g
     \<and> (\<forall>b \<in> set (graph_nodes g). map_of (edge_dependents cd) b
          = Some (map (\<lambda>e. edge_walk g (fst e) (snd e)) (filter (\<lambda>e. fst e = b) es)))
     \<and> (\<forall>x \<in> set (graph_nodes g). controlling_edges cd x
          = Some (map mk_edge (filter (\<lambda>e. x \<in> set (edge_walk g (fst e) (snd e))) es)))"

lemma cd_init_correct:
  assumes wf: "wf_cfg g"
  shows "cd_init (the_pdom_tree g) (graph_nodes g) \<lparr>edge_dependents = [], controlling_edges = Map.empty\<rparr>
      = Some \<lparr>edge_dependents = map (\<lambda>n. (n, [])) (graph_nodes g),
          controlling_edges = (\<lambda>x. if x \<in> set (graph_nodes g) then Some [] else None)\<rparr>"
proof -
  let ?t = "the_pdom_tree g"
  have "cd_init ?t ns \<lparr>edge_dependents = map (\<lambda>n. (n, [])) ms,
        controlling_edges = (\<lambda>x. if x \<in> set ms then Some [] else None)\<rparr>
      = Some \<lparr>edge_dependents = map (\<lambda>n. (n, [])) (ms @ ns),
          controlling_edges = (\<lambda>x. if x \<in> set (ms @ ns) then Some [] else None)\<rparr>"
    if "distinct (ms @ ns)" "set ns \<subseteq> set (graph_nodes g)" for ms ns
    using that
  proof (induction ns arbitrary: ms)
    case (Cons n ns)
    have n: "pt_contains ?t n" using pdom_lookup[OF wf, of n] Cons.prems(2) by (simp add: pt_contains_def)
    have up: "AList.update n ([] :: 'a list list) (map (\<lambda>n. (n, [])) ms) = map (\<lambda>n. (n, [])) (ms @ [n])"
      using Cons.prems(1) by (simp add: update_absent image_iff)
    have "(\<lambda>x. if x \<in> set ms then Some ([] :: 'a cfg_edge list) else None)(n \<mapsto> []) = (\<lambda>x. if x \<in> set (ms @ [n]) then Some [] else None)"
      by (rule ext) simp
    then show ?case using Cons.IH[of "ms @ [n]"] Cons.prems n up by simp
  qed simp
  from this[of "[]" "graph_nodes g"] show ?thesis using wf_cfgD(1)[OF wf] by simp
qed

lemma cd_step:
  assumes wf: "wf_cfg g" and st: "cd_state g es cd" and b: "b \<in> set (graph_nodes g)" and i: "i < num_successors g b"
    and stop: "ipdom (the_pdom_tree g) b = Some stop"
  shows "\<exists>cd'. cd_successors g (the_pdom_tree g) b stop (i # js) cd = cd_successors g (the_pdom_tree g) b stop js cd'
    \<and> cd_state g (es @ [(b, i)]) cd'"
proof -
  let ?t = "the_pdom_tree g" and ?N = "set (graph_nodes g)"
  let ?e = "\<lparr>source = b, successor_index = i\<rparr>" and ?w = "edge_walk g b i"
  obtain ds where ds: "ancestors (pt_lookup ?t) (get_successor g b i) = Some ds" "distinct ds"
      "stop = None \<or> (\<exists>p \<in> set ds. stop = Some p)" "set ds \<subseteq> ?N"
      "edge_walk g b i = takeWhile (\<lambda>x. Some x \<noteq> stop) ds"
    using edge_walk_correct(1)[OF wf b i] stop by auto
  have ctrl: "\<forall>x \<in> set ds. controlling_edges cd x \<noteq> None" using st ds(4) by (auto simp: cd_state_def)
  have walk: "cd_walk ?t ?e stop (Some (get_successor g b i)) (controlling_edges cd) []
      = Some (push_edges ?e ?w (controlling_edges cd), ?w)"
    using cd_walk_correct[OF ds(1,2) ctrl ds(3)] ds(5) by simp
  let ?ls = "map (\<lambda>e. edge_walk g (fst e) (snd e)) (filter (\<lambda>e. fst e = b) es)"
  have ls: "map_of (edge_dependents cd) b = Some ?ls" using st b by (simp add: cd_state_def)
  let ?cd = "cd\<lparr>controlling_edges := push_edges ?e ?w (controlling_edges cd),
    edge_dependents := AList.update b (?ls @ [?w]) (edge_dependents cd)\<rparr>"
  have eq: "cd_successors g ?t b stop (i # js) cd = cd_successors g ?t b stop js ?cd"
    using walk ls by simp
  have keys: "map fst (edge_dependents cd) = graph_nodes g" using st by (simp add: cd_state_def)
  have "map fst (AList.update b v (edge_dependents cd)) = graph_nodes g" for v
    using keys b by (simp add: update_keys)
  moreover have "map_of (edge_dependents ?cd) b' = Some (map (\<lambda>e. edge_walk g (fst e) (snd e))
      (filter (\<lambda>e. fst e = b') (es @ [(b, i)])))" if "b' \<in> ?N" for b'
    using st that by (simp add: cd_state_def update_conv)
  moreover have "controlling_edges ?cd x = Some (map mk_edge (filter (\<lambda>e. x \<in> set (edge_walk g (fst e) (snd e))) (es @ [(b, i)])))"
    if "x \<in> ?N" for x
    using st that by (simp add: cd_state_def push_edges_def)
  ultimately have "cd_state g (es @ [(b, i)]) ?cd" unfolding cd_state_def by simp
  then show ?thesis using eq by blast
qed

lemma cd_successors_correct:
  assumes wf: "wf_cfg g" and b: "b \<in> set (graph_nodes g)" and stop: "ipdom (the_pdom_tree g) b = Some stop"
  shows "cd_state g es cd \<Longrightarrow> \<forall>i \<in> set js. i < num_successors g b \<Longrightarrow>
    \<exists>cd'. cd_successors g (the_pdom_tree g) b stop js cd = Some cd' \<and> cd_state g (es @ map (Pair b) js) cd'"
proof (induction js arbitrary: es cd)
  case (Cons i js)
  have i: "i < num_successors g b" using Cons.prems(2) by simp
  obtain cd1 where 1: "cd_successors g (the_pdom_tree g) b stop (i # js) cd
      = cd_successors g (the_pdom_tree g) b stop js cd1" "cd_state g (es @ [(b, i)]) cd1"
    using cd_step[OF wf Cons.prems(1) b i stop] by blast
  then show ?case using Cons.IH[OF 1(2)] Cons.prems(2) by simp
qed simp

lemma cd_sources_correct:
  assumes wf: "wf_cfg g"
  shows "cd_state g es cd \<Longrightarrow> set bs \<subseteq> set (graph_nodes g) \<Longrightarrow>
    \<exists>cd'. cd_sources g (the_pdom_tree g) bs cd = Some cd' \<and> cd_state g (es @ all_edges g bs) cd'"
proof (induction bs arbitrary: es cd)
  case (Cons b bs)
  have b: "b \<in> set (graph_nodes g)" using Cons.prems(2) by simp
  obtain stop where stop: "ipdom (the_pdom_tree g) b = Some stop"
    using pdom_lookup[OF wf b] by (auto simp: ipdom_def)
  obtain cd1 where 1: "cd_successors g (the_pdom_tree g) b stop [0..<num_successors g b] cd = Some cd1"
      "cd_state g (es @ map (Pair b) [0..<num_successors g b]) cd1"
    using cd_successors_correct[OF wf b stop Cons.prems(1), of "[0..<num_successors g b]"] by auto
  then show ?case using Cons.IH[OF 1(2)] Cons.prems(2) stop by (simp add: all_edges_def)
qed (simp add: all_edges_def)

lemma compute_control_dependence_of:
  assumes wf: "wf_cfg g"
  shows "\<exists>cd. compute_control_dependence g (the_pdom_tree g) = Some cd
    \<and> cd_state g (all_edges g (graph_nodes g)) cd"
proof -
  let ?cd = "\<lparr>edge_dependents = map (\<lambda>n. (n, [])) (graph_nodes g),
          controlling_edges = (\<lambda>x. if x \<in> set (graph_nodes g) then Some [] else None)\<rparr>"
  have "map_of (map (\<lambda>n. (n, [] :: 'a list list)) ns) b = (if b \<in> set ns then Some [] else None)" for ns and b :: 'a
    by (induction ns) auto
  then have "cd_state g [] ?cd" by (simp add: cd_state_def comp_def)
  then obtain cd where cd: "cd_sources g (the_pdom_tree g) (graph_nodes g) ?cd = Some cd"
      "cd_state g (all_edges g (graph_nodes g)) cd"
    using cd_sources_correct[OF wf, of "[]" ?cd "graph_nodes g"] by auto
  have "length (pt_nodes (the_pdom_tree g)) = length (graph_nodes g)"
    using pdom_trees(4,5)[OF wf] wf_cfgD(1)[OF wf] by (metis distinct_card)
  then have "pt_num_nodes (the_pdom_tree g) = length (graph_nodes g)" by (simp add: pt_num_nodes_def pt_nodes_def)
  then show ?thesis using cd cd_init_correct[OF wf] by (simp add: compute_control_dependence_def)
qed

lemma filter_all_edges:
  "distinct bs \<Longrightarrow> b \<in> set bs \<Longrightarrow> filter (\<lambda>e. fst e = b) (all_edges g bs) = map (Pair b) [0..<num_successors g b]"
proof (induction bs)
  case (Cons c bs)
  have none: "filter (\<lambda>e. fst e = b) (all_edges g cs) = []" if "b \<notin> set cs" for cs
    using that by (auto simp: all_edges_def filter_empty_conv)
  show ?case
  proof (cases "c = b")
    case True
    then show ?thesis using Cons.prems none[of bs] by (simp add: all_edges_def filter_map comp_def)
  next
    case False
    then show ?thesis using Cons by (simp add: all_edges_def filter_map comp_def)
  qed
qed simp

lemma set_all_edges: "e \<in> set (all_edges g bs) \<longleftrightarrow> fst e \<in> set bs \<and> snd e < num_successors g (fst e)"
  by (cases e) (force simp: all_edges_def)

lemma distinct_all_edges: "distinct bs \<Longrightarrow> distinct (all_edges g bs)"
  unfolding all_edges_def by (rule distinct_concat_map) (auto simp: distinct_map inj_on_def)

section \<open>Direct control dependence\<close>

lemma control_dependence_facts:
  assumes wf: "wf_cfg g" and st: "cd_state g (all_edges g (graph_nodes g)) cd"
  shows "b \<in> set (graph_nodes g) \<Longrightarrow> map_of (edge_dependents cd) b
      = Some (map (edge_walk g b) [0..<num_successors g b])"
    and "x \<in> set (graph_nodes g) \<Longrightarrow> controlling_edges cd x
      = Some (map mk_edge (filter (\<lambda>e. x \<in> set (edge_walk g (fst e) (snd e))) (all_edges g (graph_nodes g))))"
    and "cd_nodes cd = graph_nodes g"
  using st filter_all_edges[OF wf_cfgD(1)[OF wf], of b] by (auto simp: cd_state_def cd_nodes_def)

text \<open>
  C8. Direct control dependence is Morgan's definition: for every well-formed graph and its
  post-dominator tree the computation does not panic; the dependents of edge number \<open>i\<close> of
  \<open>b\<close>, each listed once, are the blocks that post-dominate the edge's target and are \<open>b\<close>
  itself or do not post-dominate \<open>b\<close>; and the controlling edges of a block, each listed once,
  are exactly the edges it depends on.
\<close>

theorem control_dependence_correct:
  assumes "wf_cfg g"
  shows "\<exists>ps t cd. find_pre_sentinels g = Some ps \<and> compute_post_dominator_tree g = Some t
    \<and> compute_control_dependence g t = Some cd \<and> cd_nodes cd = graph_nodes g
    \<and> (\<forall>b \<in> set (graph_nodes g). \<forall>i < num_successors g b.
        \<exists>xs. dependents_of_edge cd b i = Some xs \<and> distinct xs
          \<and> set xs = {x. pdoms g ps x (get_successor g b i) \<and> (x = b \<or> \<not> pdoms g ps x b)})
    \<and> (\<forall>x \<in> set (graph_nodes g). \<exists>es. direct_controlling_edges cd x = Some es \<and> distinct es
        \<and> set es = {\<lparr>source = b, successor_index = i\<rparr> | b i. b \<in> set (graph_nodes g) \<and> i < num_successors g b
            \<and> pdoms g ps x (get_successor g b i) \<and> (x = b \<or> \<not> pdoms g ps x b)})"
proof -
  let ?ps = "the_pre_sentinels g" and ?t = "the_pdom_tree g" and ?N = "graph_nodes g"
  let ?dep = "\<lambda>x b i. pdoms g ?ps x (get_successor g b i) \<and> (x = b \<or> \<not> pdoms g ?ps x b)"
  obtain cd where cd: "compute_control_dependence g ?t = Some cd" "cd_state g (all_edges g ?N) cd"
    using compute_control_dependence_of[OF assms] by blast
  note f = control_dependence_facts[OF assms cd(2)]
  have w: "distinct (edge_walk g b i)" "x \<in> set (edge_walk g b i) \<longleftrightarrow> ?dep x b i"
    if "b \<in> set ?N" "i < num_successors g b" for x b i
    using edge_walk_correct(2,3)[OF assms that] by auto
  have deps: "\<exists>xs. dependents_of_edge cd b i = Some xs \<and> distinct xs \<and> set xs = {x. ?dep x b i}"
    if "b \<in> set ?N" "i < num_successors g b" for b i
    using f(1)[OF that(1)] that w[OF that] by (auto simp: dependents_of_edge_def)
  have ctrl: "\<exists>es. direct_controlling_edges cd x = Some es \<and> distinct es \<and> set es =
      {\<lparr>source = b, successor_index = i\<rparr> | b i. b \<in> set ?N \<and> i < num_successors g b \<and> ?dep x b i}"
    if x: "x \<in> set ?N" for x
  proof -
    let ?F = "filter (\<lambda>e. x \<in> set (edge_walk g (fst e) (snd e))) (all_edges g ?N)"
    have "distinct (map mk_edge ?F)"
      using distinct_all_edges[OF wf_cfgD(1)[OF assms]] by (simp add: distinct_map inj_on_def prod_eq_iff)
    moreover have "set (map mk_edge ?F)
        = {\<lparr>source = b, successor_index = i\<rparr> | b i. b \<in> set ?N \<and> i < num_successors g b \<and> ?dep x b i}"
      (is "?L = ?R")
    proof (intro subset_antisym subsetI)
      fix e
      assume "e \<in> ?L"
      then obtain b i where e: "e = \<lparr>source = b, successor_index = i\<rparr>" "(b, i) \<in> set (all_edges g ?N)"
          "x \<in> set (edge_walk g b i)"
        by auto
      have bi: "b \<in> set ?N" "i < num_successors g b" using e(2) set_all_edges[of "(b, i)" g ?N] by auto
      have "?dep x b i" using w(2)[OF bi] e(3) by blast
      then show "e \<in> ?R" using e(1) bi by blast
    next
      fix e
      assume "e \<in> ?R"
      then obtain b i where e: "e = \<lparr>source = b, successor_index = i\<rparr>" "b \<in> set ?N"
          "i < num_successors g b" "?dep x b i" by blast
      have "(b, i) \<in> set ?F" using w(2)[OF e(2,3)] set_all_edges[of "(b, i)" g ?N] e(2-4) by simp
      then have "mk_edge (b, i) \<in> mk_edge ` set ?F" by (rule imageI)
      then show "e \<in> ?L" unfolding e(1) by simp
    qed
    ultimately show ?thesis using f(2)[OF x] by (simp add: direct_controlling_edges_def)
  qed
  show ?thesis
  proof (intro exI conjI)
    show "compute_control_dependence g ?t = Some cd" by (rule cd(1))
    show "find_pre_sentinels g = Some ?ps" by (rule pdom_trees(2)[OF assms])
    show "compute_post_dominator_tree g = Some ?t" by (rule pdom_trees(1)[OF assms])
    show "cd_nodes cd = ?N" by (rule f(3))
    show "\<forall>b \<in> set ?N. \<forall>i < num_successors g b.
        \<exists>xs. dependents_of_edge cd b i = Some xs \<and> distinct xs \<and> set xs = {x. ?dep x b i}"
      using deps by blast
    show "\<forall>x \<in> set ?N. \<exists>es. direct_controlling_edges cd x = Some es \<and> distinct es \<and> set es =
        {\<lparr>source = b, successor_index = i\<rparr> | b i. b \<in> set ?N \<and> i < num_successors g b \<and> ?dep x b i}"
      by (rule ballI) (rule ctrl)
  qed
qed

theorem control_dependence_correct_witness:
  "\<exists>ps t cd. find_pre_sentinels demo_cfg = Some ps \<and> compute_post_dominator_tree demo_cfg = Some t
    \<and> compute_control_dependence demo_cfg t = Some cd \<and> cd_nodes cd = [10, 11, 12, 13, 14, 15]"
proof -
  have "graph_nodes demo_cfg = [10, 11, 12, 13, 14, 15]" by (simp add: demo_cfg_def cfg_of_def Let_def)
  then show ?thesis using control_dependence_correct[OF demo_cfg_wf] by metis
qed

section \<open>Transitive control dependence\<close>

text \<open>Block \<open>x\<close> is control dependent on block \<open>b\<close> when it depends on one of \<open>b\<close>'s edges.\<close>

definition cd_relation :: "'n cfg \<Rightarrow> 'n list \<Rightarrow> ('n \<times> 'n) set" where
  "cd_relation g ps = {(x, b). b \<in> set (graph_nodes g) \<and> (\<exists>i < num_successors g b.
     pdoms g ps x (get_successor g b i) \<and> (x = b \<or> \<not> pdoms g ps x b))}"

lemma cd_relation_walk:
  assumes "wf_cfg g"
  shows "(x, b) \<in> cd_relation g (the_pre_sentinels g) \<longleftrightarrow>
    b \<in> set (graph_nodes g) \<and> (\<exists>i < num_successors g b. x \<in> set (edge_walk g b i))"
  using edge_walk_correct(3)[OF assms] by (fastforce simp: cd_relation_def)

lemma cd_relation_nodes:
  assumes wf: "wf_cfg g" and "(x, b) \<in> cd_relation g (the_pre_sentinels g)"
  shows "x \<in> set (graph_nodes g)" and "b \<in> set (graph_nodes g)"
proof -
  obtain i where b: "b \<in> set (graph_nodes g)" and i: "i < num_successors g b" and x: "x \<in> set (edge_walk g b i)"
    using assms(2) cd_relation_walk[OF wf] by blast
  show "b \<in> set (graph_nodes g)" by (rule b)
  obtain ds stop where "set ds \<subseteq> set (graph_nodes g)" "edge_walk g b i = takeWhile (\<lambda>x. Some x \<noteq> stop) ds"
    using edge_walk_correct(1)[OF wf b i] by blast
  then show "x \<in> set (graph_nodes g)" using x by (auto dest: set_takeWhileD)
qed

text \<open>The computed relation, as the searches read it.\<close>

definition cd_of :: "'n cfg \<Rightarrow> 'n control_dependence \<Rightarrow> bool" where
  "cd_of g cd \<longleftrightarrow> cd_state g (all_edges g (graph_nodes g)) cd"

lemma cd_controlling:
  assumes wf: "wf_cfg g" and cd: "cd_of g cd" and x: "x \<in> set (graph_nodes g)"
  shows "\<exists>es. controlling_edges cd x = Some es
    \<and> source ` set es = cd_relation g (the_pre_sentinels g) `` {x}"
proof -
  let ?N = "graph_nodes g"
  let ?es = "map mk_edge (filter (\<lambda>e. x \<in> set (edge_walk g (fst e) (snd e))) (all_edges g ?N))"
  have "controlling_edges cd x = Some ?es"
    using control_dependence_facts(2)[OF wf _ x] cd by (simp add: cd_of_def)
  moreover have "b \<in> source ` set ?es \<longleftrightarrow> (x, b) \<in> cd_relation g (the_pre_sentinels g)" for b
    unfolding cd_relation_walk[OF wf] using set_all_edges[of _ g ?N] by (force simp: image_iff)
  ultimately show ?thesis by blast
qed

lemma cd_neighbours:
  assumes wf: "wf_cfg g" and cd: "cd_of g cd" and x: "x \<in> set (graph_nodes g)"
  shows "\<exists>bs. direct_neighbours cd Controllers x = Some bs \<and> distinct bs
      \<and> set bs = cd_relation g (the_pre_sentinels g) `` {x}"
    and "\<exists>bs. direct_neighbours cd Dependents x = Some bs \<and> distinct bs
      \<and> set bs = (cd_relation g (the_pre_sentinels g))\<inverse> `` {x}"
proof -
  show "\<exists>bs. direct_neighbours cd Controllers x = Some bs \<and> distinct bs
      \<and> set bs = cd_relation g (the_pre_sentinels g) `` {x}"
    using cd_controlling[OF assms]
    by (auto simp: direct_neighbours_def direct_controllers_def direct_controlling_edges_def)
  let ?ls = "map (edge_walk g x) [0..<num_successors g x]"
  have "map_of (edge_dependents cd) x = Some ?ls"
    using control_dependence_facts(1)[OF wf _ x] cd by (simp add: cd_of_def)
  moreover have "y \<in> set (concat ?ls) \<longleftrightarrow> (y, x) \<in> cd_relation g (the_pre_sentinels g)" for y
    unfolding cd_relation_walk[OF wf] using x by auto
  then have "set (concat ?ls) = (cd_relation g (the_pre_sentinels g))\<inverse> `` {x}" by blast
  ultimately show "\<exists>bs. direct_neighbours cd Dependents x = Some bs \<and> distinct bs
      \<and> set bs = (cd_relation g (the_pre_sentinels g))\<inverse> `` {x}"
    by (simp add: direct_neighbours_def direct_dependents_def)
qed

lemma iset_extend_prefix: "\<exists>zs. iset_extend xs ys = xs @ zs"
  unfolding iset_extend_def
proof (induction ys arbitrary: xs)
  case (Cons y ys)
  then show ?case by (cases "y \<in> set xs") (simp_all add: iset_insert_def, metis append.assoc)
qed simp

text \<open>The queue search reaches the closure of what it starts with.\<close>

lemma transitive_loop_closure:
  assumes "finite V" and nb: "\<forall>x \<in> V. \<exists>ns. direct_neighbours cd dir x = Some ns \<and> distinct ns \<and> set ns = S `` {x}"
    and "S \<subseteq> V \<times> V"
  shows "distinct reached \<Longrightarrow> set reached \<subseteq> S\<^sup>+ `` {x0} \<Longrightarrow> S `` {x0} \<subseteq> set reached \<Longrightarrow>
    index \<le> length reached \<Longrightarrow> \<forall>i < index. S `` {reached ! i} \<subseteq> set reached \<Longrightarrow>
    \<exists>xs. transitive_loop cd dir reached index = Some xs \<and> distinct xs \<and> set xs = S\<^sup>+ `` {x0}"
proof (induction "card V - index" arbitrary: reached index rule: less_induct)
  case less
  have "S\<^sup>+ \<subseteq> V \<times> V" using assms(3) by (rule trancl_subset_Sigma)
  then have inV: "set reached \<subseteq> V" using less.prems(2) by blast
  show ?case
  proof (cases "index < length reached")
    case False
    have "y \<in> set reached" if "(x0, y) \<in> S\<^sup>+" for y
      using that
    proof (induction rule: trancl_induct)
      case (step y z)
      then obtain i where "i < length reached" "reached ! i = y" by (metis in_set_conv_nth)
      then show ?case using less.prems(4,5) False step.hyps(2) by auto
    qed (use less.prems(3) in blast)
    then show ?thesis using False less.prems(1,2)
      by (intro exI[of _ reached]) (auto simp: transitive_loop.simps[of cd dir reached])
  next
    case True
    let ?n = "reached ! index"
    have n: "?n \<in> V" "(x0, ?n) \<in> S\<^sup>+" using True less.prems(2) inV nth_mem[OF True] by blast+
    obtain ns where ns: "direct_neighbours cd dir ?n = Some ns" "set ns = S `` {?n}" using nb n(1) by blast
    obtain zs where zs: "iset_extend reached ns = reached @ zs" using iset_extend_prefix by blast
    have set: "set (iset_extend reached ns) = set reached \<union> S `` {?n}" using ns(2) by simp
    have "length reached \<le> card V"
      using distinct_card[OF less.prems(1)] card_mono[OF assms(1) inV] by simp
    then have m: "card V - (index + 1) < card V - index" using True by simp
    have "S `` {?n} \<subseteq> S\<^sup>+ `` {x0}" using n(2) by (auto intro: trancl_into_trancl)
    then have up: "set (iset_extend reached ns) \<subseteq> S\<^sup>+ `` {x0}" using less.prems(2) set by blast
    have closed: "S `` {iset_extend reached ns ! i} \<subseteq> set (iset_extend reached ns)" if i: "i < index + 1" for i
    proof -
      have e: "iset_extend reached ns ! i = reached ! i" using i True by (simp add: zs nth_append)
      consider "i = index" | "i < index" using i by linarith
      then show ?thesis using less.prems(5) set unfolding e by cases blast+
    qed
    have "transitive_loop cd dir reached index = transitive_loop cd dir (iset_extend reached ns) (index + 1)"
      using True ns(1) by (simp add: transitive_loop.simps[of cd dir reached])
    moreover have "\<exists>xs. transitive_loop cd dir (iset_extend reached ns) (index + 1) = Some xs \<and> distinct xs
        \<and> set xs = S\<^sup>+ `` {x0}"
    proof (rule less.hyps[OF m])
      show "distinct (iset_extend reached ns)" using less.prems(1) by simp
      show "S `` {x0} \<subseteq> set (iset_extend reached ns)" using less.prems(3) set by blast
      show "index + 1 \<le> length (iset_extend reached ns)" using True zs by simp
    qed (use up closed in blast)+
    ultimately show ?thesis by simp
  qed
qed

lemma search_edges_correct:
  assumes "finite V" "source ` set es \<subseteq> V" "search_edges c es visited pending = (found, visited', pending')"
  shows "found \<longleftrightarrow> c \<in> source ` set es"
    and "\<not> found \<Longrightarrow> visited' = visited \<union> source ` set es"
    and "\<not> found \<Longrightarrow> set pending' = set pending \<union> (source ` set es - visited)"
    and "2 * card (V - visited') + length pending' \<le> 2 * card (V - visited) + length pending"
proof -
  have "(found \<longleftrightarrow> c \<in> source ` set es) \<and> (\<not> found \<longrightarrow> visited' = visited \<union> source ` set es
    \<and> set pending' = set pending \<union> (source ` set es - visited))
    \<and> 2 * card (V - visited') + length pending' \<le> 2 * card (V - visited) + length pending"
    using assms(2,3)
  proof (induction es arbitrary: visited pending)
    case (Cons e es)
    show ?case
    proof (cases "source e = c \<or> source e \<in> visited")
      case True
      then show ?thesis using Cons by (auto split: if_splits)
    next
      case False
      have "V - visited = insert (source e) (V - insert (source e) visited)" using False Cons.prems(1) by auto
      then have "card (V - visited) = Suc (card (V - insert (source e) visited))"
        using assms(1) by (metis Diff_iff card_insert_disjoint finite_Diff insertCI)
      then show ?thesis using Cons.IH[of "insert (source e) visited" "source e # pending"] Cons.prems False
        by (simp split: if_splits) auto
    qed
  qed simp
  then show "found \<longleftrightarrow> c \<in> source ` set es" "\<not> found \<Longrightarrow> visited' = visited \<union> source ` set es"
    "\<not> found \<Longrightarrow> set pending' = set pending \<union> (source ` set es - visited)"
    "2 * card (V - visited') + length pending' \<le> 2 * card (V - visited) + length pending"
    by blast+
qed

lemma search_loop_correct:
  assumes "finite V" and ce: "\<forall>x \<in> V. \<exists>es. controlling_edges cd x = Some es \<and> source ` set es = S `` {x}"
    and "S \<subseteq> V \<times> V" and "x0 \<in> V"
  shows "set pending \<subseteq> visited \<Longrightarrow> x0 \<in> visited \<Longrightarrow> visited \<subseteq> S\<^sup>* `` {x0} \<Longrightarrow>
    \<forall>x \<in> visited - set pending. S `` {x} \<subseteq> visited \<and> c \<notin> S `` {x} \<Longrightarrow>
    search_loop cd c visited pending = Some ((x0, c) \<in> S\<^sup>+)"
proof (induction "2 * card (V - visited) + length pending" arbitrary: visited pending rule: less_induct)
  case less
  have "S\<^sup>* `` {x0} \<subseteq> V" using assms(3,4) by (auto elim: rtranclE)
  then have inV: "visited \<subseteq> V" using less.prems(3) by blast
  show ?case
  proof (cases pending)
    case Nil
    have "y \<in> visited" if "(x0, y) \<in> S\<^sup>*" for y
      using that by (induction rule: rtrancl_induct) (use less.prems(2,4) Nil in auto)
    then have "(x0, c) \<notin> S\<^sup>+" using less.prems(4) Nil by (auto dest!: tranclD2)
    then show ?thesis using Nil by (simp add: search_loop.simps[of cd c visited])
  next
    case (Cons b ps)
    have b: "b \<in> V" "b \<in> visited" "(x0, b) \<in> S\<^sup>*" using less.prems(1,3) inV Cons by auto
    obtain es where es: "controlling_edges cd b = Some es" "source ` set es = S `` {b}" using ce b(1) by blast
    obtain found visited' pending' where s: "search_edges c es visited ps = (found, visited', pending')"
      by (metis prod_cases3)
    have sub: "source ` set es \<subseteq> V" using es(2) assms(3) by blast
    note r = search_edges_correct[OF assms(1) sub s]
    have eq: "search_loop cd c visited pending = (if found then Some True else search_loop cd c visited' pending')"
      using Cons es(1) s by (simp add: search_loop.simps[of cd c visited])
    show ?thesis
    proof (cases found)
      case True
      then have "(b, c) \<in> S" using r(1) es(2) by simp
      then have "(x0, c) \<in> S\<^sup>+" using b(3) by (rule rtrancl_into_trancl1[rotated])
      then show ?thesis using eq True by simp
    next
      case False
      have v: "visited' = visited \<union> S `` {b}" "set pending' = set ps \<union> (S `` {b} - visited)"
        using r(2,3)[OF False] es(2) by auto
      have m: "2 * card (V - visited') + length pending' < 2 * card (V - visited) + length pending"
        using r(4) Cons by simp
      have "S `` {b} \<subseteq> S\<^sup>* `` {x0}" using b(3) by (auto intro: rtrancl_into_rtrancl)
      then have "search_loop cd c visited' pending' = Some ((x0, c) \<in> S\<^sup>+)"
        using v less.prems Cons r(1) False es(2) by (intro less.hyps[OF m]) auto
      then show ?thesis using eq False by simp
    qed
  qed
qed

text \<open>
  The transitive queries return the transitive closure of direct control dependence, and all
  of them return: for every well-formed graph, every two blocks, the transitive controllers of
  \<open>x\<close> are the blocks above \<open>x\<close> in the closure, its transitive dependents those below it, each
  listed once, and the search of \<open>is_transitively_control_dependent\<close> decides membership.
\<close>

theorem transitive_dependence_correct:
  assumes "wf_cfg g"
  shows "\<exists>ps t cd. find_pre_sentinels g = Some ps \<and> compute_post_dominator_tree g = Some t
    \<and> compute_control_dependence g t = Some cd
    \<and> (\<forall>x \<in> set (graph_nodes g).
        (\<exists>bs. transitive_controllers cd x = Some bs \<and> distinct bs \<and> set bs = {b. (x, b) \<in> (cd_relation g ps)\<^sup>+})
      \<and> (\<exists>bs. transitive_dependents cd x = Some bs \<and> distinct bs \<and> set bs = {b. (b, x) \<in> (cd_relation g ps)\<^sup>+})
      \<and> (\<forall>c \<in> set (graph_nodes g).
          is_transitively_control_dependent cd x c = Some ((x, c) \<in> (cd_relation g ps)\<^sup>+)
        \<and> is_directly_control_dependent cd x c = Some ((x, c) \<in> cd_relation g ps)))"
proof -
  let ?N = "set (graph_nodes g)" and ?R = "cd_relation g (the_pre_sentinels g)"
  obtain cd where cd: "compute_control_dependence g (the_pdom_tree g) = Some cd" "cd_of g cd"
    using compute_control_dependence_of[OF assms] by (auto simp: cd_of_def)
  have R: "?R \<subseteq> ?N \<times> ?N" by (auto dest: cd_relation_nodes[OF assms])
  then have R': "?R\<inverse> \<subseteq> ?N \<times> ?N" by blast
  have nodes: "cd_nodes cd = graph_nodes g"
    using control_dependence_facts(3)[OF assms] cd(2) by (simp add: cd_of_def)
  have has: "cd_contains cd c" if "c \<in> ?N" for c
    using that unfolding nodes[symmetric] by (simp add: cd_contains_def cd_nodes_def map_of_eq_None_iff)
  have nbC: "\<forall>x \<in> ?N. \<exists>ns. direct_neighbours cd Controllers x = Some ns \<and> distinct ns \<and> set ns = ?R `` {x}"
    and nbD: "\<forall>x \<in> ?N. \<exists>ns. direct_neighbours cd Dependents x = Some ns \<and> distinct ns \<and> set ns = ?R\<inverse> `` {x}"
    using cd_neighbours[OF assms cd(2)] by simp_all
  have tr: "\<exists>bs. transitive_nodes cd x dir = Some bs \<and> distinct bs \<and> set bs = S\<^sup>+ `` {x}"
    if nb: "\<forall>x \<in> ?N. \<exists>ns. direct_neighbours cd dir x = Some ns \<and> distinct ns \<and> set ns = S `` {x}"
      and S: "S \<subseteq> ?N \<times> ?N" and x: "x \<in> ?N" for x dir S
  proof -
    obtain ns where ns: "direct_neighbours cd dir x = Some ns" "distinct ns" "set ns = S `` {x}" using nb x by blast
    have "\<exists>bs. transitive_loop cd dir ns 0 = Some bs \<and> distinct bs \<and> set bs = S\<^sup>+ `` {x}"
      using transitive_loop_closure[OF finite_set nb S ns(2), of x 0] ns(3) by auto
    then show ?thesis using ns(1) by (simp add: transitive_nodes_def)
  qed
  have search: "search_loop cd c {x} [x] = Some ((x, c) \<in> ?R\<^sup>+)" if "x \<in> ?N" for x c
    using search_loop_correct[OF finite_set _ R that, of cd "[x]" "{x}" c] cd_controlling[OF assms cd(2)] by simp
  have up: "\<exists>bs. transitive_controllers cd x = Some bs \<and> distinct bs \<and> set bs = {b. (x, b) \<in> ?R\<^sup>+}"
    if x: "x \<in> ?N" for x
    using tr[OF nbC R x] by (auto simp: transitive_controllers_def)
  have down: "\<exists>bs. transitive_dependents cd x = Some bs \<and> distinct bs \<and> set bs = {b. (b, x) \<in> ?R\<^sup>+}"
    if x: "x \<in> ?N" for x
    using tr[OF nbD R' x] by (auto simp: transitive_dependents_def trancl_converse)
  have decide: "is_transitively_control_dependent cd x c = Some ((x, c) \<in> ?R\<^sup>+)
      \<and> is_directly_control_dependent cd x c = Some ((x, c) \<in> ?R)" if x: "x \<in> ?N" and c: "c \<in> ?N" for x c
  proof
    show "is_transitively_control_dependent cd x c = Some ((x, c) \<in> ?R\<^sup>+)"
      using search[OF x] has[OF c] by (simp add: is_transitively_control_dependent_def)
    obtain es where es: "controlling_edges cd x = Some es" "source ` set es = ?R `` {x}"
      using cd_controlling[OF assms cd(2) x] by blast
    have "(\<exists>e \<in> set es. source e = c) \<longleftrightarrow> c \<in> source ` set es" by blast
    then show "is_directly_control_dependent cd x c = Some ((x, c) \<in> ?R)"
      using es has[OF c] by (simp add: is_directly_control_dependent_def direct_controlling_edges_def)
  qed
  show ?thesis
  proof (intro exI conjI)
    show "compute_control_dependence g (the_pdom_tree g) = Some cd" by (rule cd(1))
    show "find_pre_sentinels g = Some (the_pre_sentinels g)" by (rule pdom_trees(2)[OF assms])
    show "compute_post_dominator_tree g = Some (the_pdom_tree g)" by (rule pdom_trees(1)[OF assms])
  qed (use up down decide in blast)
qed

theorem transitive_dependence_correct_witness:
  "\<exists>ps t cd. find_pre_sentinels demo_cfg = Some ps \<and> compute_post_dominator_tree demo_cfg = Some t
    \<and> compute_control_dependence demo_cfg t = Some cd
    \<and> is_transitively_control_dependent cd 13 11 = Some ((13, 11) \<in> (cd_relation demo_cfg ps)\<^sup>+)"
proof -
  have "13 \<in> set (graph_nodes demo_cfg)" "11 \<in> set (graph_nodes demo_cfg)"
    by (simp_all add: demo_cfg_def cfg_of_def Let_def)
  then show ?thesis using transitive_dependence_correct[OF demo_cfg_wf] by blast
qed

end
