(* ===== verification/LoopTree.thy ===== *)
theory LoopTree
  imports DomTree
begin

text \<open>
  Model of \<^verbatim>\<open>src/src/graph/loop_tree.rs\<close>: natural loops found by Morgan's algorithm over a
  depth-first post-order, their nesting, the block sets, the order of children, the depths and
  the queries. The theorems compare the result with the natural loops of the graph, defined
  independently of the algorithm.
\<close>

section \<open>The loop tree\<close>

datatype loop_id = LoopId (loop_index: nat)

datatype 'n loop_tree_node = Block 'n | Loop loop_id

record 'n loop_data =
  lp_header :: 'n
  lp_parent :: "loop_id option"
  lp_contents :: "'n loop_tree_node list"
  lp_latches :: "'n list"
  lp_blocks :: "'n list"
  lp_depth :: nat

record 'n loop_tree =
  lt_loops :: "'n loop_data list"
  loop_order :: "loop_id list"
  root_contents :: "'n loop_tree_node list"
  block_parent :: "'n \<rightharpoonup> loop_id"

text \<open>\<open>loops[id.0]\<close>, as a read and as the place of an assignment.\<close>

definition get_loop :: "'n loop_tree \<Rightarrow> loop_id \<Rightarrow> 'n loop_data option" where
  "get_loop t lid = oget (lt_loops t) (loop_index lid)"

definition update_loop :: "('n loop_data \<Rightarrow> 'n loop_data) \<Rightarrow> loop_id \<Rightarrow> 'n loop_tree \<Rightarrow> 'n loop_tree option" where
  "update_loop f lid t = do {
     l \<leftarrow> get_loop t lid;
     Some (t\<lparr>lt_loops := (lt_loops t)[loop_index lid := f l]\<rparr>)
   }"

text \<open>A stable sort by a key that may panic; it does not compute keys of fewer than two items.\<close>

definition sort_by_key :: "('a \<Rightarrow> nat option) \<Rightarrow> 'a list \<Rightarrow> 'a list option" where
  "sort_by_key key xs =
     (if length xs < 2 then Some xs
      else do { ks \<leftarrow> omap key xs; Some (map snd (sort_key fst (zip ks xs))) })"

section \<open>Queries\<close>

definition loops :: "'n loop_tree \<Rightarrow> loop_id list" where
  "loops t = loop_order t"

definition num_loops :: "'n loop_tree \<Rightarrow> nat" where
  "num_loops t = length (lt_loops t)"

definition loop_header :: "'n loop_tree \<Rightarrow> loop_id \<Rightarrow> 'n option" where
  "loop_header t lid = map_option lp_header (get_loop t lid)"

definition loop_parent :: "'n loop_tree \<Rightarrow> loop_id \<Rightarrow> loop_id option option" where
  "loop_parent t lid = map_option lp_parent (get_loop t lid)"

fun ofilter :: "('a \<Rightarrow> bool option) \<Rightarrow> 'a list \<Rightarrow> 'a list option" where
  "ofilter P [] = Some []"
| "ofilter P (x # xs) = do { b \<leftarrow> P x; ys \<leftarrow> ofilter P xs; Some (if b then x # ys else ys) }"

definition top_level_loops :: "'n loop_tree \<Rightarrow> loop_id list option" where
  "top_level_loops t = ofilter (\<lambda>lid. map_option (\<lambda>p. p = None) (loop_parent t lid)) (loops t)"

definition lt_root_contents :: "'n loop_tree \<Rightarrow> 'n loop_tree_node list" where
  "lt_root_contents t = root_contents t"

definition loop_contents :: "'n loop_tree \<Rightarrow> loop_id \<Rightarrow> 'n loop_tree_node list option" where
  "loop_contents t lid = map_option lp_contents (get_loop t lid)"

definition subloops :: "'n loop_tree \<Rightarrow> loop_id \<Rightarrow> loop_id list option" where
  "subloops t lid = map_option
     (List.map_filter (\<lambda>node. case node of Block _ \<Rightarrow> None | Loop lid \<Rightarrow> Some lid)) (loop_contents t lid)"

definition blocks :: "'n loop_tree \<Rightarrow> loop_id \<Rightarrow> 'n list option" where
  "blocks t lid = map_option lp_blocks (get_loop t lid)"

definition latches :: "'n loop_tree \<Rightarrow> loop_id \<Rightarrow> 'n list option" where
  "latches t lid = map_option lp_latches (get_loop t lid)"

definition block_loop_parent :: "'n loop_tree \<Rightarrow> 'n \<Rightarrow> loop_id option" where
  "block_loop_parent t block = block_parent t block"

definition lt_contains :: "'n loop_tree \<Rightarrow> loop_id \<Rightarrow> 'n \<Rightarrow> bool option" where
  "lt_contains t lid block = map_option (\<lambda>l. block \<in> set (lp_blocks l)) (get_loop t lid)"

definition loop_depth :: "'n loop_tree \<Rightarrow> loop_id \<Rightarrow> nat option" where
  "loop_depth t lid = map_option lp_depth (get_loop t lid)"

definition block_loop_depth :: "'n loop_tree \<Rightarrow> 'n \<Rightarrow> nat option" where
  "block_loop_depth t block = (case block_loop_parent t block of None \<Rightarrow> Some 0 | Some lid \<Rightarrow> loop_depth t lid)"

definition exiting_blocks :: "'n cfg \<Rightarrow> 'n loop_tree \<Rightarrow> loop_id \<Rightarrow> 'n list option" where
  "exiting_blocks g t lid = do {
     bs \<leftarrow> blocks t lid;
     ofilter (\<lambda>block. oany (\<lambda>succ. map_option Not (lt_contains t lid succ)) (successors g block)) bs
   }"

fun exits_of :: "'n cfg \<Rightarrow> 'n loop_tree \<Rightarrow> loop_id \<Rightarrow> 'n list \<Rightarrow> 'n list \<Rightarrow> 'n list option" where
  "exits_of g t lid [] exits = Some exits"
| "exits_of g t lid (block # bs) exits = do {
     out \<leftarrow> ofilter (\<lambda>succ. map_option Not (lt_contains t lid succ)) (successors g block);
     exits_of g t lid bs (iset_extend exits out)
   }"

definition exit_blocks :: "'n cfg \<Rightarrow> 'n loop_tree \<Rightarrow> loop_id \<Rightarrow> 'n list option" where
  "exit_blocks g t lid = do { bs \<leftarrow> blocks t lid; exits_of g t lid bs [] }"

section \<open>Bodies\<close>

partial_function (option) outermost :: "'n loop_tree \<Rightarrow> loop_id \<Rightarrow> loop_id option" where
  "outermost t lid = do {
     l \<leftarrow> get_loop t lid;
     (case lp_parent l of None \<Rightarrow> Some lid | Some parent \<Rightarrow> outermost t parent)
   }"

declare outermost.simps [code]

definition loop_ancestor :: "'n loop_tree \<Rightarrow> 'n \<Rightarrow> 'n loop_tree_node option" where
  "loop_ancestor t block =
     (case block_loop_parent t block of
        None \<Rightarrow> Some (Block block)
      | Some lid \<Rightarrow> map_option Loop (outermost t lid))"

text \<open>The queue's end, where the source pushes and pops, is the head of the list.\<close>

definition add_to_body :: "'a \<Rightarrow> 'a list \<times> 'a list \<Rightarrow> 'a list \<times> 'a list" where
  "add_to_body x bq = (case bq of (body, queue) \<Rightarrow>
     if x \<in> set body then (body, queue) else (body @ [x], x # queue))"

fun add_ancestors ::
    "'n loop_tree \<Rightarrow> ('n \<Rightarrow> bool) \<Rightarrow> 'n list \<Rightarrow> 'n loop_tree_node list \<times> 'n loop_tree_node list \<Rightarrow>
     ('n loop_tree_node list \<times> 'n loop_tree_node list) option" where
  "add_ancestors t P [] bq = Some bq"
| "add_ancestors t P (b # bs) bq =
     (if P b then do {
        ancestor \<leftarrow> loop_ancestor t b;
        add_ancestors t P bs (add_to_body ancestor bq)
      } else add_ancestors t P bs bq)"

definition entry_block :: "'n loop_tree \<Rightarrow> 'n loop_tree_node \<Rightarrow> 'n option" where
  "entry_block t node = (case node of Block block \<Rightarrow> Some block | Loop lid \<Rightarrow> loop_header t lid)"

partial_function (option) body_loop ::
    "'n cfg \<Rightarrow> 'n dom_tree \<Rightarrow> 'n loop_tree \<Rightarrow> 'n \<Rightarrow> 'n loop_tree_node list \<Rightarrow> 'n loop_tree_node list \<Rightarrow>
     'n loop_tree_node list option" where
  "body_loop g dt t header body queue =
     (case queue of
        [] \<Rightarrow> Some body
      | node # queue \<Rightarrow> do {
          block \<leftarrow> entry_block t node;
          (body, queue) \<leftarrow> add_ancestors t (\<lambda>pred. pred \<noteq> header \<and> dt_contains dt pred)
            (predecessors g block) (body, queue);
          body_loop g dt t header body queue
        })"

declare body_loop.simps [code]

fun set_parents :: "loop_id \<Rightarrow> 'n loop_tree_node list \<Rightarrow> 'n loop_tree \<Rightarrow> 'n loop_tree option" where
  "set_parents lid [] t = Some t"
| "set_parents lid (Block block # nodes) t =
     set_parents lid nodes (t\<lparr>block_parent := (block_parent t)(block \<mapsto> lid)\<rparr>)"
| "set_parents lid (Loop child # nodes) t = do {
     t \<leftarrow> update_loop (\<lambda>l. l\<lparr>lp_parent := Some lid\<rparr>) child t;
     set_parents lid nodes t
   }"

definition find_body :: "'n cfg \<Rightarrow> 'n dom_tree \<Rightarrow> 'n \<Rightarrow> 'n list \<Rightarrow> 'n loop_tree \<Rightarrow> 'n loop_tree option" where
  "find_body g dt header ls t = do {
     (body, queue) \<leftarrow> add_ancestors t (\<lambda>latch. latch \<noteq> header) ls ([], []);
     body \<leftarrow> body_loop g dt t header body queue;
     (let body = iset_insert (Block header) body;
          lid = LoopId (length (lt_loops t)) in do {
        t \<leftarrow> set_parents lid body t;
        Some (t\<lparr>lt_loops := lt_loops t @ [\<lparr>lp_header = header, lp_parent = None, lp_contents = body,
          lp_latches = ls, lp_blocks = [header], lp_depth = 0\<rparr>]\<rparr>)
      })
   }"

section \<open>The computation\<close>

record 'n intervals_state =
  intervals :: "'n \<rightharpoonup> nat \<times> nat"
  clock :: nat

definition interval_start :: "'n intervals_state \<Rightarrow> 'n \<Rightarrow> ('n intervals_state \<times> unit walk_result) option" where
  "interval_start s node = Some (s\<lparr>intervals := (intervals s)(node \<mapsto> (clock s, 0)), clock := clock s + 1\<rparr>,
     Continue Advance)"

definition interval_end :: "'n intervals_state \<Rightarrow> 'n \<Rightarrow> ('n intervals_state \<times> unit walk_result) option" where
  "interval_end s node = do {
     (start, _) \<leftarrow> intervals s node;
     Some (s\<lparr>intervals := (intervals s)(node \<mapsto> (start, clock s))\<rparr>, Continue Advance)
   }"

definition dom_intervals :: "'n dom_tree \<Rightarrow> ('n \<rightharpoonup> nat \<times> nat) option" where
  "dom_intervals dt = do {
     (s, _) \<leftarrow> dt_walk dt Forward interval_start interval_end \<lparr>intervals = Map.empty, clock = 0\<rparr>;
     Some (intervals s)
   }"

definition is_back_edge :: "('n \<rightharpoonup> nat \<times> nat) \<Rightarrow> nat \<times> nat \<Rightarrow> 'n \<Rightarrow> bool" where
  "is_back_edge iv header pred = (case iv pred of
       None \<Rightarrow> False
     | Some (pred_start, _) \<Rightarrow> fst header \<le> pred_start \<and> pred_start < snd header)"

fun find_loops :: "'n cfg \<Rightarrow> 'n dom_tree \<Rightarrow> ('n \<rightharpoonup> nat \<times> nat) \<Rightarrow> 'n list \<Rightarrow> 'n loop_tree \<Rightarrow> 'n loop_tree option" where
  "find_loops g dt iv [] t = Some t"
| "find_loops g dt iv (header # hs) t = do {
     interval \<leftarrow> iv header;
     (let ls = iset_collect (filter (is_back_edge iv interval) (predecessors g header)) in do {
        t \<leftarrow> (if ls \<noteq> [] then find_body g dt header ls t else Some t);
        find_loops g dt iv hs t
      })
   }"

definition child_position :: "('n \<Rightarrow> nat option) \<Rightarrow> nat list \<Rightarrow> 'n loop_tree_node \<Rightarrow> nat option" where
  "child_position rpo_position header_positions node =
     (case node of Block block \<Rightarrow> rpo_position block | Loop lid \<Rightarrow> oget header_positions (loop_index lid))"

definition sort_loop ::
    "('n \<Rightarrow> nat option) \<Rightarrow> nat list \<Rightarrow> 'n loop_data \<Rightarrow> 'n loop_data option" where
  "sort_loop rpo_position header_positions l = do {
     cs \<leftarrow> sort_by_key (child_position rpo_position header_positions) (lp_contents l);
     ls \<leftarrow> sort_by_key rpo_position (lp_latches l);
     Some (l\<lparr>lp_contents := cs, lp_latches := ls\<rparr>)
   }"

partial_function (option) add_block :: "'n \<Rightarrow> loop_id option \<Rightarrow> 'n loop_tree \<Rightarrow> 'n loop_tree option" where
  "add_block node parent t =
     (case parent of
        None \<Rightarrow> Some t
      | Some lid \<Rightarrow> do {
          t \<leftarrow> update_loop (\<lambda>l. l\<lparr>lp_blocks := iset_insert node (lp_blocks l)\<rparr>) lid t;
          parent \<leftarrow> loop_parent t lid;
          add_block node parent t
        })"

declare add_block.simps [code]

fun add_blocks :: "'n list \<Rightarrow> 'n loop_tree \<Rightarrow> 'n loop_tree option" where
  "add_blocks [] t = Some t"
| "add_blocks (node # nodes) t = do {
     t \<leftarrow> Some (if block_loop_parent t node = None
       then t\<lparr>root_contents := root_contents t @ [Block node]\<rparr> else t);
     t \<leftarrow> add_block node (block_loop_parent t node) t;
     add_blocks nodes t
   }"

partial_function (option) count_depth :: "'n loop_tree \<Rightarrow> nat \<Rightarrow> loop_id option \<Rightarrow> nat option" where
  "count_depth t depth parent =
     (case parent of
        None \<Rightarrow> Some depth
      | Some lid \<Rightarrow> do { parent \<leftarrow> loop_parent t lid; count_depth t (depth + 1) parent })"

declare count_depth.simps [code]

fun set_depths :: "loop_id list \<Rightarrow> 'n loop_tree \<Rightarrow> 'n loop_tree option" where
  "set_depths [] t = Some t"
| "set_depths (lid # lids) t = do {
     parent \<leftarrow> loop_parent t lid;
     t \<leftarrow> Some (if parent = None then t\<lparr>root_contents := root_contents t @ [Loop lid]\<rparr> else t);
     depth \<leftarrow> count_depth t 1 parent;
     t \<leftarrow> update_loop (\<lambda>l. l\<lparr>lp_depth := depth\<rparr>) lid t;
     set_depths lids t
   }"

definition empty_loop_tree :: "'n loop_tree" where
  "empty_loop_tree = \<lparr>lt_loops = [], loop_order = [], root_contents = [], block_parent = Map.empty\<rparr>"

definition compute_loop_tree :: "'n cfg \<Rightarrow> 'n dom_tree \<Rightarrow> 'n loop_tree option" where
  "compute_loop_tree g dt = do {
     ocheck (dt_root dt = entry_node g);
     iv \<leftarrow> dom_intervals dt;
     dfs \<leftarrow> dfs_traversal g;
     po \<leftarrow> dfs_post_order dfs;
     t \<leftarrow> find_loops g dt iv po empty_loop_tree;
     rpo \<leftarrow> dfs_reverse_post_order dfs;
     (let nodes = iset_collect rpo; rpo_position = index_of nodes in do {
        header_positions \<leftarrow> omap (\<lambda>l. rpo_position (lp_header l)) (lt_loops t);
        order \<leftarrow> sort_by_key (\<lambda>lid. oget header_positions (loop_index lid)) (map LoopId [0..<length (lt_loops t)]);
        ls \<leftarrow> omap (sort_loop rpo_position header_positions) (lt_loops t);
        t \<leftarrow> add_blocks nodes (t\<lparr>loop_order := order, lt_loops := ls\<rparr>);
        t \<leftarrow> set_depths (loop_order t) t;
        cs \<leftarrow> sort_by_key (child_position rpo_position header_positions) (root_contents t);
        Some (t\<lparr>root_contents := cs\<rparr>)
      })
   }"

end
