(* ===== verification/NaturalLoop.thy ===== *)
theory NaturalLoop
  imports LoopTree
begin

text \<open>
  The natural loops of a graph, defined without reference to the algorithm of \<open>LoopTree\<close>, and the
  facts the algorithm rests on: loops of different headers are nested or disjoint, a dominator comes
  after what it dominates in post-order, and the clock intervals of the walk of the dominator tree
  decide dominance.
\<close>

section \<open>Natural loops\<close>

text \<open>The latches of \<open>h\<close> are the sources of its back edges: reachable and dominated by \<open>h\<close>.\<close>

definition latch_of :: "'n cfg \<Rightarrow> 'n \<Rightarrow> 'n \<Rightarrow> 'n \<Rightarrow> bool" where
  "latch_of g e h l \<longleftrightarrow> edge g l h \<and> doms g e h l"

text \<open>
  The natural loop of \<open>h\<close> is the least set that holds \<open>h\<close>, its latches, and the reachable
  predecessors of its members other than \<open>h\<close>.
\<close>

inductive_set natural_loop :: "'n cfg \<Rightarrow> 'n \<Rightarrow> 'n \<Rightarrow> 'n set" for g e h where
  header: "h \<in> natural_loop g e h"
| latch: "latch_of g e h l \<Longrightarrow> l \<in> natural_loop g e h"
| pred: "x \<in> natural_loop g e h \<Longrightarrow> x \<noteq> h \<Longrightarrow> edge g p x \<Longrightarrow> reaches g e p \<Longrightarrow> p \<in> natural_loop g e h"

lemmas natural_loop_intros = natural_loop.intros

lemma doms_antisym:
  assumes "doms g e a b" and "doms g e b a"
  shows "a = b"
proof (rule ccontr)
  assume ne: "a \<noteq> b"
  obtain p where p: "is_path g e p b" using reaches_path[OF conjunct1[OF doms_reachable[OF assms(1)]]] by blast
  have split: "\<exists>q. length q < length p \<and> is_path g e q y" if px: "is_path g e p x" and yx: "doms g e y x" "y \<noteq> x" for p x y
  proof -
    have "y \<in> set p" using yx(1) px unfolding doms_def by blast
    then obtain as bs where s: "p = as @ y # bs" using split_list[of y p] by blast
    have "bs \<noteq> []" using is_path_ends[OF px] yx(2) s by auto
    then show ?thesis using is_path_prefix[of g e as y bs x] px s by (intro exI[of _ "as @ [y]"]) simp
  qed
  have "\<not> is_path g e p b \<and> \<not> is_path g e p a" for p
  proof (induction "length p" arbitrary: p rule: less_induct)
    case less
    show ?case
    proof (intro conjI notI)
      assume "is_path g e p b"
      from split[OF this assms(1) ne] show False using less.hyps by blast
    next
      assume "is_path g e p a"
      from split[OF this assms(2)] show False using less.hyps ne by blast
    qed
  qed
  then show False using p by blast
qed

lemma natural_loop_doms:
  assumes "reaches g e h"
  shows "x \<in> natural_loop g e h \<Longrightarrow> doms g e h x"
proof (induction rule: natural_loop.induct)
  case header
  show ?case using doms_refl[OF assms] .
next
  case (latch l)
  then show ?case by (simp add: latch_of_def)
next
  case (pred x p)
  have "h \<in> set q" if q: "is_path g e q p" for q
  proof -
    have "is_path g e (q @ [x]) x" using q pred(3) is_path_ends[OF q] by (auto simp: is_path_snoc)
    then have "h \<in> set (q @ [x])" using pred(5) unfolding doms_def by blast
    then show ?thesis using pred(2) by simp
  qed
  then show ?case using pred(4) by (simp add: doms_def)
qed

lemma natural_loop_reaches: "reaches g e h \<Longrightarrow> x \<in> natural_loop g e h \<Longrightarrow> reaches g e x"
  using natural_loop_doms doms_reachable by metis

text \<open>A path into a member that avoids the header stays in the loop.\<close>

lemma natural_loop_path:
  "is_path g u b x \<Longrightarrow> x \<in> natural_loop g e h \<Longrightarrow> h \<notin> set b \<Longrightarrow> reaches g e u \<Longrightarrow> set b \<subseteq> natural_loop g e h"
proof (induction b arbitrary: u)
  case (Cons y b)
  show ?case
  proof (cases "b = []")
    case True
    then show ?thesis using Cons.prems by (auto simp: is_path_Cons)
  next
    case False
    then obtain z where z: "u = y" "edge g y z" "is_path g z b x" using Cons.prems(1) by (auto simp: is_path_Cons)
    have "set b \<subseteq> natural_loop g e h"
      using Cons.IH[OF z(3)] Cons.prems(2-4) z(1) reaches_step[OF _ z(2)] by auto
    moreover have "z \<in> set b" using is_path_ends[OF z(3)] by (metis hd_in_set)
    ultimately have "y \<in> natural_loop g e h"
      using natural_loop.pred[of z g e h y] z Cons.prems(3,4) by auto
    then show ?thesis using \<open>set b \<subseteq> natural_loop g e h\<close> by simp
  qed
qed simp

lemma last_split: "x \<in> set p \<Longrightarrow> \<exists>a b. p = a @ x # b \<and> x \<notin> set b"
  by (metis split_list_last)

lemma is_path_suffix: "is_path g u (p @ x # q) v \<Longrightarrow> is_path g x (x # q) v"
proof (induction p arbitrary: u)
  case (Cons y p)
  then show ?case by (auto simp: is_path_Cons[of g u])
qed (auto simp: is_path_Cons)

lemma is_path_join: "is_path g u p x \<Longrightarrow> is_path g x (x # q) v \<Longrightarrow> is_path g u (p @ q) v"
proof (induction p arbitrary: u)
  case (Cons y p)
  show ?case
  proof (cases "p = []")
    case True
    then show ?thesis using Cons.prems by (simp add: is_path_Cons)
  next
    case False
    then obtain z where "u = y" "edge g y z" "is_path g z p x" using Cons.prems(1) by (auto simp: is_path_Cons)
    then show ?thesis using Cons.IH[of z] Cons.prems(2) is_path_Cons[of g u y "p @ q" v] by auto
  qed
qed simp

text \<open>Loops with a common node are nested: the dominated header is in the other loop.\<close>

lemma natural_loop_nested:
  assumes d: "doms g e h1 h2" "h1 \<noteq> h2" and x: "x \<in> natural_loop g e h1" "x \<in> natural_loop g e h2"
  shows "h2 \<in> natural_loop g e h1" and "natural_loop g e h2 \<subseteq> natural_loop g e h1"
proof -
  have r: "reaches g e h1" "reaches g e h2" using doms_reachable[OF d(1)] by auto
  have n21: "\<not> doms g e h2 h1" using doms_antisym[OF d(1)] d(2) by blast
  have dx: "doms g e h1 x" "doms g e h2 x" using natural_loop_doms[OF r(1) x(1)] natural_loop_doms[OF r(2) x(2)] .
  then have "x \<noteq> h1" using n21 by blast
  obtain p where p: "is_path g e p x" using reaches_path[OF conjunct1[OF doms_reachable[OF dx(1)]]] by blast
  then have "h1 \<in> set p" using dx(1) by (simp add: doms_def)
  then obtain a b where ab: "p = a @ h1 # b" "h1 \<notin> set b" using last_split by metis
  have b: "is_path g h1 (h1 # b) x" using is_path_suffix p ab(1) by metis
  obtain q where q: "is_path g e q h1" "h2 \<notin> set q" using n21 r(1) by (auto simp: doms_def)
  have "is_path g e (q @ b) x" using is_path_join[OF q(1) b] .
  then have h2b: "h2 \<in> set b" using dx(2) q(2) by (auto simp: doms_def)
  then obtain y where y: "edge g h1 y" "is_path g y b x" using b by (cases b) (auto simp: is_path_Cons[of g h1])
  have "set b \<subseteq> natural_loop g e h1"
    using natural_loop_path[OF y(2) x(1) ab(2)] reaches_step[OF r(1) y(1)] .
  then show h2: "h2 \<in> natural_loop g e h1" using h2b by blast
  show "natural_loop g e h2 \<subseteq> natural_loop g e h1"
  proof
    fix z
    assume "z \<in> natural_loop g e h2"
    then show "z \<in> natural_loop g e h1"
    proof (induction rule: natural_loop.induct)
      case (latch l)
      then have l: "edge g l h2" "doms g e h2 l" by (simp_all add: latch_of_def)
      show ?case using natural_loop.pred[OF h2 d(2)[symmetric] l(1)] doms_reachable[OF l(2)] by blast
    next
      case (pred z p)
      have "z \<noteq> h1" using natural_loop_doms[OF r(2) pred(1)] n21 by blast
      then show ?case using natural_loop.pred[OF pred(5)] pred(3,4) by blast
    qed (rule h2)
  qed
qed

section \<open>Post-order\<close>

lemma rpo_dominator_earlier:
  assumes "rpo_of g e rpo"
  shows "i < length rpo \<Longrightarrow> doms g e d (rpo ! i) \<Longrightarrow> \<exists>j \<le> i. rpo ! j = d"
proof -
  note r = rpo_ofD[OF assms]
  have "i < length rpo \<Longrightarrow> \<exists>p. is_path g e p (rpo ! i) \<and> set p \<subseteq> (!) rpo ` {..i}" for i
  proof (induction i rule: less_induct)
    case (less i)
    show ?case
    proof (cases "i = 0")
      case True
      then show ?thesis using r(4) by (intro exI[of _ "[e]"]) auto
    next
      case False
      then obtain j where j: "j < i" "edge g (rpo ! j) (rpo ! i)" using r(5)[of i] less.prems by auto
      obtain p where p: "is_path g e p (rpo ! j)" "set p \<subseteq> (!) rpo ` {..j}"
        using less.IH[OF j(1)] j(1) less.prems by auto
      have path: "is_path g e (p @ [rpo ! i]) (rpo ! i)" using p(1) j(2) is_path_ends[OF p(1)] by (auto simp: is_path_snoc)
      have "(!) rpo ` {..j} \<subseteq> (!) rpo ` {..i}" using j(1) by auto
      then have "set (p @ [rpo ! i]) \<subseteq> (!) rpo ` {..i}" using p(2) by auto
      then show ?thesis using path by blast
    qed
  qed
  then show "i < length rpo \<Longrightarrow> doms g e d (rpo ! i) \<Longrightarrow> \<exists>j \<le> i. rpo ! j = d"
    unfolding doms_def by (metis (no_types, lifting) atMost_iff image_iff subsetD)
qed

section \<open>Intervals\<close>

fun rt_subtrees :: "'n rtree \<Rightarrow> 'n rtree list" where
  "rt_subtrees (RNode n ts) = RNode n ts # concat (map rt_subtrees ts)"

text \<open>\<open>u\<close> is above \<open>v\<close> in the forest.\<close>

definition above :: "'n rtree list \<Rightarrow> 'n \<Rightarrow> 'n \<Rightarrow> bool" where
  "above f u v \<longleftrightarrow> (\<exists>T \<in> set (concat (map rt_subtrees f)). rt_root T = u \<and> v \<in> set (rt_nodes T))"

abbreviation forest_nodes :: "'n rtree list \<Rightarrow> 'n list" where
  "forest_nodes f \<equiv> concat (map rt_nodes f)"

lemma above_Nil [simp]: "\<not> above [] u v"
  by (simp add: above_def)

lemma rt_subtrees_nodes: "S \<in> set (rt_subtrees T) \<Longrightarrow> set (rt_nodes S) \<subseteq> set (rt_nodes T)"
  by (induction T rule: rt_subtrees.induct) auto

lemma rt_node_subtree: "h \<in> set (rt_nodes T) \<Longrightarrow> \<exists>S \<in> set (rt_subtrees T). rt_root S = h"
proof (induction T rule: rt_subtrees.induct)
  case (1 n ts)
  show ?case
  proof (cases "h = n")
    case False
    then obtain T where "T \<in> set ts" "h \<in> set (rt_nodes T)" using 1(2) by auto
    with 1(1)[of T] show ?thesis by auto
  qed simp
qed

lemma rt_root_in: "rt_root T \<in> set (rt_nodes T)"
  by (cases T) simp

lemma above_nodes: "above f u v \<Longrightarrow> u \<in> set (forest_nodes f) \<and> v \<in> set (forest_nodes f)"
  unfolding above_def using rt_subtrees_nodes rt_root_in by (fastforce simp: subset_iff)

lemma above_Cons:
  "above (RNode n ts # f) u v \<longleftrightarrow> (u = n \<and> v \<in> set (rt_nodes (RNode n ts))) \<or> above ts u v \<or> above f u v"
  by (auto simp: above_def)

text \<open>After a walk the intervals number the forest from the clock on, and containment is \<open>above\<close>.\<close>

definition numbered :: "'n rtree list \<Rightarrow> 'n intervals_state \<Rightarrow> 'n intervals_state \<Rightarrow> bool" where
  "numbered f s s' \<longleftrightarrow>
     clock s' = clock s + length (forest_nodes f)
     \<and> (\<forall>v. v \<notin> set (forest_nodes f) \<longrightarrow> intervals s' v = intervals s v)
     \<and> (\<forall>v \<in> set (forest_nodes f). \<exists>a b. intervals s' v = Some (a, b) \<and> clock s \<le> a \<and> a < b \<and> b \<le> clock s')
     \<and> (\<forall>u \<in> set (forest_nodes f). \<forall>v \<in> set (forest_nodes f). \<forall>a b c d.
          intervals s' u = Some (a, b) \<longrightarrow> intervals s' v = Some (c, d) \<longrightarrow> (a \<le> c \<and> c < b) = above f u v)"

lemma numberedD:
  assumes "numbered f s s'"
  shows "clock s' = clock s + length (forest_nodes f)"
    and "v \<notin> set (forest_nodes f) \<Longrightarrow> intervals s' v = intervals s v"
    and "v \<in> set (forest_nodes f) \<Longrightarrow> \<exists>a b. intervals s' v = Some (a, b) \<and> clock s \<le> a \<and> a < b \<and> b \<le> clock s'"
    and "u \<in> set (forest_nodes f) \<Longrightarrow> v \<in> set (forest_nodes f) \<Longrightarrow> intervals s' u = Some (a, b) \<Longrightarrow>
      intervals s' v = Some (c, d) \<Longrightarrow> (a \<le> c \<and> c < b) = above f u v"
  using assms unfolding numbered_def by blast+

lemma forest_induct [case_names Nil Cons]:
  assumes "P []" and "\<And>n ts f. P ts \<Longrightarrow> P f \<Longrightarrow> P (RNode n ts # f)"
  shows "P f"
proof (induction "size_list size f" arbitrary: f rule: less_induct)
  case less
  show ?case
  proof (cases f)
    case (Cons T rest)
    obtain n ts where "T = RNode n ts" by (cases T)
    then show ?thesis using assms(2)[of ts rest] less.hyps[of ts] less.hyps[of rest] Cons by simp
  qed (simp add: assms(1))
qed

lemma numbered_Cons:
  assumes d: "distinct (forest_nodes (RNode n ts # f))"
    and ts: "numbered ts (s\<lparr>intervals := (intervals s)(n \<mapsto> (clock s, 0)), clock := clock s + 1\<rparr>) s2"
    and f: "numbered f (s2\<lparr>intervals := (intervals s2)(n \<mapsto> (clock s, clock s2))\<rparr>) s4"
  shows "numbered (RNode n ts # f) s s4"
proof -
  define A where "A = set (forest_nodes ts)"
  define B where "B = set (forest_nodes f)"
  let ?f = "RNode n ts # f"
  have n: "n \<notin> A" "n \<notin> B" and disj: "A \<inter> B = {}" using d by (auto simp: A_def B_def)
  have set: "set (forest_nodes ?f) = insert n (A \<union> B)" by (auto simp: A_def B_def)
  note T = numberedD[OF ts, folded A_def] and F = numberedD[OF f, folded B_def]
  have c2: "clock s2 = clock s + 1 + length (forest_nodes ts)" using T(1) by simp
  have c4: "clock s4 = clock s2 + length (forest_nodes f)" using F(1) by simp
  have iv_n: "intervals s4 n = Some (clock s, clock s2)" using F(2)[OF n(2)] by simp
  have iv_ts: "\<exists>a b. intervals s4 v = Some (a, b) \<and> intervals s2 v = Some (a, b) \<and> clock s < a \<and> a < b \<and> b \<le> clock s2"
    if "v \<in> A" for v
    using T(3)[OF that] F(2)[of v] that disj n by fastforce
  have iv_f: "\<exists>a b. intervals s4 v = Some (a, b) \<and> clock s2 \<le> a \<and> a < b \<and> b \<le> clock s4" if "v \<in> B" for v
    using F(3)[OF that] by simp
  have mem: "v \<in> set (rt_nodes (RNode n ts)) \<longleftrightarrow> v \<in> insert n A" for v by (auto simp: A_def)
  have ab: "above ?f u v \<longleftrightarrow> u = n \<and> v \<in> insert n A \<or> u \<in> A \<and> v \<in> A \<and> above ts u v \<or> u \<in> B \<and> v \<in> B \<and> above f u v" for u v
    using above_Cons[of n ts f u v] above_nodes[of ts u v, folded A_def] above_nodes[of f u v, folded B_def] mem by blast
  have "(a \<le> c \<and> c < b) = above ?f u v"
    if uv: "u \<in> insert n (A \<union> B)" "v \<in> insert n (A \<union> B)"
      and iv: "intervals s4 u = Some (a, b)" "intervals s4 v = Some (c, d)" for u v a b c d
  proof -
    consider "u = n" | "u \<in> A" "u \<noteq> n" "u \<notin> B" | "u \<in> B" "u \<noteq> n" "u \<notin> A" using uv(1) n disj by blast
    then show ?thesis
    proof cases
      case 1
      then have "a = clock s" "b = clock s2" using iv(1) iv_n by auto
      consider "v = n" | "v \<in> A" "v \<noteq> n" | "v \<in> B" "v \<noteq> n" "v \<notin> A" using uv(2) n disj by blast
      then show ?thesis
      proof cases
        case v: 1
        then show ?thesis using iv_n iv(2) 1 \<open>a = clock s\<close> \<open>b = clock s2\<close> c2 unfolding ab by auto
      next
        case v: 2
        then show ?thesis using iv(2) iv_ts[OF v(1)] 1 \<open>a = clock s\<close> \<open>b = clock s2\<close> unfolding ab by auto
      next
        case v: 3
        then show ?thesis using iv(2) iv_f[OF v(1)] 1 n \<open>a = clock s\<close> \<open>b = clock s2\<close> unfolding ab by auto
      qed
    next
      case 2
      then have b: "clock s < a" "b \<le> clock s2" "intervals s2 u = Some (a, b)" using iv(1) iv_ts[of u] by auto
      consider "v = n" | "v \<in> A" "v \<noteq> n" "v \<notin> B" | "v \<in> B" "v \<noteq> n" "v \<notin> A" using uv(2) n disj by blast
      then show ?thesis
      proof cases
        case 1
        then show ?thesis using 2 iv(2) iv_n b n unfolding ab by auto
      next
        case v: 2
        have "intervals s2 v = Some (c, d)" using iv(2) iv_ts[OF v(1)] by auto
        then show ?thesis using T(4)[OF 2(1) v(1) b(3)] 2 v unfolding ab by blast
      next
        case v: 3
        then show ?thesis using 2 iv(2) iv_f[OF v(1)] b unfolding ab by auto
      qed
    next
      case 3
      then have b: "clock s2 \<le> a" using iv(1) iv_f[of u] by auto
      consider "v = n" | "v \<in> A" "v \<noteq> n" "v \<notin> B" | "v \<in> B" "v \<noteq> n" "v \<notin> A" using uv(2) n disj by blast
      then show ?thesis
      proof cases
        case 1
        then show ?thesis using 3 iv(2) iv_n b c2 n unfolding ab by auto
      next
        case v: 2
        then show ?thesis using 3 iv(2) iv_ts[OF v(1)] b unfolding ab by auto
      next
        case v: 3
        then show ?thesis using F(4)[OF 3(1) v(1) iv] 3 v unfolding ab by blast
      qed
    qed
  qed
  moreover have "\<exists>a b. intervals s4 v = Some (a, b) \<and> clock s \<le> a \<and> a < b \<and> b \<le> clock s4"
    if "v \<in> insert n (A \<union> B)" for v
    using that iv_n iv_ts[of v] iv_f[of v] c2 c4 by fastforce
  moreover have "intervals s4 v = intervals s v" if "v \<notin> insert n (A \<union> B)" for v
    using that F(2)[of v] T(2)[of v] by simp
  ultimately show ?thesis unfolding numbered_def set using c2 c4 by simp
qed

lemma walk_numbered:
  "distinct (forest_nodes f) \<Longrightarrow> \<exists>s'. walk_forest Forward interval_start interval_end s f = Some (s', Continue Advance)
    \<and> numbered f s s'"
proof (induction f arbitrary: s rule: forest_induct)
  case Nil
  show ?case by (simp add: numbered_def)
next
  case (Cons n ts f)
  let ?s1 = "s\<lparr>intervals := (intervals s)(n \<mapsto> (clock s, 0)), clock := clock s + 1\<rparr>"
  have d: "distinct (forest_nodes ts)" "distinct (forest_nodes f)" "n \<notin> set (forest_nodes ts)" using Cons.prems by auto
  obtain s2 where s2: "walk_forest Forward interval_start interval_end ?s1 ts = Some (s2, Continue Advance)"
      "numbered ts ?s1 s2" using Cons.IH(1)[OF d(1)] by blast
  have "intervals s2 n = Some (clock s, 0)" using numberedD(2)[OF s2(2) d(3)] by simp
  then have e: "interval_end s2 n = Some (s2\<lparr>intervals := (intervals s2)(n \<mapsto> (clock s, clock s2))\<rparr>, Continue Advance)"
    by (simp add: interval_end_def)
  obtain s4 where s4: "walk_forest Forward interval_start interval_end
        (s2\<lparr>intervals := (intervals s2)(n \<mapsto> (clock s, clock s2))\<rparr>) f = Some (s4, Continue Advance)"
      "numbered f (s2\<lparr>intervals := (intervals s2)(n \<mapsto> (clock s, clock s2))\<rparr>) s4"
    using Cons.IH(2)[OF d(2)] by blast
  have "interval_start s n = Some (?s1, Continue Advance)" by (simp add: interval_start_def)
  then have "walk_forest Forward interval_start interval_end s (RNode n ts # f) = Some (s4, Continue Advance)"
    using s2(1) e s4(1) by (simp add: walk_forest_Cons sibling_order_def del: walk_forest.simps)
  then show ?case using numbered_Cons[OF Cons.prems s2(2) s4(2)] by blast
qed

section \<open>The intervals decide dominance\<close>

lemma doms_child:
  assumes t: "tree_of g e t rpo da"
  shows "doms g e n v \<Longrightarrow> v \<noteq> n \<Longrightarrow> \<exists>c. idom t c = Some (Some n) \<and> doms g e c v"
proof (induction "tree_rank t v" arbitrary: v rule: less_induct)
  case less
  obtain dn where dn: "dt_lookup t v = Some dn"
    using tree_contains[OF t, of v] doms_reachable[OF less.prems(1)] by auto
  show ?case
  proof (cases "dn_parent dn")
    case None
    then show ?thesis using tree_root_law[OF t dn None] less.prems by simp
  next
    case (Some p)
    note l = tree_parent_law[OF t dn Some]
    have v: "idom t v = Some (Some p)" "doms g e v v"
      using dn Some l by (auto simp: idom_def)
    show ?thesis
    proof (cases "p = n")
      case True
      then show ?thesis using v by blast
    next
      case False
      have np: "doms g e n p" using l less.prems by simp
      show ?thesis using less.hyps[of p] False l np by blast
    qed
  qed
qed

lemma tree_in_subtree: "tree_in m T \<Longrightarrow> S \<in> set (rt_subtrees T) \<Longrightarrow> tree_in m S"
  by (induction T rule: rt_subtrees.induct) auto

lemma tree_in_nodes:
  assumes t: "tree_of g e t rpo da"
  shows "tree_in (dt_lookup t) T \<Longrightarrow> set (rt_nodes T) = {v. doms g e (rt_root T) v}"
proof (induction T rule: rt_nodes.induct)
  case (1 n ts)
  obtain dn where dn: "dt_lookup t n = Some dn" "dn_children dn = map rt_root ts" and sub: "\<forall>S \<in> set ts. tree_in (dt_lookup t) S"
    using 1(2) by auto
  have r: "reaches g e n" using tree_contains[OF t, of n] dn(1) by simp
  obtain cs where cs: "dt_children t n = Some cs" "set cs = {c. idom t c = Some (Some n)}"
    using tree_children[OF t r] by blast
  have roots: "rt_root ` set ts = {c. idom t c = Some (Some n)}" using cs dn by (simp add: dt_children_def flip: set_map)
  have up: "doms g e n v" if kid: "idom t c = Some (Some n)" "doms g e c v" for c v
  proof -
    obtain cn where cn: "dt_lookup t c = Some cn" "dn_parent cn = Some n" using kid(1) by (auto simp: idom_def)
    have nc: "doms g e n c" using tree_parent_law[OF t cn] doms_refl[OF r] by simp
    show ?thesis by (rule doms_trans[OF nc kid(2)])
  qed
  have "set (rt_nodes (RNode n ts)) = insert n (\<Union>S \<in> set ts. {v. doms g e (rt_root S) v})" using 1(1) sub by auto
  also have "\<dots> = insert n {v. \<exists>c. idom t c = Some (Some n) \<and> doms g e c v}" proof -
    have "(\<Union>S \<in> set ts. {v. doms g e (rt_root S) v}) = {v. \<exists>c \<in> rt_root ` set ts. doms g e c v}" by blast
    then show ?thesis unfolding roots by simp
  qed
  also have "\<dots> = {v. doms g e n v}" using doms_child[OF t, of n] up doms_refl[OF r] by blast
  finally show ?case by simp
qed

lemma dom_intervals_correct:
  assumes t: "tree_of g e t rpo da"
  shows "\<exists>iv. dom_intervals t = Some iv \<and> (\<forall>v. iv v \<noteq> None \<longleftrightarrow> reaches g e v)
    \<and> (\<forall>h x. iv h = Some x \<longrightarrow> (\<forall>p. is_back_edge iv x p \<longleftrightarrow> doms g e h p))"
proof -
  let ?s = "\<lparr>intervals = Map.empty, clock = 0\<rparr> :: 'a intervals_state"
  obtain T where T0: "rt_root T = e \<and> tree_in (dt_lookup t) T \<and> distinct (rt_nodes T) \<and> set (rt_nodes T) = {v. reaches g e v}
    \<and> (\<forall>dir pre post (s :: 'a intervals_state). (dt_walk t dir pre post s :: ('a intervals_state \<times> unit walk_result) option)
         = after_walk (walk_forest dir pre post s [T]) (\<lambda>s. Some (s, Continue Advance)))"
    using dt_walk_rtree[OF t] by (rule exE)
  then have T: "tree_in (dt_lookup t) T" "distinct (rt_nodes T)" "set (rt_nodes T) = {v. reaches g e v}"
      "dt_walk t Forward interval_start interval_end ?s
        = after_walk (walk_forest Forward interval_start interval_end ?s [T]) (\<lambda>s. Some (s, Continue Advance))"
    by simp_all
  obtain s where s: "walk_forest Forward interval_start interval_end ?s [T] = Some (s, Continue Advance)" "numbered [T] ?s s"
    using walk_numbered[of "[T]" ?s] T(2) by auto
  note N = numberedD[OF s(2), simplified T(3), simplified]
  have dom: "intervals s v \<noteq> None \<longleftrightarrow> reaches g e v" for v using N(2)[of v] N(3)[of v] T(3) by fastforce
  have ab: "above [T] h p \<longleftrightarrow> doms g e h p" if "reaches g e h" for h p
  proof
    assume "above [T] h p"
    then obtain S where "S \<in> set (rt_subtrees T)" "rt_root S = h" "p \<in> set (rt_nodes S)" by (auto simp: above_def)
    then show "doms g e h p" using tree_in_nodes[OF t tree_in_subtree[OF T(1)]] by blast
  next
    assume d: "doms g e h p"
    have "h \<in> set (rt_nodes T)" using that T(3) by simp
    then obtain S where S: "S \<in> set (rt_subtrees T)" "rt_root S = h"
      using rt_node_subtree by metis
    then have "p \<in> set (rt_nodes S)" using tree_in_nodes[OF t tree_in_subtree[OF T(1) S(1)]] d by simp
    then show "above [T] h p" using S by (auto simp: above_def)
  qed
  have "is_back_edge (intervals s) x p \<longleftrightarrow> doms g e h p" if x: "intervals s h = Some x" for h x p
  proof (cases "intervals s p")
    case None
    then have "\<not> reaches g e p" using dom[of p] by simp
    then show ?thesis using None doms_reachable[of g e h p] by (auto simp: is_back_edge_def)
  next
    case (Some y)
    have r: "reaches g e h" "reaches g e p" using dom[of h] dom[of p] x Some by simp_all
    have "(fst x \<le> fst y \<and> fst y < snd x) = above [T] h p"
      using numberedD(4)[OF s(2), of h p "fst x" "snd x" "fst y" "snd y"] x Some r T(3) by simp
    then show ?thesis using Some ab[OF r(1)] by (cases y) (simp add: is_back_edge_def)
  qed
  then show ?thesis using dom T(4) s(1)
    by (intro exI[of _ "intervals s"]) (simp add: dom_intervals_def)
qed

section \<open>The family of loops processed so far\<close>

text \<open>Two dominators of a node are comparable.\<close>

lemma doms_comparable:
  assumes a: "doms g e a x" and b: "doms g e b x"
  shows "doms g e a b \<or> doms g e b a"
proof (rule ccontr)
  assume "\<not> ?thesis"
  then obtain p q where p: "is_path g e p a" "b \<notin> set p" and q: "is_path g e q b" "a \<notin> set q"
    using doms_reachable[OF a] doms_reachable[OF b] unfolding doms_def by blast
  obtain r where r: "is_path g e r x" using reaches_path[OF conjunct1[OF doms_reachable[OF a]]] by blast
  have "\<exists>y \<in> set r. y = a \<or> y = b" using r a by (auto simp: doms_def)
  then obtain s y t where s: "r = s @ y # t" "y = a \<or> y = b" "\<forall>z \<in> set t. \<not> (z = a \<or> z = b)"
    using split_list_last_prop[of r "\<lambda>y. y = a \<or> y = b"] by blast
  have t: "is_path g y (y # t) x" using is_path_suffix r s(1) by metis
  from s(2) show False
  proof
    assume "y = a"
    then have "is_path g e (p @ t) x" using is_path_join[OF p(1)] t by simp
    then have "b \<in> set (p @ t)" using b unfolding doms_def by blast
    then show False using p(2) s(3) by auto
  next
    assume "y = b"
    then have "is_path g e (q @ t) x" using is_path_join[OF q(1)] t by simp
    then have "a \<in> set (q @ t)" using a unfolding doms_def by blast
    then show False using q(2) s(3) by auto
  qed
qed

text \<open>Headers in the order they are processed: none is dominated by an earlier one.\<close>

definition headers_ok :: "'n cfg \<Rightarrow> 'n \<Rightarrow> 'n list \<Rightarrow> bool" where
  "headers_ok g e H \<longleftrightarrow> distinct H \<and> (\<forall>h \<in> set H. reaches g e h) \<and> sorted_wrt (\<lambda>a b. \<not> doms g e a b) H"

lemma headers_okD:
  assumes "headers_ok g e H"
  shows "distinct H" and "i < length H \<Longrightarrow> reaches g e (H ! i)"
    and "i < j \<Longrightarrow> j < length H \<Longrightarrow> \<not> doms g e (H ! i) (H ! j)"
  using assms by (auto simp: headers_ok_def sorted_wrt_iff_nth_less)

lemma headers_nested:
  assumes ok: "headers_ok g e H" and ij: "i < j" "j < length H"
    and b: "b \<in> natural_loop g e (H ! i)" "b \<in> natural_loop g e (H ! j)"
  shows "H ! i \<in> natural_loop g e (H ! j)" and "natural_loop g e (H ! i) \<subseteq> natural_loop g e (H ! j)"
proof -
  note D = headers_okD[OF ok]
  have i: "i < length H" using ij by simp
  have "doms g e (H ! i) b" "doms g e (H ! j) b"
    using natural_loop_doms[OF D(2)[OF i] b(1)] natural_loop_doms[OF D(2)[OF ij(2)] b(2)] .
  from doms_comparable[OF this] have d: "doms g e (H ! j) (H ! i)" using D(3)[OF ij] by simp
  have ne: "H ! j \<noteq> H ! i" using D(1) ij i by (simp add: nth_eq_iff_index_eq)
  show "H ! i \<in> natural_loop g e (H ! j)" by (rule natural_loop_nested(1)[OF d ne b(2,1)])
  show "natural_loop g e (H ! i) \<subseteq> natural_loop g e (H ! j)" by (rule natural_loop_nested(2)[OF d ne b(2,1)])
qed

text \<open>The first loop from number \<open>a\<close> on that contains \<open>b\<close>.\<close>

definition inner :: "'n cfg \<Rightarrow> 'n \<Rightarrow> 'n list \<Rightarrow> nat \<Rightarrow> 'n \<Rightarrow> nat option" where
  "inner g e H a b = find (\<lambda>k. b \<in> natural_loop g e (H ! k)) [a..<length H]"

lemma inner_Some:
  "inner g e H a b = Some k \<longleftrightarrow> a \<le> k \<and> k < length H \<and> b \<in> natural_loop g e (H ! k)
     \<and> (\<forall>j. a \<le> j \<and> j < k \<longrightarrow> b \<notin> natural_loop g e (H ! j))"
proof
  assume "inner g e H a b = Some k"
  then obtain i where i: "i < length [a..<length H]" "b \<in> natural_loop g e (H ! ([a..<length H] ! i))"
      "k = [a..<length H] ! i" "\<forall>j < i. b \<notin> natural_loop g e (H ! ([a..<length H] ! j))"
    unfolding inner_def find_Some_iff by blast
  have "b \<notin> natural_loop g e (H ! j)" if "a \<le> j" "j < k" for j
    using i(4)[rule_format, of "j - a"] i(1,3) that by simp
  then show "a \<le> k \<and> k < length H \<and> b \<in> natural_loop g e (H ! k)
     \<and> (\<forall>j. a \<le> j \<and> j < k \<longrightarrow> b \<notin> natural_loop g e (H ! j))" using i by auto
next
  assume k: "a \<le> k \<and> k < length H \<and> b \<in> natural_loop g e (H ! k)
     \<and> (\<forall>j. a \<le> j \<and> j < k \<longrightarrow> b \<notin> natural_loop g e (H ! j))"
  then show "inner g e H a b = Some k"
    unfolding inner_def find_Some_iff by (intro exI[of _ "k - a"]) auto
qed

lemma inner_None: "inner g e H a b = None \<longleftrightarrow> (\<forall>k. a \<le> k \<and> k < length H \<longrightarrow> b \<notin> natural_loop g e (H ! k))"
  unfolding inner_def find_None_iff by auto

lemma inner_append:
  "inner g e (H @ [h]) a b = (case inner g e H a b of
     Some k \<Rightarrow> Some k
   | None \<Rightarrow> if a \<le> length H \<and> b \<in> natural_loop g e h then Some (length H) else None)"
proof (cases "inner g e H a b")
  case None
  show ?thesis
  proof (cases "a \<le> length H \<and> b \<in> natural_loop g e h")
    case True
    then have "inner g e (H @ [h]) a b = Some (length H)"
      using None unfolding inner_Some inner_None by (auto simp: nth_append)
    then show ?thesis using None True by simp
  next
    case False
    then have "inner g e (H @ [h]) a b = None"
      using None unfolding inner_None by (auto simp: nth_append less_Suc_eq)
    then show ?thesis using None False by simp
  qed
next
  case (Some k)
  then have "inner g e (H @ [h]) a b = Some k" unfolding inner_Some by (auto simp: nth_append)
  then show ?thesis using Some by simp
qed

lemma inner_take:
  assumes "i < length H" and "a \<le> i"
  shows "inner g e H a b = Some i \<longleftrightarrow> inner g e (take i H) a b = None \<and> b \<in> natural_loop g e (H ! i)"
  using assms unfolding inner_Some inner_None by auto

text \<open>Above a loop that contains \<open>b\<close>, its header and \<open>b\<close> are in the same loops.\<close>

lemma inner_header:
  assumes ok: "headers_ok g e H" and k: "k < length H" "b \<in> natural_loop g e (H ! k)"
  shows "k < j \<Longrightarrow> j < length H \<Longrightarrow> H ! k \<in> natural_loop g e (H ! j) \<longleftrightarrow> b \<in> natural_loop g e (H ! j)"
    and "inner g e H (Suc k) (H ! k) = inner g e H (Suc k) b"
proof -
  have eq: "H ! k \<in> natural_loop g e (H ! j) \<longleftrightarrow> b \<in> natural_loop g e (H ! j)" if "k < j" "j < length H" for j
    using headers_nested[OF ok that] k(2) natural_loop.header[of "H ! k" g e] by blast
  show "k < j \<Longrightarrow> j < length H \<Longrightarrow> H ! k \<in> natural_loop g e (H ! j) \<longleftrightarrow> b \<in> natural_loop g e (H ! j)"
    by (rule eq)
  have "find (\<lambda>j. H ! k \<in> natural_loop g e (H ! j)) js = find (\<lambda>j. b \<in> natural_loop g e (H ! j)) js"
    if "\<forall>j \<in> set js. k < j \<and> j < length H" for js
    using that by (induction js) (auto simp: eq)
  then show "inner g e H (Suc k) (H ! k) = inner g e H (Suc k) b" by (simp add: inner_def)
qed

end
