(* ===== verification/LoopForest.thy ===== *)
theory LoopForest
  imports NaturalLoop
begin

text \<open>
  \<open>compute_loop_tree\<close> is correct: the loops it finds are the natural loops of the graph, their
  parents are the innermost enclosing loops, depths count the enclosing loops, and every list is in
  reverse post-order. The invariant \<open>loops_inv\<close> describes the tree after the headers \<open>H\<close> have
  been processed; the phases after it only sort, fill in block sets and count.
\<close>

section \<open>The invariant of the search for loops\<close>

text \<open>The direct children of the loop of \<open>h\<close>, processed after \<open>H\<close>.\<close>

definition body_set :: "'n cfg \<Rightarrow> 'n \<Rightarrow> 'n list \<Rightarrow> 'n \<Rightarrow> 'n loop_tree_node set" where
  "body_set g e H h =
     {Block b | b. b \<in> natural_loop g e h \<and> inner g e H 0 b = None}
     \<union> {Loop (LoopId i) | i. i < length H \<and> H ! i \<in> natural_loop g e h \<and> inner g e H (Suc i) (H ! i) = None}"

definition loop_inv :: "'n cfg \<Rightarrow> 'n \<Rightarrow> 'n list \<Rightarrow> nat \<Rightarrow> 'n loop_data \<Rightarrow> bool" where
  "loop_inv g e H i l \<longleftrightarrow>
     lp_header l = H ! i
     \<and> lp_parent l = map_option LoopId (inner g e H (Suc i) (H ! i))
     \<and> distinct (lp_contents l) \<and> set (lp_contents l) = body_set g e (take i H) (H ! i)
     \<and> distinct (lp_latches l) \<and> set (lp_latches l) = {p. latch_of g e (H ! i) p}
     \<and> lp_blocks l = [H ! i]"

definition loops_inv :: "'n cfg \<Rightarrow> 'n \<Rightarrow> 'n list \<Rightarrow> 'n loop_tree \<Rightarrow> bool" where
  "loops_inv g e H t \<longleftrightarrow>
     length (lt_loops t) = length H
     \<and> (\<forall>i < length H. loop_inv g e H i (lt_loops t ! i))
     \<and> block_parent t = (\<lambda>b. map_option LoopId (inner g e H 0 b))
     \<and> root_contents t = []"

lemma loops_invD:
  assumes "loops_inv g e H t"
  shows "length (lt_loops t) = length H" and "i < length H \<Longrightarrow> loop_inv g e H i (lt_loops t ! i)"
    and "block_parent t b = map_option LoopId (inner g e H 0 b)" and "root_contents t = []"
  using assms by (auto simp: loops_inv_def)

lemma get_loop_id [simp]: "get_loop t (LoopId i) = oget (lt_loops t) i"
  by (simp add: get_loop_def)

section \<open>Outermost ancestors\<close>

definition is_ancestor :: "'n cfg \<Rightarrow> 'n \<Rightarrow> 'n list \<Rightarrow> 'n \<Rightarrow> 'n loop_tree_node \<Rightarrow> bool" where
  "is_ancestor g e H b N \<longleftrightarrow> (N = Block b \<and> inner g e H 0 b = None)
     \<or> (\<exists>k < length H. N = Loop (LoopId k) \<and> b \<in> natural_loop g e (H ! k) \<and> inner g e H (Suc k) (H ! k) = None)"

lemma is_ancestor_unique:
  assumes ok: "headers_ok g e H" and N: "is_ancestor g e H b N" "is_ancestor g e H b M"
  shows "N = M"
proof -
  have loop: "j = k" if "j < length H" "b \<in> natural_loop g e (H ! j)" "inner g e H (Suc j) (H ! j) = None"
    and "k < length H" "b \<in> natural_loop g e (H ! k)" "inner g e H (Suc k) (H ! k) = None" for j k
  proof (rule linorder_cases[of j k])
    assume "j < k"
    then show ?thesis using headers_nested(1)[OF ok _ that(4) that(2,5)] that(3,4) by (auto simp: inner_None)
  next
    assume "k < j"
    then show ?thesis using headers_nested(1)[OF ok _ that(1) that(5,2)] that(6,1) by (auto simp: inner_None)
  qed
  have block: "\<not> (\<exists>k < length H. b \<in> natural_loop g e (H ! k))" if "inner g e H 0 b = None"
    using that by (auto simp: inner_None)
  show ?thesis using N loop block unfolding is_ancestor_def by metis
qed

lemma outermost_correct:
  assumes ok: "headers_ok g e H" and inv: "loops_inv g e H t"
  shows "k < length H \<Longrightarrow> b \<in> natural_loop g e (H ! k) \<Longrightarrow>
    \<exists>j < length H. outermost t (LoopId k) = Some (LoopId j) \<and> b \<in> natural_loop g e (H ! j)
      \<and> inner g e H (Suc j) (H ! j) = None"
proof (induction "length H - k" arbitrary: k rule: less_induct)
  case less
  let ?l = "lt_loops t ! k"
  have k: "k < length (lt_loops t)" using less.prems(1) loops_invD(1)[OF inv] by simp
  have p: "lp_parent ?l = map_option LoopId (inner g e H (Suc k) (H ! k))"
    using loops_invD(2)[OF inv less.prems(1)] by (simp add: loop_inv_def)
  show ?case
  proof (cases "inner g e H (Suc k) (H ! k)")
    case None
    then show ?thesis using k p less.prems by (intro exI[of _ k]) (simp add: outermost.simps[of t "LoopId k"])
  next
    case (Some j)
    then have j: "k < j" "j < length H" "H ! k \<in> natural_loop g e (H ! j)" by (auto simp: inner_Some)
    then have "b \<in> natural_loop g e (H ! j)" using inner_header(1)[OF ok less.prems] by blast
    moreover have "outermost t (LoopId k) = outermost t (LoopId j)"
      using k p Some by (simp add: outermost.simps[of t "LoopId k"])
    ultimately show ?thesis using less.hyps[of j] j by simp
  qed
qed

lemma loop_ancestor_correct:
  assumes ok: "headers_ok g e H" and inv: "loops_inv g e H t"
  shows "\<exists>N. loop_ancestor t b = Some N \<and> is_ancestor g e H b N"
proof (cases "inner g e H 0 b")
  case None
  then show ?thesis using loops_invD(3)[OF inv, of b]
    by (auto simp: loop_ancestor_def block_loop_parent_def is_ancestor_def)
next
  case (Some k)
  then have "k < length H" "b \<in> natural_loop g e (H ! k)" by (auto simp: inner_Some)
  from outermost_correct[OF ok inv this] show ?thesis using loops_invD(3)[OF inv, of b] Some
    by (auto simp: loop_ancestor_def block_loop_parent_def is_ancestor_def)
qed

section \<open>The worklist\<close>

lemma add_ancestors_correct:
  assumes ok: "headers_ok g e H" and inv: "loops_inv g e H t" and fin: "finite B"
  shows "(\<forall>b \<in> set bs. P b \<longrightarrow> (\<forall>N. is_ancestor g e H b N \<longrightarrow> N \<in> B)) \<Longrightarrow> distinct body \<Longrightarrow>
    \<exists>body' queue'. add_ancestors t P bs (body, queue) = Some (body', queue') \<and> distinct body'
      \<and> set body' = set body \<union> {N. \<exists>b \<in> set bs. P b \<and> is_ancestor g e H b N}
      \<and> set queue' = set queue \<union> (set body' - set body)
      \<and> 2 * card (B - set body') + length queue' \<le> 2 * card (B - set body) + length queue"
proof (induction bs arbitrary: body queue)
  case (Cons b bs)
  have IH: "\<And>body queue. distinct body \<Longrightarrow> \<exists>body' queue'. add_ancestors t P bs (body, queue) = Some (body', queue')
      \<and> distinct body' \<and> set body' = set body \<union> {N. \<exists>b \<in> set bs. P b \<and> is_ancestor g e H b N}
      \<and> set queue' = set queue \<union> (set body' - set body)
      \<and> 2 * card (B - set body') + length queue' \<le> 2 * card (B - set body) + length queue"
    using Cons.IH Cons.prems(1) by simp
  show ?case
  proof (cases "P b")
    case False
    then show ?thesis using IH[OF Cons.prems(2), of queue] by simp
  next
    case True
    obtain N where N: "loop_ancestor t b = Some N" "is_ancestor g e H b N"
      using loop_ancestor_correct[OF ok inv] by blast
    have U: "{M. \<exists>c \<in> set (b # bs). P c \<and> is_ancestor g e H c M}
        = insert N {M. \<exists>c \<in> set bs. P c \<and> is_ancestor g e H c M}"
    proof -
      have "is_ancestor g e H b M \<longleftrightarrow> M = N" for M using N(2) is_ancestor_unique[OF ok _ N(2), of M] by blast
      then show ?thesis using True by auto
    qed
    have NB: "N \<in> B" using Cons.prems(1) True N(2) by simp
    show ?thesis
    proof (cases "N \<in> set body")
      case in_body: True
      have "set body \<union> insert N {M. \<exists>c \<in> set bs. P c \<and> is_ancestor g e H c M}
          = set body \<union> {M. \<exists>c \<in> set bs. P c \<and> is_ancestor g e H c M}"
        using in_body by (simp add: insert_absorb)
      moreover have "add_ancestors t P (b # bs) (body, queue) = add_ancestors t P bs (body, queue)"
        using True N(1) in_body by (simp add: add_to_body_def)
      ultimately show ?thesis using IH[OF Cons.prems(2), of queue] unfolding U by simp
    next
      case False
      then have d: "distinct (body @ [N])" using Cons.prems(2) by simp
      have "B - set body = insert N (B - set (body @ [N]))" using NB False by auto
      then have c: "card (B - set body) = Suc (card (B - set (body @ [N])))"
        using fin by (metis DiffE card_insert_disjoint finite_Diff in_set_conv_decomp)
      obtain body' queue' where r: "add_ancestors t P bs (body @ [N], N # queue) = Some (body', queue')"
          "distinct body'" "set body' = set (body @ [N]) \<union> {N. \<exists>b \<in> set bs. P b \<and> is_ancestor g e H b N}"
          "set queue' = set (N # queue) \<union> (set body' - set (body @ [N]))"
          "2 * card (B - set body') + length queue' \<le> 2 * card (B - set (body @ [N])) + length (N # queue)"
        using IH[OF d] by blast
      have "add_ancestors t P (b # bs) (body, queue) = Some (body', queue')"
        using True N(1) False r(1) by (simp add: add_to_body_def)
      moreover have "set queue' = set queue \<union> (set body' - set body)" using r(3,4) False by auto
      moreover have "2 * card (B - set body') + length queue' \<le> 2 * card (B - set body) + length queue"
        using r(5) c by simp
      ultimately show ?thesis using r(2,3) unfolding U by auto
    qed
  qed
qed simp

definition entry_of :: "'n list \<Rightarrow> 'n loop_tree_node \<Rightarrow> 'n" where
  "entry_of H N = (case N of Block b \<Rightarrow> b | Loop i \<Rightarrow> H ! loop_index i)"

lemma body_set_finite: "headers_ok g e (H @ [h]) \<Longrightarrow> finite (natural_loop g e h) \<Longrightarrow> finite (body_set g e H h)"
  unfolding body_set_def by simp

text \<open>What the walk adds stays in the loop: the ancestor of a member is a child of the loop.\<close>

lemma ancestor_in_body:
  assumes ok: "headers_ok g e (H @ [h])" and p: "p \<in> natural_loop g e h" and N: "is_ancestor g e H p N"
  shows "N \<in> body_set g e H h"
proof -
  have "H ! k \<in> natural_loop g e h" if "k < length H" "p \<in> natural_loop g e (H ! k)" for k
    using headers_nested(1)[OF ok, of k "length H" p] that p by (simp add: nth_append)
  then show ?thesis using N p unfolding is_ancestor_def body_set_def by blast
qed

lemma entry_in_loop:
  assumes "N \<in> body_set g e H h"
  shows "entry_of H N \<in> natural_loop g e h"
  using assms by (auto simp: body_set_def entry_of_def)

lemma header_not_inside:
  assumes ok: "headers_ok g e (H @ [h])"
  shows "inner g e H 0 h = None" and "Block h \<in> body_set g e H h" and "i < length H \<Longrightarrow> H ! i \<noteq> h"
proof -
  note D = headers_okD[OF ok]
  show ni: "i < length H \<Longrightarrow> H ! i \<noteq> h" for i using D(1) by auto
  have "h \<notin> natural_loop g e (H ! k)" if k: "k < length H" for k
  proof
    assume "h \<in> natural_loop g e (H ! k)"
    then have "doms g e (H ! k) h" using natural_loop_doms[of g e "H ! k" h] D(2)[of k] k by (simp add: nth_append)
    then show False using D(3)[of k "length H"] k by (simp add: nth_append)
  qed
  then show "inner g e H 0 h = None" by (simp add: inner_None)
  then show "Block h \<in> body_set g e H h" by (auto simp: body_set_def natural_loop.header)
qed

lemma entry_not_header:
  assumes ok: "headers_ok g e (H @ [h])" and "N \<in> body_set g e H h" and "N \<noteq> Block h"
  shows "entry_of H N \<noteq> h"
proof (cases N)
  case (Block b)
  then show ?thesis using assms(3) by (simp add: entry_of_def)
next
  case (Loop x)
  then obtain i where i: "i < length H" "x = LoopId i" using assms(2) unfolding body_set_def by blast
  show ?thesis using header_not_inside(3)[OF ok i(1)] unfolding Loop i(2) entry_of_def by simp
qed

text \<open>A body that has the latches' ancestors and is closed under predecessors is the whole loop.\<close>

lemma body_complete:
  assumes ok: "headers_ok g e (H @ [h])"
    and latches: "\<And>l N. latch_of g e h l \<Longrightarrow> l \<noteq> h \<Longrightarrow> is_ancestor g e H l N \<Longrightarrow> N \<in> S"
    and closed: "\<And>M p N. M \<in> S \<Longrightarrow> edge g p (entry_of H M) \<Longrightarrow> p \<noteq> h \<Longrightarrow> reaches g e p \<Longrightarrow>
      is_ancestor g e H p N \<Longrightarrow> N \<in> S"
    and inv: "loops_inv g e H t"
  shows "body_set g e H h - {Block h} \<subseteq> S"
proof -
  have okH: "headers_ok g e H" using ok by (auto simp: headers_ok_def sorted_wrt_append)
  have cover: "x \<noteq> h \<longrightarrow> is_ancestor g e H x N \<longrightarrow> N \<in> S" if "x \<in> natural_loop g e h" for x N
    using that
  proof (induction arbitrary: N rule: natural_loop.induct)
    case (latch l)
    then show ?case using latches by blast
  next
    case (pred x p)
    obtain M where M: "is_ancestor g e H x M" using loop_ancestor_correct[OF okH inv] by blast
    then have MS: "M \<in> S" using pred(2,5) by blast
    have whole: "is_ancestor g e H p M" if k: "M = Loop (LoopId k)" "k < length H" "x \<in> natural_loop g e (H ! k)"
        "inner g e H (Suc k) (H ! k) = None" "x \<noteq> H ! k" for k
      using natural_loop.pred[OF k(3,5) pred(3,4)] k by (auto simp: is_ancestor_def)
    show ?case
    proof (intro impI)
      assume p: "p \<noteq> h" and N: "is_ancestor g e H p N"
      show "N \<in> S"
      proof (cases "entry_of H M = x")
        case True
        then show ?thesis using closed[OF MS _ p pred(4) N] pred(3) by simp
      next
        case False
        then obtain k where "M = Loop (LoopId k)" "k < length H" "x \<in> natural_loop g e (H ! k)"
            "inner g e H (Suc k) (H ! k) = None" "x \<noteq> H ! k"
          using M by (auto simp: is_ancestor_def entry_of_def)
        then have "is_ancestor g e H p M" by (rule whole)
        then show ?thesis using is_ancestor_unique[OF okH _ N] MS by blast
      qed
    qed
  qed simp
  show ?thesis
  proof
    fix N
    assume N: "N \<in> body_set g e H h - {Block h}"
    have "is_ancestor g e H (entry_of H N) N"
      using N natural_loop.header[of _ g e] by (auto simp: body_set_def entry_of_def is_ancestor_def)
    then show "N \<in> S" using cover[OF entry_in_loop] entry_not_header[OF ok] N by blast
  qed
qed

lemma reachable_predecessors:
  assumes wf: "wf_cfg g" and e: "entry_node g = Some e" and t: "tree_of g e dt rpo da" and x: "reaches g e x"
  shows "p \<in> set (predecessors g x) \<and> dt_contains dt p \<longleftrightarrow> edge g p x \<and> reaches g e p"
proof -
  have en: "e \<in> set (graph_nodes g)" using wf_cfgD(4)[OF wf e] by auto
  have "x \<in> set (graph_nodes g)" using reaches_nodes[OF wf x en] .
  from wf_cfgD(3)[OF wf this, of p] show ?thesis
    using reaches_nodes[OF wf _ en, of p] tree_contains[OF t, of p] by (auto simp: dt_contains_def)
qed

lemma entry_block_correct:
  assumes inv: "loops_inv g e H t" and N: "N \<in> body_set g e H h"
  shows "entry_block t N = Some (entry_of H N)"
proof (cases N)
  case (Loop x)
  then obtain i where i: "i < length H" "x = LoopId i" using N unfolding body_set_def by blast
  then show ?thesis using Loop loops_invD(1)[OF inv] loops_invD(2)[OF inv i(1)]
    by (simp add: entry_block_def loop_header_def entry_of_def loop_inv_def)
qed (simp add: entry_block_def entry_of_def)

lemma body_loop_correct:
  assumes wf: "wf_cfg g" and e: "entry_node g = Some e" and t: "tree_of g e dt rpo da"
    and ok: "headers_ok g e (H @ [h])" and inv: "loops_inv g e H lt"
    and B: "B = body_set g e H h - {Block h}" and fin: "finite B"
  shows "distinct body \<Longrightarrow> set queue \<subseteq> set body \<Longrightarrow> set body \<subseteq> B \<Longrightarrow>
    (\<forall>l N. latch_of g e h l \<longrightarrow> l \<noteq> h \<longrightarrow> is_ancestor g e H l N \<longrightarrow> N \<in> set body) \<Longrightarrow>
    (\<forall>M \<in> set body - set queue. \<forall>p N. edge g p (entry_of H M) \<longrightarrow> p \<noteq> h \<longrightarrow> reaches g e p \<longrightarrow>
      is_ancestor g e H p N \<longrightarrow> N \<in> set body) \<Longrightarrow>
    \<exists>body'. body_loop g dt lt h body queue = Some body' \<and> distinct body' \<and> set body' = B"
proof (induction "2 * card (B - set body) + length queue" arbitrary: body queue rule: less_induct)
  case less
  have okH: "headers_ok g e H" using ok by (auto simp: headers_ok_def sorted_wrt_append)
  have rh: "reaches g e h" using ok by (simp add: headers_ok_def)
  show ?case
  proof (cases queue)
    case Nil
    have "B \<subseteq> set body" unfolding B
      by (rule body_complete[OF ok _ _ inv]) (use less.prems(4,5) Nil in auto)
    then show ?thesis using less.prems(1,3) Nil by (auto simp: body_loop.simps[of g dt lt h body])
  next
    case (Cons M rest)
    have M: "M \<in> B" "M \<in> body_set g e H h" "M \<noteq> Block h" using less.prems(2,3) Cons B by auto
    let ?x = "entry_of H M" and ?P = "\<lambda>pred. pred \<noteq> h \<and> dt_contains dt pred"
    have x: "?x \<in> natural_loop g e h" "?x \<noteq> h" using entry_in_loop[OF M(2)] entry_not_header[OF ok M(2,3)] .
    have rx: "reaches g e ?x" using natural_loop_reaches[OF rh x(1)] .
    have pred: "b \<in> set (predecessors g ?x) \<and> ?P b \<longleftrightarrow> edge g b ?x \<and> b \<noteq> h \<and> reaches g e b" for b
      using reachable_predecessors[OF wf e t rx, of b] by blast
    have inB: "N \<in> B" if "edge g b ?x" "b \<noteq> h" "reaches g e b" "is_ancestor g e H b N" for b N
    proof -
      have "b \<in> natural_loop g e h" using natural_loop.pred[OF x that(1,3)] .
      from ancestor_in_body[OF ok this that(4)] have "N \<in> body_set g e H h" .
      moreover have "N \<noteq> Block h" using that(2,4) by (auto simp: is_ancestor_def)
      ultimately show ?thesis by (simp add: B)
    qed
    let ?A = "{N. \<exists>b. edge g b ?x \<and> b \<noteq> h \<and> reaches g e b \<and> is_ancestor g e H b N}"
    have A: "{N. \<exists>b \<in> set (predecessors g ?x). ?P b \<and> is_ancestor g e H b N} = ?A" using pred by blast
    have allB: "\<forall>b \<in> set (predecessors g ?x). ?P b \<longrightarrow> (\<forall>N. is_ancestor g e H b N \<longrightarrow> N \<in> B)" using inB pred by blast
    obtain body' queue' where r: "add_ancestors lt ?P (predecessors g ?x) (body, rest) = Some (body', queue')"
        "distinct body'" "set body' = set body \<union> ?A" "set queue' = set rest \<union> (set body' - set body)"
        "2 * card (B - set body') + length queue' \<le> 2 * card (B - set body) + length rest"
      using add_ancestors_correct[OF okH inv fin allB less.prems(1), of rest] unfolding A by blast
    have step: "body_loop g dt lt h body queue = body_loop g dt lt h body' queue'"
      using Cons entry_block_correct[OF inv M(2)] r(1) by (simp add: body_loop.simps[of g dt lt h body])
    have "\<exists>b. body_loop g dt lt h body' queue' = Some b \<and> distinct b \<and> set b = B"
    proof (rule less.hyps)
      show "2 * card (B - set body') + length queue' < 2 * card (B - set body) + length queue" using r(5) Cons by simp
      show "distinct body'" by (rule r(2))
      show "set queue' \<subseteq> set body'" using r(3,4) less.prems(2) Cons by auto
      show "set body' \<subseteq> B" using r(3) less.prems(3) inB by blast
      show "\<forall>l N. latch_of g e h l \<longrightarrow> l \<noteq> h \<longrightarrow> is_ancestor g e H l N \<longrightarrow> N \<in> set body'"
        using less.prems(4) r(3) by blast
      show "\<forall>M' \<in> set body' - set queue'. \<forall>p N. edge g p (entry_of H M') \<longrightarrow> p \<noteq> h \<longrightarrow> reaches g e p \<longrightarrow>
          is_ancestor g e H p N \<longrightarrow> N \<in> set body'"
      proof (intro ballI allI impI)
        fix M' p N
        assume a: "M' \<in> set body' - set queue'" "edge g p (entry_of H M')" "p \<noteq> h" "reaches g e p" "is_ancestor g e H p N"
        show "N \<in> set body'"
        proof (cases "M' = M")
          case True
          then show ?thesis using a r(3) by blast
        next
          case False
          then have "M' \<in> set body - set queue" using a(1) r(4) Cons by auto
          then show ?thesis using less.prems(5) a r(3) by blast
        qed
      qed
    qed
    then show ?thesis using step by simp
  qed
qed

section \<open>A new loop\<close>

definition reparented :: "loop_id \<Rightarrow> 'n loop_tree_node set \<Rightarrow> 'n loop_tree \<Rightarrow> 'n loop_tree \<Rightarrow> bool" where
  "reparented x S t t' \<longleftrightarrow> length (lt_loops t') = length (lt_loops t)
      \<and> (\<forall>i < length (lt_loops t). lt_loops t' ! i =
          (if Loop (LoopId i) \<in> S then (lt_loops t ! i)\<lparr>lp_parent := Some x\<rparr> else lt_loops t ! i))
      \<and> block_parent t' = (\<lambda>b. if Block b \<in> S then Some x else block_parent t b)
      \<and> root_contents t' = root_contents t"

lemma reparented_Block:
  "reparented x S (t\<lparr>block_parent := (block_parent t)(b \<mapsto> x)\<rparr>) t' \<Longrightarrow> reparented x (insert (Block b) S) t t'"
  by (auto simp: reparented_def fun_eq_iff)

lemma reparented_Loop:
  "Loop (LoopId i) \<notin> S \<Longrightarrow> i < length (lt_loops t) \<Longrightarrow>
    reparented x S (t\<lparr>lt_loops := (lt_loops t)[i := (lt_loops t ! i)\<lparr>lp_parent := Some x\<rparr>]\<rparr>) t' \<Longrightarrow>
    reparented x (insert (Loop (LoopId i)) S) t t'"
  by (auto simp: reparented_def fun_eq_iff nth_list_update)

lemma set_parents_correct:
  "distinct body \<Longrightarrow> (\<forall>i. Loop (LoopId i) \<in> set body \<longrightarrow> i < length (lt_loops t)) \<Longrightarrow>
    \<exists>t'. set_parents x body t = Some t' \<and> reparented x (set body) t t'"
proof (induction body arbitrary: t)
  case (Cons N body)
  show ?case
  proof (cases N)
    case (Block b)
    have "\<exists>t'. set_parents x body (t\<lparr>block_parent := (block_parent t)(b \<mapsto> x)\<rparr>) = Some t'
        \<and> reparented x (set body) (t\<lparr>block_parent := (block_parent t)(b \<mapsto> x)\<rparr>) t'"
      by (rule Cons.IH) (use Cons.prems in auto)
    then show ?thesis using reparented_Block[of x "set body" t b] by (auto simp: Block)
  next
    case (Loop y)
    obtain i where y: "y = LoopId i" by (cases y)
    then have i: "i < length (lt_loops t)" using Cons.prems(2) Loop by simp
    let ?t = "t\<lparr>lt_loops := (lt_loops t)[i := (lt_loops t ! i)\<lparr>lp_parent := Some x\<rparr>]\<rparr>"
    have "\<exists>t'. set_parents x body ?t = Some t' \<and> reparented x (set body) ?t t'"
      by (rule Cons.IH) (use Cons.prems in auto)
    then obtain t' where t': "set_parents x body ?t = Some t'" "reparented x (set body) ?t t'" by blast
    have "set_parents x (N # body) t = Some t'" using t'(1) i by (simp add: Loop y update_loop_def)
    moreover have "reparented x (set (N # body)) t t'"
      using reparented_Loop[OF _ i t'(2)] Cons.prems(1) by (simp add: Loop y)
    ultimately show ?thesis by blast
  qed
qed (simp add: reparented_def)

lemma find_body_correct:
  assumes wf: "wf_cfg g" and e: "entry_node g = Some e" and t: "tree_of g e dt rpo da"
    and ok: "headers_ok g e (H @ [h])" and inv: "loops_inv g e H lt"
    and ls: "distinct ls" "set ls = {p. latch_of g e h p}"
  shows "\<exists>lt'. find_body g dt h ls lt = Some lt' \<and> loops_inv g e (H @ [h]) lt'"
proof -
  let ?B = "body_set g e H h - {Block h}" and ?n = "length H"
  have okH: "headers_ok g e H" using ok by (auto simp: headers_ok_def sorted_wrt_append)
  have rh: "reaches g e h" using ok by (simp add: headers_ok_def)
  have en: "e \<in> set (graph_nodes g)" using wf_cfgD(4)[OF wf e] by auto
  have "natural_loop g e h \<subseteq> set (graph_nodes g)" using natural_loop_reaches[OF rh] reaches_nodes[OF wf _ en] by blast
  then have "finite (natural_loop g e h)" by (rule finite_subset) simp
  then have fin: "finite ?B" using body_set_finite[OF ok] by simp
  have inB: "N \<in> ?B" if "latch_of g e h l" "l \<noteq> h" "is_ancestor g e H l N" for l N
  proof -
    have "N \<in> body_set g e H h" using ancestor_in_body[OF ok natural_loop.latch[OF that(1)] that(3)] .
    then show ?thesis using that(2,3) by (auto simp: is_ancestor_def)
  qed
  then have allB: "\<forall>b \<in> set ls. b \<noteq> h \<longrightarrow> (\<forall>N. is_ancestor g e H b N \<longrightarrow> N \<in> ?B)" using ls(2) by blast
  obtain body queue where r: "add_ancestors lt (\<lambda>latch. latch \<noteq> h) ls ([], []) = Some (body, queue)" "distinct body"
      "set body = {N. \<exists>b \<in> set ls. b \<noteq> h \<and> is_ancestor g e H b N}" "set queue = set body"
    using add_ancestors_correct[OF okH inv fin allB, of "[]" "[]"] by auto
  obtain body' where b: "body_loop g dt lt h body queue = Some body'" "distinct body'" "set body' = ?B"
    using body_loop_correct[OF wf e t ok inv refl fin r(2), of queue] r(3,4) inB ls(2) by blast
  let ?body = "iset_insert (Block h) body'" and ?x = "LoopId (length (lt_loops lt))"
  have body: "set ?body = body_set g e H h" "distinct ?body" using b(2,3) header_not_inside(2)[OF ok] by auto
  have len: "length (lt_loops lt) = ?n" by (rule loops_invD(1)[OF inv])
  have "\<forall>i. Loop (LoopId i) \<in> set ?body \<longrightarrow> i < length (lt_loops lt)" unfolding body(1) len by (auto simp: body_set_def)
  from set_parents_correct[OF body(2) this, of ?x] obtain t1 where t1: "set_parents ?x ?body lt = Some t1"
      "length (lt_loops t1) = ?n"
      "\<forall>i < ?n. lt_loops t1 ! i = (if Loop (LoopId i) \<in> set ?body then (lt_loops lt ! i)\<lparr>lp_parent := Some ?x\<rparr> else lt_loops lt ! i)"
      "block_parent t1 = (\<lambda>b. if Block b \<in> set ?body then Some ?x else block_parent lt b)"
      "root_contents t1 = root_contents lt"
    unfolding len reparented_def by blast
  let ?l = "\<lparr>lp_header = h, lp_parent = None, lp_contents = ?body, lp_latches = ls, lp_blocks = [h], lp_depth = 0\<rparr>"
  let ?t2 = "t1\<lparr>lt_loops := lt_loops t1 @ [?l]\<rparr>"
  have res: "find_body g dt h ls lt = Some ?t2" using r(1) b(1) t1(1) by (simp add: find_body_def Let_def)
  have old: "loop_inv g e (H @ [h]) i (lt_loops ?t2 ! i)" if i: "i < ?n" for i
  proof -
    have l: "loop_inv g e H i (lt_loops lt ! i)" by (rule loops_invD(2)[OF inv i])
    have "Loop (LoopId i) \<in> set ?body \<longleftrightarrow> H ! i \<in> natural_loop g e h \<and> inner g e H (Suc i) (H ! i) = None"
      using i unfolding body(1) by (auto simp: body_set_def)
    then have "map_option LoopId (inner g e (H @ [h]) (Suc i) (H ! i)) =
        (if Loop (LoopId i) \<in> set ?body then Some ?x else map_option LoopId (inner g e H (Suc i) (H ! i)))"
      using i len by (auto simp: inner_append split: option.split)
    moreover have "lt_loops ?t2 ! i = (if Loop (LoopId i) \<in> set ?body then (lt_loops lt ! i)\<lparr>lp_parent := Some ?x\<rparr> else lt_loops lt ! i)"
      using i t1(2,3) by (simp add: nth_append)
    ultimately show ?thesis using l i by (simp add: loop_inv_def nth_append)
  qed
  have new: "loop_inv g e (H @ [h]) ?n (lt_loops ?t2 ! ?n)"
    using t1(2) body ls by (simp add: loop_inv_def nth_append inner_def)
  have "loop_inv g e (H @ [h]) i (lt_loops ?t2 ! i)" if "i < Suc ?n" for i
    using that old[of i] new by (cases "i = ?n") auto
  moreover have "block_parent ?t2 = (\<lambda>b. map_option LoopId (inner g e (H @ [h]) 0 b))"
  proof
    fix b
    have "Block b \<in> set ?body \<longleftrightarrow> b \<in> natural_loop g e h \<and> inner g e H 0 b = None"
      unfolding body(1) by (auto simp: body_set_def)
    then show "block_parent ?t2 b = map_option LoopId (inner g e (H @ [h]) 0 b)"
      using t1(4) loops_invD(3)[OF inv, of b] len by (auto simp: inner_append split: option.split)
  qed
  ultimately have "loops_inv g e (H @ [h]) ?t2" using t1(2,5) loops_invD(4)[OF inv] by (simp add: loops_inv_def)
  then show ?thesis using res by blast
qed

text \<open>Which blocks head a loop.\<close>

definition has_latch :: "'n cfg \<Rightarrow> 'n \<Rightarrow> 'n \<Rightarrow> bool" where
  "has_latch g e h \<longleftrightarrow> (\<exists>l. latch_of g e h l)"

lemma find_loops_correct:
  assumes wf: "wf_cfg g" and e: "entry_node g = Some e" and t: "tree_of g e dt rpo da"
    and iv: "\<forall>v. iv v \<noteq> None \<longleftrightarrow> reaches g e v" "\<forall>h x. iv h = Some x \<longrightarrow> (\<forall>p. is_back_edge iv x p \<longleftrightarrow> doms g e h p)"
  shows "headers_ok g e (H @ hs) \<Longrightarrow> loops_inv g e H lt \<Longrightarrow>
    \<exists>lt'. find_loops g dt iv hs lt = Some lt' \<and> loops_inv g e (H @ filter (has_latch g e) hs) lt'"
proof (induction hs arbitrary: H lt)
  case (Cons h hs)
  have rh: "reaches g e h" using Cons.prems(1) by (simp add: headers_ok_def)
  then obtain x where x: "iv h = Some x" using iv(1) by blast
  let ?ls = "iset_collect (filter (is_back_edge iv x) (predecessors g h))"
  have en: "e \<in> set (graph_nodes g)" using wf_cfgD(4)[OF wf e] by auto
  have "p \<in> set (predecessors g h) \<and> doms g e h p \<longleftrightarrow> latch_of g e h p" for p
    using wf_cfgD(3)[OF wf reaches_nodes[OF wf rh en], of p] doms_reachable[of g e h p] reaches_nodes[OF wf _ en, of p]
    by (auto simp: latch_of_def)
  moreover have "is_back_edge iv x p \<longleftrightarrow> doms g e h p" for p using iv(2) x by blast
  ultimately have ls: "set ?ls = {p. latch_of g e h p}" "distinct ?ls" by auto
  then have ne: "?ls \<noteq> [] \<longleftrightarrow> has_latch g e h" by (auto simp: has_latch_def simp flip: set_empty)
  show ?case
  proof (cases "has_latch g e h")
    case True
    have "headers_ok g e (H @ [h])" using Cons.prems(1) by (auto simp: headers_ok_def sorted_wrt_append)
    from find_body_correct[OF wf e t this Cons.prems(2) ls(2,1)] obtain lt1 where
      lt1: "find_body g dt h ?ls lt = Some lt1" "loops_inv g e (H @ [h]) lt1" by blast
    show ?thesis using Cons.IH[of "H @ [h]" lt1] Cons.prems(1) lt1 x ne True by (simp add: Let_def)
  next
    case False
    have "headers_ok g e (H @ hs)" using Cons.prems(1) by (auto simp: headers_ok_def sorted_wrt_append)
    then show ?thesis using Cons.IH[of H lt] Cons.prems(2) x ne False by (simp add: Let_def)
  qed
qed simp

section \<open>Sorting\<close>

lemma sort_by_key_correct:
  assumes "\<And>x. x \<in> set xs \<Longrightarrow> key x = Some (k x)"
  shows "sort_by_key key xs = Some (sort_key k xs)"
proof -
  have "map (\<lambda>x. (k x, x)) (insort_key k a ys) = insort_key fst (k a, a) (map (\<lambda>x. (k x, x)) ys)" for a ys
    by (induction ys) auto
  then have "sort_key fst (map (\<lambda>x. (k x, x)) ys) = map (\<lambda>x. (k x, x)) (sort_key k ys)" for ys
    by (induction ys) auto
  then have "map snd (sort_key fst (zip (map k xs) xs)) = sort_key k xs"
    by (simp add: zip_map1 zip_same_conv_map comp_def)
  moreover have "sort_key k xs = xs" if "length xs < 2"
    using that by (cases xs; cases "tl xs") auto
  ultimately show ?thesis using omap_Some[of xs key k] assms by (simp add: sort_by_key_def)
qed

definition rpo_rank :: "'n list \<Rightarrow> 'n \<Rightarrow> nat" where
  "rpo_rank rpo x = the (index_of rpo x)"

lemma index_of_rpo_rank: "distinct rpo \<Longrightarrow> x \<in> set rpo \<Longrightarrow> index_of rpo x = Some (rpo_rank rpo x)"
  by (auto simp: rpo_rank_def in_set_conv_nth)

lemma rpo_rank_nth [simp]: "distinct rpo \<Longrightarrow> i < length rpo \<Longrightarrow> rpo_rank rpo (rpo ! i) = i"
proof -
  assume d: "distinct rpo" "i < length rpo"
  have "index_of rpo (rpo ! i) = Some i" using index_of_Some[OF d(1), of "rpo ! i" i] d(2) by simp
  then show "rpo_rank rpo (rpo ! i) = i" by (simp add: rpo_rank_def)
qed

definition node_position :: "'n list \<Rightarrow> 'n list \<Rightarrow> 'n loop_tree_node \<Rightarrow> nat" where
  "node_position rpo H N = rpo_rank rpo (entry_of H N)"

lemma child_position_correct:
  assumes "distinct rpo" and "set H \<subseteq> set rpo"
    and "case N of Block b \<Rightarrow> b \<in> set rpo | Loop x \<Rightarrow> loop_index x < length H"
  shows "child_position (index_of rpo) (map (rpo_rank rpo) H) N = Some (node_position rpo H N)"
  using assms index_of_rpo_rank[OF assms(1)]
  by (cases N) (auto simp: child_position_def node_position_def entry_of_def)

section \<open>Walks up the parents\<close>

definition parents_ok :: "'n cfg \<Rightarrow> 'n \<Rightarrow> 'n list \<Rightarrow> 'n loop_tree \<Rightarrow> bool" where
  "parents_ok g e H t \<longleftrightarrow> length (lt_loops t) = length H
     \<and> (\<forall>i < length H. lp_parent (lt_loops t ! i) = map_option LoopId (inner g e H (Suc i) (H ! i)))
     \<and> block_parent t = (\<lambda>b. map_option LoopId (inner g e H 0 b))"

definition at_loops :: "(nat \<Rightarrow> 'n loop_data \<Rightarrow> 'n loop_data) \<Rightarrow> 'n loop_tree \<Rightarrow> 'n loop_tree" where
  "at_loops f t = t\<lparr>lt_loops := map (\<lambda>i. f i (lt_loops t ! i)) [0..<length (lt_loops t)]\<rparr>"

lemma at_loops_simps [simp]:
  "length (lt_loops (at_loops f t)) = length (lt_loops t)"
  "i < length (lt_loops t) \<Longrightarrow> lt_loops (at_loops f t) ! i = f i (lt_loops t ! i)"
  "block_parent (at_loops f t) = block_parent t" "root_contents (at_loops f t) = root_contents t"
  "loop_order (at_loops f t) = loop_order t"
  by (simp_all add: at_loops_def)

lemma at_loops_id: "(\<And>i l. i < length (lt_loops t) \<Longrightarrow> f i l = l) \<Longrightarrow> at_loops f t = t"
proof -
  assume a: "\<And>i l. i < length (lt_loops t) \<Longrightarrow> f i l = l"
  have "map (\<lambda>i. f i (lt_loops t ! i)) [0..<length (lt_loops t)] = lt_loops t"
    by (rule nth_equalityI) (simp_all add: a)
  then show "at_loops f t = t" by (simp add: at_loops_def)
qed

lemma at_loops_at_loops: "at_loops f (at_loops h t) = at_loops (\<lambda>i l. f i (h i l)) t"
  by (simp add: at_loops_def)

lemma at_loops_cong:
  "(\<And>i. i < length (lt_loops t) \<Longrightarrow> f i (lt_loops t ! i) = h i (lt_loops t ! i)) \<Longrightarrow> at_loops f t = at_loops h t"
  by (simp add: at_loops_def)

lemma at_loops_root: "at_loops f (t\<lparr>root_contents := c\<rparr>) = (at_loops f t)\<lparr>root_contents := c\<rparr>"
  by (simp add: at_loops_def)

lemma update_loop_at:
  "k < length (lt_loops t) \<Longrightarrow> update_loop f (LoopId k) t = Some (at_loops (\<lambda>i l. if i = k then f l else l) t)"
proof -
  assume k: "k < length (lt_loops t)"
  have "(lt_loops t)[k := f (lt_loops t ! k)]
      = map (\<lambda>i. if i = k then f (lt_loops t ! i) else lt_loops t ! i) [0..<length (lt_loops t)]"
    by (rule nth_equalityI) (simp_all add: nth_list_update)
  then show ?thesis using k by (simp add: update_loop_def at_loops_def)
qed

lemma parents_ok_at:
  "parents_ok g e H t \<Longrightarrow> (\<And>i l. lp_parent (f i l) = lp_parent l) \<Longrightarrow> parents_ok g e H (at_loops f t)"
  by (simp add: parents_ok_def)

lemma parents_ok_root: "parents_ok g e H (t\<lparr>root_contents := c\<rparr>) \<longleftrightarrow> parents_ok g e H t"
  by (simp add: parents_ok_def)

definition with_block :: "'n \<Rightarrow> 'n loop_data \<Rightarrow> 'n loop_data" where
  "with_block b l = l\<lparr>lp_blocks := iset_insert b (lp_blocks l)\<rparr>"

lemma with_block_parent [simp]: "lp_parent (with_block b l) = lp_parent l"
  by (simp add: with_block_def)

lemma parent_up:
  assumes ok: "headers_ok g e H" and p: "parents_ok g e H t" and k: "inner g e H a b = Some k"
  shows "loop_parent t (LoopId k) = Some (map_option LoopId (inner g e H (Suc k) b))"
proof -
  have "k < length H" "b \<in> natural_loop g e (H ! k)" using k by (auto simp: inner_Some)
  then show ?thesis using p inner_header(2)[OF ok] by (auto simp: loop_parent_def parents_ok_def)
qed

lemma add_block_correct:
  assumes ok: "headers_ok g e H"
  shows "parents_ok g e H t \<Longrightarrow> add_block b (map_option LoopId (inner g e H a b)) t
    = Some (at_loops (\<lambda>i l. if a \<le> i \<and> b \<in> natural_loop g e (H ! i) then with_block b l else l) t)"
proof (induction "length H - a" arbitrary: a t rule: less_induct)
  case less
  have len: "length (lt_loops t) = length H" using less.prems by (simp add: parents_ok_def)
  show ?case
  proof (cases "inner g e H a b")
    case None
    then have "at_loops (\<lambda>i l. if a \<le> i \<and> b \<in> natural_loop g e (H ! i) then with_block b l else l) t = t"
      by (intro at_loops_id) (auto simp: inner_None len)
    then show ?thesis using None by (simp add: add_block.simps[of b None])
  next
    case (Some k)
    then have k: "a \<le> k" "k < length H" "b \<in> natural_loop g e (H ! k)"
      "\<And>j. a \<le> j \<Longrightarrow> j < k \<Longrightarrow> b \<notin> natural_loop g e (H ! j)" by (auto simp: inner_Some)
    let ?t = "at_loops (\<lambda>i l. if i = k then with_block b l else l) t"
    have p: "parents_ok g e H ?t" using less.prems by (rule parents_ok_at) simp
    have "update_loop (\<lambda>l. l\<lparr>lp_blocks := iset_insert b (lp_blocks l)\<rparr>) (LoopId k) t = Some ?t"
      using update_loop_at[of k t "with_block b"] k(2) len by (simp add: with_block_def[abs_def])
    then have "add_block b (Some (LoopId k)) t = add_block b (map_option LoopId (inner g e H (Suc k) b)) ?t"
      using parent_up[OF ok p Some] by (simp add: add_block.simps[of b "Some (LoopId k)"])
    also have "\<dots> = Some (at_loops (\<lambda>i l. if Suc k \<le> i \<and> b \<in> natural_loop g e (H ! i) then with_block b l else l) ?t)"
      using k(1,2) by (intro less.hyps p) simp
    also have "at_loops (\<lambda>i l. if Suc k \<le> i \<and> b \<in> natural_loop g e (H ! i) then with_block b l else l) ?t
      = at_loops (\<lambda>i l. if a \<le> i \<and> b \<in> natural_loop g e (H ! i) then with_block b l else l) t"
      unfolding at_loops_at_loops
    proof (rule at_loops_cong)
      fix i
      show "(if Suc k \<le> i \<and> b \<in> natural_loop g e (H ! i)
          then with_block b (if i = k then with_block b (lt_loops t ! i) else lt_loops t ! i)
          else if i = k then with_block b (lt_loops t ! i) else lt_loops t ! i)
        = (if a \<le> i \<and> b \<in> natural_loop g e (H ! i) then with_block b (lt_loops t ! i) else lt_loops t ! i)"
        using k(1,3) k(4)[of i] by (cases i k rule: linorder_cases) auto
    qed
    finally show ?thesis using Some by simp
  qed
qed

definition extend_blocks :: "'n list \<Rightarrow> 'n loop_data \<Rightarrow> 'n loop_data" where
  "extend_blocks bs l = l\<lparr>lp_blocks := iset_extend (lp_blocks l) bs\<rparr>"

lemma extend_blocks_simps:
  "extend_blocks [] l = l" "extend_blocks bs (with_block b l) = extend_blocks (b # bs) l"
  by (simp_all add: extend_blocks_def with_block_def iset_extend_def)

lemma add_blocks_correct:
  assumes ok: "headers_ok g e H"
  shows "parents_ok g e H t \<Longrightarrow> add_blocks bs t
    = Some ((at_loops (\<lambda>i l. extend_blocks (filter (\<lambda>b. b \<in> natural_loop g e (H ! i)) bs) l) t)
        \<lparr>root_contents := root_contents t @ map Block (filter (\<lambda>b. inner g e H 0 b = None) bs)\<rparr>)"
proof (induction bs arbitrary: t)
  case Nil
  show ?case by (simp add: extend_blocks_simps at_loops_id)
next
  case (Cons b bs)
  let ?rc = "if inner g e H 0 b = None then root_contents t @ [Block b] else root_contents t"
  let ?t = "t\<lparr>root_contents := ?rc\<rparr>"
  let ?t2 = "at_loops (\<lambda>i l. if b \<in> natural_loop g e (H ! i) then with_block b l else l) ?t"
  have p: "parents_ok g e H ?t" using Cons.prems by (simp add: parents_ok_root)
  have bp: "block_loop_parent t b = map_option LoopId (inner g e H 0 b)"
    using Cons.prems by (simp add: parents_ok_def block_loop_parent_def)
  have "(if block_loop_parent t b = None then t\<lparr>root_contents := root_contents t @ [Block b]\<rparr> else t) = ?t"
    using bp by simp
  moreover have "block_loop_parent ?t b = map_option LoopId (inner g e H 0 b)" using bp by (simp add: block_loop_parent_def)
  ultimately have "add_blocks (b # bs) t = add_blocks bs ?t2"
    using add_block_correct[OF ok p, of b 0] by simp
  also have "\<dots> = Some ((at_loops (\<lambda>i l. extend_blocks (filter (\<lambda>b. b \<in> natural_loop g e (H ! i)) bs) l) ?t2)
      \<lparr>root_contents := root_contents ?t2 @ map Block (filter (\<lambda>b. inner g e H 0 b = None) bs)\<rparr>)"
    by (rule Cons.IH) (rule parents_ok_at[OF p], simp)
  also have "at_loops (\<lambda>i l. extend_blocks (filter (\<lambda>b. b \<in> natural_loop g e (H ! i)) bs) l) ?t2
      = at_loops (\<lambda>i l. extend_blocks (filter (\<lambda>b. b \<in> natural_loop g e (H ! i)) (b # bs)) l) ?t"
    unfolding at_loops_at_loops by (rule at_loops_cong) (simp add: extend_blocks_simps)
  finally show ?case by (simp add: at_loops_root)
qed

section \<open>Depths\<close>

lemma count_depth_correct:
  assumes ok: "headers_ok g e H" and p: "parents_ok g e H t"
  shows "count_depth t d (map_option LoopId (inner g e H a b))
    = Some (d + card {k. a \<le> k \<and> k < length H \<and> b \<in> natural_loop g e (H ! k)})"
proof (induction "length H - a" arbitrary: a d rule: less_induct)
  case less
  show ?case
  proof (cases "inner g e H a b")
    case None
    then have "{k. a \<le> k \<and> k < length H \<and> b \<in> natural_loop g e (H ! k)} = {}" by (auto simp: inner_None)
    then show ?thesis using None by (simp add: count_depth.simps[of t d None])
  next
    case (Some k)
    then have k: "a \<le> k" "k < length H" "b \<in> natural_loop g e (H ! k)"
      "\<And>j. a \<le> j \<Longrightarrow> j < k \<Longrightarrow> b \<notin> natural_loop g e (H ! j)" by (auto simp: inner_Some)
    let ?S = "\<lambda>a. {k. a \<le> k \<and> k < length H \<and> b \<in> natural_loop g e (H ! k)}"
    have "?S a = insert k (?S (Suc k))"
    proof (intro subset_antisym subsetI)
      fix j
      assume "j \<in> ?S a"
      then show "j \<in> insert k (?S (Suc k))" using k(4)[of j] by (cases j k rule: linorder_cases) auto
    qed (use k in auto)
    then have c: "card (?S a) = Suc (card (?S (Suc k)))" by simp
    have "count_depth t d (Some (LoopId k)) = count_depth t (d + 1) (map_option LoopId (inner g e H (Suc k) b))"
      using parent_up[OF ok p Some] by (simp add: count_depth.simps[of t d "Some (LoopId k)"])
    also have "\<dots> = Some (d + 1 + card (?S (Suc k)))" using k(1,2) by (intro less.hyps) simp
    finally show ?thesis using Some c by simp
  qed
qed

definition depth_of :: "'n cfg \<Rightarrow> 'n \<Rightarrow> 'n list \<Rightarrow> nat \<Rightarrow> nat" where
  "depth_of g e H i = Suc (card {k. Suc i \<le> k \<and> k < length H \<and> H ! i \<in> natural_loop g e (H ! k)})"

definition set_depth :: "nat \<Rightarrow> 'n loop_data \<Rightarrow> 'n loop_data" where
  "set_depth d l = l\<lparr>lp_depth := d\<rparr>"

lemma set_depths_correct:
  assumes ok: "headers_ok g e H"
  shows "parents_ok g e H t \<Longrightarrow> set is \<subseteq> {..<length H} \<Longrightarrow> set_depths (map LoopId is) t
    = Some ((at_loops (\<lambda>i l. if i \<in> set is then set_depth (depth_of g e H i) l else l) t)
        \<lparr>root_contents := root_contents t
          @ map (\<lambda>i. Loop (LoopId i)) (filter (\<lambda>i. inner g e H (Suc i) (H ! i) = None) is)\<rparr>)"
proof (induction "is" arbitrary: t)
  case Nil
  show ?case by (simp add: at_loops_id)
next
  case (Cons k ks)
  have k: "k < length H" "k < length (lt_loops t)" using Cons.prems by (auto simp: parents_ok_def)
  let ?p = "map_option LoopId (inner g e H (Suc k) (H ! k))"
  let ?t = "t\<lparr>root_contents := if ?p = None then root_contents t @ [Loop (LoopId k)] else root_contents t\<rparr>"
  let ?t2 = "at_loops (\<lambda>i l. if i = k then set_depth (depth_of g e H k) l else l) ?t"
  have p: "parents_ok g e H ?t" using Cons.prems(1) by (simp add: parents_ok_root)
  have parent: "loop_parent t (LoopId k) = Some ?p" using Cons.prems(1) k by (simp add: loop_parent_def parents_ok_def)
  have t: "(if ?p = None then t\<lparr>root_contents := root_contents t @ [Loop (LoopId k)]\<rparr> else t) = ?t" by simp
  have depth: "count_depth ?t 1 ?p = Some (depth_of g e H k)"
    using count_depth_correct[OF ok p, of 1 "Suc k" "H ! k"] by (simp add: depth_of_def)
  have "update_loop (\<lambda>l. l\<lparr>lp_depth := depth_of g e H k\<rparr>) (LoopId k) ?t = Some ?t2"
    using update_loop_at[of k ?t "set_depth (depth_of g e H k)"] k(2) by (simp add: set_depth_def[abs_def])
  then have "set_depths (map LoopId (k # ks)) t = set_depths (map LoopId ks) ?t2"
    using parent depth by (cases "inner g e H (Suc k) (H ! k)") simp_all
  also have "\<dots> = Some ((at_loops (\<lambda>i l. if i \<in> set ks then set_depth (depth_of g e H i) l else l) ?t2)
        \<lparr>root_contents := root_contents ?t2
          @ map (\<lambda>i. Loop (LoopId i)) (filter (\<lambda>i. inner g e H (Suc i) (H ! i) = None) ks)\<rparr>)"
    by (rule Cons.IH) (rule parents_ok_at[OF p], use Cons.prems(2) in \<open>auto simp: set_depth_def\<close>)
  also have "at_loops (\<lambda>i l. if i \<in> set ks then set_depth (depth_of g e H i) l else l) ?t2
      = at_loops (\<lambda>i l. if i \<in> set (k # ks) then set_depth (depth_of g e H i) l else l) ?t"
    unfolding at_loops_at_loops by (rule at_loops_cong) (simp add: set_depth_def)
  finally show ?case by (simp add: at_loops_root)
qed

section \<open>The finished tree\<close>

definition loop_done :: "'n cfg \<Rightarrow> 'n \<Rightarrow> 'n list \<Rightarrow> 'n list \<Rightarrow> nat \<Rightarrow> 'n loop_data \<Rightarrow> bool" where
  "loop_done g e rpo H i l \<longleftrightarrow>
     lp_header l = H ! i
     \<and> lp_parent l = map_option LoopId (inner g e H (Suc i) (H ! i))
     \<and> distinct (lp_contents l) \<and> set (lp_contents l) = body_set g e (take i H) (H ! i)
     \<and> sorted (map (node_position rpo H) (lp_contents l))
     \<and> distinct (lp_latches l) \<and> set (lp_latches l) = {p. latch_of g e (H ! i) p}
     \<and> sorted (map (rpo_rank rpo) (lp_latches l))
     \<and> lp_blocks l = filter (\<lambda>b. b \<in> natural_loop g e (H ! i)) rpo
     \<and> lp_depth l = depth_of g e H i"

definition tree_done :: "'n cfg \<Rightarrow> 'n \<Rightarrow> 'n list \<Rightarrow> 'n list \<Rightarrow> 'n loop_tree \<Rightarrow> bool" where
  "tree_done g e rpo H t \<longleftrightarrow>
     rpo_of g e rpo \<and> headers_ok g e H \<and> set H = {h. reaches g e h \<and> has_latch g e h}
     \<and> length (lt_loops t) = length H
     \<and> (\<forall>i < length H. loop_done g e rpo H i (lt_loops t ! i))
     \<and> block_parent t = (\<lambda>b. map_option LoopId (inner g e H 0 b))
     \<and> loop_order t = map LoopId (sort_key (\<lambda>i. rpo_rank rpo (H ! i)) [0..<length H])
     \<and> root_contents t = sort_key (node_position rpo H)
         (map Block (filter (\<lambda>b. inner g e H 0 b = None) rpo)
          @ map (\<lambda>i. Loop (LoopId i)) (filter (\<lambda>i. inner g e H (Suc i) (H ! i) = None)
              (sort_key (\<lambda>i. rpo_rank rpo (H ! i)) [0..<length H])))"

lemma rpo_not_dominated:
  assumes "rpo_of g e rpo"
  shows "sorted_wrt (\<lambda>a b. \<not> doms g e b a) rpo"
proof -
  note r = rpo_ofD[OF assms]
  have "\<not> doms g e (rpo ! j) (rpo ! i)" if ij: "i < j" "j < length rpo" for i j
  proof
    assume "doms g e (rpo ! j) (rpo ! i)"
    then obtain k where "k \<le> i" "rpo ! k = rpo ! j" using rpo_dominator_earlier[OF assms, of i] ij by auto
    then show False using nth_eq_iff_index_eq[OF r(1), of k j] ij by simp
  qed
  then show ?thesis by (auto simp: sorted_wrt_iff_nth_less)
qed

lemma headers_ok_filter:
  assumes "rpo_of g e rpo"
  shows "headers_ok g e (filter P (rev rpo))"
  using rpo_not_dominated[OF assms] rpo_ofD(1,2)[OF assms]
  by (auto simp: headers_ok_def rev_filter sorted_wrt_rev intro: sorted_wrt_filter)

text \<open>The header comes first among the blocks of its loop.\<close>

lemma blocks_header_first:
  assumes r: "rpo_of g e rpo" and h: "reaches g e h"
  shows "\<exists>bs. filter (\<lambda>b. b \<in> natural_loop g e h) rpo = h # bs"
proof (cases "filter (\<lambda>b. b \<in> natural_loop g e h) rpo")
  case Nil
  then have "h \<notin> natural_loop g e h" using h rpo_ofD(2)[OF r] by (auto simp: filter_empty_conv)
  then show ?thesis using natural_loop.header[of h g e] by simp
next
  case (Cons x xs)
  have "sorted_wrt (\<lambda>a b. \<not> doms g e b a) (x # xs)"
    using sorted_wrt_filter[OF rpo_not_dominated[OF r], of "\<lambda>b. b \<in> natural_loop g e h"] Cons by simp
  then have s: "\<forall>y \<in> set xs. \<not> doms g e y x" by simp
  have "x \<in> set (filter (\<lambda>b. b \<in> natural_loop g e h) rpo)" unfolding Cons by simp
  then have "x \<in> natural_loop g e h" by simp
  then have "doms g e h x" by (rule natural_loop_doms[OF h])
  moreover have "h \<in> set (x # xs)" using h rpo_ofD(2)[OF r] natural_loop.header[of h g e] by (simp flip: Cons)
  ultimately have "h = x" using s by auto
  then show ?thesis using Cons by simp
qed

lemma extend_blocks_all:
  assumes r: "rpo_of g e rpo" and h: "reaches g e h" and l: "lp_blocks l = [h]"
  shows "lp_blocks (extend_blocks (filter (\<lambda>b. b \<in> natural_loop g e h) rpo) l)
    = filter (\<lambda>b. b \<in> natural_loop g e h) rpo"
proof -
  obtain bs where bs: "filter (\<lambda>b. b \<in> natural_loop g e h) rpo = h # bs" using blocks_header_first[OF r h] by blast
  have "distinct (h # bs)" using rpo_ofD(1)[OF r] by (metis bs distinct_filter)
  then have "iset_extend [h] (h # bs) = [h] @ bs" using iset_extend_id[of "[h]" bs] by (simp add: iset_extend_def iset_insert_def)
  then show ?thesis using l unfolding bs by (simp add: extend_blocks_def)
qed

definition sort_lists :: "'n list \<Rightarrow> 'n list \<Rightarrow> 'n loop_data \<Rightarrow> 'n loop_data" where
  "sort_lists rpo H l = l\<lparr>lp_contents := sort_key (node_position rpo H) (lp_contents l),
     lp_latches := sort_key (rpo_rank rpo) (lp_latches l)\<rparr>"

lemma sort_loop_correct:
  assumes r: "rpo_of g e rpo" and ok: "headers_ok g e H" and i: "i < length H" and l: "loop_inv g e H i l"
  shows "sort_loop (index_of rpo) (map (rpo_rank rpo) H) l = Some (sort_lists rpo H l)"
proof -
  note rp = rpo_ofD[OF r]
  have Hr: "set H \<subseteq> set rpo" using ok rp(2) by (auto simp: headers_ok_def)
  have "case N of Block b \<Rightarrow> b \<in> set rpo | Loop x \<Rightarrow> loop_index x < length H" if "N \<in> set (lp_contents l)" for N
    using that l i natural_loop_reaches[OF headers_okD(2)[OF ok i]] rp(2) by (auto simp: loop_inv_def body_set_def)
  then have c: "sort_by_key (child_position (index_of rpo) (map (rpo_rank rpo) H)) (lp_contents l)
      = Some (sort_key (node_position rpo H) (lp_contents l))"
    by (intro sort_by_key_correct child_position_correct[OF rp(1) Hr])
  have "p \<in> set rpo" if "p \<in> set (lp_latches l)" for p
    using that l rp(2) doms_reachable[of g e "H ! i" p] by (auto simp: loop_inv_def latch_of_def)
  then have "sort_by_key (index_of rpo) (lp_latches l) = Some (sort_key (rpo_rank rpo) (lp_latches l))"
    by (intro sort_by_key_correct index_of_rpo_rank[OF rp(1)])
  then show ?thesis using c by (simp add: sort_loop_def sort_lists_def)
qed

lemma compute_loop_tree_done:
  assumes wf: "wf_cfg g" and e: "entry_node g = Some e"
  shows "\<exists>dt t dfs rpo H. compute_dominator_tree g = Some dt \<and> compute_loop_tree g dt = Some t
    \<and> dfs_traversal g = Some dfs \<and> dfs_reverse_post_order dfs = Some rpo \<and> tree_done g e rpo H t"
proof -
  obtain dt rpo0 da where dt: "compute_dominator_tree g = Some dt" "tree_of g e dt rpo0 da"
    using dom_tree_obtain[OF assms] .
  obtain dfs po where dfs: "dfs_traversal g = Some dfs" "component_of g {} po" "last po = e"
      "dfs_post_order dfs = Some po" "dfs_reverse_post_order dfs = Some (rev po)"
    using dfs_traversal_returns[OF assms] by blast
  let ?rpo = "rev po"
  have r: "rpo_of g e ?rpo" using first_component_rpo[OF dfs(2)] dfs(3) by simp
  note rp = rpo_ofD[OF r]
  obtain iv where iv: "dom_intervals dt = Some iv" "\<forall>v. iv v \<noteq> None \<longleftrightarrow> reaches g e v"
      "\<forall>h x. iv h = Some x \<longrightarrow> (\<forall>p. is_back_edge iv x p \<longleftrightarrow> doms g e h p)"
    using dom_intervals_correct[OF dt(2)] by blast
  let ?H = "filter (has_latch g e) po" and ?P = "rpo_rank ?rpo"
  have ok: "headers_ok g e ?H" and okp: "headers_ok g e ([] @ po)"
    using headers_ok_filter[OF r, of "has_latch g e"] headers_ok_filter[OF r, of "\<lambda>_. True"] by simp_all
  have "loops_inv g e [] empty_loop_tree"
    by (simp add: loops_inv_def empty_loop_tree_def inner_def)
  from find_loops_correct[OF assms dt(2) iv(2,3) okp this]
  obtain t where t: "find_loops g dt iv po empty_loop_tree = Some t" "loops_inv g e ?H t" by auto
  note ti = loops_invD[OF t(2)]
  have Hr: "set ?H \<subseteq> set ?rpo" by auto
  have heads: "map lp_header (lt_loops t) = ?H"
    using ti(1,2) by (intro nth_equalityI) (auto simp: loop_inv_def)
  have idx: "index_of ?rpo (H' ! i) = Some (?P (H' ! i))" if "set H' \<subseteq> set ?rpo" "i < length H'" for H' i
    using index_of_rpo_rank[OF rp(1)] that by (meson nth_mem subsetD)
  have hp: "omap (\<lambda>l. index_of ?rpo (lp_header l)) (lt_loops t) = Some (map ?P ?H)"
  proof -
    have "omap (index_of ?rpo) ?H = Some (map ?P ?H)"
      by (rule omap_Some) (use index_of_rpo_rank[OF rp(1)] in auto)
    moreover have "omap (\<lambda>l. index_of ?rpo (lp_header l)) (lt_loops t) = omap (index_of ?rpo) (map lp_header (lt_loops t))"
      by (simp only: omap_map)
    ultimately show ?thesis unfolding heads by simp
  qed
  let ?is = "sort_key (\<lambda>i. ?P (?H ! i)) [0..<length ?H]"
  have order: "sort_by_key (\<lambda>lid. oget (map ?P ?H) (loop_index lid)) (map LoopId [0..<length (lt_loops t)])
      = Some (map LoopId ?is)"
  proof -
    have "sort_key (\<lambda>lid. ?P (?H ! loop_index lid)) (map LoopId js) = map LoopId (sort_key (\<lambda>i. ?P (?H ! i)) js)" for js
    proof (induction js)
      case (Cons j js)
      have "insort_key (\<lambda>lid. ?P (?H ! loop_index lid)) (LoopId j) (map LoopId ks)
          = map LoopId (insort_key (\<lambda>i. ?P (?H ! i)) j ks)" for ks
        by (induction ks) auto
      then show ?case using Cons by simp
    qed simp
    moreover have "sort_by_key (\<lambda>lid. oget (map ?P ?H) (loop_index lid)) (map LoopId [0..<length ?H])
        = Some (sort_key (\<lambda>lid. ?P (?H ! loop_index lid)) (map LoopId [0..<length ?H]))"
      by (rule sort_by_key_correct) auto
    ultimately show ?thesis using ti(1) by simp
  qed
  have sorts: "omap (sort_loop (index_of ?rpo) (map ?P ?H)) (lt_loops t) = Some (map (sort_lists ?rpo ?H) (lt_loops t))"
  proof (rule omap_Some)
    fix l
    assume "l \<in> set (lt_loops t)"
    then obtain i where i: "i < length ?H" "lt_loops t ! i = l" using ti(1) by (auto simp: in_set_conv_nth)
    show "sort_loop (index_of ?rpo) (map ?P ?H) l = Some (sort_lists ?rpo ?H l)"
      using sort_loop_correct[OF r ok i(1) ti(2)[OF i(1)]] i(2) by simp
  qed
  let ?t1 = "t\<lparr>loop_order := map LoopId ?is, lt_loops := map (sort_lists ?rpo ?H) (lt_loops t)\<rparr>"
  have p1: "parents_ok g e ?H ?t1"
    using ti by (auto simp: parents_ok_def loop_inv_def sort_lists_def fun_eq_iff)
  let ?f = "\<lambda>i. extend_blocks (filter (\<lambda>b. b \<in> natural_loop g e (?H ! i)) ?rpo)"
  let ?bc = "map Block (filter (\<lambda>b. inner g e ?H 0 b = None) ?rpo)"
  let ?t2 = "(at_loops ?f ?t1)\<lparr>root_contents := ?bc\<rparr>"
  have b: "add_blocks ?rpo ?t1 = Some ?t2"
    using add_blocks_correct[OF ok p1, of ?rpo] ti(4) by simp
  have p2: "parents_ok g e ?H ?t2"
    unfolding parents_ok_root by (rule parents_ok_at[OF p1]) (simp add: extend_blocks_def)
  let ?lc = "map (\<lambda>i. Loop (LoopId i)) (filter (\<lambda>i. inner g e ?H (Suc i) (?H ! i) = None) ?is)"
  let ?d = "\<lambda>i l. if i \<in> set ?is then set_depth (depth_of g e ?H i) l else l"
  let ?t3 = "(at_loops ?d ?t2)\<lparr>root_contents := ?bc @ ?lc\<rparr>"
  have d: "set_depths (map LoopId ?is) ?t2 = Some ?t3"
  proof -
    have "set ?is \<subseteq> {..<length ?H}" by auto
    from set_depths_correct[OF ok p2 this] show ?thesis by simp
  qed
  let ?cs = "sort_key (node_position ?rpo ?H) (?bc @ ?lc)"
  have cs: "sort_by_key (child_position (index_of ?rpo) (map ?P ?H)) (?bc @ ?lc) = Some ?cs"
    by (intro sort_by_key_correct child_position_correct[OF rp(1) Hr]) auto
  let ?t4 = "?t3\<lparr>root_contents := ?cs\<rparr>"
  have "compute_loop_tree g dt = Some ?t4"
    using tree_ofD(5)[OF dt(2)] e iv(1) dfs(1,4,5) t(1) hp order sorts b d cs rp(1)
    by (simp add: compute_loop_tree_def Let_def)
  moreover have "loop_done g e ?rpo ?H i (lt_loops ?t4 ! i)" if i: "i < length ?H" for i
  proof -
    let ?l = "lt_loops t ! i"
    have l: "loop_inv g e ?H i ?l" by (rule ti(2)[OF i])
    have "lt_loops ?t4 ! i = set_depth (depth_of g e ?H i) (?f i (sort_lists ?rpo ?H ?l))"
      using i ti(1) by simp
    moreover have "lp_blocks (?f i (sort_lists ?rpo ?H ?l)) = filter (\<lambda>b. b \<in> natural_loop g e (?H ! i)) ?rpo"
      by (rule extend_blocks_all[OF r headers_okD(2)[OF ok i]]) (use l in \<open>simp add: loop_inv_def sort_lists_def\<close>)
    ultimately show ?thesis using l
      by (simp add: loop_done_def loop_inv_def set_depth_def extend_blocks_def sort_lists_def)
  qed
  ultimately have "tree_done g e ?rpo ?H ?t4" unfolding tree_done_def
    using r ok ti(1,3) rp(2) by (auto simp: fun_eq_iff)
  then show ?thesis using dt(1) \<open>compute_loop_tree g dt = Some ?t4\<close> dfs(1,5) by blast
qed

end
