(* ===== verification/LoopQueries.thy ===== *)
theory LoopQueries
  imports LoopForest
begin

text \<open>
  What the queries of the loop tree promise, stated over the public operations of
  \<^verbatim>\<open>graph/loop_tree.rs\<close> and the natural loops of the graph only.
\<close>

section \<open>The finished tree, query by query\<close>

lemma tree_doneD:
  assumes "tree_done g e rpo H t"
  shows "rpo_of g e rpo" and "headers_ok g e H" and "set H = {h. reaches g e h \<and> has_latch g e h}"
    and "length (lt_loops t) = length H" and "i < length H \<Longrightarrow> loop_done g e rpo H i (lt_loops t ! i)"
    and "block_parent t b = map_option LoopId (inner g e H 0 b)"
    and "loop_order t = map LoopId (sort_key (\<lambda>i. rpo_rank rpo (H ! i)) [0..<length H])"
    and "root_contents t = sort_key (node_position rpo H)
         (map Block (filter (\<lambda>b. inner g e H 0 b = None) rpo)
          @ map (\<lambda>i. Loop (LoopId i)) (filter (\<lambda>i. inner g e H (Suc i) (H ! i) = None)
              (sort_key (\<lambda>i. rpo_rank rpo (H ! i)) [0..<length H])))"
  using assms by (auto simp: tree_done_def)

lemma done_loops:
  assumes t: "tree_done g e rpo H t"
  shows "set (loops t) = LoopId ` {..<length H}" and "distinct (loops t)" and "num_loops t = length H"
  using tree_doneD(4,7)[OF t] by (auto simp: loops_def num_loops_def distinct_map inj_on_def)

lemma done_queries:
  assumes t: "tree_done g e rpo H t" and i: "i < length H"
  shows "loop_header t (LoopId i) = Some (H ! i)"
    and "loop_parent t (LoopId i) = Some (map_option LoopId (inner g e H (Suc i) (H ! i)))"
    and "blocks t (LoopId i) = Some (filter (\<lambda>b. b \<in> natural_loop g e (H ! i)) rpo)"
    and "loop_depth t (LoopId i) = Some (depth_of g e H i)"
    and "\<exists>cs. loop_contents t (LoopId i) = Some cs \<and> distinct cs \<and> set cs = body_set g e (take i H) (H ! i)
      \<and> sorted (map (node_position rpo H) cs)"
    and "\<exists>ls. latches t (LoopId i) = Some ls \<and> distinct ls \<and> set ls = {p. latch_of g e (H ! i) p}
      \<and> sorted (map (rpo_rank rpo) ls)"
  using tree_doneD(4)[OF t] tree_doneD(5)[OF t i] i
  by (simp_all add: loop_header_def loop_parent_def blocks_def loop_depth_def loop_contents_def latches_def loop_done_def)

lemma done_block_set:
  assumes t: "tree_done g e rpo H t" and i: "i < length H"
  shows "set (filter (\<lambda>b. b \<in> natural_loop g e (H ! i)) rpo) = natural_loop g e (H ! i)"
  using natural_loop_reaches[OF headers_okD(2)[OF tree_doneD(2)[OF t] i]] rpo_ofD(2)[OF tree_doneD(1)[OF t]] by auto

text \<open>
  C4. For every well-formed graph with an entry, \<open>compute_loop_tree\<close> on the graph's dominator tree
  does not panic; the loops are in bijection with the reachable blocks that have a back edge, each
  loop's blocks are the natural loop of its header, each listed once and the header first, and its
  latches are the sources of the header's back edges, each listed once.
\<close>

theorem loops_are_natural_loops:
  assumes "wf_cfg g" and "entry_node g = Some e"
  shows "\<exists>dt t. compute_dominator_tree g = Some dt \<and> compute_loop_tree g dt = Some t
    \<and> distinct (loops t) \<and> set (loops t) = LoopId ` {..<num_loops t}
    \<and> (\<forall>h. reaches g e h \<and> (\<exists>l. latch_of g e h l) \<longleftrightarrow> (\<exists>x \<in> set (loops t). loop_header t x = Some h))
    \<and> (\<forall>x \<in> set (loops t). \<exists>h bs ls. loop_header t x = Some h
        \<and> (\<forall>y \<in> set (loops t). loop_header t y = Some h \<longrightarrow> y = x)
        \<and> blocks t x = Some bs \<and> distinct bs \<and> hd bs = h \<and> set bs = natural_loop g e h
        \<and> latches t x = Some ls \<and> distinct ls \<and> set ls = {l. latch_of g e h l})"
proof -
  obtain dt t dfs rpo H where t: "compute_dominator_tree g = Some dt" "compute_loop_tree g dt = Some t" "tree_done g e rpo H t"
    using compute_loop_tree_done[OF assms] by blast
  note D = tree_doneD[OF t(3)] and Q = done_queries[OF t(3)] and L = done_loops[OF t(3)]
  have d: "distinct H" using D(2) by (simp add: headers_ok_def)
  have heads: "reaches g e h \<and> (\<exists>l. latch_of g e h l) \<longleftrightarrow> (\<exists>x \<in> set (loops t). loop_header t x = Some h)" for h
  proof -
    have "reaches g e h \<and> (\<exists>l. latch_of g e h l) \<longleftrightarrow> h \<in> set H" using D(3) by (simp add: has_latch_def)
    also have "\<dots> \<longleftrightarrow> (\<exists>x \<in> set (loops t). loop_header t x = Some h)" unfolding L(1) using Q(1) by (auto simp: in_set_conv_nth)
    finally show ?thesis .
  qed
  have each: "\<exists>h bs ls. loop_header t x = Some h
        \<and> (\<forall>y \<in> set (loops t). loop_header t y = Some h \<longrightarrow> y = x)
        \<and> blocks t x = Some bs \<and> distinct bs \<and> hd bs = h \<and> set bs = natural_loop g e h
        \<and> latches t x = Some ls \<and> distinct ls \<and> set ls = {l. latch_of g e h l}" if x: "x \<in> set (loops t)" for x
  proof -
    obtain i where i: "i < length H" "x = LoopId i" using x L(1) by auto
    let ?bs = "filter (\<lambda>b. b \<in> natural_loop g e (H ! i)) rpo"
    obtain ls where ls: "latches t x = Some ls" "distinct ls" "set ls = {p. latch_of g e (H ! i) p}" using Q(6)[OF i(1)] i(2) by blast
    have "\<forall>y \<in> set (loops t). loop_header t y = Some (H ! i) \<longrightarrow> y = x"
      unfolding L(1) using Q(1) d i by (auto simp: nth_eq_iff_index_eq)
    moreover have "distinct ?bs" using rpo_ofD(1)[OF D(1)] by simp
    moreover have "hd ?bs = H ! i" using blocks_header_first[OF D(1) headers_okD(2)[OF D(2) i(1)]] by fastforce
    ultimately show ?thesis using Q(1,3)[OF i(1)] ls i(2) done_block_set[OF t(3) i(1)] by blast
  qed
  have L': "set (loops t) = LoopId ` {..<num_loops t}" using L(1,3) by simp
  show ?thesis
    by (intro exI[of _ dt] exI[of _ t] conjI allI ballI t(1,2) L(2) L' heads) (rule each)
qed

definition loop_demo :: "nat cfg" where
  "loop_demo = cfg_of [(10, [11]), (11, [12, 16]), (12, [13, 14]), (13, [12, 15]), (14, [15]), (15, [11, 15]), (16, [])]"

lemma loop_demo_ok: "wf_cfg loop_demo" "entry_node loop_demo = Some 10"
  unfolding loop_demo_def by (rule wf_cfg_of) (simp_all add: cfg_of_ok_def cfg_of_def Let_def)

theorem loops_are_natural_loops_witness:
  "\<exists>dt t. compute_dominator_tree loop_demo = Some dt \<and> compute_loop_tree loop_demo dt = Some t
    \<and> (\<forall>h. reaches loop_demo 10 h \<and> (\<exists>l. latch_of loop_demo 10 h l)
        \<longleftrightarrow> (\<exists>x \<in> set (loops t). loop_header t x = Some h))"
  using loops_are_natural_loops[OF loop_demo_ok] by blast

section \<open>Nesting\<close>

text \<open>The blocks of a loop, as a set.\<close>

definition loop_members :: "'n loop_tree \<Rightarrow> loop_id \<Rightarrow> 'n set" where
  "loop_members t x = (case blocks t x of None \<Rightarrow> {} | Some bs \<Rightarrow> set bs)"

lemma done_members:
  assumes t: "tree_done g e rpo H t" and i: "i < length H"
  shows "loop_members t (LoopId i) = natural_loop g e (H ! i)"
  using done_queries(3)[OF t i] done_block_set[OF t i] by (simp add: loop_members_def)

lemma natural_loop_subset:
  assumes ok: "headers_ok g e H" and ik: "i < length H" "k < length H"
  shows "natural_loop g e (H ! i) \<subseteq> natural_loop g e (H ! k) \<longleftrightarrow> i = k \<or> i < k \<and> H ! i \<in> natural_loop g e (H ! k)"
    and "natural_loop g e (H ! i) \<subset> natural_loop g e (H ! k) \<longleftrightarrow> i < k \<and> H ! i \<in> natural_loop g e (H ! k)"
proof -
  note D = headers_okD[OF ok]
  have hi: "H ! i \<in> natural_loop g e (H ! i)" "H ! k \<in> natural_loop g e (H ! k)" by (rule natural_loop.header)+
  have not_back: "\<not> (a < b \<and> b < length H \<and> H ! b \<in> natural_loop g e (H ! a))" for a b
    using natural_loop_doms[of g e "H ! a" "H ! b"] D(2)[of a] D(3)[of a b] by fastforce
  have up: "natural_loop g e (H ! i) \<subseteq> natural_loop g e (H ! k)" if "i < k" "H ! i \<in> natural_loop g e (H ! k)"
    using headers_nested(2)[OF ok that(1) ik(2) hi(1) that(2)] .
  show sub: "natural_loop g e (H ! i) \<subseteq> natural_loop g e (H ! k) \<longleftrightarrow> i = k \<or> i < k \<and> H ! i \<in> natural_loop g e (H ! k)"
  proof
    assume s: "natural_loop g e (H ! i) \<subseteq> natural_loop g e (H ! k)"
    then have m: "H ! i \<in> natural_loop g e (H ! k)" using hi(1) by blast
    then show "i = k \<or> i < k \<and> H ! i \<in> natural_loop g e (H ! k)" using not_back[of k i] ik(1) by (cases i k rule: linorder_cases) auto
  qed (use up in blast)
  have "\<not> natural_loop g e (H ! k) \<subseteq> natural_loop g e (H ! i)" if "i < k" using not_back[of i k] that ik(2) hi(2) by blast
  then show "natural_loop g e (H ! i) \<subset> natural_loop g e (H ! k) \<longleftrightarrow> i < k \<and> H ! i \<in> natural_loop g e (H ! k)"
    using sub by auto
qed

lemma inner_least:
  assumes ok: "headers_ok g e H" and k: "k < length H"
  shows "inner g e H a b = Some k \<longleftrightarrow> a \<le> k \<and> b \<in> natural_loop g e (H ! k)
    \<and> (\<forall>j < length H. a \<le> j \<longrightarrow> b \<in> natural_loop g e (H ! j) \<longrightarrow> natural_loop g e (H ! k) \<subseteq> natural_loop g e (H ! j))"
proof
  assume "inner g e H a b = Some k"
  then have s: "a \<le> k" "b \<in> natural_loop g e (H ! k)" "\<forall>j. a \<le> j \<and> j < k \<longrightarrow> b \<notin> natural_loop g e (H ! j)"
    by (auto simp: inner_Some)
  have "natural_loop g e (H ! k) \<subseteq> natural_loop g e (H ! j)"
    if j: "j < length H" "a \<le> j" "b \<in> natural_loop g e (H ! j)" for j
  proof (cases j k rule: linorder_cases)
    case less
    then show ?thesis using s(3) j by blast
  next
    case greater
    show ?thesis by (rule headers_nested(2)[OF ok greater j(1) s(2) j(3)])
  qed simp
  then show "a \<le> k \<and> b \<in> natural_loop g e (H ! k)
    \<and> (\<forall>j < length H. a \<le> j \<longrightarrow> b \<in> natural_loop g e (H ! j) \<longrightarrow> natural_loop g e (H ! k) \<subseteq> natural_loop g e (H ! j))"
    using s by blast
next
  assume a: "a \<le> k \<and> b \<in> natural_loop g e (H ! k)
    \<and> (\<forall>j < length H. a \<le> j \<longrightarrow> b \<in> natural_loop g e (H ! j) \<longrightarrow> natural_loop g e (H ! k) \<subseteq> natural_loop g e (H ! j))"
  have "b \<notin> natural_loop g e (H ! j)" if j: "a \<le> j" "j < k" for j
  proof
    assume "b \<in> natural_loop g e (H ! j)"
    then have "natural_loop g e (H ! k) \<subseteq> natural_loop g e (H ! j)" using a j k by simp
    then show False using natural_loop_subset(1)[OF ok k, of j] j k by simp
  qed
  then show "inner g e H a b = Some k" using a k by (auto simp: inner_Some)
qed

text \<open>
  C13. Nesting: a block's loop parent is the smallest loop that contains it and there is none exactly
  when no loop contains it; a loop's parent is the smallest loop that strictly contains it; and a
  loop's depth is the number of loops that contain it, itself included.
\<close>

theorem loop_nesting_correct:
  assumes "wf_cfg g" and "entry_node g = Some e"
  shows "\<exists>dt t. compute_dominator_tree g = Some dt \<and> compute_loop_tree g dt = Some t
    \<and> (\<forall>b x. block_loop_parent t b = Some x \<longleftrightarrow> x \<in> set (loops t) \<and> b \<in> loop_members t x
        \<and> (\<forall>y \<in> set (loops t). b \<in> loop_members t y \<longrightarrow> loop_members t x \<subseteq> loop_members t y))
    \<and> (\<forall>x \<in> set (loops t). \<exists>p. loop_parent t x = Some p \<and> (\<forall>y. p = Some y \<longleftrightarrow>
        y \<in> set (loops t) \<and> loop_members t x \<subset> loop_members t y
        \<and> (\<forall>z \<in> set (loops t). loop_members t x \<subset> loop_members t z \<longrightarrow> loop_members t y \<subseteq> loop_members t z)))
    \<and> (\<forall>x \<in> set (loops t). loop_depth t x = Some (card {y \<in> set (loops t). loop_members t x \<subseteq> loop_members t y}))"
proof -
  obtain dt t dfs rpo H where t: "compute_dominator_tree g = Some dt" "compute_loop_tree g dt = Some t" "tree_done g e rpo H t"
    using compute_loop_tree_done[OF assms] by blast
  note D = tree_doneD[OF t(3)] and Q = done_queries[OF t(3)] and L = done_loops[OF t(3)] and M = done_members[OF t(3)]
  note S = natural_loop_subset[OF D(2)] and I = inner_least[OF D(2)]
  have all: "(\<forall>y \<in> set (loops t). P y) \<longleftrightarrow> (\<forall>j < length H. P (LoopId j))" for P unfolding L(1) by blast
  have inL: "x \<in> set (loops t) \<longleftrightarrow> (\<exists>k < length H. x = LoopId k)" for x unfolding L(1) by blast
  have block: "block_loop_parent t b = Some x \<longleftrightarrow> x \<in> set (loops t) \<and> b \<in> loop_members t x
      \<and> (\<forall>y \<in> set (loops t). b \<in> loop_members t y \<longrightarrow> loop_members t x \<subseteq> loop_members t y)" for b x
  proof -
    have "block_loop_parent t b = Some x \<longleftrightarrow> (\<exists>k < length H. x = LoopId k \<and> inner g e H 0 b = Some k)"
      unfolding block_loop_parent_def D(6) by (auto simp: inner_Some)
    moreover have "inner g e H 0 b = Some k \<longleftrightarrow> b \<in> loop_members t (LoopId k)
        \<and> (\<forall>y \<in> set (loops t). b \<in> loop_members t y \<longrightarrow> loop_members t (LoopId k) \<subseteq> loop_members t y)"
      if k: "k < length H" for k
      unfolding all using I[OF k, of 0 b] M k by simp
    ultimately show ?thesis unfolding inL by blast
  qed
  have parent: "inner g e H (Suc i) (H ! i) = Some k \<longleftrightarrow> loop_members t (LoopId i) \<subset> loop_members t (LoopId k)
      \<and> (\<forall>z \<in> set (loops t). loop_members t (LoopId i) \<subset> loop_members t z \<longrightarrow> loop_members t (LoopId k) \<subseteq> loop_members t z)"
    if ik: "i < length H" "k < length H" for i k
  proof -
    have "(\<forall>z \<in> set (loops t). loop_members t (LoopId i) \<subset> loop_members t z \<longrightarrow> loop_members t (LoopId k) \<subseteq> loop_members t z)
      \<longleftrightarrow> (\<forall>j < length H. Suc i \<le> j \<longrightarrow> H ! i \<in> natural_loop g e (H ! j) \<longrightarrow> natural_loop g e (H ! k) \<subseteq> natural_loop g e (H ! j))"
      unfolding all using M ik S(2)[OF ik(1)] by auto
    then show ?thesis using I[OF ik(2), of "Suc i" "H ! i"] S(2)[OF ik] M ik by auto
  qed
  have parents: "\<exists>p. loop_parent t x = Some p \<and> (\<forall>y. p = Some y \<longleftrightarrow>
        y \<in> set (loops t) \<and> loop_members t x \<subset> loop_members t y
        \<and> (\<forall>z \<in> set (loops t). loop_members t x \<subset> loop_members t z \<longrightarrow> loop_members t y \<subseteq> loop_members t z))"
    if x: "x \<in> set (loops t)" for x
  proof -
    obtain i where i: "i < length H" "x = LoopId i" using x inL by blast
    let ?p = "map_option LoopId (inner g e H (Suc i) (H ! i))"
    have eq: "?p = Some y \<longleftrightarrow> (\<exists>k < length H. y = LoopId k \<and> inner g e H (Suc i) (H ! i) = Some k)" for y
      by (auto simp: inner_Some)
    have "?p = Some y \<longleftrightarrow> y \<in> set (loops t) \<and> loop_members t x \<subset> loop_members t y
        \<and> (\<forall>z \<in> set (loops t). loop_members t x \<subset> loop_members t z \<longrightarrow> loop_members t y \<subseteq> loop_members t z)" for y
    proof (cases "y \<in> set (loops t)")
      case True
      then obtain k where k: "k < length H" "y = LoopId k" using inL by blast
      then have "?p = Some y \<longleftrightarrow> inner g e H (Suc i) (H ! i) = Some k" by auto
      then show ?thesis using parent[OF i(1) k(1)] True unfolding i(2) k(2) by simp
    next
      case False
      then show ?thesis using eq[of y] unfolding inL by blast
    qed
    then show ?thesis using Q(2)[OF i(1)] unfolding i(2) by (intro exI[of _ ?p]) simp
  qed
  have depth: "loop_depth t x = Some (card {y \<in> set (loops t). loop_members t x \<subseteq> loop_members t y})"
    if x: "x \<in> set (loops t)" for x
  proof -
    obtain i where i: "i < length H" "x = LoopId i" using x inL by blast
    let ?K = "{k. Suc i \<le> k \<and> k < length H \<and> H ! i \<in> natural_loop g e (H ! k)}"
    have "loop_members t (LoopId i) \<subseteq> loop_members t (LoopId k) \<longleftrightarrow> k \<in> insert i ?K" if k: "k < length H" for k
      using S(1)[OF i(1) k] k unfolding M[OF i(1)] M[OF k] by auto
    then have "{y \<in> set (loops t). loop_members t x \<subseteq> loop_members t y} = LoopId ` insert i ?K"
      unfolding L(1) i(2) using i(1) by blast
    moreover have "card (LoopId ` insert i ?K) = Suc (card ?K)" by (subst card_image) (auto simp: inj_on_def)
    ultimately show ?thesis using Q(4)[OF i(1)] i(2) by (simp add: depth_of_def)
  qed
  show ?thesis
    apply (rule exI[of _ dt], rule exI[of _ t])
    apply (rule conjI[OF t(1) conjI[OF t(2)]])
    apply (rule conjI, intro allI, rule block)
    apply (rule conjI, rule ballI, rule parents, assumption)
    apply (rule ballI, rule depth, assumption)
    done
qed

theorem loop_nesting_correct_witness:
  "\<exists>dt t. compute_dominator_tree loop_demo = Some dt \<and> compute_loop_tree loop_demo dt = Some t
    \<and> (\<forall>x \<in> set (loops t). loop_depth t x = Some (card {y \<in> set (loops t). loop_members t x \<subseteq> loop_members t y}))"
  using loop_nesting_correct[OF loop_demo_ok] by (elim exE conjE) (intro exI conjI; assumption)

section \<open>Contents and order\<close>

text \<open>The reverse post-order position of a child: a loop stands at its header's.\<close>

definition tree_position :: "'n loop_tree \<Rightarrow> 'n list \<Rightarrow> 'n loop_tree_node \<Rightarrow> nat" where
  "tree_position t rpo N = rpo_rank rpo (case N of Block b \<Rightarrow> b | Loop x \<Rightarrow> the (loop_header t x))"

lemma tree_position_done:
  assumes t: "tree_done g e rpo H t" and "case N of Block b \<Rightarrow> True | Loop x \<Rightarrow> x \<in> set (loops t)"
  shows "tree_position t rpo N = node_position rpo H N"
  using assms(2) done_queries(1)[OF t] done_loops(1)[OF t]
  by (cases N) (auto simp: tree_position_def node_position_def entry_of_def)

lemma body_set_children:
  assumes t: "tree_done g e rpo H t" and i: "i < length H"
  shows "body_set g e (take i H) (H ! i) = {Block b | b. block_loop_parent t b = Some (LoopId i)}
    \<union> {Loop x | x. x \<in> set (loops t) \<and> loop_parent t x = Some (Some (LoopId i))}"
proof -
  note D = tree_doneD[OF t] and L = done_loops[OF t] and Q = done_queries[OF t]
  have b: "block_loop_parent t b = Some (LoopId i) \<longleftrightarrow> b \<in> natural_loop g e (H ! i) \<and> inner g e (take i H) 0 b = None" for b
    using inner_take[OF i, of 0 g e b] by (auto simp: block_loop_parent_def D(6))
  have l: "loop_parent t (LoopId j) = Some (Some (LoopId i)) \<longleftrightarrow>
      j < i \<and> H ! j \<in> natural_loop g e (H ! i) \<and> inner g e (take i H) (Suc j) (H ! j) = None" if j: "j < length H" for j
  proof (cases "Suc j \<le> i")
    case True
    then show ?thesis using inner_take[OF i True, of g e "H ! j"] Q(2)[OF j] by auto
  next
    case False
    then have "inner g e H (Suc j) (H ! j) \<noteq> Some i" by (auto simp: inner_Some)
    then show ?thesis using Q(2)[OF j] False by auto
  qed
  have "{Loop x | x. x \<in> set (loops t) \<and> loop_parent t x = Some (Some (LoopId i))}
      = {Loop (LoopId j) | j. j < length H \<and> loop_parent t (LoopId j) = Some (Some (LoopId i))}"
    unfolding L(1) by blast
  also have "\<dots> = {Loop (LoopId j) | j. j < i \<and> H ! j \<in> natural_loop g e (H ! i) \<and> inner g e (take i H) (Suc j) (H ! j) = None}"
  proof -
    have "j < length H \<and> loop_parent t (LoopId j) = Some (Some (LoopId i)) \<longleftrightarrow>
        j < i \<and> H ! j \<in> natural_loop g e (H ! i) \<and> inner g e (take i H) (Suc j) (H ! j) = None" for j
      using l[of j] i by (cases "j < length H") auto
    then show ?thesis by (simp only:)
  qed
  also have "\<dots> = {Loop (LoopId j) | j. j < length (take i H) \<and> take i H ! j \<in> natural_loop g e (H ! i)
      \<and> inner g e (take i H) (Suc j) (take i H ! j) = None}"
    using i by (intro Collect_cong ex_cong1 conj_cong) auto
  finally have "{Loop (LoopId j) | j. j < length (take i H) \<and> take i H ! j \<in> natural_loop g e (H ! i)
      \<and> inner g e (take i H) (Suc j) (take i H ! j) = None}
    = {Loop x | x. x \<in> set (loops t) \<and> loop_parent t x = Some (Some (LoopId i))}" by (rule sym)
  then show ?thesis unfolding body_set_def b by (rule arg_cong)
qed

lemma sorted_map_eq: "(\<And>x. x \<in> set xs \<Longrightarrow> f x = h x) \<Longrightarrow> sorted (map f xs) = sorted (map h xs)"
  by (simp cong: map_cong)

text \<open>
  The children of a loop are the blocks and loops whose parent it is, the children of the root
  are the reachable blocks and the loops without parent, each listed once; and all lists are in the
  reverse post-order of the depth-first traversal: the loops, every list of children, the latches
  and the blocks, a loop standing at the position of its header.
\<close>

theorem loop_contents_ordered:
  assumes "wf_cfg g" and "entry_node g = Some e"
  shows "\<exists>dt t dfs rpo. compute_dominator_tree g = Some dt \<and> compute_loop_tree g dt = Some t
    \<and> dfs_traversal g = Some dfs \<and> dfs_reverse_post_order dfs = Some rpo
    \<and> sorted (map (\<lambda>x. tree_position t rpo (Loop x)) (loops t))
    \<and> distinct (lt_root_contents t) \<and> sorted (map (tree_position t rpo) (lt_root_contents t))
    \<and> set (lt_root_contents t) = {Block b | b. reaches g e b \<and> block_loop_parent t b = None}
        \<union> {Loop x | x. x \<in> set (loops t) \<and> loop_parent t x = Some None}
    \<and> (\<forall>x \<in> set (loops t). \<exists>cs ls bs. loop_contents t x = Some cs \<and> latches t x = Some ls \<and> blocks t x = Some bs
        \<and> distinct cs \<and> set cs = {Block b | b. block_loop_parent t b = Some x}
            \<union> {Loop y | y. y \<in> set (loops t) \<and> loop_parent t y = Some (Some x)}
        \<and> sorted (map (tree_position t rpo) cs) \<and> sorted (map (rpo_rank rpo) ls) \<and> sorted (map (rpo_rank rpo) bs))"
proof -
  obtain dt t dfs rpo H where t: "compute_dominator_tree g = Some dt" "compute_loop_tree g dt = Some t"
      "dfs_traversal g = Some dfs" "dfs_reverse_post_order dfs = Some rpo" "tree_done g e rpo H t"
    using compute_loop_tree_done[OF assms] by blast
  note D = tree_doneD[OF t(5)] and Q = done_queries[OF t(5)] and L = done_loops[OF t(5)] and P = tree_position_done[OF t(5)]
  note rp = rpo_ofD[OF D(1)]
  have "map (rpo_rank rpo) rpo = [0..<length rpo]" by (rule nth_equalityI) (simp_all add: rp(1))
  then have srpo: "sorted (map (rpo_rank rpo) rpo)" by simp
  let ?is = "sort_key (\<lambda>i. rpo_rank rpo (H ! i)) [0..<length H]"
  have order: "sorted (map (\<lambda>x. tree_position t rpo (Loop x)) (loops t))"
  proof -
    have "map (\<lambda>x. tree_position t rpo (Loop x)) (loops t) = map (\<lambda>i. rpo_rank rpo (H ! i)) ?is"
      using Q(1) by (auto simp: loops_def D(7) tree_position_def)
    then show ?thesis by simp
  qed
  have roots: "set (lt_root_contents t) = {Block b | b. reaches g e b \<and> block_loop_parent t b = None}
        \<union> {Loop x | x. x \<in> set (loops t) \<and> loop_parent t x = Some None}"
  proof -
    have "set (lt_root_contents t) = {Block b | b. reaches g e b \<and> inner g e H 0 b = None}
        \<union> {Loop (LoopId i) | i. i < length H \<and> inner g e H (Suc i) (H ! i) = None}"
      using rp(2) by (auto simp: lt_root_contents_def D(8))
    also have "{Loop (LoopId i) | i. i < length H \<and> inner g e H (Suc i) (H ! i) = None}
        = {Loop x | x. x \<in> set (loops t) \<and> loop_parent t x = Some None}"
      unfolding L(1) using Q(2) by auto
    finally show ?thesis by (simp add: block_loop_parent_def D(6))
  qed
  have "distinct (map Block (filter (\<lambda>b. inner g e H 0 b = None) rpo)
      @ map (\<lambda>i. Loop (LoopId i)) (filter (\<lambda>i. inner g e H (Suc i) (H ! i) = None) ?is))"
    using rp(1) by (auto simp: distinct_map inj_on_def)
  then have droots: "distinct (lt_root_contents t)" unfolding lt_root_contents_def D(8) by simp
  have sroots: "sorted (map (tree_position t rpo) (lt_root_contents t))"
  proof -
    have "tree_position t rpo N = node_position rpo H N" if "N \<in> set (lt_root_contents t)" for N
      by (rule P) (use that roots in auto)
    then have "sorted (map (tree_position t rpo) (lt_root_contents t)) = sorted (map (node_position rpo H) (lt_root_contents t))"
      by (rule sorted_map_eq)
    moreover have "sorted (map (node_position rpo H) (lt_root_contents t))" unfolding lt_root_contents_def D(8) by simp
    ultimately show ?thesis by simp
  qed
  have each: "\<exists>cs ls bs. loop_contents t x = Some cs \<and> latches t x = Some ls \<and> blocks t x = Some bs
        \<and> distinct cs \<and> set cs = {Block b | b. block_loop_parent t b = Some x}
            \<union> {Loop y | y. y \<in> set (loops t) \<and> loop_parent t y = Some (Some x)}
        \<and> sorted (map (tree_position t rpo) cs) \<and> sorted (map (rpo_rank rpo) ls) \<and> sorted (map (rpo_rank rpo) bs)"
    if x: "x \<in> set (loops t)" for x
  proof -
    obtain i where i: "i < length H" "x = LoopId i" using x L(1) by auto
    obtain cs where cs: "loop_contents t x = Some cs" "distinct cs" "set cs = body_set g e (take i H) (H ! i)"
        "sorted (map (node_position rpo H) cs)" using Q(5)[OF i(1)] i(2) by blast
    obtain ls where ls: "latches t x = Some ls" "sorted (map (rpo_rank rpo) ls)" using Q(6)[OF i(1)] i(2) by blast
    have kids: "set cs = {Block b | b. block_loop_parent t b = Some x}
        \<union> {Loop y | y. y \<in> set (loops t) \<and> loop_parent t y = Some (Some x)}"
      unfolding cs(3) body_set_children[OF t(5) i(1)] i(2) ..
    have "tree_position t rpo N = node_position rpo H N" if "N \<in> set cs" for N
      by (rule P) (use that kids in auto)
    then have "sorted (map (tree_position t rpo) cs) = sorted (map (node_position rpo H) cs)" by (rule sorted_map_eq)
    then have scs: "sorted (map (tree_position t rpo) cs)" using cs(4) by simp
    have "sorted (map (rpo_rank rpo) (filter (\<lambda>b. b \<in> natural_loop g e (H ! i)) rpo))"
      by (rule sorted_filter[OF srpo])
    then show ?thesis using cs(1,2) kids scs ls Q(3)[OF i(1)] i(2) by blast
  qed
  show ?thesis
    by (intro exI[of _ dt] exI[of _ t] exI[of _ dfs] exI[of _ rpo] conjI ballI t(1-4) order droots sroots roots)
      (rule each)
qed

theorem loop_contents_ordered_witness:
  "\<exists>dt t dfs rpo. compute_dominator_tree loop_demo = Some dt \<and> compute_loop_tree loop_demo dt = Some t
    \<and> dfs_traversal loop_demo = Some dfs \<and> dfs_reverse_post_order dfs = Some rpo
    \<and> sorted (map (tree_position t rpo) (lt_root_contents t))"
  using loop_contents_ordered[OF loop_demo_ok] by (elim exE conjE) (intro exI conjI; assumption)

section \<open>Exits\<close>

lemma ofilter_correct:
  "(\<And>x. x \<in> set xs \<Longrightarrow> P x = Some (Q x)) \<Longrightarrow> ofilter P xs = Some (filter Q xs)"
  by (induction xs) auto

lemma exits_of_correct:
  assumes "\<And>s. lt_contains t x s = Some (s \<in> S)"
  shows "exits_of g t x bs ex = Some (iset_extend ex (filter (\<lambda>s. s \<notin> S) (concat (map (successors g) bs))))"
proof (induction bs arbitrary: ex)
  case (Cons b bs)
  have "ofilter (\<lambda>s. map_option Not (lt_contains t x s)) (successors g b) = Some (filter (\<lambda>s. s \<notin> S) (successors g b))"
    by (rule ofilter_correct) (simp add: assms)
  then show ?case using Cons by (simp add: iset_extend_def)
qed (simp add: iset_extend_def)

text \<open>
  The exiting blocks of a loop are its blocks with a successor outside it, each listed once, and
  the exit blocks are the successors of its blocks that lie outside it, each listed once.
\<close>

theorem loop_exits_correct:
  assumes "wf_cfg g" and "entry_node g = Some e"
  shows "\<exists>dt t. compute_dominator_tree g = Some dt \<and> compute_loop_tree g dt = Some t
    \<and> (\<forall>x \<in> set (loops t). \<exists>h bs es. loop_header t x = Some h
        \<and> exiting_blocks g t x = Some bs \<and> distinct bs
        \<and> set bs = {b \<in> natural_loop g e h. \<exists>s. edge g b s \<and> s \<notin> natural_loop g e h}
        \<and> exit_blocks g t x = Some es \<and> distinct es
        \<and> set es = {s. s \<notin> natural_loop g e h \<and> (\<exists>b \<in> natural_loop g e h. edge g b s)})"
proof -
  obtain dt t dfs rpo H where t: "compute_dominator_tree g = Some dt" "compute_loop_tree g dt = Some t" "tree_done g e rpo H t"
    using compute_loop_tree_done[OF assms] by blast
  note D = tree_doneD[OF t(3)] and Q = done_queries[OF t(3)] and L = done_loops[OF t(3)]
  have "\<exists>h bs es. loop_header t x = Some h
        \<and> exiting_blocks g t x = Some bs \<and> distinct bs
        \<and> set bs = {b \<in> natural_loop g e h. \<exists>s. edge g b s \<and> s \<notin> natural_loop g e h}
        \<and> exit_blocks g t x = Some es \<and> distinct es
        \<and> set es = {s. s \<notin> natural_loop g e h \<and> (\<exists>b \<in> natural_loop g e h. edge g b s)}"
    if x: "x \<in> set (loops t)" for x
  proof -
    obtain i where i: "i < length H" "x = LoopId i" using x L(1) by auto
    let ?S = "natural_loop g e (H ! i)"
    let ?bs = "filter (\<lambda>b. b \<in> ?S) rpo"
    have bs: "blocks t x = Some ?bs" "set ?bs = ?S" "distinct ?bs"
      using Q(3)[OF i(1)] i(2) done_block_set[OF t(3) i(1)] rpo_ofD(1)[OF D(1)] by simp_all
    have c: "lt_contains t x s = Some (s \<in> ?S)" for s
      using D(4) D(5)[OF i(1)] i bs(2) by (simp add: lt_contains_def loop_done_def)
    have "oany (\<lambda>s. map_option Not (lt_contains t x s)) (successors g b) = Some (\<exists>s \<in> set (successors g b). s \<notin> ?S)" for b
      by (rule oany_Some) (simp add: c)
    then have "ofilter (\<lambda>b. oany (\<lambda>s. map_option Not (lt_contains t x s)) (successors g b)) ?bs
        = Some (filter (\<lambda>b. \<exists>s \<in> set (successors g b). s \<notin> ?S) ?bs)"
      by (rule ofilter_correct)
    then have "exiting_blocks g t x = Some (filter (\<lambda>b. \<exists>s \<in> set (successors g b). s \<notin> ?S) ?bs)"
      using bs(1) by (simp add: exiting_blocks_def)
    moreover have "set (filter (\<lambda>b. \<exists>s \<in> set (successors g b). s \<notin> ?S) ?bs) = {b \<in> ?S. \<exists>s. edge g b s \<and> s \<notin> ?S}"
      using bs(2) by (auto simp: edge_def)
    moreover have "exit_blocks g t x = Some (iset_extend [] (filter (\<lambda>s. s \<notin> ?S) (concat (map (successors g) ?bs))))"
      using bs(1) exits_of_correct[OF c, of g ?bs "[]"] by (simp add: exit_blocks_def)
    moreover have "set (iset_extend [] (filter (\<lambda>s. s \<notin> ?S) (concat (map (successors g) ?bs))))
        = {s. s \<notin> ?S \<and> (\<exists>b \<in> ?S. edge g b s)}"
    proof -
      have "set (iset_extend [] (filter (\<lambda>s. s \<notin> ?S) (concat (map (successors g) ?bs))))
          = {s. s \<notin> ?S \<and> (\<exists>b \<in> set ?bs. edge g b s)}" by (auto simp: edge_def)
      then show ?thesis unfolding bs(2) .
    qed
    moreover have "distinct (filter (\<lambda>b. \<exists>s \<in> set (successors g b). s \<notin> ?S) ?bs)"
      "distinct (iset_extend [] (filter (\<lambda>s. s \<notin> ?S) (concat (map (successors g) ?bs))))" using rpo_ofD(1)[OF D(1)] by simp_all
    ultimately show ?thesis using Q(1)[OF i(1)] i(2) by blast
  qed
  then show ?thesis using t(1,2) by blast
qed

theorem loop_exits_correct_witness:
  "\<exists>dt t. compute_dominator_tree loop_demo = Some dt \<and> compute_loop_tree loop_demo dt = Some t
    \<and> (\<forall>x \<in> set (loops t). \<exists>h es. loop_header t x = Some h \<and> exit_blocks loop_demo t x = Some es
        \<and> set es = {s. s \<notin> natural_loop loop_demo 10 h \<and> (\<exists>b \<in> natural_loop loop_demo 10 h. edge loop_demo b s)})"
proof -
  obtain dt t where "compute_dominator_tree loop_demo = Some dt" "compute_loop_tree loop_demo dt = Some t"
      "\<forall>x \<in> set (loops t). \<exists>h bs es. loop_header t x = Some h
        \<and> exiting_blocks loop_demo t x = Some bs \<and> distinct bs
        \<and> set bs = {b \<in> natural_loop loop_demo 10 h. \<exists>s. edge loop_demo b s \<and> s \<notin> natural_loop loop_demo 10 h}
        \<and> exit_blocks loop_demo t x = Some es \<and> distinct es
        \<and> set es = {s. s \<notin> natural_loop loop_demo 10 h \<and> (\<exists>b \<in> natural_loop loop_demo 10 h. edge loop_demo b s)}"
    using loop_exits_correct[OF loop_demo_ok] by (elim exE conjE) (rule that)
  then show ?thesis by (intro exI conjI) (assumption, assumption, blast)
qed

end
