(* ===== verification/SmallTable.thy ===== *)
theory SmallTable
  imports VecExtns "HOL-Library.AList" "HOL-Library.Multiset"
begin

text \<open>
  Model of the module \<^verbatim>\<open>smalltable\<close> of \<^verbatim>\<open>src/src/utils/table.rs\<close>: the maps and sets that keep up to
  \<open>N\<close> entries in an inline vector and move to a heap table when they grow past it. The heap
  tables are those of the crate \<^verbatim>\<open>indexmap\<close>, which is not part of the repository: its operations are
  an argument of the model, the records \<open>imap_api\<close> and \<open>iset_api\<close>, and the locales \<open>imap\<close> and
  \<open>iset\<close> state what the documentation of that crate promises about them. Both are instantiated by a
  table kept as the list of its entries.

  A mutable reference into a table is the value it points to with the function that writes
  through it.

  The theorems say that the two representations cannot be told apart: every operation acts on the
  entries, in iteration order, as it does on an insertion-ordered list.
\<close>

section \<open>Entries in insertion order\<close>

definition swap_remove_at :: "nat \<Rightarrow> 'a list \<Rightarrow> 'a list" where
  "swap_remove_at i xs = butlast (xs[i := last xs])"

definition al_swap_remove :: "'k \<Rightarrow> ('k \<times> 'v) list \<Rightarrow> ('k \<times> 'v) list" where
  "al_swap_remove k xs =
     (case position (\<lambda>e. fst e = k) xs of Some i \<Rightarrow> swap_remove_at i xs | None \<Rightarrow> xs)"

definition al_retain :: "('k \<Rightarrow> 'v \<Rightarrow> bool \<times> 'v) \<Rightarrow> ('k \<times> 'v) list \<Rightarrow> ('k \<times> 'v) list" where
  "al_retain f xs =
     map (\<lambda>(k, v). (k, snd (f k v))) (filter (\<lambda>(k, v). fst (f k v)) xs)"

definition ls_insert :: "'a \<Rightarrow> 'a list \<Rightarrow> 'a list" where
  "ls_insert x xs = (if x \<in> set xs then xs else xs @ [x])"

definition ls_swap_remove :: "'a \<Rightarrow> 'a list \<Rightarrow> 'a list" where
  "ls_swap_remove x xs =
     (case position (\<lambda>y. y = x) xs of Some i \<Rightarrow> swap_remove_at i xs | None \<Rightarrow> xs)"

section \<open>The tables of the crate indexmap\<close>

type_synonym ('v, 's) mut_ref = "'v \<times> ('v \<Rightarrow> 's)"

record ('m, 'k, 'v) imap_api =
  im_new :: "'m"
  im_insert :: "'m \<Rightarrow> 'k \<Rightarrow> 'v \<Rightarrow> 'v option \<times> 'm"
  im_get :: "'m \<Rightarrow> 'k \<Rightarrow> 'v option"
  im_get_mut :: "'m \<Rightarrow> 'k \<Rightarrow> ('v, 'm) mut_ref option"
  im_get_index_mut :: "'m \<Rightarrow> nat \<Rightarrow> ('v, 'm) mut_ref option"
  im_swap_remove :: "'m \<Rightarrow> 'k \<Rightarrow> 'v option \<times> 'm"
  im_retain :: "'m \<Rightarrow> ('k \<Rightarrow> 'v \<Rightarrow> bool \<times> 'v) \<Rightarrow> 'm"
  im_clear :: "'m \<Rightarrow> 'm"
  im_iter :: "'m \<Rightarrow> ('k \<times> 'v) list"

record ('s, 'a) iset_api =
  is_new :: "'s"
  is_insert :: "'s \<Rightarrow> 'a \<Rightarrow> bool \<times> 's"
  is_contains :: "'s \<Rightarrow> 'a \<Rightarrow> bool"
  is_swap_remove :: "'s \<Rightarrow> 'a \<Rightarrow> bool \<times> 's"
  is_retain :: "'s \<Rightarrow> ('a \<Rightarrow> bool) \<Rightarrow> 's"
  is_clear :: "'s \<Rightarrow> 's"
  is_iter :: "'s \<Rightarrow> 'a list"

section \<open>SmallMap\<close>

datatype ('m, 'k, 'v) map_repr = MInline "('k \<times> 'v) list" | MSpilled 'm

definition sm_default :: "('m, 'k, 'v) map_repr" where
  "sm_default = MInline []"

definition sm_is_inline :: "('m, 'k, 'v) map_repr \<Rightarrow> bool" where
  "sm_is_inline r = (case r of MInline _ \<Rightarrow> True | MSpilled _ \<Rightarrow> False)"

definition sm_len :: "('m, 'k, 'v) imap_api \<Rightarrow> ('m, 'k, 'v) map_repr \<Rightarrow> nat" where
  "sm_len I r = (case r of MInline v \<Rightarrow> length v | MSpilled m \<Rightarrow> length (im_iter I m))"

definition sm_is_empty :: "('m, 'k, 'v) imap_api \<Rightarrow> ('m, 'k, 'v) map_repr \<Rightarrow> bool" where
  "sm_is_empty I r \<longleftrightarrow> sm_len I r = 0"

definition sm_clear :: "('m, 'k, 'v) imap_api \<Rightarrow> ('m, 'k, 'v) map_repr \<Rightarrow> ('m, 'k, 'v) map_repr" where
  "sm_clear I r = (case r of MInline v \<Rightarrow> MInline [] | MSpilled m \<Rightarrow> MSpilled (im_clear I m))"

definition sm_retain ::
    "('m, 'k, 'v) imap_api \<Rightarrow> ('m, 'k, 'v) map_repr \<Rightarrow> ('k \<Rightarrow> 'v \<Rightarrow> bool \<times> 'v) \<Rightarrow> ('m, 'k, 'v) map_repr"
where
  "sm_retain I r f =
     (case r of
        MInline v \<Rightarrow>
          MInline (concat (map (\<lambda>(k, x). let (keep, x) = f k x in if keep then [(k, x)] else []) v))
      | MSpilled m \<Rightarrow> MSpilled (im_retain I m f))"

definition sm_iter :: "('m, 'k, 'v) imap_api \<Rightarrow> ('m, 'k, 'v) map_repr \<Rightarrow> ('k \<times> 'v) list" where
  "sm_iter I r = (case r of MInline v \<Rightarrow> v | MSpilled m \<Rightarrow> im_iter I m)"

definition sm_keys :: "('m, 'k, 'v) imap_api \<Rightarrow> ('m, 'k, 'v) map_repr \<Rightarrow> 'k list" where
  "sm_keys I r = map fst (sm_iter I r)"

definition sm_values :: "('m, 'k, 'v) imap_api \<Rightarrow> ('m, 'k, 'v) map_repr \<Rightarrow> 'v list" where
  "sm_values I r = map snd (sm_iter I r)"

fun promote :: "('m, 'k, 'v) imap_api \<Rightarrow> ('k \<times> 'v) list \<Rightarrow> 'm \<Rightarrow> 'm" where
  "promote I [] m = m"
| "promote I ((k, v) # rest) m = promote I rest (snd (im_insert I m k v))"

definition sm_promote :: "('m, 'k, 'v) imap_api \<Rightarrow> ('k \<times> 'v) list \<Rightarrow> 'm" where
  "sm_promote I inline = promote I inline (im_new I)"

definition sm_insert ::
    "('m, 'k, 'v) imap_api \<Rightarrow> nat \<Rightarrow> ('m, 'k, 'v) map_repr \<Rightarrow> 'k \<Rightarrow> 'v \<Rightarrow> 'v option \<times> ('m, 'k, 'v) map_repr"
where
  "sm_insert I N r key val =
     (case r of
        MInline v \<Rightarrow>
          (case position (\<lambda>e. fst e = key) v of
             Some i \<Rightarrow> (Some (snd (v ! i)), MInline (v[i := (fst (v ! i), val)]))
           | None \<Rightarrow>
               if length v < N then (None, MInline (v @ [(key, val)]))
               else (let (old, m) = im_insert I (sm_promote I v) key val in (old, MSpilled m)))
      | MSpilled m \<Rightarrow> (let (old, m) = im_insert I m key val in (old, MSpilled m)))"

definition sm_get :: "('m, 'k, 'v) imap_api \<Rightarrow> ('m, 'k, 'v) map_repr \<Rightarrow> 'k \<Rightarrow> 'v option" where
  "sm_get I r key =
     (case r of
        MInline v \<Rightarrow> map_option snd (find (\<lambda>e. key = fst e) v)
      | MSpilled m \<Rightarrow> im_get I m key)"

definition sm_get_mut ::
    "('m, 'k, 'v) imap_api \<Rightarrow> ('m, 'k, 'v) map_repr \<Rightarrow> 'k \<Rightarrow> ('v, ('m, 'k, 'v) map_repr) mut_ref option"
where
  "sm_get_mut I r key =
     (case r of
        MInline v \<Rightarrow>
          map_option (\<lambda>i. (snd (v ! i), \<lambda>x. MInline (v[i := (fst (v ! i), x)])))
            (position (\<lambda>e. key = fst e) v)
      | MSpilled m \<Rightarrow> map_option (\<lambda>(x, write). (x, \<lambda>y. MSpilled (write y))) (im_get_mut I m key))"

definition sm_contains_key :: "('m, 'k, 'v) imap_api \<Rightarrow> ('m, 'k, 'v) map_repr \<Rightarrow> 'k \<Rightarrow> bool" where
  "sm_contains_key I r key \<longleftrightarrow> sm_get I r key \<noteq> None"

definition sm_remove ::
    "('m, 'k, 'v) imap_api \<Rightarrow> ('m, 'k, 'v) map_repr \<Rightarrow> 'k \<Rightarrow> 'v option \<times> ('m, 'k, 'v) map_repr"
where
  "sm_remove I r key =
     (case r of
        MInline v \<Rightarrow>
          (case position (\<lambda>e. key = fst e) v of
             Some i \<Rightarrow> (Some (snd (v ! i)), MInline (swap_remove_at i v))
           | None \<Rightarrow> (None, MInline v))
      | MSpilled m \<Rightarrow> (let (old, m) = im_swap_remove I m key in (old, MSpilled m)))"

text \<open>The entry interface: a view of the map at a key, occupied or vacant.\<close>

datatype ('m, 'k, 'v) map_entry =
    OccInline "('k \<times> 'v) list" nat
  | OccSpilled 'm 'k
  | VacInline "('k \<times> 'v) list" 'k
  | VacSpilled 'm 'k

definition sm_entry ::
    "('m, 'k, 'v) imap_api \<Rightarrow> ('m, 'k, 'v) map_repr \<Rightarrow> 'k \<Rightarrow> ('m, 'k, 'v) map_entry"
where
  "sm_entry I r key =
     (case r of
        MInline v \<Rightarrow>
          (case position (\<lambda>e. fst e = key) v of Some i \<Rightarrow> OccInline v i | None \<Rightarrow> VacInline v key)
      | MSpilled m \<Rightarrow> if im_get I m key \<noteq> None then OccSpilled m key else VacSpilled m key)"

definition occupied_into_mut ::
    "('m, 'k, 'v) imap_api \<Rightarrow> ('m, 'k, 'v) map_entry \<Rightarrow> ('v, ('m, 'k, 'v) map_repr) mut_ref option"
where
  "occupied_into_mut I e =
     (case e of
        OccInline v i \<Rightarrow> Some (snd (v ! i), \<lambda>x. MInline (v[i := (fst (v ! i), x)]))
      | OccSpilled m k \<Rightarrow> map_option (\<lambda>(x, write). (x, \<lambda>y. MSpilled (write y))) (im_get_mut I m k)
      | _ \<Rightarrow> None)"

definition vacant_insert ::
    "('m, 'k, 'v) imap_api \<Rightarrow> nat \<Rightarrow> ('m, 'k, 'v) map_entry \<Rightarrow> 'v
      \<Rightarrow> ('v, ('m, 'k, 'v) map_repr) mut_ref option"
where
  "vacant_insert I N e val =
     (case e of
        VacInline v k \<Rightarrow>
          if \<not> length v \<ge> N then Some (val, \<lambda>x. MInline (v @ [(k, x)]))
          else
            (let m = snd (im_insert I (sm_promote I v) k val)
             in map_option (\<lambda>(x, write). (x, \<lambda>y. MSpilled (write y)))
                 (im_get_index_mut I m (length (im_iter I m) - 1)))
      | VacSpilled m k \<Rightarrow>
          map_option (\<lambda>(x, write). (x, \<lambda>y. MSpilled (write y)))
            (im_get_mut I (snd (im_insert I m k val)) k)
      | _ \<Rightarrow> None)"

definition entry_or_insert ::
    "('m, 'k, 'v) imap_api \<Rightarrow> nat \<Rightarrow> ('m, 'k, 'v) map_entry \<Rightarrow> 'v
      \<Rightarrow> ('v, ('m, 'k, 'v) map_repr) mut_ref option"
where
  "entry_or_insert I N e dflt =
     (case e of
        OccInline _ _ \<Rightarrow> occupied_into_mut I e
      | OccSpilled _ _ \<Rightarrow> occupied_into_mut I e
      | VacInline _ _ \<Rightarrow> vacant_insert I N e dflt
      | VacSpilled _ _ \<Rightarrow> vacant_insert I N e dflt)"

definition occupied_remove ::
    "('m, 'k, 'v) imap_api \<Rightarrow> ('m, 'k, 'v) map_entry \<Rightarrow> ('v option \<times> ('m, 'k, 'v) map_repr) option"
where
  "occupied_remove I e =
     (case e of
        OccInline v i \<Rightarrow> Some (Some (snd (v ! i)), MInline (swap_remove_at i v))
      | OccSpilled m k \<Rightarrow> (let (old, m) = im_swap_remove I m k in Some (old, MSpilled m))
      | _ \<Rightarrow> None)"

fun sm_extend ::
    "('m, 'k, 'v) imap_api \<Rightarrow> nat \<Rightarrow> ('m, 'k, 'v) map_repr \<Rightarrow> ('k \<times> 'v) list \<Rightarrow> ('m, 'k, 'v) map_repr"
where
  "sm_extend I N r [] = r"
| "sm_extend I N r ((k, v) # rest) = sm_extend I N (snd (sm_insert I N r k v)) rest"

definition sm_from_iter ::
    "('m, 'k, 'v) imap_api \<Rightarrow> nat \<Rightarrow> ('k \<times> 'v) list \<Rightarrow> ('m, 'k, 'v) map_repr"
where
  "sm_from_iter I N entries = sm_extend I N sm_default entries"

definition sm_eq ::
    "('m, 'k, 'v) imap_api \<Rightarrow> ('m, 'k, 'v) map_repr \<Rightarrow> ('m, 'k, 'v) map_repr \<Rightarrow> bool"
where
  "sm_eq I a b \<longleftrightarrow>
     sm_len I a = sm_len I b \<and> list_all (\<lambda>(k, v). sm_get I b k = Some v) (sm_iter I a)"

section \<open>SmallSet\<close>

datatype ('s, 'a) set_repr = SInline "'a list" | SSpilled 's

definition ss_default :: "('s, 'a) set_repr" where
  "ss_default = SInline []"

definition ss_is_inline :: "('s, 'a) set_repr \<Rightarrow> bool" where
  "ss_is_inline r = (case r of SInline _ \<Rightarrow> True | SSpilled _ \<Rightarrow> False)"

definition ss_len :: "('s, 'a) iset_api \<Rightarrow> ('s, 'a) set_repr \<Rightarrow> nat" where
  "ss_len I r = (case r of SInline v \<Rightarrow> length v | SSpilled s \<Rightarrow> length (is_iter I s))"

definition ss_is_empty :: "('s, 'a) iset_api \<Rightarrow> ('s, 'a) set_repr \<Rightarrow> bool" where
  "ss_is_empty I r \<longleftrightarrow> ss_len I r = 0"

definition ss_clear :: "('s, 'a) iset_api \<Rightarrow> ('s, 'a) set_repr \<Rightarrow> ('s, 'a) set_repr" where
  "ss_clear I r = (case r of SInline v \<Rightarrow> SInline [] | SSpilled s \<Rightarrow> SSpilled (is_clear I s))"

definition ss_retain ::
    "('s, 'a) iset_api \<Rightarrow> ('s, 'a) set_repr \<Rightarrow> ('a \<Rightarrow> bool) \<Rightarrow> ('s, 'a) set_repr"
where
  "ss_retain I r f =
     (case r of SInline v \<Rightarrow> SInline (filter f v) | SSpilled s \<Rightarrow> SSpilled (is_retain I s f))"

definition ss_iter :: "('s, 'a) iset_api \<Rightarrow> ('s, 'a) set_repr \<Rightarrow> 'a list" where
  "ss_iter I r = (case r of SInline v \<Rightarrow> v | SSpilled s \<Rightarrow> is_iter I s)"

fun promote_set :: "('s, 'a) iset_api \<Rightarrow> 'a list \<Rightarrow> 's \<Rightarrow> 's" where
  "promote_set I [] s = s"
| "promote_set I (x # rest) s = promote_set I rest (snd (is_insert I s x))"

definition ss_promote :: "('s, 'a) iset_api \<Rightarrow> 'a list \<Rightarrow> 's" where
  "ss_promote I inline = promote_set I inline (is_new I)"

definition ss_insert ::
    "('s, 'a) iset_api \<Rightarrow> nat \<Rightarrow> ('s, 'a) set_repr \<Rightarrow> 'a \<Rightarrow> bool \<times> ('s, 'a) set_repr"
where
  "ss_insert I N r x =
     (case r of
        SInline v \<Rightarrow>
          if x \<in> set v then (False, SInline v)
          else if length v < N then (True, SInline (v @ [x]))
          else (let (inserted, s) = is_insert I (ss_promote I v) x in (inserted, SSpilled s))
      | SSpilled s \<Rightarrow> (let (inserted, s) = is_insert I s x in (inserted, SSpilled s)))"

definition ss_contains :: "('s, 'a) iset_api \<Rightarrow> ('s, 'a) set_repr \<Rightarrow> 'a \<Rightarrow> bool" where
  "ss_contains I r x =
     (case r of SInline v \<Rightarrow> list_ex (\<lambda>y. x = y) v | SSpilled s \<Rightarrow> is_contains I s x)"

definition ss_remove ::
    "('s, 'a) iset_api \<Rightarrow> ('s, 'a) set_repr \<Rightarrow> 'a \<Rightarrow> bool \<times> ('s, 'a) set_repr"
where
  "ss_remove I r x =
     (case r of
        SInline v \<Rightarrow>
          (case position (\<lambda>y. x = y) v of
             Some i \<Rightarrow> (True, SInline (swap_remove_at i v))
           | None \<Rightarrow> (False, SInline v))
      | SSpilled s \<Rightarrow> (let (removed, s) = is_swap_remove I s x in (removed, SSpilled s)))"

fun ss_extend ::
    "('s, 'a) iset_api \<Rightarrow> nat \<Rightarrow> ('s, 'a) set_repr \<Rightarrow> 'a list \<Rightarrow> ('s, 'a) set_repr"
where
  "ss_extend I N r [] = r"
| "ss_extend I N r (x # rest) = ss_extend I N (snd (ss_insert I N r x)) rest"

definition ss_from_iter :: "('s, 'a) iset_api \<Rightarrow> nat \<Rightarrow> 'a list \<Rightarrow> ('s, 'a) set_repr" where
  "ss_from_iter I N xs = ss_extend I N ss_default xs"

definition ss_eq :: "('s, 'a) iset_api \<Rightarrow> ('s, 'a) set_repr \<Rightarrow> ('s, 'a) set_repr \<Rightarrow> bool" where
  "ss_eq I a b \<longleftrightarrow> ss_len I a = ss_len I b \<and> list_all (ss_contains I b) (ss_iter I a)"


section \<open>What the crate promises\<close>

locale imap =
  fixes I :: "('m, 'k, 'v) imap_api" and ok :: "'m \<Rightarrow> bool"
  assumes im_new: "ok (im_new I)" "im_iter I (im_new I) = []"
    and im_distinct: "ok m \<Longrightarrow> distinct (map fst (im_iter I m))"
    and im_insert: "ok m \<Longrightarrow> fst (im_insert I m k v) = map_of (im_iter I m) k"
      "ok m \<Longrightarrow> ok (snd (im_insert I m k v))"
      "ok m \<Longrightarrow> im_iter I (snd (im_insert I m k v)) = AList.update k v (im_iter I m)"
    and im_get: "ok m \<Longrightarrow> im_get I m k = map_of (im_iter I m) k"
    and im_get_mut: "ok m \<Longrightarrow> map_option fst (im_get_mut I m k) = map_of (im_iter I m) k"
      "ok m \<Longrightarrow> im_get_mut I m k = Some (v, write) \<Longrightarrow>
         ok (write w) \<and> im_iter I (write w) = AList.update k w (im_iter I m)"
    and im_get_index_mut: "ok m \<Longrightarrow> i < length (im_iter I m) \<Longrightarrow>
         map_option fst (im_get_index_mut I m i) = Some (snd (im_iter I m ! i))"
      "ok m \<Longrightarrow> im_get_index_mut I m i = Some (v, write) \<Longrightarrow>
         ok (write w) \<and> im_iter I (write w) = (im_iter I m)[i := (fst (im_iter I m ! i), w)]"
    and im_swap_remove: "ok m \<Longrightarrow> fst (im_swap_remove I m k) = map_of (im_iter I m) k"
      "ok m \<Longrightarrow> ok (snd (im_swap_remove I m k))"
      "ok m \<Longrightarrow> im_iter I (snd (im_swap_remove I m k)) = al_swap_remove k (im_iter I m)"
    and im_retain: "ok m \<Longrightarrow> ok (im_retain I m f)"
      "ok m \<Longrightarrow> im_iter I (im_retain I m f) = al_retain f (im_iter I m)"
    and im_clear: "ok m \<Longrightarrow> ok (im_clear I m)" "ok m \<Longrightarrow> im_iter I (im_clear I m) = []"

locale iset =
  fixes I :: "('s, 'a) iset_api" and ok :: "'s \<Rightarrow> bool"
  assumes is_new: "ok (is_new I)" "is_iter I (is_new I) = []"
    and is_distinct: "ok s \<Longrightarrow> distinct (is_iter I s)"
    and is_insert: "ok s \<Longrightarrow> fst (is_insert I s x) \<longleftrightarrow> x \<notin> set (is_iter I s)"
      "ok s \<Longrightarrow> ok (snd (is_insert I s x))"
      "ok s \<Longrightarrow> is_iter I (snd (is_insert I s x)) = ls_insert x (is_iter I s)"
    and is_contains: "ok s \<Longrightarrow> is_contains I s x \<longleftrightarrow> x \<in> set (is_iter I s)"
    and is_swap_remove: "ok s \<Longrightarrow> fst (is_swap_remove I s x) \<longleftrightarrow> x \<in> set (is_iter I s)"
      "ok s \<Longrightarrow> ok (snd (is_swap_remove I s x))"
      "ok s \<Longrightarrow> is_iter I (snd (is_swap_remove I s x)) = ls_swap_remove x (is_iter I s)"
    and is_retain: "ok s \<Longrightarrow> ok (is_retain I s f)"
      "ok s \<Longrightarrow> is_iter I (is_retain I s f) = filter f (is_iter I s)"
    and is_clear: "ok s \<Longrightarrow> ok (is_clear I s)" "ok s \<Longrightarrow> is_iter I (is_clear I s) = []"

section \<open>Sequences of operations\<close>

text \<open>
  What a client can do with a map, with the value it sees: \<open>SmWrite\<close> assigns through \<open>get_mut\<close>,
  \<open>SmOrInsert\<close> updates through \<open>entry(k).or_insert(d)\<close>, \<open>SmEntryRemove\<close> removes an occupied entry.
\<close>

datatype ('k, 'v) sm_cmd =
    SmInsert 'k 'v
  | SmRemove 'k
  | SmGet 'k
  | SmClear
  | SmRetain "'k \<Rightarrow> 'v \<Rightarrow> bool \<times> 'v"
  | SmWrite 'k 'v
  | SmOrInsert 'k 'v "'v \<Rightarrow> 'v"
  | SmEntryRemove 'k

fun sm_exec ::
    "('m, 'k, 'v) imap_api \<Rightarrow> nat \<Rightarrow> ('m, 'k, 'v) map_repr \<Rightarrow> ('k, 'v) sm_cmd
      \<Rightarrow> 'v option \<times> ('m, 'k, 'v) map_repr"
where
  "sm_exec I N r (SmInsert k v) = sm_insert I N r k v"
| "sm_exec I N r (SmRemove k) = sm_remove I r k"
| "sm_exec I N r (SmGet k) = (sm_get I r k, r)"
| "sm_exec I N r SmClear = (None, sm_clear I r)"
| "sm_exec I N r (SmRetain f) = (None, sm_retain I r f)"
| "sm_exec I N r (SmWrite k w) =
     (case sm_get_mut I r k of Some (v, write) \<Rightarrow> (Some v, write w) | None \<Rightarrow> (None, r))"
| "sm_exec I N r (SmOrInsert k d f) =
     (case entry_or_insert I N (sm_entry I r k) d of
        Some (v, write) \<Rightarrow> (Some v, write (f v)) | None \<Rightarrow> (None, r))"
| "sm_exec I N r (SmEntryRemove k) =
     (case occupied_remove I (sm_entry I r k) of Some x \<Rightarrow> x | None \<Rightarrow> (None, r))"

fun al_exec :: "('k \<times> 'v) list \<Rightarrow> ('k, 'v) sm_cmd \<Rightarrow> 'v option \<times> ('k \<times> 'v) list" where
  "al_exec xs (SmInsert k v) = (map_of xs k, AList.update k v xs)"
| "al_exec xs (SmRemove k) = (map_of xs k, al_swap_remove k xs)"
| "al_exec xs (SmGet k) = (map_of xs k, xs)"
| "al_exec xs SmClear = (None, [])"
| "al_exec xs (SmRetain f) = (None, al_retain f xs)"
| "al_exec xs (SmWrite k w) =
     (map_of xs k, if map_of xs k = None then xs else AList.update k w xs)"
| "al_exec xs (SmOrInsert k d f) =
     (let v = (case map_of xs k of None \<Rightarrow> d | Some v \<Rightarrow> v) in (Some v, AList.update k (f v) xs))"
| "al_exec xs (SmEntryRemove k) = (map_of xs k, al_swap_remove k xs)"

fun run_cmds :: "('r \<Rightarrow> 'c \<Rightarrow> 'o \<times> 'r) \<Rightarrow> 'r \<Rightarrow> 'c list \<Rightarrow> 'o list \<times> 'r" where
  "run_cmds step r [] = ([], r)"
| "run_cmds step r (c # cs) =
     (let (out, r) = step r c; (outs, r) = run_cmds step r cs in (out # outs, r))"

datatype 'a ss_cmd = SsInsert 'a | SsRemove 'a | SsContains 'a | SsClear | SsRetain "'a \<Rightarrow> bool"

fun ss_exec ::
    "('s, 'a) iset_api \<Rightarrow> nat \<Rightarrow> ('s, 'a) set_repr \<Rightarrow> 'a ss_cmd \<Rightarrow> bool \<times> ('s, 'a) set_repr"
where
  "ss_exec I N r (SsInsert x) = ss_insert I N r x"
| "ss_exec I N r (SsRemove x) = ss_remove I r x"
| "ss_exec I N r (SsContains x) = (ss_contains I r x, r)"
| "ss_exec I N r SsClear = (True, ss_clear I r)"
| "ss_exec I N r (SsRetain f) = (True, ss_retain I r f)"

fun ls_exec :: "'a list \<Rightarrow> 'a ss_cmd \<Rightarrow> bool \<times> 'a list" where
  "ls_exec xs (SsInsert x) = (x \<notin> set xs, ls_insert x xs)"
| "ls_exec xs (SsRemove x) = (x \<in> set xs, ls_swap_remove x xs)"
| "ls_exec xs (SsContains x) = (x \<in> set xs, xs)"
| "ls_exec xs SsClear = (True, [])"
| "ls_exec xs (SsRetain f) = (True, filter f xs)"

text \<open>Both contracts can be kept: tables that are the lists of their entries.\<close>

definition list_imap :: "(('k \<times> 'v) list, 'k, 'v) imap_api" where
  "list_imap =
     \<lparr>im_new = [],
      im_insert = (\<lambda>m k v. (map_of m k, AList.update k v m)),
      im_get = map_of,
      im_get_mut = (\<lambda>m k. map_option (\<lambda>v. (v, \<lambda>w. AList.update k w m)) (map_of m k)),
      im_get_index_mut = (\<lambda>m i.
        if i < length m then Some (snd (m ! i), \<lambda>w. m[i := (fst (m ! i), w)]) else None),
      im_swap_remove = (\<lambda>m k. (map_of m k, al_swap_remove k m)),
      im_retain = (\<lambda>m f. al_retain f m),
      im_clear = (\<lambda>_. []),
      im_iter = (\<lambda>m. m)\<rparr>"

definition list_iset :: "('a list, 'a) iset_api" where
  "list_iset =
     \<lparr>is_new = [],
      is_insert = (\<lambda>s x. (x \<notin> set s, ls_insert x s)),
      is_contains = (\<lambda>s x. x \<in> set s),
      is_swap_remove = (\<lambda>s x. (x \<in> set s, ls_swap_remove x s)),
      is_retain = (\<lambda>s f. filter f s),
      is_clear = (\<lambda>_. []),
      is_iter = (\<lambda>s. s)\<rparr>"

section \<open>Facts on insertion-ordered lists\<close>

lemma swap_remove_split:
  "swap_remove_at (length ys) (ys @ x # zs) = ys @ (case rev zs of [] \<Rightarrow> [] | z # r \<Rightarrow> z # rev r)"
proof (cases zs rule: rev_cases)
  case (snoc us z)
  then show ?thesis by (simp add: swap_remove_at_def butlast_append)
qed (simp add: swap_remove_at_def)

lemma position_split:
  assumes "position P xs = Some i"
  shows "\<exists>ys x zs. xs = ys @ x # zs \<and> length ys = i \<and> P x \<and> (\<forall>y \<in> set ys. \<not> P y)"
proof -
  have i: "i < length xs" "P (xs ! i)" "\<forall>j<i. \<not> P (xs ! j)" using assms by (auto simp: position_Some)
  have "xs = take i xs @ xs ! i # drop (Suc i) xs" by (rule id_take_nth_drop[OF i(1)])
  moreover have "\<forall>y \<in> set (take i xs). \<not> P y" using i by (auto simp: in_set_conv_nth)
  ultimately show ?thesis using i by (intro exI[of _ "take i xs"]) auto
qed

lemma set_swap_remove_mset:
  "i < length xs \<Longrightarrow> mset (swap_remove_at i xs) = mset xs - {#xs ! i#}"
proof -
  assume i: "i < length xs"
  let ?ys = "take i xs" and ?zs = "drop (Suc i) xs"
  have x: "xs = ?ys @ xs ! i # ?zs" by (rule id_take_nth_drop[OF i])
  have l: "length ?ys = i" using i by simp
  have "swap_remove_at i xs = ?ys @ (case rev ?zs of [] \<Rightarrow> [] | z # r \<Rightarrow> z # rev r)"
    using swap_remove_split[of ?ys "xs ! i" ?zs] x l by metis
  moreover have "mset (case rev ?zs of [] \<Rightarrow> [] | z # r \<Rightarrow> z # rev r) = mset ?zs"
    by (cases "rev ?zs") (simp, metis list.simps(5) mset.simps(2) mset_rev)
  ultimately have "mset (swap_remove_at i xs) = mset ?ys + mset ?zs" by simp
  moreover have "mset xs = mset ?ys + mset ?zs + {#xs ! i#}" by (subst x) simp
  ultimately show ?thesis by simp
qed

lemma position_key_None: "position (\<lambda>e. fst e = k) xs = None \<longleftrightarrow> map_of xs k = None"
  by (auto simp: position_None map_of_eq_None_iff)

lemma position_key_Some:
  "position (\<lambda>e. fst e = k) xs = Some i \<Longrightarrow>
     i < length xs \<and> fst (xs ! i) = k \<and> map_of xs k = Some (snd (xs ! i))
       \<and> xs[i := (k, w)] = AList.update k w xs"
proof (induction xs arbitrary: i)
  case (Cons e xs)
  show ?case
  proof (cases "fst e = k")
    case True
    then show ?thesis using Cons.prems by (cases e) auto
  next
    case False
    then obtain j where "position (\<lambda>e. fst e = k) xs = Some j" "i = Suc j" using Cons.prems by auto
    then show ?thesis using Cons.IH[of j] False by (cases e) auto
  qed
qed simp

lemma update_new_key: "map_of xs k = None \<Longrightarrow> AList.update k v xs = xs @ [(k, v)]"
  by (induction xs) (auto split: if_splits)

lemma find_key: "find (\<lambda>e. k = fst e) xs = map_option (Pair k) (map_of xs k)"
  by (induction xs) auto

lemma map_fst_write: "map fst (xs[i := (fst (xs ! i), w)]) = map fst xs"
proof (cases "i < length xs")
  case True
  then have "map fst xs ! i = fst (xs ! i)" by simp
  then show ?thesis by (metis fst_conv list_update_id map_update)
qed (simp add: list_update_beyond)

lemma ball_to_Suc: "(\<forall>n\<in>{1..Suc l}. P n) \<longleftrightarrow> P 1 \<and> (\<forall>n\<in>{1..l}. P (Suc n))"
proof (intro iffI ballI conjI)
  fix n
  assume P: "P 1 \<and> (\<forall>n\<in>{1..l}. P (Suc n))" and n: "n \<in> {1..Suc l}"
  then obtain m where "n = Suc m" by (cases n) auto
  then show "P n" using P n by (cases m) auto
qed auto

lemma length_update_le: "length xs \<le> length (AList.update k v xs)"
  by (induction xs) auto

lemma length_update_present: "map_of xs k \<noteq> None \<Longrightarrow> length (AList.update k v xs) = length xs"
  by (induction xs) (auto split: if_splits)

lemma length_swap_remove_at [simp]: "length (swap_remove_at i xs) = length xs - 1"
  by (simp add: swap_remove_at_def)

lemma length_al_swap_remove: "length (al_swap_remove k xs) \<le> length xs"
  by (auto simp: al_swap_remove_def split: option.split)

lemma al_swap_remove_keys:
  assumes "distinct (map fst xs)"
  shows "distinct (map fst (al_swap_remove k xs))"
    and "map_of (al_swap_remove k xs) = (map_of xs)(k := None)"
proof -
  have "distinct (map fst (al_swap_remove k xs)) \<and> map_of (al_swap_remove k xs) = (map_of xs)(k := None)"
  proof (cases "position (\<lambda>e. fst e = k) xs")
    case None
    then have "al_swap_remove k xs = xs" "map_of xs k = None"
      by (simp_all add: al_swap_remove_def flip: position_key_None)
    then show ?thesis using assms by (simp add: fun_upd_idem)
  next
    case (Some i)
    note i = position_key_Some[OF Some]
    let ?r = "swap_remove_at i xs"
    have ms: "mset ?r = mset xs - {#xs ! i#}" using i by (simp add: set_swap_remove_mset)
    have "mset xs = add_mset (xs ! i) (mset ?r)" using ms i by simp
    then have mk: "mset (map fst xs) = add_mset k (mset (map fst ?r))" using i by simp
    have st: "set xs = insert (xs ! i) (set ?r)"
      using \<open>mset xs = add_mset (xs ! i) (mset ?r)\<close> by (metis set_mset_add_mset_insert set_mset_mset)
    have d: "distinct (map fst ?r)" "k \<notin> set (map fst ?r)"
      using assms mk by (metis distinct.simps(2) mset.simps(2) mset_eq_imp_distinct_iff)+
    have "map_of ?r j = ((map_of xs)(k := None)) j" for j
    proof (cases "j = k")
      case True
      then show ?thesis using d(2) by (simp add: map_of_eq_None_iff)
    next
      case False
      have "fst (xs ! i) = k" using i by blast
      then have "xs ! i \<noteq> (j, v)" for v using False by (metis fst_conv)
      then have "(j, v) \<noteq> xs ! i" for v by metis
      then have "map_of ?r j = Some v \<longleftrightarrow> map_of xs j = Some v" for v
        using d(1) assms st by (simp add: map_of_eq_Some_iff)
      then have "map_of ?r j = map_of xs j" by (metis not_None_eq)
      then show ?thesis using False by simp
    qed
    then show ?thesis using d Some by (simp add: al_swap_remove_def fun_eq_iff)
  qed
  then show "distinct (map fst (al_swap_remove k xs))"
    and "map_of (al_swap_remove k xs) = (map_of xs)(k := None)" by blast+
qed

lemma al_retain_keys:
  assumes "distinct (map fst xs)"
  shows "distinct (map fst (al_retain f xs))"
proof -
  have "map fst (al_retain f xs) = map fst (filter (\<lambda>(k, v). fst (f k v)) xs)"
    by (auto simp: al_retain_def)
  then show ?thesis using assms by (simp add: distinct_map_filter)
qed

lemma length_al_retain: "length (al_retain f xs) \<le> length xs"
  by (simp add: al_retain_def)

lemma distinct_ls_insert: "distinct xs \<Longrightarrow> distinct (ls_insert x xs)"
  by (simp add: ls_insert_def)

lemma ls_swap_remove_set:
  assumes "distinct xs"
  shows "distinct (ls_swap_remove x xs)" and "set (ls_swap_remove x xs) = set xs - {x}"
proof -
  have "distinct (ls_swap_remove x xs) \<and> set (ls_swap_remove x xs) = set xs - {x}"
  proof (cases "position (\<lambda>y. y = x) xs")
    case None
    then have "ls_swap_remove x xs = xs" by (simp add: ls_swap_remove_def)
    then show ?thesis using None assms by (auto simp: position_None)
  next
    case (Some i)
    then have i: "i < length xs" "xs ! i = x" by (auto simp: position_Some)
    let ?r = "swap_remove_at i xs"
    have "x \<in># mset xs" using i by auto
    from insert_DiffM[OF this] have "mset xs = mset (x # ?r)"
      using set_swap_remove_mset[OF i(1)] i(2) by simp
    then have "distinct (x # ?r)" "set xs = set (x # ?r)"
      using assms mset_eq_imp_distinct_iff mset_eq_setD by blast+
    then show ?thesis using Some by (auto simp: ls_swap_remove_def)
  qed
  then show "distinct (ls_swap_remove x xs)" and "set (ls_swap_remove x xs) = set xs - {x}" by blast+
qed

interpretation li: imap list_imap "\<lambda>m. distinct (map fst m)"
  by unfold_locales
    (auto simp: list_imap_def distinct_update al_swap_remove_keys al_retain_keys
      option.map_comp o_def option.map_ident map_fst_write split: if_splits)

interpretation ls: iset list_iset distinct
  by unfold_locales
    (auto simp: list_iset_def distinct_ls_insert ls_swap_remove_set)

section \<open>The two representations cannot be told apart\<close>

definition sm_ok :: "('m \<Rightarrow> bool) \<Rightarrow> nat \<Rightarrow> ('m, 'k, 'v) map_repr \<Rightarrow> bool" where
  "sm_ok ok N r =
     (case r of MInline v \<Rightarrow> distinct (map fst v) \<and> length v \<le> N | MSpilled m \<Rightarrow> ok m)"

definition ss_ok :: "('s \<Rightarrow> bool) \<Rightarrow> nat \<Rightarrow> ('s, 'a) set_repr \<Rightarrow> bool" where
  "ss_ok ok N r =
     (case r of SInline v \<Rightarrow> distinct v \<and> length v \<le> N | SSpilled s \<Rightarrow> ok s)"

context imap
begin

lemma promote_iter:
  "ok m \<Longrightarrow> ok (promote I xs m) \<and> im_iter I (promote I xs m) = fold (\<lambda>(k, v). AList.update k v) xs (im_iter I m)"
  by (induction xs arbitrary: m) (auto simp: im_insert)

lemma fold_update_fresh:
  "distinct (map fst (ys @ xs)) \<Longrightarrow> fold (\<lambda>(k, v). AList.update k v) xs ys = ys @ xs"
proof (induction xs arbitrary: ys)
  case (Cons e xs)
  obtain k v where e: "e = (k, v)" by (cases e)
  have "map_of ys k = None" using Cons.prems e by (auto simp: map_of_eq_None_iff)
  then show ?case using Cons.IH[of "ys @ [e]"] Cons.prems e by (simp add: update_new_key)
qed simp

lemma sm_promote_iter:
  "distinct (map fst xs) \<Longrightarrow> ok (sm_promote I xs) \<and> im_iter I (sm_promote I xs) = xs"
  using promote_iter[OF im_new(1), of xs] fold_update_fresh[of "[]" xs]
  by (simp add: sm_promote_def im_new)

lemma iter_distinct: "sm_ok ok N r \<Longrightarrow> distinct (map fst (sm_iter I r))"
  by (cases r) (auto simp: sm_ok_def sm_iter_def im_distinct)

lemma insert_sim:
  assumes r: "sm_ok ok N r"
  shows "fst (sm_insert I N r k v) = map_of (sm_iter I r) k"
    and "sm_ok ok N (snd (sm_insert I N r k v))"
    and "sm_iter I (snd (sm_insert I N r k v)) = AList.update k v (sm_iter I r)"
    and "sm_is_inline (snd (sm_insert I N r k v))
      \<longleftrightarrow> sm_is_inline r \<and> length (AList.update k v (sm_iter I r)) \<le> N"
proof -
  have "fst (sm_insert I N r k v) = map_of (sm_iter I r) k
      \<and> sm_ok ok N (snd (sm_insert I N r k v))
      \<and> sm_iter I (snd (sm_insert I N r k v)) = AList.update k v (sm_iter I r)
      \<and> (sm_is_inline (snd (sm_insert I N r k v))
        \<longleftrightarrow> sm_is_inline r \<and> length (AList.update k v (sm_iter I r)) \<le> N)"
  proof (cases r)
    case (MInline xs)
    have d: "distinct (map fst xs)" "length xs \<le> N" using r MInline by (auto simp: sm_ok_def)
    show ?thesis
    proof (cases "position (\<lambda>e. fst e = k) xs")
      case None
      then have m: "map_of xs k = None" by (simp add: position_key_None)
      then have u: "AList.update k v xs = xs @ [(k, v)]" by (rule update_new_key)
      have n: "k \<notin> fst ` set xs" using m by (simp add: map_of_eq_None_iff)
      obtain old m' where m': "im_insert I (sm_promote I xs) k v = (old, m')"
        by (cases "im_insert I (sm_promote I xs) k v")
      have "old = None" "ok m'" "im_iter I m' = xs @ [(k, v)]"
        using sm_promote_iter[OF d(1)] im_insert[of "sm_promote I xs" k v] m' m u by simp_all
      then show ?thesis
        using None MInline m u n d m'
        by (auto simp: sm_insert_def sm_iter_def sm_ok_def sm_is_inline_def)
    next
      case (Some i)
      note i = position_key_Some[OF Some]
      have u: "xs[i := (k, v)] = AList.update k v xs" "length (AList.update k v xs) = length xs"
        using i by (auto, metis length_list_update)
      show ?thesis
        using Some MInline d i u
        by (auto simp: sm_insert_def sm_iter_def sm_ok_def sm_is_inline_def distinct_update)
    qed
  next
    case (MSpilled m)
    then show ?thesis
      using r im_insert[of m k v]
      by (cases "im_insert I m k v") (simp add: sm_insert_def sm_iter_def sm_ok_def sm_is_inline_def)
  qed
  then show "fst (sm_insert I N r k v) = map_of (sm_iter I r) k"
    and "sm_ok ok N (snd (sm_insert I N r k v))"
    and "sm_iter I (snd (sm_insert I N r k v)) = AList.update k v (sm_iter I r)"
    and "sm_is_inline (snd (sm_insert I N r k v))
      \<longleftrightarrow> sm_is_inline r \<and> length (AList.update k v (sm_iter I r)) \<le> N" by blast+
qed

lemma get_sim: "sm_ok ok N r \<Longrightarrow> sm_get I r k = map_of (sm_iter I r) k"
  by (cases r) (auto simp: sm_get_def sm_iter_def sm_ok_def find_key im_get option.map_comp o_def option.map_ident)

lemma remove_sim:
  assumes r: "sm_ok ok N r"
  shows "fst (sm_remove I r k) = map_of (sm_iter I r) k
    \<and> sm_ok ok N (snd (sm_remove I r k))
    \<and> sm_iter I (snd (sm_remove I r k)) = al_swap_remove k (sm_iter I r)
    \<and> sm_is_inline (snd (sm_remove I r k)) = sm_is_inline r"
proof (cases r)
  case (MInline xs)
  have e: "(\<lambda>e. k = fst e) = (\<lambda>e. fst e = k)" by (simp add: fun_eq_iff eq_commute)
  have d: "distinct (map fst xs)" "length xs \<le> N" using r MInline by (auto simp: sm_ok_def)
  show ?thesis
  proof (cases "position (\<lambda>e. fst e = k) xs")
    case None
    then have "al_swap_remove k xs = xs" "map_of xs k = None"
      by (simp_all add: al_swap_remove_def flip: position_key_None)
    then show ?thesis
      using None MInline d
      by (simp add: sm_remove_def sm_iter_def sm_ok_def sm_is_inline_def e)
  next
    case (Some i)
    have a: "al_swap_remove k xs = swap_remove_at i xs" using Some by (simp add: al_swap_remove_def)
    show ?thesis
      using Some MInline d position_key_Some[OF Some] al_swap_remove_keys(1)[OF d(1), of k]
      by (simp add: sm_remove_def sm_iter_def sm_ok_def sm_is_inline_def e a)
  qed
next
  case (MSpilled m)
  then show ?thesis
    using r im_swap_remove[of m k]
    by (cases "im_swap_remove I m k") (simp add: sm_remove_def sm_iter_def sm_ok_def sm_is_inline_def)
qed

lemma retain_inline:
  "concat (map (\<lambda>(k, x). let (keep, x) = f k x in if keep then [(k, x)] else []) v) = al_retain f v"
  by (induction v) (auto simp: al_retain_def split: prod.split)

lemma retain_sim:
  assumes "sm_ok ok N r"
  shows "sm_ok ok N (sm_retain I r f) \<and> sm_iter I (sm_retain I r f) = al_retain f (sm_iter I r)
    \<and> sm_is_inline (sm_retain I r f) = sm_is_inline r"
proof (cases r)
  case (MInline xs)
  have "sm_retain I r f = MInline (al_retain f xs)"
    unfolding MInline sm_retain_def map_repr.case retain_inline ..
  then show ?thesis
    using assms MInline le_trans[OF length_al_retain, of xs N f]
    by (simp add: sm_ok_def sm_iter_def sm_is_inline_def al_retain_keys)
next
  case (MSpilled m)
  then show ?thesis
    using assms by (simp add: sm_retain_def sm_ok_def sm_iter_def sm_is_inline_def im_retain)
qed

lemma clear_sim:
  assumes "sm_ok ok N r"
  shows "sm_ok ok N (sm_clear I r) \<and> sm_iter I (sm_clear I r) = []
    \<and> sm_is_inline (sm_clear I r) = sm_is_inline r"
  using assms
  by (cases r) (auto simp: sm_clear_def sm_ok_def sm_iter_def sm_is_inline_def im_clear)

lemma spilled_mut:
  assumes "ok m"
  shows "im_get_mut I m k = None \<longleftrightarrow> map_of (im_iter I m) k = None"
    and "im_get_mut I m k = Some (v, write) \<Longrightarrow> map_of (im_iter I m) k = Some v"
  using im_get_mut(1)[OF assms, of k] by auto

lemma get_mut_sim:
  assumes r: "sm_ok ok N r"
  shows "sm_get_mut I r k = None \<longleftrightarrow> map_of (sm_iter I r) k = None"
    and "sm_get_mut I r k = Some (v, write) \<Longrightarrow>
      map_of (sm_iter I r) k = Some v \<and> sm_ok ok N (write w)
      \<and> sm_iter I (write w) = AList.update k w (sm_iter I r) \<and> sm_is_inline (write w) = sm_is_inline r"
proof -
  have "(sm_get_mut I r k = None \<longleftrightarrow> map_of (sm_iter I r) k = None)
    \<and> (sm_get_mut I r k = Some (v, write) \<longrightarrow>
      map_of (sm_iter I r) k = Some v \<and> sm_ok ok N (write w)
      \<and> sm_iter I (write w) = AList.update k w (sm_iter I r) \<and> sm_is_inline (write w) = sm_is_inline r)"
  proof (cases r)
    case (MInline xs)
    have e: "(\<lambda>e. k = fst e) = (\<lambda>e. fst e = k)" by (simp add: fun_eq_iff eq_commute)
    have d: "distinct (map fst xs)" "length xs \<le> N" using r MInline by (auto simp: sm_ok_def)
    show ?thesis
    proof (cases "position (\<lambda>e. fst e = k) xs")
      case None
      then show ?thesis
        using MInline position_key_None[of k xs] by (simp add: sm_get_mut_def sm_iter_def e)
    next
      case (Some i)
      have "length (AList.update k w xs) = length xs"
        using position_key_Some[OF Some, of w] by (metis length_list_update)
      then show ?thesis
        using Some MInline d position_key_Some[OF Some]
        by (auto simp: sm_get_mut_def sm_iter_def sm_ok_def sm_is_inline_def e distinct_update)
    qed
  next
    case (MSpilled m)
    then have m: "ok m" using r by (simp add: sm_ok_def)
    show ?thesis
    proof (cases "im_get_mut I m k")
      case None
      then show ?thesis using MSpilled spilled_mut(1)[OF m, of k] by (simp add: sm_get_mut_def sm_iter_def)
    next
      case (Some p)
      obtain x wr where p: "p = (x, wr)" by (cases p)
      then show ?thesis
        using Some MSpilled spilled_mut[OF m] im_get_mut(2)[OF m, of k x wr w]
        by (auto simp: sm_get_mut_def sm_iter_def sm_ok_def sm_is_inline_def)
    qed
  qed
  then show "sm_get_mut I r k = None \<longleftrightarrow> map_of (sm_iter I r) k = None"
    and "sm_get_mut I r k = Some (v, write) \<Longrightarrow>
      map_of (sm_iter I r) k = Some v \<and> sm_ok ok N (write w)
      \<and> sm_iter I (write w) = AList.update k w (sm_iter I r) \<and> sm_is_inline (write w) = sm_is_inline r"
    by blast+
qed

text \<open>An occupied entry is \<open>get_mut\<close> at its key, and its removal is \<open>remove\<close>.\<close>

lemma entry_occupied:
  assumes r: "sm_ok ok N r" and k: "map_of (sm_iter I r) k \<noteq> None"
  shows "entry_or_insert I N (sm_entry I r k) d = sm_get_mut I r k"
    and "occupied_remove I (sm_entry I r k) = Some (sm_remove I r k)"
proof -
  have e: "(\<lambda>e. k = fst e) = (\<lambda>e. fst e = k)" by (simp add: fun_eq_iff eq_commute)
  have "entry_or_insert I N (sm_entry I r k) d = sm_get_mut I r k
      \<and> occupied_remove I (sm_entry I r k) = Some (sm_remove I r k)"
  proof (cases r)
    case (MInline xs)
    then obtain i where i: "position (\<lambda>e. fst e = k) xs = Some i"
      using k position_key_None[of k xs] by (cases "position (\<lambda>e. fst e = k) xs") (auto simp: sm_iter_def)
    then show ?thesis
      using MInline
      by (simp add: entry_or_insert_def sm_entry_def occupied_into_mut_def sm_get_mut_def
          occupied_remove_def sm_remove_def e)
  next
    case (MSpilled m)
    then have "im_get I m k \<noteq> None" using r k by (simp add: sm_ok_def sm_iter_def im_get)
    then show ?thesis
      using MSpilled
      by (auto simp: entry_or_insert_def sm_entry_def occupied_into_mut_def sm_get_mut_def
          occupied_remove_def sm_remove_def split: prod.split)
  qed
  then show "entry_or_insert I N (sm_entry I r k) d = sm_get_mut I r k"
    and "occupied_remove I (sm_entry I r k) = Some (sm_remove I r k)" by blast+
qed

lemma entry_vacant:
  assumes r: "sm_ok ok N r" and k: "map_of (sm_iter I r) k = None"
  shows "\<exists>write. entry_or_insert I N (sm_entry I r k) d = Some (d, write)
      \<and> (\<forall>w. sm_ok ok N (write w) \<and> sm_iter I (write w) = AList.update k w (sm_iter I r)
        \<and> (sm_is_inline (write w) \<longleftrightarrow> sm_is_inline r \<and> length (AList.update k w (sm_iter I r)) \<le> N))"
    and "occupied_remove I (sm_entry I r k) = None"
proof -
  have upd2: "AList.update k w (AList.update k d xs) = AList.update k w xs" for w and xs :: "('k \<times> 'v) list"
    by (induction xs) auto
  have "(\<exists>write. entry_or_insert I N (sm_entry I r k) d = Some (d, write)
      \<and> (\<forall>w. sm_ok ok N (write w) \<and> sm_iter I (write w) = AList.update k w (sm_iter I r)
        \<and> (sm_is_inline (write w) \<longleftrightarrow> sm_is_inline r \<and> length (AList.update k w (sm_iter I r)) \<le> N)))
      \<and> occupied_remove I (sm_entry I r k) = None"
  proof (cases r)
    case (MInline xs)
    have d: "distinct (map fst xs)" "length xs \<le> N" using r MInline by (auto simp: sm_ok_def)
    have m: "map_of xs k = None" using k MInline by (simp add: sm_iter_def)
    then have n: "k \<notin> fst ` set xs" "position (\<lambda>e. fst e = k) xs = None"
      by (auto simp: map_of_eq_None_iff position_key_None)
    note u = update_new_key[OF m]
    show ?thesis
    proof (cases "length xs \<ge> N")
      case False
      then show ?thesis
        using MInline d n u
        by (auto simp: entry_or_insert_def sm_entry_def vacant_insert_def occupied_remove_def
            sm_ok_def sm_iter_def sm_is_inline_def)
    next
      case True
      define m' where "m' = snd (im_insert I (sm_promote I xs) k d)"
      have m': "ok m'" "im_iter I m' = xs @ [(k, d)]"
        using sm_promote_iter[OF d(1)] im_insert[of "sm_promote I xs" k d] u by (simp_all add: m'_def)
      obtain x wr where g: "im_get_index_mut I m' (length xs) = Some (x, wr)" "x = d"
        using im_get_index_mut(1)[OF m'(1), of "length xs"] m'(2) by (auto simp: nth_append)
      have w: "ok (wr w) \<and> im_iter I (wr w) = xs @ [(k, w)]" for w
        using im_get_index_mut(2)[OF m'(1) g(1), of w] m'(2) by (simp add: nth_append)
      show ?thesis
        using True MInline n u g w m'(2)
        by (auto simp: entry_or_insert_def sm_entry_def vacant_insert_def occupied_remove_def
            sm_ok_def sm_iter_def sm_is_inline_def m'_def[symmetric] Let_def)
    qed
  next
    case (MSpilled m)
    have m: "ok m" "map_of (im_iter I m) k = None"
      using r k MSpilled by (simp_all add: sm_ok_def sm_iter_def)
    define m' where "m' = snd (im_insert I m k d)"
    have m': "ok m'" "im_iter I m' = AList.update k d (im_iter I m)"
      using im_insert[OF m(1), of k d] by (simp_all add: m'_def)
    obtain x wr where g: "im_get_mut I m' k = Some (x, wr)" "x = d"
      using im_get_mut(1)[OF m'(1), of k] m'(2) by (auto simp: update_conv)
    have w: "ok (wr w) \<and> im_iter I (wr w) = AList.update k w (im_iter I m)" for w
      using im_get_mut(2)[OF m'(1) g(1), of w] m'(2) upd2 by simp
    show ?thesis
      using MSpilled m g w im_get[OF m(1), of k]
      by (auto simp: entry_or_insert_def sm_entry_def vacant_insert_def occupied_remove_def
          sm_ok_def sm_iter_def sm_is_inline_def m'_def[symmetric])
  qed
  then show "\<exists>write. entry_or_insert I N (sm_entry I r k) d = Some (d, write)
      \<and> (\<forall>w. sm_ok ok N (write w) \<and> sm_iter I (write w) = AList.update k w (sm_iter I r)
        \<and> (sm_is_inline (write w) \<longleftrightarrow> sm_is_inline r \<and> length (AList.update k w (sm_iter I r)) \<le> N))"
    and "occupied_remove I (sm_entry I r k) = None" by blast+
qed

lemma exec_sim:
  assumes r: "sm_ok ok N r"
  shows "fst (sm_exec I N r c) = fst (al_exec (sm_iter I r) c)
    \<and> sm_ok ok N (snd (sm_exec I N r c))
    \<and> sm_iter I (snd (sm_exec I N r c)) = snd (al_exec (sm_iter I r) c)
    \<and> (sm_is_inline (snd (sm_exec I N r c))
      \<longleftrightarrow> sm_is_inline r \<and> length (snd (al_exec (sm_iter I r) c)) \<le> N)"
proof -
  have len: "sm_is_inline r \<Longrightarrow> length (sm_iter I r) \<le> N"
    using r by (cases r) (auto simp: sm_ok_def sm_iter_def sm_is_inline_def)
  have absent: "al_swap_remove k (sm_iter I r) = sm_iter I r" if "map_of (sm_iter I r) k = None" for k
    using that by (simp add: al_swap_remove_def flip: position_key_None)
  have same_length: "length (AList.update k w (sm_iter I r)) = length (sm_iter I r)"
    if "map_of (sm_iter I r) k = Some v" for k v w
    using that by (simp add: length_update_present)
  show ?thesis
  proof (cases c)
    case (SmInsert k v)
    then show ?thesis using insert_sim[OF r, of k v] by simp
  next
    case (SmRemove k)
    then show ?thesis
      using remove_sim[OF r, of k] len le_trans[OF length_al_swap_remove] by auto
  next
    case (SmGet k)
    then show ?thesis using r get_sim[OF r, of k] len by auto
  next
    case SmClear
    then show ?thesis using clear_sim[OF r] by simp
  next
    case (SmRetain f)
    then show ?thesis using retain_sim[OF r, of f] len le_trans[OF length_al_retain] by auto
  next
    case (SmWrite k w)
    show ?thesis
    proof (cases "sm_get_mut I r k")
      case None
      then show ?thesis using SmWrite get_mut_sim(1)[OF r, of k] r len by auto
    next
      case (Some p)
      then obtain v wr where "sm_get_mut I r k = Some (v, wr)" by (cases p) simp
      then show ?thesis
        using SmWrite get_mut_sim(2)[OF r, of k v wr w] len same_length[of k v w] by auto
    qed
  next
    case (SmOrInsert k d f)
    show ?thesis
    proof (cases "map_of (sm_iter I r) k")
      case None
      then show ?thesis using SmOrInsert entry_vacant(1)[OF r None, of d] by auto
    next
      case (Some v)
      then have m: "map_of (sm_iter I r) k \<noteq> None" by simp
      then obtain x wr where g: "sm_get_mut I r k = Some (x, wr)"
        using get_mut_sim(1)[OF r, of k] by (cases "sm_get_mut I r k") auto
      then have "x = v" using get_mut_sim(2)[OF r g] Some by simp
      then show ?thesis
        using SmOrInsert entry_occupied(1)[OF r m, of d] g get_mut_sim(2)[OF r g, of "f v"] Some
          len same_length[OF Some] by auto
    qed
  next
    case (SmEntryRemove k)
    show ?thesis
    proof (cases "map_of (sm_iter I r) k")
      case None
      then show ?thesis using SmEntryRemove entry_vacant(2)[OF r None] r len absent[OF None] by auto
    next
      case (Some v)
      then have m: "map_of (sm_iter I r) k \<noteq> None" by simp
      then show ?thesis
        using SmEntryRemove entry_occupied(2)[OF r m] remove_sim[OF r, of k] len
          le_trans[OF length_al_swap_remove] by auto
    qed
  qed
qed

lemma run_sim:
  assumes "sm_ok ok N r"
  shows "fst (run_cmds (sm_exec I N) r cs) = fst (run_cmds al_exec (sm_iter I r) cs)
    \<and> sm_ok ok N (snd (run_cmds (sm_exec I N) r cs))
    \<and> sm_iter I (snd (run_cmds (sm_exec I N) r cs)) = snd (run_cmds al_exec (sm_iter I r) cs)"
  using assms
proof (induction cs arbitrary: r)
  case (Cons c cs)
  have s: "fst (sm_exec I N r c) = fst (al_exec (sm_iter I r) c)
      \<and> sm_ok ok N (snd (sm_exec I N r c))
      \<and> sm_iter I (snd (sm_exec I N r c)) = snd (al_exec (sm_iter I r) c)"
    using exec_sim[OF Cons.prems] by blast
  then show ?case
    using Cons.IH[of "snd (sm_exec I N r c)"]
    by (simp add: Let_def split_beta)
qed simp

lemma run_inline:
  assumes "sm_ok ok N r"
  shows "sm_is_inline (snd (run_cmds (sm_exec I N) r cs))
    \<longleftrightarrow> sm_is_inline r \<and> (\<forall>n\<in>{1..length cs}. length (snd (run_cmds al_exec (sm_iter I r) (take n cs))) \<le> N)"
  using assms
proof (induction cs arbitrary: r)
  case (Cons c cs)
  let ?r = "snd (sm_exec I N r c)"
  let ?P = "\<lambda>n. length (snd (run_cmds al_exec (sm_iter I r) (take n (c # cs)))) \<le> N"
  let ?Q = "\<lambda>n. length (snd (run_cmds al_exec (sm_iter I ?r) (take n cs))) \<le> N"
  have s: "sm_ok ok N ?r" "sm_iter I ?r = snd (al_exec (sm_iter I r) c)"
      "sm_is_inline ?r \<longleftrightarrow> sm_is_inline r \<and> length (sm_iter I ?r) \<le> N"
    using exec_sim[OF Cons.prems, of c] by simp_all
  have P: "?P (Suc n) = ?Q n" for n using s(2) by (simp add: Let_def split_beta)
  have Q0: "?Q 0 = (length (sm_iter I ?r) \<le> N)" by simp
  have "(\<forall>n\<in>{1..length (c # cs)}. ?P n) \<longleftrightarrow> ?P 1 \<and> (\<forall>n\<in>{1..length cs}. ?P (Suc n))"
    using ball_to_Suc[of "length cs" ?P] by (simp only: list.size add_0_right add_Suc_right One_nat_def)
  then have "(\<forall>n\<in>{1..length (c # cs)}. ?P n) \<longleftrightarrow> ?Q 0 \<and> (\<forall>n\<in>{1..length cs}. ?Q n)"
    using P by (simp only: One_nat_def)
  then show ?case
    using Cons.IH[OF s(1)] s(3) Q0 by (simp add: Let_def split_beta)
qed simp

text \<open>Equality compares the maps, whatever their order and representation.\<close>

lemma eq_sim:
  assumes a: "sm_ok ok N a" and b: "sm_ok ok N' b"
  shows "sm_eq I a b \<longleftrightarrow> map_of (sm_iter I a) = map_of (sm_iter I b)"
proof -
  let ?A = "sm_iter I a" and ?B = "sm_iter I b"
  have d: "distinct (map fst ?A)" "distinct (map fst ?B)" using iter_distinct[OF a] iter_distinct[OF b] .
  have len: "sm_len I r = length (sm_iter I r)" for r
    by (cases r) (simp_all add: sm_len_def sm_iter_def)
  have all: "list_all (\<lambda>(k, v). sm_get I b k = Some v) ?A \<longleftrightarrow> map_of ?A \<subseteq>\<^sub>m map_of ?B"
    using d(1) get_sim[OF b]
    by (auto simp: list_all_iff map_le_def dom_map_of_conv_image_fst map_of_eq_Some_iff)
  have c: "card (dom (map_of ?A)) = length ?A" "card (dom (map_of ?B)) = length ?B"
    using d by (metis distinct_card dom_map_of_conv_image_fst length_map list.set_map)+
  show ?thesis
  proof
    assume "sm_eq I a b"
    then have le: "map_of ?A \<subseteq>\<^sub>m map_of ?B" and l: "length ?A = length ?B"
      using all by (simp_all add: sm_eq_def len)
    have "dom (map_of ?A) = dom (map_of ?B)"
      using card_subset_eq[OF finite_dom_map_of map_le_implies_dom_le[OF le]] c l by simp
    then show "map_of ?A = map_of ?B" using le by (simp add: map_le_antisym map_le_def)
  next
    assume "map_of ?A = map_of ?B"
    then show "sm_eq I a b" using all c by (simp add: sm_eq_def len)
  qed
qed

end


context iset
begin

lemma promote_set_iter:
  "ok s \<Longrightarrow> ok (promote_set I xs s) \<and> is_iter I (promote_set I xs s) = fold ls_insert xs (is_iter I s)"
  by (induction xs arbitrary: s) (auto simp: is_insert)

lemma fold_ls_insert_fresh: "distinct (ys @ xs) \<Longrightarrow> fold ls_insert xs ys = ys @ xs"
proof (induction xs arbitrary: ys)
  case (Cons x xs)
  then show ?case using Cons.IH[of "ys @ [x]"] by (simp add: ls_insert_def)
qed simp

lemma ss_promote_iter: "distinct xs \<Longrightarrow> ok (ss_promote I xs) \<and> is_iter I (ss_promote I xs) = xs"
  using promote_set_iter[OF is_new(1), of xs] fold_ls_insert_fresh[of "[]" xs]
  by (simp add: ss_promote_def is_new)

lemma set_insert_sim:
  assumes r: "ss_ok ok N r"
  shows "fst (ss_insert I N r x) \<longleftrightarrow> x \<notin> set (ss_iter I r)"
    and "ss_ok ok N (snd (ss_insert I N r x))"
    and "ss_iter I (snd (ss_insert I N r x)) = ls_insert x (ss_iter I r)"
proof -
  have "(fst (ss_insert I N r x) \<longleftrightarrow> x \<notin> set (ss_iter I r))
      \<and> ss_ok ok N (snd (ss_insert I N r x))
      \<and> ss_iter I (snd (ss_insert I N r x)) = ls_insert x (ss_iter I r)"
  proof (cases r)
    case (SInline xs)
    have d: "distinct xs" "length xs \<le> N" using r SInline by (auto simp: ss_ok_def)
    show ?thesis
    proof (cases "x \<in> set xs \<or> length xs < N")
      case True
      then show ?thesis
        using SInline d by (auto simp: ss_insert_def ss_iter_def ss_ok_def ls_insert_def)
    next
      case False
      obtain b s where s: "is_insert I (ss_promote I xs) x = (b, s)" by (cases "is_insert I (ss_promote I xs) x")
      have "b" "ok s" "is_iter I s = xs @ [x]"
        using ss_promote_iter[OF d(1)] is_insert[of "ss_promote I xs" x] s False
        by (simp_all add: ls_insert_def)
      then show ?thesis
        using SInline d s False by (simp add: ss_insert_def ss_iter_def ss_ok_def ls_insert_def)
    qed
  next
    case (SSpilled s)
    then show ?thesis
      using r is_insert[of s x]
      by (cases "is_insert I s x") (simp add: ss_insert_def ss_iter_def ss_ok_def)
  qed
  then show "fst (ss_insert I N r x) \<longleftrightarrow> x \<notin> set (ss_iter I r)"
    and "ss_ok ok N (snd (ss_insert I N r x))"
    and "ss_iter I (snd (ss_insert I N r x)) = ls_insert x (ss_iter I r)" by blast+
qed

lemma set_contains_sim: "ss_ok ok N r \<Longrightarrow> ss_contains I r x \<longleftrightarrow> x \<in> set (ss_iter I r)"
  by (cases r) (auto simp: ss_contains_def ss_iter_def ss_ok_def is_contains list_ex_iff)

lemma set_remove_sim:
  assumes r: "ss_ok ok N r"
  shows "(fst (ss_remove I r x) \<longleftrightarrow> x \<in> set (ss_iter I r))
    \<and> ss_ok ok N (snd (ss_remove I r x))
    \<and> ss_iter I (snd (ss_remove I r x)) = ls_swap_remove x (ss_iter I r)"
proof (cases r)
  case (SInline xs)
  have e: "(\<lambda>y. x = y) = (\<lambda>y. y = x)" by (simp add: fun_eq_iff eq_commute)
  have d: "distinct xs" "length xs \<le> N" using r SInline by (auto simp: ss_ok_def)
  show ?thesis
  proof (cases "position (\<lambda>y. y = x) xs")
    case None
    then have "x \<notin> set xs" by (auto simp: position_None)
    then show ?thesis
      using None SInline d by (simp add: ss_remove_def ss_iter_def ss_ok_def ls_swap_remove_def e)
  next
    case (Some i)
    have a: "ls_swap_remove x xs = swap_remove_at i xs" using Some by (simp add: ls_swap_remove_def)
    have "x \<in> set xs" using Some by (auto simp: position_Some)
    then show ?thesis
      using Some SInline d ls_swap_remove_set(1)[OF d(1), of x]
      by (simp add: ss_remove_def ss_iter_def ss_ok_def e a)
  qed
next
  case (SSpilled s)
  then show ?thesis
    using r is_swap_remove[of s x]
    by (cases "is_swap_remove I s x") (simp add: ss_remove_def ss_iter_def ss_ok_def)
qed

lemma set_exec_sim:
  assumes r: "ss_ok ok N r"
  shows "fst (ss_exec I N r c) = fst (ls_exec (ss_iter I r) c)
    \<and> ss_ok ok N (snd (ss_exec I N r c))
    \<and> ss_iter I (snd (ss_exec I N r c)) = snd (ls_exec (ss_iter I r) c)"
proof (cases c)
  case (SsInsert x)
  then show ?thesis using set_insert_sim[OF r, of x] by simp
next
  case (SsRemove x)
  then show ?thesis using set_remove_sim[OF r, of x] by simp
next
  case (SsContains x)
  then show ?thesis using r set_contains_sim[OF r, of x] by simp
next
  case SsClear
  then show ?thesis
    using r by (cases r) (auto simp: ss_clear_def ss_ok_def ss_iter_def is_clear)
next
  case (SsRetain f)
  then show ?thesis
    using r le_trans[OF length_filter_le]
    by (cases r) (auto simp: ss_retain_def ss_ok_def ss_iter_def is_retain)
qed

lemma set_run_sim:
  assumes "ss_ok ok N r"
  shows "fst (run_cmds (ss_exec I N) r cs) = fst (run_cmds ls_exec (ss_iter I r) cs)
    \<and> ss_ok ok N (snd (run_cmds (ss_exec I N) r cs))
    \<and> ss_iter I (snd (run_cmds (ss_exec I N) r cs)) = snd (run_cmds ls_exec (ss_iter I r) cs)"
  using assms
proof (induction cs arbitrary: r)
  case (Cons c cs)
  have "fst (ss_exec I N r c) = fst (ls_exec (ss_iter I r) c)
      \<and> ss_ok ok N (snd (ss_exec I N r c))
      \<and> ss_iter I (snd (ss_exec I N r c)) = snd (ls_exec (ss_iter I r) c)"
    using set_exec_sim[OF Cons.prems] by blast
  then show ?case
    using Cons.IH[of "snd (ss_exec I N r c)"] by (simp add: Let_def split_beta)
qed simp

lemma set_eq_sim:
  assumes a: "ss_ok ok N a" and b: "ss_ok ok N' b"
  shows "ss_eq I a b \<longleftrightarrow> set (ss_iter I a) = set (ss_iter I b)"
proof -
  let ?A = "ss_iter I a" and ?B = "ss_iter I b"
  have d: "distinct ?A" "distinct ?B"
    using a b by (cases a; cases b; auto simp: ss_ok_def ss_iter_def is_distinct)+
  have len: "ss_len I r = length (ss_iter I r)" for r
    by (cases r) (simp_all add: ss_len_def ss_iter_def)
  have all: "list_all (ss_contains I b) ?A \<longleftrightarrow> set ?A \<subseteq> set ?B"
    using set_contains_sim[OF b] by (auto simp: list_all_iff)
  have c: "card (set ?A) = length ?A" "card (set ?B) = length ?B" using d by (simp_all add: distinct_card)
  show ?thesis
  proof
    assume "ss_eq I a b"
    then have "set ?A \<subseteq> set ?B" "length ?A = length ?B" using all by (simp_all add: ss_eq_def len)
    then show "set ?A = set ?B" using card_subset_eq[of "set ?B" "set ?A"] c by simp
  next
    assume "set ?A = set ?B"
    then show "ss_eq I a b" using all c by (simp add: ss_eq_def len)
  qed
qed

end

section \<open>Properties\<close>

text \<open>
  C11. A \<open>SmallMap\<close> cannot be told from an insertion-ordered map: every sequence of operations from
  the empty map returns what it returns on the list of entries and leaves the same entries in the
  same order, whatever the number \<open>N\<close> of inline entries; and the map is still inline exactly when
  it has never held more than \<open>N\<close> entries.
\<close>

theorem small_map_equivalent:
  fixes I :: "('m, 'k, 'v) imap_api"
  assumes "imap I ok"
  shows "fst (run_cmds (sm_exec I N) sm_default cs) = fst (run_cmds al_exec [] cs)
    \<and> sm_iter I (snd (run_cmds (sm_exec I N) sm_default cs)) = snd (run_cmds al_exec [] cs)
    \<and> (sm_is_inline (snd (run_cmds (sm_exec I N) sm_default cs))
      \<longleftrightarrow> (\<forall>n\<in>{1..length cs}. length (snd (run_cmds al_exec [] (take n cs))) \<le> N))"
proof -
  have d: "sm_ok ok N (sm_default :: ('m, 'k, 'v) map_repr)" "sm_iter I sm_default = []"
      "sm_is_inline (sm_default :: ('m, 'k, 'v) map_repr)"
    by (simp_all add: sm_ok_def sm_default_def sm_iter_def sm_is_inline_def)
  show ?thesis
    using imap.run_sim[OF assms d(1), of cs] imap.run_inline[OF assms d(1), of cs] d by simp
qed

theorem small_map_equivalent_witness:
  "fst (run_cmds (sm_exec list_imap 1) sm_default
      [SmInsert (1::nat) ''a'', SmInsert 2 ''b'', SmOrInsert 3 ''c'' (\<lambda>x. x), SmRemove 1, SmGet 2])
    = [None, None, Some ''c'', Some ''a'', Some ''b'']
   \<and> \<not> sm_is_inline (snd (run_cmds (sm_exec list_imap 1) sm_default
      [SmInsert (1::nat) ''a'', SmInsert 2 ''b'', SmOrInsert 3 ''c'' (\<lambda>x. x), SmRemove 1, SmGet 2]))"
proof -
  let ?cs = "[SmInsert (1::nat) ''a'', SmInsert 2 ''b'', SmOrInsert 3 ''c'' (\<lambda>x. x), SmRemove 1, SmGet 2]"
  note E = small_map_equivalent[OF li.imap_axioms, of 1 ?cs]
  have "fst (run_cmds al_exec [] ?cs) = [None, None, Some ''c'', Some ''a'', Some ''b'']"
    by code_simp
  moreover have "\<not> (\<forall>n\<in>{1..length ?cs}. length (snd (run_cmds al_exec [] (take n ?cs))) \<le> 1)"
    by (auto intro!: bexI[of _ 2])
  ultimately show ?thesis using E by simp
qed

text \<open>
  The same for \<open>SmallSet\<close>: a sequence of operations answers as it does on the list of elements in
  order of insertion, where a removal moves the last element into the hole.
\<close>

theorem small_set_equivalent:
  assumes "iset I ok"
  shows "fst (run_cmds (ss_exec I N) ss_default cs) = fst (run_cmds ls_exec [] cs)
    \<and> ss_iter I (snd (run_cmds (ss_exec I N) ss_default cs)) = snd (run_cmds ls_exec [] cs)
    \<and> distinct (ss_iter I (snd (run_cmds (ss_exec I N) ss_default cs)))"
proof -
  have d: "ss_ok ok N ss_default" "ss_iter I ss_default = []"
    by (simp_all add: ss_ok_def ss_default_def ss_iter_def)
  have r: "ss_ok ok N (snd (run_cmds (ss_exec I N) ss_default cs))"
    using iset.set_run_sim[OF assms d(1)] by blast
  have "distinct (ss_iter I r)" if "ss_ok ok N r" for r
    using that iset.is_distinct[OF assms] by (cases r) (auto simp: ss_ok_def ss_iter_def)
  from this[OF r] show ?thesis using iset.set_run_sim[OF assms d(1), of cs] d by simp
qed

theorem small_set_equivalent_witness:
  "ss_iter list_iset (snd (run_cmds (ss_exec list_iset 1) ss_default
      [SsInsert (5::nat), SsInsert 6, SsInsert 7, SsRemove 5])) = [7, 6]"
  using small_set_equivalent[OF ls.iset_axioms, of 1 "[SsInsert (5::nat), SsInsert 6, SsInsert 7, SsRemove 5]"]
  by (simp add: ls_insert_def ls_swap_remove_def swap_remove_at_def)

text \<open>
  Equality of small maps does not depend on the order of insertion, nor on which of the two has
  grown past its inline storage: two maps built from lists of entries are equal exactly when they
  map the same keys to the same values.
\<close>

theorem small_map_eq_extensional:
  assumes "imap I ok"
  shows "sm_eq I (sm_from_iter I N xs) (sm_from_iter I M ys)
    \<longleftrightarrow> (\<forall>k. sm_get I (sm_from_iter I N xs) k = sm_get I (sm_from_iter I M ys) k)"
proof -
  have ext: "sm_ok ok N r \<Longrightarrow> sm_ok ok N (sm_extend I N r es)" for N r and es :: "('b \<times> 'c) list"
    using imap.insert_sim(2)[OF assms] by (induction es arbitrary: r) auto
  have ok: "sm_ok ok N (sm_from_iter I N es)" for N es
    using ext[of N sm_default es] by (simp add: sm_from_iter_def sm_ok_def sm_default_def)
  show ?thesis
    unfolding imap.eq_sim[OF assms ok[of N xs] ok[of M ys]]
    using imap.get_sim[OF assms ok[of N xs]] imap.get_sim[OF assms ok[of M ys]] by (simp add: fun_eq_iff)
qed

theorem small_map_eq_extensional_witness:
  "sm_eq list_imap (sm_from_iter list_imap 1 [(1::nat, ''a''), (2, ''b'')])
     (sm_from_iter list_imap 2 [(2, ''b''), (1, ''a'')])"
  using small_map_eq_extensional[OF li.imap_axioms, of 1 "[(1::nat, ''a''), (2, ''b'')]" 2 "[(2, ''b''), (1, ''a'')]"]
  by (simp add: sm_from_iter_def sm_default_def sm_insert_def sm_promote_def list_imap_def sm_get_def)

end
