(* ===== verification/GivenNames.thy ===== *)
theory GivenNames
  imports SmallTable
begin

text \<open>
  Model of \<^verbatim>\<open>src/src/builtin/given_names.rs\<close> and of the attribute \<^verbatim>\<open>GivenNamesAttr\<close> of
  \<^verbatim>\<open>src/src/builtin/attributes.rs\<close>: the names a user gave to the results of an operation or to the
  arguments of a block, kept as an attribute of that operation or block and shifted when results or
  arguments are inserted and removed.

  An attribute dictionary is a \<open>SmallMap\<close> from identifiers to attribute objects. By
  \<open>small_map_equivalent\<close> it behaves as the list of its entries in order of insertion, which is how
  it is modelled here. A failed downcast is a panic, the value \<open>None\<close>.
\<close>

section \<open>The attribute\<close>

type_synonym ident = string

datatype 'a attr_obj = GivenNamesAttr "ident option list" | OtherAttr 'a

type_synonym 'a attr_dict = "(ident \<times> 'a attr_obj) list"

definition are_all_names_unset :: "ident option list \<Rightarrow> bool" where
  "are_all_names_unset names = list_all (\<lambda>n. n = None) names"

definition get_name :: "ident option list \<Rightarrow> nat \<Rightarrow> ident option" where
  "get_name names idx = (case oget names idx of Some n \<Rightarrow> n | None \<Rightarrow> None)"

definition grow_names :: "ident option list \<Rightarrow> nat \<Rightarrow> ident option list" where
  "grow_names names n = fst (grow_to names n () (\<lambda>st _. (None, st)))"

definition set_name :: "ident option list \<Rightarrow> nat \<Rightarrow> ident option \<Rightarrow> ident option list" where
  "set_name names idx name = (grow_names names (idx + 1))[idx := name]"

definition insert_name :: "ident option list \<Rightarrow> nat \<Rightarrow> ident option \<Rightarrow> ident option list" where
  "insert_name names idx name =
     (let names = grow_names names idx in take idx names @ name # drop idx names)"

definition remove_name :: "ident option list \<Rightarrow> nat \<Rightarrow> ident option list" where
  "remove_name names idx =
     (if idx < length names then take idx names @ drop (Suc idx) names else names)"

section \<open>The attribute in its dictionary\<close>

definition given_names_key :: ident where
  "given_names_key = ''builtin_given_names''"

definition given_names_update ::
    "'a attr_dict \<Rightarrow> bool \<Rightarrow> (ident option list \<Rightarrow> ident option list) \<Rightarrow> 'a attr_dict option"
where
  "given_names_update attrs may_remove f =
     (case map_of attrs given_names_key of
        Some (GivenNamesAttr names) \<Rightarrow>
          (let names = f names
           in if may_remove \<and> are_all_names_unset names
              then Some (al_swap_remove given_names_key attrs)
              else Some (AList.update given_names_key (GivenNamesAttr names) attrs))
      | _ \<Rightarrow> None)"

definition set_name_in_attr_map ::
    "'a attr_dict \<Rightarrow> nat \<Rightarrow> ident option \<Rightarrow> 'a attr_dict option"
where
  "set_name_in_attr_map attrs idx name =
     (case map_of attrs given_names_key of
        Some _ \<Rightarrow> given_names_update attrs (name = None) (\<lambda>names. set_name names idx name)
      | None \<Rightarrow>
          Some (if name \<noteq> None
                then AList.update given_names_key (GivenNamesAttr (set_name [] idx name)) attrs
                else attrs))"

definition insert_name_in_attr_map ::
    "'a attr_dict \<Rightarrow> nat \<Rightarrow> ident option \<Rightarrow> 'a attr_dict option"
where
  "insert_name_in_attr_map attrs idx name =
     (case map_of attrs given_names_key of
        Some _ \<Rightarrow> given_names_update attrs (name = None) (\<lambda>names. insert_name names idx name)
      | None \<Rightarrow>
          Some (if name \<noteq> None
                then AList.update given_names_key (GivenNamesAttr (insert_name [] idx name)) attrs
                else attrs))"

definition remove_name_from_attr_map :: "'a attr_dict \<Rightarrow> nat \<Rightarrow> 'a attr_dict option" where
  "remove_name_from_attr_map attrs idx =
     (case map_of attrs given_names_key of
        Some _ \<Rightarrow> given_names_update attrs True (\<lambda>names. remove_name names idx)
      | None \<Rightarrow> Some attrs)"

definition get_name_from_attr_map :: "'a attr_dict \<Rightarrow> nat \<Rightarrow> ident option" where
  "get_name_from_attr_map attrs idx =
     (case map_of attrs given_names_key of
        Some (GivenNamesAttr names) \<Rightarrow> get_name names idx
      | _ \<Rightarrow> None)"

section \<open>Facts\<close>

lemma push_range_None:
  "fst (push_range (\<lambda>st _. (None, st)) is v st) = v @ replicate (length is) None"
  by (induction "is" arbitrary: v) (auto simp: replicate_append_same[symmetric])

lemma grow_names_eq: "grow_names names n = names @ replicate (n - length names) None"
  unfolding grow_names_def grow_to_def Let_def push_range_None if_distrib[of fst] fst_conv by simp

lemma get_name_alt: "get_name names i = (if i < length names then names ! i else None)"
  by (auto simp: get_name_def oget_def)

lemma get_name_append_None [simp]: "get_name (names @ replicate n None) = get_name names"
  by (auto simp: get_name_alt nth_append)

lemma get_name_Nil [simp]: "get_name [] i = None"
  by (simp add: get_name_alt)

lemma get_set_name: "get_name (set_name names i n) j = (if j = i then n else get_name names j)"
  by (auto simp: set_name_def grow_names_eq get_name_alt nth_append nth_list_update)

lemma get_insert_name:
  "get_name (insert_name names i n) j =
     (if j < i then get_name names j else if j = i then n else get_name names (j - 1))"
proof -
  define g where "g = names @ replicate (i - length names) None"
  have g: "get_name g k = get_name names k" for k by (simp add: g_def)
  have "i \<le> length g" by (simp add: g_def)
  then have "get_name (take i g @ n # drop i g) j =
      (if j < i then get_name g j else if j = i then n else get_name g (j - 1))"
    by (auto simp: get_name_alt nth_append nth_Cons' min_def)
  then show ?thesis unfolding g by (simp add: insert_name_def grow_names_eq Let_def g_def)
qed

lemma get_remove_name:
  "get_name (remove_name names i) j = (if j < i then get_name names j else get_name names (Suc j))"
  by (auto simp: remove_name_def get_name_alt nth_append min_def)

lemma unset_get_name: "are_all_names_unset names \<Longrightarrow> get_name names j = None"
  by (auto simp: are_all_names_unset_def get_name_alt list_all_length)

text \<open>
  The dictionary an IR object may have: no key twice, and only given names under their key. The
  names it gives are a function of the index.
\<close>

definition names_ok :: "'a attr_dict \<Rightarrow> bool" where
  "names_ok attrs \<longleftrightarrow> distinct (map fst attrs) \<and>
     (\<forall>x. map_of attrs given_names_key = Some x \<longrightarrow> (\<exists>names. x = GivenNamesAttr names))"

lemma given_names_update_correct:
  assumes ok: "names_ok attrs" and k: "map_of attrs given_names_key = Some (GivenNamesAttr names)"
  shows "\<exists>attrs'. given_names_update attrs b f = Some attrs' \<and> names_ok attrs'
    \<and> get_name_from_attr_map attrs' = get_name (f names)
    \<and> (\<forall>key. key \<noteq> given_names_key \<longrightarrow> map_of attrs' key = map_of attrs key)"
proof (cases "b \<and> are_all_names_unset (f names)")
  case True
  let ?a = "al_swap_remove given_names_key attrs"
  have d: "distinct (map fst attrs)" using ok by (simp add: names_ok_def)
  note m = al_swap_remove_keys[OF d, of given_names_key]
  have "get_name_from_attr_map ?a = get_name (f names)"
    using True m by (simp add: fun_eq_iff get_name_from_attr_map_def unset_get_name)
  then show ?thesis using True k m by (simp add: given_names_update_def names_ok_def)
next
  case False
  let ?a = "AList.update given_names_key (GivenNamesAttr (f names)) attrs"
  have "get_name_from_attr_map ?a = get_name (f names)"
    by (simp add: fun_eq_iff get_name_from_attr_map_def update_conv)
  then show ?thesis
    using False k ok by (auto simp: given_names_update_def names_ok_def update_conv distinct_update)
qed

lemma given_names_cases:
  assumes "names_ok attrs"
  obtains (unset) "map_of attrs given_names_key = None" "\<And>j. get_name_from_attr_map attrs j = None"
  | (given) names where "map_of attrs given_names_key = Some (GivenNamesAttr names)"
      "get_name_from_attr_map attrs = get_name names"
proof (cases "map_of attrs given_names_key")
  case None
  then show ?thesis using unset by (simp add: get_name_from_attr_map_def)
next
  case (Some x)
  then obtain names where "x = GivenNamesAttr names" using assms by (auto simp: names_ok_def)
  then show ?thesis using given Some by (simp add: get_name_from_attr_map_def fun_eq_iff)
qed

lemma fresh_given_names:
  assumes "names_ok attrs"
  shows "names_ok (AList.update given_names_key (GivenNamesAttr names) attrs)"
    and "get_name_from_attr_map (AList.update given_names_key (GivenNamesAttr names) attrs) = get_name names"
  using assms
  by (auto simp: names_ok_def update_conv distinct_update get_name_from_attr_map_def fun_eq_iff)

lemma set_name_correct:
  assumes ok: "names_ok attrs"
  shows "\<exists>attrs'. set_name_in_attr_map attrs i n = Some attrs' \<and> names_ok attrs'
    \<and> get_name_from_attr_map attrs' = (get_name_from_attr_map attrs)(i := n)
    \<and> (\<forall>key. key \<noteq> given_names_key \<longrightarrow> map_of attrs' key = map_of attrs key)"
  using ok
proof (cases rule: given_names_cases)
  case unset
  then show ?thesis
    using ok fresh_given_names[OF ok, of "set_name [] i n"]
    by (cases n) (auto simp: set_name_in_attr_map_def fun_eq_iff get_set_name update_conv)
next
  case (given names)
  then show ?thesis
    using given_names_update_correct[OF ok given(1), of "n = None" "\<lambda>names. set_name names i n"]
    by (auto simp: set_name_in_attr_map_def fun_eq_iff get_set_name)
qed

lemma insert_name_correct:
  assumes ok: "names_ok attrs"
  shows "\<exists>attrs'. insert_name_in_attr_map attrs i n = Some attrs' \<and> names_ok attrs'
    \<and> (\<forall>j. get_name_from_attr_map attrs' j =
         (if j < i then get_name_from_attr_map attrs j else if j = i then n
          else get_name_from_attr_map attrs (j - 1)))
    \<and> (\<forall>key. key \<noteq> given_names_key \<longrightarrow> map_of attrs' key = map_of attrs key)"
  using ok
proof (cases rule: given_names_cases)
  case unset
  then show ?thesis
    using ok fresh_given_names[OF ok, of "insert_name [] i n"]
    by (cases n) (auto simp: insert_name_in_attr_map_def get_insert_name update_conv)
next
  case (given names)
  then show ?thesis
    using given_names_update_correct[OF ok given(1), of "n = None" "\<lambda>names. insert_name names i n"]
    by (auto simp: insert_name_in_attr_map_def get_insert_name)
qed

lemma remove_name_correct:
  assumes ok: "names_ok attrs"
  shows "\<exists>attrs'. remove_name_from_attr_map attrs i = Some attrs' \<and> names_ok attrs'
    \<and> (\<forall>j. get_name_from_attr_map attrs' j =
         (if j < i then get_name_from_attr_map attrs j else get_name_from_attr_map attrs (Suc j)))
    \<and> (\<forall>key. key \<noteq> given_names_key \<longrightarrow> map_of attrs' key = map_of attrs key)"
  using ok
proof (cases rule: given_names_cases)
  case unset
  then show ?thesis using ok by (simp add: remove_name_from_attr_map_def)
next
  case (given names)
  then show ?thesis
    using given_names_update_correct[OF ok given(1), of True "\<lambda>names. remove_name names i"]
    by (auto simp: remove_name_from_attr_map_def get_remove_name)
qed

text \<open>
  Inserting a name and removing it again gives back the names there were, for every index and
  whether or not the name inserted is set: on a dictionary in which only given names are kept under
  their key neither step panics, the names to the right are shifted out and back, and no other
  attribute changes.
\<close>

theorem insert_remove_name_roundtrip:
  assumes "names_ok attrs"
  shows "\<exists>mid attrs'. insert_name_in_attr_map attrs i n = Some mid
    \<and> get_name_from_attr_map mid i = n
    \<and> remove_name_from_attr_map mid i = Some attrs'
    \<and> get_name_from_attr_map attrs' = get_name_from_attr_map attrs
    \<and> (\<forall>key. key \<noteq> given_names_key \<longrightarrow> map_of attrs' key = map_of attrs key)"
proof -
  obtain mid where mid: "insert_name_in_attr_map attrs i n = Some mid" "names_ok mid"
      "\<forall>j. get_name_from_attr_map mid j = (if j < i then get_name_from_attr_map attrs j
         else if j = i then n else get_name_from_attr_map attrs (j - 1))"
      "\<forall>key. key \<noteq> given_names_key \<longrightarrow> map_of mid key = map_of attrs key"
    using insert_name_correct[OF assms] by blast
  obtain attrs' where a: "remove_name_from_attr_map mid i = Some attrs'"
      "\<forall>j. get_name_from_attr_map attrs' j =
         (if j < i then get_name_from_attr_map mid j else get_name_from_attr_map mid (Suc j))"
      "\<forall>key. key \<noteq> given_names_key \<longrightarrow> map_of attrs' key = map_of mid key"
    using remove_name_correct[OF mid(2)] by blast
  have "get_name_from_attr_map attrs' = get_name_from_attr_map attrs"
    using a(2) mid(3) by (simp add: fun_eq_iff)
  then show ?thesis using mid a by auto
qed

theorem insert_remove_name_roundtrip_witness:
  "\<exists>mid. insert_name_in_attr_map
      [(given_names_key, GivenNamesAttr [Some ''a'', None, Some ''b'']), (''x'', OtherAttr (0::nat))] 1 (Some ''c'')
    = Some mid \<and> get_name_from_attr_map mid 1 = Some ''c''"
  using insert_remove_name_roundtrip[of
      "[(given_names_key, GivenNamesAttr [Some ''a'', None, Some ''b'']), (''x'', OtherAttr (0::nat))]"
      1 "Some ''c''"]
  by (auto simp: names_ok_def given_names_key_def)

end
