(* ===== verification/Ir.thy ===== *)
theory Ir
  imports GivenNames LinkedList "HOL-Library.Word"
begin

text \<open>
  Model of the intermediate representation itself: \<^verbatim>\<open>context.rs\<close> (the arenas), \<^verbatim>\<open>value.rs\<close> (values,
  uses and the def-use chains), \<^verbatim>\<open>operation.rs\<close>, \<^verbatim>\<open>basic_block.rs\<close> and \<^verbatim>\<open>region.rs\<close>.

  The context is the state. Each arena is a partial map from pointers to objects; the links that
  order operations in their block and blocks in their region are the two stores of
  \<open>LinkedList\<close>, so that inserting and unlinking are its operations. A \<open>slotmap\<close> hands out keys that
  were never used before; the key of a new object is an argument of the operations that allocate.
  Types, the concrete operation and attributes other than given names are type parameters: the
  code only passes them on. Source locations serve messages only and are left out.

  A panic (a dangling pointer, an index out of range, a failed assertion, a cell borrowed twice) is
  \<open>None\<close>. The list of uses of a definition is a \<open>SmallSet\<close>; by \<open>small_set_equivalent\<close> it behaves as
  the duplicate-free list of its elements, with \<open>ls_insert\<close> and \<open>ls_swap_remove\<close>.
\<close>

section \<open>Data\<close>

type_synonym op_ptr = nat
type_synonym block_ptr = nat
type_synonym region_ptr = nat

datatype defining_entity = OpDef op_ptr | BlockDef block_ptr

record ssa_value =
  val_uid :: "64 word"
  defining_entity :: defining_entity

record use_ref =
  user_op :: op_ptr
  use_uid :: "64 word"

record 'd operand =
  opd_def :: 'd
  opd_uid :: "64 word"

text \<open>\<open>OpResult\<close> and \<open>BlockArgument\<close> have the same three fields.\<close>

record 'ty val_def =
  vd_uses :: "use_ref list"
  vd_uid :: "64 word"
  vd_ty :: 'ty

record ('ty, 'c, 'a) operation =
  concrete_op :: 'c
  results :: "'ty val_def list"
  operands :: "ssa_value operand list"
  op_successors :: "block_ptr operand list"
  attributes :: "'a attr_dict"
  op_regions :: "region_ptr list"

record ('ty, 'a) basic_block =
  label :: "ident option"
  args :: "'ty val_def list"
  preds :: "use_ref list"
  bb_attributes :: "'a attr_dict"

record region =
  parent_op :: op_ptr

record ('ty, 'c, 'a) ctx =
  value_counter :: "64 word"
  use_counter :: "64 word"
  operations :: "op_ptr \<rightharpoonup> ('ty, 'c, 'a) operation"
  basic_blocks :: "block_ptr \<rightharpoonup> ('ty, 'a) basic_block"
  regions :: "region_ptr \<rightharpoonup> region"
  op_links :: "(op_ptr, block_ptr) ll_store"
  block_links :: "(block_ptr, region_ptr) ll_store"

definition empty_ctx :: "('ty, 'c, 'a) ctx" where
  "empty_ctx = \<lparr>value_counter = 0, use_counter = 0, operations = Map.empty, basic_blocks = Map.empty,
     regions = Map.empty, op_links = \<lparr>nodes = Map.empty, roots = Map.empty\<rparr>,
     block_links = \<lparr>nodes = Map.empty, roots = Map.empty\<rparr>\<rparr>"

definition get_new_value_uid :: "('ty, 'c, 'a) ctx \<Rightarrow> 64 word \<times> ('ty, 'c, 'a) ctx" where
  "get_new_value_uid ctx = (value_counter ctx, ctx\<lparr>value_counter := value_counter ctx + 1\<rparr>)"

definition get_new_use_uid :: "('ty, 'c, 'a) ctx \<Rightarrow> 64 word \<times> ('ty, 'c, 'a) ctx" where
  "get_new_use_uid ctx = (use_counter ctx, ctx\<lparr>use_counter := use_counter ctx + 1\<rparr>)"

text \<open>Writing through a mutable borrow of an object.\<close>

definition modify_op ::
    "('ty, 'c, 'a) ctx \<Rightarrow> op_ptr \<Rightarrow> (('ty, 'c, 'a) operation \<Rightarrow> ('ty, 'c, 'a) operation)
      \<Rightarrow> ('ty, 'c, 'a) ctx option"
where
  "modify_op ctx p f =
     map_option (\<lambda>op. ctx\<lparr>operations := (operations ctx)(p \<mapsto> f op)\<rparr>) (operations ctx p)"

definition modify_block ::
    "('ty, 'c, 'a) ctx \<Rightarrow> block_ptr \<Rightarrow> (('ty, 'a) basic_block \<Rightarrow> ('ty, 'a) basic_block)
      \<Rightarrow> ('ty, 'c, 'a) ctx option"
where
  "modify_block ctx b f =
     map_option (\<lambda>bb. ctx\<lparr>basic_blocks := (basic_blocks ctx)(b \<mapsto> f bb)\<rparr>) (basic_blocks ctx b)"

section \<open>Definitions and uses\<close>

definition add_use :: "use_ref list \<Rightarrow> use_ref \<Rightarrow> use_ref list option" where
  "add_use uses u = (if u \<in> set uses then None else Some (ls_insert u uses))"

definition remove_use :: "use_ref list \<Rightarrow> use_ref \<Rightarrow> use_ref list option" where
  "remove_use uses u = (if u \<in> set uses then Some (ls_swap_remove u uses) else None)"

text \<open>
  The traits \<open>DefTrait\<close> and \<open>UseTrait\<close>: how a definition finds its uses, and a use its
  operand. They are implemented by values and by pointers to blocks; the code generic in the
  trait takes the implementation as an argument.
\<close>

record ('d, 's) def_use =
  get_defnode :: "'s \<Rightarrow> 'd \<Rightarrow> use_ref list option"
  set_defnode :: "'s \<Rightarrow> 'd \<Rightarrow> use_ref list \<Rightarrow> 's option"
  try_find_use :: "'s \<Rightarrow> use_ref \<Rightarrow> nat option option"
  get_usenode :: "'s \<Rightarrow> use_ref \<Rightarrow> 'd option"
  set_usenode :: "'s \<Rightarrow> use_ref \<Rightarrow> 'd \<Rightarrow> 's option"

definition replace_use_with ::
    "('d, 's) def_use \<Rightarrow> 's \<Rightarrow> 'd \<Rightarrow> use_ref \<Rightarrow> 'd \<Rightarrow> 's option"
where
  "replace_use_with T ctx this u other = do {
     _ \<leftarrow> get_defnode T ctx this;
     uses \<leftarrow> get_defnode T ctx other;
     if this = other then Some ctx
     else do {
       uses \<leftarrow> add_use uses u;
       ctx \<leftarrow> set_defnode T ctx other uses;
       ctx \<leftarrow> set_usenode T ctx u other;
       uses \<leftarrow> get_defnode T ctx this;
       set_defnode T ctx this (ls_swap_remove u uses)
     }
   }"

definition find_use :: "('d, 's) def_use \<Rightarrow> 's \<Rightarrow> use_ref \<Rightarrow> nat option" where
  "find_use T ctx u = do { i \<leftarrow> try_find_use T ctx u; i }"

definition drop_use :: "('d, 's) def_use \<Rightarrow> 's \<Rightarrow> 'd operand \<Rightarrow> op_ptr \<Rightarrow> 's option" where
  "drop_use T ctx opd p = do {
     uses \<leftarrow> get_defnode T ctx (opd_def opd);
     uses \<leftarrow> remove_use uses \<lparr>user_op = p, use_uid = opd_uid opd\<rparr>;
     set_defnode T ctx (opd_def opd) uses
   }"

definition operand_new ::
    "('d, ('ty, 'c, 'a) ctx) def_use \<Rightarrow> ('ty, 'c, 'a) ctx \<Rightarrow> 'd \<Rightarrow> op_ptr
      \<Rightarrow> ('d operand \<times> ('ty, 'c, 'a) ctx) option"
where
  "operand_new T ctx dfn user = do {
     let (uid, ctx) = get_new_use_uid ctx;
     uses \<leftarrow> get_defnode T ctx dfn;
     uses \<leftarrow> add_use uses \<lparr>user_op = user, use_uid = uid\<rparr>;
     ctx \<leftarrow> set_defnode T ctx dfn uses;
     Some (\<lparr>opd_def = dfn, opd_uid = uid\<rparr>, ctx)
   }"

definition operand_verify ::
    "('d, 's) def_use \<Rightarrow> 's \<Rightarrow> 'd operand \<Rightarrow> op_ptr \<Rightarrow> bool option"
where
  "operand_verify T ctx opd user = do {
     uses \<leftarrow> get_defnode T ctx (opd_def opd);
     Some (\<lparr>user_op = user, use_uid = opd_uid opd\<rparr> \<in> set uses)
   }"

definition as_use :: "'d operand \<Rightarrow> op_ptr \<Rightarrow> use_ref" where
  "as_use opd user = \<lparr>user_op = user, use_uid = opd_uid opd\<rparr>"

section \<open>Values\<close>

definition defining_op :: "ssa_value \<Rightarrow> op_ptr option" where
  "defining_op v = (case defining_entity v of OpDef p \<Rightarrow> Some p | BlockDef _ \<Rightarrow> None)"

definition defining_block :: "ssa_value \<Rightarrow> block_ptr option" where
  "defining_block v = (case defining_entity v of OpDef _ \<Rightarrow> None | BlockDef b \<Rightarrow> Some b)"

text \<open>The results of the defining operation, or the arguments of the defining block.\<close>

definition entity_defs :: "('ty, 'c, 'a) ctx \<Rightarrow> defining_entity \<Rightarrow> 'ty val_def list option" where
  "entity_defs ctx e =
     (case e of
        OpDef p \<Rightarrow> map_option results (operations ctx p)
      | BlockDef b \<Rightarrow> map_option args (basic_blocks ctx b))"

definition set_entity_defs ::
    "('ty, 'c, 'a) ctx \<Rightarrow> defining_entity \<Rightarrow> 'ty val_def list \<Rightarrow> ('ty, 'c, 'a) ctx option"
where
  "set_entity_defs ctx e ds =
     (case e of
        OpDef p \<Rightarrow> modify_op ctx p (\<lambda>op. op\<lparr>results := ds\<rparr>)
      | BlockDef b \<Rightarrow> modify_block ctx b (\<lambda>bb. bb\<lparr>args := ds\<rparr>))"

definition try_find_index :: "('ty, 'c, 'a) ctx \<Rightarrow> ssa_value \<Rightarrow> nat option option" where
  "try_find_index ctx v = do {
     ds \<leftarrow> entity_defs ctx (defining_entity v);
     Some (position (\<lambda>d. vd_uid d = val_uid v) ds)
   }"

definition find_index :: "('ty, 'c, 'a) ctx \<Rightarrow> ssa_value \<Rightarrow> nat option" where
  "find_index ctx v = do { i \<leftarrow> try_find_index ctx v; i }"

definition value_defnode :: "('ty, 'c, 'a) ctx \<Rightarrow> ssa_value \<Rightarrow> use_ref list option" where
  "value_defnode ctx v = do {
     i \<leftarrow> find_index ctx v;
     ds \<leftarrow> entity_defs ctx (defining_entity v);
     d \<leftarrow> oget ds i;
     Some (vd_uses d)
   }"

definition set_value_defnode ::
    "('ty, 'c, 'a) ctx \<Rightarrow> ssa_value \<Rightarrow> use_ref list \<Rightarrow> ('ty, 'c, 'a) ctx option"
where
  "set_value_defnode ctx v uses = do {
     i \<leftarrow> find_index ctx v;
     ds \<leftarrow> entity_defs ctx (defining_entity v);
     d \<leftarrow> oget ds i;
     set_entity_defs ctx (defining_entity v) (ds[i := d\<lparr>vd_uses := uses\<rparr>])
   }"

definition try_find_operand :: "('ty, 'c, 'a) ctx \<Rightarrow> use_ref \<Rightarrow> nat option option" where
  "try_find_operand ctx u = do {
     op \<leftarrow> operations ctx (user_op u);
     Some (position (\<lambda>opd. opd_uid opd = use_uid u) (operands op))
   }"

definition get_value_usenode :: "('ty, 'c, 'a) ctx \<Rightarrow> use_ref \<Rightarrow> ssa_value option" where
  "get_value_usenode ctx u = do {
     i \<leftarrow> try_find_operand ctx u;
     i \<leftarrow> i;
     op \<leftarrow> operations ctx (user_op u);
     opd \<leftarrow> oget (operands op) i;
     Some (opd_def opd)
   }"

definition set_value_usenode ::
    "('ty, 'c, 'a) ctx \<Rightarrow> use_ref \<Rightarrow> ssa_value \<Rightarrow> ('ty, 'c, 'a) ctx option"
where
  "set_value_usenode ctx u v = do {
     i \<leftarrow> try_find_operand ctx u;
     i \<leftarrow> i;
     op \<leftarrow> operations ctx (user_op u);
     opd \<leftarrow> oget (operands op) i;
     modify_op ctx (user_op u) (\<lambda>op. op\<lparr>operands := (operands op)[i := opd\<lparr>opd_def := v\<rparr>]\<rparr>)
   }"

definition value_api :: "(ssa_value, ('ty, 'c, 'a) ctx) def_use" where
  "value_api =
     \<lparr>get_defnode = value_defnode, set_defnode = set_value_defnode,
      try_find_use = try_find_operand, get_usenode = get_value_usenode,
      set_usenode = set_value_usenode\<rparr>"

definition num_uses :: "('ty, 'c, 'a) ctx \<Rightarrow> ssa_value \<Rightarrow> nat option" where
  "num_uses ctx v = map_option length (value_defnode ctx v)"

definition value_uses :: "('ty, 'c, 'a) ctx \<Rightarrow> ssa_value \<Rightarrow> use_ref list option" where
  "value_uses ctx v = value_defnode ctx v"

definition is_used :: "('ty, 'c, 'a) ctx \<Rightarrow> ssa_value \<Rightarrow> bool option" where
  "is_used ctx v = map_option (\<lambda>uses. uses \<noteq> []) (value_defnode ctx v)"

fun replace_uses ::
    "('d, 's) def_use \<Rightarrow> 's \<Rightarrow> 'd \<Rightarrow> use_ref list \<Rightarrow> 'd \<Rightarrow> 's option"
where
  "replace_uses T ctx this [] other = Some ctx"
| "replace_uses T ctx this (u # us) other = do {
     ctx \<leftarrow> replace_use_with T ctx this u other;
     replace_uses T ctx this us other
   }"

definition replace_some_uses_with ::
    "('ty, 'c, 'a) ctx \<Rightarrow> ssa_value \<Rightarrow> (('ty, 'c, 'a) ctx \<Rightarrow> use_ref \<Rightarrow> bool) \<Rightarrow> ssa_value
      \<Rightarrow> ('ty, 'c, 'a) ctx option"
where
  "replace_some_uses_with ctx this predicate other = do {
     uses \<leftarrow> value_defnode ctx this;
     replace_uses value_api ctx this (filter (predicate ctx) uses) other
   }"

definition replace_all_uses_with ::
    "('ty, 'c, 'a) ctx \<Rightarrow> ssa_value \<Rightarrow> ssa_value \<Rightarrow> ('ty, 'c, 'a) ctx option"
where
  "replace_all_uses_with ctx this other = replace_some_uses_with ctx this (\<lambda>_ _. True) other"

definition value_type :: "('ty, 'c, 'a) ctx \<Rightarrow> ssa_value \<Rightarrow> 'ty option" where
  "value_type ctx v = do {
     i \<leftarrow> find_index ctx v;
     ds \<leftarrow> entity_defs ctx (defining_entity v);
     d \<leftarrow> oget ds i;
     Some (vd_ty d)
   }"

definition set_value_type :: "('ty, 'c, 'a) ctx \<Rightarrow> ssa_value \<Rightarrow> 'ty \<Rightarrow> ('ty, 'c, 'a) ctx option" where
  "set_value_type ctx v ty = do {
     i \<leftarrow> find_index ctx v;
     ds \<leftarrow> entity_defs ctx (defining_entity v);
     d \<leftarrow> oget ds i;
     set_entity_defs ctx (defining_entity v) (ds[i := d\<lparr>vd_ty := ty\<rparr>])
   }"

section \<open>Blocks as definitions\<close>

definition block_defnode :: "('ty, 'c, 'a) ctx \<Rightarrow> block_ptr \<Rightarrow> use_ref list option" where
  "block_defnode ctx b = map_option preds (basic_blocks ctx b)"

definition set_block_defnode ::
    "('ty, 'c, 'a) ctx \<Rightarrow> block_ptr \<Rightarrow> use_ref list \<Rightarrow> ('ty, 'c, 'a) ctx option"
where
  "set_block_defnode ctx b uses = modify_block ctx b (\<lambda>bb. bb\<lparr>preds := uses\<rparr>)"

definition try_find_successor :: "('ty, 'c, 'a) ctx \<Rightarrow> use_ref \<Rightarrow> nat option option" where
  "try_find_successor ctx u = do {
     op \<leftarrow> operations ctx (user_op u);
     Some (position (\<lambda>succ. opd_uid succ = use_uid u) (op_successors op))
   }"

definition get_block_usenode :: "('ty, 'c, 'a) ctx \<Rightarrow> use_ref \<Rightarrow> block_ptr option" where
  "get_block_usenode ctx u = do {
     i \<leftarrow> try_find_successor ctx u;
     i \<leftarrow> i;
     op \<leftarrow> operations ctx (user_op u);
     succ \<leftarrow> oget (op_successors op) i;
     Some (opd_def succ)
   }"

definition set_block_usenode ::
    "('ty, 'c, 'a) ctx \<Rightarrow> use_ref \<Rightarrow> block_ptr \<Rightarrow> ('ty, 'c, 'a) ctx option"
where
  "set_block_usenode ctx u b = do {
     i \<leftarrow> try_find_successor ctx u;
     i \<leftarrow> i;
     op \<leftarrow> operations ctx (user_op u);
     succ \<leftarrow> oget (op_successors op) i;
     modify_op ctx (user_op u)
       (\<lambda>op. op\<lparr>op_successors := (op_successors op)[i := succ\<lparr>opd_def := b\<rparr>]\<rparr>)
   }"

definition block_api :: "(block_ptr, ('ty, 'c, 'a) ctx) def_use" where
  "block_api =
     \<lparr>get_defnode = block_defnode, set_defnode = set_block_defnode,
      try_find_use = try_find_successor, get_usenode = get_block_usenode,
      set_usenode = set_block_usenode\<rparr>"

section \<open>Linked lists of the context\<close>

definition of_outcome :: "'x outcome \<Rightarrow> 'x option" where
  "of_outcome r = (case r of Inl _ \<Rightarrow> None | Inr x \<Rightarrow> Some x)"

definition get_parent_block :: "('ty, 'c, 'a) ctx \<Rightarrow> op_ptr \<Rightarrow> block_ptr option option" where
  "get_parent_block ctx p = map_option get_container (nodes (op_links ctx) p)"

definition block_parent_region :: "('ty, 'c, 'a) ctx \<Rightarrow> block_ptr \<Rightarrow> region_ptr option option" where
  "block_parent_region ctx b = map_option get_container (nodes (block_links ctx) b)"

definition op_parent_region :: "('ty, 'c, 'a) ctx \<Rightarrow> op_ptr \<Rightarrow> region_ptr option option" where
  "op_parent_region ctx p = do {
     b \<leftarrow> get_parent_block ctx p;
     case b of None \<Rightarrow> Some None | Some b \<Rightarrow> block_parent_region ctx b
   }"

definition block_parent_op :: "('ty, 'c, 'a) ctx \<Rightarrow> block_ptr \<Rightarrow> op_ptr option option" where
  "block_parent_op ctx b = do {
     r \<leftarrow> block_parent_region ctx b;
     case r of
       None \<Rightarrow> Some None
     | Some r \<Rightarrow> do { reg \<leftarrow> regions ctx r; Some (Some (parent_op reg)) }
   }"

definition op_parent_op :: "('ty, 'c, 'a) ctx \<Rightarrow> op_ptr \<Rightarrow> op_ptr option option" where
  "op_parent_op ctx p = do {
     b \<leftarrow> get_parent_block ctx p;
     case b of None \<Rightarrow> Some None | Some b \<Rightarrow> block_parent_op ctx b
   }"

definition block_parent_block :: "('ty, 'c, 'a) ctx \<Rightarrow> block_ptr \<Rightarrow> block_ptr option option" where
  "block_parent_block ctx b = do {
     p \<leftarrow> block_parent_op ctx b;
     case p of None \<Rightarrow> Some None | Some p \<Rightarrow> get_parent_block ctx p
   }"

definition value_parent_block :: "('ty, 'c, 'a) ctx \<Rightarrow> ssa_value \<Rightarrow> block_ptr option option" where
  "value_parent_block ctx v =
     (case defining_entity v of
        OpDef p \<Rightarrow> get_parent_block ctx p
      | BlockDef b \<Rightarrow> Some (Some b))"

definition value_parent_region :: "('ty, 'c, 'a) ctx \<Rightarrow> ssa_value \<Rightarrow> region_ptr option option" where
  "value_parent_region ctx v = do {
     b \<leftarrow> value_parent_block ctx v;
     case b of None \<Rightarrow> Some None | Some b \<Rightarrow> block_parent_region ctx b
   }"

text \<open>Collecting the list iterator, as \<open>iter(ctx).collect()\<close>: it could follow a cycle for ever.\<close>

partial_function (option) iter_collect ::
    "('n, 'k) ll_store \<Rightarrow> 'n ll_iter \<Rightarrow> 'n list \<Rightarrow> 'n list option"
where
  "iter_collect s it acc =
     (case iter_next s it of
        Inl _ \<Rightarrow> None
      | Inr (None, _) \<Rightarrow> Some acc
      | Inr (Some x, it) \<Rightarrow> iter_collect s it (acc @ [x]))"

declare iter_collect.simps [code]

definition block_ops :: "('ty, 'c, 'a) ctx \<Rightarrow> block_ptr \<Rightarrow> op_ptr list option" where
  "block_ops ctx b = do {
     it \<leftarrow> of_outcome (iter (op_links ctx) b);
     iter_collect (op_links ctx) it []
   }"

definition region_blocks :: "('ty, 'c, 'a) ctx \<Rightarrow> region_ptr \<Rightarrow> block_ptr list option" where
  "region_blocks ctx r = do {
     it \<leftarrow> of_outcome (iter (block_links ctx) r);
     iter_collect (block_links ctx) it []
   }"

section \<open>Predecessors and successors of blocks\<close>

definition has_pred :: "('ty, 'c, 'a) ctx \<Rightarrow> block_ptr \<Rightarrow> bool option" where
  "has_pred ctx b = map_option (\<lambda>bb. preds bb \<noteq> []) (basic_blocks ctx b)"

definition is_pred :: "('ty, 'c, 'a) ctx \<Rightarrow> block_ptr \<Rightarrow> block_ptr \<Rightarrow> bool option" where
  "is_pred ctx b pred = do {
     bb \<leftarrow> basic_blocks ctx b;
     oany (\<lambda>u. do { c \<leftarrow> get_parent_block ctx (user_op u); Some (c = Some pred) }) (preds bb)
   }"

definition num_preds :: "('ty, 'c, 'a) ctx \<Rightarrow> block_ptr \<Rightarrow> nat option" where
  "num_preds ctx b = map_option (\<lambda>bb. length (preds bb)) (basic_blocks ctx b)"

definition user_block :: "('ty, 'c, 'a) ctx \<Rightarrow> use_ref \<Rightarrow> block_ptr option" where
  "user_block ctx u = do { c \<leftarrow> get_parent_block ctx (user_op u); c }"

definition get_pred :: "('ty, 'c, 'a) ctx \<Rightarrow> block_ptr \<Rightarrow> nat \<Rightarrow> block_ptr option" where
  "get_pred ctx b i = do {
     bb \<leftarrow> basic_blocks ctx b;
     u \<leftarrow> oget (preds bb) i;
     user_block ctx u
   }"

definition block_preds :: "('ty, 'c, 'a) ctx \<Rightarrow> block_ptr \<Rightarrow> block_ptr list option" where
  "block_preds ctx b = do { bb \<leftarrow> basic_blocks ctx b; omap (user_block ctx) (preds bb) }"

definition block_uses :: "('ty, 'c, 'a) ctx \<Rightarrow> block_ptr \<Rightarrow> use_ref list option" where
  "block_uses ctx b = map_option preds (basic_blocks ctx b)"

definition retarget_some_preds_to ::
    "('ty, 'c, 'a) ctx \<Rightarrow> block_ptr \<Rightarrow> (('ty, 'c, 'a) ctx \<Rightarrow> block_ptr \<Rightarrow> bool) \<Rightarrow> block_ptr
      \<Rightarrow> ('ty, 'c, 'a) ctx option"
where
  "retarget_some_preds_to ctx this predicate other = do {
     uses \<leftarrow> block_defnode ctx this;
     blocks \<leftarrow> omap (user_block ctx) uses;
     replace_uses block_api ctx this
       (map fst (filter (\<lambda>(u, b). predicate ctx b) (zip uses blocks))) other
   }"

definition retarget_all_preds_to ::
    "('ty, 'c, 'a) ctx \<Rightarrow> block_ptr \<Rightarrow> block_ptr \<Rightarrow> ('ty, 'c, 'a) ctx option"
where
  "retarget_all_preds_to ctx this other = retarget_some_preds_to ctx this (\<lambda>_ _. True) other"

definition op_succs :: "('ty, 'c, 'a) ctx \<Rightarrow> op_ptr \<Rightarrow> block_ptr list option" where
  "op_succs ctx p = map_option (\<lambda>op. map opd_def (op_successors op)) (operations ctx p)"

definition is_succ_of :: "('ty, 'c, 'a) ctx \<Rightarrow> block_ptr \<Rightarrow> block_ptr \<Rightarrow> bool option" where
  "is_succ_of ctx b pred = do {
     root \<leftarrow> roots (op_links ctx) pred;
     case get_tail root of
       None \<Rightarrow> Some False
     | Some term \<Rightarrow> do { ss \<leftarrow> op_succs ctx term; Some (b \<in> set ss) }
   }"

text \<open>
  Whether an operation is a terminator is decided by the interfaces its concrete type
  implements: \<open>is_term\<close> is a parameter.
\<close>

definition get_terminator ::
    "('c \<Rightarrow> bool) \<Rightarrow> ('ty, 'c, 'a) ctx \<Rightarrow> block_ptr \<Rightarrow> op_ptr option option"
where
  "get_terminator is_term ctx b = do {
     root \<leftarrow> roots (op_links ctx) b;
     case get_tail root of
       None \<Rightarrow> Some None
     | Some last_op \<Rightarrow> do {
         op \<leftarrow> operations ctx last_op;
         Some (if is_term (concrete_op op) then Some last_op else None)
       }
   }"

definition block_succs ::
    "('c \<Rightarrow> bool) \<Rightarrow> ('ty, 'c, 'a) ctx \<Rightarrow> block_ptr \<Rightarrow> block_ptr list option"
where
  "block_succs is_term ctx b = do {
     t \<leftarrow> get_terminator is_term ctx b;
     case t of None \<Rightarrow> Some [] | Some t \<Rightarrow> op_succs ctx t
   }"

definition has_succ :: "('c \<Rightarrow> bool) \<Rightarrow> ('ty, 'c, 'a) ctx \<Rightarrow> block_ptr \<Rightarrow> bool option" where
  "has_succ is_term ctx b = do {
     t \<leftarrow> get_terminator is_term ctx b;
     case t of None \<Rightarrow> Some False | Some t \<Rightarrow> do { ss \<leftarrow> op_succs ctx t; Some (length ss > 0) }
   }"

definition is_succ :: "('c \<Rightarrow> bool) \<Rightarrow> ('ty, 'c, 'a) ctx \<Rightarrow> block_ptr \<Rightarrow> block_ptr \<Rightarrow> bool option" where
  "is_succ is_term ctx b succ = do {
     t \<leftarrow> get_terminator is_term ctx b;
     case t of None \<Rightarrow> Some False | Some t \<Rightarrow> do { ss \<leftarrow> op_succs ctx t; Some (succ \<in> set ss) }
   }"

definition get_succ :: "('c \<Rightarrow> bool) \<Rightarrow> ('ty, 'c, 'a) ctx \<Rightarrow> block_ptr \<Rightarrow> nat \<Rightarrow> block_ptr option" where
  "get_succ is_term ctx b i = do {
     t \<leftarrow> get_terminator is_term ctx b;
     t \<leftarrow> t;
     ss \<leftarrow> op_succs ctx t;
     oget ss i
   }"

definition num_succ :: "('c \<Rightarrow> bool) \<Rightarrow> ('ty, 'c, 'a) ctx \<Rightarrow> block_ptr \<Rightarrow> nat option" where
  "num_succ is_term ctx b = do {
     t \<leftarrow> get_terminator is_term ctx b;
     case t of None \<Rightarrow> Some 0 | Some t \<Rightarrow> do { ss \<leftarrow> op_succs ctx t; Some (length ss) }
   }"

section \<open>Allocation\<close>

definition unlinked_node :: "('n, 'k) ll_node" where
  "unlinked_node = \<lparr>get_next = None, get_prev = None, get_container = None\<rparr>"

definition empty_root :: "'n ll_root" where
  "empty_root = \<lparr>get_head = None, get_tail = None\<rparr>"

definition alloc_op ::
    "('ty, 'c, 'a) ctx \<Rightarrow> op_ptr \<Rightarrow> ('ty, 'c, 'a) operation \<Rightarrow> ('ty, 'c, 'a) ctx"
where
  "alloc_op ctx p op =
     ctx\<lparr>operations := (operations ctx)(p \<mapsto> op),
         op_links := (op_links ctx)\<lparr>nodes := (nodes (op_links ctx))(p \<mapsto> unlinked_node)\<rparr>\<rparr>"

definition alloc_block ::
    "('ty, 'c, 'a) ctx \<Rightarrow> block_ptr \<Rightarrow> ('ty, 'a) basic_block \<Rightarrow> ('ty, 'c, 'a) ctx"
where
  "alloc_block ctx b bb =
     ctx\<lparr>basic_blocks := (basic_blocks ctx)(b \<mapsto> bb),
         op_links := (op_links ctx)\<lparr>roots := (roots (op_links ctx))(b \<mapsto> empty_root)\<rparr>,
         block_links := (block_links ctx)\<lparr>nodes := (nodes (block_links ctx))(b \<mapsto> unlinked_node)\<rparr>\<rparr>"

definition alloc_region :: "('ty, 'c, 'a) ctx \<Rightarrow> region_ptr \<Rightarrow> region \<Rightarrow> ('ty, 'c, 'a) ctx" where
  "alloc_region ctx r reg =
     ctx\<lparr>regions := (regions ctx)(r \<mapsto> reg),
         block_links := (block_links ctx)\<lparr>roots := (roots (block_links ctx))(r \<mapsto> empty_root)\<rparr>\<rparr>"

definition region_new :: "('ty, 'c, 'a) ctx \<Rightarrow> region_ptr \<Rightarrow> op_ptr \<Rightarrow> ('ty, 'c, 'a) ctx" where
  "region_new ctx r parent = alloc_region ctx r \<lparr>parent_op = parent\<rparr>"

section \<open>Operations\<close>

definition val_def_new :: "('ty, 'c, 'a) ctx \<Rightarrow> 'ty \<Rightarrow> 'ty val_def \<times> ('ty, 'c, 'a) ctx" where
  "val_def_new ctx ty =
     (let (uid, ctx) = get_new_value_uid ctx in (\<lparr>vd_uses = [], vd_uid = uid, vd_ty = ty\<rparr>, ctx))"

fun val_defs_new :: "('ty, 'c, 'a) ctx \<Rightarrow> 'ty list \<Rightarrow> 'ty val_def list \<times> ('ty, 'c, 'a) ctx" where
  "val_defs_new ctx [] = ([], ctx)"
| "val_defs_new ctx (ty # tys) =
     (let (d, ctx) = val_def_new ctx ty; (ds, ctx) = val_defs_new ctx tys in (d # ds, ctx))"

fun operands_new ::
    "('d, ('ty, 'c, 'a) ctx) def_use \<Rightarrow> ('ty, 'c, 'a) ctx \<Rightarrow> 'd list \<Rightarrow> op_ptr
      \<Rightarrow> ('d operand list \<times> ('ty, 'c, 'a) ctx) option"
where
  "operands_new T ctx [] user = Some ([], ctx)"
| "operands_new T ctx (d # ds) user = do {
     (opd, ctx) \<leftarrow> operand_new T ctx d user;
     (opds, ctx) \<leftarrow> operands_new T ctx ds user;
     Some (opd # opds, ctx)
   }"

fun regions_new :: "('ty, 'c, 'a) ctx \<Rightarrow> region_ptr list \<Rightarrow> op_ptr \<Rightarrow> ('ty, 'c, 'a) ctx" where
  "regions_new ctx [] parent = ctx"
| "regions_new ctx (r # rs) parent = regions_new (region_new ctx r parent) rs parent"

definition operation_new ::
    "('ty, 'c, 'a) ctx \<Rightarrow> op_ptr \<Rightarrow> region_ptr list \<Rightarrow> 'c \<Rightarrow> 'ty list \<Rightarrow> ssa_value list
      \<Rightarrow> block_ptr list \<Rightarrow> ('ty, 'c, 'a) ctx option"
where
  "operation_new ctx newop rs c result_types opds succs = do {
     let ctx = alloc_op ctx newop \<lparr>concrete_op = c, results = [], operands = [], op_successors = [],
                 attributes = [], op_regions = []\<rparr>;
     let (ds, ctx) = val_defs_new ctx result_types;
     ctx \<leftarrow> modify_op ctx newop (\<lambda>op. op\<lparr>results := ds\<rparr>);
     (opds, ctx) \<leftarrow> operands_new value_api ctx opds newop;
     ctx \<leftarrow> modify_op ctx newop (\<lambda>op. op\<lparr>operands := opds\<rparr>);
     (succs, ctx) \<leftarrow> operands_new block_api ctx succs newop;
     ctx \<leftarrow> modify_op ctx newop (\<lambda>op. op\<lparr>op_successors := succs\<rparr>);
     let ctx = regions_new ctx rs newop;
     modify_op ctx newop (\<lambda>op. op\<lparr>op_regions := rs\<rparr>)
   }"

definition result_value :: "op_ptr \<Rightarrow> 'ty val_def \<Rightarrow> ssa_value" where
  "result_value p d = \<lparr>val_uid = vd_uid d, defining_entity = OpDef p\<rparr>"

definition get_result :: "('ty, 'c, 'a) ctx \<Rightarrow> op_ptr \<Rightarrow> nat \<Rightarrow> ssa_value option" where
  "get_result ctx p i = do {
     op \<leftarrow> operations ctx p;
     d \<leftarrow> oget (results op) i;
     Some (result_value p d)
   }"

definition op_results :: "('ty, 'c, 'a) ctx \<Rightarrow> op_ptr \<Rightarrow> ssa_value list option" where
  "op_results ctx p = map_option (\<lambda>op. map (result_value p) (results op)) (operations ctx p)"

definition push_result :: "('ty, 'c, 'a) ctx \<Rightarrow> op_ptr \<Rightarrow> 'ty \<Rightarrow> (nat \<times> ('ty, 'c, 'a) ctx) option" where
  "push_result ctx p ty = do {
     let (d, ctx) = val_def_new ctx ty;
     op \<leftarrow> operations ctx p;
     let (i, ds) = push_back (results op) d;
     ctx \<leftarrow> modify_op ctx p (\<lambda>op. op\<lparr>results := ds\<rparr>);
     Some (i, ctx)
   }"

text \<open>The names in an operation's attributes follow its results, those of a block its arguments.\<close>

definition set_operation_result_name ::
    "('ty, 'c, 'a) ctx \<Rightarrow> op_ptr \<Rightarrow> nat \<Rightarrow> ident option \<Rightarrow> ('ty, 'c, 'a) ctx option"
where
  "set_operation_result_name ctx p i name = do {
     op \<leftarrow> operations ctx p;
     _ \<leftarrow> ocheck (i < length (results op));
     attrs \<leftarrow> set_name_in_attr_map (attributes op) i name;
     modify_op ctx p (\<lambda>op. op\<lparr>attributes := attrs\<rparr>)
   }"

definition insert_operation_result_name ::
    "('ty, 'c, 'a) ctx \<Rightarrow> op_ptr \<Rightarrow> nat \<Rightarrow> ident option \<Rightarrow> ('ty, 'c, 'a) ctx option"
where
  "insert_operation_result_name ctx p i name = do {
     op \<leftarrow> operations ctx p;
     _ \<leftarrow> ocheck (i \<le> length (results op));
     attrs \<leftarrow> insert_name_in_attr_map (attributes op) i name;
     modify_op ctx p (\<lambda>op. op\<lparr>attributes := attrs\<rparr>)
   }"

definition remove_operation_result_name ::
    "('ty, 'c, 'a) ctx \<Rightarrow> op_ptr \<Rightarrow> nat \<Rightarrow> ('ty, 'c, 'a) ctx option"
where
  "remove_operation_result_name ctx p i = do {
     op \<leftarrow> operations ctx p;
     _ \<leftarrow> ocheck (i < length (results op));
     attrs \<leftarrow> remove_name_from_attr_map (attributes op) i;
     modify_op ctx p (\<lambda>op. op\<lparr>attributes := attrs\<rparr>)
   }"

definition get_operation_result_name ::
    "('ty, 'c, 'a) ctx \<Rightarrow> op_ptr \<Rightarrow> nat \<Rightarrow> ident option option"
where
  "get_operation_result_name ctx p i =
     map_option (\<lambda>op. get_name_from_attr_map (attributes op) i) (operations ctx p)"

definition set_block_arg_name ::
    "('ty, 'c, 'a) ctx \<Rightarrow> block_ptr \<Rightarrow> nat \<Rightarrow> ident option \<Rightarrow> ('ty, 'c, 'a) ctx option"
where
  "set_block_arg_name ctx b i name = do {
     bb \<leftarrow> basic_blocks ctx b;
     _ \<leftarrow> ocheck (i < length (args bb));
     attrs \<leftarrow> set_name_in_attr_map (bb_attributes bb) i name;
     modify_block ctx b (\<lambda>bb. bb\<lparr>bb_attributes := attrs\<rparr>)
   }"

definition insert_block_arg_name ::
    "('ty, 'c, 'a) ctx \<Rightarrow> block_ptr \<Rightarrow> nat \<Rightarrow> ident option \<Rightarrow> ('ty, 'c, 'a) ctx option"
where
  "insert_block_arg_name ctx b i name = do {
     bb \<leftarrow> basic_blocks ctx b;
     _ \<leftarrow> ocheck (i \<le> length (args bb));
     attrs \<leftarrow> insert_name_in_attr_map (bb_attributes bb) i name;
     modify_block ctx b (\<lambda>bb. bb\<lparr>bb_attributes := attrs\<rparr>)
   }"

definition remove_block_arg_name ::
    "('ty, 'c, 'a) ctx \<Rightarrow> block_ptr \<Rightarrow> nat \<Rightarrow> ('ty, 'c, 'a) ctx option"
where
  "remove_block_arg_name ctx b i = do {
     bb \<leftarrow> basic_blocks ctx b;
     _ \<leftarrow> ocheck (i < length (args bb));
     attrs \<leftarrow> remove_name_from_attr_map (bb_attributes bb) i;
     modify_block ctx b (\<lambda>bb. bb\<lparr>bb_attributes := attrs\<rparr>)
   }"

definition get_block_arg_name ::
    "('ty, 'c, 'a) ctx \<Rightarrow> block_ptr \<Rightarrow> nat \<Rightarrow> ident option option"
where
  "get_block_arg_name ctx b i =
     map_option (\<lambda>bb. get_name_from_attr_map (bb_attributes bb) i) (basic_blocks ctx b)"

definition insert_at :: "'x list \<Rightarrow> nat \<Rightarrow> 'x \<Rightarrow> 'x list option" where
  "insert_at xs i x = (if i \<le> length xs then Some (take i xs @ x # drop i xs) else None)"

definition remove_at :: "'x list \<Rightarrow> nat \<Rightarrow> ('x \<times> 'x list) option" where
  "remove_at xs i = (if i < length xs then Some (xs ! i, take i xs @ drop (Suc i) xs) else None)"

definition insert_result ::
    "('ty, 'c, 'a) ctx \<Rightarrow> op_ptr \<Rightarrow> nat \<Rightarrow> 'ty \<Rightarrow> ('ty, 'c, 'a) ctx option"
where
  "insert_result ctx p i ty = do {
     let (d, ctx) = val_def_new ctx ty;
     op \<leftarrow> operations ctx p;
     ds \<leftarrow> insert_at (results op) i d;
     ctx \<leftarrow> modify_op ctx p (\<lambda>op. op\<lparr>results := ds\<rparr>);
     insert_operation_result_name ctx p i None
   }"

definition remove_result :: "('ty, 'c, 'a) ctx \<Rightarrow> op_ptr \<Rightarrow> nat \<Rightarrow> ('ty, 'c, 'a) ctx option" where
  "remove_result ctx p i = do {
     v \<leftarrow> get_result ctx p i;
     used \<leftarrow> is_used ctx v;
     _ \<leftarrow> ocheck (\<not> used);
     ctx \<leftarrow> remove_operation_result_name ctx p i;
     op \<leftarrow> operations ctx p;
     (_, ds) \<leftarrow> remove_at (results op) i;
     modify_op ctx p (\<lambda>op. op\<lparr>results := ds\<rparr>)
   }"

definition pop_result :: "('ty, 'c, 'a) ctx \<Rightarrow> op_ptr \<Rightarrow> ('ty, 'c, 'a) ctx option" where
  "pop_result ctx p = do {
     op \<leftarrow> operations ctx p;
     let len = length (results op);
     _ \<leftarrow> ocheck (len > 0);
     remove_result ctx p (len - 1)
   }"

definition op_has_use :: "('ty, 'c, 'a) ctx \<Rightarrow> op_ptr \<Rightarrow> bool option" where
  "op_has_use ctx p =
     map_option (\<lambda>op. list_ex (\<lambda>d. vd_uses d \<noteq> []) (results op)) (operations ctx p)"

definition op_num_uses :: "('ty, 'c, 'a) ctx \<Rightarrow> op_ptr \<Rightarrow> nat option" where
  "op_num_uses ctx p =
     map_option (\<lambda>op. fold (\<lambda>d count. count + length (vd_uses d)) (results op) 0) (operations ctx p)"

definition op_uses :: "('ty, 'c, 'a) ctx \<Rightarrow> op_ptr \<Rightarrow> use_ref list option" where
  "op_uses ctx p = map_option (\<lambda>op. concat (map vd_uses (results op))) (operations ctx p)"

definition get_operand :: "('ty, 'c, 'a) ctx \<Rightarrow> op_ptr \<Rightarrow> nat \<Rightarrow> ssa_value option" where
  "get_operand ctx p i = do {
     op \<leftarrow> operations ctx p;
     opd \<leftarrow> oget (operands op) i;
     Some (opd_def opd)
   }"

definition get_operand_as_use :: "('ty, 'c, 'a) ctx \<Rightarrow> op_ptr \<Rightarrow> nat \<Rightarrow> use_ref option" where
  "get_operand_as_use ctx p i = do {
     op \<leftarrow> operations ctx p;
     opd \<leftarrow> oget (operands op) i;
     Some (as_use opd p)
   }"

definition op_operands :: "('ty, 'c, 'a) ctx \<Rightarrow> op_ptr \<Rightarrow> ssa_value list option" where
  "op_operands ctx p = map_option (\<lambda>op. map opd_def (operands op)) (operations ctx p)"

definition push_operand ::
    "('ty, 'c, 'a) ctx \<Rightarrow> op_ptr \<Rightarrow> ssa_value \<Rightarrow> (nat \<times> ('ty, 'c, 'a) ctx) option"
where
  "push_operand ctx p v = do {
     (opd, ctx) \<leftarrow> operand_new value_api ctx v p;
     op \<leftarrow> operations ctx p;
     let (i, opds) = push_back (operands op) opd;
     ctx \<leftarrow> modify_op ctx p (\<lambda>op. op\<lparr>operands := opds\<rparr>);
     Some (i, ctx)
   }"

text \<open>
  In \<open>replace_operand\<close> the operation stays mutably borrowed until the end of the statement that
  also drops the use of the old operand. Dropping a use looks up the old operand's definition: when
  that is a result of the same operation, the second borrow panics. A successor's definition is
  a block, which is another cell.
\<close>

definition replace_operand ::
    "('ty, 'c, 'a) ctx \<Rightarrow> op_ptr \<Rightarrow> nat \<Rightarrow> ssa_value \<Rightarrow> ('ty, 'c, 'a) ctx option"
where
  "replace_operand ctx p i other = do {
     (opd, ctx) \<leftarrow> operand_new value_api ctx other p;
     op \<leftarrow> operations ctx p;
     old \<leftarrow> oget (operands op) i;
     ctx \<leftarrow> modify_op ctx p (\<lambda>op. op\<lparr>operands := (operands op)[i := opd]\<rparr>);
     _ \<leftarrow> ocheck (defining_entity (opd_def old) \<noteq> OpDef p);
     drop_use value_api ctx old p
   }"

definition insert_operand ::
    "('ty, 'c, 'a) ctx \<Rightarrow> op_ptr \<Rightarrow> nat \<Rightarrow> ssa_value \<Rightarrow> ('ty, 'c, 'a) ctx option"
where
  "insert_operand ctx p i v = do {
     (opd, ctx) \<leftarrow> operand_new value_api ctx v p;
     op \<leftarrow> operations ctx p;
     opds \<leftarrow> insert_at (operands op) i opd;
     modify_op ctx p (\<lambda>op. op\<lparr>operands := opds\<rparr>)
   }"

definition remove_operand ::
    "('ty, 'c, 'a) ctx \<Rightarrow> op_ptr \<Rightarrow> nat \<Rightarrow> (ssa_value \<times> ('ty, 'c, 'a) ctx) option"
where
  "remove_operand ctx p i = do {
     op \<leftarrow> operations ctx p;
     (removed, opds) \<leftarrow> remove_at (operands op) i;
     ctx \<leftarrow> modify_op ctx p (\<lambda>op. op\<lparr>operands := opds\<rparr>);
     ctx \<leftarrow> drop_use value_api ctx removed p;
     Some (opd_def removed, ctx)
   }"

definition pop_operand ::
    "('ty, 'c, 'a) ctx \<Rightarrow> op_ptr \<Rightarrow> (ssa_value \<times> ('ty, 'c, 'a) ctx) option"
where
  "pop_operand ctx p = do {
     op \<leftarrow> operations ctx p;
     let len = length (operands op);
     _ \<leftarrow> ocheck (len > 0);
     remove_operand ctx p (len - 1)
   }"

definition get_op_successor :: "('ty, 'c, 'a) ctx \<Rightarrow> op_ptr \<Rightarrow> nat \<Rightarrow> block_ptr option" where
  "get_op_successor ctx p i = do {
     op \<leftarrow> operations ctx p;
     opd \<leftarrow> oget (op_successors op) i;
     Some (opd_def opd)
   }"

definition get_successor_as_use :: "('ty, 'c, 'a) ctx \<Rightarrow> op_ptr \<Rightarrow> nat \<Rightarrow> use_ref option" where
  "get_successor_as_use ctx p i = do {
     op \<leftarrow> operations ctx p;
     opd \<leftarrow> oget (op_successors op) i;
     Some (as_use opd p)
   }"

definition push_successor ::
    "('ty, 'c, 'a) ctx \<Rightarrow> op_ptr \<Rightarrow> block_ptr \<Rightarrow> (nat \<times> ('ty, 'c, 'a) ctx) option"
where
  "push_successor ctx p b = do {
     (opd, ctx) \<leftarrow> operand_new block_api ctx b p;
     op \<leftarrow> operations ctx p;
     let (i, opds) = push_back (op_successors op) opd;
     ctx \<leftarrow> modify_op ctx p (\<lambda>op. op\<lparr>op_successors := opds\<rparr>);
     Some (i, ctx)
   }"

definition replace_successor ::
    "('ty, 'c, 'a) ctx \<Rightarrow> op_ptr \<Rightarrow> nat \<Rightarrow> block_ptr \<Rightarrow> ('ty, 'c, 'a) ctx option"
where
  "replace_successor ctx p i other = do {
     (opd, ctx) \<leftarrow> operand_new block_api ctx other p;
     op \<leftarrow> operations ctx p;
     old \<leftarrow> oget (op_successors op) i;
     ctx \<leftarrow> modify_op ctx p (\<lambda>op. op\<lparr>op_successors := (op_successors op)[i := opd]\<rparr>);
     drop_use block_api ctx old p
   }"

definition insert_successor ::
    "('ty, 'c, 'a) ctx \<Rightarrow> op_ptr \<Rightarrow> nat \<Rightarrow> block_ptr \<Rightarrow> ('ty, 'c, 'a) ctx option"
where
  "insert_successor ctx p i b = do {
     (opd, ctx) \<leftarrow> operand_new block_api ctx b p;
     op \<leftarrow> operations ctx p;
     opds \<leftarrow> insert_at (op_successors op) i opd;
     modify_op ctx p (\<lambda>op. op\<lparr>op_successors := opds\<rparr>)
   }"

definition remove_successor ::
    "('ty, 'c, 'a) ctx \<Rightarrow> op_ptr \<Rightarrow> nat \<Rightarrow> (block_ptr \<times> ('ty, 'c, 'a) ctx) option"
where
  "remove_successor ctx p i = do {
     op \<leftarrow> operations ctx p;
     (removed, opds) \<leftarrow> remove_at (op_successors op) i;
     ctx \<leftarrow> modify_op ctx p (\<lambda>op. op\<lparr>op_successors := opds\<rparr>);
     ctx \<leftarrow> drop_use block_api ctx removed p;
     Some (opd_def removed, ctx)
   }"

definition pop_successor ::
    "('ty, 'c, 'a) ctx \<Rightarrow> op_ptr \<Rightarrow> (block_ptr \<times> ('ty, 'c, 'a) ctx) option"
where
  "pop_successor ctx p = do {
     op \<leftarrow> operations ctx p;
     let len = length (op_successors op);
     _ \<leftarrow> ocheck (len > 0);
     remove_successor ctx p (len - 1)
   }"

definition add_region ::
    "('ty, 'c, 'a) ctx \<Rightarrow> op_ptr \<Rightarrow> region_ptr \<Rightarrow> (region_ptr \<times> ('ty, 'c, 'a) ctx) option"
where
  "add_region ctx p r = do {
     let ctx = region_new ctx r p;
     ctx \<leftarrow> modify_op ctx p (\<lambda>op. op\<lparr>op_regions := op_regions op @ [r]\<rparr>);
     Some (r, ctx)
   }"

section \<open>Blocks\<close>

definition basic_block_new ::
    "('ty, 'c, 'a) ctx \<Rightarrow> block_ptr \<Rightarrow> ident option \<Rightarrow> 'ty list \<Rightarrow> ('ty, 'c, 'a) ctx option"
where
  "basic_block_new ctx newblock lbl arg_types = do {
     let ctx = alloc_block ctx newblock \<lparr>label = lbl, args = [], preds = [], bb_attributes = []\<rparr>;
     let (ds, ctx) = val_defs_new ctx arg_types;
     modify_block ctx newblock (\<lambda>bb. bb\<lparr>args := ds\<rparr>)
   }"

definition arg_value :: "block_ptr \<Rightarrow> 'ty val_def \<Rightarrow> ssa_value" where
  "arg_value b d = \<lparr>val_uid = vd_uid d, defining_entity = BlockDef b\<rparr>"

definition get_argument :: "('ty, 'c, 'a) ctx \<Rightarrow> block_ptr \<Rightarrow> nat \<Rightarrow> ssa_value option" where
  "get_argument ctx b i = do {
     bb \<leftarrow> basic_blocks ctx b;
     d \<leftarrow> oget (args bb) i;
     Some (arg_value b d)
   }"

definition arguments :: "('ty, 'c, 'a) ctx \<Rightarrow> block_ptr \<Rightarrow> ssa_value list option" where
  "arguments ctx b = map_option (\<lambda>bb. map (arg_value b) (args bb)) (basic_blocks ctx b)"

definition push_argument ::
    "('ty, 'c, 'a) ctx \<Rightarrow> block_ptr \<Rightarrow> 'ty \<Rightarrow> (nat \<times> ('ty, 'c, 'a) ctx) option"
where
  "push_argument ctx b ty = do {
     let (d, ctx) = val_def_new ctx ty;
     bb \<leftarrow> basic_blocks ctx b;
     let (i, ds) = push_back (args bb) d;
     ctx \<leftarrow> modify_block ctx b (\<lambda>bb. bb\<lparr>args := ds\<rparr>);
     Some (i, ctx)
   }"

definition insert_argument ::
    "('ty, 'c, 'a) ctx \<Rightarrow> block_ptr \<Rightarrow> nat \<Rightarrow> 'ty \<Rightarrow> ('ty, 'c, 'a) ctx option"
where
  "insert_argument ctx b i ty = do {
     let (d, ctx) = val_def_new ctx ty;
     bb \<leftarrow> basic_blocks ctx b;
     ds \<leftarrow> insert_at (args bb) i d;
     ctx \<leftarrow> modify_block ctx b (\<lambda>bb. bb\<lparr>args := ds\<rparr>);
     insert_block_arg_name ctx b i None
   }"

definition remove_argument :: "('ty, 'c, 'a) ctx \<Rightarrow> block_ptr \<Rightarrow> nat \<Rightarrow> ('ty, 'c, 'a) ctx option" where
  "remove_argument ctx b i = do {
     v \<leftarrow> get_argument ctx b i;
     used \<leftarrow> is_used ctx v;
     _ \<leftarrow> ocheck (\<not> used);
     ctx \<leftarrow> remove_block_arg_name ctx b i;
     bb \<leftarrow> basic_blocks ctx b;
     (_, ds) \<leftarrow> remove_at (args bb) i;
     modify_block ctx b (\<lambda>bb. bb\<lparr>args := ds\<rparr>)
   }"

definition pop_argument :: "('ty, 'c, 'a) ctx \<Rightarrow> block_ptr \<Rightarrow> ('ty, 'c, 'a) ctx option" where
  "pop_argument ctx b = do {
     bb \<leftarrow> basic_blocks ctx b;
     let len = length (args bb);
     _ \<leftarrow> ocheck (len > 0);
     remove_argument ctx b (len - 1)
   }"

definition set_label :: "('ty, 'c, 'a) ctx \<Rightarrow> block_ptr \<Rightarrow> ident option \<Rightarrow> ('ty, 'c, 'a) ctx option" where
  "set_label ctx b lbl = modify_block ctx b (\<lambda>bb. bb\<lparr>label := lbl\<rparr>)"

text \<open>The name given to a value, and setting it: at the value's present index.\<close>

definition value_given_name :: "('ty, 'c, 'a) ctx \<Rightarrow> ssa_value \<Rightarrow> ident option option" where
  "value_given_name ctx v = do {
     i \<leftarrow> find_index ctx v;
     case defining_entity v of
       OpDef p \<Rightarrow> get_operation_result_name ctx p i
     | BlockDef b \<Rightarrow> get_block_arg_name ctx b i
   }"

definition set_value_name ::
    "('ty, 'c, 'a) ctx \<Rightarrow> ssa_value \<Rightarrow> ident option \<Rightarrow> ('ty, 'c, 'a) ctx option"
where
  "set_value_name ctx v name = do {
     i \<leftarrow> find_index ctx v;
     case defining_entity v of
       OpDef p \<Rightarrow> set_operation_result_name ctx p i name
     | BlockDef b \<Rightarrow> set_block_arg_name ctx b i name
   }"

section \<open>Regions\<close>

definition move_to_op :: "('ty, 'c, 'a) ctx \<Rightarrow> region_ptr \<Rightarrow> op_ptr \<Rightarrow> ('ty, 'c, 'a) ctx option" where
  "move_to_op ctx r new_parent = do {
     reg \<leftarrow> regions ctx r;
     let src = parent_op reg;
     if src = new_parent then Some ctx
     else do {
       op \<leftarrow> operations ctx src;
       i \<leftarrow> position (\<lambda>x. x = r) (op_regions op);
       ctx \<leftarrow> modify_op ctx src (\<lambda>op. op\<lparr>op_regions := swap_remove_at i (op_regions op)\<rparr>);
       ctx \<leftarrow> modify_op ctx new_parent (\<lambda>op. op\<lparr>op_regions := op_regions op @ [r]\<rparr>);
       Some (ctx\<lparr>regions := (regions ctx)(r \<mapsto> reg\<lparr>parent_op := new_parent\<rparr>)\<rparr>)
     }
   }"

definition region_parent_op :: "('ty, 'c, 'a) ctx \<Rightarrow> region_ptr \<Rightarrow> op_ptr option" where
  "region_parent_op ctx r = map_option parent_op (regions ctx r)"

definition region_parent_region :: "('ty, 'c, 'a) ctx \<Rightarrow> region_ptr \<Rightarrow> region_ptr option option" where
  "region_parent_region ctx r = do { p \<leftarrow> region_parent_op ctx r; op_parent_region ctx p }"

definition region_parent_block :: "('ty, 'c, 'a) ctx \<Rightarrow> region_ptr \<Rightarrow> block_ptr option option" where
  "region_parent_block ctx r = do { p \<leftarrow> region_parent_op ctx r; get_parent_block ctx p }"

definition get_entry_block :: "('ty, 'c, 'a) ctx \<Rightarrow> region_ptr \<Rightarrow> block_ptr option option" where
  "get_entry_block ctx r = map_option get_head (roots (block_links ctx) r)"

definition find_index_in_parent :: "('ty, 'c, 'a) ctx \<Rightarrow> region_ptr \<Rightarrow> nat option" where
  "find_index_in_parent ctx r = do {
     p \<leftarrow> region_parent_op ctx r;
     op \<leftarrow> operations ctx p;
     position (\<lambda>x. x = r) (op_regions op)
   }"

end
