(* ===== verification/DefUse.thy ===== *)
theory DefUse
  imports Ir
begin

text \<open>
  The def-use invariant of the intermediate representation: the uses recorded at a definition are
  exactly the operands that name it. It is stated on two views of the context, the uses of every
  definition and the operands of every operation, and holds both for values (and operands) and for
  blocks (and successors). The locale \<open>def_use_store\<close> is what the code generic in \<open>DefTrait\<close> and
  \<open>UseTrait\<close> needs of an implementation; its lemmas describe \<open>operand_new\<close>, \<open>drop_use\<close> and
  \<open>replace_use_with\<close> once, and values and blocks are its two interpretations.
\<close>

section \<open>The invariant on the views\<close>

type_synonym 'd uses_view = "'d \<rightharpoonup> use_ref list"
type_synonym 'd opds_view = "op_ptr \<rightharpoonup> 'd operand list"

definition def_use_ok :: "'d uses_view \<Rightarrow> 'd opds_view \<Rightarrow> 64 word \<Rightarrow> bool" where
  "def_use_ok uses opds n \<longleftrightarrow>
     (\<forall>d us. uses d = Some us \<longrightarrow> distinct us \<and>
        (\<forall>u \<in> set us. \<exists>xs x. opds (user_op u) = Some xs \<and> x \<in> set xs
           \<and> opd_uid x = use_uid u \<and> opd_def x = d))
     \<and> (\<forall>p xs. opds p = Some xs \<longrightarrow> distinct (map opd_uid xs) \<and>
        (\<forall>x \<in> set xs. opd_uid x < n \<and> (\<exists>us. uses (opd_def x) = Some us \<and> as_use x p \<in> set us)))"

lemma as_use_simps [simp]: "user_op (as_use x p) = p" "use_uid (as_use x p) = opd_uid x"
  by (simp_all add: as_use_def)

lemma use_ref_eq_as_use: "u = as_use x p \<longleftrightarrow> user_op u = p \<and> use_uid u = opd_uid x"
  by (cases u) (auto simp: as_use_def)

lemma def_use_okD:
  assumes "def_use_ok uses opds n"
  shows "uses d = Some us \<Longrightarrow> distinct us"
    and "uses d = Some us \<Longrightarrow> u \<in> set us \<Longrightarrow>
      \<exists>xs x. opds (user_op u) = Some xs \<and> x \<in> set xs \<and> opd_uid x = use_uid u \<and> opd_def x = d"
    and "opds p = Some xs \<Longrightarrow> distinct (map opd_uid xs)"
    and "opds p = Some xs \<Longrightarrow> x \<in> set xs \<Longrightarrow> opd_uid x < n"
    and "opds p = Some xs \<Longrightarrow> x \<in> set xs \<Longrightarrow> \<exists>us. uses (opd_def x) = Some us \<and> as_use x p \<in> set us"
  using assms by (auto simp: def_use_ok_def)

text \<open>A use determines its operand, hence its definition.\<close>

lemma def_use_unique:
  assumes "def_use_ok uses opds n" and "uses d = Some us" and "u \<in> set us"
    and "opds (user_op u) = Some xs" and "x \<in> set xs" and "opd_uid x = use_uid u"
  shows "opd_def x = d"
proof -
  obtain y where y: "y \<in> set xs" "opd_uid y = use_uid u" "opd_def y = d"
    using def_use_okD(2)[OF assms(1-3)] assms(4) by auto
  have "distinct (map opd_uid xs)" using def_use_okD(3)[OF assms(1,4)] .
  then have "x = y" using assms(5,6) y(1,2) by (auto simp: distinct_map inj_on_def)
  then show ?thesis using y by simp
qed

lemma def_use_fresh:
  assumes "def_use_ok uses opds n" and "uses d = Some us"
  shows "\<lparr>user_op = p, use_uid = n\<rparr> \<notin> set us"
proof
  assume "\<lparr>user_op = p, use_uid = n\<rparr> \<in> set us"
  then obtain xs x where "opds p = Some xs" "x \<in> set xs" "opd_uid x = n"
    using def_use_okD(2)[OF assms, of "\<lparr>user_op = p, use_uid = n\<rparr>"] by auto
  then show False using def_use_okD(4)[OF assms(1)] by fastforce
qed

lemma def_use_mono: "def_use_ok uses opds n \<Longrightarrow> n \<le> m \<Longrightarrow> def_use_ok uses opds m"
  unfolding def_use_ok_def by (meson order_less_le_trans)

text \<open>A new operand, with its use recorded.\<close>

lemma def_use_add:
  assumes ok: "def_use_ok uses opds n" and d: "uses d = Some us" and p: "opds p = Some xs"
    and n: "n < n + 1"
    and xs': "set xs' = insert \<lparr>opd_def = d, opd_uid = n\<rparr> (set xs)" "distinct (map opd_uid xs')"
  shows "def_use_ok (uses(d \<mapsto> us @ [\<lparr>user_op = p, use_uid = n\<rparr>])) (opds(p \<mapsto> xs')) (n + 1)"
proof -
  let ?x = "\<lparr>opd_def = d, opd_uid = n\<rparr>" and ?u = "\<lparr>user_op = p, use_uid = n\<rparr>"
  let ?uses = "uses(d \<mapsto> us @ [?u])" and ?opds = "opds(p \<mapsto> xs')"
  have au: "as_use ?x p = ?u" by (simp add: as_use_def)
  have 1: "distinct vs \<and> (\<forall>u \<in> set vs. \<exists>ys y. ?opds (user_op u) = Some ys \<and> y \<in> set ys
      \<and> opd_uid y = use_uid u \<and> opd_def y = e)" if vs: "?uses e = Some vs" for e vs
  proof (cases "e = d")
    case True
    then have e: "vs = us @ [?u]" using vs by simp
    have "distinct vs" using def_use_okD(1)[OF ok d] def_use_fresh[OF ok d, of p] e by simp
    moreover have "\<exists>ys y. ?opds (user_op u) = Some ys \<and> y \<in> set ys \<and> opd_uid y = use_uid u \<and> opd_def y = e"
      if u: "u \<in> set vs" for u
    proof (cases "u = ?u")
      case True
      then show ?thesis using xs' \<open>e = d\<close> by (intro exI[of _ xs'] exI[of _ ?x]) auto
    next
      case False
      then have "u \<in> set us" using u e by auto
      then obtain ys y where "opds (user_op u) = Some ys" "y \<in> set ys" "opd_uid y = use_uid u" "opd_def y = d"
        using def_use_okD(2)[OF ok d] by blast
      then show ?thesis using p xs' \<open>e = d\<close> by (cases "user_op u = p") auto
    qed
    ultimately show ?thesis by blast
  next
    case False
    then have v: "uses e = Some vs" using vs by simp
    have "\<exists>ys y. ?opds (user_op u) = Some ys \<and> y \<in> set ys \<and> opd_uid y = use_uid u \<and> opd_def y = e"
      if u: "u \<in> set vs" for u
    proof -
      obtain ys y where "opds (user_op u) = Some ys" "y \<in> set ys" "opd_uid y = use_uid u" "opd_def y = e"
        using def_use_okD(2)[OF ok v u] by blast
      then show ?thesis using p xs' by (cases "user_op u = p") auto
    qed
    then show ?thesis using def_use_okD(1)[OF ok v] by blast
  qed
  have old: "opd_uid x < n + 1 \<and> (\<exists>us. ?uses (opd_def x) = Some us \<and> as_use x q \<in> set us)"
    if q: "opds q = Some ys" "x \<in> set ys" for q ys x
    using def_use_okD(4)[OF ok q] def_use_okD(5)[OF ok q] n d by auto
  have 2: "distinct (map opd_uid ys) \<and> (\<forall>x \<in> set ys. opd_uid x < n + 1
      \<and> (\<exists>us. ?uses (opd_def x) = Some us \<and> as_use x q \<in> set us))" if ys: "?opds q = Some ys" for q ys
  proof (cases "q = p")
    case True
    then have "ys = xs'" using ys by simp
    then show ?thesis using xs' old[OF p] True n au by auto
  next
    case False
    then show ?thesis using ys old[of q ys] def_use_okD(3)[OF ok, of q ys] by auto
  qed
  show ?thesis unfolding def_use_ok_def using 1 2 by blast
qed

text \<open>An operand taken away, with its use.\<close>

lemma def_use_remove:
  assumes ok: "def_use_ok uses opds n" and p: "opds p = Some xs" and x: "x \<in> set xs"
    and xs': "set xs' = set xs - {x}" "distinct (map opd_uid xs')"
    and d: "uses (opd_def x) = Some us"
  shows "def_use_ok (uses(opd_def x \<mapsto> ls_swap_remove (as_use x p) us)) (opds(p \<mapsto> xs')) n"
proof -
  let ?us' = "ls_swap_remove (as_use x p) us"
  let ?uses = "uses(opd_def x \<mapsto> ?us')" and ?opds = "opds(p \<mapsto> xs')"
  have us': "distinct ?us'" "set ?us' = set us - {as_use x p}"
    using ls_swap_remove_set[OF def_use_okD(1)[OF ok d]] by blast+
  have uid: "y = x" if "y \<in> set xs" "opd_uid y = opd_uid x" for y
    using that x def_use_okD(3)[OF ok p] by (auto simp: distinct_map inj_on_def)
  have keep: "\<exists>ys y. ?opds (user_op u) = Some ys \<and> y \<in> set ys \<and> opd_uid y = use_uid u \<and> opd_def y = e"
    if v: "uses e = Some vs" "u \<in> set vs" "u \<noteq> as_use x p" for e vs u
  proof -
    obtain ys y where y: "opds (user_op u) = Some ys" "y \<in> set ys" "opd_uid y = use_uid u" "opd_def y = e"
      using def_use_okD(2)[OF ok v(1,2)] by blast
    show ?thesis
    proof (cases "user_op u = p")
      case True
      then have "y \<noteq> x" using v(3) y(3) by (auto simp: use_ref_eq_as_use)
      then show ?thesis using True y p xs' by auto
    next
      case False
      then show ?thesis using y by auto
    qed
  qed
  have 1: "distinct vs \<and> (\<forall>u \<in> set vs. \<exists>ys y. ?opds (user_op u) = Some ys \<and> y \<in> set ys
      \<and> opd_uid y = use_uid u \<and> opd_def y = e)" if vs: "?uses e = Some vs" for e vs
  proof (cases "e = opd_def x")
    case True
    then have "vs = ?us'" using vs by simp
    then show ?thesis using us' keep[OF d] True by auto
  next
    case False
    then have v: "uses e = Some vs" using vs by simp
    have "u \<noteq> as_use x p" if "u \<in> set vs" for u
      using def_use_unique[OF ok v that, of xs x] p x False by auto
    then show ?thesis using def_use_okD(1)[OF ok v] keep[OF v] by blast
  qed
  have 2: "distinct (map opd_uid ys) \<and> (\<forall>y \<in> set ys. opd_uid y < n
      \<and> (\<exists>us. ?uses (opd_def y) = Some us \<and> as_use y q \<in> set us))" if ys: "?opds q = Some ys" for q ys
  proof -
    have 3: "opd_uid y < n \<and> (\<exists>us. ?uses (opd_def y) = Some us \<and> as_use y q \<in> set us)"
      if q: "opds q = Some zs" "y \<in> set zs" "as_use y q \<noteq> as_use x p" for y zs
    proof -
      obtain ws where ws: "uses (opd_def y) = Some ws" "as_use y q \<in> set ws"
        using def_use_okD(5)[OF ok q(1,2)] by blast
      have "\<exists>us. ?uses (opd_def y) = Some us \<and> as_use y q \<in> set us"
        using ws us' d q(3) by (cases "opd_def y = opd_def x") auto
      then show ?thesis using def_use_okD(4)[OF ok q(1,2)] by blast
    qed
    show ?thesis
    proof (cases "q = p")
      case True
      then have "ys = xs'" using ys by simp
      moreover have "as_use y q \<noteq> as_use x p" if "y \<in> set xs'" for y
        using that xs' uid[of y] by (auto simp: use_ref_eq_as_use)
      ultimately show ?thesis using xs' 3[of xs] p True by auto
    next
      case False
      then have "opds q = Some ys" using ys by simp
      moreover have "as_use y q \<noteq> as_use x p" for y using False by (auto simp: use_ref_eq_as_use)
      ultimately show ?thesis using 3[of ys] def_use_okD(3)[OF ok] by blast
    qed
  qed
  show ?thesis unfolding def_use_ok_def using 1 2 by blast
qed

text \<open>An operand renamed, its use moved from one definition to the other.\<close>

lemma def_use_move:
  assumes ok: "def_use_ok uses opds n" and p: "opds p = Some xs" and i: "i < length xs"
    and d: "uses (opd_def (xs ! i)) = Some us" and e: "uses e = Some vs" and ne: "e \<noteq> opd_def (xs ! i)"
  shows "def_use_ok
     (uses(e \<mapsto> vs @ [as_use (xs ! i) p],
           opd_def (xs ! i) \<mapsto> ls_swap_remove (as_use (xs ! i) p) us))
     (opds(p \<mapsto> xs[i := (xs ! i)\<lparr>opd_def := e\<rparr>])) n"
proof -
  let ?x = "xs ! i" and ?u = "as_use (xs ! i) p"
  let ?y = "?x\<lparr>opd_def := e\<rparr>" let ?xs' = "xs[i := ?y]"
  let ?us' = "ls_swap_remove ?u us"
  let ?uses = "uses(e \<mapsto> vs @ [?u], opd_def ?x \<mapsto> ?us')" and ?opds = "opds(p \<mapsto> ?xs')"
  have us': "distinct ?us'" "set ?us' = set us - {?u}"
    using ls_swap_remove_set[OF def_use_okD(1)[OF ok d]] by blast+
  have x: "?x \<in> set xs" using i by simp
  have dx: "distinct (map opd_uid xs)" using def_use_okD(3)[OF ok p] .
  have "distinct xs" using dx by (simp add: distinct_map)
  then have xs': "set ?xs' = insert ?y (set xs - {?x})" using i by (simp add: set_update_distinct)
  have mu: "map opd_uid ?xs' = map opd_uid xs"
  proof -
    have "map opd_uid ?xs' = (map opd_uid xs)[i := opd_uid ?x]" by (simp add: map_update)
    then show ?thesis using i by (metis list_update_id nth_map)
  qed
  have unv: "?u \<notin> set vs" using def_use_unique[OF ok e, of ?u xs ?x] p x ne by auto
  have keep: "\<exists>ys y. ?opds (user_op u) = Some ys \<and> y \<in> set ys \<and> opd_uid y = use_uid u \<and> opd_def y = f"
    if v: "uses f = Some ws" "u \<in> set ws" "u \<noteq> ?u" for f ws u
  proof -
    obtain ys y where y: "opds (user_op u) = Some ys" "y \<in> set ys" "opd_uid y = use_uid u" "opd_def y = f"
      using def_use_okD(2)[OF ok v(1,2)] by blast
    show ?thesis
    proof (cases "user_op u = p")
      case True
      then have "y \<noteq> ?x" using v(3) y(3) by (auto simp: use_ref_eq_as_use)
      then show ?thesis using True y p xs' by auto
    next
      case False
      then show ?thesis using y by auto
    qed
  qed
  have new: "\<exists>ys y. ?opds (user_op ?u) = Some ys \<and> y \<in> set ys \<and> opd_uid y = use_uid ?u \<and> opd_def y = e"
    using xs' by (intro exI[of _ ?xs'] exI[of _ ?y]) auto
  have 1: "distinct ws \<and> (\<forall>u \<in> set ws. \<exists>ys y. ?opds (user_op u) = Some ys \<and> y \<in> set ys
      \<and> opd_uid y = use_uid u \<and> opd_def y = f)" if ws: "?uses f = Some ws" for f ws
  proof (cases "f = opd_def ?x")
    case True
    then have "ws = ?us'" using ws by simp
    then show ?thesis using us' keep[OF d] True by auto
  next
    case f: False
    show ?thesis
    proof (cases "f = e")
      case True
      then have w: "ws = vs @ [?u]" using ws ne by simp
      show ?thesis
      proof (intro conjI ballI)
        show "distinct ws" using w unv def_use_okD(1)[OF ok e] by simp
        fix u assume "u \<in> set ws"
        then show "\<exists>ys y. ?opds (user_op u) = Some ys \<and> y \<in> set ys \<and> opd_uid y = use_uid u \<and> opd_def y = f"
          using w keep[OF e, of u] new True by (cases "u = ?u") auto
      qed
    next
      case False
      then have v: "uses f = Some ws" using ws f by simp
      have "u \<noteq> ?u" if "u \<in> set ws" for u
        using def_use_unique[OF ok v that, of xs ?x] p x f by auto
      then show ?thesis using def_use_okD(1)[OF ok v] keep[OF v] by blast
    qed
  qed
  have uid: "y = ?x" if "y \<in> set xs" "opd_uid y = opd_uid ?x" for y
    using that x dx by (auto simp: distinct_map inj_on_def)
  have 3: "opd_uid y < n \<and> (\<exists>us. ?uses (opd_def y) = Some us \<and> as_use y q \<in> set us)"
    if q: "opds q = Some zs" "y \<in> set zs" "as_use y q \<noteq> ?u" for y zs q
  proof -
    obtain ws where ws: "uses (opd_def y) = Some ws" "as_use y q \<in> set ws"
      using def_use_okD(5)[OF ok q(1,2)] by blast
    have "\<exists>us. ?uses (opd_def y) = Some us \<and> as_use y q \<in> set us"
      using ws us' d e q(3) by (cases "opd_def y = opd_def ?x"; cases "opd_def y = e") auto
    then show ?thesis using def_use_okD(4)[OF ok q(1,2)] by blast
  qed
  have 2: "distinct (map opd_uid ys) \<and> (\<forall>y \<in> set ys. opd_uid y < n
      \<and> (\<exists>us. ?uses (opd_def y) = Some us \<and> as_use y q \<in> set us))" if ys: "?opds q = Some ys" for q ys
  proof (cases "q = p")
    case True
    then have y: "ys = ?xs'" using ys by simp
    have "opd_uid y < n \<and> (\<exists>us. ?uses (opd_def y) = Some us \<and> as_use y q \<in> set us)" if "y \<in> set ys" for y
    proof (cases "y = ?y")
      case True
      then show ?thesis using \<open>q = p\<close> def_use_okD(4)[OF ok p x] ne by (auto simp: as_use_def)
    next
      case False
      then have y: "y \<in> set xs" "y \<noteq> ?x" using that y xs' by auto
      then have "as_use y q \<noteq> ?u" using uid[of y] by (auto simp: use_ref_eq_as_use)
      then show ?thesis using 3[OF p y(1), of ] True by blast
    qed
    then show ?thesis using y mu dx by auto
  next
    case False
    then have "opds q = Some ys" using ys by simp
    moreover have "as_use y q \<noteq> ?u" for y using False by (auto simp: use_ref_eq_as_use)
    ultimately show ?thesis using 3[of q ys] def_use_okD(3)[OF ok] by blast
  qed
  show ?thesis unfolding def_use_ok_def using 1 2 by blast
qed

section \<open>What generic code needs of an implementation\<close>

text \<open>
  \<open>opds\<close> and \<open>put_opds\<close> read and write the operands of an operation; \<open>ok\<close> is the invariant under
  which definitions are told apart; \<open>rest\<close> is everything the chains do not include.
\<close>

locale def_use_store =
  fixes T :: "('d, ('ty, 'c, 'a) ctx) def_use"
    and opds :: "('ty, 'c, 'a) ctx \<Rightarrow> 'd opds_view"
    and put_opds :: "('ty, 'c, 'a) ctx \<Rightarrow> op_ptr \<Rightarrow> 'd operand list \<Rightarrow> ('ty, 'c, 'a) ctx option"
    and ok :: "('ty, 'c, 'a) ctx \<Rightarrow> bool"
    and rest :: "('ty, 'c, 'a) ctx \<Rightarrow> 'f"
  assumes set_defnode: "ok s \<Longrightarrow> get_defnode T s d = Some vs \<Longrightarrow>
      \<exists>s'. set_defnode T s d us = Some s' \<and> ok s' \<and> get_defnode T s' = (get_defnode T s)(d \<mapsto> us)
        \<and> opds s' = opds s \<and> use_counter s' = use_counter s \<and> rest s' = rest s"
    and put_opds: "ok s \<Longrightarrow> opds s p = Some ys \<Longrightarrow>
      \<exists>s'. put_opds s p xs = Some s' \<and> ok s' \<and> get_defnode T s' = get_defnode T s
        \<and> opds s' = (opds s)(p \<mapsto> xs) \<and> use_counter s' = use_counter s \<and> rest s' = rest s"
    and try_find_use: "try_find_use T s u =
      map_option (\<lambda>xs. position (\<lambda>x. opd_uid x = use_uid u) xs) (opds s (user_op u))"
    and get_usenode: "opds s (user_op u) = Some xs \<Longrightarrow>
      position (\<lambda>x. opd_uid x = use_uid u) xs = Some i \<Longrightarrow> get_usenode T s u = Some (opd_def (xs ! i))"
    and set_usenode: "opds s (user_op u) = Some xs \<Longrightarrow>
      position (\<lambda>x. opd_uid x = use_uid u) xs = Some i \<Longrightarrow>
      set_usenode T s u d = put_opds s (user_op u) (xs[i := (xs ! i)\<lparr>opd_def := d\<rparr>])"
    and counter: "ok s \<Longrightarrow> ok (s\<lparr>use_counter := n\<rparr>)"
      "get_defnode T (s\<lparr>use_counter := n\<rparr>) = get_defnode T s"
      "opds (s\<lparr>use_counter := n\<rparr>) = opds s" "rest (s\<lparr>use_counter := n\<rparr>) = rest s"

definition du_ok ::
    "('d, ('ty, 'c, 'a) ctx) def_use \<Rightarrow> (('ty, 'c, 'a) ctx \<Rightarrow> 'd opds_view) \<Rightarrow> ('ty, 'c, 'a) ctx \<Rightarrow> bool"
where
  "du_ok T opds s \<longleftrightarrow> def_use_ok (get_defnode T s) (opds s) (use_counter s)"

context def_use_store
begin

lemma operand_new_fresh:
  assumes s: "ok s" and d: "get_defnode T s d = Some us"
    and fresh: "\<lparr>user_op = p, use_uid = use_counter s\<rparr> \<notin> set us"
  shows "\<exists>s'. operand_new T s d p = Some (\<lparr>opd_def = d, opd_uid = use_counter s\<rparr>, s') \<and> ok s'
    \<and> get_defnode T s' = (get_defnode T s)(d \<mapsto> us @ [\<lparr>user_op = p, use_uid = use_counter s\<rparr>])
    \<and> opds s' = opds s \<and> use_counter s' = use_counter s + 1 \<and> rest s' = rest s"
proof -
  let ?u = "\<lparr>user_op = p, use_uid = use_counter s\<rparr>"
  let ?s = "s\<lparr>use_counter := use_counter s + 1\<rparr>"
  have d': "get_defnode T ?s d = Some us" using d by (simp add: counter)
  obtain s' where s': "set_defnode T ?s d (us @ [?u]) = Some s'" "ok s'"
      "get_defnode T s' = (get_defnode T ?s)(d \<mapsto> us @ [?u])"
      "opds s' = opds ?s" "use_counter s' = use_counter ?s" "rest s' = rest ?s"
    using set_defnode[OF counter(1)[OF s] d', of "us @ [?u]"] by blast
  have "operand_new T s d p = Some (\<lparr>opd_def = d, opd_uid = use_counter s\<rparr>, s')"
    using s'(1) d' fresh by (simp add: operand_new_def get_new_use_uid_def add_use_def ls_insert_def)
  then show ?thesis using s' by (simp add: counter)
qed

lemmas operand_new_spec = operand_new_fresh[OF _ _ def_use_fresh]

lemma operand_new_needs_def: "operand_new T s d p = Some r \<Longrightarrow> get_defnode T s d \<noteq> None"
proof
  assume r: "operand_new T s d p = Some r" and "get_defnode T s d = None"
  then have "get_defnode T (s\<lparr>use_counter := use_counter s + 1\<rparr>) d = None" by (simp only: counter(2))
  then show False using r by (simp add: operand_new_def get_new_use_uid_def)
qed

lemma drop_use_spec:
  assumes s: "ok s" and d: "get_defnode T s (opd_def x) = Some us" and x: "as_use x p \<in> set us"
  shows "\<exists>s'. drop_use T s x p = Some s' \<and> ok s'
    \<and> get_defnode T s' = (get_defnode T s)(opd_def x \<mapsto> ls_swap_remove (as_use x p) us)
    \<and> opds s' = opds s \<and> use_counter s' = use_counter s \<and> rest s' = rest s"
proof -
  obtain s' where s': "set_defnode T s (opd_def x) (ls_swap_remove (as_use x p) us) = Some s'" "ok s'"
      "get_defnode T s' = (get_defnode T s)(opd_def x \<mapsto> ls_swap_remove (as_use x p) us)"
      "opds s' = opds s" "use_counter s' = use_counter s" "rest s' = rest s"
    using set_defnode[OF s d, of "ls_swap_remove (as_use x p) us"] by blast
  then show ?thesis using d x by (simp add: drop_use_def remove_use_def as_use_def)
qed

text \<open>Adding an operand: the new use is recorded and the operands are written back.\<close>

lemma add_operand:
  assumes s: "ok s" "du_ok T opds s" and d: "get_defnode T s d = Some us"
    and p: "opds s p = Some xs" and n: "use_counter s < use_counter s + 1"
    and xs': "set xs' = insert \<lparr>opd_def = d, opd_uid = use_counter s\<rparr> (set xs)" "distinct (map opd_uid xs')"
  shows "\<exists>s1 s2. operand_new T s d p = Some (\<lparr>opd_def = d, opd_uid = use_counter s\<rparr>, s1)
    \<and> opds s1 = opds s \<and> put_opds s1 p xs' = Some s2 \<and> ok s2 \<and> du_ok T opds s2
    \<and> get_defnode T s2 = (get_defnode T s)(d \<mapsto> us @ [\<lparr>user_op = p, use_uid = use_counter s\<rparr>])
    \<and> opds s2 = (opds s)(p \<mapsto> xs') \<and> use_counter s2 = use_counter s + 1 \<and> rest s2 = rest s"
proof -
  obtain s1 where s1: "operand_new T s d p = Some (\<lparr>opd_def = d, opd_uid = use_counter s\<rparr>, s1)" "ok s1"
      "get_defnode T s1 = (get_defnode T s)(d \<mapsto> us @ [\<lparr>user_op = p, use_uid = use_counter s\<rparr>])"
      "opds s1 = opds s" "use_counter s1 = use_counter s + 1" "rest s1 = rest s"
    using operand_new_spec[OF s(1) d s(2)[unfolded du_ok_def] d] by blast
  have p1: "opds s1 p = Some xs" using p s1(4) by simp
  obtain s2 where s2: "put_opds s1 p xs' = Some s2" "ok s2" "get_defnode T s2 = get_defnode T s1"
      "opds s2 = (opds s1)(p \<mapsto> xs')" "use_counter s2 = use_counter s1" "rest s2 = rest s1"
    using put_opds[OF s1(2) p1, of xs'] by blast
  have "du_ok T opds s2"
    using def_use_add[OF s(2)[unfolded du_ok_def] d p n xs'] s1 s2 by (simp add: du_ok_def)
  then show ?thesis using s1 s2 by (intro exI[of _ s1] exI[of _ s2]) simp
qed

text \<open>
  The operands of a new operation: their uses are recorded one by one, before the list is written.
\<close>

lemma operands_new_spec:
  assumes "ok s" and "def_use_ok (get_defnode T s) ((opds s)(p \<mapsto> acc)) (use_counter s)"
    and "\<forall>d \<in> set ds. get_defnode T s d \<noteq> None" and "unat (use_counter s) + length ds < 2 ^ 64"
  shows "\<exists>xs s'. operands_new T s ds p = Some (xs, s') \<and> ok s'
    \<and> def_use_ok (get_defnode T s') ((opds s')(p \<mapsto> acc @ xs)) (use_counter s')
    \<and> opds s' = opds s \<and> rest s' = rest s \<and> map opd_def xs = ds
    \<and> dom (get_defnode T s') = dom (get_defnode T s)
    \<and> unat (use_counter s') = unat (use_counter s) + length ds"
  using assms
proof (induction ds arbitrary: s acc)
  case (Cons d ds)
  let ?x = "\<lparr>opd_def = d, opd_uid = use_counter s\<rparr>"
  have n1: "unat (use_counter s + 1) = unat (use_counter s) + 1"
    using Cons.prems(4) by (simp add: unat_word_ariths)
  have n: "use_counter s < use_counter s + 1" by (simp add: word_less_nat_alt n1)
  obtain us where us: "get_defnode T s d = Some us" using Cons.prems(3) by auto
  have f: "use_counter s \<notin> opd_uid ` set acc" "distinct (map opd_uid acc)"
    using def_use_okD(3,4)[OF Cons.prems(2), of p acc] by fastforce+
  obtain s1 where s1: "operand_new T s d p = Some (?x, s1)" "ok s1"
      "get_defnode T s1 = (get_defnode T s)(d \<mapsto> us @ [\<lparr>user_op = p, use_uid = use_counter s\<rparr>])"
      "opds s1 = opds s" "use_counter s1 = use_counter s + 1" "rest s1 = rest s"
    using operand_new_spec[OF Cons.prems(1) us Cons.prems(2) us] by blast
  have "def_use_ok ((get_defnode T s)(d \<mapsto> us @ [\<lparr>user_op = p, use_uid = use_counter s\<rparr>]))
      (((opds s)(p \<mapsto> acc))(p \<mapsto> acc @ [?x])) (use_counter s + 1)"
    by (rule def_use_add[OF Cons.prems(2) us _ n, where xs = acc]) (use f in auto)
  then have du1: "def_use_ok (get_defnode T s1) ((opds s1)(p \<mapsto> acc @ [?x])) (use_counter s1)"
    using s1 by simp
  have live: "\<forall>d \<in> set ds. get_defnode T s1 d \<noteq> None" using Cons.prems(3) s1(3) by auto
  have room: "unat (use_counter s1) + length ds < 2 ^ 64" using Cons.prems(4) s1(5) n1 by simp
  obtain xs s' where s': "operands_new T s1 ds p = Some (xs, s')" "ok s'"
      "def_use_ok (get_defnode T s') ((opds s')(p \<mapsto> (acc @ [?x]) @ xs)) (use_counter s')"
      "opds s' = opds s1" "rest s' = rest s1" "map opd_def xs = ds"
      "dom (get_defnode T s') = dom (get_defnode T s1)"
      "unat (use_counter s') = unat (use_counter s1) + length ds"
    using Cons.IH[OF s1(2) du1 live room] by blast
  have "operands_new T s (d # ds) p = Some (?x # xs, s')" using s1(1) s'(1) by simp
  moreover have "dom (get_defnode T s') = dom (get_defnode T s)" using s'(7) s1(3) us by auto
  moreover have "def_use_ok (get_defnode T s') ((opds s')(p \<mapsto> acc @ ?x # xs)) (use_counter s')"
    using s'(3) by (simp only: append_assoc append_Cons append_Nil)
  moreover have "opds s' = opds s" "rest s' = rest s" "map opd_def (?x # xs) = d # ds"
      "unat (use_counter s') = unat (use_counter s) + length (d # ds)"
    using s'(4-6,8) s1(4-6) n1 by simp_all
  ultimately show ?case using s'(2) by (intro exI[of _ "?x # xs"] exI[of _ s'] conjI) assumption+
qed (auto intro!: exI[of _ "[]"])

text \<open>Taking an operand away: the operands are written back, then its use is dropped.\<close>

lemma take_operand:
  assumes s: "ok s" "du_ok T opds s" and p: "opds s p = Some xs" and x: "x \<in> set xs"
    and xs': "set xs' = set xs - {x}" "distinct (map opd_uid xs')"
  shows "\<exists>us s1 s2. get_defnode T s (opd_def x) = Some us \<and> put_opds s p xs' = Some s1
    \<and> drop_use T s1 x p = Some s2 \<and> ok s2 \<and> du_ok T opds s2
    \<and> get_defnode T s2 = (get_defnode T s)(opd_def x \<mapsto> ls_swap_remove (as_use x p) us)
    \<and> opds s2 = (opds s)(p \<mapsto> xs') \<and> use_counter s2 = use_counter s \<and> rest s2 = rest s"
proof -
  obtain us where us: "get_defnode T s (opd_def x) = Some us" "as_use x p \<in> set us"
    using def_use_okD(5)[OF s(2)[unfolded du_ok_def] p x] by blast
  obtain s1 where s1: "put_opds s p xs' = Some s1" "ok s1" "get_defnode T s1 = get_defnode T s"
      "opds s1 = (opds s)(p \<mapsto> xs')" "use_counter s1 = use_counter s" "rest s1 = rest s"
    using put_opds[OF s(1) p, of xs'] by blast
  have us1: "get_defnode T s1 (opd_def x) = Some us" using us s1(3) by simp
  obtain s2 where s2: "drop_use T s1 x p = Some s2" "ok s2"
      "get_defnode T s2 = (get_defnode T s1)(opd_def x \<mapsto> ls_swap_remove (as_use x p) us)"
      "opds s2 = opds s1" "use_counter s2 = use_counter s1" "rest s2 = rest s1"
    using drop_use_spec[OF s1(2) us1 us(2)] by blast
  have "du_ok T opds s2"
    using def_use_remove[OF s(2)[unfolded du_ok_def] p x xs' us(1)] s1 s2 by (simp add: du_ok_def)
  then show ?thesis
    using us s1 s2 by (intro exI[of _ us] exI[of _ s1] exI[of _ s2]) simp
qed

text \<open>
  Overwriting an operand: the new use is recorded, the place overwritten, and only then the use of
  the old operand dropped. In between the old operand is in no list; the views at the end are those of
  adding the new operand and then taking the old one away.
\<close>

lemma swap_operand:
  assumes s: "ok s" "du_ok T opds s" and d: "get_defnode T s d = Some us" and p: "opds s p = Some xs"
    and n: "use_counter s < use_counter s + 1" and i: "i < length xs"
  shows "\<exists>s1 s2 s3. operand_new T s d p = Some (\<lparr>opd_def = d, opd_uid = use_counter s\<rparr>, s1)
    \<and> opds s1 = opds s \<and> put_opds s1 p (xs[i := \<lparr>opd_def = d, opd_uid = use_counter s\<rparr>]) = Some s2
    \<and> drop_use T s2 (xs ! i) p = Some s3 \<and> ok s3 \<and> du_ok T opds s3
    \<and> opds s3 = (opds s)(p \<mapsto> xs[i := \<lparr>opd_def = d, opd_uid = use_counter s\<rparr>])
    \<and> use_counter s3 = use_counter s + 1 \<and> rest s3 = rest s"
proof -
  let ?x = "\<lparr>opd_def = d, opd_uid = use_counter s\<rparr>" and ?old = "xs ! i"
  let ?xs = "xs[i := ?x]"
  note du = s(2)[unfolded du_ok_def]
  have f: "use_counter s \<notin> opd_uid ` set xs" "distinct (map opd_uid xs)" "distinct xs"
    using def_use_okD(3,4)[OF du p] by (fastforce simp: distinct_map)+
  obtain s1 where s1: "operand_new T s d p = Some (?x, s1)" "ok s1"
      "get_defnode T s1 = (get_defnode T s)(d \<mapsto> us @ [as_use ?x p])" "opds s1 = opds s"
      "use_counter s1 = use_counter s + 1" "rest s1 = rest s"
    using operand_new_spec[OF s(1) d du d, of p] by (auto simp: as_use_def)
  obtain s2 where s2: "put_opds s1 p ?xs = Some s2" "ok s2" "get_defnode T s2 = get_defnode T s1"
      "opds s2 = (opds s1)(p \<mapsto> ?xs)" "use_counter s2 = use_counter s1" "rest s2 = rest s1"
    using put_opds[of s1 p xs ?xs] s1(2,4) p by auto
  obtain ws where ws: "get_defnode T s (opd_def ?old) = Some ws" "as_use ?old p \<in> set ws"
    using def_use_okD(5)[OF du p] i by (metis nth_mem)
  define ws2 where "ws2 = (if opd_def ?old = d then us @ [as_use ?x p] else ws)"
  have w2: "get_defnode T s2 (opd_def ?old) = Some ws2" "as_use ?old p \<in> set ws2"
    using s2(3) s1(3) ws d by (auto simp: ws2_def)
  obtain s3 where s3: "drop_use T s2 ?old p = Some s3" "ok s3"
      "get_defnode T s3 = (get_defnode T s2)(opd_def ?old \<mapsto> ls_swap_remove (as_use ?old p) ws2)"
      "opds s3 = opds s2" "use_counter s3 = use_counter s2" "rest s3 = rest s2"
    using drop_use_spec[OF s2(2) w2] by blast
  let ?mid = "?x # xs"
  have mid: "set ?mid = insert ?x (set xs)" "distinct (map opd_uid ?mid)" using f by auto
  have du1: "def_use_ok ((get_defnode T s)(d \<mapsto> us @ [as_use ?x p])) ((opds s)(p \<mapsto> ?mid)) (use_counter s + 1)"
    using def_use_add[OF du d p n mid] by (simp add: as_use_def)
  have ne: "?x \<noteq> ?old" using f(1) i by (metis imageI nth_mem operand.select_convs(2))
  have fin: "set ?xs = set ?mid - {?old}" "distinct (map opd_uid ?xs)"
  proof -
    have "set ?xs = insert ?x (set xs - {?old})" using set_update_distinct[OF f(3) i] .
    then show "set ?xs = set ?mid - {?old}" using ne by auto
    show "distinct (map opd_uid ?xs)"
      using f(1,2) by (simp add: map_update distinct_list_update)
  qed
  have "def_use_ok (((get_defnode T s)(d \<mapsto> us @ [as_use ?x p]))(opd_def ?old \<mapsto> ls_swap_remove (as_use ?old p) ws2))
      (((opds s)(p \<mapsto> ?mid))(p \<mapsto> ?xs)) (use_counter s + 1)"
    by (rule def_use_remove[OF du1 _ _ fin]) (use i ws ws2_def in auto)
  then have "du_ok T opds s3" using s1 s2 s3 by (simp add: du_ok_def)
  then show ?thesis
    using s1 s2 s3 by (intro exI[of _ s1] exI[of _ s2] exI[of _ s3]) simp
qed

text \<open>Moving a use from one definition to another renames exactly its operand.\<close>

lemma replace_use_spec:
  assumes s: "ok s" "du_ok T opds s" and dfn: "get_defnode T s this = Some us"
    and other: "get_defnode T s other = Some vs" and ne: "this \<noteq> other" and u: "u \<in> set us"
  shows "\<exists>s' xs i. opds s (user_op u) = Some xs \<and> i < length xs \<and> opd_uid (xs ! i) = use_uid u
    \<and> opd_def (xs ! i) = this \<and> replace_use_with T s this u other = Some s'
    \<and> ok s' \<and> du_ok T opds s'
    \<and> get_defnode T s' = (get_defnode T s)(other \<mapsto> vs @ [u], this \<mapsto> ls_swap_remove u us)
    \<and> opds s' = (opds s)(user_op u \<mapsto> xs[i := (xs ! i)\<lparr>opd_def := other\<rparr>])
    \<and> use_counter s' = use_counter s \<and> rest s' = rest s"
proof -
  note du = s(2)[unfolded du_ok_def]
  let ?p = "user_op u"
  obtain xs x where x: "opds s ?p = Some xs" "x \<in> set xs" "opd_uid x = use_uid u" "opd_def x = this"
    using def_use_okD(2)[OF du dfn u] by blast
  then obtain i where i: "position (\<lambda>x. opd_uid x = use_uid u) xs = Some i"
    by (cases "position (\<lambda>x. opd_uid x = use_uid u) xs") (auto simp: position_None)
  then have i': "i < length xs" "opd_uid (xs ! i) = use_uid u" by (auto simp: position_Some)
  have di: "opd_def (xs ! i) = this"
    using def_use_unique[OF du dfn u x(1), of "xs ! i"] i' by simp
  have ui: "as_use (xs ! i) ?p = u" using i'(2) by (cases u) (simp add: as_use_def)
  have uv: "u \<notin> set vs" using def_use_unique[OF du other _ x(1), of x] x(2-4) ne by auto
  obtain s1 where s1: "set_defnode T s other (vs @ [u]) = Some s1" "ok s1"
      "get_defnode T s1 = (get_defnode T s)(other \<mapsto> vs @ [u])"
      "opds s1 = opds s" "use_counter s1 = use_counter s" "rest s1 = rest s"
    using set_defnode[OF s(1) other, of "vs @ [u]"] by blast
  let ?xs = "xs[i := (xs ! i)\<lparr>opd_def := other\<rparr>]"
  have x1: "opds s1 ?p = Some xs" using x(1) s1(4) by simp
  obtain s2 where s2: "put_opds s1 ?p ?xs = Some s2" "ok s2" "get_defnode T s2 = get_defnode T s1"
      "opds s2 = (opds s1)(?p \<mapsto> ?xs)" "use_counter s2 = use_counter s1" "rest s2 = rest s1"
    using put_opds[OF s1(2) x1, of ?xs] by blast
  have g2: "get_defnode T s2 this = Some us" using s2(3) s1(3) dfn ne by simp
  obtain s3 where s3: "set_defnode T s2 this (ls_swap_remove u us) = Some s3" "ok s3"
      "get_defnode T s3 = (get_defnode T s2)(this \<mapsto> ls_swap_remove u us)"
      "opds s3 = opds s2" "use_counter s3 = use_counter s2" "rest s3 = rest s2"
    using set_defnode[OF s2(2) g2, of "ls_swap_remove u us"] by blast
  have r: "replace_use_with T s this u other = Some s3"
    using dfn other ne uv s1(1) set_usenode[OF x1 i, of other] s2(1) g2 s3(1)
    by (simp add: replace_use_with_def add_use_def ls_insert_def)
  have "du_ok T opds s3"
    using def_use_move[OF du x(1) i'(1) _ other] dfn di ne ui s1 s2 s3 by (simp add: du_ok_def)
  then show ?thesis
    using r x(1) i' di s1 s2 s3 by (intro exI[of _ s3] exI[of _ xs] exI[of _ i]) simp
qed

text \<open>
  Replacing a list of uses of one definition renames the operands of exactly these uses, in
  whatever order they are taken.
\<close>

lemma replace_uses_spec:
  assumes "ok s" "du_ok T opds s" and "get_defnode T s this = Some us"
    and "get_defnode T s other = Some vs" and "this \<noteq> other" and "set rs \<subseteq> set us" and "distinct rs"
  shows "\<exists>s'. replace_uses T s this rs other = Some s' \<and> ok s' \<and> du_ok T opds s'
    \<and> (\<exists>us' vs'. get_defnode T s' = (get_defnode T s)(this \<mapsto> us', other \<mapsto> vs')
         \<and> set us' = set us - set rs \<and> set vs' = set vs \<union> set rs)
    \<and> opds s' = (\<lambda>p. map_option (map (\<lambda>x. if as_use x p \<in> set rs then x\<lparr>opd_def := other\<rparr> else x)) (opds s p))
    \<and> use_counter s' = use_counter s \<and> rest s' = rest s"
  using assms
proof (induction rs arbitrary: s us vs)
  case Nil
  have O: "opds s = (\<lambda>p. map_option
      (map (\<lambda>x. if as_use x p \<in> set [] then x\<lparr>opd_def := other\<rparr> else x)) (opds s p))"
    by (simp add: option.map_ident)
  have G: "\<exists>us' vs'. get_defnode T s = (get_defnode T s)(this \<mapsto> us', other \<mapsto> vs')
      \<and> set us' = set us - set [] \<and> set vs' = set vs \<union> set []"
  proof (rule exI[of _ us], rule exI[of _ vs], intro conjI)
    show "get_defnode T s = (get_defnode T s)(this \<mapsto> us, other \<mapsto> vs)"
      using Nil.prems(3,4) by (auto simp: fun_eq_iff)
  qed simp_all
  show ?case
    by (intro exI[of _ s] conjI Nil.prems(1,2) O G refl) (simp only: replace_uses.simps)
next
  case (Cons u rs)
  note du = Cons.prems(2)[unfolded du_ok_def]
  have u: "u \<in> set us" using Cons.prems(6) by simp
  obtain s1 xs i where s1: "opds s (user_op u) = Some xs" "i < length xs" "opd_uid (xs ! i) = use_uid u"
      "opd_def (xs ! i) = this" "replace_use_with T s this u other = Some s1" "ok s1" "du_ok T opds s1"
      "get_defnode T s1 = (get_defnode T s)(other \<mapsto> vs @ [u], this \<mapsto> ls_swap_remove u us)"
      "opds s1 = (opds s)(user_op u \<mapsto> xs[i := (xs ! i)\<lparr>opd_def := other\<rparr>])"
      "use_counter s1 = use_counter s" "rest s1 = rest s"
    using replace_use_spec[OF Cons.prems(1-5) u] by blast
  have us: "set (ls_swap_remove u us) = set us - {u}"
    using ls_swap_remove_set(2)[OF def_use_okD(1)[OF du Cons.prems(3)]] .
  have g: "get_defnode T s1 this = Some (ls_swap_remove u us)" "get_defnode T s1 other = Some (vs @ [u])"
    using s1(8) Cons.prems(5) by simp_all
  have dr: "distinct rs" using Cons.prems(7) by simp
  have sub: "set rs \<subseteq> set (ls_swap_remove u us)" using Cons.prems(6,7) us by auto
  obtain s' us' vs' where s': "replace_uses T s1 this rs other = Some s'" "ok s'" "du_ok T opds s'"
      "get_defnode T s' = (get_defnode T s1)(this \<mapsto> us', other \<mapsto> vs')"
      "set us' = set (ls_swap_remove u us) - set rs" "set vs' = set (vs @ [u]) \<union> set rs"
      "opds s' = (\<lambda>p. map_option (map (\<lambda>x. if as_use x p \<in> set rs then x\<lparr>opd_def := other\<rparr> else x)) (opds s1 p))"
      "use_counter s' = use_counter s1" "rest s' = rest s1"
    using Cons.IH[OF s1(6,7) g Cons.prems(5) sub dr] by blast
  have dx: "distinct (map opd_uid xs)" using def_use_okD(3)[OF du s1(1)] .
  have step: "map (\<lambda>x. if as_use x (user_op u) \<in> set rs then x\<lparr>opd_def := other\<rparr> else x)
        (xs[i := (xs ! i)\<lparr>opd_def := other\<rparr>])
      = map (\<lambda>x. if as_use x (user_op u) \<in> set (u # rs) then x\<lparr>opd_def := other\<rparr> else x) xs"
  proof (rule nth_equalityI)
    fix j assume "j < length (map (\<lambda>x. if as_use x (user_op u) \<in> set rs then x\<lparr>opd_def := other\<rparr> else x)
        (xs[i := (xs ! i)\<lparr>opd_def := other\<rparr>]))"
    then have j: "j < length xs" by simp
    have iu: "as_use (xs ! i) (user_op u) = u" using s1(3) by (cases u) (simp add: as_use_def)
    show "map (\<lambda>x. if as_use x (user_op u) \<in> set rs then x\<lparr>opd_def := other\<rparr> else x)
          (xs[i := (xs ! i)\<lparr>opd_def := other\<rparr>]) ! j
        = map (\<lambda>x. if as_use x (user_op u) \<in> set (u # rs) then x\<lparr>opd_def := other\<rparr> else x) xs ! j"
    proof (cases "j = i")
      case True
      then show ?thesis using j iu by simp
    next
      case False
      then have "opd_uid (xs ! j) \<noteq> opd_uid (xs ! i)"
        using dx j s1(2) by (metis length_map nth_eq_iff_index_eq nth_map)
      then have "as_use (xs ! j) (user_op u) \<noteq> u" using s1(3) by (metis as_use_simps(2))
      then show ?thesis using j False by simp
    qed
  qed simp
  have other_ops: "as_use x p \<noteq> u" if "p \<noteq> user_op u" for x :: "'d operand" and p
    using that by (metis as_use_simps(1))
  have ops: "opds s' = (\<lambda>p. map_option (map (\<lambda>x. if as_use x p \<in> set (u # rs) then x\<lparr>opd_def := other\<rparr> else x)) (opds s p))"
  proof
    fix p
    show "opds s' p = map_option (map (\<lambda>x. if as_use x p \<in> set (u # rs) then x\<lparr>opd_def := other\<rparr> else x)) (opds s p)"
    proof (cases "p = user_op u")
      case True
      then show ?thesis using s'(7) s1(1,9) step by simp
    next
      case False
      then show ?thesis using s'(7) s1(9) other_ops[OF False] by simp
    qed
  qed
  have m: "get_defnode T s' = (get_defnode T s)(this \<mapsto> us', other \<mapsto> vs')"
    using s'(4) s1(8) Cons.prems(5) by (auto simp: fun_eq_iff)
  have sets: "set us' = set us - set (u # rs)" "set vs' = set vs \<union> set (u # rs)" using s'(5,6) us by auto
  have G: "\<exists>us' vs'. get_defnode T s' = (get_defnode T s)(this \<mapsto> us', other \<mapsto> vs')
      \<and> set us' = set us - set (u # rs) \<and> set vs' = set vs \<union> set (u # rs)"
    by (rule exI[of _ us'], rule exI[of _ vs'], intro conjI m sets)
  have r: "replace_uses T s this (u # rs) other = Some s'" using s1(5) s'(1) by simp
  have c: "use_counter s' = use_counter s" "rest s' = rest s" using s'(8,9) s1(10,11) by simp_all
  show ?case by (intro exI[of _ s'] conjI r s'(2,3) G ops c)
qed

end

section \<open>Values and blocks are such implementations\<close>

definition vopds :: "('ty, 'c, 'a) ctx \<Rightarrow> ssa_value opds_view" where
  "vopds s p = map_option operands (operations s p)"

definition put_vopds ::
    "('ty, 'c, 'a) ctx \<Rightarrow> op_ptr \<Rightarrow> ssa_value operand list \<Rightarrow> ('ty, 'c, 'a) ctx option"
where
  "put_vopds s p xs = modify_op s p (\<lambda>op. op\<lparr>operands := xs\<rparr>)"

definition bopds :: "('ty, 'c, 'a) ctx \<Rightarrow> block_ptr opds_view" where
  "bopds s p = map_option op_successors (operations s p)"

definition put_bopds ::
    "('ty, 'c, 'a) ctx \<Rightarrow> op_ptr \<Rightarrow> block_ptr operand list \<Rightarrow> ('ty, 'c, 'a) ctx option"
where
  "put_bopds s p xs = modify_op s p (\<lambda>op. op\<lparr>op_successors := xs\<rparr>)"

definition uids_ok :: "('ty, 'c, 'a) ctx \<Rightarrow> bool" where
  "uids_ok s \<longleftrightarrow> (\<forall>e ds. entity_defs s e = Some ds \<longrightarrow>
     distinct (map vd_uid ds) \<and> (\<forall>d \<in> set ds. vd_uid d < value_counter s))"

text \<open>The context without the chains of values, and without those of blocks.\<close>

definition no_uses :: "'ty val_def \<Rightarrow> 'ty val_def" where
  "no_uses d = d\<lparr>vd_uses := []\<rparr>"

definition strip_values :: "('ty, 'c, 'a) ctx \<Rightarrow> ('ty, 'c, 'a) ctx" where
  "strip_values s = s\<lparr>use_counter := 0,
     operations := (\<lambda>p. map_option
       (\<lambda>op. op\<lparr>operands := [], results := map no_uses (results op)\<rparr>) (operations s p)),
     basic_blocks := (\<lambda>b. map_option (\<lambda>bb. bb\<lparr>args := map no_uses (args bb)\<rparr>) (basic_blocks s b))\<rparr>"

definition strip_blocks :: "('ty, 'c, 'a) ctx \<Rightarrow> ('ty, 'c, 'a) ctx" where
  "strip_blocks s = s\<lparr>use_counter := 0,
     operations := (\<lambda>p. map_option (\<lambda>op. op\<lparr>op_successors := []\<rparr>) (operations s p)),
     basic_blocks := (\<lambda>b. map_option (\<lambda>bb. bb\<lparr>preds := []\<rparr>) (basic_blocks s b))\<rparr>"

lemma no_uses_simps [simp]:
  "vd_uid (no_uses d) = vd_uid d" "vd_ty (no_uses d) = vd_ty d" "no_uses (d\<lparr>vd_uses := us\<rparr>) = no_uses d"
  by (simp_all add: no_uses_def)

lemma no_uses_comp [simp]: "vd_uid \<circ> no_uses = vd_uid" "vd_ty \<circ> no_uses = vd_ty"
  by (simp_all add: fun_eq_iff)

lemma value_defnode_alt:
  "value_defnode s v = Option.bind (entity_defs s (defining_entity v))
     (\<lambda>ds. map_option (\<lambda>i. vd_uses (ds ! i)) (position (\<lambda>d. vd_uid d = val_uid v) ds))"
  by (auto simp: value_defnode_def find_index_def try_find_index_def split: bind_splits option.splits
      dest: position_bound)

lemma set_value_defnode_alt:
  assumes "entity_defs s (defining_entity v) = Some ds" and "position (\<lambda>d. vd_uid d = val_uid v) ds = Some i"
  shows "set_value_defnode s v us = set_entity_defs s (defining_entity v) (ds[i := (ds ! i)\<lparr>vd_uses := us\<rparr>])"
  using assms position_bound[OF assms(2)]
  by (simp add: set_value_defnode_def find_index_def try_find_index_def)

lemma set_entity_defs_spec:
  assumes "entity_defs s e = Some ds"
  shows "\<exists>s'. set_entity_defs s e ds' = Some s'
    \<and> (\<forall>e'. entity_defs s' e' = (if e' = e then Some ds' else entity_defs s e'))
    \<and> vopds s' = vopds s \<and> bopds s' = bopds s \<and> block_defnode s' = block_defnode s
    \<and> use_counter s' = use_counter s \<and> value_counter s' = value_counter s
    \<and> (map no_uses ds' = map no_uses ds \<longrightarrow> strip_values s' = strip_values s)"
  using assms
  by (cases e)
    (auto simp: entity_defs_def set_entity_defs_def modify_op_def modify_block_def vopds_def bopds_def
      block_defnode_def strip_values_def fun_eq_iff split: defining_entity.split)

lemma position_map: "position P (map f xs) = position (\<lambda>x. P (f x)) xs"
  by (induction xs) auto

lemma position_cong_map:
  assumes "map vd_uid ds' = map vd_uid ds"
  shows "position (\<lambda>d. vd_uid d = k) ds' = position (\<lambda>d. vd_uid d = k) ds"
proof -
  have "position (\<lambda>x. x = k) (map vd_uid ds') = position (\<lambda>x. x = k) (map vd_uid ds)"
    unfolding assms ..
  then show ?thesis unfolding position_map .
qed

lemma map_list_update_same: "i < length xs \<Longrightarrow> f y = f (xs ! i) \<Longrightarrow> map f (xs[i := y]) = map f xs"
  by (metis list_update_id map_update)

lemma uids_position:
  assumes "distinct (map vd_uid ds)" and "position (\<lambda>d. vd_uid d = k) ds = Some i"
    and "position (\<lambda>d. vd_uid d = l) ds = Some i"
  shows "k = l"
  using assms by (auto simp: position_Some)

lemma set_value_defnode_spec:
  assumes s: "uids_ok s" and d: "value_defnode s v = Some vs"
  shows "\<exists>s'. set_value_defnode s v us = Some s' \<and> uids_ok s' \<and> value_defnode s' = (value_defnode s)(v \<mapsto> us)
    \<and> vopds s' = vopds s \<and> use_counter s' = use_counter s \<and> strip_values s' = strip_values s"
proof -
  let ?e = "defining_entity v"
  obtain ds i where ds: "entity_defs s ?e = Some ds"
    and i: "position (\<lambda>d. vd_uid d = val_uid v) ds = Some i"
    using d by (auto simp: value_defnode_alt split: bind_splits)
  have il: "i < length ds" "vd_uid (ds ! i) = val_uid v" using i by (auto simp: position_Some)
  let ?ds = "ds[i := (ds ! i)\<lparr>vd_uses := us\<rparr>]"
  obtain s' where s': "set_entity_defs s ?e ?ds = Some s'"
      "\<And>e'. entity_defs s' e' = (if e' = ?e then Some ?ds else entity_defs s e')"
      "vopds s' = vopds s" "use_counter s' = use_counter s" "value_counter s' = value_counter s"
      "map no_uses ?ds = map no_uses ds \<longrightarrow> strip_values s' = strip_values s"
    using set_entity_defs_spec[OF ds, of ?ds] by blast
  have mu: "map vd_uid ?ds = map vd_uid ds" using il by (simp add: map_list_update_same)
  have mn: "map no_uses ?ds = map no_uses ds" using il by (simp add: map_list_update_same)
  have sd: "vd_uid d < value_counter s" if "d \<in> set ?ds" for d
  proof -
    have "vd_uid d \<in> set (map vd_uid ds)" using that mu by (metis image_eqI set_map)
    then show ?thesis using s ds by (auto simp: uids_ok_def)
  qed
  have "uids_ok s'"
    unfolding uids_ok_def s'(2,5) using s ds mu sd by (auto simp: uids_ok_def split: if_splits)
  moreover have "value_defnode s' w = ((value_defnode s)(v \<mapsto> us)) w" for w
  proof (cases "defining_entity w = ?e")
    case True
    show ?thesis
    proof (cases "val_uid w = val_uid v")
      case wv: True
      then have "w = v" using True by simp
      then show ?thesis using s'(2) i il position_cong_map[OF mu] by (simp add: value_defnode_alt)
    next
      case False
      then have "w \<noteq> v" by auto
      moreover have "vd_uses (?ds ! j) = vd_uses (ds ! j)"
        if "position (\<lambda>d. vd_uid d = val_uid w) ds = Some j" for j
        using that False il by (cases "j = i") (auto simp: position_Some)
      ultimately show ?thesis
        using s'(2) ds True position_cong_map[OF mu]
        by (cases "position (\<lambda>d. vd_uid d = val_uid w) ds") (simp_all add: value_defnode_alt)
    qed
  next
    case False
    then show ?thesis using s'(2) by (auto simp: value_defnode_alt)
  qed
  ultimately show ?thesis
    using s' mn set_value_defnode_alt[OF ds i, of us] by (auto simp: fun_eq_iff)
qed

lemma entity_defs_counter [simp]: "entity_defs (s\<lparr>use_counter := n\<rparr>) = entity_defs s"
  by (auto simp: fun_eq_iff entity_defs_def split: defining_entity.split)

lemma value_defnode_counter [simp]: "value_defnode (s\<lparr>use_counter := n\<rparr>) = value_defnode s"
  by (rule ext) (simp only: value_defnode_alt entity_defs_counter)

lemma uids_ok_counter [simp]: "uids_ok (s\<lparr>use_counter := n\<rparr>) = uids_ok s"
  unfolding uids_ok_def entity_defs_counter by simp

lemma vopds_counter [simp]: "vopds (s\<lparr>use_counter := n\<rparr>) = vopds s"
  by (rule ext) (simp add: vopds_def)

lemma strip_values_counter [simp]: "strip_values (s\<lparr>use_counter := n\<rparr>) = strip_values s"
  by (simp add: strip_values_def)

lemma put_vopds_spec:
  assumes "vopds s p = Some ys" and "uids_ok s"
  shows "\<exists>s'. put_vopds s p xs = Some s' \<and> uids_ok s' \<and> value_defnode s' = value_defnode s
    \<and> vopds s' = (vopds s)(p \<mapsto> xs) \<and> use_counter s' = use_counter s \<and> strip_values s' = strip_values s"
proof -
  obtain op where op: "operations s p = Some op" using assms(1) by (auto simp: vopds_def)
  let ?s = "s\<lparr>operations := (operations s)(p \<mapsto> op\<lparr>operands := xs\<rparr>)\<rparr>"
  have e: "entity_defs ?s = entity_defs s"
    using op by (auto simp: fun_eq_iff entity_defs_def split: defining_entity.split)
  have "uids_ok ?s" using assms(2) e by (simp add: uids_ok_def)
  moreover have "value_defnode ?s = value_defnode s" using e by (simp add: fun_eq_iff value_defnode_alt)
  moreover have "strip_values ?s = strip_values s" using op by (auto simp: strip_values_def fun_eq_iff)
  moreover have "vopds ?s = (vopds s)(p \<mapsto> xs)" by (auto simp: vopds_def fun_eq_iff)
  ultimately show ?thesis using op by (simp add: put_vopds_def modify_op_def)
qed

interpretation vdu: def_use_store value_api vopds put_vopds uids_ok strip_values
proof
  fix s d u us vs p xs ys i n
  show "\<exists>s'. set_defnode value_api s d us = Some s' \<and> uids_ok s'
      \<and> get_defnode value_api s' = (get_defnode value_api s)(d \<mapsto> us)
      \<and> vopds s' = vopds s \<and> use_counter s' = use_counter s \<and> strip_values s' = strip_values s"
    if "uids_ok s" "get_defnode value_api s d = Some vs"
    using set_value_defnode_spec[OF that(1), of d vs us] that(2) by (simp add: value_api_def)
  show "\<exists>s'. put_vopds s p xs = Some s' \<and> uids_ok s' \<and> get_defnode value_api s' = get_defnode value_api s
      \<and> vopds s' = (vopds s)(p \<mapsto> xs) \<and> use_counter s' = use_counter s \<and> strip_values s' = strip_values s"
    if "uids_ok s" "vopds s p = Some ys"
    using put_vopds_spec[OF that(2,1)] by (simp add: value_api_def)
  show "try_find_use value_api s u = map_option (position (\<lambda>x. opd_uid x = use_uid u)) (vopds s (user_op u))"
    by (cases "operations s (user_op u)") (simp_all add: value_api_def try_find_operand_def vopds_def)
  show "get_usenode value_api s u = Some (opd_def (xs ! i))"
    if "vopds s (user_op u) = Some xs" "position (\<lambda>x. opd_uid x = use_uid u) xs = Some i"
    using that position_bound[OF that(2)]
    by (auto simp: value_api_def get_value_usenode_def try_find_operand_def vopds_def)
  show "set_usenode value_api s u d = put_vopds s (user_op u) (xs[i := (xs ! i)\<lparr>opd_def := d\<rparr>])"
    if "vopds s (user_op u) = Some xs" "position (\<lambda>x. opd_uid x = use_uid u) xs = Some i"
    using that position_bound[OF that(2)]
    by (auto simp: value_api_def set_value_usenode_def try_find_operand_def vopds_def put_vopds_def
        modify_op_def)
qed (simp_all add: value_api_def)

lemma set_block_defnode_spec:
  assumes "block_defnode s b = Some vs"
  shows "\<exists>s'. set_block_defnode s b us = Some s' \<and> block_defnode s' = (block_defnode s)(b \<mapsto> us)
    \<and> bopds s' = bopds s \<and> use_counter s' = use_counter s \<and> strip_blocks s' = strip_blocks s"
proof -
  obtain bb where bb: "basic_blocks s b = Some bb" using assms by (auto simp: block_defnode_def)
  then show ?thesis
    by (auto simp: set_block_defnode_def modify_block_def block_defnode_def bopds_def strip_blocks_def fun_eq_iff)
qed

lemma put_bopds_spec:
  assumes "bopds s p = Some ys"
  shows "\<exists>s'. put_bopds s p xs = Some s' \<and> block_defnode s' = block_defnode s
    \<and> bopds s' = (bopds s)(p \<mapsto> xs) \<and> use_counter s' = use_counter s \<and> strip_blocks s' = strip_blocks s"
proof -
  obtain op where op: "operations s p = Some op" using assms by (auto simp: bopds_def)
  then show ?thesis
    by (auto simp: put_bopds_def modify_op_def block_defnode_def bopds_def strip_blocks_def fun_eq_iff)
qed

interpretation bdu: def_use_store block_api bopds put_bopds "\<lambda>_. True" strip_blocks
proof
  fix s d u us vs p xs ys i n
  show "\<exists>s'. set_defnode block_api s d us = Some s' \<and> True
      \<and> get_defnode block_api s' = (get_defnode block_api s)(d \<mapsto> us)
      \<and> bopds s' = bopds s \<and> use_counter s' = use_counter s \<and> strip_blocks s' = strip_blocks s"
    if "get_defnode block_api s d = Some vs"
    using set_block_defnode_spec[of s d vs us] that by (simp add: block_api_def)
  show "\<exists>s'. put_bopds s p xs = Some s' \<and> True \<and> get_defnode block_api s' = get_defnode block_api s
      \<and> bopds s' = (bopds s)(p \<mapsto> xs) \<and> use_counter s' = use_counter s \<and> strip_blocks s' = strip_blocks s"
    if "bopds s p = Some ys"
    using put_bopds_spec[OF that] by (simp add: block_api_def)
  show "try_find_use block_api s u = map_option (position (\<lambda>x. opd_uid x = use_uid u)) (bopds s (user_op u))"
    by (cases "operations s (user_op u)") (simp_all add: block_api_def try_find_successor_def bopds_def)
  show "get_usenode block_api s u = Some (opd_def (xs ! i))"
    if "bopds s (user_op u) = Some xs" "position (\<lambda>x. opd_uid x = use_uid u) xs = Some i"
    using that position_bound[OF that(2)]
    by (auto simp: block_api_def get_block_usenode_def try_find_successor_def bopds_def)
  show "set_usenode block_api s u d = put_bopds s (user_op u) (xs[i := (xs ! i)\<lparr>opd_def := d\<rparr>])"
    if "bopds s (user_op u) = Some xs" "position (\<lambda>x. opd_uid x = use_uid u) xs = Some i"
    using that position_bound[OF that(2)]
    by (auto simp: block_api_def set_block_usenode_def try_find_successor_def bopds_def put_bopds_def
        modify_op_def)
  show "get_defnode block_api (s\<lparr>use_counter := n\<rparr>) = get_defnode block_api s"
    by (simp add: block_api_def fun_eq_iff block_defnode_def)
  show "bopds (s\<lparr>use_counter := n\<rparr>) = bopds s" by (simp add: fun_eq_iff bopds_def)
  show "strip_blocks (s\<lparr>use_counter := n\<rparr>) = strip_blocks s" by (simp add: strip_blocks_def)
qed simp_all

text \<open>The whole context: both kinds of chains, and values told apart by their numbers.\<close>

definition ir_ok :: "('ty, 'c, 'a) ctx \<Rightarrow> bool" where
  "ir_ok s \<longleftrightarrow> uids_ok s \<and> du_ok value_api vopds s \<and> du_ok block_api bopds s"

text \<open>What each half of the chains keeps of the other.\<close>

lemma strip_values_frame:
  assumes "strip_values s' = strip_values s"
  shows "block_defnode s' = block_defnode s" and "bopds s' = bopds s"
    and "value_counter s' = value_counter s" and "regions s' = regions s"
    and "op_links s' = op_links s" and "block_links s' = block_links s"
    and "map_option (map no_uses) (entity_defs s' e) = map_option (map no_uses) (entity_defs s e)"
proof -
  have ops: "map_option (\<lambda>op. op\<lparr>operands := [], results := map no_uses (results op)\<rparr>) (operations s' p)
      = map_option (\<lambda>op. op\<lparr>operands := [], results := map no_uses (results op)\<rparr>) (operations s p)" for p
    using arg_cong[OF assms, of operations] by (simp add: strip_values_def fun_eq_iff)
  have bbs: "map_option (\<lambda>bb. bb\<lparr>args := map no_uses (args bb)\<rparr>) (basic_blocks s' b)
      = map_option (\<lambda>bb. bb\<lparr>args := map no_uses (args bb)\<rparr>) (basic_blocks s b)" for b
    using arg_cong[OF assms, of basic_blocks] by (simp add: strip_values_def fun_eq_iff)
  have "map_option op_successors (operations s' p) = map_option op_successors (operations s p)" for p
    using arg_cong[OF ops[of p], of "map_option op_successors"] by (simp add: option.map_comp o_def)
  then show "bopds s' = bopds s" by (simp add: bopds_def fun_eq_iff)
  have "map_option preds (basic_blocks s' b) = map_option preds (basic_blocks s b)" for b
    using arg_cong[OF bbs[of b], of "map_option preds"] by (simp add: option.map_comp o_def)
  then show "block_defnode s' = block_defnode s" by (simp add: block_defnode_def fun_eq_iff)
  show "value_counter s' = value_counter s" "regions s' = regions s"
      "op_links s' = op_links s" "block_links s' = block_links s"
    using arg_cong[OF assms, of value_counter] arg_cong[OF assms, of regions]
      arg_cong[OF assms, of op_links] arg_cong[OF assms, of block_links]
    by (simp_all add: strip_values_def)
  have "map_option (\<lambda>op. map no_uses (results op)) (operations s' p)
      = map_option (\<lambda>op. map no_uses (results op)) (operations s p)" for p
    using arg_cong[OF ops[of p], of "map_option results"] by (simp add: option.map_comp o_def)
  moreover have "map_option (\<lambda>bb. map no_uses (args bb)) (basic_blocks s' b)
      = map_option (\<lambda>bb. map no_uses (args bb)) (basic_blocks s b)" for b
    using arg_cong[OF bbs[of b], of "map_option args"] by (simp add: option.map_comp o_def)
  ultimately show "map_option (map no_uses) (entity_defs s' e) = map_option (map no_uses) (entity_defs s e)"
    by (simp add: entity_defs_def option.map_comp o_def split: defining_entity.split)
qed

lemma strip_blocks_frame:
  assumes "strip_blocks s' = strip_blocks s"
  shows "entity_defs s' = entity_defs s" and "vopds s' = vopds s" and "value_defnode s' = value_defnode s"
    and "value_counter s' = value_counter s" and "regions s' = regions s"
    and "op_links s' = op_links s" and "block_links s' = block_links s"
proof -
  have ops: "map_option (\<lambda>op. op\<lparr>op_successors := []\<rparr>) (operations s' p)
      = map_option (\<lambda>op. op\<lparr>op_successors := []\<rparr>) (operations s p)" for p
    using arg_cong[OF assms, of operations] by (simp add: strip_blocks_def fun_eq_iff)
  have bbs: "map_option (\<lambda>bb. bb\<lparr>preds := []\<rparr>) (basic_blocks s' b)
      = map_option (\<lambda>bb. bb\<lparr>preds := []\<rparr>) (basic_blocks s b)" for b
    using arg_cong[OF assms, of basic_blocks] by (simp add: strip_blocks_def fun_eq_iff)
  have "map_option operands (operations s' p) = map_option operands (operations s p)" for p
    using arg_cong[OF ops[of p], of "map_option operands"] by (simp add: option.map_comp o_def)
  then show "vopds s' = vopds s" by (simp add: vopds_def fun_eq_iff)
  have "map_option results (operations s' p) = map_option results (operations s p)" for p
    using arg_cong[OF ops[of p], of "map_option results"] by (simp add: option.map_comp o_def)
  moreover have "map_option args (basic_blocks s' b) = map_option args (basic_blocks s b)" for b
    using arg_cong[OF bbs[of b], of "map_option args"] by (simp add: option.map_comp o_def)
  ultimately show e: "entity_defs s' = entity_defs s"
    by (simp add: entity_defs_def fun_eq_iff split: defining_entity.split)
  show "value_defnode s' = value_defnode s" using e by (simp add: fun_eq_iff value_defnode_alt)
  show "value_counter s' = value_counter s" "regions s' = regions s"
      "op_links s' = op_links s" "block_links s' = block_links s"
    using arg_cong[OF assms, of value_counter] arg_cong[OF assms, of regions]
      arg_cong[OF assms, of op_links] arg_cong[OF assms, of block_links]
    by (simp_all add: strip_blocks_def)
qed

text \<open>Hence a change to one half that keeps its own invariant keeps the whole one.\<close>

lemma ir_ok_values:
  assumes "ir_ok s" and "uids_ok s'" and "du_ok value_api vopds s'" and "strip_values s' = strip_values s"
    and "use_counter s \<le> use_counter s'"
  shows "ir_ok s'"
  using assms strip_values_frame[OF assms(4)] def_use_mono
  by (auto simp: ir_ok_def du_ok_def block_api_def)

lemma ir_ok_blocks:
  assumes "ir_ok s" and "du_ok block_api bopds s'" and "strip_blocks s' = strip_blocks s"
    and "use_counter s \<le> use_counter s'"
  shows "ir_ok s'"
  using assms strip_blocks_frame[OF assms(3)] def_use_mono
  by (auto simp: ir_ok_def du_ok_def value_api_def uids_ok_def)

section \<open>Adding and removing definitions\<close>

lemma def_use_new_defs:
  assumes "def_use_ok uses opds n" and new: "\<forall>d. uses' d = uses d \<or> uses d = None \<and> uses' d = Some []"
  shows "def_use_ok uses' opds n"
proof -
  have old: "uses' d = Some us" if "uses d = Some us" for d us
    using spec[OF new, of d] that by auto
  have 1: "distinct us \<and> (\<forall>u \<in> set us. \<exists>xs x. opds (user_op u) = Some xs \<and> x \<in> set xs
      \<and> opd_uid x = use_uid u \<and> opd_def x = d)" if d: "uses' d = Some us" for d us
  proof (cases "uses d")
    case None
    then show ?thesis using spec[OF new, of d] d by auto
  next
    case (Some vs)
    then have "uses d = Some us" using spec[OF new, of d] d by auto
    then show ?thesis using def_use_okD(1,2)[OF assms(1)] by blast
  qed
  have 2: "distinct (map opd_uid xs) \<and> (\<forall>x \<in> set xs. opd_uid x < n
      \<and> (\<exists>us. uses' (opd_def x) = Some us \<and> as_use x p \<in> set us))" if p: "opds p = Some xs" for p xs
    using def_use_okD(3-5)[OF assms(1) p] old by blast
  show ?thesis unfolding def_use_ok_def using 1 2 by blast
qed

lemma def_use_new_def: "def_use_ok uses opds n \<Longrightarrow> uses d = None \<Longrightarrow> def_use_ok (uses(d \<mapsto> [])) opds n"
  by (rule def_use_new_defs) auto

lemma def_use_new_op: "def_use_ok uses opds n \<Longrightarrow> opds p = None \<Longrightarrow> def_use_ok uses (opds(p \<mapsto> [])) n"
  by (fastforce simp: def_use_ok_def)

lemma def_use_del_def:
  assumes "def_use_ok uses opds n" and "uses d = Some []"
  shows "def_use_ok (uses(d := None)) opds n"
proof -
  have "opd_def x \<noteq> d" if "opds p = Some xs" "x \<in> set xs" for p xs x
    using def_use_okD(5)[OF assms(1) that] assms(2) by auto
  then show ?thesis using assms(1) by (auto simp: def_use_ok_def)
qed

text \<open>All that the invariant looks at.\<close>

definition defs_view :: "('ty, 'c, 'a) ctx \<Rightarrow> defining_entity \<Rightarrow> (64 word \<times> use_ref list) list option" where
  "defs_view s e = map_option (map (\<lambda>d. (vd_uid d, vd_uses d))) (entity_defs s e)"

definition ir_views where
  "ir_views s = (defs_view s, vopds s, bopds s, block_defnode s, value_counter s, use_counter s)"

lemma position_map_of:
  "map_option (\<lambda>i. vd_uses (ds ! i)) (position (\<lambda>d. vd_uid d = k) ds)
    = map_of (map (\<lambda>d. (vd_uid d, vd_uses d)) ds) k"
  by (induction ds) (auto simp: option.map_comp o_def)

lemma value_defnode_view:
  "value_defnode s v = Option.bind (defs_view s (defining_entity v)) (\<lambda>xs. map_of xs (val_uid v))"
  by (cases "entity_defs s (defining_entity v)") (simp_all add: value_defnode_alt defs_view_def position_map_of)

lemma uids_ok_view:
  "uids_ok s \<longleftrightarrow> (\<forall>e xs. defs_view s e = Some xs \<longrightarrow>
     distinct (map fst xs) \<and> (\<forall>x \<in> set xs. fst x < value_counter s))"
  by (fastforce simp: uids_ok_def defs_view_def o_def)

lemma ir_ok_views: "ir_views s' = ir_views s \<Longrightarrow> ir_ok s' = ir_ok s"
proof -
  assume "ir_views s' = ir_views s"
  then have v: "defs_view s' = defs_view s" "vopds s' = vopds s" "bopds s' = bopds s"
      "block_defnode s' = block_defnode s" "value_counter s' = value_counter s" "use_counter s' = use_counter s"
    by (simp_all add: ir_views_def)
  have "value_defnode s' = value_defnode s" by (rule ext) (simp add: value_defnode_view v)
  then show ?thesis by (simp add: ir_ok_def du_ok_def uids_ok_view value_api_def block_api_def v)
qed

lemma map_of_insert_at:
  assumes "i \<le> length xs" and "k \<notin> fst ` set xs"
  shows "map_of (take i xs @ (k, x) # drop i xs) = (map_of xs)(k \<mapsto> x)"
proof -
  have k: "map_of (take i xs) k = None"
    using assms(2) set_take_subset[of i xs] by (auto simp: map_of_eq_None_iff)
  have "map_of xs = map_of (drop i xs) ++ map_of (take i xs)"
    by (metis append_take_drop_id map_of_append)
  then show ?thesis using k by (auto simp: fun_eq_iff map_add_def split: option.split)
qed

lemma map_of_remove_at:
  assumes "i < length xs" and "distinct (map fst xs)"
  shows "map_of (take i xs @ drop (Suc i) xs) = (map_of xs)(fst (xs ! i) := None)"
proof -
  have x: "xs = take i xs @ xs ! i # drop (Suc i) xs" by (rule id_take_nth_drop[OF assms(1)])
  then have d: "distinct (map fst (take i xs @ xs ! i # drop (Suc i) xs))" using assms(2) by simp
  have n: "fst (xs ! i) \<notin> fst ` set (take i xs)" "fst (xs ! i) \<notin> fst ` set (drop (Suc i) xs)"
    using d by auto
  have "map_of xs = map_of (drop (Suc i) xs) ++ [fst (xs ! i) \<mapsto> snd (xs ! i)] ++ map_of (take i xs)"
    by (subst x) (simp add: map_add_upd)
  moreover have "map_of (take i xs) (fst (xs ! i)) = None" "map_of (drop (Suc i) xs) (fst (xs ! i)) = None"
    using n by (simp_all add: map_of_eq_None_iff)
  ultimately show ?thesis by (auto simp: fun_eq_iff map_add_def split: option.split)
qed

text \<open>A definition with a fresh number and no uses, at any place of its entity's list.\<close>

lemma ir_ok_insert_def:
  assumes s: "ir_ok s" and ds: "defs_view s e = Some xs" and i: "i \<le> length xs"
    and n: "value_counter s < value_counter s + 1"
    and s': "defs_view s' = (defs_view s)(e \<mapsto> take i xs @ (value_counter s, []) # drop i xs)"
      "vopds s' = vopds s" "bopds s' = bopds s" "block_defnode s' = block_defnode s"
      "value_counter s' = value_counter s + 1" "use_counter s' = use_counter s"
  shows "ir_ok s'"
    and "value_defnode s' = (value_defnode s)(\<lparr>val_uid = value_counter s, defining_entity = e\<rparr> \<mapsto> [])"
proof -
  let ?v = "\<lparr>val_uid = value_counter s, defining_entity = e\<rparr>"
  have u: "\<And>e xs. defs_view s e = Some xs \<Longrightarrow> distinct (map fst xs) \<and> (\<forall>x \<in> set xs. fst x < value_counter s)"
    using s by (auto simp: ir_ok_def uids_ok_view)
  have k: "value_counter s \<notin> fst ` set xs" using u[OF ds] by fastforce
  have m: "mset (take i xs @ (value_counter s, []) # drop i xs) = mset ((value_counter s, []) # xs)"
    by (metis append_take_drop_id mset.simps(2) mset_append union_mset_add_mset_right)
  have d: "distinct (map fst (take i xs @ (value_counter s, []) # drop i xs))"
  proof -
    have "mset (map fst (take i xs @ (value_counter s, []) # drop i xs)) = mset (map fst ((value_counter s, []) # xs))"
      using m unfolding mset_map by (rule arg_cong)
    from mset_eq_imp_distinct_iff[OF this] show ?thesis using k u[OF ds] by simp
  qed
  have st: "set (take i xs @ (value_counter s, []) # drop i xs) = insert (value_counter s, []) (set xs)"
    using mset_eq_setD[OF m] by simp
  have "uids_ok s'"
    unfolding uids_ok_view s'(1,5)
  proof (intro allI impI)
    fix f ys
    assume f: "((defs_view s)(e \<mapsto> take i xs @ (value_counter s, []) # drop i xs)) f = Some ys"
    show "distinct (map fst ys) \<and> (\<forall>x \<in> set ys. fst x < value_counter s + 1)"
    proof (cases "f = e")
      case True
      then have "ys = take i xs @ (value_counter s, []) # drop i xs" using f by simp
      then show ?thesis using d st u[OF ds] n by auto
    next
      case False
      then show ?thesis using f u[of f ys] n by auto
    qed
  qed
  moreover show v: "value_defnode s' = (value_defnode s)(?v \<mapsto> [])"
  proof
    fix w
    show "value_defnode s' w = ((value_defnode s)(?v \<mapsto> [])) w"
    proof (cases "defining_entity w = e")
      case True
      then show ?thesis
        using ds map_of_insert_at[OF i k, of "[]"] by (cases w) (simp add: value_defnode_view s'(1))
    next
      case False
      then show ?thesis by (auto simp: value_defnode_view s'(1))
    qed
  qed
  moreover have "value_defnode s ?v = None"
    using ds k by (simp add: value_defnode_view map_of_eq_None_iff)
  ultimately show "ir_ok s'"
    using s s' def_use_new_def[of "value_defnode s" _ _ ?v]
    by (simp add: ir_ok_def du_ok_def value_api_def block_api_def)
qed

text \<open>A definition without uses taken away.\<close>

lemma ir_ok_remove_def:
  assumes s: "ir_ok s" and ds: "defs_view s e = Some xs" and i: "i < length xs" and unused: "snd (xs ! i) = []"
    and s': "defs_view s' = (defs_view s)(e \<mapsto> take i xs @ drop (Suc i) xs)"
      "vopds s' = vopds s" "bopds s' = bopds s" "block_defnode s' = block_defnode s"
      "value_counter s' = value_counter s" "use_counter s' = use_counter s"
  shows "ir_ok s'"
    and "value_defnode s' = (value_defnode s)(\<lparr>val_uid = fst (xs ! i), defining_entity = e\<rparr> := None)"
proof -
  let ?v = "\<lparr>val_uid = fst (xs ! i), defining_entity = e\<rparr>"
  have u: "\<And>e xs. defs_view s e = Some xs \<Longrightarrow> distinct (map fst xs) \<and> (\<forall>x \<in> set xs. fst x < value_counter s)"
    using s by (auto simp: ir_ok_def uids_ok_view)
  have dx: "distinct (map fst xs)" using u[OF ds] by blast
  have sub: "set (take i xs @ drop (Suc i) xs) \<subseteq> set xs"
    using set_take_subset[of i xs] set_drop_subset[of "Suc i" xs] by auto
  have d: "distinct (map fst (take i xs @ drop (Suc i) xs))"
  proof -
    have "xs = take i xs @ xs ! i # drop (Suc i) xs" by (rule id_take_nth_drop[OF i])
    then have "distinct (map fst (take i xs @ xs ! i # drop (Suc i) xs))" using dx by simp
    then show ?thesis by auto
  qed
  have "uids_ok s'"
    unfolding uids_ok_view s'(1,5)
  proof (intro allI impI)
    fix f ys
    assume f: "((defs_view s)(e \<mapsto> take i xs @ drop (Suc i) xs)) f = Some ys"
    show "distinct (map fst ys) \<and> (\<forall>x \<in> set ys. fst x < value_counter s)"
    proof (cases "f = e")
      case True
      then have "ys = take i xs @ drop (Suc i) xs" using f by simp
      then show ?thesis using d sub u[OF ds] by blast
    next
      case False
      then show ?thesis using f u[of f ys] by auto
    qed
  qed
  moreover show v: "value_defnode s' = (value_defnode s)(?v := None)"
  proof
    fix w
    show "value_defnode s' w = ((value_defnode s)(?v := None)) w"
    proof (cases "defining_entity w = e")
      case True
      then show ?thesis
        using ds map_of_remove_at[OF i dx] by (cases w) (simp add: value_defnode_view s'(1))
    next
      case False
      then show ?thesis by (auto simp: value_defnode_view s'(1))
    qed
  qed
  moreover have "value_defnode s ?v = Some []"
  proof -
    have "(fst (xs ! i), []) \<in> set xs" using nth_mem[OF i] unused by (metis prod.collapse)
    then show ?thesis using ds dx by (simp add: value_defnode_view)
  qed
  ultimately show "ir_ok s'"
    using s s' def_use_del_def[of "value_defnode s" _ _ ?v]
    by (simp add: ir_ok_def du_ok_def value_api_def block_api_def)
qed

end
