(* ===== verification/IrOps.thy ===== *)
theory IrOps
  imports DefUse
begin

text \<open>
  What the operations that edit the operands, successors, results and arguments of the intermediate
  representation do: their effect on the list they edit, that they change nothing else but the
  chains of uses, and that they keep these consistent. The chains are covered by the facts of the
  interpretations \<open>vdu\<close> and \<open>bdu\<close>.
\<close>

section \<open>Editing lists\<close>

lemma insert_at_eq: "insert_at xs i x = Some ys \<longleftrightarrow> i \<le> length xs \<and> ys = take i xs @ x # drop i xs"
  by (auto simp: insert_at_def)

lemma remove_at_eq:
  "remove_at xs i = Some (x, ys) \<longleftrightarrow> i < length xs \<and> x = xs ! i \<and> ys = take i xs @ drop (Suc i) xs"
  by (auto simp: remove_at_def)

lemma set_insert_at: "i \<le> length xs \<Longrightarrow> set (take i xs @ x # drop i xs) = insert x (set xs)"
  by (metis append_take_drop_id insert_is_Un list.simps(15) set_append sup_left_commute Un_insert_right)

lemma distinct_insert_at:
  "i \<le> length xs \<Longrightarrow> distinct (map f (take i xs @ x # drop i xs)) \<longleftrightarrow> f x \<notin> f ` set xs \<and> distinct (map f xs)"
proof -
  have "mset xs = mset (take i xs) + mset (drop i xs)" by (metis append_take_drop_id mset_append)
  then have "mset (take i xs @ x # drop i xs) = mset (x # xs)" by simp
  then have m: "mset (map f (take i xs @ x # drop i xs)) = mset (map f (x # xs))" unfolding mset_map by (rule arg_cong)
  show ?thesis unfolding mset_eq_imp_distinct_iff[OF m] by simp
qed

lemma remove_at_set:
  assumes "i < length xs" and "distinct xs"
  shows "set (take i xs @ drop (Suc i) xs) = set xs - {xs ! i}"
    and "distinct (take i xs @ drop (Suc i) xs)"
proof -
  have x: "xs = take i xs @ xs ! i # drop (Suc i) xs" by (rule id_take_nth_drop[OF assms(1)])
  then have d: "distinct (take i xs @ xs ! i # drop (Suc i) xs)" using assms(2) by simp
  have "set xs = insert (xs ! i) (set (take i xs @ drop (Suc i) xs))" by (subst x) auto
  moreover have "xs ! i \<notin> set (take i xs @ drop (Suc i) xs)" using d by auto
  ultimately show "set (take i xs @ drop (Suc i) xs) = set xs - {xs ! i}" by auto
  show "distinct (take i xs @ drop (Suc i) xs)" using d by auto
qed

lemma distinct_remove_at: "distinct (map f xs) \<Longrightarrow> distinct (map f (take i xs @ drop (Suc i) xs))"
proof (cases "i < length xs")
  case True
  assume "distinct (map f xs)"
  then show ?thesis using remove_at_set(2)[of i "map f xs"] True by (simp add: take_map drop_map)
qed simp

text \<open>The number handed out next has not wrapped around.\<close>

definition use_room :: "('ty, 'c, 'a) ctx \<Rightarrow> bool" where
  "use_room s \<longleftrightarrow> use_counter s < use_counter s + 1"

definition value_room :: "('ty, 'c, 'a) ctx \<Rightarrow> bool" where
  "value_room s \<longleftrightarrow> value_counter s < value_counter s + 1"

section \<open>Operands\<close>

lemma fresh_uid:
  assumes "du_ok T opds s" and "opds s p = Some xs"
  shows "use_counter s \<notin> opd_uid ` set xs" and "distinct (map opd_uid xs)" and "distinct xs"
  using def_use_okD(3,4)[OF assms(1)[unfolded du_ok_def] assms(2)] by (fastforce simp: distinct_map)+

lemma value_fresh:
  assumes "ir_ok s" and "vopds s p = Some xs"
  shows "use_counter s \<notin> opd_uid ` set xs" and "distinct (map opd_uid xs)" and "distinct xs"
  using fresh_uid[of value_api vopds s p xs] assms by (auto simp: ir_ok_def)

lemma block_fresh:
  assumes "ir_ok s" and "bopds s p = Some xs"
  shows "use_counter s \<notin> opd_uid ` set xs" and "distinct (map opd_uid xs)" and "distinct xs"
  using fresh_uid[of block_api bopds s p xs] assms by (auto simp: ir_ok_def)

lemma vopds_op: "vopds s p = Some xs \<Longrightarrow> \<exists>op. operations s p = Some op \<and> operands op = xs"
  by (auto simp: vopds_def)

lemma bopds_op: "bopds s p = Some xs \<Longrightarrow> \<exists>op. operations s p = Some op \<and> op_successors op = xs"
  by (auto simp: bopds_def)

text \<open>The new operand at any place of the list: the common part of push, insert and \<open>Operation::new\<close>.\<close>

lemma value_add:
  assumes s: "ir_ok s" "use_room s" and v: "value_defnode s v = Some us" and p: "vopds s p = Some xs"
    and xs': "set xs' = insert \<lparr>opd_def = v, opd_uid = use_counter s\<rparr> (set xs)" "distinct (map opd_uid xs')"
  shows "\<exists>s1 s2. operand_new value_api s v p = Some (\<lparr>opd_def = v, opd_uid = use_counter s\<rparr>, s1)
    \<and> vopds s1 p = Some xs \<and> put_vopds s1 p xs' = Some s2 \<and> ir_ok s2 \<and> vopds s2 = (vopds s)(p \<mapsto> xs')
    \<and> value_defnode s2 = (value_defnode s)(v \<mapsto> us @ [\<lparr>user_op = p, use_uid = use_counter s\<rparr>])
    \<and> use_counter s2 = use_counter s + 1 \<and> strip_values s2 = strip_values s"
proof -
  have d: "get_defnode value_api s v = Some us" using v by (simp add: value_api_def)
  have ok: "uids_ok s" "du_ok value_api vopds s" using s(1) by (simp_all add: ir_ok_def)
  obtain s1 s2 where *: "operand_new value_api s v p = Some (\<lparr>opd_def = v, opd_uid = use_counter s\<rparr>, s1)"
      "vopds s1 = vopds s" "put_vopds s1 p xs' = Some s2" "uids_ok s2" "du_ok value_api vopds s2"
      "get_defnode value_api s2 = (get_defnode value_api s)(v \<mapsto> us @ [\<lparr>user_op = p, use_uid = use_counter s\<rparr>])"
      "vopds s2 = (vopds s)(p \<mapsto> xs')" "use_counter s2 = use_counter s + 1" "strip_values s2 = strip_values s"
    using vdu.add_operand[OF ok d p s(2)[unfolded use_room_def] xs'] by blast
  have "use_counter s \<le> use_counter s2" using *(8) s(2) by (simp add: use_room_def)
  then have "ir_ok s2" by (rule ir_ok_values[OF s(1) *(4,5,9)])
  then show ?thesis using * p by (intro exI[of _ s1] exI[of _ s2]) (simp add: value_api_def)
qed

lemma value_take:
  assumes s: "ir_ok s" and p: "vopds s p = Some xs" and i: "i < length xs"
  shows "\<exists>us s1 s2. value_defnode s (opd_def (xs ! i)) = Some us
    \<and> put_vopds s p (take i xs @ drop (Suc i) xs) = Some s1
    \<and> drop_use value_api s1 (xs ! i) p = Some s2 \<and> ir_ok s2
    \<and> vopds s2 = (vopds s)(p \<mapsto> take i xs @ drop (Suc i) xs)
    \<and> value_defnode s2 = (value_defnode s)(opd_def (xs ! i) \<mapsto> ls_swap_remove (as_use (xs ! i) p) us)
    \<and> use_counter s2 = use_counter s \<and> strip_values s2 = strip_values s"
proof -
  have ok: "uids_ok s" "du_ok value_api vopds s" using s by (simp_all add: ir_ok_def)
  have x: "xs ! i \<in> set xs" using i by simp
  have sd: "set (take i xs @ drop (Suc i) xs) = set xs - {xs ! i}"
      "distinct (map opd_uid (take i xs @ drop (Suc i) xs))"
    using remove_at_set(1)[OF i value_fresh(3)[OF s p]] distinct_remove_at[OF value_fresh(2)[OF s p]] .
  obtain us s1 s2 where *: "get_defnode value_api s (opd_def (xs ! i)) = Some us"
      "put_vopds s p (take i xs @ drop (Suc i) xs) = Some s1"
      "drop_use value_api s1 (xs ! i) p = Some s2" "uids_ok s2" "du_ok value_api vopds s2"
      "get_defnode value_api s2 = (get_defnode value_api s)(opd_def (xs ! i) \<mapsto> ls_swap_remove (as_use (xs ! i) p) us)"
      "vopds s2 = (vopds s)(p \<mapsto> take i xs @ drop (Suc i) xs)" "use_counter s2 = use_counter s"
      "strip_values s2 = strip_values s"
    using vdu.take_operand[OF ok p x sd] by blast
  have "ir_ok s2" using ir_ok_values[OF s *(4,5,9)] *(8) by simp
  then show ?thesis using * by (intro exI[of _ us] exI[of _ s1] exI[of _ s2]) (simp add: value_api_def)
qed

lemma push_operand_spec:
  assumes s: "ir_ok s" "use_room s" and v: "value_defnode s v = Some us" and p: "vopds s p = Some xs"
  shows "\<exists>s'. push_operand s p v = Some (length xs, s') \<and> ir_ok s'
    \<and> vopds s' = (vopds s)(p \<mapsto> xs @ [\<lparr>opd_def = v, opd_uid = use_counter s\<rparr>])
    \<and> strip_values s' = strip_values s
    \<and> use_counter s' = use_counter s + 1"
proof -
  let ?x = "\<lparr>opd_def = v, opd_uid = use_counter s\<rparr>"
  have "set (xs @ [?x]) = insert ?x (set xs)" "distinct (map opd_uid (xs @ [?x]))"
    using value_fresh[OF s(1) p] by auto
  from value_add[OF s v p this] obtain s1 s2 where *: "operand_new value_api s v p = Some (?x, s1)"
      "vopds s1 p = Some xs" "put_vopds s1 p (xs @ [?x]) = Some s2" "ir_ok s2"
      "vopds s2 = (vopds s)(p \<mapsto> xs @ [?x])" "strip_values s2 = strip_values s"
      "use_counter s2 = use_counter s + 1" by blast
  then show ?thesis using vopds_op[OF *(2)] by (auto simp: push_operand_def put_vopds_def)
qed

lemma insert_operand_spec:
  assumes s: "ir_ok s" "use_room s" and v: "value_defnode s v = Some us" and p: "vopds s p = Some xs"
    and i: "i \<le> length xs"
  shows "\<exists>s'. insert_operand s p i v = Some s' \<and> ir_ok s'
    \<and> vopds s' = (vopds s)(p \<mapsto> take i xs @ \<lparr>opd_def = v, opd_uid = use_counter s\<rparr> # drop i xs)
    \<and> strip_values s' = strip_values s
    \<and> use_counter s' = use_counter s + 1"
proof -
  let ?x = "\<lparr>opd_def = v, opd_uid = use_counter s\<rparr>"
  let ?xs = "take i xs @ ?x # drop i xs"
  have "set ?xs = insert ?x (set xs)" "distinct (map opd_uid ?xs)"
    using value_fresh[OF s(1) p] set_insert_at[OF i, of ?x] distinct_insert_at[OF i, of opd_uid ?x] by simp_all
  from value_add[OF s v p this] obtain s1 s2 where *: "operand_new value_api s v p = Some (?x, s1)"
      "vopds s1 p = Some xs" "put_vopds s1 p ?xs = Some s2" "ir_ok s2"
      "vopds s2 = (vopds s)(p \<mapsto> ?xs)" "strip_values s2 = strip_values s"
      "use_counter s2 = use_counter s + 1" by blast
  then show ?thesis using vopds_op[OF *(2)] i by (auto simp: insert_operand_def put_vopds_def insert_at_def)
qed

lemma remove_operand_spec:
  assumes s: "ir_ok s" and p: "vopds s p = Some xs" and i: "i < length xs"
  shows "\<exists>s'. remove_operand s p i = Some (opd_def (xs ! i), s') \<and> ir_ok s'
    \<and> vopds s' = (vopds s)(p \<mapsto> take i xs @ drop (Suc i) xs) \<and> strip_values s' = strip_values s
    \<and> use_counter s' = use_counter s"
proof -
  from value_take[OF s p i] obtain s1 s2 where *: "put_vopds s p (take i xs @ drop (Suc i) xs) = Some s1"
      "drop_use value_api s1 (xs ! i) p = Some s2" "ir_ok s2"
      "vopds s2 = (vopds s)(p \<mapsto> take i xs @ drop (Suc i) xs)" "strip_values s2 = strip_values s"
      "use_counter s2 = use_counter s" by blast
  then show ?thesis using vopds_op[OF p] i by (auto simp: remove_operand_def put_vopds_def remove_at_def)
qed

lemma replace_operand_spec:
  assumes s: "ir_ok s" "use_room s" and v: "value_defnode s v = Some us" and p: "vopds s p = Some xs"
    and i: "i < length xs" and own: "defining_entity (opd_def (xs ! i)) \<noteq> OpDef p"
  shows "\<exists>s'. replace_operand s p i v = Some s' \<and> ir_ok s'
    \<and> vopds s' = (vopds s)(p \<mapsto> xs[i := \<lparr>opd_def = v, opd_uid = use_counter s\<rparr>])
    \<and> strip_values s' = strip_values s
    \<and> use_counter s' = use_counter s + 1"
proof -
  let ?x = "\<lparr>opd_def = v, opd_uid = use_counter s\<rparr>"
  have ok: "uids_ok s" "du_ok value_api vopds s" using s(1) by (simp_all add: ir_ok_def)
  have d: "get_defnode value_api s v = Some us" using v by (simp add: value_api_def)
  obtain s1 s2 s3 where *: "operand_new value_api s v p = Some (?x, s1)" "vopds s1 = vopds s"
      "put_vopds s1 p (xs[i := ?x]) = Some s2" "drop_use value_api s2 (xs ! i) p = Some s3"
      "uids_ok s3" "du_ok value_api vopds s3" "vopds s3 = (vopds s)(p \<mapsto> xs[i := ?x])"
      "use_counter s3 = use_counter s + 1" "strip_values s3 = strip_values s"
    using vdu.swap_operand[OF ok d p s(2)[unfolded use_room_def] i] by blast
  have "use_counter s \<le> use_counter s3" using *(8) s(2) by (simp add: use_room_def)
  then have "ir_ok s3" by (rule ir_ok_values[OF s(1) *(5,6,9)])
  moreover have "replace_operand s p i v = Some s3"
    using *(1-4) own i vopds_op[of s1 p xs] p by (auto simp: replace_operand_def put_vopds_def modify_op_def)
  ultimately show ?thesis using * by auto
qed

section \<open>Successors\<close>

lemma block_add:
  assumes s: "ir_ok s" "use_room s" and v: "block_defnode s v = Some us" and p: "bopds s p = Some xs"
    and xs': "set xs' = insert \<lparr>opd_def = v, opd_uid = use_counter s\<rparr> (set xs)" "distinct (map opd_uid xs')"
  shows "\<exists>s1 s2. operand_new block_api s v p = Some (\<lparr>opd_def = v, opd_uid = use_counter s\<rparr>, s1)
    \<and> bopds s1 p = Some xs \<and> put_bopds s1 p xs' = Some s2 \<and> ir_ok s2 \<and> bopds s2 = (bopds s)(p \<mapsto> xs')
    \<and> block_defnode s2 = (block_defnode s)(v \<mapsto> us @ [\<lparr>user_op = p, use_uid = use_counter s\<rparr>])
    \<and> use_counter s2 = use_counter s + 1 \<and> strip_blocks s2 = strip_blocks s"
proof -
  have d: "get_defnode block_api s v = Some us" using v by (simp add: block_api_def)
  have ok: "du_ok block_api bopds s" using s(1) by (simp_all add: ir_ok_def)
  obtain s1 s2 where *: "operand_new block_api s v p = Some (\<lparr>opd_def = v, opd_uid = use_counter s\<rparr>, s1)"
      "bopds s1 = bopds s" "put_bopds s1 p xs' = Some s2" "du_ok block_api bopds s2"
      "get_defnode block_api s2 = (get_defnode block_api s)(v \<mapsto> us @ [\<lparr>user_op = p, use_uid = use_counter s\<rparr>])"
      "bopds s2 = (bopds s)(p \<mapsto> xs')" "use_counter s2 = use_counter s + 1" "strip_blocks s2 = strip_blocks s"
    using bdu.add_operand[OF TrueI ok d p s(2)[unfolded use_room_def] xs'] by blast
  have "use_counter s \<le> use_counter s2" using *(7) s(2) by (simp add: use_room_def)
  then have "ir_ok s2" by (rule ir_ok_blocks[OF s(1) *(4,8)])
  then show ?thesis using * p by (intro exI[of _ s1] exI[of _ s2]) (simp add: block_api_def)
qed

lemma block_take:
  assumes s: "ir_ok s" and p: "bopds s p = Some xs" and i: "i < length xs"
  shows "\<exists>us s1 s2. block_defnode s (opd_def (xs ! i)) = Some us
    \<and> put_bopds s p (take i xs @ drop (Suc i) xs) = Some s1
    \<and> drop_use block_api s1 (xs ! i) p = Some s2 \<and> ir_ok s2
    \<and> bopds s2 = (bopds s)(p \<mapsto> take i xs @ drop (Suc i) xs)
    \<and> block_defnode s2 = (block_defnode s)(opd_def (xs ! i) \<mapsto> ls_swap_remove (as_use (xs ! i) p) us)
    \<and> use_counter s2 = use_counter s \<and> strip_blocks s2 = strip_blocks s"
proof -
  have ok: "du_ok block_api bopds s" using s by (simp_all add: ir_ok_def)
  have x: "xs ! i \<in> set xs" using i by simp
  have sd: "set (take i xs @ drop (Suc i) xs) = set xs - {xs ! i}"
      "distinct (map opd_uid (take i xs @ drop (Suc i) xs))"
    using remove_at_set(1)[OF i block_fresh(3)[OF s p]] distinct_remove_at[OF block_fresh(2)[OF s p]] .
  obtain us s1 s2 where *: "get_defnode block_api s (opd_def (xs ! i)) = Some us"
      "put_bopds s p (take i xs @ drop (Suc i) xs) = Some s1"
      "drop_use block_api s1 (xs ! i) p = Some s2" "du_ok block_api bopds s2"
      "get_defnode block_api s2 = (get_defnode block_api s)(opd_def (xs ! i) \<mapsto> ls_swap_remove (as_use (xs ! i) p) us)"
      "bopds s2 = (bopds s)(p \<mapsto> take i xs @ drop (Suc i) xs)" "use_counter s2 = use_counter s"
      "strip_blocks s2 = strip_blocks s"
    using bdu.take_operand[OF TrueI ok p x sd] by blast
  have "ir_ok s2" using ir_ok_blocks[OF s *(4,8)] *(7) by simp
  then show ?thesis using * by (intro exI[of _ us] exI[of _ s1] exI[of _ s2]) (simp add: block_api_def)
qed

lemma push_successor_spec:
  assumes s: "ir_ok s" "use_room s" and v: "block_defnode s v = Some us" and p: "bopds s p = Some xs"
  shows "\<exists>s'. push_successor s p v = Some (length xs, s') \<and> ir_ok s'
    \<and> bopds s' = (bopds s)(p \<mapsto> xs @ [\<lparr>opd_def = v, opd_uid = use_counter s\<rparr>])
    \<and> strip_blocks s' = strip_blocks s
    \<and> use_counter s' = use_counter s + 1"
proof -
  let ?x = "\<lparr>opd_def = v, opd_uid = use_counter s\<rparr>"
  have "set (xs @ [?x]) = insert ?x (set xs)" "distinct (map opd_uid (xs @ [?x]))"
    using block_fresh[OF s(1) p] by auto
  from block_add[OF s v p this] obtain s1 s2 where *: "operand_new block_api s v p = Some (?x, s1)"
      "bopds s1 p = Some xs" "put_bopds s1 p (xs @ [?x]) = Some s2" "ir_ok s2"
      "bopds s2 = (bopds s)(p \<mapsto> xs @ [?x])" "strip_blocks s2 = strip_blocks s"
      "use_counter s2 = use_counter s + 1" by blast
  then show ?thesis using bopds_op[OF *(2)] by (auto simp: push_successor_def put_bopds_def)
qed

lemma insert_successor_spec:
  assumes s: "ir_ok s" "use_room s" and v: "block_defnode s v = Some us" and p: "bopds s p = Some xs"
    and i: "i \<le> length xs"
  shows "\<exists>s'. insert_successor s p i v = Some s' \<and> ir_ok s'
    \<and> bopds s' = (bopds s)(p \<mapsto> take i xs @ \<lparr>opd_def = v, opd_uid = use_counter s\<rparr> # drop i xs)
    \<and> strip_blocks s' = strip_blocks s
    \<and> use_counter s' = use_counter s + 1"
proof -
  let ?x = "\<lparr>opd_def = v, opd_uid = use_counter s\<rparr>"
  let ?xs = "take i xs @ ?x # drop i xs"
  have "set ?xs = insert ?x (set xs)" "distinct (map opd_uid ?xs)"
    using block_fresh[OF s(1) p] set_insert_at[OF i, of ?x] distinct_insert_at[OF i, of opd_uid ?x] by simp_all
  from block_add[OF s v p this] obtain s1 s2 where *: "operand_new block_api s v p = Some (?x, s1)"
      "bopds s1 p = Some xs" "put_bopds s1 p ?xs = Some s2" "ir_ok s2"
      "bopds s2 = (bopds s)(p \<mapsto> ?xs)" "strip_blocks s2 = strip_blocks s"
      "use_counter s2 = use_counter s + 1" by blast
  then show ?thesis using bopds_op[OF *(2)] i by (auto simp: insert_successor_def put_bopds_def insert_at_def)
qed

lemma remove_successor_spec:
  assumes s: "ir_ok s" and p: "bopds s p = Some xs" and i: "i < length xs"
  shows "\<exists>s'. remove_successor s p i = Some (opd_def (xs ! i), s') \<and> ir_ok s'
    \<and> bopds s' = (bopds s)(p \<mapsto> take i xs @ drop (Suc i) xs) \<and> strip_blocks s' = strip_blocks s
    \<and> use_counter s' = use_counter s"
proof -
  from block_take[OF s p i] obtain s1 s2 where *: "put_bopds s p (take i xs @ drop (Suc i) xs) = Some s1"
      "drop_use block_api s1 (xs ! i) p = Some s2" "ir_ok s2"
      "bopds s2 = (bopds s)(p \<mapsto> take i xs @ drop (Suc i) xs)" "strip_blocks s2 = strip_blocks s"
      "use_counter s2 = use_counter s" by blast
  then show ?thesis using bopds_op[OF p] i by (auto simp: remove_successor_def put_bopds_def remove_at_def)
qed

lemma replace_successor_spec:
  assumes s: "ir_ok s" "use_room s" and v: "block_defnode s v = Some us" and p: "bopds s p = Some xs"
    and i: "i < length xs"
  shows "\<exists>s'. replace_successor s p i v = Some s' \<and> ir_ok s'
    \<and> bopds s' = (bopds s)(p \<mapsto> xs[i := \<lparr>opd_def = v, opd_uid = use_counter s\<rparr>])
    \<and> strip_blocks s' = strip_blocks s
    \<and> use_counter s' = use_counter s + 1"
proof -
  let ?x = "\<lparr>opd_def = v, opd_uid = use_counter s\<rparr>"
  have ok: "du_ok block_api bopds s" using s(1) by (simp_all add: ir_ok_def)
  have d: "get_defnode block_api s v = Some us" using v by (simp add: block_api_def)
  obtain s1 s2 s3 where *: "operand_new block_api s v p = Some (?x, s1)" "bopds s1 = bopds s"
      "put_bopds s1 p (xs[i := ?x]) = Some s2" "drop_use block_api s2 (xs ! i) p = Some s3"
      "du_ok block_api bopds s3" "bopds s3 = (bopds s)(p \<mapsto> xs[i := ?x])"
      "use_counter s3 = use_counter s + 1" "strip_blocks s3 = strip_blocks s"
    using bdu.swap_operand[OF TrueI ok d p s(2)[unfolded use_room_def] i] by blast
  have "use_counter s \<le> use_counter s3" using *(7) s(2) by (simp add: use_room_def)
  then have "ir_ok s3" by (rule ir_ok_blocks[OF s(1) *(5,8)])
  moreover have "replace_successor s p i v = Some s3"
    using *(1-4) i bopds_op[of s1 p xs] p by (auto simp: replace_successor_def put_bopds_def modify_op_def)
  ultimately show ?thesis using * by auto
qed

section \<open>Results and arguments\<close>

definition view_def :: "'ty val_def \<Rightarrow> 64 word \<times> use_ref list" where
  "view_def d = (vd_uid d, vd_uses d)"

lemma defs_view_alt: "defs_view s e = map_option (map view_def) (entity_defs s e)"
  by (simp add: defs_view_def view_def_def[abs_def])

lemma views_set_results:
  assumes "operations s p = Some op" and "operands op' = operands op" and "op_successors op' = op_successors op"
  shows "defs_view (s\<lparr>value_counter := n, operations := (operations s)(p \<mapsto> op')\<rparr>)
      = (defs_view s)(OpDef p \<mapsto> map view_def (results op'))"
    and "vopds (s\<lparr>value_counter := n, operations := (operations s)(p \<mapsto> op')\<rparr>) = vopds s"
    and "bopds (s\<lparr>value_counter := n, operations := (operations s)(p \<mapsto> op')\<rparr>) = bopds s"
    and "block_defnode (s\<lparr>value_counter := n, operations := (operations s)(p \<mapsto> op')\<rparr>) = block_defnode s"
  using assms
  by (auto simp: fun_eq_iff defs_view_alt entity_defs_def vopds_def bopds_def block_defnode_def
      split: defining_entity.splits)

lemma views_set_args:
  assumes "basic_blocks s b = Some bb" and "preds bb' = preds bb"
  shows "defs_view (s\<lparr>value_counter := n, basic_blocks := (basic_blocks s)(b \<mapsto> bb')\<rparr>)
      = (defs_view s)(BlockDef b \<mapsto> map view_def (args bb'))"
    and "vopds (s\<lparr>value_counter := n, basic_blocks := (basic_blocks s)(b \<mapsto> bb')\<rparr>) = vopds s"
    and "bopds (s\<lparr>value_counter := n, basic_blocks := (basic_blocks s)(b \<mapsto> bb')\<rparr>) = bopds s"
    and "block_defnode (s\<lparr>value_counter := n, basic_blocks := (basic_blocks s)(b \<mapsto> bb')\<rparr>) = block_defnode s"
  using assms
  by (auto simp: fun_eq_iff defs_view_alt entity_defs_def vopds_def bopds_def block_defnode_def
      split: defining_entity.splits)

definition new_def :: "('ty, 'c, 'a) ctx \<Rightarrow> 'ty \<Rightarrow> 'ty val_def" where
  "new_def s ty = \<lparr>vd_uses = [], vd_uid = value_counter s, vd_ty = ty\<rparr>"

lemma view_new_def [simp]: "view_def (new_def s ty) = (value_counter s, [])"
  by (simp add: view_def_def new_def_def)

lemma ir_ok_insert_result:
  assumes s: "ir_ok s" "value_room s" and op: "operations s p = Some op" and i: "i \<le> length (results op)"
    and op': "operands op' = operands op" "op_successors op' = op_successors op"
      "results op' = take i (results op) @ new_def s ty # drop i (results op)"
    and s': "s' = s\<lparr>value_counter := value_counter s + 1, operations := (operations s)(p \<mapsto> op')\<rparr>"
  shows "ir_ok s'" and "value_defnode s' = (value_defnode s)(result_value p (new_def s ty) \<mapsto> [])"
proof -
  note v = views_set_results[OF op op'(1,2), of "value_counter s + 1"]
  have d: "defs_view s (OpDef p) = Some (map view_def (results op))"
    using op by (simp add: defs_view_alt entity_defs_def)
  have i': "i \<le> length (map view_def (results op))" using i by simp
  have d': "defs_view s' = (defs_view s)(OpDef p \<mapsto>
      take i (map view_def (results op)) @ (value_counter s, []) # drop i (map view_def (results op)))"
    unfolding s' v(1) op'(3) by (simp add: take_map drop_map)
  note r = ir_ok_insert_def[OF s(1) d i' s(2)[unfolded value_room_def] d']
  show "ir_ok s'" by (rule r(1)) (simp_all add: s' v)
  have "value_defnode s' = (value_defnode s)(\<lparr>val_uid = value_counter s, defining_entity = OpDef p\<rparr> \<mapsto> [])"
    by (rule r(2)) (simp_all add: s' v)
  then show "value_defnode s' = (value_defnode s)(result_value p (new_def s ty) \<mapsto> [])"
    by (simp add: result_value_def new_def_def)
qed

lemma ir_ok_insert_arg:
  assumes s: "ir_ok s" "value_room s" and bb: "basic_blocks s b = Some bb" and i: "i \<le> length (args bb)"
    and bb': "preds bb' = preds bb" "args bb' = take i (args bb) @ new_def s ty # drop i (args bb)"
    and s': "s' = s\<lparr>value_counter := value_counter s + 1, basic_blocks := (basic_blocks s)(b \<mapsto> bb')\<rparr>"
  shows "ir_ok s'" and "value_defnode s' = (value_defnode s)(arg_value b (new_def s ty) \<mapsto> [])"
proof -
  note v = views_set_args[OF bb bb'(1), of "value_counter s + 1"]
  have d: "defs_view s (BlockDef b) = Some (map view_def (args bb))"
    using bb by (simp add: defs_view_alt entity_defs_def)
  have i': "i \<le> length (map view_def (args bb))" using i by simp
  have d': "defs_view s' = (defs_view s)(BlockDef b \<mapsto>
      take i (map view_def (args bb)) @ (value_counter s, []) # drop i (map view_def (args bb)))"
    unfolding s' v(1) bb'(2) by (simp add: take_map drop_map)
  note r = ir_ok_insert_def[OF s(1) d i' s(2)[unfolded value_room_def] d']
  show "ir_ok s'" by (rule r(1)) (simp_all add: s' v)
  have "value_defnode s' = (value_defnode s)(\<lparr>val_uid = value_counter s, defining_entity = BlockDef b\<rparr> \<mapsto> [])"
    by (rule r(2)) (simp_all add: s' v)
  then show "value_defnode s' = (value_defnode s)(arg_value b (new_def s ty) \<mapsto> [])"
    by (simp add: arg_value_def new_def_def)
qed

text \<open>The outcomes of the operations on results and arguments, when they return.\<close>

lemma push_result_eq:
  "push_result s p ty = map_option (\<lambda>op. (length (results op),
     s\<lparr>value_counter := value_counter s + 1,
       operations := (operations s)(p \<mapsto> op\<lparr>results := results op @ [new_def s ty]\<rparr>)\<rparr>)) (operations s p)"
  by (cases "operations s p")
    (simp_all add: push_result_def val_def_new_def get_new_value_uid_def modify_op_def new_def_def)

lemma push_argument_eq:
  "push_argument s b ty = map_option (\<lambda>bb. (length (args bb),
     s\<lparr>value_counter := value_counter s + 1,
       basic_blocks := (basic_blocks s)(b \<mapsto> bb\<lparr>args := args bb @ [new_def s ty]\<rparr>)\<rparr>)) (basic_blocks s b)"
  by (cases "basic_blocks s b")
    (simp_all add: push_argument_def val_def_new_def get_new_value_uid_def modify_block_def new_def_def)

lemma insert_result_eq:
  "insert_result s p i ty = Some s' \<longleftrightarrow> (\<exists>op attrs. operations s p = Some op \<and> i \<le> length (results op)
     \<and> insert_name_in_attr_map (attributes op) i None = Some attrs
     \<and> s' = s\<lparr>value_counter := value_counter s + 1, operations := (operations s)(p \<mapsto>
         op\<lparr>results := take i (results op) @ new_def s ty # drop i (results op), attributes := attrs\<rparr>)\<rparr>)"
  by (cases "operations s p")
    (auto simp: insert_result_def val_def_new_def get_new_value_uid_def modify_op_def new_def_def
      insert_at_def insert_operation_result_name_def bind_eq_Some_conv ocheck_def)

lemma insert_argument_eq:
  "insert_argument s b i ty = Some s' \<longleftrightarrow> (\<exists>bb attrs. basic_blocks s b = Some bb \<and> i \<le> length (args bb)
     \<and> insert_name_in_attr_map (bb_attributes bb) i None = Some attrs
     \<and> s' = s\<lparr>value_counter := value_counter s + 1, basic_blocks := (basic_blocks s)(b \<mapsto>
         bb\<lparr>args := take i (args bb) @ new_def s ty # drop i (args bb), bb_attributes := attrs\<rparr>)\<rparr>)"
  by (cases "basic_blocks s b")
    (auto simp: insert_argument_def val_def_new_def get_new_value_uid_def modify_block_def new_def_def
      insert_at_def insert_block_arg_name_def bind_eq_Some_conv ocheck_def)

text \<open>In a well-formed context the uses of the \<open>i\<close>-th result are found at that result.\<close>

lemma value_defnode_nth:
  assumes "uids_ok s" and "entity_defs s e = Some ds" and "i < length ds"
  shows "value_defnode s \<lparr>val_uid = vd_uid (ds ! i), defining_entity = e\<rparr> = Some (vd_uses (ds ! i))"
    and "find_index s \<lparr>val_uid = vd_uid (ds ! i), defining_entity = e\<rparr> = Some i"
proof -
  have d: "distinct (map vd_uid ds)" using assms(1,2) by (simp add: uids_ok_def)
  have "j = i" if "j < length ds" "vd_uid (ds ! j) = vd_uid (ds ! i)" for j
    using d that assms(3) by (metis length_map nth_eq_iff_index_eq nth_map)
  then have "\<forall>j<i. vd_uid (ds ! j) \<noteq> vd_uid (ds ! i)" using assms(3) by (metis less_trans nat_neq_iff)
  then have p: "position (\<lambda>d. vd_uid d = vd_uid (ds ! i)) ds = Some i"
    using assms(3) by (auto simp: position_Some)
  show "value_defnode s \<lparr>val_uid = vd_uid (ds ! i), defining_entity = e\<rparr> = Some (vd_uses (ds ! i))"
    using assms(2) p by (simp add: value_defnode_alt)
  show "find_index s \<lparr>val_uid = vd_uid (ds ! i), defining_entity = e\<rparr> = Some i"
    using assms(2) p by (simp add: find_index_def try_find_index_def)
qed

lemma remove_result_eq:
  assumes "uids_ok s"
  shows "remove_result s p i = Some s' \<longleftrightarrow> (\<exists>op attrs. operations s p = Some op \<and> i < length (results op)
     \<and> vd_uses (results op ! i) = [] \<and> remove_name_from_attr_map (attributes op) i = Some attrs
     \<and> s' = s\<lparr>operations := (operations s)(p \<mapsto>
         op\<lparr>attributes := attrs, results := take i (results op) @ drop (Suc i) (results op)\<rparr>)\<rparr>)"
proof (cases "\<exists>op. operations s p = Some op \<and> i < length (results op)")
  case True
  then obtain op where op: "operations s p = Some op" "i < length (results op)" by blast
  have e: "entity_defs s (OpDef p) = Some (results op)" using op by (simp add: entity_defs_def)
  have "value_defnode s (result_value p (results op ! i)) = Some (vd_uses (results op ! i))"
    using value_defnode_nth(1)[OF assms e op(2)] by (simp add: result_value_def)
  then show ?thesis using op
    by (cases "vd_uses (results op ! i) = []")
      (auto simp: remove_result_def get_result_def is_used_def remove_operation_result_name_def
        modify_op_def remove_at_def bind_eq_Some_conv ocheck_def)
next
  case False
  then show ?thesis
    by (auto simp: remove_result_def get_result_def bind_eq_Some_conv)
qed

lemma remove_argument_eq:
  assumes "uids_ok s"
  shows "remove_argument s b i = Some s' \<longleftrightarrow> (\<exists>bb attrs. basic_blocks s b = Some bb \<and> i < length (args bb)
     \<and> vd_uses (args bb ! i) = [] \<and> remove_name_from_attr_map (bb_attributes bb) i = Some attrs
     \<and> s' = s\<lparr>basic_blocks := (basic_blocks s)(b \<mapsto>
         bb\<lparr>bb_attributes := attrs, args := take i (args bb) @ drop (Suc i) (args bb)\<rparr>)\<rparr>)"
proof (cases "\<exists>bb. basic_blocks s b = Some bb \<and> i < length (args bb)")
  case True
  then obtain bb where bb: "basic_blocks s b = Some bb" "i < length (args bb)" by blast
  have e: "entity_defs s (BlockDef b) = Some (args bb)" using bb by (simp add: entity_defs_def)
  have "value_defnode s (arg_value b (args bb ! i)) = Some (vd_uses (args bb ! i))"
    using value_defnode_nth(1)[OF assms e bb(2)] by (simp add: arg_value_def)
  then show ?thesis using bb
    by (cases "vd_uses (args bb ! i) = []")
      (auto simp: remove_argument_def get_argument_def is_used_def remove_block_arg_name_def
        modify_block_def remove_at_def bind_eq_Some_conv ocheck_def)
next
  case False
  then show ?thesis
    by (auto simp: remove_argument_def get_argument_def bind_eq_Some_conv)
qed

lemma ir_ok_remove_result:
  assumes s: "ir_ok s" and op: "operations s p = Some op" and i: "i < length (results op)"
    and unused: "vd_uses (results op ! i) = []"
    and op': "operands op' = operands op" "op_successors op' = op_successors op"
      "results op' = take i (results op) @ drop (Suc i) (results op)"
    and s': "s' = s\<lparr>operations := (operations s)(p \<mapsto> op')\<rparr>"
  shows "ir_ok s'" and "value_defnode s' = (value_defnode s)(result_value p (results op ! i) := None)"
proof -
  note v = views_set_results[OF op op'(1,2), of "value_counter s"]
  have d: "defs_view s (OpDef p) = Some (map view_def (results op))"
    using op by (simp add: defs_view_alt entity_defs_def)
  have i': "i < length (map view_def (results op))" using i by simp
  have u: "snd (map view_def (results op) ! i) = []" using i unused by (simp add: view_def_def)
  have d': "defs_view s' = (defs_view s)(OpDef p \<mapsto>
      take i (map view_def (results op)) @ drop (Suc i) (map view_def (results op)))"
    using v(1) unfolding s' op'(3) by (simp add: take_map drop_map)
  note r = ir_ok_remove_def[OF s(1) d i' u d']
  show "ir_ok s'" by (rule r(1)) (use v in \<open>simp_all add: s'\<close>)
  have "value_defnode s' = (value_defnode s)(\<lparr>val_uid = fst (map view_def (results op) ! i), defining_entity = OpDef p\<rparr> := None)"
    by (rule r(2)) (use v in \<open>simp_all add: s'\<close>)
  then show "value_defnode s' = (value_defnode s)(result_value p (results op ! i) := None)"
    using i by (simp add: result_value_def view_def_def)
qed

lemma ir_ok_remove_arg:
  assumes s: "ir_ok s" and bb: "basic_blocks s b = Some bb" and i: "i < length (args bb)"
    and unused: "vd_uses (args bb ! i) = []"
    and bb': "preds bb' = preds bb" "args bb' = take i (args bb) @ drop (Suc i) (args bb)"
    and s': "s' = s\<lparr>basic_blocks := (basic_blocks s)(b \<mapsto> bb')\<rparr>"
  shows "ir_ok s'" and "value_defnode s' = (value_defnode s)(arg_value b (args bb ! i) := None)"
proof -
  note v = views_set_args[OF bb bb'(1), of "value_counter s"]
  have d: "defs_view s (BlockDef b) = Some (map view_def (args bb))"
    using bb by (simp add: defs_view_alt entity_defs_def)
  have i': "i < length (map view_def (args bb))" using i by simp
  have u: "snd (map view_def (args bb) ! i) = []" using i unused by (simp add: view_def_def)
  have d': "defs_view s' = (defs_view s)(BlockDef b \<mapsto>
      take i (map view_def (args bb)) @ drop (Suc i) (map view_def (args bb)))"
    using v(1) unfolding s' bb'(2) by (simp add: take_map drop_map)
  note r = ir_ok_remove_def[OF s(1) d i' u d']
  show "ir_ok s'" by (rule r(1)) (use v in \<open>simp_all add: s'\<close>)
  have "value_defnode s' = (value_defnode s)(\<lparr>val_uid = fst (map view_def (args bb) ! i), defining_entity = BlockDef b\<rparr> := None)"
    by (rule r(2)) (use v in \<open>simp_all add: s'\<close>)
  then show "value_defnode s' = (value_defnode s)(arg_value b (args bb ! i) := None)"
    using i by (simp add: arg_value_def view_def_def)
qed

end
