(* ===== verification/IrProps.thy ===== *)
theory IrProps
  imports IrOps
begin

text \<open>
  Creating operations and blocks, moving uses, and the properties of the intermediate
  representation as a whole: every operation keeps the def-use chains consistent, whatever sequence of
  them a client runs.
\<close>

section \<open>New operations and blocks\<close>

lemma val_defs_new_eq:
  "val_defs_new s tys =
     (map (\<lambda>i. \<lparr>vd_uses = [], vd_uid = value_counter s + of_nat i, vd_ty = tys ! i\<rparr>) [0..<length tys],
      s\<lparr>value_counter := value_counter s + of_nat (length tys)\<rparr>)"
proof (induction tys arbitrary: s)
  case (Cons ty tys)
  have "map (\<lambda>i. \<lparr>vd_uses = [], vd_uid = value_counter s + of_nat i, vd_ty = (ty # tys) ! i\<rparr>) [0..<length (ty # tys)]
      = \<lparr>vd_uses = [], vd_uid = value_counter s, vd_ty = ty\<rparr>
        # map (\<lambda>i. \<lparr>vd_uses = [], vd_uid = value_counter s + 1 + of_nat i, vd_ty = tys ! i\<rparr>) [0..<length tys]"
    unfolding length_Cons upt_conv_Cons[OF zero_less_Suc] map_Suc_upt[symmetric]
    by (simp add: ac_simps)
  then show ?case
    by (simp add: Cons.IH val_def_new_def get_new_value_uid_def ac_simps)
qed simp

text \<open>Freshly numbered definitions: distinct, above every number in use, without uses.\<close>

lemma val_defs_new_fresh:
  fixes s :: "('ty, 'c, 'a) ctx"
  assumes "val_defs_new s tys = (ds, s1)" and room: "unat (value_counter s) + length tys < 2 ^ 64"
  shows "distinct (map vd_uid ds)" and "map vd_ty ds = tys" and "\<forall>d \<in> set ds. vd_uses d = []"
    and "\<forall>d \<in> set ds. value_counter s \<le> vd_uid d \<and> vd_uid d < value_counter s1"
    and "s1 = s\<lparr>value_counter := value_counter s1\<rparr>"
    and "unat (value_counter s1) = unat (value_counter s) + length tys"
proof -
  have e: "ds = map (\<lambda>i. \<lparr>vd_uses = [], vd_uid = value_counter s + of_nat i, vd_ty = tys ! i\<rparr>) [0..<length tys]"
    "s1 = s\<lparr>value_counter := value_counter s + of_nat (length tys)\<rparr>"
    using assms(1) by (simp_all add: val_defs_new_eq)
  have u: "unat (value_counter s + of_nat i) = unat (value_counter s) + i" if "i \<le> length tys" for i
  proof -
    have i: "unat (of_nat i :: 64 word) = i"
    proof -
      have "i < 2 ^ 64" using that room by linarith
      then show ?thesis by (simp add: unat_of_nat)
    qed
    have "unat (value_counter s) + i < 2 ^ 64" using that room by linarith
    then show ?thesis using i by (simp add: unat_word_ariths)
  qed
  have inj: "i = j" if "i < length tys" "j < length tys"
      "value_counter s + of_nat i = value_counter s + (of_nat j :: 64 word)" for i j
  proof -
    have "unat (value_counter s + of_nat i) = unat (value_counter s + (of_nat j :: 64 word))"
      by (rule arg_cong[OF that(3)])
    then show ?thesis unfolding u[OF less_imp_le[OF that(1)]] u[OF less_imp_le[OF that(2)]] by (rule add_left_imp_eq)
  qed
  show "distinct (map vd_uid ds)"
  proof -
    have "inj_on (\<lambda>i. value_counter s + (of_nat i :: 64 word)) {0..<length tys}"
      by (rule inj_onI) (rule inj, auto)
    moreover have "map vd_uid ds = map (\<lambda>i. value_counter s + of_nat i) [0..<length tys]"
      unfolding e(1) by (simp add: o_def)
    ultimately show ?thesis by (simp only: distinct_map distinct_upt set_upt simp_thms)
  qed
  show "map vd_ty ds = tys" unfolding e(1) by (simp add: o_def map_nth)
  show "\<forall>d \<in> set ds. vd_uses d = []" unfolding e(1) by auto
  show "unat (value_counter s1) = unat (value_counter s) + length tys" using u[of "length tys"] e(2) by simp
  show "\<forall>d \<in> set ds. value_counter s \<le> vd_uid d \<and> vd_uid d < value_counter s1"
    unfolding e using u by (auto simp: word_le_nat_alt word_less_nat_alt)
  show "s1 = s\<lparr>value_counter := value_counter s1\<rparr>" using e(2) by simp
qed

text \<open>New definitions for an entity that had none.\<close>

lemma ir_ok_new_defs:
  assumes s: "ir_ok s" and e: "defs_view s e = Some []"
    and xs: "distinct (map fst xs)" "\<forall>x \<in> set xs. fst x < value_counter s' \<and> snd x = []"
    and s': "defs_view s' = (defs_view s)(e \<mapsto> xs)" "vopds s' = vopds s" "bopds s' = bopds s"
      "block_defnode s' = block_defnode s" "value_counter s \<le> value_counter s'" "use_counter s' = use_counter s"
  shows "ir_ok s'" and "value_defnode s v = Some us \<Longrightarrow> value_defnode s' v = Some us"
proof -
  have u: "\<And>e xs. defs_view s e = Some xs \<Longrightarrow> distinct (map fst xs) \<and> (\<forall>x \<in> set xs. fst x < value_counter s)"
    using s by (auto simp: ir_ok_def uids_ok_view)
  have "uids_ok s'"
    unfolding uids_ok_view s'(1)
  proof (intro allI impI)
    fix f ys assume f: "((defs_view s)(e \<mapsto> xs)) f = Some ys"
    show "distinct (map fst ys) \<and> (\<forall>x \<in> set ys. fst x < value_counter s')"
      using f u[of f ys] xs s'(5) by (cases "f = e") auto
  qed
  moreover have m: "map_of xs k = None \<or> map_of xs k = Some []" for k
    using xs(2) by (cases "map_of xs k") (fastforce dest: map_of_SomeD)+
  have new: "\<forall>v. value_defnode s' v = value_defnode s v \<or> value_defnode s v = None \<and> value_defnode s' v = Some []"
  proof
    fix v
    show "value_defnode s' v = value_defnode s v \<or> value_defnode s v = None \<and> value_defnode s' v = Some []"
      using e m[of "val_uid v"] by (cases "defining_entity v = e") (auto simp: value_defnode_view s'(1))
  qed
  ultimately show "ir_ok s'"
    using s s' def_use_new_defs[OF _ new] by (simp add: ir_ok_def du_ok_def value_api_def block_api_def)
  show "value_defnode s' v = Some us" if "value_defnode s v = Some us"
    using new that by (metis option.simps(3))
qed

lemma ir_ok_alloc_op:
  assumes s: "ir_ok s" and k: "operations s k = None"
    and op: "results op = []" "operands op = []" "op_successors op = []"
  shows "ir_ok (alloc_op s k op)" and "defs_view (alloc_op s k op) (OpDef k) = Some []"
    and "vopds (alloc_op s k op) = (vopds s)(k \<mapsto> [])" and "bopds (alloc_op s k op) = (bopds s)(k \<mapsto> [])"
    and "block_defnode (alloc_op s k op) = block_defnode s"
    and "value_defnode s v = Some us \<Longrightarrow> value_defnode (alloc_op s k op) v = Some us"
proof -
  let ?s = "alloc_op s k op"
  have d: "defs_view ?s = (defs_view s)(OpDef k \<mapsto> [])"
    using op by (auto simp: fun_eq_iff defs_view_alt entity_defs_def alloc_op_def split: defining_entity.split)
  show v: "vopds ?s = (vopds s)(k \<mapsto> [])" and b: "bopds ?s = (bopds s)(k \<mapsto> [])"
    using op by (auto simp: fun_eq_iff vopds_def bopds_def alloc_op_def)
  show p: "block_defnode ?s = block_defnode s" by (simp add: fun_eq_iff block_defnode_def alloc_op_def)
  have c: "value_counter ?s = value_counter s" "use_counter ?s = use_counter s" by (simp_all add: alloc_op_def)
  show "defs_view ?s (OpDef k) = Some []" using d by simp
  have n: "vopds s k = None" "bopds s k = None" "defs_view s (OpDef k) = None"
    using k by (simp_all add: vopds_def bopds_def defs_view_alt entity_defs_def)
  have w: "value_defnode ?s = value_defnode s"
  proof
    fix v show "value_defnode ?s v = value_defnode s v"
      using n(3) by (cases "defining_entity v = OpDef k") (simp_all add: value_defnode_view d)
  qed
  have "uids_ok ?s" using s unfolding ir_ok_def uids_ok_view d c by (auto split: if_splits)
  then show "ir_ok ?s"
    using s n(1,2) def_use_new_op[of "value_defnode s" "vopds s" "use_counter s" k]
      def_use_new_op[of "block_defnode s" "bopds s" "use_counter s" k]
    by (simp add: ir_ok_def du_ok_def value_api_def block_api_def v b p c w)
  show "value_defnode ?s v = Some us" if "value_defnode s v = Some us" using that w by simp
qed

lemma regions_new_views:
  "ir_views (regions_new s rs p) = ir_views s \<and> operations (regions_new s rs p) = operations s
    \<and> basic_blocks (regions_new s rs p) = basic_blocks s"
proof (induction rs arbitrary: s)
  case (Cons r rs)
  have "ir_views (region_new s r p) = ir_views s" "operations (region_new s r p) = operations s"
      "basic_blocks (region_new s r p) = basic_blocks s"
    by (auto simp: ir_views_def region_new_def alloc_region_def fun_eq_iff defs_view_alt entity_defs_def
        vopds_def bopds_def block_defnode_def split: defining_entity.split)
  then show ?case using Cons.IH[of "region_new s r p"] by simp
qed simp

lemma views_set_regions:
  assumes "operations s p = Some op"
  shows "ir_views (s\<lparr>operations := (operations s)(p \<mapsto> op\<lparr>op_regions := rs\<rparr>)\<rparr>) = ir_views s"
  using assms
  by (auto simp: ir_views_def fun_eq_iff defs_view_alt entity_defs_def vopds_def bopds_def block_defnode_def
      split: defining_entity.split)

lemma put_vopds_value: "operations s p = Some op \<Longrightarrow> modify_op s p (\<lambda>op. op\<lparr>operands := xs\<rparr>) = put_vopds s p xs"
  by (simp add: put_vopds_def)

text \<open>
  \<open>Operation::new\<close>: under a key not in use, with live operands and successors and room for
  the numbers it hands out, it returns a context in which the new operation has the given
  results, operands, successors and regions, and every other operation is as it was.
\<close>

text \<open>The containment structure: regions of operations, and the links.\<close>

definition op_regs :: "('ty, 'c, 'a) ctx \<Rightarrow> op_ptr \<rightharpoonup> region_ptr list" where
  "op_regs s p = map_option op_regions (operations s p)"

definition shape where
  "shape s = (op_regs s, dom (basic_blocks s), regions s, op_links s, block_links s)"

lemma shape_strip_values: "shape (strip_values s) = shape s"
  by (auto simp: shape_def strip_values_def op_regs_def fun_eq_iff option.map_comp o_def dom_def)

lemma shape_strip_blocks: "shape (strip_blocks s) = shape s"
  by (auto simp: shape_def strip_blocks_def op_regs_def fun_eq_iff option.map_comp o_def dom_def)

lemma strip_values_shape: "strip_values s' = strip_values s \<Longrightarrow> shape s' = shape s"
  using shape_strip_values[of s] shape_strip_values[of s'] by simp

lemma strip_blocks_shape: "strip_blocks s' = strip_blocks s \<Longrightarrow> shape s' = shape s"
  using shape_strip_blocks[of s] shape_strip_blocks[of s'] by simp

lemma shape_set_op:
  assumes "operations s p = Some op" and "op_regions op' = op_regions op"
  shows "shape (s\<lparr>value_counter := n, operations := (operations s)(p \<mapsto> op')\<rparr>) = shape s"
  using assms by (auto simp: shape_def op_regs_def fun_eq_iff)

lemma shape_set_block:
  assumes "basic_blocks s b = Some bb"
  shows "shape (s\<lparr>value_counter := n, basic_blocks := (basic_blocks s)(b \<mapsto> bb')\<rparr>) = shape s"
  using assms by (auto simp: shape_def op_regs_def fun_eq_iff)

lemma shape_regions_new:
  "shape (regions_new s rs p) = (op_regs s, dom (basic_blocks s),
     (\<lambda>r. if r \<in> set rs then Some \<lparr>parent_op = p\<rparr> else regions s r), op_links s,
     (block_links s)\<lparr>roots := (\<lambda>r. if r \<in> set rs then Some empty_root else roots (block_links s) r)\<rparr>)"
proof (induction rs arbitrary: s)
  case Nil then show ?case by (simp add: shape_def)
next
  case (Cons r rs)
  have "op_regs (region_new s r p) = op_regs s"
    by (simp add: fun_eq_iff op_regs_def region_new_def alloc_region_def)
  then show ?case using Cons.IH[of "region_new s r p"]
    by (auto simp: region_new_def alloc_region_def fun_eq_iff)
qed

lemma operation_new_spec:
  assumes s: "ir_ok s" and k: "operations s k = None"
    and live: "\<forall>v \<in> set opds. value_defnode s v \<noteq> None" "\<forall>b \<in> set succs. block_defnode s b \<noteq> None"
    and room: "unat (value_counter s) + length tys < 2 ^ 64"
      "unat (use_counter s) + length opds + length succs < 2 ^ 64"
  shows "\<exists>s' ds xs ys. operation_new s k rs c tys opds succs = Some s' \<and> ir_ok s'
    \<and> operations s' k = Some \<lparr>concrete_op = c, results = ds, operands = xs, op_successors = ys,
        attributes = [], op_regions = rs\<rparr>
    \<and> map vd_ty ds = tys \<and> map opd_def xs = opds \<and> map opd_def ys = succs
    \<and> (\<forall>q. q \<noteq> k \<longrightarrow> vopds s' q = vopds s q \<and> bopds s' q = bopds s q)
    \<and> unat (value_counter s') = unat (value_counter s) + length tys
    \<and> unat (use_counter s') = unat (use_counter s) + length opds + length succs
    \<and> shape s' = ((op_regs s)(k \<mapsto> rs), dom (basic_blocks s),
        (\<lambda>r. if r \<in> set rs then Some \<lparr>parent_op = k\<rparr> else regions s r),
        (op_links s)\<lparr>nodes := (nodes (op_links s))(k \<mapsto> unlinked_node)\<rparr>,
        (block_links s)\<lparr>roots := (\<lambda>r. if r \<in> set rs then Some empty_root else roots (block_links s) r)\<rparr>)"
proof -
  let ?op0 = "\<lparr>concrete_op = c, results = [], operands = [], op_successors = [], attributes = [], op_regions = []\<rparr>"
  let ?s0 = "alloc_op s k ?op0"
  have op0: "results ?op0 = []" "operands ?op0 = []" "op_successors ?op0 = []" by simp_all
  note a = ir_ok_alloc_op[OF s k op0]
  have o0: "operations ?s0 k = Some ?op0" "value_counter ?s0 = value_counter s" "use_counter ?s0 = use_counter s"
    by (simp_all add: alloc_op_def)
  obtain ds s1 where d: "val_defs_new ?s0 tys = (ds, s1)" by (cases "val_defs_new ?s0 tys")
  note f = val_defs_new_fresh[OF d, unfolded o0, OF room(1)]
  let ?op2 = "?op0\<lparr>results := ds\<rparr>"
  let ?s2 = "s1\<lparr>operations := (operations s1)(k \<mapsto> ?op2)\<rparr>"
  have o1: "operations s1 = operations ?s0" using f(5) by (metis ctx.select_convs(3) ctx.surjective ctx.update_convs(1))
  have m2: "modify_op s1 k (\<lambda>op. op\<lparr>results := ds\<rparr>) = Some ?s2"
    using o1 o0(1) by (simp add: modify_op_def)
  have s2: "?s2 = ?s0\<lparr>value_counter := value_counter s1, operations := (operations ?s0)(k \<mapsto> ?op2)\<rparr>"
  proof -
    obtain n where n: "s1 = ?s0\<lparr>value_counter := n\<rparr>" using f(5) by blast
    show ?thesis unfolding n by simp
  qed
  have same: "operands ?op2 = operands ?op0" "op_successors ?op2 = op_successors ?op0" by simp_all
  note v2 = views_set_results[OF o0(1) same, of "value_counter s1", folded s2]
  have c2: "value_counter ?s2 = value_counter s1" "use_counter ?s2 = use_counter s" using s2 o0(3) by simp_all
  have cle: "value_counter ?s0 \<le> value_counter ?s2" using f(6) o0(2) c2 by (simp add: word_le_nat_alt)
  have xs2: "distinct (map fst (map view_def ds))" "\<forall>x \<in> set (map view_def ds). fst x < value_counter ?s2 \<and> snd x = []"
    using f(1,3,4) c2 by (auto simp: view_def_def o_def)
  have d2: "defs_view ?s2 = (defs_view ?s0)(OpDef k \<mapsto> map view_def ds)" using v2(1) by simp
  have uc2: "use_counter ?s2 = use_counter ?s0" using c2(2) o0(3) by simp
  note r2 = ir_ok_new_defs[OF a(1,2) xs2 d2 v2(2-4) cle uc2]
  have live2: "\<forall>v \<in> set opds. get_defnode value_api ?s2 v \<noteq> None"
    using live(1) a(6) r2(2) by (auto simp: value_api_def)
  have vk: "vopds ?s2 k = Some []" "bopds ?s2 k = Some []" by (simp_all add: vopds_def bopds_def)
  have "(vopds ?s2)(k \<mapsto> []) = vopds ?s2" using vk(1) by (auto simp: fun_eq_iff)
  then have du2: "def_use_ok (get_defnode value_api ?s2) ((vopds ?s2)(k \<mapsto> [])) (use_counter ?s2)" and u2: "uids_ok ?s2"
    using r2(1) by (simp_all add: ir_ok_def du_ok_def)
  obtain xs s3 where s3: "operands_new value_api ?s2 opds k = Some (xs, s3)" "uids_ok s3"
      "def_use_ok (get_defnode value_api s3) ((vopds s3)(k \<mapsto> [] @ xs)) (use_counter s3)"
      "vopds s3 = vopds ?s2" "strip_values s3 = strip_values ?s2" "map opd_def xs = opds"
      "unat (use_counter s3) = unat (use_counter ?s2) + length opds"
    using vdu.operands_new_spec[OF u2 du2 live2] room(2) c2(2) by auto
  have vk3: "vopds s3 k = Some []" using s3(4) vk(1) by simp
  obtain s4 where s4: "put_vopds s3 k xs = Some s4" "uids_ok s4" "value_defnode s4 = value_defnode s3"
      "vopds s4 = (vopds s3)(k \<mapsto> xs)" "use_counter s4 = use_counter s3" "strip_values s4 = strip_values s3"
    using put_vopds_spec[OF vk3 s3(2), of xs] by blast
  have du4: "du_ok value_api vopds s4"
    using s3(3) s4(3-5) by (simp add: du_ok_def value_api_def)
  have st4: "strip_values s4 = strip_values ?s2" using s3(5) s4(6) by simp
  have "use_counter ?s2 \<le> use_counter s4" using s3(7) s4(5) by (simp add: word_le_nat_alt)
  then have ok4: "ir_ok s4" by (rule ir_ok_values[OF r2(1) s4(2) du4 st4])
  note fr4 = strip_values_frame[OF st4]
  have bk4: "bopds s4 k = Some []" using fr4(2) vk(2) by simp
  have live4: "\<forall>b \<in> set succs. get_defnode block_api s4 b \<noteq> None"
    using live(2) fr4(1) v2(4) a(5) by (simp add: block_api_def)
  have "(bopds s4)(k \<mapsto> []) = bopds s4" using bk4 by (auto simp: fun_eq_iff)
  then have du4b: "def_use_ok (get_defnode block_api s4) ((bopds s4)(k \<mapsto> [])) (use_counter s4)"
    using ok4 by (simp add: ir_ok_def du_ok_def)
  have room4: "unat (use_counter s4) + length succs < 2 ^ 64" using room(2) s3(7) s4(5) c2(2) by simp
  obtain ys s5 where s5: "operands_new block_api s4 succs k = Some (ys, s5)"
      "def_use_ok (get_defnode block_api s5) ((bopds s5)(k \<mapsto> [] @ ys)) (use_counter s5)"
      "bopds s5 = bopds s4" "strip_blocks s5 = strip_blocks s4" "map opd_def ys = succs"
      "unat (use_counter s5) = unat (use_counter s4) + length succs"
    using bdu.operands_new_spec[OF TrueI du4b live4 room4] by auto
  have bk5: "bopds s5 k = Some []" using s5(3) bk4 by simp
  obtain s6 where s6: "put_bopds s5 k ys = Some s6" "block_defnode s6 = block_defnode s5"
      "bopds s6 = (bopds s5)(k \<mapsto> ys)" "use_counter s6 = use_counter s5" "strip_blocks s6 = strip_blocks s5"
    using put_bopds_spec[OF bk5, of ys] by blast
  have du6: "du_ok block_api bopds s6" using s5(2) s6(2-4) by (simp add: du_ok_def block_api_def)
  have st6: "strip_blocks s6 = strip_blocks s4" using s5(4) s6(5) by simp
  have "use_counter s4 \<le> use_counter s6" using s5(6) s6(4) by (simp add: word_le_nat_alt)
  then have ok6: "ir_ok s6" by (rule ir_ok_blocks[OF ok4 du6 st6])
  note fr6 = strip_blocks_frame[OF st6]
  let ?s7 = "regions_new s6 rs k"
  note r7 = regions_new_views[of s6 rs k]
  obtain op6 where op6: "operations s6 k = Some op6" "op_successors op6 = ys"
    using bopds_op[of s6 k ys] s6(3) by auto
  let ?s8 = "?s7\<lparr>operations := (operations ?s7)(k \<mapsto> op6\<lparr>op_regions := rs\<rparr>)\<rparr>"
  have op7: "operations ?s7 k = Some op6" using r7 op6 by simp
  have ok8: "ir_ok ?s8"
    using ok6 ir_ok_views views_set_regions[OF op7, of rs] r7 by metis
  have run: "operation_new s k rs c tys opds succs = Some ?s8"
  proof -
    have p4: "modify_op s3 k (\<lambda>op. op\<lparr>operands := xs\<rparr>) = Some s4" using s4(1) by (simp add: put_vopds_def)
    have p6: "modify_op s5 k (\<lambda>op. op\<lparr>op_successors := ys\<rparr>) = Some s6" using s6(1) by (simp add: put_bopds_def)
    show ?thesis
      using d m2 s3(1) p4 s5(1) p6 op7 by (simp add: operation_new_def modify_op_def[of ?s7])
  qed
  have vop: "operands op6 = xs"
    using fr6(2) s4(4) op6(1) by (metis fun_upd_same option.inject option.simps(9) vopds_def)
  have strip4: "(operations (strip_values s4)) k = (operations (strip_values ?s2)) k" using st4 by simp
  obtain op4 where op4: "operations s4 k = Some op4" "operands op4 = xs"
    using vopds_op[of s4 k xs] s4(4) by auto
  have e4: "concrete_op op4 = c" "attributes op4 = []" "map no_uses (results op4) = map no_uses ds"
    using strip4 op4(1) by (auto simp: strip_values_def dest: arg_cong[of _ _ concrete_op]
        arg_cong[of _ _ attributes] arg_cong[of _ _ results])
  have strip6: "(operations (strip_blocks s6)) k = (operations (strip_blocks s4)) k" using st6 by simp
  have e6: "concrete_op op6 = c" "attributes op6 = []" "results op6 = results op4"
    using strip6 op6(1) op4(1) e4 by (auto simp: strip_blocks_def dest: arg_cong[of _ _ concrete_op]
        arg_cong[of _ _ attributes] arg_cong[of _ _ results])
  have ty: "map vd_ty (results op6) = tys"
  proof -
    have "map vd_ty (results op6) = map vd_ty (map no_uses (results op6))" by simp
    also have "\<dots> = map vd_ty (map no_uses ds)" using e4(3) e6(3) by simp
    also have "\<dots> = tys" using f(2) by simp
    finally show ?thesis .
  qed
  have o8: "operations ?s8 k = Some \<lparr>concrete_op = c, results = results op6, operands = xs,
      op_successors = ys, attributes = [], op_regions = rs\<rparr>"
    using e6(1,2) vop op6(2) by (cases op6) simp
  have others: "vopds ?s8 q = vopds s q \<and> bopds ?s8 q = bopds s q" if "q \<noteq> k" for q
  proof -
    have "vopds ?s8 q = vopds s6 q" "bopds ?s8 q = bopds s6 q" using that r7 by (simp_all add: vopds_def bopds_def)
    moreover have "vopds s6 q = vopds s q"
      using that fr6(2) s4(4) s3(4) v2(2) a(3) by simp
    moreover have "bopds s6 q = bopds s q"
      using that s6(3) s5(3) fr4(2) v2(3) a(4) by simp
    ultimately show ?thesis by simp
  qed
  have vc: "unat (value_counter ?s8) = unat (value_counter s) + length tys"
    using f(6) o0(2) c2(1) strip_values_frame(3)[OF st4] fr6(4) r7 by (simp add: ir_views_def)
  have uc: "unat (use_counter ?s8) = unat (use_counter s) + length opds + length succs"
    using c2(2) s3(7) s4(5) s5(6) s6(4) r7 by (simp add: ir_views_def)
  have sh0: "shape ?s0 = ((op_regs s)(k \<mapsto> []), dom (basic_blocks s), regions s,
      (op_links s)\<lparr>nodes := (nodes (op_links s))(k \<mapsto> unlinked_node)\<rparr>, block_links s)"
    by (auto simp: shape_def op_regs_def alloc_op_def fun_eq_iff)
  have "shape ?s2 = shape ?s0" unfolding s2 by (rule shape_set_op[OF o0(1)]) simp
  then have sh6: "shape s6 = shape ?s0" using strip_values_shape[OF st4] strip_blocks_shape[OF st6] by simp
  have sh8: "shape ?s8 = ((op_regs s)(k \<mapsto> rs), dom (basic_blocks s),
        (\<lambda>r. if r \<in> set rs then Some \<lparr>parent_op = k\<rparr> else regions s r),
        (op_links s)\<lparr>nodes := (nodes (op_links s))(k \<mapsto> unlinked_node)\<rparr>,
        (block_links s)\<lparr>roots := (\<lambda>r. if r \<in> set rs then Some empty_root else roots (block_links s) r)\<rparr>)"
  proof -
    have "op_regs ?s8 = (op_regs ?s7)(k \<mapsto> rs)" by (auto simp: op_regs_def fun_eq_iff)
    then show ?thesis using shape_regions_new[of s6 rs k] sh6 sh0 by (auto simp: shape_def cong: if_cong)
  qed
  show ?thesis
    using run ok8 o8 ty s3(6) s5(5) others vc uc sh8
    by (intro exI[of _ ?s8] exI[of _ "results op6"] exI[of _ xs] exI[of _ ys]) blast
qed

lemma basic_block_new_spec:
  assumes s: "ir_ok s" and k: "basic_blocks s k = None" and room: "unat (value_counter s) + length tys < 2 ^ 64"
  shows "\<exists>s' ds. basic_block_new s k lbl tys = Some s' \<and> ir_ok s'
    \<and> basic_blocks s' k = Some \<lparr>label = lbl, args = ds, preds = [], bb_attributes = []\<rparr>
    \<and> map vd_ty ds = tys \<and> vopds s' = vopds s \<and> bopds s' = bopds s
    \<and> block_defnode s' = (block_defnode s)(k \<mapsto> [])
    \<and> unat (value_counter s') = unat (value_counter s) + length tys \<and> use_counter s' = use_counter s
    \<and> shape s' = (op_regs s, insert k (dom (basic_blocks s)), regions s,
        (op_links s)\<lparr>roots := (roots (op_links s))(k \<mapsto> empty_root)\<rparr>,
        (block_links s)\<lparr>nodes := (nodes (block_links s))(k \<mapsto> unlinked_node)\<rparr>)"
proof -
  let ?bb0 = "\<lparr>label = lbl, args = [], preds = [], bb_attributes = []\<rparr>"
  let ?s0 = "alloc_block s k ?bb0"
  have v0: "defs_view ?s0 = (defs_view s)(BlockDef k \<mapsto> [])" "vopds ?s0 = vopds s" "bopds ?s0 = bopds s"
      "block_defnode ?s0 = (block_defnode s)(k \<mapsto> [])"
    by (auto simp: fun_eq_iff defs_view_alt entity_defs_def vopds_def bopds_def block_defnode_def
        alloc_block_def split: defining_entity.split)
  have c0: "value_counter ?s0 = value_counter s" "use_counter ?s0 = use_counter s"
      "basic_blocks ?s0 k = Some ?bb0" by (simp_all add: alloc_block_def)
  have n: "block_defnode s k = None" "defs_view s (BlockDef k) = None"
    using k by (simp_all add: block_defnode_def defs_view_alt entity_defs_def)
  have w: "value_defnode ?s0 = value_defnode s"
  proof
    fix v show "value_defnode ?s0 v = value_defnode s v"
      using n(2) by (cases "defining_entity v = BlockDef k") (simp_all add: value_defnode_view v0(1))
  qed
  have "uids_ok ?s0" using s unfolding ir_ok_def uids_ok_view v0(1) c0 by (auto split: if_splits)
  then have ok0: "ir_ok ?s0"
    using s def_use_new_def[of "block_defnode s" "bopds s" "use_counter s" k] n(1)
    by (simp add: ir_ok_def du_ok_def value_api_def block_api_def v0(2-4) c0(2) w)
  have d0: "defs_view ?s0 (BlockDef k) = Some []" using v0(1) by simp
  obtain ds s1 where d: "val_defs_new ?s0 tys = (ds, s1)" by (cases "val_defs_new ?s0 tys")
  note f = val_defs_new_fresh[OF d, unfolded c0, OF room]
  let ?bb = "?bb0\<lparr>args := ds\<rparr>"
  let ?s2 = "s1\<lparr>basic_blocks := (basic_blocks s1)(k \<mapsto> ?bb)\<rparr>"
  obtain m where m: "s1 = ?s0\<lparr>value_counter := m\<rparr>" using f(5) by blast
  have s2: "?s2 = ?s0\<lparr>value_counter := value_counter s1, basic_blocks := (basic_blocks ?s0)(k \<mapsto> ?bb)\<rparr>"
    unfolding m by simp
  have pr: "preds (x\<lparr>args := ds\<rparr>) = preds x" for x by simp
  note v2 = views_set_args[OF c0(3) pr, of "value_counter s1", folded s2]
  have c2: "value_counter ?s2 = value_counter s1" "use_counter ?s2 = use_counter ?s0" using s2 by simp_all
  have cle: "value_counter ?s0 \<le> value_counter ?s2" using f(6) c0(1) c2 by (simp add: word_le_nat_alt)
  have xs2: "distinct (map fst (map view_def ds))" "\<forall>x \<in> set (map view_def ds). fst x < value_counter ?s2 \<and> snd x = []"
    using f(1,3,4) c2 by (auto simp: view_def_def o_def)
  have d2: "defs_view ?s2 = (defs_view ?s0)(BlockDef k \<mapsto> map view_def ds)" using v2(1) by simp
  note r2 = ir_ok_new_defs[OF ok0 d0 xs2 d2 v2(2-4) cle c2(2)]
  have "basic_block_new s k lbl tys = Some ?s2"
    using d c0(3) by (simp add: basic_block_new_def modify_block_def m)
  moreover have "shape ?s2 = (op_regs s, insert k (dom (basic_blocks s)), regions s,
        (op_links s)\<lparr>roots := (roots (op_links s))(k \<mapsto> empty_root)\<rparr>,
        (block_links s)\<lparr>nodes := (nodes (block_links s))(k \<mapsto> unlinked_node)\<rparr>)"
  proof -
    have "shape ?s2 = shape ?s0" unfolding s2 by (rule shape_set_block[OF c0(3)])
    then show ?thesis by (auto simp: shape_def op_regs_def alloc_block_def fun_eq_iff)
  qed
  ultimately show ?thesis
    using r2(1) f(2,6) v2(2-4) v0(2-4) c2 c0(1,2) by (intro exI[of _ ?s2] exI[of _ ds]) simp
qed

section \<open>Moving uses\<close>

lemma value_replace_uses:
  assumes s: "ir_ok s" and dfn: "value_defnode s this = Some us" and other: "value_defnode s other = Some vs"
    and ne: "this \<noteq> other" and rs: "set rs \<subseteq> set us" "distinct rs"
  shows "\<exists>s' us' vs'. replace_uses value_api s this rs other = Some s' \<and> ir_ok s'
    \<and> value_defnode s' = (value_defnode s)(this \<mapsto> us', other \<mapsto> vs')
    \<and> set us' = set us - set rs \<and> set vs' = set vs \<union> set rs
    \<and> vopds s' = (\<lambda>p. map_option (map (\<lambda>x. if as_use x p \<in> set rs then x\<lparr>opd_def := other\<rparr> else x)) (vopds s p))
    \<and> strip_values s' = strip_values s \<and> use_counter s' = use_counter s"
proof -
  have ok: "uids_ok s" "du_ok value_api vopds s" using s by (simp_all add: ir_ok_def)
  have d: "get_defnode value_api s this = Some us" "get_defnode value_api s other = Some vs"
    using dfn other by (simp_all add: value_api_def)
  obtain s' us' vs' where *: "replace_uses value_api s this rs other = Some s'" "uids_ok s'"
      "du_ok value_api vopds s'" "get_defnode value_api s' = (get_defnode value_api s)(this \<mapsto> us', other \<mapsto> vs')"
      "set us' = set us - set rs" "set vs' = set vs \<union> set rs"
      "vopds s' = (\<lambda>p. map_option (map (\<lambda>x. if as_use x p \<in> set rs then x\<lparr>opd_def := other\<rparr> else x)) (vopds s p))"
      "use_counter s' = use_counter s" "strip_values s' = strip_values s"
    using vdu.replace_uses_spec[OF ok d ne rs] by blast
  have "ir_ok s'" using ir_ok_values[OF s *(2,3,9)] *(8) by simp
  moreover have "value_defnode s' = (value_defnode s)(this \<mapsto> us', other \<mapsto> vs')"
    using *(4) by (simp add: value_api_def)
  ultimately show ?thesis using * by (intro exI[of _ s'] exI[of _ us'] exI[of _ vs'] conjI)
qed

lemma block_replace_uses:
  assumes s: "ir_ok s" and dfn: "block_defnode s this = Some us" and other: "block_defnode s other = Some vs"
    and ne: "this \<noteq> other" and rs: "set rs \<subseteq> set us" "distinct rs"
  shows "\<exists>s' us' vs'. replace_uses block_api s this rs other = Some s' \<and> ir_ok s'
    \<and> block_defnode s' = (block_defnode s)(this \<mapsto> us', other \<mapsto> vs')
    \<and> set us' = set us - set rs \<and> set vs' = set vs \<union> set rs
    \<and> bopds s' = (\<lambda>p. map_option (map (\<lambda>x. if as_use x p \<in> set rs then x\<lparr>opd_def := other\<rparr> else x)) (bopds s p))
    \<and> strip_blocks s' = strip_blocks s \<and> use_counter s' = use_counter s"
proof -
  have ok: "du_ok block_api bopds s" using s by (simp add: ir_ok_def)
  have d: "get_defnode block_api s this = Some us" "get_defnode block_api s other = Some vs"
    using dfn other by (simp_all add: block_api_def)
  obtain s' us' vs' where *: "replace_uses block_api s this rs other = Some s'"
      "du_ok block_api bopds s'" "get_defnode block_api s' = (get_defnode block_api s)(this \<mapsto> us', other \<mapsto> vs')"
      "set us' = set us - set rs" "set vs' = set vs \<union> set rs"
      "bopds s' = (\<lambda>p. map_option (map (\<lambda>x. if as_use x p \<in> set rs then x\<lparr>opd_def := other\<rparr> else x)) (bopds s p))"
      "use_counter s' = use_counter s" "strip_blocks s' = strip_blocks s"
    using bdu.replace_uses_spec[OF TrueI ok d ne rs] by blast
  have "ir_ok s'" using ir_ok_blocks[OF s *(2,8)] *(7) by simp
  moreover have "block_defnode s' = (block_defnode s)(this \<mapsto> us', other \<mapsto> vs')"
    using *(3) by (simp add: block_api_def)
  ultimately show ?thesis using * by (intro exI[of _ s'] exI[of _ us'] exI[of _ vs'] conjI)
qed

text \<open>Replacing a value by itself looks at it and changes nothing.\<close>

lemma replace_uses_self:
  assumes "get_defnode T s d = Some us"
  shows "replace_uses T s d rs d = Some s"
  using assms by (induction rs) (simp_all add: replace_use_with_def)

end
