(* ===== verification/IrRun.thy ===== *)
theory IrRun
  imports IrProps
begin

text \<open>
  Sequences of edits. \<open>ir_cmd\<close> names the operations of \<open>operation.rs\<close>, \<open>basic_block.rs\<close>,
  \<open>region.rs\<close>, \<open>value.rs\<close> and \<open>linked_list.rs\<close> through which a client edits the IR, \<open>ir_step\<close> runs
  one of them and \<open>ir_run\<close> a sequence. \<open>ctx_ok\<close> is the invariant: def-use chains, counters, the two
  families of linked lists and the tree of regions.
\<close>

section \<open>Commands\<close>

datatype ('ty, 'c) ir_cmd =
    NewOp op_ptr "region_ptr list" 'c "'ty list" "ssa_value list" "block_ptr list"
  | NewBlock block_ptr "ident option" "'ty list"
  | AddRegion op_ptr region_ptr
  | MoveRegion region_ptr op_ptr
  | OpList "(op_ptr, block_ptr) ll_op"
  | BlockList "(block_ptr, region_ptr) ll_op"
  | PushOperand op_ptr ssa_value
  | InsertOperand op_ptr nat ssa_value
  | ReplaceOperand op_ptr nat ssa_value
  | RemoveOperand op_ptr nat
  | PopOperand op_ptr
  | PushSuccessor op_ptr block_ptr
  | InsertSuccessor op_ptr nat block_ptr
  | ReplaceSuccessor op_ptr nat block_ptr
  | RemoveSuccessor op_ptr nat
  | PopSuccessor op_ptr
  | PushResult op_ptr 'ty
  | InsertResult op_ptr nat 'ty
  | RemoveResult op_ptr nat
  | PopResult op_ptr
  | PushArgument block_ptr 'ty
  | InsertArgument block_ptr nat 'ty
  | RemoveArgument block_ptr nat
  | PopArgument block_ptr
  | ReplaceUses ssa_value "use_ref \<Rightarrow> bool" ssa_value
  | RetargetPreds block_ptr "block_ptr \<Rightarrow> bool" block_ptr
  | SetType ssa_value 'ty
  | SetName ssa_value "ident option"
  | SetLabel block_ptr "ident option"

text \<open>
  The keys of new objects come from a \<open>slotmap\<close>: they are not in use. The operands and successors
  given to a new operation exist before it does, since a client got them from the context.
\<close>

fun ir_step :: "('ty, 'c, 'a) ctx \<Rightarrow> ('ty, 'c) ir_cmd \<Rightarrow> ('ty, 'c, 'a) ctx option" where
  "ir_step s (NewOp k rs c tys opds succs) = do {
     _ \<leftarrow> ocheck (operations s k = None \<and> distinct rs \<and> (\<forall>r \<in> set rs. regions s r = None));
     _ \<leftarrow> ocheck ((\<forall>v \<in> set opds. value_defnode s v \<noteq> None) \<and> (\<forall>b \<in> set succs. block_defnode s b \<noteq> None));
     operation_new s k rs c tys opds succs
   }"
| "ir_step s (NewBlock k lbl tys) = do {
     _ \<leftarrow> ocheck (basic_blocks s k = None);
     basic_block_new s k lbl tys
   }"
| "ir_step s (AddRegion p r) = do {
     _ \<leftarrow> ocheck (regions s r = None);
     (_, s) \<leftarrow> add_region s p r;
     Some s
   }"
| "ir_step s (MoveRegion r p) = move_to_op s r p"
| "ir_step s (OpList x) = map_option (\<lambda>l. s\<lparr>op_links := l\<rparr>) (of_outcome (ll_exec (op_links s) x))"
| "ir_step s (BlockList x) =
     map_option (\<lambda>l. s\<lparr>block_links := l\<rparr>) (of_outcome (ll_exec (block_links s) x))"
| "ir_step s (PushOperand p v) = map_option snd (push_operand s p v)"
| "ir_step s (InsertOperand p i v) = insert_operand s p i v"
| "ir_step s (ReplaceOperand p i v) = replace_operand s p i v"
| "ir_step s (RemoveOperand p i) = map_option snd (remove_operand s p i)"
| "ir_step s (PopOperand p) = map_option snd (pop_operand s p)"
| "ir_step s (PushSuccessor p b) = map_option snd (push_successor s p b)"
| "ir_step s (InsertSuccessor p i b) = insert_successor s p i b"
| "ir_step s (ReplaceSuccessor p i b) = replace_successor s p i b"
| "ir_step s (RemoveSuccessor p i) = map_option snd (remove_successor s p i)"
| "ir_step s (PopSuccessor p) = map_option snd (pop_successor s p)"
| "ir_step s (PushResult p ty) = map_option snd (push_result s p ty)"
| "ir_step s (InsertResult p i ty) = insert_result s p i ty"
| "ir_step s (RemoveResult p i) = remove_result s p i"
| "ir_step s (PopResult p) = pop_result s p"
| "ir_step s (PushArgument b ty) = map_option snd (push_argument s b ty)"
| "ir_step s (InsertArgument b i ty) = insert_argument s b i ty"
| "ir_step s (RemoveArgument b i) = remove_argument s b i"
| "ir_step s (PopArgument b) = pop_argument s b"
| "ir_step s (ReplaceUses v P w) = replace_some_uses_with s v (\<lambda>_. P) w"
| "ir_step s (RetargetPreds b P c) = retarget_some_preds_to s b (\<lambda>_. P) c"
| "ir_step s (SetType v ty) = set_value_type s v ty"
| "ir_step s (SetName v name) = set_value_name s v name"
| "ir_step s (SetLabel b lbl) = set_label s b lbl"

fun ir_run :: "('ty, 'c, 'a) ctx \<Rightarrow> ('ty, 'c) ir_cmd list \<Rightarrow> ('ty, 'c, 'a) ctx option" where
  "ir_run s [] = Some s"
| "ir_run s (c # cs) = do { s \<leftarrow> ir_step s c; ir_run s cs }"

text \<open>How many value and use identifiers a command takes from the two 64-bit counters.\<close>

fun value_cost :: "('ty, 'c) ir_cmd \<Rightarrow> nat" where
  "value_cost (NewOp k rs c tys opds succs) = length tys"
| "value_cost (NewBlock k lbl tys) = length tys"
| "value_cost (PushResult p ty) = 1"
| "value_cost (InsertResult p i ty) = 1"
| "value_cost (PushArgument b ty) = 1"
| "value_cost (InsertArgument b i ty) = 1"
| "value_cost _ = 0"

fun use_cost :: "('ty, 'c) ir_cmd \<Rightarrow> nat" where
  "use_cost (NewOp k rs c tys opds succs) = length opds + length succs"
| "use_cost (PushOperand p v) = 1"
| "use_cost (InsertOperand p i v) = 1"
| "use_cost (ReplaceOperand p i v) = 1"
| "use_cost (PushSuccessor p b) = 1"
| "use_cost (InsertSuccessor p i b) = 1"
| "use_cost (ReplaceSuccessor p i b) = 1"
| "use_cost _ = 0"

section \<open>The invariant\<close>

definition shape_ok :: "('ty, 'c, 'a) ctx \<Rightarrow> bool" where
  "shape_ok s \<longleftrightarrow>
     dom (nodes (op_links s)) = dom (operations s) \<and> dom (roots (op_links s)) = dom (basic_blocks s)
     \<and> dom (nodes (block_links s)) = dom (basic_blocks s) \<and> dom (roots (block_links s)) = dom (regions s)
     \<and> (\<exists>L. ll_inv (op_links s) L) \<and> (\<exists>L. ll_inv (block_links s) L)
     \<and> (\<forall>p rs. op_regs s p = Some rs \<longrightarrow> distinct rs \<and> (\<forall>r \<in> set rs. regions s r = Some \<lparr>parent_op = p\<rparr>))
     \<and> (\<forall>r reg. regions s r = Some reg \<longrightarrow> (\<exists>rs. op_regs s (parent_op reg) = Some rs \<and> r \<in> set rs))"

definition ctx_ok :: "('ty, 'c, 'a) ctx \<Rightarrow> bool" where
  "ctx_ok s \<longleftrightarrow> ir_ok s \<and> shape_ok s"

lemma dom_op_regs: "dom (operations s) = dom (op_regs s)"
  by (auto simp: op_regs_def)

lemma shape_ok_cong: "shape s' = shape s \<Longrightarrow> shape_ok s' = shape_ok s"
  by (simp add: shape_ok_def shape_def dom_op_regs)

lemma ctx_ok_keep: "ctx_ok s \<Longrightarrow> ir_ok s' \<Longrightarrow> shape s' = shape s \<Longrightarrow> ctx_ok s'"
  using shape_ok_cong[of s' s] by (simp add: ctx_ok_def)

lemma ctx_ok_same: "ctx_ok s \<Longrightarrow> ir_views s' = ir_views s \<Longrightarrow> shape s' = shape s \<Longrightarrow> ctx_ok s'"
  using ir_ok_views[of s' s] ctx_ok_keep[of s s'] by (simp add: ctx_ok_def)

text \<open>An accepted command keeps the invariant and takes what it costs from the counters.\<close>

definition good_step :: "('ty, 'c, 'a) ctx \<Rightarrow> nat \<Rightarrow> nat \<Rightarrow> ('ty, 'c, 'a) ctx \<Rightarrow> bool" where
  "good_step s m n s' \<longleftrightarrow> ctx_ok s' \<and> unat (value_counter s') = unat (value_counter s) + m
     \<and> unat (use_counter s') = unat (use_counter s) + n"

lemma use_room_unat: "unat (use_counter s) + 1 < 2 ^ 64 \<Longrightarrow> use_room s \<and> unat (use_counter s + 1) = unat (use_counter s) + 1"
  by (auto simp: use_room_def word_less_nat_alt unat_word_ariths)

lemma value_room_unat:
  "unat (value_counter s) + 1 < 2 ^ 64 \<Longrightarrow> value_room s \<and> unat (value_counter s + 1) = unat (value_counter s) + 1"
  by (auto simp: value_room_def word_less_nat_alt unat_word_ariths)

lemma good_values:
  assumes "ctx_ok s" and "ir_ok s'" and "strip_values s' = strip_values s"
    and "unat (use_counter s') = unat (use_counter s) + n"
  shows "good_step s 0 n s'"
  using ctx_ok_keep[OF assms(1,2) strip_values_shape[OF assms(3)]] strip_values_frame(3)[OF assms(3)] assms(4)
  by (simp add: good_step_def)

lemma good_blocks:
  assumes "ctx_ok s" and "ir_ok s'" and "strip_blocks s' = strip_blocks s"
    and "unat (use_counter s') = unat (use_counter s) + n"
  shows "good_step s 0 n s'"
  using ctx_ok_keep[OF assms(1,2) strip_blocks_shape[OF assms(3)]] strip_blocks_frame(4)[OF assms(3)] assms(4)
  by (simp add: good_step_def)

section \<open>Operands and successors\<close>

lemma value_new_needs:
  assumes "ir_ok s" and "operand_new value_api s v p = Some (x, s1)"
  shows "\<exists>us. value_defnode s v = Some us" and "vopds s1 = vopds s"
proof -
  obtain us where us: "get_defnode value_api s v = Some us"
    using vdu.operand_new_needs_def[OF assms(2)] by blast
  have ok: "uids_ok s" "def_use_ok (get_defnode value_api s) (vopds s) (use_counter s)"
    using assms(1) by (simp_all add: ir_ok_def du_ok_def)
  show "\<exists>us. value_defnode s v = Some us" using us by (simp add: value_api_def)
  show "vopds s1 = vopds s"
    using vdu.operand_new_fresh[OF ok(1) us def_use_fresh[OF ok(2) us, of p]] assms(2) by auto
qed

lemma block_new_needs:
  assumes "ir_ok s" and "operand_new block_api s v p = Some (x, s1)"
  shows "\<exists>us. block_defnode s v = Some us" and "bopds s1 = bopds s"
proof -
  obtain us where us: "get_defnode block_api s v = Some us"
    using bdu.operand_new_needs_def[OF assms(2)] by blast
  have ok: "def_use_ok (get_defnode block_api s) (bopds s) (use_counter s)"
    using assms(1) by (simp add: ir_ok_def du_ok_def)
  show "\<exists>us. block_defnode s v = Some us" using us by (simp add: block_api_def)
  show "bopds s1 = bopds s"
    using bdu.operand_new_fresh[OF TrueI us def_use_fresh[OF ok us, of p]] assms(2) by auto
qed

lemma vopds_Some: "operations s p = Some op \<Longrightarrow> vopds s p = Some (operands op)"
  by (simp add: vopds_def)

lemma bopds_Some: "operations s p = Some op \<Longrightarrow> bopds s p = Some (op_successors op)"
  by (simp add: bopds_def)

lemma push_operand_good:
  assumes s: "ctx_ok s" "unat (use_counter s) + 1 < 2 ^ 64" and run: "push_operand s p v = Some (i, s')"
  shows "good_step s 0 1 s'"
proof -
  have ok: "ir_ok s" using s(1) by (simp add: ctx_ok_def)
  note r = use_room_unat[OF s(2)]
  obtain x s1 op where n: "operand_new value_api s v p = Some (x, s1)" "operations s1 p = Some op"
    using run by (auto simp: push_operand_def split: bind_splits)
  have p: "vopds s p = Some (operands op)" using value_new_needs(2)[OF ok n(1)] vopds_Some[OF n(2)] by simp
  obtain us where "value_defnode s v = Some us" using value_new_needs(1)[OF ok n(1)] by blast
  from push_operand_spec[OF ok conjunct1[OF r] this p] show ?thesis
    using run r by (auto intro!: good_values[OF s(1)])
qed

lemma insert_operand_good:
  assumes s: "ctx_ok s" "unat (use_counter s) + 1 < 2 ^ 64" and run: "insert_operand s p i v = Some s'"
  shows "good_step s 0 1 s'"
proof -
  have ok: "ir_ok s" using s(1) by (simp add: ctx_ok_def)
  note r = use_room_unat[OF s(2)]
  obtain x s1 op where n: "operand_new value_api s v p = Some (x, s1)" "operations s1 p = Some op"
      "i \<le> length (operands op)"
    using run by (auto simp: insert_operand_def insert_at_eq split: bind_splits)
  have p: "vopds s p = Some (operands op)" using value_new_needs(2)[OF ok n(1)] vopds_Some[OF n(2)] by simp
  obtain us where "value_defnode s v = Some us" using value_new_needs(1)[OF ok n(1)] by blast
  from insert_operand_spec[OF ok conjunct1[OF r] this p n(3)] show ?thesis
    using run r by (auto intro!: good_values[OF s(1)])
qed

lemma replace_operand_good:
  assumes s: "ctx_ok s" "unat (use_counter s) + 1 < 2 ^ 64" and run: "replace_operand s p i v = Some s'"
  shows "good_step s 0 1 s'"
proof -
  have ok: "ir_ok s" using s(1) by (simp add: ctx_ok_def)
  note r = use_room_unat[OF s(2)]
  obtain x s1 op where n: "operand_new value_api s v p = Some (x, s1)" "operations s1 p = Some op"
      "i < length (operands op)" "defining_entity (opd_def (operands op ! i)) \<noteq> OpDef p"
    using run by (auto simp: replace_operand_def oget_def split: bind_splits if_splits)
  have p: "vopds s p = Some (operands op)" using value_new_needs(2)[OF ok n(1)] vopds_Some[OF n(2)] by simp
  obtain us where "value_defnode s v = Some us" using value_new_needs(1)[OF ok n(1)] by blast
  from replace_operand_spec[OF ok conjunct1[OF r] this p n(3,4)] show ?thesis
    using run r by (auto intro!: good_values[OF s(1)])
qed

lemma remove_operand_good:
  assumes s: "ctx_ok s" and run: "remove_operand s p i = Some (w, s')"
  shows "good_step s 0 0 s'"
proof -
  have ok: "ir_ok s" using s(1) by (simp add: ctx_ok_def)
  obtain op where n: "operations s p = Some op" "i < length (operands op)"
    using run by (auto simp: remove_operand_def remove_at_eq split: bind_splits)
  from remove_operand_spec[OF ok vopds_Some[OF n(1)] n(2)] show ?thesis
    using run by (auto intro!: good_values[OF s(1)])
qed

lemma push_successor_good:
  assumes s: "ctx_ok s" "unat (use_counter s) + 1 < 2 ^ 64" and run: "push_successor s p v = Some (i, s')"
  shows "good_step s 0 1 s'"
proof -
  have ok: "ir_ok s" using s(1) by (simp add: ctx_ok_def)
  note r = use_room_unat[OF s(2)]
  obtain x s1 op where n: "operand_new block_api s v p = Some (x, s1)" "operations s1 p = Some op"
    using run by (auto simp: push_successor_def split: bind_splits)
  have p: "bopds s p = Some (op_successors op)" using block_new_needs(2)[OF ok n(1)] bopds_Some[OF n(2)] by simp
  obtain us where "block_defnode s v = Some us" using block_new_needs(1)[OF ok n(1)] by blast
  from push_successor_spec[OF ok conjunct1[OF r] this p] show ?thesis
    using run r by (auto intro!: good_blocks[OF s(1)])
qed

lemma insert_successor_good:
  assumes s: "ctx_ok s" "unat (use_counter s) + 1 < 2 ^ 64" and run: "insert_successor s p i v = Some s'"
  shows "good_step s 0 1 s'"
proof -
  have ok: "ir_ok s" using s(1) by (simp add: ctx_ok_def)
  note r = use_room_unat[OF s(2)]
  obtain x s1 op where n: "operand_new block_api s v p = Some (x, s1)" "operations s1 p = Some op"
      "i \<le> length (op_successors op)"
    using run by (auto simp: insert_successor_def insert_at_eq split: bind_splits)
  have p: "bopds s p = Some (op_successors op)" using block_new_needs(2)[OF ok n(1)] bopds_Some[OF n(2)] by simp
  obtain us where "block_defnode s v = Some us" using block_new_needs(1)[OF ok n(1)] by blast
  from insert_successor_spec[OF ok conjunct1[OF r] this p n(3)] show ?thesis
    using run r by (auto intro!: good_blocks[OF s(1)])
qed

lemma replace_successor_good:
  assumes s: "ctx_ok s" "unat (use_counter s) + 1 < 2 ^ 64" and run: "replace_successor s p i v = Some s'"
  shows "good_step s 0 1 s'"
proof -
  have ok: "ir_ok s" using s(1) by (simp add: ctx_ok_def)
  note r = use_room_unat[OF s(2)]
  obtain x s1 op where n: "operand_new block_api s v p = Some (x, s1)" "operations s1 p = Some op"
      "i < length (op_successors op)"
    using run by (auto simp: replace_successor_def oget_def split: bind_splits if_splits)
  have p: "bopds s p = Some (op_successors op)" using block_new_needs(2)[OF ok n(1)] bopds_Some[OF n(2)] by simp
  obtain us where "block_defnode s v = Some us" using block_new_needs(1)[OF ok n(1)] by blast
  from replace_successor_spec[OF ok conjunct1[OF r] this p n(3)] show ?thesis
    using run r by (auto intro!: good_blocks[OF s(1)])
qed

lemma remove_successor_good:
  assumes s: "ctx_ok s" and run: "remove_successor s p i = Some (w, s')"
  shows "good_step s 0 0 s'"
proof -
  have ok: "ir_ok s" using s(1) by (simp add: ctx_ok_def)
  obtain op where n: "operations s p = Some op" "i < length (op_successors op)"
    using run by (auto simp: remove_successor_def remove_at_eq split: bind_splits)
  from remove_successor_spec[OF ok bopds_Some[OF n(1)] n(2)] show ?thesis
    using run by (auto intro!: good_blocks[OF s(1)])
qed

section \<open>Results and arguments\<close>

lemma shape_set_op':
  assumes "operations s p = Some op" and "op_regions op' = op_regions op"
  shows "shape (s\<lparr>operations := (operations s)(p \<mapsto> op')\<rparr>) = shape s"
  using assms by (auto simp: shape_def op_regs_def fun_eq_iff)

lemma shape_set_block':
  assumes "basic_blocks s b = Some bb"
  shows "shape (s\<lparr>basic_blocks := (basic_blocks s)(b \<mapsto> bb')\<rparr>) = shape s"
  using assms by (auto simp: shape_def op_regs_def fun_eq_iff)

lemma insert_result_good:
  assumes s: "ctx_ok s" "unat (value_counter s) + 1 < 2 ^ 64" and op: "operations s p = Some op"
    and i: "i \<le> length (results op)"
    and op': "operands op' = operands op" "op_successors op' = op_successors op" "op_regions op' = op_regions op"
      "results op' = take i (results op) @ new_def s ty # drop i (results op)"
    and s': "s' = s\<lparr>value_counter := value_counter s + 1, operations := (operations s)(p \<mapsto> op')\<rparr>"
  shows "good_step s 1 0 s'"
proof -
  have ok: "ir_ok s" using s(1) by (simp add: ctx_ok_def)
  note r = value_room_unat[OF s(2)]
  have sh: "shape s' = shape s" unfolding s' by (rule shape_set_op[OF op op'(3)])
  have "ctx_ok s'"
    using ctx_ok_keep[OF s(1) ir_ok_insert_result(1)[OF ok conjunct1[OF r] op i op'(1,2,4) s'] sh] .
  then show ?thesis using r s' by (simp add: good_step_def)
qed

lemma insert_argument_good:
  assumes s: "ctx_ok s" "unat (value_counter s) + 1 < 2 ^ 64" and bb: "basic_blocks s b = Some bb"
    and i: "i \<le> length (args bb)"
    and bb': "preds bb' = preds bb" "args bb' = take i (args bb) @ new_def s ty # drop i (args bb)"
    and s': "s' = s\<lparr>value_counter := value_counter s + 1, basic_blocks := (basic_blocks s)(b \<mapsto> bb')\<rparr>"
  shows "good_step s 1 0 s'"
proof -
  have ok: "ir_ok s" using s(1) by (simp add: ctx_ok_def)
  note r = value_room_unat[OF s(2)]
  have sh: "shape s' = shape s" unfolding s' by (rule shape_set_block[OF bb])
  have "ctx_ok s'"
    using ctx_ok_keep[OF s(1) ir_ok_insert_arg(1)[OF ok conjunct1[OF r] bb i bb' s'] sh] .
  then show ?thesis using r s' by (simp add: good_step_def)
qed

lemma push_result_good:
  assumes s: "ctx_ok s" "unat (value_counter s) + 1 < 2 ^ 64" and run: "push_result s p ty = Some (i, s')"
  shows "good_step s 1 0 s'"
proof -
  obtain op where op: "operations s p = Some op"
      "s' = s\<lparr>value_counter := value_counter s + 1,
         operations := (operations s)(p \<mapsto> op\<lparr>results := results op @ [new_def s ty]\<rparr>)\<rparr>"
    using run by (auto simp: push_result_eq)
  show ?thesis by (rule insert_result_good[OF s op(1) le_refl _ _ _ _ op(2)]) simp_all
qed

lemma push_argument_good:
  assumes s: "ctx_ok s" "unat (value_counter s) + 1 < 2 ^ 64" and run: "push_argument s b ty = Some (i, s')"
  shows "good_step s 1 0 s'"
proof -
  obtain bb where bb: "basic_blocks s b = Some bb"
      "s' = s\<lparr>value_counter := value_counter s + 1,
         basic_blocks := (basic_blocks s)(b \<mapsto> bb\<lparr>args := args bb @ [new_def s ty]\<rparr>)\<rparr>"
    using run by (auto simp: push_argument_eq)
  show ?thesis by (rule insert_argument_good[OF s bb(1) le_refl _ _ bb(2)]) simp_all
qed

lemma insert_result_step_good:
  assumes s: "ctx_ok s" "unat (value_counter s) + 1 < 2 ^ 64" and run: "insert_result s p i ty = Some s'"
  shows "good_step s 1 0 s'"
proof -
  obtain op attrs where op: "operations s p = Some op" "i \<le> length (results op)"
      "s' = s\<lparr>value_counter := value_counter s + 1, operations := (operations s)(p \<mapsto>
         op\<lparr>results := take i (results op) @ new_def s ty # drop i (results op), attributes := attrs\<rparr>)\<rparr>"
    using run unfolding insert_result_eq by blast
  show ?thesis by (rule insert_result_good[OF s op(1,2) _ _ _ _ op(3)]) simp_all
qed

lemma insert_argument_step_good:
  assumes s: "ctx_ok s" "unat (value_counter s) + 1 < 2 ^ 64" and run: "insert_argument s b i ty = Some s'"
  shows "good_step s 1 0 s'"
proof -
  obtain bb attrs where bb: "basic_blocks s b = Some bb" "i \<le> length (args bb)"
      "s' = s\<lparr>value_counter := value_counter s + 1, basic_blocks := (basic_blocks s)(b \<mapsto>
         bb\<lparr>args := take i (args bb) @ new_def s ty # drop i (args bb), bb_attributes := attrs\<rparr>)\<rparr>"
    using run unfolding insert_argument_eq by blast
  show ?thesis by (rule insert_argument_good[OF s bb(1,2) _ _ bb(3)]) simp_all
qed

lemma remove_result_good:
  assumes s: "ctx_ok s" and run: "remove_result s p i = Some s'"
  shows "good_step s 0 0 s'"
proof -
  have ok: "ir_ok s" "uids_ok s" using s by (simp_all add: ctx_ok_def ir_ok_def)
  obtain op attrs where op: "operations s p = Some op" "i < length (results op)"
      "vd_uses (results op ! i) = []"
      "s' = s\<lparr>operations := (operations s)(p \<mapsto>
         op\<lparr>attributes := attrs, results := take i (results op) @ drop (Suc i) (results op)\<rparr>)\<rparr>"
    using run unfolding remove_result_eq[OF ok(2)] by blast
  have "ir_ok s'" by (rule ir_ok_remove_result(1)[OF ok(1) op(1-3) _ _ _ op(4)]) simp_all
  moreover have "shape s' = shape s" unfolding op(4) by (rule shape_set_op'[OF op(1)]) simp
  ultimately show ?thesis using ctx_ok_keep[OF s] op(4) by (simp add: good_step_def)
qed

lemma remove_argument_good:
  assumes s: "ctx_ok s" and run: "remove_argument s b i = Some s'"
  shows "good_step s 0 0 s'"
proof -
  have ok: "ir_ok s" "uids_ok s" using s by (simp_all add: ctx_ok_def ir_ok_def)
  obtain bb attrs where bb: "basic_blocks s b = Some bb" "i < length (args bb)"
      "vd_uses (args bb ! i) = []"
      "s' = s\<lparr>basic_blocks := (basic_blocks s)(b \<mapsto>
         bb\<lparr>bb_attributes := attrs, args := take i (args bb) @ drop (Suc i) (args bb)\<rparr>)\<rparr>"
    using run unfolding remove_argument_eq[OF ok(2)] by blast
  have "ir_ok s'" by (rule ir_ok_remove_arg(1)[OF ok(1) bb(1-3) _ _ bb(4)]) simp_all
  moreover have "shape s' = shape s" unfolding bb(4) by (rule shape_set_block'[OF bb(1)])
  ultimately show ?thesis using ctx_ok_keep[OF s] bb(4) by (simp add: good_step_def)
qed

section \<open>Uses, types, names and labels\<close>

lemma good_same: "ctx_ok s \<Longrightarrow> ir_views s' = ir_views s \<Longrightarrow> shape s' = shape s \<Longrightarrow> good_step s 0 0 s'"
  using ctx_ok_same[of s s'] by (simp add: good_step_def ir_views_def)

lemma good_refl: "ctx_ok s \<Longrightarrow> good_step s 0 0 s"
  by (simp add: good_step_def)

lemma api_defnode: "get_defnode value_api = value_defnode" "get_defnode block_api = block_defnode"
  by (simp_all add: value_api_def block_api_def)

lemma replace_uses_needs:
  assumes "replace_uses T s d (u # us) e = Some s'"
  shows "\<exists>vs. get_defnode T s e = Some vs"
  using assms by (auto simp: replace_use_with_def split: bind_splits)

lemma value_uses_distinct: "ir_ok s \<Longrightarrow> value_defnode s v = Some us \<Longrightarrow> distinct us"
  using def_use_okD(1)[of "get_defnode value_api s" "vopds s" "use_counter s" v us]
  by (simp add: ir_ok_def du_ok_def value_api_def)

lemma block_uses_distinct: "ir_ok s \<Longrightarrow> block_defnode s v = Some us \<Longrightarrow> distinct us"
  using def_use_okD(1)[of "get_defnode block_api s" "bopds s" "use_counter s" v us]
  by (simp add: ir_ok_def du_ok_def block_api_def)

lemma value_replace_good:
  assumes s: "ctx_ok s" and v: "value_defnode s v = Some us" and rs: "set rs \<subseteq> set us" "distinct rs"
    and run: "replace_uses value_api s v rs w = Some s'"
  shows "good_step s 0 0 s'"
proof (cases "rs = [] \<or> v = w")
  case True
  then have "s' = s"
    using run v replace_uses_self[of value_api s v us rs] by (auto simp: value_api_def)
  then show ?thesis using s by (simp add: good_refl)
next
  case False
  have ok: "ir_ok s" using s by (simp add: ctx_ok_def)
  obtain vs where "value_defnode s w = Some vs"
    using run False replace_uses_needs[of value_api s v] unfolding api_defnode neq_Nil_conv de_Morgan_disj by blast
  from value_replace_uses[OF ok v this _ rs] show ?thesis
    using False run by (auto intro!: good_values[OF s])
qed

lemma block_replace_good:
  assumes s: "ctx_ok s" and v: "block_defnode s v = Some us" and rs: "set rs \<subseteq> set us" "distinct rs"
    and run: "replace_uses block_api s v rs w = Some s'"
  shows "good_step s 0 0 s'"
proof (cases "rs = [] \<or> v = w")
  case True
  then have "s' = s"
    using run v replace_uses_self[of block_api s v us rs] by (auto simp: block_api_def)
  then show ?thesis using s by (simp add: good_refl)
next
  case False
  have ok: "ir_ok s" using s by (simp add: ctx_ok_def)
  obtain vs where "block_defnode s w = Some vs"
    using run False replace_uses_needs[of block_api s v] unfolding api_defnode neq_Nil_conv de_Morgan_disj by blast
  from block_replace_uses[OF ok v this _ rs] show ?thesis
    using False run by (auto intro!: good_blocks[OF s])
qed

lemma replace_some_good:
  assumes s: "ctx_ok s" and run: "replace_some_uses_with s v P w = Some s'"
  shows "good_step s 0 0 s'"
proof -
  obtain us where us: "value_defnode s v = Some us" "replace_uses value_api s v (filter (P s) us) w = Some s'"
    using run by (auto simp: replace_some_uses_with_def split: bind_splits)
  have "distinct us" using s us(1) value_uses_distinct[of s v us] by (simp add: ctx_ok_def)
  then show ?thesis using value_replace_good[OF s us(1) _ _ us(2)] by simp
qed

lemma retarget_good:
  assumes s: "ctx_ok s" and run: "retarget_some_preds_to s v P w = Some s'"
  shows "good_step s 0 0 s'"
proof -
  obtain us bs where us: "block_defnode s v = Some us" "omap (user_block s) us = Some bs"
      "replace_uses block_api s v (map fst (filter (\<lambda>(u, b). P s b) (zip us bs))) w = Some s'"
    using run by (auto simp: retarget_some_preds_to_def split: bind_splits)
  have d: "distinct us" using s us(1) block_uses_distinct[of s v us] by (simp add: ctx_ok_def)
  have "distinct (map fst (filter (\<lambda>(u, b). P s b) (zip us bs)))"
    using d by (intro distinct_map_filter) (simp add: map_fst_zip_take)
  moreover have "set (map fst (filter (\<lambda>(u, b). P s b) (zip us bs))) \<subseteq> set us"
    by (auto dest: set_zip_leftD)
  ultimately show ?thesis using block_replace_good[OF s us(1) _ _ us(3)] by blast
qed

lemma set_value_type_same:
  assumes "set_value_type s v ty = Some s'"
  shows "ir_views s' = ir_views s" and "shape s' = shape s"
proof -
  obtain i ds d where d: "entity_defs s (defining_entity v) = Some ds" "oget ds i = Some d"
      "set_entity_defs s (defining_entity v) (ds[i := d\<lparr>vd_ty := ty\<rparr>]) = Some s'"
    using assms by (auto simp: set_value_type_def split: bind_splits)
  let ?ds = "ds[i := d\<lparr>vd_ty := ty\<rparr>]"
  have m: "map view_def ?ds = map view_def ds"
    using d(2) by (intro map_list_update_same) (auto simp: oget_def view_def_def split: if_splits)
  show "ir_views s' = ir_views s"
  proof (cases "defining_entity v")
    case (OpDef p)
    then show ?thesis using d m
      by (auto simp: ir_views_def defs_view_alt vopds_def bopds_def block_defnode_def entity_defs_def
          set_entity_defs_def modify_op_def fun_eq_iff split: defining_entity.split)
  next
    case (BlockDef b)
    then show ?thesis using d m
      by (auto simp: ir_views_def defs_view_alt vopds_def bopds_def block_defnode_def entity_defs_def
          set_entity_defs_def modify_block_def fun_eq_iff split: defining_entity.split)
  qed
  show "shape s' = shape s"
    using d by (auto simp: set_entity_defs_def modify_op_def modify_block_def entity_defs_def
        shape_set_op' shape_set_block' split: defining_entity.splits)
qed

lemma views_set_attributes:
  assumes "operations s p = Some op"
  shows "ir_views (s\<lparr>operations := (operations s)(p \<mapsto> op\<lparr>attributes := x\<rparr>)\<rparr>) = ir_views s"
  using assms by (auto simp: ir_views_def defs_view_alt vopds_def bopds_def block_defnode_def
      entity_defs_def fun_eq_iff split: defining_entity.split)

lemma views_set_bb_attributes:
  assumes "basic_blocks s b = Some bb"
  shows "ir_views (s\<lparr>basic_blocks := (basic_blocks s)(b \<mapsto> bb\<lparr>bb_attributes := x\<rparr>)\<rparr>) = ir_views s"
    and "ir_views (s\<lparr>basic_blocks := (basic_blocks s)(b \<mapsto> bb\<lparr>label := y\<rparr>)\<rparr>) = ir_views s"
  using assms by (auto simp: ir_views_def defs_view_alt vopds_def bopds_def block_defnode_def
      entity_defs_def fun_eq_iff split: defining_entity.split)

lemma set_value_name_same:
  assumes "set_value_name s v name = Some s'"
  shows "ir_views s' = ir_views s" and "shape s' = shape s"
  using assms
  by (auto simp: set_value_name_def set_operation_result_name_def set_block_arg_name_def modify_op_def
      modify_block_def views_set_attributes views_set_bb_attributes shape_set_op' shape_set_block'
      split: bind_splits defining_entity.splits)

lemma set_label_same:
  assumes "set_label s b lbl = Some s'"
  shows "ir_views s' = ir_views s" and "shape s' = shape s"
  using assms by (auto simp: set_label_def modify_block_def views_set_bb_attributes shape_set_block')

section \<open>New objects, regions and links\<close>

lemma ll_inv_new_node:
  assumes "ll_inv l L" and "nodes l k = None"
  shows "ll_inv (l\<lparr>nodes := (nodes l)(k \<mapsto> unlinked_node)\<rparr>) L"
proof -
  have seg: "seg (l\<lparr>nodes := (nodes l)(k \<mapsto> unlinked_node)\<rparr>) c p xs q" if "seg l c p xs q" for c p xs q
    using that assms(2) by (induction l c p xs q rule: seg.induct) auto
  show ?thesis
    using assms seg by (auto simp: ll_inv_def ll_list_def unlinked_node_def ll_unlinked_def)
qed

lemma ll_inv_new_roots:
  assumes inv: "ll_inv l L" and fresh: "\<forall>c \<in> C. roots l c = None"
  shows "ll_inv (l\<lparr>roots := (\<lambda>c. if c \<in> C then Some empty_root else roots l c)\<rparr>)
    (\<lambda>c. if c \<in> C then Some [] else L c)"
proof -
  let ?l = "l\<lparr>roots := (\<lambda>c. if c \<in> C then Some empty_root else roots l c)\<rparr>"
  have seg: "seg ?l c p xs q = seg l c p xs q" for c p xs q
    by (induction xs arbitrary: p) auto
  have d: "dom (roots l) = dom L" using inv by (simp add: ll_inv_def)
  have "L c = None" if "c \<in> C" for c using d fresh that by (metis domIff)
  then show ?thesis
    using inv d seg by (auto simp: ll_inv_def ll_list_def empty_root_def split: if_splits) force+
qed

lemma ll_inv_new_root:
  assumes "ll_inv l L" and "roots l k = None"
  shows "\<exists>L'. ll_inv (l\<lparr>roots := (roots l)(k \<mapsto> empty_root)\<rparr>) L'"
proof -
  have "(\<lambda>c. if c \<in> {k} then Some empty_root else roots l c) = (roots l)(k \<mapsto> empty_root)"
    by (auto simp: fun_eq_iff)
  then show ?thesis using ll_inv_new_roots[OF assms(1), of "{k}"] assms(2) by auto
qed

lemma dom_eq_None: "dom f = dom g \<Longrightarrow> f k = None \<longleftrightarrow> g k = None"
  by (metis domIff)

lemma shape_okD:
  assumes "shape_ok s"
  shows "nodes (op_links s) p = None \<longleftrightarrow> operations s p = None"
    and "roots (op_links s) b = None \<longleftrightarrow> basic_blocks s b = None"
    and "nodes (block_links s) b = None \<longleftrightarrow> basic_blocks s b = None"
    and "roots (block_links s) r = None \<longleftrightarrow> regions s r = None"
  by (rule dom_eq_None, use assms in \<open>simp add: shape_ok_def\<close>)+

definition same_dom :: "('n, 'k) ll_store \<Rightarrow> ('n, 'k) ll_store \<Rightarrow> bool" where
  "same_dom l l' \<longleftrightarrow> dom (nodes l') = dom (nodes l) \<and> dom (roots l') = dom (roots l)"

lemma same_dom_set:
  "set_next l n x = Inr l' \<Longrightarrow> same_dom l l'" "set_prev l n x = Inr l' \<Longrightarrow> same_dom l l'"
  "set_container l n y = Inr l' \<Longrightarrow> same_dom l l'" "set_head l c x = Inr l' \<Longrightarrow> same_dom l l'"
  "set_tail l c x = Inr l' \<Longrightarrow> same_dom l l'"
  by (auto simp: set_next_def set_prev_def set_container_def set_head_def set_tail_def deref_def
      deref_root_def rbind_eq_Inr same_dom_def split: if_splits)

lemma same_dom_trans: "same_dom l m \<Longrightarrow> same_dom m n \<Longrightarrow> same_dom l n"
  by (simp add: same_dom_def)

lemma ll_exec_same_dom: "ll_exec l x = Inr l' \<Longrightarrow> same_dom l l'"
  by (cases x; auto simp: insert_after_def insert_before_def insert_at_front_def insert_at_back_def unlink_def
      rbind_eq_Inr split: option.split_asm dest!: same_dom_set; simp add: same_dom_def)

lemma ll_exec_dom:
  assumes "ll_exec l x = Inr l'"
  shows "dom (nodes l') = dom (nodes l)" and "dom (roots l') = dom (roots l)"
  using ll_exec_same_dom[OF assms] by (simp_all add: same_dom_def)

lemma new_op_good:
  assumes s: "ctx_ok s" and k: "operations s k = None" and rs: "distinct rs" "\<forall>r \<in> set rs. regions s r = None"
    and room: "unat (value_counter s) + length tys < 2 ^ 64"
      "unat (use_counter s) + (length opds + length succs) < 2 ^ 64"
    and run: "operation_new s k rs c tys opds succs = Some s'"
    and live: "\<forall>v \<in> set opds. value_defnode s v \<noteq> None" "\<forall>b \<in> set succs. block_defnode s b \<noteq> None"
  shows "good_step s (length tys) (length opds + length succs) s'"
proof -
  have ok: "ir_ok s" "shape_ok s" using s by (simp_all add: ctx_ok_def)
  have room': "unat (use_counter s) + length opds + length succs < 2 ^ 64" using room(2) by simp
  from operation_new_spec[OF ok(1) k live room(1) room', of rs c] have *: "ir_ok s'"
      "unat (value_counter s') = unat (value_counter s) + length tys"
      "unat (use_counter s') = unat (use_counter s) + length opds + length succs"
      "shape s' = ((op_regs s)(k \<mapsto> rs), dom (basic_blocks s),
        (\<lambda>r. if r \<in> set rs then Some \<lparr>parent_op = k\<rparr> else regions s r),
        (op_links s)\<lparr>nodes := (nodes (op_links s))(k \<mapsto> unlinked_node)\<rparr>,
        (block_links s)\<lparr>roots := (\<lambda>r. if r \<in> set rs then Some empty_root else roots (block_links s) r)\<rparr>)"
    using run by auto
  have sh: "op_regs s' = (op_regs s)(k \<mapsto> rs)" "dom (basic_blocks s') = dom (basic_blocks s)"
      "regions s' = (\<lambda>r. if r \<in> set rs then Some \<lparr>parent_op = k\<rparr> else regions s r)"
      "op_links s' = (op_links s)\<lparr>nodes := (nodes (op_links s))(k \<mapsto> unlinked_node)\<rparr>"
      "block_links s' = (block_links s)\<lparr>roots := (\<lambda>r. if r \<in> set rs then Some empty_root else roots (block_links s) r)\<rparr>"
    using *(4) by (simp_all add: shape_def)
  obtain L M where L: "ll_inv (op_links s) L" "ll_inv (block_links s) M" using ok(2) by (auto simp: shape_ok_def)
  have d: "nodes (op_links s) k = None" "\<forall>r \<in> set rs. roots (block_links s) r = None" "op_regs s k = None"
    using k rs(2) shape_okD[OF ok(2)] by (simp_all add: op_regs_def)
  have "\<exists>L. ll_inv (op_links s') L" using ll_inv_new_node[OF L(1) d(1)] sh(4) by auto
  moreover have "\<exists>L. ll_inv (block_links s') L" using ll_inv_new_roots[OF L(2) d(2)] sh(5) by auto
  moreover have "dom (roots (block_links s')) = dom (regions s')"
  proof -
    have "roots (block_links s') r = None \<longleftrightarrow> regions s' r = None" for r
      using shape_okD(4)[OF ok(2)] sh(3,5) by simp
    then show ?thesis by (auto simp: dom_def)
  qed
  moreover have "dom (nodes (op_links s')) = dom (op_regs s')"
    using ok(2) sh(1,4) by (auto simp: shape_ok_def dom_op_regs)
  moreover have "distinct xs \<and> (\<forall>r \<in> set xs. regions s' r = Some \<lparr>parent_op = p\<rparr>)" if "op_regs s' p = Some xs" for p xs
    using that ok(2) sh(1,3) rs by (fastforce simp: shape_ok_def split: if_splits)
  moreover have "\<exists>xs. op_regs s' (parent_op reg) = Some xs \<and> r \<in> set xs" if "regions s' r = Some reg" for r reg
    using that ok(2) sh(1,3) d(3) by (fastforce simp: shape_ok_def split: if_splits)
  ultimately have "shape_ok s'"
    using ok(2) sh(2,4,5) by (simp add: shape_ok_def dom_op_regs)
  then show ?thesis using * by (simp add: good_step_def ctx_ok_def)
qed

lemma new_block_good:
  assumes s: "ctx_ok s" and k: "basic_blocks s k = None" and room: "unat (value_counter s) + length tys < 2 ^ 64"
    and run: "basic_block_new s k lbl tys = Some s'"
  shows "good_step s (length tys) 0 s'"
proof -
  have ok: "ir_ok s" "shape_ok s" using s by (simp_all add: ctx_ok_def)
  from basic_block_new_spec[OF ok(1) k room, of lbl] run have *: "ir_ok s'"
      "unat (value_counter s') = unat (value_counter s) + length tys" "use_counter s' = use_counter s"
      "shape s' = (op_regs s, insert k (dom (basic_blocks s)), regions s,
        (op_links s)\<lparr>roots := (roots (op_links s))(k \<mapsto> empty_root)\<rparr>,
        (block_links s)\<lparr>nodes := (nodes (block_links s))(k \<mapsto> unlinked_node)\<rparr>)" by auto
  have sh: "op_regs s' = op_regs s" "dom (basic_blocks s') = insert k (dom (basic_blocks s))"
      "regions s' = regions s"
      "op_links s' = (op_links s)\<lparr>roots := (roots (op_links s))(k \<mapsto> empty_root)\<rparr>"
      "block_links s' = (block_links s)\<lparr>nodes := (nodes (block_links s))(k \<mapsto> unlinked_node)\<rparr>"
    using *(4) by (simp_all add: shape_def)
  obtain L M where L: "ll_inv (op_links s) L" "ll_inv (block_links s) M" using ok(2) by (auto simp: shape_ok_def)
  have d: "roots (op_links s) k = None" "nodes (block_links s) k = None"
    using k shape_okD[OF ok(2)] by simp_all
  have "\<exists>L. ll_inv (op_links s') L" using ll_inv_new_root[OF L(1) d(1)] sh(4) by simp
  moreover have "\<exists>L. ll_inv (block_links s') L" using ll_inv_new_node[OF L(2) d(2)] sh(5) by auto
  ultimately have "shape_ok s'" using ok(2) sh by (simp add: shape_ok_def dom_op_regs)
  then show ?thesis using * by (simp add: good_step_def ctx_ok_def)
qed

lemma links_good:
  assumes s: "ctx_ok s" and x: "ll_exec (op_links s) x = Inr l"
  shows "good_step s 0 0 (s\<lparr>op_links := l\<rparr>)"
proof -
  have ok: "ir_ok s" "shape_ok s" using s by (simp_all add: ctx_ok_def)
  have "\<exists>L. ll_inv l L" using ll_exec_inv[OF _ x] ok(2) by (auto simp: shape_ok_def)
  then have "shape_ok (s\<lparr>op_links := l\<rparr>)"
    using ok(2) ll_exec_dom[OF x] by (simp add: shape_ok_def op_regs_def)
  moreover have "ir_views (s\<lparr>op_links := l\<rparr>) = ir_views s"
    by (simp add: ir_views_def defs_view_alt[abs_def] vopds_def[abs_def] bopds_def[abs_def]
        block_defnode_def[abs_def] entity_defs_def cong: defining_entity.case_cong)
  ultimately show ?thesis using ok(1) ir_ok_views[of "s\<lparr>op_links := l\<rparr>" s] by (simp add: good_step_def ctx_ok_def)
qed

lemma block_list_good:
  assumes s: "ctx_ok s" and x: "ll_exec (block_links s) x = Inr l"
  shows "good_step s 0 0 (s\<lparr>block_links := l\<rparr>)"
proof -
  have ok: "ir_ok s" "shape_ok s" using s by (simp_all add: ctx_ok_def)
  have "\<exists>L. ll_inv l L" using ll_exec_inv[OF _ x] ok(2) by (auto simp: shape_ok_def)
  then have "shape_ok (s\<lparr>block_links := l\<rparr>)"
    using ok(2) ll_exec_dom[OF x] by (simp add: shape_ok_def op_regs_def)
  moreover have "ir_views (s\<lparr>block_links := l\<rparr>) = ir_views s"
    by (simp add: ir_views_def defs_view_alt[abs_def] vopds_def[abs_def] bopds_def[abs_def]
        block_defnode_def[abs_def] entity_defs_def cong: defining_entity.case_cong)
  ultimately show ?thesis using ok(1) ir_ok_views[of "s\<lparr>block_links := l\<rparr>" s] by (simp add: good_step_def ctx_ok_def)
qed

lemma swap_remove_at_set:
  assumes "i < length xs" and "distinct xs"
  shows "set (swap_remove_at i xs) = set xs - {xs ! i}" and "distinct (swap_remove_at i xs)"
proof -
  have m: "mset (swap_remove_at i xs) = mset xs - {#xs ! i#}" using assms(1) by (rule set_swap_remove_mset)
  have "mset (take i xs @ drop (Suc i) xs) = mset xs - {#xs ! i#}"
  proof -
    have "mset xs = mset (take i xs @ xs ! i # drop (Suc i) xs)" using assms(1) by (simp add: id_take_nth_drop[symmetric])
    then show ?thesis by simp
  qed
  then have e: "mset (swap_remove_at i xs) = mset (take i xs @ drop (Suc i) xs)" using m by simp
  show "set (swap_remove_at i xs) = set xs - {xs ! i}"
    using mset_eq_setD[OF e] remove_at_set(1)[OF assms] by simp
  show "distinct (swap_remove_at i xs)"
    using mset_eq_imp_distinct_iff[OF e] remove_at_set(2)[OF assms] by simp
qed

lemma shape_set_regions:
  assumes "operations s p = Some op"
  shows "shape (s\<lparr>operations := (operations s)(p \<mapsto> op\<lparr>op_regions := rs\<rparr>)\<rparr>)
    = ((op_regs s)(p \<mapsto> rs), dom (basic_blocks s), regions s, op_links s, block_links s)"
  using assms by (auto simp: shape_def op_regs_def fun_eq_iff)

lemma add_region_good:
  assumes s: "ctx_ok s" and r: "regions s r = None" and run: "add_region s p r = Some (x, s')"
  shows "good_step s 0 0 s'"
proof -
  have ok: "ir_ok s" "shape_ok s" using s by (simp_all add: ctx_ok_def)
  obtain op where op: "operations s p = Some op"
      "s' = (region_new s r p)\<lparr>operations := (operations s)(p \<mapsto> op\<lparr>op_regions := op_regions op @ [r]\<rparr>)\<rparr>"
    using run by (auto simp: add_region_def region_new_def alloc_region_def modify_op_def split: bind_splits)
  let ?s1 = "region_new s r p"
  have o1: "operations ?s1 p = Some op" using op(1) by (simp add: region_new_def alloc_region_def)
  have o1': "operations ?s1 = operations s" by (simp add: region_new_def alloc_region_def)
  have "ir_views s' = ir_views ?s1"
    using views_set_regions[OF o1, of "op_regions op @ [r]"] op(2) o1' by simp
  moreover have "ir_views ?s1 = ir_views s" using regions_new_views[of s "[r]" p] by simp
  ultimately have v: "ir_views s' = ir_views s" by simp
  have sh: "op_regs s' = (op_regs s)(p \<mapsto> op_regions op @ [r])" "dom (basic_blocks s') = dom (basic_blocks s)"
      "regions s' = (regions s)(r \<mapsto> \<lparr>parent_op = p\<rparr>)" "op_links s' = op_links s"
      "block_links s' = (block_links s)\<lparr>roots := (roots (block_links s))(r \<mapsto> empty_root)\<rparr>"
    by (auto simp: op(2) op_regs_def region_new_def alloc_region_def fun_eq_iff)
  obtain M where M: "ll_inv (block_links s) M" using ok(2) by (auto simp: shape_ok_def)
  have "roots (block_links s) r = None" using r shape_okD(4)[OF ok(2)] by simp
  then have "\<exists>L. ll_inv (block_links s') L" using ll_inv_new_root[OF M] sh(5) by simp
  moreover have "op_regs s p = Some (op_regions op)" using op(1) by (simp add: op_regs_def)
  moreover have "dom (op_regs s') = dom (op_regs s)" using op(1) by (auto simp: op_regs_def sh(1))
  moreover have "distinct xs \<and> (\<forall>r \<in> set xs. regions s' r = Some \<lparr>parent_op = q\<rparr>)" if "op_regs s' q = Some xs" for q xs
    using that ok(2) sh(1,3) r calculation(2) by (fastforce simp: shape_ok_def split: if_splits)
  moreover have "\<exists>xs. op_regs s' (parent_op reg) = Some xs \<and> k \<in> set xs" if "regions s' k = Some reg" for k reg
    using that ok(2) sh(1,3) calculation(2) by (fastforce simp: shape_ok_def split: if_splits)
  ultimately have "shape_ok s'" using ok(2) sh(2-5) by (simp add: shape_ok_def dom_op_regs)
  then show ?thesis using ok(1) ir_ok_views[OF v] v by (simp add: good_step_def ctx_ok_def ir_views_def)
qed

lemma move_to_op_good:
  assumes s: "ctx_ok s" and run: "move_to_op s r p = Some s'"
  shows "good_step s 0 0 s'"
proof -
  have ok: "ir_ok s" "shape_ok s" using s by (simp_all add: ctx_ok_def)
  obtain reg where reg: "regions s r = Some reg" using run by (auto simp: move_to_op_def split: bind_splits)
  show ?thesis
  proof (cases "parent_op reg = p")
    case True then show ?thesis using run reg s by (simp add: move_to_op_def good_refl)
  next
    case False
    let ?q = "parent_op reg"
    obtain op i op2 where op: "operations s ?q = Some op" "position (\<lambda>x. x = r) (op_regions op) = Some i"
        "operations s p = Some op2"
        "s' = s\<lparr>operations := (operations s)(?q \<mapsto> op\<lparr>op_regions := swap_remove_at i (op_regions op)\<rparr>,
             p \<mapsto> op2\<lparr>op_regions := op_regions op2 @ [r]\<rparr>),
           regions := (regions s)(r \<mapsto> reg\<lparr>parent_op := p\<rparr>)\<rparr>"
      using run reg False by (auto simp: move_to_op_def modify_op_def Let_def split: bind_splits)
    have i: "i < length (op_regions op)" "op_regions op ! i = r" using op(2) by (auto simp: position_Some)
    have g: "op_regs s ?q = Some (op_regions op)" "op_regs s p = Some (op_regions op2)"
      using op(1,3) by (simp_all add: op_regs_def)
    have d: "distinct (op_regions op)" "distinct (op_regions op2)"
        "\<forall>x \<in> set (op_regions op). regions s x = Some \<lparr>parent_op = ?q\<rparr>"
        "\<forall>x \<in> set (op_regions op2). regions s x = Some \<lparr>parent_op = p\<rparr>"
      using ok(2) g unfolding shape_ok_def by blast+
    note w = swap_remove_at_set[OF i(1) d(1), unfolded i(2)]
    have rp: "r \<notin> set (op_regions op2)" using d(4) reg False by auto
    have v: "ir_views s' = ir_views s"
      using op False by (auto simp: ir_views_def defs_view_alt vopds_def bopds_def block_defnode_def
          entity_defs_def fun_eq_iff split: defining_entity.split)
    have sh: "op_regs s' = (op_regs s)(?q \<mapsto> swap_remove_at i (op_regions op), p \<mapsto> op_regions op2 @ [r])"
        "basic_blocks s' = basic_blocks s" "regions s' = (regions s)(r \<mapsto> \<lparr>parent_op = p\<rparr>)"
        "op_links s' = op_links s" "block_links s' = block_links s"
      by (auto simp: op(4) op_regs_def fun_eq_iff)
    have "distinct xs \<and> (\<forall>k \<in> set xs. regions s' k = Some \<lparr>parent_op = m\<rparr>)" if x: "op_regs s' m = Some xs" for m xs
    proof -
      consider "m = p" | "m = ?q" "m \<noteq> p" | "m \<noteq> p" "m \<noteq> ?q" by blast
      then show ?thesis
      proof cases
        case 1 then show ?thesis using x sh(1,3) d(2,4) rp by auto
      next
        case 2 then show ?thesis using x sh(1,3) w d(3) by auto
      next
        case 3
        then have "op_regs s m = Some xs" using x sh(1) by simp
        then have "distinct xs \<and> (\<forall>k \<in> set xs. regions s k = Some \<lparr>parent_op = m\<rparr>)"
          using ok(2) unfolding shape_ok_def by blast
        then show ?thesis using sh(3) reg 3 by auto
      qed
    qed
    moreover have "\<exists>xs. op_regs s' (parent_op g) = Some xs \<and> k \<in> set xs" if k: "regions s' k = Some g" for k g
    proof (cases "k = r")
      case True then show ?thesis using k sh(1,3) by auto
    next
      case False
      then have "regions s k = Some g" using k sh(3) by simp
      then obtain xs where xs: "op_regs s (parent_op g) = Some xs" "k \<in> set xs"
        using ok(2) unfolding shape_ok_def by blast
      consider "parent_op g = p" | "parent_op g = ?q" "parent_op g \<noteq> p" | "parent_op g \<noteq> p" "parent_op g \<noteq> ?q"
        by blast
      then show ?thesis
      proof cases
        case 1 then show ?thesis using xs g(2) by (simp add: sh(1))
      next
        case 2 then show ?thesis using xs g(1) w(1) False by (simp add: sh(1))
      next
        case 3 then show ?thesis using xs by (simp add: sh(1))
      qed
    qed
    moreover have "dom (op_regs s') = dom (op_regs s)" "dom (regions s') = dom (regions s)"
      using g reg by (auto simp: sh)
    ultimately have "shape_ok s'" using ok(2) sh(2,4,5) by (simp add: shape_ok_def dom_op_regs)
    then show ?thesis using ok(1) ir_ok_views[OF v] v by (simp add: good_step_def ctx_ok_def ir_views_def)
  qed
qed

section \<open>Every command\<close>

lemma of_outcome_Some [simp]: "of_outcome r = Some x \<longleftrightarrow> r = Inr x"
  by (cases r) (simp_all add: of_outcome_def)

lemmas step_goods = move_to_op_good links_good block_list_good remove_result_good remove_argument_good
  replace_some_good retarget_good push_operand_good [simplified] insert_operand_good [simplified]
  replace_operand_good [simplified] push_successor_good [simplified] insert_successor_good [simplified]
  replace_successor_good [simplified] push_result_good [simplified] push_argument_good [simplified]
  insert_result_step_good [simplified] insert_argument_step_good [simplified]

lemma ir_step_good:
  assumes s: "ctx_ok s" and run: "ir_step s c = Some s'"
    and room: "unat (value_counter s) + value_cost c < 2 ^ 64" "unat (use_counter s) + use_cost c < 2 ^ 64"
  shows "good_step s (value_cost c) (use_cost c) s'"
proof (cases c)
  case (NewOp k rs c' tys opds succs)
  then show ?thesis using run room by (auto intro!: new_op_good[OF s] split: bind_splits)
next
  case (NewBlock k lbl tys)
  then show ?thesis using run room by (auto intro!: new_block_good[OF s] split: bind_splits)
next
  case (AddRegion p r)
  then show ?thesis using run by (auto intro: add_region_good[OF s] split: bind_splits)
next
  case (RemoveOperand p i)
  then show ?thesis using run by (auto intro: remove_operand_good[OF s])
next
  case (PopOperand p)
  then show ?thesis using run
    by (auto simp: pop_operand_def Let_def intro: remove_operand_good[OF s] split: bind_splits)
next
  case (RemoveSuccessor p i)
  then show ?thesis using run by (auto intro: remove_successor_good[OF s])
next
  case (PopSuccessor p)
  then show ?thesis using run
    by (auto simp: pop_successor_def Let_def intro: remove_successor_good[OF s] split: bind_splits)
next
  case (PopResult p)
  then show ?thesis using run
    by (auto simp: pop_result_def Let_def intro: remove_result_good[OF s] split: bind_splits)
next
  case (PopArgument b)
  then show ?thesis using run
    by (auto simp: pop_argument_def Let_def intro: remove_argument_good[OF s] split: bind_splits)
next
  case (SetType v ty)
  then show ?thesis using run set_value_type_same[of s v ty s'] by (auto intro: good_same[OF s])
next
  case (SetName v name)
  then show ?thesis using run set_value_name_same[of s v name s'] by (auto intro: good_same[OF s])
next
  case (SetLabel b lbl)
  then show ?thesis using run set_label_same[of s b lbl s'] by (auto intro: good_same[OF s])
qed (use run room s in \<open>auto intro: step_goods\<close>)

lemma ir_run_good:
  assumes "ctx_ok s" and "ir_run s cs = Some s'"
    and "unat (value_counter s) + sum_list (map value_cost cs) < 2 ^ 64"
    and "unat (use_counter s) + sum_list (map use_cost cs) < 2 ^ 64"
  shows "good_step s (sum_list (map value_cost cs)) (sum_list (map use_cost cs)) s'"
  using assms
proof (induction cs arbitrary: s)
  case Nil then show ?case by (simp add: good_refl)
next
  case (Cons c cs)
  obtain t where t: "ir_step s c = Some t" "ir_run t cs = Some s'"
    using Cons.prems(2) by (auto split: bind_splits)
  have g: "good_step s (value_cost c) (use_cost c) t"
    using Cons.prems(3,4) by (intro ir_step_good[OF Cons.prems(1) t(1)]) auto
  then have "good_step t (sum_list (map value_cost cs)) (sum_list (map use_cost cs)) s'"
    using Cons.prems(3,4) by (intro Cons.IH[OF _ t(2)]) (auto simp: good_step_def)
  then show ?case using g by (simp add: good_step_def)
qed

lemma ctx_ok_empty: "ctx_ok empty_ctx"
proof -
  have "ll_inv \<lparr>nodes = Map.empty, roots = Map.empty\<rparr> Map.empty" by (simp add: ll_inv_def)
  then show ?thesis
    by (auto simp: ctx_ok_def ir_ok_def uids_ok_def du_ok_def def_use_ok_def shape_ok_def empty_ctx_def
        entity_defs_def vopds_def bopds_def op_regs_def value_api_def block_api_def block_defnode_def
        value_defnode_alt split: defining_entity.splits)
qed

section \<open>Runs from the empty context\<close>

lemma run_ctx_ok:
  assumes "ir_run empty_ctx cs = Some s"
    and "sum_list (map value_cost cs) < 2 ^ 64" and "sum_list (map use_cost cs) < 2 ^ 64"
  shows "ctx_ok s"
  using ir_run_good[OF ctx_ok_empty assms(1)] assms(2,3) by (simp add: good_step_def empty_ctx_def)

lemma def_use_exact:
  assumes "def_use_ok uses opds n" and "uses d = Some us"
  shows "u \<in> set us \<longleftrightarrow> (\<exists>xs x. opds (user_op u) = Some xs \<and> x \<in> set xs \<and> opd_def x = d \<and> opd_uid x = use_uid u)"
proof
  assume "\<exists>xs x. opds (user_op u) = Some xs \<and> x \<in> set xs \<and> opd_def x = d \<and> opd_uid x = use_uid u"
  then obtain xs x where x: "opds (user_op u) = Some xs" "x \<in> set xs" "opd_def x = d" "opd_uid x = use_uid u" by blast
  have "u = as_use x (user_op u)" using x(4) by (simp add: use_ref_eq_as_use)
  then show "u \<in> set us" using def_use_okD(5)[OF assms(1) x(1,2)] x(3) assms(2) by auto
qed (use def_use_okD(2)[OF assms] in blast)

lemma op_operands_vopds: "op_operands s p = map_option (map opd_def) (vopds s p)"
  by (simp add: op_operands_def vopds_def option.map_comp o_def)

lemma op_succs_bopds: "op_succs s p = map_option (map opd_def) (bopds s p)"
  by (simp add: op_succs_def bopds_def option.map_comp o_def)

lemma ctx_ok_uses:
  assumes "ctx_ok s" and "value_uses s v = Some us"
  shows "distinct us"
    and "u \<in> set us \<longleftrightarrow> (\<exists>op x. operations s (user_op u) = Some op \<and> x \<in> set (operands op)
      \<and> opd_def x = v \<and> opd_uid x = use_uid u)"
proof -
  have d: "def_use_ok (value_defnode s) (vopds s) (use_counter s)" "value_defnode s v = Some us"
    using assms by (simp_all add: ctx_ok_def ir_ok_def du_ok_def value_api_def value_uses_def)
  show "distinct us" using def_use_okD(1)[OF d] .
  show "u \<in> set us \<longleftrightarrow> (\<exists>op x. operations s (user_op u) = Some op \<and> x \<in> set (operands op)
      \<and> opd_def x = v \<and> opd_uid x = use_uid u)"
    unfolding def_use_exact[OF d] by (auto simp: vopds_def)
qed

lemma ctx_ok_block_uses:
  assumes "ctx_ok s" and "block_uses s b = Some us"
  shows "distinct us"
    and "u \<in> set us \<longleftrightarrow> (\<exists>op x. operations s (user_op u) = Some op \<and> x \<in> set (op_successors op)
      \<and> opd_def x = b \<and> opd_uid x = use_uid u)"
proof -
  have d: "def_use_ok (block_defnode s) (bopds s) (use_counter s)" "block_defnode s b = Some us"
    using assms by (simp_all add: ctx_ok_def ir_ok_def du_ok_def block_api_def block_uses_def block_defnode_def)
  show "distinct us" using def_use_okD(1)[OF d] .
  show "u \<in> set us \<longleftrightarrow> (\<exists>op x. operations s (user_op u) = Some op \<and> x \<in> set (op_successors op)
      \<and> opd_def x = b \<and> opd_uid x = use_uid u)"
    unfolding def_use_exact[OF d] by (auto simp: bopds_def)
qed

lemma ctx_ok_verify:
  assumes s: "ctx_ok s" and op: "operations s p = Some op"
  shows "x \<in> set (operands op) \<Longrightarrow> operand_verify value_api s x p = Some True"
    and "y \<in> set (op_successors op) \<Longrightarrow> operand_verify block_api s y p = Some True"
proof -
  have d: "def_use_ok (get_defnode value_api s) (vopds s) (use_counter s)"
      "def_use_ok (get_defnode block_api s) (bopds s) (use_counter s)"
    using s by (simp_all add: ctx_ok_def ir_ok_def du_ok_def)
  show "operand_verify value_api s x p = Some True" if "x \<in> set (operands op)"
    using def_use_okD(5)[OF d(1) vopds_Some[OF op] that] by (auto simp: operand_verify_def as_use_def)
  show "operand_verify block_api s y p = Some True" if "y \<in> set (op_successors op)"
    using def_use_okD(5)[OF d(2) bopds_Some[OF op] that] by (auto simp: operand_verify_def as_use_def)
qed

text \<open>A small program: a function block that calls an operation on its argument and branches.\<close>

definition demo_cmds :: "(nat, nat) ir_cmd list" where
  "demo_cmds =
     [NewOp 0 [0] 0 [] [] [], NewBlock 0 None [7], NewBlock 1 None [7],
      BlockList (InsertAtBack 0 0), BlockList (InsertAtBack 1 0),
      NewOp 1 [] 1 [7, 7] [\<lparr>val_uid = 0, defining_entity = BlockDef 0\<rparr>] [],
      NewOp 2 [] 2 [] [\<lparr>val_uid = 2, defining_entity = OpDef 1\<rparr>, \<lparr>val_uid = 3, defining_entity = OpDef 1\<rparr>] [1],
      OpList (InsertAtFront 2 0), OpList (InsertBefore 1 2)]"

definition demo_ctx :: "(nat, nat, nat) ctx" where
  "demo_ctx = the (ir_run empty_ctx demo_cmds)"

lemma demo_ctx: "ir_run empty_ctx demo_cmds = Some demo_ctx"
  unfolding demo_ctx_def by (rule sym, rule option.collapse) code_simp

lemma demo_ok: "ctx_ok demo_ctx"
  by (rule run_ctx_ok[OF demo_ctx]) (simp_all add: demo_cmds_def)

end
