(* ===== verification/IrSpec.thy ===== *)
theory IrSpec
  imports IrRun
begin

text \<open>
  What the operations on the IR promise: any sequence of edits keeps the invariant, def-use chains
  are exact, edits of operands do what they say and touch no other operation, replaced values are
  unused, removed results are referred to by nobody, and given names stay with their values.
\<close>

section \<open>Properties\<close>

text \<open>
  C2. Whatever sequence of operations a client runs on an empty context, as long as none of them
  panics and the two identifier counters do not wrap: the def-use chains of values and blocks are
  consistent, identifiers are unique, operations and blocks form well-formed lists, and every
  region is listed once, by its parent operation. Nothing else in the code checks this: the
  operations preserve it.
\<close>

theorem runs_keep_invariant:
  assumes "ir_run empty_ctx cs = Some s"
    and "sum_list (map value_cost cs) < 2 ^ 64" and "sum_list (map use_cost cs) < 2 ^ 64"
  shows "ir_ok s \<and> shape_ok s
    \<and> unat (value_counter s) = sum_list (map value_cost cs)
    \<and> unat (use_counter s) = sum_list (map use_cost cs)"
  using ir_run_good[OF ctx_ok_empty assms(1)] assms(2,3) by (simp add: good_step_def ctx_ok_def empty_ctx_def)

theorem runs_keep_invariant_witness: "ir_ok demo_ctx \<and> unat (value_counter demo_ctx) = 4"
  using runs_keep_invariant[OF demo_ctx] by (simp add: demo_cmds_def)

text \<open>
  C5. After any such run nothing dangles: the uses recorded for a value are exactly the operands
  that refer to it, each once, the recorded uses of a block are exactly the successors that branch to it, and
  every operand and successor of every operation passes its own verifier.
\<close>

theorem uses_are_exact:
  assumes "ir_run empty_ctx cs = Some s"
    and "sum_list (map value_cost cs) < 2 ^ 64" and "sum_list (map use_cost cs) < 2 ^ 64"
  shows "(\<forall>v us. value_uses s v = Some us \<longrightarrow> distinct us \<and> (\<forall>u. u \<in> set us \<longleftrightarrow>
        (\<exists>op x. operations s (user_op u) = Some op \<and> x \<in> set (operands op) \<and> opd_def x = v \<and> opd_uid x = use_uid u)))
    \<and> (\<forall>b us. block_uses s b = Some us \<longrightarrow> distinct us \<and> (\<forall>u. u \<in> set us \<longleftrightarrow>
        (\<exists>op x. operations s (user_op u) = Some op \<and> x \<in> set (op_successors op) \<and> opd_def x = b \<and> opd_uid x = use_uid u)))
    \<and> (\<forall>p op. operations s p = Some op \<longrightarrow>
        (\<forall>x \<in> set (operands op). operand_verify value_api s x p = Some True)
        \<and> (\<forall>x \<in> set (op_successors op). operand_verify block_api s x p = Some True))"
proof -
  have s: "ctx_ok s" using run_ctx_ok[OF assms] .
  show ?thesis using ctx_ok_uses[OF s] ctx_ok_block_uses[OF s] ctx_ok_verify[OF s] by blast
qed

theorem uses_are_exact_witness:
  "value_uses demo_ctx \<lparr>val_uid = 0, defining_entity = BlockDef 0\<rparr> = Some [\<lparr>user_op = 1, use_uid = 0\<rparr>]
   \<and> (\<exists>op x. operations demo_ctx 1 = Some op \<and> x \<in> set (operands op)
        \<and> opd_def x = \<lparr>val_uid = 0, defining_entity = BlockDef 0\<rparr>)"
proof -
  have u: "value_uses demo_ctx \<lparr>val_uid = 0, defining_entity = BlockDef 0\<rparr> = Some [\<lparr>user_op = 1, use_uid = 0\<rparr>]"
    by code_simp
  have c: "sum_list (map value_cost demo_cmds) < 2 ^ 64" "sum_list (map use_cost demo_cmds) < 2 ^ 64"
    by (simp_all add: demo_cmds_def)
  note e = uses_are_exact[OF demo_ctx c, THEN conjunct1, rule_format, OF u, THEN conjunct2, rule_format]
  have "\<exists>op x. operations demo_ctx 1 = Some op \<and> x \<in> set (operands op)
        \<and> opd_def x = \<lparr>val_uid = 0, defining_entity = BlockDef 0\<rparr>"
    using e[of "\<lparr>user_op = 1, use_uid = 0\<rparr>"] by auto
  with u show ?thesis by blast
qed

text \<open>
  C16. The four edits of an operation's operand list do what they say, on every operation of a
  consistent context: the list of operand values is the old one with the value pushed, inserted,
  replaced or removed, and no other operation's operands and no successors change. Replacing an
  operand that is a result of the operation itself is excluded: it panics.
\<close>

theorem operand_edits_correct:
  assumes s: "ctx_ok s" "use_counter s < use_counter s + 1" and v: "value_uses s v \<noteq> None"
    and p: "op_operands s p = Some vs" and i: "i < length vs"
  shows "(\<exists>s'. push_operand s p v = Some (length vs, s') \<and> ir_ok s'
        \<and> op_operands s' = (op_operands s)(p \<mapsto> vs @ [v]) \<and> op_succs s' = op_succs s)
    \<and> (\<exists>s'. insert_operand s p i v = Some s' \<and> ir_ok s'
        \<and> op_operands s' = (op_operands s)(p \<mapsto> take i vs @ v # drop i vs) \<and> op_succs s' = op_succs s)
    \<and> (\<exists>s'. remove_operand s p i = Some (vs ! i, s') \<and> ir_ok s'
        \<and> op_operands s' = (op_operands s)(p \<mapsto> take i vs @ drop (Suc i) vs) \<and> op_succs s' = op_succs s)
    \<and> (defining_entity (vs ! i) = OpDef p \<or> (\<exists>s'. replace_operand s p i v = Some s' \<and> ir_ok s'
        \<and> op_operands s' = (op_operands s)(p \<mapsto> vs[i := v]) \<and> op_succs s' = op_succs s))"
proof -
  have ok: "ir_ok s" "use_room s" using s by (simp_all add: ctx_ok_def use_room_def)
  obtain us where us: "value_defnode s v = Some us" using v by (auto simp: value_uses_def)
  obtain xs where xs: "vopds s p = Some xs" "vs = map opd_def xs" using p by (auto simp: op_operands_vopds)
  have i': "i < length xs" "i \<le> length xs" using i xs(2) by simp_all
  have upd: "op_operands s' = (op_operands s)(p \<mapsto> map opd_def ys)" if "vopds s' = (vopds s)(p \<mapsto> ys)" for s' ys
    using that by (simp add: fun_eq_iff op_operands_vopds)
  have succs: "op_succs s' = op_succs s" if "strip_values s' = strip_values s" for s'
    using strip_values_frame(2)[OF that] by (simp add: fun_eq_iff op_succs_bopds)
  obtain s1 where 1: "push_operand s p v = Some (length xs, s1)" "ir_ok s1"
      "vopds s1 = (vopds s)(p \<mapsto> xs @ [\<lparr>opd_def = v, opd_uid = use_counter s\<rparr>])" "strip_values s1 = strip_values s"
    using push_operand_spec[OF ok us xs(1)] by blast
  obtain s2 where 2: "insert_operand s p i v = Some s2" "ir_ok s2"
      "vopds s2 = (vopds s)(p \<mapsto> take i xs @ \<lparr>opd_def = v, opd_uid = use_counter s\<rparr> # drop i xs)" "strip_values s2 = strip_values s"
    using insert_operand_spec[OF ok us xs(1) i'(2)] by blast
  obtain s3 where 3: "remove_operand s p i = Some (opd_def (xs ! i), s3)" "ir_ok s3"
      "vopds s3 = (vopds s)(p \<mapsto> take i xs @ drop (Suc i) xs)" "strip_values s3 = strip_values s"
    using remove_operand_spec[OF ok(1) xs(1) i'(1)] by blast
  have 4: "\<exists>s'. replace_operand s p i v = Some s' \<and> ir_ok s'
        \<and> op_operands s' = (op_operands s)(p \<mapsto> vs[i := v]) \<and> op_succs s' = op_succs s"
    if "defining_entity (vs ! i) \<noteq> OpDef p"
  proof -
    have own: "defining_entity (opd_def (xs ! i)) \<noteq> OpDef p" using that xs(2) i' by simp
    obtain s4 where 4: "replace_operand s p i v = Some s4" "ir_ok s4"
        "vopds s4 = (vopds s)(p \<mapsto> xs[i := \<lparr>opd_def = v, opd_uid = use_counter s\<rparr>])" "strip_values s4 = strip_values s"
      using replace_operand_spec[OF ok us xs(1) i'(1) own] by blast
    show ?thesis using 4(1,2) upd[OF 4(3)] succs[OF 4(4)] xs(2) by (intro exI[of _ s4]) (simp add: map_update)
  qed
  show ?thesis
  proof (intro conjI)
    show "\<exists>s'. push_operand s p v = Some (length vs, s') \<and> ir_ok s'
        \<and> op_operands s' = (op_operands s)(p \<mapsto> vs @ [v]) \<and> op_succs s' = op_succs s"
      using 1(1,2) upd[OF 1(3)] succs[OF 1(4)] xs(2) by (intro exI[of _ s1]) simp
    show "\<exists>s'. insert_operand s p i v = Some s' \<and> ir_ok s'
        \<and> op_operands s' = (op_operands s)(p \<mapsto> take i vs @ v # drop i vs) \<and> op_succs s' = op_succs s"
      using 2(1,2) upd[OF 2(3)] succs[OF 2(4)] xs(2) by (intro exI[of _ s2]) (simp add: take_map drop_map)
    show "\<exists>s'. remove_operand s p i = Some (vs ! i, s') \<and> ir_ok s'
        \<and> op_operands s' = (op_operands s)(p \<mapsto> take i vs @ drop (Suc i) vs) \<and> op_succs s' = op_succs s"
      using 3(1,2) upd[OF 3(3)] succs[OF 3(4)] xs(2) i'(1) by (intro exI[of _ s3]) (simp add: take_map drop_map)
  qed (use 4 in blast)
qed

theorem operand_edits_correct_witness:
  "\<exists>s'. insert_operand demo_ctx 2 1 \<lparr>val_uid = 0, defining_entity = BlockDef 0\<rparr> = Some s'
    \<and> op_operands s' 2 = Some [\<lparr>val_uid = 2, defining_entity = OpDef 1\<rparr>, \<lparr>val_uid = 0, defining_entity = BlockDef 0\<rparr>,
        \<lparr>val_uid = 3, defining_entity = OpDef 1\<rparr>]"
proof -
  have "use_counter demo_ctx < use_counter demo_ctx + 1" by code_simp
  moreover have "value_uses demo_ctx \<lparr>val_uid = 0, defining_entity = BlockDef 0\<rparr> \<noteq> None" by code_simp
  moreover have "op_operands demo_ctx 2
      = Some [\<lparr>val_uid = 2, defining_entity = OpDef 1\<rparr>, \<lparr>val_uid = 3, defining_entity = OpDef 1\<rparr>]" by code_simp
  ultimately show ?thesis using operand_edits_correct[OF demo_ok, of _ 2 _ 1] by fastforce
qed

lemma replace_all_uses:
  assumes s: "ctx_ok s" and v: "value_uses s v = Some us" and w: "value_uses s w = Some ws" and ne: "v \<noteq> w"
  shows "\<exists>s' us'. replace_all_uses_with s v w = Some s' \<and> ctx_ok s' \<and> is_used s' v = Some False
    \<and> value_uses s' w = Some us' \<and> set us' = set ws \<union> set us
    \<and> op_operands s' = (\<lambda>p. map_option (map (\<lambda>x. if x = v then w else x)) (op_operands s p))
    \<and> strip_values s' = strip_values s"
proof -
  have ok: "ir_ok s" using s by (simp add: ctx_ok_def)
  have d: "value_defnode s v = Some us" "value_defnode s w = Some ws" using v w by (simp_all add: value_uses_def)
  note u = ctx_ok_uses[OF s v]
  obtain s' us' ws' where *: "replace_uses value_api s v us w = Some s'" "ir_ok s'"
      "value_defnode s' = (value_defnode s)(v \<mapsto> us', w \<mapsto> ws')" "set us' = set us - set us"
      "set ws' = set ws \<union> set us"
      "vopds s' = (\<lambda>p. map_option (map (\<lambda>x. if as_use x p \<in> set us then x\<lparr>opd_def := w\<rparr> else x)) (vopds s p))"
      "strip_values s' = strip_values s" "use_counter s' = use_counter s"
    using value_replace_uses[OF ok d ne subset_refl u(1)] by blast
  have run: "replace_all_uses_with s v w = Some s'"
    using *(1) d(1) by (simp add: replace_all_uses_with_def replace_some_uses_with_def)
  have "op_operands s' p = map_option (map (\<lambda>x. if x = v then w else x)) (op_operands s p)" for p
  proof (cases "operations s p")
    case None then show ?thesis using *(6) by (simp add: op_operands_vopds vopds_def)
  next
    case (Some op)
    have "as_use x p \<in> set us \<longleftrightarrow> opd_def x = v" if x: "x \<in> set (operands op)" for x
    proof
      assume "as_use x p \<in> set us"
      then obtain y where y: "y \<in> set (operands op)" "opd_def y = v" "opd_uid y = opd_uid x"
        using u(2) Some by auto
      have "distinct (map opd_uid (operands op))" using value_fresh(2)[OF ok vopds_Some[OF Some]] .
      then have "y = x" using x y(1,3) by (meson distinct_map inj_on_def)
      then show "opd_def x = v" using y(2) by simp
    next
      assume "opd_def x = v" then show "as_use x p \<in> set us" using u(2) Some x by auto
    qed
    then show ?thesis using Some *(6) by (simp add: op_operands_vopds vopds_def)
  qed
  moreover have "ctx_ok s'" using ctx_ok_keep[OF s *(2) strip_values_shape[OF *(7)]] .
  ultimately show ?thesis using run *(3,4,5,7) ne
    by (intro exI[of _ s'] exI[of _ ws']) (auto simp: is_used_def value_uses_def)
qed

text \<open>
  C9. Replacing all uses of a value by another one does exactly that: afterwards the replaced value
  has no uses, the other value has its own and the moved ones, and the operand lists of all
  operations are the old ones with the value renamed. Results, types, successors, regions and
  lists stay.
\<close>

theorem replace_all_uses_correct:
  assumes "ctx_ok s" and "value_uses s v = Some us" and "value_uses s w = Some ws" and "v \<noteq> w"
  shows "\<exists>s' us'. replace_all_uses_with s v w = Some s' \<and> ctx_ok s' \<and> is_used s' v = Some False
    \<and> value_uses s' w = Some us' \<and> set us' = set ws \<union> set us
    \<and> op_operands s' = (\<lambda>p. map_option (map (\<lambda>x. if x = v then w else x)) (op_operands s p))
    \<and> strip_values s' = strip_values s"
  by (rule replace_all_uses[OF assms])

theorem replace_all_uses_correct_witness:
  "\<exists>s'. replace_all_uses_with demo_ctx \<lparr>val_uid = 2, defining_entity = OpDef 1\<rparr> \<lparr>val_uid = 3, defining_entity = OpDef 1\<rparr> = Some s'
    \<and> op_operands s' 2 = Some [\<lparr>val_uid = 3, defining_entity = OpDef 1\<rparr>, \<lparr>val_uid = 3, defining_entity = OpDef 1\<rparr>]"
proof -
  have u: "value_uses demo_ctx \<lparr>val_uid = 2, defining_entity = OpDef 1\<rparr> = Some [\<lparr>user_op = 2, use_uid = 1\<rparr>]"
      "value_uses demo_ctx \<lparr>val_uid = 3, defining_entity = OpDef 1\<rparr> = Some [\<lparr>user_op = 2, use_uid = 2\<rparr>]" by code_simp+
  have o: "op_operands demo_ctx 2
      = Some [\<lparr>val_uid = 2, defining_entity = OpDef 1\<rparr>, \<lparr>val_uid = 3, defining_entity = OpDef 1\<rparr>]" by code_simp
  show ?thesis using replace_all_uses_correct[OF demo_ok u] o by auto
qed

text \<open>
  A result can be removed only while nothing uses it, and removing it leaves no reference
  behind: with a use left the operation panics; without one it succeeds exactly when the names kept in the
  attributes can be adjusted, and then no operand of any operation of the new context refers to
  the removed value, which is defined no more, while every other value keeps its uses.
\<close>

theorem remove_result_safe:
  assumes s: "ctx_ok s" and v: "get_result s p i = Some v"
  shows "(is_used s v = Some True \<longrightarrow> remove_result s p i = None)
    \<and> (\<forall>s'. remove_result s p i = Some s' \<longrightarrow> ctx_ok s' \<and> value_uses s' v = None
        \<and> (\<forall>w. w \<noteq> v \<longrightarrow> value_uses s' w = value_uses s w)
        \<and> (\<forall>q vs. op_operands s' q = Some vs \<longrightarrow> v \<notin> set vs))"
proof -
  have ok: "ir_ok s" "uids_ok s" using s by (simp_all add: ctx_ok_def ir_ok_def)
  have used: "remove_result s p i = None" if "is_used s v = Some True"
    using that v by (simp add: remove_result_def)
  have "ctx_ok s' \<and> value_uses s' v = None \<and> (\<forall>w. w \<noteq> v \<longrightarrow> value_uses s' w = value_uses s w)
        \<and> (\<forall>q vs. op_operands s' q = Some vs \<longrightarrow> v \<notin> set vs)" if run: "remove_result s p i = Some s'" for s'
  proof -
    have c: "ctx_ok s'" using remove_result_good[OF s run] by (simp add: good_step_def)
    obtain op attrs where op: "operations s p = Some op" "i < length (results op)" "vd_uses (results op ! i) = []"
        "s' = s\<lparr>operations := (operations s)(p \<mapsto>
           op\<lparr>attributes := attrs, results := take i (results op) @ drop (Suc i) (results op)\<rparr>)\<rparr>"
      using run unfolding remove_result_eq[OF ok(2)] by blast
    have vd: "v = result_value p (results op ! i)" using v op(1,2) by (simp add: get_result_def)
    have "value_defnode s' = (value_defnode s)(result_value p (results op ! i) := None)"
      by (rule ir_ok_remove_result(2)[OF ok(1) op(1-3) _ _ _ op(4)]) simp_all
    then have d: "value_defnode s' = (value_defnode s)(v := None)" using vd by simp
    have "v \<notin> set vs" if q: "op_operands s' q = Some vs" for q vs
    proof
      assume "v \<in> set vs"
      then obtain xs x where x: "vopds s' q = Some xs" "x \<in> set xs" "opd_def x = v"
        using q by (auto simp: op_operands_vopds)
      have "def_use_ok (value_defnode s') (vopds s') (use_counter s')"
        using c by (simp add: ctx_ok_def ir_ok_def du_ok_def value_api_def)
      from def_use_okD(5)[OF this x(1,2)] show False using d x(3) by simp
    qed
    then show ?thesis using c d by (simp add: value_uses_def)
  qed
  then show ?thesis using used by blast
qed

theorem remove_result_safe_witness:
  "remove_result demo_ctx 1 0 = None"
proof -
  have "get_result demo_ctx 1 0 = Some \<lparr>val_uid = 2, defining_entity = OpDef 1\<rparr>"
      "is_used demo_ctx \<lparr>val_uid = 2, defining_entity = OpDef 1\<rparr> = Some True" by code_simp+
  then show ?thesis using remove_result_safe[OF demo_ok] by blast
qed

text \<open>
  \<open>Operation::new\<close> builds the operation it is asked for: with fresh keys and existing
  operands and successors it does not panic, the new operation has the given concrete operation,
  operands, successors and regions and no attributes, its results are unused and have the given
  types, and the context stays consistent.
\<close>

theorem operation_new_typed:
  assumes s: "ctx_ok s" and k: "operations s k = None" and rs: "distinct rs" "\<forall>r \<in> set rs. regions s r = None"
    and live: "\<forall>v \<in> set opds. value_uses s v \<noteq> None" "\<forall>b \<in> set succs. block_uses s b \<noteq> None"
    and room: "unat (value_counter s) + length tys < 2 ^ 64"
      "unat (use_counter s) + (length opds + length succs) < 2 ^ 64"
  shows "\<exists>s' op. operation_new s k rs c tys opds succs = Some s' \<and> ctx_ok s'
    \<and> operations s' k = Some op \<and> concrete_op op = c \<and> attributes op = [] \<and> op_regions op = rs
    \<and> op_operands s' k = Some opds \<and> op_succs s' k = Some succs
    \<and> (\<forall>q. q \<noteq> k \<longrightarrow> op_operands s' q = op_operands s q \<and> op_succs s' q = op_succs s q)
    \<and> length (results op) = length tys
    \<and> (\<forall>i < length tys. \<exists>v. get_result s' k i = Some v \<and> value_type s' v = Some (tys ! i))"
proof -
  have ok: "ir_ok s" using s by (simp add: ctx_ok_def)
  have live': "\<forall>v \<in> set opds. value_defnode s v \<noteq> None" "\<forall>b \<in> set succs. block_defnode s b \<noteq> None"
    using live by (auto simp: value_uses_def block_uses_def block_defnode_def)
  have room': "unat (use_counter s) + length opds + length succs < 2 ^ 64" using room(2) by simp
  obtain s' ds xs ys where *: "operation_new s k rs c tys opds succs = Some s'" "ir_ok s'"
      "operations s' k = Some \<lparr>concrete_op = c, results = ds, operands = xs, op_successors = ys,
        attributes = [], op_regions = rs\<rparr>"
      "map vd_ty ds = tys" "map opd_def xs = opds" "map opd_def ys = succs"
      "\<forall>q. q \<noteq> k \<longrightarrow> vopds s' q = vopds s q \<and> bopds s' q = bopds s q"
    using operation_new_spec[OF ok k live' room(1) room', of rs c] by blast
  have c: "ctx_ok s'"
    using new_op_good[OF s k rs room *(1) live'] by (simp add: good_step_def)
  have u: "uids_ok s'" "entity_defs s' (OpDef k) = Some ds"
    using *(2,3) by (simp_all add: ir_ok_def entity_defs_def)
  have len: "length ds = length tys" using *(4) by (metis length_map)
  have "\<exists>v. get_result s' k i = Some v \<and> value_type s' v = Some (tys ! i)" if i: "i < length tys" for i
  proof -
    have i': "i < length ds" using i len by simp
    have "get_result s' k i = Some (result_value k (ds ! i))" using *(3) i' by (simp add: get_result_def)
    moreover have "find_index s' (result_value k (ds ! i)) = Some i"
      using value_defnode_nth(2)[OF u i'] by (simp add: result_value_def)
    moreover have "vd_ty (ds ! i) = tys ! i" using *(4) i' by (metis nth_map)
    ultimately show ?thesis using u(2) i' by (simp add: value_type_def result_value_def)
  qed
  then show ?thesis using *(1,3,5-7) c len
    by (intro exI[of _ s'] exI[of _ "\<lparr>concrete_op = c, results = ds, operands = xs, op_successors = ys,
        attributes = [], op_regions = rs\<rparr>"])
      (simp add: op_operands_vopds op_succs_bopds, simp add: vopds_def bopds_def)
qed

theorem operation_new_typed_witness:
  "\<exists>s' v. operation_new demo_ctx 3 [] 9 [5] [\<lparr>val_uid = 2, defining_entity = OpDef 1\<rparr>] [] = Some s'
    \<and> get_result s' 3 0 = Some v \<and> value_type s' v = Some 5"
proof -
  have f: "operations demo_ctx 3 = None" by code_simp
  have l: "\<forall>v \<in> set [\<lparr>val_uid = 2, defining_entity = OpDef 1\<rparr>]. value_uses demo_ctx v \<noteq> None" by code_simp
  have r: "unat (value_counter demo_ctx) + length [5 :: nat] < 2 ^ 64"
      "unat (use_counter demo_ctx) + (length [\<lparr>val_uid = 2 :: 64 word, defining_entity = OpDef 1\<rparr>] + length ([] :: nat list)) < 2 ^ 64"
    using ir_run_good[OF ctx_ok_empty demo_ctx] by (simp_all add: good_step_def empty_ctx_def demo_cmds_def)
  show ?thesis using operation_new_typed[OF demo_ok f _ _ l _ r, of "[]" 9] by fastforce
qed

lemma result_name:
  assumes "uids_ok s" and "operations s p = Some op" and "j < length (results op)"
  shows "get_result s p j = Some (result_value p (results op ! j))"
    and "value_given_name s (result_value p (results op ! j)) = Some (get_name_from_attr_map (attributes op) j)"
    and "value_type s (result_value p (results op ! j)) = Some (vd_ty (results op ! j))"
proof -
  have e: "entity_defs s (OpDef p) = Some (results op)" using assms(2) by (simp add: entity_defs_def)
  have f: "find_index s (result_value p (results op ! j)) = Some j"
    using value_defnode_nth(2)[OF assms(1) e assms(3)] by (simp add: result_value_def)
  show "get_result s p j = Some (result_value p (results op ! j))" using assms(2,3) by (simp add: get_result_def)
  show "value_given_name s (result_value p (results op ! j)) = Some (get_name_from_attr_map (attributes op) j)"
    using f assms(2) by (simp add: value_given_name_def get_operation_result_name_def result_value_def)
  show "value_type s (result_value p (results op ! j)) = Some (vd_ty (results op ! j))"
    using f e assms(3) by (simp add: value_type_def result_value_def)
qed

lemma get_result_eq:
  "get_result s p j = Some v \<longleftrightarrow> (\<exists>op. operations s p = Some op \<and> j < length (results op) \<and> v = result_value p (results op ! j))"
  by (auto simp: get_result_def split: bind_splits)

text \<open>
  Given names follow their values: names are kept by index, in an attribute of the operation, and
  inserting a result in front of others shifts the indices, yet every old result keeps the name it had, at
  its new index, and the inserted result has the given type and no name. Removing an unused result keeps
  the names of all the others in the same way.
\<close>

theorem names_follow_results:
  assumes s: "ctx_ok s" and room: "unat (value_counter s) + 1 < 2 ^ 64" and op: "operations s p = Some op"
    and names: "names_ok (attributes op)" and i: "i \<le> length (results op)"
  shows "(\<exists>s' v. insert_result s p i ty = Some s' \<and> ctx_ok s'
      \<and> get_result s' p i = Some v \<and> value_type s' v = Some ty \<and> value_given_name s' v = Some None
      \<and> (\<forall>j w. get_result s p j = Some w \<longrightarrow>
          get_result s' p (if j < i then j else Suc j) = Some w \<and> value_given_name s' w = value_given_name s w))
    \<and> (\<forall>v. get_result s p i = Some v \<and> is_used s v = Some False \<longrightarrow>
        (\<exists>s'. remove_result s p i = Some s' \<and> ctx_ok s'
        \<and> (\<forall>j w. get_result s p j = Some w \<and> j \<noteq> i \<longrightarrow>
          get_result s' p (if j < i then j else j - 1) = Some w \<and> value_given_name s' w = value_given_name s w)))"
proof -
  have ok: "ir_ok s" "uids_ok s" using s by (simp_all add: ctx_ok_def ir_ok_def)
  let ?rs = "take i (results op) @ new_def s ty # drop i (results op)"
  obtain attrs where a: "insert_name_in_attr_map (attributes op) i None = Some attrs"
      "\<forall>j. get_name_from_attr_map attrs j = (if j < i then get_name_from_attr_map (attributes op) j
         else if j = i then None else get_name_from_attr_map (attributes op) (j - 1))"
    using insert_name_correct[OF names, of i None] by blast
  let ?op1 = "op\<lparr>results := ?rs, attributes := attrs\<rparr>"
  let ?s1 = "s\<lparr>value_counter := value_counter s + 1, operations := (operations s)(p \<mapsto> ?op1)\<rparr>"
  have run1: "insert_result s p i ty = Some ?s1" unfolding insert_result_eq using op i a(1) by blast
  have ok1: "ctx_ok ?s1" using insert_result_step_good[OF s room run1] by (simp add: good_step_def)
  have u1: "uids_ok ?s1" using ok1 by (simp add: ctx_ok_def ir_ok_def)
  have o1: "operations ?s1 p = Some ?op1" by simp
  note n1 = result_name[OF u1 o1]
  have "i < length (results ?op1)" using i by simp
  note new = n1[OF this]
  have ith: "results ?op1 ! i = new_def s ty" using i by (simp add: nth_append)
  have old: "get_result ?s1 p (if j < i then j else Suc j) = Some w \<and> value_given_name ?s1 w = value_given_name s w"
    if "get_result s p j = Some w" for j w
  proof -
    have j: "j < length (results op)" "w = result_value p (results op ! j)" using that op by (auto simp: get_result_eq)
    let ?k = "if j < i then j else Suc j"
    have k: "?k < length (results ?op1)" using j(1) i by auto
    have e: "results ?op1 ! ?k = results op ! j" using j(1) i by (auto simp: nth_append nth_Cons')
    have "get_name_from_attr_map attrs ?k = get_name_from_attr_map (attributes op) j" using a(2) by auto
    then show ?thesis using n1(1,2)[OF k] result_name(2)[OF ok(2) op j(1)] e j(2) by simp
  qed
  have ins: "\<exists>s' v. insert_result s p i ty = Some s' \<and> ctx_ok s'
      \<and> get_result s' p i = Some v \<and> value_type s' v = Some ty \<and> value_given_name s' v = Some None
      \<and> (\<forall>j w. get_result s p j = Some w \<longrightarrow>
          get_result s' p (if j < i then j else Suc j) = Some w \<and> value_given_name s' w = value_given_name s w)"
    using run1 ok1 new ith a(2) old
    by (intro exI[of _ ?s1] exI[of _ "result_value p (new_def s ty)"]) (simp add: new_def_def)
  have rem: "\<exists>s'. remove_result s p i = Some s' \<and> ctx_ok s'
        \<and> (\<forall>j w. get_result s p j = Some w \<and> j \<noteq> i \<longrightarrow>
          get_result s' p (if j < i then j else j - 1) = Some w \<and> value_given_name s' w = value_given_name s w)"
    if v: "get_result s p i = Some v" "is_used s v = Some False" for v
  proof -
    have iv: "i < length (results op)" "v = result_value p (results op ! i)" using v(1) op by (auto simp: get_result_eq)
    have e: "entity_defs s (OpDef p) = Some (results op)" using op by (simp add: entity_defs_def)
    have unused: "vd_uses (results op ! i) = []"
      using value_defnode_nth(1)[OF ok(2) e iv(1)] v(2) iv(2) by (simp add: is_used_def result_value_def)
    obtain attrs where b: "remove_name_from_attr_map (attributes op) i = Some attrs"
        "\<forall>j. get_name_from_attr_map attrs j = (if j < i then get_name_from_attr_map (attributes op) j
           else get_name_from_attr_map (attributes op) (Suc j))"
      using remove_name_correct[OF names, of i] by blast
    let ?op2 = "op\<lparr>attributes := attrs, results := take i (results op) @ drop (Suc i) (results op)\<rparr>"
    let ?s2 = "s\<lparr>operations := (operations s)(p \<mapsto> ?op2)\<rparr>"
    have run2: "remove_result s p i = Some ?s2" unfolding remove_result_eq[OF ok(2)] using op iv(1) unused b(1) by blast
    have ok2: "ctx_ok ?s2" using remove_result_good[OF s run2] by (simp add: good_step_def)
    have u2: "uids_ok ?s2" using ok2 by (simp add: ctx_ok_def ir_ok_def)
    have o2: "operations ?s2 p = Some ?op2" by simp
    have "get_result ?s2 p (if j < i then j else j - 1) = Some w \<and> value_given_name ?s2 w = value_given_name s w"
      if jw: "get_result s p j = Some w" "j \<noteq> i" for j w
    proof -
      have j: "j < length (results op)" "w = result_value p (results op ! j)" using jw(1) op by (auto simp: get_result_eq)
      let ?k = "if j < i then j else j - 1"
      have k: "?k < length (results ?op2)" using j(1) iv(1) jw(2) by auto
      have e: "results ?op2 ! ?k = results op ! j" using j(1) iv(1) jw(2) by (auto simp: nth_append min_def)
      have "get_name_from_attr_map attrs ?k = get_name_from_attr_map (attributes op) j" using b(2) jw(2) by auto
      then show ?thesis using result_name(1,2)[OF u2 o2 k] result_name(2)[OF ok(2) op j(1)] e j(2) by simp
    qed
    then show ?thesis using run2 ok2 by blast
  qed
  show ?thesis using ins rem by blast
qed

theorem names_follow_results_witness:
  "\<exists>s' v. insert_result demo_ctx 1 0 8 = Some s' \<and> get_result s' 1 0 = Some v \<and> value_type s' v = Some 8
    \<and> get_result s' 1 1 = Some \<lparr>val_uid = 2, defining_entity = OpDef 1\<rparr>"
proof -
  have c: "unat (value_counter demo_ctx) + 1 < 2 ^ 64"
    using ir_run_good[OF ctx_ok_empty demo_ctx] by (simp add: good_step_def empty_ctx_def demo_cmds_def)
  obtain op where op: "operations demo_ctx 1 = Some op" "attributes op = []" "length (results op) = 2"
  proof -
    have "map_option attributes (operations demo_ctx 1) = Some []" "map_option (\<lambda>op. length (results op)) (operations demo_ctx 1) = Some 2"
      by code_simp+
    then show ?thesis using that by auto
  qed
  have g: "get_result demo_ctx 1 0 = Some \<lparr>val_uid = 2, defining_entity = OpDef 1\<rparr>" by code_simp
  have n: "names_ok (attributes op)" using op(2) by (simp add: names_ok_def)
  have i: "0 \<le> length (results op)" by simp
  from conjunct1[OF names_follow_results[OF demo_ok c op(1) n i, of 8]] g show ?thesis by fastforce
qed

text \<open>
  C17. \<open>replace_operand\<close> panics when the operand it replaces is a result of the operation itself: the
  operation is still mutably borrowed when dropping the old use looks the result up. Replacing a
  successor has no such case.
\<close>

theorem replace_operand_self_panics:
  assumes p: "operations s p = Some op" and i: "i < length (operands op)"
    and own: "defining_entity (opd_def (operands op ! i)) = OpDef p" and s: "ctx_ok s"
  shows "replace_operand s p i v = None"
proof (cases "operand_new value_api s v p")
  case None then show ?thesis by (simp add: replace_operand_def)
next
  case (Some r)
  obtain x s1 where n: "operand_new value_api s v p = Some (x, s1)" using Some by (cases r) simp
  have "vopds s1 = vopds s" using value_new_needs(2)[OF _ n] s by (simp add: ctx_ok_def)
  then obtain op1 where "operations s1 p = Some op1" "operands op1 = operands op"
    using vopds_op[of s1 p "operands op"] vopds_Some[OF p] by auto
  then show ?thesis using n i own by (simp add: replace_operand_def modify_op_def)
qed

definition self_cmds :: "(nat, nat) ir_cmd list" where
  "self_cmds = [NewOp 0 [] 0 [7] [] [], NewOp 1 [] 0 [7] [] [],
     PushOperand 0 \<lparr>val_uid = 0, defining_entity = OpDef 0\<rparr>]"

theorem replace_operand_self_panics_witness:
  "\<exists>s. ir_run (empty_ctx :: (nat, nat, nat) ctx) self_cmds = Some s
    \<and> replace_operand s 0 0 \<lparr>val_uid = 1, defining_entity = OpDef 1\<rparr> = None"
proof -
  define s where "s = the (ir_run (empty_ctx :: (nat, nat, nat) ctx) self_cmds)"
  have run: "ir_run (empty_ctx :: (nat, nat, nat) ctx) self_cmds = Some s"
    unfolding s_def by (rule sym, rule option.collapse) code_simp
  have ok: "ctx_ok s" by (rule run_ctx_ok[OF run]) (simp_all add: self_cmds_def)
  have "map_option operands (operations s 0) = Some [\<lparr>opd_def = \<lparr>val_uid = 0, defining_entity = OpDef 0\<rparr>, opd_uid = 0\<rparr>]"
    unfolding s_def by code_simp
  then obtain op where op: "operations s 0 = Some op" "operands op = [\<lparr>opd_def = \<lparr>val_uid = 0, defining_entity = OpDef 0\<rparr>, opd_uid = 0\<rparr>]"
    by auto
  have "replace_operand s 0 0 \<lparr>val_uid = 1, defining_entity = OpDef 1\<rparr> = None"
    using replace_operand_self_panics[OF op(1) _ _ ok, of 0] op(2) by simp
  then show ?thesis using run by blast
qed

end
