(* ===== verification/DfsEdges.thy ===== *)
theory DfsEdges
  imports Traversals
begin

text \<open>
  The edge kinds of \<^verbatim>\<open>DFSTraversal::edge_kind\<close> (\<^verbatim>\<open>src/src/graph/traversals.rs\<close>): on the edges of
  the graph its debug assertions hold, and the edges it calls \<open>Back\<close> are those that do not go
  strictly forward in reverse post-order. So the graph without them is acyclic, and still
  reaches every node from the entry.
\<close>

section \<open>Discovery order\<close>

definition found_before :: "'n list \<Rightarrow> 'n \<Rightarrow> 'n \<Rightarrow> bool" where
  "found_before disc x y \<longleftrightarrow> (\<exists>as bs. disc = as @ y # bs \<and> x \<in> set as)"

lemma found_before_nth:
  assumes "distinct disc" and "i < length disc" and "j < length disc"
  shows "found_before disc (disc ! i) (disc ! j) \<longleftrightarrow> i < j"
proof
  assume "i < j"
  moreover have "disc = take j disc @ disc ! j # drop (Suc j) disc" using assms(3) by (rule id_take_nth_drop)
  moreover have "disc ! i \<in> set (take j disc)"
    using \<open>i < j\<close> assms(3) by (auto simp: in_set_conv_nth intro!: exI[of _ i])
  ultimately show "found_before disc (disc ! i) (disc ! j)" unfolding found_before_def by blast
next
  assume "found_before disc (disc ! i) (disc ! j)"
  then obtain as bs where s: "disc = as @ disc ! j # bs" "disc ! i \<in> set as" by (auto simp: found_before_def)
  have "disc ! length as = disc ! j" using s(1) by (metis nth_append_length)
  moreover have l: "length as < length disc" by (subst s(1)) simp
  ultimately have "length as = j" using assms(1,3) by (simp add: nth_eq_iff_index_eq)
  moreover obtain k where k: "k < length as" "as ! k = disc ! i" using s(2) by (auto simp: in_set_conv_nth)
  have "disc ! k = disc ! i" using k s(1) by (metis nth_append)
  then have "k = i" using assms(1,2) k(1) l by (simp add: nth_eq_iff_index_eq)
  ultimately show "i < j" using k(1) by simp
qed

lemma found_before_snoc:
  assumes "s \<notin> set disc"
  shows "found_before (disc @ [s]) x y \<longleftrightarrow> found_before disc x y \<or> y = s \<and> x \<in> set disc"
proof
  assume "found_before (disc @ [s]) x y"
  then obtain as bs where s: "disc @ [s] = as @ y # bs" "x \<in> set as" by (auto simp: found_before_def)
  then show "found_before disc x y \<or> y = s \<and> x \<in> set disc"
    by (cases bs rule: rev_cases) (auto simp: found_before_def)
next
  assume "found_before disc x y \<or> y = s \<and> x \<in> set disc"
  then consider as bs where "disc = as @ y # bs" "x \<in> set as" | "y = s" "x \<in> set disc"
    by (auto simp: found_before_def)
  then show "found_before (disc @ [s]) x y"
    by cases (auto simp: found_before_def)
qed

lemma found_before_in: "found_before disc x y \<Longrightarrow> x \<in> set disc \<and> y \<in> set disc"
  by (auto simp: found_before_def)

lemma found_before_asym: "distinct disc \<Longrightarrow> found_before disc x y \<Longrightarrow> \<not> found_before disc y x"
  by (metis found_before_in found_before_nth in_set_conv_nth not_less_iff_gr_or_eq)

lemma found_before_insert:
  assumes "found_before (as @ bs) x y"
  shows "found_before (as @ s # bs) x y"
proof -
  obtain cs ds where c: "as @ bs = cs @ y # ds" "x \<in> set cs" using assms by (auto simp: found_before_def)
  then consider us where "as = cs @ us" "us @ bs = y # ds" | us where "cs = as @ us" "bs = us @ y # ds"
    by (auto simp: append_eq_append_conv2)
  then show ?thesis
  proof cases
    case 1
    have "found_before (cs @ s # y # ds) x y"
      unfolding found_before_def using c(2) by (intro exI[of _ "cs @ [s]"] exI[of _ ds]) simp
    then show ?thesis using 1 c(2) by (cases us) (auto simp: found_before_def)
  next
    case 2
    have "as @ s # bs = (as @ s # us) @ y # ds" using 2 by simp
    moreover have "x \<in> set (as @ s # us)" using c(2) 2 by auto
    ultimately show ?thesis unfolding found_before_def by blast
  qed
qed

text \<open>An edge to a node that finishes earlier: those the reduced graph keeps.\<close>

definition down_edge :: "'n cfg \<Rightarrow> 'n list \<Rightarrow> 'n \<Rightarrow> 'n \<Rightarrow> bool" where
  "down_edge g finish x y \<longleftrightarrow> edge g x y \<and> found_before finish y x"

lemma down_edge_insert:
  assumes "(down_edge g (as @ bs))\<^sup>*\<^sup>* x y"
  shows "(down_edge g (as @ s # bs))\<^sup>*\<^sup>* x y"
proof -
  have "down_edge g (as @ bs) \<le> down_edge g (as @ s # bs)"
    using found_before_insert[of as bs] by (auto simp: down_edge_def)
  then show ?thesis using assms by (meson predicate2D rtranclp_mono)
qed

text \<open>
  What the rounds keep: the open nodes are stacked in their order of discovery, a successor
  found after a finished node was finished before it, and a successor not finished before it
  reaches it along such edges; \<open>po @ map fst stack\<close> is the order in which the nodes finish.
\<close>

definition disc_inv :: "'n cfg \<Rightarrow> 'n list \<Rightarrow> ('n \<times> nat) list \<Rightarrow> 'n list \<Rightarrow> bool" where
  "disc_inv g disc stack po \<longleftrightarrow>
     sorted_wrt (\<lambda>x y. found_before disc y x) (map fst stack)
     \<and> (\<forall>as u bs. po = as @ u # bs \<longrightarrow> (\<forall>v. edge g u v \<longrightarrow> found_before disc u v \<longrightarrow> v \<in> set as))
     \<and> (\<forall>as u bs. po = as @ u # bs \<longrightarrow> (\<forall>v. edge g u v \<longrightarrow>
          v \<in> set as \<or> (down_edge g (po @ map fst stack))\<^sup>*\<^sup>* v u))"

lemma stack_down:
  assumes "stack_path g root (map fst stack)" and "stack = (n, i) # rest" and "w \<in> fst ` set stack"
  shows "(down_edge g (po @ map fst stack))\<^sup>*\<^sup>* w n"
proof -
  have "(down_edge g (po @ ns))\<^sup>*\<^sup>* w x" if "stack_path g root ns" "ns = x # ys" "w \<in> set ns" for po ns x ys
    using that
  proof (induction g root ns arbitrary: po x ys rule: stack_path.induct)
    case (3 g root u v ns')
    have "found_before (po @ u # v # ns') u v"
      unfolding found_before_def by (intro exI[of _ "po @ [u]"] exI[of _ ns']) simp
    then have uv: "down_edge g (po @ u # v # ns') v u" using "3.prems"(1) by (simp add: down_edge_def)
    show ?case
    proof (cases "w = u")
      case False
      then have "(down_edge g ((po @ [u]) @ v # ns'))\<^sup>*\<^sup>* w v" using "3.IH"[of v ns' "po @ [u]"] "3.prems" by auto
      then show ?thesis using uv "3.prems"(2) by simp
    qed (use "3.prems" in simp)
  qed auto
  then show ?thesis using assms by (metis fst_conv list.simps(9) list.set_map)
qed

lemma disc_push:
  assumes D: "disc_inv g disc ((n, i) # stack) po" and inv: "po_inv g root {} ((n, i) # stack) seen po"
    and disc: "set disc = seen" and s: "s \<notin> seen"
  shows "disc_inv g (disc @ [s]) ((s, 0) # (n, Suc i) # stack) po"
proof -
  have sn: "s \<notin> set disc" using disc s by simp
  have st: "fst ` set ((n, i) # stack) \<subseteq> set disc" using po_invD(1)[OF inv] disc by auto
  have sub: "found_before disc x y \<Longrightarrow> found_before (disc @ [s]) x y" for x y
    using found_before_snoc[OF sn] by blast
  have "sorted_wrt (\<lambda>x y. found_before disc y x) (map fst ((n, i) # stack))"
    using D unfolding disc_inv_def by (rule conjunct1)
  then have "sorted_wrt (\<lambda>x y. found_before (disc @ [s]) y x) (map fst ((n, i) # stack))"
    by (rule sorted_wrt_mono_rel[rotated]) (rule sub)
  moreover have "\<forall>x \<in> set (map fst ((n, i) # stack)). found_before (disc @ [s]) x s"
    using st found_before_snoc[OF sn] by auto
  moreover have "v \<in> set as" if "po = as @ u # bs" "edge g u v" "found_before (disc @ [s]) u v" for as u bs v
  proof -
    have "v \<in> seen" using po_invD(6)[OF inv] that(1,2) by auto
    then have "found_before disc u v" using that(3) found_before_snoc[OF sn] s by blast
    then show ?thesis using D that(1,2) unfolding disc_inv_def by blast
  qed
  moreover have "v \<in> set as \<or> (down_edge g (po @ map fst ((s, 0) # (n, Suc i) # stack)))\<^sup>*\<^sup>* v u"
    if "po = as @ u # bs" "edge g u v" for as u bs v
  proof -
    have "v \<in> set as \<or> (down_edge g (po @ map fst ((n, i) # stack)))\<^sup>*\<^sup>* v u"
      using D that unfolding disc_inv_def by blast
    then show ?thesis using down_edge_insert[of g po "map fst ((n, i) # stack)" v u s] by auto
  qed
  ultimately show ?thesis unfolding disc_inv_def by simp
qed

lemma disc_pop:
  assumes D: "disc_inv g disc ((n, i) # stack) po" and inv: "po_inv g root {} ((n, i) # stack) seen po"
    and disc: "set disc = seen" "distinct disc" and i: "\<not> i < num_successors g n"
  shows "disc_inv g disc stack (po @ [n])"
proof -
  have top: "\<forall>y \<in> set (map fst stack). found_before disc y n" and st: "sorted_wrt (\<lambda>x y. found_before disc y x) (map fst stack)"
    using D unfolding disc_inv_def by auto
  have last: "v \<in> set po" if "edge g n v" "found_before disc n v" for v
  proof -
    have "v \<in> set po \<union> fst ` set ((n, i) # stack)"
      using found_before_in[OF that(2)] disc(1) po_invD(1)[OF inv] by simp
    moreover have "\<not> found_before disc v n" using found_before_asym[OF disc(2) that(2)] .
    moreover have "v \<noteq> n" using found_before_asym[OF disc(2) that(2)] that(2) by blast
    ultimately show ?thesis using top by auto
  qed
  have "v \<in> set as" if "po @ [n] = as @ u # bs" "edge g u v" "found_before disc u v" for as u bs v
  proof (cases bs rule: rev_cases)
    case Nil
    then show ?thesis using that last by simp
  next
    case (snoc cs z)
    then have "po = as @ u # cs" using that(1) by simp
    then show ?thesis using D that(2,3) unfolding disc_inv_def by blast
  qed
  moreover have "v \<in> set as \<or> (down_edge g ((po @ [n]) @ map fst stack))\<^sup>*\<^sup>* v u"
    if "po @ [n] = as @ u # bs" "edge g u v" for as u bs v
  proof (cases bs rule: rev_cases)
    case Nil
    have "v \<in> seen" using po_invD(5)[OF inv] i that(2) Nil that(1) by (auto simp: edge_nth stack_ok_def)
    then have "v \<in> set po \<or> v \<in> fst ` set ((n, i) # stack)" using po_invD(1)[OF inv] by auto
    then show ?thesis using stack_down[OF po_invD(7)[OF inv] refl, of v po] Nil that(1) by auto
  next
    case (snoc cs z)
    then have "po = as @ u # cs" using that(1) by simp
    then show ?thesis using D that(2) unfolding disc_inv_def by simp
  qed
  ultimately show ?thesis using st unfolding disc_inv_def by blast
qed

text \<open>The numbered walk keeps it; \<open>map fst t\<close> is the order of discovery.\<close>

lemma dfs_loop_disc:
  assumes "wf_cfg g" and "po_inv g root {} stack seen po" and "dfs_rel t pre post seen po"
    and "disc_inv g (map fst t) stack po"
  shows "\<exists>pre' post' t' seen' po'. dfs_loop g stack pre post t = Some (pre', post', t')
    \<and> po_loop g stack seen po = Some (seen', po') \<and> dfs_rel t' pre' post' seen' po'
    \<and> disc_inv g (map fst t') [] po'"
  using assms
proof (induction arbitrary: t pre post rule: dfs_walk_induct)
  case (fin seen po)
  then show ?case by (simp add: dfs_loop.simps po_loop.simps)
next
  case (push n i stack seen po)
  have "set po \<subseteq> seen" using po_invD(1)[OF push(1)] by auto
  then obtain t' where t': "dfs_visit (get_successor g n i) pre t = Some t'"
      "dfs_rel t' (pre + 1) post (insert (get_successor g n i) seen) po"
    using dfs_visit_rel[OF push.prems(1)] push(3) by blast
  have seen: "fst ` set t = seen" using push.prems(1) by (simp add: dfs_rel_def)
  then have "get_successor g n i \<notin> fst ` set t" using push(3) by simp
  then have "map_of t (get_successor g n i) = None" "\<And>v. map fst (AList.update (get_successor g n i) v t) = map fst t @ [get_successor g n i]"
    by (simp_all add: map_of_eq_None_iff update_keys)
  then have "map fst t' = map fst t @ [get_successor g n i]" using t'(1) by (auto simp: dfs_visit_def)
  then have "disc_inv g (map fst t') ((get_successor g n i, 0) # (n, Suc i) # stack) po"
    using disc_push[OF push.prems(2) push(1) _ push(3)] seen by simp
  from push.IH[OF t'(2) this] t'(1) seen show ?case using push(2,3)
    by (simp add: dfs_loop.simps[of g "(n, i) # stack"] po_loop.simps[of g "(n, i) # stack"] Let_def)
next
  case (skip n i stack seen po)
  moreover have "fst ` set t = seen" using skip.prems(1) by (simp add: dfs_rel_def)
  moreover have "disc_inv g (map fst t) ((n, Suc i) # stack) po" using skip.prems(2) by (simp add: disc_inv_def)
  ultimately show ?case
    by (simp add: dfs_loop.simps[of g "(n, i) # stack"] po_loop.simps[of g "(n, i) # stack"] Let_def)
next
  case (pop n i stack seen po)
  have n: "n \<in> seen" "n \<notin> set po" using po_invD(1,2)[OF pop(1)] by auto
  obtain d where d: "map_of t n = Some d"
      "dfs_rel (AList.update n (d\<lparr>post_order_number := post\<rparr>) t) pre (post + 1) seen (po @ [n])"
    using dfs_finish_rel[OF pop.prems(1) n] by blast
  have "fst ` set t = seen" "distinct (map fst t)" using pop.prems(1) by (simp_all add: dfs_rel_def)
  then have "disc_inv g (map fst t) stack (po @ [n])"
    using disc_pop[OF pop.prems(2) pop(1) _ _ pop(2)] by simp
  moreover have "map fst (AList.update n v t) = map fst t" for v
    using n(1) \<open>fst ` set t = seen\<close> by (simp add: update_keys)
  ultimately show ?case using pop.IH[OF d(2)] d(1) pop(2)
    by (simp add: dfs_loop.simps[of g "(n, i) # stack"] po_loop.simps[of g "(n, i) # stack"] Let_def)
qed

section \<open>Edge kinds\<close>

definition numbered :: "'n cfg \<Rightarrow> 'n \<Rightarrow> 'n dfs_tree \<Rightarrow> 'n list \<Rightarrow> bool" where
  "numbered g e t po \<longleftrightarrow> distinct po \<and> set po = {v. reaches g e v} \<and> fst ` set t = set po
    \<and> distinct (map fst t) \<and> dfs_reverse_post_order t = Some (rev po) \<and> dfs_pre_order t = Some (map fst t)
    \<and> rpo_of g e (rev po)
    \<and> (\<forall>i < length t. pre_number_of t (map fst t ! i) = Some i)
    \<and> (\<forall>i < length po. post_number_of t (po ! i) = Some i)
    \<and> disc_inv g (map fst t) [] po"

lemma dfs_traversal_numbered:
  assumes wf: "wf_cfg g" and e: "entry_node g = Some e"
  shows "\<exists>t po. dfs_traversal g = Some t \<and> numbered g e t po"
proof -
  have en: "e \<in> set (graph_nodes g)" using wf_cfgD(4)[OF assms] by auto
  obtain t po where t: "dfs_traversal g = Some t" "component_of g {} po" "last po = e"
      "post_order_walk_component g e {} [] = Some (set po, po)"
      "distinct (map fst t)" "fst ` set t = set po"
      "dfs_reverse_post_order t = Some (rev po)" "dfs_pre_order t = Some (map fst t)"
    using dfs_traversal_returns[OF assms] by blast
  obtain t0 where t0: "dfs_visit e 0 [] = Some t0" "dfs_rel t0 1 0 {e} []"
    using dfs_visit_rel[of "[]" 0 0 "{}" "[]" e] by (auto simp: dfs_rel_def)
  have "disc_inv g (map fst t0) [(e, 0)] []" by (simp add: disc_inv_def)
  then obtain pre post t1 where t1: "dfs_loop g [(e, 0)] 1 0 t0 = Some (pre, post, t1)"
      "dfs_rel t1 pre post (set po) po" "disc_inv g (map fst t1) [] po"
    using dfs_loop_disc[OF wf po_inv_start[OF en, of "{}"] t0(2)] t(4)
    by (auto simp: post_order_walk_component_def)
  have fill: "fill_rpos (length t1) t1 = Some t" using t(1) e t0(1) t1(1) by (simp add: dfs_traversal_def dfs_walk_def)
  have look: "map fst t = map fst t1 \<and> (\<forall>k. map_option pre_order_number (map_of t k) = map_option pre_order_number (map_of t1 k)
      \<and> map_option post_order_number (map_of t k) = map_option post_order_number (map_of t1 k))"
    if "fill_rpos m t1 = Some t" for m t1 t
    using that by (induction m t1 arbitrary: t rule: fill_rpos.induct)
      (auto simp: fill_rpo_def split: Option.bind_splits if_splits)
  note L = look[OF fill]
  have len: "length t = length t1" using L by (metis length_map)
  have "pre_number_of t (map fst t ! i) = Some i" if "i < length t" for i
  proof -
    obtain k d where kd: "t1 ! i = (k, d)" by fastforce
    have "map (\<lambda>(k, d). pre_order_number d) t1 ! i = i"
      using t1(2) that len unfolding dfs_rel_def by simp
    then have "pre_order_number d = i" using kd that len by simp
    moreover have "(k, d) \<in> set t1" using kd that len nth_mem by force
    ultimately show ?thesis using L that len kd t1(2) by (simp add: pre_number_of_def dfs_rel_def)
  qed
  moreover have "post_number_of t (po ! i) = Some i" if "i < length po" for i
    using t1(2) that L by (force simp: post_number_of_def dfs_rel_def)
  moreover have "distinct po" using component_ofD(2)[OF t(2)] .
  moreover have "set po = {v. reaches g e v}" using first_component_set[OF t(2)] t(3) by simp
  moreover have "rpo_of g e (rev po)" using first_component_rpo[OF t(2)] t(3) by simp
  moreover have "disc_inv g (map fst t) [] po" using t1(3) L by simp
  ultimately show ?thesis using t(1,5-8) unfolding numbered_def by blast
qed

lemma edge_kind_numbered:
  assumes N: "numbered g e t po" and i: "i < length po" and j: "j < length po"
    and edge: "edge g (rev po ! i) (rev po ! j)"
  shows "\<exists>k. edge_kind t (rev po ! i) (rev po ! j) = Some k \<and> (k = Back \<longleftrightarrow> j \<le> i)"
proof -
  note N' = N[unfolded numbered_def]
  let ?n = "length po" and ?u = "rev po ! i" and ?v = "rev po ! j"
  have len: "length (map fst t) = ?n" 
    using N' distinct_card[of po] distinct_card[of "map fst t"] by simp
  have post: "post_number_of t ?u = Some (?n - Suc i)" "post_number_of t ?v = Some (?n - Suc j)"
    using N' i j by (simp_all add: rev_nth)
  have "?u \<in> set (map fst t)" "?v \<in> set (map fst t)" using N' i j nth_mem[of _ "rev po"] by auto
  then obtain a b where ab: "a < length t" "b < length t" "map fst t ! a = ?u" "map fst t ! b = ?v"
    by (auto simp only: in_set_conv_nth length_map)
  have pre: "pre_number_of t ?u = Some a" "pre_number_of t ?v = Some b" using N' ab by metis+
  have dp: "distinct (rev po)" using N' by simp
  have dt: "distinct (map fst t)" using N' by blast
  have eq: "a = b \<longleftrightarrow> i = j"
    using nth_eq_iff_index_eq[OF dt, of a b] nth_eq_iff_index_eq[OF dp, of i j] ab i j by simp
  have less: "i < j" if "a < b"
  proof -
    have "found_before (map fst t) ?u ?v" using found_before_nth[OF dt, of a b] ab that by simp
    moreover have "po = take (?n - Suc i) po @ ?u # drop (Suc (?n - Suc i)) po"
      using i by (simp add: rev_nth id_take_nth_drop)
    ultimately have "?v \<in> set (take (?n - Suc i) po)" using N' edge unfolding disc_inv_def by blast
    then obtain k where "k < ?n - Suc i" "po ! k = ?v" by (auto simp: in_set_conv_nth)
    moreover from this have "k = ?n - Suc j" using N' j nth_eq_iff_index_eq[of po k "?n - Suc j"] by (simp add: rev_nth)
    ultimately show ?thesis by linarith
  qed
  consider "a = b" | "a < b" | "b < a" by linarith
  then show ?thesis
  proof cases
    case 1
    then show ?thesis using eq pre post by (simp add: edge_kind_def)
  next
    case 2
    then have "i < j" by (rule less)
    then have "?n - Suc j < ?n - Suc i" "?n - Suc i \<noteq> ?n - Suc j" using j by linarith+
    then show ?thesis using 2 pre post \<open>i < j\<close> by (simp add: edge_kind_def)
  next
    case 3
    then have ne: "i \<noteq> j" "a \<noteq> b" using eq by auto
    then have "?n - Suc i \<noteq> ?n - Suc j" "?n - Suc i < ?n - Suc j \<longleftrightarrow> j \<le> i" using i j by linarith+
    then show ?thesis using 3 pre post ne by (auto simp: edge_kind_def)
  qed
qed

lemma found_before_rev:
  assumes "distinct po" and "i < length po" and "j < length po"
  shows "found_before po (rev po ! j) (rev po ! i) \<longleftrightarrow> i < j"
  using found_before_nth[OF assms(1), of "length po - Suc j" "length po - Suc i"] assms
  by (auto simp: rev_nth)

text \<open>The edges that go forward in an order, between its positions.\<close>

definition ahead :: "'n cfg \<Rightarrow> 'n list \<Rightarrow> nat \<Rightarrow> nat \<Rightarrow> bool" where
  "ahead g ord i j \<longleftrightarrow> i < j \<and> j < length ord \<and> edge g (ord ! i) (ord ! j)"

lemma ahead_le: "(ahead g ord)\<^sup>*\<^sup>* i j \<Longrightarrow> i \<le> j"
  by (induction rule: rtranclp_induct) (auto simp: ahead_def)

text \<open>The target of a back edge reaches its source along edges that go forward.\<close>

lemma back_edge_cycle:
  assumes N: "numbered g e t po" and i: "i < length po" and j: "j \<le> i"
    and edge: "edge g (rev po ! i) (rev po ! j)"
  shows "(ahead g (rev po))\<^sup>*\<^sup>* j i"
proof -
  note N' = N[unfolded numbered_def]
  let ?n = "length po" and ?as = "take (length po - Suc i) po"
  have dp: "distinct po" using N' by blast
  have split: "po = ?as @ rev po ! i # drop (Suc (?n - Suc i)) po" using i by (simp add: rev_nth id_take_nth_drop)
  have "rev po ! j \<notin> set ?as"
  proof
    assume "rev po ! j \<in> set ?as"
    then obtain k where k: "k < ?n - Suc i" "po ! k = rev po ! j" by (auto simp: in_set_conv_nth)
    then have "k = ?n - Suc j" using dp i j nth_eq_iff_index_eq[of po k "?n - Suc j"] by (simp add: rev_nth)
    then show False using k(1) j i by linarith
  qed
  moreover have "v \<in> set as \<or> (down_edge g po)\<^sup>*\<^sup>* v u" if "po = as @ u # bs" "edge g u v" for as u bs v
    using N' that unfolding disc_inv_def append_Nil2 list.map by blast
  from this[OF split edge] have "rev po ! j \<in> set ?as \<or> (down_edge g po)\<^sup>*\<^sup>* (rev po ! j) (rev po ! i)" .
  ultimately have dn: "(down_edge g po)\<^sup>*\<^sup>* (rev po ! j) (rev po ! i)" by blast
  have "\<forall>a < ?n. rev po ! a = x \<longrightarrow> (\<exists>b < ?n. rev po ! b = y \<and> (ahead g (rev po))\<^sup>*\<^sup>* a b)"
    if "(down_edge g po)\<^sup>*\<^sup>* x y" for x y
    using that
  proof (induction rule: rtranclp_induct)
    case (step y z)
    show ?case
    proof (intro allI impI)
      fix a assume "a < ?n" "rev po ! a = x"
      then obtain b where b: "b < ?n" "rev po ! b = y" "(ahead g (rev po))\<^sup>*\<^sup>* a b" using step.IH by blast
      have z: "edge g y z" "found_before po z y" using step.hyps(2) by (simp_all add: down_edge_def)
      then have "z \<in> set (rev po)" using found_before_in[OF z(2)] by simp
      then obtain c where c: "c < ?n" "rev po ! c = z" by (auto simp only: in_set_conv_nth length_rev)
      have "b < c" using z(2) found_before_rev[OF dp b(1) c(1)] b(2) c(2) by simp
      then have "ahead g (rev po) b c" using z(1) b(2) c by (simp add: ahead_def)
      then show "\<exists>b < ?n. rev po ! b = z \<and> (ahead g (rev po))\<^sup>*\<^sup>* a b"
        using c rtranclp.rtrancl_into_rtrancl[OF b(3)] by blast
    qed
  qed blast
  from this[OF dn] obtain b where b: "b < ?n" "rev po ! b = rev po ! i" "(ahead g (rev po))\<^sup>*\<^sup>* j b"
    using le_less_trans[OF j i] by blast
  then have "b = i" using dp i nth_eq_iff_index_eq[of "rev po" b i] by simp
  then show ?thesis using b(3) by simp
qed

text \<open>
  On every edge between nodes the entry reaches, the debug assertions of \<open>edge_kind\<close> hold. It
  answers \<open>Back\<close> exactly when the target does not come strictly later in reverse post-order,
  and then the target reaches the source along edges that do go forward: the back edge closes a cycle.
\<close>

theorem edge_kinds_correct:
  assumes "wf_cfg g" and "entry_node g = Some e"
  shows "\<exists>t rpo. dfs_traversal g = Some t \<and> dfs_reverse_post_order t = Some rpo
    \<and> (\<forall>i < length rpo. \<forall>j < length rpo. edge g (rpo ! i) (rpo ! j) \<longrightarrow>
         (\<exists>k. edge_kind t (rpo ! i) (rpo ! j) = Some k \<and> (k = Back \<longleftrightarrow> j \<le> i)
            \<and> (k = Back \<longrightarrow> (ahead g rpo)\<^sup>*\<^sup>* j i)))"
proof -
  obtain t po where t: "dfs_traversal g = Some t" "numbered g e t po"
    using dfs_traversal_numbered[OF assms] by blast
  have "\<exists>k. edge_kind t (rev po ! i) (rev po ! j) = Some k \<and> (k = Back \<longleftrightarrow> j \<le> i)
      \<and> (k = Back \<longrightarrow> (ahead g (rev po))\<^sup>*\<^sup>* j i)"
    if "i < length po" "j < length po" "edge g (rev po ! i) (rev po ! j)" for i j
    using edge_kind_numbered[OF t(2) that] back_edge_cycle[OF t(2) that(1) _ that(3)] by blast
  then show ?thesis using t(1) t(2)[unfolded numbered_def] by auto
qed

theorem edge_kinds_correct_witness:
  "\<exists>t rpo. dfs_traversal demo_cfg = Some t \<and> dfs_reverse_post_order t = Some rpo
    \<and> (\<forall>i < length rpo. \<forall>j < length rpo. edge demo_cfg (rpo ! i) (rpo ! j) \<longrightarrow>
         (\<exists>k. edge_kind t (rpo ! i) (rpo ! j) = Some k \<and> (k = Back \<longleftrightarrow> j \<le> i)))"
  using edge_kinds_correct[OF demo_cfg_wf demo_cfg_entry] by blast

end
