(* ===== verification/Liveness.thy ===== *)
theory Liveness
  imports DfsEdges DomTree
begin

text \<open>
  Model of \<open>LivenessTq\<close>, the precomputation and the block queries of \<^verbatim>\<open>src/src/analyses/liveness.rs\<close>,
  over any control-flow graph. Bit sets are sets of numbers, enumerated in increasing order
  (\<open>bits\<close>); a vector of bit sets is a list. Indexing out of range, a block the map does not know,
  and a failed assertion in \<open>edge_kind\<close> are \<open>None\<close>.
\<close>

section \<open>The precomputation\<close>

definition bits :: "nat set \<Rightarrow> nat list" where
  "bits A = sorted_list_of_set A"

definition union_all :: "nat set list \<Rightarrow> nat set" where
  "union_all As = \<Union> (set As)"

record ('r, 'n) liveness_tq =
  lv_region :: 'r
  lv_is_reducible :: bool
  lv_sdom_tree :: "nat set list"
  lv_block_to_index :: "'n \<rightharpoonup> nat"
  lv_reduced_reachability :: "nat set list"
  lv_tq_sets :: "nat set list"
  lv_back_edge_targets :: "nat set"

text \<open>The post-order callback of \<open>dom_tree_to_sdom_tree\<close>: children first, so their sets are complete.\<close>

definition sdom_post ::
    "('n \<rightharpoonup> nat) \<Rightarrow> 'n dom_tree \<Rightarrow> nat set list \<Rightarrow> 'n \<Rightarrow> (nat set list \<times> unit walk_result) option"
where
  "sdom_post block_to_index dom_tree sdom_tree block = do {
     block_idx \<leftarrow> block_to_index block;
     children \<leftarrow> dt_children dom_tree block;
     child_indices \<leftarrow> omap block_to_index children;
     children_sdom_tree \<leftarrow> omap (oget sdom_tree) child_indices;
     ocheck (block_idx < length sdom_tree);
     Some (sdom_tree[block_idx := union_all children_sdom_tree \<union> set child_indices], Continue Advance)
   }"

definition dom_tree_to_sdom_tree :: "nat \<Rightarrow> ('n \<rightharpoonup> nat) \<Rightarrow> 'n dom_tree \<Rightarrow> nat set list option" where
  "dom_tree_to_sdom_tree n block_to_index dom_tree =
     map_option fst (dt_walk dom_tree direction.Forward (\<lambda>s _. Some (s, Continue Advance))
       (sdom_post block_to_index dom_tree) (replicate n {}))"

text \<open>The edges of the reduced graph and the back edges, collected by the two nested loops.\<close>

record edge_sets =
  es_reduced_successors :: "nat set list"
  es_back_edge_targets :: "nat set"
  es_back_edges_by_source :: "nat list list"
  all_reducible :: bool

fun collect_succs ::
    "'n dfs_tree \<Rightarrow> ('n \<rightharpoonup> nat) \<Rightarrow> nat set list \<Rightarrow> nat \<Rightarrow> 'n \<Rightarrow> 'n list \<Rightarrow> edge_sets \<Rightarrow> edge_sets option"
where
  "collect_succs dfs block_to_index sdom_tree src_idx src [] es = Some es"
| "collect_succs dfs block_to_index sdom_tree src_idx src (succ # succs) es = do {
     dst_idx \<leftarrow> block_to_index succ;
     kind \<leftarrow> edge_kind dfs src succ;
     es \<leftarrow> (if kind = Back then do {
         targets \<leftarrow> oget (es_back_edges_by_source es) src_idx;
         let es = es\<lparr>es_back_edges_by_source := (es_back_edges_by_source es)[src_idx := targets @ [dst_idx]],
           es_back_edge_targets := insert dst_idx (es_back_edge_targets es)\<rparr>;
         irreducible \<leftarrow> (if dst_idx \<noteq> src_idx
           then map_option (\<lambda>sdom. src_idx \<notin> sdom) (oget sdom_tree dst_idx) else Some False);
         Some (if irreducible then es\<lparr>all_reducible := False\<rparr> else es)
       }
       else do {
         rs \<leftarrow> oget (es_reduced_successors es) src_idx;
         Some (es\<lparr>es_reduced_successors := (es_reduced_successors es)[src_idx := insert dst_idx rs]\<rparr>)
       });
     collect_succs dfs block_to_index sdom_tree src_idx src succs es
   }"

fun collect_edges ::
    "'n cfg \<Rightarrow> 'n dfs_tree \<Rightarrow> ('n \<rightharpoonup> nat) \<Rightarrow> nat set list \<Rightarrow> (nat \<times> 'n) list \<Rightarrow> edge_sets \<Rightarrow> edge_sets option"
where
  "collect_edges g dfs block_to_index sdom_tree [] es = Some es"
| "collect_edges g dfs block_to_index sdom_tree ((src_idx, src) # blocks) es = do {
     es \<leftarrow> collect_succs dfs block_to_index sdom_tree src_idx src (successors g src) es;
     collect_edges g dfs block_to_index sdom_tree blocks es
   }"

text \<open>Reduced reachability, from the last block to the first.\<close>

fun reduced_loop :: "nat set list \<Rightarrow> nat list \<Rightarrow> nat set list \<Rightarrow> nat set list option" where
  "reduced_loop reduced_successors [] res = Some res"
| "reduced_loop reduced_successors (node # rest) res = do {
     succs \<leftarrow> oget reduced_successors node;
     reach \<leftarrow> omap (oget res) (bits succs);
     reduced_loop reduced_successors rest (res[node := insert node (union_all reach)])
   }"

definition compute_reduced_reachability :: "nat set list \<Rightarrow> nat set list option" where
  "compute_reduced_reachability reduced_successors =
     (let n = length reduced_successors
      in reduced_loop reduced_successors (rev [0..<n]) (replicate n {}))"

definition compute_t_up_sets :: "nat set list \<Rightarrow> nat list list \<Rightarrow> nat set list option" where
  "compute_t_up_sets reduced_reachability back_edges_by_source =
     omap (\<lambda>r_t. do {
       targets \<leftarrow> omap (oget back_edges_by_source) (bits r_t);
       Some (set (concat targets) - r_t)
     }) reduced_reachability"

text \<open>The three phases of \<open>compute_tq_sets\<close>; \<open>computed\<close> marks what the first two did.\<close>

fun tq_phase1 ::
    "nat set list \<Rightarrow> nat list \<Rightarrow> nat set list \<Rightarrow> bool list \<Rightarrow> (nat set list \<times> bool list) option"
where
  "tq_phase1 t_up_sets [] tq_sets computed = Some (tq_sets, computed)"
| "tq_phase1 t_up_sets (t # ts) tq_sets computed = do {
     t_up \<leftarrow> oget t_up_sets t;
     tqs \<leftarrow> omap (oget tq_sets) (bits t_up);
     ocheck (t < length tq_sets \<and> t < length computed);
     tq_phase1 t_up_sets ts (tq_sets[t := insert t (union_all tqs)]) (computed[t := True])
   }"

fun tq_phase2 ::
    "nat list list \<Rightarrow> nat list \<Rightarrow> nat set list \<Rightarrow> bool list \<Rightarrow> (nat set list \<times> bool list) option"
where
  "tq_phase2 back_edges_by_source [] tq_sets computed = Some (tq_sets, computed)"
| "tq_phase2 back_edges_by_source (s # ss) tq_sets computed = do {
     tq \<leftarrow> oget tq_sets s;
     targets \<leftarrow> oget back_edges_by_source s;
     tqs \<leftarrow> omap (oget tq_sets) targets;
     ocheck (s < length computed);
     tq_phase2 back_edges_by_source ss (tq_sets[s := union_all (tq # tqs)]) (computed[s := True])
   }"

fun tq_phase3 :: "nat set list \<Rightarrow> nat list \<Rightarrow> nat set list \<Rightarrow> nat set list option" where
  "tq_phase3 reduced_successors [] tq_sets = Some tq_sets"
| "tq_phase3 reduced_successors (q # qs) tq_sets = do {
     succs \<leftarrow> oget reduced_successors q;
     tqs \<leftarrow> omap (oget tq_sets) (bits succs);
     ocheck (q < length tq_sets);
     tq_phase3 reduced_successors qs (tq_sets[q := union_all tqs])
   }"

definition compute_tq_sets ::
    "nat set list \<Rightarrow> nat set list \<Rightarrow> nat list list \<Rightarrow> nat set \<Rightarrow> nat list \<Rightarrow> nat list \<Rightarrow> nat set list option"
where
  "compute_tq_sets t_up_sets reduced_successors back_edges_by_source back_edge_targets dfs_preorder dfs_postorder =
     (let n = length t_up_sets in do {
       (tq_sets, computed) \<leftarrow> tq_phase1 t_up_sets (filter (\<lambda>t. t \<in> back_edge_targets) dfs_preorder)
         (replicate n {}) (replicate n False);
       sources \<leftarrow> omap (\<lambda>s. map_option (\<lambda>ts. (s, ts)) (oget back_edges_by_source s)) dfs_preorder;
       (tq_sets, computed) \<leftarrow> tq_phase2 back_edges_by_source
         (map fst (filter (\<lambda>(s, ts). ts \<noteq> []) sources)) tq_sets computed;
       left \<leftarrow> omap (\<lambda>q. map_option (\<lambda>c. (q, c)) (oget computed q)) dfs_postorder;
       tq_sets \<leftarrow> tq_phase3 reduced_successors (map fst (filter (\<lambda>(q, c). \<not> c) left)) tq_sets;
       Some (map (\<lambda>(v, tv). insert v tv) (enumerate 0 tq_sets))
     })"

definition liveness_new :: "'r \<Rightarrow> 'n cfg \<Rightarrow> 'n dom_tree \<Rightarrow> ('r, 'n) liveness_tq option" where
  "liveness_new region g dom_tree = do {
     dfs \<leftarrow> dfs_traversal g;
     blocks \<leftarrow> dfs_reverse_post_order dfs;
     let n = length blocks;
     let block_to_index = index_of blocks;
     sdom_tree \<leftarrow> dom_tree_to_sdom_tree n block_to_index dom_tree;
     es \<leftarrow> collect_edges g dfs block_to_index sdom_tree (enumerate 0 blocks)
       \<lparr>es_reduced_successors = replicate n {}, es_back_edge_targets = {},
        es_back_edges_by_source = replicate n [], all_reducible = True\<rparr>;
     reduced_reachability \<leftarrow> compute_reduced_reachability (es_reduced_successors es);
     t_up_sets \<leftarrow> compute_t_up_sets reduced_reachability (es_back_edges_by_source es);
     preorder \<leftarrow> dfs_pre_order dfs;
     dfs_preorder \<leftarrow> omap block_to_index preorder;
     dfs_postorder \<leftarrow> omap block_to_index (rev blocks);
     tq_sets \<leftarrow> compute_tq_sets t_up_sets (es_reduced_successors es) (es_back_edges_by_source es)
       (es_back_edge_targets es) dfs_preorder dfs_postorder;
     Some \<lparr>lv_region = region, lv_is_reducible = all_reducible es, lv_sdom_tree = sdom_tree,
       lv_block_to_index = block_to_index, lv_reduced_reachability = reduced_reachability,
       lv_tq_sets = tq_sets, lv_back_edge_targets = es_back_edge_targets es\<rparr>
   }"

section \<open>The block queries\<close>

text \<open>
  \<open>use_blocks\<close> is the result of \<open>use_blocks_in_region\<close>: the indices of the blocks with uses, or
  \<open>None\<close> when a use cannot be analysed.
\<close>

definition reaches_use :: "('r, 'n) liveness_tq \<Rightarrow> nat set \<Rightarrow> nat \<Rightarrow> bool option" where
  "reaches_use lv use_blocks t =
     map_option (\<lambda>r. r \<inter> use_blocks \<noteq> {}) (oget (lv_reduced_reachability lv) t)"

text \<open>\<open>reduce\<close> over the candidates: the first one, replaced whenever it does not strictly dominate the next.\<close>

fun all_dominator :: "nat set list \<Rightarrow> nat \<Rightarrow> nat list \<Rightarrow> nat option" where
  "all_dominator sdom_tree dom1 [] = Some dom1"
| "all_dominator sdom_tree dom1 (dom2 # rest) = do {
     sdom \<leftarrow> oget sdom_tree dom1;
     all_dominator sdom_tree (if dom2 \<in> sdom then dom1 else dom2) rest
   }"

definition live_in_query :: "('r, 'n) liveness_tq \<Rightarrow> 'n \<Rightarrow> 'n \<Rightarrow> nat set option \<Rightarrow> bool option" where
  "live_in_query lv def_block query_block use_blocks =
     (case (lv_block_to_index lv def_block, lv_block_to_index lv query_block) of
        (Some def_idx, Some query_idx) \<Rightarrow>
          (case use_blocks of
             None \<Rightarrow> Some True
           | Some use_blocks \<Rightarrow> do {
               sdom \<leftarrow> oget (lv_sdom_tree lv) def_idx;
               if query_idx \<notin> sdom \<or> use_blocks = {} then Some False
               else do {
                 tq \<leftarrow> oget (lv_tq_sets lv) query_idx;
                 let t_q_a = bits (tq \<inter> sdom);
                 if lv_is_reducible lv then
                   (case t_q_a of
                      [] \<Rightarrow> None
                    | t # ts \<Rightarrow> do {
                        top \<leftarrow> all_dominator (lv_sdom_tree lv) t ts;
                        reaches_use lv use_blocks top
                      })
                 else oany (reaches_use lv use_blocks) t_q_a
               }
             })
      | _ \<Rightarrow> Some False)"

definition live_out_query :: "('r, 'n) liveness_tq \<Rightarrow> 'n \<Rightarrow> 'n \<Rightarrow> nat set option \<Rightarrow> bool option" where
  "live_out_query lv def_block query_block use_blocks =
     (case (lv_block_to_index lv def_block, lv_block_to_index lv query_block) of
        (Some def_idx, Some query_idx) \<Rightarrow>
          (case use_blocks of
             None \<Rightarrow> Some True
           | Some use_blocks \<Rightarrow>
               if def_block = query_block then Some (\<exists>u \<in> use_blocks. u \<noteq> query_idx)
               else do {
                 sdom \<leftarrow> oget (lv_sdom_tree lv) def_idx;
                 if query_idx \<notin> sdom \<or> use_blocks = {} then Some False
                 else do {
                   tq \<leftarrow> oget (lv_tq_sets lv) query_idx;
                   let t_q_a = tq \<inter> sdom;
                   if query_idx \<in> t_q_a \<and> query_idx \<notin> lv_back_edge_targets lv then do {
                     found \<leftarrow> reaches_use lv (use_blocks - {query_idx}) query_idx;
                     if found then Some True
                     else oany (reaches_use lv use_blocks) (bits (t_q_a - {query_idx}))
                   }
                   else oany (reaches_use lv use_blocks) (bits t_q_a)
                 }
               })
      | _ \<Rightarrow> Some False)"

end
