(* ===== verification/LiveSets.thy ===== *)
theory LiveSets
  imports Liveness
begin

text \<open>
  What the precomputation of \<open>Liveness\<close> computes, in terms of the graph and the positions in reverse
  post-order: strict dominance, the edges of the reduced graph and the back edges, reduced
  reachability, and bounds on the sets \<open>T_up\<close> and \<open>T_q\<close>. That it does not panic is part of each lemma.
\<close>

lemma omap_oget: "(\<And>i. i \<in> set is \<Longrightarrow> i < length xs) \<Longrightarrow> omap (oget xs) is = Some (map ((!) xs) is)"
  by (rule omap_Some) simp

lemma set_bits [simp]: "finite A \<Longrightarrow> set (bits A) = A"
  by (simp add: bits_def)

lemma union_all_map [simp]: "union_all (map f xs) = (\<Union>x \<in> set xs. f x)"
  by (simp add: union_all_def)

section \<open>Strict dominance\<close>

fun subtrees :: "'n rtree \<Rightarrow> 'n rtree set" where
  "subtrees (RNode n ts) = insert (RNode n ts) (\<Union>t \<in> set ts. subtrees t)"

lemma subtrees_self: "t \<in> subtrees t"
  by (cases t) simp

lemma rt_root_node: "rt_root t \<in> set (rt_nodes t)"
  by (cases t) simp

lemma rt_subtree_of_node: "v \<in> set (rt_nodes t) \<Longrightarrow> \<exists>u \<in> subtrees t. rt_root u = v"
  by (induction t) auto

lemma subtrees_tree_in: "tree_in m t \<Longrightarrow> u \<in> subtrees t \<Longrightarrow> tree_in m u"
  by (induction t) auto

lemma tree_in_unique:
  "tree_in m t \<Longrightarrow> tree_in m u \<Longrightarrow> rt_root t = rt_root u \<Longrightarrow> t = u"
proof (induction t arbitrary: u)
  case (RNode n ts)
  obtain us where u: "u = RNode n us" using RNode.prems(3) by (cases u) simp
  have r: "map rt_root ts = map rt_root us" using RNode.prems(1,2) u by auto
  then have len: "length ts = length us" by (metis length_map)
  have "ts ! i = us ! i" if "i < length ts" for i
  proof (rule RNode.IH)
    show "ts ! i \<in> set ts" using that by simp
    show "tree_in m (ts ! i)" "tree_in m (us ! i)" using RNode.prems(1,2) u that len by auto
    show "rt_root (ts ! i) = rt_root (us ! i)" using r that len by (metis nth_map)
  qed
  then show ?case using u len by (simp add: list_eq_iff_nth_eq)
qed

lemma sdom_post_node:
  assumes "distinct blocks" and "length s = length blocks" and "i < length blocks" and "blocks ! i = n"
    and "dt_lookup dt n = Some dn" and "dn_children dn = map rt_root ts"
    and "\<forall>t \<in> set ts. set (rt_nodes t) \<subseteq> set blocks"
    and "\<And>t j. t \<in> set ts \<Longrightarrow> j < length blocks \<Longrightarrow> blocks ! j = rt_root t \<Longrightarrow>
        s ! j = {k. k < length blocks \<and> blocks ! k \<in> set (rt_nodes t) - {rt_root t}}"
  shows "sdom_post (index_of blocks) dt s n
    = Some (s[i := {k. k < length blocks \<and> blocks ! k \<in> set (concat (map rt_nodes ts))}], Continue Advance)"
proof -
  have "\<exists>j < length blocks. blocks ! j = rt_root t" if "t \<in> set ts" for t
    using assms(7) that rt_root_node[of t] by (metis in_set_conv_nth subsetD)
  then obtain ix where ix: "\<And>t. t \<in> set ts \<Longrightarrow> ix t < length blocks \<and> blocks ! ix t = rt_root t" by metis
  have 1: "omap (index_of blocks) (map rt_root ts) = Some (map ix ts)"
    using omap_Some[of ts "\<lambda>t. index_of blocks (rt_root t)" ix] ix assms(1) by simp
  have 2: "omap (oget s) (map ix ts) = Some (map ((!) s) (map ix ts))"
    by (rule omap_oget) (use ix assms(2) in auto)
  have "j = ix t" if "t \<in> set ts" "j < length blocks" "blocks ! j = rt_root t" for j t
    using ix[OF that(1)] that(2,3) assms(1) nth_eq_iff_index_eq by metis
  then have "union_all (map ((!) s) (map ix ts)) \<union> set (map ix ts)
      = {k. k < length blocks \<and> blocks ! k \<in> set (concat (map rt_nodes ts))}"
    using ix assms(8) rt_root_node by (auto simp: union_all_def) blast
  moreover have "index_of blocks n = Some i" using assms(1,3,4) by simp
  ultimately show ?thesis
    using 1 2 assms(2,3,5,6) by (simp add: sdom_post_def dt_children_def)
qed

lemma sdom_forest:
  assumes "distinct blocks"
  shows "\<forall>t \<in> set f. tree_in (dt_lookup dt) t \<Longrightarrow> distinct (concat (map rt_nodes f)) \<Longrightarrow>
    set (concat (map rt_nodes f)) \<subseteq> set blocks \<Longrightarrow> length s = length blocks \<Longrightarrow>
    \<exists>s'. walk_forest direction.Forward (\<lambda>s _. Some (s, Continue Advance)) (sdom_post (index_of blocks) dt) s f
        = Some (s', Continue Advance) \<and> length s' = length blocks
      \<and> (\<forall>t \<in> set f. \<forall>u \<in> subtrees t. \<forall>i < length blocks. blocks ! i = rt_root u \<longrightarrow>
          s' ! i = {k. k < length blocks \<and> blocks ! k \<in> set (rt_nodes u) - {rt_root u}})
      \<and> (\<forall>i < length blocks. blocks ! i \<notin> set (concat (map rt_nodes f)) \<longrightarrow> s' ! i = s ! i)"
proof (induction "size_list size f" arbitrary: f s rule: less_induct)
  case less
  let ?post = "sdom_post (index_of blocks) dt"
  let ?set = "\<lambda>u. {k. k < length blocks \<and> blocks ! k \<in> set (rt_nodes u) - {rt_root u}}"
  show ?case
  proof (cases f)
    case (Cons t rest)
    obtain n ts where t: "t = RNode n ts" by (cases t)
    obtain dn where dn: "dt_lookup dt n = Some dn" "dn_children dn = map rt_root ts"
      using less.prems(1) Cons t by auto
    have d: "distinct (n # concat (map rt_nodes ts))" "set (n # concat (map rt_nodes ts)) \<inter> set (concat (map rt_nodes rest)) = {}"
      using less.prems(2) Cons t by auto
    obtain s1 where s1: "walk_forest direction.Forward (\<lambda>s _. Some (s, Continue Advance)) ?post s ts
        = Some (s1, Continue Advance)" "length s1 = length blocks"
        "\<forall>t \<in> set ts. \<forall>u \<in> subtrees t. \<forall>i < length blocks. blocks ! i = rt_root u \<longrightarrow> s1 ! i = ?set u"
        "\<forall>i < length blocks. blocks ! i \<notin> set (concat (map rt_nodes ts)) \<longrightarrow> s1 ! i = s ! i"
      using less.hyps[of ts s] less.prems Cons t by auto
    obtain i where i: "i < length blocks" "blocks ! i = n"
      using less.prems(3) Cons t by (auto simp: in_set_conv_nth)
    let ?s2 = "s1[i := {k. k < length blocks \<and> blocks ! k \<in> set (concat (map rt_nodes ts))}]"
    have p: "?post s1 n = Some (?s2, Continue Advance)"
    proof (rule sdom_post_node[OF assms s1(2) i dn])
      show "\<forall>t \<in> set ts. set (rt_nodes t) \<subseteq> set blocks" using less.prems(3) Cons t by auto
      show "s1 ! j = ?set t" if "t \<in> set ts" "j < length blocks" "blocks ! j = rt_root t" for t j
        using s1(3) that subtrees_self by blast
    qed
    obtain s3 where s3: "walk_forest direction.Forward (\<lambda>s _. Some (s, Continue Advance)) ?post ?s2 rest
        = Some (s3, Continue Advance)" "length s3 = length blocks"
        "\<forall>t \<in> set rest. \<forall>u \<in> subtrees t. \<forall>i < length blocks. blocks ! i = rt_root u \<longrightarrow> s3 ! i = ?set u"
        "\<forall>i < length blocks. blocks ! i \<notin> set (concat (map rt_nodes rest)) \<longrightarrow> s3 ! i = ?s2 ! i"
      using less.hyps[of rest ?s2] less.prems Cons t s1(2) by auto
    have nodes: "set (rt_nodes u) \<subseteq> set (rt_nodes t)" if "u \<in> subtrees t" for u t
      using that by (induction t) auto
    have "s3 ! j = ?set u" if u: "u \<in> subtrees t" "j < length blocks" "blocks ! j = rt_root u" for u j
    proof -
      have "blocks ! j \<in> set (rt_nodes t)" using nodes[OF u(1)] u(3) rt_root_node by auto
      then have "blocks ! j \<notin> set (concat (map rt_nodes rest))" using d(2) t by auto
      then have j3: "s3 ! j = ?s2 ! j" using s3(4) u(2) by blast
      show ?thesis
      proof (cases "u = t")
        case True
        then have "j = i" using u(2,3) i t assms nth_eq_iff_index_eq[OF assms, of j i] by simp
        moreover have "?set u = {k. k < length blocks \<and> blocks ! k \<in> set (concat (map rt_nodes ts))}"
          using True t d(1) by auto
        ultimately show ?thesis using j3 i(1) s1(2) by simp
      next
        case False
        then obtain t' where t': "t' \<in> set ts" "u \<in> subtrees t'" using u(1) t by auto
        then have "rt_root u \<in> set (concat (map rt_nodes ts))" using nodes[OF t'(2)] rt_root_node by auto
        then have "j \<noteq> i" using d(1) i(2) u(3) by auto
        then show ?thesis using j3 s1(3) t' u(2,3) by simp
      qed
    qed
    moreover have "s3 ! j = s ! j" if "j < length blocks" "blocks ! j \<notin> set (concat (map rt_nodes f))" for j
      using that s3(4) s1(4) i Cons t by (cases "j = i") auto
    moreover have "walk_forest direction.Forward (\<lambda>s _. Some (s, Continue Advance)) ?post s f = Some (s3, Continue Advance)"
      using s1(1) p s3(1) Cons t by (simp add: sibling_order_def)
    ultimately show ?thesis using s3(2,3) Cons by (intro exI[of _ s3]) auto
  qed (use less.prems in simp)
qed

text \<open>The strict dominator subtrees are strict dominance between positions.\<close>

definition sdoms :: "'n cfg \<Rightarrow> 'n \<Rightarrow> 'n list \<Rightarrow> nat \<Rightarrow> nat set" where
  "sdoms g e ord a = {i. i < length ord \<and> i \<noteq> a \<and> doms g e (ord ! a) (ord ! i)}"

lemma sdom_tree_correct:
  assumes t: "tree_of g e t rpo da" and ord: "distinct ord" "set ord = {v. reaches g e v}"
  shows "dom_tree_to_sdom_tree (length ord) (index_of ord) t = Some (map (sdoms g e ord) [0..<length ord])"
proof -
  note rp = rpo_ofD[OF tree_ofD(1)[OF t]]
  let ?post = "sdom_post (index_of ord) t" and ?pre = "\<lambda>s _. Some (s, Continue Advance)"
  obtain T where T: "rt_root T = e" "tree_in (dt_lookup t) T" "distinct (rt_nodes T)" "set (rt_nodes T) = {v. reaches g e v}"
      "\<And>s :: nat set list. (dt_walk t direction.Forward ?pre ?post s :: (_ \<times> unit walk_result) option)
        = after_walk (walk_forest direction.Forward ?pre ?post s [T]) (\<lambda>s. Some (s, Continue Advance))"
    using dt_walk_rtree[OF t, where 's = "nat set list" and 'b = unit] by blast
  obtain s' where s': "walk_forest direction.Forward ?pre ?post (replicate (length ord) {}) [T] = Some (s', Continue Advance)"
      "length s' = length ord"
      "\<And>u i. u \<in> subtrees T \<Longrightarrow> i < length ord \<Longrightarrow> ord ! i = rt_root u \<Longrightarrow>
        s' ! i = {k. k < length ord \<and> ord ! k \<in> set (rt_nodes u) - {rt_root u}}"
    using sdom_forest[OF ord(1), of "[T]" t "replicate (length ord) {}"] T(2-4) ord(2) by auto
  have "s' ! a = sdoms g e ord a" if a: "a < length ord" for a
  proof -
    have "ord ! a \<in> set (rt_nodes T)" using a ord(2) T(4) nth_mem by blast
    then obtain u where u: "u \<in> subtrees T" "rt_root u = ord ! a" using rt_subtree_of_node by metis
    obtain i where i: "i < length rpo" "rpo ! i = ord ! a"
      using rp(2) ord(2) a by (metis in_set_conv_nth nth_mem)
    obtain V where V: "rt_root V = rpo ! i" "tree_in (dt_lookup t) V"
        "set (rt_nodes V) = (!) rpo ` {j. j < length rpo \<and> i \<in> chain da j}"
      using tree_of_rtree[OF t i(1)] by blast
    have "V = u" by (rule tree_in_unique[OF V(2) subtrees_tree_in[OF T(2) u(1)]]) (simp add: V(1) u(2) i(2))
    then have "v \<in> set (rt_nodes u) \<longleftrightarrow> doms g e (ord ! a) v" for v
    proof -
      have "v \<in> set rpo" if "doms g e (ord ! a) v" using that rp(2) by (simp add: doms_def)
      moreover have "j < length rpo \<Longrightarrow> i \<in> chain da j \<longleftrightarrow> doms g e (ord ! a) (rpo ! j)" for j
        using tree_ofD(4)[OF t i(1), of j] i(2) by simp
      ultimately show ?thesis using V(3) \<open>V = u\<close> by (auto simp: in_set_conv_nth)
    qed
    then show ?thesis using s'(3)[OF u(1) a] u(2) a nth_eq_iff_index_eq[OF ord(1)] by (auto simp: sdoms_def)
  qed
  then have "s' = map (sdoms g e ord) [0..<length ord]" using s'(2) by (intro nth_equalityI) auto
  then show ?thesis unfolding dom_tree_to_sdom_tree_def T(5) s'(1) by simp
qed

section \<open>The edges\<close>

text \<open>\<open>edge_sets_for n sdom S es\<close>: \<open>es\<close> is what the loops have built from the edges \<open>S\<close> between positions.\<close>

definition edge_sets_for :: "nat \<Rightarrow> (nat \<Rightarrow> nat set) \<Rightarrow> (nat \<times> nat) set \<Rightarrow> edge_sets \<Rightarrow> bool" where
  "edge_sets_for n sdom S es \<longleftrightarrow>
     length (es_reduced_successors es) = n \<and> length (es_back_edges_by_source es) = n
     \<and> (\<forall>i < n. es_reduced_successors es ! i = {j. (i, j) \<in> S \<and> i < j})
     \<and> (\<forall>i < n. set (es_back_edges_by_source es ! i) = {j. (i, j) \<in> S \<and> j \<le> i})
     \<and> es_back_edge_targets es = {j. \<exists>i. (i, j) \<in> S \<and> j \<le> i}
     \<and> (all_reducible es \<longleftrightarrow> (\<forall>(i, j) \<in> S. j < i \<longrightarrow> i \<in> sdom j))"

lemma edge_sets_forD:
  assumes "edge_sets_for n sdom S es"
  shows "length (es_reduced_successors es) = n" and "length (es_back_edges_by_source es) = n"
    and "i < n \<Longrightarrow> es_reduced_successors es ! i = {j. (i, j) \<in> S \<and> i < j}"
    and "i < n \<Longrightarrow> set (es_back_edges_by_source es ! i) = {j. (i, j) \<in> S \<and> j \<le> i}"
    and "es_back_edge_targets es = {j. \<exists>i. (i, j) \<in> S \<and> j \<le> i}"
    and "all_reducible es \<longleftrightarrow> (\<forall>(i, j) \<in> S. j < i \<longrightarrow> i \<in> sdom j)"
  using assms by (auto simp: edge_sets_for_def)

lemma edge_sets_back:
  assumes E: "edge_sets_for n sdom S es" and i: "i < n" and j: "j \<le> i"
  shows "edge_sets_for n sdom (insert (i, j) S) (es\<lparr>
    es_back_edges_by_source := (es_back_edges_by_source es)[i := es_back_edges_by_source es ! i @ [j]],
    es_back_edge_targets := insert j (es_back_edge_targets es),
    all_reducible := all_reducible es \<and> (j \<noteq> i \<longrightarrow> i \<in> sdom j)\<rparr>)"
  unfolding edge_sets_for_def
proof (intro conjI allI impI)
  note D = edge_sets_forD[OF E]
  let ?es = "es\<lparr>es_back_edges_by_source := (es_back_edges_by_source es)[i := es_back_edges_by_source es ! i @ [j]],
    es_back_edge_targets := insert j (es_back_edge_targets es),
    all_reducible := all_reducible es \<and> (j \<noteq> i \<longrightarrow> i \<in> sdom j)\<rparr>"
  show "es_reduced_successors ?es ! k = {l. (k, l) \<in> insert (i, j) S \<and> k < l}" if "k < n" for k
  proof -
    have "es_reduced_successors ?es ! k = es_reduced_successors es ! k" by simp
    also have "\<dots> = {l. (k, l) \<in> insert (i, j) S \<and> k < l}" unfolding D(3)[OF that] using j by auto
    finally show ?thesis .
  qed
  show "set (es_back_edges_by_source ?es ! k) = {l. (k, l) \<in> insert (i, j) S \<and> l \<le> k}" if "k < n" for k
  proof -
    have "set (es_back_edges_by_source ?es ! k)
        = (if k = i then insert j (set (es_back_edges_by_source es ! k)) else set (es_back_edges_by_source es ! k))"
      using D(2) that by simp
    also have "\<dots> = {l. (k, l) \<in> insert (i, j) S \<and> l \<le> k}" unfolding D(4)[OF that] using j by auto
    finally show ?thesis .
  qed
  have "j < i \<longleftrightarrow> j \<noteq> i" using j by auto
  then show "all_reducible ?es \<longleftrightarrow> (\<forall>(i', j') \<in> insert (i, j) S. j' < i' \<longrightarrow> i' \<in> sdom j')"
    using D(6) by simp blast
qed (use edge_sets_forD(1,2,5)[OF E] j in auto)

lemma edge_sets_ahead:
  assumes E: "edge_sets_for n sdom S es" and i: "i < n" and j: "i < j"
  shows "edge_sets_for n sdom (insert (i, j) S) (es\<lparr>
    es_reduced_successors := (es_reduced_successors es)[i := insert j (es_reduced_successors es ! i)]\<rparr>)"
  unfolding edge_sets_for_def
proof (intro conjI allI impI)
  note D = edge_sets_forD[OF E]
  let ?es = "es\<lparr>es_reduced_successors := (es_reduced_successors es)[i := insert j (es_reduced_successors es ! i)]\<rparr>"
  show "es_reduced_successors ?es ! k = {l. (k, l) \<in> insert (i, j) S \<and> k < l}" if "k < n" for k
  proof -
    have "es_reduced_successors ?es ! k
        = (if k = i then insert j (es_reduced_successors es ! k) else es_reduced_successors es ! k)"
      using D(1) that by simp
    also have "\<dots> = {l. (k, l) \<in> insert (i, j) S \<and> k < l}" unfolding D(3)[OF that] using j by auto
    finally show ?thesis .
  qed
  show "set (es_back_edges_by_source ?es ! k) = {l. (k, l) \<in> insert (i, j) S \<and> l \<le> k}" if "k < n" for k
  proof -
    have "set (es_back_edges_by_source ?es ! k) = set (es_back_edges_by_source es ! k)" by simp
    also have "\<dots> = {l. (k, l) \<in> insert (i, j) S \<and> l \<le> k}" unfolding D(4)[OF that] using j by auto
    finally show ?thesis .
  qed
  show "all_reducible ?es \<longleftrightarrow> (\<forall>(i', j') \<in> insert (i, j) S. j' < i' \<longrightarrow> i' \<in> sdom j')"
    using D(6) j by auto
qed (use edge_sets_forD(1,2,5)[OF E] j in auto)

lemma collect_succs_correct:
  assumes N: "numbered g e t po" and i: "i < length po"
    and succs: "\<forall>v \<in> set succs. edge g (rev po ! i) v"
    and E: "edge_sets_for (length po) sdom S es"
  shows "\<exists>es'. collect_succs t (index_of (rev po)) (map sdom [0..<length po]) i (rev po ! i) succs es = Some es'
    \<and> edge_sets_for (length po) sdom (S \<union> {(i, j) |j. j < length po \<and> rev po ! j \<in> set succs}) es'"
  using succs E
proof (induction succs arbitrary: S es)
  case (Cons v succs)
  have dp: "distinct (rev po)" and sp: "set po = {v. reaches g e v}" using N by (auto simp: numbered_def)
  have "rev po ! i \<in> set po" using i by (metis length_rev nth_mem set_rev)
  then have "v \<in> set (rev po)" using Cons.prems(1) reaches_step sp by fastforce
  then obtain j where j: "j < length po" "rev po ! j = v" by (auto simp only: in_set_conv_nth length_rev)
  have ix: "index_of (rev po) v = Some j" using index_of_Some[OF dp] j by simp
  obtain k where k: "edge_kind t (rev po ! i) v = Some k" "k = Back \<longleftrightarrow> j \<le> i"
    using edge_kind_numbered[OF N i j(1)] j(2) Cons.prems(1) by auto
  have uniq: "rev po ! l = v \<longleftrightarrow> l = j" if "l < length po" for l
    using nth_eq_iff_index_eq[OF dp, of l j] that j by auto
  have S: "insert (i, j) S \<union> {(i, l) |l. l < length po \<and> rev po ! l \<in> set succs}
      = S \<union> {(i, l) |l. l < length po \<and> rev po ! l \<in> set (v # succs)}"
    using uniq j(1) by auto
  note D = edge_sets_forD[OF Cons.prems(2)]
  show ?case
  proof (cases "j \<le> i")
    case True
    let ?es = "es\<lparr>es_back_edges_by_source := (es_back_edges_by_source es)[i := es_back_edges_by_source es ! i @ [j]],
      es_back_edge_targets := insert j (es_back_edge_targets es),
      all_reducible := all_reducible es \<and> (j \<noteq> i \<longrightarrow> i \<in> sdom j)\<rparr>"
    obtain es' where es': "collect_succs t (index_of (rev po)) (map sdom [0..<length po]) i (rev po ! i) succs ?es = Some es'"
        "edge_sets_for (length po) sdom (insert (i, j) S \<union> {(i, l) |l. l < length po \<and> rev po ! l \<in> set succs}) es'"
      using Cons.IH[OF _ edge_sets_back[OF Cons.prems(2) i True]] Cons.prems(1) by auto
    have "?es = (let es = es\<lparr>es_back_edges_by_source := (es_back_edges_by_source es)[i := es_back_edges_by_source es ! i @ [j]],
          es_back_edge_targets := insert j (es_back_edge_targets es)\<rparr>
        in if j \<noteq> i \<and> i \<notin> sdom j then es\<lparr>all_reducible := False\<rparr> else es)" by (auto simp: Let_def)
    then have "collect_succs t (index_of (rev po)) (map sdom [0..<length po]) i (rev po ! i) (v # succs) es = Some es'"
      using es'(1) ix k True i j D(2) by (cases "j = i") (auto simp: Let_def split: if_splits)
    then show ?thesis using es'(2) S by simp
  next
    case False
    obtain es' where es': "collect_succs t (index_of (rev po)) (map sdom [0..<length po]) i (rev po ! i) succs
          (es\<lparr>es_reduced_successors := (es_reduced_successors es)[i := insert j (es_reduced_successors es ! i)]\<rparr>) = Some es'"
        "edge_sets_for (length po) sdom (insert (i, j) S \<union> {(i, l) |l. l < length po \<and> rev po ! l \<in> set succs}) es'"
      using Cons.IH[OF _ edge_sets_ahead[OF Cons.prems(2) i, of j]] Cons.prems(1) False by auto
    then show ?thesis using ix k False i D(1) S by simp
  qed
qed simp

text \<open>All edges between positions.\<close>

definition order_edges :: "'n cfg \<Rightarrow> 'n list \<Rightarrow> (nat \<times> nat) set" where
  "order_edges g ord = {(i, j). i < length ord \<and> j < length ord \<and> edge g (ord ! i) (ord ! j)}"

lemma collect_edges_correct:
  assumes N: "numbered g e t po"
  shows "\<exists>es. collect_edges g t (index_of (rev po)) (map sdom [0..<length po]) (enumerate 0 (rev po))
      \<lparr>es_reduced_successors = replicate (length po) {}, es_back_edge_targets = {},
       es_back_edges_by_source = replicate (length po) [], all_reducible = True\<rparr> = Some es
    \<and> edge_sets_for (length po) sdom (order_edges g (rev po)) es"
proof -
  have "\<exists>es'. collect_edges g t (index_of (rev po)) (map sdom [0..<length po]) (enumerate k (drop k (rev po))) es = Some es'
      \<and> edge_sets_for (length po) sdom (order_edges g (rev po)) es'"
    if "k \<le> length po" "edge_sets_for (length po) sdom {(i, j) \<in> order_edges g (rev po). i < k} es" for k es
    using that
  proof (induction "length po - k" arbitrary: k es)
    case 0
    then have "{(i, j) \<in> order_edges g (rev po). i < k} = order_edges g (rev po)" by (auto simp: order_edges_def)
    then show ?case using 0 by simp
  next
    case (Suc m)
    then have k: "k < length po" by simp
    obtain es' where es': "collect_succs t (index_of (rev po)) (map sdom [0..<length po]) k (rev po ! k)
          (successors g (rev po ! k)) es = Some es'"
        "edge_sets_for (length po) sdom ({(i, j) \<in> order_edges g (rev po). i < k}
          \<union> {(k, j) |j. j < length po \<and> rev po ! j \<in> set (successors g (rev po ! k))}) es'"
      using collect_succs_correct[OF N k _ Suc.prems(2)] by (auto simp: edge_def)
    have "{(i, j) \<in> order_edges g (rev po). i < k} \<union> {(k, j) |j. j < length po \<and> rev po ! j \<in> set (successors g (rev po ! k))}
        = {(i, j) \<in> order_edges g (rev po). i < Suc k}"
      using k by (auto simp: order_edges_def edge_def less_Suc_eq)
    moreover have "drop k (rev po) = rev po ! k # drop (Suc k) (rev po)" using k by (simp add: Cons_nth_drop_Suc)
    ultimately show ?case using Suc.hyps(1)[of "Suc k" es'] Suc.hyps(2) k es' by simp
  qed
  from this[of 0] show ?thesis by (simp add: edge_sets_for_def order_edges_def)
qed

section \<open>Reduced reachability\<close>

definition reach_set :: "'n cfg \<Rightarrow> 'n list \<Rightarrow> nat \<Rightarrow> nat set" where
  "reach_set g ord i = {j. (ahead g ord)\<^sup>*\<^sup>* i j}"

lemma reach_set_bound: "i < length ord \<Longrightarrow> j \<in> reach_set g ord i \<Longrightarrow> i \<le> j \<and> j < length ord"
proof -
  assume "i < length ord" "j \<in> reach_set g ord i"
  then have "(ahead g ord)\<^sup>*\<^sup>* i j" by (simp add: reach_set_def)
  then show ?thesis using \<open>i < length ord\<close> by (induction rule: rtranclp_induct) (auto simp: ahead_def)
qed

lemma finite_reach_set [simp]: "i < length ord \<Longrightarrow> finite (reach_set g ord i)"
  by (rule finite_subset[of _ "{..<length ord}"]) (use reach_set_bound[of i ord] in auto)

lemma reach_set_self [simp]: "i \<in> reach_set g ord i"
  by (simp add: reach_set_def)

lemma reach_set_unfold: "reach_set g ord i = insert i (\<Union>j \<in> {j. ahead g ord i j}. reach_set g ord j)"
proof (intro set_eqI iffI)
  fix k assume "k \<in> reach_set g ord i"
  then have "(ahead g ord)\<^sup>*\<^sup>* i k" by (simp add: reach_set_def)
  then show "k \<in> insert i (\<Union>j \<in> {j. ahead g ord i j}. reach_set g ord j)"
    by (cases rule: converse_rtranclpE) (auto simp: reach_set_def)
next
  fix k assume "k \<in> insert i (\<Union>j \<in> {j. ahead g ord i j}. reach_set g ord j)"
  then show "k \<in> reach_set g ord i"
    by (auto simp: reach_set_def intro: converse_rtranclp_into_rtranclp)
qed

lemma finite_ahead [simp]: "finite {j. ahead g ord i j}"
  by (rule finite_subset[of _ "{..<length ord}"]) (auto simp: ahead_def)

lemma reduced_reachability_correct:
  assumes len: "length rs = length ord" and rs: "\<And>i. i < length ord \<Longrightarrow> rs ! i = {j. ahead g ord i j}"
  shows "compute_reduced_reachability rs = Some (map (reach_set g ord) [0..<length ord])"
proof -
  let ?n = "length ord"
  have "\<exists>res'. reduced_loop rs (rev [0..<k]) res = Some res' \<and> length res' = ?n
      \<and> (\<forall>i < ?n. res' ! i = reach_set g ord i)"
    if "k \<le> ?n" "length res = ?n" "\<forall>i < ?n. k \<le> i \<longrightarrow> res ! i = reach_set g ord i" for k res
    using that
  proof (induction k arbitrary: res)
    case (Suc k)
    have k: "k < ?n" using Suc.prems(1) by simp
    have o: "omap (oget res) (bits (rs ! k)) = Some (map ((!) res) (bits (rs ! k)))"
      by (rule omap_oget) (use k rs Suc.prems(2) in \<open>auto simp: ahead_def\<close>)
    have "(\<Union>j \<in> rs ! k. res ! j) = (\<Union>j \<in> {j. ahead g ord k j}. reach_set g ord j)"
      using rs[OF k] Suc.prems(3) by (auto simp: ahead_def)
    then have u: "insert k (union_all (map ((!) res) (bits (rs ! k)))) = reach_set g ord k"
      using rs[OF k] reach_set_unfold[of g ord k] by simp
    have "\<forall>i < ?n. k \<le> i \<longrightarrow> res[k := reach_set g ord k] ! i = reach_set g ord i"
      using Suc.prems(2,3) k by (auto simp: nth_list_update)
    then show ?case using Suc.IH[of "res[k := reach_set g ord k]"] Suc.prems(2) k o u len by simp
  qed simp
  from this[of ?n "replicate ?n {}"] obtain res where
    "reduced_loop rs (rev [0..<?n]) (replicate ?n {}) = Some res" "length res = ?n"
    "\<forall>i < ?n. res ! i = reach_set g ord i" by auto
  moreover from this have "res = map (reach_set g ord) [0..<?n]" by (intro nth_equalityI) auto
  ultimately show ?thesis using len by (simp add: compute_reduced_reachability_def)
qed

section \<open>Back edges\<close>

definition back_edge :: "'n cfg \<Rightarrow> 'n list \<Rightarrow> nat \<Rightarrow> nat \<Rightarrow> bool" where
  "back_edge g ord i j \<longleftrightarrow> j \<le> i \<and> i < length ord \<and> edge g (ord ! i) (ord ! j)"

text \<open>\<open>T_up\<close>: targets of back edges from what is reduced-reachable, unless they are so themselves.\<close>

definition up_edge :: "'n cfg \<Rightarrow> 'n list \<Rightarrow> nat \<Rightarrow> nat \<Rightarrow> bool" where
  "up_edge g ord t j \<longleftrightarrow> (\<exists>r \<in> reach_set g ord t. back_edge g ord r j) \<and> j \<notin> reach_set g ord t"

lemma up_edge_bound: "t < length ord \<Longrightarrow> up_edge g ord t j \<Longrightarrow> j < length ord"
  using reach_set_bound by (fastforce simp: up_edge_def back_edge_def)

lemma finite_up_edge [simp]: "t < length ord \<Longrightarrow> finite {j. up_edge g ord t j}"
  by (rule finite_subset[of _ "{..<length ord}"]) (use up_edge_bound[of t ord] in auto)

lemma t_up_correct:
  assumes len: "length bs = length ord" and bs: "\<And>i. i < length ord \<Longrightarrow> set (bs ! i) = {j. back_edge g ord i j}"
  shows "compute_t_up_sets (map (reach_set g ord) [0..<length ord]) bs
    = Some (map (\<lambda>t. {j. up_edge g ord t j}) [0..<length ord])"
proof -
  have "omap (oget bs) (bits (reach_set g ord t)) = Some (map ((!) bs) (bits (reach_set g ord t)))"
    if "t < length ord" for t
    by (rule omap_oget) (use that reach_set_bound[OF that] len in auto)
  moreover have "set (concat (map ((!) bs) (bits (reach_set g ord t)))) - reach_set g ord t = {j. up_edge g ord t j}"
    if t: "t < length ord" for t
  proof -
    have "(\<Union>r \<in> reach_set g ord t. set (bs ! r)) = (\<Union>r \<in> reach_set g ord t. {j. back_edge g ord r j})"
      using bs reach_set_bound[OF t] by (intro SUP_cong) auto
    then show ?thesis using t by (auto simp: up_edge_def)
  qed
  ultimately show ?thesis
    unfolding compute_t_up_sets_def omap_map by (intro omap_Some) auto
qed

section \<open>The sets \<open>T_q\<close>\<close>

text \<open>A node of \<open>T_q\<close> other than \<open>q\<close> is the target of a back edge, found by going ahead, then back, then up.\<close>

definition tq_chain :: "'n cfg \<Rightarrow> 'n list \<Rightarrow> nat \<Rightarrow> nat \<Rightarrow> bool" where
  "tq_chain g ord q x \<longleftrightarrow> (\<exists>y z. (ahead g ord)\<^sup>*\<^sup>* q y \<and> (back_edge g ord)\<^sup>*\<^sup>* y z \<and> (up_edge g ord)\<^sup>*\<^sup>* z x)"

definition tq_inv :: "nat \<Rightarrow> nat set \<Rightarrow> (nat \<Rightarrow> nat \<Rightarrow> bool) \<Rightarrow> nat set list \<Rightarrow> bool" where
  "tq_inv n targets R tq \<longleftrightarrow> length tq = n \<and> (\<forall>q < n. \<forall>x \<in> tq ! q. x \<in> targets \<and> R q x)"

lemma tq_inv_weaken: "tq_inv n targets R tq \<Longrightarrow> (\<And>q x. R q x \<Longrightarrow> R' q x) \<Longrightarrow> tq_inv n targets R' tq"
  by (auto simp: tq_inv_def)

lemma tq_inv_update:
  assumes "tq_inv n targets R tq" and "\<And>x. x \<in> A \<Longrightarrow> x \<in> targets \<and> R q x"
  shows "tq_inv n targets R (tq[q := A])"
  unfolding tq_inv_def
proof (intro conjI allI ballI impI)
  fix k x assume k: "k < n" "x \<in> tq[q := A] ! k"
  have n: "length tq = n" using assms(1) by (simp add: tq_inv_def)
  have "x \<in> targets \<and> R k x"
  proof (cases "k = q")
    case True
    then show ?thesis using k n assms(2) by simp
  next
    case False
    then have "x \<in> tq ! k" using k(2) by simp
    then show ?thesis using assms(1) k(1) by (simp add: tq_inv_def)
  qed
  then show "x \<in> targets" "R k x" by simp_all
qed (use assms in \<open>simp add: tq_inv_def\<close>)

lemma step_OO: "R x y \<Longrightarrow> (R\<^sup>*\<^sup>* OO S) y z \<Longrightarrow> (R\<^sup>*\<^sup>* OO S) x z"
  by (auto intro: converse_rtranclp_into_rtranclp)

lemma tq_phase1_correct:
  assumes ups: "length ups = n" "\<And>t. t < n \<Longrightarrow> ups ! t = {j. R1 t j} \<and> finite {j. R1 t j} \<and> {j. R1 t j} \<subseteq> {..<n}"
  shows "\<forall>t \<in> set ts. t < n \<and> t \<in> targets \<Longrightarrow> tq_inv n targets R1\<^sup>*\<^sup>* tq \<Longrightarrow> length c = n \<Longrightarrow>
    \<exists>tq' c'. tq_phase1 ups ts tq c = Some (tq', c') \<and> tq_inv n targets R1\<^sup>*\<^sup>* tq' \<and> length c' = n"
proof (induction ts arbitrary: tq c)
  case (Cons t ts)
  have t: "t < n" "t \<in> targets" and len: "length tq = n" using Cons.prems by (auto simp: tq_inv_def)
  have o: "omap (oget tq) (bits (ups ! t)) = Some (map ((!) tq) (bits (ups ! t)))"
    by (rule omap_oget) (use ups(2)[OF t(1)] len in auto)
  have inv: "tq_inv n targets R1\<^sup>*\<^sup>* (tq[t := insert t (union_all (map ((!) tq) (bits (ups ! t))))])"
  proof (rule tq_inv_update[OF Cons.prems(2)])
    fix x assume "x \<in> insert t (union_all (map ((!) tq) (bits (ups ! t))))"
    then consider "x = t" | j where "R1 t j" "j < n" "x \<in> tq ! j" using ups(2)[OF t(1)] by auto
    then show "x \<in> targets \<and> R1\<^sup>*\<^sup>* t x"
      using t(2) Cons.prems(2) by cases (auto simp: tq_inv_def intro: converse_rtranclp_into_rtranclp)
  qed
  have "\<forall>t \<in> set ts. t < n \<and> t \<in> targets" "length (c[t := True]) = n" using Cons.prems by simp_all
  from Cons.IH[OF this(1) inv this(2)] show ?case using t(1) ups(1) o len Cons.prems(3) by simp
qed simp

lemma tq_phase2_correct:
  assumes bs: "length bs = n" "\<And>s. s < n \<Longrightarrow> set (bs ! s) = {j. R2 s j} \<and> {j. R2 s j} \<subseteq> {..<n}"
  shows "\<forall>s \<in> set ss. s < n \<Longrightarrow> tq_inv n targets (R2\<^sup>*\<^sup>* OO R1) tq \<Longrightarrow> length c = n \<Longrightarrow>
    \<exists>tq' c'. tq_phase2 bs ss tq c = Some (tq', c') \<and> tq_inv n targets (R2\<^sup>*\<^sup>* OO R1) tq' \<and> length c' = n"
proof (induction ss arbitrary: tq c)
  case (Cons s ss)
  have s: "s < n" and len: "length tq = n" using Cons.prems by (auto simp: tq_inv_def)
  have o: "omap (oget tq) (bs ! s) = Some (map ((!) tq) (bs ! s))"
    by (rule omap_oget) (use bs(2)[OF s] len in auto)
  have inv: "tq_inv n targets (R2\<^sup>*\<^sup>* OO R1) (tq[s := union_all (tq ! s # map ((!) tq) (bs ! s))])"
  proof (rule tq_inv_update[OF Cons.prems(2)])
    fix x assume "x \<in> union_all (tq ! s # map ((!) tq) (bs ! s))"
    then consider "x \<in> tq ! s" | j where "R2 s j" "j < n" "x \<in> tq ! j"
      using bs(2)[OF s] by (auto simp: union_all_def)
    then show "x \<in> targets \<and> (R2\<^sup>*\<^sup>* OO R1) s x"
    proof cases
      case 1
      then show ?thesis using Cons.prems(2) s by (simp add: tq_inv_def)
    next
      case 2
      then have x: "x \<in> targets" "(R2\<^sup>*\<^sup>* OO R1) j x" using Cons.prems(2) by (simp_all add: tq_inv_def)
      show ?thesis by (rule conjI[OF x(1) step_OO[of R2, OF 2(1) x(2)]])
    qed
  qed
  have "\<forall>s \<in> set ss. s < n" "length (c[s := True]) = n" using Cons.prems by simp_all
  from Cons.IH[OF this(1) inv this(2)] show ?case using s bs(1) o len Cons.prems(3) by simp
qed simp

lemma tq_phase3_correct:
  assumes rs: "length rs = n" "\<And>q. q < n \<Longrightarrow> rs ! q = {j. R3 q j} \<and> finite {j. R3 q j} \<and> {j. R3 q j} \<subseteq> {..<n}"
  shows "\<forall>q \<in> set qs. q < n \<Longrightarrow> tq_inv n targets (R3\<^sup>*\<^sup>* OO R) tq \<Longrightarrow>
    \<exists>tq'. tq_phase3 rs qs tq = Some tq' \<and> tq_inv n targets (R3\<^sup>*\<^sup>* OO R) tq'"
proof (induction qs arbitrary: tq)
  case (Cons q qs)
  have q: "q < n" and len: "length tq = n" using Cons.prems by (auto simp: tq_inv_def)
  have o: "omap (oget tq) (bits (rs ! q)) = Some (map ((!) tq) (bits (rs ! q)))"
    by (rule omap_oget) (use rs(2)[OF q] len in auto)
  have inv: "tq_inv n targets (R3\<^sup>*\<^sup>* OO R) (tq[q := union_all (map ((!) tq) (bits (rs ! q)))])"
  proof (rule tq_inv_update[OF Cons.prems(2)])
    fix x assume "x \<in> union_all (map ((!) tq) (bits (rs ! q)))"
    then obtain j where j: "R3 q j" "j < n" "x \<in> tq ! j" using rs(2)[OF q] by auto
    then have x: "x \<in> targets" "(R3\<^sup>*\<^sup>* OO R) j x" using Cons.prems(2) by (simp_all add: tq_inv_def)
    show "x \<in> targets \<and> (R3\<^sup>*\<^sup>* OO R) q x"
      by (rule conjI[OF x(1) step_OO[of R3, OF j(1) x(2)]])
  qed
  have "\<forall>q \<in> set qs. q < n" using Cons.prems by simp
  from Cons.IH[OF this inv] show ?case using q rs(1) o len by simp
qed simp

lemma tq_sets_correct:
  assumes ups: "ups = map (\<lambda>t. {j. up_edge g ord t j}) [0..<length ord]"
    and rs: "length rs = length ord" "\<And>i. i < length ord \<Longrightarrow> rs ! i = {j. ahead g ord i j}"
    and bs: "length bs = length ord" "\<And>i. i < length ord \<Longrightarrow> set (bs ! i) = {j. back_edge g ord i j}"
    and pre: "\<forall>i \<in> set pre. i < length ord" and post: "\<forall>i \<in> set post. i < length ord"
  shows "\<exists>tq. compute_tq_sets ups rs bs targets pre post = Some tq \<and> length tq = length ord
    \<and> (\<forall>q < length ord. q \<in> tq ! q \<and> (\<forall>x \<in> tq ! q. x = q \<or> x \<in> targets \<and> tq_chain g ord q x))"
proof -
  let ?n = "length ord" and ?R1 = "up_edge g ord" and ?R2 = "back_edge g ord" and ?R3 = "ahead g ord"
  have u: "ups ! t = {j. ?R1 t j} \<and> finite {j. ?R1 t j} \<and> {j. ?R1 t j} \<subseteq> {..<?n}" if "t < ?n" for t
    using that ups up_edge_bound[OF that] by auto
  have l: "length ups = ?n" using ups by simp
  have i0: "tq_inv ?n targets ?R1\<^sup>*\<^sup>* (replicate ?n {})" by (simp add: tq_inv_def)
  have f1: "\<forall>t \<in> set (filter (\<lambda>t. t \<in> targets) pre). t < ?n \<and> t \<in> targets" using pre by auto
  obtain tq1 c1 where p1: "tq_phase1 ups (filter (\<lambda>t. t \<in> targets) pre) (replicate ?n {}) (replicate ?n False) = Some (tq1, c1)"
      "tq_inv ?n targets ?R1\<^sup>*\<^sup>* tq1" "length c1 = ?n"
    using tq_phase1_correct[OF l u f1 i0 length_replicate] by blast
  have i1: "tq_inv ?n targets (?R2\<^sup>*\<^sup>* OO ?R1\<^sup>*\<^sup>*) tq1"
    by (rule tq_inv_weaken[OF p1(2)]) blast
  let ?ss = "map fst (filter (\<lambda>(s, ts). ts \<noteq> []) (map (\<lambda>s. (s, bs ! s)) pre))"
  have s: "omap (\<lambda>s. map_option (\<lambda>ts. (s, ts)) (oget bs s)) pre = Some (map (\<lambda>s. (s, bs ! s)) pre)"
    by (rule omap_Some) (use pre bs(1) in simp)
  have b2: "set (bs ! s) = {j. ?R2 s j} \<and> {j. ?R2 s j} \<subseteq> {..<?n}" if "s < ?n" for s
    using bs(2)[OF that] by (auto simp: back_edge_def)
  have f2: "\<forall>s \<in> set ?ss. s < ?n" using pre by auto
  obtain tq2 c2 where p2: "tq_phase2 bs ?ss tq1 c1 = Some (tq2, c2)"
      "tq_inv ?n targets (?R2\<^sup>*\<^sup>* OO ?R1\<^sup>*\<^sup>*) tq2" "length c2 = ?n"
    using tq_phase2_correct[OF bs(1) b2 f2 i1 p1(3)] by blast
  have i2: "tq_inv ?n targets (?R3\<^sup>*\<^sup>* OO (?R2\<^sup>*\<^sup>* OO ?R1\<^sup>*\<^sup>*)) tq2"
    by (rule tq_inv_weaken[OF p2(2)]) blast
  let ?qs = "map fst (filter (\<lambda>(q, c). \<not> c) (map (\<lambda>q. (q, c2 ! q)) post))"
  have q: "omap (\<lambda>q. map_option (\<lambda>c. (q, c)) (oget c2 q)) post = Some (map (\<lambda>q. (q, c2 ! q)) post)"
    by (rule omap_Some) (use post p2(3) in simp)
  have r3: "rs ! q = {j. ?R3 q j} \<and> finite {j. ?R3 q j} \<and> {j. ?R3 q j} \<subseteq> {..<?n}" if "q < ?n" for q
    using rs(2)[OF that] by (auto simp: ahead_def)
  have f3: "\<forall>q \<in> set ?qs. q < ?n" using post by auto
  obtain tq3 where p3: "tq_phase3 rs ?qs tq2 = Some tq3" "tq_inv ?n targets (?R3\<^sup>*\<^sup>* OO (?R2\<^sup>*\<^sup>* OO ?R1\<^sup>*\<^sup>*)) tq3"
    using tq_phase3_correct[OF rs(1) r3 f3 i2] by blast
  have "compute_tq_sets ups rs bs targets pre post = Some (map (\<lambda>(v, tv). insert v tv) (enumerate 0 tq3))"
    using l p1(1) s p2(1) q p3(1) by (simp add: compute_tq_sets_def)
  moreover have "length tq3 = ?n" using p3(2) by (simp add: tq_inv_def)
  moreover have "tq_chain g ord q x" if "(?R3\<^sup>*\<^sup>* OO (?R2\<^sup>*\<^sup>* OO ?R1\<^sup>*\<^sup>*)) q x" for q x
    using that unfolding tq_chain_def by blast
  ultimately show ?thesis using p3(2) by (auto simp: tq_inv_def nth_enumerate_eq)
qed

end
