(* ===== verification/LiveSound.thy ===== *)
theory LiveSound
  imports LiveSets
begin

text \<open>
  What the liveness queries of \<open>Liveness\<close> answer. They are sound: whenever they say that a value is
  live there is a path from the query to a use that does not pass the definition again. They are exact on
  graphs without cycles. In general they are not: the last section has two small reducible
  graphs where a live value is reported dead.
\<close>

section \<open>The tables\<close>

definition live_tables :: "'r \<Rightarrow> 'n cfg \<Rightarrow> 'n \<Rightarrow> ('r, 'n) liveness_tq \<Rightarrow> 'n list \<Rightarrow> bool" where
  "live_tables region g e lv ord \<longleftrightarrow>
     rpo_of g e ord \<and> lv_region lv = region \<and> lv_block_to_index lv = index_of ord
     \<and> lv_sdom_tree lv = map (sdoms g e ord) [0..<length ord]
     \<and> lv_reduced_reachability lv = map (reach_set g ord) [0..<length ord]
     \<and> lv_back_edge_targets lv = {j. \<exists>i. back_edge g ord i j}
     \<and> (lv_is_reducible lv \<longleftrightarrow> (\<forall>i j. back_edge g ord i j \<longrightarrow> j < i \<longrightarrow> i \<in> sdoms g e ord j))
     \<and> length (lv_tq_sets lv) = length ord
     \<and> (\<forall>q < length ord. q \<in> lv_tq_sets lv ! q
         \<and> (\<forall>x \<in> lv_tq_sets lv ! q. x = q \<or> x \<in> lv_back_edge_targets lv \<and> tq_chain g ord q x))
     \<and> (\<forall>i j. back_edge g ord i j \<longrightarrow> (ahead g ord)\<^sup>*\<^sup>* j i)"

lemma live_tablesD:
  assumes "live_tables region g e lv ord"
  shows "rpo_of g e ord" and "lv_region lv = region" and "lv_block_to_index lv = index_of ord"
    and "lv_sdom_tree lv = map (sdoms g e ord) [0..<length ord]"
    and "lv_reduced_reachability lv = map (reach_set g ord) [0..<length ord]"
    and "lv_back_edge_targets lv = {j. \<exists>i. back_edge g ord i j}"
    and "lv_is_reducible lv \<longleftrightarrow> (\<forall>i j. back_edge g ord i j \<longrightarrow> j < i \<longrightarrow> i \<in> sdoms g e ord j)"
    and "length (lv_tq_sets lv) = length ord"
    and "q < length ord \<Longrightarrow> q \<in> lv_tq_sets lv ! q"
    and "q < length ord \<Longrightarrow> x \<in> lv_tq_sets lv ! q \<Longrightarrow> x = q \<or> x \<in> lv_back_edge_targets lv \<and> tq_chain g ord q x"
    and "back_edge g ord i j \<Longrightarrow> (ahead g ord)\<^sup>*\<^sup>* j i"
  using assms unfolding live_tables_def by blast+

lemma order_edge_bound:
  assumes N: "numbered g e t po" and "i < length po" and "edge g (rev po ! i) v"
  shows "\<exists>j < length po. rev po ! j = v"
proof -
  have sp: "set po = {v. reaches g e v}" using N by (simp add: numbered_def)
  have "rev po ! i \<in> set po" using assms(2) by (metis length_rev nth_mem set_rev)
  then have "v \<in> set (rev po)" using assms(3) sp reaches_step[of g e _ v] by auto
  then show ?thesis by (auto simp only: in_set_conv_nth length_rev)
qed

lemma liveness_new_tables:
  assumes wf: "wf_cfg g" and e: "entry_node g = Some e" and t: "compute_dominator_tree g = Some t"
  shows "\<exists>lv ord. liveness_new region g t = Some lv \<and> live_tables region g e lv ord"
proof -
  obtain d po where d: "dfs_traversal g = Some d" "numbered g e d po" using dfs_traversal_numbered[OF wf e] by blast
  note N = d(2)[unfolded numbered_def]
  obtain rpo da where T: "tree_of g e t rpo da" using compute_dominator_tree_of[OF wf e] t by auto
  let ?ord = "rev po" and ?n = "length po"
  have o: "distinct ?ord" "set ?ord = {v. reaches g e v}" using N by auto
  have s: "dom_tree_to_sdom_tree ?n (index_of ?ord) t = Some (map (sdoms g e ?ord) [0..<?n])"
    using sdom_tree_correct[OF T o] by simp
  obtain es where es: "collect_edges g d (index_of ?ord) (map (sdoms g e ?ord) [0..<?n]) (enumerate 0 ?ord)
      \<lparr>es_reduced_successors = replicate ?n {}, es_back_edge_targets = {},
       es_back_edges_by_source = replicate ?n [], all_reducible = True\<rparr> = Some es"
      "edge_sets_for ?n (sdoms g e ?ord) (order_edges g ?ord) es"
    using collect_edges_correct[OF d(2)] by blast
  note E = edge_sets_forD[OF es(2)]
  have rs: "es_reduced_successors es ! i = {j. ahead g ?ord i j}" if "i < ?n" for i
    unfolding E(3)[OF that] order_edges_def ahead_def using that by auto
  have bs: "set (es_back_edges_by_source es ! i) = {j. back_edge g ?ord i j}" if "i < ?n" for i
    unfolding E(4)[OF that] order_edges_def back_edge_def using that by auto
  have targets: "es_back_edge_targets es = {j. \<exists>i. back_edge g ?ord i j}"
    unfolding E(5) order_edges_def back_edge_def by auto
  have red: "all_reducible es \<longleftrightarrow> (\<forall>i j. back_edge g ?ord i j \<longrightarrow> j < i \<longrightarrow> i \<in> sdoms g e ?ord j)"
    unfolding E(6) order_edges_def back_edge_def by auto
  have r: "compute_reduced_reachability (es_reduced_successors es) = Some (map (reach_set g ?ord) [0..<?n])"
    using reduced_reachability_correct[of "es_reduced_successors es" ?ord g] E(1) rs by simp
  have u: "compute_t_up_sets (map (reach_set g ?ord) [0..<?n]) (es_back_edges_by_source es)
      = Some (map (\<lambda>t. {j. up_edge g ?ord t j}) [0..<?n])"
    using t_up_correct[of "es_back_edges_by_source es" ?ord g] E(2) bs by simp
  have "\<exists>i < ?n. ?ord ! i = v" if "v \<in> set po" for v using that by (metis in_set_conv_nth length_rev set_rev)
  then obtain ix where ix: "\<And>v. v \<in> set po \<Longrightarrow> ix v < ?n \<and> ?ord ! ix v = v" by metis
  have im: "omap (index_of ?ord) vs = Some (map ix vs)" if "set vs \<subseteq> set po" for vs
    by (rule omap_Some) (use that ix index_of_Some[OF o(1)] in auto)
  have dpre: "set (map fst d) \<subseteq> set po" using N by auto
  have b: "\<forall>i \<in> set (map ix (map fst d)). i < ?n" "\<forall>i \<in> set (map ix po). i < ?n" using ix dpre by auto
  obtain tq where tq: "compute_tq_sets (map (\<lambda>t. {j. up_edge g ?ord t j}) [0..<?n]) (es_reduced_successors es)
        (es_back_edges_by_source es) (es_back_edge_targets es) (map ix (map fst d)) (map ix po) = Some tq"
      "length tq = ?n" "\<forall>q < ?n. q \<in> tq ! q \<and> (\<forall>x \<in> tq ! q. x = q \<or> x \<in> es_back_edge_targets es \<and> tq_chain g ?ord q x)"
    using tq_sets_correct[of _ g ?ord, OF refl, unfolded length_rev, OF E(1) rs E(2) bs b] by blast
  let ?lv = "\<lparr>lv_region = region, lv_is_reducible = all_reducible es, lv_sdom_tree = map (sdoms g e ?ord) [0..<?n],
       lv_block_to_index = index_of ?ord, lv_reduced_reachability = map (reach_set g ?ord) [0..<?n],
       lv_tq_sets = tq, lv_back_edge_targets = es_back_edge_targets es\<rparr>"
  have "dfs_reverse_post_order d = Some ?ord" "dfs_pre_order d = Some (map fst d)" using N by blast+
  then have new: "liveness_new region g t = Some ?lv"
    using d(1) s es(1) r u im[OF dpre] im[of po] tq(1) by (simp add: liveness_new_def Let_def)
  have cyc: "(ahead g ?ord)\<^sup>*\<^sup>* j i" if "back_edge g ?ord i j" for i j
    using back_edge_cycle[OF d(2), of i j] that by (simp add: back_edge_def)
  have "live_tables region g e ?lv ?ord"
    unfolding live_tables_def using N targets red tq(2,3) cyc by simp
  then show ?thesis using new by blast
qed

section \<open>Paths that avoid the definition\<close>

text \<open>
  The specification: a value defined in block \<open>a\<close> is live at the start of \<open>q\<close> when a path from \<open>q\<close>
  leads to a use without passing \<open>a\<close>, and at the end of \<open>q\<close> when such a path starts at a successor of \<open>q\<close>.
\<close>

definition live_in_spec :: "'n cfg \<Rightarrow> 'n \<Rightarrow> 'n set \<Rightarrow> 'n \<Rightarrow> bool" where
  "live_in_spec g a us q \<longleftrightarrow> (\<exists>u \<in> us. \<exists>p. is_path g q p u \<and> a \<notin> set p)"

definition live_out_spec :: "'n cfg \<Rightarrow> 'n \<Rightarrow> 'n set \<Rightarrow> 'n \<Rightarrow> bool" where
  "live_out_spec g a us q \<longleftrightarrow> (\<exists>s. edge g q s \<and> live_in_spec g a us s)"

definition off :: "'n cfg \<Rightarrow> 'n list \<Rightarrow> nat \<Rightarrow> nat \<Rightarrow> nat \<Rightarrow> bool" where
  "off g ord a i j \<longleftrightarrow> i \<noteq> a \<and> j \<noteq> a \<and> i < length ord \<and> j < length ord \<and> edge g (ord ! i) (ord ! j)"

lemma off_path:
  assumes "distinct ord" and "a < length ord" and "i < length ord" and "i \<noteq> a" and "(off g ord a)\<^sup>*\<^sup>* i j"
  shows "\<exists>p. is_path g (ord ! i) p (ord ! j) \<and> ord ! a \<notin> set p"
  using assms(5)
proof (induction rule: rtranclp_induct)
  case base
  have "ord ! i \<noteq> ord ! a" using assms(1-4) nth_eq_iff_index_eq by metis
  then show ?case by (intro exI[of _ "[ord ! i]"]) simp
next
  case (step j k)
  then obtain p where p: "is_path g (ord ! i) p (ord ! j)" "ord ! a \<notin> set p" by blast
  have "ord ! k \<noteq> ord ! a" using step.hyps(2) assms(1,2) nth_eq_iff_index_eq unfolding off_def by metis
  moreover have "is_path g (ord ! i) (p @ [ord ! k]) (ord ! k)"
    using p(1) step.hyps(2) is_path_ends[OF p(1)] by (auto simp: is_path_snoc off_def)
  ultimately show ?case using p(2) by (intro exI[of _ "p @ [ord ! k]"]) simp
qed

lemma ahead_off:
  assumes "a < i" and "i < length ord" and "(ahead g ord)\<^sup>*\<^sup>* i j"
  shows "(off g ord a)\<^sup>*\<^sup>* i j"
  using assms(3)
proof (induction rule: rtranclp_induct)
  case (step j k)
  have "i \<le> j" using ahead_le[OF step.hyps(1)] .
  then have "off g ord a j k" using step.hyps(2) assms(1) by (auto simp: off_def ahead_def)
  then show ?case using step.IH by (rule rtranclp.rtrancl_into_rtrancl[rotated])
qed simp

section \<open>Dominance and the order\<close>

lemma entry_ahead:
  assumes rp: "rpo_of g e ord"
  shows "i < length ord \<Longrightarrow> (ahead g ord)\<^sup>*\<^sup>* 0 i"
proof (induction i rule: less_induct)
  case (less i)
  show ?case
  proof (cases "i = 0")
    case False
    then obtain j where j: "j < i" "edge g (ord ! j) (ord ! i)" using rpo_ofD(5)[OF rp, of i] less.prems by blast
    then have "ahead g ord j i" using less.prems by (simp add: ahead_def)
    moreover have "(ahead g ord)\<^sup>*\<^sup>* 0 j" using less.IH[OF j(1)] j(1) less.prems by simp
    ultimately show ?thesis by (rule rtranclp.rtrancl_into_rtrancl[rotated])
  qed simp
qed

lemma sdoms_reached:
  assumes rp: "rpo_of g e ord" and a: "a < length ord" and j: "j \<in> sdoms g e ord a"
  shows "(ahead g ord)\<^sup>*\<^sup>* a j" and "a < j" and "j < length ord"
proof -
  have jn: "j < length ord" "j \<noteq> a" "doms g e (ord ! a) (ord ! j)" using j by (auto simp: sdoms_def)
  have "(\<exists>p. is_path g e p (ord ! k) \<and> ord ! a \<notin> set p) \<or> (ahead g ord)\<^sup>*\<^sup>* a k"
    if "(ahead g ord)\<^sup>*\<^sup>* 0 k" for k
    using that
  proof (induction rule: rtranclp_induct)
    case base
    show ?case
    proof (cases "a = 0")
      case False
      then have "ord ! a \<noteq> e" using nth_eq_iff_index_eq[OF rpo_ofD(1)[OF rp] a rpo_ofD(3)[OF rp]] rpo_ofD(4)[OF rp] by simp
      then have "is_path g e [e] (ord ! 0) \<and> ord ! a \<notin> set [e]" using rpo_ofD(4)[OF rp] by simp
      then show ?thesis by blast
    qed simp
  next
    case (step i k)
    consider "k = a" | "k \<noteq> a" "(ahead g ord)\<^sup>*\<^sup>* a i"
      | p where "k \<noteq> a" "is_path g e p (ord ! i)" "ord ! a \<notin> set p" using step.IH by blast
    then show ?case
    proof cases
      case 2
      then show ?thesis using step.hyps(2) rtranclp.rtrancl_into_rtrancl by metis
    next
      case 3
      have k: "k < length ord" "edge g (ord ! i) (ord ! k)" using step.hyps(2) by (simp_all add: ahead_def)
      have "ord ! k \<noteq> ord ! a" using nth_eq_iff_index_eq[OF rpo_ofD(1)[OF rp] k(1) a] 3(1) by simp
      moreover have "is_path g e (p @ [ord ! k]) (ord ! k)"
        using 3(2) k(2) is_path_ends[OF 3(2)] by (auto simp: is_path_snoc)
      ultimately have "is_path g e (p @ [ord ! k]) (ord ! k) \<and> ord ! a \<notin> set (p @ [ord ! k])" using 3(3) by simp
      then show ?thesis by blast
    qed simp
  qed
  from this[OF entry_ahead[OF rp jn(1)]] show "(ahead g ord)\<^sup>*\<^sup>* a j" using jn(3) unfolding doms_def by blast
  then show "a < j" using ahead_le[of g ord a j] jn(2) by linarith
  show "j < length ord" by (rule jn(1))
qed

lemma sdoms_pred:
  assumes rp: "rpo_of g e ord" and a: "a < length ord" and "j \<in> sdoms g e ord a"
    and "i < length ord" and "edge g (ord ! i) (ord ! j)"
  shows "i = a \<or> i \<in> sdoms g e ord a"
proof -
  have "ord ! a \<noteq> ord ! j" using assms(3) nth_eq_iff_index_eq[OF rpo_ofD(1)[OF rp] a, of j] by (auto simp: sdoms_def)
  moreover have "reaches g e (ord ! i)" using rpo_ofD(2)[OF rp] nth_mem[OF assms(4)] by blast
  ultimately have "doms g e (ord ! a) (ord ! i)"
    using strict_dom_pred[OF _ _ assms(5)] assms(3) by (auto simp: sdoms_def)
  then show ?thesis using assms(4) by (auto simp: sdoms_def)
qed

lemma ahead_into_sdoms:
  assumes rp: "rpo_of g e ord" and a: "a < length ord" and "(ahead g ord)\<^sup>*\<^sup>* t r" and r: "r \<in> sdoms g e ord a"
    and "t < length ord"
  shows "t \<in> sdoms g e ord a \<or> (ahead g ord)\<^sup>*\<^sup>* t a"
  using assms(3,4)
proof (induction rule: rtranclp_induct)
  case (step i j)
  have "i \<in> reach_set g ord t" using step.hyps(1) by (simp add: reach_set_def)
  then have "i < length ord" using reach_set_bound[OF assms(5)] by blast
  then have "i = a \<or> i \<in> sdoms g e ord a"
    using sdoms_pred[OF rp a step.prems] step.hyps(2) by (simp add: ahead_def)
  then show ?case using step.IH step.hyps(1) by blast
qed simp

section \<open>Chains stay below the definition\<close>

lemma back_below:
  assumes rp: "rpo_of g e ord" and a: "a < length ord" and "back_edge g ord y x" and x: "x \<in> sdoms g e ord a"
  shows "y \<in> sdoms g e ord a" and "off g ord a y x"
proof -
  have y: "x \<le> y" "y < length ord" "edge g (ord ! y) (ord ! x)" using assms(3) by (auto simp: back_edge_def)
  have "a < x" using sdoms_reached(2)[OF rp a x] .
  then show "y \<in> sdoms g e ord a" using sdoms_pred[OF rp a x y(2,3)] y(1) by linarith
  show "off g ord a y x" using y \<open>a < x\<close> by (simp add: off_def)
qed

lemma up_below:
  assumes rp: "rpo_of g e ord" and a: "a < length ord" and up: "up_edge g ord t x" and x: "x \<in> sdoms g e ord a"
  shows "t \<in> sdoms g e ord a" and "(off g ord a)\<^sup>*\<^sup>* t x"
proof -
  obtain r where r: "(ahead g ord)\<^sup>*\<^sup>* t r" "back_edge g ord r x" and nx: "\<not> (ahead g ord)\<^sup>*\<^sup>* t x"
    using up by (auto simp: up_edge_def reach_set_def)
  have t: "t < length ord" using ahead_le[OF r(1)] r(2) by (simp add: back_edge_def)
  note b = back_below[OF rp a r(2) x]
  have "\<not> (ahead g ord)\<^sup>*\<^sup>* t a" using nx sdoms_reached(1)[OF rp a x] by (metis rtranclp_trans)
  then show ta: "t \<in> sdoms g e ord a" using ahead_into_sdoms[OF rp a r(1) b(1) t] by blast
  have "(off g ord a)\<^sup>*\<^sup>* t r" by (rule ahead_off[OF sdoms_reached(2)[OF rp a ta] t r(1)])
  then show "(off g ord a)\<^sup>*\<^sup>* t x" using b(2) by (rule rtranclp.rtrancl_into_rtrancl)
qed

lemma tq_chain_off:
  assumes rp: "rpo_of g e ord" and a: "a < length ord" and "tq_chain g ord q x"
    and q: "q \<in> sdoms g e ord a" and x: "x \<in> sdoms g e ord a"
  shows "(off g ord a)\<^sup>*\<^sup>* q x"
proof -
  obtain y z where c: "(ahead g ord)\<^sup>*\<^sup>* q y" "(back_edge g ord)\<^sup>*\<^sup>* y z" "(up_edge g ord)\<^sup>*\<^sup>* z x"
    using assms(3) by (auto simp: tq_chain_def)
  have "z \<in> sdoms g e ord a \<and> (off g ord a)\<^sup>*\<^sup>* z x" using c(3)
  proof (induction rule: converse_rtranclp_induct)
    case (step z w)
    then show ?case using up_below[OF rp a step.hyps(1)] rtranclp_trans[of "off g ord a" z w x] by blast
  qed (use x in simp)
  note z = conjunct1[OF this] conjunct2[OF this]
  have "(off g ord a)\<^sup>*\<^sup>* y z" using c(2)
  proof -
    have "y \<in> sdoms g e ord a \<and> (off g ord a)\<^sup>*\<^sup>* y z" using c(2)
    proof (induction rule: converse_rtranclp_induct)
      case (step y w)
      then show ?case using back_below[OF rp a step.hyps(1)] converse_rtranclp_into_rtranclp[of "off g ord a" y w z] by blast
    qed (use z in simp)
    then show ?thesis by blast
  qed
  moreover have "(off g ord a)\<^sup>*\<^sup>* q y"
    by (rule ahead_off[OF sdoms_reached(2,3)[OF rp a q] c(1)])
  ultimately show ?thesis using z(2) by (meson rtranclp_trans)
qed

section \<open>The queries on the tables\<close>

lemma reaches_use_tables:
  assumes "live_tables region g e lv ord" and "t < length ord"
  shows "reaches_use lv U t = Some (reach_set g ord t \<inter> U \<noteq> {})"
  using assms live_tablesD(5)[OF assms(1)] by (simp add: reaches_use_def)

lemma any_reaches_use:
  assumes L: "live_tables region g e lv ord" and A: "A \<subseteq> {..<length ord}"
  shows "oany (reaches_use lv U) (bits A) = Some (\<exists>t \<in> A. reach_set g ord t \<inter> U \<noteq> {})"
proof -
  have f: "finite A" using A finite_subset by blast
  have "oany (reaches_use lv U) (bits A) = Some (\<exists>t \<in> set (bits A). reach_set g ord t \<inter> U \<noteq> {})"
    by (rule oany_Some, rule reaches_use_tables[OF L]) (use A f in auto)
  then show ?thesis using f by simp
qed

lemma all_dominator_picks:
  "\<forall>d \<in> set (d0 # ds). d < length sdom \<Longrightarrow> \<exists>top \<in> set (d0 # ds). all_dominator sdom d0 ds = Some top"
proof (induction ds arbitrary: d0)
  case (Cons d1 ds)
  obtain top where "top \<in> set ((if d1 \<in> sdom ! d0 then d0 else d1) # ds)"
      "all_dominator sdom (if d1 \<in> sdom ! d0 then d0 else d1) ds = Some top"
    using Cons.IH[of "if d1 \<in> sdom ! d0 then d0 else d1"] Cons.prems by (auto split: if_splits)
  then show ?case using Cons.prems by (intro bexI[of _ top]) (auto split: if_splits)
qed simp

lemma tq_bound:
  assumes L: "live_tables region g e lv ord" and "q < length ord"
  shows "lv_tq_sets lv ! q \<subseteq> {..<length ord}"
proof
  fix x assume "x \<in> lv_tq_sets lv ! q"
  then consider "x = q" | i where "back_edge g ord i x"
    using live_tablesD(10)[OF L assms(2)] live_tablesD(6)[OF L] by blast
  then show "x \<in> {..<length ord}" using assms(2) by cases (auto simp: back_edge_def)
qed

lemma tq_off:
  assumes L: "live_tables region g e lv ord" and a: "a < length ord"
    and q: "q \<in> sdoms g e ord a" and t: "t \<in> lv_tq_sets lv ! q \<inter> sdoms g e ord a" and u: "u \<in> reach_set g ord t"
  shows "(off g ord a)\<^sup>*\<^sup>* q t" and "(off g ord a)\<^sup>*\<^sup>* t u"
proof -
  note rp = live_tablesD(1)[OF L]
  have qn: "q < length ord" by (rule sdoms_reached(3)[OF rp a q])
  show "(off g ord a)\<^sup>*\<^sup>* q t"
    using live_tablesD(10)[OF L qn, of t] t tq_chain_off[OF rp a _ q, of t] by blast
  have ta: "t \<in> sdoms g e ord a" using t by simp
  show "(off g ord a)\<^sup>*\<^sup>* t u"
    using ahead_off[OF sdoms_reached(2,3)[OF rp a ta]] u by (simp add: reach_set_def)
qed

lemma live_in_query_tables:
  assumes L: "live_tables region g e lv ord" and a: "a < length ord" and q: "q < length ord"
  shows "\<exists>b. live_in_query lv (ord ! a) (ord ! q) (Some U) = Some b
    \<and> (b \<longrightarrow> q \<in> sdoms g e ord a \<and> (\<exists>u \<in> U. (off g ord a)\<^sup>*\<^sup>* q u))
    \<and> ((\<nexists>i j. back_edge g ord i j) \<longrightarrow> (b \<longleftrightarrow> q \<in> sdoms g e ord a \<and> reach_set g ord q \<inter> U \<noteq> {}))"
proof -
  note T = live_tablesD[OF L] and rp = live_tablesD(1)[OF L]
  have ix: "lv_block_to_index lv (ord ! a) = Some a" "lv_block_to_index lv (ord ! q) = Some q"
    using T(3) rpo_ofD(1)[OF rp] a q by simp_all
  have sd: "oget (lv_sdom_tree lv) a = Some (sdoms g e ord a)" using T(4) a by simp
  have tq: "oget (lv_tq_sets lv) q = Some (lv_tq_sets lv ! q)" using T(8) q by simp
  let ?A = "lv_tq_sets lv ! q \<inter> sdoms g e ord a"
  have Ab: "?A \<subseteq> {..<length ord}" using tq_bound[OF L q] by blast
  then have Af: "finite ?A" using finite_subset by blast
  have acyc: "?A = {q}" if "\<nexists>i j. back_edge g ord i j" "q \<in> sdoms g e ord a"
    using T(9)[OF q] T(10)[OF q] that T(6) by blast
  show ?thesis
  proof (cases "q \<in> sdoms g e ord a \<and> U \<noteq> {}")
    case False
    then show ?thesis using ix sd by (auto simp: live_in_query_def)
  next
    case True
    then have qs: "q \<in> sdoms g e ord a" "U \<noteq> {}" by simp_all
    have sound: "\<exists>u \<in> U. (off g ord a)\<^sup>*\<^sup>* q u" if t: "t \<in> ?A" "reach_set g ord t \<inter> U \<noteq> {}" for t
    proof -
      obtain u where "u \<in> reach_set g ord t" "u \<in> U" using t(2) by blast
      then show ?thesis using tq_off[OF L a qs(1) t(1)] by (meson rtranclp_trans)
    qed
    show ?thesis
    proof (cases "lv_is_reducible lv")
      case True
      have "q \<in> ?A" using T(9)[OF q] qs(1) by simp
      then have "bits ?A \<noteq> []" using set_bits[OF Af] by (metis empty_iff empty_set)
      then obtain d ds where d: "bits ?A = d # ds" by (cases "bits ?A") auto
      have inA: "set (d # ds) = ?A" using set_bits[OF Af] d by simp
      have "\<forall>x \<in> set (d # ds). x < length (lv_sdom_tree lv)" unfolding inA using Ab T(4) by auto
      then obtain top where top: "top \<in> ?A" "all_dominator (lv_sdom_tree lv) d ds = Some top"
        using all_dominator_picks[of d ds "lv_sdom_tree lv"] inA by blast
      have r: "reaches_use lv U top = Some (reach_set g ord top \<inter> U \<noteq> {})"
        by (rule reaches_use_tables[OF L]) (use top(1) Ab in auto)
      have "live_in_query lv (ord ! a) (ord ! q) (Some U) = Some (reach_set g ord top \<inter> U \<noteq> {})"
        using ix sd tq True qs d top(2) r by (simp add: live_in_query_def Let_def)
      moreover have "top = q" if "\<nexists>i j. back_edge g ord i j" using acyc[OF that qs(1)] top(1) by blast
      ultimately show ?thesis using sound[OF top(1)] qs(1)
        by (intro exI[of _ "reach_set g ord top \<inter> U \<noteq> {}"]) auto
    next
      case False
      have "live_in_query lv (ord ! a) (ord ! q) (Some U) = Some (\<exists>t \<in> ?A. reach_set g ord t \<inter> U \<noteq> {})"
        using ix sd tq False qs any_reaches_use[OF L Ab, of U] by (simp add: live_in_query_def Let_def)
      then show ?thesis using sound acyc qs(1) by auto
    qed
  qed
qed

lemma live_out_query_tables:
  assumes L: "live_tables region g e lv ord" and a: "a < length ord" and q: "q < length ord"
  shows "\<exists>b. live_out_query lv (ord ! a) (ord ! q) (Some U) = Some b
    \<and> (b \<longrightarrow> (if a = q then \<exists>u \<in> U. u \<noteq> q else q \<in> sdoms g e ord a \<and> (\<exists>u \<in> U. (off g ord a)\<^sup>+\<^sup>+ q u)))
    \<and> ((\<nexists>i j. back_edge g ord i j) \<longrightarrow>
        (b \<longleftrightarrow> (if a = q then \<exists>u \<in> U. u \<noteq> q else q \<in> sdoms g e ord a \<and> reach_set g ord q \<inter> (U - {q}) \<noteq> {})))"
proof -
  note T = live_tablesD[OF L] and rp = live_tablesD(1)[OF L]
  have ix: "lv_block_to_index lv (ord ! a) = Some a" "lv_block_to_index lv (ord ! q) = Some q"
    using T(3) rpo_ofD(1)[OF rp] a q by simp_all
  have eq: "ord ! a = ord ! q \<longleftrightarrow> a = q" using nth_eq_iff_index_eq[OF rpo_ofD(1)[OF rp] a q] .
  have sd: "oget (lv_sdom_tree lv) a = Some (sdoms g e ord a)" using T(4) a by simp
  have tq: "oget (lv_tq_sets lv) q = Some (lv_tq_sets lv ! q)" using T(8) q by simp
  let ?A = "lv_tq_sets lv ! q \<inter> sdoms g e ord a" and ?B = "lv_back_edge_targets lv"
  have Ab: "?A \<subseteq> {..<length ord}" "?A - {q} \<subseteq> {..<length ord}" using tq_bound[OF L q] by blast+
  consider "a = q" | "a \<noteq> q" "\<not> (q \<in> sdoms g e ord a \<and> U \<noteq> {})" | "a \<noteq> q" "q \<in> sdoms g e ord a" "U \<noteq> {}" by blast
  then show ?thesis
  proof cases
    case 1
    then show ?thesis using ix by (simp add: live_out_query_def)
  next
    case 2
    then show ?thesis using ix sd eq by (auto simp: live_out_query_def)
  next
    case 3
    have qA: "q \<in> ?A" using T(9)[OF q] 3(2) by simp
    have acyc: "?A = {q}" "q \<notin> ?B" if "\<nexists>i j. back_edge g ord i j"
      using qA T(10)[OF q] T(6) that by blast+
    have strict: "(off g ord a)\<^sup>+\<^sup>+ q u"
      if t: "t \<in> ?A" and u: "u \<in> reach_set g ord t" and ne: "t \<noteq> q \<or> q \<in> ?B \<or> u \<noteq> q" for t u
    proof -
      note o = tq_off[OF L a 3(2) t u]
      consider "q \<noteq> u" | "q = u" "t \<noteq> q" | i where "q = u" "t = q" "back_edge g ord i q"
        using ne T(6) by blast
      then show ?thesis
      proof cases
        case 1 then show ?thesis using rtranclp_trans[OF o] by (metis rtranclpD)
      next
        case 2 then show ?thesis using o by (metis rtranclpD rtranclp_tranclp_tranclp)
      next
        case 3
        note b = back_below[OF rp a 3(3) \<open>q \<in> sdoms g e ord a\<close>]
        have "(off g ord a)\<^sup>*\<^sup>* q i"
          using ahead_off[OF sdoms_reached(2,3)[OF rp a \<open>q \<in> sdoms g e ord a\<close>] T(11)[OF 3(3)]] .
        then show ?thesis using b(2) 3(1) by (metis rtranclp_into_tranclp1)
      qed
    qed
    have some: "\<exists>u \<in> U. (off g ord a)\<^sup>+\<^sup>+ q u"
      if t: "t \<in> ?A" "reach_set g ord t \<inter> U \<noteq> {}" "t \<noteq> q \<or> q \<in> ?B" for t
    proof -
      obtain u where u: "u \<in> reach_set g ord t" "u \<in> U" using t(2) by blast
      have "t \<noteq> q \<or> q \<in> ?B \<or> u \<noteq> q" using t(3) by blast
      from strict[OF t(1) u(1) this] show ?thesis using u(2) ..
    qed
    show ?thesis
    proof (cases "q \<in> ?B")
      case True
      have "live_out_query lv (ord ! a) (ord ! q) (Some U) = Some (\<exists>t \<in> ?A. reach_set g ord t \<inter> U \<noteq> {})"
        using ix sd tq True 3 eq any_reaches_use[OF L Ab(1), of U] by (simp add: live_out_query_def Let_def)
      then show ?thesis using some True 3 acyc(2) by auto
    next
      case False
      have "live_out_query lv (ord ! a) (ord ! q) (Some U)
          = Some (reach_set g ord q \<inter> (U - {q}) \<noteq> {} \<or> (\<exists>t \<in> ?A - {q}. reach_set g ord t \<inter> U \<noteq> {}))"
        using ix sd tq False 3 eq qA any_reaches_use[OF L Ab(2), of U] reaches_use_tables[OF L q, of "U - {q}"]
        by (simp add: live_out_query_def Let_def)
      moreover have "\<exists>u \<in> U. (off g ord a)\<^sup>+\<^sup>+ q u" if "reach_set g ord q \<inter> (U - {q}) \<noteq> {}"
        using that strict[OF qA] by blast
      ultimately show ?thesis using some 3 acyc(1) by auto
    qed
  qed
qed

section \<open>From positions to nodes\<close>

text \<open>The bit set for the blocks \<open>us\<close>, as \<open>use_blocks_in_region\<close> collects it: blocks without an index are skipped.\<close>

definition use_indices :: "('r, 'n) liveness_tq \<Rightarrow> 'n set \<Rightarrow> nat set" where
  "use_indices lv us = Option.these (lv_block_to_index lv ` us)"

lemma use_indices_tables:
  assumes "live_tables region g e lv ord"
  shows "u \<in> use_indices lv us \<longleftrightarrow> u < length ord \<and> ord ! u \<in> us"
proof -
  have "u \<in> use_indices lv us \<longleftrightarrow> (\<exists>v \<in> us. index_of ord v = Some u)"
    using live_tablesD(3)[OF assms] by (auto simp: use_indices_def Option.these_def image_iff)
  then show ?thesis using index_of_Some[OF rpo_ofD(1)[OF live_tablesD(1)[OF assms]]] by auto
qed

lemma order_positions:
  assumes "rpo_of g e ord" and "reaches g e v"
  shows "\<exists>i < length ord. ord ! i = v"
  using rpo_ofD(2)[OF assms(1)] assms(2) by (metis in_set_conv_nth mem_Collect_eq)

lemma sdoms_nodes:
  assumes rp: "rpo_of g e ord" and "a < length ord" and "q < length ord"
  shows "q \<in> sdoms g e ord a \<longleftrightarrow> ord ! a \<noteq> ord ! q \<and> doms g e (ord ! a) (ord ! q)"
  using assms nth_eq_iff_index_eq[OF rpo_ofD(1)[OF rp], of a q] by (auto simp: sdoms_def)

lemma off_live_in:
  assumes L: "live_tables region g e lv ord" and "a < length ord" and "q < length ord" and "q \<noteq> a"
    and "(off g ord a)\<^sup>*\<^sup>* q u" and "u \<in> use_indices lv us"
  shows "live_in_spec g (ord ! a) us (ord ! q)"
  using off_path[OF rpo_ofD(1)[OF live_tablesD(1)[OF L]] assms(2-5)] assms(6) use_indices_tables[OF L]
  unfolding live_in_spec_def by blast

lemma off_live_out:
  assumes L: "live_tables region g e lv ord" and a: "a < length ord"
    and "(off g ord a)\<^sup>+\<^sup>+ q u" and u: "u \<in> use_indices lv us"
  shows "live_out_spec g (ord ! a) us (ord ! q)"
proof -
  obtain s where s: "off g ord a q s" "(off g ord a)\<^sup>*\<^sup>* s u" using assms(3) by (meson tranclpD)
  then have "live_in_spec g (ord ! a) us (ord ! s)"
    using off_live_in[OF L a _ _ s(2) u] by (simp add: off_def)
  then show ?thesis using s(1) unfolding live_out_spec_def off_def by blast
qed

lemma live_in_nodes:
  assumes L: "live_tables region g e lv ord" and "reaches g e a" and "reaches g e q"
  shows "\<exists>b. live_in_query lv a q (Some (use_indices lv us)) = Some b
    \<and> (b \<longrightarrow> a \<noteq> q \<and> doms g e a q \<and> live_in_spec g a us q)"
proof -
  note rp = live_tablesD(1)[OF L]
  obtain i j where i: "i < length ord" "ord ! i = a" and j: "j < length ord" "ord ! j = q"
    using order_positions[OF rp] assms(2,3) by metis
  obtain b where b: "live_in_query lv a q (Some (use_indices lv us)) = Some b"
      "b \<longrightarrow> j \<in> sdoms g e ord i \<and> (\<exists>u \<in> use_indices lv us. (off g ord i)\<^sup>*\<^sup>* j u)"
    using live_in_query_tables[OF L i(1) j(1), of "use_indices lv us"] i(2) j(2) by blast
  have "a \<noteq> q \<and> doms g e a q \<and> live_in_spec g a us q" if bt: "b"
  proof -
    obtain u where u: "j \<in> sdoms g e ord i" "u \<in> use_indices lv us" "(off g ord i)\<^sup>*\<^sup>* j u" using b(2) bt by blast
    have "j \<noteq> i" using u(1) by (simp add: sdoms_def)
    then show ?thesis using off_live_in[OF L i(1) j(1) _ u(3,2)] sdoms_nodes[OF rp i(1) j(1)] u(1) i(2) j(2) by simp
  qed
  then show ?thesis using b(1) by blast
qed

lemma live_out_nodes:
  assumes L: "live_tables region g e lv ord" and "reaches g e a" and "reaches g e q"
    and uses: "\<forall>u \<in> us. reaches g e u \<longrightarrow> doms g e a u"
  shows "\<exists>b. live_out_query lv a q (Some (use_indices lv us)) = Some b
    \<and> (b \<longrightarrow> doms g e a q \<and> live_out_spec g a us q)"
proof -
  note rp = live_tablesD(1)[OF L]
  obtain i j where i: "i < length ord" "ord ! i = a" and j: "j < length ord" "ord ! j = q"
    using order_positions[OF rp] assms(2,3) by metis
  obtain b where b: "live_out_query lv a q (Some (use_indices lv us)) = Some b"
      "b \<longrightarrow> (if i = j then \<exists>u \<in> use_indices lv us. u \<noteq> j
         else j \<in> sdoms g e ord i \<and> (\<exists>u \<in> use_indices lv us. (off g ord i)\<^sup>+\<^sup>+ j u))"
    using live_out_query_tables[OF L i(1) j(1), of "use_indices lv us"] i(2) j(2) by blast
  have "doms g e a q \<and> live_out_spec g a us q" if bt: "b"
  proof (cases "i = j")
    case True
    then obtain u where u: "u \<in> use_indices lv us" "u \<noteq> i" using b(2) bt by auto
    then have un: "u < length ord" "ord ! u \<in> us" using use_indices_tables[OF L] by blast+
    have "reaches g e (ord ! u)" using rpo_ofD(2)[OF rp] nth_mem[OF un(1)] by blast
    then have us: "u \<in> sdoms g e ord i" using uses un u(2) i(2) by (simp add: sdoms_def)
    obtain s where s: "ahead g ord i s" "(ahead g ord)\<^sup>*\<^sup>* s u"
      using sdoms_reached(1)[OF rp i(1) us] u(2) by (metis converse_rtranclpE)
    have "live_in_spec g (ord ! i) us (ord ! s)"
      by (rule off_live_in[OF L i(1) _ _ ahead_off[OF _ _ s(2)] u(1)]) (use s(1) in \<open>auto simp: ahead_def\<close>)
    then have "live_out_spec g a us q"
      using s(1) i(2) j(2) True unfolding live_out_spec_def ahead_def by auto
    then show ?thesis using doms_refl[OF assms(2)] True i(2) j(2) by simp
  next
    case False
    then obtain u where u: "j \<in> sdoms g e ord i" "u \<in> use_indices lv us" "(off g ord i)\<^sup>+\<^sup>+ j u" using b(2) bt by auto
    show ?thesis using off_live_out[OF L i(1) u(3,2)] sdoms_nodes[OF rp i(1) j(1)] u(1) i(2) j(2) by simp
  qed
  then show ?thesis using b(1) by blast
qed

section \<open>Graphs without cycles\<close>

definition acyclic_from :: "'n cfg \<Rightarrow> 'n \<Rightarrow> bool" where
  "acyclic_from g e \<longleftrightarrow> (\<forall>v. reaches g e v \<longrightarrow> \<not> (edge g)\<^sup>+\<^sup>+ v v)"

lemma ahead_edges: "(ahead g ord)\<^sup>*\<^sup>* i j \<Longrightarrow> (edge g)\<^sup>*\<^sup>* (ord ! i) (ord ! j)"
  by (induction rule: rtranclp_induct) (auto simp: ahead_def)

lemma acyclic_no_back:
  assumes L: "live_tables region g e lv ord" and "acyclic_from g e"
  shows "\<not> back_edge g ord i j"
proof
  assume b: "back_edge g ord i j"
  have "(edge g)\<^sup>*\<^sup>* (ord ! j) (ord ! i)" by (rule ahead_edges[OF live_tablesD(11)[OF L b]])
  then have "(edge g)\<^sup>+\<^sup>+ (ord ! i) (ord ! i)" using b by (metis back_edge_def rtranclp_into_tranclp2)
  moreover have "reaches g e (ord ! i)"
    using rpo_ofD(2)[OF live_tablesD(1)[OF L]] nth_mem[of i ord] b by (auto simp: back_edge_def)
  ultimately show False using assms(2) by (simp add: acyclic_from_def)
qed

lemma acyclic_edge:
  assumes L: "live_tables region g e lv ord" and "acyclic_from g e" and i: "i < length ord" and "edge g (ord ! i) v"
  shows "\<exists>j < length ord. ord ! j = v \<and> ahead g ord i j"
proof -
  note rp = live_tablesD(1)[OF L]
  have "reaches g e (ord ! i)" using rpo_ofD(2)[OF rp] nth_mem[OF i] by blast
  then obtain j where j: "j < length ord" "ord ! j = v" using order_positions[OF rp reaches_step[OF _ assms(4)]] by blast
  have "\<not> j \<le> i" using acyclic_no_back[OF L assms(2), of i j] i j assms(4) by (simp add: back_edge_def)
  then show ?thesis using j assms(4) by (auto simp: ahead_def)
qed

lemma acyclic_path:
  assumes L: "live_tables region g e lv ord" and ac: "acyclic_from g e"
  shows "is_path g (ord ! i) p v \<Longrightarrow> i < length ord \<Longrightarrow> \<exists>j < length ord. ord ! j = v \<and> (ahead g ord)\<^sup>*\<^sup>* i j"
proof (induction p arbitrary: i)
  case (Cons x p)
  show ?case
  proof (cases "p = []")
    case False
    then obtain y where y: "edge g (ord ! i) y" "is_path g y p v" using Cons.prems(1) by (auto simp: is_path_Cons)
    obtain k where k: "k < length ord" "ord ! k = y" "ahead g ord i k" using acyclic_edge[OF L ac Cons.prems(2) y(1)] by blast
    obtain j where "j < length ord" "ord ! j = v" "(ahead g ord)\<^sup>*\<^sup>* k j" using Cons.IH[of k] y(2) k(1,2) by blast
    then show ?thesis using converse_rtranclp_into_rtranclp[of "ahead g ord", OF k(3)] by blast
  qed (use Cons.prems in \<open>auto simp: is_path_Cons\<close>)
qed simp

lemma live_exact:
  assumes L: "live_tables region g e lv ord" and ac: "acyclic_from g e" and "reaches g e a" and "reaches g e q"
    and uses: "\<forall>u \<in> us. reaches g e u \<longrightarrow> doms g e a u"
  shows "live_in_query lv a q (Some (use_indices lv us)) = Some (a \<noteq> q \<and> doms g e a q \<and> live_in_spec g a us q)"
    and "live_out_query lv a q (Some (use_indices lv us)) = Some (doms g e a q \<and> live_out_spec g a us q)"
proof -
  note rp = live_tablesD(1)[OF L] and nb = acyclic_no_back[OF L ac]
  obtain i j where i: "i < length ord" "ord ! i = a" and j: "j < length ord" "ord ! j = q"
    using order_positions[OF rp] assms(3,4) by metis
  have sp: "\<exists>u \<in> use_indices lv us. (ahead g ord)\<^sup>*\<^sup>* k u \<and> ord ! u \<noteq> a" if l: "live_in_spec g a us (ord ! k)" "k < length ord" for k
  proof -
    obtain u p where p: "u \<in> us" "is_path g (ord ! k) p u" "a \<notin> set p" using l(1) by (auto simp: live_in_spec_def)
    obtain l where l: "l < length ord" "ord ! l = u" "(ahead g ord)\<^sup>*\<^sup>* k l" using acyclic_path[OF L ac p(2) l(2)] by blast
    have "u \<noteq> a" using is_path_ends[OF p(2)] p(3) last_in_set by metis
    then show ?thesis using l p(1) use_indices_tables[OF L, of l us] by blast
  qed
  show "live_in_query lv a q (Some (use_indices lv us)) = Some (a \<noteq> q \<and> doms g e a q \<and> live_in_spec g a us q)"
  proof -
    obtain b where b: "live_in_query lv a q (Some (use_indices lv us)) = Some b"
        "b \<longleftrightarrow> j \<in> sdoms g e ord i \<and> reach_set g ord j \<inter> use_indices lv us \<noteq> {}"
      using live_in_query_tables[OF L i(1) j(1), of "use_indices lv us"] nb i(2) j(2) by blast
    have "b" if h: "a \<noteq> q \<and> doms g e a q \<and> live_in_spec g a us q"
    proof -
      have "j \<in> sdoms g e ord i" using h sdoms_nodes[OF rp i(1) j(1)] i(2) j(2) by simp
      moreover obtain u where "u \<in> use_indices lv us" "(ahead g ord)\<^sup>*\<^sup>* j u" using sp[of j] h j by blast
      then have "u \<in> reach_set g ord j \<inter> use_indices lv us" by (simp add: reach_set_def)
      ultimately show ?thesis using b(2) by blast
    qed
    moreover have "a \<noteq> q \<and> doms g e a q \<and> live_in_spec g a us q" if "b"
      using live_in_nodes[OF L assms(3,4), of us] b(1) that by (elim exE conjE) simp
    ultimately have "b = (a \<noteq> q \<and> doms g e a q \<and> live_in_spec g a us q)" by blast
    then show ?thesis using b(1) by simp
  qed
  show "live_out_query lv a q (Some (use_indices lv us)) = Some (doms g e a q \<and> live_out_spec g a us q)"
  proof -
    obtain b where b: "live_out_query lv a q (Some (use_indices lv us)) = Some b"
        "b \<longleftrightarrow> (if i = j then \<exists>u \<in> use_indices lv us. u \<noteq> j
           else j \<in> sdoms g e ord i \<and> reach_set g ord j \<inter> (use_indices lv us - {j}) \<noteq> {})"
      using live_out_query_tables[OF L i(1) j(1), of "use_indices lv us"] nb i(2) j(2) by blast
    have "b" if h: "doms g e a q" "live_out_spec g a us q"
    proof -
      obtain s where s: "edge g q s" "live_in_spec g a us s" using h(2) by (auto simp: live_out_spec_def)
      obtain k where k: "k < length ord" "ord ! k = s" "ahead g ord j k" using acyclic_edge[OF L ac j(1)] s(1) j(2) by blast
      obtain u where u: "u \<in> use_indices lv us" "(ahead g ord)\<^sup>*\<^sup>* k u" "ord ! u \<noteq> a" using sp[of k] s(2) k(1,2) by blast
      have "j < u" using k(3) ahead_le[OF u(2)] by (simp add: ahead_def)
      moreover have "u \<in> reach_set g ord j" using k(3) u(2) by (simp add: reach_set_def converse_rtranclp_into_rtranclp)
      ultimately show ?thesis using b(2) u h(1) sdoms_nodes[OF rp i(1) j(1)] i(2) j nth_eq_iff_index_eq[OF rpo_ofD(1)[OF rp] i(1) j(1)]
        by auto
    qed
    moreover have "doms g e a q \<and> live_out_spec g a us q" if "b"
      using live_out_nodes[OF L assms(3,4) uses] b(1) that by (elim exE conjE) simp
    ultimately have "b = (doms g e a q \<and> live_out_spec g a us q)" by blast
    then show ?thesis using b(1) by simp
  qed
qed

section \<open>Properties\<close>

text \<open>
  C18. Liveness at block boundaries is sound: on every well-formed graph the precomputation and the
  queries do not panic, and whenever \<open>is_live_in_at_block\<close> answers true, the definition
  strictly dominates the block and a path from it reaches a use without passing the definition.
\<close>

theorem live_in_sound:
  assumes "wf_cfg g" and "entry_node g = Some e"
  shows "\<exists>t lv. compute_dominator_tree g = Some t \<and> liveness_new region g t = Some lv
    \<and> (\<forall>a q us. reaches g e a \<longrightarrow> reaches g e q \<longrightarrow>
         (\<exists>b. live_in_query lv a q (Some (use_indices lv us)) = Some b
            \<and> (b \<longrightarrow> a \<noteq> q \<and> doms g e a q \<and> live_in_spec g a us q)))"
proof -
  obtain t where t: "compute_dominator_tree g = Some t" using compute_dominator_tree_of[OF assms] by blast
  obtain lv ord where "liveness_new region g t = Some lv" "live_tables region g e lv ord"
    using liveness_new_tables[OF assms t, of region] by (elim exE conjE)
  note lv = this
  show ?thesis by (intro exI[of _ t] exI[of _ lv] conjI allI impI t lv(1) live_in_nodes[OF lv(2)])
qed

theorem live_in_sound_witness:
  "\<exists>t lv. compute_dominator_tree demo_cfg = Some t \<and> liveness_new () demo_cfg t = Some lv
    \<and> (\<forall>us. \<exists>b. live_in_query lv 11 13 (Some (use_indices lv us)) = Some b
         \<and> (b \<longrightarrow> live_in_spec demo_cfg 11 us 13))"
  using live_in_sound[OF demo_cfg_wf demo_cfg_entry] demo_reaches(1,2) by fast

text \<open>
  C19. The same for \<open>is_live_out_of_block\<close>, for a value whose definition dominates its reachable uses:
  when the answer is true the definition dominates the block (or is in it), and one of its successors
  has such a path.
\<close>

theorem live_out_sound:
  assumes "wf_cfg g" and "entry_node g = Some e"
  shows "\<exists>t lv. compute_dominator_tree g = Some t \<and> liveness_new region g t = Some lv
    \<and> (\<forall>a q us. reaches g e a \<longrightarrow> reaches g e q \<longrightarrow> (\<forall>u \<in> us. reaches g e u \<longrightarrow> doms g e a u) \<longrightarrow>
         (\<exists>b. live_out_query lv a q (Some (use_indices lv us)) = Some b
            \<and> (b \<longrightarrow> doms g e a q \<and> live_out_spec g a us q)))"
proof -
  obtain t where t: "compute_dominator_tree g = Some t" using compute_dominator_tree_of[OF assms] by blast
  obtain lv ord where "liveness_new region g t = Some lv" "live_tables region g e lv ord"
    using liveness_new_tables[OF assms t, of region] by (elim exE conjE)
  note lv = this
  show ?thesis by (intro exI[of _ t] exI[of _ lv] conjI allI impI t lv(1) live_out_nodes[OF lv(2)])
qed

theorem live_out_sound_witness:
  "\<exists>t lv. compute_dominator_tree demo_cfg = Some t \<and> liveness_new () demo_cfg t = Some lv
    \<and> (\<exists>b. live_out_query lv 13 13 (Some (use_indices lv {13})) = Some b
         \<and> (b \<longrightarrow> live_out_spec demo_cfg 13 {13} 13))"
proof -
  have "\<forall>u \<in> {13}. reaches demo_cfg 10 u \<longrightarrow> doms demo_cfg 10 13 u" by (simp add: doms_refl)
  then show ?thesis using live_out_sound[OF demo_cfg_wf demo_cfg_entry, of "()"] demo_reaches(2) by meson
qed

text \<open>
  C20. On graphs without cycles both queries are exact: true precisely when such a path exists.
\<close>

theorem liveness_exact_acyclic:
  assumes "wf_cfg g" and "entry_node g = Some e" and "acyclic_from g e"
  shows "\<exists>t lv. compute_dominator_tree g = Some t \<and> liveness_new region g t = Some lv
    \<and> (\<forall>a q us. reaches g e a \<longrightarrow> reaches g e q \<longrightarrow> (\<forall>u \<in> us. reaches g e u \<longrightarrow> doms g e a u) \<longrightarrow>
         live_in_query lv a q (Some (use_indices lv us)) = Some (a \<noteq> q \<and> doms g e a q \<and> live_in_spec g a us q)
         \<and> live_out_query lv a q (Some (use_indices lv us)) = Some (doms g e a q \<and> live_out_spec g a us q))"
proof -
  obtain t where t: "compute_dominator_tree g = Some t" using compute_dominator_tree_of[OF assms(1,2)] by blast
  obtain lv ord where "liveness_new region g t = Some lv" "live_tables region g e lv ord"
    using liveness_new_tables[OF assms(1,2) t, of region] by (elim exE conjE)
  note lv = this
  show ?thesis by (intro exI[of _ t] exI[of _ lv] conjI allI impI t lv(1) live_exact[OF lv(2) assms(3)])
qed

definition diamond_cfg :: "nat cfg" where
  "diamond_cfg = cfg_of [(0, [1, 2]), (1, [3]), (2, [3]), (3, [])]"

theorem liveness_exact_acyclic_witness:
  "\<exists>t lv. compute_dominator_tree diamond_cfg = Some t \<and> liveness_new () diamond_cfg t = Some lv
    \<and> live_in_query lv 0 1 (Some (use_indices lv {3}))
        = Some (doms diamond_cfg 0 0 1 \<and> live_in_spec diamond_cfg 0 {3} 1)"
proof -
  have wf: "wf_cfg diamond_cfg" unfolding diamond_cfg_def by (rule wf_cfg_of) (simp add: cfg_of_ok_def)
  have en: "entry_node diamond_cfg = Some 0" by (simp add: diamond_cfg_def cfg_of_def Let_def)
  have lt: "edge diamond_cfg u v \<Longrightarrow> u < v" for u v
    by (auto simp: edge_def diamond_cfg_def cfg_of_successors split: if_splits)
  have "u < v" if "(edge diamond_cfg)\<^sup>+\<^sup>+ u v" for u v
    using that by (induction rule: tranclp_induct) (auto dest: lt)
  then have ac: "acyclic_from diamond_cfg 0" unfolding acyclic_from_def by blast
  have r: "reaches diamond_cfg 0 0" "reaches diamond_cfg 0 1"
    using reaches_edge[of diamond_cfg 0 1] by (simp_all add: edge_def diamond_cfg_def cfg_of_successors)
  have "0 \<in> set p" if "is_path diamond_cfg 0 p v" for p v
    using is_path_ends[OF that] by (metis hd_in_set)
  then have "\<forall>u \<in> {3}. reaches diamond_cfg 0 u \<longrightarrow> doms diamond_cfg 0 0 u" by (auto simp: doms_def)
  from liveness_exact_acyclic[OF wf en ac, of "()"] obtain t lv where
      "compute_dominator_tree diamond_cfg = Some t" "liveness_new () diamond_cfg t = Some lv"
      "live_in_query lv 0 1 (Some (use_indices lv {3})) = Some (0 \<noteq> (1::nat) \<and> doms diamond_cfg 0 0 1 \<and> live_in_spec diamond_cfg 0 {3} 1)"
    using r \<open>\<forall>u \<in> {3}. reaches diamond_cfg 0 u \<longrightarrow> doms diamond_cfg 0 0 u\<close> by meson
  then show ?thesis by (intro exI[of _ t] exI[of _ lv]) simp
qed

text \<open>
  C21. With loops the answers can be wrong: both graphs below are reducible (\<open>lv_is_reducible\<close> holds) and the
  definition dominates the use, a path to which avoids the definition, but \<open>is_live_in_at_block\<close>
  answers false. In the first the query block 3 is the source of a back edge to 1 and has a
  forward edge to 5; the third phase of \<open>compute_tq_sets\<close> skips it, so the loop around 2
  that 5 closes is missed. In the second the candidates are the query block 1 and the loop header 4, and
  the search for one that dominates the others picks 4, though neither dominates the other.
\<close>

definition skipped_cfg :: "nat cfg" where
  "skipped_cfg = cfg_of [(0, [1]), (1, [2]), (2, [3, 4]), (3, [1, 5]), (4, []), (5, [2])]"

definition picked_cfg :: "nat cfg" where
  "picked_cfg = cfg_of [(0, [1, 2]), (1, [3]), (2, [4]), (3, [4]), (4, [4, 5]), (5, [])]"

theorem live_in_misses_uses:
  "(\<exists>t lv. compute_dominator_tree skipped_cfg = Some t \<and> liveness_new () skipped_cfg t = Some lv \<and> lv_is_reducible lv
     \<and> dominates t 1 4 = Some True \<and> live_in_spec skipped_cfg 1 {4} 3
     \<and> live_in_query lv 1 3 (Some (use_indices lv {4})) = Some False)
   \<and> (\<exists>t lv. compute_dominator_tree picked_cfg = Some t \<and> liveness_new () picked_cfg t = Some lv \<and> lv_is_reducible lv
     \<and> dominates t 0 3 = Some True \<and> live_in_spec picked_cfg 0 {3} 1
     \<and> live_in_query lv 0 1 (Some (use_indices lv {3})) = Some False)"
proof -
  have run: "\<exists>t lv. compute_dominator_tree g = Some t \<and> liveness_new () g t = Some lv \<and> lv_is_reducible lv
      \<and> dominates t a u = Some True \<and> live_in_spec g a {u} q \<and> live_in_query lv a q (Some (use_indices lv {u})) = Some False"
    if "(do { t \<leftarrow> compute_dominator_tree g; lv \<leftarrow> liveness_new () g t; d \<leftarrow> dominates t a u;
           b \<leftarrow> live_in_query lv a q (Some (use_indices lv {u})); Some (lv_is_reducible lv, d, b) }) = Some (True, True, False)"
      "live_in_spec g a {u} q" for g :: "nat cfg" and a u q
    using that by (auto split: bind_splits)
  have "is_path skipped_cfg 3 [3, 5, 2, 4] 4" "is_path picked_cfg 1 [1, 3] 3"
    by (simp_all add: edge_def skipped_cfg_def picked_cfg_def cfg_of_successors)
  then have "live_in_spec skipped_cfg 1 {4} 3" "live_in_spec picked_cfg 0 {3} 1" unfolding live_in_spec_def by fastforce+
  moreover have "(do { t \<leftarrow> compute_dominator_tree skipped_cfg; lv \<leftarrow> liveness_new () skipped_cfg t; d \<leftarrow> dominates t 1 4;
      b \<leftarrow> live_in_query lv 1 3 (Some (use_indices lv {4})); Some (lv_is_reducible lv, d, b) }) = Some (True, True, False)"
    unfolding skipped_cfg_def by code_simp
  moreover have "(do { t \<leftarrow> compute_dominator_tree picked_cfg; lv \<leftarrow> liveness_new () picked_cfg t; d \<leftarrow> dominates t 0 3;
      b \<leftarrow> live_in_query lv 0 1 (Some (use_indices lv {3})); Some (lv_is_reducible lv, d, b) }) = Some (True, True, False)"
    unfolding picked_cfg_def by code_simp
  ultimately show ?thesis using run by simp
qed

end
