(* ===== verification/RegionGraph.thy ===== *)
theory RegionGraph
  imports IrRun Dominance
begin

text \<open>
  The control-flow graph of a region (the instance of \<^verbatim>\<open>ControlFlowGraph\<close> for \<^verbatim>\<open>Ptr<Region>\<close> in
  \<^verbatim>\<open>src/src/graph/mod.rs\<close>), with the searches of that module for ancestors in the IR and for the
  order of operations in a block. \<open>wf_cfg\<close>, the contract of all graph algorithms, is proved for
  regions of a consistent context whose branches stay in the region.
\<close>

section \<open>The graph\<close>

text \<open>
  The methods of a \<open>cfg\<close> record are total. Where the code would panic the fields below are arbitrary
  (\<open>the None\<close>); on the nodes of a region of a consistent context that does not happen.
\<close>

definition region_cfg :: "('c \<Rightarrow> bool) \<Rightarrow> ('ty, 'c, 'a) ctx \<Rightarrow> region_ptr \<Rightarrow> block_ptr cfg" where
  "region_cfg is_term s r =
     \<lparr>num_successors = (\<lambda>b. the (num_succ is_term s b)),
      get_successor = (\<lambda>b i. the (get_succ is_term s b i)),
      num_predecessors = (\<lambda>b. the (num_preds s b)),
      get_predecessor = (\<lambda>b i. the (get_pred s b i)),
      entry_node = the (get_entry_block s r),
      graph_nodes = the (region_blocks s r)\<rparr>"

section \<open>Order in a block\<close>

partial_function (option) precedes_from ::
    "('ty, 'c, 'a) ctx \<Rightarrow> op_ptr option \<Rightarrow> op_ptr \<Rightarrow> bool option"
where
  "precedes_from s cursor b =
     (case cursor of
        None \<Rightarrow> Some False
      | Some p \<Rightarrow>
          if p = b then Some True
          else do { nd \<leftarrow> nodes (op_links s) p; precedes_from s (get_next nd) b })"

declare precedes_from.simps [code]

definition strictly_precedes_in_block :: "('ty, 'c, 'a) ctx \<Rightarrow> op_ptr \<Rightarrow> op_ptr \<Rightarrow> bool option" where
  "strictly_precedes_in_block s a b = do {
     ca \<leftarrow> get_parent_block s a;
     cb \<leftarrow> get_parent_block s b;
     if ca \<noteq> cb \<or> a = b then Some False
     else do { nd \<leftarrow> nodes (op_links s) a; precedes_from s (get_next nd) b }
   }"

section \<open>Ancestors\<close>

text \<open>
  The searches follow parents. Nothing in the code rules out an operation placed inside one of its own
  regions, where they would not end: they are partial functions, and \<open>None\<close> stands for a panic or no end.
\<close>

partial_function (option) find_ancestor_op_of_op_in_region ::
    "('ty, 'c, 'a) ctx \<Rightarrow> op_ptr \<Rightarrow> region_ptr \<Rightarrow> op_ptr option option"
where
  "find_ancestor_op_of_op_in_region s p target = do {
     r \<leftarrow> op_parent_region s p;
     case r of
       None \<Rightarrow> Some None
     | Some r \<Rightarrow>
         if r = target then Some (Some p)
         else do { q \<leftarrow> region_parent_op s r; find_ancestor_op_of_op_in_region s q target }
   }"

text \<open>\<open>is_type\<close> decides whether an operation is of the wanted concrete type, or has the wanted interface.\<close>

partial_function (option) find_ancestor_from ::
    "('ty, 'c, 'a) ctx \<Rightarrow> ('c \<Rightarrow> bool) \<Rightarrow> op_ptr option \<Rightarrow> op_ptr option option"
where
  "find_ancestor_from s is_type cur =
     (case cur of
        None \<Rightarrow> Some None
      | Some p \<Rightarrow> do {
          op \<leftarrow> operations s p;
          if is_type (concrete_op op) then Some (Some p)
          else do { q \<leftarrow> op_parent_op s p; find_ancestor_from s is_type q }
        })"

definition find_ancestor_of_op_type ::
    "('ty, 'c, 'a) ctx \<Rightarrow> ('c \<Rightarrow> bool) \<Rightarrow> op_ptr \<Rightarrow> op_ptr option option"
where
  "find_ancestor_of_op_type s is_type p = do { cur \<leftarrow> op_parent_op s p; find_ancestor_from s is_type cur }"

definition find_ancestor_of_op_interface ::
    "('ty, 'c, 'a) ctx \<Rightarrow> ('c \<Rightarrow> bool) \<Rightarrow> op_ptr \<Rightarrow> op_ptr option option"
where
  "find_ancestor_of_op_interface s impls p = do { cur \<leftarrow> op_parent_op s p; find_ancestor_from s impls cur }"

partial_function (option) find_ancestor_block_of_block_in_region ::
    "('ty, 'c, 'a) ctx \<Rightarrow> block_ptr \<Rightarrow> region_ptr \<Rightarrow> block_ptr option option"
where
  "find_ancestor_block_of_block_in_region s b target = do {
     r \<leftarrow> block_parent_region s b;
     case r of
       None \<Rightarrow> Some None
     | Some r \<Rightarrow>
         if r = target then Some (Some b)
         else do {
           c \<leftarrow> region_parent_block s r;
           case c of None \<Rightarrow> Some None | Some c \<Rightarrow> find_ancestor_block_of_block_in_region s c target
         }
   }"

definition find_ancestor_block_of_op_in_region ::
    "('ty, 'c, 'a) ctx \<Rightarrow> op_ptr \<Rightarrow> region_ptr \<Rightarrow> block_ptr option option"
where
  "find_ancestor_block_of_op_in_region s p target = do {
     b \<leftarrow> get_parent_block s p;
     case b of None \<Rightarrow> Some None | Some b \<Rightarrow> find_ancestor_block_of_block_in_region s b target
   }"

partial_function (option) find_ancestor_op_of_op_in_block ::
    "('ty, 'c, 'a) ctx \<Rightarrow> op_ptr \<Rightarrow> block_ptr \<Rightarrow> op_ptr option option"
where
  "find_ancestor_op_of_op_in_block s p target = do {
     b \<leftarrow> get_parent_block s p;
     case b of
       None \<Rightarrow> Some None
     | Some b \<Rightarrow>
         if b = target then Some (Some p)
         else do {
           q \<leftarrow> block_parent_op s b;
           case q of None \<Rightarrow> Some None | Some q \<Rightarrow> find_ancestor_op_of_op_in_block s q target
         }
   }"

declare find_ancestor_op_of_op_in_region.simps [code] find_ancestor_from.simps [code]
  find_ancestor_block_of_block_in_region.simps [code] find_ancestor_op_of_op_in_block.simps [code]

section \<open>Lists of the context\<close>

lemma of_outcome_Inr [simp]: "of_outcome (Inr x) = Some x"
  by (simp add: of_outcome_def)

lemma iter_collect_covers:
  assumes "seg l c p xs q" and "distinct xs" and "it_covers it xs"
  shows "iter_collect l it acc = Some (acc @ xs)"
  using assms
proof (induction xs arbitrary: p it acc)
  case Nil
  then show ?case using iter_next_step(1)[OF Nil.prems] by (simp add: iter_collect.simps)
next
  case (Cons x xs)
  obtain it' where it: "iter_next l it = Inr (Some x, it')" "it_covers it' xs"
    using iter_next_step(2)[OF Cons.prems] by blast
  have "iter_collect l it' (acc @ [x]) = Some ((acc @ [x]) @ xs)"
    using Cons.prems(1,2) by (intro Cons.IH[OF _ _ it(2)]) auto
  then show ?case using it(1) by (simp add: iter_collect.simps)
qed

lemma ll_list_collect:
  assumes l: "ll_list l c xs"
  shows "\<exists>it. iter l c = Inr it \<and> iter_collect l it [] = Some xs"
proof -
  have "iter l c = Inr \<lparr>it_next = first_or xs None, it_next_back = last_or None xs\<rparr>"
    using l by (simp add: iter_def deref_root_def ll_list_def)
  moreover have "it_covers \<lparr>it_next = first_or xs None, it_next_back = last_or None xs\<rparr> xs"
    by (cases xs) (auto simp: it_covers_def last_or_def)
  ultimately show ?thesis
    using iter_collect_covers[of l c None xs None] l by (auto simp: ll_list_def)
qed

lemma ll_collect: "ll_inv l L \<Longrightarrow> L c = Some xs \<Longrightarrow> \<exists>it. iter l c = Inr it \<and> iter_collect l it [] = Some xs"
  by (rule ll_list_collect[OF ll_invD(1)])

lemma ll_members:
  assumes "ll_inv l L" and "L c = Some xs"
  shows "x \<in> set xs \<longleftrightarrow> (\<exists>nd. nodes l x = Some nd \<and> get_container nd = Some c)"
proof
  assume "\<exists>nd. nodes l x = Some nd \<and> get_container nd = Some c"
  then obtain nd where nd: "nodes l x = Some nd" "get_container nd = Some c" by blast
  then obtain c' ys where c': "L c' = Some ys" "x \<in> set ys"
    using ll_invD(2)[OF assms(1) nd(1)] by (auto simp: ll_unlinked_def)
  then have "c' = c" using ll_inv_container[OF assms(1) c'] nd by auto
  then show "x \<in> set xs" using c' assms(2) by simp
qed (use ll_inv_container[OF assms] in blast)

lemma region_blocks_ok:
  assumes s: "ctx_ok s" and r: "regions s r \<noteq> None"
  shows "\<exists>bs. region_blocks s r = Some bs \<and> distinct bs
    \<and> (\<forall>b. b \<in> set bs \<longleftrightarrow> block_parent_region s b = Some (Some r))
    \<and> get_entry_block s r = Some (first_or bs None)"
proof -
  obtain L where L: "ll_inv (block_links s) L" using s by (auto simp: ctx_ok_def shape_ok_def)
  have "roots (block_links s) r \<noteq> None" using r s shape_okD(4)[of s r] by (simp add: ctx_ok_def)
  then obtain bs where bs: "L r = Some bs" using ll_invD(3)[OF L] by (metis domIff option.exhaust)
  have "ll_list (block_links s) r bs" using ll_invD(1)[OF L bs] .
  then have "distinct bs" "get_entry_block s r = Some (first_or bs None)"
    by (simp_all add: ll_list_def get_entry_block_def)
  moreover have "region_blocks s r = Some bs" using ll_collect[OF L bs] by (auto simp: region_blocks_def)
  moreover have "b \<in> set bs \<longleftrightarrow> block_parent_region s b = Some (Some r)" for b
    unfolding ll_members[OF L bs] by (auto simp: block_parent_region_def)
  ultimately show ?thesis by blast
qed

lemma block_ops_ok:
  assumes s: "ctx_ok s" and b: "basic_blocks s b \<noteq> None"
  shows "\<exists>ps. block_ops s b = Some ps \<and> distinct ps
    \<and> (\<forall>p. p \<in> set ps \<longleftrightarrow> get_parent_block s p = Some (Some b))
    \<and> ll_list (op_links s) b ps"
proof -
  obtain L where L: "ll_inv (op_links s) L" using s by (auto simp: ctx_ok_def shape_ok_def)
  have "roots (op_links s) b \<noteq> None" using b s shape_okD(2)[of s b] by (simp add: ctx_ok_def)
  then obtain ps where ps: "L b = Some ps" using ll_invD(3)[OF L] by (metis domIff option.exhaust)
  have l: "ll_list (op_links s) b ps" using ll_invD(1)[OF L ps] .
  moreover have "block_ops s b = Some ps" using ll_collect[OF L ps] by (auto simp: block_ops_def)
  moreover have "p \<in> set ps \<longleftrightarrow> get_parent_block s p = Some (Some b)" for p
    unfolding ll_members[OF L ps] by (auto simp: get_parent_block_def)
  ultimately show ?thesis by (auto simp: ll_list_def)
qed

section \<open>Order in a block is list order\<close>

lemma precedes_from_seg:
  "seg (op_links s) c p xs None \<Longrightarrow> precedes_from s (first_or xs None) b = Some (b \<in> set xs)"
proof (induction xs arbitrary: p)
  case Nil then show ?case by (simp add: precedes_from.simps)
next
  case (Cons x xs)
  have "seg (op_links s) c (Some x) xs None" using Cons.prems by simp
  then have "precedes_from s (first_or xs None) b = Some (b \<in> set xs)" by (rule Cons.IH)
  then show ?case using Cons.prems by (subst precedes_from.simps) auto
qed

lemma split_precedes:
  assumes "distinct xs" and "xs = ys @ a # zs"
  shows "b \<in> set zs \<longleftrightarrow> (\<exists>i j. i < j \<and> j < length xs \<and> xs ! i = a \<and> xs ! j = b)"
proof
  assume "b \<in> set zs"
  then obtain k where k: "k < length zs" "zs ! k = b" by (auto simp: in_set_conv_nth)
  then have "length ys < length ys + Suc k \<and> length ys + Suc k < length xs \<and> xs ! length ys = a
      \<and> xs ! (length ys + Suc k) = b" using assms(2) by (simp add: nth_append)
  then show "\<exists>i j. i < j \<and> j < length xs \<and> xs ! i = a \<and> xs ! j = b" by blast
next
  assume "\<exists>i j. i < j \<and> j < length xs \<and> xs ! i = a \<and> xs ! j = b"
  then obtain i j where ij: "i < j" "j < length xs" "xs ! i = a" "xs ! j = b" by blast
  have "xs ! length ys = a" "length ys < length xs" using assms(2) by simp_all
  then have "i = length ys" using assms(1) ij by (metis nth_eq_iff_index_eq less_trans)
  then obtain d where "j = length ys + Suc d" using ij(1) less_iff_Suc_add by auto
  then have "xs ! j = zs ! d" "d < length zs" using assms(2) ij(2) by (simp_all add: nth_append)
  then show "b \<in> set zs" using ij(4) by auto
qed

lemma strictly_precedes:
  assumes s: "ctx_ok s" and a: "operations s a \<noteq> None" and b: "operations s b \<noteq> None"
  shows "strictly_precedes_in_block s a b =
    Some (\<exists>c ps i j. block_ops s c = Some ps \<and> basic_blocks s c \<noteq> None \<and> i < j \<and> j < length ps \<and> ps ! i = a \<and> ps ! j = b)"
proof -
  have "nodes (op_links s) a \<noteq> None" "nodes (op_links s) b \<noteq> None"
    using a b s shape_okD(1)[of s] by (simp_all add: ctx_ok_def)
  then obtain ca cb nd where c: "get_parent_block s a = Some ca" "get_parent_block s b = Some cb"
      "nodes (op_links s) a = Some nd" by (auto simp: get_parent_block_def)
  have in_list: "ca = Some c \<and> cb = Some c \<and> a \<noteq> b"
    if *: "block_ops s c = Some ps" "basic_blocks s c \<noteq> None" "i < j" "j < length ps" "ps ! i = a" "ps ! j = b" for c ps i j
  proof -
    have m: "distinct ps" "\<forall>p. p \<in> set ps \<longleftrightarrow> get_parent_block s p = Some (Some c)"
      using block_ops_ok[OF s *(2)] *(1) by auto
    have "a \<in> set ps" "b \<in> set ps" using *(3-6) nth_mem[of i ps] nth_mem[of j ps] by simp_all
    moreover have "a \<noteq> b" using m(1) *(3-6) by (auto simp: nth_eq_iff_index_eq)
    ultimately show ?thesis using m(2) c(1,2) by auto
  qed
  show ?thesis
  proof (cases "ca = cb \<and> a \<noteq> b")
    case False
    then have "\<not> (\<exists>c ps i j. block_ops s c = Some ps \<and> basic_blocks s c \<noteq> None \<and> i < j \<and> j < length ps \<and> ps ! i = a \<and> ps ! j = b)"
      using in_list by blast
    then show ?thesis using False c(1,2) by (auto simp: strictly_precedes_in_block_def)
  next
    case True
    show ?thesis
    proof (cases ca)
      case None
      have "get_next nd = None"
      proof -
        obtain L where L: "ll_inv (op_links s) L" using s by (auto simp: ctx_ok_def shape_ok_def)
        have "ll_unlinked nd"
        proof (rule ccontr)
          assume "\<not> ll_unlinked nd"
          then obtain c' xs where "L c' = Some xs" "a \<in> set xs" using ll_invD(2)[OF L c(3)] by blast
          from ll_inv_container[OF L this] show False using c(1,3) None by (simp add: get_parent_block_def)
        qed
        then show ?thesis by (simp add: ll_unlinked_def)
      qed
      then have "strictly_precedes_in_block s a b = Some False"
        using True None c by (simp add: strictly_precedes_in_block_def precedes_from.simps)
      moreover have "\<not> (\<exists>c ps i j. block_ops s c = Some ps \<and> basic_blocks s c \<noteq> None \<and> i < j \<and> j < length ps \<and> ps ! i = a \<and> ps ! j = b)"
        using in_list None by blast
      ultimately show ?thesis by simp
    next
      case (Some k)
      obtain L where L: "ll_inv (op_links s) L" using s by (auto simp: ctx_ok_def shape_ok_def)
      have "get_container nd = Some k" using c(1,3) Some by (simp add: get_parent_block_def)
      then have "k \<in> dom L" using ll_invD(2)[OF L c(3)] ll_inv_container[OF L] c(3) by (fastforce simp: ll_unlinked_def)
      then have "basic_blocks s k \<noteq> None" using ll_invD(3)[OF L] s shape_okD(2)[of s k] by (metis ctx_ok_def domIff)
      from block_ops_ok[OF s this] obtain ps where ps: "block_ops s k = Some ps" "distinct ps"
          "\<forall>p. p \<in> set ps \<longleftrightarrow> get_parent_block s p = Some (Some k)" "ll_list (op_links s) k ps"
        "basic_blocks s k \<noteq> None" using \<open>basic_blocks s k \<noteq> None\<close> by blast
      have "a \<in> set ps" using ps(3) c(1) Some by simp
      then obtain ys zs where sp: "ps = ys @ a # zs" by (meson split_list)
      have sg: "seg (op_links s) k (last_or None ys) (a # zs) None" using ps(4) sp by (simp add: ll_list_def)
      then have nx: "get_next nd = first_or zs None" using c(3) by simp
      have "strictly_precedes_in_block s a b = Some (b \<in> set zs)"
        using True c nx precedes_from_seg[of s k "Some a" zs b] sg by (simp add: strictly_precedes_in_block_def)
      moreover have "b \<in> set zs \<longleftrightarrow> (\<exists>i j. i < j \<and> j < length ps \<and> ps ! i = a \<and> ps ! j = b)"
        by (rule split_precedes[OF ps(2) sp])
      ultimately show ?thesis using in_list Some ps(1,5) by (smt (verit) option.inject)
    qed
  qed
qed

section \<open>The graph of a region is well formed\<close>

text \<open>
  What verified IR promises: only the terminators of a region's blocks branch to its blocks, and
  they branch nowhere else.
\<close>

definition branches_ok :: "('c \<Rightarrow> bool) \<Rightarrow> ('ty, 'c, 'a) ctx \<Rightarrow> region_ptr \<Rightarrow> bool" where
  "branches_ok is_term s r =
     (case region_blocks s r of
        None \<Rightarrow> False
      | Some bs \<Rightarrow>
          list_all (\<lambda>b.
            (case block_uses s b of
               None \<Rightarrow> False
             | Some us \<Rightarrow> list_all (\<lambda>u.
                 (case user_block s u of
                    None \<Rightarrow> False
                  | Some c \<Rightarrow> c \<in> set bs \<and> get_terminator is_term s c = Some (Some (user_op u)))) us)
            \<and> (case block_succs is_term s b of None \<Rightarrow> False | Some ss \<Rightarrow> list_all (\<lambda>c. c \<in> set bs) ss)) bs)"

lemma block_in_region:
  assumes "ctx_ok s" and "block_parent_region s b = Some (Some r)"
  shows "\<exists>bb. basic_blocks s b = Some bb"
  using assms shape_okD(3)[of s b] by (auto simp: ctx_ok_def block_parent_region_def)

lemma get_terminator_ok:
  assumes s: "ctx_ok s" and b: "basic_blocks s b \<noteq> None"
  shows "\<exists>t. get_terminator is_term s b = Some t
    \<and> (\<forall>p. t = Some p \<longrightarrow> get_parent_block s p = Some (Some b) \<and> (\<exists>ss. op_succs s p = Some ss))"
proof -
  obtain ps where ps: "\<forall>p. p \<in> set ps \<longleftrightarrow> get_parent_block s p = Some (Some b)" "ll_list (op_links s) b ps"
    using block_ops_ok[OF s b] by blast
  have op: "\<exists>op. operations s p = Some op" if "p \<in> set ps" for p
    using that ps(1) s shape_okD(1)[of s p] by (auto simp: ctx_ok_def get_parent_block_def)
  have r: "roots (op_links s) b = Some \<lparr>get_head = first_or ps None, get_tail = last_or None ps\<rparr>"
    using ps(2) by (simp add: ll_list_def)
  show ?thesis
  proof (cases "ps = []")
    case True then show ?thesis using r by (simp add: get_terminator_def)
  next
    case False
    then have "last ps \<in> set ps" by simp
    moreover obtain op where "operations s (last ps) = Some op" using op calculation by blast
    ultimately show ?thesis using r False ps(1) by (auto simp: get_terminator_def last_or_def op_succs_def)
  qed
qed

lemma block_succs_cases:
  assumes s: "ctx_ok s" and b: "basic_blocks s b \<noteq> None"
  shows "\<exists>ss. block_succs is_term s b = Some ss \<and> num_succ is_term s b = Some (length ss)
    \<and> (\<forall>i < length ss. get_succ is_term s b i = Some (ss ! i))
    \<and> (\<forall>c. c \<in> set ss \<longleftrightarrow> (\<exists>t tt. get_terminator is_term s b = Some (Some t) \<and> op_succs s t = Some tt \<and> c \<in> set tt))"
proof -
  obtain t where t: "get_terminator is_term s b = Some t"
      "\<forall>p. t = Some p \<longrightarrow> (\<exists>ss. op_succs s p = Some ss)"
    using get_terminator_ok[OF s b] by blast
  show ?thesis
    using t by (cases t) (auto simp: block_succs_def num_succ_def get_succ_def)
qed

lemma branches_okD:
  assumes s: "ctx_ok s" and r: "regions s r \<noteq> None" and br: "branches_ok is_term s r"
    and b: "block_parent_region s b = Some (Some r)"
  shows "block_uses s b = Some us \<Longrightarrow> u \<in> set us \<Longrightarrow>
      \<exists>c. user_block s u = Some c \<and> block_parent_region s c = Some (Some r)
        \<and> get_terminator is_term s c = Some (Some (user_op u))"
    and "block_succs is_term s b = Some ss \<Longrightarrow> c \<in> set ss \<Longrightarrow> block_parent_region s c = Some (Some r)"
proof -
  obtain bs where bs: "region_blocks s r = Some bs" "\<forall>b. b \<in> set bs \<longleftrightarrow> block_parent_region s b = Some (Some r)"
    using region_blocks_ok[OF s r] by blast
  have b': "b \<in> set bs" using b bs(2) by blast
  have chk: "(case block_uses s b of None \<Rightarrow> False | Some us \<Rightarrow> list_all (\<lambda>u.
        (case user_block s u of None \<Rightarrow> False
         | Some c \<Rightarrow> c \<in> set bs \<and> get_terminator is_term s c = Some (Some (user_op u)))) us)"
      "(case block_succs is_term s b of None \<Rightarrow> False | Some ss \<Rightarrow> list_all (\<lambda>c. c \<in> set bs) ss)"
    using br b' bs(1) by (simp_all add: branches_ok_def list_all_iff)
  show "\<exists>c. user_block s u = Some c \<and> block_parent_region s c = Some (Some r)
        \<and> get_terminator is_term s c = Some (Some (user_op u))" if "block_uses s b = Some us" "u \<in> set us"
    using chk(1) bs(2) that by (cases "user_block s u") (auto simp: list_all_iff)
  show "block_parent_region s c = Some (Some r)" if "block_succs is_term s b = Some ss" "c \<in> set ss"
    using chk(2) bs(2) that by (simp add: list_all_iff)
qed

lemma get_pred_omap:
  assumes "omap f xs = Some ys"
  shows "length ys = length xs" and "i < length xs \<Longrightarrow> f (xs ! i) = Some (ys ! i)"
    and "set ys = {y. \<exists>x \<in> set xs. f x = Some y}"
proof -
  have "length ys = length xs \<and> (\<forall>i < length xs. f (xs ! i) = Some (ys ! i)) \<and> set ys = {y. \<exists>x \<in> set xs. f x = Some y}"
    using assms
  proof (induction xs arbitrary: ys)
    case (Cons x xs)
    obtain z zs where z: "f x = Some z" "omap f xs = Some zs" "ys = z # zs"
      using Cons.prems by (auto split: bind_splits)
    show ?case using Cons.IH[OF z(2)] z(1,3) by (auto simp: nth_Cons split: nat.split)
  qed simp
  then show "length ys = length xs" and "i < length xs \<Longrightarrow> f (xs ! i) = Some (ys ! i)"
    and "set ys = {y. \<exists>x \<in> set xs. f x = Some y}" by blast+
qed

lemma omap_total: "\<forall>x \<in> set xs. \<exists>y. f x = Some y \<Longrightarrow> \<exists>ys. omap f xs = Some ys"
  by (induction xs) auto

lemma block_preds_cases:
  assumes s: "ctx_ok s" and r: "regions s r \<noteq> None" and br: "branches_ok is_term s r"
    and b: "block_parent_region s b = Some (Some r)"
  shows "\<exists>bs. block_preds s b = Some bs \<and> num_preds s b = Some (length bs)
    \<and> (\<forall>i < length bs. get_pred s b i = Some (bs ! i))
    \<and> (\<forall>c. c \<in> set bs \<longleftrightarrow> block_parent_region s c = Some (Some r)
        \<and> (\<exists>t ss. get_terminator is_term s c = Some (Some t) \<and> op_succs s t = Some ss \<and> b \<in> set ss))"
proof -
  obtain bb where bb: "basic_blocks s b = Some bb" using block_in_region[OF s b] by blast
  have u: "block_uses s b = Some (preds bb)" using bb by (simp add: block_uses_def)
  note use = ctx_ok_block_uses(2)[OF s u]
  have home: "\<exists>c. user_block s w = Some c \<and> block_parent_region s c = Some (Some r)
      \<and> get_terminator is_term s c = Some (Some (user_op w))" if w: "w \<in> set (preds bb)" for w
    using branches_okD(1)[OF s r br b u w] by blast
  then obtain bs where bs: "omap (user_block s) (preds bb) = Some bs" using omap_total by metis
  note o = get_pred_omap[OF bs]
  have "c \<in> set bs \<longleftrightarrow> block_parent_region s c = Some (Some r)
        \<and> (\<exists>t ss. get_terminator is_term s c = Some (Some t) \<and> op_succs s t = Some ss \<and> b \<in> set ss)" for c
  proof
    assume "c \<in> set bs"
    then obtain w where w: "w \<in> set (preds bb)" "user_block s w = Some c" using o(3) by auto
    obtain op x where x: "operations s (user_op w) = Some op" "x \<in> set (op_successors op)" "opd_def x = b"
      using use[THEN iffD1, OF w(1)] by blast
    have "op_succs s (user_op w) = Some (map opd_def (op_successors op))" using x(1) by (simp add: op_succs_def)
    then show "block_parent_region s c = Some (Some r)
        \<and> (\<exists>t ss. get_terminator is_term s c = Some (Some t) \<and> op_succs s t = Some ss \<and> b \<in> set ss)"
      using home[OF w(1)] w(2) x(2,3) by auto
  next
    assume "block_parent_region s c = Some (Some r)
        \<and> (\<exists>t ss. get_terminator is_term s c = Some (Some t) \<and> op_succs s t = Some ss \<and> b \<in> set ss)"
    then obtain t op x where t: "get_terminator is_term s c = Some (Some t)" "operations s t = Some op"
        "x \<in> set (op_successors op)" "opd_def x = b" "block_parent_region s c = Some (Some r)"
      by (auto simp: op_succs_def)
    have "as_use x t \<in> set (preds bb)" using use t(2-4) by auto
    moreover have "get_parent_block s t = Some (Some c)"
      using get_terminator_ok[OF s, of c is_term] block_in_region[OF s t(5)] t(1) by auto
    ultimately show "c \<in> set bs" using o(3) by (force simp: user_block_def)
  qed
  then show ?thesis
    using bb bs o(1,2) by (intro exI[of _ bs]) (auto simp: block_preds_def num_preds_def get_pred_def)
qed

lemma map_the_nth: "(\<And>i. i < length xs \<Longrightarrow> f i = Some (xs ! i)) \<Longrightarrow> map (\<lambda>i. the (f i)) [0..<length xs] = xs"
  by (rule nth_equalityI) simp_all

lemma region_cfg_ok:
  assumes s: "ctx_ok s" and r: "regions s r \<noteq> None" and br: "branches_ok is_term s r"
  shows "wf_cfg (region_cfg is_term s r)"
    and "region_blocks s r = Some (graph_nodes (region_cfg is_term s r))"
    and "get_entry_block s r = Some (entry_node (region_cfg is_term s r))"
    and "\<forall>b \<in> set (graph_nodes (region_cfg is_term s r)).
      block_succs is_term s b = Some (successors (region_cfg is_term s r) b)
      \<and> block_preds s b = Some (predecessors (region_cfg is_term s r) b)"
proof -
  let ?g = "region_cfg is_term s r"
  obtain bs where bs: "region_blocks s r = Some bs" "distinct bs"
      "\<forall>b. b \<in> set bs \<longleftrightarrow> block_parent_region s b = Some (Some r)" "get_entry_block s r = Some (first_or bs None)"
    using region_blocks_ok[OF s r] by blast
  have n: "graph_nodes ?g = bs" "entry_node ?g = first_or bs None"
    using bs(1,4) by (simp_all add: region_cfg_def)
  have succ: "block_succs is_term s b = Some (successors ?g b)
      \<and> (\<forall>c. c \<in> set (successors ?g b) \<longleftrightarrow> (\<exists>t tt. get_terminator is_term s b = Some (Some t) \<and> op_succs s t = Some tt \<and> c \<in> set tt))"
    if b: "b \<in> set bs" for b
  proof -
    have "basic_blocks s b \<noteq> None" using block_in_region[OF s] bs(3) b by blast
    then obtain ss where ss: "block_succs is_term s b = Some ss" "num_succ is_term s b = Some (length ss)"
        "\<forall>i < length ss. get_succ is_term s b i = Some (ss ! i)"
        "\<forall>c. c \<in> set ss \<longleftrightarrow> (\<exists>t tt. get_terminator is_term s b = Some (Some t) \<and> op_succs s t = Some tt \<and> c \<in> set tt)"
      using block_succs_cases[OF s] by blast
    have "successors ?g b = ss" using ss(2,3) by (simp add: successors_def region_cfg_def map_the_nth)
    then show ?thesis using ss(1,4) by simp
  qed
  have pred: "block_preds s b = Some (predecessors ?g b)
      \<and> (\<forall>c. c \<in> set (predecessors ?g b) \<longleftrightarrow> c \<in> set bs
        \<and> (\<exists>t ss. get_terminator is_term s c = Some (Some t) \<and> op_succs s t = Some ss \<and> b \<in> set ss))"
    if b: "b \<in> set bs" for b
  proof -
    obtain ps where ps: "block_preds s b = Some ps" "num_preds s b = Some (length ps)"
        "\<forall>i < length ps. get_pred s b i = Some (ps ! i)"
        "\<forall>c. c \<in> set ps \<longleftrightarrow> block_parent_region s c = Some (Some r)
        \<and> (\<exists>t ss. get_terminator is_term s c = Some (Some t) \<and> op_succs s t = Some ss \<and> b \<in> set ss)"
      using block_preds_cases[OF s r br] bs(3) b by blast
    have "predecessors ?g b = ps" using ps(2,3) by (simp add: predecessors_def region_cfg_def map_the_nth)
    then show ?thesis using ps(1,4) bs(3) by simp
  qed
  have closed: "set (successors ?g b) \<subseteq> set bs" if b: "b \<in> set bs" for b
  proof
    fix c assume "c \<in> set (successors ?g b)"
    then show "c \<in> set bs" using branches_okD(2)[OF s r br _ conjunct1[OF succ[OF b]]] bs(3) b by blast
  qed
  have "p \<in> set (predecessors ?g b) \<longleftrightarrow> p \<in> set bs \<and> b \<in> set (successors ?g p)" if b: "b \<in> set bs" for b p
    using pred[OF b] succ[of p] by blast
  then show "wf_cfg ?g" using bs(2) closed n by (simp add: wf_cfg_def first_or_def)
  show "region_blocks s r = Some (graph_nodes ?g)" using bs(1) n by simp
  show "get_entry_block s r = Some (entry_node ?g)" using bs(4) n by simp
  show "\<forall>b \<in> set (graph_nodes ?g). block_succs is_term s b = Some (successors ?g b)
      \<and> block_preds s b = Some (predecessors ?g b)"
    using succ pred n by blast
qed

text \<open>
  C6. Every region of a consistent context in which only terminators of its blocks branch, and only
  to its blocks, is a control-flow graph as the analyses need it: the blocks, the entry and the
  successors and predecessors by index are read without a panic, agree with the methods that list
  them, the predecessors (read off the use lists of blocks) are the reverse of the successors
  (read off the terminators), and so dominators of the region's blocks can be computed.
\<close>

theorem region_graph_well_formed:
  assumes "ctx_ok s" and "regions s r \<noteq> None" and "branches_ok is_term s r"
  shows "wf_cfg (region_cfg is_term s r)
    \<and> region_blocks s r = Some (graph_nodes (region_cfg is_term s r))
    \<and> get_entry_block s r = Some (entry_node (region_cfg is_term s r))
    \<and> (\<forall>b \<in> set (graph_nodes (region_cfg is_term s r)).
        block_succs is_term s b = Some (successors (region_cfg is_term s r) b)
        \<and> block_preds s b = Some (predecessors (region_cfg is_term s r) b))"
  using region_cfg_ok[OF assms] by blast

theorem region_graph_well_formed_witness:
  "wf_cfg (region_cfg (\<lambda>c. c = 2) demo_ctx 0) \<and> graph_nodes (region_cfg (\<lambda>c. c = 2) demo_ctx 0) = [0, 1]"
proof -
  have "regions demo_ctx 0 \<noteq> None" by code_simp
  moreover have "branches_ok (\<lambda>c. c = 2) demo_ctx 0" by code_simp
  moreover have "region_blocks demo_ctx 0 = Some [0, 1]" by code_simp
  ultimately show ?thesis using region_graph_well_formed[OF demo_ok] by fastforce
qed

text \<open>
  \<open>strictly_precedes_in_block\<close>, which follows links with no bound, returns for any two operations of
  a consistent context, and answers whether the first stands before the second in the operation list of
  one block.
\<close>

theorem strictly_precedes_returns:
  assumes "ctx_ok s" and "operations s a \<noteq> None" and "operations s b \<noteq> None"
  shows "\<exists>r. strictly_precedes_in_block s a b = Some r
    \<and> (r \<longleftrightarrow> (\<exists>c ps i j. block_ops s c = Some ps \<and> basic_blocks s c \<noteq> None \<and> i < j \<and> j < length ps \<and> ps ! i = a \<and> ps ! j = b))"
  using strictly_precedes[OF assms] by blast

theorem strictly_precedes_returns_witness:
  "\<exists>r. strictly_precedes_in_block demo_ctx 1 2 = Some r"
proof -
  have "operations demo_ctx 1 \<noteq> None" "operations demo_ctx 2 \<noteq> None" by code_simp+
  then show ?thesis using strictly_precedes_returns[OF demo_ok] by blast
qed

section \<open>Ancestor searches\<close>

definition op_up :: "('ty, 'c, 'a) ctx \<Rightarrow> op_ptr \<Rightarrow> op_ptr \<Rightarrow> bool" where
  "op_up s p q \<longleftrightarrow> (\<exists>r. op_parent_region s p = Some (Some r) \<and> region_parent_op s r = Some q)"

lemma ll_container:
  assumes "ll_inv l L" and "nodes l n = Some nd" and "get_container nd = Some c"
  shows "roots l c \<noteq> None"
proof -
  obtain c' xs where c': "L c' = Some xs" "n \<in> set xs"
    using ll_invD(2)[OF assms(1,2)] assms(3) by (auto simp: ll_unlinked_def)
  then have "c' = c" using ll_inv_container[OF assms(1) c'] assms(2,3) by auto
  then show ?thesis using c'(1) ll_invD(3)[OF assms(1)] by (metis domIff option.discI)
qed

lemma parents_exist:
  assumes s: "ctx_ok s"
  shows "operations s p \<noteq> None \<Longrightarrow> \<exists>b. get_parent_block s p = Some b \<and> (\<forall>c. b = Some c \<longrightarrow> basic_blocks s c \<noteq> None)"
    and "basic_blocks s b \<noteq> None \<Longrightarrow> \<exists>r. block_parent_region s b = Some r \<and> (\<forall>k. r = Some k \<longrightarrow> regions s k \<noteq> None)"
    and "regions s r \<noteq> None \<Longrightarrow> \<exists>q. region_parent_op s r = Some q \<and> operations s q \<noteq> None"
proof -
  have sh: "shape_ok s" using s by (simp add: ctx_ok_def)
  obtain L M where L: "ll_inv (op_links s) L" "ll_inv (block_links s) M" using sh by (auto simp: shape_ok_def)
  note d = shape_okD[OF sh]
  show "\<exists>b. get_parent_block s p = Some b \<and> (\<forall>c. b = Some c \<longrightarrow> basic_blocks s c \<noteq> None)" if "operations s p \<noteq> None"
    using that d(1)[of p] d(2) ll_container[OF L(1)] by (fastforce simp: get_parent_block_def)
  show "\<exists>r. block_parent_region s b = Some r \<and> (\<forall>k. r = Some k \<longrightarrow> regions s k \<noteq> None)" if "basic_blocks s b \<noteq> None"
    using that d(3)[of b] d(4) ll_container[OF L(2)] by (fastforce simp: block_parent_region_def)
  show "\<exists>q. region_parent_op s r = Some q \<and> operations s q \<noteq> None" if r: "regions s r \<noteq> None"
  proof -
    obtain reg where reg: "regions s r = Some reg" using r by blast
    then obtain rs where "op_regs s (parent_op reg) = Some rs" using sh unfolding shape_ok_def by blast
    then show ?thesis using reg by (auto simp: region_parent_op_def op_regs_def)
  qed
qed

lemma op_parent_region_exists:
  assumes s: "ctx_ok s" and p: "operations s p \<noteq> None"
  shows "\<exists>r. op_parent_region s p = Some r
    \<and> (\<forall>k. r = Some k \<longrightarrow> (\<exists>q. region_parent_op s k = Some q \<and> operations s q \<noteq> None \<and> op_up s p q))"
proof -
  obtain b where b: "get_parent_block s p = Some b" "\<forall>c. b = Some c \<longrightarrow> basic_blocks s c \<noteq> None"
    using parents_exist(1)[OF s p] by blast
  show ?thesis
  proof (cases b)
    case None then show ?thesis using b by (simp add: op_parent_region_def)
  next
    case (Some c)
    then obtain r where r: "block_parent_region s c = Some r" "\<forall>k. r = Some k \<longrightarrow> regions s k \<noteq> None"
      using parents_exist(2)[OF s] b(2) by blast
    have pr: "op_parent_region s p = Some r" using b(1) Some r(1) by (simp add: op_parent_region_def)
    then show ?thesis using r(2) parents_exist(3)[OF s] unfolding op_up_def by blast
  qed
qed

lemma find_ancestor_op:
  assumes wf: "wfp (\<lambda>q p. op_up s p q)" and s: "ctx_ok s" and p: "operations s p \<noteq> None"
  shows "\<exists>res. find_ancestor_op_of_op_in_region s p r = Some res
    \<and> (\<forall>q. res = Some q \<longrightarrow> (op_up s)\<^sup>*\<^sup>* p q \<and> op_parent_region s q = Some (Some r))
    \<and> (res = None \<longrightarrow> (\<forall>q. (op_up s)\<^sup>*\<^sup>* p q \<longrightarrow> op_parent_region s q \<noteq> Some (Some r)))"
  using wf p
proof (induction p rule: wfp_induct_rule)
  case (less p)
  obtain pr where pr: "op_parent_region s p = Some pr"
      "\<forall>k. pr = Some k \<longrightarrow> (\<exists>q. region_parent_op s k = Some q \<and> operations s q \<noteq> None \<and> op_up s p q)"
    using op_parent_region_exists[OF s less.prems] by blast
  show ?case
  proof (cases pr)
    case None
    then have "\<not> op_up s p q" for q using pr(1) by (simp add: op_up_def)
    then have only: "q = p" if "(op_up s)\<^sup>*\<^sup>* p q" for q using that by (metis converse_rtranclpE)
    have "op_parent_region s q \<noteq> Some (Some r)" if "(op_up s)\<^sup>*\<^sup>* p q" for q
      using only[OF that] pr(1) None by simp
    then show ?thesis using pr(1) None
      by (subst find_ancestor_op_of_op_in_region.simps) simp
  next
    case (Some k)
    show ?thesis
    proof (cases "k = r")
      case True
      then show ?thesis using pr(1) Some by (subst find_ancestor_op_of_op_in_region.simps) auto
    next
      case False
      obtain q where q: "region_parent_op s k = Some q" "operations s q \<noteq> None" "op_up s p q" using pr(2) Some by blast
      have uniq: "op_up s p q' \<Longrightarrow> q' = q" for q' using pr(1) Some q(1) by (auto simp: op_up_def)
      obtain res where res: "find_ancestor_op_of_op_in_region s q r = Some res"
          "\<forall>u. res = Some u \<longrightarrow> (op_up s)\<^sup>*\<^sup>* q u \<and> op_parent_region s u = Some (Some r)"
          "res = None \<longrightarrow> (\<forall>u. (op_up s)\<^sup>*\<^sup>* q u \<longrightarrow> op_parent_region s u \<noteq> Some (Some r))"
        using less.IH[OF q(3,2)] by blast
      have "find_ancestor_op_of_op_in_region s p r = Some res"
        using pr(1) Some False q(1) res(1) by (subst find_ancestor_op_of_op_in_region.simps) simp
      moreover have "(op_up s)\<^sup>*\<^sup>* p u \<longleftrightarrow> u = p \<or> (op_up s)\<^sup>*\<^sup>* q u" for u
        using q(3) uniq by (metis converse_rtranclpE converse_rtranclp_into_rtranclp rtranclp.rtrancl_refl)
      ultimately show ?thesis using res(2,3) pr(1) Some False by auto
    qed
  qed
qed

text \<open>
  \<open>find_ancestor_op_of_op_in_region\<close> returns whenever no operation lies inside itself, and
  then finds the one ancestor of the operation (itself included) that lies directly in the region, or reports
  none exactly when there is none.
\<close>

theorem find_ancestor_op_returns:
  assumes "wfp (\<lambda>q p. op_up s p q)" and "ctx_ok s" and "operations s p \<noteq> None"
  shows "\<exists>res. find_ancestor_op_of_op_in_region s p r = Some res
    \<and> (\<forall>q. res = Some q \<longrightarrow> (op_up s)\<^sup>*\<^sup>* p q \<and> op_parent_region s q = Some (Some r))
    \<and> (res = None \<longrightarrow> (\<forall>q. (op_up s)\<^sup>*\<^sup>* p q \<longrightarrow> op_parent_region s q \<noteq> Some (Some r)))"
  by (rule find_ancestor_op[OF assms])

theorem find_ancestor_op_returns_witness:
  "\<exists>s :: (nat, nat, nat) ctx. operations s 0 \<noteq> None \<and> find_ancestor_op_of_op_in_region s 0 0 = Some None"
proof -
  define s where "s = the (ir_run (empty_ctx :: (nat, nat, nat) ctx) [NewOp 0 [] 0 [] [] []])"
  have run: "ir_run (empty_ctx :: (nat, nat, nat) ctx) [NewOp 0 [] 0 [] [] []] = Some s"
    unfolding s_def by (rule sym, rule option.collapse) code_simp
  have ok: "ctx_ok s" by (rule run_ctx_ok[OF run]) simp_all
  have r: "regions s = Map.empty"
    using run by (simp add: operation_new_def alloc_op_def modify_op_def empty_ctx_def) auto
  have "op_parent_region s p \<noteq> Some (Some r)" for p r
  proof
    assume a: "op_parent_region s p = Some (Some r)"
    then obtain b where "block_parent_region s b = Some (Some r)"
      by (auto simp: op_parent_region_def split: bind_splits option.splits)
    then have "basic_blocks s b \<noteq> None" using block_in_region[OF ok] by blast
    from parents_exist(2)[OF ok this] show False using r \<open>block_parent_region s b = Some (Some r)\<close> by auto
  qed
  then have none: "\<not> op_up s p q" for p q by (simp add: op_up_def)
  then have wf: "wfp (\<lambda>q p. op_up s p q)" by (simp add: wfp_def wf_def wfp_on_def)
  have o: "operations s 0 \<noteq> None" unfolding s_def by code_simp
  obtain res where "find_ancestor_op_of_op_in_region s 0 0 = Some res"
      "\<forall>q. res = Some q \<longrightarrow> op_parent_region s q = Some (Some 0)"
    using find_ancestor_op_returns[OF wf ok o] by blast
  then show ?thesis using o \<open>\<And>p r. op_parent_region s p \<noteq> Some (Some r)\<close> by (cases res) auto
qed

end
