(* ===== verification/DomInfo.thy ===== *)
theory DomInfo
  imports RegionGraph DomTree
begin

text \<open>
  Dominance across nested regions: \<open>try_get_blocks_in_same_region\<close> and \<open>DomInfo\<close>, the cache of
  dominator trees, of \<^verbatim>\<open>src/src/graph/dominance.rs\<close>, and \<open>Region::has_ssa_dominance\<close>.

  Queries return the cache too, as the code fills it while it answers. What a concrete
  operation says of its regions (\<open>RegionKindInterface\<close>) is a parameter \<open>kind\<close>: \<open>None\<close> when it does not
  implement the interface, else whether the region with a given index uses SSA dominance.
\<close>

section \<open>Lifting blocks to a common region\<close>

text \<open>
  One cursor climbs from a block to the first ancestor in \<open>target\<close>, counting the blocks it
  visits; it ends in that block (\<open>Inl\<close>) or with the count (\<open>Inr\<close>).
\<close>

partial_function (option) climb_to_region ::
    "('ty, 'c, 'a) ctx \<Rightarrow> region_ptr \<Rightarrow> block_ptr option \<Rightarrow> nat \<Rightarrow> (block_ptr + nat) option" where
  "climb_to_region s target cursor depth =
     (case cursor of
        None \<Rightarrow> Some (Inr depth)
      | Some block \<Rightarrow> do {
          r \<leftarrow> block_parent_region s block;
          if r = Some target then Some (Inl block)
          else do { cursor \<leftarrow> block_parent_block s block; climb_to_region s target cursor (depth + 1) }
        })"

text \<open>\<open>n\<close> steps up, for as long as there is a parent block.\<close>

fun lift_by :: "('ty, 'c, 'a) ctx \<Rightarrow> nat \<Rightarrow> block_ptr option \<Rightarrow> block_ptr option option" where
  "lift_by s 0 b = Some b"
| "lift_by s (Suc n) b = do {
     b \<leftarrow> (case b of None \<Rightarrow> Some None | Some block \<Rightarrow> block_parent_block s block);
     lift_by s n b
   }"

partial_function (option) lift_together ::
    "('ty, 'c, 'a) ctx \<Rightarrow> block_ptr option \<Rightarrow> block_ptr option \<Rightarrow> (block_ptr \<times> block_ptr) option option" where
  "lift_together s a b =
     (case (a, b) of
        (Some a, Some b) \<Rightarrow> do {
          ra \<leftarrow> block_parent_region s a;
          rb \<leftarrow> block_parent_region s b;
          if ra = rb then Some (Some (a, b))
          else do {
            a \<leftarrow> block_parent_block s a;
            b \<leftarrow> block_parent_block s b;
            lift_together s a b
          }
        }
      | _ \<Rightarrow> Some None)"

declare climb_to_region.simps [code] lift_together.simps [code]

definition try_get_blocks_in_same_region ::
    "('ty, 'c, 'a) ctx \<Rightarrow> block_ptr \<Rightarrow> block_ptr \<Rightarrow> (block_ptr \<times> block_ptr) option option" where
  "try_get_blocks_in_same_region s a b = do {
     a_region \<leftarrow> block_parent_region s a;
     b_region \<leftarrow> (if a_region = None then Some None else block_parent_region s b);
     (case (a_region, b_region) of
        (Some a_region, Some b_region) \<Rightarrow>
          if a_region = b_region then Some (Some (a, b))
          else do {
            r \<leftarrow> climb_to_region s b_region (Some a) 0;
            (case r of
               Inl a \<Rightarrow> Some (Some (a, b))
             | Inr a_depth \<Rightarrow> do {
                 r \<leftarrow> climb_to_region s a_region (Some b) 0;
                 (case r of
                    Inl b \<Rightarrow> Some (Some (a, b))
                  | Inr b_depth \<Rightarrow> do {
                      a_opt \<leftarrow> lift_by s (a_depth - b_depth) (Some a);
                      b_opt \<leftarrow> lift_by s (b_depth - a_depth) (Some b);
                      lift_together s a_opt b_opt
                    })
               })
          }
      | _ \<Rightarrow> Some None)
   }"

section \<open>The cache and its queries\<close>

type_synonym dom_info = "region_ptr \<rightharpoonup> block_ptr dom_tree"

definition has_ssa_dominance :: "('c \<Rightarrow> (nat \<Rightarrow> bool) option) \<Rightarrow> ('ty, 'c, 'a) ctx \<Rightarrow> region_ptr \<Rightarrow> bool option" where
  "has_ssa_dominance kind s r = do {
     p \<leftarrow> region_parent_op s r;
     op \<leftarrow> operations s p;
     (case kind (concrete_op op) of
        Some rki \<Rightarrow> do { region_idx \<leftarrow> find_index_in_parent s r; Some (rki region_idx) }
      | None \<Rightarrow> Some True)
   }"

text \<open>\<open>entry(k).or_insert_with(compute)\<close> on a hash map.\<close>

definition memo_get :: "('k \<Rightarrow> 'v option) \<Rightarrow> ('k \<rightharpoonup> 'v) \<Rightarrow> 'k \<Rightarrow> ('v \<times> ('k \<rightharpoonup> 'v)) option" where
  "memo_get compute memo k =
     (case memo k of
        Some v \<Rightarrow> Some (v, memo)
      | None \<Rightarrow> do { v \<leftarrow> compute k; Some (v, memo(k \<mapsto> v)) })"

definition get_dom_tree ::
    "('c \<Rightarrow> bool) \<Rightarrow> ('ty, 'c, 'a) ctx \<Rightarrow> dom_info \<Rightarrow> region_ptr \<Rightarrow> (block_ptr dom_tree \<times> dom_info) option" where
  "get_dom_tree is_term s info r = memo_get (\<lambda>r. compute_dominator_tree (region_cfg is_term s r)) info r"

definition get_cached_dom_tree :: "dom_info \<Rightarrow> region_ptr \<Rightarrow> block_ptr dom_tree option" where
  "get_cached_dom_tree info r = info r"

definition block_strictly_dominates_block ::
    "('c \<Rightarrow> bool) \<Rightarrow> ('c \<Rightarrow> (nat \<Rightarrow> bool) option) \<Rightarrow> ('ty, 'c, 'a) ctx \<Rightarrow> dom_info
      \<Rightarrow> block_ptr \<Rightarrow> block_ptr \<Rightarrow> (bool \<times> dom_info) option" where
  "block_strictly_dominates_block is_term kind s info a b = do {
     region_a \<leftarrow> block_parent_region s a;
     region_a \<leftarrow> region_a;
     region_a_ssa \<leftarrow> has_ssa_dominance kind s region_a;
     b \<leftarrow> find_ancestor_block_of_block_in_region s b region_a;
     (case b of
        None \<Rightarrow> Some (False, info)
      | Some b \<Rightarrow>
          if a = b then Some (\<not> region_a_ssa, info)
          else do {
            (dom_tree, info) \<leftarrow> get_dom_tree is_term s info region_a;
            d \<leftarrow> dominates dom_tree a b;
            Some (d, info)
          })
   }"

definition op_strictly_dominates_op ::
    "('c \<Rightarrow> bool) \<Rightarrow> ('c \<Rightarrow> (nat \<Rightarrow> bool) option) \<Rightarrow> ('ty, 'c, 'a) ctx \<Rightarrow> dom_info
      \<Rightarrow> op_ptr \<Rightarrow> op_ptr \<Rightarrow> (bool \<times> dom_info) option" where
  "op_strictly_dominates_op is_term kind s info a b = do {
     block_a \<leftarrow> get_parent_block s a;
     (case block_a of
        None \<Rightarrow> Some (False, info)
      | Some block_a \<Rightarrow> do {
          region_a \<leftarrow> block_parent_region s block_a;
          region_a \<leftarrow> region_a;
          region_a_ssa \<leftarrow> has_ssa_dominance kind s region_a;
          b \<leftarrow> find_ancestor_op_of_op_in_region s b region_a;
          (case b of
             None \<Rightarrow> Some (False, info)
           | Some b \<Rightarrow> do {
               block_b \<leftarrow> get_parent_block s b;
               block_b \<leftarrow> block_b;
               if block_a = block_b then
                 (if \<not> region_a_ssa then Some (True, info)
                  else map_option (\<lambda>d. (d, info)) (strictly_precedes_in_block s a b))
               else do {
                 (dom_tree, info) \<leftarrow> get_dom_tree is_term s info region_a;
                 d \<leftarrow> dominates dom_tree block_a block_b;
                 Some (d, info)
               }
             })
        })
   }"

definition value_strictly_dominates_op ::
    "('c \<Rightarrow> bool) \<Rightarrow> ('c \<Rightarrow> (nat \<Rightarrow> bool) option) \<Rightarrow> ('ty, 'c, 'a) ctx \<Rightarrow> dom_info
      \<Rightarrow> ssa_value \<Rightarrow> op_ptr \<Rightarrow> (bool \<times> dom_info) option" where
  "value_strictly_dominates_op is_term kind s info a b =
     (case defining_entity a of
        OpDef p \<Rightarrow> op_strictly_dominates_op is_term kind s info p b
      | BlockDef a_block \<Rightarrow> do {
          parent_block \<leftarrow> get_parent_block s b;
          (case parent_block of
             None \<Rightarrow> Some (False, info)
           | Some b_parent_block \<Rightarrow> do {
               region \<leftarrow> block_parent_region s a_block;
               region \<leftarrow> region;
               b_ancestor \<leftarrow> find_ancestor_block_of_block_in_region s b_parent_block region;
               (case b_ancestor of
                  None \<Rightarrow> Some (False, info)
                | Some b_ancestor \<Rightarrow> do {
                    (dom_tree, info) \<leftarrow> get_dom_tree is_term s info region;
                    d \<leftarrow> dominates dom_tree a_block b_ancestor;
                    Some (d, info)
                  })
             })
        })"

definition nearest_common_dominator_block ::
    "('c \<Rightarrow> bool) \<Rightarrow> ('ty, 'c, 'a) ctx \<Rightarrow> dom_info \<Rightarrow> block_ptr \<Rightarrow> block_ptr
      \<Rightarrow> (block_ptr option \<times> dom_info) option" where
  "nearest_common_dominator_block is_term s info a b =
     (if a = b then Some (Some a, info)
      else do {
        ab \<leftarrow> try_get_blocks_in_same_region s a b;
        (case ab of
           None \<Rightarrow> Some (None, info)
         | Some (a, b) \<Rightarrow>
             if a = b then Some (Some a, info)
             else do {
               region \<leftarrow> block_parent_region s a;
               region \<leftarrow> region;
               (dom_tree, info) \<leftarrow> get_dom_tree is_term s info region;
               d \<leftarrow> nearest_common_dominator dom_tree a b;
               Some (Some d, info)
             })
      })"

text \<open>\<open>DomInfo::compute\<close>: the trees of an operation's own regions.\<close>

fun cache_regions ::
    "('c \<Rightarrow> bool) \<Rightarrow> ('ty, 'c, 'a) ctx \<Rightarrow> region_ptr list \<Rightarrow> dom_info \<Rightarrow> dom_info option" where
  "cache_regions is_term s [] info = Some info"
| "cache_regions is_term s (r # rs) info = do {
     (_, info) \<leftarrow> get_dom_tree is_term s info r;
     cache_regions is_term s rs info
   }"

definition dom_info_compute :: "('c \<Rightarrow> bool) \<Rightarrow> ('ty, 'c, 'a) ctx \<Rightarrow> op_ptr \<Rightarrow> dom_info option" where
  "dom_info_compute is_term s p = do { op \<leftarrow> operations s p; cache_regions is_term s (op_regions op) Map.empty }"

section \<open>Chains of parent blocks\<close>

definition nested :: "('ty, 'c, 'a) ctx \<Rightarrow> bool" where
  "nested s \<longleftrightarrow> wfp (\<lambda>q p. op_up s p q)"

fun up_chain :: "('ty, 'c, 'a) ctx \<Rightarrow> block_ptr list \<Rightarrow> bool" where
  "up_chain s [] \<longleftrightarrow> False"
| "up_chain s [b] \<longleftrightarrow> block_parent_block s b = Some None"
| "up_chain s (b # c # bs) \<longleftrightarrow> block_parent_block s b = Some (Some c) \<and> up_chain s (c # bs)"

lemma up_chain_Cons:
  "up_chain s (b # bs) \<longleftrightarrow> block_parent_block s b = Some (case bs of [] \<Rightarrow> None | c # _ \<Rightarrow> Some c) \<and> (bs = [] \<or> up_chain s bs)"
  by (cases bs) auto

text \<open>The parent of a block: none, or the block of the operation its region belongs to.\<close>

lemma block_parent_cases:
  assumes s: "ctx_ok s" and b: "basic_blocks s b \<noteq> None"
  obtains (top) "block_parent_block s b = Some None"
  | (inner) r q c where "block_parent_region s b = Some (Some r)" and "region_parent_op s r = Some q"
    and "operations s q \<noteq> None" and "get_parent_block s q = Some (Some c)"
    and "block_parent_block s b = Some (Some c)" and "basic_blocks s c \<noteq> None"
proof -
  obtain r where r: "block_parent_region s b = Some r" "\<forall>k. r = Some k \<longrightarrow> regions s k \<noteq> None"
    using parents_exist(2)[OF s b] by blast
  show ?thesis
  proof (cases r)
    case None
    then show ?thesis using top r(1) by (simp add: block_parent_block_def block_parent_op_def)
  next
    case (Some k)
    obtain q where q: "region_parent_op s k = Some q" "operations s q \<noteq> None"
      using parents_exist(3)[OF s] r(2) Some by blast
    obtain c where c: "get_parent_block s q = Some c" "\<forall>d. c = Some d \<longrightarrow> basic_blocks s d \<noteq> None"
      using parents_exist(1)[OF s q(2)] by blast
    have "block_parent_block s b = Some c"
      using r(1) Some q(1) c by (auto simp: block_parent_block_def block_parent_op_def region_parent_op_def)
    then show ?thesis using top inner[OF _ q] r(1) Some c by (cases c) auto
  qed
qed

lemma up_chain_exists:
  assumes n: "nested s" and s: "ctx_ok s" and b: "basic_blocks s b \<noteq> None"
  shows "\<exists>bs. up_chain s (b # bs) \<and> (\<forall>c \<in> set (b # bs). basic_blocks s c \<noteq> None)"
proof -
  have ops: "\<exists>bs. up_chain s (b # bs) \<and> (\<forall>c \<in> set (b # bs). basic_blocks s c \<noteq> None)"
    if "get_parent_block s p = Some (Some b)" "basic_blocks s b \<noteq> None" for p b
    using n[unfolded nested_def] that
  proof (induction p arbitrary: b rule: wfp_induct_rule)
    case (less p)
    show ?case
    proof (cases rule: block_parent_cases[OF s less.prems(2)])
      case 1
      then show ?thesis using less.prems(2) by (intro exI[of _ "[]"]) simp
    next
      case (2 r q c)
      have "op_up s p q" using less.prems(1) 2(1,2) by (auto simp: op_up_def op_parent_region_def)
      then obtain bs where "up_chain s (c # bs)" "\<forall>c \<in> set (c # bs). basic_blocks s c \<noteq> None"
        using less.IH 2(4,6) by blast
      then show ?thesis using 2(5) less.prems(2) by (intro exI[of _ "c # bs"]) simp
    qed
  qed
  show ?thesis
  proof (cases rule: block_parent_cases[OF s b])
    case 1
    then show ?thesis using b by (intro exI[of _ "[]"]) simp
  next
    case (2 r q c)
    then obtain bs where "up_chain s (c # bs)" "\<forall>c \<in> set (c # bs). basic_blocks s c \<noteq> None"
      using ops by blast
    then show ?thesis using 2(5) b by (intro exI[of _ "c # bs"]) simp
  qed
qed

lemma up_chain_unique: "up_chain s (b # bs) \<Longrightarrow> up_chain s (b # cs) \<Longrightarrow> bs = cs"
proof (induction bs arbitrary: b cs)
  case (Cons c bs)
  then show ?case by (cases cs) (auto simp: up_chain_Cons)
qed (auto simp: up_chain_Cons split: list.splits)

lemma up_chain_suffix: "up_chain s (as @ b # bs) \<Longrightarrow> up_chain s (b # bs)"
  by (induction as) (auto simp: up_chain_Cons)

lemma up_chain_drop: "up_chain s bs \<Longrightarrow> n < length bs \<Longrightarrow> up_chain s (drop n bs)"
  using up_chain_suffix[of s "take n bs" "bs ! n" "drop (Suc n) bs"] by (simp add: id_take_nth_drop[symmetric] Cons_nth_drop_Suc)

text \<open>Blocks of one region have the same ancestors.\<close>

lemma same_region_parent:
  "block_parent_region s x = block_parent_region s y \<Longrightarrow> block_parent_block s x = block_parent_block s y"
  by (simp add: block_parent_block_def block_parent_op_def)

lemma same_region_above:
  assumes "up_chain s (x # xs)" and "up_chain s (y # ys)" and "block_parent_region s x = block_parent_region s y"
  shows "xs = ys"
  using assms(1,2) same_region_parent[OF assms(3)] up_chain_unique[of s "hd xs" "tl xs" "tl ys"]
  by (cases xs; cases ys) (auto simp: up_chain_Cons)

section \<open>What lifting finds\<close>

definition in_regions :: "('ty, 'c, 'a) ctx \<Rightarrow> block_ptr list \<Rightarrow> bool" where
  "in_regions s bs \<longleftrightarrow> (\<forall>b \<in> set bs. block_parent_region s b \<noteq> None)"

lemma climb_to_region_chain:
  "up_chain s (b # bs) \<Longrightarrow> in_regions s (b # bs) \<Longrightarrow> climb_to_region s t (Some b) d =
     Some (case find (\<lambda>c. block_parent_region s c = Some (Some t)) (b # bs) of
       Some c \<Rightarrow> Inl c | None \<Rightarrow> Inr (d + length (b # bs)))"
proof (induction bs arbitrary: b d)
  case Nil
  then show ?case
    by (auto simp: climb_to_region.simps[of s t "Some b"] climb_to_region.simps[of s t None] in_regions_def)
next
  case (Cons c bs)
  then have "block_parent_block s b = Some (Some c)" "up_chain s (c # bs)" "in_regions s (c # bs)"
    by (auto simp: in_regions_def)
  moreover from this(2,3) have "climb_to_region s t (Some c) (d + 1) =
     Some (case find (\<lambda>c. block_parent_region s c = Some (Some t)) (c # bs) of
       Some c \<Rightarrow> Inl c | None \<Rightarrow> Inr (d + 1 + length (c # bs)))" by (rule Cons.IH)
  ultimately show ?case using Cons.prems(2)
    by (auto simp: climb_to_region.simps[of s t "Some b"] in_regions_def cong: option.case_cong)
qed

lemma lift_by_None [simp]: "lift_by s n None = Some None"
  by (induction n) simp_all

lemma lift_by_chain:
  "up_chain s (b # bs) \<Longrightarrow> lift_by s n (Some b) = Some (if n < length (b # bs) then Some ((b # bs) ! n) else None)"
proof (induction n arbitrary: b bs)
  case (Suc n)
  then show ?case by (cases bs) auto
qed simp

lemma lift_together_chain:
  "up_chain s (a # as) \<Longrightarrow> up_chain s (b # bs) \<Longrightarrow> in_regions s (a # as) \<Longrightarrow> in_regions s (b # bs) \<Longrightarrow>
    lift_together s (Some a) (Some b) =
      Some (find (\<lambda>(x, y). block_parent_region s x = block_parent_region s y) (zip (a # as) (b # bs)))"
proof (induction as arbitrary: a b bs)
  case Nil
  then show ?case
    by (cases bs) (auto simp: lift_together.simps[of s "Some a" "Some b"] lift_together.simps[of s None] in_regions_def)
next
  case (Cons c as)
  show ?case
  proof (cases bs)
    case Nil
    then show ?thesis using Cons.prems
      by (auto simp: lift_together.simps[of s "Some a" "Some b"] lift_together.simps[of s _ None] in_regions_def)
  next
    case (Cons d ds)
    then have "lift_together s (Some c) (Some d) =
        Some (find (\<lambda>(x, y). block_parent_region s x = block_parent_region s y) (zip (c # as) (d # ds)))"
      using Cons.IH[of c d ds] Cons.prems by (auto simp: in_regions_def)
    then show ?thesis using Cons.prems \<open>bs = d # ds\<close>
      by (auto simp: lift_together.simps[of s "Some a" "Some b"] in_regions_def)
  qed
qed

lemma find_Some_in: "find P xs = Some x \<Longrightarrow> x \<in> set xs \<and> P x"
  by (induction xs) (auto split: if_splits)

text \<open>Blocks of one region stand at the same height in their chains.\<close>

lemma same_region_height:
  assumes A: "up_chain s as" and B: "up_chain s bs" and i: "i < length as" and j: "j < length bs"
    and r: "block_parent_region s (as ! i) = block_parent_region s (bs ! j)"
  shows "length as - i = length bs - j"
proof -
  have "up_chain s (as ! i # drop (Suc i) as)" "up_chain s (bs ! j # drop (Suc j) bs)"
    using up_chain_drop[OF A i] up_chain_drop[OF B j] i j by (simp_all add: Cons_nth_drop_Suc)
  from same_region_above[OF this r] have "length (drop (Suc i) as) = length (drop (Suc j) bs)" by simp
  then show ?thesis using i j by simp
qed

text \<open>
  The result, for two blocks with their chains of ancestors: the lowest pair of ancestors whose regions agree, and
  none only when there is no such pair or one of the blocks is in no region. (Two blocks that are in no region agree, too.)
\<close>

definition lowest_pair :: "('ty, 'c, 'a) ctx \<Rightarrow> block_ptr list \<Rightarrow> block_ptr list \<Rightarrow> block_ptr \<Rightarrow> block_ptr \<Rightarrow> bool" where
  "lowest_pair s as bs x y \<longleftrightarrow> (\<exists>i j. i < length as \<and> j < length bs \<and> as ! i = x \<and> bs ! j = y
     \<and> block_parent_region s x = block_parent_region s y
     \<and> (\<forall>k l. k < length as \<longrightarrow> l < length bs \<longrightarrow> block_parent_region s (as ! k) = block_parent_region s (bs ! l) \<longrightarrow> i \<le> k \<and> j \<le> l))"

lemma lowest_left:
  assumes A: "up_chain s as" and B: "up_chain s (b # bs)" and x: "x \<in> set as"
    and r: "block_parent_region s x = block_parent_region s b"
  shows "lowest_pair s as (b # bs) x b"
proof -
  obtain i where i: "i < length as" "as ! i = x" using x by (metis in_set_conv_nth)
  have h: "length as - i = length (b # bs)" using same_region_height[OF A B i(1), of 0] i(2) r by simp
  have "i \<le> k" if "k < length as" "l < length (b # bs)" "block_parent_region s (as ! k) = block_parent_region s ((b # bs) ! l)" for k l
    using same_region_height[OF A B that] h that(1) by linarith
  then show ?thesis unfolding lowest_pair_def using i r by (intro exI[of _ i] exI[of _ 0]) auto
qed

lemma lowest_pair_swap: "lowest_pair s as bs x y \<Longrightarrow> lowest_pair s bs as y x"
  unfolding lowest_pair_def by (elim exE conjE) (metis (no_types, lifting))

lemma lowest_together:
  assumes A: "up_chain s as" and B: "up_chain s bs"
    and f: "find (\<lambda>(x, y). block_parent_region s x = block_parent_region s y)
      (zip (drop (length as - length bs) as) (drop (length bs - length as) bs)) = res"
  shows "res = Some (x, y) \<Longrightarrow> lowest_pair s as bs x y"
    and "res = None \<Longrightarrow> x' \<in> set as \<Longrightarrow> y' \<in> set bs \<Longrightarrow> block_parent_region s x' \<noteq> block_parent_region s y'"
proof -
  let ?n = "length as - length bs" and ?m = "length bs - length as"
  let ?zs = "zip (drop ?n as) (drop ?m bs)"
  have len: "length (drop ?n as) = length (drop ?m bs)" by simp
  have at: "\<exists>d. k = ?n + d \<and> l = ?m + d \<and> d < length ?zs \<and> ?zs ! d = (as ! k, bs ! l)"
    if kl: "k < length as" "l < length bs" "block_parent_region s (as ! k) = block_parent_region s (bs ! l)" for k l
  proof -
    have d: "k = ?n + (k - ?n)" "l = ?m + (k - ?n)" using same_region_height[OF A B kl] kl(1,2) by linarith+
    have "k - ?n < length as - ?n" "k - ?n < length bs - ?m" using kl(1,2) d by linarith+
    then have "k - ?n < length ?zs" by simp
    moreover have "?zs ! (k - ?n) = (as ! (?n + (k - ?n)), bs ! (?m + (k - ?n)))" using \<open>k - ?n < length ?zs\<close> by simp
    ultimately show ?thesis using d by metis
  qed
  show "lowest_pair s as bs x y" if some: "res = Some (x, y)"
  proof -
    obtain d where d: "d < length ?zs" "?zs ! d = (x, y)" "block_parent_region s x = block_parent_region s y"
        "\<And>e. e < d \<Longrightarrow> \<not> (case ?zs ! e of (x, y) \<Rightarrow> block_parent_region s x = block_parent_region s y)"
      using f some by (fastforce simp: find_Some_iff)
    have first: "?n + d \<le> k \<and> ?m + d \<le> l"
      if kl: "k < length as" "l < length bs" "block_parent_region s (as ! k) = block_parent_region s (bs ! l)" for k l
    proof -
      obtain e where e: "k = ?n + e" "l = ?m + e" "?zs ! e = (as ! k, bs ! l)" using at[OF kl] by blast
      then have "\<not> e < d" using d(4)[of e] kl(3) by auto
      then show ?thesis unfolding e(1,2) by (simp only: not_less nat_add_left_cancel_le simp_thms)
    qed
    have "?n + d < length as" "?m + d < length bs" "as ! (?n + d) = x" "bs ! (?m + d) = y" using d(1,2) by auto
    then show ?thesis unfolding lowest_pair_def using d(3) first by blast
  qed
  show "block_parent_region s x' \<noteq> block_parent_region s y'" if none: "res = None" "x' \<in> set as" "y' \<in> set bs"
  proof
    assume r: "block_parent_region s x' = block_parent_region s y'"
    obtain k l where "k < length as" "as ! k = x'" "l < length bs" "bs ! l = y'" using none(2,3) by (metis in_set_conv_nth)
    then obtain d where "d < length ?zs" "?zs ! d = (x', y')" using at[of k l] r by auto
    then have "(x', y') \<in> set ?zs" by (metis nth_mem)
    then show False using f r unfolding none(1) find_None_iff by auto
  qed
qed

lemma try_get_blocks:
  assumes A: "up_chain s (a # as)" and B: "up_chain s (b # bs)"
    and rA: "in_regions s (a # as)" and rB: "in_regions s (b # bs)"
  shows "\<exists>res. try_get_blocks_in_same_region s a b = Some res
    \<and> (\<forall>x y. res = Some (x, y) \<longrightarrow> lowest_pair s (a # as) (b # bs) x y)
    \<and> (res = None \<longrightarrow> block_parent_region s a = Some None \<or> block_parent_region s b = Some None
         \<or> (\<forall>x \<in> set (a # as). \<forall>y \<in> set (b # bs). block_parent_region s x \<noteq> block_parent_region s y))"
proof -
  obtain ra rb where r: "block_parent_region s a = Some ra" "block_parent_region s b = Some rb"
    using rA rB by (auto simp: in_regions_def)
  show ?thesis
  proof (cases "ra = None \<or> rb = None \<or> ra = rb")
    case True
    then show ?thesis using r lowest_left[OF A B, of a]
      by (auto simp: try_get_blocks_in_same_region_def split: option.splits)
  next
    case False
    then obtain k l where kl: "ra = Some k" "rb = Some l" "k \<noteq> l" by auto
    note cA = climb_to_region_chain[OF A rA, of l 0] and cB = climb_to_region_chain[OF B rB, of k 0]
    show ?thesis
    proof (cases "find (\<lambda>c. block_parent_region s c = Some (Some l)) (a # as)")
      case (Some c)
      then have "lowest_pair s (a # as) (b # bs) c b" using find_Some_in[OF Some] lowest_left[OF A B, of c] r kl by simp
      then show ?thesis using r kl cA Some by (simp add: try_get_blocks_in_same_region_def)
    next
      case fA: None
      show ?thesis
      proof (cases "find (\<lambda>c. block_parent_region s c = Some (Some k)) (b # bs)")
        case (Some c)
        then have "lowest_pair s (a # as) (b # bs) a c"
          using find_Some_in[OF Some] lowest_pair_swap[OF lowest_left[OF B A, of c]] r kl by simp
        then show ?thesis using r kl cA fA cB Some by (simp add: try_get_blocks_in_same_region_def)
      next
        case fB: None
        let ?n = "length (a # as) - length (b # bs)" and ?m = "length (b # bs) - length (a # as)"
        let ?A = "drop ?n (a # as)" and ?B = "drop ?m (b # bs)"
        let ?P = "\<lambda>(x, y). block_parent_region s x = block_parent_region s y"
        have len: "?n < length (a # as)" "?m < length (b # bs)" by simp_all
        have hd: "?A = (a # as) ! ?n # tl ?A" "?B = (b # bs) ! ?m # tl ?B"
          using len by (metis Cons_nth_drop_Suc list.sel(3))+
        have "in_regions s ?A" "in_regions s ?B"
          using rA rB in_set_dropD unfolding in_regions_def by fast+
        then have "lift_together s (Some ((a # as) ! ?n)) (Some ((b # bs) ! ?m)) = Some (find ?P (zip ?A ?B))"
          using lift_together_chain[of s "(a # as) ! ?n" "tl ?A" "(b # bs) ! ?m" "tl ?B"]
            up_chain_drop[OF A len(1)] up_chain_drop[OF B len(2)] hd by metis
        then have res: "try_get_blocks_in_same_region s a b = Some (find ?P (zip ?A ?B))"
          using r kl cA fA cB fB lift_by_chain[OF A, of ?n] lift_by_chain[OF B, of ?m] len
          by (simp add: try_get_blocks_in_same_region_def)
        show ?thesis using res lowest_together[OF A B refl] by (intro exI[of _ "find ?P (zip ?A ?B)"] conjI allI impI) blast+
      qed
    qed
  qed
qed

end
