(* ===== verification/NestedDom.thy ===== *)
theory NestedDom
  imports DomInfo
begin

text \<open>
  The answers of \<open>DomInfo\<close>: dominance of operations, values and blocks across nested regions is
  decided by the ancestor that lies in the region of the dominating one. The caches stay valid, and
  no query panics on a consistent context whose operations are not nested in themselves.
\<close>

section \<open>Valid caches\<close>

definition memo_ok :: "('k \<Rightarrow> 'v option) \<Rightarrow> ('k \<rightharpoonup> 'v) \<Rightarrow> bool" where
  "memo_ok compute memo \<longleftrightarrow> (\<forall>k v. memo k = Some v \<longrightarrow> compute k = Some v)"

lemma memo_get_ok:
  assumes "memo_ok compute memo" and "compute k = Some v"
  shows "\<exists>memo'. memo_get compute memo k = Some (v, memo') \<and> memo_ok compute memo'"
  using assms by (cases "memo k") (auto simp: memo_get_def memo_ok_def)

lemma memo_ok_empty [simp]: "memo_ok compute Map.empty"
  by (simp add: memo_ok_def)

abbreviation trees_ok :: "('c \<Rightarrow> bool) \<Rightarrow> ('ty, 'c, 'a) ctx \<Rightarrow> dom_info \<Rightarrow> bool" where
  "trees_ok is_term s \<equiv> memo_ok (\<lambda>r. compute_dominator_tree (region_cfg is_term s r))"

text \<open>What the analyses assume of a region: it exists and its branches stay inside.\<close>

definition region_ok :: "('c \<Rightarrow> bool) \<Rightarrow> ('ty, 'c, 'a) ctx \<Rightarrow> region_ptr \<Rightarrow> bool" where
  "region_ok is_term s r \<longleftrightarrow> regions s r \<noteq> None \<and> branches_ok is_term s r"

text \<open>Block \<open>c\<close> dominates block \<open>d\<close> in the graph of their region, from its entry.\<close>

definition block_dominates :: "('c \<Rightarrow> bool) \<Rightarrow> ('ty, 'c, 'a) ctx \<Rightarrow> region_ptr \<Rightarrow> block_ptr \<Rightarrow> block_ptr \<Rightarrow> bool" where
  "block_dominates is_term s r c d \<longleftrightarrow>
     (\<exists>e. entry_node (region_cfg is_term s r) = Some e \<and> doms (region_cfg is_term s r) e c d)"

lemma region_tree:
  assumes s: "ctx_ok s" and r: "region_ok is_term s r" and info: "trees_ok is_term s info"
    and b: "block_parent_region s b = Some (Some r)"
  shows "\<exists>t info'. get_dom_tree is_term s info r = Some (t, info') \<and> trees_ok is_term s info'
    \<and> (\<forall>c d. dominates t c d = Some (c = d \<or> block_dominates is_term s r c d))"
proof -
  let ?g = "region_cfg is_term s r"
  have r': "regions s r \<noteq> None" "branches_ok is_term s r" using r by (simp_all add: region_ok_def)
  note g = region_cfg_ok(1,2)[OF s r']
  obtain bs where "region_blocks s r = Some bs" "b \<in> set bs" using region_blocks_ok[OF s r'(1)] b by auto
  then have "graph_nodes ?g \<noteq> []" using g(2) by auto
  then obtain e where e: "entry_node ?g = Some e" using wf_cfgD(5)[OF g(1)] by (cases "entry_node ?g") auto
  obtain t where t: "compute_dominator_tree ?g = Some t"
      "\<And>c d. dominates t c d = Some (if reaches ?g e d then \<forall>p. is_path ?g e p d \<longrightarrow> c \<in> set p else c = d)"
    using dominates_total[OF g(1) e] by blast
  obtain info' where "get_dom_tree is_term s info r = Some (t, info')" "trees_ok is_term s info'"
    using memo_get_ok[OF info, of r t] t(1) by (auto simp: get_dom_tree_def)
  moreover have "dominates t c d = Some (c = d \<or> block_dominates is_term s r c d)" for c d
  proof -
    have "d \<in> set p" if "is_path ?g e p d" for p using is_path_ends[OF that] last_in_set by metis
    then show ?thesis using t(2) e by (auto simp: block_dominates_def doms_def)
  qed
  ultimately show ?thesis by blast
qed

lemma has_ssa_dominance_returns:
  assumes s: "ctx_ok s" and r: "regions s r \<noteq> None"
  shows "\<exists>ssa. has_ssa_dominance kind s r = Some ssa"
proof -
  obtain reg where reg: "regions s r = Some reg" using r by blast
  obtain rs where rs: "op_regs s (parent_op reg) = Some rs" "r \<in> set rs"
    using s reg unfolding ctx_ok_def shape_ok_def by blast
  then obtain op where op: "operations s (parent_op reg) = Some op" "rs = op_regions op" by (auto simp: op_regs_def)
  then have "position (\<lambda>x. x = r) (op_regions op) \<noteq> None" using rs(2) by (simp add: position_None)
  then show ?thesis using reg op(1)
    by (auto simp: has_ssa_dominance_def region_parent_op_def find_index_in_parent_def split: option.splits)
qed

section \<open>Ancestors in a region\<close>

definition stands_before :: "('ty, 'c, 'a) ctx \<Rightarrow> op_ptr \<Rightarrow> op_ptr \<Rightarrow> bool" where
  "stands_before s a b \<longleftrightarrow> (\<exists>c ps i j. block_ops s c = Some ps \<and> basic_blocks s c \<noteq> None
     \<and> i < j \<and> j < length ps \<and> ps ! i = a \<and> ps ! j = b)"

lemma op_up_unique: "op_up s p q \<Longrightarrow> op_up s p q' \<Longrightarrow> q' = q"
  by (auto simp: op_up_def)

lemma op_up_linear:
  assumes "(op_up s)\<^sup>*\<^sup>* p x" and "(op_up s)\<^sup>*\<^sup>* p y"
  shows "(op_up s)\<^sup>*\<^sup>* x y \<or> (op_up s)\<^sup>*\<^sup>* y x"
  using assms
proof (induction rule: converse_rtranclp_induct)
  case (step p q)
  show ?case
  proof (cases rule: converse_rtranclpE[OF step.prems])
    case 1
    then show ?thesis using step.hyps by (meson converse_rtranclp_into_rtranclp)
  next
    case (2 q')
    then show ?thesis using step.IH op_up_unique[OF step.hyps(1) 2(1)] by blast
  qed
qed simp

lemma nested_acyclic:
  assumes "nested s"
  shows "\<not> (op_up s)\<^sup>+\<^sup>+ p p"
  using assms[unfolded nested_def]
proof (induction p rule: wfp_induct_rule)
  case (less p)
  show ?case
  proof
    assume "(op_up s)\<^sup>+\<^sup>+ p p"
    then obtain q where q: "op_up s p q" "(op_up s)\<^sup>*\<^sup>* q p" by (meson tranclpD)
    then have "(op_up s)\<^sup>+\<^sup>+ q q" by (meson rtranclp_into_tranclp1)
    then show False using less.IH[OF q(1)] by simp
  qed
qed

text \<open>At most one ancestor of an operation lies directly in a given region.\<close>

lemma ancestor_unique:
  assumes n: "nested s" and x: "(op_up s)\<^sup>*\<^sup>* p x" "op_parent_region s x = Some (Some r)"
    and y: "(op_up s)\<^sup>*\<^sup>* p y" "op_parent_region s y = Some (Some r)"
  shows "x = y"
proof -
  have "x = y" if xy: "(op_up s)\<^sup>*\<^sup>* x y" "op_parent_region s x = Some (Some r)" "op_parent_region s y = Some (Some r)" for x y
  proof (cases rule: converse_rtranclpE[OF xy(1)])
    case (2 q)
    then have "op_up s y q" using xy(2,3) by (simp add: op_up_def)
    then have "(op_up s)\<^sup>+\<^sup>+ q q" using 2(2) by (meson rtranclp_into_tranclp1)
    then show ?thesis using nested_acyclic[OF n] by blast
  qed
  then show ?thesis using op_up_linear[OF x(1) y(1)] x(2) y(2) by metis
qed

lemma find_ancestor_block_chain:
  "up_chain s (b # bs) \<Longrightarrow> in_regions s (b # bs) \<Longrightarrow> ctx_ok s \<Longrightarrow>
    find_ancestor_block_of_block_in_region s b r
      = Some (find (\<lambda>c. block_parent_region s c = Some (Some r)) (b # bs))"
proof (induction bs arbitrary: b)
  case Nil
  obtain k where k: "block_parent_region s b = Some k" using Nil.prems(2) by (auto simp: in_regions_def)
  show ?case
  proof (cases k)
    case None
    then show ?thesis using k by (simp add: find_ancestor_block_of_block_in_region.simps[of s b r])
  next
    case (Some l)
    have "region_parent_block s l = Some None"
      using Nil.prems(1) k Some by (auto simp: block_parent_block_def block_parent_op_def region_parent_block_def
          region_parent_op_def split: option.splits bind_splits)
    then show ?thesis using k Some by (simp add: find_ancestor_block_of_block_in_region.simps[of s b r])
  qed
next
  case (Cons c bs)
  obtain k where k: "block_parent_region s b = Some (Some k)"
    using Cons.prems(1) by (auto simp: block_parent_block_def block_parent_op_def split: option.splits bind_splits)
  have "region_parent_block s k = Some (Some c)"
    using Cons.prems(1) k by (auto simp: block_parent_block_def block_parent_op_def region_parent_block_def
        region_parent_op_def split: option.splits bind_splits)
  then show ?case using k Cons.IH[of c] Cons.prems
    by (simp add: find_ancestor_block_of_block_in_region.simps[of s b r] in_regions_def)
qed

definition block_up :: "('ty, 'c, 'a) ctx \<Rightarrow> block_ptr \<Rightarrow> block_ptr \<Rightarrow> bool" where
  "block_up s b c \<longleftrightarrow> block_parent_block s b = Some (Some c)"

lemma up_chain_up: "up_chain s (b # bs) \<Longrightarrow> (block_up s)\<^sup>*\<^sup>* b c \<longleftrightarrow> c \<in> set (b # bs)"
proof (induction bs arbitrary: b)
  case Nil
  then have "\<not> block_up s b d" for d by (simp add: block_up_def)
  then show ?case by (auto elim: converse_rtranclpE)
next
  case (Cons d bs)
  then have u: "block_up s b x \<longleftrightarrow> x = d" for x by (auto simp: block_up_def)
  then have "(block_up s)\<^sup>*\<^sup>* b c \<longleftrightarrow> c = b \<or> (block_up s)\<^sup>*\<^sup>* d c"
    by (metis converse_rtranclpE converse_rtranclp_into_rtranclp rtranclp.rtrancl_refl)
  then show ?case using Cons by simp
qed

lemma block_chain:
  assumes "nested s" and "ctx_ok s" and "basic_blocks s b \<noteq> None"
  obtains bs where "up_chain s (b # bs)" and "in_regions s (b # bs)" and "\<And>c. (block_up s)\<^sup>*\<^sup>* b c \<longleftrightarrow> c \<in> set (b # bs)"
proof -
  obtain bs where bs: "up_chain s (b # bs)" "\<forall>c \<in> set (b # bs). basic_blocks s c \<noteq> None"
    using up_chain_exists[OF assms] by blast
  then have "in_regions s (b # bs)" using parents_exist(2)[OF assms(2)] by (fastforce simp: in_regions_def)
  then show ?thesis using that bs(1) up_chain_up[OF bs(1)] by blast
qed

text \<open>The chain of a block meets a region at most once.\<close>

lemma block_ancestor:
  assumes n: "nested s" and s: "ctx_ok s" and b: "basic_blocks s b \<noteq> None"
  shows "\<exists>res. find_ancestor_block_of_block_in_region s b r = Some res
    \<and> (\<forall>c. res = Some c \<longleftrightarrow> (block_up s)\<^sup>*\<^sup>* b c \<and> block_parent_region s c = Some (Some r))"
proof -
  obtain bs where bs: "up_chain s (b # bs)" "in_regions s (b # bs)" "\<And>c. (block_up s)\<^sup>*\<^sup>* b c \<longleftrightarrow> c \<in> set (b # bs)"
    using block_chain[OF assms] by blast
  let ?P = "\<lambda>c. block_parent_region s c = Some (Some r)"
  have one: "x = y" if xy: "x \<in> set (b # bs)" "y \<in> set (b # bs)" "?P x" "?P y" for x y
  proof -
    obtain i j where ij: "i < length (b # bs)" "(b # bs) ! i = x" "j < length (b # bs)" "(b # bs) ! j = y"
      using xy(1,2) by (metis in_set_conv_nth)
    have "up_chain s (x # drop (Suc i) (b # bs))" "up_chain s (y # drop (Suc j) (b # bs))"
      using up_chain_drop[OF bs(1)] ij by (metis Cons_nth_drop_Suc)+
    then have "length (drop (Suc i) (b # bs)) = length (drop (Suc j) (b # bs))"
      using same_region_above xy(3,4) by metis
    then have "i = j" using ij(1,3) by simp
    then show ?thesis using ij by simp
  qed
  have "find ?P (b # bs) = Some c \<longleftrightarrow> c \<in> set (b # bs) \<and> ?P c" for c
    using one find_Some_in[of ?P "b # bs"] find_None_iff[of ?P "b # bs"] by (cases "find ?P (b # bs)") blast+
  then show ?thesis using find_ancestor_block_chain[OF bs(1,2) s, of r] bs(3) by simp
qed

section \<open>Dominance of operations and values\<close>

lemma op_dominance:
  assumes s: "ctx_ok s" and n: "nested s" and a: "operations s a \<noteq> None" and b: "operations s b \<noteq> None"
    and ca: "get_parent_block s a = Some (Some ca)" and r: "block_parent_region s ca = Some (Some r)"
    and ok: "region_ok is_term s r" and info: "trees_ok is_term s info"
  shows "\<exists>ssa d info'. has_ssa_dominance kind s r = Some ssa
    \<and> op_strictly_dominates_op is_term kind s info a b = Some (d, info') \<and> trees_ok is_term s info'
    \<and> (d \<longleftrightarrow> (\<exists>b' cb. (op_up s)\<^sup>*\<^sup>* b b' \<and> get_parent_block s b' = Some (Some cb)
         \<and> block_parent_region s cb = Some (Some r)
         \<and> (if cb = ca then \<not> ssa \<or> stands_before s a b' else block_dominates is_term s r ca cb)))"
proof -
  obtain ssa where ssa: "has_ssa_dominance kind s r = Some ssa"
    using has_ssa_dominance_returns[OF s] ok by (auto simp: region_ok_def)
  obtain res where res: "find_ancestor_op_of_op_in_region s b r = Some res"
      "\<forall>q. res = Some q \<longrightarrow> (op_up s)\<^sup>*\<^sup>* b q \<and> op_parent_region s q = Some (Some r)"
      "res = None \<longrightarrow> (\<forall>q. (op_up s)\<^sup>*\<^sup>* b q \<longrightarrow> op_parent_region s q \<noteq> Some (Some r))"
    using find_ancestor_op[OF n[unfolded nested_def] s b] by blast
  have pr: "op_parent_region s q = Some (Some r) \<longleftrightarrow>
      (\<exists>c. get_parent_block s q = Some (Some c) \<and> block_parent_region s c = Some (Some r))" for q
    by (auto simp: op_parent_region_def split: bind_splits option.splits)
  show ?thesis
  proof (cases res)
    case None
    then have "op_strictly_dominates_op is_term kind s info a b = Some (False, info)"
      using ca r ssa res(1) by (simp add: op_strictly_dominates_op_def)
    then show ?thesis using ssa info res(3) None pr by (intro exI[of _ ssa] exI[of _ False] exI[of _ info]) auto
  next
    case (Some b')
    obtain cb where cb: "get_parent_block s b' = Some (Some cb)" "block_parent_region s cb = Some (Some r)"
      using res(2) Some pr by blast
    have b': "(op_up s)\<^sup>*\<^sup>* b b'" "op_parent_region s b' = Some (Some r)" using res(2) Some by auto
    let ?rel = "if cb = ca then \<not> ssa \<or> stands_before s a b' else block_dominates is_term s r ca cb"
    have uniq: "(\<exists>x cx. (op_up s)\<^sup>*\<^sup>* b x \<and> get_parent_block s x = Some (Some cx) \<and> block_parent_region s cx = Some (Some r)
        \<and> (if cx = ca then \<not> ssa \<or> stands_before s a x else block_dominates is_term s r ca cx)) \<longleftrightarrow> ?rel"
    proof
      assume "\<exists>x cx. (op_up s)\<^sup>*\<^sup>* b x \<and> get_parent_block s x = Some (Some cx) \<and> block_parent_region s cx = Some (Some r)
        \<and> (if cx = ca then \<not> ssa \<or> stands_before s a x else block_dominates is_term s r ca cx)"
      then obtain x cx where x: "(op_up s)\<^sup>*\<^sup>* b x" "get_parent_block s x = Some (Some cx)" "block_parent_region s cx = Some (Some r)"
          "if cx = ca then \<not> ssa \<or> stands_before s a x else block_dominates is_term s r ca cx" by blast
      have xb: "x = b'" using ancestor_unique[OF n x(1) _ b'] x(2,3) pr by blast
      then have "cx = cb" using x(2) cb(1) by simp
      from x(4)[unfolded xb this] show ?rel .
    qed (use b'(1) cb in blast)
    show ?thesis
    proof (cases "cb = ca")
      case True
      have ob: "operations s b' \<noteq> None"
        using cb(1) shape_okD(1)[of s b'] s by (auto simp: ctx_ok_def get_parent_block_def)
      have "op_strictly_dominates_op is_term kind s info a b = Some (\<not> ssa \<or> stands_before s a b', info)"
        using ca r ssa res(1) Some cb(1) True strictly_precedes[OF s a ob]
        by (simp add: op_strictly_dominates_op_def stands_before_def)
      then show ?thesis using ssa info uniq True
        by (intro exI[of _ ssa] exI[of _ "\<not> ssa \<or> stands_before s a b'"] exI[of _ info]) auto
    next
      case False
      obtain t info' where t: "get_dom_tree is_term s info r = Some (t, info')" "trees_ok is_term s info'"
          "dominates t ca cb = Some (ca = cb \<or> block_dominates is_term s r ca cb)"
        using region_tree[OF s ok info r] by blast
      have "op_strictly_dominates_op is_term kind s info a b = Some (block_dominates is_term s r ca cb, info')"
        using ca r ssa res(1) Some cb(1) False t(1,3) by (simp add: op_strictly_dominates_op_def)
      then show ?thesis using ssa t(2) uniq False
        by (intro exI[of _ ssa] exI[of _ "block_dominates is_term s r ca cb"] exI[of _ info']) auto
    qed
  qed
qed

lemma argument_dominance:
  assumes s: "ctx_ok s" and n: "nested s" and pb: "get_parent_block s b = Some (Some pb)"
    and v: "defining_entity v = BlockDef c" and r: "block_parent_region s c = Some (Some r)"
    and ok: "region_ok is_term s r" and info: "trees_ok is_term s info"
  shows "\<exists>d info'. value_strictly_dominates_op is_term kind s info v b = Some (d, info') \<and> trees_ok is_term s info'
    \<and> (d \<longleftrightarrow> (\<exists>cb. (block_up s)\<^sup>*\<^sup>* pb cb \<and> block_parent_region s cb = Some (Some r)
         \<and> (cb = c \<or> block_dominates is_term s r c cb)))"
proof -
  have "operations s b \<noteq> None" using pb shape_okD(1)[of s b] s by (auto simp: ctx_ok_def get_parent_block_def)
  from parents_exist(1)[OF s this] have "basic_blocks s pb \<noteq> None" using pb by auto
  from block_ancestor[OF n s this] obtain res where res: "find_ancestor_block_of_block_in_region s pb r = Some res"
      "\<And>c. res = Some c \<longleftrightarrow> (block_up s)\<^sup>*\<^sup>* pb c \<and> block_parent_region s c = Some (Some r)" by blast
  show ?thesis
  proof (cases res)
    case None
    then have "value_strictly_dominates_op is_term kind s info v b = Some (False, info)"
      using v pb r res(1) by (simp add: value_strictly_dominates_op_def)
    then show ?thesis using info res(2) None by (intro exI[of _ False] exI[of _ info]) auto
  next
    case (Some cb)
    obtain t info' where t: "get_dom_tree is_term s info r = Some (t, info')" "trees_ok is_term s info'"
        "dominates t c cb = Some (c = cb \<or> block_dominates is_term s r c cb)"
      using region_tree[OF s ok info r] by blast
    have "value_strictly_dominates_op is_term kind s info v b = Some (c = cb \<or> block_dominates is_term s r c cb, info')"
      using v pb r res(1) Some t(1,3) by (simp add: value_strictly_dominates_op_def)
    moreover have "(block_up s)\<^sup>*\<^sup>* pb x \<and> block_parent_region s x = Some (Some r) \<longleftrightarrow> x = cb" for x
      using res(2)[of x] Some by auto
    ultimately show ?thesis using t(2)
      by (intro exI[of _ "c = cb \<or> block_dominates is_term s r c cb"] exI[of _ info']) metis
  qed
qed

text \<open>Ancestors \<open>x\<close> of \<open>a\<close> and \<open>y\<close> of \<open>b\<close> (possibly the blocks themselves) that lie in one region.\<close>

definition common_ancestors :: "('ty, 'c, 'a) ctx \<Rightarrow> block_ptr \<Rightarrow> block_ptr \<Rightarrow> block_ptr \<Rightarrow> block_ptr \<Rightarrow> bool" where
  "common_ancestors s a b x y \<longleftrightarrow> (block_up s)\<^sup>*\<^sup>* a x \<and> (block_up s)\<^sup>*\<^sup>* b y
     \<and> (\<exists>r. block_parent_region s x = Some (Some r) \<and> block_parent_region s y = Some (Some r))"

lemma orphan_last:
  assumes "up_chain s bs" and "i < length bs" and "block_parent_region s (bs ! i) = Some None"
  shows "Suc i = length bs"
proof -
  have "up_chain s (bs ! i # drop (Suc i) bs)" using up_chain_drop[OF assms(1,2)] assms(2) by (simp add: Cons_nth_drop_Suc)
  then have "drop (Suc i) bs = []"
    using assms(3) by (cases "drop (Suc i) bs") (auto simp: block_parent_block_def block_parent_op_def)
  then show ?thesis using assms(2) by simp
qed

lemma chain_order:
  assumes "up_chain s bs" and "i \<le> k" and "k < length bs"
  shows "(block_up s)\<^sup>*\<^sup>* (bs ! i) (bs ! k)"
proof -
  have "up_chain s (bs ! i # drop (Suc i) bs)" using up_chain_drop[OF assms(1), of i] assms(2,3) by (simp add: Cons_nth_drop_Suc)
  moreover have "bs ! k \<in> set (drop i bs)" using assms(2,3) by (auto simp: in_set_conv_nth intro!: exI[of _ "k - i"])
  ultimately show ?thesis using up_chain_up assms(2,3) by (metis Cons_nth_drop_Suc le_less_trans)
qed

lemma common_region:
  assumes s: "ctx_ok s" and n: "nested s" and a: "basic_blocks s a \<noteq> None" and b: "basic_blocks s b \<noteq> None"
  shows "\<exists>res. try_get_blocks_in_same_region s a b = Some res
    \<and> (\<forall>x y. common_ancestors s a b x y \<longrightarrow> (\<exists>x0 y0. res = Some (x0, y0) \<and> common_ancestors s a b x0 y0
         \<and> (block_up s)\<^sup>*\<^sup>* x0 x \<and> (block_up s)\<^sup>*\<^sup>* y0 y))
    \<and> ((\<nexists>x y. common_ancestors s a b x y) \<longrightarrow> res = None \<or> (\<exists>x y. res = Some (x, y) \<and> (block_up s)\<^sup>*\<^sup>* a x \<and> (block_up s)\<^sup>*\<^sup>* b y
         \<and> block_parent_region s x = Some None \<and> block_parent_region s y = Some None))"
proof -
  obtain as where A: "up_chain s (a # as)" "in_regions s (a # as)" "\<And>c. (block_up s)\<^sup>*\<^sup>* a c \<longleftrightarrow> c \<in> set (a # as)"
    using block_chain[OF n s a] by blast
  obtain bs where B: "up_chain s (b # bs)" "in_regions s (b # bs)" "\<And>c. (block_up s)\<^sup>*\<^sup>* b c \<longleftrightarrow> c \<in> set (b # bs)"
    using block_chain[OF n s b] by blast
  obtain res where res: "try_get_blocks_in_same_region s a b = Some res"
      "\<And>x y. res = Some (x, y) \<Longrightarrow> lowest_pair s (a # as) (b # bs) x y"
      "res = None \<Longrightarrow> block_parent_region s a = Some None \<or> block_parent_region s b = Some None
         \<or> (\<forall>x \<in> set (a # as). \<forall>y \<in> set (b # bs). block_parent_region s x \<noteq> block_parent_region s y)"
    using try_get_blocks[OF A(1) B(1) A(2) B(2)] by blast
  have found: "\<exists>x0 y0. res = Some (x0, y0) \<and> common_ancestors s a b x0 y0 \<and> (block_up s)\<^sup>*\<^sup>* x0 x \<and> (block_up s)\<^sup>*\<^sup>* y0 y"
    if c: "common_ancestors s a b x y" for x y
  proof -
    obtain k where k: "k < length (a # as)" "(a # as) ! k = x" using c A(3) by (metis common_ancestors_def in_set_conv_nth)
    obtain l where l: "l < length (b # bs)" "(b # bs) ! l = y" using c B(3) by (metis common_ancestors_def in_set_conv_nth)
    obtain r where r: "block_parent_region s x = Some (Some r)" "block_parent_region s y = Some (Some r)"
      using c by (auto simp: common_ancestors_def)
    have "block_parent_region s a \<noteq> Some None" using orphan_last[OF A(1), of 0] k r(1) by (cases k) auto
    moreover have "block_parent_region s b \<noteq> Some None" using orphan_last[OF B(1), of 0] l r(2) by (cases l) auto
    moreover have "x \<in> set (a # as)" "y \<in> set (b # bs)" using k l nth_mem by metis+
    ultimately have "res \<noteq> None" using res(3) r by metis
    then obtain x0 y0 where xy: "res = Some (x0, y0)" by fastforce
    then obtain i j where ij: "i < length (a # as)" "j < length (b # bs)" "(a # as) ! i = x0" "(b # bs) ! j = y0"
        "block_parent_region s x0 = block_parent_region s y0" "i \<le> k" "j \<le> l"
      using res(2)[OF xy] k l r unfolding lowest_pair_def by metis
    have "block_parent_region s x0 \<noteq> Some None"
      using orphan_last[OF A(1) ij(1)] ij(3,6) k r(1) by (metis Suc_leI le_antisym le_neq_implies_less not_less option.inject option.simps(3))
    moreover have in_chain: "x0 \<in> set (a # as)" "y0 \<in> set (b # bs)" using ij(1-4) nth_mem by metis+
    moreover have "block_parent_region s x0 \<noteq> None" using A(2) in_chain(1) unfolding in_regions_def by blast
    ultimately obtain r0 where "block_parent_region s x0 = Some (Some r0)" by fastforce
    then have "common_ancestors s a b x0 y0" using in_chain A(3) B(3) ij(5) by (simp add: common_ancestors_def)
    moreover have "(block_up s)\<^sup>*\<^sup>* x0 x" "(block_up s)\<^sup>*\<^sup>* y0 y"
      using chain_order[OF A(1) ij(6) k(1)] chain_order[OF B(1) ij(7) l(1)] k(2) l(2) ij(3,4) by simp_all
    ultimately show ?thesis using xy by blast
  qed
  have "res = None \<or> (\<exists>x y. res = Some (x, y) \<and> (block_up s)\<^sup>*\<^sup>* a x \<and> (block_up s)\<^sup>*\<^sup>* b y
         \<and> block_parent_region s x = Some None \<and> block_parent_region s y = Some None)"
    if none: "\<nexists>x y. common_ancestors s a b x y"
  proof (cases res)
    case (Some xy)
    obtain x y where xy: "res = Some (x, y)" using Some by (cases xy) simp
    have in_chain: "x \<in> set (a # as)" "y \<in> set (b # bs)" and r: "block_parent_region s x = block_parent_region s y"
      using res(2)[OF xy] nth_mem unfolding lowest_pair_def by metis+
    have up: "(block_up s)\<^sup>*\<^sup>* a x" "(block_up s)\<^sup>*\<^sup>* b y" using in_chain A(3) B(3) by simp_all
    have "block_parent_region s x \<noteq> Some (Some r0)" for r0
      using none up r by (auto simp: common_ancestors_def)
    moreover have "block_parent_region s x \<noteq> None" using A(2) in_chain(1) unfolding in_regions_def by blast
    ultimately have "block_parent_region s x = Some None" by fastforce
    then show ?thesis using xy up r by simp
  qed simp
  then show ?thesis by (intro exI[of _ res] conjI allI impI) (use res(1) found in \<open>assumption | simp\<close>)+
qed

section \<open>Properties\<close>

text \<open>
  C22. \<open>op_strictly_dominates_op\<close> on a consistent context without operations nested in themselves: it does not panic
  when the first operation's block is in a region, keeps the cache valid, and answers true exactly when an
  ancestor of the second operation (or itself) lies in that region, and there either stands in the
  same block (after the first operation, if the region uses SSA dominance), or in a block that the
  first one's block dominates.
\<close>

theorem op_dominance_correct:
  assumes "ctx_ok s" and "nested s" and "operations s a \<noteq> None" and "operations s b \<noteq> None"
    and "get_parent_block s a = Some (Some ca)" and "block_parent_region s ca = Some (Some r)"
    and "region_ok is_term s r" and "trees_ok is_term s info"
  shows "\<exists>ssa d info'. has_ssa_dominance kind s r = Some ssa
    \<and> op_strictly_dominates_op is_term kind s info a b = Some (d, info') \<and> trees_ok is_term s info'
    \<and> (d \<longleftrightarrow> (\<exists>b' cb. (op_up s)\<^sup>*\<^sup>* b b' \<and> get_parent_block s b' = Some (Some cb)
         \<and> block_parent_region s cb = Some (Some r)
         \<and> (if cb = ca then \<not> ssa \<or> stands_before s a b' else block_dominates is_term s r ca cb)))"
  by (rule op_dominance[OF assms])

text \<open>
  The small program of \<open>IrRun\<close>: an operation outside any block, with one region of two blocks.
\<close>

lemma nested_by_measure:
  assumes "\<And>p q. op_up s p q \<Longrightarrow> (f q :: nat) < f p"
  shows "nested s"
  unfolding nested_def by (rule wfp_if_convertible_to_nat[of _ f]) (rule assms)

lemma demo_regions: "regions demo_ctx r = (if r = 0 then Some \<lparr>parent_op = 0\<rparr> else None)"
  by code_simp

lemma demo_nested: "nested demo_ctx"
proof (rule nested_by_measure[of _ "\<lambda>p. if p = 0 then 0 else 1"])
  fix p q assume up: "op_up demo_ctx p q"
  then have "q = 0" by (auto simp: op_up_def region_parent_op_def demo_regions split: if_splits)
  moreover have top: "op_parent_region demo_ctx 0 = Some None" by code_simp
  have "p \<noteq> 0" by (rule notI) (use up top in \<open>simp add: op_up_def\<close>)
  ultimately show "(if q = 0 then 0 else 1 :: nat) < (if p = 0 then 0 else 1)" by simp
qed

lemma demo_region_ok: "region_ok (\<lambda>c. c = 2) demo_ctx 0"
proof -
  have "regions demo_ctx 0 \<noteq> None" "branches_ok (\<lambda>c. c = 2) demo_ctx 0" by code_simp+
  then show ?thesis by (simp add: region_ok_def)
qed

theorem op_dominance_correct_witness:
  "\<exists>ssa d info'. has_ssa_dominance (\<lambda>c. None) demo_ctx 0 = Some ssa
    \<and> op_strictly_dominates_op (\<lambda>c. c = 2) (\<lambda>c. None) demo_ctx Map.empty 1 2 = Some (d, info')
    \<and> trees_ok (\<lambda>c. c = 2) demo_ctx info'"
proof -
  have "operations demo_ctx 1 \<noteq> None" "operations demo_ctx 2 \<noteq> None"
    "get_parent_block demo_ctx 1 = Some (Some 0)" "block_parent_region demo_ctx 0 = Some (Some 0)" by code_simp+
  from op_dominance_correct[OF demo_ok demo_nested this demo_region_ok memo_ok_empty]
  show ?thesis by blast
qed

text \<open>
  C23. \<open>value_strictly_dominates_op\<close> for a block argument: true exactly when the block of the operation has an
  ancestor (or is one) in the region of the argument's block which that block dominates, itself included.
\<close>

theorem argument_dominance_correct:
  assumes "ctx_ok s" and "nested s" and "get_parent_block s b = Some (Some pb)"
    and "defining_entity v = BlockDef c" and "block_parent_region s c = Some (Some r)"
    and "region_ok is_term s r" and "trees_ok is_term s info"
  shows "\<exists>d info'. value_strictly_dominates_op is_term kind s info v b = Some (d, info') \<and> trees_ok is_term s info'
    \<and> (d \<longleftrightarrow> (\<exists>cb. (block_up s)\<^sup>*\<^sup>* pb cb \<and> block_parent_region s cb = Some (Some r)
         \<and> (cb = c \<or> block_dominates is_term s r c cb)))"
  by (rule argument_dominance[OF assms])

theorem argument_dominance_correct_witness:
  "\<exists>d info'. value_strictly_dominates_op (\<lambda>c. c = 2) (\<lambda>c. None) demo_ctx Map.empty
      \<lparr>val_uid = 0, defining_entity = BlockDef 0\<rparr> 1 = Some (d, info')
    \<and> trees_ok (\<lambda>c. c = 2) demo_ctx info'"
proof -
  have pb: "get_parent_block demo_ctx 1 = Some (Some 0)" and pr: "block_parent_region demo_ctx 0 = Some (Some 0)"
    by code_simp+
  have "defining_entity \<lparr>val_uid = 0, defining_entity = BlockDef 0\<rparr> = BlockDef 0" by simp
  from argument_dominance_correct[OF demo_ok demo_nested pb this pr demo_region_ok memo_ok_empty]
  show ?thesis by blast
qed

text \<open>
  C24. \<open>try_get_blocks_in_same_region\<close>, with its two searches, the equalisation of depths and the lockstep climb, returns for any
  two blocks. If the two have ancestors in one region it finds the lowest such pair: both lie in one region, and every other such pair lies
  above it. If they have none it returns none, or a pair of ancestors that both lie in no region at all.
\<close>

theorem common_region_found:
  assumes "ctx_ok s" and "nested s" and "basic_blocks s a \<noteq> None" and "basic_blocks s b \<noteq> None"
  shows "\<exists>res. try_get_blocks_in_same_region s a b = Some res
    \<and> (\<forall>x y. common_ancestors s a b x y \<longrightarrow> (\<exists>x0 y0. res = Some (x0, y0) \<and> common_ancestors s a b x0 y0
         \<and> (block_up s)\<^sup>*\<^sup>* x0 x \<and> (block_up s)\<^sup>*\<^sup>* y0 y))
    \<and> ((\<nexists>x y. common_ancestors s a b x y) \<longrightarrow> res = None \<or> (\<exists>x y. res = Some (x, y) \<and> (block_up s)\<^sup>*\<^sup>* a x \<and> (block_up s)\<^sup>*\<^sup>* b y
         \<and> block_parent_region s x = Some None \<and> block_parent_region s y = Some None))"
  by (rule common_region[OF assms])

theorem common_region_found_witness:
  "\<exists>x y. try_get_blocks_in_same_region demo_ctx 0 1 = Some (Some (x, y)) \<and> common_ancestors demo_ctx 0 1 x y"
proof -
  have b: "basic_blocks demo_ctx 0 \<noteq> None" "basic_blocks demo_ctx 1 \<noteq> None" by code_simp+
  have "block_parent_region demo_ctx 0 = Some (Some 0)" "block_parent_region demo_ctx 1 = Some (Some 0)" by code_simp+
  then have c: "common_ancestors demo_ctx 0 1 0 1" unfolding common_ancestors_def by blast
  obtain res where "try_get_blocks_in_same_region demo_ctx 0 1 = Some res"
      "\<forall>x y. common_ancestors demo_ctx 0 1 x y \<longrightarrow> (\<exists>x0 y0. res = Some (x0, y0) \<and> common_ancestors demo_ctx 0 1 x0 y0
         \<and> (block_up demo_ctx)\<^sup>*\<^sup>* x0 x \<and> (block_up demo_ctx)\<^sup>*\<^sup>* y0 y)"
    using common_region_found[OF demo_ok demo_nested b] by (elim exE conjE)
  from this(2)[rule_format, OF c] obtain x y where "res = Some (x, y)" "common_ancestors demo_ctx 0 1 x y" by (elim exE conjE)
  then show ?thesis using \<open>try_get_blocks_in_same_region demo_ctx 0 1 = Some res\<close> by (intro exI[of _ x] exI[of _ y]) simp
qed

text \<open>
  C25. "The same parent region" can also be none: two blocks inside different detached blocks are lifted to
  these, although they share no region, and \<open>DomInfo::nearest_common_dominator\<close> then panics
  where it should answer that there is no common dominator.
\<close>

definition detached_cmds :: "(nat, nat) ir_cmd list" where
  "detached_cmds =
     [NewBlock 0 None [], NewBlock 1 None [], NewOp 0 [0] 0 [] [] [], NewOp 1 [1] 0 [] [] [],
      OpList (InsertAtBack 0 0), OpList (InsertAtBack 1 1), NewBlock 2 None [], NewBlock 3 None [],
      BlockList (InsertAtBack 2 0), BlockList (InsertAtBack 3 1)]"

definition detached_ctx :: "(nat, nat, nat) ctx" where
  "detached_ctx = the (ir_run empty_ctx detached_cmds)"

theorem detached_blocks_panic:
  "ir_run empty_ctx detached_cmds = Some detached_ctx
   \<and> try_get_blocks_in_same_region detached_ctx 2 3 = Some (Some (0, 1))
   \<and> block_parent_region detached_ctx 0 = Some None \<and> block_parent_region detached_ctx 1 = Some None
   \<and> nearest_common_dominator_block is_term detached_ctx info 2 3 = None"
proof -
  have run: "ir_run empty_ctx detached_cmds = Some detached_ctx"
    unfolding detached_ctx_def by (rule sym, rule option.collapse) code_simp
  have l: "try_get_blocks_in_same_region detached_ctx 2 3 = Some (Some (0, 1))" by code_simp
  have r: "block_parent_region detached_ctx 0 = Some None" "block_parent_region detached_ctx 1 = Some None" by code_simp+
  have "nearest_common_dominator_block is_term detached_ctx info 2 3 = None"
    using l r by (simp add: nearest_common_dominator_block_def)
  then show ?thesis using run l r by simp
qed

end
