(* ===== verification/IrTree.thy ===== *)
theory IrTree
  imports NestedDom "HOL-Library.Multiset"
begin

text \<open>
  The IR as a tree: operations hold regions, regions blocks, blocks operations. The code never builds
  this tree; it is what recursive code over the IR (the walkers, erasing) is specified by. A tree
  exists below every object of a consistent context in which no operation lies inside itself, has
  each object once, and holds exactly the objects that are reached through children.
\<close>

section \<open>Nodes and children\<close>

datatype ir_node = OpNode op_ptr | BlockNode block_ptr | RegionNode region_ptr

fun child_nodes :: "('ty, 'c, 'a) ctx \<Rightarrow> ir_node \<Rightarrow> ir_node list option" where
  "child_nodes s (OpNode p) = map_option (map RegionNode) (op_regs s p)"
| "child_nodes s (RegionNode r) = map_option (map BlockNode) (region_blocks s r)"
| "child_nodes s (BlockNode b) = map_option (map OpNode) (block_ops s b)"

fun node_exists :: "('ty, 'c, 'a) ctx \<Rightarrow> ir_node \<Rightarrow> bool" where
  "node_exists s (OpNode p) \<longleftrightarrow> operations s p \<noteq> None"
| "node_exists s (RegionNode r) \<longleftrightarrow> regions s r \<noteq> None"
| "node_exists s (BlockNode b) \<longleftrightarrow> basic_blocks s b \<noteq> None"

definition child :: "('ty, 'c, 'a) ctx \<Rightarrow> ir_node \<Rightarrow> ir_node \<Rightarrow> bool" where
  "child s n m \<longleftrightarrow> (\<exists>ns. child_nodes s n = Some ns \<and> m \<in> set ns)"

datatype ir_tree = IrTree (it_node: ir_node) (it_subtrees: "ir_tree list")

fun is_ir_tree :: "('ty, 'c, 'a) ctx \<Rightarrow> ir_tree \<Rightarrow> bool" where
  "is_ir_tree s (IrTree n ts) \<longleftrightarrow> child_nodes s n = Some (map it_node ts) \<and> (\<forall>t \<in> set ts. is_ir_tree s t)"

fun tree_nodes :: "ir_tree \<Rightarrow> ir_node list" where
  "tree_nodes (IrTree n ts) = n # concat (map tree_nodes ts)"

lemma child_nodes_shape: "shape s' = shape s \<Longrightarrow> child_nodes s' n = child_nodes s n"
  by (cases n) (auto simp: shape_def region_blocks_def block_ops_def)

lemma is_ir_tree_shape:
  assumes "shape s' = shape s"
  shows "is_ir_tree s' t \<longleftrightarrow> is_ir_tree s t"
  by (induction t) (auto simp: child_nodes_shape[OF assms])

lemma it_node_in [simp]: "it_node t \<in> set (tree_nodes t)"
  by (cases t) simp

section \<open>Children in a consistent context\<close>

lemma op_regs_ok:
  assumes s: "ctx_ok s" and r: "op_regs s p = Some rs"
  shows "distinct rs" and "r \<in> set rs \<longleftrightarrow> regions s r = Some \<lparr>parent_op = p\<rparr>"
proof -
  have sh: "shape_ok s" using s by (simp add: ctx_ok_def)
  show "distinct rs" using sh r unfolding shape_ok_def by blast
  show "r \<in> set rs \<longleftrightarrow> regions s r = Some \<lparr>parent_op = p\<rparr>"
  proof
    show "r \<in> set rs \<Longrightarrow> regions s r = Some \<lparr>parent_op = p\<rparr>" using sh r unfolding shape_ok_def by blast
    assume k: "regions s r = Some \<lparr>parent_op = p\<rparr>"
    obtain rs' where "op_regs s (parent_op \<lparr>parent_op = p\<rparr>) = Some rs'" "r \<in> set rs'"
      using sh k unfolding shape_ok_def by blast
    then show "r \<in> set rs" using r by simp
  qed
qed

lemma region_list:
  assumes "ctx_ok s" and "region_blocks s r = Some bs"
  shows "regions s r \<noteq> None" and "distinct bs" and "b \<in> set bs \<longleftrightarrow> block_parent_region s b = Some (Some r)"
proof -
  show r: "regions s r \<noteq> None"
  proof
    assume "regions s r = None"
    then have "roots (block_links s) r = None" using shape_okD(4)[of s r] assms(1) by (simp add: ctx_ok_def)
    then show False using assms(2) by (simp add: region_blocks_def iter_def deref_root_def of_outcome_def)
  qed
  show "distinct bs" "b \<in> set bs \<longleftrightarrow> block_parent_region s b = Some (Some r)"
    using region_blocks_ok[OF assms(1) r] assms(2) by auto
qed

lemma block_list:
  assumes "ctx_ok s" and "block_ops s b = Some ps"
  shows "basic_blocks s b \<noteq> None" and "distinct ps" and "p \<in> set ps \<longleftrightarrow> get_parent_block s p = Some (Some b)"
proof -
  show b: "basic_blocks s b \<noteq> None"
  proof
    assume "basic_blocks s b = None"
    then have "roots (op_links s) b = None" using shape_okD(2)[of s b] assms(1) by (simp add: ctx_ok_def)
    then show False using assms(2) by (simp add: block_ops_def iter_def deref_root_def of_outcome_def)
  qed
  show "distinct ps" "p \<in> set ps \<longleftrightarrow> get_parent_block s p = Some (Some b)"
    using block_ops_ok[OF assms(1) b] assms(2) by auto
qed

lemma child_nodes_exist:
  assumes s: "ctx_ok s"
  shows "node_exists s n \<longleftrightarrow> child_nodes s n \<noteq> None"
proof (cases n)
  case (RegionNode r)
  then show ?thesis using region_blocks_ok[OF s, of r] region_list(1)[OF s, of r]
    by (cases "regions s r"; cases "region_blocks s r"; fastforce)
next
  case (BlockNode b)
  then show ?thesis using block_ops_ok[OF s, of b] block_list(1)[OF s, of b]
    by (cases "basic_blocks s b"; cases "block_ops s b"; fastforce)
qed (simp add: op_regs_def)

lemma parent_links:
  assumes "ctx_ok s"
  shows "get_parent_block s p = Some c \<Longrightarrow> operations s p \<noteq> None"
    and "block_parent_region s b = Some k \<Longrightarrow> basic_blocks s b \<noteq> None"
  using assms shape_okD(1)[of s p] shape_okD(3)[of s b]
  by (auto simp: get_parent_block_def block_parent_region_def ctx_ok_def)

lemma child_simps:
  assumes s: "ctx_ok s"
  shows "child s (OpNode p) m \<longleftrightarrow> (\<exists>r. m = RegionNode r \<and> regions s r = Some \<lparr>parent_op = p\<rparr>)"
    and "child s (RegionNode r) m \<longleftrightarrow> (\<exists>b. m = BlockNode b \<and> block_parent_region s b = Some (Some r))"
    and "child s (BlockNode b) m \<longleftrightarrow> (\<exists>p. m = OpNode p \<and> get_parent_block s p = Some (Some b))"
proof -
  show "child s (OpNode p) m \<longleftrightarrow> (\<exists>r. m = RegionNode r \<and> regions s r = Some \<lparr>parent_op = p\<rparr>)"
  proof
    show "child s (OpNode p) m \<Longrightarrow> \<exists>r. m = RegionNode r \<and> regions s r = Some \<lparr>parent_op = p\<rparr>"
      using op_regs_ok(2)[OF s] by (auto simp: child_def)
    assume "\<exists>r. m = RegionNode r \<and> regions s r = Some \<lparr>parent_op = p\<rparr>"
    then obtain r where r: "m = RegionNode r" "regions s r = Some \<lparr>parent_op = p\<rparr>" by blast
    have "shape_ok s" using s by (simp add: ctx_ok_def)
    then obtain rs where "op_regs s (parent_op \<lparr>parent_op = p\<rparr>) = Some rs" "r \<in> set rs"
      using r(2) unfolding shape_ok_def by blast
    then show "child s (OpNode p) m" using r(1) by (simp add: child_def)
  qed
  show "child s (RegionNode r) m \<longleftrightarrow> (\<exists>b. m = BlockNode b \<and> block_parent_region s b = Some (Some r))"
  proof
    show "child s (RegionNode r) m \<Longrightarrow> \<exists>b. m = BlockNode b \<and> block_parent_region s b = Some (Some r)"
      using region_list(3)[OF s] by (auto simp: child_def)
    assume "\<exists>b. m = BlockNode b \<and> block_parent_region s b = Some (Some r)"
    then obtain b where b: "m = BlockNode b" "block_parent_region s b = Some (Some r)" by blast
    then have "regions s r \<noteq> None" using parents_exist(2)[OF s parent_links(2)[OF s b(2)]] by auto
    then show "child s (RegionNode r) m" using region_blocks_ok[OF s] b by (fastforce simp: child_def)
  qed
  show "child s (BlockNode b) m \<longleftrightarrow> (\<exists>p. m = OpNode p \<and> get_parent_block s p = Some (Some b))"
  proof
    show "child s (BlockNode b) m \<Longrightarrow> \<exists>p. m = OpNode p \<and> get_parent_block s p = Some (Some b)"
      using block_list(3)[OF s] by (auto simp: child_def)
    assume "\<exists>p. m = OpNode p \<and> get_parent_block s p = Some (Some b)"
    then obtain p where p: "m = OpNode p" "get_parent_block s p = Some (Some b)" by blast
    then have "basic_blocks s b \<noteq> None" using parents_exist(1)[OF s parent_links(1)[OF s p(2)]] by auto
    then show "child s (BlockNode b) m" using block_ops_ok[OF s] p by (fastforce simp: child_def)
  qed
qed

lemma child_unique: "ctx_ok s \<Longrightarrow> child s n m \<Longrightarrow> child s n' m \<Longrightarrow> n = n'"
  by (cases n; cases n') (auto simp: child_simps)

lemma child_exists: "ctx_ok s \<Longrightarrow> child s n m \<Longrightarrow> node_exists s m"
  by (cases n) (auto simp: child_simps dest: parent_links)

lemma child_distinct: "ctx_ok s \<Longrightarrow> child_nodes s n = Some ns \<Longrightarrow> distinct ns"
  using op_regs_ok(1)[of s] region_list(2)[of s] block_list(2)[of s]
  by (cases n) (auto simp: distinct_map inj_on_def)

text \<open>Three steps down are one step of \<open>op_up\<close> backwards, so descending ends where climbing does.\<close>

lemma op_children_up:
  assumes "ctx_ok s" and "child s (OpNode p) (RegionNode r)" and "child s (RegionNode r) (BlockNode b)"
    and "child s (BlockNode b) (OpNode q)"
  shows "op_up s q p"
  using assms by (auto simp: child_simps op_up_def op_parent_region_def region_parent_op_def)

definition ir_finite :: "('ty, 'c, 'a) ctx \<Rightarrow> bool" where
  "ir_finite s \<longleftrightarrow> nested s \<and> finite (dom (operations s))"

lemma op_down_wf:
  assumes s: "ctx_ok s" and f: "ir_finite s"
  shows "wfp (op_up s)"
proof -
  let ?R = "{(p, q). op_up s p q}"
  have "?R \<subseteq> (\<lambda>p. (p, THE q. op_up s p q)) ` dom (operations s)"
  proof
    fix x assume "x \<in> ?R"
    then obtain p q where x: "x = (p, q)" "op_up s p q" by blast
    have "(THE q. op_up s p q) = q" using x(2) by (auto simp: op_up_def)
    moreover have "p \<in> dom (operations s)"
    proof -
      obtain c where "get_parent_block s p = Some c" using x(2) by (auto simp: op_up_def op_parent_region_def split: bind_splits)
      then show ?thesis using parent_links(1)[OF s] by auto
    qed
    ultimately show "x \<in> (\<lambda>p. (p, THE q. op_up s p q)) ` dom (operations s)" using x by blast
  qed
  then have fin: "finite ?R" using f finite_surj by (auto simp: ir_finite_def)
  have "wf (?R\<inverse>)" using f by (simp add: ir_finite_def nested_def wfp_def converse_def)
  then have "acyclic ?R" using wf_acyclic acyclic_converse by blast
  then have "wf ?R" using fin finite_acyclic_wf by blast
  then show ?thesis by (simp add: wfp_def)
qed

lemma child_wf:
  assumes s: "ctx_ok s" and f: "ir_finite s"
  shows "wfp (\<lambda>m n. child s n m)"
proof -
  let ?acc = "Wellfounded.accp (\<lambda>m n. child s n m)"
  have up: "?acc n" if "\<And>m. child s n m \<Longrightarrow> ?acc m" for n using that by (rule accpI)
  have op: "?acc (OpNode p)" for p
    using op_down_wf[OF s f]
  proof (induction p rule: wfp_induct_rule)
    case (less p)
    show ?case
    proof (rule up)
      fix m assume m: "child s (OpNode p) m"
      show "?acc m"
      proof (rule up)
        fix k assume k: "child s m k"
        show "?acc k"
        proof (rule up)
          fix l assume l: "child s k l"
          obtain r where r: "m = RegionNode r" using m unfolding child_simps(1)[OF s] by blast
          obtain b where b: "k = BlockNode b" using k unfolding r child_simps(2)[OF s] by blast
          obtain q where q: "l = OpNode q" using l unfolding b child_simps(3)[OF s] by blast
          have "op_up s q p" using op_children_up[OF s m[unfolded r] k[unfolded r b] l[unfolded b q]] .
          then show "?acc l" using less.IH q by simp
        qed
      qed
    qed
  qed
  have b: "?acc (BlockNode b)" for b
  proof (rule up)
    fix m assume "child s (BlockNode b) m"
    then show "?acc m" unfolding child_simps(3)[OF s] using op by (elim exE conjE) simp
  qed
  have r: "?acc (RegionNode r)" for r
  proof (rule up)
    fix m assume "child s (RegionNode r) m"
    then show "?acc m" unfolding child_simps(2)[OF s] using b by (elim exE conjE) simp
  qed
  have "?acc n" for n using op b r by (cases n) simp_all
  then show ?thesis by (intro accp_wfpI allI)
qed

section \<open>Trees\<close>

lemma ir_tree_exists:
  assumes s: "ctx_ok s" and f: "ir_finite s" and n: "node_exists s n"
  shows "\<exists>t. it_node t = n \<and> is_ir_tree s t"
  using child_wf[OF s f] n
proof (induction n rule: wfp_induct_rule)
  case (less n)
  obtain ns where ns: "child_nodes s n = Some ns" using child_nodes_exist[OF s] less.prems by blast
  have "\<exists>t. it_node t = m \<and> is_ir_tree s t" if "m \<in> set ns" for m
  proof -
    have c: "child s n m" using ns that by (simp add: child_def)
    show ?thesis using less.IH[OF c child_exists[OF s c]] .
  qed
  then have "\<forall>m \<in> set ns. \<exists>t. it_node t = m \<and> is_ir_tree s t" by blast
  then obtain f where f: "\<forall>m \<in> set ns. it_node (f m) = m \<and> is_ir_tree s (f m)" by (metis (no_types))
  then have "is_ir_tree s (IrTree n (map f ns))" using ns by (auto simp: o_def map_idI)
  then show ?case by (intro exI[of _ "IrTree n (map f ns)"]) simp
qed

lemma tree_nodes_reached:
  assumes "is_ir_tree s t"
  shows "m \<in> set (tree_nodes t) \<longleftrightarrow> (child s)\<^sup>*\<^sup>* (it_node t) m"
  using assms
proof (induction t)
  case (IrTree n ts)
  have c: "child s n k \<longleftrightarrow> (\<exists>t \<in> set ts. it_node t = k)" for k using IrTree.prems by (auto simp: child_def)
  have "m \<in> set (tree_nodes (IrTree n ts)) \<longleftrightarrow> m = n \<or> (\<exists>t \<in> set ts. (child s)\<^sup>*\<^sup>* (it_node t) m)"
    using IrTree by auto
  also have "\<dots> \<longleftrightarrow> m = n \<or> (\<exists>k. child s n k \<and> (child s)\<^sup>*\<^sup>* k m)" by (auto simp: c)
  also have "\<dots> \<longleftrightarrow> (child s)\<^sup>*\<^sup>* n m"
    using converse_rtranclpE[of "child s" n m] by (blast intro: converse_rtranclp_into_rtranclp)
  finally show ?case by simp
qed

lemma child_above_linear:
  assumes s: "ctx_ok s" and "(child s)\<^sup>*\<^sup>* x m" and "(child s)\<^sup>*\<^sup>* y m"
  shows "(child s)\<^sup>*\<^sup>* x y \<or> (child s)\<^sup>*\<^sup>* y x"
  using assms(2,3)
proof (induction arbitrary: y rule: rtranclp_induct)
  case (step u v)
  show ?case
  proof (cases rule: rtranclp.cases[OF step.prems])
    case 1 then show ?thesis using step.hyps by (metis rtranclp.rtrancl_into_rtrancl)
  next
    case (2 _ w)
    then have "w = u" using child_unique[OF s] step.hyps(2) by blast
    then show ?thesis using step.IH 2 by blast
  qed
qed blast

lemma child_acyclic:
  assumes "ctx_ok s" and "ir_finite s"
  shows "\<not> (child s)\<^sup>+\<^sup>+ n n"
proof -
  have "wf {(m, n). child s n m}" using child_wf[OF assms] by (simp add: wfp_def)
  then have "acyclic ({(m, n). child s n m})" by (rule wf_acyclic)
  then have "acyclic {(n, m). child s n m}" using acyclic_converse[of "{(n, m). child s n m}"] by (simp add: converse_def)
  then show ?thesis by (auto simp: acyclic_def tranclp_unfold)
qed

lemma tree_nodes_distinct:
  assumes s: "ctx_ok s" and f: "ir_finite s" and t: "is_ir_tree s t"
  shows "distinct (tree_nodes t)"
  using t
proof (induction t)
  case (IrTree n ts)
  have d: "distinct (map it_node ts)" using IrTree.prems child_distinct[OF s] by auto
  have c: "child s n (it_node t)" if "t \<in> set ts" for t using IrTree.prems that by (auto simp: child_def)
  have below: "set (tree_nodes t) \<inter> set (tree_nodes u) = {}" if tu: "t \<in> set ts" "u \<in> set ts" "t \<noteq> u" for t u
  proof (rule ccontr)
    assume "set (tree_nodes t) \<inter> set (tree_nodes u) \<noteq> {}"
    then obtain m where m: "m \<in> set (tree_nodes t)" "m \<in> set (tree_nodes u)" by blast
    have "is_ir_tree s t" "is_ir_tree s u" using IrTree.prems tu by simp_all
    then have "(child s)\<^sup>*\<^sup>* (it_node t) m" "(child s)\<^sup>*\<^sup>* (it_node u) m"
      using m tree_nodes_reached[of s t m] tree_nodes_reached[of s u m] by simp_all
    then have lin: "(child s)\<^sup>*\<^sup>* (it_node t) (it_node u) \<or> (child s)\<^sup>*\<^sup>* (it_node u) (it_node t)"
      by (rule child_above_linear[OF s])
    have ne: "it_node t \<noteq> it_node u" using d tu by (auto simp: distinct_map inj_on_def)
    have no_path: "\<not> (child s)\<^sup>*\<^sup>* (it_node x) (it_node y)" if xy: "x \<in> set ts" "y \<in> set ts" "it_node x \<noteq> it_node y" for x y
    proof
      assume p: "(child s)\<^sup>*\<^sup>* (it_node x) (it_node y)"
      obtain z where z: "(child s)\<^sup>*\<^sup>* (it_node x) z" "child s z (it_node y)"
        by (rule rtranclp.cases[OF p]) (use xy(3) in simp_all)
      then have "z = n" using child_unique[OF s _ c[OF xy(2)]] by blast
      then have "(child s)\<^sup>+\<^sup>+ n n" using rtranclp_into_tranclp2[of "child s" n "it_node x" n] z(1) c[OF xy(1)] by simp
      then show False using child_acyclic[OF s f] by blast
    qed
    show False using lin no_path[OF tu(1,2) ne] no_path[OF tu(2,1) ne[symmetric]] by simp
  qed
  have "n \<notin> set (tree_nodes t)" if "t \<in> set ts" for t
  proof
    assume "n \<in> set (tree_nodes t)"
    then have "(child s)\<^sup>*\<^sup>* (it_node t) n" using IrTree.prems that tree_nodes_reached[of s t n] by auto
    then show False using rtranclp_into_tranclp2[of "child s" n "it_node t" n] c[OF that] child_acyclic[OF s f, of n] by simp
  qed
  moreover have "distinct (concat (map tree_nodes ts))"
    using d IrTree below by (intro distinct_concat_map) (auto simp: distinct_map)
  ultimately show ?case by auto
qed

lemma demo_finite: "ir_finite demo_ctx"
proof -
  have e: "operations demo_ctx (Suc (Suc (Suc q))) = None" for q by code_simp
  have none: "operations demo_ctx p = None" if p: "3 \<le> p" for p
  proof -
    obtain q where "p = 3 + q" using le_Suc_ex[OF p] by blast
    then have "p = Suc (Suc (Suc q))" by simp
    then show ?thesis using e by simp
  qed
  have "p < 3" if "operations demo_ctx p \<noteq> None" for p by (rule ccontr) (use none[of p] that in simp)
  then have "dom (operations demo_ctx) \<subseteq> {..<3}" by auto
  then show ?thesis using demo_nested finite_subset by (auto simp: ir_finite_def)
qed

end
