(* ===== verification/Walkers.thy ===== *)
theory Walkers
  imports IrTree
begin

text \<open>
  The walkers of \<^verbatim>\<open>src/src/graph/walkers.rs\<close>. A callback gets the context, its own state and a node,
  and may change both; it breaks off the walk, skips what lies below the node, or lets it go on.
  \<open>None\<close> is a panic, in the callback or in the walker. The three mutually recursive functions
  and their loops over siblings are one partial function over \<open>walk_step\<close>: visit a node, or go on with the
  remaining siblings. The loops read the link to the next sibling after the visit, in the context as it is
  then, as the code does.
\<close>

section \<open>The walkers\<close>

datatype walk_order = PreOrder | PostOrder

record walk_config =
  regions_in_op :: "walk_order \<times> direction"
  ops_in_block :: "walk_order \<times> direction"
  blocks_in_region :: "walk_order \<times> direction"

fun config_for :: "walk_config \<Rightarrow> ir_node \<Rightarrow> walk_order \<times> direction" where
  "config_for cfg (OpNode p) = regions_in_op cfg"
| "config_for cfg (RegionNode r) = blocks_in_region cfg"
| "config_for cfg (BlockNode b) = ops_in_block cfg"

type_synonym ('x, 's, 'b) walk_callback = "'x \<Rightarrow> 's \<Rightarrow> ir_node \<Rightarrow> ('b walk_result \<times> 'x \<times> 's) option"

definition walk_advance :: "'x \<Rightarrow> 's \<Rightarrow> ('b walk_result \<times> 'x \<times> 's) option" where
  "walk_advance ctx st = Some (Continue Advance, ctx, st)"

text \<open>The operator \<^verbatim>\<open>?\<close>: a break ends the function, otherwise it goes on.\<close>

definition walk_then ::
    "('b walk_result \<times> 'x \<times> 's) option \<Rightarrow> (walk_continue \<Rightarrow> 'x \<Rightarrow> 's \<Rightarrow> ('b walk_result \<times> 'x \<times> 's) option)
      \<Rightarrow> ('b walk_result \<times> 'x \<times> 's) option" where
  "walk_then w k = Option.bind w (\<lambda>(c, ctx, st).
     case c of Break b \<Rightarrow> Some (Break b, ctx, st) | Continue go \<Rightarrow> k go ctx st)"

lemma walk_then_mono [partial_function_mono]:
  assumes "mono_option w" and "\<And>go ctx st. mono_option (\<lambda>f. k f go ctx st)"
  shows "mono_option (\<lambda>f. walk_then (w f) (k f))"
  unfolding walk_then_def
proof (rule bind_mono[OF assms(1)])
  fix y
  show "mono_option (\<lambda>f. case y of (c, ctx, st) \<Rightarrow>
      (case c of Break b \<Rightarrow> Some (Break b, ctx, st) | Continue go \<Rightarrow> k f go ctx st))"
    using assms(2) by (cases y; cases "fst y") (simp_all add: monotone_def flat_ord_def fun_ord_def)
qed

text \<open>The callback before the children, and after them.\<close>

definition call_before ::
    "walk_config \<Rightarrow> ('x, 's, 'b) walk_callback \<Rightarrow> ir_node \<Rightarrow> 'x \<Rightarrow> 's \<Rightarrow> ('b walk_result \<times> 'x \<times> 's) option" where
  "call_before cfg callback node ctx st =
     (if fst (config_for cfg node) = PreOrder then callback ctx st node else walk_advance ctx st)"

definition call_after ::
    "walk_config \<Rightarrow> ('x, 's, 'b) walk_callback \<Rightarrow> ir_node \<Rightarrow> 'x \<Rightarrow> 's \<Rightarrow> ('b walk_result \<times> 'x \<times> 's) option" where
  "call_after cfg callback node ctx st =
     (if fst (config_for cfg node) = PostOrder
      then walk_then (callback ctx st node) (\<lambda>_ ctx st. walk_advance ctx st)
      else walk_advance ctx st)"

text \<open>
  The loops over children: an index range for regions, a cursor into the list for blocks and
  operations. \<open>current_child\<close> is the condition and the child of an iteration, \<open>next_child\<close> its last statement.
\<close>

datatype siblings =
    Regions op_ptr "nat list"
  | Blocks "block_ptr option"
  | Ops "op_ptr option"

definition first_child :: "walk_config \<Rightarrow> ('ty, 'c, 'a) ctx \<Rightarrow> ir_node \<Rightarrow> siblings option" where
  "first_child cfg ctx node =
     (case node of
        OpNode p \<Rightarrow> do {
          op \<leftarrow> operations ctx p;
          let num_regions = length (op_regions op);
          Some (Regions p (if snd (regions_in_op cfg) = Forward then [0..<num_regions] else rev [0..<num_regions]))
        }
      | RegionNode r \<Rightarrow> do {
          root \<leftarrow> roots (block_links ctx) r;
          Some (Blocks (if snd (blocks_in_region cfg) = Forward then get_head root else get_tail root))
        }
      | BlockNode b \<Rightarrow> do {
          root \<leftarrow> roots (op_links ctx) b;
          Some (Ops (if snd (ops_in_block cfg) = Forward then get_head root else get_tail root))
        })"

fun current_child :: "('ty, 'c, 'a) ctx \<Rightarrow> siblings \<Rightarrow> ir_node option option" where
  "current_child ctx (Regions root []) = Some None"
| "current_child ctx (Regions root (reg_idx # idxs)) = do {
     op \<leftarrow> operations ctx root;
     region \<leftarrow> oget (op_regions op) reg_idx;
     Some (Some (RegionNode region))
   }"
| "current_child ctx (Blocks cur) = Some (map_option BlockNode cur)"
| "current_child ctx (Ops cur) = Some (map_option OpNode cur)"

fun next_child :: "walk_config \<Rightarrow> ('ty, 'c, 'a) ctx \<Rightarrow> siblings \<Rightarrow> siblings option" where
  "next_child cfg ctx (Regions root idxs) = Some (Regions root (tl idxs))"
| "next_child cfg ctx (Blocks cur) = do {
     cur_block \<leftarrow> cur;
     nd \<leftarrow> nodes (block_links ctx) cur_block;
     Some (Blocks (if snd (blocks_in_region cfg) = Forward then get_next nd else get_prev nd))
   }"
| "next_child cfg ctx (Ops cur) = do {
     cur_op \<leftarrow> cur;
     nd \<leftarrow> nodes (op_links ctx) cur_op;
     Some (Ops (if snd (ops_in_block cfg) = Forward then get_next nd else get_prev nd))
   }"

datatype walk_step = Visit ir_node | Children siblings

partial_function (option) walk_task ::
    "walk_config \<Rightarrow> (('ty, 'c, 'a) ctx, 's, 'b) walk_callback \<Rightarrow> walk_step \<Rightarrow> ('ty, 'c, 'a) ctx \<Rightarrow> 's
      \<Rightarrow> ('b walk_result \<times> ('ty, 'c, 'a) ctx \<times> 's) option" where
  "walk_task cfg callback task ctx st =
     (case task of
        Visit node \<Rightarrow>
          walk_then (call_before cfg callback node ctx st) (\<lambda>c ctx st.
            if c = Skip then walk_advance ctx st
            else do {
              children \<leftarrow> first_child cfg ctx node;
              walk_then (walk_task cfg callback (Children children) ctx st)
                (\<lambda>_ ctx st. call_after cfg callback node ctx st)
            })
      | Children children \<Rightarrow> do {
          cur \<leftarrow> current_child ctx children;
          (case cur of
             None \<Rightarrow> walk_advance ctx st
           | Some node \<Rightarrow>
               walk_then (walk_task cfg callback (Visit node) ctx st) (\<lambda>_ ctx st. do {
                 children \<leftarrow> next_child cfg ctx children;
                 walk_task cfg callback (Children children) ctx st
               }))
        })"

declare walk_task.simps [code]

definition walk_op ::
    "walk_config \<Rightarrow> (('ty, 'c, 'a) ctx, 's, 'b) walk_callback \<Rightarrow> op_ptr \<Rightarrow> ('ty, 'c, 'a) ctx \<Rightarrow> 's
      \<Rightarrow> ('b walk_result \<times> ('ty, 'c, 'a) ctx \<times> 's) option" where
  "walk_op cfg callback root = walk_task cfg callback (Visit (OpNode root))"

definition walk_region ::
    "walk_config \<Rightarrow> (('ty, 'c, 'a) ctx, 's, 'b) walk_callback \<Rightarrow> region_ptr \<Rightarrow> ('ty, 'c, 'a) ctx \<Rightarrow> 's
      \<Rightarrow> ('b walk_result \<times> ('ty, 'c, 'a) ctx \<times> 's) option" where
  "walk_region cfg callback root = walk_task cfg callback (Visit (RegionNode root))"

definition walk_block ::
    "walk_config \<Rightarrow> (('ty, 'c, 'a) ctx, 's, 'b) walk_callback \<Rightarrow> block_ptr \<Rightarrow> ('ty, 'c, 'a) ctx \<Rightarrow> 's
      \<Rightarrow> ('b walk_result \<times> ('ty, 'c, 'a) ctx \<times> 's) option" where
  "walk_block cfg callback root = walk_task cfg callback (Visit (BlockNode root))"

text \<open>
  The module \<^verbatim>\<open>immutable\<close> has the same functions for a context behind a shared borrow: the callback
  returns no context, and the one it got stays.
\<close>

definition keep_ctx ::
    "('x \<Rightarrow> 's \<Rightarrow> ir_node \<Rightarrow> ('b walk_result \<times> 's) option) \<Rightarrow> ('x, 's, 'b) walk_callback" where
  "keep_ctx callback ctx st node = map_option (\<lambda>(c, st). (c, ctx, st)) (callback ctx st node)"

definition drop_ctx :: "('b walk_result \<times> 'x \<times> 's) option \<Rightarrow> ('b walk_result \<times> 's) option" where
  "drop_ctx = map_option (\<lambda>(c, _, st). (c, st))"

definition immutable_walk_op ::
    "walk_config \<Rightarrow> (('ty, 'c, 'a) ctx \<Rightarrow> 's \<Rightarrow> ir_node \<Rightarrow> ('b walk_result \<times> 's) option) \<Rightarrow> op_ptr
      \<Rightarrow> ('ty, 'c, 'a) ctx \<Rightarrow> 's \<Rightarrow> ('b walk_result \<times> 's) option" where
  "immutable_walk_op cfg callback root ctx st = drop_ctx (walk_op cfg (keep_ctx callback) root ctx st)"

definition immutable_walk_region ::
    "walk_config \<Rightarrow> (('ty, 'c, 'a) ctx \<Rightarrow> 's \<Rightarrow> ir_node \<Rightarrow> ('b walk_result \<times> 's) option) \<Rightarrow> region_ptr
      \<Rightarrow> ('ty, 'c, 'a) ctx \<Rightarrow> 's \<Rightarrow> ('b walk_result \<times> 's) option" where
  "immutable_walk_region cfg callback root ctx st = drop_ctx (walk_region cfg (keep_ctx callback) root ctx st)"

definition immutable_walk_block ::
    "walk_config \<Rightarrow> (('ty, 'c, 'a) ctx \<Rightarrow> 's \<Rightarrow> ir_node \<Rightarrow> ('b walk_result \<times> 's) option) \<Rightarrow> block_ptr
      \<Rightarrow> ('ty, 'c, 'a) ctx \<Rightarrow> 's \<Rightarrow> ('b walk_result \<times> 's) option" where
  "immutable_walk_block cfg callback root ctx st = drop_ctx (walk_block cfg (keep_ctx callback) root ctx st)"

text \<open>The module \<^verbatim>\<open>uninterruptible\<close>: callbacks without a result, wrapped into ones that always advance.\<close>

definition always_advance ::
    "('x \<Rightarrow> 's \<Rightarrow> ir_node \<Rightarrow> ('x \<times> 's) option) \<Rightarrow> ('x, 's, unit) walk_callback" where
  "always_advance callback ctx st node = do { (ctx, st) \<leftarrow> callback ctx st node; walk_advance ctx st }"

definition uninterruptible_walk_op ::
    "walk_config \<Rightarrow> (('ty, 'c, 'a) ctx \<Rightarrow> 's \<Rightarrow> ir_node \<Rightarrow> (('ty, 'c, 'a) ctx \<times> 's) option) \<Rightarrow> op_ptr
      \<Rightarrow> ('ty, 'c, 'a) ctx \<Rightarrow> 's \<Rightarrow> (('ty, 'c, 'a) ctx \<times> 's) option" where
  "uninterruptible_walk_op cfg callback root ctx st = map_option snd (walk_op cfg (always_advance callback) root ctx st)"

definition uninterruptible_walk_region ::
    "walk_config \<Rightarrow> (('ty, 'c, 'a) ctx \<Rightarrow> 's \<Rightarrow> ir_node \<Rightarrow> (('ty, 'c, 'a) ctx \<times> 's) option) \<Rightarrow> region_ptr
      \<Rightarrow> ('ty, 'c, 'a) ctx \<Rightarrow> 's \<Rightarrow> (('ty, 'c, 'a) ctx \<times> 's) option" where
  "uninterruptible_walk_region cfg callback root ctx st =
     map_option snd (walk_region cfg (always_advance callback) root ctx st)"

definition uninterruptible_walk_block ::
    "walk_config \<Rightarrow> (('ty, 'c, 'a) ctx \<Rightarrow> 's \<Rightarrow> ir_node \<Rightarrow> (('ty, 'c, 'a) ctx \<times> 's) option) \<Rightarrow> block_ptr
      \<Rightarrow> ('ty, 'c, 'a) ctx \<Rightarrow> 's \<Rightarrow> (('ty, 'c, 'a) ctx \<times> 's) option" where
  "uninterruptible_walk_block cfg callback root ctx st =
     map_option snd (walk_block cfg (always_advance callback) root ctx st)"

definition WALKCONFIG_PREORDER_FORWARD :: walk_config where
  "WALKCONFIG_PREORDER_FORWARD =
     \<lparr>regions_in_op = (PreOrder, Forward), ops_in_block = (PreOrder, Forward), blocks_in_region = (PreOrder, Forward)\<rparr>"

definition WALKCONFIG_POSTORDER_FORWARD :: walk_config where
  "WALKCONFIG_POSTORDER_FORWARD =
     \<lparr>regions_in_op = (PostOrder, Forward), ops_in_block = (PostOrder, Forward), blocks_in_region = (PostOrder, Forward)\<rparr>"

definition WALKCONFIG_PREORDER_REVERSE :: walk_config where
  "WALKCONFIG_PREORDER_REVERSE =
     \<lparr>regions_in_op = (PreOrder, Reverse), ops_in_block = (PreOrder, Reverse), blocks_in_region = (PreOrder, Reverse)\<rparr>"

definition WALKCONFIG_POSTORDER_REVERSE :: walk_config where
  "WALKCONFIG_POSTORDER_REVERSE =
     \<lparr>regions_in_op = (PostOrder, Reverse), ops_in_block = (PostOrder, Reverse), blocks_in_region = (PostOrder, Reverse)\<rparr>"

section \<open>Walking a tree\<close>

text \<open>What a walk does: recursion over the tree below the root.\<close>

definition oriented :: "walk_config \<Rightarrow> ir_node \<Rightarrow> 'x list \<Rightarrow> 'x list" where
  "oriented cfg n xs = (if snd (config_for cfg n) = Forward then xs else rev xs)"

lemma size_oriented [termination_simp]: "size_list f (oriented cfg n xs) = size_list f xs"
proof -
  have "size_list f (rev ys) = size_list f ys" for ys :: "'a list"
    by (simp add: size_list_conv_sum_list rev_map[symmetric] sum_list_rev)
  then show ?thesis by (simp add: oriented_def)
qed

function (sequential)
  walk_tree :: "walk_config \<Rightarrow> ('x, 's, 'b) walk_callback \<Rightarrow> ir_tree \<Rightarrow> 'x \<Rightarrow> 's
      \<Rightarrow> ('b walk_result \<times> 'x \<times> 's) option" and
  walk_trees :: "walk_config \<Rightarrow> ('x, 's, 'b) walk_callback \<Rightarrow> ir_tree list \<Rightarrow> 'x \<Rightarrow> 's
      \<Rightarrow> ('b walk_result \<times> 'x \<times> 's) option" where
  "walk_tree cfg callback (IrTree n ts) ctx st =
     walk_then (call_before cfg callback n ctx st) (\<lambda>c ctx st.
       if c = Skip then walk_advance ctx st
       else walk_then (walk_trees cfg callback (oriented cfg n ts) ctx st)
         (\<lambda>_ ctx st. call_after cfg callback n ctx st))"
| "walk_trees cfg callback [] ctx st = walk_advance ctx st"
| "walk_trees cfg callback (t # ts) ctx st =
     walk_then (walk_tree cfg callback t ctx st) (\<lambda>_ ctx st. walk_trees cfg callback ts ctx st)"
  by pat_completeness auto
termination
  by (relation "measure (case_sum (\<lambda>(_, _, t, _, _). size t) (\<lambda>(_, _, ts, _, _). size_list size ts))")
     (auto simp: size_oriented)

text \<open>A callback may change the context, as long as it leaves parents, children and their order alone.\<close>

definition keeps_structure :: "(('ty, 'c, 'a) ctx, 's, 'b) walk_callback \<Rightarrow> bool" where
  "keeps_structure callback \<longleftrightarrow>
     (\<forall>ctx st n c ctx' st'. callback ctx st n = Some (c, ctx', st') \<longrightarrow> shape ctx' = shape ctx)"

lemma keeps_structureD:
  "keeps_structure callback \<Longrightarrow> callback ctx st n = Some (c, ctx', st') \<Longrightarrow> shape ctx' = shape ctx"
  unfolding keeps_structure_def by blast

lemma walk_then_Some:
  "walk_then w k = Some (c, ctx', st') \<longleftrightarrow>
     (\<exists>b. w = Some (Break b, ctx', st') \<and> c = Break b) \<or>
     (\<exists>go ctx st. w = Some (Continue go, ctx, st) \<and> k go ctx st = Some (c, ctx', st'))"
  by (auto simp: walk_then_def split: bind_splits walk_result.splits)

lemma walk_then_cong:
  assumes "\<And>go ctx st. w = Some (Continue go, ctx, st) \<Longrightarrow> k go ctx st = k' go ctx st"
  shows "walk_then w k = walk_then w k'"
  using assms by (auto simp: walk_then_def bind_eq_None_conv split: walk_result.splits intro!: bind_option_cong)

lemma calls_keep_structure:
  assumes "keeps_structure callback"
  shows "call_before cfg callback n ctx st = Some (c, ctx', st') \<Longrightarrow> shape ctx' = shape ctx"
    and "call_after cfg callback n ctx st = Some (c, ctx', st') \<Longrightarrow> shape ctx' = shape ctx"
  using keeps_structureD[OF assms]
  by (auto simp: call_before_def call_after_def walk_advance_def walk_then_Some split: if_splits)

lemma walk_tree_shape:
  assumes k: "keeps_structure callback"
  shows "walk_tree cfg callback t ctx st = Some (c, ctx', st') \<Longrightarrow> shape ctx' = shape ctx"
    and "walk_trees cfg callback ts ctx st = Some (c, ctx', st') \<Longrightarrow> shape ctx' = shape ctx"
  using k
proof (induction cfg callback t ctx st and cfg callback ts ctx st arbitrary: c ctx' st' and c ctx' st'
    rule: walk_tree_walk_trees.induct)
  case (1 cfg callback n ts ctx st)
  note calls = calls_keep_structure[OF 1(3), of cfg n]
  obtain c1 ctx1 st1 where b: "call_before cfg callback n ctx st = Some (c1, ctx1, st1)" "shape ctx1 = shape ctx"
    using 1(2) calls(1) by (auto simp: walk_then_Some)
  show ?case
    using 1(2) b calls(2) 1(1)[OF _ _ 1(3)]
    by (fastforce simp: walk_then_Some walk_advance_def split: if_splits)
next
  case (2 cfg callback ctx st)
  then show ?case by (simp add: walk_advance_def)
next
  case (3 cfg callback t ts ctx st)
  then show ?case by (fastforce simp: walk_then_Some)
qed

section \<open>The loops follow the tree\<close>

text \<open>A cursor and the children it has left.\<close>

fun yields :: "walk_config \<Rightarrow> ('ty, 'c, 'a) ctx \<Rightarrow> siblings \<Rightarrow> ir_node list \<Rightarrow> bool" where
  "yields cfg s cur [] \<longleftrightarrow> current_child s cur = Some None"
| "yields cfg s cur (n # ns) \<longleftrightarrow> current_child s cur = Some (Some n)
     \<and> (\<exists>cur'. next_child cfg s cur = Some cur' \<and> yields cfg s cur' ns)"

lemma children_shape:
  assumes "shape s' = shape s"
  shows "current_child s' cur = current_child s cur" and "next_child cfg s' cur = next_child cfg s cur"
    and "first_child cfg s' n = first_child cfg s n"
proof -
  have e: "op_regs s' = op_regs s" "op_links s' = op_links s" "block_links s' = block_links s"
    using assms by (simp_all add: shape_def)
  have r: "map_option op_regions (operations s' p) = map_option op_regions (operations s p)" for p
    using fun_cong[OF e(1), of p] by (simp add: op_regs_def)
  have b: "Option.bind (operations s' p) (\<lambda>op. f (op_regions op)) = Option.bind (operations s p) (\<lambda>op. f (op_regions op))"
    for p and f :: "nat list \<Rightarrow> 'z option"
    using r[of p] by (cases "operations s' p"; cases "operations s p") auto
  show "current_child s' cur = current_child s cur"
    using b[of _ "\<lambda>rs. Option.bind (oget rs _) (\<lambda>region. Some (Some (RegionNode region)))"]
    by (cases "(s, cur)" rule: current_child.cases) simp_all
  show "next_child cfg s' cur = next_child cfg s cur" by (cases cur) (simp_all add: e)
  show "first_child cfg s' n = first_child cfg s n"
    using b[of _ "\<lambda>rs. Some (Regions _ (if _ = Forward then [0..<length rs] else rev [0..<length rs]))"]
    by (cases n) (simp_all add: first_child_def e Let_def)
qed

lemma yields_regions:
  assumes "op_regs s p = Some rs" and "\<forall>i \<in> set is. i < length rs"
  shows "yields cfg s (Regions p is) (map (\<lambda>i. RegionNode (rs ! i)) is)"
  using assms by (induction "is") (auto simp: op_regs_def)

lemma yields_blocks_forward:
  "snd (blocks_in_region cfg) = Forward \<Longrightarrow> seg (block_links s) c q xs None
    \<Longrightarrow> yields cfg s (Blocks (first_or xs None)) (map BlockNode xs)"
  by (induction xs arbitrary: q) auto

lemma yields_blocks_reverse:
  "snd (blocks_in_region cfg) \<noteq> Forward \<Longrightarrow> seg (block_links s) c None xs q
    \<Longrightarrow> yields cfg s (Blocks (last_or None xs)) (map BlockNode (rev xs))"
  by (induction xs arbitrary: q rule: rev_induct) (auto simp: seg_append)

lemma yields_ops_forward:
  "snd (ops_in_block cfg) = Forward \<Longrightarrow> seg (op_links s) c q xs None
    \<Longrightarrow> yields cfg s (Ops (first_or xs None)) (map OpNode xs)"
  by (induction xs arbitrary: q) auto

lemma yields_ops_reverse:
  "snd (ops_in_block cfg) \<noteq> Forward \<Longrightarrow> seg (op_links s) c None xs q
    \<Longrightarrow> yields cfg s (Ops (last_or None xs)) (map OpNode (rev xs))"
  by (induction xs arbitrary: q rule: rev_induct) (auto simp: seg_append)

lemma yields_first:
  assumes s: "ctx_ok s" and ns: "child_nodes s n = Some ns"
  shows "\<exists>cur. first_child cfg s n = Some cur \<and> yields cfg s cur (oriented cfg n ns)"
proof (cases n)
  case (OpNode p)
  obtain op where op: "operations s p = Some op" "ns = map RegionNode (op_regions op)"
    using ns OpNode by (auto simp: op_regs_def)
  let ?is = "if snd (regions_in_op cfg) = Forward then [0..<length (op_regions op)] else rev [0..<length (op_regions op)]"
  have "map (\<lambda>i. RegionNode (op_regions op ! i)) [0..<length (op_regions op)] = ns"
    unfolding op(2) by (rule nth_equalityI) simp_all
  then have "map (\<lambda>i. RegionNode (op_regions op ! i)) ?is = oriented cfg n ns"
    using OpNode by (simp add: oriented_def flip: rev_map)
  moreover have "yields cfg s (Regions p ?is) (map (\<lambda>i. RegionNode (op_regions op ! i)) ?is)"
    using op by (intro yields_regions) (simp_all add: op_regs_def)
  ultimately show ?thesis using OpNode op(1) by (simp add: first_child_def Let_def)
next
  case (RegionNode r)
  obtain bs where bs: "region_blocks s r = Some bs" "ns = map BlockNode bs" using ns RegionNode by auto
  obtain L where L: "ll_inv (block_links s) L" using s by (auto simp: ctx_ok_def shape_ok_def)
  have "roots (block_links s) r \<noteq> None"
    using region_list(1)[OF s bs(1)] shape_okD(4)[of s r] s by (simp add: ctx_ok_def)
  then obtain bs' where bs': "L r = Some bs'" using ll_invD(3)[OF L] by (metis domIff option.exhaust)
  have "ll_list (block_links s) r bs'" "region_blocks s r = Some bs'"
    using ll_invD(1)[OF L bs'] ll_collect[OF L bs'] by (auto simp: region_blocks_def)
  then show ?thesis using RegionNode bs
    by (auto simp: first_child_def ll_list_def oriented_def rev_map intro: yields_blocks_forward yields_blocks_reverse)
next
  case (BlockNode b)
  obtain ps where ps: "block_ops s b = Some ps" "ns = map OpNode ps" using ns BlockNode by auto
  have "ll_list (op_links s) b ps" using block_ops_ok[OF s block_list(1)[OF s ps(1)]] ps(1) by auto
  then show ?thesis using BlockNode ps
    by (auto simp: first_child_def ll_list_def oriented_def rev_map intro: yields_ops_forward yields_ops_reverse)
qed

lemma map_oriented: "map f (oriented cfg n xs) = oriented cfg n (map f xs)"
  by (simp add: oriented_def rev_map)

lemma set_oriented [simp]: "set (oriented cfg n xs) = set xs"
  by (simp add: oriented_def)

lemma walk_task_Visit:
  "walk_task cfg callback (Visit node) ctx st =
     walk_then (call_before cfg callback node ctx st) (\<lambda>c ctx st.
       if c = Skip then walk_advance ctx st
       else do {
         children \<leftarrow> first_child cfg ctx node;
         walk_then (walk_task cfg callback (Children children) ctx st)
           (\<lambda>_ ctx st. call_after cfg callback node ctx st)
       })"
  by (subst walk_task.simps) (rule walk_step.case)

lemma walk_task_Children:
  "current_child ctx children = Some cur \<Longrightarrow>
   walk_task cfg callback (Children children) ctx st =
     (case cur of
        None \<Rightarrow> walk_advance ctx st
      | Some node \<Rightarrow>
          walk_then (walk_task cfg callback (Visit node) ctx st) (\<lambda>_ ctx st. do {
            children \<leftarrow> next_child cfg ctx children;
            walk_task cfg callback (Children children) ctx st
          }))"
  by (subst walk_task.simps) simp

lemma walk_task_tree:
  assumes s: "ctx_ok s" and k: "keeps_structure callback"
  shows "is_ir_tree s t \<Longrightarrow> shape ctx = shape s
      \<Longrightarrow> walk_task cfg callback (Visit (it_node t)) ctx st = walk_tree cfg callback t ctx st"
    and "\<forall>t \<in> set ts. is_ir_tree s t \<Longrightarrow> shape ctx = shape s \<Longrightarrow> yields cfg s cur (map it_node ts)
      \<Longrightarrow> walk_task cfg callback (Children cur) ctx st = walk_trees cfg callback ts ctx st"
  using k
proof (induction cfg callback t ctx st and cfg callback ts ctx st arbitrary: and cur rule: walk_tree_walk_trees.induct)
  case (1 cfg callback n ts ctx st)
  obtain cur where cur: "first_child cfg s n = Some cur" "yields cfg s cur (map it_node (oriented cfg n ts))"
    using yields_first[OF s, of n "map it_node ts" cfg] 1(2) by (auto simp: map_oriented)
  have "walk_task cfg callback (Children cur) ctx1 st1 = walk_trees cfg callback (oriented cfg n ts) ctx1 st1"
    if "c1 \<noteq> Skip" "shape ctx1 = shape s" for c1 ctx1 st1
    using 1(1)[OF that(1) _ that(2) cur(2) 1(4)] 1(2) by simp
  then have "(if c1 = Skip then walk_advance ctx1 st1
      else do { children \<leftarrow> first_child cfg ctx1 n;
        walk_then (walk_task cfg callback (Children children) ctx1 st1) (\<lambda>_ ctx st. call_after cfg callback n ctx st) })
    = (if c1 = Skip then walk_advance ctx1 st1
      else walk_then (walk_trees cfg callback (oriented cfg n ts) ctx1 st1) (\<lambda>_ ctx st. call_after cfg callback n ctx st))"
    if "shape ctx1 = shape s" for c1 ctx1 st1
    using that children_shape(3)[OF that] cur(1) by simp
  moreover have "shape ctx1 = shape s" if "call_before cfg callback n ctx st = Some (Continue c1, ctx1, st1)" for c1 ctx1 st1
    using calls_keep_structure(1)[OF 1(4) that] 1(3) by simp
  ultimately show ?case
    unfolding walk_task_Visit walk_tree.simps ir_tree.sel
    by (intro walk_then_cong) blast
next
  case (2 cfg callback ctx st)
  then show ?case
    using children_shape(1)[OF 2(2), of cur] by (simp add: walk_task_Children)
next
  case (3 cfg callback t ts ctx st)
  obtain cur' where cur: "current_child s cur = Some (Some (it_node t))" "next_child cfg s cur = Some cur'"
      "yields cfg s cur' (map it_node ts)"
    using 3(5) by auto
  have t: "walk_task cfg callback (Visit (it_node t)) ctx st = walk_tree cfg callback t ctx st"
    using 3(1,3,4,6) by simp
  have "do { children \<leftarrow> next_child cfg ctx1 cur; walk_task cfg callback (Children children) ctx1 st1 }
      = walk_trees cfg callback ts ctx1 st1"
    if "walk_tree cfg callback t ctx st = Some (Continue go, ctx1, st1)" for go ctx1 st1
  proof -
    have sh: "shape ctx1 = shape s" using walk_tree_shape(1)[OF 3(6) that] 3(4) by simp
    show ?thesis using 3(2)[OF _ sh cur(3) 3(6)] 3(3) children_shape(2)[OF sh] cur(2) by simp
  qed
  then have "walk_then (walk_tree cfg callback t ctx st)
        (\<lambda>_ ctx st. do { children \<leftarrow> next_child cfg ctx cur; walk_task cfg callback (Children children) ctx st })
      = walk_then (walk_tree cfg callback t ctx st) (\<lambda>_ ctx st. walk_trees cfg callback ts ctx st)"
    by (intro walk_then_cong) blast
  then show ?case
    using children_shape(1)[OF 3(4), of cur] cur(1) t by (simp add: walk_task_Children)
qed

section \<open>Uninterruptible walks\<close>

text \<open>The nodes in the order in which they are visited.\<close>

fun visit_order :: "walk_config \<Rightarrow> ir_tree \<Rightarrow> ir_node list" where
  "visit_order cfg (IrTree n ts) =
     (let below = concat (oriented cfg n (map (visit_order cfg) ts))
      in if fst (config_for cfg n) = PreOrder then n # below else below @ [n])"

fun run_callbacks :: "('x \<Rightarrow> 's \<Rightarrow> ir_node \<Rightarrow> ('x \<times> 's) option) \<Rightarrow> ir_node list \<Rightarrow> 'x \<Rightarrow> 's \<Rightarrow> ('x \<times> 's) option" where
  "run_callbacks callback [] ctx st = Some (ctx, st)"
| "run_callbacks callback (n # ns) ctx st = do {
     (ctx, st) \<leftarrow> callback ctx st n;
     run_callbacks callback ns ctx st
   }"

lemma run_callbacks_append:
  "run_callbacks f (ns @ ms) ctx st = do { (ctx, st) \<leftarrow> run_callbacks f ns ctx st; run_callbacks f ms ctx st }"
  by (induction f ns ctx st rule: run_callbacks.induct) (auto split: bind_splits)

lemma advance_then:
  "walk_then (do { (ctx, st) \<leftarrow> m; walk_advance ctx st }) k = do { (ctx, st) \<leftarrow> m; k Advance ctx st }"
  "walk_then (do { x \<leftarrow> m; walk_advance (fst x) (snd x) }) k = do { x \<leftarrow> m; k Advance (fst x) (snd x) }"
  by (cases m; auto simp: walk_then_def walk_advance_def)+

lemma walk_advance_then: "walk_then (walk_advance ctx st) k = k Advance ctx st"
  by (simp add: walk_then_def walk_advance_def)

lemma walk_tree_advance:
  "walk_tree cfg (always_advance f) t ctx st
     = do { (ctx, st) \<leftarrow> run_callbacks f (visit_order cfg t) ctx st; walk_advance ctx st }"
  "walk_trees cfg (always_advance f) ts ctx st
     = do { (ctx, st) \<leftarrow> run_callbacks f (concat (map (visit_order cfg) ts)) ctx st; walk_advance ctx st }"
proof (induction cfg "always_advance f" t ctx st and cfg "always_advance f" ts ctx st rule: walk_tree_walk_trees.induct)
  case (1 cfg n ts ctx st)
  have o: "concat (oriented cfg n (map (visit_order cfg) ts)) = concat (map (visit_order cfg) (oriented cfg n ts))"
    by (simp add: map_oriented)
  have *: "walk_trees cfg (always_advance f) (oriented cfg n ts) ctx1 st1
      = do { (ctx, st) \<leftarrow> run_callbacks f (concat (map (visit_order cfg) (oriented cfg n ts))) ctx1 st1; walk_advance ctx st }"
    for ctx1 st1 using 1[of Advance ctx1 st1] by simp
  show ?case
  proof (cases "fst (config_for cfg n)")
    case PreOrder
    then show ?thesis
      by (simp add: call_before_def call_after_def always_advance_def advance_then * o Let_def split_def
          split: option.split)
  next
    case PostOrder
    then show ?thesis
      by (simp add: call_before_def call_after_def always_advance_def advance_then walk_advance_then * o Let_def
          run_callbacks_append split_def)
  qed
next
  case (2 cfg ctx st)
  then show ?case by simp
next
  case (3 cfg t ts ctx st)
  then show ?case by (simp add: advance_then run_callbacks_append split_def)
qed

lemma mset_oriented [simp]: "mset (oriented cfg n xs) = mset xs"
  by (simp add: oriented_def)

lemma mset_concat_cong: "mset xss = mset yss \<Longrightarrow> mset (concat xss) = mset (concat yss)"
  by (metis mset_concat sum_mset_sum_list mset_map)

lemma visit_order_mset: "mset (visit_order cfg t) = mset (tree_nodes t)"
proof (induction t)
  case (IrTree n ts)
  have "mset (concat (oriented cfg n (map (visit_order cfg) ts))) = mset (concat (map (visit_order cfg) ts))"
    by (rule mset_concat_cong) simp
  also have "\<dots> = mset (concat (map tree_nodes ts))"
    using IrTree by (induction ts) auto
  finally show ?case by (simp add: Let_def)
qed

text \<open>Every node stands before its children in pre-order and behind them in post-order.\<close>

definition visited_with :: "walk_config \<Rightarrow> ('ty, 'c, 'a) ctx \<Rightarrow> ir_node list \<Rightarrow> bool" where
  "visited_with cfg s ns \<longleftrightarrow> (\<forall>m \<in> set ns. \<exists>as bs. ns = as @ m # bs
     \<and> {k. child s m k} \<subseteq> set (if fst (config_for cfg m) = PreOrder then bs else as))"

lemma visited_with_append:
  assumes "visited_with cfg s ns" and "visited_with cfg s ms"
  shows "visited_with cfg s (ns @ ms)"
  unfolding visited_with_def
proof
  fix m assume "m \<in> set (ns @ ms)"
  then consider "m \<in> set ns" | "m \<in> set ms" by auto
  then show "\<exists>as bs. ns @ ms = as @ m # bs
     \<and> {k. child s m k} \<subseteq> set (if fst (config_for cfg m) = PreOrder then bs else as)"
  proof cases
    case 1
    then obtain as bs where a: "ns = as @ m # bs"
        "{k. child s m k} \<subseteq> set (if fst (config_for cfg m) = PreOrder then bs else as)"
      using assms(1) unfolding visited_with_def by blast
    have "ns @ ms = as @ m # (bs @ ms)" using a(1) by simp
    moreover have "set (if fst (config_for cfg m) = PreOrder then bs else as)
        \<subseteq> set (if fst (config_for cfg m) = PreOrder then bs @ ms else as)" by simp
    ultimately show ?thesis using a(2) by blast
  next
    case 2
    then obtain as bs where a: "ms = as @ m # bs"
        "{k. child s m k} \<subseteq> set (if fst (config_for cfg m) = PreOrder then bs else as)"
      using assms(2) unfolding visited_with_def by blast
    have "ns @ ms = (ns @ as) @ m # bs" using a(1) by simp
    moreover have "set (if fst (config_for cfg m) = PreOrder then bs else as)
        \<subseteq> set (if fst (config_for cfg m) = PreOrder then bs else ns @ as)" by simp
    ultimately show ?thesis using a(2) by blast
  qed
qed

lemma visited_with_concat: "\<forall>ns \<in> set nss. visited_with cfg s ns \<Longrightarrow> visited_with cfg s (concat nss)"
proof (induction nss)
  case Nil then show ?case by (simp add: visited_with_def)
next
  case (Cons ns nss) then show ?case by (simp add: visited_with_append)
qed

lemma visit_order_visited: "is_ir_tree s t \<Longrightarrow> visited_with cfg s (visit_order cfg t)"
proof (induction t)
  case (IrTree n ts)
  let ?below = "concat (oriented cfg n (map (visit_order cfg) ts))"
  have b: "visited_with cfg s ?below"
    using IrTree by (intro visited_with_concat) auto
  have "it_node t \<in> set (visit_order cfg t)" for t
    using visit_order_mset[of cfg t] mset_eq_setD it_node_in by metis
  then have c: "{k. child s n k} \<subseteq> set ?below"
    using IrTree.prems by (auto simp: child_def)
  show ?case
  proof (cases "fst (config_for cfg n)")
    case PreOrder
    have "visited_with cfg s (n # ?below)"
      unfolding visited_with_def
    proof
      fix m assume m: "m \<in> set (n # ?below)"
      show "\<exists>as bs. n # ?below = as @ m # bs
          \<and> {k. child s m k} \<subseteq> set (if fst (config_for cfg m) = PreOrder then bs else as)"
      proof (cases "m = n")
        case True
        then show ?thesis using c PreOrder by (intro exI[of _ "[]"] exI[of _ ?below]) simp
      next
        case False
        then have "m \<in> set ?below" using m by simp
        then obtain as bs where a: "?below = as @ m # bs"
            "{k. child s m k} \<subseteq> set (if fst (config_for cfg m) = PreOrder then bs else as)"
          using b unfolding visited_with_def by blast
        then show ?thesis by (intro exI[of _ "n # as"] exI[of _ bs]) (auto split: if_splits)
      qed
    qed
    then show ?thesis using PreOrder by (simp add: Let_def)
  next
    case PostOrder
    have "visited_with cfg s (?below @ [n])"
      unfolding visited_with_def
    proof
      fix m assume m: "m \<in> set (?below @ [n])"
      show "\<exists>as bs. ?below @ [n] = as @ m # bs
          \<and> {k. child s m k} \<subseteq> set (if fst (config_for cfg m) = PreOrder then bs else as)"
      proof (cases "m = n")
        case True
        then show ?thesis using c PostOrder by (intro exI[of _ ?below] exI[of _ "[]"]) simp
      next
        case False
        then have "m \<in> set ?below" using m by simp
        then obtain as bs where a: "?below = as @ m # bs"
            "{k. child s m k} \<subseteq> set (if fst (config_for cfg m) = PreOrder then bs else as)"
          using b unfolding visited_with_def by blast
        then show ?thesis by (intro exI[of _ as] exI[of _ "bs @ [n]"]) (auto split: if_splits)
      qed
    qed
    then show ?thesis using PostOrder by (simp add: Let_def)
  qed
qed

section \<open>Properties\<close>

lemma walk_on_tree:
  assumes s: "ctx_ok s" "ir_finite s" and k: "keeps_structure callback" and n: "node_exists s n"
  shows "\<exists>t. it_node t = n \<and> is_ir_tree s t
    \<and> (\<forall>st. walk_task cfg callback (Visit n) s st = walk_tree cfg callback t s st)"
  using ir_tree_exists[OF s n] walk_task_tree(1)[OF s(1) k] by blast

text \<open>
  C26. The walkers, for every configuration and every callback that keeps the structure of the IR
  (what else it changes, breaks off or skips, and where it panics, is free): below every operation,
  region and block of a consistent context there is a finite tree, and the walk is
  recursion over that tree. In particular the loops over siblings, which read the next link from the
  context the callbacks have left, miss nothing and end.
\<close>

theorem walk_refines_tree:
  assumes "ctx_ok s" and "ir_finite s" and "keeps_structure callback"
  shows "(\<forall>p. operations s p \<noteq> None \<longrightarrow> (\<exists>t. it_node t = OpNode p \<and> is_ir_tree s t
      \<and> (\<forall>st. walk_op cfg callback p s st = walk_tree cfg callback t s st)))
    \<and> (\<forall>r. regions s r \<noteq> None \<longrightarrow> (\<exists>t. it_node t = RegionNode r \<and> is_ir_tree s t
      \<and> (\<forall>st. walk_region cfg callback r s st = walk_tree cfg callback t s st)))
    \<and> (\<forall>b. basic_blocks s b \<noteq> None \<longrightarrow> (\<exists>t. it_node t = BlockNode b \<and> is_ir_tree s t
      \<and> (\<forall>st. walk_block cfg callback b s st = walk_tree cfg callback t s st)))"
  using walk_on_tree[OF assms, of "OpNode _" cfg] walk_on_tree[OF assms, of "RegionNode _" cfg]
    walk_on_tree[OF assms, of "BlockNode _" cfg]
  by (simp add: walk_op_def walk_region_def walk_block_def)

theorem walk_refines_tree_witness:
  "\<exists>t. it_node t = OpNode 0 \<and> is_ir_tree demo_ctx t
     \<and> (\<forall>st. walk_op WALKCONFIG_POSTORDER_REVERSE (keep_ctx (\<lambda>ctx st n. Some (Continue Advance, n # st))) 0 demo_ctx st
        = walk_tree WALKCONFIG_POSTORDER_REVERSE (keep_ctx (\<lambda>ctx st n. Some (Continue Advance :: unit walk_result, n # st))) t demo_ctx st)"
proof -
  have "keeps_structure (keep_ctx (\<lambda>ctx st n. Some (Continue Advance :: unit walk_result, n # st)))"
    by (auto simp: keeps_structure_def keep_ctx_def)
  moreover have "operations demo_ctx 0 \<noteq> None" by code_simp
  ultimately show ?thesis using walk_refines_tree[OF demo_ok demo_finite] by blast
qed

text \<open>
  C27. The uninterruptible walkers run the callback once on the root and on everything nested in it, and on nothing
  else; a node comes before its children where the configuration says pre-order, and behind them where it
  says post-order.
\<close>

theorem walk_visits_each_once:
  assumes "ctx_ok s" and "ir_finite s" and "operations s p \<noteq> None"
    and "\<And>ctx st n ctx' st'. callback ctx st n = Some (ctx', st') \<Longrightarrow> shape ctx' = shape ctx"
  shows "\<exists>ns. (\<forall>st. uninterruptible_walk_op cfg callback p s st = run_callbacks callback ns s st)
    \<and> distinct ns \<and> set ns = {n. (child s)\<^sup>*\<^sup>* (OpNode p) n} \<and> visited_with cfg s ns"
proof -
  have "keeps_structure (always_advance callback)"
    using assms(4) by (auto simp: keeps_structure_def always_advance_def walk_advance_def split: bind_splits)
  then obtain t where t: "it_node t = OpNode p" "is_ir_tree s t"
      "\<forall>st. walk_task cfg (always_advance callback) (Visit (OpNode p)) s st = walk_tree cfg (always_advance callback) t s st"
    using walk_on_tree[OF assms(1,2), of "always_advance callback" "OpNode p" cfg] assms(3) by auto
  have "uninterruptible_walk_op cfg callback p s st = run_callbacks callback (visit_order cfg t) s st" for st
    using t(3) by (simp add: uninterruptible_walk_op_def walk_op_def walk_tree_advance walk_advance_def
        option.map_comp o_def split_def map_option_bind)
  moreover have "distinct (visit_order cfg t)"
    using tree_nodes_distinct[OF assms(1,2) t(2)] mset_eq_imp_distinct_iff[OF visit_order_mset[of cfg t]] by simp
  moreover have "set (visit_order cfg t) = {n. (child s)\<^sup>*\<^sup>* (OpNode p) n}"
    using mset_eq_setD[OF visit_order_mset[of cfg t]] tree_nodes_reached[OF t(2)] t(1) by auto
  ultimately show ?thesis using visit_order_visited[OF t(2)] by blast
qed

theorem walk_visits_each_once_witness:
  "\<exists>ns. (\<forall>st. uninterruptible_walk_op WALKCONFIG_PREORDER_FORWARD (\<lambda>ctx st n. Some (ctx, n # st)) 0 demo_ctx st
      = run_callbacks (\<lambda>ctx st n. Some (ctx, n # st)) ns demo_ctx st)
    \<and> distinct ns \<and> set ns = {n. (child demo_ctx)\<^sup>*\<^sup>* (OpNode 0) n}"
proof -
  have "operations demo_ctx 0 \<noteq> None" by code_simp
  from walk_visits_each_once[OF demo_ok demo_finite this, of "\<lambda>ctx st n. Some (ctx, n # st)" WALKCONFIG_PREORDER_FORWARD]
  show ?thesis by fastforce
qed

end
