(* ===== verification/IrErase.thy ===== *)
theory IrErase
  imports IrTree
begin

text \<open>
  Erasing: \<open>drop_all_uses\<close>, \<open>dealloc\<close> and \<open>erase\<close> of operations and blocks, and \<open>erase_region\<close>, of
  \<^verbatim>\<open>operation.rs\<close>, \<^verbatim>\<open>basic_block.rs\<close>, \<^verbatim>\<open>region.rs\<close> and \<^verbatim>\<open>context.rs\<close> under \<^verbatim>\<open>src/src\<close>.

  The mutually recursive functions work on a list of nodes: for each, first its own part, then
  the same function on its children. \<open>dropped\<close> says what dropping changes, \<open>erased\<close> what erasing does.
\<close>

section \<open>Operations\<close>

fun drop_uses :: "('d, 's) def_use \<Rightarrow> 's \<Rightarrow> 'd operand list \<Rightarrow> op_ptr \<Rightarrow> 's option" where
  "drop_uses T ctx [] p = Some ctx"
| "drop_uses T ctx (opd # opds) p = do { ctx \<leftarrow> drop_use T ctx opd p; drop_uses T ctx opds p }"

text \<open>What \<open>drop_all_uses\<close> does with an object before its children, and the children it goes on with.\<close>

definition drop_own_uses ::
    "('ty, 'c, 'a) ctx \<Rightarrow> ir_node \<Rightarrow> (ir_node list \<times> ('ty, 'c, 'a) ctx) option" where
  "drop_own_uses ctx n =
     (case n of
        OpNode p \<Rightarrow> do {
          op \<leftarrow> operations ctx p;
          ctx \<leftarrow> modify_op ctx p (\<lambda>op. op\<lparr>operands := []\<rparr>);
          ctx \<leftarrow> drop_uses value_api ctx (operands op) p;
          op \<leftarrow> operations ctx p;
          ctx \<leftarrow> modify_op ctx p (\<lambda>op. op\<lparr>op_successors := []\<rparr>);
          ctx \<leftarrow> drop_uses block_api ctx (op_successors op) p;
          op \<leftarrow> operations ctx p;
          Some (map RegionNode (op_regions op), ctx)
        }
      | BlockNode b \<Rightarrow> do { ops \<leftarrow> block_ops ctx b; Some (map OpNode ops, ctx) }
      | RegionNode r \<Rightarrow> do { blocks \<leftarrow> region_blocks ctx r; Some (map BlockNode blocks, ctx) })"

partial_function (option) drop_all_uses ::
    "('ty, 'c, 'a) ctx \<Rightarrow> ir_node list \<Rightarrow> ('ty, 'c, 'a) ctx option" where
  "drop_all_uses ctx ns =
     (case ns of
        [] \<Rightarrow> Some ctx
      | n # ns \<Rightarrow> do {
          (children, ctx) \<leftarrow> drop_own_uses ctx n;
          ctx \<leftarrow> drop_all_uses ctx children;
          drop_all_uses ctx ns
        })"

text \<open>The children an object deallocates before itself, and its removal from its arena.\<close>

definition sub_objects :: "('ty, 'c, 'a) ctx \<Rightarrow> ir_node \<Rightarrow> ir_node list option" where
  "sub_objects ctx n =
     (case n of
        OpNode p \<Rightarrow> do { op \<leftarrow> operations ctx p; Some (map RegionNode (op_regions op)) }
      | BlockNode b \<Rightarrow> do { ops \<leftarrow> block_ops ctx b; Some (map OpNode ops) }
      | RegionNode r \<Rightarrow> do { blocks \<leftarrow> region_blocks ctx r; Some (map BlockNode blocks) })"

definition arena_remove :: "('ty, 'c, 'a) ctx \<Rightarrow> ir_node \<Rightarrow> ('ty, 'c, 'a) ctx" where
  "arena_remove ctx n =
     (case n of
        OpNode p \<Rightarrow> ctx\<lparr>operations := (operations ctx)(p := None),
          op_links := (op_links ctx)\<lparr>nodes := (nodes (op_links ctx))(p := None)\<rparr>\<rparr>
      | BlockNode b \<Rightarrow> ctx\<lparr>basic_blocks := (basic_blocks ctx)(b := None),
          op_links := (op_links ctx)\<lparr>roots := (roots (op_links ctx))(b := None)\<rparr>,
          block_links := (block_links ctx)\<lparr>nodes := (nodes (block_links ctx))(b := None)\<rparr>\<rparr>
      | RegionNode r \<Rightarrow> ctx\<lparr>regions := (regions ctx)(r := None),
          block_links := (block_links ctx)\<lparr>roots := (roots (block_links ctx))(r := None)\<rparr>\<rparr>)"

partial_function (option) dealloc ::
    "('ty, 'c, 'a) ctx \<Rightarrow> ir_node list \<Rightarrow> ('ty, 'c, 'a) ctx option" where
  "dealloc ctx ns =
     (case ns of
        [] \<Rightarrow> Some ctx
      | n # ns \<Rightarrow> do {
          children \<leftarrow> sub_objects ctx n;
          ctx \<leftarrow> dealloc ctx children;
          dealloc (arena_remove ctx n) ns
        })"

declare drop_all_uses.simps [code] dealloc.simps [code]

definition erase :: "('ty, 'c, 'a) ctx \<Rightarrow> op_ptr \<Rightarrow> ('ty, 'c, 'a) ctx option" where
  "erase ctx p = do {
     ctx \<leftarrow> drop_all_uses ctx [OpNode p];
     has_use \<leftarrow> op_has_use ctx p;
     _ \<leftarrow> ocheck (\<not> has_use);
     linked \<leftarrow> of_outcome (is_linked (op_links ctx) p);
     links \<leftarrow> (if linked then of_outcome (unlink (op_links ctx) p) else Some (op_links ctx));
     dealloc (ctx\<lparr>op_links := links\<rparr>) [OpNode p]
   }"

definition block_erase :: "('ty, 'c, 'a) ctx \<Rightarrow> block_ptr \<Rightarrow> ('ty, 'c, 'a) ctx option" where
  "block_erase ctx b = do {
     ctx \<leftarrow> drop_all_uses ctx [BlockNode b];
     pred \<leftarrow> has_pred ctx b;
     _ \<leftarrow> ocheck (\<not> pred);
     arguments \<leftarrow> arguments ctx b;
     used_arg \<leftarrow> oany (is_used ctx) arguments;
     _ \<leftarrow> ocheck (\<not> used_arg);
     ops \<leftarrow> block_ops ctx b;
     used_op \<leftarrow> oany (op_has_use ctx) ops;
     _ \<leftarrow> ocheck (\<not> used_op);
     linked \<leftarrow> of_outcome (is_linked (block_links ctx) b);
     links \<leftarrow> (if linked then of_outcome (unlink (block_links ctx) b) else Some (block_links ctx));
     dealloc (ctx\<lparr>block_links := links\<rparr>) [BlockNode b]
   }"

definition erase_region :: "('ty, 'c, 'a) ctx \<Rightarrow> op_ptr \<Rightarrow> nat \<Rightarrow> ('ty, 'c, 'a) ctx option" where
  "erase_region ctx p reg_idx = do {
     op \<leftarrow> operations ctx p;
     reg \<leftarrow> oget (op_regions op) reg_idx;
     ctx \<leftarrow> drop_all_uses ctx [RegionNode reg];
     op \<leftarrow> operations ctx p;
     (_, rs) \<leftarrow> remove_at (op_regions op) reg_idx;
     ctx \<leftarrow> modify_op ctx p (\<lambda>op. op\<lparr>op_regions := rs\<rparr>);
     dealloc ctx [RegionNode reg]
   }"

section \<open>Dropping the operands of one operation\<close>

text \<open>Once for values and blocks: \<open>without p us us'\<close> when \<open>us'\<close> are the uses left in \<open>us\<close> when those by \<open>p\<close> are gone.\<close>

definition without :: "op_ptr set \<Rightarrow> use_ref list option \<Rightarrow> use_ref list option \<Rightarrow> bool" where
  "without P us us' \<longleftrightarrow> map_option set us' = map_option (\<lambda>us. {u \<in> set us. user_op u \<notin> P}) us"

lemma without_trans: "without P us us' \<Longrightarrow> without Q us' us'' \<Longrightarrow> without (P \<union> Q) us us''"
  by (cases us; cases us'; cases us'') (auto simp: without_def)

context def_use_store
begin

lemma drop_uses_spec:
  assumes "ok s" and "distinct (map opd_uid xs)" and "\<forall>d us. get_defnode T s d = Some us \<longrightarrow> distinct us"
    and "\<forall>x \<in> set xs. \<exists>us. get_defnode T s (opd_def x) = Some us \<and> as_use x p \<in> set us"
  shows "\<exists>s'. drop_uses T s xs p = Some s' \<and> ok s' \<and> opds s' = opds s \<and> use_counter s' = use_counter s
    \<and> rest s' = rest s \<and> dom (get_defnode T s') = dom (get_defnode T s)
    \<and> (\<forall>d us us'. get_defnode T s d = Some us \<longrightarrow> get_defnode T s' d = Some us' \<longrightarrow> distinct us'
        \<and> set us' = set us - {as_use x p | x. x \<in> set xs \<and> opd_def x = d})"
  using assms
proof (induction xs arbitrary: s)
  case (Cons x xs)
  obtain us where us: "get_defnode T s (opd_def x) = Some us" "as_use x p \<in> set us" using Cons.prems(4) by auto
  obtain s1 where s1: "drop_use T s x p = Some s1" "ok s1"
      "get_defnode T s1 = (get_defnode T s)(opd_def x \<mapsto> ls_swap_remove (as_use x p) us)"
      "opds s1 = opds s" "use_counter s1 = use_counter s" "rest s1 = rest s"
    using drop_use_spec[OF Cons.prems(1) us] by blast
  have d: "distinct us" using Cons.prems(3) us(1) by blast
  have sr: "set (ls_swap_remove (as_use x p) us) = set us - {as_use x p}" "distinct (ls_swap_remove (as_use x p) us)"
    using ls_swap_remove_set[OF d] by simp_all
  have "\<exists>vs. get_defnode T s1 (opd_def y) = Some vs \<and> as_use y p \<in> set vs" if y: "y \<in> set xs" for y
  proof -
    obtain vs where vs: "get_defnode T s (opd_def y) = Some vs" "as_use y p \<in> set vs" using Cons.prems(4) y by auto
    have "opd_uid y \<in> opd_uid ` set xs" using y by simp
    then have "opd_uid y \<noteq> opd_uid x" using Cons.prems(2) by auto
    then have "as_use y p \<noteq> as_use x p" by (simp add: as_use_def)
    then show ?thesis using vs us(1) sr(1) unfolding s1(3) by (cases "opd_def y = opd_def x") simp_all
  qed
  moreover have "\<forall>d vs. get_defnode T s1 d = Some vs \<longrightarrow> distinct vs" using Cons.prems(3) s1(3) sr(2) by auto
  ultimately obtain s2 where s2: "drop_uses T s1 xs p = Some s2" "ok s2" "opds s2 = opds s1"
      "use_counter s2 = use_counter s1" "rest s2 = rest s1" "dom (get_defnode T s2) = dom (get_defnode T s1)"
      "\<forall>d us us'. get_defnode T s1 d = Some us \<longrightarrow> get_defnode T s2 d = Some us' \<longrightarrow> distinct us'
        \<and> set us' = set us - {as_use x p | x. x \<in> set xs \<and> opd_def x = d}"
    using Cons.IH[OF s1(2)] Cons.prems(2) by auto
  have "distinct us'' \<and> set us'' = set us' - {as_use y p | y. y \<in> set (x # xs) \<and> opd_def y = d}"
    if "get_defnode T s d = Some us'" "get_defnode T s2 d = Some us''" for d us' us''
  proof (cases "d = opd_def x")
    case True
    then have "get_defnode T s1 d = Some (ls_swap_remove (as_use x p) us)" "us' = us" using s1(3) us(1) that(1) by simp_all
    then show ?thesis using s2(7) that(2) sr(1) True by auto
  next
    case False
    then have "get_defnode T s1 d = Some us'" using s1(3) that(1) by simp
    then show ?thesis using s2(7) that(2) False by auto
  qed
  moreover have "dom (get_defnode T s2) = dom (get_defnode T s)" using s2(6) s1(3) us(1) by auto
  ultimately show ?case using s1 s2 by (intro exI[of _ s2]) simp
qed auto

lemma drop_operands:
  assumes s: "ok s" "du_ok T opds s" and p: "opds s p = Some xs"
  shows "\<exists>s1 s2. put_opds s p [] = Some s1 \<and> drop_uses T s1 xs p = Some s2 \<and> ok s2 \<and> du_ok T opds s2
    \<and> opds s2 = (opds s)(p \<mapsto> []) \<and> use_counter s2 = use_counter s \<and> rest s2 = rest s
    \<and> (\<forall>d. without {p} (get_defnode T s d) (get_defnode T s2 d))"
proof -
  note D = def_use_okD[OF s(2)[unfolded du_ok_def]]
  obtain s1 where s1: "put_opds s p [] = Some s1" "ok s1" "get_defnode T s1 = get_defnode T s"
      "opds s1 = (opds s)(p \<mapsto> [])" "use_counter s1 = use_counter s" "rest s1 = rest s"
    using put_opds[OF s(1) p] by blast
  have "\<forall>x \<in> set xs. \<exists>us. get_defnode T s1 (opd_def x) = Some us \<and> as_use x p \<in> set us"
    unfolding s1(3) using D(5)[OF p] by blast
  moreover have "\<forall>d us. get_defnode T s1 d = Some us \<longrightarrow> distinct us" unfolding s1(3) using D(1) by blast
  ultimately obtain s2 where s2: "drop_uses T s1 xs p = Some s2" "ok s2" "opds s2 = opds s1"
      "use_counter s2 = use_counter s1" "rest s2 = rest s1" "dom (get_defnode T s2) = dom (get_defnode T s1)"
      "\<forall>d us us'. get_defnode T s1 d = Some us \<longrightarrow> get_defnode T s2 d = Some us' \<longrightarrow> distinct us'
        \<and> set us' = set us - {as_use x p | x. x \<in> set xs \<and> opd_def x = d}"
    using drop_uses_spec[OF s1(2) D(3)[OF p]] by blast
  have left: "distinct us' \<and> set us' = {u \<in> set us. user_op u \<noteq> p}"
    if us: "get_defnode T s d = Some us" "get_defnode T s2 d = Some us'" for d us us'
  proof -
    have "set us - {as_use x p | x. x \<in> set xs \<and> opd_def x = d} = {u \<in> set us. user_op u \<noteq> p}"
    proof -
      have "user_op u \<noteq> p" if u: "u \<in> set us" "u \<notin> {as_use x p | x. x \<in> set xs \<and> opd_def x = d}" for u
      proof
        assume e: "user_op u = p"
        obtain ys x where "opds s (user_op u) = Some ys" "x \<in> set ys" "opd_uid x = use_uid u" "opd_def x = d"
          using D(2)[OF us(1) u(1)] by blast
        then have "x \<in> set xs" "u = as_use x p" "opd_def x = d" using e p by (simp_all add: use_ref_eq_as_use)
        then show False using u(2) by blast
      qed
      then show ?thesis by auto
    qed
    then show ?thesis using s2(7) us s1(3) by auto
  qed
  have dom: "dom (get_defnode T s2) = dom (get_defnode T s)" using s2(6) s1(3) by simp
  have wo: "without {p} (get_defnode T s d) (get_defnode T s2 d)" for d
  proof (cases "get_defnode T s d")
    case None
    then have "get_defnode T s2 d = None" using dom by (metis domIff)
    then show ?thesis using None by (simp add: without_def)
  next
    case (Some us)
    then obtain us' where "get_defnode T s2 d = Some us'" using dom by (metis domD domI)
    then show ?thesis using left[OF Some] Some by (simp add: without_def)
  qed
  have "def_use_ok (get_defnode T s2) (opds s2) (use_counter s2)"
    unfolding def_use_ok_def
  proof (intro conjI allI impI ballI)
    fix d us' assume us': "get_defnode T s2 d = Some us'"
    then obtain us where us: "get_defnode T s d = Some us" using dom by (metis domD domI)
    note l = left[OF us us']
    show "distinct us'" using l by simp
    fix u assume "u \<in> set us'"
    then have u: "u \<in> set us" "user_op u \<noteq> p" using l by auto
    then show "\<exists>xs x. opds s2 (user_op u) = Some xs \<and> x \<in> set xs \<and> opd_uid x = use_uid u \<and> opd_def x = d"
      using D(2)[OF us u(1)] s2(3) s1(4) by simp
  next
    fix q ys assume "opds s2 q = Some ys"
    then have ys: "q = p \<and> ys = [] \<or> q \<noteq> p \<and> opds s q = Some ys" using s2(3) s1(4) by (auto split: if_splits)
    then show "distinct (map opd_uid ys)" using D(3) by auto
    fix x assume x: "x \<in> set ys"
    then have q: "q \<noteq> p" "opds s q = Some ys" using ys by auto
    show "opd_uid x < use_counter s2" using D(4)[OF q(2) x] s2(4) s1(5) by simp
    obtain us where us: "get_defnode T s (opd_def x) = Some us" "as_use x q \<in> set us" using D(5)[OF q(2) x] by blast
    then obtain us' where us': "get_defnode T s2 (opd_def x) = Some us'" using dom by (metis domD domI)
    then show "\<exists>us. get_defnode T s2 (opd_def x) = Some us \<and> as_use x q \<in> set us"
      using left[OF us(1) us'] us(2) q(1) by auto
  qed
  then show ?thesis using s1 s2 wo by (intro exI[of _ s1] exI[of _ s2]) (simp add: du_ok_def)
qed

end

section \<open>Dropping all uses below a node\<close>

text \<open>Everything but operands, successors and the lists of uses.\<close>

definition skeleton :: "('ty, 'c, 'a) ctx \<Rightarrow> ('ty, 'c, 'a) ctx" where
  "skeleton s = strip_values (strip_blocks s)"

lemma strips_commute:
  fixes s :: "('ty, 'c, 'a) ctx"
  shows "strip_values (strip_blocks s) = strip_blocks (strip_values s)"
proof -
  have o: "x\<lparr>op_successors := [], operands := [], results := r\<rparr> = x\<lparr>operands := [], results := r, op_successors := []\<rparr>"
    for x :: "('ty, 'c, 'a) operation" and r by (cases x) simp
  have b: "x\<lparr>preds := [], args := r\<rparr> = x\<lparr>args := r, preds := []\<rparr>" for x :: "('ty, 'a) basic_block" and r
    by (cases x) simp
  show ?thesis by (simp add: strip_values_def strip_blocks_def option.map_comp o_def o b)
qed

lemma skeleton_cong:
  "strip_values s' = strip_values s \<Longrightarrow> skeleton s' = skeleton s"
  "strip_blocks s' = strip_blocks s \<Longrightarrow> skeleton s' = skeleton s"
proof -
  show "strip_values s' = strip_values s \<Longrightarrow> skeleton s' = skeleton s" by (simp add: skeleton_def strips_commute)
  show "strip_blocks s' = strip_blocks s \<Longrightarrow> skeleton s' = skeleton s" by (simp add: skeleton_def)
qed

lemma skeleton_shape: "skeleton s' = skeleton s \<Longrightarrow> shape s' = shape s"
  by (metis skeleton_def shape_strip_blocks shape_strip_values)

definition op_conc :: "('ty, 'c, 'a) ctx \<Rightarrow> op_ptr \<Rightarrow> 'c option" where
  "op_conc s p = map_option concrete_op (operations s p)"

lemma op_conc_skeleton: "op_conc (skeleton s) = op_conc s"
  by (simp add: op_conc_def skeleton_def strip_values_def strip_blocks_def option.map_comp o_def fun_eq_iff)

lemma skeleton_conc: "skeleton s' = skeleton s \<Longrightarrow> op_conc s' = op_conc s"
  using op_conc_skeleton[of s'] op_conc_skeleton[of s] by simp

text \<open>From \<open>s\<close> to \<open>s'\<close> the operations \<open>P\<close> have given up their operands and successors, and nothing else happened.\<close>

definition dropped :: "op_ptr set \<Rightarrow> ('ty, 'c, 'a) ctx \<Rightarrow> ('ty, 'c, 'a) ctx \<Rightarrow> bool" where
  "dropped P s s' \<longleftrightarrow> ctx_ok s' \<and> skeleton s' = skeleton s \<and> use_counter s' = use_counter s
     \<and> (\<forall>p. vopds s' p = (if p \<in> P then map_option (\<lambda>_. []) (vopds s p) else vopds s p))
     \<and> (\<forall>p. bopds s' p = (if p \<in> P then map_option (\<lambda>_. []) (bopds s p) else bopds s p))
     \<and> (\<forall>v. without P (value_defnode s v) (value_defnode s' v))
     \<and> (\<forall>b. without P (block_defnode s b) (block_defnode s' b))"

lemma droppedD:
  assumes "dropped P s s'"
  shows "ctx_ok s'" and "skeleton s' = skeleton s" and "use_counter s' = use_counter s" and "shape s' = shape s"
    and "vopds s' p = (if p \<in> P then map_option (\<lambda>_. []) (vopds s p) else vopds s p)"
    and "bopds s' p = (if p \<in> P then map_option (\<lambda>_. []) (bopds s p) else bopds s p)"
    and "without P (value_defnode s v) (value_defnode s' v)"
    and "without P (block_defnode s b) (block_defnode s' b)"
  using assms skeleton_shape[of s' s] by (auto simp: dropped_def)

lemma dropped_refl: "ctx_ok s \<Longrightarrow> dropped {} s s"
  by (auto simp: dropped_def without_def option.map_ident_strong)

lemma dropped_trans:
  assumes "dropped P s s'" and "dropped Q s' s''"
  shows "dropped (P \<union> Q) s s''"
  unfolding dropped_def
proof (intro conjI allI)
  note a = droppedD[OF assms(1)] and b = droppedD[OF assms(2)]
  show "ctx_ok s''" "skeleton s'' = skeleton s" "use_counter s'' = use_counter s" using a b by simp_all
  show "vopds s'' p = (if p \<in> P \<union> Q then map_option (\<lambda>_. []) (vopds s p) else vopds s p)" for p
    using a(5)[of p] b(5)[of p] by (simp add: option.map_comp o_def)
  show "bopds s'' p = (if p \<in> P \<union> Q then map_option (\<lambda>_. []) (bopds s p) else bopds s p)" for p
    using a(6)[of p] b(6)[of p] by (simp add: option.map_comp o_def)
  show "without (P \<union> Q) (value_defnode s v) (value_defnode s'' v)" for v
    using without_trans[OF a(7) b(7)] .
  show "without (P \<union> Q) (block_defnode s b) (block_defnode s'' b)" for b
    using without_trans[OF a(8) b(8)] .
qed

lemma drop_own_op:
  assumes s: "ctx_ok s" and op: "operations s p = Some op"
  shows "\<exists>s'. drop_own_uses s (OpNode p) = Some (map RegionNode (op_regions op), s') \<and> dropped {p} s s'"
proof -
  have ok: "ir_ok s" "uids_ok s" "du_ok value_api vopds s" using s by (simp_all add: ctx_ok_def ir_ok_def)
  have v: "vopds s p = Some (operands op)" using op by (simp add: vopds_def)
  obtain s1 s2 where a: "put_vopds s p [] = Some s1" "drop_uses value_api s1 (operands op) p = Some s2" "uids_ok s2"
      "du_ok value_api vopds s2" "vopds s2 = (vopds s)(p \<mapsto> [])" "use_counter s2 = use_counter s"
      "strip_values s2 = strip_values s"
      "\<forall>d. without {p} (get_defnode value_api s d) (get_defnode value_api s2 d)"
    using vdu.drop_operands[OF ok(2,3) v] by blast
  have ok2: "ir_ok s2" using ir_ok_values[OF ok(1) a(3,4,7)] a(6) by simp
  note f2 = strip_values_frame[OF a(7)]
  have "bopds s2 p = Some (op_successors op)" using f2(2) op by (simp add: bopds_def)
  then obtain op2 where op2: "operations s2 p = Some op2" "op_successors op2 = op_successors op"
    by (auto simp: bopds_def)
  obtain s3 s4 where b: "put_bopds s2 p [] = Some s3" "drop_uses block_api s3 (op_successors op) p = Some s4"
      "du_ok block_api bopds s4" "bopds s4 = (bopds s2)(p \<mapsto> [])" "use_counter s4 = use_counter s2"
      "strip_blocks s4 = strip_blocks s2"
      "\<forall>d. without {p} (get_defnode block_api s2 d) (get_defnode block_api s4 d)"
    using bdu.drop_operands[of s2 p "op_successors op"] ok2 op2 by (auto simp: ir_ok_def bopds_def)
  have ok4: "ir_ok s4" using ir_ok_blocks[OF ok2 b(3,6)] b(5) by simp
  note f4 = strip_blocks_frame[OF b(6)]
  have sk: "skeleton s4 = skeleton s" using skeleton_cong(1)[OF a(7)] skeleton_cong(2)[OF b(6)] by simp
  have "op_regs s4 p = Some (op_regions op)" using skeleton_shape[OF sk] op by (simp add: shape_def op_regs_def)
  then obtain op4 where op4: "operations s4 p = Some op4" "op_regions op4 = op_regions op" by (auto simp: op_regs_def)
  have "drop_own_uses s (OpNode p) = Some (map RegionNode (op_regions op), s4)"
    using op op2 op4 a(1,2) b(1,2) by (simp add: drop_own_uses_def put_vopds_def put_bopds_def)
  moreover have "dropped {p} s s4"
    unfolding dropped_def
  proof (intro conjI allI)
    show "ctx_ok s4" using ctx_ok_keep[OF s ok4 skeleton_shape[OF sk]] .
    show "skeleton s4 = skeleton s" by (rule sk)
    show "use_counter s4 = use_counter s" using a(6) b(5) by simp
    show "vopds s4 q = (if q \<in> {p} then map_option (\<lambda>_. []) (vopds s q) else vopds s q)" for q
      using f4(2) a(5) v by simp
    show "bopds s4 q = (if q \<in> {p} then map_option (\<lambda>_. []) (bopds s q) else bopds s q)" for q
      using b(4) f2(2) op by (simp add: bopds_def)
    show "without {p} (value_defnode s w) (value_defnode s4 w)" for w
      using a(8) f4(3) by (simp add: api_defnode)
    show "without {p} (block_defnode s c) (block_defnode s4 c)" for c
      using b(7) f2(1) by (simp add: api_defnode)
  qed
  ultimately show ?thesis by blast
qed

definition node_ops :: "ir_node list \<Rightarrow> op_ptr set" where
  "node_ops ns = {p. OpNode p \<in> set ns}"

lemma node_ops_simps [simp]:
  "node_ops [] = {}" "node_ops (OpNode p # ns) = insert p (node_ops ns)"
  "node_ops (BlockNode b # ns) = node_ops ns" "node_ops (RegionNode r # ns) = node_ops ns"
  "node_ops (ns @ ms) = node_ops ns \<union> node_ops ms"
  by (auto simp: node_ops_def)

lemma drop_own:
  assumes s: "ctx_ok s" and c: "child_nodes s n = Some ns"
  shows "\<exists>s'. drop_own_uses s n = Some (ns, s') \<and> dropped (node_ops [n]) s s'"
proof (cases n)
  case (OpNode p)
  then obtain op where "operations s p = Some op" "ns = map RegionNode (op_regions op)" using c by (auto simp: op_regs_def)
  then show ?thesis using drop_own_op[OF s] OpNode by simp
qed (use c dropped_refl[OF s] in \<open>auto simp: drop_own_uses_def\<close>)

lemma drop_all_uses_Cons:
  "drop_all_uses s (n # ns) =
     Option.bind (drop_own_uses s n) (\<lambda>(children, s). Option.bind (drop_all_uses s children) (\<lambda>s. drop_all_uses s ns))"
  by (subst drop_all_uses.simps) simp

lemma drop_all_uses_Nil [simp]: "drop_all_uses s [] = Some s"
  by (subst drop_all_uses.simps) simp

lemma drop_tree:
  fixes s :: "('ty, 'c, 'a) ctx"
  assumes "is_ir_tree s t" and "ctx_ok s"
  shows "\<exists>s'. dropped (node_ops (tree_nodes t)) s s'
    \<and> (\<forall>ns. drop_all_uses s (it_node t # ns) = drop_all_uses s' ns)"
  using assms
proof (induction t arbitrary: s)
  case (IrTree n ts)
  have c: "child_nodes s n = Some (map it_node ts)" using IrTree.prems(1) by simp
  obtain s1 where s1: "drop_own_uses s n = Some (map it_node ts, s1)" "dropped (node_ops [n]) s s1"
    using drop_own[OF IrTree.prems(2) c] by blast
  have trees: "\<forall>t \<in> set ts. is_ir_tree s1 t"
    using IrTree.prems(1) is_ir_tree_shape[OF droppedD(4)[OF s1(2)]] by simp
  have "\<exists>s'. dropped (node_ops (concat (map tree_nodes us))) s0 s' \<and> drop_all_uses s0 (map it_node us) = Some s'"
    if "set us \<subseteq> set ts" "\<forall>t \<in> set us. is_ir_tree s0 t" "ctx_ok s0" for us and s0 :: "('ty, 'c, 'a) ctx"
    using that
  proof (induction us arbitrary: s0)
    case Nil
    then show ?case using dropped_refl[of s0] by simp
  next
    case (Cons u us)
    have u: "u \<in> set ts" "is_ir_tree s0 u" using Cons.prems by simp_all
    obtain s2 where s2: "dropped (node_ops (tree_nodes u)) s0 s2"
        "\<forall>ns. drop_all_uses s0 (it_node u # ns) = drop_all_uses s2 ns"
      using IrTree.IH[OF u Cons.prems(3)] by blast
    have "\<forall>t \<in> set us. is_ir_tree s2 t" using Cons.prems(2) is_ir_tree_shape[OF droppedD(4)[OF s2(1)]] by simp
    then obtain s3 where s3: "dropped (node_ops (concat (map tree_nodes us))) s2 s3"
        "drop_all_uses s2 (map it_node us) = Some s3"
      using Cons.IH[of s2] Cons.prems(1) droppedD(1)[OF s2(1)] by auto
    show ?case using dropped_trans[OF s2(1) s3(1)] s2(2) s3(2) by (intro exI[of _ s3]) simp
  qed
  then obtain s2 where s2: "dropped (node_ops (concat (map tree_nodes ts))) s1 s2"
      "drop_all_uses s1 (map it_node ts) = Some s2"
    using trees droppedD(1)[OF s1(2)] by blast
  have "node_ops (tree_nodes (IrTree n ts)) = node_ops [n] \<union> node_ops (concat (map tree_nodes ts))"
    using node_ops_simps(5)[of "[n]" "concat (map tree_nodes ts)"] by simp
  then show ?case using dropped_trans[OF s1(2) s2(1)] s1(1) s2(2)
    by (intro exI[of _ s2]) (simp add: drop_all_uses_Cons)
qed

section \<open>Removing a set of nodes\<close>

definition ll_remove :: "'n set \<Rightarrow> 'k set \<Rightarrow> ('n, 'k) ll_store \<Rightarrow> ('n, 'k) ll_store" where
  "ll_remove A B l = \<lparr>nodes = (\<lambda>n. if n \<in> A then None else nodes l n), roots = (\<lambda>c. if c \<in> B then None else roots l c)\<rparr>"

definition remove_nodes :: "ir_node set \<Rightarrow> ('ty, 'c, 'a) ctx \<Rightarrow> ('ty, 'c, 'a) ctx" where
  "remove_nodes N s = s\<lparr>
     operations := (\<lambda>p. if OpNode p \<in> N then None else operations s p),
     basic_blocks := (\<lambda>b. if BlockNode b \<in> N then None else basic_blocks s b),
     regions := (\<lambda>r. if RegionNode r \<in> N then None else regions s r),
     op_links := ll_remove (OpNode -` N) (BlockNode -` N) (op_links s),
     block_links := ll_remove (BlockNode -` N) (RegionNode -` N) (block_links s)\<rparr>"

lemma ll_remove_ll_remove: "ll_remove A B (ll_remove A' B' l) = ll_remove (A' \<union> A) (B' \<union> B) l"
  by (auto simp: ll_remove_def fun_eq_iff)

lemma ll_remove_empty [simp]: "ll_remove {} {} l = l"
  by (simp add: ll_remove_def)

lemma remove_nodes_comp: "remove_nodes M (remove_nodes N s) = remove_nodes (N \<union> M) s"
  by (auto simp: remove_nodes_def ll_remove_ll_remove fun_eq_iff)

lemma remove_nodes_empty [simp]: "remove_nodes {} s = s"
  by (simp add: remove_nodes_def)

lemma arena_remove_nodes: "arena_remove s n = remove_nodes {n} s"
  by (cases n) (auto simp: arena_remove_def remove_nodes_def ll_remove_def fun_eq_iff)

lemma ll_remove_list:
  assumes "ll_inv l L" and "L c = Some xs" and "c \<notin> B" and "set xs \<inter> A = {}"
  shows "ll_list (ll_remove A B l) c xs"
proof -
  have l: "ll_list l c xs" using ll_invD(1)[OF assms(1,2)] .
  have "seg (ll_remove A B l) c None xs None = seg l c None xs None"
    using assms(4) by (intro seg_cong) (auto simp: ll_remove_def)
  then show ?thesis using l assms(3) by (simp add: ll_list_def ll_remove_def)
qed

lemma ll_remove_inv:
  assumes inv: "ll_inv l L" and down: "\<And>c xs x. L c = Some xs \<Longrightarrow> x \<in> set xs \<Longrightarrow> c \<in> B \<longleftrightarrow> x \<in> A"
  shows "ll_inv (ll_remove A B l) (\<lambda>c. if c \<in> B then None else L c)"
  unfolding ll_inv_def
proof (intro conjI allI impI)
  have "dom (roots l) = dom L" using inv by (simp add: ll_inv_def)
  then show "dom (roots (ll_remove A B l)) = dom (\<lambda>c. if c \<in> B then None else L c)"
    by (auto simp: ll_remove_def dom_def set_eq_iff)
next
  fix c xs assume "(if c \<in> B then None else L c) = Some xs"
  then have c: "c \<notin> B" "L c = Some xs" by (auto split: if_splits)
  then show "ll_list (ll_remove A B l) c xs" using down[OF c(2)] by (intro ll_remove_list[OF inv c(2,1)]) blast
next
  fix n nd assume "nodes (ll_remove A B l) n = Some nd"
  then have n: "n \<notin> A" "nodes l n = Some nd" by (auto simp: ll_remove_def split: if_splits)
  show "ll_unlinked nd \<or> (\<exists>c xs. (if c \<in> B then None else L c) = Some xs \<and> n \<in> set xs)"
    using ll_invD(2)[OF inv n(2)] down n(1) by fastforce
qed

definition lists_ok :: "('ty, 'c, 'a) ctx \<Rightarrow> bool" where
  "lists_ok s \<longleftrightarrow> (\<exists>L. ll_inv (op_links s) L) \<and> (\<exists>M. ll_inv (block_links s) M)"

lemma collect_list:
  assumes inv: "ll_inv l L" and c: "do { it \<leftarrow> of_outcome (iter l c); iter_collect l it [] } = Some xs"
  shows "L c = Some xs"
proof -
  have "roots l c \<noteq> None"
  proof
    assume "roots l c = None"
    then show False using c by (simp add: iter_def deref_root_def of_outcome_def)
  qed
  then obtain ys where ys: "L c = Some ys" using ll_invD(3)[OF inv] by (metis domIff option.exhaust)
  then show ?thesis using ll_collect[OF inv ys] c by auto
qed

lemma collect_removed:
  assumes inv: "ll_inv l L" and c: "do { it \<leftarrow> of_outcome (iter l c); iter_collect l it [] } = Some xs"
    and "c \<notin> B" and "set xs \<inter> A = {}"
  shows "do { it \<leftarrow> of_outcome (iter (ll_remove A B l) c); iter_collect (ll_remove A B l) it [] } = Some xs"
  using ll_list_collect[OF ll_remove_list[OF inv collect_list[OF inv c] assms(3,4)]] by auto

lemma child_nodes_remove:
  assumes s: "lists_ok s" and c: "child_nodes s n = Some ns" and n: "n \<notin> N" and d: "set ns \<inter> N = {}"
  shows "child_nodes (remove_nodes N s) n = Some ns"
proof (cases n)
  case (OpNode p)
  then show ?thesis using c n by (simp add: op_regs_def remove_nodes_def)
next
  case (BlockNode b)
  obtain L where L: "ll_inv (op_links s) L" using s by (auto simp: lists_ok_def)
  obtain ps where ps: "block_ops s b = Some ps" "ns = map OpNode ps" using c BlockNode by auto
  have "block_ops (remove_nodes N s) b = Some ps"
    using collect_removed[OF L ps(1)[unfolded block_ops_def], of "BlockNode -` N" "OpNode -` N"] n d ps(2) BlockNode
    by (auto simp: block_ops_def remove_nodes_def)
  then show ?thesis using ps BlockNode by simp
next
  case (RegionNode r)
  obtain M where M: "ll_inv (block_links s) M" using s by (auto simp: lists_ok_def)
  obtain bs where bs: "region_blocks s r = Some bs" "ns = map BlockNode bs" using c RegionNode by auto
  have "region_blocks (remove_nodes N s) r = Some bs"
    using collect_removed[OF M bs(1)[unfolded region_blocks_def], of "RegionNode -` N" "BlockNode -` N"] n d bs(2) RegionNode
    by (auto simp: region_blocks_def remove_nodes_def)
  then show ?thesis using bs RegionNode by simp
qed

lemma sub_objects_child_nodes: "sub_objects s n = child_nodes s n"
  by (cases n) (auto simp: sub_objects_def op_regs_def map_option_case bind_eq_None_conv split: option.split bind_splits)

lemma dealloc_Nil [simp]: "dealloc s [] = Some s"
  by (subst dealloc.simps) simp

lemma dealloc_Cons:
  "dealloc s (n # ns) =
     Option.bind (child_nodes s n) (\<lambda>children. Option.bind (dealloc s children) (\<lambda>s. dealloc (remove_nodes {n} s) ns))"
  by (subst dealloc.simps) (simp add: sub_objects_child_nodes arena_remove_nodes)

lemma dealloc_tree:
  assumes "is_ir_tree s t" and "lists_ok s" and "distinct (tree_nodes t)" and "set (tree_nodes t) \<inter> N = {}"
  shows "dealloc (remove_nodes N s) (it_node t # ns) = dealloc (remove_nodes (N \<union> set (tree_nodes t)) s) ns"
  using assms
proof (induction t arbitrary: N ns)
  case (IrTree n ts)
  have c: "child_nodes s n = Some (map it_node ts)" using IrTree.prems(1) by simp
  have "set (map it_node ts) \<subseteq> set (concat (map tree_nodes ts))" by auto
  then have "child_nodes (remove_nodes N s) n = Some (map it_node ts)"
    using IrTree.prems(3,4) by (intro child_nodes_remove[OF IrTree.prems(2) c]) auto
  moreover have "dealloc (remove_nodes M s) (map it_node us) = Some (remove_nodes (M \<union> set (concat (map tree_nodes us))) s)"
    if "set us \<subseteq> set ts" "distinct (concat (map tree_nodes us))" "set (concat (map tree_nodes us)) \<inter> M = {}" for us M
    using that
  proof (induction us arbitrary: M)
    case (Cons u us)
    have u: "u \<in> set ts" "is_ir_tree s u" "distinct (tree_nodes u)" "set (tree_nodes u) \<inter> M = {}"
      using Cons.prems IrTree.prems(1) by auto
    have "dealloc (remove_nodes M s) (it_node u # map it_node us)
        = dealloc (remove_nodes (M \<union> set (tree_nodes u)) s) (map it_node us)"
      by (rule IrTree.IH[OF u(1,2) IrTree.prems(2) u(3,4)])
    also have "\<dots> = Some (remove_nodes (M \<union> set (tree_nodes u) \<union> set (concat (map tree_nodes us))) s)"
      by (rule Cons.IH) (use Cons.prems in auto)
    finally show ?case by (simp add: Un_assoc)
  qed simp
  from this[of ts N] have "dealloc (remove_nodes N s) (map it_node ts)
      = Some (remove_nodes (N \<union> set (concat (map tree_nodes ts))) s)"
    using IrTree.prems(3,4) by auto
  moreover have "N \<union> set (concat (map tree_nodes ts)) \<union> {n} = N \<union> set (tree_nodes (IrTree n ts))" by auto
  ultimately show ?case by (simp add: dealloc_Cons remove_nodes_comp del: tree_nodes.simps)
qed

end
