(* ===== verification/EraseSpec.thy ===== *)
theory EraseSpec
  imports IrErase
begin

text \<open>
  What erasing an operation, a block or a region leaves: a consistent context without the erased
  objects, if nothing outside uses what they define; and when it panics.
\<close>

section \<open>Removing keeps the invariants\<close>

fun entity_node :: "defining_entity \<Rightarrow> ir_node" where
  "entity_node (OpDef p) = OpNode p"
| "entity_node (BlockDef b) = BlockNode b"

text \<open>\<open>N\<close> has everything below its nodes, and nothing in a list of an object that stays.\<close>

definition removable :: "ir_node set \<Rightarrow> ('ty, 'c, 'a) ctx \<Rightarrow> bool" where
  "removable N s \<longleftrightarrow> (\<forall>n \<in> N. node_exists s n \<and> (\<forall>m. child s n m \<longrightarrow> m \<in> N))
     \<and> (\<forall>p b. OpNode p \<in> N \<longrightarrow> get_parent_block s p = Some (Some b) \<longrightarrow> BlockNode b \<in> N)
     \<and> (\<forall>b r. BlockNode b \<in> N \<longrightarrow> block_parent_region s b = Some (Some r) \<longrightarrow> RegionNode r \<in> N)"

text \<open>No use inside, and none of what is defined inside.\<close>

definition unused :: "ir_node set \<Rightarrow> ('ty, 'c, 'a) ctx \<Rightarrow> bool" where
  "unused N s \<longleftrightarrow> (\<forall>p xs. OpNode p \<in> N \<longrightarrow> vopds s p = Some xs \<longrightarrow> xs = [])
     \<and> (\<forall>p xs. OpNode p \<in> N \<longrightarrow> bopds s p = Some xs \<longrightarrow> xs = [])
     \<and> (\<forall>v us. entity_node (defining_entity v) \<in> N \<longrightarrow> value_defnode s v = Some us \<longrightarrow> us = [])
     \<and> (\<forall>b us. BlockNode b \<in> N \<longrightarrow> block_defnode s b = Some us \<longrightarrow> us = [])"

lemma def_use_restrict:
  assumes ok: "def_use_ok uses opds n"
    and opds: "\<And>p xs. P p \<Longrightarrow> opds p = Some xs \<Longrightarrow> xs = []" and uses: "\<And>d us. D d \<Longrightarrow> uses d = Some us \<Longrightarrow> us = []"
  shows "def_use_ok (\<lambda>d. if D d then None else uses d) (\<lambda>p. if P p then None else opds p) n"
  unfolding def_use_ok_def
proof (intro conjI allI impI ballI)
  note O = def_use_okD[OF ok]
  fix d us assume "(if D d then None else uses d) = Some us"
  then have d: "uses d = Some us" by (auto split: if_splits)
  show "distinct us" using O(1)[OF d] .
  fix u assume u: "u \<in> set us"
  obtain xs x where x: "opds (user_op u) = Some xs" "x \<in> set xs" "opd_uid x = use_uid u" "opd_def x = d"
    using O(2)[OF d u] by blast
  have "\<not> P (user_op u)" using opds[OF _ x(1)] x(2) by auto
  then show "\<exists>xs x. (if P (user_op u) then None else opds (user_op u)) = Some xs \<and> x \<in> set xs
      \<and> opd_uid x = use_uid u \<and> opd_def x = d" using x by auto
next
  note O = def_use_okD[OF ok]
  fix p xs assume "(if P p then None else opds p) = Some xs"
  then have p: "opds p = Some xs" by (auto split: if_splits)
  show "distinct (map opd_uid xs)" using O(3)[OF p] .
  fix x assume x: "x \<in> set xs"
  show "opd_uid x < n" using O(4)[OF p x] .
  obtain us where us: "uses (opd_def x) = Some us" "as_use x p \<in> set us" using O(5)[OF p x] by blast
  have "\<not> D (opd_def x)" using uses[OF _ us(1)] us(2) by auto
  then show "\<exists>us. (if D (opd_def x) then None else uses (opd_def x)) = Some us \<and> as_use x p \<in> set us" using us by auto
qed

lemma remove_views:
  "defs_view (remove_nodes N s) e = (if entity_node e \<in> N then None else defs_view s e)"
  "value_defnode (remove_nodes N s) v = (if entity_node (defining_entity v) \<in> N then None else value_defnode s v)"
  "vopds (remove_nodes N s) p = (if OpNode p \<in> N then None else vopds s p)"
  "bopds (remove_nodes N s) p = (if OpNode p \<in> N then None else bopds s p)"
  "block_defnode (remove_nodes N s) b = (if BlockNode b \<in> N then None else block_defnode s b)"
  "op_regs (remove_nodes N s) p = (if OpNode p \<in> N then None else op_regs s p)"
  "value_counter (remove_nodes N s) = value_counter s" "use_counter (remove_nodes N s) = use_counter s"
  "regions (remove_nodes N s) r = (if RegionNode r \<in> N then None else regions s r)"
  "node_exists (remove_nodes N s) n \<longleftrightarrow> node_exists s n \<and> n \<notin> N"
proof -
  show e: "defs_view (remove_nodes N s) e = (if entity_node e \<in> N then None else defs_view s e)" for e
    by (cases e) (auto simp: defs_view_def entity_defs_def remove_nodes_def)
  show "value_defnode (remove_nodes N s) v = (if entity_node (defining_entity v) \<in> N then None else value_defnode s v)"
    by (simp add: value_defnode_view e)
  show "node_exists (remove_nodes N s) n \<longleftrightarrow> node_exists s n \<and> n \<notin> N"
    by (cases n) (auto simp: remove_nodes_def)
qed (simp_all add: vopds_def bopds_def block_defnode_def op_regs_def remove_nodes_def)

lemma ir_ok_remove:
  assumes s: "ir_ok s" and u: "unused N s"
  shows "ir_ok (remove_nodes N s)"
proof -
  have f: "value_defnode (remove_nodes N s) = (\<lambda>v. if entity_node (defining_entity v) \<in> N then None else value_defnode s v)"
      "vopds (remove_nodes N s) = (\<lambda>p. if OpNode p \<in> N then None else vopds s p)"
      "bopds (remove_nodes N s) = (\<lambda>p. if OpNode p \<in> N then None else bopds s p)"
      "block_defnode (remove_nodes N s) = (\<lambda>b. if BlockNode b \<in> N then None else block_defnode s b)"
    by (rule ext, rule remove_views)+
  have "uids_ok (remove_nodes N s)"
    using s by (auto simp: ir_ok_def uids_ok_view remove_views split: if_splits)
  moreover have "du_ok value_api vopds (remove_nodes N s)"
    unfolding du_ok_def api_defnode f remove_views(8)
    by (rule def_use_restrict) (use s u in \<open>auto simp: ir_ok_def du_ok_def api_defnode unused_def\<close>)
  moreover have "du_ok block_api bopds (remove_nodes N s)"
    unfolding du_ok_def api_defnode f remove_views(8)
    by (rule def_use_restrict) (use s u in \<open>auto simp: ir_ok_def du_ok_def api_defnode unused_def\<close>)
  ultimately show ?thesis by (simp add: ir_ok_def)
qed

lemma dom_remove: "dom (\<lambda>x. if x \<in> A then None else f x) = dom f - A"
  by (auto simp: dom_def)

lemma remove_shape:
  "dom (operations (remove_nodes N s)) = dom (operations s) - OpNode -` N"
  "dom (basic_blocks (remove_nodes N s)) = dom (basic_blocks s) - BlockNode -` N"
  "dom (regions (remove_nodes N s)) = dom (regions s) - RegionNode -` N"
  "op_links (remove_nodes N s) = ll_remove (OpNode -` N) (BlockNode -` N) (op_links s)"
  "block_links (remove_nodes N s) = ll_remove (BlockNode -` N) (RegionNode -` N) (block_links s)"
  "dom (nodes (ll_remove A B l)) = dom (nodes l) - A" "dom (roots (ll_remove A C l)) = dom (roots l) - C"
  by (auto simp: remove_nodes_def ll_remove_def dom_def)

lemma remove_lists:
  assumes s: "ctx_ok s" and N: "removable N s" and L: "ll_inv (op_links s) L" and M: "ll_inv (block_links s) M"
  shows "ll_inv (op_links (remove_nodes N s)) (\<lambda>b. if BlockNode b \<in> N then None else L b)"
    and "ll_inv (block_links (remove_nodes N s)) (\<lambda>r. if RegionNode r \<in> N then None else M r)"
proof -
  have "b \<in> BlockNode -` N \<longleftrightarrow> p \<in> OpNode -` N" if l: "L b = Some ps" "p \<in> set ps" for b ps p
  proof -
    have "get_parent_block s p = Some (Some b)"
      using ll_inv_container[OF L l] by (auto simp: get_parent_block_def)
    then show ?thesis using N child_simps(3)[OF s, of b "OpNode p"] by (auto simp: removable_def)
  qed
  from ll_remove_inv[OF L this]
  show "ll_inv (op_links (remove_nodes N s)) (\<lambda>b. if BlockNode b \<in> N then None else L b)"
    unfolding remove_shape(4) by simp
  have "r \<in> RegionNode -` N \<longleftrightarrow> b \<in> BlockNode -` N" if l: "M r = Some bs" "b \<in> set bs" for r bs b
  proof -
    have "block_parent_region s b = Some (Some r)"
      using ll_inv_container[OF M l] by (auto simp: block_parent_region_def)
    then show ?thesis using N child_simps(2)[OF s, of r "BlockNode b"] by (auto simp: removable_def)
  qed
  from ll_remove_inv[OF M this]
  show "ll_inv (block_links (remove_nodes N s)) (\<lambda>r. if RegionNode r \<in> N then None else M r)"
    unfolding remove_shape(5) by simp
qed

text \<open>
  The result may be \<open>s'\<close>, which has the erased regions taken out of the lists of operations that stay; it is
  \<open>remove_nodes N s\<close> itself when there are none.
\<close>

lemma ctx_ok_remove:
  assumes s: "ctx_ok s" and N: "removable N s" and u: "unused N s"
    and s': "ir_views s' = ir_views (remove_nodes N s)" "dom (basic_blocks s') = dom (basic_blocks (remove_nodes N s))"
      "regions s' = regions (remove_nodes N s)" "op_links s' = op_links (remove_nodes N s)"
      "block_links s' = block_links (remove_nodes N s)"
      "\<And>p. op_regs s' p = (if OpNode p \<in> N then None else map_option (filter (\<lambda>r. RegionNode r \<notin> N)) (op_regs s p))"
  shows "ctx_ok s'"
proof -
  have ok: "ir_ok s" "shape_ok s" using s by (simp_all add: ctx_ok_def)
  have "ir_ok s'" using ir_ok_views[OF s'(1)] ir_ok_remove[OF ok(1) u] by simp
  moreover have "shape_ok s'"
    unfolding shape_ok_def
  proof (intro conjI allI impI)
    have "dom (op_regs s') = dom (op_regs s) - OpNode -` N" using s'(6) by (auto simp: dom_def)
    then have d: "dom (operations s') = dom (operations s) - OpNode -` N" by (simp add: dom_op_regs)
    show "dom (nodes (op_links s')) = dom (operations s')"
      using ok(2) by (simp add: d s'(4) remove_shape shape_ok_def)
    show "dom (roots (op_links s')) = dom (basic_blocks s')" "dom (nodes (block_links s')) = dom (basic_blocks s')"
      "dom (roots (block_links s')) = dom (regions s')"
      using ok(2) by (simp_all add: s'(2-5) remove_shape shape_ok_def)
    obtain L M where L: "ll_inv (op_links s) L" "ll_inv (block_links s) M" using ok(2) by (auto simp: shape_ok_def)
    show "\<exists>L. ll_inv (op_links s') L" "\<exists>L. ll_inv (block_links s') L"
      using remove_lists[OF s N L] s'(4,5) by auto
  next
    fix p rs assume "op_regs s' p = Some rs"
    then obtain rs0 where p: "OpNode p \<notin> N" "op_regs s p = Some rs0" "rs = filter (\<lambda>r. RegionNode r \<notin> N) rs0"
      using s'(6) by (auto split: if_splits)
    show "distinct rs" using op_regs_ok(1)[OF s p(2)] p(3) by simp
    show "\<forall>r \<in> set rs. regions s' r = Some \<lparr>parent_op = p\<rparr>"
      using op_regs_ok(2)[OF s p(2)] p(3) s'(3) by (auto simp: remove_views)
  next
    fix r reg assume "regions s' r = Some reg"
    then have r: "RegionNode r \<notin> N" "regions s r = Some reg" using s'(3) by (auto simp: remove_views split: if_splits)
    then have "child s (OpNode (parent_op reg)) (RegionNode r)" using child_simps(1)[OF s] by (cases reg) auto
    then have p: "OpNode (parent_op reg) \<notin> N" using N r(1) by (auto simp: removable_def)
    obtain rs where "op_regs s (parent_op reg) = Some rs" "r \<in> set rs" using ok(2) r(2) unfolding shape_ok_def by blast
    then show "\<exists>rs. op_regs s' (parent_op reg) = Some rs \<and> r \<in> set rs" using s'(6) p r(1) by simp
  qed
  ultimately show ?thesis by (simp add: ctx_ok_def)
qed

section \<open>Unlinking\<close>

lemma ll_unlink:
  assumes inv: "ll_inv l L" and n: "nodes l n = Some nd"
  shows "\<exists>linked l'. is_linked l n = Inr linked \<and> (if linked then unlink l n = Inr l' else l' = l)
    \<and> ll_inv l' (\<lambda>c. map_option (filter (\<lambda>x. x \<noteq> n)) (L c)) \<and> ll_free l' n"
proof (cases "ll_unlinked nd")
  case True
  then have free: "ll_free l n" using n by (simp add: ll_free_def ll_unlinked_iff)
  have "filter (\<lambda>x. x \<noteq> n) xs = xs" if "L c = Some xs" for c xs
    using ll_inv_free_notin[OF inv free that] by (induction xs) auto
  then have "(\<lambda>c. map_option (filter (\<lambda>x. x \<noteq> n)) (L c)) = L" by (auto simp: fun_eq_iff map_option_case split: option.split)
  moreover have "is_linked l n = Inr False" using n True by (simp add: is_linked_def deref_def ll_unlinked_iff)
  ultimately show ?thesis using inv free by (intro exI[of _ False] exI[of _ l]) simp
next
  case False
  obtain c ys zs where c: "L c = Some (ys @ n # zs)" using linked_position[OF inv n False] by blast
  obtain l' where l': "unlink l n = Inr l'" "ll_inv l' (L(c \<mapsto> ys @ zs))" "ll_free l' n" using unlink_refines[OF inv c] by blast
  have d: "distinct (ys @ n # zs)" using ll_invD(1)[OF inv c] by (simp add: ll_list_def)
  have "n \<notin> set xs" if "L d = Some xs" "d \<noteq> c" for d xs
    using ll_inv_disjoint[OF inv c that(1), of n] that(2) by auto
  moreover have "filter (\<lambda>x. x \<noteq> n) ys = ys" "filter (\<lambda>x. x \<noteq> n) zs = zs" using d by (auto simp: filter_id_conv)
  ultimately have "map_option (filter (\<lambda>x. x \<noteq> n)) (L e) = (L(c \<mapsto> ys @ zs)) e" for e
    using c by (cases "e = c"; cases "L e") (auto simp: filter_id_conv)
  then have "(\<lambda>c. map_option (filter (\<lambda>x. x \<noteq> n)) (L c)) = L(c \<mapsto> ys @ zs)" by (rule ext)
  moreover have "get_container nd = Some c" using ll_inv_container[OF inv c, of n] n by auto
  then have "is_linked l n = Inr True" using n by (simp add: is_linked_def deref_def)
  ultimately show ?thesis using l' by (intro exI[of _ True] exI[of _ l']) simp
qed

lemma op_links_views:
  "ir_views (s\<lparr>op_links := l\<rparr>) = ir_views s" "ir_views (s\<lparr>block_links := l\<rparr>) = ir_views s"
  by (simp_all add: ir_views_def defs_view_def[abs_def] vopds_def[abs_def] bopds_def[abs_def]
      block_defnode_def[abs_def] entity_defs_def cong: defining_entity.case_cong)

lemma op_links_conc: "op_conc (s\<lparr>op_links := l\<rparr>) = op_conc s" "op_conc (s\<lparr>block_links := l\<rparr>) = op_conc s"
  by (simp_all add: op_conc_def fun_eq_iff)

lemma blocks_list:
  assumes s: "ctx_ok s" and L: "ll_inv (op_links s) L"
  shows "block_ops s = L"
proof
  fix b show "block_ops s b = L b"
  proof (cases "L b")
    case None
    have "block_ops s b \<noteq> Some ps" for ps using collect_list[OF L, of b ps] None by (auto simp: block_ops_def)
    then show ?thesis using None by (metis not_None_eq)
  next
    case (Some ps)
    then show ?thesis using ll_collect[OF L Some] by (auto simp: block_ops_def)
  qed
qed

lemma regions_list:
  assumes s: "ctx_ok s" and M: "ll_inv (block_links s) M"
  shows "region_blocks s = M"
proof
  fix r show "region_blocks s r = M r"
  proof (cases "M r")
    case None
    have "region_blocks s r \<noteq> Some ps" for ps using collect_list[OF M, of r ps] None by (auto simp: region_blocks_def)
    then show ?thesis using None by (metis not_None_eq)
  next
    case (Some ps)
    then show ?thesis using ll_collect[OF M Some] by (auto simp: region_blocks_def)
  qed
qed

lemma unlink_op:
  assumes s: "ctx_ok s" and p: "operations s p \<noteq> None"
  shows "\<exists>linked l. of_outcome (is_linked (op_links s) p) = Some linked
    \<and> (if linked then of_outcome (unlink (op_links s) p) else Some (op_links s)) = Some l
    \<and> ctx_ok (s\<lparr>op_links := l\<rparr>) \<and> get_parent_block (s\<lparr>op_links := l\<rparr>) p = Some None
    \<and> block_ops (s\<lparr>op_links := l\<rparr>) = (\<lambda>b. map_option (filter (\<lambda>q. q \<noteq> p)) (block_ops s b))"
proof -
  obtain L where L: "ll_inv (op_links s) L" using s by (auto simp: ctx_ok_def shape_ok_def)
  obtain nd where nd: "nodes (op_links s) p = Some nd" using p s shape_okD(1)[of s p] by (auto simp: ctx_ok_def)
  obtain linked l where l: "is_linked (op_links s) p = Inr linked" "if linked then unlink (op_links s) p = Inr l else l = op_links s"
      "ll_inv l (\<lambda>c. map_option (filter (\<lambda>x. x \<noteq> p)) (L c))" "ll_free l p"
    using ll_unlink[OF L nd] by blast
  have ok: "ctx_ok (s\<lparr>op_links := l\<rparr>)"
  proof (cases linked)
    case True
    then have "ll_exec (op_links s) (Unlink p) = Inr l" using l(2) by simp
    from links_good[OF s this] show ?thesis by (simp add: good_step_def)
  next
    case False
    then show ?thesis using l(2) s by simp
  qed
  have "block_ops (s\<lparr>op_links := l\<rparr>) = (\<lambda>b. map_option (filter (\<lambda>q. q \<noteq> p)) (block_ops s b))"
    using blocks_list[OF ok, of "\<lambda>c. map_option (filter (\<lambda>x. x \<noteq> p)) (L c)"] blocks_list[OF s L] l(3) by simp
  then show ?thesis using l ok
    by (intro exI[of _ linked] exI[of _ l]) (auto simp: get_parent_block_def ll_free_def)
qed

lemma unlink_block_ok:
  assumes s: "ctx_ok s" and b: "basic_blocks s b \<noteq> None"
  shows "\<exists>linked l. of_outcome (is_linked (block_links s) b) = Some linked
    \<and> (if linked then of_outcome (unlink (block_links s) b) else Some (block_links s)) = Some l
    \<and> ctx_ok (s\<lparr>block_links := l\<rparr>) \<and> block_parent_region (s\<lparr>block_links := l\<rparr>) b = Some None
    \<and> region_blocks (s\<lparr>block_links := l\<rparr>) = (\<lambda>r. map_option (filter (\<lambda>c. c \<noteq> b)) (region_blocks s r))"
proof -
  obtain L where L: "ll_inv (block_links s) L" using s by (auto simp: ctx_ok_def shape_ok_def)
  obtain nd where nd: "nodes (block_links s) b = Some nd" using b s shape_okD(3)[of s b] by (auto simp: ctx_ok_def)
  obtain linked l where l: "is_linked (block_links s) b = Inr linked" "if linked then unlink (block_links s) b = Inr l else l = block_links s"
      "ll_inv l (\<lambda>c. map_option (filter (\<lambda>x. x \<noteq> b)) (L c))" "ll_free l b"
    using ll_unlink[OF L nd] by blast
  have ok: "ctx_ok (s\<lparr>block_links := l\<rparr>)"
  proof (cases linked)
    case True
    then have "ll_exec (block_links s) (Unlink b) = Inr l" using l(2) by simp
    from block_list_good[OF s this] show ?thesis by (simp add: good_step_def)
  next
    case False
    then show ?thesis using l(2) s by simp
  qed
  have "region_blocks (s\<lparr>block_links := l\<rparr>) = (\<lambda>r. map_option (filter (\<lambda>c. c \<noteq> b)) (region_blocks s r))"
    using regions_list[OF ok, of "\<lambda>c. map_option (filter (\<lambda>x. x \<noteq> b)) (L c)"] regions_list[OF s L] l(3) by simp
  then show ?thesis using l ok
    by (intro exI[of _ linked] exI[of _ l]) (auto simp: block_parent_region_def ll_free_def)
qed

section \<open>What is erased\<close>

definition below :: "('ty, 'c, 'a) ctx \<Rightarrow> ir_node \<Rightarrow> ir_node set" where
  "below s n = {m. (child s)\<^sup>*\<^sup>* n m}"

lemma below_self [simp]: "n \<in> below s n"
  by (simp add: below_def)

lemma below_child: "m \<in> below s n \<Longrightarrow> child s m k \<Longrightarrow> k \<in> below s n"
  by (auto simp: below_def)

lemma below_parent: "ctx_ok s \<Longrightarrow> m \<in> below s n \<Longrightarrow> m \<noteq> n \<Longrightarrow> child s k m \<Longrightarrow> k \<in> below s n"
  unfolding below_def by (auto elim: rtranclp.cases dest: child_unique)

lemma below_exists: "ctx_ok s \<Longrightarrow> node_exists s n \<Longrightarrow> m \<in> below s n \<Longrightarrow> node_exists s m"
  unfolding below_def by (auto elim: rtranclp.cases dest: child_exists)

lemma below_acyclic: "ctx_ok s \<Longrightarrow> ir_finite s \<Longrightarrow> m \<in> below s n \<Longrightarrow> \<not> child s m n"
  using child_acyclic[of s n] rtranclp_into_tranclp1[of "child s" n m n] by (auto simp: below_def)

lemma below_tree:
  assumes "ctx_ok s" and "ir_finite s" and "node_exists s n"
  obtains t where "it_node t = n" and "is_ir_tree s t" and "set (tree_nodes t) = below s n" and "distinct (tree_nodes t)"
proof -
  obtain t where "it_node t = n" "is_ir_tree s t" using ir_tree_exists[OF assms] by blast
  then show thesis using that tree_nodes_reached[of s t] tree_nodes_distinct[OF assms(1,2), of t]
    by (auto simp: below_def)
qed

text \<open>Nothing outside \<open>N\<close> uses a value or block that \<open>N\<close> defines.\<close>

definition private_uses :: "ir_node set \<Rightarrow> ('ty, 'c, 'a) ctx \<Rightarrow> bool" where
  "private_uses N s \<longleftrightarrow>
     (\<forall>v us u. entity_node (defining_entity v) \<in> N \<longrightarrow> value_defnode s v = Some us \<longrightarrow> u \<in> set us \<longrightarrow> OpNode (user_op u) \<in> N)
     \<and> (\<forall>b us u. BlockNode b \<in> N \<longrightarrow> block_defnode s b = Some us \<longrightarrow> u \<in> set us \<longrightarrow> OpNode (user_op u) \<in> N)"

definition inner_ops :: "ir_node set \<Rightarrow> op_ptr set" where
  "inner_ops N = {p. OpNode p \<in> N}"

text \<open>\<open>s'\<close> is \<open>s\<close> without the nodes \<open>N\<close>: what stays keeps its operands, successors, children and their order, and
  has lost the uses by erased operations.\<close>

definition erased :: "ir_node set \<Rightarrow> ('ty, 'c, 'a) ctx \<Rightarrow> ('ty, 'c, 'a) ctx \<Rightarrow> bool" where
  "erased N s s' \<longleftrightarrow> (\<forall>m. node_exists s' m \<longleftrightarrow> node_exists s m \<and> m \<notin> N)
     \<and> (\<forall>m. m \<notin> N \<longrightarrow> child_nodes s' m = map_option (filter (\<lambda>k. k \<notin> N)) (child_nodes s m))
     \<and> (\<forall>q. OpNode q \<notin> N \<longrightarrow> vopds s' q = vopds s q \<and> bopds s' q = bopds s q)
     \<and> (\<forall>v. entity_node (defining_entity v) \<notin> N \<longrightarrow> without (inner_ops N) (value_defnode s v) (value_defnode s' v))
     \<and> (\<forall>b. BlockNode b \<notin> N \<longrightarrow> without (inner_ops N) (block_defnode s b) (block_defnode s' b))
     \<and> (\<forall>q. OpNode q \<notin> N \<longrightarrow> op_conc s' q = op_conc s q)"

lemma drop_below:
  assumes "ctx_ok s" and "ir_finite s" and "node_exists s n"
  shows "\<exists>s1. drop_all_uses s [n] = Some s1 \<and> dropped (inner_ops (below s n)) s s1"
proof -
  obtain t where t: "it_node t = n" "is_ir_tree s t" "set (tree_nodes t) = below s n" by (rule below_tree[OF assms])
  then have "node_ops (tree_nodes t) = inner_ops (below s n)" by (simp add: node_ops_def inner_ops_def)
  then show ?thesis using drop_tree[OF t(2) assms(1)] t(1) by auto
qed

lemma without_private:
  assumes "without P us us'" and "us' = Some xs" and "\<And>ys u. us = Some ys \<Longrightarrow> u \<in> set ys \<Longrightarrow> user_op u \<in> P"
  shows "xs = []"
proof -
  obtain ys where ys: "us = Some ys" using assms(1,2) by (cases us) (auto simp: without_def)
  then have "set xs = {u \<in> set ys. user_op u \<notin> P}" using assms(1,2) by (simp add: without_def)
  also have "\<dots> = {}" using assms(3)[OF ys] by blast
  finally show ?thesis by simp
qed

lemma dropped_unused:
  assumes d: "dropped (inner_ops N) s s1" and p: "private_uses N s"
  shows "unused N s1"
  unfolding unused_def
proof (intro conjI allI impI)
  show "xs = []" if "OpNode p \<in> N" "vopds s1 p = Some xs" for p xs
    using droppedD(5)[OF d, of p] that by (cases "vopds s p") (auto simp: inner_ops_def)
  show "xs = []" if "OpNode p \<in> N" "bopds s1 p = Some xs" for p xs
    using droppedD(6)[OF d, of p] that by (cases "bopds s p") (auto simp: inner_ops_def)
  show "us = []" if v: "entity_node (defining_entity v) \<in> N" "value_defnode s1 v = Some us" for v us
    by (rule without_private[OF droppedD(7)[OF d] v(2)]) (use p v(1) in \<open>auto simp: private_uses_def inner_ops_def\<close>)
  show "us = []" if b: "BlockNode b \<in> N" "block_defnode s1 b = Some us" for b us
    by (rule without_private[OF droppedD(8)[OF d] b(2)]) (use p b(1) in \<open>auto simp: private_uses_def inner_ops_def\<close>)
qed

text \<open>The last steps: \<open>s1\<close> is the context after dropping, \<open>s2\<close> after taking the root \<open>n\<close> out of its list.\<close>

lemma is_ir_tree_cong:
  assumes "\<forall>m \<in> set (tree_nodes t). child_nodes s' m = child_nodes s m"
  shows "is_ir_tree s' t \<longleftrightarrow> is_ir_tree s t"
  using assms by (induction t) auto

lemma taken_inside:
  assumes s: "ctx_ok s" "ir_finite s"
    and c: "\<And>m. child_nodes s2 m = map_option (filter (\<lambda>k. k \<noteq> n)) (child_nodes s m)" and m: "m \<in> below s n"
  shows "child_nodes s2 m = child_nodes s m"
proof -
  have "n \<notin> set ns" if "child_nodes s m = Some ns" for ns
    using below_acyclic[OF s m] that by (auto simp: child_def)
  then show ?thesis using c[of m] by (cases "child_nodes s m") (auto simp: filter_id_conv)
qed

lemma dealloc_below:
  assumes s: "ctx_ok s" "ir_finite s" "node_exists s n" and l: "lists_ok s2"
    and c: "\<And>m. child_nodes s2 m = map_option (filter (\<lambda>k. k \<noteq> n)) (child_nodes s m)"
  shows "dealloc s2 [n] = Some (remove_nodes (below s n) s2)"
proof -
  obtain t where t: "it_node t = n" "is_ir_tree s t" "set (tree_nodes t) = below s n" "distinct (tree_nodes t)"
    by (rule below_tree[OF s])
  have "is_ir_tree s2 t" using is_ir_tree_cong[of t s2 s] taken_inside[OF s(1,2) c] t(2,3) by simp
  from dealloc_tree[OF this l t(4), of "{}" "[]"] show ?thesis using t(1,3) by simp
qed

lemma children_left:
  assumes s: "ctx_ok s" "ir_finite s" and l: "lists_ok s2" and m: "m \<notin> below s n"
    and c: "\<And>m. child_nodes s2 m = map_option (filter (\<lambda>k. k \<noteq> n)) (child_nodes s m)"
    and ok: "ctx_ok s'" and e: "\<And>m. node_exists s' m \<longleftrightarrow> node_exists s m \<and> m \<notin> below s n"
    and s': "\<And>ns. child_nodes (remove_nodes (below s n) s2) m = Some ns \<Longrightarrow> child_nodes s' m = Some ns"
  shows "child_nodes s' m = map_option (filter (\<lambda>k. k \<notin> below s n)) (child_nodes s m)"
proof (cases "child_nodes s m")
  case None
  then show ?thesis using e[of m] child_nodes_exist[OF s(1), of m] child_nodes_exist[OF ok, of m] by simp
next
  case (Some ns)
  have "k \<in> below s n \<longleftrightarrow> k = n" if "k \<in> set ns" for k
    using below_parent[OF s(1), of k n m] m that Some by (auto simp: child_def)
  then have f: "filter (\<lambda>k. k \<notin> below s n) ns = filter (\<lambda>k. k \<noteq> n) ns" "set (filter (\<lambda>k. k \<noteq> n) ns) \<inter> below s n = {}"
    by (auto intro: filter_cong)
  have "child_nodes s2 m = Some (filter (\<lambda>k. k \<noteq> n) ns)" using c[of m] Some by simp
  from child_nodes_remove[OF l this m f(2)] have "child_nodes s' m = Some (filter (\<lambda>k. k \<noteq> n) ns)" by (rule s')
  then show ?thesis using Some f(1) by simp
qed

lemma inner_ops_node: "p \<in> inner_ops N \<longleftrightarrow> OpNode p \<in> N"
  by (simp add: inner_ops_def)

lemma erased_views:
  assumes d: "dropped (inner_ops N) s s1" and v: "ir_views s2 = ir_views s1" "op_conc s2 = op_conc s1"
  shows "OpNode q \<notin> N \<Longrightarrow> vopds (remove_nodes N s2) q = vopds s q \<and> bopds (remove_nodes N s2) q = bopds s q"
    and "entity_node (defining_entity w) \<notin> N
      \<Longrightarrow> without (inner_ops N) (value_defnode s w) (value_defnode (remove_nodes N s2) w)"
    and "BlockNode b \<notin> N \<Longrightarrow> without (inner_ops N) (block_defnode s b) (block_defnode (remove_nodes N s2) b)"
    and "OpNode q \<notin> N \<Longrightarrow> op_conc (remove_nodes N s2) q = op_conc s q"
proof -
  show "OpNode q \<notin> N \<Longrightarrow> op_conc (remove_nodes N s2) q = op_conc s q"
    using fun_cong[OF skeleton_conc[OF droppedD(2)[OF d]], of q] fun_cong[OF v(2), of q] by (simp add: op_conc_def remove_nodes_def)
  have f: "vopds s2 = vopds s1" "bopds s2 = bopds s1" "value_defnode s2 w = value_defnode s1 w" "block_defnode s2 = block_defnode s1"
    using v(1) by (simp_all add: ir_views_def value_defnode_view)
  show "OpNode q \<notin> N \<Longrightarrow> vopds (remove_nodes N s2) q = vopds s q \<and> bopds (remove_nodes N s2) q = bopds s q"
    using droppedD(5,6)[OF d, of q] f(1,2) by (simp add: remove_views inner_ops_node)
  show "entity_node (defining_entity w) \<notin> N
      \<Longrightarrow> without (inner_ops N) (value_defnode s w) (value_defnode (remove_nodes N s2) w)"
    using droppedD(7)[OF d, of w] f(3) by (simp add: remove_views)
  show "BlockNode b \<notin> N \<Longrightarrow> without (inner_ops N) (block_defnode s b) (block_defnode (remove_nodes N s2) b)"
    using droppedD(8)[OF d, of b] f(4) by (simp add: remove_views)
qed

text \<open>Operations and blocks: the root is unlinked, and the context is consistent in between.\<close>

lemma erase_unlinked:
  assumes s: "ctx_ok s" "ir_finite s" "node_exists s n" and d: "dropped (inner_ops (below s n)) s s1"
    and p: "private_uses (below s n) s" and s2: "ctx_ok s2" "ir_views s2 = ir_views s1" "op_conc s2 = op_conc s1"
    and e: "\<And>m. node_exists s2 m = node_exists s m"
    and c: "\<And>m. child_nodes s2 m = map_option (filter (\<lambda>k. k \<noteq> n)) (child_nodes s m)"
  shows "dealloc s2 [n] = Some (remove_nodes (below s n) s2) \<and> ctx_ok (remove_nodes (below s n) s2)
    \<and> erased (below s n) s (remove_nodes (below s n) s2)"
proof -
  let ?N = "below s n"
  have l: "lists_ok s2" using s2(1) by (simp add: ctx_ok_def shape_ok_def lists_ok_def)
  have sub: "child s m k" "k \<noteq> n" if "child s2 m k" for m k using that c[of m] by (auto simp: child_def)
  have rem: "removable ?N s2"
    unfolding removable_def
  proof (intro conjI ballI allI impI)
    show "node_exists s2 m" if "m \<in> ?N" for m using below_exists[OF s(1,3) that] e by simp
    show "k \<in> ?N" if "m \<in> ?N" "child s2 m k" for m k using below_child[OF that(1) sub(1)[OF that(2)]] .
    show "BlockNode b \<in> ?N" if "OpNode q \<in> ?N" "get_parent_block s2 q = Some (Some b)" for q b
    proof -
      have k: "child s2 (BlockNode b) (OpNode q)" using that(2) child_simps(3)[OF s2(1)] by simp
      show ?thesis using below_parent[OF s(1) that(1) sub(2)[OF k] sub(1)[OF k]] .
    qed
    show "RegionNode r \<in> ?N" if "BlockNode b \<in> ?N" "block_parent_region s2 b = Some (Some r)" for b r
    proof -
      have k: "child s2 (RegionNode r) (BlockNode b)" using that(2) child_simps(2)[OF s2(1)] by simp
      show ?thesis using below_parent[OF s(1) that(1) sub(2)[OF k] sub(1)[OF k]] .
    qed
  qed
  have "unused ?N s1" by (rule dropped_unused[OF d p])
  then have u: "unused ?N s2" using s2(2) by (simp add: unused_def ir_views_def value_defnode_view)
  have "op_regs (remove_nodes ?N s2) q = (if OpNode q \<in> ?N then None else map_option (filter (\<lambda>r. RegionNode r \<notin> ?N)) (op_regs s2 q))" for q
  proof (cases "OpNode q \<in> ?N")
    case False
    have "RegionNode r \<notin> ?N" if "op_regs s2 q = Some rs" "r \<in> set rs" for rs r
    proof
      assume "RegionNode r \<in> ?N"
      moreover have k: "child s2 (OpNode q) (RegionNode r)" using that by (simp add: child_def)
      ultimately show False using below_parent[OF s(1) _ sub(2)[OF k] sub(1)[OF k]] False by blast
    qed
    then show ?thesis using False by (cases "op_regs s2 q") (simp_all add: remove_views filter_id_conv)
  qed (simp add: remove_views)
  then have ok: "ctx_ok (remove_nodes ?N s2)" by (rule ctx_ok_remove[OF s2(1) rem u refl refl refl refl refl])
  have ex: "node_exists (remove_nodes ?N s2) m \<longleftrightarrow> node_exists s m \<and> m \<notin> ?N" for m
    using remove_views(10)[of ?N s2 m] e by simp
  have "child_nodes (remove_nodes ?N s2) m = map_option (filter (\<lambda>k. k \<notin> ?N)) (child_nodes s m)" if "m \<notin> ?N" for m
    by (rule children_left[OF s(1,2) l that c ok ex])
  then have "erased ?N s (remove_nodes ?N s2)"
    unfolding erased_def using ex erased_views[OF d s2(2,3)] by blast
  then show ?thesis using dealloc_below[OF s l c] ok by simp
qed

lemma op_has_use_iff:
  assumes s: "ctx_ok s" and op: "operations s p = Some op"
  shows "op_has_use s p = Some (\<exists>v us. defining_entity v = OpDef p \<and> value_defnode s v = Some us \<and> us \<noteq> [])"
proof -
  have u: "uids_ok s" using s by (simp add: ctx_ok_def ir_ok_def)
  have e: "entity_defs s (OpDef p) = Some (results op)" using op by (simp add: entity_defs_def)
  have "list_ex (\<lambda>d. vd_uses d \<noteq> []) (results op) \<longleftrightarrow> (\<exists>v us. defining_entity v = OpDef p \<and> value_defnode s v = Some us \<and> us \<noteq> [])"
  proof
    assume "list_ex (\<lambda>d. vd_uses d \<noteq> []) (results op)"
    then obtain i where i: "i < length (results op)" "vd_uses (results op ! i) \<noteq> []" by (auto simp: list_ex_length)
    then show "\<exists>v us. defining_entity v = OpDef p \<and> value_defnode s v = Some us \<and> us \<noteq> []"
      using value_defnode_nth(1)[OF u e i(1)] by force
  next
    assume "\<exists>v us. defining_entity v = OpDef p \<and> value_defnode s v = Some us \<and> us \<noteq> []"
    then obtain v us where v: "defining_entity v = OpDef p" "value_defnode s v = Some us" "us \<noteq> []" by blast
    then obtain i where "position (\<lambda>d. vd_uid d = val_uid v) (results op) = Some i" "us = vd_uses (results op ! i)"
      using e by (auto simp: value_defnode_alt)
    then show "list_ex (\<lambda>d. vd_uses d \<noteq> []) (results op)" using v(3) by (auto simp: list_ex_length position_Some)
  qed
  then show ?thesis using op by (simp add: op_has_use_def)
qed

section \<open>Erasing operations, blocks and regions\<close>

lemma filter_other [simp]:
  "filter (\<lambda>k. k \<noteq> OpNode p) (map OpNode ps) = map OpNode (filter (\<lambda>q. q \<noteq> p) ps)"
  "filter (\<lambda>k. k \<noteq> BlockNode b) (map BlockNode bs) = map BlockNode (filter (\<lambda>c. c \<noteq> b) bs)"
  "filter (\<lambda>k. k \<noteq> RegionNode r) (map RegionNode rs) = map RegionNode (filter (\<lambda>q. q \<noteq> r) rs)"
  "filter (\<lambda>k. k \<noteq> OpNode p) (map RegionNode rs) = map RegionNode rs"
  "filter (\<lambda>k. k \<noteq> OpNode p) (map BlockNode bs) = map BlockNode bs"
  "filter (\<lambda>k. k \<noteq> BlockNode b) (map RegionNode rs) = map RegionNode rs"
  "filter (\<lambda>k. k \<noteq> BlockNode b) (map OpNode ps) = map OpNode ps"
  "filter (\<lambda>k. k \<noteq> RegionNode r) (map BlockNode bs) = map BlockNode bs"
  "filter (\<lambda>k. k \<noteq> RegionNode r) (map OpNode ps) = map OpNode ps"
  by (simp_all add: filter_map o_def)

lemma node_exists_shape:
  assumes "shape s' = shape s"
  shows "node_exists s' m = node_exists s m"
proof -
  have "dom (op_regs s') = dom (op_regs s)" "dom (basic_blocks s') = dom (basic_blocks s)" "regions s' = regions s"
    using assms by (simp_all add: shape_def)
  then show ?thesis by (cases m) (auto simp: dom_op_regs[symmetric] domIff[symmetric] simp del: domIff)
qed

lemma unusedD:
  "unused N s \<Longrightarrow> entity_node (defining_entity v) \<in> N \<Longrightarrow> value_defnode s v = Some us \<Longrightarrow> us = []"
  "unused N s \<Longrightarrow> BlockNode b \<in> N \<Longrightarrow> block_defnode s b = Some us \<Longrightarrow> us = []"
  unfolding unused_def by blast+

lemma unused_results:
  assumes "ctx_ok s" and "unused N s" and "OpNode p \<in> N" and "operations s p = Some op"
  shows "op_has_use s p = Some False"
proof -
  have "us = []" if "defining_entity v = OpDef p" "value_defnode s v = Some us" for v us
    using unusedD(1)[OF assms(2) _ that(2)] assms(3) that(1) by simp
  then show ?thesis using op_has_use_iff[OF assms(1,4)] by auto
qed

lemma op_erase:
  assumes s: "ctx_ok s" "ir_finite s" and p: "operations s p \<noteq> None" and pr: "private_uses (below s (OpNode p)) s"
  shows "\<exists>s'. erase s p = Some s' \<and> ctx_ok s' \<and> erased (below s (OpNode p)) s s'"
proof -
  let ?N = "below s (OpNode p)"
  have n: "node_exists s (OpNode p)" using p by simp
  obtain s1 where s1: "drop_all_uses s [OpNode p] = Some s1" "dropped (inner_ops ?N) s s1" using drop_below[OF s n] by blast
  note d = droppedD[OF s1(2)]
  obtain op where op: "operations s1 p = Some op" using node_exists_shape[OF d(4), of "OpNode p"] p by auto
  have use: "op_has_use s1 p = Some False"
    by (rule unused_results[OF d(1) dropped_unused[OF s1(2) pr] below_self op])
  obtain linked l where l: "of_outcome (is_linked (op_links s1) p) = Some linked"
      "(if linked then of_outcome (unlink (op_links s1) p) else Some (op_links s1)) = Some l"
      "ctx_ok (s1\<lparr>op_links := l\<rparr>)" "block_ops (s1\<lparr>op_links := l\<rparr>) = (\<lambda>b. map_option (filter (\<lambda>q. q \<noteq> p)) (block_ops s1 b))"
    using unlink_op[OF d(1), of p] op by auto
  let ?s2 = "s1\<lparr>op_links := l\<rparr>"
  have c: "child_nodes ?s2 m = map_option (filter (\<lambda>k. k \<noteq> OpNode p)) (child_nodes s m)" for m
    unfolding child_nodes_shape[OF d(4), symmetric] using l(4)
    by (cases m) (simp_all add: op_regs_def region_blocks_def option.map_comp o_def)
  have e: "node_exists ?s2 m = node_exists s m" for m
    using node_exists_shape[OF d(4), of m] by (cases m) auto
  have "dealloc ?s2 [OpNode p] = Some (remove_nodes ?N ?s2) \<and> ctx_ok (remove_nodes ?N ?s2)
      \<and> erased ?N s (remove_nodes ?N ?s2)"
    by (rule erase_unlinked[OF s n s1(2) pr l(3) op_links_views(1) op_links_conc(1) e c])
  then show ?thesis using s1(1) use l(1,2) by (simp add: erase_def)
qed

lemma op_erase_panics:
  assumes s: "ctx_ok s" "ir_finite s" and p: "operations s p \<noteq> None"
    and v: "defining_entity v = OpDef p" "value_defnode s v = Some us" "u \<in> set us" "OpNode (user_op u) \<notin> below s (OpNode p)"
  shows "erase s p = None"
proof -
  let ?N = "below s (OpNode p)"
  have n: "node_exists s (OpNode p)" using p by simp
  obtain s1 where s1: "drop_all_uses s [OpNode p] = Some s1" "dropped (inner_ops ?N) s s1" using drop_below[OF s n] by blast
  note d = droppedD[OF s1(2)]
  obtain op where op: "operations s1 p = Some op" using node_exists_shape[OF d(4), of "OpNode p"] p by auto
  obtain us1 where us1: "value_defnode s1 v = Some us1" "set us1 = {u \<in> set us. user_op u \<notin> inner_ops ?N}"
    using d(7)[of v] v(2) by (auto simp: without_def)
  then have "us1 \<noteq> []" using v(3,4) by (auto simp: inner_ops_def)
  then have "op_has_use s1 p = Some True" using op_has_use_iff[OF d(1) op] v(1) us1(1) by auto
  then show ?thesis using s1(1) by (simp add: erase_def)
qed

lemma block_erase_removes:
  assumes s: "ctx_ok s" "ir_finite s" and b: "basic_blocks s b \<noteq> None" and pr: "private_uses (below s (BlockNode b)) s"
  shows "\<exists>s'. block_erase s b = Some s' \<and> ctx_ok s' \<and> erased (below s (BlockNode b)) s s'"
proof -
  let ?N = "below s (BlockNode b)"
  have n: "node_exists s (BlockNode b)" using b by simp
  obtain s1 where s1: "drop_all_uses s [BlockNode b] = Some s1" "dropped (inner_ops ?N) s s1" using drop_below[OF s n] by blast
  note d = droppedD[OF s1(2)]
  obtain bb where bb: "basic_blocks s1 b = Some bb" using node_exists_shape[OF d(4), of "BlockNode b"] b by auto
  have u: "unused ?N s1" by (rule dropped_unused[OF s1(2) pr])
  have "block_defnode s1 b = Some (preds bb)" using bb by (simp add: block_defnode_def)
  then have pred: "has_pred s1 b = Some False"
    using unusedD(2)[OF u below_self] bb by (simp add: has_pred_def)
  have uok: "uids_ok s1" using d(1) by (simp add: ctx_ok_def ir_ok_def)
  have ed: "entity_defs s1 (BlockDef b) = Some (args bb)" using bb by (simp add: entity_defs_def)
  have "is_used s1 (arg_value b x) = Some False" if x: "x \<in> set (args bb)" for x
  proof -
    obtain i where i: "i < length (args bb)" "args bb ! i = x" using x by (auto simp: in_set_conv_nth)
    have "value_defnode s1 (arg_value b x) = Some (vd_uses x)"
      using value_defnode_nth(1)[OF uok ed i(1)] i(2) by (simp add: arg_value_def)
    moreover have "entity_node (defining_entity (arg_value b x)) \<in> ?N" by (simp add: arg_value_def)
    note unusedD(1)[OF u this calculation]
    ultimately show ?thesis by (simp add: is_used_def)
  qed
  then have "oany (is_used s1) (map (arg_value b) (args bb)) = Some False"
    using oany_Some[of "map (arg_value b) (args bb)" "is_used s1" "\<lambda>_. False"] by auto
  then have arg: "arguments s1 b = Some (map (arg_value b) (args bb))" "oany (is_used s1) (map (arg_value b) (args bb)) = Some False"
    using bb by (simp_all add: arguments_def)
  obtain ps where ps: "block_ops s1 b = Some ps" using block_ops_ok[OF d(1), of b] bb by auto
  have "op_has_use s1 q = Some False" if "q \<in> set ps" for q
  proof -
    have c: "child s1 (BlockNode b) (OpNode q)" using ps that by (simp add: child_def)
    have "child s1 = child s" by (simp add: child_def child_nodes_shape[OF d(4)] fun_eq_iff)
    then have "child s (BlockNode b) (OpNode q)" using c by simp
    then have q: "OpNode q \<in> ?N" using below_child below_self by blast
    obtain op where op: "operations s1 q = Some op" using child_exists[OF d(1) c] by auto
    show ?thesis by (rule unused_results[OF d(1) u q op])
  qed
  then have ops: "oany (op_has_use s1) ps = Some False" using oany_Some[of ps "op_has_use s1" "\<lambda>_. False"] by auto
  obtain linked l where l: "of_outcome (is_linked (block_links s1) b) = Some linked"
      "(if linked then of_outcome (unlink (block_links s1) b) else Some (block_links s1)) = Some l"
      "ctx_ok (s1\<lparr>block_links := l\<rparr>)" "region_blocks (s1\<lparr>block_links := l\<rparr>) = (\<lambda>r. map_option (filter (\<lambda>c. c \<noteq> b)) (region_blocks s1 r))"
    using unlink_block_ok[OF d(1), of b] bb by auto
  let ?s2 = "s1\<lparr>block_links := l\<rparr>"
  have c: "child_nodes ?s2 m = map_option (filter (\<lambda>k. k \<noteq> BlockNode b)) (child_nodes s m)" for m
    unfolding child_nodes_shape[OF d(4), symmetric] using l(4)
    by (cases m) (simp_all add: op_regs_def block_ops_def option.map_comp o_def)
  have e: "node_exists ?s2 m = node_exists s m" for m
    using node_exists_shape[OF d(4), of m] by (cases m) auto
  have "dealloc ?s2 [BlockNode b] = Some (remove_nodes ?N ?s2) \<and> ctx_ok (remove_nodes ?N ?s2)
      \<and> erased ?N s (remove_nodes ?N ?s2)"
    by (rule erase_unlinked[OF s n s1(2) pr l(3) op_links_views(2) op_links_conc(2) e c])
  then show ?thesis using s1(1) pred arg ps ops l(1,2) by (simp add: block_erase_def)
qed

lemma remove_views_cong: "ir_views s2 = ir_views s1 \<Longrightarrow> ir_views (remove_nodes N s2) = ir_views (remove_nodes N s1)"
  by (simp add: ir_views_def remove_views fun_eq_iff)

lemma filter_split: "distinct (ys @ x # zs) \<Longrightarrow> filter (\<lambda>y. y \<noteq> x) (ys @ x # zs) = ys @ zs"
proof -
  assume "distinct (ys @ x # zs)"
  then have "filter (\<lambda>y. y \<noteq> x) ys = ys" "filter (\<lambda>y. y \<noteq> x) zs = zs" by (auto simp: filter_id_conv)
  then show ?thesis by simp
qed

lemma filter_remove_at:
  assumes "distinct xs" and "i < length xs"
  shows "take i xs @ drop (Suc i) xs = filter (\<lambda>x. x \<noteq> xs ! i) xs"
  using filter_split[of "take i xs" "xs ! i" "drop (Suc i) xs"] assms
  unfolding id_take_nth_drop[OF assms(2), symmetric] by simp

lemma region_erase:
  assumes s: "ctx_ok s" "ir_finite s" and op: "operations s p = Some op" "i < length (op_regions op)"
    and r: "op_regions op ! i = r" and pr: "private_uses (below s (RegionNode r)) s"
  shows "\<exists>s'. erase_region s p i = Some s' \<and> ctx_ok s' \<and> erased (below s (RegionNode r)) s s'"
proof -
  let ?N = "below s (RegionNode r)"
  have rs: "op_regs s p = Some (op_regions op)" "r \<in> set (op_regions op)" using op r by (auto simp: op_regs_def)
  have reg: "regions s r = Some \<lparr>parent_op = p\<rparr>" using op_regs_ok(2)[OF s(1) rs(1)] rs(2) by simp
  then have n: "node_exists s (RegionNode r)" by simp
  obtain s1 where s1: "drop_all_uses s [RegionNode r] = Some s1" "dropped (inner_ops ?N) s s1" using drop_below[OF s n] by blast
  note d = droppedD[OF s1(2)]
  have regs: "op_regs s1 = op_regs s" using d(4) by (simp add: shape_def)
  then obtain op1 where op1: "operations s1 p = Some op1" "op_regions op1 = op_regions op"
    using rs(1) by (auto simp: op_regs_def fun_eq_iff) (metis map_option_eq_Some)
  let ?rs = "take i (op_regions op) @ drop (Suc i) (op_regions op)"
  let ?s2 = "s1\<lparr>operations := (operations s1)(p \<mapsto> op1\<lparr>op_regions := ?rs\<rparr>)\<rparr>"
  have f: "?rs = filter (\<lambda>q. q \<noteq> r) (op_regions op)"
    using filter_remove_at[OF op_regs_ok(1)[OF s(1) rs(1)] op(2)] r by simp
  have v: "ir_views ?s2 = ir_views s1" by (rule views_set_regions[OF op1(1)])
  have vc: "op_conc ?s2 = op_conc s1" using op1(1) by (simp add: op_conc_def fun_eq_iff)
  have r2: "op_regs ?s2 q = map_option (filter (\<lambda>k. k \<noteq> r)) (op_regs s q)" for q
  proof (cases "q = p")
    case True
    have "op_regs ?s2 p = Some ?rs" by (simp add: op_regs_def)
    then show ?thesis using rs(1) f True by simp
  next
    case False
    have "r \<notin> set ks" if "op_regs s q = Some ks" for ks using op_regs_ok(2)[OF s(1) that] reg False by auto
    then have "map_option (filter (\<lambda>k. k \<noteq> r)) (op_regs s q) = op_regs s q"
      by (cases "op_regs s q") (auto simp: filter_id_conv)
    then show ?thesis using False fun_cong[OF regs, of q] by (simp add: op_regs_def)
  qed
  have c: "child_nodes ?s2 m = map_option (filter (\<lambda>k. k \<noteq> RegionNode r)) (child_nodes s m)" for m
    using child_nodes_shape[OF d(4), of m] r2
    by (cases m) (auto simp: region_blocks_def block_ops_def option.map_comp o_def)
  have l: "lists_ok ?s2" using d(1) by (simp add: lists_ok_def ctx_ok_def shape_ok_def)
  have ch: "child s1 = child s" by (simp add: child_def child_nodes_shape[OF d(4)] fun_eq_iff)
  have up: "k \<in> ?N" if "m \<in> ?N" "m \<noteq> RegionNode r" "child s1 k m" for m k
    using below_parent[OF s(1) that(1,2)] that(3) ch by simp
  have rem: "removable ?N s1"
    unfolding removable_def ch
    using below_exists[OF s(1) n] below_child[of _ s "RegionNode r"] node_exists_shape[OF d(4)]
      up[of "OpNode _" "BlockNode _"] up[of "BlockNode _" "RegionNode _"] child_simps(2,3)[OF d(1)]
    by simp
  have u: "unused ?N s1" by (rule dropped_unused[OF s1(2) pr])
  have "op_regs (remove_nodes ?N ?s2) q = (if OpNode q \<in> ?N then None else map_option (filter (\<lambda>k. RegionNode k \<notin> ?N)) (op_regs s1 q))" for q
  proof (cases "OpNode q \<in> ?N")
    case False
    have "RegionNode k \<notin> ?N \<longleftrightarrow> k \<noteq> r" if "op_regs s q = Some ks" "k \<in> set ks" for ks k
    proof -
      have "child s (OpNode q) (RegionNode k)" using that by (simp add: child_def)
      then show ?thesis using below_parent[OF s(1), of "RegionNode k" "RegionNode r" "OpNode q"] False by auto
    qed
    then have "map_option (filter (\<lambda>k. RegionNode k \<notin> ?N)) (op_regs s q) = map_option (filter (\<lambda>k. k \<noteq> r)) (op_regs s q)"
      by (cases "op_regs s q") (auto intro: filter_cong)
    then show ?thesis using False r2[of q] regs by (simp add: remove_views)
  qed (simp add: remove_views)
  then have ok: "ctx_ok (remove_nodes ?N ?s2)"
    by (intro ctx_ok_remove[OF d(1) rem u remove_views_cong[OF v]]) (simp_all add: remove_nodes_def cong: if_cong)
  have ex: "node_exists (remove_nodes ?N ?s2) m \<longleftrightarrow> node_exists s m \<and> m \<notin> ?N" for m
    using remove_views(10)[of ?N ?s2 m] node_exists_shape[OF d(4), of m] op1 by (cases m) auto
  have "child_nodes (remove_nodes ?N ?s2) m = map_option (filter (\<lambda>k. k \<notin> ?N)) (child_nodes s m)" if "m \<notin> ?N" for m
    by (rule children_left[OF s l that c ok ex])
  then have e: "erased ?N s (remove_nodes ?N ?s2)"
    unfolding erased_def using ex erased_views[OF s1(2) v vc] by blast
  have "dealloc ?s2 [RegionNode r] = Some (remove_nodes ?N ?s2)" by (rule dealloc_below[OF s n l c])
  moreover have "remove_at (op_regions op1) i = Some (r, ?rs)" using op(2) op1(2) r by (simp add: remove_at_def)
  ultimately show ?thesis using s1(1) op op1 r ok e by (simp add: erase_region_def modify_op_def)
qed

section \<open>Properties\<close>

text \<open>
  C28. \<open>Operation::erase\<close>. If nothing outside uses what the operation or anything nested in it defines, it removes exactly
  the operation and everything nested in it; the context stays consistent, with the uses
  by erased operations gone, and operands, successors, children and their order as before in what stays.
  If a result is used from outside, it panics.
\<close>

theorem erase_correct:
  assumes "ctx_ok s" and "ir_finite s" and "operations s p \<noteq> None"
  shows "(private_uses (below s (OpNode p)) s \<longrightarrow>
      (\<exists>s'. erase s p = Some s' \<and> ctx_ok s' \<and> erased (below s (OpNode p)) s s'))
    \<and> ((\<exists>v us u. defining_entity v = OpDef p \<and> value_defnode s v = Some us \<and> u \<in> set us
         \<and> OpNode (user_op u) \<notin> below s (OpNode p)) \<longrightarrow> erase s p = None)"
  using op_erase[OF assms] op_erase_panics[OF assms] by blast

lemma demo_below: "below demo_ctx (OpNode 2) = {OpNode 2}"
proof -
  have "\<not> child demo_ctx (OpNode 2) m" for m
    by (auto simp: child_simps[OF demo_ok] demo_regions split: if_splits)
  then show ?thesis by (auto simp: below_def elim: converse_rtranclpE)
qed

theorem erase_correct_witness:
  "\<exists>s'. erase demo_ctx 2 = Some s' \<and> ctx_ok s' \<and> erased {OpNode 2} demo_ctx s'"
proof -
  have op: "operations demo_ctx 2 \<noteq> None" by code_simp
  have "entity_defs demo_ctx (OpDef 2) = Some []" by code_simp
  then have "value_defnode demo_ctx v = None" if "defining_entity v = OpDef 2" for v
    using that by (simp add: value_defnode_alt)
  moreover have "defining_entity v = OpDef 2" if "entity_node (defining_entity v) = OpNode 2" for v
    using that by (cases "defining_entity v") auto
  ultimately have "private_uses (below demo_ctx (OpNode 2)) demo_ctx"
    unfolding demo_below private_uses_def by fastforce
  then show ?thesis using erase_correct[OF demo_ok demo_finite op] unfolding demo_below by blast
qed

text \<open>
  C29. \<open>BasicBlock::erase\<close> and \<open>Operation::erase_region\<close> remove exactly the block or the region with everything nested in it,
  under the same condition, and keep the context consistent.
\<close>

theorem block_region_erase_correct:
  assumes "ctx_ok s" and "ir_finite s"
  shows "(\<forall>b. basic_blocks s b \<noteq> None \<longrightarrow> private_uses (below s (BlockNode b)) s \<longrightarrow>
      (\<exists>s'. block_erase s b = Some s' \<and> ctx_ok s' \<and> erased (below s (BlockNode b)) s s'))
    \<and> (\<forall>p rs i. op_regs s p = Some rs \<longrightarrow> i < length rs \<longrightarrow> private_uses (below s (RegionNode (rs ! i))) s \<longrightarrow>
      (\<exists>s'. erase_region s p i = Some s' \<and> ctx_ok s' \<and> erased (below s (RegionNode (rs ! i))) s s'))"
proof (intro conjI allI impI)
  show "\<exists>s'. block_erase s b = Some s' \<and> ctx_ok s' \<and> erased (below s (BlockNode b)) s s'"
    if "basic_blocks s b \<noteq> None" "private_uses (below s (BlockNode b)) s" for b
    by (rule block_erase_removes[OF assms that])
  fix p rs i assume p: "op_regs s p = Some rs" "i < length rs" "private_uses (below s (RegionNode (rs ! i))) s"
  then obtain op where op: "operations s p = Some op" "op_regions op = rs" by (auto simp: op_regs_def)
  show "\<exists>s'. erase_region s p i = Some s' \<and> ctx_ok s' \<and> erased (below s (RegionNode (rs ! i))) s s'"
    using region_erase[OF assms op(1), of i "rs ! i"] op(2) p(2,3) by simp
qed

lemma private_users:
  assumes "ctx_ok s"
    and "\<And>q op. operations s q = Some op \<Longrightarrow> OpNode q \<notin> N \<Longrightarrow> operands op = [] \<and> op_successors op = []"
  shows "private_uses N s"
  unfolding private_uses_def
proof (intro conjI allI impI; rule ccontr)
  show False if "value_defnode s v = Some us" "u \<in> set us" "OpNode (user_op u) \<notin> N" for v us u
    using ctx_ok_uses(2)[OF assms(1), of v us u] that assms(2)[of "user_op u"] by (auto simp: value_uses_def)
  show False if "block_defnode s b = Some us" "u \<in> set us" "OpNode (user_op u) \<notin> N" for b us u
    using ctx_ok_block_uses(2)[OF assms(1), of b us u] that assms(2)[of "user_op u"]
    by (auto simp: block_uses_def block_defnode_def)
qed

theorem block_region_erase_correct_witness:
  "\<exists>s'. erase_region demo_ctx 0 0 = Some s' \<and> ctx_ok s' \<and> erased (below demo_ctx (RegionNode 0)) demo_ctx s'"
proof -
  have r: "op_regs demo_ctx 0 = Some [0]" by code_simp
  have b: "block_parent_region demo_ctx 0 = Some (Some 0)" by code_simp
  have o12: "get_parent_block demo_ctx (Suc 0) = Some (Some 0)" "get_parent_block demo_ctx (Suc (Suc 0)) = Some (Some 0)" by code_simp+
  have o0: "map_option operands (operations demo_ctx 0) = Some []" "map_option op_successors (operations demo_ctx 0) = Some []"
    by code_simp+
  have e: "operations demo_ctx (Suc (Suc (Suc q))) = None" for q by code_simp
  have bl: "BlockNode 0 \<in> below demo_ctx (RegionNode 0)"
    by (rule below_child[OF below_self]) (simp add: child_simps(2)[OF demo_ok] b)
  have "operands op = [] \<and> op_successors op = []"
    if q: "operations demo_ctx q = Some op" "OpNode q \<notin> below demo_ctx (RegionNode 0)" for q op
  proof (cases "q = 0")
    case True
    then show ?thesis using o0 q(1) by simp
  next
    case False
    then obtain k where k: "q = Suc k" by (cases q) auto
    have "get_parent_block demo_ctx q \<noteq> Some (Some 0)"
      using q(2) below_child[OF bl, of "OpNode q"] by (auto simp: child_simps(3)[OF demo_ok])
    then obtain j where "q = Suc (Suc (Suc j))" using o12 k
      by (cases k; cases "k - 1") auto
    then show ?thesis using q(1) e by simp
  qed
  then have "private_uses (below demo_ctx (RegionNode ([0] ! 0))) demo_ctx" by (intro private_users[OF demo_ok]) auto
  then show ?thesis
    using block_region_erase_correct[OF demo_ok demo_finite, THEN conjunct2, rule_format, OF r, of 0] by simp
qed

text \<open>
  C30. The checks of \<open>BasicBlock::erase\<close> do not cover all uses from outside, as its documentation says they do: a
  value defined deeper than the block's own operations may be used outside. The block is then erased, and the
  user is left with an operand whose definition is gone.
\<close>

definition deep_use_cmds :: "(nat, nat) ir_cmd list" where
  "deep_use_cmds =
     [NewOp 0 [0] 0 [] [] [], NewBlock 0 None [], NewBlock 2 None [], BlockList (InsertAtBack 0 0), BlockList (InsertAtBack 2 0),
      NewOp 1 [1] 0 [] [] [], OpList (InsertAtBack 1 0), NewBlock 1 None [], BlockList (InsertAtBack 1 1),
      NewOp 2 [] 0 [7] [] [], OpList (InsertAtBack 2 1),
      NewOp 3 [] 0 [] [\<lparr>val_uid = 0, defining_entity = OpDef 2\<rparr>] [], OpList (InsertAtBack 3 2)]"

definition deep_use_ctx :: "(nat, nat, nat) ctx" where
  "deep_use_ctx = the (ir_run empty_ctx deep_use_cmds)"

theorem block_erase_leaves_dangling_use:
  "ir_run empty_ctx deep_use_cmds = Some deep_use_ctx
   \<and> (case block_erase deep_use_ctx 0 of
        None \<Rightarrow> False
      | Some s \<Rightarrow> get_operand s 3 0 = Some \<lparr>val_uid = 0, defining_entity = OpDef 2\<rparr>
          \<and> value_defnode s \<lparr>val_uid = 0, defining_entity = OpDef 2\<rparr> = None)"
proof
  show "ir_run empty_ctx deep_use_cmds = Some deep_use_ctx"
    unfolding deep_use_ctx_def by (rule sym, rule option.collapse) code_simp
  show "case block_erase deep_use_ctx 0 of
        None \<Rightarrow> False
      | Some s \<Rightarrow> get_operand s 3 0 = Some \<lparr>val_uid = 0, defining_entity = OpDef 2\<rparr>
          \<and> value_defnode s \<lparr>val_uid = 0, defining_entity = OpDef 2\<rparr> = None"
    by code_simp
qed

end
