(* ===== verification/Identifiers.thy ===== *)
theory Identifiers
  imports Prelude "HOL-Library.Word"
begin

text \<open>
  Identifiers and the legaliser of names: \<^verbatim>\<open>identifier.rs\<close> under \<^verbatim>\<open>src/src\<close>.

  A Rust string is a list of characters (Unicode code points); \<open>as_bytes\<close> is its UTF-8 encoding.
  Which characters are alphabetic is a table of the Unicode standard: it is the parameter
  \<open>alphabetic\<close>, of which the theorems use that it agrees with ASCII below 128 (\<open>unicode_alphabetic\<close>).
\<close>

section \<open>Strings and bytes\<close>

type_synonym uchar = nat
type_synonym ustring = "uchar list"

definition code_units :: "uchar \<Rightarrow> nat list" where
  "code_units c =
     (if c < 0x80 then [c]
      else if c < 0x800 then [0xC0 + c div 64, 0x80 + c mod 64]
      else if c < 0x10000 then [0xE0 + c div 4096, 0x80 + c div 64 mod 64, 0x80 + c mod 64]
      else [0xF0 + c div 262144, 0x80 + c div 4096 mod 64, 0x80 + c div 64 mod 64, 0x80 + c mod 64])"

definition utf8 :: "uchar \<Rightarrow> 8 word list" where
  "utf8 c = map word_of_nat (code_units c)"

definition is_scalar :: "uchar \<Rightarrow> bool" where
  "is_scalar c \<longleftrightarrow> c < 0x110000 \<and> \<not> (0xD800 \<le> c \<and> c < 0xE000)"

definition as_bytes :: "ustring \<Rightarrow> 8 word list" where
  "as_bytes s = concat (map utf8 s)"

definition is_ascii_alphabetic :: "8 word \<Rightarrow> bool" where
  "is_ascii_alphabetic b \<longleftrightarrow> (65 \<le> b \<and> b \<le> 90) \<or> (97 \<le> b \<and> b \<le> 122)"

definition is_ascii_alphanumeric :: "8 word \<Rightarrow> bool" where
  "is_ascii_alphanumeric b \<longleftrightarrow> is_ascii_alphabetic b \<or> (48 \<le> b \<and> b \<le> 57)"

text \<open>The same tests on characters.\<close>

definition char_alphabetic :: "uchar \<Rightarrow> bool" where
  "char_alphabetic c \<longleftrightarrow> (65 \<le> c \<and> c \<le> 90) \<or> (97 \<le> c \<and> c \<le> 122)"

definition char_alphanumeric :: "uchar \<Rightarrow> bool" where
  "char_alphanumeric c \<longleftrightarrow> char_alphabetic c \<or> (48 \<le> c \<and> c \<le> 57)"

abbreviation underscore :: uchar where "underscore \<equiv> 95"

definition unicode_alphabetic :: "(uchar \<Rightarrow> bool) \<Rightarrow> bool" where
  "unicode_alphabetic alphabetic \<longleftrightarrow> (\<forall>c < 128. alphabetic c \<longleftrightarrow> char_alphabetic c)"

section \<open>Identifiers\<close>

datatype legal_ident = Identifier (as_ref: ustring)

datatype ident_err = MalformedIdentifierErr ustring

function is_valid_from :: "8 word list \<Rightarrow> nat \<Rightarrow> bool" where
  "is_valid_from b i =
     (if i < length b
      then (if \<not> (is_ascii_alphanumeric (b ! i) \<or> b ! i = 95) then False else is_valid_from b (i + 1))
      else True)"
  by auto
termination by (relation "measure (\<lambda>(b, i). length b - i)") auto

declare is_valid_from.simps [simp del]

definition is_valid :: "8 word list \<Rightarrow> bool" where
  "is_valid b =
     (if b = [] then False
      else if \<not> (is_ascii_alphabetic (b ! 0) \<or> b ! 0 = 95) then False
      else is_valid_from b 1)"

definition try_new :: "ustring \<Rightarrow> ident_err + legal_ident" where
  "try_new value = (if is_valid (as_bytes value) then Inr (Identifier value) else Inl (MalformedIdentifierErr value))"

definition ident_new :: "ustring \<Rightarrow> legal_ident outcome" where
  "ident_new value =
     (if is_valid (as_bytes value) then Inr (Identifier value) else Inl (Panic ''value is not a valid Identifier''))"

definition ident_add :: "legal_ident \<Rightarrow> legal_ident \<Rightarrow> legal_ident" where
  "ident_add x rhs = Identifier (as_ref x @ as_ref rhs)"

text \<open>
  The parser of identifiers, over the character parsers \<open>letter\<close> and \<open>alpha_num\<close> of the combinator library, which are its parameters.
  \<open>Inr None\<close> is a parse error, otherwise the parser returns the identifier and the rest of the input.
\<close>

definition parse_identifier ::
    "(uchar \<Rightarrow> bool) \<Rightarrow> (uchar \<Rightarrow> bool) \<Rightarrow> ustring \<Rightarrow> (legal_ident \<times> ustring) option outcome" where
  "parse_identifier letter alpha_num input =
     (case input of
        [] \<Rightarrow> Inr None
      | c # rest \<Rightarrow>
          if letter c \<or> c = underscore then
            (let more = (\<lambda>c. alpha_num c \<or> c = underscore);
                 str = c # takeWhile more rest
             in case try_new str of
                  Inr i \<Rightarrow> Inr (Some (i, dropWhile more rest))
                | Inl _ \<Rightarrow> Inl (Panic ''Something is wrong in our Identifier parser''))
          else Inr None)"

section \<open>The legaliser\<close>

record legaliser =
  str_to_id :: "ustring \<Rightarrow> legal_ident option"
  rev_str_to_id :: "ustring \<Rightarrow> ustring option"
  counter :: "64 word"

definition legaliser_default :: legaliser where
  "legaliser_default = \<lparr>str_to_id = Map.empty, rev_str_to_id = Map.empty, counter = 0\<rparr>"

definition replace_illegal_chars :: "(uchar \<Rightarrow> bool) \<Rightarrow> ustring \<Rightarrow> ustring" where
  "replace_illegal_chars alphabetic name =
     (case try_new name of
        Inr _ \<Rightarrow> name
      | Inl _ \<Rightarrow>
          (case name of
             [] \<Rightarrow> [underscore]
           | first_char # char_iter \<Rightarrow>
               (if alphabetic first_char then [first_char] else [underscore])
               @ map (\<lambda>c. if char_alphanumeric c then c else underscore) char_iter))"

text \<open>The decimal digits of a number, as \<open>format!\<close> prints it.\<close>

fun decimal :: "nat \<Rightarrow> ustring" where
  "decimal n = (if n < 10 then [48 + n] else decimal (n div 10) @ [48 + n mod 10])"

declare decimal.simps [simp del]

definition with_counter :: "ustring \<Rightarrow> 64 word \<Rightarrow> ustring" where
  "with_counter legal_name n = legal_name @ underscore # decimal (unat n)"

partial_function (option) make_unique ::
    "(ustring \<Rightarrow> ustring option) \<Rightarrow> ustring \<Rightarrow> ustring \<Rightarrow> 64 word \<Rightarrow> (ustring \<times> 64 word) option" where
  "make_unique taken legal_name legal_name_unique n =
     (if taken legal_name_unique \<noteq> None
      then make_unique taken legal_name (with_counter legal_name n) (n + 1)
      else Some (legal_name_unique, n))"

declare make_unique.simps [code]

definition legalise :: "(uchar \<Rightarrow> bool) \<Rightarrow> legaliser \<Rightarrow> ustring \<Rightarrow> (legal_ident \<times> legaliser) option" where
  "legalise alphabetic l name =
     (case str_to_id l name of
        Some i \<Rightarrow> Some (i, l)
      | None \<Rightarrow> do {
          let legal_name = replace_illegal_chars alphabetic name;
          (legal_name_unique, n) \<leftarrow> make_unique (rev_str_to_id l) legal_name legal_name (counter l);
          let legal_name_id = Identifier legal_name_unique;
          Some (legal_name_id,
            l\<lparr>str_to_id := (str_to_id l)(name \<mapsto> legal_name_id),
              rev_str_to_id := (rev_str_to_id l)(legal_name_unique \<mapsto> name),
              counter := n\<rparr>)
        })"

definition source_name :: "legaliser \<Rightarrow> legal_ident \<Rightarrow> ustring option" where
  "source_name l i = rev_str_to_id l (as_ref i)"

text \<open>A run of \<open>legalise\<close> over a list of names, with the identifiers it returns.\<close>

fun legalise_all :: "(uchar \<Rightarrow> bool) \<Rightarrow> legaliser \<Rightarrow> ustring list \<Rightarrow> (legal_ident list \<times> legaliser) option" where
  "legalise_all alphabetic l [] = Some ([], l)"
| "legalise_all alphabetic l (name # names) = do {
     (i, l) \<leftarrow> legalise alphabetic l name;
     (is, l) \<leftarrow> legalise_all alphabetic l names;
     Some (i # is, l)
   }"

section \<open>Validity is a property of the characters\<close>

definition char_valid :: "uchar \<Rightarrow> bool" where
  "char_valid c \<longleftrightarrow> char_alphanumeric c \<or> c = underscore"

lemma is_valid_from_all:
  "is_valid_from b i \<longleftrightarrow> (\<forall>x \<in> set (drop i b). is_ascii_alphanumeric x \<or> x = 95)"
proof (induction b i rule: is_valid_from.induct)
  case (1 b i)
  then show ?case
    by (subst is_valid_from.simps) (auto simp: Cons_nth_drop_Suc[symmetric])
qed

lemma is_valid_all:
  "is_valid b \<longleftrightarrow> (\<exists>x xs. b = x # xs \<and> (is_ascii_alphabetic x \<or> x = 95)
     \<and> (\<forall>y \<in> set xs. is_ascii_alphanumeric y \<or> y = 95))"
  by (cases b) (auto simp: is_valid_def is_valid_from_all)

lemma ascii_byte:
  assumes "c < 256"
  shows "is_ascii_alphabetic (word_of_nat c) \<longleftrightarrow> char_alphabetic c"
    and "is_ascii_alphanumeric (word_of_nat c) \<longleftrightarrow> char_alphanumeric c"
    and "word_of_nat c = (95 :: 8 word) \<longleftrightarrow> c = underscore"
proof -
  have u: "unat (word_of_nat c :: 8 word) = c" using assms by (simp add: unat_of_nat take_bit_nat_eq_self)
  show "is_ascii_alphabetic (word_of_nat c) \<longleftrightarrow> char_alphabetic c"
    by (simp add: is_ascii_alphabetic_def char_alphabetic_def word_le_nat_alt u)
  then show "is_ascii_alphanumeric (word_of_nat c) \<longleftrightarrow> char_alphanumeric c"
    by (simp add: is_ascii_alphanumeric_def char_alphanumeric_def word_le_nat_alt u)
  show "word_of_nat c = (95 :: 8 word) \<longleftrightarrow> c = underscore"
    using u by (simp add: word_unat_eq_iff)
qed

lemma ascii_bytes:
  assumes "c < 128"
  shows "utf8 c = [word_of_nat c]"
  using assms by (simp add: utf8_def code_units_def)

lemma utf8_bytes:
  assumes "is_scalar c" and "128 \<le> c" and "b \<in> set (utf8 c)"
  shows "\<exists>k. 128 \<le> k \<and> k < 256 \<and> b = word_of_nat k"
proof -
  have "c < 0x110000" using assms(1) by (simp add: is_scalar_def)
  then have "c div 262144 < 5" by linarith
  have h1: "c div 4096 < 32" if "c < 0x10000" using that by linarith
  have h2: "c div 64 < 64" if "c < 0x800" using that by linarith
  have h3: "n mod 64 < 128" for n :: nat using mod_less_divisor[of 64 n] by linarith
  have "\<forall>k \<in> set (code_units c). 128 \<le> k \<and> k < 256"
    using assms(2) \<open>c div 262144 < 5\<close> by (simp add: code_units_def h1 h2 h3)
  then show ?thesis using assms(3) by (auto simp: utf8_def)
qed

lemma non_ascii_bytes:
  assumes "is_scalar c" and "128 \<le> c"
  shows "utf8 c \<noteq> []" and "\<And>b. b \<in> set (utf8 c) \<Longrightarrow> \<not> is_ascii_alphanumeric b \<and> \<not> is_ascii_alphabetic b \<and> b \<noteq> 95"
    and "\<not> char_alphabetic c" and "\<not> char_valid c"
proof -
  show "utf8 c \<noteq> []" by (simp add: utf8_def code_units_def)
  show "\<not> is_ascii_alphanumeric b \<and> \<not> is_ascii_alphabetic b \<and> b \<noteq> 95" if "b \<in> set (utf8 c)" for b
    using utf8_bytes[OF assms that] ascii_byte by (auto simp: char_alphanumeric_def char_alphabetic_def)
  show "\<not> char_alphabetic c" "\<not> char_valid c"
    using assms(2) by (simp_all add: char_valid_def char_alphanumeric_def char_alphabetic_def)
qed

lemma valid_bytes_char:
  assumes "is_scalar c"
  shows "(\<forall>b \<in> set (utf8 c). is_ascii_alphanumeric b \<or> b = 95) \<longleftrightarrow> char_valid c"
proof (cases "c < 128")
  case True
  then show ?thesis using ascii_byte[of c] ascii_bytes[OF True] by (simp add: char_valid_def)
next
  case False
  obtain b where "b \<in> set (utf8 c)" using non_ascii_bytes(1)[OF assms] False by (meson last_in_set not_less)
  then show ?thesis using non_ascii_bytes(2,4)[OF assms] False by (meson not_less)
qed

lemma valid_bytes:
  assumes "\<forall>c \<in> set s. is_scalar c"
  shows "(\<forall>b \<in> set (as_bytes s). is_ascii_alphanumeric b \<or> b = 95) \<longleftrightarrow> (\<forall>c \<in> set s. char_valid c)"
  using assms by (induction s) (auto simp: as_bytes_def valid_bytes_char[symmetric])

definition valid_name :: "ustring \<Rightarrow> bool" where
  "valid_name s \<longleftrightarrow> (case s of [] \<Rightarrow> False | c # cs \<Rightarrow> (char_alphabetic c \<or> c = underscore) \<and> (\<forall>d \<in> set cs. char_valid d))"

lemma is_valid_name:
  assumes "\<forall>c \<in> set s. is_scalar c"
  shows "is_valid (as_bytes s) \<longleftrightarrow> valid_name s"
proof (cases s)
  case Nil
  then show ?thesis by (simp add: as_bytes_def is_valid_def valid_name_def)
next
  case (Cons c cs)
  have cs: "as_bytes s = utf8 c @ as_bytes cs" "is_scalar c" "\<forall>c \<in> set cs. is_scalar c"
    using Cons assms by (simp_all add: as_bytes_def)
  show ?thesis
  proof (cases "c < 128")
    case True
    then show ?thesis using cs ascii_bytes[OF True] ascii_byte[of c] valid_bytes[OF cs(3)] Cons
      by (simp add: is_valid_all valid_name_def)
  next
    case False
    then obtain b bs where b: "utf8 c = b # bs" using non_ascii_bytes(1)[OF cs(2)] by (cases "utf8 c") auto
    then have "\<not> is_valid (as_bytes s)"
      using non_ascii_bytes(2)[OF cs(2), of b] False cs(1) by (simp add: is_valid_all)
    then show ?thesis using non_ascii_bytes(3,4)[OF cs(2)] False Cons by (auto simp: valid_name_def)
  qed
qed

section \<open>Decimal numbers are distinct\<close>

definition from_decimal :: "ustring \<Rightarrow> nat" where
  "from_decimal s = foldl (\<lambda>n c. n * 10 + (c - 48)) 0 s"

lemma from_decimal: "from_decimal (decimal n) = n"
proof (induction n rule: decimal.induct)
  case (1 n)
  then show ?case by (subst decimal.simps) (simp add: from_decimal_def)
qed

lemma with_counter_inject [simp]: "with_counter l m = with_counter l n \<longleftrightarrow> m = n"
  using from_decimal by (metis append_same_eq list.inject same_append_eq unat_eq_nat_uint with_counter_def word_unat_eq_iff)

lemma with_counter_neq [simp]: "with_counter l n \<noteq> l" "l \<noteq> with_counter l n"
  by (simp_all add: with_counter_def)

lemma decimal_chars: "\<forall>c \<in> set (decimal n). 48 \<le> c \<and> c \<le> 57"
proof (induction n rule: decimal.induct)
  case (1 n)
  then show ?case by (subst decimal.simps) auto
qed

section \<open>A fresh name is found\<close>

text \<open>The names \<open>make_unique\<close> tries, and the counter when it tries the \<open>k\<close>-th.\<close>

fun nth_try :: "ustring \<Rightarrow> 64 word \<Rightarrow> nat \<Rightarrow> ustring" where
  "nth_try l n 0 = l"
| "nth_try l n (Suc k) = with_counter l (n + of_nat k)"

lemma make_unique_tries:
  assumes "\<forall>j < k. taken (nth_try l n j) \<noteq> None"
  shows "make_unique taken l l n = make_unique taken l (nth_try l n k) (n + of_nat k)"
  using assms
proof (induction k)
  case (Suc k)
  then have "make_unique taken l l n = make_unique taken l (nth_try l n k) (n + of_nat k)" by simp
  also have "\<dots> = make_unique taken l (nth_try l n (Suc k)) (n + of_nat (Suc k))"
    using Suc.prems by (subst make_unique.simps) (auto simp: algebra_simps)
  finally show ?case .
qed simp

lemma nth_try_inject:
  assumes "unat n + m < 2 ^ 64" and "j \<le> m" and "k \<le> m" and "nth_try l n j = nth_try l n k"
  shows "j = k"
proof -
  have "i = i'" if "i \<le> m" "i' \<le> m" "n + of_nat i = n + of_nat i'" for i i'
  proof -
    have "(of_nat i :: 64 word) = of_nat i'" using that(3) by simp
    then have "unat (of_nat i :: 64 word) = unat (of_nat i' :: 64 word)" by simp
    then show ?thesis using that(1,2) assms(1) by (simp add: unat_of_nat take_bit_nat_eq_self)
  qed
  then show ?thesis using assms(2-4)
    by (cases j; cases k) (auto dest: Suc_leD)
qed

lemma make_unique_fresh:
  assumes f: "finite (dom taken)" and n: "unat n + card (dom taken) < 2 ^ 64"
  shows "\<exists>k \<le> card (dom taken). make_unique taken l l n = Some (nth_try l n k, n + of_nat k) \<and> taken (nth_try l n k) = None"
proof -
  let ?m = "card (dom taken)"
  have "\<exists>k \<le> ?m. taken (nth_try l n k) = None"
  proof (rule ccontr)
    assume "\<not> ?thesis"
    then have "nth_try l n ` {..?m} \<subseteq> dom taken" by auto
    then have "card (nth_try l n ` {..?m}) \<le> ?m" using card_mono[OF f] by blast
    moreover have "inj_on (nth_try l n) {..?m}" using nth_try_inject[OF n] by (intro inj_onI) auto
    ultimately show False by (simp add: card_image)
  qed
  then obtain k where k: "k \<le> ?m" "taken (nth_try l n k) = None" "\<forall>j < k. taken (nth_try l n j) \<noteq> None"
    using exists_least_iff[of "\<lambda>k. k \<le> ?m \<and> taken (nth_try l n k) = None"] by force
  have "make_unique taken l (nth_try l n k) (n + of_nat k) = Some (nth_try l n k, n + of_nat k)"
    using k(2) by (subst make_unique.simps) simp
  then show ?thesis using make_unique_tries[OF k(3)] k(1,2) by auto
qed

section \<open>The legaliser's invariant\<close>

text \<open>The two maps are inverse to each other, every identifier is one that is tried for its source, and the counter stays
  below the square of their size.\<close>

definition legaliser_ok :: "(uchar \<Rightarrow> bool) \<Rightarrow> legaliser \<Rightarrow> bool" where
  "legaliser_ok alphabetic l \<longleftrightarrow> finite (dom (rev_str_to_id l))
     \<and> (\<forall>name i. str_to_id l name = Some i \<longleftrightarrow> rev_str_to_id l (as_ref i) = Some name)
     \<and> (\<forall>name i. str_to_id l name = Some i \<longrightarrow> (\<exists>n k. as_ref i = nth_try (replace_illegal_chars alphabetic name) n k))
     \<and> unat (counter l) \<le> card (dom (rev_str_to_id l)) * card (dom (rev_str_to_id l))"

lemma legalise_ok:
  assumes l: "legaliser_ok alphabetic l" and m: "Suc (card (dom (rev_str_to_id l))) ^ 2 < 2 ^ 64"
  shows "\<exists>i l'. legalise alphabetic l name = Some (i, l') \<and> legaliser_ok alphabetic l'
    \<and> card (dom (rev_str_to_id l')) \<le> Suc (card (dom (rev_str_to_id l)))
    \<and> str_to_id l \<subseteq>\<^sub>m str_to_id l' \<and> str_to_id l' name = Some i"
proof (cases "str_to_id l name")
  case (Some i)
  then show ?thesis using l by (simp add: legalise_def)
next
  case None
  let ?rev = "rev_str_to_id l" and ?r = "replace_illegal_chars alphabetic name"
  let ?m = "card (dom ?rev)"
  have ok: "finite (dom ?rev)" "\<And>nm i. str_to_id l nm = Some i \<longleftrightarrow> ?rev (as_ref i) = Some nm"
      "\<And>nm i. str_to_id l nm = Some i \<Longrightarrow> \<exists>n k. as_ref i = nth_try (replace_illegal_chars alphabetic nm) n k"
      "unat (counter l) \<le> ?m * ?m"
    using l by (auto simp: legaliser_ok_def)
  have sq: "?m * ?m + ?m < Suc ?m ^ 2" "?m * ?m + ?m \<le> Suc ?m * Suc ?m" by (simp_all add: power2_eq_square)
  have n: "unat (counter l) + ?m < 2 ^ 64" using ok(4) sq m by linarith
  obtain k where k: "k \<le> ?m" "make_unique ?rev ?r ?r (counter l) = Some (nth_try ?r (counter l) k, counter l + of_nat k)"
      "?rev (nth_try ?r (counter l) k) = None"
    using make_unique_fresh[OF ok(1) n] by blast
  let ?u = "nth_try ?r (counter l) k"
  let ?l' = "l\<lparr>str_to_id := (str_to_id l)(name \<mapsto> Identifier ?u), rev_str_to_id := ?rev(?u \<mapsto> name), counter := counter l + of_nat k\<rparr>"
  have e: "legalise alphabetic l name = Some (Identifier ?u, ?l')" using None k(2) by (simp add: legalise_def Let_def)
  have d: "card (dom (rev_str_to_id ?l')) = Suc ?m" using ok(1) k(3) by (simp add: card_insert_if domIff)
  have "unat (of_nat k :: 64 word) = k" using k(1) n by (simp add: unat_of_nat take_bit_nat_eq_self)
  then have "unat (counter l + of_nat k) = unat (counter l) + k" using k(1) n by (subst unat_add_lem[THEN iffD1]) simp_all
  then have c: "unat (counter ?l') \<le> Suc ?m * Suc ?m" using ok(4) k(1) sq(2) by simp
  have "legaliser_ok alphabetic ?l'"
    unfolding legaliser_ok_def d
  proof (intro conjI allI)
    fix nm i
    show "str_to_id ?l' nm = Some i \<longleftrightarrow> rev_str_to_id ?l' (as_ref i) = Some nm"
      using None ok(2)[of name] ok(2)[of nm i] k(3) by (cases i) auto
    show "str_to_id ?l' nm = Some i \<longrightarrow> (\<exists>n k. as_ref i = nth_try (replace_illegal_chars alphabetic nm) n k)"
      using ok(3)[of nm i] by (cases "nm = name") (auto, blast)
  qed (use ok(1) c in simp_all)
  moreover have "str_to_id l \<subseteq>\<^sub>m str_to_id ?l'" using None by (auto simp: map_le_def)
  ultimately show ?thesis using e d by (intro exI[of _ "Identifier ?u"] exI[of _ ?l']) auto
qed

lemma legalise_all_ok:
  assumes "legaliser_ok alphabetic l" and "(card (dom (rev_str_to_id l)) + length names) ^ 2 < 2 ^ 64"
  shows "\<exists>is l'. legalise_all alphabetic l names = Some (is, l') \<and> legaliser_ok alphabetic l'
    \<and> card (dom (rev_str_to_id l')) \<le> card (dom (rev_str_to_id l)) + length names
    \<and> str_to_id l \<subseteq>\<^sub>m str_to_id l' \<and> map (str_to_id l') names = map Some is"
  using assms
proof (induction names arbitrary: l)
  case (Cons name names)
  have "Suc (card (dom (rev_str_to_id l))) ^ 2 \<le> (card (dom (rev_str_to_id l)) + length (name # names)) ^ 2"
    by (rule power_mono) simp_all
  then obtain i l1 where l1: "legalise alphabetic l name = Some (i, l1)" "legaliser_ok alphabetic l1"
      "card (dom (rev_str_to_id l1)) \<le> Suc (card (dom (rev_str_to_id l)))"
      "str_to_id l \<subseteq>\<^sub>m str_to_id l1" "str_to_id l1 name = Some i"
    using legalise_ok[OF Cons.prems(1)] Cons.prems(2) by (meson le_less_trans)
  have "(card (dom (rev_str_to_id l1)) + length names) ^ 2 \<le> (card (dom (rev_str_to_id l)) + length (name # names)) ^ 2"
    using l1(3) by (intro power_mono) simp_all
  then obtain "is" l2 where l2: "legalise_all alphabetic l1 names = Some (is, l2)" "legaliser_ok alphabetic l2"
      "card (dom (rev_str_to_id l2)) \<le> card (dom (rev_str_to_id l1)) + length names"
      "str_to_id l1 \<subseteq>\<^sub>m str_to_id l2" "map (str_to_id l2) names = map Some is"
    using Cons.IH[OF l1(2)] Cons.prems(2) by (meson le_less_trans)
  have "str_to_id l2 name = Some i" using l1(5) l2(4) by (metis domI map_le_def)
  then show ?case using l1 l2 map_le_trans[OF l1(4) l2(4)] by simp
qed simp

lemma legaliser_default_ok: "legaliser_ok alphabetic legaliser_default"
  by (simp add: legaliser_ok_def legaliser_default_def)

lemma legalise_run:
  assumes "length names ^ 2 < 2 ^ 64"
  obtains "is" l where "legalise_all alphabetic legaliser_default names = Some (is, l)" and "legaliser_ok alphabetic l"
    and "card (dom (rev_str_to_id l)) \<le> length names" and "map (str_to_id l) names = map Some is"
  using legalise_all_ok[OF legaliser_default_ok, of names alphabetic] assms
  by (auto simp: legaliser_default_def)

section \<open>Legal names are valid identifiers\<close>

lemma valid_char_scalar: "char_valid c \<Longrightarrow> is_scalar c" "char_alphabetic c \<Longrightarrow> char_valid c"
  by (auto simp: char_valid_def char_alphanumeric_def char_alphabetic_def is_scalar_def)

lemma valid_name_scalar: "valid_name s \<Longrightarrow> \<forall>c \<in> set s. is_scalar c"
  by (cases s) (auto simp: valid_name_def valid_char_scalar, auto simp: is_scalar_def)

lemma valid_name_append:
  assumes "valid_name s" and "\<forall>c \<in> set t. char_valid c"
  shows "valid_name (s @ t)"
  using assms by (cases s) (auto simp: valid_name_def)

lemma valid_nth_try:
  assumes "valid_name s"
  shows "valid_name (nth_try s n k)"
  using assms decimal_chars
  by (cases k) (auto simp: with_counter_def char_valid_def char_alphanumeric_def intro!: valid_name_append)

lemma valid_replaced:
  assumes "unicode_alphabetic alphabetic" and "\<forall>c \<in> set name. is_scalar c"
    and "name \<noteq> [] \<Longrightarrow> alphabetic (hd name) \<Longrightarrow> hd name < 128"
  shows "valid_name (replace_illegal_chars alphabetic name)"
proof (cases "is_valid (as_bytes name)")
  case True
  then show ?thesis using is_valid_name[OF assms(2)] by (simp add: replace_illegal_chars_def try_new_def)
next
  case False
  then show ?thesis using assms(1,3)
    by (cases name) (auto simp: replace_illegal_chars_def try_new_def valid_name_def unicode_alphabetic_def char_valid_def)
qed

text \<open>A string that starts with a character outside ASCII is not an identifier, whatever follows.\<close>

lemma non_ascii_start:
  assumes "is_scalar c" and "128 \<le> c"
  shows "\<not> is_valid (as_bytes (c # cs))"
proof -
  obtain b bs where b: "utf8 c = b # bs" using non_ascii_bytes(1)[OF assms] by (cases "utf8 c") auto
  then have "as_bytes (c # cs) = b # bs @ as_bytes cs" by (simp add: as_bytes_def)
  then show ?thesis using non_ascii_bytes(2)[OF assms, of b] b by (simp add: is_valid_all)
qed

lemma non_ascii_kept:
  assumes "is_scalar c" and "128 \<le> c" and "alphabetic c"
  shows "\<exists>ds. nth_try (replace_illegal_chars alphabetic (c # cs)) n k = c # ds"
  using non_ascii_start[OF assms(1,2), of cs] assms(3)
  by (cases k) (simp_all add: replace_illegal_chars_def try_new_def with_counter_def)

section \<open>Properties\<close>

text \<open>
  The byte loop of \<open>Identifier::is_valid\<close> accepts exactly the strings of the documented
  form, a letter or underscore followed by letters, digits and underscores, all ASCII; \<open>try_new\<close> and \<open>new\<close> return
  exactly those, and concatenation keeps the form.
\<close>

theorem is_valid_documented:
  assumes "\<forall>c \<in> set s. is_scalar c"
  shows "(is_valid (as_bytes s) \<longleftrightarrow>
      (\<exists>c cs. s = c # cs \<and> (char_alphabetic c \<or> c = underscore) \<and> (\<forall>d \<in> set cs. char_alphanumeric d \<or> d = underscore)))
    \<and> (try_new s = (if valid_name s then Inr (Identifier s) else Inl (MalformedIdentifierErr s)))
    \<and> (ident_new s = Inr (Identifier s) \<longleftrightarrow> valid_name s)
    \<and> (\<forall>i j. is_valid (as_bytes s) \<longrightarrow> try_new s = Inr i \<longrightarrow> valid_name (as_ref j) \<longrightarrow> valid_name (as_ref (ident_add i j)))"
proof (intro conjI allI impI)
  show "is_valid (as_bytes s) \<longleftrightarrow>
      (\<exists>c cs. s = c # cs \<and> (char_alphabetic c \<or> c = underscore) \<and> (\<forall>d \<in> set cs. char_alphanumeric d \<or> d = underscore))"
    unfolding is_valid_name[OF assms] by (cases s) (auto simp: valid_name_def char_valid_def)
  show "try_new s = (if valid_name s then Inr (Identifier s) else Inl (MalformedIdentifierErr s))"
    "ident_new s = Inr (Identifier s) \<longleftrightarrow> valid_name s"
    by (simp_all add: try_new_def ident_new_def is_valid_name[OF assms])
  fix i j assume "is_valid (as_bytes s)" "try_new s = Inr i" and j: "valid_name (as_ref j)"
  then have i: "as_ref i = s" "valid_name s" by (auto simp: try_new_def is_valid_name[OF assms])
  have "\<forall>c \<in> set (as_ref j). char_valid c"
    using j valid_char_scalar(2) by (cases "as_ref j") (auto simp: valid_name_def char_valid_def)
  then show "valid_name (as_ref (ident_add i j))" using valid_name_append[OF i(2)] i(1) by (simp add: ident_add_def)
qed

theorem is_valid_documented_witness:
  "is_valid (as_bytes [104, 105, 49]) \<and> \<not> is_valid (as_bytes [49, 104]) \<and> \<not> is_valid (as_bytes [233])"
  using is_valid_documented[of "[104, 105, 49]", THEN conjunct1] is_valid_documented[of "[49, 104]", THEN conjunct1]
    is_valid_documented[of "[233]", THEN conjunct1]
  by (simp add: is_scalar_def char_alphabetic_def char_alphanumeric_def)

text \<open>
  C31. For every sequence of names (short enough that the square of its length fits the counter) the
  legaliser answers each name; two names get the same identifier exactly when they are the same name, and
  \<open>source_name\<close> gives back the name of every identifier.
\<close>

theorem legaliser_roundtrip:
  assumes "length names ^ 2 < 2 ^ 64"
  shows "\<exists>is l. legalise_all alphabetic legaliser_default names = Some (is, l) \<and> length is = length names
    \<and> (\<forall>k < length names. source_name l (is ! k) = Some (names ! k))
    \<and> (\<forall>j < length names. \<forall>k < length names. is ! j = is ! k \<longleftrightarrow> names ! j = names ! k)"
proof -
  obtain "is" l where l: "legalise_all alphabetic legaliser_default names = Some (is, l)" "legaliser_ok alphabetic l"
      "map (str_to_id l) names = map Some is"
    using legalise_run[OF assms] by metis
  have n: "length is = length names" using arg_cong[OF l(3), of length] by simp
  have s: "str_to_id l (names ! k) = Some (is ! k)" if "k < length names" for k
    using arg_cong[OF l(3), of "\<lambda>xs. xs ! k"] that n by simp
  then have r: "source_name l (is ! k) = Some (names ! k)" if "k < length names" for k
    using l(2) that by (simp add: legaliser_ok_def source_name_def)
  have "is ! j = is ! k \<longleftrightarrow> names ! j = names ! k" if "j < length names" "k < length names" for j k
    using s[OF that(1)] s[OF that(2)] r[OF that(1)] r[OF that(2)] by auto
  then show ?thesis using l(1) n r by blast
qed

theorem legaliser_roundtrip_witness:
  "\<exists>is l. legalise_all char_alphabetic legaliser_default [[104, 46], [104, 95], [104, 46]] = Some (is, l) \<and> length is = 3
    \<and> source_name l (is ! 1) = Some [104, 95] \<and> is ! 0 = is ! 2 \<and> is ! 0 \<noteq> is ! 1"
proof -
  let ?names = "[[104, 46], [104, 95], [104, 46]] :: ustring list"
  have n: "length ?names = 3" "length ?names ^ 2 < 2 ^ 64" by (simp_all add: power2_eq_square)
  obtain "is" l where l: "legalise_all char_alphabetic legaliser_default ?names = Some (is, l)" "length is = length ?names"
      "\<forall>k < length ?names. source_name l (is ! k) = Some (?names ! k)"
      "\<forall>j < length ?names. \<forall>k < length ?names. is ! j = is ! k \<longleftrightarrow> ?names ! j = ?names ! k"
    using legaliser_roundtrip[OF n(2), of char_alphabetic] by blast
  have "source_name l (is ! 1) = Some (?names ! 1)" "is ! 0 = is ! 2 \<longleftrightarrow> ?names ! 0 = ?names ! 2"
      "is ! 0 = is ! 1 \<longleftrightarrow> ?names ! 0 = ?names ! 1"
    using l(3,4) unfolding n(1) by simp_all
  then show ?thesis using l(1,2) n(1) by (intro exI[of _ "is"] exI[of _ l]) simp
qed

text \<open>
  C32. The counter of the legaliser stays below the square of the number of names: each call advances it by at most
  the number of identifiers handed out before, so it does not wrap for any run whose length squared fits 64 bits.
\<close>

theorem legaliser_counter_bound:
  assumes "length names ^ 2 < 2 ^ 64" and "legalise_all alphabetic legaliser_default names = Some (is, l)"
  shows "unat (counter l) \<le> length names ^ 2 \<and> card (dom (rev_str_to_id l)) \<le> length names"
proof -
  have l: "legaliser_ok alphabetic l" "card (dom (rev_str_to_id l)) \<le> length names"
    using legalise_run[OF assms(1), of alphabetic] assms(2) by auto
  have "unat (counter l) \<le> card (dom (rev_str_to_id l)) ^ 2" using l(1) by (simp add: legaliser_ok_def power2_eq_square)
  also have "\<dots> \<le> length names ^ 2" using l(2) by (rule power_mono) simp
  finally show ?thesis using l(2) by blast
qed

theorem legaliser_counter_bound_witness:
  "\<exists>is l. legalise_all char_alphabetic legaliser_default [[104, 46], [104, 95]] = Some (is, l)
     \<and> unat (counter l) \<le> 4"
proof -
  obtain "is" l where l: "legalise_all char_alphabetic legaliser_default [[104, 46], [104, 95]] = Some (is, l)"
    by (rule legalise_run[of "[[104, 46], [104, 95]]" char_alphabetic]) (simp_all add: power2_eq_square)
  moreover have "length [[104, 46], [104, 95 :: uchar]] ^ 2 = 4" by (simp add: power2_eq_square)
  ultimately show ?thesis using legaliser_counter_bound[OF _ l] by fastforce
qed

text \<open>
  C33. An identifier the legaliser makes from a name that starts with an ASCII character, or with a character that
  is not alphabetic, or is empty, is a valid identifier.
\<close>

theorem legalised_is_valid:
  assumes "length names ^ 2 < 2 ^ 64" and "unicode_alphabetic alphabetic"
    and "\<forall>name \<in> set names. (\<forall>c \<in> set name. is_scalar c) \<and> (name \<noteq> [] \<and> alphabetic (hd name) \<longrightarrow> hd name < 128)"
  shows "\<exists>is l. legalise_all alphabetic legaliser_default names = Some (is, l)
    \<and> (\<forall>i \<in> set is. is_valid (as_bytes (as_ref i)))"
proof -
  obtain "is" l where l: "legalise_all alphabetic legaliser_default names = Some (is, l)" "legaliser_ok alphabetic l"
      "map (str_to_id l) names = map Some is"
    using legalise_run[OF assms(1)] by metis
  have "is_valid (as_bytes (as_ref i))" if i: "i \<in> set is" for i
  proof -
    have "Some i \<in> set (map (str_to_id l) names)" using i l(3) by simp
    then obtain name where name: "name \<in> set names" "str_to_id l name = Some i" by auto
    then obtain n k where "as_ref i = nth_try (replace_illegal_chars alphabetic name) n k"
      using l(2) unfolding legaliser_ok_def by blast
    then have "valid_name (as_ref i)" using valid_nth_try[OF valid_replaced[OF assms(2)]] assms(3) name(1) by auto
    then show ?thesis using is_valid_name[OF valid_name_scalar] by blast
  qed
  then show ?thesis using l(1) by blast
qed

theorem legalised_is_valid_witness:
  "\<exists>is l. legalise_all char_alphabetic legaliser_default [[], [104, 46], [233]] = Some (is, l)
     \<and> (\<forall>i \<in> set is. is_valid (as_bytes (as_ref i)))"
  by (rule legalised_is_valid) (simp_all add: unicode_alphabetic_def is_scalar_def char_alphabetic_def power2_eq_square)

text \<open>
  C34. Whatever the Unicode table, in every run of the legaliser each name that starts with an alphabetic character outside ASCII is made into an
  identifier that starts with this character too, and that \<open>Identifier\<close> itself rejects: \<open>is_valid\<close> is false, \<open>try_new\<close> returns the error, \<open>new\<close> panics.
\<close>

theorem legalised_is_invalid:
  assumes "length names ^ 2 < 2 ^ 64" and "k < length names" and "names ! k = c # cs"
    and "alphabetic c" and "is_scalar c" and "128 \<le> c"
  shows "\<exists>is l. legalise_all alphabetic legaliser_default names = Some (is, l) \<and> length is = length names
    \<and> (\<exists>ds. as_ref (is ! k) = c # ds) \<and> \<not> is_valid (as_bytes (as_ref (is ! k)))
    \<and> try_new (as_ref (is ! k)) = Inl (MalformedIdentifierErr (as_ref (is ! k)))
    \<and> ident_new (as_ref (is ! k)) = Inl (Panic ''value is not a valid Identifier'')"
proof -
  obtain "is" l where l: "legalise_all alphabetic legaliser_default names = Some (is, l)" "legaliser_ok alphabetic l"
      "map (str_to_id l) names = map Some is"
    using legalise_run[OF assms(1)] by metis
  have n: "length is = length names" using arg_cong[OF l(3), of length] by simp
  have "str_to_id l (c # cs) = Some (is ! k)" using arg_cong[OF l(3), of "\<lambda>xs. xs ! k"] assms(2,3) n by simp
  then obtain m j where "as_ref (is ! k) = nth_try (replace_illegal_chars alphabetic (c # cs)) m j"
    using l(2) unfolding legaliser_ok_def by blast
  then obtain ds where ds: "as_ref (is ! k) = c # ds" using non_ascii_kept[where alphabetic = alphabetic, OF assms(5,6,4)] by metis
  have "\<not> is_valid (as_bytes (as_ref (is ! k)))" unfolding ds by (rule non_ascii_start[OF assms(5,6)])
  then show ?thesis using l(1) n ds by (intro exI[of _ "is"] exI[of _ l]) (simp add: try_new_def ident_new_def)
qed

text \<open>With a table that knows e-acute, as the Unicode table does, and names that start with it.\<close>

theorem legalised_is_invalid_witness:
  "\<exists>is l. legalise_all (\<lambda>c. char_alphabetic c \<or> c = 233) legaliser_default [[104], [233, 46]] = Some (is, l)
     \<and> \<not> is_valid (as_bytes (as_ref (is ! 1)))"
proof -
  let ?names = "[[104], [233, 46]] :: ustring list"
  have "length ?names ^ 2 < 2 ^ 64" "1 < length ?names" "?names ! 1 = 233 # [46]" "is_scalar 233" "128 \<le> (233 :: nat)"
    by (simp_all add: power2_eq_square is_scalar_def)
  from legalised_is_invalid[where alphabetic = "\<lambda>c. char_alphabetic c \<or> c = 233", OF this(1-3) _ this(4,5)]
  show ?thesis by blast
qed

text \<open>
  Parsing a printed identifier gives it back and leaves what follows, if that does not go on with a letter, digit or
  underscore.
\<close>

theorem parse_identifier_roundtrip:
  assumes "valid_name (as_ref i)" and "\<forall>c. char_alphabetic c \<longrightarrow> letter c" and "\<forall>c. char_alphanumeric c \<longrightarrow> alpha_num c"
    and "rest \<noteq> [] \<longrightarrow> \<not> alpha_num (hd rest) \<and> hd rest \<noteq> underscore"
  shows "parse_identifier letter alpha_num (as_ref i @ rest) = Inr (Some (i, rest))"
proof -
  obtain c cs where c: "as_ref i = c # cs" "char_alphabetic c \<or> c = underscore" "\<forall>d \<in> set cs. char_valid d"
    using assms(1) by (cases "as_ref i") (auto simp: valid_name_def)
  let ?more = "\<lambda>c. alpha_num c \<or> c = underscore"
  have m: "\<forall>d \<in> set cs. ?more d" using c(3) assms(3) by (auto simp: char_valid_def)
  have r: "takeWhile ?more rest = []" "dropWhile ?more rest = rest" using assms(4) by (cases rest; simp)+
  have t: "takeWhile ?more (cs @ rest) = cs" "dropWhile ?more (cs @ rest) = rest"
    using m r by (simp_all add: takeWhile_append dropWhile_append)
  have "try_new (c # cs) = Inr i"
    using is_valid_name[OF valid_name_scalar[OF assms(1)]] assms(1) c(1) by (cases i) (simp add: try_new_def)
  then show ?thesis using c assms(2) t by (auto simp: parse_identifier_def Let_def)
qed

theorem parse_identifier_roundtrip_witness:
  "parse_identifier char_alphabetic char_alphanumeric ([104, 95, 49] @ [32, 104]) = Inr (Some (Identifier [104, 95, 49], [32, 104]))"
  using parse_identifier_roundtrip[of "Identifier [104, 95, 49]" char_alphabetic char_alphanumeric "[32, 104]"]
  by (simp add: valid_name_def char_valid_def char_alphanumeric_def char_alphabetic_def)

text \<open>A letter outside ASCII is taken by the parser and then rejected by \<open>Identifier\<close>: the parser panics.\<close>

lemma parse_identifier_panics:
  "parse_identifier (\<lambda>c. char_alphabetic c \<or> c = 233) alpha_num [233] =
     Inl (Panic ''Something is wrong in our Identifier parser'')"
proof -
  have "\<not> is_valid (as_bytes [233])" by code_simp
  then show ?thesis by (simp add: parse_identifier_def try_new_def Let_def)
qed

end
