(* ===== verification/Uniquer.thy ===== *)
theory Uniquer
  imports Prelude "HOL-Library.Word"
begin

text \<open>
  The store of unique objects, \<^verbatim>\<open>storage_uniquer.rs\<close>, and the handles of types made from it, \<^verbatim>\<open>type.rs\<close>, under \<^verbatim>\<open>src/src\<close>.

  The append-only vector that owns the objects comes from another crate: the record \<open>vec_api\<close> of its
  methods is a parameter, with the laws of the locale \<open>once_vec\<close>. The locale is interpreted on lists.
\<close>

section \<open>The store\<close>

record ('v, 't) vec_api =
  vec_new :: 'v
  vec_push :: "'v \<Rightarrow> 't \<Rightarrow> nat \<times> 'v"
  vec_get :: "'v \<Rightarrow> nat \<Rightarrow> 't option"

type_synonym type_value_hash = "64 word"

record 'v unique_store =
  unique_store :: 'v
  unique_stores_map :: "type_value_hash \<Rightarrow> nat list option"

definition store_default :: "('v, 't) vec_api \<Rightarrow> 'v unique_store" where
  "store_default V = \<lparr>unique_store = vec_new V, unique_stores_map = Map.empty\<rparr>"

fun find_match :: "('v, 't) vec_api \<Rightarrow> 'v \<Rightarrow> ('t \<Rightarrow> bool) \<Rightarrow> nat list \<Rightarrow> nat option option" where
  "find_match V v is_match [] = Some None"
| "find_match V v is_match (index # indices) = do {
     iref \<leftarrow> vec_get V v index;
     if is_match iref then Some (Some index) else find_match V v is_match indices
   }"

definition get_or_create_unique ::
    "('v, 't) vec_api \<Rightarrow> 'v unique_store \<Rightarrow> 't \<Rightarrow> type_value_hash \<Rightarrow> ('t \<Rightarrow> 't \<Rightarrow> bool) \<Rightarrow> (nat \<times> 'v unique_store) option"
where
  "get_or_create_unique V s t hash eq =
     (case unique_stores_map s hash of
        Some possible_matches \<Rightarrow> do {
          index_opt \<leftarrow> find_match V (unique_store s) (eq t) possible_matches;
          case index_opt of
            Some index \<Rightarrow> Some (index, s)
          | None \<Rightarrow>
              (let (index, v) = vec_push V (unique_store s) t
               in Some (index, s\<lparr>unique_store := v,
                    unique_stores_map := (unique_stores_map s)(hash \<mapsto> possible_matches @ [index])\<rparr>))
        }
      | None \<Rightarrow>
          (let (new_index, v) = vec_push V (unique_store s) t
           in Some (new_index, s\<lparr>unique_store := v,
                unique_stores_map := (unique_stores_map s)(hash \<mapsto> [new_index])\<rparr>)))"

definition get_unique ::
    "('v, 't) vec_api \<Rightarrow> 'v unique_store \<Rightarrow> type_value_hash \<Rightarrow> ('t \<Rightarrow> bool) \<Rightarrow> nat option option" where
  "get_unique V s hash is_match =
     (case unique_stores_map s hash of None \<Rightarrow> Some None | Some mv \<Rightarrow> find_match V (unique_store s) is_match mv)"

section \<open>Type handles\<close>

text \<open>A type comes with its hash and its equality (\<open>hash_type\<close> and \<open>eq_type\<close>), which are arguments.\<close>

datatype type_handle = TypeHandle nat

definition instantiate ::
    "('v, 't) vec_api \<Rightarrow> ('t \<Rightarrow> type_value_hash) \<Rightarrow> ('t \<Rightarrow> 't \<Rightarrow> bool) \<Rightarrow> 'v unique_store \<Rightarrow> 't
     \<Rightarrow> (type_handle \<times> 'v unique_store) option"
where
  "instantiate V hash_type eq_type type_store t = do {
     (idx, type_store) \<leftarrow> get_or_create_unique V type_store t (hash_type t) eq_type;
     Some (TypeHandle idx, type_store)
   }"

fun type_deref :: "('v, 't) vec_api \<Rightarrow> 'v unique_store \<Rightarrow> type_handle \<Rightarrow> 't option" where
  "type_deref V type_store (TypeHandle idx) = vec_get V (unique_store type_store) idx"

definition get_self_handle ::
    "('v, 't) vec_api \<Rightarrow> ('t \<Rightarrow> type_value_hash) \<Rightarrow> ('t \<Rightarrow> 't \<Rightarrow> bool) \<Rightarrow> 'v unique_store \<Rightarrow> 't \<Rightarrow> type_handle option"
where
  "get_self_handle V hash_type eq_type type_store t = do {
     found \<leftarrow> get_unique V type_store (hash_type t) (eq_type t);
     idx \<leftarrow> found;
     Some (TypeHandle idx)
   }"

text \<open>A run of \<open>instantiate\<close>, with the handles it returns.\<close>

fun instantiate_all ::
    "('v, 't) vec_api \<Rightarrow> ('t \<Rightarrow> type_value_hash) \<Rightarrow> ('t \<Rightarrow> 't \<Rightarrow> bool) \<Rightarrow> 'v unique_store \<Rightarrow> 't list
     \<Rightarrow> (type_handle list \<times> 'v unique_store) option"
where
  "instantiate_all V hash eq s [] = Some ([], s)"
| "instantiate_all V hash eq s (t # ts) = do {
     (h, s) \<leftarrow> instantiate V hash eq s t;
     (hs, s) \<leftarrow> instantiate_all V hash eq s ts;
     Some (h # hs, s)
   }"

section \<open>The laws of the vector\<close>

locale once_vec =
  fixes V :: "('v, 't) vec_api" and ok :: "'v \<Rightarrow> bool"
  assumes new_ok: "ok (vec_new V)" and get_new: "vec_get V (vec_new V) = Map.empty"
    and push_ok: "ok v \<Longrightarrow> vec_push V v t = (i, v') \<Longrightarrow> ok v'"
    and push_index: "ok v \<Longrightarrow> vec_push V v t = (i, v') \<Longrightarrow> vec_get V v i = None"
    and push_get: "ok v \<Longrightarrow> vec_push V v t = (i, v') \<Longrightarrow> vec_get V v' = (vec_get V v)(i \<mapsto> t)"

text \<open>Equal objects have equal hashes, as the traits \<open>Hash\<close> and \<open>Eq\<close> require.\<close>

locale uniquing = once_vec V ok for V :: "('v, 't) vec_api" and ok :: "'v \<Rightarrow> bool" +
  fixes hash :: "'t \<Rightarrow> type_value_hash" and eq :: "'t \<Rightarrow> 't \<Rightarrow> bool"
  assumes eq: "equivp eq" and hash_eq: "eq t u \<Longrightarrow> hash t = hash u"
begin

definition store_ok :: "'v unique_store \<Rightarrow> bool" where
  "store_ok s \<longleftrightarrow> ok (unique_store s)
     \<and> (\<forall>h is i. unique_stores_map s h = Some is \<longrightarrow> i \<in> set is \<longrightarrow> (\<exists>t. vec_get V (unique_store s) i = Some t \<and> hash t = h))
     \<and> (\<forall>i t. vec_get V (unique_store s) i = Some t \<longrightarrow> (\<exists>is. unique_stores_map s (hash t) = Some is \<and> i \<in> set is))
     \<and> (\<forall>i j t u. vec_get V (unique_store s) i = Some t \<longrightarrow> vec_get V (unique_store s) j = Some u \<longrightarrow> eq t u \<longrightarrow> i = j)"

lemma store_ok_unique:
  assumes "store_ok s" and "vec_get V (unique_store s) i = Some t" and "vec_get V (unique_store s) j = Some u" and "eq t u"
  shows "i = j"
proof -
  have "\<forall>i j t u. vec_get V (unique_store s) i = Some t \<longrightarrow> vec_get V (unique_store s) j = Some u \<longrightarrow> eq t u \<longrightarrow> i = j"
    using assms(1) unfolding store_ok_def by (elim conjE)
  from this[rule_format, OF assms(2-4)] show ?thesis .
qed

lemma find_match_spec:
  assumes "\<forall>i \<in> set is. vec_get V v i \<noteq> None"
  shows "\<exists>r. find_match V v P is = Some r
    \<and> (case r of Some i \<Rightarrow> i \<in> set is \<and> (\<exists>t. vec_get V v i = Some t \<and> P t)
         | None \<Rightarrow> \<forall>i \<in> set is. \<forall>t. vec_get V v i = Some t \<longrightarrow> \<not> P t)"
  using assms by (induction "is") (auto split: option.splits)

lemma default_ok: "store_ok (store_default V)"
  by (simp add: store_ok_def store_default_def new_ok get_new)

lemma eq_rules: "eq t t" "eq t u \<Longrightarrow> eq u t" "eq t u \<Longrightarrow> eq u x \<Longrightarrow> eq t x"
  using eq by (auto elim: equivpE dest: reflpD sympD transpD)

text \<open>A push under the hash of an object that no stored object equals.\<close>

lemma push_unique_ok:
  assumes s: "store_ok s" and p: "vec_push V (unique_store s) t = (i, v)"
    and new: "\<And>j u. vec_get V (unique_store s) j = Some u \<Longrightarrow> \<not> eq t u"
    and ixs: "ixs = (case unique_stores_map s (hash t) of None \<Rightarrow> [] | Some xs \<Rightarrow> xs) @ [i]"
  shows "store_ok (s\<lparr>unique_store := v, unique_stores_map := (unique_stores_map s)(hash t \<mapsto> ixs)\<rparr>)"
    and "vec_get V v = (vec_get V (unique_store s))(i \<mapsto> t)" and "vec_get V (unique_store s) i = None"
proof -
  have ok: "ok (unique_store s)" using s by (simp add: store_ok_def)
  show g: "vec_get V v = (vec_get V (unique_store s))(i \<mapsto> t)" and n: "vec_get V (unique_store s) i = None"
    using push_get[OF ok p] push_index[OF ok p] .
  show "store_ok (s\<lparr>unique_store := v, unique_stores_map := (unique_stores_map s)(hash t \<mapsto> ixs)\<rparr>)"
    unfolding store_ok_def
  proof (intro conjI allI impI)
    show "ok (unique_store (s\<lparr>unique_store := v, unique_stores_map := (unique_stores_map s)(hash t \<mapsto> ixs)\<rparr>))"
      using push_ok[OF ok p] by simp
  next
    fix h xs j
    assume "unique_stores_map (s\<lparr>unique_store := v, unique_stores_map := (unique_stores_map s)(hash t \<mapsto> ixs)\<rparr>) h = Some xs" "j \<in> set xs"
    then show "\<exists>u. vec_get V (unique_store (s\<lparr>unique_store := v, unique_stores_map := (unique_stores_map s)(hash t \<mapsto> ixs)\<rparr>)) j = Some u \<and> hash u = h"
      using s g n ixs unfolding store_ok_def by (fastforce split: if_splits option.splits)
  next
    fix j u
    assume "vec_get V (unique_store (s\<lparr>unique_store := v, unique_stores_map := (unique_stores_map s)(hash t \<mapsto> ixs)\<rparr>)) j = Some u"
    then show "\<exists>xs. unique_stores_map (s\<lparr>unique_store := v, unique_stores_map := (unique_stores_map s)(hash t \<mapsto> ixs)\<rparr>) (hash u) = Some xs \<and> j \<in> set xs"
      using s g n ixs unfolding store_ok_def by (fastforce split: if_splits option.splits)
  next
    fix j k u w
    assume "vec_get V (unique_store (s\<lparr>unique_store := v, unique_stores_map := (unique_stores_map s)(hash t \<mapsto> ixs)\<rparr>)) j = Some u"
      "vec_get V (unique_store (s\<lparr>unique_store := v, unique_stores_map := (unique_stores_map s)(hash t \<mapsto> ixs)\<rparr>)) k = Some w" "eq u w"
    then show "j = k"
      using s g new eq_rules(2) unfolding store_ok_def by (fastforce split: if_splits)
  qed
qed

lemma create_ok:
  assumes s: "store_ok s"
  shows "\<exists>i s'. get_or_create_unique V s t (hash t) eq = Some (i, s') \<and> store_ok s'
    \<and> vec_get V (unique_store s) \<subseteq>\<^sub>m vec_get V (unique_store s')
    \<and> (\<exists>u. vec_get V (unique_store s') i = Some u \<and> eq t u)
    \<and> (\<forall>j u. vec_get V (unique_store s) j = Some u \<longrightarrow> eq t u \<longrightarrow> s' = s \<and> i = j)"
proof -
  let ?xs = "case unique_stores_map s (hash t) of None \<Rightarrow> [] | Some xs \<Rightarrow> xs"
  have live: "\<forall>i \<in> set ?xs. vec_get V (unique_store s) i \<noteq> None"
    using s unfolding store_ok_def by (cases "unique_stores_map s (hash t)") (simp, fastforce)
  obtain r where r: "find_match V (unique_store s) (eq t) ?xs = Some r"
      "case r of Some i \<Rightarrow> i \<in> set ?xs \<and> (\<exists>u. vec_get V (unique_store s) i = Some u \<and> eq t u)
         | None \<Rightarrow> \<forall>i \<in> set ?xs. \<forall>u. vec_get V (unique_store s) i = Some u \<longrightarrow> \<not> eq t u"
    using find_match_spec[OF live] by blast
  show ?thesis
  proof (cases r)
    case (Some i)
    then have i: "i \<in> set ?xs" "\<exists>u. vec_get V (unique_store s) i = Some u \<and> eq t u" using r(2) by simp_all
    have "?xs \<noteq> []" by (rule notI) (use i(1) in simp)
    with i(2) obtain u where u: "vec_get V (unique_store s) i = Some u" "eq t u" "?xs \<noteq> []" by blast
    have e: "get_or_create_unique V s t (hash t) eq = Some (i, s)"
      using r(1) Some u(3) by (auto simp: get_or_create_unique_def split: option.splits)
    have un: "i = j" if "vec_get V (unique_store s) j = Some w" "eq t w" for j w
    proof -
      have "eq u w" using u(2) that(2) eq_rules(2,3) by blast
      then show ?thesis by (rule store_ok_unique[OF s u(1) that(1)])
    qed
    have "\<exists>u. vec_get V (unique_store s) i = Some u \<and> eq t u" using u(1,2) by blast
    moreover have "\<forall>j w. vec_get V (unique_store s) j = Some w \<longrightarrow> eq t w \<longrightarrow> s = s \<and> i = j"
      by (intro allI impI conjI refl un)
    ultimately show ?thesis using e s map_le_refl by metis
  next
    case None
    have new: "\<not> eq t u" if "vec_get V (unique_store s) j = Some u" for j u
    proof
      assume "eq t u"
      moreover have "\<exists>xs. unique_stores_map s (hash u) = Some xs \<and> j \<in> set xs" using s that unfolding store_ok_def by blast
      ultimately show False using r(2) None that hash_eq by auto
    qed
    obtain i v where p: "vec_push V (unique_store s) t = (i, v)" by fastforce
    have "get_or_create_unique V s t (hash t) eq = Some (i, s\<lparr>unique_store := v,
        unique_stores_map := (unique_stores_map s)(hash t \<mapsto> ?xs @ [i])\<rparr>)"
      using r(1) None p by (auto simp: get_or_create_unique_def split: option.splits)
    moreover note push_unique_ok[OF s p new refl]
    ultimately show ?thesis using new eq_rules(1) by (auto simp: map_le_def)
  qed
qed

lemma get_unique_ok:
  assumes "store_ok s" and "vec_get V (unique_store s) i = Some u" and "eq t u"
  shows "get_unique V s (hash t) (eq t) = Some (Some i)"
proof -
  obtain xs where xs: "unique_stores_map s (hash t) = Some xs" "i \<in> set xs"
    using assms hash_eq[OF assms(3)] unfolding store_ok_def by metis
  have "\<forall>i \<in> set xs. vec_get V (unique_store s) i \<noteq> None" using assms(1) xs(1) unfolding store_ok_def by fastforce
  then obtain r where r: "find_match V (unique_store s) (eq t) xs = Some r"
      "case r of Some i \<Rightarrow> i \<in> set xs \<and> (\<exists>u. vec_get V (unique_store s) i = Some u \<and> eq t u)
         | None \<Rightarrow> \<forall>i \<in> set xs. \<forall>u. vec_get V (unique_store s) i = Some u \<longrightarrow> \<not> eq t u"
    using find_match_spec by blast
  have "r \<noteq> None" using r(2) xs(2) assms(2,3) by (auto split: option.splits)
  then obtain j w where j: "r = Some j" "vec_get V (unique_store s) j = Some w" "eq t w" using r(2) by auto
  have "eq u w" using assms(3) j(3) eq_rules(2,3) by blast
  then have "i = j" by (rule store_ok_unique[OF assms(1,2) j(2)])
  then show ?thesis using r(1) j(1) xs(1) by (simp add: get_unique_def)
qed

lemma instantiate_all_ok:
  assumes "store_ok s"
  shows "\<exists>hs s'. instantiate_all V hash eq s ts = Some (hs, s') \<and> store_ok s'
    \<and> vec_get V (unique_store s) \<subseteq>\<^sub>m vec_get V (unique_store s') \<and> length hs = length ts
    \<and> (\<forall>k < length ts. \<exists>u. type_deref V s' (hs ! k) = Some u \<and> eq (ts ! k) u)"
  using assms
proof (induction ts arbitrary: s)
  case (Cons t ts)
  obtain i s1 u where s1: "get_or_create_unique V s t (hash t) eq = Some (i, s1)" "store_ok s1"
      "vec_get V (unique_store s) \<subseteq>\<^sub>m vec_get V (unique_store s1)"
      "vec_get V (unique_store s1) i = Some u" "eq t u"
    using create_ok[OF Cons.prems] by blast
  obtain hs s2 where s2: "instantiate_all V hash eq s1 ts = Some (hs, s2)" "store_ok s2"
      "vec_get V (unique_store s1) \<subseteq>\<^sub>m vec_get V (unique_store s2)" "length hs = length ts"
      "\<forall>k < length ts. \<exists>u. type_deref V s2 (hs ! k) = Some u \<and> eq (ts ! k) u"
    using Cons.IH[OF s1(2)] by blast
  have "vec_get V (unique_store s2) i = Some u" using s1(4) s2(3) by (metis domI map_le_def)
  then show ?case using s1 s2 map_le_trans[OF s1(3) s2(3)]
    by (auto simp: instantiate_def nth_Cons split: nat.split)
qed simp

lemma handles:
  obtains hs s where "instantiate_all V hash eq (store_default V) ts = Some (hs, s)" and "length hs = length ts"
    and "\<forall>k < length ts. (\<exists>u. type_deref V s (hs ! k) = Some u \<and> eq (ts ! k) u
      \<and> get_self_handle V hash eq s u = Some (hs ! k) \<and> get_self_handle V hash eq s (ts ! k) = Some (hs ! k))"
    and "\<forall>j < length ts. \<forall>k < length ts. hs ! j = hs ! k \<longleftrightarrow> eq (ts ! j) (ts ! k)"
proof -
  obtain hs s where s: "instantiate_all V hash eq (store_default V) ts = Some (hs, s)" "store_ok s" "length hs = length ts"
      "\<And>k. k < length ts \<Longrightarrow> \<exists>u. type_deref V s (hs ! k) = Some u \<and> eq (ts ! k) u"
    using instantiate_all_ok[OF default_ok] by blast
  have g: "get_self_handle V hash eq s t = Some h" if "type_deref V s h = Some u" "eq t u" for t u h
    using get_unique_ok[OF s(2) _ that(2)] that(1) by (cases h) (simp add: get_self_handle_def)
  have "\<exists>u. type_deref V s (hs ! k) = Some u \<and> eq (ts ! k) u
      \<and> get_self_handle V hash eq s u = Some (hs ! k) \<and> get_self_handle V hash eq s (ts ! k) = Some (hs ! k)"
    if "k < length ts" for k
    using s(4)[OF that] g eq_rules(1) by blast
  moreover have "hs ! j = hs ! k \<longleftrightarrow> eq (ts ! j) (ts ! k)" if jk: "j < length ts" "k < length ts" for j k
  proof -
    obtain u w where u: "type_deref V s (hs ! j) = Some u" "eq (ts ! j) u" and w: "type_deref V s (hs ! k) = Some w" "eq (ts ! k) w"
      using s(4)[OF jk(1)] s(4)[OF jk(2)] by blast
    show ?thesis
    proof
      assume "hs ! j = hs ! k"
      then have "u = w" using u(1) w(1) by simp
      then show "eq (ts ! j) (ts ! k)" using u(2) w(2) eq_rules(2,3) by blast
    next
      assume e: "eq (ts ! j) (ts ! k)"
      show "hs ! j = hs ! k" using g[OF u] g[OF w(1) eq_rules(3)[OF e w(2)]] by simp
    qed
  qed
  ultimately show thesis using that s(1,3) by blast
qed

end

section \<open>Interpretation on lists\<close>

definition list_vec :: "('t list, 't) vec_api" where
  "list_vec = \<lparr>vec_new = [], vec_push = (\<lambda>v t. (length v, v @ [t])), vec_get = (\<lambda>v i. if i < length v then Some (v ! i) else None)\<rparr>"

interpretation lv: once_vec list_vec "\<lambda>_. True"
  by unfold_locales (auto simp: list_vec_def fun_eq_iff nth_append)

text \<open>Types compared structurally, under any hash function.\<close>

interpretation structural: uniquing list_vec "\<lambda>_. True" hash "(=)" for hash :: "'t \<Rightarrow> type_value_hash"
  by unfold_locales (simp_all add: identity_equivp)

section \<open>Properties\<close>

text \<open>
  C35. Types are uniqued. For every sequence of types that are instantiated, two get the same handle exactly when they are
  equal, whatever the collisions of their hashes; a handle leads to a stored type equal to the one
  it was made from, and \<open>get_self_handle\<close> of that type gives the handle back.
\<close>

theorem types_are_uniqued:
  assumes "once_vec V ok" and "equivp eq" and "\<And>t u. eq t u \<Longrightarrow> hash t = hash u"
  shows "\<exists>hs s. instantiate_all V hash eq (store_default V) ts = Some (hs, s) \<and> length hs = length ts
    \<and> (\<forall>k < length ts. (\<exists>u. type_deref V s (hs ! k) = Some u \<and> eq (ts ! k) u
      \<and> get_self_handle V hash eq s u = Some (hs ! k) \<and> get_self_handle V hash eq s (ts ! k) = Some (hs ! k)))
    \<and> (\<forall>j < length ts. \<forall>k < length ts. hs ! j = hs ! k \<longleftrightarrow> eq (ts ! j) (ts ! k))"
proof -
  have "uniquing V ok hash eq" using assms by (intro uniquing.intro uniquing_axioms.intro)
  then show ?thesis by (rule uniquing.handles[of V ok hash eq ts]) blast
qed

theorem types_are_uniqued_witness:
  "\<exists>hs s. instantiate_all list_vec (\<lambda>_ :: nat. 0) (=) (store_default list_vec) [3, 5, 3] = Some (hs, s) \<and> length hs = 3
    \<and> hs ! 0 = hs ! 2 \<and> hs ! 0 \<noteq> hs ! 1 \<and> type_deref list_vec s (hs ! 1) = Some 5"
proof -
  let ?ts = "[3, 5, 3 :: nat]"
  have n: "length ?ts = 3" by simp
  obtain hs s where h: "instantiate_all list_vec (\<lambda>_ :: nat. 0) (=) (store_default list_vec) ?ts = Some (hs, s)" "length hs = length ?ts"
      "\<forall>k < length ?ts. \<exists>u. type_deref list_vec s (hs ! k) = Some u \<and> ?ts ! k = u"
      "\<forall>j < length ?ts. \<forall>k < length ?ts. hs ! j = hs ! k \<longleftrightarrow> ?ts ! j = ?ts ! k"
    using types_are_uniqued[OF lv.once_vec_axioms identity_equivp, of "\<lambda>_. 0" ?ts] by auto
  have "hs ! 0 = hs ! 2 \<longleftrightarrow> ?ts ! 0 = ?ts ! 2" "hs ! 0 = hs ! 1 \<longleftrightarrow> ?ts ! 0 = ?ts ! 1" "type_deref list_vec s (hs ! 1) = Some (?ts ! 1)"
    using h(3,4) unfolding n by simp_all
  then show ?thesis using h(1,2) n by (intro exI[of _ hs] exI[of _ s]) simp
qed

end
