(* ===== verification/Inserter.thy ===== *)
theory Inserter
  imports IrErase
begin

text \<open>
  Insertion points, listeners and the inserter: \<^verbatim>\<open>irbuild/inserter.rs\<close> and \<^verbatim>\<open>irbuild/listener.rs\<close> under \<^verbatim>\<open>src/src\<close>.

  A listener is the record of its callbacks on a state \<open>'l\<close>; \<open>None\<close> is a panic of the callback. An inserter
  holds the insertion point, whether it modified the IR, and the state of its listener.
\<close>

section \<open>Insertion points\<close>

datatype op_insertion_point =
    Unset
  | AtBlockStart block_ptr
  | AtBlockEnd block_ptr
  | AfterOperation op_ptr
  | BeforeOperation op_ptr

datatype block_insertion_point =
    UnsetBlock
  | AtRegionStart region_ptr
  | AtRegionEnd region_ptr
  | AfterBlock block_ptr
  | BeforeBlock block_ptr

definition get_insertion_block :: "('ty, 'c, 'a) ctx \<Rightarrow> op_insertion_point \<Rightarrow> block_ptr option option" where
  "get_insertion_block ctx point =
     (case point of
        AtBlockStart block \<Rightarrow> Some (Some block)
      | AtBlockEnd block \<Rightarrow> Some (Some block)
      | AfterOperation p \<Rightarrow> get_parent_block ctx p
      | BeforeOperation p \<Rightarrow> get_parent_block ctx p
      | Unset \<Rightarrow> Some None)"

definition is_set :: "op_insertion_point \<Rightarrow> bool" where
  "is_set point \<longleftrightarrow> point \<noteq> Unset"

definition get_insertion_region :: "('ty, 'c, 'a) ctx \<Rightarrow> block_insertion_point \<Rightarrow> region_ptr option option" where
  "get_insertion_region ctx point =
     (case point of
        AtRegionStart region \<Rightarrow> Some (Some region)
      | AtRegionEnd region \<Rightarrow> Some (Some region)
      | AfterBlock block \<Rightarrow> block_parent_region ctx block
      | BeforeBlock block \<Rightarrow> block_parent_region ctx block
      | UnsetBlock \<Rightarrow> Some None)"

definition block_point_is_set :: "block_insertion_point \<Rightarrow> bool" where
  "block_point_is_set point \<longleftrightarrow> point \<noteq> UnsetBlock"

section \<open>Listeners\<close>

record ('ty, 'c, 'a, 'l) rewrite_listener =
  notify_operation_inserted :: "('ty, 'c, 'a) ctx \<Rightarrow> op_ptr \<Rightarrow> 'l \<Rightarrow> 'l option"
  notify_block_inserted :: "('ty, 'c, 'a) ctx \<Rightarrow> block_ptr \<Rightarrow> 'l \<Rightarrow> 'l option"
  notify_operation_erasure :: "('ty, 'c, 'a) ctx \<Rightarrow> op_ptr \<Rightarrow> 'l \<Rightarrow> 'l option"
  notify_value_use_replacement :: "('ty, 'c, 'a) ctx \<Rightarrow> ssa_value \<Rightarrow> ssa_value \<Rightarrow> 'l \<Rightarrow> 'l option"
  notify_value_type_change :: "('ty, 'c, 'a) ctx \<Rightarrow> ssa_value \<Rightarrow> 'ty \<Rightarrow> 'ty \<Rightarrow> 'l \<Rightarrow> 'l option"
  notify_block_erasure :: "('ty, 'c, 'a) ctx \<Rightarrow> block_ptr \<Rightarrow> 'l \<Rightarrow> 'l option"
  notify_region_erasure :: "('ty, 'c, 'a) ctx \<Rightarrow> region_ptr \<Rightarrow> 'l \<Rightarrow> 'l option"
  notify_operation_unlinking :: "('ty, 'c, 'a) ctx \<Rightarrow> op_ptr \<Rightarrow> 'l \<Rightarrow> 'l option"
  notify_block_unlinking :: "('ty, 'c, 'a) ctx \<Rightarrow> block_ptr \<Rightarrow> 'l \<Rightarrow> 'l option"

definition dummy_listener :: "('ty, 'c, 'a, unit) rewrite_listener" where
  "dummy_listener =
     \<lparr>notify_operation_inserted = (\<lambda>_ _ l. Some l),
      notify_block_inserted = (\<lambda>_ _ l. Some l),
      notify_operation_erasure = (\<lambda>_ _ l. Some l),
      notify_value_use_replacement = (\<lambda>_ _ _ l. Some l),
      notify_value_type_change = (\<lambda>_ _ _ _ l. Some l),
      notify_block_erasure = (\<lambda>_ _ l. Some l),
      notify_region_erasure = (\<lambda>_ _ l. Some l),
      notify_operation_unlinking = (\<lambda>_ _ l. Some l),
      notify_block_unlinking = (\<lambda>_ _ l. Some l)\<rparr>"

datatype 'ty recorder_event =
    InsertedOperation op_ptr
  | InsertedBlock block_ptr
  | ErasedOperation op_ptr
  | ReplacedValueUses ssa_value 'ty ssa_value
  | ValueTypeChanged ssa_value 'ty 'ty
  | ErasedBlock block_ptr
  | ErasedRegion region_ptr
  | UnlinkedOperation op_ptr op_insertion_point
  | UnlinkedBlock block_ptr block_insertion_point

type_synonym 'ty recorder_events = "'ty recorder_event list"

definition previous_op_position :: "('ty, 'c, 'a) ctx \<Rightarrow> op_ptr \<Rightarrow> op_insertion_point option" where
  "previous_op_position ctx p = do {
     operation_ref \<leftarrow> nodes (op_links ctx) p;
     parent_ptr \<leftarrow> get_container operation_ref;
     parent \<leftarrow> roots (op_links ctx) parent_ptr;
     if get_head parent = Some p then Some (AtBlockStart parent_ptr)
     else if get_tail parent = Some p then Some (AtBlockEnd parent_ptr)
     else map_option AfterOperation (get_prev operation_ref)
   }"

definition previous_block_position :: "('ty, 'c, 'a) ctx \<Rightarrow> block_ptr \<Rightarrow> block_insertion_point option" where
  "previous_block_position ctx b = do {
     block_ref \<leftarrow> nodes (block_links ctx) b;
     parent_region_ptr \<leftarrow> get_container block_ref;
     parent_region \<leftarrow> roots (block_links ctx) parent_region_ptr;
     if get_head parent_region = Some b then Some (AtRegionStart parent_region_ptr)
     else if get_tail parent_region = Some b then Some (AtRegionEnd parent_region_ptr)
     else map_option AfterBlock (get_prev block_ref)
   }"

definition recorder :: "('ty, 'c, 'a, 'ty recorder_events) rewrite_listener" where
  "recorder =
     \<lparr>notify_operation_inserted = (\<lambda>_ p events. Some (events @ [InsertedOperation p])),
      notify_block_inserted = (\<lambda>_ b events. Some (events @ [InsertedBlock b])),
      notify_operation_erasure = (\<lambda>_ p events. Some (events @ [ErasedOperation p])),
      notify_value_use_replacement = (\<lambda>ctx old_value new_value events. do {
        old_type \<leftarrow> value_type ctx old_value;
        Some (events @ [ReplacedValueUses old_value old_type new_value])
      }),
      notify_value_type_change = (\<lambda>_ v old_type new_type events. Some (events @ [ValueTypeChanged v old_type new_type])),
      notify_block_erasure = (\<lambda>_ b events. Some (events @ [ErasedBlock b])),
      notify_region_erasure = (\<lambda>_ r events. Some (events @ [ErasedRegion r])),
      notify_operation_unlinking = (\<lambda>ctx p events. do {
        previous_position \<leftarrow> previous_op_position ctx p;
        Some (events @ [UnlinkedOperation p previous_position])
      }),
      notify_block_unlinking = (\<lambda>ctx b events. do {
        previous_position \<leftarrow> previous_block_position ctx b;
        Some (events @ [UnlinkedBlock b previous_position])
      })\<rparr>"

section \<open>The inserter\<close>

record 'l ir_inserter =
  op_insertion_point :: op_insertion_point
  modified :: bool
  listener :: 'l

definition inserter_new :: "op_insertion_point \<Rightarrow> 'l \<Rightarrow> 'l ir_inserter" where
  "inserter_new point l = \<lparr>op_insertion_point = point, modified = False, listener = l\<rparr>"

definition new_before_block_terminator ::
    "('c \<Rightarrow> bool) \<Rightarrow> ('ty, 'c, 'a) ctx \<Rightarrow> block_ptr \<Rightarrow> 'l \<Rightarrow> 'l ir_inserter option"
where
  "new_before_block_terminator is_term ctx block l = do {
     terminator \<leftarrow> get_terminator is_term ctx block;
     terminator_op \<leftarrow> terminator;
     Some (inserter_new (BeforeOperation terminator_op) l)
   }"

definition insert_operation ::
    "('ty, 'c, 'a, 'l) rewrite_listener \<Rightarrow> 'l ir_inserter \<times> ('ty, 'c, 'a) ctx \<Rightarrow> op_ptr
     \<Rightarrow> ('l ir_inserter \<times> ('ty, 'c, 'a) ctx) option"
where
  "insert_operation L = (\<lambda>(self, ctx) p. do {
     linked \<leftarrow> of_outcome (is_linked (op_links ctx) p);
     _ \<leftarrow> ocheck (\<not> linked);
     links \<leftarrow> (case op_insertion_point self of
         AtBlockStart block \<Rightarrow> of_outcome (insert_at_front (op_links ctx) p block)
       | AtBlockEnd block \<Rightarrow> of_outcome (insert_at_back (op_links ctx) p block)
       | AfterOperation q \<Rightarrow> of_outcome (insert_after (op_links ctx) p q)
       | BeforeOperation q \<Rightarrow> of_outcome (insert_before (op_links ctx) p q)
       | Unset \<Rightarrow> None);
     let ctx = ctx\<lparr>op_links := links\<rparr>;
     l \<leftarrow> notify_operation_inserted L ctx p (listener self);
     Some (self\<lparr>listener := l, modified := True\<rparr>, ctx)
   })"

definition append_operation ::
    "('ty, 'c, 'a, 'l) rewrite_listener \<Rightarrow> 'l ir_inserter \<times> ('ty, 'c, 'a) ctx \<Rightarrow> op_ptr
     \<Rightarrow> ('l ir_inserter \<times> ('ty, 'c, 'a) ctx) option"
where
  "append_operation L st p = do {
     (self, ctx) \<leftarrow> insert_operation L st p;
     Some (self\<lparr>op_insertion_point := AfterOperation p\<rparr>, ctx)
   }"

definition insert_block ::
    "('ty, 'c, 'a, 'l) rewrite_listener \<Rightarrow> 'l ir_inserter \<times> ('ty, 'c, 'a) ctx \<Rightarrow> block_insertion_point \<Rightarrow> block_ptr
     \<Rightarrow> ('l ir_inserter \<times> ('ty, 'c, 'a) ctx) option"
where
  "insert_block L = (\<lambda>(self, ctx) point block. do {
     links \<leftarrow> (case point of
         AtRegionStart region \<Rightarrow> of_outcome (insert_at_front (block_links ctx) block region)
       | AtRegionEnd region \<Rightarrow> of_outcome (insert_at_back (block_links ctx) block region)
       | AfterBlock prev_block \<Rightarrow> of_outcome (insert_after (block_links ctx) block prev_block)
       | BeforeBlock next_block \<Rightarrow> of_outcome (insert_before (block_links ctx) block next_block)
       | UnsetBlock \<Rightarrow> None);
     let ctx = ctx\<lparr>block_links := links\<rparr>;
     l \<leftarrow> notify_block_inserted L ctx block (listener self);
     Some (self\<lparr>listener := l, modified := True\<rparr>, ctx)
   })"

text \<open>The key of the new block is an argument, as for every allocation.\<close>

definition create_block ::
    "('ty, 'c, 'a, 'l) rewrite_listener \<Rightarrow> 'l ir_inserter \<times> ('ty, 'c, 'a) ctx \<Rightarrow> block_insertion_point \<Rightarrow> block_ptr
     \<Rightarrow> ident option \<Rightarrow> 'ty list \<Rightarrow> ('l ir_inserter \<times> ('ty, 'c, 'a) ctx) option"
where
  "create_block L = (\<lambda>(self, ctx) point block lbl arg_types. do {
     ctx \<leftarrow> basic_block_new ctx block lbl arg_types;
     (self, ctx) \<leftarrow> insert_block L (self, ctx) point block;
     Some (self\<lparr>op_insertion_point := AtBlockEnd block\<rparr>, ctx)
   })"

end
