(* ===== verification/Rewriter.thy ===== *)
theory Rewriter
  imports Inserter RegionGraph
begin

text \<open>
  The rewriter: \<^verbatim>\<open>irbuild/rewriter.rs\<close> under \<^verbatim>\<open>src/src\<close>. Every operation works on the rewriter's state and the context;
  \<open>L\<close> is the listener. Locations are not part of the model, so that replacing an operation does not
  propagate them.

  Erasing notifies the listener of every nested object, so it recurses itself: \<open>rw_erase\<close> works on a list of
  tasks, each with the tasks it does first (\<open>erase_children\<close>) and what it does after them (\<open>erase_finish\<close>).
\<close>

section \<open>State\<close>

record rewriter_config =
  set_loc_on_operation_replacement :: bool
  set_name_on_value_replacement :: bool

definition config_default :: rewriter_config where
  "config_default = \<lparr>set_loc_on_operation_replacement = True, set_name_on_value_replacement = True\<rparr>"

record 'l ir_rewriter =
  inserter :: "'l ir_inserter"
  config :: rewriter_config

type_synonym ('ty, 'c, 'a, 'l) rw_state = "'l ir_rewriter \<times> ('ty, 'c, 'a) ctx"

definition rewriter_default :: "'l \<Rightarrow> 'l ir_rewriter" where
  "rewriter_default l = \<lparr>inserter = inserter_new Unset l, config = config_default\<rparr>"

definition mark_modified :: "'l ir_rewriter \<Rightarrow> 'l ir_rewriter" where
  "mark_modified rw = rw\<lparr>inserter := (inserter rw)\<lparr>modified := True\<rparr>\<rparr>"

definition set_insertion_point :: "'l ir_rewriter \<Rightarrow> op_insertion_point \<Rightarrow> 'l ir_rewriter" where
  "set_insertion_point rw point = rw\<lparr>inserter := (inserter rw)\<lparr>op_insertion_point := point\<rparr>\<rparr>"

definition get_insertion_point :: "'l ir_rewriter \<Rightarrow> op_insertion_point" where
  "get_insertion_point rw = op_insertion_point (inserter rw)"

text \<open>A call of the listener.\<close>

definition notify :: "('l \<Rightarrow> 'l option) \<Rightarrow> 'l ir_rewriter \<Rightarrow> 'l ir_rewriter option" where
  "notify f rw = do { l \<leftarrow> f (listener (inserter rw)); Some (rw\<lparr>inserter := (inserter rw)\<lparr>listener := l\<rparr>\<rparr>) }"

text \<open>The inserter's operations, forwarded.\<close>

definition via_inserter ::
    "('l ir_inserter \<times> ('ty, 'c, 'a) ctx \<Rightarrow> ('l ir_inserter \<times> ('ty, 'c, 'a) ctx) option)
     \<Rightarrow> ('ty, 'c, 'a, 'l) rw_state \<Rightarrow> ('ty, 'c, 'a, 'l) rw_state option"
where
  "via_inserter f = (\<lambda>(rw, ctx). do { (i, ctx) \<leftarrow> f (inserter rw, ctx); Some (rw\<lparr>inserter := i\<rparr>, ctx) })"

definition rw_insert_operation where
  "rw_insert_operation L st p = via_inserter (\<lambda>st. insert_operation L st p) st"

definition rw_append_operation where
  "rw_append_operation L st p = via_inserter (\<lambda>st. append_operation L st p) st"

definition rw_insert_block where
  "rw_insert_block L st point block = via_inserter (\<lambda>st. insert_block L st point block) st"

definition rw_create_block where
  "rw_create_block L st point block lbl arg_types = via_inserter (\<lambda>st. create_block L st point block lbl arg_types) st"

text \<open>A scoped rewriter: insertion point and configuration are restored at the end.\<close>

definition scoped ::
    "op_insertion_point \<Rightarrow> (('ty, 'c, 'a, 'l) rw_state \<Rightarrow> ('ty, 'c, 'a, 'l) rw_state option)
     \<Rightarrow> ('ty, 'c, 'a, 'l) rw_state \<Rightarrow> ('ty, 'c, 'a, 'l) rw_state option"
where
  "scoped point f = (\<lambda>(rw, ctx). do {
     let prev_insertion_point = get_insertion_point rw;
     let prev_config = config rw;
     (rw, ctx) \<leftarrow> f (set_insertion_point rw point, ctx);
     Some (set_insertion_point rw prev_insertion_point\<lparr>config := prev_config\<rparr>, ctx)
   })"

section \<open>Erasing\<close>

text \<open>\<open>EraseOpsOf b\<close> is the inner loop of \<open>erase_region\<close>, which erases the operations of a block and leaves the block.\<close>

datatype erase_task =
    EraseOperation op_ptr
  | EraseBlock block_ptr
  | EraseOpsOf block_ptr
  | EraseRegion region_ptr

definition erase_children :: "('c \<Rightarrow> bool) \<Rightarrow> ('ty, 'c, 'a) ctx \<Rightarrow> erase_task \<Rightarrow> erase_task list option" where
  "erase_children is_term ctx t =
     (case t of
        EraseOperation p \<Rightarrow> do { op \<leftarrow> operations ctx p; Some (map EraseRegion (rev (op_regions op))) }
      | EraseBlock b \<Rightarrow> do { ps \<leftarrow> block_ops ctx b; Some (map EraseOperation (rev ps)) }
      | EraseOpsOf b \<Rightarrow> do { ps \<leftarrow> block_ops ctx b; Some (map EraseOperation (rev ps)) }
      | EraseRegion r \<Rightarrow> do {
          _ \<leftarrow> regions ctx r;
          blocks \<leftarrow> post_order (region_cfg is_term ctx r);
          Some (map EraseOpsOf (rev blocks) @ map EraseBlock blocks)
        })"

definition erase_finish ::
    "('ty, 'c, 'a, 'l) rewrite_listener \<Rightarrow> ('ty, 'c, 'a, 'l) rw_state \<Rightarrow> erase_task \<Rightarrow> ('ty, 'c, 'a, 'l) rw_state option"
where
  "erase_finish L = (\<lambda>(rw, ctx) t.
     (case t of
        EraseOperation p \<Rightarrow> do {
          rw \<leftarrow> notify (notify_operation_erasure L ctx p) rw;
          ctx \<leftarrow> erase ctx p;
          Some (mark_modified rw, ctx)
        }
      | EraseBlock b \<Rightarrow> do {
          rw \<leftarrow> notify (notify_block_erasure L ctx b) rw;
          ctx \<leftarrow> block_erase ctx b;
          Some (mark_modified rw, ctx)
        }
      | EraseOpsOf b \<Rightarrow> Some (rw, ctx)
      | EraseRegion r \<Rightarrow> do {
          rw \<leftarrow> notify (notify_region_erasure L ctx r) rw;
          index_in_parent \<leftarrow> find_index_in_parent ctx r;
          parent_op \<leftarrow> region_parent_op ctx r;
          ctx \<leftarrow> erase_region ctx parent_op index_in_parent;
          Some (mark_modified rw, ctx)
        }))"

partial_function (option) rw_erase ::
    "('c \<Rightarrow> bool) \<Rightarrow> ('ty, 'c, 'a, 'l) rewrite_listener \<Rightarrow> ('ty, 'c, 'a, 'l) rw_state \<Rightarrow> erase_task list
     \<Rightarrow> ('ty, 'c, 'a, 'l) rw_state option"
where
  "rw_erase is_term L st ts =
     (case ts of
        [] \<Rightarrow> Some st
      | t # ts \<Rightarrow> do {
          children \<leftarrow> erase_children is_term (snd st) t;
          st \<leftarrow> rw_erase is_term L st children;
          st \<leftarrow> erase_finish L st t;
          rw_erase is_term L st ts
        })"

declare rw_erase.simps [code]

definition erase_operation where
  "erase_operation is_term L st p = rw_erase is_term L st [EraseOperation p]"

definition erase_block where
  "erase_block is_term L st b = rw_erase is_term L st [EraseBlock b]"

definition rw_erase_region where
  "rw_erase_region is_term L st r = rw_erase is_term L st [EraseRegion r]"

section \<open>Replacing\<close>

definition take_name :: "rewriter_config \<Rightarrow> ('ty, 'c, 'a) ctx \<Rightarrow> ssa_value \<Rightarrow> ssa_value \<Rightarrow> ('ty, 'c, 'a) ctx option" where
  "take_name cfg ctx old_value new_value = do {
     unnamed \<leftarrow> (if set_name_on_value_replacement cfg
       then map_option (\<lambda>name. name = None) (value_given_name ctx new_value) else Some False);
     if unnamed then do {
       name \<leftarrow> value_given_name ctx old_value;
       set_value_name ctx new_value name
     } else Some ctx
   }"

definition replace_value ::
    "('ty, 'c, 'a, 'l) rewrite_listener \<Rightarrow> ('ty, 'c, 'a, 'l) rw_state \<Rightarrow> ssa_value \<Rightarrow> ssa_value \<Rightarrow> ('ty, 'c, 'a, 'l) rw_state option"
where
  "replace_value L = (\<lambda>(rw, ctx) old_value new_value. do {
     rw \<leftarrow> notify (notify_value_use_replacement L ctx old_value new_value) rw;
     ctx \<leftarrow> replace_all_uses_with ctx old_value new_value;
     ctx \<leftarrow> take_name (config rw) ctx old_value new_value;
     Some (rw, ctx)
   })"

fun replace_values where
  "replace_values L st [] = Some st"
| "replace_values L st ((old_value, new_value) # vs) = do {
     st \<leftarrow> replace_value L st old_value new_value;
     replace_values L st vs
   }"

definition replace_operation_with_values where
  "replace_operation_with_values is_term L st p new_values = do {
     results \<leftarrow> op_results (snd st) p;
     _ \<leftarrow> ocheck (length results = length new_values);
     st \<leftarrow> replace_values L st (zip results new_values);
     (rw, ctx) \<leftarrow> erase_operation is_term L st p;
     Some (mark_modified rw, ctx)
   }"

definition replace_operation where
  "replace_operation is_term L st p new_op = do {
     new_values \<leftarrow> op_results (snd st) new_op;
     replace_operation_with_values is_term L st p new_values
   }"

definition replace_value_uses_with where
  "replace_value_uses_with L st old_value new_value =
     (if old_value = new_value then Some st
      else do {
        (rw, ctx) \<leftarrow> replace_value L st old_value new_value;
        Some (mark_modified rw, ctx)
      })"

definition rw_set_value_type where
  "rw_set_value_type L = (\<lambda>(rw, ctx) v new_type. do {
     old_type \<leftarrow> value_type ctx v;
     if old_type = new_type then Some (rw, ctx)
     else do {
       rw \<leftarrow> notify (notify_value_type_change L ctx v old_type new_type) rw;
       ctx \<leftarrow> set_value_type ctx v new_type;
       Some (mark_modified rw, ctx)
     }
   })"

section \<open>Moving\<close>

definition unlink_operation where
  "unlink_operation L = (\<lambda>(rw, ctx) p. do {
     rw \<leftarrow> notify (notify_operation_unlinking L ctx p) rw;
     links \<leftarrow> of_outcome (unlink (op_links ctx) p);
     Some (mark_modified rw, ctx\<lparr>op_links := links\<rparr>)
   })"

definition unlink_block where
  "unlink_block L = (\<lambda>(rw, ctx) b. do {
     rw \<leftarrow> notify (notify_block_unlinking L ctx b) rw;
     links \<leftarrow> of_outcome (unlink (block_links ctx) b);
     Some (mark_modified rw, ctx\<lparr>block_links := links\<rparr>)
   })"

definition move_operation where
  "move_operation L st p new_point = do {
     st \<leftarrow> unlink_operation L st p;
     scoped new_point (\<lambda>st. rw_insert_operation L st p) st
   }"

definition move_block where
  "move_block L st b new_point = do {
     st \<leftarrow> unlink_block L st b;
     rw_insert_block L st new_point b
   }"

partial_function (option) move_ops ::
    "('ty, 'c, 'a, 'l) rewrite_listener \<Rightarrow> ('ty, 'c, 'a, 'l) rw_state \<Rightarrow> block_ptr \<Rightarrow> op_ptr option
     \<Rightarrow> ('ty, 'c, 'a, 'l) rw_state option"
where
  "move_ops L st new_block current_op_opt =
     (case current_op_opt of
        None \<Rightarrow> Some st
      | Some current_op \<Rightarrow> do {
          nd \<leftarrow> nodes (op_links (snd st)) current_op;
          st \<leftarrow> move_operation L st current_op (AtBlockEnd new_block);
          move_ops L st new_block (get_next nd)
        })"

declare move_ops.simps [code]

definition split_first_op :: "('ty, 'c, 'a) ctx \<Rightarrow> op_insertion_point \<Rightarrow> op_ptr option option" where
  "split_first_op ctx point =
     (case point of
        AtBlockStart target_block \<Rightarrow> map_option get_head (roots (op_links ctx) target_block)
      | AtBlockEnd _ \<Rightarrow> Some None
      | BeforeOperation p \<Rightarrow> Some (Some p)
      | AfterOperation p \<Rightarrow> map_option get_next (nodes (op_links ctx) p)
      | Unset \<Rightarrow> None)"

definition split_block where
  "split_block L st block point new_block_label new_block = scoped Unset (\<lambda>st. do {
     bb \<leftarrow> basic_blocks (snd st) block;
     let lbl = (case new_block_label of Some l \<Rightarrow> Some l | None \<Rightarrow> map_option (\<lambda>l. l @ ''_split'') (label bb));
     st \<leftarrow> rw_create_block L st (AfterBlock block) new_block lbl [];
     first_op_opt \<leftarrow> split_first_op (snd st) point;
     move_ops L st new_block first_op_opt
   }) st"

fun move_blocks where
  "move_blocks L st [] insertion_pt = Some st"
| "move_blocks L st (b # bs) insertion_pt = do {
     st \<leftarrow> move_block L st b insertion_pt;
     move_blocks L st bs (AfterBlock b)
   }"

definition inline_region where
  "inline_region L st src_region dest_insertion_point = do {
     dest \<leftarrow> get_insertion_region (snd st) dest_insertion_point;
     dest \<leftarrow> dest;
     _ \<leftarrow> ocheck (src_region \<noteq> dest);
     blocks \<leftarrow> region_blocks (snd st) src_region;
     move_blocks L st blocks dest_insertion_point
   }"

end
