(* ===== verification/RewriteErase.thy ===== *)
theory RewriteErase
  imports Rewriter EraseSpec
begin

text \<open>
  What the rewriter's recursive erasing does: the same as \<open>Operation::erase\<close>, with the listener told of every object,
  what is nested before what it is nested in.

  All statements are relative to the context \<open>s\<close> at the start: \<open>after E s st\<close> says that \<open>st\<close> is \<open>s\<close> with the
  objects \<open>E\<close> erased. The listener is described by the locale \<open>erasure_listener\<close>.
\<close>

section \<open>Contexts with objects erased\<close>

definition after :: "ir_node set \<Rightarrow> ('ty, 'c, 'a) ctx \<Rightarrow> ('ty, 'c, 'a) ctx \<Rightarrow> bool" where
  "after E s st \<longleftrightarrow> ctx_ok st \<and> ir_finite st \<and> erased E s st"

lemma erasedD:
  assumes "erased N s s'"
  shows "node_exists s' m \<longleftrightarrow> node_exists s m \<and> m \<notin> N"
    and "m \<notin> N \<Longrightarrow> child_nodes s' m = map_option (filter (\<lambda>k. k \<notin> N)) (child_nodes s m)"
    and "OpNode q \<notin> N \<Longrightarrow> vopds s' q = vopds s q" and "OpNode q \<notin> N \<Longrightarrow> bopds s' q = bopds s q"
    and "entity_node (defining_entity v) \<notin> N \<Longrightarrow> without (inner_ops N) (value_defnode s v) (value_defnode s' v)"
    and "BlockNode b \<notin> N \<Longrightarrow> without (inner_ops N) (block_defnode s b) (block_defnode s' b)"
    and "OpNode q \<notin> N \<Longrightarrow> op_conc s' q = op_conc s q"
  using assms unfolding erased_def by blast+

lemma erased_refl: "erased {} s s"
  by (auto simp: erased_def without_def inner_ops_def option.map_ident_strong)

lemma after_refl: "ctx_ok s \<Longrightarrow> ir_finite s \<Longrightarrow> after {} s s"
  by (simp add: after_def erased_refl)

lemma inner_ops_Un: "inner_ops (N \<union> M) = inner_ops N \<union> inner_ops M"
  by (auto simp: inner_ops_def)

lemma erased_trans:
  assumes "erased N s s'" and "erased M s' s''"
  shows "erased (N \<union> M) s s''"
  unfolding erased_def
proof (intro conjI allI impI)
  note a = erasedD[OF assms(1)] and b = erasedD[OF assms(2)]
  show "node_exists s'' m \<longleftrightarrow> node_exists s m \<and> m \<notin> N \<union> M" for m using a(1) b(1) by simp
  show "child_nodes s'' m = map_option (filter (\<lambda>k. k \<notin> N \<union> M)) (child_nodes s m)" if "m \<notin> N \<union> M" for m
    using a(2)[of m] b(2)[of m] that by (simp add: option.map_comp o_def conj_commute)
  show "vopds s'' q = vopds s q" "bopds s'' q = bopds s q" "op_conc s'' q = op_conc s q" if "OpNode q \<notin> N \<union> M" for q
    using a(3,4,7)[of q] b(3,4,7)[of q] that by simp_all
  show "without (inner_ops (N \<union> M)) (value_defnode s v) (value_defnode s'' v)"
    if "entity_node (defining_entity v) \<notin> N \<union> M" for v
    unfolding inner_ops_Un using that by (intro without_trans[OF a(5) b(5)]) simp_all
  show "without (inner_ops (N \<union> M)) (block_defnode s b) (block_defnode s'' b)" if "BlockNode b \<notin> N \<union> M" for b
    unfolding inner_ops_Un using that by (intro without_trans[OF a(6) b(6)]) simp_all
qed

lemma erased_child:
  assumes "ctx_ok s'" and "erased N s s'"
  shows "child s' m k \<longleftrightarrow> child s m k \<and> m \<notin> N \<and> k \<notin> N"
proof (cases "m \<in> N")
  case True
  then have "child_nodes s' m = None" using erasedD(1)[OF assms(2), of m] child_nodes_exist[OF assms(1), of m] by simp
  then show ?thesis using True by (simp add: child_def)
next
  case False
  then show ?thesis using erasedD(2)[OF assms(2) False] by (auto simp: child_def)
qed

lemma op_up_child:
  assumes s: "ctx_ok s"
  shows "op_up s p q \<longleftrightarrow> (\<exists>r b. child s (OpNode q) (RegionNode r) \<and> child s (RegionNode r) (BlockNode b) \<and> child s (BlockNode b) (OpNode p))"
proof
  assume "op_up s p q"
  then obtain r where r: "op_parent_region s p = Some (Some r)" "region_parent_op s r = Some q" by (auto simp: op_up_def)
  then obtain b where b: "get_parent_block s p = Some (Some b)" "block_parent_region s b = Some (Some r)"
    by (auto simp: op_parent_region_def split: option.splits bind_splits)
  have "regions s r = Some \<lparr>parent_op = q\<rparr>" using r(2) by (cases "regions s r") (auto simp: region_parent_op_def)
  then show "\<exists>r b. child s (OpNode q) (RegionNode r) \<and> child s (RegionNode r) (BlockNode b) \<and> child s (BlockNode b) (OpNode p)"
    using b child_simps[OF s] by blast
qed (use op_children_up[OF s] in blast)

lemma after_step:
  assumes s: "after E s st" and st': "ctx_ok st'" "erased M st st'"
  shows "after (E \<union> M) s st'"
proof -
  have st: "ctx_ok st" "ir_finite st" "erased E s st" using s by (simp_all add: after_def)
  have "op_up st' p q \<Longrightarrow> op_up st p q" for p q
    using op_up_child[OF st(1)] op_up_child[OF st'(1)] erased_child[OF st'] by blast
  then have "nested st'" using st(2) unfolding ir_finite_def nested_def by (auto intro: wfp_subset)
  moreover have "dom (operations st') \<subseteq> dom (operations st)"
    using erasedD(1)[OF st'(2), of "OpNode _"] by auto
  then have "finite (dom (operations st'))" using st(2) finite_subset by (auto simp: ir_finite_def)
  ultimately show ?thesis using st'(1) erased_trans[OF st(3) st'(2)] by (simp add: after_def ir_finite_def)
qed

section \<open>Users\<close>

text \<open>The operations that use a result of an operation, or an argument of a block or the block as a successor.\<close>

definition users :: "('ty, 'c, 'a) ctx \<Rightarrow> ir_node \<Rightarrow> op_ptr set" where
  "users s n = {u. \<exists>xs x. vopds s u = Some xs \<and> x \<in> set xs \<and> entity_node (defining_entity (opd_def x)) = n}
     \<union> {u. \<exists>xs x. bopds s u = Some xs \<and> x \<in> set xs \<and> BlockNode (opd_def x) = n}"

lemma value_use_users:
  assumes s: "ctx_ok s" and v: "value_defnode s v = Some us" "u \<in> set us"
  shows "user_op u \<in> users s (entity_node (defining_entity v))"
proof -
  have "def_use_ok (value_defnode s) (vopds s) (use_counter s)"
    using s by (simp add: ctx_ok_def ir_ok_def du_ok_def value_api_def)
  from def_use_okD(2)[OF this v] show ?thesis by (auto simp: users_def)
qed

lemma block_use_users:
  assumes s: "ctx_ok s" and v: "block_defnode s b = Some us" "u \<in> set us"
  shows "user_op u \<in> users s (BlockNode b)"
proof -
  have "def_use_ok (block_defnode s) (bopds s) (use_counter s)"
    using s by (simp add: ctx_ok_def ir_ok_def du_ok_def block_api_def block_defnode_def)
  from def_use_okD(2)[OF this v] show ?thesis by (auto simp: users_def)
qed

lemma users_exist: "u \<in> users s n \<Longrightarrow> node_exists s (OpNode u)"
  by (auto simp: users_def vopds_def bopds_def)

lemma after_users:
  assumes "after E s st"
  shows "users st n \<subseteq> {u \<in> users s n. OpNode u \<notin> E}"
proof
  fix u assume u: "u \<in> users st n"
  then have "node_exists st (OpNode u)" by (rule users_exist)
  then have e: "OpNode u \<notin> E" using assms erasedD(1)[of E s st "OpNode u"] by (simp add: after_def)
  then have "vopds st u = vopds s u" "bopds st u = bopds s u" using assms erasedD(3,4)[of E s st u] by (simp_all add: after_def)
  then show "u \<in> {u \<in> users s n. OpNode u \<notin> E}" using u e by (simp add: users_def)
qed

section \<open>Erasing one object with nothing below it\<close>

lemma single_private:
  assumes a: "after E s st" and n: "n \<notin> E" "node_exists s n"
    and c: "\<And>k. child s n k \<Longrightarrow> k \<in> E" and u: "\<And>u. u \<in> users s n \<Longrightarrow> OpNode u \<in> insert n E"
  shows "node_exists st n" and "below st n = {n}" and "private_uses (below st n) st"
proof -
  have st: "ctx_ok st" "erased E s st" using a by (simp_all add: after_def)
  show "node_exists st n" using n erasedD(1)[OF st(2)] by simp
  have "\<not> child st n k" for k using erased_child[OF st] c by blast
  then show b: "below st n = {n}" by (auto simp: below_def elim: converse_rtranclpE)
  show "private_uses (below st n) st"
    unfolding b private_uses_def
  proof (intro conjI allI impI)
    have self: "OpNode u = n" if "u \<in> users st n" for u using after_users[OF a, of n] that assms(5) by auto
    show "OpNode (user_op x) \<in> {n}" if "entity_node (defining_entity v) \<in> {n}" "value_defnode st v = Some us" "x \<in> set us" for v us x
      using value_use_users[OF st(1) that(2,3)] that(1) self by simp
    show "OpNode (user_op x) \<in> {n}" if "BlockNode b \<in> {n}" "block_defnode st b = Some us" "x \<in> set us" for b us x
      using block_use_users[OF st(1) that(2,3)] that(1) self by simp
  qed
qed

lemma erase_single:
  assumes a: "after E s st" and n: "n \<notin> E" "node_exists s n"
    and c: "\<And>k. child s n k \<Longrightarrow> k \<in> E" and u: "\<And>u. u \<in> users s n \<Longrightarrow> OpNode u \<in> insert n E"
  shows "n = OpNode p \<Longrightarrow> \<exists>st'. erase st p = Some st' \<and> after (E \<union> {n}) s st'"
    and "n = BlockNode b \<Longrightarrow> \<exists>st'. block_erase st b = Some st' \<and> after (E \<union> {n}) s st'"
    and "n = RegionNode r \<Longrightarrow> \<exists>q i st'. find_index_in_parent st r = Some i \<and> region_parent_op st r = Some q
      \<and> erase_region st q i = Some st' \<and> after (E \<union> {n}) s st'"
proof -
  have st: "ctx_ok st" "ir_finite st" using a by (simp_all add: after_def)
  note x = single_private[OF assms]
  have step: "after (E \<union> {n}) s st'" if "ctx_ok st'" "erased (below st n) st st'" for st'
    using after_step[OF a that] x(2) by simp
  show "n = OpNode p \<Longrightarrow> \<exists>st'. erase st p = Some st' \<and> after (E \<union> {n}) s st'"
    using op_erase[OF st, of p] x step by auto
  show "n = BlockNode b \<Longrightarrow> \<exists>st'. block_erase st b = Some st' \<and> after (E \<union> {n}) s st'"
    using block_erase_removes[OF st, of b] x step by auto
  show "\<exists>q i st'. find_index_in_parent st r = Some i \<and> region_parent_op st r = Some q
      \<and> erase_region st q i = Some st' \<and> after (E \<union> {n}) s st'" if r: "n = RegionNode r"
  proof -
    obtain reg where reg: "regions st r = Some reg" using x(1) r by auto
    obtain rs where rs: "op_regs st (parent_op reg) = Some rs" "r \<in> set rs"
      using st(1) reg unfolding ctx_ok_def shape_ok_def by blast
    then obtain op where op: "operations st (parent_op reg) = Some op" "op_regions op = rs" by (auto simp: op_regs_def)
    obtain i where i: "position (\<lambda>x. x = r) rs = Some i"
      using rs(2) by (cases "position (\<lambda>x. x = r) rs") (auto simp: position_None)
    then have il: "i < length (op_regions op)" "op_regions op ! i = r" using op(2) by (auto simp: position_Some)
    obtain st' where "erase_region st (parent_op reg) i = Some st'" "ctx_ok st'" "erased (below st (RegionNode r)) st st'"
      using region_erase[OF st op(1) il] x(3) r by blast
    then show ?thesis using step[of st'] r reg op i
      by (simp add: find_index_in_parent_def region_parent_op_def)
  qed
qed

section \<open>The graph of a region is the same\<close>

lemma node_map_inject [simp]:
  "map OpNode ps = map OpNode qs \<longleftrightarrow> ps = qs" "map BlockNode bs = map BlockNode cs \<longleftrightarrow> bs = cs"
  "map RegionNode rs = map RegionNode ts \<longleftrightarrow> rs = ts"
  by (simp_all add: inj_map_eq_map inj_def)

lemma region_blocks_after:
  assumes "after E s st" and "region_blocks s r = Some bs" and "RegionNode r \<notin> E"
  shows "region_blocks st r = Some (filter (\<lambda>b. BlockNode b \<notin> E) bs)"
  using erasedD(2)[of E s st "RegionNode r"] assms by (auto simp: after_def filter_map o_def)

lemma block_ops_after:
  assumes "after E s st" and "block_ops s b = Some ps" and "BlockNode b \<notin> E"
  shows "block_ops st b = Some (filter (\<lambda>p. OpNode p \<notin> E) ps)"
  using erasedD(2)[of E s st "BlockNode b"] assms by (auto simp: after_def filter_map o_def)

lemma op_regs_after:
  assumes "after E s st" and "op_regs s p = Some rs" and "OpNode p \<notin> E"
  shows "op_regs st p = Some (filter (\<lambda>r. RegionNode r \<notin> E) rs)"
  using erasedD(2)[of E s st "OpNode p"] assms by (auto simp: after_def filter_map o_def)

lemma get_terminator_ops:
  assumes s: "ctx_ok s" and ps: "block_ops s b = Some ps"
  shows "get_terminator is_term s b = Some (if ps \<noteq> [] \<and> is_term (the (op_conc s (last ps))) then Some (last ps) else None)"
proof -
  have b: "basic_blocks s b \<noteq> None" using block_list(1)[OF s ps] .
  obtain qs where "block_ops s b = Some qs" "ll_list (op_links s) b qs" using block_ops_ok[OF s b] by blast
  then have root: "roots (op_links s) b = Some \<lparr>get_head = first_or ps None, get_tail = last_or None ps\<rparr>"
    using ps by (simp add: ll_list_def)
  show ?thesis
  proof (cases "ps = []")
    case True
    then show ?thesis using root by (simp add: get_terminator_def)
  next
    case False
    then have "last ps \<in> set ps" by simp
    then have "child s (BlockNode b) (OpNode (last ps))" using ps by (simp add: child_def)
    then obtain op where "operations s (last ps) = Some op" using child_exists[OF s] by force
    moreover have "last_or None ps = Some (last ps)" using False by (cases ps rule: rev_cases) simp_all
    ultimately show ?thesis using root False by (simp add: get_terminator_def op_conc_def)
  qed
qed

text \<open>As long as nothing below a region's blocks is erased but below other operations of them.\<close>

lemma branches_ok_after:
  assumes s: "ctx_ok s" and a: "after E s st" and r: "regions s r \<noteq> None" and br: "branches_ok is_term s r"
    and n: "RegionNode r \<notin> E" "\<And>b. child s (RegionNode r) (BlockNode b) \<Longrightarrow> BlockNode b \<notin> E"
      "\<And>b p. child s (RegionNode r) (BlockNode b) \<Longrightarrow> child s (BlockNode b) (OpNode p) \<Longrightarrow> OpNode p \<notin> E"
  shows "branches_ok is_term st r"
proof -
  have st: "ctx_ok st" "erased E s st" using a by (simp_all add: after_def)
  obtain bs where bs: "region_blocks s r = Some bs" using region_blocks_ok[OF s r] by blast
  have c: "child s (RegionNode r) (BlockNode b)" if "b \<in> set bs" for b using bs that by (auto simp: child_def)
  have bs': "region_blocks st r = Some bs"
    using region_blocks_after[OF a bs n(1)] n(2) c by (simp add: filter_id_conv)
  have exb: "basic_blocks s b \<noteq> None" if "b \<in> set bs" for b using child_exists[OF s c[OF that]] by simp
  have same: "\<exists>ps. block_ops s b = Some ps \<and> block_ops st b = Some ps \<and> get_terminator is_term st b = get_terminator is_term s b"
    if b: "b \<in> set bs" for b
  proof -
    obtain ps where ps: "block_ops s b = Some ps" using block_ops_ok[OF s exb[OF b]] by blast
    have e: "OpNode p \<notin> E" if "p \<in> set ps" for p using n(3)[OF c[OF b], of p] ps that by (simp add: child_def)
    then have ps': "block_ops st b = Some ps"
      using block_ops_after[OF a ps n(2)[OF c[OF b]]] by (simp add: filter_id_conv)
    have "ps \<noteq> [] \<Longrightarrow> op_conc st (last ps) = op_conc s (last ps)" using erasedD(7)[OF st(2)] e by simp
    then show ?thesis using ps ps' get_terminator_ops[OF s ps, of is_term] get_terminator_ops[OF st(1) ps', of is_term] by auto
  qed
  have pb: "get_parent_block st u = Some (Some b) \<longleftrightarrow> get_parent_block s u = Some (Some b)" if b: "b \<in> set bs" for u b
  proof -
    obtain ps where ps: "block_ops s b = Some ps" "block_ops st b = Some ps" using same[OF b] by blast
    show ?thesis using block_list(3)[OF s ps(1), of u] block_list(3)[OF st(1) ps(2), of u] by simp
  qed
  show ?thesis
    unfolding branches_ok_def bs' option.case list_all_iff
  proof (intro ballI conjI)
    fix b assume b: "b \<in> set bs"
    obtain us where us: "block_uses s b = Some us" using exb[OF b] by (auto simp: block_uses_def)
    obtain bb where "basic_blocks st b = Some bb" using erasedD(1)[OF st(2), of "BlockNode b"] exb[OF b] n(2)[OF c[OF b]] by auto
    then obtain us' where us': "block_uses st b = Some us'" by (simp add: block_uses_def)
    have bp: "block_parent_region s b = Some (Some r)" using region_list(3)[OF s bs] b by simp
    have sub: "set us' \<subseteq> set us"
      using erasedD(6)[OF st(2) n(2)[OF c[OF b]]] us us' by (auto simp: block_uses_def block_defnode_def without_def)
    have "\<exists>c. user_block st u = Some c \<and> c \<in> set bs \<and> get_terminator is_term st c = Some (Some (user_op u))" if u: "u \<in> set us'" for u
    proof -
      obtain d where d: "user_block s u = Some d" "block_parent_region s d = Some (Some r)"
          "get_terminator is_term s d = Some (Some (user_op u))"
        using branches_okD(1)[OF s r br bp us] u sub by blast
      have dm: "d \<in> set bs" using region_list(3)[OF s bs] d(2) by simp
      have "get_parent_block s (user_op u) = Some (Some d)" using d(1) by (auto simp: user_block_def split: bind_splits)
      then have "get_parent_block st (user_op u) = Some (Some d)" using pb[OF dm] by simp
      then have "user_block st u = Some d" by (simp add: user_block_def)
      then show ?thesis using dm same[OF dm] d(3) by auto
    qed
    then show "case block_uses st b of None \<Rightarrow> False | Some us \<Rightarrow> \<forall>u \<in> set us.
        case user_block st u of None \<Rightarrow> False | Some c \<Rightarrow> c \<in> set bs \<and> get_terminator is_term st c = Some (Some (user_op u))"
      using us' by fastforce
    obtain ss where ss: "block_succs is_term st b = Some ss"
        "\<forall>c. c \<in> set ss \<longleftrightarrow> (\<exists>t tt. get_terminator is_term st b = Some (Some t) \<and> op_succs st t = Some tt \<and> c \<in> set tt)"
      using block_succs_cases[OF st(1), of b is_term] \<open>basic_blocks st b = Some bb\<close> by auto
    have "c' \<in> set bs" if c': "c' \<in> set ss" for c'
    proof -
      obtain t tt where t: "get_terminator is_term st b = Some (Some t)" "op_succs st t = Some tt" "c' \<in> set tt" using ss(2)[THEN spec, THEN iffD1, OF c'] by blast
      have "get_terminator is_term st b = get_terminator is_term s b" using same[OF b] by blast
      then have ts: "get_terminator is_term s b = Some (Some t)" using t(1) by simp
      have "node_exists st (OpNode t)" using t(2) by (cases "operations st t") (simp_all add: op_succs_def)
      then have "OpNode t \<notin> E" using erasedD(1)[OF st(2), of "OpNode t"] by blast
      then have "op_succs s t = Some tt" using t(2) erasedD(4)[OF st(2)] by (simp add: op_succs_bopds)
      note tt = this
      obtain ss0 where ss0: "block_succs is_term s b = Some ss0"
          "\<forall>c. c \<in> set ss0 \<longleftrightarrow> (\<exists>t tt. get_terminator is_term s b = Some (Some t) \<and> op_succs s t = Some tt \<and> c \<in> set tt)"
        using block_succs_cases[OF s exb[OF b], of is_term] by auto
      have "c' \<in> set ss0" using ss0(2) ts tt t(3) by auto
      then show ?thesis using branches_okD(2)[OF s r br bp ss0(1)] region_list(3)[OF s bs] by blast
    qed
    then show "case block_succs is_term st b of None \<Rightarrow> False | Some ss \<Rightarrow> \<forall>c \<in> set ss. c \<in> set bs" using ss(1) by simp
  qed
qed

section \<open>What is below\<close>

lemma below_rec: "below s n = insert n (\<Union>m \<in> {m. child s n m}. below s m)"
  unfolding below_def by (auto elim: converse_rtranclpE intro: converse_rtranclp_into_rtranclp)

lemma below_trans: "m \<in> below s n \<Longrightarrow> below s m \<subseteq> below s n"
  by (auto simp: below_def)

lemma below_child_sub: "child s n m \<Longrightarrow> below s m \<subseteq> below s n"
  by (rule below_trans) (rule below_child[OF below_self])

lemma below_not_up:
  assumes "ctx_ok s" and "ir_finite s" and "child s n m"
  shows "n \<notin> below s m"
  using child_acyclic[OF assms(1,2), of n] assms(3) by (auto simp: below_def dest: rtranclp_into_tranclp2)

lemma below_siblings:
  assumes s: "ctx_ok s" "ir_finite s" and c: "child s n m" "child s n k" "m \<noteq> k"
  shows "below s m \<inter> below s k = {}"
proof (rule ccontr)
  assume "below s m \<inter> below s k \<noteq> {}"
  then obtain x where "(child s)\<^sup>*\<^sup>* m x" "(child s)\<^sup>*\<^sup>* k x" by (auto simp: below_def)
  from child_above_linear[OF s(1) this] show False
  proof
    assume "(child s)\<^sup>*\<^sup>* m k"
    then obtain y where "(child s)\<^sup>*\<^sup>* m y" "child s y k" using c(3) by (auto elim: rtranclp.cases)
    then have "n \<in> below s m" using child_unique[OF s(1) c(2)] by (auto simp: below_def)
    then show False using below_not_up[OF s c(1)] by blast
  next
    assume "(child s)\<^sup>*\<^sup>* k m"
    then obtain y where "(child s)\<^sup>*\<^sup>* k y" "child s y m" using c(3) by (auto elim: rtranclp.cases)
    then have "n \<in> below s k" using child_unique[OF s(1) c(1)] by (auto simp: below_def)
    then show False using below_not_up[OF s c(2)] by blast
  qed
qed

text \<open>Disjointness of a list of siblings with what was erased before them.\<close>

lemma below_fresh:
  assumes s: "ctx_ok s" "ir_finite s" and d: "distinct (map g (ys @ x # zs))"
    and c: "\<And>y. y \<in> set (ys @ x # zs) \<Longrightarrow> child s n (g y)" and e: "below s n \<inter> E = {}"
  shows "below s (g x) \<inter> (E \<union> (\<Union>y \<in> set ys. below s (g y))) = {}"
proof -
  have "below s (g x) \<inter> below s (g y) = {}" if y: "y \<in> set ys" for y
  proof (rule below_siblings[OF s c c])
    have "g y \<in> g ` set ys" using y by (rule imageI)
    then show "g x \<noteq> g y" using d by auto
  qed (use y in simp_all)
  moreover have "below s (g x) \<inter> E = {}" using below_child_sub[OF c[of x]] e by auto
  ultimately show ?thesis by blast
qed

text \<open>
  The condition under which the recursive erasing below \<open>n\<close> meets no use: branches stay in their
  region, block arguments are used below the region of the block, and a result is used inside its operation or
  by or inside a later operation of the same block.
\<close>

definition uses_in_order :: "('ty, 'c, 'a) ctx \<Rightarrow> op_ptr \<Rightarrow> block_ptr \<Rightarrow> bool" where
  "uses_in_order s q b \<longleftrightarrow> (\<forall>u \<in> users s (OpNode q). OpNode u \<in> below s (OpNode q)
     \<or> (\<exists>ps i j. block_ops s b = Some ps \<and> i < j \<and> j < length ps \<and> ps ! i = q \<and> OpNode u \<in> below s (OpNode (ps ! j))))"

definition tidy :: "('c \<Rightarrow> bool) \<Rightarrow> ('ty, 'c, 'a) ctx \<Rightarrow> ir_node \<Rightarrow> bool" where
  "tidy is_term s n \<longleftrightarrow>
     (\<forall>r. RegionNode r \<in> below s n \<longrightarrow> branches_ok is_term s r
        \<and> (\<forall>b. child s (RegionNode r) (BlockNode b) \<longrightarrow> (\<forall>u \<in> users s (BlockNode b). OpNode u \<in> below s (RegionNode r))))
     \<and> (\<forall>b q. BlockNode b \<in> below s n \<longrightarrow> child s (BlockNode b) (OpNode q) \<longrightarrow> uses_in_order s q b)"

lemma tidy_below: "tidy is_term s n \<Longrightarrow> m \<in> below s n \<Longrightarrow> tidy is_term s m"
  unfolding tidy_def using below_trans[of m s n] by blast

section \<open>Tasks\<close>

lemma rw_erase_Nil [simp]: "rw_erase is_term L st [] = Some st"
  by (subst rw_erase.simps) simp

lemma rw_erase_Cons:
  "rw_erase is_term L st (t # ts) =
     Option.bind (erase_children is_term (snd st) t) (\<lambda>children. Option.bind (rw_erase is_term L st children)
       (\<lambda>st. Option.bind (erase_finish L st t) (\<lambda>st. rw_erase is_term L st ts)))"
  by (subst rw_erase.simps) simp

lemma rw_erase_append: "rw_erase is_term L st (ts @ us) = Option.bind (rw_erase is_term L st ts) (\<lambda>st. rw_erase is_term L st us)"
proof (induction ts arbitrary: st)
  case (Cons t ts)
  show ?case by (simp add: rw_erase_Cons Cons bind_assoc)
qed simp

text \<open>The rewriter after the listener was told of an erased object; \<open>f\<close> is what the listener does with it.\<close>

definition noted :: "(ir_node \<Rightarrow> 'l \<Rightarrow> 'l) \<Rightarrow> ir_node \<Rightarrow> 'l ir_rewriter \<Rightarrow> 'l ir_rewriter" where
  "noted f n rw = mark_modified (rw\<lparr>inserter := (inserter rw)\<lparr>listener := f n (listener (inserter rw))\<rparr>\<rparr>)"

definition note_all :: "(ir_node \<Rightarrow> 'l \<Rightarrow> 'l) \<Rightarrow> ir_node list \<Rightarrow> 'l ir_rewriter \<Rightarrow> 'l ir_rewriter" where
  "note_all f ns = fold (noted f) ns"

lemma note_all_simps [simp]:
  "note_all f [] rw = rw" "note_all f (n # ns) rw = note_all f ns (noted f n rw)"
  "note_all f (ns @ ms) rw = note_all f ms (note_all f ns rw)"
  by (simp_all add: note_all_def)

lemma note_all_listener:
  "listener (inserter (note_all f ns rw)) = fold f ns (listener (inserter rw))"
  "config (note_all f ns rw) = config rw" "get_insertion_point (note_all f ns rw) = get_insertion_point rw"
  "modified (inserter (note_all f ns rw)) \<longleftrightarrow> modified (inserter rw) \<or> ns \<noteq> []"
  by (induction ns arbitrary: rw) (auto simp: noted_def mark_modified_def get_insertion_point_def)

text \<open>The objects in \<open>ns\<close> are erased one by one, each after everything in it.\<close>

definition bottom_up :: "('ty, 'c, 'a) ctx \<Rightarrow> ir_node set \<Rightarrow> ir_node list \<Rightarrow> bool" where
  "bottom_up s E ns \<longleftrightarrow> distinct ns \<and> set ns \<inter> E = {} \<and>
     (\<forall>i < length ns. \<forall>k. child s (ns ! i) k \<longrightarrow> k \<in> E \<union> set (take i ns))"

lemma bottom_up_append:
  assumes "bottom_up s E ns" and "bottom_up s (E \<union> set ns) ms"
  shows "bottom_up s E (ns @ ms)"
  unfolding bottom_up_def
proof (intro conjI allI impI)
  show "distinct (ns @ ms)" "set (ns @ ms) \<inter> E = {}" using assms by (auto simp: bottom_up_def)
  show "k \<in> E \<union> set (take i (ns @ ms))" if i: "i < length (ns @ ms)" "child s ((ns @ ms) ! i) k" for i k
  proof (cases "i < length ns")
    case True
    then show ?thesis using assms(1) i(2) by (auto simp: bottom_up_def nth_append)
  next
    case False
    then have "i - length ns < length ms" "child s (ms ! (i - length ns)) k" using i by (auto simp: nth_append)
    then show ?thesis using assms(2) False by (auto simp: bottom_up_def)
  qed
qed

locale erasure_listener =
  fixes L :: "('ty, 'c, 'a, 'l) rewrite_listener" and f :: "ir_node \<Rightarrow> 'l \<Rightarrow> 'l"
  assumes on_op: "notify_operation_erasure L ctx p l = Some (f (OpNode p) l)"
    and on_block: "notify_block_erasure L ctx b l = Some (f (BlockNode b) l)"
    and on_region: "notify_region_erasure L ctx r l = Some (f (RegionNode r) l)"
begin

definition erases :: "('c \<Rightarrow> bool) \<Rightarrow> ('ty, 'c, 'a) ctx \<Rightarrow> ir_node set \<Rightarrow> erase_task list \<Rightarrow> ir_node set \<Rightarrow> bool" where
  "erases is_term s E ts N \<longleftrightarrow> (\<forall>st rw. after E s st \<longrightarrow>
     (\<exists>ns st'. rw_erase is_term L (rw, st) ts = Some (note_all f ns rw, st') \<and> after (E \<union> N) s st' \<and> set ns = N \<and> bottom_up s E ns))"

lemma erases_Nil: "erases is_term s E [] {}"
  unfolding erases_def
  by (intro allI impI exI[of _ "[]"]) (simp add: bottom_up_def)

lemma erases_append:
  assumes a: "erases is_term s E ts N" and b: "erases is_term s (E \<union> N) us M"
  shows "erases is_term s E (ts @ us) (N \<union> M)"
  unfolding erases_def
proof (intro allI impI)
  fix st rw assume st: "after E s st"
  obtain ns st1 where 1: "rw_erase is_term L (rw, st) ts = Some (note_all f ns rw, st1)" "after (E \<union> N) s st1"
      "set ns = N" "bottom_up s E ns"
    using a st unfolding erases_def by blast
  obtain ms st2 where 2: "rw_erase is_term L (note_all f ns rw, st1) us = Some (note_all f ms (note_all f ns rw), st2)"
      "after (E \<union> N \<union> M) s st2" "set ms = M" "bottom_up s (E \<union> N) ms"
    using b 1(2) unfolding erases_def by blast
  show "\<exists>ns st'. rw_erase is_term L (rw, st) (ts @ us) = Some (note_all f ns rw, st') \<and> after (E \<union> (N \<union> M)) s st'
      \<and> set ns = N \<union> M \<and> bottom_up s E ns"
    using 1 2 bottom_up_append[OF 1(4), of ms] by (intro exI[of _ "ns @ ms"] exI[of _ st2]) (simp add: rw_erase_append Un_assoc)
qed

text \<open>A task whose children are erased and that then erases its own object \<open>n\<close>, or no object.\<close>

lemma erases_task:
  assumes c: "\<And>st. after E s st \<Longrightarrow> \<exists>cs. erase_children is_term st t = Some cs \<and> erases is_term s E cs N"
    and fin: "\<And>st rw. after (E \<union> N) s st \<Longrightarrow> \<exists>st'. erase_finish L (rw, st) t = Some (note_all f ms rw, st') \<and> after (E \<union> N \<union> set ms) s st'"
    and b: "bottom_up s (E \<union> N) ms"
  shows "erases is_term s E [t] (N \<union> set ms)"
  unfolding erases_def
proof (intro allI impI)
  fix st rw assume st: "after E s st"
  obtain cs where cs: "erase_children is_term st t = Some cs" "erases is_term s E cs N" using c[OF st] by blast
  obtain ns st1 where 1: "rw_erase is_term L (rw, st) cs = Some (note_all f ns rw, st1)" "after (E \<union> N) s st1"
      "set ns = N" "bottom_up s E ns"
    using cs(2) st unfolding erases_def by blast
  obtain st2 where 2: "erase_finish L (note_all f ns rw, st1) t = Some (note_all f ms (note_all f ns rw), st2)"
      "after (E \<union> N \<union> set ms) s st2"
    using fin[OF 1(2)] by blast
  show "\<exists>ns st'. rw_erase is_term L (rw, st) [t] = Some (note_all f ns rw, st') \<and> after (E \<union> (N \<union> set ms)) s st'
      \<and> set ns = N \<union> set ms \<and> bottom_up s E ns"
    using cs 1 2 bottom_up_append[OF 1(4), of ms] b
    by (intro exI[of _ "ns @ ms"] exI[of _ st2]) (simp add: rw_erase_Cons Un_assoc)
qed

lemma bottom_up_single: "n \<notin> E \<Longrightarrow> (\<And>k. child s n k \<Longrightarrow> k \<in> E) \<Longrightarrow> bottom_up s E [n]"
  by (simp add: bottom_up_def)

text \<open>A task for the object \<open>n\<close>, of which everything inside is erased by its children.\<close>

fun task_of :: "ir_node \<Rightarrow> erase_task" where
  "task_of (OpNode p) = EraseOperation p"
| "task_of (BlockNode b) = EraseBlock b"
| "task_of (RegionNode r) = EraseRegion r"

lemma erase_finish_single:
  assumes a: "after E s st" and n: "n \<notin> E" "node_exists s n"
    and c: "\<And>k. child s n k \<Longrightarrow> k \<in> E" and u: "\<And>u. u \<in> users s n \<Longrightarrow> OpNode u \<in> insert n E"
  shows "\<exists>st'. erase_finish L (rw, st) (task_of n) = Some (note_all f [n] rw, st') \<and> after (E \<union> {n}) s st'"
  using erase_single[OF assms]
  by (cases n) (auto simp: erase_finish_def notify_def on_op on_block on_region noted_def)

lemma erases_node:
  assumes c: "\<And>st. after E s st \<Longrightarrow> \<exists>cs. erase_children is_term st (task_of n) = Some cs \<and> erases is_term s E cs N"
    and n: "n \<notin> E \<union> N" "node_exists s n"
    and k: "\<And>k. child s n k \<Longrightarrow> k \<in> E \<union> N" and u: "\<And>u. u \<in> users s n \<Longrightarrow> OpNode u \<in> insert n (E \<union> N)"
  shows "erases is_term s E [task_of n] (insert n N)"
proof -
  have "erases is_term s E [task_of n] (N \<union> set [n])"
  proof (rule erases_task[OF c])
    show "\<exists>st'. erase_finish L (rw, st) (task_of n) = Some (note_all f [n] rw, st') \<and> after (E \<union> N \<union> set [n]) s st'"
      if "after (E \<union> N) s st" for st rw
      using erase_finish_single[OF that n k u] by simp
  qed (use bottom_up_single[OF n(1) k] in auto)
  then show ?thesis by simp
qed

lemma erases_map:
  assumes "\<And>ys x zs. xs = ys @ x # zs \<Longrightarrow> erases is_term s (E \<union> (\<Union>y \<in> set ys. B y)) [t x] (B x)"
  shows "erases is_term s E (map t xs) (\<Union>x \<in> set xs. B x)"
  using assms
proof (induction xs rule: rev_induct)
  case (snoc x xs)
  have "erases is_term s E (map t xs) (\<Union>x \<in> set xs. B x)"
    by (rule snoc.IH) (use snoc.prems in simp)
  from erases_append[OF this snoc.prems[of xs x "[]"]] show ?case by (simp add: Un_commute)
qed (simp add: erases_Nil)



section \<open>The recursion\<close>

definition op_erases :: "('c \<Rightarrow> bool) \<Rightarrow> ('ty, 'c, 'a) ctx \<Rightarrow> op_ptr \<Rightarrow> bool" where
  "op_erases is_term s p \<longleftrightarrow> (\<forall>E. below s (OpNode p) \<inter> E = {} \<longrightarrow>
     (\<forall>u \<in> users s (OpNode p). OpNode u \<in> E \<union> below s (OpNode p)) \<longrightarrow>
     erases is_term s E [EraseOperation p] (below s (OpNode p)))"

definition region_erases :: "('c \<Rightarrow> bool) \<Rightarrow> ('ty, 'c, 'a) ctx \<Rightarrow> region_ptr \<Rightarrow> bool" where
  "region_erases is_term s r \<longleftrightarrow> (\<forall>E. below s (RegionNode r) \<inter> E = {} \<longrightarrow>
     erases is_term s E [EraseRegion r] (below s (RegionNode r)))"

definition block_ops_erases :: "('c \<Rightarrow> bool) \<Rightarrow> ('ty, 'c, 'a) ctx \<Rightarrow> block_ptr \<Rightarrow> bool" where
  "block_ops_erases is_term s b \<longleftrightarrow> (\<forall>E. below s (BlockNode b) \<inter> E = {} \<longrightarrow>
     erases is_term s E [EraseOpsOf b] (below s (BlockNode b) - {BlockNode b}))"

lemma op_erases_step:
  assumes s: "ctx_ok s" "ir_finite s" and p: "node_exists s (OpNode p)"
    and rs: "\<And>r. child s (OpNode p) (RegionNode r) \<Longrightarrow> region_erases is_term s r"
  shows "op_erases is_term s p"
  unfolding op_erases_def
proof (intro allI impI)
  fix E assume e: "below s (OpNode p) \<inter> E = {}" and u: "\<forall>u \<in> users s (OpNode p). OpNode u \<in> E \<union> below s (OpNode p)"
  let ?n = "OpNode p"
  obtain op where op: "operations s p = Some op" using p by auto
  let ?rs = "rev (op_regions op)" and ?B = "\<lambda>r. below s (RegionNode r)"
  have regs: "op_regs s p = Some (op_regions op)" using op by (simp add: op_regs_def)
  have c: "child s ?n (RegionNode r)" if "r \<in> set ?rs" for r using regs that by (simp add: child_def)
  have d: "distinct (map RegionNode ?rs)" using op_regs_ok(1)[OF s(1) regs] by (simp add: distinct_map inj_on_def)
  have N: "below s ?n = insert ?n (\<Union>r \<in> set ?rs. ?B r)"
    by (subst below_rec) (use regs in \<open>auto simp: child_def\<close>)
  have notin: "?n \<notin> (\<Union>r \<in> set ?rs. ?B r)" using below_not_up[OF s c] by blast
  have er: "erases is_term s E (map EraseRegion ?rs) (\<Union>r \<in> set ?rs. ?B r)"
  proof (rule erases_map)
    fix ys r zs assume x: "?rs = ys @ r # zs"
    have "?B r \<inter> (E \<union> (\<Union>y \<in> set ys. ?B y)) = {}"
      by (rule below_fresh[OF s, of RegionNode ys r zs ?n]) (use x d c e in simp_all)
    then show "erases is_term s (E \<union> (\<Union>y \<in> set ys. ?B y)) [EraseRegion r] (?B r)"
      using rs[OF c, of r] x by (simp add: region_erases_def)
  qed
  have "erases is_term s E [task_of ?n] (insert ?n (\<Union>r \<in> set ?rs. ?B r))"
  proof (rule erases_node)
    fix st assume st: "after E s st"
    have "op_regs st p = Some (filter (\<lambda>r. RegionNode r \<notin> E) (op_regions op))"
      using op_regs_after[OF st regs] e below_self by blast
    moreover have "filter (\<lambda>r. RegionNode r \<notin> E) (op_regions op) = op_regions op"
      using below_child[OF below_self c] e by (auto simp: filter_id_conv)
    ultimately have "op_regs st p = Some (op_regions op)" by simp
    then show "\<exists>cs. erase_children is_term st (task_of ?n) = Some cs \<and> erases is_term s E cs (\<Union>r \<in> set ?rs. ?B r)"
      using er by (auto simp: erase_children_def op_regs_def)
  next
    show "?n \<notin> E \<union> (\<Union>r \<in> set ?rs. ?B r)" using e notin below_self by blast
    show "k \<in> E \<union> (\<Union>r \<in> set ?rs. ?B r)" if "child s ?n k" for k
      using that regs by (auto simp: child_def) (use below_self in blast)
    show "OpNode w \<in> insert ?n (E \<union> (\<Union>r \<in> set ?rs. ?B r))" if "w \<in> users s ?n" for w
      using u that N by auto
  qed (rule p)
  then show "erases is_term s E [EraseOperation p] (below s ?n)" using N by simp
qed

lemma block_children:
  assumes s: "ctx_ok s" "ir_finite s" and b: "node_exists s (BlockNode b)" and t: "tidy is_term s (BlockNode b)"
    and ops: "\<And>q. child s (BlockNode b) (OpNode q) \<Longrightarrow> op_erases is_term s q"
    and e: "below s (BlockNode b) \<inter> E = {}" and st: "after E s st" and task: "t = EraseOpsOf b \<or> t = EraseBlock b"
  shows "\<exists>cs. erase_children is_term st t = Some cs \<and> erases is_term s E cs (below s (BlockNode b) - {BlockNode b})"
proof -
  let ?n = "BlockNode b" and ?B = "\<lambda>q. below s (OpNode q)"
  obtain ps where ps: "block_ops s b = Some ps" using block_ops_ok[OF s(1), of b] b by auto
  have c: "child s ?n (OpNode q)" if "q \<in> set ps" for q using ps that by (simp add: child_def)
  have dp: "distinct ps" by (rule block_list(2)[OF s(1) ps])
  then have d: "distinct (map OpNode (rev ps))" by (simp add: distinct_map inj_on_def)
  have "below s ?n = insert ?n (\<Union>q \<in> set ps. ?B q)"
    by (subst below_rec) (use ps in \<open>auto simp: child_def\<close>)
  moreover have "?n \<notin> (\<Union>q \<in> set ps. ?B q)" using below_not_up[OF s c] by blast
  ultimately have N: "below s ?n - {?n} = (\<Union>q \<in> set (rev ps). ?B q)" by auto
  have er: "erases is_term s E (map EraseOperation (rev ps)) (\<Union>q \<in> set (rev ps). ?B q)"
  proof (rule erases_map)
    fix ys q zs assume x: "rev ps = ys @ q # zs"
    have "ps = rev (ys @ q # zs)" unfolding x[symmetric] by simp
    then have ps': "ps = rev zs @ q # rev ys" by simp
    have q: "q \<in> set ps" unfolding ps' by simp
    have f: "?B q \<inter> (E \<union> (\<Union>y \<in> set ys. ?B y)) = {}"
    proof (rule below_fresh[OF s d[unfolded x] _ e])
      show "child s ?n (OpNode y)" if "y \<in> set (ys @ q # zs)" for y
        by (rule c) (use that in \<open>simp only: x[symmetric] set_rev\<close>)
    qed
    have "uses_in_order s q b" using t c[OF q] below_self unfolding tidy_def by blast
    have "OpNode u \<in> E \<union> (\<Union>y \<in> set ys. ?B y) \<union> ?B q" if u: "u \<in> users s (OpNode q)" for u
    proof (cases "OpNode u \<in> ?B q")
      case False
      then obtain i j where ij: "i < j" "j < length ps" "ps ! i = q" "OpNode u \<in> ?B (ps ! j)"
        using \<open>uses_in_order s q b\<close> u ps by (auto simp: uses_in_order_def)
      have "ps ! j \<in> set (rev ys)" using split_precedes[OF dp ps', of "ps ! j"] ij by blast
      then show ?thesis using ij(4) by auto
    qed simp
    then show "erases is_term s (E \<union> (\<Union>y \<in> set ys. ?B y)) [EraseOperation q] (?B q)"
      using ops[OF c[OF q]] f unfolding op_erases_def by blast
  qed
  have "filter (\<lambda>q. OpNode q \<notin> E) ps = ps" using below_child[OF below_self c] e by (auto simp: filter_id_conv)
  then have "block_ops st b = Some ps" using block_ops_after[OF st ps] e below_self by (metis IntI empty_iff)
  then show ?thesis using er N task by (auto simp: erase_children_def)
qed

lemma block_ops_erases_step:
  assumes s: "ctx_ok s" "ir_finite s" and b: "node_exists s (BlockNode b)" and t: "tidy is_term s (BlockNode b)"
    and ops: "\<And>q. child s (BlockNode b) (OpNode q) \<Longrightarrow> op_erases is_term s q"
  shows "block_ops_erases is_term s b"
  unfolding block_ops_erases_def
proof (intro allI impI)
  fix E assume e: "below s (BlockNode b) \<inter> E = {}"
  have "erases is_term s E [EraseOpsOf b] (below s (BlockNode b) - {BlockNode b} \<union> set [])"
  proof (rule erases_task)
    show "\<exists>cs. erase_children is_term st (EraseOpsOf b) = Some cs \<and> erases is_term s E cs (below s (BlockNode b) - {BlockNode b})"
      if "after E s st" for st
      by (rule block_children[OF s b t ops e that disjI1[OF refl]])
  qed (simp_all add: erase_finish_def bottom_up_def)
  then show "erases is_term s E [EraseOpsOf b] (below s (BlockNode b) - {BlockNode b})" by simp
qed

lemma region_erases_step:
  assumes s: "ctx_ok s" "ir_finite s" and r: "regions s r \<noteq> None" and t: "tidy is_term s (RegionNode r)"
    and bs: "\<And>b. child s (RegionNode r) (BlockNode b) \<Longrightarrow> block_ops_erases is_term s b"
  shows "region_erases is_term s r"
  unfolding region_erases_def
proof (intro allI impI)
  fix E assume e: "below s (RegionNode r) \<inter> E = {}"
  let ?n = "RegionNode r" and ?B = "\<lambda>b. below s (BlockNode b) - {BlockNode b}"
  obtain bs where blocks: "region_blocks s r = Some bs" using region_blocks_ok[OF s(1) r] by blast
  have c: "child s ?n (BlockNode b)" if "b \<in> set bs" for b using blocks that by (simp add: child_def)
  have br: "branches_ok is_term s r" using t below_self unfolding tidy_def by blast
  have args: "OpNode u \<in> below s ?n" if "b \<in> set bs" "u \<in> users s (BlockNode b)" for b u
    using t below_self c[OF that(1)] that(2) unfolding tidy_def by blast
  let ?N1 = "\<Union>b \<in> set bs. ?B b" and ?N2 = "BlockNode ` set bs"
  have N: "below s ?n = insert ?n (\<Union>b \<in> set bs. below s (BlockNode b))"
    by (subst below_rec) (use blocks in \<open>auto simp: child_def\<close>)
  then have N12: "below s ?n = insert ?n (?N1 \<union> ?N2)" by auto
  have notin: "?n \<notin> ?N1 \<union> ?N2" using below_not_up[OF s c] by blast
  have blk: "BlockNode b \<notin> ?N1" if b: "b \<in> set bs" for b
  proof
    assume "BlockNode b \<in> ?N1"
    then obtain b' where b': "b' \<in> set bs" "BlockNode b \<in> below s (BlockNode b')" "b \<noteq> b'" by auto
    then have "below s (BlockNode b) \<inter> below s (BlockNode b') = {}"
      using below_siblings[OF s c[OF b] c[OF b'(1)]] by simp
    then show False using b'(2) below_self by blast
  qed
  have first: "erases is_term s E (map EraseOpsOf po) ?N1" if po: "distinct po" "set po = set bs" for po
  proof -
    have "erases is_term s E (map EraseOpsOf po) (\<Union>b \<in> set po. ?B b)"
    proof (rule erases_map)
      fix ys b zs assume x: "po = ys @ b # zs"
      have "below s (BlockNode b) \<inter> (E \<union> (\<Union>y \<in> set ys. below s (BlockNode y))) = {}"
        by (rule below_fresh[OF s, of BlockNode ys b zs ?n]) (use x po c e in \<open>auto simp: distinct_map inj_on_def\<close>)
      then have "below s (BlockNode b) \<inter> (E \<union> (\<Union>y \<in> set ys. ?B y)) = {}" by blast
      moreover have "b \<in> set bs" using x po(2) by auto
      ultimately show "erases is_term s (E \<union> (\<Union>y \<in> set ys. ?B y)) [EraseOpsOf b] (?B b)"
        using bs[OF c] unfolding block_ops_erases_def by blast
    qed
    then show ?thesis using po(2) by simp
  qed
  have inside: "OpNode u \<in> ?N1" if "OpNode u \<in> below s ?n" for u using that N12 by auto
  have kids: "k \<in> ?N1" if b: "b \<in> set bs" and k: "child s (BlockNode b) k" for b k
  proof -
    have "k \<in> below s (BlockNode b)" by (rule below_child[OF below_self k])
    moreover have "k \<noteq> BlockNode b" using k s(1) by (auto simp: child_simps)
    ultimately show ?thesis using b by auto
  qed
  have second: "erases is_term s (E \<union> ?N1) (map EraseBlock po) ?N2" if po: "distinct po" "set po = set bs" for po
  proof -
    have "erases is_term s (E \<union> ?N1) (map EraseBlock po) (\<Union>b \<in> set po. {BlockNode b})"
    proof (rule erases_map)
      fix ys b zs assume x: "po = ys @ b # zs"
      let ?E = "E \<union> ?N1 \<union> (\<Union>y \<in> set ys. {BlockNode y})"
      have b: "b \<in> set bs" "b \<notin> set ys" using x po by auto
      have be: "BlockNode b \<notin> E" using e c[OF b(1)] below_child[OF below_self] by blast
      have bE: "BlockNode b \<notin> ?E" using be blk[OF b(1)] b(2) by auto
      obtain ps where ps: "block_ops s b = Some ps" using block_ops_ok[OF s(1), of b] child_exists[OF s(1) c[OF b(1)]] by auto
      have "erases is_term s ?E [task_of (BlockNode b)] (insert (BlockNode b) {})"
      proof (rule erases_node)
        fix st assume st: "after ?E s st"
        have "OpNode q \<in> ?N1" if "q \<in> set ps" for q using kids[OF b(1), of "OpNode q"] ps that by (simp add: child_def)
        then have "filter (\<lambda>q. OpNode q \<notin> ?E) ps = []" by (auto simp: filter_empty_conv)
        then have "block_ops st b = Some []" using block_ops_after[OF st ps bE] by simp
        then show "\<exists>cs. erase_children is_term st (task_of (BlockNode b)) = Some cs \<and> erases is_term s ?E cs {}"
          by (simp add: erase_children_def erases_Nil)
      next
        show "BlockNode b \<notin> ?E \<union> {}" using bE by simp
        show "node_exists s (BlockNode b)" by (rule child_exists[OF s(1) c[OF b(1)]])
        show "k \<in> ?E \<union> {}" if "child s (BlockNode b) k" for k using kids[OF b(1) that] by blast
        show "OpNode u \<in> insert (BlockNode b) (?E \<union> {})" if "u \<in> users s (BlockNode b)" for u
          using inside[OF args[OF b(1) that]] by blast
      qed
      then show "erases is_term s ?E [EraseBlock b] {BlockNode b}" by simp
    qed
    moreover have "(\<Union>b \<in> set po. {BlockNode b}) = ?N2" using po(2) by auto
    ultimately show ?thesis by simp
  qed
  have "erases is_term s E [task_of ?n] (insert ?n (?N1 \<union> ?N2))"
  proof (rule erases_node)
    fix st assume st: "after E s st"
    have nE: "k \<notin> E" if "k \<in> below s ?n" for k using e that by blast
    have "branches_ok is_term st r"
    proof (rule branches_ok_after[OF s(1) st r br])
      show "?n \<notin> E" by (rule nE[OF below_self])
      show "BlockNode b \<notin> E" if "child s ?n (BlockNode b)" for b using nE below_child[OF below_self that] by blast
      show "OpNode p \<notin> E" if "child s ?n (BlockNode b)" "child s (BlockNode b) (OpNode p)" for b p
        using nE below_child[OF below_child[OF below_self that(1)] that(2)] by blast
    qed
    moreover have str: "regions st r \<noteq> None"
      using st erasedD(1)[of E s st ?n] r nE[OF below_self] by (simp add: after_def)
    moreover have ok: "ctx_ok st" using st by (simp add: after_def)
    ultimately have g: "wf_cfg (region_cfg is_term st r)" "region_blocks st r = Some (graph_nodes (region_cfg is_term st r))"
      using region_cfg_ok[OF ok] by blast+
    have "filter (\<lambda>b. BlockNode b \<notin> E) bs = bs" using below_child[OF below_self c] nE by (auto simp: filter_id_conv)
    then have "graph_nodes (region_cfg is_term st r) = bs" using region_blocks_after[OF st blocks nE[OF below_self]] g(2) by simp
    then obtain po where po: "post_order (region_cfg is_term st r) = Some po" "distinct po" "set po = set bs"
      using orders_cover_all_nodes[OF g(1)] by auto
    have "erases is_term s E (map EraseOpsOf (rev po) @ map EraseBlock po) (?N1 \<union> ?N2)"
      by (rule erases_append[OF first second]) (use po in simp_all)
    then show "\<exists>cs. erase_children is_term st (task_of ?n) = Some cs \<and> erases is_term s E cs (?N1 \<union> ?N2)"
      using po(1) str by (auto simp: erase_children_def)
  next
    show "?n \<notin> E \<union> (?N1 \<union> ?N2)" using e notin below_self by blast
    show "node_exists s ?n" using r by simp
    show "k \<in> E \<union> (?N1 \<union> ?N2)" if "child s ?n k" for k using that blocks by (auto simp: child_def)
    show "OpNode u \<in> insert ?n (E \<union> (?N1 \<union> ?N2))" if "u \<in> users s ?n" for u
      using that by (auto simp: users_def elim: entity_node.elims)
  qed
  then show "erases is_term s E [EraseRegion r] (below s ?n)" using N12 by simp
qed

definition node_erases :: "('c \<Rightarrow> bool) \<Rightarrow> ('ty, 'c, 'a) ctx \<Rightarrow> ir_node \<Rightarrow> bool" where
  "node_erases is_term s n \<longleftrightarrow>
     (case n of OpNode p \<Rightarrow> op_erases is_term s p | BlockNode b \<Rightarrow> block_ops_erases is_term s b | RegionNode r \<Rightarrow> region_erases is_term s r)"

lemma node_erases:
  assumes s: "ctx_ok s" "ir_finite s" and n: "node_exists s n" and t: "tidy is_term s n"
  shows "node_erases is_term s n"
  using n t
proof (induction n rule: wfp_induct_rule[OF child_wf[OF s]])
  case (1 n)
  have "node_erases is_term s m" if "child s n m" for m
    using 1(1)[OF that child_exists[OF s(1) that]] tidy_below[OF 1(3) below_child[OF below_self that]] by blast
  note ih = this
  show ?case
  proof (cases n)
    case (OpNode p)
    have "region_erases is_term s r" if "child s (OpNode p) (RegionNode r)" for r
      using ih[of "RegionNode r"] that OpNode by (simp add: node_erases_def)
    then show ?thesis using op_erases_step[OF s, of p is_term] 1(2) OpNode by (simp add: node_erases_def)
  next
    case (BlockNode b)
    have "op_erases is_term s q" if "child s (BlockNode b) (OpNode q)" for q
      using ih[of "OpNode q"] that BlockNode by (simp add: node_erases_def)
    then show ?thesis using block_ops_erases_step[OF s, of b is_term] 1(2,3) BlockNode by (simp add: node_erases_def)
  next
    case (RegionNode r)
    have "block_ops_erases is_term s b" if "child s (RegionNode r) (BlockNode b)" for b
      using ih[of "BlockNode b"] that RegionNode by (simp add: node_erases_def)
    then show ?thesis using region_erases_step[OF s, of r is_term] 1(2,3) RegionNode by (simp add: node_erases_def)
  qed
qed

lemma erases_run:
  assumes "erases is_term s {} ts N" and "ctx_ok s" and "ir_finite s"
  shows "\<exists>ns s'. rw_erase is_term L (rw, s) ts = Some (note_all f ns rw, s') \<and> ctx_ok s' \<and> ir_finite s' \<and> erased N s s'
    \<and> set ns = N \<and> bottom_up s {} ns"
  using assms(1) after_refl[OF assms(2,3)] unfolding erases_def by (fastforce simp: after_def)

lemma erase_operation_run:
  assumes s: "ctx_ok s" "ir_finite s" "operations s p \<noteq> None" and t: "tidy is_term s (OpNode p)"
    and u: "\<forall>u \<in> users s (OpNode p). OpNode u \<in> below s (OpNode p)"
  shows "\<exists>ns s'. erase_operation is_term L (rw, s) p = Some (note_all f ns rw, s') \<and> ctx_ok s' \<and> ir_finite s'
    \<and> erased (below s (OpNode p)) s s' \<and> set ns = below s (OpNode p) \<and> bottom_up s {} ns"
proof -
  have "op_erases is_term s p" using node_erases[OF s(1,2) _ t] s(3) by (simp add: node_erases_def)
  then have "erases is_term s {} [EraseOperation p] (below s (OpNode p))" using u unfolding op_erases_def by simp
  from erases_run[OF this s(1,2)] show ?thesis by (simp add: erase_operation_def)
qed

lemma erase_region_run:
  assumes s: "ctx_ok s" "ir_finite s" "regions s r \<noteq> None" and t: "tidy is_term s (RegionNode r)"
  shows "\<exists>ns s'. rw_erase_region is_term L (rw, s) r = Some (note_all f ns rw, s') \<and> ctx_ok s' \<and> ir_finite s'
    \<and> erased (below s (RegionNode r)) s s' \<and> set ns = below s (RegionNode r) \<and> bottom_up s {} ns"
proof -
  have "region_erases is_term s r" using node_erases[OF s(1,2) _ t] s(3) by (simp add: node_erases_def)
  then have "erases is_term s {} [EraseRegion r] (below s (RegionNode r))" unfolding region_erases_def by simp
  from erases_run[OF this s(1,2)] show ?thesis by (simp add: rw_erase_region_def)
qed

lemma erase_block_run:
  assumes s: "ctx_ok s" "ir_finite s" "basic_blocks s b \<noteq> None" and t: "tidy is_term s (BlockNode b)"
    and u: "\<forall>u \<in> users s (BlockNode b). OpNode u \<in> below s (BlockNode b)"
  shows "\<exists>ns s'. erase_block is_term L (rw, s) b = Some (note_all f ns rw, s') \<and> ctx_ok s' \<and> ir_finite s'
    \<and> erased (below s (BlockNode b)) s s' \<and> set ns = below s (BlockNode b) \<and> bottom_up s {} ns"
proof -
  let ?n = "BlockNode b"
  have ops: "op_erases is_term s q" if "child s ?n (OpNode q)" for q
    using node_erases[OF s(1,2) child_exists[OF s(1) that] tidy_below[OF t below_child[OF below_self that]]]
    by (simp add: node_erases_def)
  have "erases is_term s {} [task_of ?n] (insert ?n (below s ?n - {?n}))"
  proof (rule erases_node)
    show "\<exists>cs. erase_children is_term st (task_of ?n) = Some cs \<and> erases is_term s {} cs (below s ?n - {?n})"
      if "after {} s st" for st
      by (rule block_children[OF s(1,2) _ t ops _ that]) (use s(3) in simp_all)
    show "k \<in> {} \<union> (below s ?n - {?n})" if "child s ?n k" for k
      using below_child[OF below_self that] that s(1) by (auto simp: child_simps)
  qed (use s(3) u in auto)
  then have "erases is_term s {} [EraseBlock b] (below s ?n)" by (simp add: insert_absorb)
  from erases_run[OF this s(1,2)] show ?thesis by (simp add: erase_block_def)
qed

end

section \<open>The listeners of the program\<close>

fun erased_event :: "ir_node \<Rightarrow> 'ty recorder_event" where
  "erased_event (OpNode p) = ErasedOperation p"
| "erased_event (BlockNode b) = ErasedBlock b"
| "erased_event (RegionNode r) = ErasedRegion r"

interpretation dummy_erasure: erasure_listener dummy_listener "\<lambda>_ l. l"
  by unfold_locales (simp_all add: dummy_listener_def)

interpretation recorder_erasure: erasure_listener recorder "\<lambda>n events. events @ [erased_event n]"
  by unfold_locales (simp_all add: recorder_def)

lemma fold_events: "fold (\<lambda>n events. events @ [g n]) ns es = es @ map g ns"
  by (induction ns arbitrary: es) simp_all

end
