(* ===== verification/RewriteMove.thy ===== *)
theory RewriteMove
  imports Rewriter
begin

text \<open>
  Inserting and moving through the rewriter: on the lists of operations of each block and of blocks of each region
  (\<open>block_ops\<close>, \<open>region_blocks\<close>), an insertion point is a place between two parts of a list (\<open>op_slot\<close>, \<open>block_slot\<close>).
  The listener may keep any state as long as it does not panic (locale \<open>move_listener\<close>).
\<close>

section \<open>The lists of a context\<close>

lemma lists_eq:
  "ll_inv (op_links s) L \<Longrightarrow> block_ops s = L" "ll_inv (block_links s) N \<Longrightarrow> region_blocks s = N"
proof -
  show "block_ops s = L" if L: "ll_inv (op_links s) L"
  proof
    fix b show "block_ops s b = L b"
    proof (cases "L b")
      case None
      then have "roots (op_links s) b = None" using ll_invD(3)[OF L] by (metis domIff)
      then show ?thesis using None by (simp add: block_ops_def iter_def deref_root_def of_outcome_def)
    qed (use ll_collect[OF L, of b] in \<open>auto simp: block_ops_def\<close>)
  qed
  show "region_blocks s = N" if N: "ll_inv (block_links s) N"
  proof
    fix r show "region_blocks s r = N r"
    proof (cases "N r")
      case None
      then have "roots (block_links s) r = None" using ll_invD(3)[OF N] by (metis domIff)
      then show ?thesis using None by (simp add: region_blocks_def iter_def deref_root_def of_outcome_def)
    qed (use ll_collect[OF N, of r] in \<open>auto simp: region_blocks_def\<close>)
  qed
qed

lemma ctx_lists:
  assumes "ctx_ok s"
  shows "ll_inv (op_links s) (block_ops s)" and "ll_inv (block_links s) (region_blocks s)"
  using assms lists_eq[of s] by (auto simp: ctx_ok_def shape_ok_def)

lemma list_node:
  assumes "ll_inv l M" and "M c = Some (ps @ p # qs)"
  shows "nodes l p = Some \<lparr>get_next = first_or qs None, get_prev = last_or None ps, get_container = Some c\<rparr>"
    and "roots l c = Some \<lparr>get_head = first_or (ps @ [p]) None, get_tail = last_or (Some p) qs\<rparr>"
    and "p \<notin> set ps" and "p \<notin> set qs"
  using ll_invD(1)[OF assms] by (auto simp: ll_list_def)

text \<open>Only the lists change.\<close>

definition relinked ::
    "('ty, 'c, 'a) ctx \<Rightarrow> (block_ptr \<rightharpoonup> op_ptr list) \<Rightarrow> (region_ptr \<rightharpoonup> block_ptr list) \<Rightarrow> ('ty, 'c, 'a) ctx \<Rightarrow> bool"
where
  "relinked s M N s' \<longleftrightarrow> ctx_ok s' \<and> block_ops s' = M \<and> region_blocks s' = N
     \<and> s'\<lparr>op_links := op_links s, block_links := block_links s\<rparr> = s"

lemma relinked_refl: "ctx_ok s \<Longrightarrow> relinked s (block_ops s) (region_blocks s) s"
  by (simp add: relinked_def)

lemma relinked_trans:
  assumes "relinked s M N s'" and "relinked s' M' N' s''"
  shows "relinked s M' N' s''"
proof -
  have "s''\<lparr>op_links := op_links s, block_links := block_links s\<rparr>
      = (s''\<lparr>op_links := op_links s', block_links := block_links s'\<rparr>)\<lparr>op_links := op_links s, block_links := block_links s\<rparr>"
    by simp
  also have "\<dots> = s" using assms by (simp add: relinked_def)
  finally show ?thesis using assms(2) by (simp add: relinked_def)
qed

lemma relinked_ops:
  assumes s: "ctx_ok s" and x: "ll_exec (op_links s) x = Inr l" and M: "ll_inv l M"
  shows "relinked s M (region_blocks s) (s\<lparr>op_links := l\<rparr>)"
proof -
  have "block_ops (s\<lparr>op_links := l\<rparr>) = M" using lists_eq(1)[of "s\<lparr>op_links := l\<rparr>"] M by simp
  moreover have "region_blocks (s\<lparr>op_links := l\<rparr>) = region_blocks s" by (simp add: region_blocks_def[abs_def])
  ultimately show ?thesis using links_good[OF s x] by (simp add: relinked_def good_step_def)
qed

lemma relinked_blocks:
  assumes s: "ctx_ok s" and x: "ll_exec (block_links s) x = Inr l" and N: "ll_inv l N"
  shows "relinked s (block_ops s) N (s\<lparr>block_links := l\<rparr>)"
proof -
  have "region_blocks (s\<lparr>block_links := l\<rparr>) = N" using lists_eq(2)[of "s\<lparr>block_links := l\<rparr>"] N by simp
  moreover have "block_ops (s\<lparr>block_links := l\<rparr>) = block_ops s" by (simp add: block_ops_def[abs_def])
  ultimately show ?thesis using block_list_good[OF s x] by (simp add: relinked_def good_step_def)
qed

section \<open>Insertion points are places in lists\<close>

fun op_slot :: "(block_ptr \<rightharpoonup> op_ptr list) \<Rightarrow> op_insertion_point \<Rightarrow> block_ptr \<Rightarrow> op_ptr list \<Rightarrow> op_ptr list \<Rightarrow> bool" where
  "op_slot M Unset b ps qs \<longleftrightarrow> False"
| "op_slot M (AtBlockStart c) b ps qs \<longleftrightarrow> M b = Some (ps @ qs) \<and> c = b \<and> ps = []"
| "op_slot M (AtBlockEnd c) b ps qs \<longleftrightarrow> M b = Some (ps @ qs) \<and> c = b \<and> qs = []"
| "op_slot M (AfterOperation p) b ps qs \<longleftrightarrow> M b = Some (ps @ qs) \<and> ps \<noteq> [] \<and> last ps = p"
| "op_slot M (BeforeOperation p) b ps qs \<longleftrightarrow> M b = Some (ps @ qs) \<and> qs \<noteq> [] \<and> hd qs = p"

fun block_slot :: "(region_ptr \<rightharpoonup> block_ptr list) \<Rightarrow> block_insertion_point \<Rightarrow> region_ptr \<Rightarrow> block_ptr list \<Rightarrow> block_ptr list \<Rightarrow> bool" where
  "block_slot N UnsetBlock r bs cs \<longleftrightarrow> False"
| "block_slot N (AtRegionStart q) r bs cs \<longleftrightarrow> N r = Some (bs @ cs) \<and> q = r \<and> bs = []"
| "block_slot N (AtRegionEnd q) r bs cs \<longleftrightarrow> N r = Some (bs @ cs) \<and> q = r \<and> cs = []"
| "block_slot N (AfterBlock b) r bs cs \<longleftrightarrow> N r = Some (bs @ cs) \<and> bs \<noteq> [] \<and> last bs = b"
| "block_slot N (BeforeBlock b) r bs cs \<longleftrightarrow> N r = Some (bs @ cs) \<and> cs \<noteq> [] \<and> hd cs = b"

lemma op_slotD: "op_slot M point b ps qs \<Longrightarrow> M b = Some (ps @ qs)"
  by (cases point) auto

lemma block_slotD: "block_slot N point r bs cs \<Longrightarrow> N r = Some (bs @ cs)"
  by (cases point) auto

text \<open>Where the recorder says that an operation or a block was, in terms of what stands before and after it.\<close>

definition op_position :: "block_ptr \<Rightarrow> op_ptr list \<Rightarrow> op_ptr list \<Rightarrow> op_insertion_point" where
  "op_position b ps qs = (if ps = [] then AtBlockStart b else if qs = [] then AtBlockEnd b else AfterOperation (last ps))"

definition block_position :: "region_ptr \<Rightarrow> block_ptr list \<Rightarrow> block_ptr list \<Rightarrow> block_insertion_point" where
  "block_position r bs cs = (if bs = [] then AtRegionStart r else if cs = [] then AtRegionEnd r else AfterBlock (last bs))"

lemma position_slot:
  "M b = Some (ps @ qs) \<Longrightarrow> op_slot M (op_position b ps qs) b ps qs"
  "N r = Some (bs @ cs) \<Longrightarrow> block_slot N (block_position r bs cs) r bs cs"
  by (simp_all add: op_position_def block_position_def)

lemma previous_position:
  assumes "ctx_ok s"
  shows "block_ops s b = Some (ps @ p # qs) \<Longrightarrow> previous_op_position s p = Some (op_position b ps qs)"
    and "region_blocks s r = Some (bs @ c # cs) \<Longrightarrow> previous_block_position s c = Some (block_position r bs cs)"
proof -
  show "previous_op_position s p = Some (op_position b ps qs)" if "block_ops s b = Some (ps @ p # qs)"
    using list_node[OF ctx_lists(1)[OF assms] that]
    by (cases ps; cases qs rule: rev_cases) (auto simp: previous_op_position_def op_position_def last_or_def)
  show "previous_block_position s c = Some (block_position r bs cs)" if "region_blocks s r = Some (bs @ c # cs)"
    using list_node[OF ctx_lists(2)[OF assms] that]
    by (cases bs; cases cs rule: rev_cases) (auto simp: previous_block_position_def block_position_def last_or_def)
qed

section \<open>Single steps\<close>

lemma insert_slot:
  assumes s: "ctx_ok s" and slot: "op_slot (block_ops s) point b ps qs" and p: "ll_free (op_links s) p"
  shows "\<exists>l. (case point of
         AtBlockStart block \<Rightarrow> of_outcome (insert_at_front (op_links s) p block)
       | AtBlockEnd block \<Rightarrow> of_outcome (insert_at_back (op_links s) p block)
       | AfterOperation q \<Rightarrow> of_outcome (insert_after (op_links s) p q)
       | BeforeOperation q \<Rightarrow> of_outcome (insert_before (op_links s) p q)
       | Unset \<Rightarrow> None) = Some l
    \<and> relinked s ((block_ops s)(b \<mapsto> ps @ p # qs)) (region_blocks s) (s\<lparr>op_links := l\<rparr>)"
proof (cases point)
  case (AtBlockStart c)
  then show ?thesis
    using slot insert_at_front_refines[OF ctx_lists(1)[OF s] _ p, of b qs] relinked_ops[OF s, of "InsertAtFront p b"] by auto
next
  case (AtBlockEnd c)
  then show ?thesis
    using slot insert_at_back_refines[OF ctx_lists(1)[OF s] _ p, of b ps] relinked_ops[OF s, of "InsertAtBack p b"] by auto
next
  case (AfterOperation q)
  then obtain us where "ps = us @ [q]" using slot by (cases ps rule: rev_cases) auto
  then show ?thesis
    using AfterOperation slot insert_after_refines[OF ctx_lists(1)[OF s] _ p, of b us q qs] relinked_ops[OF s, of "InsertAfter p q"] by auto
next
  case (BeforeOperation q)
  then obtain us where "qs = q # us" using slot by (cases qs) auto
  then show ?thesis
    using BeforeOperation slot insert_before_refines[OF ctx_lists(1)[OF s] _ p, of b ps q us] relinked_ops[OF s, of "InsertBefore p q"] by auto
qed (use slot in simp)

lemma insert_block_slot:
  assumes s: "ctx_ok s" and slot: "block_slot (region_blocks s) point r bs cs" and b: "ll_free (block_links s) b"
  shows "\<exists>l. (case point of
         AtRegionStart region \<Rightarrow> of_outcome (insert_at_front (block_links s) b region)
       | AtRegionEnd region \<Rightarrow> of_outcome (insert_at_back (block_links s) b region)
       | AfterBlock prev_block \<Rightarrow> of_outcome (insert_after (block_links s) b prev_block)
       | BeforeBlock next_block \<Rightarrow> of_outcome (insert_before (block_links s) b next_block)
       | UnsetBlock \<Rightarrow> None) = Some l
    \<and> relinked s (block_ops s) ((region_blocks s)(r \<mapsto> bs @ b # cs)) (s\<lparr>block_links := l\<rparr>)"
proof (cases point)
  case (AtRegionStart c)
  then show ?thesis
    using slot insert_at_front_refines[OF ctx_lists(2)[OF s] _ b, of r cs] relinked_blocks[OF s, of "InsertAtFront b r"] by auto
next
  case (AtRegionEnd c)
  then show ?thesis
    using slot insert_at_back_refines[OF ctx_lists(2)[OF s] _ b, of r bs] relinked_blocks[OF s, of "InsertAtBack b r"] by auto
next
  case (AfterBlock q)
  then obtain us where "bs = us @ [q]" using slot by (cases bs rule: rev_cases) auto
  then show ?thesis
    using AfterBlock slot insert_after_refines[OF ctx_lists(2)[OF s] _ b, of r us q cs] relinked_blocks[OF s, of "InsertAfter b q"] by auto
next
  case (BeforeBlock q)
  then obtain us where "cs = q # us" using slot by (cases cs) auto
  then show ?thesis
    using BeforeBlock slot insert_before_refines[OF ctx_lists(2)[OF s] _ b, of r bs q us] relinked_blocks[OF s, of "InsertBefore b q"] by auto
qed (use slot in simp)

lemma free_not_linked: "ll_free l p \<Longrightarrow> is_linked l p = Inr False"
  by (simp add: ll_free_def is_linked_def deref_def)

section \<open>Moving, for every listener that lets it happen\<close>

text \<open>The rewriter after the events \<open>es\<close>: the listener has noted them in order, and insertion point and configuration are as before.\<close>

definition logged :: "('ty recorder_event \<Rightarrow> 'l \<Rightarrow> 'l) \<Rightarrow> 'ty recorder_event list \<Rightarrow> 'l ir_rewriter \<Rightarrow> 'l ir_rewriter" where
  "logged jot es rw = rw\<lparr>inserter := (inserter rw)\<lparr>listener := fold jot es (listener (inserter rw)),
     modified := modified (inserter rw) \<or> es \<noteq> []\<rparr>\<rparr>"

lemma logged_simps [simp]:
  "logged jot [] rw = rw" "logged jot es (logged jot ds rw) = logged jot (ds @ es) rw"
  "listener (inserter (logged jot es rw)) = fold jot es (listener (inserter rw))"
  "op_insertion_point (inserter (logged jot es rw)) = op_insertion_point (inserter rw)"
  "config (logged jot es rw) = config rw"
  "modified (inserter (logged jot es rw)) \<longleftrightarrow> modified (inserter rw) \<or> es \<noteq> []"
  by (simp_all add: logged_def)

lemma scoped_logged:
  assumes "f (set_insertion_point rw point, s) = Some (set_insertion_point (logged jot es rw) point', s')"
  shows "scoped point f (rw, s) = Some (logged jot es rw, s')"
  using assms by (simp add: scoped_def set_insertion_point_def get_insertion_point_def logged_def Let_def)

lemma set_insertion_point_logged:
  "logged jot es (set_insertion_point rw point) = set_insertion_point (logged jot es rw) point"
  by (simp add: logged_def set_insertion_point_def)

locale move_listener =
  fixes L :: "('ty, 'c, 'a, 'l) rewrite_listener" and jot :: "'ty recorder_event \<Rightarrow> 'l \<Rightarrow> 'l"
  assumes on_insert: "notify_operation_inserted L ctx p l = Some (jot (InsertedOperation p) l)"
    and on_insert_block: "notify_block_inserted L ctx b l = Some (jot (InsertedBlock b) l)"
    and on_unlink: "previous_op_position ctx p = Some pos \<Longrightarrow> notify_operation_unlinking L ctx p l = Some (jot (UnlinkedOperation p pos) l)"
    and on_unlink_block:
      "previous_block_position ctx b = Some bpos \<Longrightarrow> notify_block_unlinking L ctx b l = Some (jot (UnlinkedBlock b bpos) l)"
begin

lemma insert_operation_run:
  assumes "ctx_ok s" and "op_slot (block_ops s) (get_insertion_point rw) b ps qs" and "ll_free (op_links s) p"
  shows "\<exists>s'. rw_insert_operation L (rw, s) p = Some (logged jot [InsertedOperation p] rw, s')
    \<and> relinked s ((block_ops s)(b \<mapsto> ps @ p # qs)) (region_blocks s) s'"
proof -
  obtain l where l: "(case get_insertion_point rw of
         AtBlockStart block \<Rightarrow> of_outcome (insert_at_front (op_links s) p block)
       | AtBlockEnd block \<Rightarrow> of_outcome (insert_at_back (op_links s) p block)
       | AfterOperation q \<Rightarrow> of_outcome (insert_after (op_links s) p q)
       | BeforeOperation q \<Rightarrow> of_outcome (insert_before (op_links s) p q)
       | Unset \<Rightarrow> None) = Some l"
    "relinked s ((block_ops s)(b \<mapsto> ps @ p # qs)) (region_blocks s) (s\<lparr>op_links := l\<rparr>)"
    using insert_slot[OF assms] by blast
  have "rw_insert_operation L (rw, s) p = Some (logged jot [InsertedOperation p] rw, s\<lparr>op_links := l\<rparr>)"
    using l(1) free_not_linked[OF assms(3)]
    by (simp add: rw_insert_operation_def via_inserter_def insert_operation_def get_insertion_point_def Let_def on_insert logged_def)
  then show ?thesis using l(2) by blast
qed

lemma insert_block_run:
  assumes "ctx_ok s" and "block_slot (region_blocks s) point r bs cs" and "ll_free (block_links s) b"
  shows "\<exists>s'. rw_insert_block L (rw, s) point b = Some (logged jot [InsertedBlock b] rw, s')
    \<and> relinked s (block_ops s) ((region_blocks s)(r \<mapsto> bs @ b # cs)) s'"
proof -
  obtain l where l: "(case point of
         AtRegionStart region \<Rightarrow> of_outcome (insert_at_front (block_links s) b region)
       | AtRegionEnd region \<Rightarrow> of_outcome (insert_at_back (block_links s) b region)
       | AfterBlock prev_block \<Rightarrow> of_outcome (insert_after (block_links s) b prev_block)
       | BeforeBlock next_block \<Rightarrow> of_outcome (insert_before (block_links s) b next_block)
       | UnsetBlock \<Rightarrow> None) = Some l"
    "relinked s (block_ops s) ((region_blocks s)(r \<mapsto> bs @ b # cs)) (s\<lparr>block_links := l\<rparr>)"
    using insert_block_slot[OF assms] by blast
  have "rw_insert_block L (rw, s) point b = Some (logged jot [InsertedBlock b] rw, s\<lparr>block_links := l\<rparr>)"
    using l(1) by (simp add: rw_insert_block_def via_inserter_def insert_block_def Let_def on_insert_block logged_def)
  then show ?thesis using l(2) by blast
qed

lemma unlink_operation_run:
  assumes s: "ctx_ok s" and p: "block_ops s b = Some (ps @ p # qs)"
  shows "\<exists>s'. unlink_operation L (rw, s) p = Some (logged jot [UnlinkedOperation p (op_position b ps qs)] rw, s')
    \<and> relinked s ((block_ops s)(b \<mapsto> ps @ qs)) (region_blocks s) s' \<and> ll_free (op_links s') p"
proof -
  obtain l where l: "unlink (op_links s) p = Inr l" "ll_inv l ((block_ops s)(b \<mapsto> ps @ qs))" "ll_free l p"
    using unlink_refines[OF ctx_lists(1)[OF s] p] by blast
  have "unlink_operation L (rw, s) p
      = Some (logged jot [UnlinkedOperation p (op_position b ps qs)] rw, s\<lparr>op_links := l\<rparr>)"
    using l(1) by (simp add: unlink_operation_def notify_def mark_modified_def logged_def on_unlink[OF previous_position(1)[OF s p]])
  then show ?thesis using relinked_ops[OF s, of "Unlink p" l] l by auto
qed

lemma unlink_block_run:
  assumes s: "ctx_ok s" and b: "region_blocks s r = Some (bs @ b # cs)"
  shows "\<exists>s'. unlink_block L (rw, s) b = Some (logged jot [UnlinkedBlock b (block_position r bs cs)] rw, s')
    \<and> relinked s (block_ops s) ((region_blocks s)(r \<mapsto> bs @ cs)) s' \<and> ll_free (block_links s') b"
proof -
  obtain l where l: "unlink (block_links s) b = Inr l" "ll_inv l ((region_blocks s)(r \<mapsto> bs @ cs))" "ll_free l b"
    using unlink_refines[OF ctx_lists(2)[OF s] b] by blast
  have "unlink_block L (rw, s) b
      = Some (logged jot [UnlinkedBlock b (block_position r bs cs)] rw, s\<lparr>block_links := l\<rparr>)"
    using l(1) by (simp add: unlink_block_def notify_def mark_modified_def logged_def on_unlink_block[OF previous_position(2)[OF s b]])
  then show ?thesis using relinked_blocks[OF s, of "Unlink b" l] l by auto
qed

end

section \<open>New blocks\<close>

definition new_block :: "ident option \<Rightarrow> ('ty, 'a) basic_block" where
  "new_block lbl = \<lparr>label = lbl, args = [], preds = [], bb_attributes = []\<rparr>"

lemma new_block_lists:
  assumes s: "ctx_ok s" and b: "basic_blocks s b = None"
  shows "\<exists>s'. basic_block_new s b lbl [] = Some s' \<and> ctx_ok s' \<and> ll_free (block_links s') b
    \<and> block_ops s' = (block_ops s)(b \<mapsto> []) \<and> region_blocks s' = region_blocks s
    \<and> s'\<lparr>op_links := op_links s, block_links := block_links s\<rparr> = s\<lparr>basic_blocks := (basic_blocks s)(b \<mapsto> new_block lbl)\<rparr>"
proof -
  let ?s = "alloc_block s b (new_block lbl)"
  have run: "basic_block_new s b lbl [] = Some ?s"
    by (simp add: basic_block_new_def new_block_def modify_block_def alloc_block_def)
  have "unat (value_counter s) + length [] < 2 ^ 64" using unsigned_less[of "value_counter s", where ?'a = nat] by simp
  then have "ctx_ok ?s" using new_block_good[OF s b _ run] by (simp add: good_step_def)
  have n: "roots (op_links s) b = None" "nodes (block_links s) b = None"
    using shape_okD[of s] s b by (simp_all add: ctx_ok_def)
  have "(\<lambda>c. if c \<in> {b} then Some empty_root else roots (op_links s) c) = (roots (op_links s))(b \<mapsto> empty_root)"
    "(\<lambda>c. if c \<in> {b} then Some [] else block_ops s c) = (block_ops s)(b \<mapsto> [])" by (auto simp: fun_eq_iff)
  then have "ll_inv (op_links ?s) ((block_ops s)(b \<mapsto> []))"
    using ll_inv_new_roots[OF ctx_lists(1)[OF s], of "{b}"] n(1) by (simp add: alloc_block_def)
  moreover have "ll_inv (block_links ?s) (region_blocks s)"
    using ll_inv_new_node[OF ctx_lists(2)[OF s] n(2)] by (simp add: alloc_block_def)
  moreover have "ll_free (block_links ?s) b" by (simp add: alloc_block_def ll_free_def unlinked_node_def)
  ultimately show ?thesis using run \<open>ctx_ok ?s\<close> lists_eq[of ?s] by (auto simp: alloc_block_def)
qed

text \<open>The events of moving the operations \<open>qs\<close> that end a block, which starts with \<open>ps\<close>.\<close>

fun moved_events :: "block_ptr \<Rightarrow> op_ptr list \<Rightarrow> op_ptr list \<Rightarrow> 'ty recorder_event list" where
  "moved_events b ps [] = []"
| "moved_events b ps (q # qs) = UnlinkedOperation q (op_position b ps qs) # InsertedOperation q # moved_events b ps qs"

text \<open>The events of inlining the blocks \<open>cs\<close> of a region.\<close>

fun inlined_events :: "region_ptr \<Rightarrow> block_ptr list \<Rightarrow> 'ty recorder_event list" where
  "inlined_events r [] = []"
| "inlined_events r (c # cs) = UnlinkedBlock c (block_position r [] cs) # InsertedBlock c # inlined_events r cs"

section \<open>Compound moves\<close>

context move_listener
begin

lemma move_operation_run:
  assumes s: "ctx_ok s" and p: "block_ops s b = Some (ps @ p # qs)" and slot: "op_slot ((block_ops s)(b \<mapsto> ps @ qs)) point c us vs"
  shows "\<exists>s'. move_operation L (rw, s) p point
      = Some (logged jot [UnlinkedOperation p (op_position b ps qs), InsertedOperation p] rw, s')
    \<and> relinked s ((block_ops s)(b \<mapsto> ps @ qs, c \<mapsto> us @ p # vs)) (region_blocks s) s'"
proof -
  let ?u = "UnlinkedOperation p (op_position b ps qs)"
  obtain t where t: "unlink_operation L (rw, s) p = Some (logged jot [?u] rw, t)"
    "relinked s ((block_ops s)(b \<mapsto> ps @ qs)) (region_blocks s) t" "ll_free (op_links t) p"
    using unlink_operation_run[OF s p] by blast
  then have "ctx_ok t" "op_slot (block_ops t) point c us vs" using slot by (simp_all add: relinked_def)
  then obtain s' where s': "rw_insert_operation L (set_insertion_point (logged jot [?u] rw) point, t) p
      = Some (logged jot [InsertedOperation p] (set_insertion_point (logged jot [?u] rw) point), s')"
    "relinked t ((block_ops t)(c \<mapsto> us @ p # vs)) (region_blocks t) s'"
    using insert_operation_run[of t "set_insertion_point (logged jot [?u] rw) point" c us vs p] t(3)
    by (auto simp: set_insertion_point_def get_insertion_point_def)
  have "scoped point (\<lambda>st. rw_insert_operation L st p) (logged jot [?u] rw, t)
      = Some (logged jot [InsertedOperation p] (logged jot [?u] rw), s')"
    by (rule scoped_logged) (simp add: s' set_insertion_point_logged)
  then have "move_operation L (rw, s) p point = Some (logged jot [?u, InsertedOperation p] rw, s')"
    using t(1) by (simp add: move_operation_def)
  moreover have "relinked s ((block_ops s)(b \<mapsto> ps @ qs, c \<mapsto> us @ p # vs)) (region_blocks s) s'"
    using relinked_trans[OF t(2) s'(2)] t(2) by (simp add: relinked_def)
  ultimately show ?thesis by blast
qed

lemma move_block_run:
  assumes s: "ctx_ok s" and b: "region_blocks s r = Some (bs @ b # cs)" and slot: "block_slot ((region_blocks s)(r \<mapsto> bs @ cs)) point q us vs"
  shows "\<exists>s'. move_block L (rw, s) b point = Some (logged jot [UnlinkedBlock b (block_position r bs cs), InsertedBlock b] rw, s')
    \<and> relinked s (block_ops s) ((region_blocks s)(r \<mapsto> bs @ cs, q \<mapsto> us @ b # vs)) s'"
proof -
  let ?u = "UnlinkedBlock b (block_position r bs cs)"
  obtain t where t: "unlink_block L (rw, s) b = Some (logged jot [?u] rw, t)"
    "relinked s (block_ops s) ((region_blocks s)(r \<mapsto> bs @ cs)) t" "ll_free (block_links t) b"
    using unlink_block_run[OF s b] by blast
  then have "ctx_ok t" "block_slot (region_blocks t) point q us vs" using slot by (simp_all add: relinked_def)
  then obtain s' where s': "rw_insert_block L (logged jot [?u] rw, t) point b = Some (logged jot [InsertedBlock b] (logged jot [?u] rw), s')"
    "relinked t (block_ops t) ((region_blocks t)(q \<mapsto> us @ b # vs)) s'"
    using insert_block_run[of t point q us vs b "logged jot [?u] rw"] t(3) by blast
  have "relinked s (block_ops s) ((region_blocks s)(r \<mapsto> bs @ cs, q \<mapsto> us @ b # vs)) s'"
    using relinked_trans[OF t(2) s'(2)] t(2) by (simp add: relinked_def)
  then show ?thesis using t(1) s'(1) by (simp add: move_block_def)
qed

lemma move_ops_run:
  assumes "ctx_ok s" and "block_ops s b = Some (ps @ qs)" and "block_ops s c = Some us" and "b \<noteq> c"
  shows "\<exists>s'. move_ops L (rw, s) c (first_or qs None) = Some (logged jot (moved_events b ps qs) rw, s')
    \<and> relinked s ((block_ops s)(b \<mapsto> ps, c \<mapsto> us @ qs)) (region_blocks s) s'"
  using assms
proof (induction qs arbitrary: s us rw)
  case Nil
  then have "(block_ops s)(b \<mapsto> ps, c \<mapsto> us) = block_ops s" by (auto simp: fun_eq_iff)
  then show ?case using Nil relinked_refl[OF Nil(1)] by (simp add: move_ops.simps del: fun_upd_apply)
next
  case (Cons q qs)
  let ?es = "[UnlinkedOperation q (op_position b ps qs), InsertedOperation q]"
  obtain t where t: "move_operation L (rw, s) q (AtBlockEnd c) = Some (logged jot ?es rw, t)"
    "relinked s ((block_ops s)(b \<mapsto> ps @ qs, c \<mapsto> us @ [q])) (region_blocks s) t"
    using move_operation_run[OF Cons.prems(1,2), of "AtBlockEnd c" c us "[]" rw] Cons.prems(3,4) by auto
  have t': "ctx_ok t" "block_ops t b = Some (ps @ qs)" "block_ops t c = Some (us @ [q])"
    using t(2) Cons.prems(4) by (simp_all add: relinked_def)
  obtain s' where s': "move_ops L (logged jot ?es rw, t) c (first_or qs None)
      = Some (logged jot (moved_events b ps qs) (logged jot ?es rw), s')"
    "relinked t ((block_ops t)(b \<mapsto> ps, c \<mapsto> (us @ [q]) @ qs)) (region_blocks t) s'"
    using Cons.IH[OF t' Cons.prems(4)] by blast
  have "(block_ops t)(b \<mapsto> ps, c \<mapsto> (us @ [q]) @ qs) = (block_ops s)(b \<mapsto> ps, c \<mapsto> us @ q # qs)" "region_blocks t = region_blocks s"
    using t(2) Cons.prems(4) by (auto simp: relinked_def fun_eq_iff)
  then have "relinked s ((block_ops s)(b \<mapsto> ps, c \<mapsto> us @ q # qs)) (region_blocks s) s'"
    using relinked_trans[OF t(2) s'(2)] by simp
  moreover have "move_ops L (rw, s) c (first_or (q # qs) None) = Some (logged jot (moved_events b ps (q # qs)) rw, s')"
    using s'(1) t(1) list_node(1)[OF ctx_lists(1)[OF Cons.prems(1)] Cons.prems(2)] by (subst move_ops.simps) simp
  ultimately show ?case by blast
qed

end

text \<open>A new block without arguments, and the lists as given; nothing else changes.\<close>

definition block_added ::
    "('ty, 'c, 'a) ctx \<Rightarrow> block_ptr \<Rightarrow> ident option \<Rightarrow> (block_ptr \<rightharpoonup> op_ptr list) \<Rightarrow> (region_ptr \<rightharpoonup> block_ptr list)
     \<Rightarrow> ('ty, 'c, 'a) ctx \<Rightarrow> bool"
where
  "block_added s b lbl M N s' \<longleftrightarrow> ctx_ok s' \<and> block_ops s' = M \<and> region_blocks s' = N
     \<and> s'\<lparr>op_links := op_links s, block_links := block_links s\<rparr> = s\<lparr>basic_blocks := (basic_blocks s)(b \<mapsto> new_block lbl)\<rparr>"

lemma block_added_relinked:
  assumes "block_added s b lbl M N t" and "relinked t M' N' s'"
  shows "block_added s b lbl M' N' s'"
proof -
  have "s'\<lparr>op_links := op_links s, block_links := block_links s\<rparr>
      = (s'\<lparr>op_links := op_links t, block_links := block_links t\<rparr>)\<lparr>op_links := op_links s, block_links := block_links s\<rparr>"
    by simp
  also have "\<dots> = s\<lparr>basic_blocks := (basic_blocks s)(b \<mapsto> new_block lbl)\<rparr>" using assms by (simp add: relinked_def block_added_def)
  finally show ?thesis using assms(2) by (simp add: relinked_def block_added_def)
qed

lemma split_first_op_slot:
  assumes "ctx_ok s" and "op_slot (block_ops s) point b ps qs"
  shows "split_first_op s point = Some (first_or qs None)"
proof (cases point)
  case (AtBlockStart c)
  then show ?thesis using assms ll_invD(1)[OF ctx_lists(1)[OF assms(1)], of b qs] by (simp add: split_first_op_def ll_list_def)
next
  case (AfterOperation q)
  then obtain us where "ps = us @ [q]" using assms(2) by (cases ps rule: rev_cases) auto
  then have "block_ops s b = Some (us @ q # qs)" using AfterOperation assms(2) by simp
  from list_node(1)[OF ctx_lists(1)[OF assms(1)] this] show ?thesis using AfterOperation by (simp add: split_first_op_def)
next
  case (BeforeOperation q)
  then show ?thesis using assms(2) by (cases qs) (auto simp: split_first_op_def)
qed (use assms in \<open>auto simp: split_first_op_def\<close>)

lemma insertion_region_slot:
  assumes "ctx_ok s" and "block_slot (region_blocks s) point r bs cs"
  shows "get_insertion_region s point = Some (Some r)"
proof -
  have "\<exists>us vs. region_blocks s r = Some (us @ b # vs)" if "point = AfterBlock b \<or> point = BeforeBlock b" for b
  proof -
    have "b \<in> set (bs @ cs)" using that assms(2) by auto
    then show ?thesis using block_slotD[OF assms(2)] split_list[of b "bs @ cs"] by auto
  qed
  then show ?thesis using assms list_node(1)[OF ctx_lists(2)[OF assms(1)]]
    by (cases point) (auto simp: get_insertion_region_def block_parent_region_def)
qed

section \<open>Creating, splitting, inlining and appending\<close>

context move_listener
begin

lemma create_block_run:
  assumes s: "ctx_ok s" and b: "basic_blocks s b = None" and slot: "block_slot (region_blocks s) point r bs cs"
  shows "\<exists>s'. rw_create_block L (rw, s) point b lbl [] = Some (set_insertion_point (logged jot [InsertedBlock b] rw) (AtBlockEnd b), s')
    \<and> block_added s b lbl ((block_ops s)(b \<mapsto> [])) ((region_blocks s)(r \<mapsto> bs @ b # cs)) s'"
proof -
  obtain t where t: "basic_block_new s b lbl [] = Some t" "ctx_ok t" "ll_free (block_links t) b"
      "block_ops t = (block_ops s)(b \<mapsto> [])" "region_blocks t = region_blocks s"
      "t\<lparr>op_links := op_links s, block_links := block_links s\<rparr> = s\<lparr>basic_blocks := (basic_blocks s)(b \<mapsto> new_block lbl)\<rparr>"
    using new_block_lists[OF s b] by blast
  obtain s' where s': "rw_insert_block L (rw, t) point b = Some (logged jot [InsertedBlock b] rw, s')"
    "relinked t (block_ops t) ((region_blocks t)(r \<mapsto> bs @ b # cs)) s'"
    using insert_block_run[OF t(2) _ t(3), of point r bs cs rw] slot t(5) by auto
  have "rw_create_block L (rw, s) point b lbl [] = Some (set_insertion_point (logged jot [InsertedBlock b] rw) (AtBlockEnd b), s')"
  proof -
    obtain i where "insert_block L (inserter rw, t) point b = Some (i, s')" "logged jot [InsertedBlock b] rw = rw\<lparr>inserter := i\<rparr>"
      using s'(1) by (auto simp: rw_insert_block_def via_inserter_def split: bind_splits)
    then show ?thesis using t(1) by (simp add: rw_create_block_def via_inserter_def create_block_def set_insertion_point_def)
  qed
  moreover have "block_added s b lbl (block_ops t) (region_blocks t) t" using t by (simp add: block_added_def)
  from block_added_relinked[OF this s'(2)]
  have "block_added s b lbl ((block_ops s)(b \<mapsto> [])) ((region_blocks s)(r \<mapsto> bs @ b # cs)) s'" using t(4,5) by simp
  ultimately show ?thesis by blast
qed

lemma split_block_run:
  assumes s: "ctx_ok s" and n: "basic_blocks s nb = None" and b: "basic_blocks s b = Some bb"
    and r: "region_blocks s r = Some (bs @ b # cs)" and slot: "op_slot (block_ops s) point b ps qs"
  shows "\<exists>s'. split_block L (rw, s) b point new_label nb = Some (logged jot (InsertedBlock nb # moved_events b ps qs) rw, s')
    \<and> block_added s nb (case new_label of Some l \<Rightarrow> Some l | None \<Rightarrow> map_option (\<lambda>l. l @ ''_split'') (label bb))
        ((block_ops s)(b \<mapsto> ps, nb \<mapsto> qs)) ((region_blocks s)(r \<mapsto> bs @ b # nb # cs)) s'"
proof -
  let ?lbl = "case new_label of Some l \<Rightarrow> Some l | None \<Rightarrow> map_option (\<lambda>l. l @ ''_split'') (label bb)"
  let ?rw = "set_insertion_point rw Unset" and ?e = "InsertedBlock nb"
  let ?rw' = "set_insertion_point (logged jot [?e] ?rw) (AtBlockEnd nb)"
  have bn: "b \<noteq> nb" using n b by auto
  obtain t where t: "rw_create_block L (?rw, s) (AfterBlock b) nb ?lbl [] = Some (?rw', t)"
      "block_added s nb ?lbl ((block_ops s)(nb \<mapsto> [])) ((region_blocks s)(r \<mapsto> bs @ b # nb # cs)) t"
    using create_block_run[OF s n, of "AfterBlock b" r "bs @ [b]" cs ?rw ?lbl] r by auto
  have t': "ctx_ok t" "block_ops t = (block_ops s)(nb \<mapsto> [])" "region_blocks t = (region_blocks s)(r \<mapsto> bs @ b # nb # cs)"
    using t(2) by (simp_all add: block_added_def)
  have slot': "op_slot (block_ops t) point b ps qs" using slot bn by (cases point) (auto simp: t'(2))
  obtain s' where s': "move_ops L (?rw', t) nb (first_or qs None) = Some (logged jot (moved_events b ps qs) ?rw', s')"
    "relinked t ((block_ops t)(b \<mapsto> ps, nb \<mapsto> [] @ qs)) (region_blocks t) s'"
    using move_ops_run[OF t'(1) op_slotD[OF slot'], of nb "[]" ?rw'] bn by (auto simp: t'(2))
  have rw': "logged jot (moved_events b ps qs) ?rw' = set_insertion_point (logged jot (?e # moved_events b ps qs) rw) (AtBlockEnd nb)"
    by (simp add: logged_def set_insertion_point_def)
  have "split_block L (rw, s) b point new_label nb = Some (logged jot (?e # moved_events b ps qs) rw, s')"
    unfolding split_block_def
    by (rule scoped_logged[where point' = "AtBlockEnd nb"])
      (simp add: b Let_def t(1) split_first_op_slot[OF t'(1) slot'] s'(1) rw')
  moreover have "(block_ops t)(b \<mapsto> ps, nb \<mapsto> [] @ qs) = (block_ops s)(b \<mapsto> ps, nb \<mapsto> qs)" by (auto simp: t'(2) fun_eq_iff)
  then have "block_added s nb ?lbl ((block_ops s)(b \<mapsto> ps, nb \<mapsto> qs)) ((region_blocks s)(r \<mapsto> bs @ b # nb # cs)) s'"
    using block_added_relinked[OF t(2) s'(2)] t'(3) by simp
  ultimately show ?thesis by blast
qed

lemma move_blocks_run:
  assumes "ctx_ok s" and "region_blocks s r = Some cs" and "block_slot (region_blocks s) point d us vs" and "d \<noteq> r"
  shows "\<exists>s'. move_blocks L (rw, s) cs point = Some (logged jot (inlined_events r cs) rw, s')
    \<and> relinked s (block_ops s) ((region_blocks s)(r \<mapsto> [], d \<mapsto> us @ cs @ vs)) s'"
  using assms
proof (induction cs arbitrary: s point us rw)
  case Nil
  then have "(region_blocks s)(r \<mapsto> [], d \<mapsto> us @ vs) = region_blocks s" using block_slotD[OF Nil(3)] by (auto simp: fun_eq_iff)
  then show ?case using relinked_refl[OF Nil(1)] by (simp del: fun_upd_apply)
next
  case (Cons c cs)
  let ?es = "[UnlinkedBlock c (block_position r [] cs), InsertedBlock c]"
  have slot: "block_slot ((region_blocks s)(r \<mapsto> [] @ cs)) point d us vs" using Cons.prems(3,4) by (cases point) auto
  obtain t where t: "move_block L (rw, s) c point = Some (logged jot ?es rw, t)"
    "relinked s (block_ops s) ((region_blocks s)(r \<mapsto> [] @ cs, d \<mapsto> us @ c # vs)) t"
    using move_block_run[OF Cons.prems(1) _ slot, of c rw] Cons.prems(2) by auto
  have t': "ctx_ok t" "region_blocks t r = Some cs" "block_slot (region_blocks t) (AfterBlock c) d (us @ [c]) vs"
    using t(2) Cons.prems(4) by (simp_all add: relinked_def)
  obtain s' where s': "move_blocks L (logged jot ?es rw, t) cs (AfterBlock c)
      = Some (logged jot (inlined_events r cs) (logged jot ?es rw), s')"
    "relinked t (block_ops t) ((region_blocks t)(r \<mapsto> [], d \<mapsto> (us @ [c]) @ cs @ vs)) s'"
    using Cons.IH[OF t' Cons.prems(4)] by blast
  have "(region_blocks t)(r \<mapsto> [], d \<mapsto> (us @ [c]) @ cs @ vs) = (region_blocks s)(r \<mapsto> [], d \<mapsto> us @ (c # cs) @ vs)"
    "block_ops t = block_ops s"
    using t(2) Cons.prems(4) by (auto simp: relinked_def fun_eq_iff)
  then have "relinked s (block_ops s) ((region_blocks s)(r \<mapsto> [], d \<mapsto> us @ (c # cs) @ vs)) s'"
    using relinked_trans[OF t(2) s'(2)] by simp
  then show ?case using s'(1) t(1) by (simp del: fun_upd_apply)
qed

lemma inline_region_run:
  assumes s: "ctx_ok s" and r: "region_blocks s r = Some cs" and slot: "block_slot (region_blocks s) point d us vs" and d: "d \<noteq> r"
  shows "\<exists>s'. inline_region L (rw, s) r point = Some (logged jot (inlined_events r cs) rw, s')
    \<and> relinked s (block_ops s) ((region_blocks s)(r \<mapsto> [], d \<mapsto> us @ cs @ vs)) s'"
  using move_blocks_run[OF assms, of rw] insertion_region_slot[OF s slot] r d by (auto simp: inline_region_def)

end

section \<open>Appending in order\<close>

lemma free_iff:
  assumes "ctx_ok s"
  shows "ll_free (op_links s) p \<longleftrightarrow> operations s p \<noteq> None \<and> (\<forall>b ps. block_ops s b = Some ps \<longrightarrow> p \<notin> set ps)"
proof -
  have n: "nodes (op_links s) p = None \<longleftrightarrow> operations s p = None"
    using assms shape_okD(1)[of s p] by (simp add: ctx_ok_def)
  show ?thesis
  proof
    assume "ll_free (op_links s) p"
    then show "operations s p \<noteq> None \<and> (\<forall>b ps. block_ops s b = Some ps \<longrightarrow> p \<notin> set ps)"
      using ll_inv_free_notin[OF ctx_lists(1)[OF assms]] n by (auto dest: ll_freeD)
  next
    assume a: "operations s p \<noteq> None \<and> (\<forall>b ps. block_ops s b = Some ps \<longrightarrow> p \<notin> set ps)"
    then obtain nd where "nodes (op_links s) p = Some nd" using n by auto
    then show "ll_free (op_links s) p"
      using ll_invD(2)[OF ctx_lists(1)[OF assms]] a by (auto simp: ll_unlinked_iff ll_free_def)
  qed
qed

text \<open>The documented way to insert a sequence: appending its operations one by one.\<close>

fun append_operations where
  "append_operations L st [] = Some st"
| "append_operations L st (p # ps) = do { st \<leftarrow> rw_append_operation L st p; append_operations L st ps }"

context move_listener
begin

lemma append_operation_run:
  assumes "ctx_ok s" and "op_slot (block_ops s) (get_insertion_point rw) b ps qs" and "ll_free (op_links s) p"
  shows "\<exists>s'. rw_append_operation L (rw, s) p = Some (set_insertion_point (logged jot [InsertedOperation p] rw) (AfterOperation p), s')
    \<and> relinked s ((block_ops s)(b \<mapsto> ps @ p # qs)) (region_blocks s) s'"
proof -
  obtain s' where s': "rw_insert_operation L (rw, s) p = Some (logged jot [InsertedOperation p] rw, s')"
    "relinked s ((block_ops s)(b \<mapsto> ps @ p # qs)) (region_blocks s) s'"
    using insert_operation_run[OF assms] by blast
  obtain i where "insert_operation L (inserter rw, s) p = Some (i, s')" "logged jot [InsertedOperation p] rw = rw\<lparr>inserter := i\<rparr>"
    using s'(1) by (auto simp: rw_insert_operation_def via_inserter_def split: bind_splits)
  then show ?thesis using s'(2)
    by (auto simp: rw_append_operation_def append_operation_def via_inserter_def set_insertion_point_def)
qed

lemma append_operations_run:
  assumes "ctx_ok s" and "op_slot (block_ops s) (get_insertion_point rw) b ps qs"
    and "distinct xs" and "\<forall>p \<in> set xs. ll_free (op_links s) p"
  shows "\<exists>s'. append_operations L (rw, s) xs
      = Some (set_insertion_point (logged jot (map InsertedOperation xs) rw)
          (if xs = [] then get_insertion_point rw else AfterOperation (last xs)), s')
    \<and> relinked s ((block_ops s)(b \<mapsto> ps @ xs @ qs)) (region_blocks s) s'"
  using assms
proof (induction xs arbitrary: s rw ps)
  case Nil
  have "(block_ops s)(b \<mapsto> ps @ qs) = block_ops s" using op_slotD[OF Nil(2)] by (auto simp: fun_eq_iff)
  then show ?case using relinked_refl[OF Nil(1)]
    by (simp add: set_insertion_point_def get_insertion_point_def del: fun_upd_apply)
next
  case (Cons x xs)
  let ?rw = "set_insertion_point (logged jot [InsertedOperation x] rw) (AfterOperation x)"
  obtain t where t: "rw_append_operation L (rw, s) x = Some (?rw, t)"
    "relinked s ((block_ops s)(b \<mapsto> ps @ x # qs)) (region_blocks s) t"
    using append_operation_run[OF Cons.prems(1,2), of x] Cons.prems(4) by auto
  have t': "ctx_ok t" "block_ops t = (block_ops s)(b \<mapsto> ps @ x # qs)" "region_blocks t = region_blocks s" "operations t = operations s"
    using t(2) by (auto simp: relinked_def)
      (metis ctx.ext_inject ctx.surjective ctx.update_convs(6) ctx.update_convs(7))
  have "ll_free (op_links t) p" if p: "p \<in> set xs" for p
  proof -
    have f: "operations s p \<noteq> None" "\<forall>b ps. block_ops s b = Some ps \<longrightarrow> p \<notin> set ps" "p \<noteq> x"
      using p Cons.prems(3,4) free_iff[OF Cons.prems(1), of p] by auto
    then have "p \<notin> set (ps @ qs)" using op_slotD[OF Cons.prems(2)] by blast
    then show ?thesis unfolding free_iff[OF t'(1)] t'(2,4) using f by simp
  qed
  moreover have "op_slot (block_ops t) (get_insertion_point ?rw) b (ps @ [x]) qs"
    by (simp add: t'(2) set_insertion_point_def get_insertion_point_def)
  ultimately obtain s' where s': "append_operations L (?rw, t) xs
      = Some (set_insertion_point (logged jot (map InsertedOperation xs) ?rw)
          (if xs = [] then get_insertion_point ?rw else AfterOperation (last xs)), s')"
    "relinked t ((block_ops t)(b \<mapsto> (ps @ [x]) @ xs @ qs)) (region_blocks t) s'"
    using Cons.IH[OF t'(1), of ?rw "ps @ [x]"] Cons.prems(3) by (auto simp del: fun_upd_apply)
  have "(block_ops t)(b \<mapsto> (ps @ [x]) @ xs @ qs) = (block_ops s)(b \<mapsto> ps @ (x # xs) @ qs)" by (simp add: t'(2))
  then have "relinked s ((block_ops s)(b \<mapsto> ps @ (x # xs) @ qs)) (region_blocks s) s'"
    using relinked_trans[OF t(2) s'(2)] t'(3) by simp
  moreover have "append_operations L (rw, s) (x # xs)
      = Some (set_insertion_point (logged jot (map InsertedOperation (x # xs)) rw) (AfterOperation (last (x # xs))), s')"
    using t(1) s'(1) by (auto simp: logged_def set_insertion_point_def get_insertion_point_def)
  ultimately show ?case by (auto simp del: fun_upd_apply)
qed

end

section \<open>Undoing\<close>

text \<open>The lists determine the links.\<close>

lemma links_unique:
  assumes l: "ll_inv l M" and k: "ll_inv k M" and d: "dom (nodes l) = dom (nodes k)"
  shows "l = k"
proof -
  have "roots l c = roots k c" for c
  proof (cases "M c")
    case None
    then show ?thesis using ll_invD(3)[OF l] ll_invD(3)[OF k] by (metis domIff)
  next
    case (Some xs)
    then show ?thesis using ll_invD(1)[OF l Some] ll_invD(1)[OF k Some] by (simp add: ll_list_def)
  qed
  moreover have "nodes l n = nodes k n" for n
  proof (cases "\<exists>c xs. M c = Some xs \<and> n \<in> set xs")
    case True
    then obtain c ps qs where "M c = Some (ps @ n # qs)" using split_list by metis
    then show ?thesis using list_node(1)[OF l] list_node(1)[OF k] by simp
  next
    case False
    moreover have "nodes l n = None \<longleftrightarrow> nodes k n = None" using d by (metis domIff)
    ultimately show ?thesis using ll_invD(2)[OF l, of n] ll_invD(2)[OF k, of n]
      by (cases "nodes l n"; cases "nodes k n") (auto simp: ll_unlinked_iff)
  qed
  ultimately show ?thesis by (intro ll_store.equality) auto
qed

lemma relinked_same:
  assumes s: "ctx_ok s" and r: "relinked s (block_ops s) (region_blocks s) s'"
  shows "s' = s"
proof -
  have s': "ctx_ok s'" "block_ops s' = block_ops s" "region_blocks s' = region_blocks s"
    "s'\<lparr>op_links := op_links s, block_links := block_links s\<rparr> = s" using r by (simp_all add: relinked_def)
  have "operations (s'\<lparr>op_links := op_links s, block_links := block_links s\<rparr>) = operations s'"
    "basic_blocks (s'\<lparr>op_links := op_links s, block_links := block_links s\<rparr>) = basic_blocks s'" by simp_all
  then have e: "operations s' = operations s" "basic_blocks s' = basic_blocks s" unfolding s'(4) by simp_all
  have d: "dom (nodes (op_links s')) = dom (nodes (op_links s))" "dom (nodes (block_links s')) = dom (nodes (block_links s))"
    using s s'(1) e by (simp_all add: ctx_ok_def shape_ok_def)
  have "op_links s' = op_links s"
    using links_unique[OF ctx_lists(1)[OF s'(1)] _ d(1)] ctx_lists(1)[OF s] s'(2) by simp
  moreover have "block_links s' = block_links s"
    using links_unique[OF ctx_lists(2)[OF s'(1)] _ d(2)] ctx_lists(2)[OF s] s'(3) by simp
  ultimately have "s'\<lparr>op_links := op_links s, block_links := block_links s\<rparr> = s'" by simp
  then show ?thesis using s'(4) by simp
qed

section \<open>The two listeners of the program\<close>

interpretation dummy_moves: move_listener dummy_listener "\<lambda>_ l. l"
  by unfold_locales (simp_all add: dummy_listener_def)

interpretation recorder_moves: move_listener recorder "\<lambda>e events. events @ [e]"
  by unfold_locales (simp_all add: recorder_def)

lemma fold_snoc [simp]: "fold (\<lambda>e events. events @ [e]) es ds = ds @ es"
  by (induction es arbitrary: ds) simp_all

end
