(* ===== verification/RewriteReplace.thy ===== *)
theory RewriteReplace
  imports RewriteErase IrSpec
begin

text \<open>
  Replacing an operation by values: what one replacement of a value does (\<open>renamed\<close>), that a sequence of them renames all results at
  once, and that the operation can be erased afterwards, because the conditions of erasing (\<open>tidy\<close>) are kept.
\<close>

section \<open>Renaming values\<close>

text \<open>Definitions without the recorded uses, and the rest of what replacing values leaves as it is.\<close>

definition bare_defs :: "('ty, 'c, 'a) ctx \<Rightarrow> defining_entity \<Rightarrow> 'ty val_def list option" where
  "bare_defs s e = map_option (map no_uses) (entity_defs s e)"

definition renamed :: "(ssa_value \<Rightarrow> ssa_value) \<Rightarrow> ('ty, 'c, 'a) ctx \<Rightarrow> ('ty, 'c, 'a) ctx \<Rightarrow> bool" where
  "renamed f s t \<longleftrightarrow> ctx_ok t \<and> shape t = shape s \<and> bopds t = bopds s \<and> block_defnode t = block_defnode s
     \<and> op_conc t = op_conc s \<and> bare_defs t = bare_defs s
     \<and> op_operands t = (\<lambda>q. map_option (map f) (op_operands s q))"

lemma renamed_refl: "ctx_ok s \<Longrightarrow> renamed (\<lambda>x. x) s s"
  by (simp add: renamed_def option.map_ident)

lemma renamed_trans: "renamed f s t \<Longrightarrow> renamed g t u \<Longrightarrow> renamed (\<lambda>x. g (f x)) s u"
  by (simp add: renamed_def option.map_comp o_def)

lemma find_bare:
  "find_index s v = Option.bind (bare_defs s (defining_entity v)) (position (\<lambda>d. vd_uid d = val_uid v))"
proof -
  have "position P (map no_uses ds) = position (\<lambda>d. P (no_uses d)) ds" for P and ds :: "'a val_def list"
    by (induction ds) auto
  then show ?thesis
    by (cases "entity_defs s (defining_entity v)") (simp_all add: find_index_def try_find_index_def bare_defs_def no_uses_def)
qed

lemma bare_facts:
  "value_type s v = do { i \<leftarrow> find_index s v; ds \<leftarrow> bare_defs s (defining_entity v); d \<leftarrow> oget ds i; Some (vd_ty d) }"
  "op_results s p = map_option (map (result_value p)) (bare_defs s (OpDef p))"
  "value_defnode s v = None \<longleftrightarrow> find_index s v = None"
proof -
  show "value_type s v = do { i \<leftarrow> find_index s v; ds \<leftarrow> bare_defs s (defining_entity v); d \<leftarrow> oget ds i; Some (vd_ty d) }"
    by (cases "find_index s v"; cases "entity_defs s (defining_entity v)")
      (auto simp: value_type_def bare_defs_def oget_def no_uses_def)
  show "op_results s p = map_option (map (result_value p)) (bare_defs s (OpDef p))"
    by (cases "operations s p") (simp_all add: op_results_def bare_defs_def entity_defs_def result_value_def no_uses_def)
  show "value_defnode s v = None \<longleftrightarrow> find_index s v = None"
    by (auto simp: value_defnode_def find_index_def try_find_index_def oget_def position_Some
        split: bind_splits option.splits)
qed

lemma renamedD:
  assumes "renamed f s t"
  shows "value_type t v = value_type s v" and "op_results t p = op_results s p" and "find_index t v = find_index s v"
    and "value_defnode t v = None \<longleftrightarrow> value_defnode s v = None"
    and "child_nodes t n = child_nodes s n" and "child t = child s" and "node_exists t n \<longleftrightarrow> node_exists s n" and "ctx_ok t"
proof -
  have r: "ctx_ok t" "shape t = shape s" "bare_defs t = bare_defs s" using assms by (simp_all add: renamed_def)
  show f: "find_index t v = find_index s v" for v by (simp add: find_bare r(3))
  show "value_type t v = value_type s v" by (simp add: bare_facts(1) f r(3))
  show "op_results t p = op_results s p" by (simp add: bare_facts(2) r(3))
  show "value_defnode t v = None \<longleftrightarrow> value_defnode s v = None" by (simp add: bare_facts(3) f)
  show c: "child_nodes t n = child_nodes s n" for n by (rule child_nodes_shape[OF r(2)])
  show "child t = child s" by (simp add: child_def[abs_def] c)
  have "operations t p = None \<longleftrightarrow> operations s p = None" for p
    by (rule dom_eq_None) (use r(2) in \<open>simp add: shape_def dom_op_regs\<close>)
  moreover have "basic_blocks t b = None \<longleftrightarrow> basic_blocks s b = None" for b
    using r(2) dom_eq_None[of "basic_blocks t" "basic_blocks s" b] by (simp add: shape_def)
  moreover have "regions t = regions s" using r(2) by (simp add: shape_def)
  ultimately show "node_exists t n \<longleftrightarrow> node_exists s n" by (cases n) simp_all
  show "ctx_ok t" by (rule r(1))
qed

text \<open>Every dictionary of attributes has given names only under their key.\<close>

definition all_names_ok :: "('ty, 'c, 'a) ctx \<Rightarrow> bool" where
  "all_names_ok s \<longleftrightarrow> (\<forall>p op. operations s p = Some op \<longrightarrow> names_ok (attributes op))
     \<and> (\<forall>b bb. basic_blocks s b = Some bb \<longrightarrow> names_ok (bb_attributes bb))"

lemma set_value_name_run:
  assumes s: "ctx_ok s" and n: "all_names_ok s" and v: "value_defnode s v \<noteq> None"
  shows "\<exists>t. set_value_name s v name = Some t \<and> renamed (\<lambda>x. x) s t \<and> all_names_ok t"
proof -
  obtain i ds where i: "find_index s v = Some i" "entity_defs s (defining_entity v) = Some ds" "i < length ds"
    using v by (auto simp: value_defnode_def split: bind_splits)
  have *: "\<exists>t. set_value_name s v name = Some t \<and> all_names_ok t \<and> op_conc t = op_conc s \<and> bare_defs t = bare_defs s"
  proof (cases "defining_entity v")
    case (OpDef p)
    then obtain op where op: "operations s p = Some op" "results op = ds" using i(2) by (auto simp: entity_defs_def)
    obtain attrs where a: "set_name_in_attr_map (attributes op) i name = Some attrs" "names_ok attrs"
      using set_name_correct[of "attributes op" i name] n op(1) by (auto simp: all_names_ok_def)
    let ?t = "s\<lparr>operations := (operations s)(p \<mapsto> op\<lparr>attributes := attrs\<rparr>)\<rparr>"
    have "set_value_name s v name = Some ?t"
      using OpDef i op a by (simp add: set_value_name_def set_operation_result_name_def modify_op_def)
    moreover have "all_names_ok ?t" using n a(2) by (auto simp: all_names_ok_def)
    moreover have "op_conc ?t = op_conc s" "bare_defs ?t = bare_defs s"
      using op by (auto simp: op_conc_def bare_defs_def entity_defs_def fun_eq_iff split: defining_entity.split)
    ultimately show ?thesis by blast
  next
    case (BlockDef b)
    then obtain bb where bb: "basic_blocks s b = Some bb" "args bb = ds" using i(2) by (auto simp: entity_defs_def)
    obtain attrs where a: "set_name_in_attr_map (bb_attributes bb) i name = Some attrs" "names_ok attrs"
      using set_name_correct[of "bb_attributes bb" i name] n bb(1) by (auto simp: all_names_ok_def)
    let ?t = "s\<lparr>basic_blocks := (basic_blocks s)(b \<mapsto> bb\<lparr>bb_attributes := attrs\<rparr>)\<rparr>"
    have "set_value_name s v name = Some ?t"
      using BlockDef i bb a by (simp add: set_value_name_def set_block_arg_name_def modify_block_def)
    moreover have "all_names_ok ?t" using n a(2) by (auto simp: all_names_ok_def)
    moreover have "op_conc ?t = op_conc s" "bare_defs ?t = bare_defs s"
      using bb by (auto simp: op_conc_def bare_defs_def entity_defs_def fun_eq_iff split: defining_entity.split)
    ultimately show ?thesis by blast
  qed
  then obtain t where t: "set_value_name s v name = Some t" "all_names_ok t" "op_conc t = op_conc s" "bare_defs t = bare_defs s" by blast
  note same = set_value_name_same[OF t(1)]
  have "ctx_ok t" using ctx_ok_same[OF s same] .
  moreover have "op_operands t = op_operands s" "bopds t = bopds s" "block_defnode t = block_defnode s"
    using same(1) by (simp_all add: ir_views_def op_operands_vopds[abs_def])
  ultimately show ?thesis using t same(2) by (auto simp: renamed_def option.map_ident)
qed

lemma take_name_run:
  assumes s: "ctx_ok s" and n: "all_names_ok s" and v: "value_defnode s v \<noteq> None" and w: "value_defnode s w \<noteq> None"
  shows "\<exists>t. take_name cfg s v w = Some t \<and> renamed (\<lambda>x. x) s t \<and> all_names_ok t"
proof -
  have given: "\<exists>name. value_given_name s x = Some name" if x: "value_defnode s x \<noteq> None" for x
    using x by (auto simp: value_defnode_def value_given_name_def get_operation_result_name_def get_block_arg_name_def entity_defs_def
        split: bind_splits defining_entity.split defining_entity.split_asm)
  then obtain a b where "value_given_name s w = Some a" "value_given_name s v = Some b" using v w by blast
  then show ?thesis using set_value_name_run[OF s n w, of b] renamed_refl[OF s] n by (auto simp: take_name_def)
qed

section \<open>Replacing values, one after the other\<close>

definition heard :: "'ty recorder_event list \<Rightarrow> 'ty recorder_events ir_rewriter \<Rightarrow> 'ty recorder_events ir_rewriter" where
  "heard es rw = rw\<lparr>inserter := (inserter rw)\<lparr>listener := listener (inserter rw) @ es\<rparr>\<rparr>"

lemma heard_simps [simp]:
  "heard [] rw = rw" "heard es (heard ds rw) = heard (ds @ es) rw"
  "listener (inserter (heard es rw)) = listener (inserter rw) @ es" "config (heard es rw) = config rw"
  "get_insertion_point (heard es rw) = get_insertion_point rw"
  by (simp_all add: heard_def get_insertion_point_def)

lemma replace_value_run:
  assumes s: "ctx_ok s" and n: "all_names_ok s" and v: "value_defnode s v \<noteq> None" and w: "value_defnode s w \<noteq> None" and ne: "v \<noteq> w"
  shows "\<exists>t. replace_value recorder (rw, s) v w = Some (heard [ReplacedValueUses v (the (value_type s v)) w] rw, t)
    \<and> renamed (\<lambda>x. if x = v then w else x) s t \<and> all_names_ok t"
proof -
  obtain us ws where u: "value_uses s v = Some us" "value_uses s w = Some ws" using v w by (auto simp: value_uses_def)
  obtain s1 where s1: "replace_all_uses_with s v w = Some s1" "ctx_ok s1"
      "op_operands s1 = (\<lambda>p. map_option (map (\<lambda>x. if x = v then w else x)) (op_operands s p))" "strip_values s1 = strip_values s"
    using replace_all_uses[OF s u ne] by blast
  have "shape s1 = shape s" using shape_strip_values[of s1] shape_strip_values[of s] s1(4) by simp
  moreover have "bare_defs s1 = bare_defs s" using strip_values_frame(7)[OF s1(4)] by (simp add: bare_defs_def[abs_def])
  ultimately have r1: "renamed (\<lambda>x. if x = v then w else x) s s1"
    using s1 strip_values_frame(1,2)[OF s1(4)] skeleton_conc[OF skeleton_cong(1)[OF s1(4)]] by (simp add: renamed_def)
  have "names_ok (attributes op)" if "operations s1 p = Some op" for p op
  proof -
    have "map_option attributes (operations s1 p) = map_option attributes (operations s p)"
      using arg_cong[OF s1(4), of "\<lambda>s. map_option attributes (operations s p)"] by (simp add: strip_values_def option.map_comp o_def)
    then show ?thesis using that n by (cases "operations s p") (auto simp: all_names_ok_def)
  qed
  moreover have "names_ok (bb_attributes bb)" if "basic_blocks s1 b = Some bb" for b bb
  proof -
    have "map_option bb_attributes (basic_blocks s1 b) = map_option bb_attributes (basic_blocks s b)"
      using arg_cong[OF s1(4), of "\<lambda>s. map_option bb_attributes (basic_blocks s b)"] by (simp add: strip_values_def option.map_comp o_def)
    then show ?thesis using that n by (cases "basic_blocks s b") (auto simp: all_names_ok_def)
  qed
  ultimately have n1: "all_names_ok s1" by (simp add: all_names_ok_def)
  obtain t where t: "take_name (config rw) s1 v w = Some t" "renamed (\<lambda>x. x) s1 t" "all_names_ok t"
    using take_name_run[OF s1(2) n1, of v w "config rw"] renamedD(4)[OF r1] v w by auto
  have "value_type s v \<noteq> None" using v by (auto simp: value_type_def value_defnode_def split: bind_splits)
  then have "replace_value recorder (rw, s) v w = Some (heard [ReplacedValueUses v (the (value_type s v)) w] rw, t)"
    using s1(1) t(1) by (auto simp: replace_value_def notify_def recorder_def heard_def)
  then show ?thesis using renamed_trans[OF r1 t(2)] t(3) by auto
qed

definition new_for :: "(ssa_value \<times> ssa_value) list \<Rightarrow> ssa_value \<Rightarrow> ssa_value" where
  "new_for vws x = (case map_of vws x of Some w \<Rightarrow> w | None \<Rightarrow> x)"

lemma replace_values_run:
  assumes "ctx_ok s" and "all_names_ok s" and "\<forall>(v, w) \<in> set vws. value_defnode s v \<noteq> None \<and> value_defnode s w \<noteq> None"
    and "fst ` set vws \<inter> snd ` set vws = {}" and "distinct (map fst vws)"
  shows "\<exists>t. replace_values recorder (rw, s) vws
      = Some (heard (map (\<lambda>(v, w). ReplacedValueUses v (the (value_type s v)) w) vws) rw, t)
    \<and> renamed (new_for vws) s t \<and> all_names_ok t"
  using assms
proof (induction vws arbitrary: s rw)
  case Nil
  then show ?case using renamed_refl[OF Nil(1)] by (simp add: new_for_def)
next
  case (Cons vw vws)
  obtain v w where vw [simp]: "vw = (v, w)" by force
  obtain s1 where s1: "replace_value recorder (rw, s) v w = Some (heard [ReplacedValueUses v (the (value_type s v)) w] rw, s1)"
      "renamed (\<lambda>x. if x = v then w else x) s s1" "all_names_ok s1"
    using replace_value_run[OF Cons.prems(1,2), of v w rw] Cons.prems(3,4) by auto
  note d = renamedD[OF s1(2)]
  obtain t where t: "replace_values recorder (heard [ReplacedValueUses v (the (value_type s v)) w] rw, s1) vws
      = Some (heard (map (\<lambda>(v, w). ReplacedValueUses v (the (value_type s1 v)) w) vws)
          (heard [ReplacedValueUses v (the (value_type s v)) w] rw), t)"
      "renamed (new_for vws) s1 t" "all_names_ok t"
    using Cons.IH[OF d(8) s1(3), of "heard [ReplacedValueUses v (the (value_type s v)) w] rw"] Cons.prems(3-5) by (force simp: d(4))
  have "map_of vws w = None" using Cons.prems(4) by (force simp: map_of_eq_None_iff)
  then have "(\<lambda>x. new_for vws (if x = v then w else x)) = new_for ((v, w) # vws)" by (auto simp: new_for_def fun_eq_iff)
  then have "renamed (new_for (vw # vws)) s t" using renamed_trans[OF s1(2) t(2)] by simp
  then show ?case using t s1(1) by (simp add: d(1))
qed

section \<open>The conditions of erasing are kept\<close>

lemma users_alt:
  "users s n = {u. \<exists>vs v. op_operands s u = Some vs \<and> v \<in> set vs \<and> entity_node (defining_entity v) = n}
     \<union> {u. \<exists>xs x. bopds s u = Some xs \<and> x \<in> set xs \<and> BlockNode (opd_def x) = n}"
  by (force simp: users_def op_operands_vopds)

lemma users_renamed:
  assumes "renamed f s t" and "\<forall>x. f x \<noteq> x \<longrightarrow> entity_node (defining_entity (f x)) \<noteq> m"
  shows "users t m \<subseteq> users s m"
proof -
  have o: "op_operands t = (\<lambda>q. map_option (map f) (op_operands s q))" "bopds t = bopds s" using assms(1) by (simp_all add: renamed_def)
  have "\<exists>v \<in> set xs. entity_node (defining_entity v) = m" if "x \<in> set xs" "entity_node (defining_entity (f x)) = m" for x xs
    using that assms(2) by (cases "f x = x") auto
  then show ?thesis unfolding users_alt o by fastforce
qed

lemma terminator_conc:
  "get_terminator is_term s b = do {
     root \<leftarrow> roots (op_links s) b;
     case get_tail root of None \<Rightarrow> Some None | Some p \<Rightarrow> map_option (\<lambda>c. if is_term c then Some p else None) (op_conc s p)
   }"
proof (cases "roots (op_links s) b")
  case (Some root)
  then show ?thesis by (cases "get_tail root"; cases "operations s (the (get_tail root))") (auto simp: get_terminator_def op_conc_def)
qed (simp add: get_terminator_def)

lemma branches_ok_renamed:
  assumes "renamed f s t"
  shows "branches_ok is_term t r = branches_ok is_term s r"
proof -
  have r: "shape t = shape s" "bopds t = bopds s" "block_defnode t = block_defnode s" "op_conc t = op_conc s"
    using assms by (simp_all add: renamed_def)
  have l: "op_links t = op_links s" "block_links t = block_links s" using r(1) by (simp_all add: shape_def)
  have term_eq: "get_terminator is_term t = get_terminator is_term s" unfolding terminator_conc[abs_def] l r(4) ..
  moreover have "op_succs t = op_succs s" by (simp add: op_succs_bopds[abs_def] r(2))
  ultimately have "block_succs is_term t = block_succs is_term s" by (simp add: block_succs_def[abs_def])
  moreover have "block_uses t = block_uses s" using r(3) by (simp add: block_uses_def[abs_def] block_defnode_def[abs_def])
  moreover have "user_block t = user_block s" by (simp add: user_block_def[abs_def] get_parent_block_def[abs_def] l)
  moreover have "region_blocks t = region_blocks s" by (simp add: region_blocks_def[abs_def] l)
  ultimately show ?thesis unfolding branches_ok_def term_eq by presburger
qed

lemma finite_renamed:
  assumes "renamed f s t"
  shows "ir_finite t \<longleftrightarrow> ir_finite s"
proof -
  have r: "shape t = shape s" using assms by (simp add: renamed_def)
  have "op_links t = op_links s" "block_links t = block_links s" "regions t = regions s" using r by (simp_all add: shape_def)
  then have "op_up t = op_up s"
    by (simp add: op_up_def[abs_def] op_parent_region_def[abs_def] get_parent_block_def[abs_def] block_parent_region_def[abs_def] region_parent_op_def[abs_def])
  moreover have "dom (operations t) = dom (operations s)" using r by (simp add: shape_def dom_op_regs)
  ultimately show ?thesis by (simp add: ir_finite_def nested_def)
qed

lemma below_renamed: "renamed f s t \<Longrightarrow> below t n = below s n"
  by (simp add: below_def renamedD(6))

lemma tidy_renamed:
  assumes r: "renamed f s t" and t: "tidy is_term s n" and f: "\<forall>x. f x \<noteq> x \<longrightarrow> entity_node (defining_entity (f x)) \<notin> below s n"
  shows "tidy is_term t n"
proof -
  note b = below_renamed[OF r] and c = renamedD(6)[OF r]
  have u: "users t m \<subseteq> users s m" if "m \<in> below s n" for m using users_renamed[OF r, of m] f that by blast
  have blocks: "BlockNode b \<in> below s n" if "RegionNode r \<in> below s n" "child s (RegionNode r) (BlockNode b)" for r b
    using below_child[OF that] .
  have ops: "OpNode q \<in> below s n" if "BlockNode b \<in> below s n" "child s (BlockNode b) (OpNode q)" for b q
    using below_child[OF that] .
  have o: "block_ops t = block_ops s" using r by (simp add: renamed_def shape_def block_ops_def[abs_def])
  have "uses_in_order t q b" if "BlockNode b \<in> below s n" "child s (BlockNode b) (OpNode q)" for b q
    using t that u[OF ops[OF that]] unfolding tidy_def uses_in_order_def b c o by (meson subsetD)
  moreover have "OpNode u \<in> below s (RegionNode r)"
    if "RegionNode r \<in> below s n" "child s (RegionNode r) (BlockNode b)" "u \<in> users t (BlockNode b)" for r b u
    using t that u[OF blocks[OF that(1,2)]] unfolding tidy_def by blast
  moreover have "branches_ok is_term t r" if "RegionNode r \<in> below s n" for r
    using t that unfolding tidy_def branches_ok_renamed[OF r] by blast
  ultimately show ?thesis unfolding tidy_def b c by blast
qed

section \<open>Replacing an operation\<close>

lemma operand_live:
  assumes "ctx_ok s" and "op_operands s u = Some vs" and "v \<in> set vs"
  shows "value_defnode s v \<noteq> None"
proof -
  have "def_use_ok (value_defnode s) (vopds s) (use_counter s)"
    using assms(1) by (simp add: ctx_ok_def ir_ok_def du_ok_def value_api_def)
  then show ?thesis using def_use_okD(5) assms(2,3) by (fastforce simp: op_operands_vopds)
qed

lemma result_live:
  assumes "op_results s p = Some vs"
  shows "v \<in> set vs \<longleftrightarrow> value_defnode s v \<noteq> None \<and> defining_entity v = OpDef p"
proof -
  obtain op where op: "operations s p = Some op" "vs = map (result_value p) (results op)" using assms by (auto simp: op_results_def)
  have "v \<in> set vs \<longleftrightarrow> defining_entity v = OpDef p \<and> (\<exists>d \<in> set (results op). vd_uid d = val_uid v)"
    by (cases v) (auto simp: op(2) result_value_def)
  also have "\<dots> \<longleftrightarrow> defining_entity v = OpDef p \<and> position (\<lambda>d. vd_uid d = val_uid v) (results op) \<noteq> None"
    by (auto simp: position_None)
  also have "\<dots> \<longleftrightarrow> defining_entity v = OpDef p \<and> find_index s v \<noteq> None"
    using op(1) by (auto simp: find_index_def try_find_index_def entity_defs_def)
  finally show ?thesis by (auto simp: bare_facts(3))
qed

lemma results_distinct:
  assumes "ctx_ok s" and "op_results s p = Some vs"
  shows "distinct vs"
proof -
  obtain op where op: "operations s p = Some op" "vs = map (result_value p) (results op)" using assms(2) by (auto simp: op_results_def)
  then have "distinct (map vd_uid (results op))"
    using assms(1) by (auto simp: ctx_ok_def ir_ok_def uids_ok_def entity_defs_def dest!: spec[of _ "OpDef p"])
  moreover have "map vd_uid (results op) = map val_uid vs" by (simp add: op(2) result_value_def)
  ultimately show ?thesis using distinct_map by metis
qed

lemma replace_with_values_run:
  assumes s: "ctx_ok s" "ir_finite s" "all_names_ok s" and vs: "op_results s p = Some vs" "length ws = length vs"
    and ws: "\<forall>w \<in> set ws. value_defnode s w \<noteq> None \<and> entity_node (defining_entity w) \<notin> below s (OpNode p)"
    and t: "tidy is_term s (OpNode p)"
  shows "\<exists>u ns s'. renamed (new_for (zip vs ws)) s u \<and> ctx_ok s' \<and> ir_finite s' \<and> erased (below s (OpNode p)) u s'
    \<and> set ns = below s (OpNode p) \<and> bottom_up s {} ns
    \<and> replace_operation_with_values is_term recorder (rw, s) p ws
      = Some (mark_modified (note_all (\<lambda>n es. es @ [erased_event n]) ns
          (heard (map (\<lambda>(v, w). ReplacedValueUses v (the (value_type s v)) w) (zip vs ws)) rw)), s')"
proof -
  let ?vws = "zip vs ws" and ?f = "new_for (zip vs ws)"
  let ?rw = "heard (map (\<lambda>(v, w). ReplacedValueUses v (the (value_type s v)) w) ?vws) rw"
  have sets: "fst ` set ?vws = set vs" "snd ` set ?vws = set ws"
    using vs(2) map_fst_zip[of vs ws] map_snd_zip[of vs ws] by (metis set_map)+
  have live: "\<forall>(v, w) \<in> set ?vws. value_defnode s v \<noteq> None \<and> value_defnode s w \<noteq> None"
    using ws result_live[OF vs(1)] by (auto dest: set_zip_leftD set_zip_rightD)
  have disj: "set vs \<inter> set ws = {}" using ws result_live[OF vs(1)] by auto
  have d: "distinct (map fst ?vws)" using results_distinct[OF s(1) vs(1)] vs(2) by simp
  obtain u where u: "replace_values recorder (rw, s) ?vws = Some (?rw, u)" "renamed ?f s u"
    using replace_values_run[OF s(1,3) live _ d] disj unfolding sets by blast
  have f: "?f x = x \<and> x \<notin> set vs \<or> ?f x \<in> set ws" for x
    using sets by (force simp: new_for_def map_of_eq_None_iff dest: map_of_SomeD split: option.split)
  then have fb: "\<forall>x. ?f x \<noteq> x \<longrightarrow> entity_node (defining_entity (?f x)) \<notin> below s (OpNode p)" using ws by blast
  have no_users: "users u (OpNode p) = {}"
  proof -
    have False if q: "op_operands s q = Some xs" "x \<in> set xs" "entity_node (defining_entity (?f x)) = OpNode p" for q xs x
    proof -
      have "?f x \<notin> set ws" using ws q(3) by auto
      then have x: "?f x = x" "x \<notin> set vs" using f[of x] by auto
      then have "defining_entity x = OpDef p" using q(3) by (cases "defining_entity x") auto
      then show False using x(2) result_live[OF vs(1), of x] operand_live[OF s(1) q(1,2)] by simp
    qed
    then show ?thesis using u(2) unfolding users_alt renamed_def by fastforce
  qed
  have ex: "operations u p \<noteq> None" using vs(1) renamedD(7)[OF u(2), of "OpNode p"] by (auto simp: op_results_def)
  have fin: "ir_finite u" using s(2) finite_renamed[OF u(2)] by simp
  obtain ns s' where e: "erase_operation is_term recorder (?rw, u) p = Some (note_all (\<lambda>n es. es @ [erased_event n]) ns ?rw, s')"
      "ctx_ok s'" "ir_finite s'" "erased (below u (OpNode p)) u s'" "set ns = below u (OpNode p)" "bottom_up u {} ns"
    using recorder_erasure.erase_operation_run[OF renamedD(8)[OF u(2)] fin ex tidy_renamed[OF u(2) t fb], of ?rw] no_users by auto
  have "bottom_up s {} ns" using e(6) by (simp add: bottom_up_def renamedD(6)[OF u(2)])
  then show ?thesis
    using u e vs by (fastforce simp: replace_operation_with_values_def below_renamed[OF u(2)])
qed

end
