(* ===== verification/RewriteSpec.thy ===== *)
theory RewriteSpec
  imports RewriteErase RewriteMove RewriteReplace
begin

text \<open>
  What the rewriter promises about erasing, replacing, moving, splitting, inlining and appending, for the listener that records events,
  and where it does not keep it.
\<close>

section \<open>The demonstration context\<close>

text \<open>With a second region, and two operations that are not in a block.\<close>

definition more_cmds :: "(nat, nat) ir_cmd list" where
  "more_cmds = demo_cmds @ [NewOp 5 [7] 5 [] [] [], NewOp 3 [] 3 [] [] [], NewOp 4 [] 4 [] [] []]"

definition more_ctx :: "(nat, nat, nat) ctx" where
  "more_ctx = the (ir_run empty_ctx more_cmds)"

lemma more_ctx: "ir_run empty_ctx more_cmds = Some more_ctx"
  unfolding more_ctx_def by (rule sym, rule option.collapse) code_simp

lemma more_ok: "ctx_ok more_ctx"
  by (rule run_ctx_ok[OF more_ctx]) (simp_all add: more_cmds_def demo_cmds_def)

lemma demo_opds:
  "vopds demo_ctx (Suc (Suc (Suc q))) = None" "bopds demo_ctx (Suc (Suc (Suc q))) = None"
  "map_option (map opd_def) (vopds demo_ctx 0) = Some []" "map_option (map opd_def) (bopds demo_ctx 0) = Some []"
  "map_option (map opd_def) (vopds demo_ctx (Suc 0)) = Some [\<lparr>val_uid = 0, defining_entity = BlockDef 0\<rparr>]"
  "map_option (map opd_def) (bopds demo_ctx (Suc 0)) = Some []"
  "map_option (map opd_def) (vopds demo_ctx (Suc (Suc 0)))
    = Some [\<lparr>val_uid = 2, defining_entity = OpDef 1\<rparr>, \<lparr>val_uid = 3, defining_entity = OpDef 1\<rparr>]"
  "map_option (map opd_def) (bopds demo_ctx (Suc (Suc 0))) = Some [1]"
  by code_simp+

lemma demo_users:
  assumes "u \<in> users demo_ctx n"
  shows "(u = 1 \<and> n = BlockNode 0) \<or> (u = 2 \<and> (n = OpNode 1 \<or> n = BlockNode 1))"
proof -
  consider xs x where "vopds demo_ctx u = Some xs" "x \<in> opd_def ` set xs" "entity_node (defining_entity x) = n"
    | xs x where "bopds demo_ctx u = Some xs" "x \<in> opd_def ` set xs" "BlockNode x = n"
    using assms by (auto simp: users_def)
  then show ?thesis
  proof cases
    case 1
    have "u < 3" using 1(1) demo_opds(1)[of "u - 3"] by (cases u; cases "u - 1"; cases "u - 2") auto
    then consider "u = 0" | "u = Suc 0" | "u = Suc (Suc 0)" by linarith
    then show ?thesis using 1 demo_opds(3,5,7) by cases (auto simp flip: set_map)
  next
    case 2
    have "u < 3" using 2(1) demo_opds(2)[of "u - 3"] by (cases u; cases "u - 1"; cases "u - 2") auto
    then consider "u = 0" | "u = Suc 0" | "u = Suc (Suc 0)" by linarith
    then show ?thesis using 2 demo_opds(4,6,8) by cases (auto simp flip: set_map)
  qed
qed

lemma demo_in_region:
  "BlockNode 0 \<in> below demo_ctx (RegionNode 0)" "BlockNode 1 \<in> below demo_ctx (RegionNode 0)"
  "OpNode 1 \<in> below demo_ctx (RegionNode 0)" "OpNode 2 \<in> below demo_ctx (RegionNode 0)"
proof -
  have b: "block_parent_region demo_ctx 0 = Some (Some 0)" "block_parent_region demo_ctx (Suc 0) = Some (Some 0)" by code_simp+
  have o: "get_parent_block demo_ctx (Suc 0) = Some (Some 0)" "get_parent_block demo_ctx 2 = Some (Some 0)" by code_simp+
  show bl: "BlockNode 0 \<in> below demo_ctx (RegionNode 0)" "BlockNode 1 \<in> below demo_ctx (RegionNode 0)"
    by (rule below_child[OF below_self]; simp add: child_simps(2)[OF demo_ok] b)+
  show "OpNode 1 \<in> below demo_ctx (RegionNode 0)" "OpNode 2 \<in> below demo_ctx (RegionNode 0)"
    by (rule below_child[OF bl(1)]; simp add: child_simps(3)[OF demo_ok] o)+
qed

lemma demo_tidy: "tidy (\<lambda>c. c = 2) demo_ctx (RegionNode 0)"
  unfolding tidy_def
proof (intro conjI allI impI ballI)
  fix r assume "RegionNode r \<in> below demo_ctx (RegionNode 0)"
  then have r: "r = 0" using below_exists[OF demo_ok, of "RegionNode 0" "RegionNode r"] demo_regions by (auto split: if_splits)
  show "branches_ok (\<lambda>c. c = 2) demo_ctx r" using demo_region_ok r by (simp add: region_ok_def)
  show "OpNode u \<in> below demo_ctx (RegionNode r)" if "u \<in> users demo_ctx (BlockNode b)" for b u
    using demo_users[OF that] demo_in_region r by auto
next
  fix b q assume "child demo_ctx (BlockNode b) (OpNode q)"
  show "uses_in_order demo_ctx q b"
    unfolding uses_in_order_def
  proof
    fix u assume "u \<in> users demo_ctx (OpNode q)"
    then have u: "u = 2" "q = 1" using demo_users by fastforce+
    have "get_parent_block demo_ctx q = Some (Some b)"
      using \<open>child demo_ctx (BlockNode b) (OpNode q)\<close> by (simp add: child_simps(3)[OF demo_ok])
    moreover have "get_parent_block demo_ctx 1 = Some (Some 0)" "block_ops demo_ctx 0 = Some [1, 2]" by code_simp+
    ultimately have "block_ops demo_ctx b = Some [1, 2]" using u by simp
    then show "OpNode u \<in> below demo_ctx (OpNode q) \<or> (\<exists>ps i j. block_ops demo_ctx b = Some ps \<and> i < j \<and> j < length ps
        \<and> ps ! i = q \<and> OpNode u \<in> below demo_ctx (OpNode (ps ! j)))"
      using u by (intro disjI2 exI[of _ "[1, 2]"] exI[of _ 0] exI[of _ 1]) simp
  qed
qed


section \<open>Properties\<close>

text \<open>
  C36. \<open>IRRewriter::erase_operation\<close>, \<open>erase_block\<close> and \<open>erase_region\<close> erase the object with everything below it and keep the context consistent, and the
  recorder gets exactly one event for each erased object, those nested in it first; insertion point and configuration stay. The condition is
  that nothing outside uses what is erased, and that inside branches stay in their region, block arguments are used
  in the region of the block, and results are used in their operation or by or in later operations of the same block.
\<close>

theorem rewriter_erases:
  assumes "ctx_ok s" and "ir_finite s" and "node_exists s n" and "tidy is_term s n"
    and "\<forall>u \<in> users s n. OpNode u \<in> below s n"
  shows "\<exists>ns rw' s'. rw_erase is_term recorder (rw, s) [case n of OpNode p \<Rightarrow> EraseOperation p | BlockNode b \<Rightarrow> EraseBlock b | RegionNode r \<Rightarrow> EraseRegion r]
      = Some (rw', s')
    \<and> ctx_ok s' \<and> ir_finite s' \<and> erased (below s n) s s' \<and> set ns = below s n \<and> bottom_up s {} ns
    \<and> listener (inserter rw') = listener (inserter rw) @ map erased_event ns
    \<and> get_insertion_point rw' = get_insertion_point rw \<and> config rw' = config rw"
proof -
  note [simp] = fold_events note_all_listener
  show ?thesis
  proof (cases n)
    case (OpNode p)
    then show ?thesis
      using recorder_erasure.erase_operation_run[OF assms(1,2), of p is_term rw] assms(3-5)
      by (fastforce simp: erase_operation_def)
  next
    case (BlockNode b)
    then show ?thesis
      using recorder_erasure.erase_block_run[OF assms(1,2), of b is_term rw] assms(3-5)
      by (fastforce simp: erase_block_def)
  next
    case (RegionNode r)
    then show ?thesis
      using recorder_erasure.erase_region_run[OF assms(1,2), of r is_term rw] assms(3-5)
      by (fastforce simp: rw_erase_region_def)
  qed
qed

theorem rewriter_erases_witness:
  "\<exists>ns rw' s'. rw_erase (\<lambda>c. c = 2) recorder (rewriter_default [], demo_ctx) [EraseRegion 0] = Some (rw', s')
    \<and> ctx_ok s' \<and> set ns = below demo_ctx (RegionNode 0) \<and> listener (inserter rw') = map erased_event ns"
proof -
  have n: "node_exists demo_ctx (RegionNode 0)" by (simp add: demo_regions)
  have "\<forall>u \<in> users demo_ctx (RegionNode 0). OpNode u \<in> below demo_ctx (RegionNode 0)" using demo_users by fastforce
  from rewriter_erases[OF demo_ok demo_finite n demo_tidy this, of "rewriter_default []"]
  show ?thesis by (auto simp: rewriter_default_def inserter_new_def)
qed

text \<open>
  C37. With several blocks \<open>IRRewriter::erase_region\<close> goes through them entry first, although it says that it erases uses before definitions: when a
  value of the entry block is used in a later block it panics. \<open>Operation::erase_region\<close> erases the same region.
\<close>

definition two_blocks_cmds :: "(nat, nat) ir_cmd list" where
  "two_blocks_cmds =
     [NewOp 0 [0] 0 [] [] [], NewBlock 0 None [], NewBlock 1 None [],
      BlockList (InsertAtBack 0 0), BlockList (InsertAtBack 1 0),
      NewOp 1 [] 1 [7] [] [], OpList (InsertAtBack 1 0),
      NewOp 2 [] 2 [] [] [1], OpList (InsertAtBack 2 0),
      NewOp 3 [] 3 [] [\<lparr>val_uid = 0, defining_entity = OpDef 1\<rparr>] [], OpList (InsertAtBack 3 1)]"

definition two_blocks_ctx :: "(nat, nat, nat) ctx" where
  "two_blocks_ctx = the (ir_run empty_ctx two_blocks_cmds)"

theorem rewriter_erase_region_panics:
  "ir_run empty_ctx two_blocks_cmds = Some two_blocks_ctx
   \<and> rw_erase_region (\<lambda>c. c = 2) dummy_listener (rewriter_default (), two_blocks_ctx) 0 = None
   \<and> erase_region two_blocks_ctx 0 0 \<noteq> None"
proof (intro conjI)
  show "ir_run empty_ctx two_blocks_cmds = Some two_blocks_ctx"
    unfolding two_blocks_ctx_def by (rule sym, rule option.collapse) code_simp
  show "rw_erase_region (\<lambda>c. c = 2) dummy_listener (rewriter_default (), two_blocks_ctx) 0 = None" by code_simp
  show "erase_region two_blocks_ctx 0 0 \<noteq> None" by code_simp
qed



text \<open>
  C39. \<open>IRRewriter::split_block\<close> at any insertion point of the block keeps the operations before it, moves those after it in order into the
  new block, which stands right behind, has no arguments and the given label or that of the block with \<open>_split\<close>, and changes nothing else. The
  recorder gets the insertion of the block, then the unlinking and insertion of each operation; insertion point and configuration are restored.
\<close>

theorem split_block_correct:
  assumes "ctx_ok s" and "basic_blocks s nb = None" and "basic_blocks s b = Some bb"
    and "region_blocks s r = Some (bs @ b # cs)" and "op_slot (block_ops s) point b ps qs"
  shows "\<exists>rw' s'. split_block recorder (rw, s) b point new_label nb = Some (rw', s')
    \<and> block_added s nb (case new_label of Some l \<Rightarrow> Some l | None \<Rightarrow> map_option (\<lambda>l. l @ ''_split'') (label bb))
        ((block_ops s)(b \<mapsto> ps, nb \<mapsto> qs)) ((region_blocks s)(r \<mapsto> bs @ b # nb # cs)) s'
    \<and> listener (inserter rw') = listener (inserter rw) @ InsertedBlock nb # moved_events b ps qs
    \<and> get_insertion_point rw' = get_insertion_point rw \<and> config rw' = config rw"
  using recorder_moves.split_block_run[OF assms, of rw new_label]
  by (fastforce simp: get_insertion_point_def)

theorem split_block_correct_witness:
  "\<exists>rw' s'. split_block recorder (rewriter_default [], demo_ctx) 0 (AfterOperation 1) None 5 = Some (rw', s')
    \<and> block_ops s' 0 = Some [1] \<and> block_ops s' 5 = Some [2] \<and> region_blocks s' 0 = Some [0, 5, 1]"
proof -
  have l: "basic_blocks demo_ctx 5 = None" "basic_blocks demo_ctx 0 = Some (the (basic_blocks demo_ctx 0))"
    "region_blocks demo_ctx 0 = Some [0, 1]" "block_ops demo_ctx 0 = Some [1, 2]" by code_simp+
  then have "region_blocks demo_ctx 0 = Some ([] @ 0 # [1])" "op_slot (block_ops demo_ctx) (AfterOperation 1) 0 [1] [2]" by simp_all
  from split_block_correct[OF demo_ok l(1,2) this, of "rewriter_default []" None] show ?thesis
    unfolding block_added_def by fastforce
qed

text \<open>
  \<open>IRRewriter::inline_region\<close> moves the blocks of the source region in order to the insertion point in another region, leaves the source
  empty, and changes nothing else; the recorder gets the unlinking and the insertion of each block.
\<close>

theorem inline_region_correct:
  assumes "ctx_ok s" and "region_blocks s r = Some cs" and "block_slot (region_blocks s) point d us vs" and "d \<noteq> r"
  shows "\<exists>rw' s'. inline_region recorder (rw, s) r point = Some (rw', s')
    \<and> relinked s (block_ops s) ((region_blocks s)(r \<mapsto> [], d \<mapsto> us @ cs @ vs)) s'
    \<and> listener (inserter rw') = listener (inserter rw) @ inlined_events r cs
    \<and> get_insertion_point rw' = get_insertion_point rw \<and> config rw' = config rw"
  using recorder_moves.inline_region_run[OF assms, of rw] by (fastforce simp: get_insertion_point_def)

theorem inline_region_correct_witness:
  "\<exists>rw' s'. inline_region recorder (rewriter_default [], more_ctx) 0 (AtRegionEnd 7) = Some (rw', s')
    \<and> region_blocks s' 0 = Some [] \<and> region_blocks s' 7 = Some [0, 1]"
proof -
  have l: "region_blocks more_ctx 0 = Some [0, 1]" "region_blocks more_ctx 7 = Some []" by code_simp+
  then have "block_slot (region_blocks more_ctx) (AtRegionEnd 7) 7 [] []" "(7 :: nat) \<noteq> 0" by simp_all
  from inline_region_correct[OF more_ok l(1) this, of "rewriter_default []"] show ?thesis
    unfolding relinked_def by fastforce
qed

text \<open>
  Appending operations that are not in a block one by one inserts them in order at the insertion point, which ends up behind the last of them.
\<close>

theorem append_in_order:
  assumes "ctx_ok s" and "op_slot (block_ops s) (get_insertion_point rw) b ps qs"
    and "distinct xs" and "\<forall>p \<in> set xs. ll_free (op_links s) p" and "xs \<noteq> []"
  shows "\<exists>rw' s'. append_operations recorder (rw, s) xs = Some (rw', s')
    \<and> relinked s ((block_ops s)(b \<mapsto> ps @ xs @ qs)) (region_blocks s) s'
    \<and> get_insertion_point rw' = AfterOperation (last xs)
    \<and> listener (inserter rw') = listener (inserter rw) @ map InsertedOperation xs"
  using recorder_moves.append_operations_run[OF assms(1-4)] assms(5)
  by (fastforce simp: set_insertion_point_def get_insertion_point_def)

theorem append_in_order_witness:
  "\<exists>rw' s'. append_operations recorder (set_insertion_point (rewriter_default []) (AfterOperation 1), more_ctx) [4, 3] = Some (rw', s')
    \<and> block_ops s' 0 = Some [1, 4, 3, 2] \<and> get_insertion_point rw' = AfterOperation 3"
proof -
  have l: "block_ops more_ctx 0 = Some [1, 2]" "nodes (op_links more_ctx) 3 = Some unlinked_node" "nodes (op_links more_ctx) 4 = Some unlinked_node"
    by code_simp+
  let ?rw = "set_insertion_point (rewriter_default []) (AfterOperation 1)"
  have "op_slot (block_ops more_ctx) (get_insertion_point ?rw) 0 [1] [2]"
    using l(1) by (simp add: set_insertion_point_def get_insertion_point_def)
  moreover have "distinct [4, 3 :: nat]" "\<forall>p \<in> set [4, 3]. ll_free (op_links more_ctx) p" "[4, 3 :: nat] \<noteq> []"
    using l(2,3) by (simp_all add: ll_free_def unlinked_node_def)
  ultimately show ?thesis using append_in_order[OF more_ok, of ?rw 0 "[1]" "[2]" "[4, 3]"]
    unfolding relinked_def by fastforce
qed

text \<open>
  C40. The position that the recorder notes when an operation or a block is unlinked undoes the unlinking: inserting it there again gives the
  context back as it was.
\<close>

theorem recorded_position_undoes:
  assumes "ctx_ok s" and "block_ops s b = Some (ps @ p # qs)" and "region_blocks s r = Some (bs @ c # cs)"
  shows "(\<exists>pos rw1 s1 rw2. unlink_operation recorder (rw, s) p = Some (rw1, s1)
      \<and> listener (inserter rw1) = listener (inserter rw) @ [UnlinkedOperation p pos]
      \<and> block_ops s1 = (block_ops s)(b \<mapsto> ps @ qs)
      \<and> rw_insert_operation recorder (set_insertion_point rw1 pos, s1) p = Some (rw2, s))
    \<and> (\<exists>pos rw1 s1 rw2. unlink_block recorder (rw, s) c = Some (rw1, s1)
      \<and> listener (inserter rw1) = listener (inserter rw) @ [UnlinkedBlock c pos]
      \<and> region_blocks s1 = (region_blocks s)(r \<mapsto> bs @ cs)
      \<and> rw_insert_block recorder (rw1, s1) pos c = Some (rw2, s))"
proof (intro conjI)
  obtain s1 where s1: "unlink_operation recorder (rw, s) p
      = Some (logged (\<lambda>e es. es @ [e]) [UnlinkedOperation p (op_position b ps qs)] rw, s1)"
    "relinked s ((block_ops s)(b \<mapsto> ps @ qs)) (region_blocks s) s1" "ll_free (op_links s1) p"
    using recorder_moves.unlink_operation_run[OF assms(1,2)] by blast
  let ?rw = "set_insertion_point (logged (\<lambda>e es. es @ [e]) [UnlinkedOperation p (op_position b ps qs)] rw) (op_position b ps qs)"
  have "op_slot (block_ops s1) (get_insertion_point ?rw) b ps qs"
    using s1(2) position_slot(1) by (simp add: relinked_def set_insertion_point_def get_insertion_point_def)
  from recorder_moves.insert_operation_run[OF _ this s1(3)] s1(2) obtain rw2 s2
    where s2: "rw_insert_operation recorder (?rw, s1) p = Some (rw2, s2)"
      "relinked s1 ((block_ops s1)(b \<mapsto> ps @ p # qs)) (region_blocks s1) s2" by (auto simp: relinked_def)
  have "(block_ops s1)(b \<mapsto> ps @ p # qs) = block_ops s" "region_blocks s1 = region_blocks s"
    using s1(2) assms(2) by (auto simp: relinked_def fun_eq_iff)
  then have "s2 = s" using relinked_same[OF assms(1)] relinked_trans[OF s1(2) s2(2)] by simp
  then show "\<exists>pos rw1 s1 rw2. unlink_operation recorder (rw, s) p = Some (rw1, s1)
      \<and> listener (inserter rw1) = listener (inserter rw) @ [UnlinkedOperation p pos]
      \<and> block_ops s1 = (block_ops s)(b \<mapsto> ps @ qs)
      \<and> rw_insert_operation recorder (set_insertion_point rw1 pos, s1) p = Some (rw2, s)"
    using s1(1,2) s2(1) by (fastforce simp: relinked_def)
next
  obtain s1 where s1: "unlink_block recorder (rw, s) c
      = Some (logged (\<lambda>e es. es @ [e]) [UnlinkedBlock c (block_position r bs cs)] rw, s1)"
    "relinked s (block_ops s) ((region_blocks s)(r \<mapsto> bs @ cs)) s1" "ll_free (block_links s1) c"
    using recorder_moves.unlink_block_run[OF assms(1,3)] by blast
  let ?rw = "logged (\<lambda>e es. es @ [e]) [UnlinkedBlock c (block_position r bs cs)] rw"
  have "block_slot (region_blocks s1) (block_position r bs cs) r bs cs"
    using s1(2) position_slot(2) by (simp add: relinked_def)
  from recorder_moves.insert_block_run[OF _ this s1(3), of ?rw] s1(2) obtain rw2 s2
    where s2: "rw_insert_block recorder (?rw, s1) (block_position r bs cs) c = Some (rw2, s2)"
      "relinked s1 (block_ops s1) ((region_blocks s1)(r \<mapsto> bs @ c # cs)) s2" by (auto simp: relinked_def)
  have "(region_blocks s1)(r \<mapsto> bs @ c # cs) = region_blocks s" "block_ops s1 = block_ops s"
    using s1(2) assms(3) by (auto simp: relinked_def fun_eq_iff)
  then have "s2 = s" using relinked_same[OF assms(1)] relinked_trans[OF s1(2) s2(2)] by simp
  then show "\<exists>pos rw1 s1 rw2. unlink_block recorder (rw, s) c = Some (rw1, s1)
      \<and> listener (inserter rw1) = listener (inserter rw) @ [UnlinkedBlock c pos]
      \<and> region_blocks s1 = (region_blocks s)(r \<mapsto> bs @ cs)
      \<and> rw_insert_block recorder (rw1, s1) pos c = Some (rw2, s)"
    using s1(1,2) s2(1) by (fastforce simp: relinked_def)
qed

theorem recorded_position_undoes_witness:
  "\<exists>pos rw1 s1 rw2. unlink_operation recorder (rewriter_default [], demo_ctx) 2 = Some (rw1, s1)
    \<and> listener (inserter rw1) = [UnlinkedOperation 2 pos]
    \<and> rw_insert_operation recorder (set_insertion_point rw1 pos, s1) 2 = Some (rw2, demo_ctx)"
proof -
  have "block_ops demo_ctx 0 = Some ([1] @ 2 # [])" "region_blocks demo_ctx 0 = Some ([0] @ 1 # [])" by code_simp+
  from recorded_position_undoes[OF demo_ok this, of "rewriter_default []"] show ?thesis
    by (fastforce simp: rewriter_default_def inserter_new_def)
qed

end
