(* ===== verification/Spec2Isabelle.thy ===== *)
theory Spec2Isabelle
  imports UnionFind VecExtns LinkedList ControlDep LoopQueries SmallTable IrSpec LiveSound Walkers EraseSpec Identifiers Uniquer RewriteSpec
begin

text \<open>
  A model of pliron, an extensible compiler intermediate representation written in Rust, with the
  theorems that make its core correct. Paths below are under \<^verbatim>\<open>src/src\<close>.

  \<^bold>\<open>The program.\<close> A \<^verbatim>\<open>Context\<close> owns all IR objects in arenas. Operations hold operands, results,
  successors and regions; a region holds a list of blocks, a block a list of operations, both as
  intrusive doubly linked lists. Every value and every block records its uses. On this sit
  control-flow graphs of regions and the analyses over them: traversals, dominance and
  post-dominance, control dependence and loops.

  \<^bold>\<open>Conventions.\<close> A panic is a value: \<open>None\<close> where only the fact of the panic matters, and
  \<open>Inl (Panic msg)\<close> (type \<open>outcome\<close>) where its reason is part of the code's contract. Loops the code does
  not bound are \<open>partial_function (option)\<close>, where not returning is \<open>None\<close> too, so each theorem that says
  \<open>Some\<close> also says that the loop ends. Loops over worklists that follow a finite graph take fuel
  computed from the number of nodes (for instance \<open>n * n + 1\<close> passes for the dominator iteration);
  the theorems show that this fuel is enough. Identifier counters are 64-bit words; theorems that
  need them not to wrap say so.
  Insertion-ordered tables are association lists or duplicate-free lists, which \<open>SmallTable\<close> shows the
  program's own tables to be equivalent to; hash tables, whose order the code does not use, are partial functions.

  \<^bold>\<open>Theories.\<close>

  \<^item> \<open>Prelude\<close>: panics as values, checked indexing, monadic list functions, rule collections.
  \<^item> \<open>UnionFind\<close> (\<^verbatim>\<open>utils/union_find.rs\<close>): path compression and union; membership is the generated equivalence.
  \<^item> \<open>VecExtns\<close> (\<^verbatim>\<open>utils/vec_exns.rs\<close>): the vector extensions.
  \<^item> \<open>SmallTable\<close> (\<^verbatim>\<open>utils/table.rs\<close>, \<^verbatim>\<open>SmallMap\<close> and \<^verbatim>\<open>SmallSet\<close>): inline storage that spills into a
    third-party index map. That map is a parameter with its documented laws (locales \<open>imap\<close>, \<open>iset\<close>, interpreted on
    association lists); every operation sequence behaves as on an insertion-ordered list.
  \<^item> \<open>LinkedList\<close> (\<^verbatim>\<open>linked_list.rs\<close>): the intrusive lists over a store of links; insertions, unlinking,
    appending and the double-ended iterator refine abstract lists (\<open>ll_inv\<close>).
  \<^item> \<open>GivenNames\<close> (\<^verbatim>\<open>builtin/given_names.rs\<close> and the attribute of \<^verbatim>\<open>builtin/attributes.rs\<close>): names by index.
  \<^item> \<open>Identifiers\<close> (\<^verbatim>\<open>identifier.rs\<close>): validity on bytes, and the legaliser of names: injective, invertible, its counter bounded.
  \<^item> \<open>Uniquer\<close> (\<^verbatim>\<open>storage_uniquer.rs\<close>, the handles of \<^verbatim>\<open>type.rs\<close>): uniquing of types over an append-only vector
    of another crate (locales \<open>once_vec\<close>, \<open>uniquing\<close>, interpreted on lists); equal types have equal handles.
  \<^item> \<open>Ir\<close> (\<^verbatim>\<open>context.rs\<close>, \<^verbatim>\<open>value.rs\<close>, \<^verbatim>\<open>operation.rs\<close>, \<^verbatim>\<open>basic_block.rs\<close>, \<^verbatim>\<open>region.rs\<close>): the record \<open>ctx\<close> of arenas
    and counters, and the operations that build and edit the IR.
    \<open>DefUse\<close> states the def-use invariant once for values and blocks (locale \<open>def_use_store\<close>, interpreted as \<open>vdu\<close> and \<open>bdu\<close>);
    \<open>IrOps\<close> and \<open>IrProps\<close> give the effect of each operation on it; \<open>IrRun\<close> defines commands, runs of
    them (all building and editing, without erasing) and the invariant \<open>ctx_ok\<close> that runs keep; \<open>IrSpec\<close> states what the operations promise.
  \<^item> \<open>Cfg\<close> (trait \<^verbatim>\<open>ControlFlowGraph\<close> of \<^verbatim>\<open>graph/mod.rs\<close>): a graph is the record of its methods; \<open>wf_cfg\<close> is the
    contract the algorithms rely on. \<open>RegionGraph\<close> is the instance for regions, shown to meet it, with
    the order of operations in a block and the ancestor searches.
  \<^item> \<open>Traversals\<close>, \<open>Scc\<close> (\<^verbatim>\<open>graph/traversals.rs\<close>): post-order, topological order, numbered depth-first
    search, Tarjan's components.
  \<^item> \<open>Dominance\<close>, \<open>DomTree\<close> (\<^verbatim>\<open>graph/dominance.rs\<close>): the iterative dominator computation, the tree, its
    queries and walk, dominance frontiers.
  \<^item> \<open>Reverse\<close> (\<^verbatim>\<open>graph/reverse.rs\<close>, post-dominance of \<^verbatim>\<open>graph/dominance.rs\<close>): pre-sentinels, the
    reversed graph, post-dominators.
  \<^item> \<open>ControlDep\<close> (\<^verbatim>\<open>graph/control_dependence.rs\<close>): control dependence of edges and blocks and its closure.
  \<^item> \<open>LoopTree\<close>, \<open>NaturalLoop\<close>, \<open>LoopForest\<close>, \<open>LoopQueries\<close> (\<^verbatim>\<open>graph/loop_tree.rs\<close>): the loop tree; its
    loops are the natural loops, nested and ordered as documented.
  \<^item> \<open>DfsEdges\<close>: the kinds of edges of the numbered traversal. \<open>Liveness\<close>, \<open>LiveSets\<close>, \<open>LiveSound\<close>
    (\<^verbatim>\<open>analyses/liveness.rs\<close>): the precomputed sets of \<^verbatim>\<open>LivenessTq\<close>, what each of them holds, and the block
    queries against liveness defined by paths. Positive answers are sound; on acyclic graphs the queries are
    exact; with loops they can miss uses, which is shown on two graphs.
  \<^item> \<open>DomInfo\<close>, \<open>NestedDom\<close> (\<^verbatim>\<open>DomInfo\<close> of \<^verbatim>\<open>graph/dominance.rs\<close>): dominance of operations, values and
    blocks in nested regions, with the cache of dominator trees threaded through.
  \<^item> \<open>IrTree\<close>: the tree of operations, regions and blocks below an object, which recursive code is specified by.
    \<open>Walkers\<close> (\<^verbatim>\<open>graph/walkers.rs\<close>): the interruptible and uninterruptible walkers are recursion over it.
    \<open>IrErase\<close>, \<open>EraseSpec\<close> (\<^verbatim>\<open>operation.rs\<close>, \<^verbatim>\<open>basic_block.rs\<close>, \<^verbatim>\<open>context.rs\<close>): \<open>drop_all_uses\<close>, \<open>dealloc\<close> and the \<open>erase\<close> functions; what
    they remove (\<open>below\<close>), what stays as it was (\<open>erased\<close>), and that the context stays consistent.
  \<^item> \<open>Inserter\<close> (\<^verbatim>\<open>irbuild/inserter.rs\<close>, \<^verbatim>\<open>irbuild/listener.rs\<close>): insertion points, inserters and listeners; a listener is the record
    of its callbacks, with the two of the program as instances. \<open>Rewriter\<close> (\<^verbatim>\<open>irbuild/rewriter.rs\<close>): inserting, replacing, erasing, moving,
    splitting and inlining through the rewriter, with the scoped rewriter that restores the insertion point.
    \<open>RewriteMove\<close>: the effect of inserting, moving, splitting and inlining on the lists of operations and blocks, for every listener that does
    not panic (locale \<open>move_listener\<close>, interpreted for both). \<open>RewriteReplace\<close>: replacing an operation renames its results and keeps what
    erasing needs. \<open>RewriteErase\<close>, \<open>RewriteSpec\<close>: erasing through the rewriter refines erasing in \<open>EraseSpec\<close> for every listener that lets it
    happen (locale \<open>erasure_listener\<close>, interpreted for both listeners), with the events in order, and the one case where it panics.

  \<^bold>\<open>Not modelled.\<close> Parsing, printing, locations (so the rewriter does not hand them on), logging and graphviz output; cloning, pattern
  matching, dialect conversion and the optimisation passes, which are written against traits of concrete operations; the concrete
  operations, types and attributes of the dialects and the crates for LLVM, which only instantiate the traits above or call
  third-party libraries; derive macros. The crates slotmap, indexmap and rustc_apfloat are
  not part of the sources: keys of new objects are arguments, the index map is a parameter.
\<close>

end
